(* ===== verification/Kernel_Prelude.thy ===== *)
theory Kernel_Prelude
  imports Main "HOL-Library.Word" "HOL-Library.Monad_Syntax"
begin

text \<open>
  What every component of the OS/161 kernel model shares.

  \<^item> \<open>errno\<close>: the error codes of \<^verbatim>\<open>kern/include/kern/errno.h\<close> that the modelled
    code returns. A C function that returns an error code and hands its result back through a
    pointer becomes a function into \<open>errno + 'a\<close>, with \<open>Inl\<close> for the error.
  \<^item> \<open>kassert\<close>: the \<^verbatim>\<open>KASSERT\<close> macro. A failed assertion, a \<^verbatim>\<open>panic\<close> and a
    null dereference stop the machine; in the model they are the value \<open>None\<close>, so that an
    operation has the type \<open>'s \<Rightarrow> ('s \<times> 'a) option\<close> and "it never panics" is a
    theorem and not an assumption.
  \<^item> \<open>divroundup\<close> and \<open>u32\<close>: unsigned 32-bit arithmetic written out over \<open>nat\<close>.
  \<^item> generic facts on lists searched by index, which carry the proofs about the kernel's
    linear searches.
\<close>

named_theorems kdefs \<open>definitions of the model that component proofs unfold\<close>

section \<open>Error codes\<close>

datatype errno =
    ENOSYS | ENOMEM | EAGAIN | EFAULT | ENAMETOOLONG | EINVAL | EPERM | ENOEXEC | E2BIG
  | ESRCH | ENOTDIR | EISDIR | ENOENT | EEXIST | EXDEV | ENODEV | ENXIO | EBUSY | EMFILE
  | EBADF | EIO | ESPIPE | ENOSPC | EFBIG

section \<open>Directions of a transfer\<close>

text \<open>\<^verbatim>\<open>UIO_READ\<close> moves data from the kernel to the buffers of a \<^verbatim>\<open>uio\<close>, \<^verbatim>\<open>UIO_WRITE\<close> the other way.\<close>

datatype uio_rw = UIO_READ | UIO_WRITE

section \<open>Assertions\<close>

definition kassert :: "bool \<Rightarrow> unit option" where
  "kassert b = (if b then Some () else None)"

lemma kassert_bind [simp]: "Option.bind (kassert b) f = (if b then f () else None)"
  by (simp add: kassert_def)

lemma kassert_eq_Some [simp]: "kassert b = Some u \<longleftrightarrow> b"
  by (simp add: kassert_def)

section \<open>Unsigned 32-bit arithmetic\<close>

abbreviation u32 :: "nat \<Rightarrow> nat" where
  "u32 n \<equiv> n mod 2 ^ 32"

definition divroundup :: "nat \<Rightarrow> nat \<Rightarrow> nat" where
  "divroundup a b = u32 (a + b - 1) div b"

lemma divroundup_eq: "a + b - 1 < 2 ^ 32 \<Longrightarrow> divroundup a b = (a + b - 1) div b"
  by (simp add: divroundup_def)

section \<open>Linear searches\<close>

text \<open>
  The kernel's searches are loops \<^verbatim>\<open>for (i = 0; i < n; i++) if (P(i)) return i;\<close>: the model
  writes them \<open>find P [0..<n]\<close>. The two facts below say that the index found is the least
  one and that finding nothing means there is nothing.
\<close>

lemma find_upt_None_iff [simp]: "find P [0..<n] = None \<longleftrightarrow> (\<forall>i<n. \<not> P i)"
  by (auto simp: find_None_iff)

lemma find_upt_Some_iff [simp]:
  "find P [0..<n] = Some i \<longleftrightarrow> i < n \<and> P i \<and> (\<forall>j<i. \<not> P j)"
proof
  assume "find P [0..<n] = Some i"
  then obtain k where k: "k < length [0..<n]" "P ([0..<n] ! k)" "i = [0..<n] ! k"
    "\<forall>j<k. \<not> P ([0..<n] ! j)"
    by (auto simp: find_Some_iff)
  then show "i < n \<and> P i \<and> (\<forall>j<i. \<not> P j)" by simp
next
  assume "i < n \<and> P i \<and> (\<forall>j<i. \<not> P j)"
  then show "find P [0..<n] = Some i"
    by (auto simp: find_Some_iff intro: exI [of _ i])
qed

lemma find_upt_Least: "find P [0..<n] = Some i \<Longrightarrow> i = (LEAST j. P j)"
  by (rule sym, rule Least_equality) (auto simp: not_less [symmetric])

lemma in_set_tlD: "x \<in> set (tl xs) \<Longrightarrow> x \<in> set xs"
  by (cases xs) auto

end
