(* ===== verification/Bitmap.thy ===== *)
theory Bitmap
  imports Kernel_Prelude
begin

unbundle bit_operations_syntax

text \<open>
  \<^verbatim>\<open>kern/lib/bitmap.c\<close>: the fixed-size array of bits the kernel uses for storage
  management. \<open>bitmap\<close> is the C structure, \<open>bm_v\<close> its bytes; each C function is one
  definition of the same name. \<open>bitmap_ok\<close> is the representation invariant (the byte array
  has the rounded-up length and the leftover bits of the last byte are marked in use) and
  \<open>bitmap_used\<close> the set the structure stands for.
\<close>

section \<open>The structure and its operations\<close>

record bitmap =
  bm_nbits :: nat
  bm_v :: "8 word list"

definition BITS_PER_WORD :: nat where
  [kdefs]: "BITS_PER_WORD = 8"

definition WORD_ALLBITS :: "8 word" where
  [kdefs]: "WORD_ALLBITS = 0xff"

text \<open>The mask of a bit, \<^verbatim>\<open>((WORD_TYPE)1) << offset\<close>.\<close>

definition bitmask :: "nat \<Rightarrow> 8 word" where
  "bitmask offset = push_bit offset 1"

text \<open>
  \<open>bitmap_create\<close> takes the outcome of its two calls of \<^verbatim>\<open>kmalloc\<close>. The outer option
  is the panic, the inner one the null pointer it hands back when there is no memory.
\<close>

definition bitmap_create :: "bool \<Rightarrow> bool \<Rightarrow> nat \<Rightarrow> bitmap option option" where
  "bitmap_create mem1 mem2 n =
     (let words = divroundup n BITS_PER_WORD in
      if \<not> mem1 then Some None
      else if \<not> mem2 then Some None
      else
        let b = \<lparr>bm_nbits = n, bm_v = replicate words 0\<rparr> in
        if words > n div BITS_PER_WORD then
          let ix = words - 1; overbits = n - ix * BITS_PER_WORD in
          do {
            kassert (n div BITS_PER_WORD = words - 1);
            kassert (overbits > 0 \<and> overbits < BITS_PER_WORD);
            Some (Some (b\<lparr>bm_v := (bm_v b)[ix :=
              fold (\<lambda>j w. w OR bitmask j) [overbits..<BITS_PER_WORD] (bm_v b ! ix)]\<rparr>))
          }
        else Some (Some b))"

definition bitmap_alloc :: "bitmap \<Rightarrow> (bitmap \<times> (errno + nat)) option" where
  "bitmap_alloc b =
     (let maxix = divroundup (bm_nbits b) BITS_PER_WORD in
      case find (\<lambda>ix. bm_v b ! ix \<noteq> WORD_ALLBITS) [0..<maxix] of
        None \<Rightarrow> Some (b, Inl ENOSPC)
      | Some ix \<Rightarrow>
          (case find (\<lambda>offset. bm_v b ! ix AND bitmask offset = 0) [0..<BITS_PER_WORD] of
             None \<Rightarrow> None
           | Some offset \<Rightarrow>
               do {
                 kassert (ix * BITS_PER_WORD + offset < bm_nbits b);
                 Some (b\<lparr>bm_v := (bm_v b)[ix := bm_v b ! ix OR bitmask offset]\<rparr>,
                       Inr (ix * BITS_PER_WORD + offset))
               }))"

definition bitmap_translate :: "nat \<Rightarrow> nat \<times> 8 word" where
  "bitmap_translate bitno = (bitno div BITS_PER_WORD, bitmask (bitno mod BITS_PER_WORD))"

definition bitmap_mark :: "bitmap \<Rightarrow> nat \<Rightarrow> bitmap option" where
  "bitmap_mark b index =
     do {
       kassert (index < bm_nbits b);
       let (ix, mask) = bitmap_translate index;
       kassert (bm_v b ! ix AND mask = 0);
       Some (b\<lparr>bm_v := (bm_v b)[ix := bm_v b ! ix OR mask]\<rparr>)
     }"

definition bitmap_unmark :: "bitmap \<Rightarrow> nat \<Rightarrow> bitmap option" where
  "bitmap_unmark b index =
     do {
       kassert (index < bm_nbits b);
       let (ix, mask) = bitmap_translate index;
       kassert (bm_v b ! ix AND mask \<noteq> 0);
       Some (b\<lparr>bm_v := (bm_v b)[ix := bm_v b ! ix AND NOT mask]\<rparr>)
     }"

text \<open>
  \<^verbatim>\<open>bitmap_isset\<close> does not check its argument: an index past the array reads memory that
  is not the bitmap's, which the model makes \<open>None\<close>.
\<close>

definition bitmap_isset :: "bitmap \<Rightarrow> nat \<Rightarrow> bool option" where
  "bitmap_isset b index =
     (let (ix, mask) = bitmap_translate index in
      if ix < length (bm_v b) then Some (bm_v b ! ix AND mask \<noteq> 0) else None)"


section \<open>Bits of a byte\<close>

lemma bit_bitmask [simp]: "k < 8 \<Longrightarrow> bit (bitmask k) i \<longleftrightarrow> i = k"
  by (auto simp: bitmask_def bit_exp_iff)

lemma and_mask_eq_0 [simp]: "k < 8 \<Longrightarrow> w AND bitmask k = 0 \<longleftrightarrow> \<not> bit w k"
  by (simp add: bitmask_def and_exp_eq_0_iff_not_bit)

lemma bit_or_mask [simp]: "k < 8 \<Longrightarrow> bit (w OR bitmask k) i \<longleftrightarrow> bit w i \<or> i = k"
  by (simp add: bit_or_iff)

lemma bit_andnot_mask [simp]: "k < 8 \<Longrightarrow> bit (w AND NOT (bitmask k)) i \<longleftrightarrow> bit w i \<and> i \<noteq> k"
  by (auto simp: bit_and_iff bit_not_iff dest: bit_imp_le_length)

lemma all_bits_set_iff: "(w :: 8 word) = 0xff \<longleftrightarrow> (\<forall>k<8. bit w k)"
proof -
  have "bit (0xff :: 8 word) k" if "k < 8" for k
    using that by (auto simp: less_Suc_eq numeral_eq_Suc bit_simps)
  then show ?thesis by (auto intro!: bit_word_eqI)
qed

lemma bit_fold_or_mask:
  "hi \<le> 8 \<Longrightarrow>
   bit (fold (\<lambda>j w. w OR bitmask j) [lo..<hi] (w :: 8 word)) i \<longleftrightarrow> bit w i \<or> lo \<le> i \<and> i < hi"
proof (induction hi)
  case 0
  then show ?case by simp
next
  case (Suc hi)
  then show ?case by (cases "lo \<le> hi") (auto simp: less_Suc_eq)
qed


section \<open>Invariant and abstraction\<close>

abbreviation bitset :: "bitmap \<Rightarrow> nat \<Rightarrow> bool" where
  "bitset b i \<equiv> bit (bm_v b ! (i div 8)) (i mod 8)"

definition bitmap_ok :: "bitmap \<Rightarrow> bool" where
  "bitmap_ok b \<longleftrightarrow> bm_nbits b + 7 < 2 ^ 32 \<and> length (bm_v b) = (bm_nbits b + 7) div 8 \<and>
     (\<forall>i<8 * length (bm_v b). bm_nbits b \<le> i \<longrightarrow> bitset b i)"

definition bitmap_used :: "bitmap \<Rightarrow> nat set" where
  "bitmap_used b = {i. i < bm_nbits b \<and> bitset b i}"

lemma bitmap_ok_words: "bitmap_ok b \<Longrightarrow> divroundup (bm_nbits b) 8 = length (bm_v b)"
  by (simp add: bitmap_ok_def divroundup_eq)

lemma bitmap_ok_bound: "bitmap_ok b \<Longrightarrow> i < bm_nbits b \<Longrightarrow> i div 8 < length (bm_v b)"
  by (simp add: bitmap_ok_def)

lemma bitmap_used_bound: "bitmap_used b \<subseteq> {..<bm_nbits b}"
  by (auto simp: bitmap_used_def)

lemma byte_index: "k < 8 \<Longrightarrow> i = ix * 8 + k \<longleftrightarrow> i div 8 = ix \<and> i mod 8 = k" for i :: nat
  by auto

text \<open>Setting or clearing one bit of one byte changes that bit of the map and no other.\<close>

lemma bitset_set:
  "ix < length (bm_v b) \<Longrightarrow> k < 8 \<Longrightarrow>
   bitset (b\<lparr>bm_v := (bm_v b)[ix := bm_v b ! ix OR bitmask k]\<rparr>) i \<longleftrightarrow> bitset b i \<or> i = ix * 8 + k"
  by (cases "i div 8 = ix") (auto simp: byte_index)

lemma bitset_clear:
  "ix < length (bm_v b) \<Longrightarrow> k < 8 \<Longrightarrow>
   bitset (b\<lparr>bm_v := (bm_v b)[ix := bm_v b ! ix AND NOT (bitmask k)]\<rparr>) i
     \<longleftrightarrow> bitset b i \<and> i \<noteq> ix * 8 + k"
  by (cases "i div 8 = ix") (auto simp: byte_index)

lemma bitmap_ok_set:
  assumes "bitmap_ok b" "ix * 8 + k < bm_nbits b" "k < 8"
  defines "b' \<equiv> b\<lparr>bm_v := (bm_v b)[ix := bm_v b ! ix OR bitmask k]\<rparr>"
  shows "bitmap_ok b'" "bitmap_used b' = insert (ix * 8 + k) (bitmap_used b)"
proof -
  have ix: "ix < length (bm_v b)"
    using bitmap_ok_bound [OF assms(1,2)] assms(3) by simp
  show "bitmap_ok b'"
    using assms(1) bitset_set [OF ix assms(3)] by (auto simp: bitmap_ok_def b'_def)
  show "bitmap_used b' = insert (ix * 8 + k) (bitmap_used b)"
    using assms(2) bitset_set [OF ix assms(3)] by (auto simp: bitmap_used_def b'_def)
qed

lemma bitmap_ok_clear:
  assumes "bitmap_ok b" "ix * 8 + k < bm_nbits b" "k < 8"
  defines "b' \<equiv> b\<lparr>bm_v := (bm_v b)[ix := bm_v b ! ix AND NOT (bitmask k)]\<rparr>"
  shows "bitmap_ok b'" "bitmap_used b' = bitmap_used b - {ix * 8 + k}"
proof -
  have ix: "ix < length (bm_v b)"
    using bitmap_ok_bound [OF assms(1,2)] assms(3) by simp
  show "bitmap_ok b'"
    using assms(1,2) bitset_clear [OF ix assms(3)] by (auto simp: bitmap_ok_def b'_def)
  show "bitmap_used b' = bitmap_used b - {ix * 8 + k}"
    using assms(2) bitset_clear [OF ix assms(3)] by (auto simp: bitmap_used_def b'_def)
qed

section \<open>What the operations do\<close>

lemma bitmap_isset_spec:
  "bitmap_ok b \<Longrightarrow> i < bm_nbits b \<Longrightarrow> bitmap_isset b i = Some (i \<in> bitmap_used b)"
  using bitmap_ok_bound
  by (simp add: bitmap_isset_def bitmap_translate_def bitmap_used_def kdefs)

lemma bitmap_mark_spec:
  assumes "bitmap_ok b" "i < bm_nbits b" "i \<notin> bitmap_used b"
  obtains b' where "bitmap_mark b i = Some b'" "bitmap_ok b'" "bm_nbits b' = bm_nbits b"
    "bitmap_used b' = insert i (bitmap_used b)"
  using assms bitmap_ok_set [of b "i div 8" "i mod 8"]
  by (auto simp: bitmap_mark_def bitmap_translate_def bitmap_used_def kdefs)

lemma bitmap_unmark_spec:
  assumes "bitmap_ok b" "i \<in> bitmap_used b"
  obtains b' where "bitmap_unmark b i = Some b'" "bitmap_ok b'" "bm_nbits b' = bm_nbits b"
    "bitmap_used b' = bitmap_used b - {i}"
  using assms bitmap_ok_clear [of b "i div 8" "i mod 8"]
  by (auto simp: bitmap_unmark_def bitmap_translate_def bitmap_used_def kdefs)

lemma bitmap_mark_panics:
  "bitmap_mark b i = None \<longleftrightarrow> bm_nbits b \<le> i \<or> i \<in> bitmap_used b"
  by (auto simp: bitmap_mark_def bitmap_translate_def bitmap_used_def kdefs)

lemma bitmap_unmark_panics:
  "bitmap_unmark b i = None \<longleftrightarrow> i \<notin> bitmap_used b"
  by (auto simp: bitmap_unmark_def bitmap_translate_def bitmap_used_def kdefs)

text \<open>
  The two nested searches of \<^verbatim>\<open>bitmap_alloc\<close> find the least clear bit of the byte array,
  and the invariant on the leftover bits puts it below \<open>bm_nbits\<close>, which is the assertion
  at the end of the C function.
\<close>

lemma bitmap_alloc_full:
  assumes "bitmap_ok b" "bitmap_used b = {..<bm_nbits b}"
  shows "bitmap_alloc b = Some (b, Inl ENOSPC)"
proof -
  have "bitset b i" if "i < 8 * length (bm_v b)" for i
    using that assms by (cases "i < bm_nbits b") (auto simp: bitmap_ok_def bitmap_used_def)
  then have "bm_v b ! ix = 0xff" if "ix < length (bm_v b)" for ix
    unfolding all_bits_set_iff
  proof (intro allI impI)
    fix k :: nat
    assume "k < 8" and *: "\<And>i. i < 8 * length (bm_v b) \<Longrightarrow> bitset b i"
    then show "bit (bm_v b ! ix) k" using *[of "ix * 8 + k"] that by simp
  qed
  then have "find (\<lambda>ix. bm_v b ! ix \<noteq> 0xff) [0..<length (bm_v b)] = None" by simp
  then show ?thesis
    using assms(1) by (simp add: bitmap_alloc_def kdefs bitmap_ok_words del: find_upt_None_iff)
qed

lemma bitmap_alloc_free:
  assumes ok: "bitmap_ok b" and i: "i < bm_nbits b" "i \<notin> bitmap_used b"
  obtains b' j where "bitmap_alloc b = Some (b', Inr j)" "bitmap_ok b'" "bm_nbits b' = bm_nbits b"
    "j < bm_nbits b" "j \<notin> bitmap_used b" "bitmap_used b' = insert j (bitmap_used b)"
    "\<forall>k<j. k \<in> bitmap_used b"
proof -
  have clear: "\<not> bitset b i" using i by (simp add: bitmap_used_def)
  have "bm_v b ! (i div 8) \<noteq> 0xff" using clear unfolding all_bits_set_iff by (metis mod_less_divisor zero_less_numeral)
  then obtain ix where ix: "find (\<lambda>ix. bm_v b ! ix \<noteq> 0xff) [0..<length (bm_v b)] = Some ix"
    using bitmap_ok_bound [OF ok i(1)]
    by (cases "find (\<lambda>ix. bm_v b ! ix \<noteq> 0xff) [0..<length (bm_v b)]") auto
  then have ixlen: "ix < length (bm_v b)" and below: "\<forall>ix'<ix. bm_v b ! ix' = 0xff"
    by auto
  from ix obtain k where k: "find (\<lambda>k. bm_v b ! ix AND bitmask k = 0) [0..<8] = Some k"
    by (cases "find (\<lambda>k. bm_v b ! ix AND bitmask k = 0) [0..<8]") (auto simp: all_bits_set_iff)
  then have k8: "k < 8" and kclear: "\<not> bit (bm_v b ! ix) k"
    and kbelow: "\<forall>k'<k. bit (bm_v b ! ix) k'"
    by auto
  have jclear: "\<not> bitset b (ix * 8 + k)" using k8 kclear by simp
  have j: "ix * 8 + k < bm_nbits b"
  proof (rule ccontr)
    assume "\<not> ix * 8 + k < bm_nbits b"
    moreover have "ix * 8 + k < 8 * length (bm_v b)" using ixlen k8 by linarith
    ultimately show False using ok jclear unfolding bitmap_ok_def by (meson not_less)
  qed
  have least: "k' \<in> bitmap_used b" if "k' < ix * 8 + k" for k'
  proof -
    have "bitset b k'"
    proof (cases "k' div 8 = ix")
      case True
      then have "k' mod 8 < k" using that by (metis add_less_cancel_left div_mult_mod_eq)
      then show ?thesis using True kbelow by simp
    next
      case False
      then have "k' div 8 < ix" using that k8 by linarith
      then show ?thesis using below by (simp add: all_bits_set_iff)
    qed
    then show ?thesis using that j by (simp add: bitmap_used_def)
  qed
  let ?b' = "b\<lparr>bm_v := (bm_v b)[ix := bm_v b ! ix OR bitmask k]\<rparr>"
  have "bitmap_alloc b = Some (?b', Inr (ix * 8 + k))"
    using j ix k ok
    by (simp add: bitmap_alloc_def kdefs bitmap_ok_words del: find_upt_Some_iff)
  moreover have "ix * 8 + k \<notin> bitmap_used b" using jclear by (simp add: bitmap_used_def)
  ultimately show ?thesis
    using that [of ?b' "ix * 8 + k"] bitmap_ok_set [OF ok j k8] j least by simp
qed


lemma round_up_8: "(n + 7) div 8 = (if n mod 8 = 0 then n div 8 else Suc (n div 8))" for n :: nat
proof (cases "n mod 8")
  case 0
  then have "n + 7 = 7 + 8 * (n div 8)" using mult_div_mod_eq [of 8 n] by linarith
  then show ?thesis using 0 by simp
next
  case (Suc r)
  define q where "q = n div 8"
  have "n = 8 * q + Suc r" using mult_div_mod_eq [of 8 n] Suc by (simp add: q_def)
  then have "n + 7 = r + 8 * Suc (n div 8)" unfolding q_def [symmetric] by simp
  moreover have "r < 8" using Suc mod_less_divisor [of 8 n] by linarith
  ultimately show ?thesis using Suc by simp
qed

lemma bitmap_create_spec:
  assumes "n + 7 < 2 ^ 32"
  obtains b where "bitmap_create True True n = Some (Some b)" "bitmap_ok b" "bm_nbits b = n"
    "bitmap_used b = {}"
proof (cases "n mod 8 = 0")
  case True
  then have "(n + 7) div 8 = n div 8" by (simp add: round_up_8)
  then have "bitmap_create True True n
      = Some (Some \<lparr>bm_nbits = n, bm_v = replicate (n div 8) 0\<rparr>)"
    using assms by (simp add: bitmap_create_def divroundup_eq kdefs Let_def add.commute)
  moreover have "8 * (n div 8) = n" using True by presburger
  moreover have "bitmap_used \<lparr>bm_nbits = n, bm_v = replicate (n div 8) 0\<rparr> = {}"
    using \<open>8 * (n div 8) = n\<close> less_mult_imp_div_less [of _ "n div 8" 8]
    by (simp add: bitmap_used_def mult.commute)
  ultimately show ?thesis
    using that [of "\<lparr>bm_nbits = n, bm_v = replicate (n div 8) 0\<rparr>"] assms \<open>(n + 7) div 8 = n div 8\<close>
    by (simp add: bitmap_ok_def)
next
  case False
  then have words: "(n + 7) div 8 = Suc (n div 8)" by (simp add: round_up_8)
  let ?last = "fold (\<lambda>j w. w OR bitmask j) [n mod 8..<8] 0"
  let ?b = "\<lparr>bm_nbits = n, bm_v = replicate (n div 8) 0 @ [?last]\<rparr>"
  have last: "bit ?last i \<longleftrightarrow> n mod 8 \<le> i \<and> i < 8" for i
    by (simp add: bit_fold_or_mask)
  have "n - n div 8 * 8 = n mod 8" by (simp add: minus_div_mult_eq_mod)
  then have create: "bitmap_create True True n = Some (Some ?b)"
    using assms False words
    by (simp add: bitmap_create_def divroundup_eq kdefs Let_def add.commute
        replicate_append_same [symmetric] list_update_append nth_append)
  have bits: "bitset ?b i \<longleftrightarrow> n \<le> i" if "i < 8 * Suc (n div 8)" for i
  proof (cases "i div 8 < n div 8")
    case True
    then have "\<not> n \<le> i" using div_le_mono linorder_not_less by blast
    with True show ?thesis by (simp add: nth_append)
  next
    case False
    then have eq: "i div 8 = n div 8"
      using less_mult_imp_div_less [of i "Suc (n div 8)" 8] that by simp
    then have "n mod 8 \<le> i mod 8 \<longleftrightarrow> n \<le> i"
      by (metis add_le_cancel_left mult_div_mod_eq)
    then show ?thesis using last [of "i mod 8"] eq by (simp add: nth_append)
  qed
  have len: "length (bm_v ?b) = Suc (n div 8)" by simp
  have lt: "n < 8 * Suc (n div 8)" by simp
  have empty: "bitmap_used ?b = {}"
  proof (rule equals0I)
    fix i assume "i \<in> bitmap_used ?b"
    then have "i < n" "bitset ?b i" by (simp_all only: bitmap_used_def mem_Collect_eq bitmap.simps)
    then show False using bits [of i] lt by linarith
  qed
  have "bitmap_ok ?b"
    unfolding bitmap_ok_def len
  proof (intro conjI allI impI)
    show "bitset ?b i" if "i < 8 * Suc (n div 8)" "bm_nbits ?b \<le> i" for i
      using bits [OF that(1)] that(2) by (simp only: bitmap.simps)
  qed (simp_all only: bitmap.simps words assms)
  then show ?thesis using that create empty by (simp only: bitmap.simps)
qed

section \<open>The allocator interface\<close>

text \<open>
  What the clients of the map rely on (\<^verbatim>\<open>kern/fs/sfs/sfs_balloc.c\<close> does): a pool of
  numbered units, some of them taken, with an operation that takes a free one and one that
  gives a taken one back.
\<close>

locale unit_pool =
  fixes alloc :: "'p \<Rightarrow> ('p \<times> (errno + nat)) option"
    and free :: "'p \<Rightarrow> nat \<Rightarrow> 'p option"
    and capacity :: "'p \<Rightarrow> nat"
    and taken :: "'p \<Rightarrow> nat set"
    and pool_ok :: "'p \<Rightarrow> bool"
  assumes taken_bound: "pool_ok p \<Longrightarrow> taken p \<subseteq> {..<capacity p}"
    and alloc_full: "pool_ok p \<Longrightarrow> taken p = {..<capacity p} \<Longrightarrow> alloc p = Some (p, Inl ENOSPC)"
    and alloc_free: "pool_ok p \<Longrightarrow> i < capacity p \<Longrightarrow> i \<notin> taken p \<Longrightarrow>
      \<exists>p' j. alloc p = Some (p', Inr j) \<and> pool_ok p' \<and> capacity p' = capacity p \<and>
        j < capacity p \<and> j \<notin> taken p \<and> taken p' = insert j (taken p) \<and> (\<forall>k<j. k \<in> taken p)"
    and free_taken: "pool_ok p \<Longrightarrow> i \<in> taken p \<Longrightarrow>
      \<exists>p'. free p i = Some p' \<and> pool_ok p' \<and> capacity p' = capacity p \<and> taken p' = taken p - {i}"
begin

lemma taken_finite: "pool_ok p \<Longrightarrow> finite (taken p)"
  using taken_bound finite_subset by blast

lemma alloc_cases:
  assumes "pool_ok p"
  obtains (full) "taken p = {..<capacity p}" "alloc p = Some (p, Inl ENOSPC)"
  | (got) p' j where "alloc p = Some (p', Inr j)" "pool_ok p'" "capacity p' = capacity p"
      "j < capacity p" "j \<notin> taken p" "taken p' = insert j (taken p)" "\<forall>k<j. k \<in> taken p"
proof (cases "taken p = {..<capacity p}")
  case True
  then show ?thesis using alloc_full assms full by blast
next
  case False
  then obtain i where "i < capacity p" "i \<notin> taken p" using taken_bound assms by blast
  then show ?thesis using alloc_free [OF assms] got by blast
qed

lemma alloc_ENOSPC_iff: "pool_ok p \<Longrightarrow> (\<exists>p'. alloc p = Some (p', Inl ENOSPC)) \<longleftrightarrow> taken p = {..<capacity p}"
  by (erule alloc_cases) (auto simp: alloc_full)

text \<open>Taking a unit and giving it back leaves the pool as it was.\<close>

lemma alloc_free_roundtrip:
  assumes "pool_ok p" "alloc p = Some (p', Inr j)"
  obtains p'' where "free p' j = Some p''" "pool_ok p''" "taken p'' = taken p"
proof -
  from assms obtain "pool_ok p'" "j \<notin> taken p" "taken p' = insert j (taken p)"
    by (auto elim: alloc_cases)
  then show ?thesis using free_taken [of p' j] that by auto
qed

text \<open>
  A client that takes \<open>n\<close> units in a row gets \<open>n\<close> distinct ones that were free, as long
  as the pool has them.
\<close>

primrec alloc_n :: "nat \<Rightarrow> 'p \<Rightarrow> ('p \<times> (errno + nat list)) option" where
  "alloc_n 0 p = Some (p, Inr [])"
| "alloc_n (Suc n) p =
     (case alloc p of
        None \<Rightarrow> None
      | Some (p', Inl e) \<Rightarrow> Some (p', Inl e)
      | Some (p', Inr i) \<Rightarrow>
          (case alloc_n n p' of
             None \<Rightarrow> None
           | Some (p'', Inl e) \<Rightarrow> Some (p'', Inl e)
           | Some (p'', Inr is) \<Rightarrow> Some (p'', Inr (i # is))))"

lemma alloc_n_spec:
  assumes "pool_ok p" "card (taken p) + n \<le> capacity p"
  shows "\<exists>p' is. alloc_n n p = Some (p', Inr is) \<and> pool_ok p' \<and> capacity p' = capacity p \<and>
    length is = n \<and> distinct is \<and> set is \<inter> taken p = {} \<and> taken p' = taken p \<union> set is"
  using assms
proof (induction n arbitrary: p)
  case 0
  then show ?case by simp
next
  case (Suc n)
  from Suc.prems(1) show ?case
  proof (cases rule: alloc_cases)
    case full
    then show ?thesis using Suc.prems(2) by simp
  next
    case (got p' j)
    then have "card (taken p') + n \<le> capacity p'"
      using Suc.prems taken_finite by simp
    from Suc.IH [OF got(2) this] obtain p'' "is" where
      "alloc_n n p' = Some (p'', Inr is)" "pool_ok p''" "capacity p'' = capacity p'"
      "length is = n" "distinct is" "set is \<inter> taken p' = {}" "taken p'' = taken p' \<union> set is"
      by blast
    then show ?thesis using got by auto
  qed
qed

end

interpretation bm: unit_pool bitmap_alloc bitmap_unmark bm_nbits bitmap_used bitmap_ok
proof unfold_locales
  fix p i
  assume "bitmap_ok p" "i < bm_nbits p" "i \<notin> bitmap_used p"
  then show "\<exists>p' j. bitmap_alloc p = Some (p', Inr j) \<and> bitmap_ok p' \<and>
      bm_nbits p' = bm_nbits p \<and> j < bm_nbits p \<and> j \<notin> bitmap_used p \<and>
      bitmap_used p' = insert j (bitmap_used p) \<and> (\<forall>k<j. k \<in> bitmap_used p)"
    by (metis bitmap_alloc_free)
next
  fix p i
  assume "bitmap_ok p" "i \<in> bitmap_used p"
  then show "\<exists>p'. bitmap_unmark p i = Some p' \<and> bitmap_ok p' \<and>
      bm_nbits p' = bm_nbits p \<and> bitmap_used p' = bitmap_used p - {i}"
    by (metis bitmap_unmark_spec)
qed (simp_all add: bitmap_used_bound bitmap_alloc_full)


section \<open>A bitmap is a finite set of numbers\<close>

text \<open>
  The contract over a whole client run: a program of operations on the byte array gives the
  answers, and the panics, that it gives on the set.
\<close>

datatype bitmap_op = Alloc | Mark nat | Unmark nat | Isset nat

datatype bitmap_res = Unit_res | Bool_res bool | Index_res "errno + nat"

fun bitmap_do :: "bitmap_op \<Rightarrow> bitmap \<Rightarrow> (bitmap \<times> bitmap_res) option" where
  "bitmap_do Alloc b = map_option (map_prod id Index_res) (bitmap_alloc b)"
| "bitmap_do (Mark i) b = map_option (\<lambda>b'. (b', Unit_res)) (bitmap_mark b i)"
| "bitmap_do (Unmark i) b = map_option (\<lambda>b'. (b', Unit_res)) (bitmap_unmark b i)"
| "bitmap_do (Isset i) b = map_option (\<lambda>r. (b, Bool_res r)) (bitmap_isset b i)"

fun pool_do :: "nat \<Rightarrow> bitmap_op \<Rightarrow> nat set \<Rightarrow> (nat set \<times> bitmap_res) option" where
  "pool_do n Alloc S =
     (case find (\<lambda>i. i \<notin> S) [0..<n] of
        None \<Rightarrow> Some (S, Index_res (Inl ENOSPC))
      | Some i \<Rightarrow> Some (insert i S, Index_res (Inr i)))"
| "pool_do n (Mark i) S = (if i < n \<and> i \<notin> S then Some (insert i S, Unit_res) else None)"
| "pool_do n (Unmark i) S = (if i \<in> S then Some (S - {i}, Unit_res) else None)"
| "pool_do n (Isset i) S =
     (if i < n then Some (S, Bool_res (i \<in> S))
      else if i < 8 * ((n + 7) div 8) then Some (S, Bool_res True) else None)"

fun bitmap_run :: "bitmap_op list \<Rightarrow> bitmap \<Rightarrow> (bitmap \<times> bitmap_res list) option" where
  "bitmap_run [] b = Some (b, [])"
| "bitmap_run (x # xs) b =
     do { (b', r) \<leftarrow> bitmap_do x b; (b'', rs) \<leftarrow> bitmap_run xs b'; Some (b'', r # rs) }"

fun pool_run :: "nat \<Rightarrow> bitmap_op list \<Rightarrow> nat set \<Rightarrow> (nat set \<times> bitmap_res list) option" where
  "pool_run n [] S = Some (S, [])"
| "pool_run n (x # xs) S =
     do { (S', r) \<leftarrow> pool_do n x S; (S'', rs) \<leftarrow> pool_run n xs S'; Some (S'', r # rs) }"

lemma bitmap_isset_past:
  assumes "bitmap_ok b" "bm_nbits b \<le> i"
  shows "bitmap_isset b i = (if i < 8 * ((bm_nbits b + 7) div 8) then Some True else None)"
proof -
  have "i div 8 < length (bm_v b) \<longleftrightarrow> i < 8 * length (bm_v b)"
    by (simp add: div_less_iff_less_mult mult.commute)
  then show ?thesis
    using assms by (auto simp: bitmap_isset_def bitmap_translate_def bitmap_ok_def kdefs)
qed

lemma bitmap_do_refines:
  assumes "bitmap_ok b"
  shows "map_option (map_prod bitmap_used id) (bitmap_do x b) = pool_do (bm_nbits b) x (bitmap_used b)"
proof (cases x)
  case Alloc
  from assms show ?thesis
  proof (cases rule: bm.alloc_cases)
    case full
    then have "find (\<lambda>i. i \<notin> bitmap_used b) [0..<bm_nbits b] = None" by auto
    then show ?thesis using full Alloc by (simp del: find_upt_None_iff)
  next
    case (got b' j)
    then have "find (\<lambda>i. i \<notin> bitmap_used b) [0..<bm_nbits b] = Some j" by auto
    then show ?thesis using got Alloc by (simp del: find_upt_Some_iff)
  qed
next
  case (Mark i)
  show ?thesis
  proof (cases "i < bm_nbits b \<and> i \<notin> bitmap_used b")
    case True
    then obtain b' where "bitmap_mark b i = Some b'" "bitmap_used b' = insert i (bitmap_used b)"
      using bitmap_mark_spec [OF assms] by metis
    then show ?thesis using Mark True by simp
  next
    case False
    then show ?thesis using Mark bitmap_mark_panics [of b i] by auto
  qed
next
  case (Unmark i)
  show ?thesis
  proof (cases "i \<in> bitmap_used b")
    case True
    then obtain b' where "bitmap_unmark b i = Some b'" "bitmap_used b' = bitmap_used b - {i}"
      using bitmap_unmark_spec [OF assms] by metis
    then show ?thesis using Unmark True by simp
  next
    case False
    then show ?thesis using Unmark bitmap_unmark_panics [of b i] by simp
  qed
next
  case (Isset i)
  then show ?thesis using assms
    by (cases "i < bm_nbits b") (simp_all add: bitmap_isset_spec bitmap_isset_past)
qed

lemma bitmap_do_ok:
  assumes "bitmap_ok b" "bitmap_do x b = Some (b', r)"
  shows "bitmap_ok b' \<and> bm_nbits b' = bm_nbits b"
proof (cases x)
  case Alloc
  from assms(1) show ?thesis by (cases rule: bm.alloc_cases) (use assms Alloc in auto)
next
  case (Mark i)
  then have "i < bm_nbits b" "i \<notin> bitmap_used b"
    using assms bitmap_mark_panics [of b i] by auto
  then obtain b'' where "bitmap_mark b i = Some b''" "bitmap_ok b''" "bm_nbits b'' = bm_nbits b"
    using bitmap_mark_spec [OF assms(1)] by metis
  then show ?thesis using Mark assms(2) by simp
next
  case (Unmark i)
  then have "i \<in> bitmap_used b" using assms bitmap_unmark_panics [of b i] by auto
  then obtain b'' where "bitmap_unmark b i = Some b''" "bitmap_ok b''" "bm_nbits b'' = bm_nbits b"
    using bitmap_unmark_spec [OF assms(1)] by metis
  then show ?thesis using Unmark assms(2) by simp
qed (use assms in auto)

lemma bitmap_run_refines:
  "bitmap_ok b \<Longrightarrow>
   map_option (map_prod bitmap_used id) (bitmap_run xs b) = pool_run (bm_nbits b) xs (bitmap_used b)"
proof (induction xs arbitrary: b)
  case (Cons x xs)
  note step = bitmap_do_refines [OF Cons.prems, of x]
  show ?case
  proof (cases "bitmap_do x b")
    case None
    then show ?thesis using step by (cases "pool_do (bm_nbits b) x (bitmap_used b)") auto
  next
    case (Some p)
    obtain b' r where p: "p = (b', r)" by (cases p)
    then have "bitmap_ok b'" "bm_nbits b' = bm_nbits b"
      using bitmap_do_ok Cons.prems Some by auto
    then have IH: "map_option (map_prod bitmap_used id) (bitmap_run xs b')
        = pool_run (bm_nbits b) xs (bitmap_used b')"
      using Cons.IH by metis
    have "pool_do (bm_nbits b) x (bitmap_used b) = Some (bitmap_used b', r)"
      using step Some p by simp
    then show ?thesis
      using Some p IH [symmetric] by (cases "bitmap_run xs b'") auto
  qed
qed simp

text \<open>
  C13. A bitmap of \<open>n\<close> bits behaves as a subset of \<open>{..<n}\<close>: every program of
  \<^verbatim>\<open>bitmap_alloc\<close>, \<^verbatim>\<open>bitmap_mark\<close>, \<^verbatim>\<open>bitmap_unmark\<close> and \<^verbatim>\<open>bitmap_isset\<close> calls,
  run on what \<^verbatim>\<open>bitmap_create\<close> returns, has exactly the results of the same program on the
  set, which starts empty: an allocation takes the least free number or says
  \<^verbatim>\<open>ENOSPC\<close>, and the run panics exactly when it marks a number twice or out of range, clears
  one that is not marked, or tests one past the last byte.
\<close>

theorem bitmap_refines_set:
  assumes "n + 7 < 2 ^ 32" and "bitmap_create True True n = Some (Some b)"
  shows "map_option (map_prod bitmap_used id) (bitmap_run xs b) = pool_run n xs {}"
proof -
  obtain b' where "bitmap_create True True n = Some (Some b')" "bitmap_ok b'" "bm_nbits b' = n"
    "bitmap_used b' = {}"
    using bitmap_create_spec [OF assms(1)] .
  then show ?thesis using assms(2) bitmap_run_refines [of b xs] by simp
qed

theorem bitmap_refines_set_witness:
  "\<exists>b. bitmap_create True True 10 = Some (Some b) \<and>
     map_option (map_prod bitmap_used id) (bitmap_run [Alloc, Mark 3, Alloc, Unmark 0, Isset 3, Alloc] b)
       = Some ({0, 1, 3}, [Index_res (Inr 0), Unit_res, Index_res (Inr 1), Unit_res, Bool_res True,
           Index_res (Inr 0)])"
proof -
  obtain b where b: "bitmap_create True True 10 = Some (Some b)"
    by (rule bitmap_create_spec [of 10]) simp
  have set: "pool_run 10 [Alloc, Mark 3, Alloc, Unmark 0, Isset 3, Alloc] {}
      = Some ({0, 1, 3}, [Index_res (Inr 0), Unit_res, Index_res (Inr 1), Unit_res, Bool_res True,
           Index_res (Inr 0)])"
    by (simp add: upt_rec [of 0 10] upt_rec [of "Suc 0" 10] insert_commute)
  have run: "map_option (map_prod bitmap_used id)
      (bitmap_run [Alloc, Mark 3, Alloc, Unmark 0, Isset 3, Alloc] b)
      = pool_run 10 [Alloc, Mark 3, Alloc, Unmark 0, Isset 3, Alloc] {}"
    using b by (intro bitmap_refines_set) simp_all
  show ?thesis using b trans [OF run set] by (intro exI [of _ b]) (rule conjI)
qed

end
