(* ===== verification/Threadlist.thy ===== *)
theory Threadlist
  imports Kernel_Prelude
begin

text \<open>
  \<^verbatim>\<open>kern/thread/threadlist.c\<close> and \<^verbatim>\<open>kern/include/threadlist.h\<close>: the intrusive doubly
  linked lists of threads that hold the run queues, the sleepers of a wait channel and the
  zombies. The pointer structure is modelled as it is: one node embedded in each thread
  (\<open>Node t\<close>), a head and a tail sentinel embedded in each list, and the fields of all nodes
  in one heap of maps, so that two lists can share a node if the code lets them. \<open>tl_world\<close>
  relates a heap to a family of sequences of threads and says that no node is shared; every
  operation is shown to keep it and to be the sequence operation it stands for.

  The source's \<^verbatim>\<open>DEBUGASSERT\<close>s, which the default build compiles away, are checked here,
  so that the theorems also show that none of them would fire.
\<close>

section \<open>Nodes, lists and the heap\<close>

type_synonym tid = nat

datatype tlnode = Head nat | Tail nat | Node tid

record tlheap =
  tln_prev :: "tlnode \<Rightarrow> tlnode option"
  tln_next :: "tlnode \<Rightarrow> tlnode option"
  tln_self :: "tlnode \<Rightarrow> tid option"
  tl_count :: "nat \<Rightarrow> 32 word"

abbreviation set_prev :: "tlnode \<Rightarrow> tlnode option \<Rightarrow> tlheap \<Rightarrow> tlheap" where
  "set_prev n p h \<equiv> h\<lparr>tln_prev := (tln_prev h)(n := p)\<rparr>"

abbreviation set_next :: "tlnode \<Rightarrow> tlnode option \<Rightarrow> tlheap \<Rightarrow> tlheap" where
  "set_next n p h \<equiv> h\<lparr>tln_next := (tln_next h)(n := p)\<rparr>"

abbreviation set_self :: "tlnode \<Rightarrow> tid option \<Rightarrow> tlheap \<Rightarrow> tlheap" where
  "set_self n p h \<equiv> h\<lparr>tln_self := (tln_self h)(n := p)\<rparr>"

abbreviation set_count :: "nat \<Rightarrow> 32 word \<Rightarrow> tlheap \<Rightarrow> tlheap" where
  "set_count l c h \<equiv> h\<lparr>tl_count := (tl_count h)(l := c)\<rparr>"

section \<open>The operations\<close>

definition threadlistnode_init :: "tid \<Rightarrow> tlheap \<Rightarrow> tlheap" where
  "threadlistnode_init t h =
     set_self (Node t) (Some t) (set_prev (Node t) None (set_next (Node t) None h))"

definition threadlistnode_cleanup :: "tid \<Rightarrow> tlheap \<Rightarrow> unit option" where
  "threadlistnode_cleanup t h =
     do {
       kassert (tln_next h (Node t) = None);
       kassert (tln_prev h (Node t) = None);
       kassert (tln_self h (Node t) \<noteq> None)
     }"

definition threadlist_init :: "nat \<Rightarrow> tlheap \<Rightarrow> tlheap" where
  "threadlist_init l h =
     set_count l 0 (set_self (Tail l) None (set_self (Head l) None
       (set_prev (Tail l) (Some (Head l)) (set_next (Tail l) None
         (set_prev (Head l) None (set_next (Head l) (Some (Tail l)) h))))))"

definition threadlist_isempty :: "nat \<Rightarrow> tlheap \<Rightarrow> bool" where
  "threadlist_isempty l h = (tl_count h l = 0)"

definition threadlist_cleanup :: "nat \<Rightarrow> tlheap \<Rightarrow> unit option" where
  "threadlist_cleanup l h =
     do {
       kassert (tln_next h (Head l) = Some (Tail l));
       kassert (tln_prev h (Head l) = None);
       kassert (tln_next h (Tail l) = None);
       kassert (tln_prev h (Tail l) = Some (Head l));
       kassert (tln_self h (Head l) = None);
       kassert (tln_self h (Tail l) = None);
       kassert (threadlist_isempty l h);
       kassert (tl_count h l = 0)
     }"

text \<open>
  The three internal routines, assignment by assignment; a pointer that is followed is bound,
  so that a null one stops the machine.
\<close>

definition threadlist_insertafternode :: "tlnode \<Rightarrow> tid \<Rightarrow> tlheap \<Rightarrow> tlheap option" where
  "threadlist_insertafternode onlist t h =
     do {
       let addee = Node t;
       kassert (tln_prev h addee = None);
       kassert (tln_next h addee = None);
       let h = set_prev addee (Some onlist) h;
       let h = set_next addee (tln_next h onlist) h;
       p \<leftarrow> tln_prev h addee;
       let h = set_next p (Some addee) h;
       n \<leftarrow> tln_next h addee;
       Some (set_prev n (Some addee) h)
     }"

definition threadlist_insertbeforenode :: "tid \<Rightarrow> tlnode \<Rightarrow> tlheap \<Rightarrow> tlheap option" where
  "threadlist_insertbeforenode t onlist h =
     do {
       let addee = Node t;
       kassert (tln_prev h addee = None);
       kassert (tln_next h addee = None);
       let h = set_prev addee (tln_prev h onlist) h;
       let h = set_next addee (Some onlist) h;
       p \<leftarrow> tln_prev h addee;
       let h = set_next p (Some addee) h;
       n \<leftarrow> tln_next h addee;
       Some (set_prev n (Some addee) h)
     }"

definition threadlist_removenode :: "tlnode \<Rightarrow> tlheap \<Rightarrow> tlheap option" where
  "threadlist_removenode tln h =
     do {
       p \<leftarrow> tln_prev h tln;
       let h = set_next p (tln_next h tln) h;
       n \<leftarrow> tln_next h tln;
       let h = set_prev n (tln_prev h tln) h;
       let h = set_prev tln None h;
       Some (set_next tln None h)
     }"

abbreviation inc_count :: "nat \<Rightarrow> tlheap \<Rightarrow> tlheap" where
  "inc_count l h \<equiv> set_count l (tl_count h l + 1) h"

definition threadlist_addhead :: "nat \<Rightarrow> tid \<Rightarrow> tlheap \<Rightarrow> tlheap option" where
  "threadlist_addhead l t h =
     do { h \<leftarrow> threadlist_insertafternode (Head l) t h; Some (inc_count l h) }"

definition threadlist_addtail :: "nat \<Rightarrow> tid \<Rightarrow> tlheap \<Rightarrow> tlheap option" where
  "threadlist_addtail l t h =
     do { h \<leftarrow> threadlist_insertbeforenode t (Tail l) h; Some (inc_count l h) }"

text \<open>\<^verbatim>\<open>tl_count--\<close>, after the \<^verbatim>\<open>DEBUGASSERT\<close> that it is positive.\<close>

definition dec_count :: "nat \<Rightarrow> tlheap \<Rightarrow> tlheap option" where
  "dec_count l h =
     do { kassert (tl_count h l \<noteq> 0); Some (set_count l (tl_count h l - 1) h) }"

definition threadlist_remhead :: "nat \<Rightarrow> tlheap \<Rightarrow> (tlheap \<times> tid option) option" where
  "threadlist_remhead l h =
     do {
       tln \<leftarrow> tln_next h (Head l);
       if tln_next h tln = None then Some (h, None)
       else do {
         h \<leftarrow> threadlist_removenode tln h;
         h \<leftarrow> dec_count l h;
         Some (h, tln_self h tln)
       }
     }"

definition threadlist_remtail :: "nat \<Rightarrow> tlheap \<Rightarrow> (tlheap \<times> tid option) option" where
  "threadlist_remtail l h =
     do {
       tln \<leftarrow> tln_prev h (Tail l);
       if tln_prev h tln = None then Some (h, None)
       else do {
         h \<leftarrow> threadlist_removenode tln h;
         h \<leftarrow> dec_count l h;
         Some (h, tln_self h tln)
       }
     }"

definition threadlist_insertafter :: "nat \<Rightarrow> tid \<Rightarrow> tid \<Rightarrow> tlheap \<Rightarrow> tlheap option" where
  "threadlist_insertafter l onlist addee h =
     do { h \<leftarrow> threadlist_insertafternode (Node onlist) addee h; Some (inc_count l h) }"

definition threadlist_insertbefore :: "nat \<Rightarrow> tid \<Rightarrow> tid \<Rightarrow> tlheap \<Rightarrow> tlheap option" where
  "threadlist_insertbefore l addee onlist h =
     do { h \<leftarrow> threadlist_insertbeforenode addee (Node onlist) h; Some (inc_count l h) }"

definition threadlist_remove :: "nat \<Rightarrow> tid \<Rightarrow> tlheap \<Rightarrow> tlheap option" where
  "threadlist_remove l t h =
     do { h \<leftarrow> threadlist_removenode (Node t) h; dec_count l h }"

text \<open>
  \<^verbatim>\<open>THREADLIST_FORALL\<close>, collecting the values of the iteration variable. The loop has no bound
  of its own: \<open>k\<close> is fuel, and \<open>None\<close> covers both a null dereference and running out.
\<close>

fun forall_from :: "nat \<Rightarrow> tlnode option \<Rightarrow> tlheap \<Rightarrow> tid list option" where
  "forall_from k None h = None"
| "forall_from k (Some n) h =
     (case tln_self h n of
        None \<Rightarrow> Some []
      | Some t \<Rightarrow>
          (case k of
             0 \<Rightarrow> None
           | Suc k \<Rightarrow> map_option (Cons t) (forall_from k (tln_next h (Node t)) h)))"

definition THREADLIST_FORALL :: "nat \<Rightarrow> nat \<Rightarrow> tlheap \<Rightarrow> tid list option" where
  "THREADLIST_FORALL k l h = forall_from k (tln_next h (Head l)) h"

section \<open>Chains\<close>

fun linked :: "tlheap \<Rightarrow> tlnode list \<Rightarrow> bool" where
  "linked h [] \<longleftrightarrow> True"
| "linked h [a] \<longleftrightarrow> True"
| "linked h (a # b # ns) \<longleftrightarrow>
     tln_next h a = Some b \<and> tln_prev h b = Some a \<and> linked h (b # ns)"

lemma linked_append:
  "linked h (xs @ y # ys) \<longleftrightarrow> linked h (xs @ [y]) \<and> linked h (y # ys)"
proof (induction xs)
  case (Cons x xs)
  then show ?case by (cases xs) auto
qed simp

lemma linked_frame:
  assumes "\<forall>n\<in>set (butlast ns). tln_next h' n = tln_next h n"
    and "\<forall>n\<in>set (tl ns). tln_prev h' n = tln_prev h n"
  shows "linked h' ns = linked h ns"
  using assms by (induction h ns rule: linked.induct) auto

lemma linked_count [simp]: "linked (h\<lparr>tl_count := c\<rparr>) ns = linked h ns"
  by (rule linked_frame) simp_all

text \<open>What the four assignments of an insertion and of a removal do to the heap.\<close>

definition splice :: "tlnode \<Rightarrow> tlnode \<Rightarrow> tlnode \<Rightarrow> tlheap \<Rightarrow> tlheap" where
  "splice a x b h = set_prev b (Some x) (set_next a (Some x)
     (set_next x (Some b) (set_prev x (Some a) h)))"

definition unsplice :: "tlnode \<Rightarrow> tlnode \<Rightarrow> tlnode \<Rightarrow> tlheap \<Rightarrow> tlheap" where
  "unsplice a x b h = set_next x None (set_prev x None
     (set_prev b (Some a) (set_next a (Some b) h)))"

lemma splice_sel [simp]:
  "tln_next (splice a x b h) = (tln_next h)(x := Some b, a := Some x)"
  "tln_prev (splice a x b h) = (tln_prev h)(x := Some a, b := Some x)"
  "tln_self (splice a x b h) = tln_self h"
  "tl_count (splice a x b h) = tl_count h"
  by (simp_all add: splice_def)

lemma unsplice_sel [simp]:
  "tln_next (unsplice a x b h) = (tln_next h)(a := Some b, x := None)"
  "tln_prev (unsplice a x b h) = (tln_prev h)(b := Some a, x := None)"
  "tln_self (unsplice a x b h) = tln_self h"
  "tl_count (unsplice a x b h) = tl_count h"
  by (simp_all add: unsplice_def)

lemma insertafternode_eq:
  assumes "tln_prev h (Node t) = None" "tln_next h (Node t) = None"
    "tln_next h a = Some b" "a \<noteq> Node t"
  shows "threadlist_insertafternode a t h = Some (splice a (Node t) b h)"
  using assms by (simp add: threadlist_insertafternode_def splice_def Let_def)

lemma insertbeforenode_eq:
  assumes "tln_prev h (Node t) = None" "tln_next h (Node t) = None"
    "tln_prev h b = Some a" "b \<noteq> Node t" "a \<noteq> Node t"
  shows "threadlist_insertbeforenode t b h = Some (splice a (Node t) b h)"
  using assms by (simp add: threadlist_insertbeforenode_def splice_def Let_def fun_upd_twist)

lemma removenode_eq:
  assumes "tln_prev h x = Some a" "tln_next h x = Some b" "a \<noteq> x" "b \<noteq> x"
  shows "threadlist_removenode x h = Some (unsplice a x b h)"
  using assms by (simp add: threadlist_removenode_def unsplice_def Let_def)

lemma linked_splice:
  assumes "linked h (as @ a # b # bs)" "distinct (as @ a # b # bs)" "x \<notin> set (as @ a # b # bs)"
  shows "linked (splice a x b h) (as @ a # x # b # bs)"
proof -
  from assms(1) have *: "linked h (as @ [a])" "linked h (b # bs)"
    using linked_append [of h as a "b # bs"] by auto
  have "linked (splice a x b h) (as @ [a]) = linked h (as @ [a])"
    by (rule linked_frame) (use assms(2,3) in \<open>auto dest: in_set_tlD simp: butlast_append\<close>)
  moreover have "linked (splice a x b h) (b # bs) = linked h (b # bs)"
    by (rule linked_frame) (use assms(2,3) in \<open>auto dest: in_set_butlastD\<close>)
  ultimately show ?thesis
    using * assms(2,3) linked_append [of "splice a x b h" as a "x # b # bs"] by auto
qed

lemma linked_unsplice:
  assumes "linked h (as @ a # x # b # bs)" "distinct (as @ a # x # b # bs)"
  shows "linked (unsplice a x b h) (as @ a # b # bs)"
proof -
  from assms(1) have *: "linked h (as @ [a])" "linked h (b # bs)"
    using linked_append [of h as a "x # b # bs"] by auto
  have "linked (unsplice a x b h) (as @ [a]) = linked h (as @ [a])"
    by (rule linked_frame) (use assms(2) in \<open>auto dest: in_set_tlD simp: butlast_append\<close>)
  moreover have "linked (unsplice a x b h) (b # bs) = linked h (b # bs)"
    by (rule linked_frame) (use assms(2) in \<open>auto dest: in_set_butlastD\<close>)
  ultimately show ?thesis
    using * assms(2) linked_append [of "unsplice a x b h" as a "b # bs"] by auto
qed

section \<open>The world of lists\<close>

definition nodes :: "nat \<Rightarrow> tid list \<Rightarrow> tlnode list" where
  "nodes l xs = Head l # map Node xs @ [Tail l]"

definition tl_rep :: "tlheap \<Rightarrow> nat \<Rightarrow> tid list \<Rightarrow> bool" where
  "tl_rep h l xs \<longleftrightarrow> linked h (nodes l xs) \<and> distinct xs \<and>
     tln_prev h (Head l) = None \<and> tln_next h (Tail l) = None \<and>
     tln_self h (Head l) = None \<and> tln_self h (Tail l) = None \<and>
     (\<forall>t\<in>set xs. tln_self h (Node t) = Some t) \<and> tl_count h l = of_nat (length xs)"

definition on_some_list :: "(nat \<rightharpoonup> tid list) \<Rightarrow> tid \<Rightarrow> bool" where
  "on_some_list L t \<longleftrightarrow> (\<exists>l xs. L l = Some xs \<and> t \<in> set xs)"

lemma on_some_list_upd:
  "on_some_list (L(l \<mapsto> xs)) t \<longleftrightarrow> t \<in> set xs \<or> (\<exists>l' ys. l' \<noteq> l \<and> L l' = Some ys \<and> t \<in> set ys)"
  by (auto simp: on_some_list_def)

lemma on_some_list_at:
  "L l = Some xs \<Longrightarrow>
   on_some_list L t \<longleftrightarrow> t \<in> set xs \<or> (\<exists>l' ys. l' \<noteq> l \<and> L l' = Some ys \<and> t \<in> set ys)"
  using on_some_list_upd [of L l xs t] by (simp add: fun_upd_idem)

definition lists_disjoint :: "(nat \<rightharpoonup> tid list) \<Rightarrow> bool" where
  "lists_disjoint L \<longleftrightarrow>
     (\<forall>l l' xs ys. L l = Some xs \<longrightarrow> L l' = Some ys \<longrightarrow> l \<noteq> l' \<longrightarrow> set xs \<inter> set ys = {})"

lemma lists_disjoint_upd:
  assumes "lists_disjoint L"
    and new: "\<And>t l' ys. t \<in> set xs \<Longrightarrow> l' \<noteq> l \<Longrightarrow> L l' = Some ys \<Longrightarrow> t \<notin> set ys"
  shows "lists_disjoint (L(l \<mapsto> xs))"
  unfolding lists_disjoint_def
proof (intro allI impI)
  fix k k' zs zs'
  assume k: "(L(l \<mapsto> xs)) k = Some zs" and k': "(L(l \<mapsto> xs)) k' = Some zs'" and ne: "k \<noteq> k'"
  show "set zs \<inter> set zs' = {}"
  proof (cases "k = l")
    case True
    then have "zs = xs" "L k' = Some zs'" "k' \<noteq> l" using k k' ne by auto
    then show ?thesis using new [of _ k' zs'] by blast
  next
    case False
    then have k: "L k = Some zs" using k by simp
    show ?thesis
    proof (cases "k' = l")
      case True
      then show ?thesis using new [of _ k zs] k k' False by auto
    next
      case False
      then show ?thesis using assms(1) k k' ne unfolding lists_disjoint_def by simp
    qed
  qed
qed

lemma lists_disjointD:
  "lists_disjoint L \<Longrightarrow> L l = Some xs \<Longrightarrow> L l' = Some ys \<Longrightarrow> l' \<noteq> l \<Longrightarrow> t \<in> set xs \<Longrightarrow> t \<notin> set ys"
  unfolding lists_disjoint_def by blast

definition tl_world :: "tlheap \<Rightarrow> (nat \<rightharpoonup> tid list) \<Rightarrow> bool" where
  "tl_world h L \<longleftrightarrow>
     (\<forall>l xs. L l = Some xs \<longrightarrow> tl_rep h l xs) \<and> lists_disjoint L \<and>
     (\<forall>t. tln_self h (Node t) = Some t \<longrightarrow> \<not> on_some_list L t \<longrightarrow>
        tln_prev h (Node t) = None \<and> tln_next h (Node t) = None)"

lemma distinct_nodes [simp]: "distinct (nodes l xs) = distinct xs"
  by (auto simp: nodes_def distinct_map inj_on_def)

lemma set_nodes [simp]: "set (nodes l xs) = {Head l, Tail l} \<union> Node ` set xs"
  by (auto simp: nodes_def)

text \<open>The neighbours of a position of a list.\<close>

definition left_of :: "nat \<Rightarrow> tid list \<Rightarrow> tlnode" where
  "left_of l xs = last (Head l # map Node xs)"

definition right_of :: "nat \<Rightarrow> tid list \<Rightarrow> tlnode" where
  "right_of l ys = hd (map Node ys @ [Tail l])"

lemma left_of_simps [simp]: "left_of l [] = Head l" "left_of l (xs @ [x]) = Node x"
  by (simp_all add: left_of_def)

lemma right_of_simps [simp]: "right_of l [] = Tail l" "right_of l (y # ys) = Node y"
  by (simp_all add: right_of_def)

lemma left_of_in: "left_of l xs \<in> {Head l} \<union> Node ` set xs"
  by (induction xs rule: rev_induct) auto

lemma right_of_in: "right_of l xs \<in> {Tail l} \<union> Node ` set xs"
  by (cases xs) auto

lemma nodes_split:
  "nodes l (xs @ ys) = butlast (Head l # map Node xs) @ left_of l xs # right_of l ys
     # tl (map Node ys @ [Tail l])"
proof -
  have "Head l # map Node xs = butlast (Head l # map Node xs) @ [left_of l xs]"
    by (simp add: left_of_def del: last.simps butlast.simps)
  moreover have "map Node ys @ [Tail l] = right_of l ys # tl (map Node ys @ [Tail l])"
    by (simp add: right_of_def)
  ultimately show ?thesis unfolding nodes_def by (metis append.assoc append_Cons append_Nil map_append)
qed

lemma nodes_split_elem:
  "nodes l (xs @ t # ys) = butlast (Head l # map Node xs) @ left_of l xs # Node t # right_of l ys
     # tl (map Node ys @ [Tail l])"
proof -
  have "Head l # map Node xs = butlast (Head l # map Node xs) @ [left_of l xs]"
    by (simp add: left_of_def del: last.simps butlast.simps)
  moreover have "map Node ys @ [Tail l] = right_of l ys # tl (map Node ys @ [Tail l])"
    by (simp add: right_of_def)
  ultimately show ?thesis unfolding nodes_def
    by (metis append.assoc append_Cons append_Nil list.simps(9) map_append)
qed

lemma tl_rep_gap:
  assumes "tl_rep h l (xs @ ys)"
  shows "tln_next h (left_of l xs) = Some (right_of l ys)"
    and "tln_prev h (right_of l ys) = Some (left_of l xs)"
  using assms linked_append [of h "butlast (Head l # map Node xs)" "left_of l xs"
      "right_of l ys # tl (map Node ys @ [Tail l])"]
  by (auto simp: tl_rep_def nodes_split)

lemma tl_rep_elem:
  assumes "tl_rep h l (xs @ t # ys)"
  shows "tln_prev h (Node t) = Some (left_of l xs)" "tln_next h (Node t) = Some (right_of l ys)"
  using tl_rep_gap [of h l xs "t # ys"] tl_rep_gap [of h l "xs @ [t]" ys] assms by simp_all

lemma tl_rep_frame:
  assumes "tl_rep h l xs" "\<forall>n\<in>set (nodes l xs). tln_next h' n = tln_next h n \<and> tln_prev h' n = tln_prev h n"
    "tln_self h' = tln_self h" "tl_count h' l = tl_count h l"
  shows "tl_rep h' l xs"
proof -
  have "linked h' (nodes l xs) = linked h (nodes l xs)"
    using assms(2) by (intro linked_frame) (auto dest!: in_set_butlastD in_set_tlD)
  then show ?thesis using assms by (simp add: tl_rep_def)
qed

lemma tl_worldD:
  assumes "tl_world h L" "L l = Some xs"
  shows "tl_rep h l xs" "distinct xs" "t \<in> set xs \<Longrightarrow> tln_self h (Node t) = Some t"
  using assms unfolding tl_world_def tl_rep_def by blast+

lemma tl_world_other:
  assumes "tl_world h L" "L l = Some xs" "L l' = Some ys" "l \<noteq> l'"
  shows "set (nodes l xs) \<inter> set (nodes l' ys) = {}"
proof -
  have "set xs \<inter> set ys = {}" using assms unfolding tl_world_def lists_disjoint_def by blast
  then show ?thesis using assms(4) by auto
qed

lemma tl_world_splice:
  assumes w: "tl_world h L" and l: "L l = Some (xs @ ys)"
    and t: "tln_self h (Node t) = Some t" "\<not> on_some_list L t"
  defines "h' \<equiv> inc_count l (splice (left_of l xs) (Node t) (right_of l ys) h)"
  shows "tl_world h' (L(l \<mapsto> xs @ t # ys))"
proof -
  have rep: "tl_rep h l (xs @ ys)" using w l by (rule tl_worldD)
  have fresh: "t \<notin> set xs" "t \<notin> set ys"
    using t(2) l unfolding on_some_list_def by (metis Un_iff set_append)+
  have ends: "left_of l xs \<in> set (nodes l (xs @ ys))" "right_of l ys \<in> set (nodes l (xs @ ys))"
    using left_of_in [of l xs] right_of_in [of l ys] by auto
  let ?as = "butlast (Head l # map Node xs)" and ?bs = "tl (map Node ys @ [Tail l])"
  have "linked (splice (left_of l xs) (Node t) (right_of l ys) h) (nodes l (xs @ t # ys))"
    unfolding nodes_split_elem
  proof (rule linked_splice)
    show "linked h (?as @ left_of l xs # right_of l ys # ?bs)"
      using rep by (simp only: tl_rep_def nodes_split)
    show "distinct (?as @ left_of l xs # right_of l ys # ?bs)"
      using rep distinct_nodes [of l "xs @ ys"] by (simp only: tl_rep_def nodes_split)
    show "Node t \<notin> set (?as @ left_of l xs # right_of l ys # ?bs)"
      using fresh set_nodes [of l "xs @ ys"] unfolding nodes_split [symmetric] by auto
  qed
  then have "linked h' (nodes l (xs @ t # ys))"
    by (simp add: h'_def)
  moreover have "Head l \<noteq> right_of l ys" "Tail l \<noteq> left_of l xs"
    using left_of_in [of l xs] right_of_in [of l ys] by auto
  ultimately have here: "tl_rep h' l (xs @ t # ys)"
    using rep fresh t(1) by (auto simp: tl_rep_def h'_def)
  have there: "tl_rep h' l' zs" if "L l' = Some zs" "l' \<noteq> l" for l' zs
  proof (rule tl_rep_frame)
    show "tl_rep h l' zs" using w that(1) by (rule tl_worldD)
    have "Node t \<notin> set (nodes l' zs)" using t(2) that(1) by (auto simp: on_some_list_def)
    moreover have "left_of l xs \<notin> set (nodes l' zs)" "right_of l ys \<notin> set (nodes l' zs)"
      using tl_world_other [OF w l that(1)] that(2) ends by blast+
    ultimately show "\<forall>n\<in>set (nodes l' zs). tln_next h' n = tln_next h n \<and> tln_prev h' n = tln_prev h n"
      by (auto simp: h'_def simp del: set_nodes)
  qed (use that in \<open>simp_all add: h'_def\<close>)
  have off: "tln_prev h' (Node u) = None \<and> tln_next h' (Node u) = None"
    if "tln_self h' (Node u) = Some u" "\<not> on_some_list (L(l \<mapsto> xs @ t # ys)) u" for u
  proof -
    have "u \<noteq> t" "u \<notin> set (xs @ ys)" "\<not> on_some_list L u"
      using that(2) by (auto simp: on_some_list_upd on_some_list_at [of L l, OF l])
    moreover from this have "Node u \<noteq> left_of l xs" "Node u \<noteq> right_of l ys" using ends by auto
    ultimately show ?thesis using w that(1) by (simp add: tl_world_def h'_def)
  qed
  have disj: "lists_disjoint L" using w by (simp add: tl_world_def)
  have "lists_disjoint (L(l \<mapsto> xs @ t # ys))"
    using lists_disjointD [OF disj l] t(2) by (intro lists_disjoint_upd disj) (auto simp: on_some_list_def)
  then show ?thesis unfolding tl_world_def using here there off by (auto split: if_splits)
qed

lemma tl_world_unsplice:
  assumes w: "tl_world h L" and l: "L l = Some (xs @ t # ys)"
  defines "h' \<equiv> set_count l (tl_count h l - 1) (unsplice (left_of l xs) (Node t) (right_of l ys) h)"
  shows "tl_world h' (L(l \<mapsto> xs @ ys))"
proof -
  have rep: "tl_rep h l (xs @ t # ys)" using w l by (rule tl_worldD)
  have ends: "left_of l xs \<in> set (nodes l (xs @ t # ys))" "right_of l ys \<in> set (nodes l (xs @ t # ys))"
    using left_of_in [of l xs] right_of_in [of l ys] by auto
  let ?as = "butlast (Head l # map Node xs)" and ?bs = "tl (map Node ys @ [Tail l])"
  have "linked (unsplice (left_of l xs) (Node t) (right_of l ys) h) (nodes l (xs @ ys))"
    unfolding nodes_split
  proof (rule linked_unsplice)
    show "linked h (?as @ left_of l xs # Node t # right_of l ys # ?bs)"
      using rep by (simp only: tl_rep_def nodes_split_elem)
    show "distinct (?as @ left_of l xs # Node t # right_of l ys # ?bs)"
      using rep distinct_nodes [of l "xs @ t # ys"] by (simp only: tl_rep_def nodes_split_elem)
  qed
  then have "linked h' (nodes l (xs @ ys))"
    by (simp add: h'_def)
  moreover have "Head l \<noteq> right_of l ys" "Tail l \<noteq> left_of l xs"
    using left_of_in [of l xs] right_of_in [of l ys] by auto
  ultimately have here: "tl_rep h' l (xs @ ys)"
    using rep by (auto simp: tl_rep_def h'_def)
  have there: "tl_rep h' l' zs" if "L l' = Some zs" "l' \<noteq> l" for l' zs
  proof (rule tl_rep_frame)
    show "tl_rep h l' zs" using w that(1) by (rule tl_worldD)
    have "Node t \<in> set (nodes l (xs @ t # ys))" by simp
    then have "Node t \<notin> set (nodes l' zs)" "left_of l xs \<notin> set (nodes l' zs)"
      "right_of l ys \<notin> set (nodes l' zs)"
      using tl_world_other [OF w l that(1)] that(2) ends by blast+
    then show "\<forall>n\<in>set (nodes l' zs). tln_next h' n = tln_next h n \<and> tln_prev h' n = tln_prev h n"
      by (auto simp: h'_def simp del: set_nodes)
  qed (use that in \<open>simp_all add: h'_def\<close>)
  have off: "tln_prev h' (Node u) = None \<and> tln_next h' (Node u) = None"
    if "tln_self h' (Node u) = Some u" "\<not> on_some_list (L(l \<mapsto> xs @ ys)) u" for u
  proof (cases "u = t")
    case True
    then show ?thesis by (simp add: h'_def)
  next
    case False
    have "u \<notin> set (xs @ ys)" "\<not> on_some_list L u"
      using that(2) False by (auto simp: on_some_list_upd on_some_list_at [of L l, OF l])
    moreover from this have "Node u \<noteq> left_of l xs" "Node u \<noteq> right_of l ys" using ends False by auto
    ultimately show ?thesis using w that(1) False by (simp add: tl_world_def h'_def)
  qed
  have disj: "lists_disjoint L" using w by (simp add: tl_world_def)
  have "lists_disjoint (L(l \<mapsto> xs @ ys))"
    using lists_disjointD [OF disj l] by (intro lists_disjoint_upd disj) auto
  then show ?thesis unfolding tl_world_def using here there off by (auto split: if_splits)
qed

section \<open>The operations on the world\<close>

lemma tl_world_node_init:
  assumes w: "tl_world h L" and t: "\<not> on_some_list L t"
  shows "tl_world (threadlistnode_init t h) L"
proof -
  have "tl_rep (threadlistnode_init t h) l xs" if l: "L l = Some xs" for l xs
  proof -
    have "Node t \<notin> set (nodes l xs)" using t l by (auto simp: on_some_list_def)
    then have "linked (threadlistnode_init t h) (nodes l xs) = linked h (nodes l xs)"
      by (intro linked_frame) (auto simp: threadlistnode_init_def dest: in_set_butlastD in_set_tlD)
    then show ?thesis
      using tl_worldD [OF w l] t l by (auto simp: tl_rep_def threadlistnode_init_def on_some_list_def)
  qed
  then show ?thesis using w by (auto simp: tl_world_def threadlistnode_init_def)
qed

lemma tl_world_init:
  assumes w: "tl_world h L" and l: "L l = None"
  shows "tl_world (threadlist_init l h) (L(l \<mapsto> []))"
proof -
  have "tl_rep (threadlist_init l h) l' xs" if "L l' = Some xs" "l' \<noteq> l" for l' xs
  proof -
    have "linked (threadlist_init l h) (nodes l' xs) = linked h (nodes l' xs)"
      using that by (intro linked_frame) (auto simp: threadlist_init_def dest!: in_set_butlastD in_set_tlD)
    then show ?thesis
      using tl_worldD [OF w that(1)] that by (auto simp: tl_rep_def threadlist_init_def)
  qed
  moreover have "tl_rep (threadlist_init l h) l []"
    by (simp add: tl_rep_def threadlist_init_def nodes_def)
  moreover have "on_some_list (L(l \<mapsto> [])) = on_some_list L"
    using l unfolding fun_eq_iff on_some_list_upd
    by (metis empty_iff list.set(1) on_some_list_def option.distinct(1))
  moreover have "lists_disjoint (L(l \<mapsto> []))"
    using w by (intro lists_disjoint_upd) (auto simp: tl_world_def)
  ultimately show ?thesis
    using w l by (auto simp: tl_world_def threadlist_init_def split: if_splits)
qed

text \<open>A thread that can be put on a list: its node is initialised and on no list.\<close>

abbreviation free_thread :: "tlheap \<Rightarrow> (nat \<rightharpoonup> tid list) \<Rightarrow> tid \<Rightarrow> bool" where
  "free_thread h L t \<equiv> tln_self h (Node t) = Some t \<and> \<not> on_some_list L t"

lemma free_thread_clean:
  "tl_world h L \<Longrightarrow> free_thread h L t \<Longrightarrow> tln_prev h (Node t) = None \<and> tln_next h (Node t) = None"
  by (simp add: tl_world_def)

lemma insertion_point:
  assumes "tl_world h L" "L l = Some (xs @ ys)" "free_thread h L t"
  shows "tln_next h (left_of l xs) = Some (right_of l ys)" "tln_prev h (right_of l ys) = Some (left_of l xs)"
    "left_of l xs \<noteq> Node t" "right_of l ys \<noteq> Node t"
proof -
  have "t \<notin> set xs" "t \<notin> set ys" using assms(2,3) unfolding on_some_list_def by (metis Un_iff set_append)+
  then show "left_of l xs \<noteq> Node t" "right_of l ys \<noteq> Node t"
    using left_of_in [of l xs] right_of_in [of l ys] by auto
qed (use tl_rep_gap tl_worldD(1) [OF assms(1,2)] in auto)

lemma insertafter_world:
  assumes "tl_world h L" "L l = Some (xs @ ys)" "free_thread h L t"
  shows "\<exists>h'. threadlist_insertafternode (left_of l xs) t h = Some h' \<and>
    tl_world (inc_count l h') (L(l \<mapsto> xs @ t # ys)) \<and> tln_self h' = tln_self h"
  using insertafternode_eq insertion_point [OF assms] free_thread_clean [OF assms(1,3)]
    tl_world_splice [OF assms(1,2)] assms(3) by auto

lemma insertbefore_world:
  assumes "tl_world h L" "L l = Some (xs @ ys)" "free_thread h L t"
  shows "\<exists>h'. threadlist_insertbeforenode t (right_of l ys) h = Some h' \<and>
    tl_world (inc_count l h') (L(l \<mapsto> xs @ t # ys)) \<and> tln_self h' = tln_self h"
  using insertbeforenode_eq insertion_point [OF assms] free_thread_clean [OF assms(1,3)]
    tl_world_splice [OF assms(1,2)] assms(3) by auto

lemma remove_world:
  assumes w: "tl_world h L" and l: "L l = Some (xs @ t # ys)"
    and small: "length (xs @ t # ys) < 2 ^ 32"
  shows "\<exists>h' h''. threadlist_removenode (Node t) h = Some h' \<and> dec_count l h' = Some h'' \<and>
    tl_world h'' (L(l \<mapsto> xs @ ys)) \<and> tln_self h'' = tln_self h"
proof -
  have rep: "tl_rep h l (xs @ t # ys)" using w l by (rule tl_worldD)
  have "t \<notin> set xs" "t \<notin> set ys" using tl_worldD(2) [OF w l] by auto
  then have "left_of l xs \<noteq> Node t" "right_of l ys \<noteq> Node t"
    using left_of_in [of l xs] right_of_in [of l ys] by auto
  then have "threadlist_removenode (Node t) h = Some (unsplice (left_of l xs) (Node t) (right_of l ys) h)"
    using tl_rep_elem [OF rep] by (intro removenode_eq)
  moreover have "tl_count h l \<noteq> 0"
    using rep small word_of_nat_eq_0_iff [where 'a = 32, of "length (xs @ t # ys)"]
      nat_dvd_not_less [of "length (xs @ t # ys)" "2 ^ 32"]
    by (simp only: tl_rep_def) (simp del: of_nat_Suc)
  ultimately show ?thesis using tl_world_unsplice [OF w l] by (simp add: dec_count_def)
qed

text \<open>
  The world as the client sees it: the lists \<open>L\<close>, and a set \<open>F\<close> of threads whose nodes are
  initialised and on no list. A list is shorter than \<open>2 ^ 32\<close>, the range of \<^verbatim>\<open>tl_count\<close>.
\<close>

definition tl_state :: "tlheap \<Rightarrow> tid set \<Rightarrow> (nat \<rightharpoonup> tid list) \<Rightarrow> bool" where
  "tl_state h F L \<longleftrightarrow> tl_world h L \<and> (\<forall>t\<in>F. free_thread h L t) \<and>
     (\<forall>l xs. L l = Some xs \<longrightarrow> length xs < 2 ^ 32)"

lemma tl_stateD:
  assumes "tl_state h F L"
  shows "tl_world h L" "t \<in> F \<Longrightarrow> free_thread h L t" "L l = Some xs \<Longrightarrow> length xs < 2 ^ 32"
  using assms unfolding tl_state_def by blast+

lemma tl_state_insert:
  assumes "tl_state h F L" "L l = Some (xs @ ys)" "t \<in> F" "length (xs @ t # ys) < 2 ^ 32"
    "tl_world h' (L(l \<mapsto> xs @ t # ys))" "tln_self h' = tln_self h"
  shows "tl_state h' (F - {t}) (L(l \<mapsto> xs @ t # ys))"
proof -
  have "\<not> on_some_list (L(l \<mapsto> xs @ t # ys)) u" if "u \<in> F - {t}" for u
    using tl_stateD(2) [OF assms(1), of u] that
    by (auto simp: on_some_list_upd on_some_list_at [of L l, OF assms(2)])
  then show ?thesis
    using assms(1,4-6) by (auto simp: tl_state_def)
qed

lemma tl_state_delete:
  assumes "tl_state h F L" "L l = Some (xs @ t # ys)"
    "tl_world h' (L(l \<mapsto> xs @ ys))" "tln_self h' = tln_self h"
  shows "tl_state h' (insert t F) (L(l \<mapsto> xs @ ys))"
proof -
  note w = tl_stateD(1) [OF assms(1)]
  have "t \<notin> set (xs @ ys)" using tl_worldD(2) [OF w assms(2)] by auto
  moreover have "t \<notin> set zs" if "l' \<noteq> l" "L l' = Some zs" for l' zs
    using tl_world_other [OF w that(2) assms(2) that(1)] by auto
  ultimately have "\<not> on_some_list (L(l \<mapsto> xs @ ys)) t"
    by (auto simp: on_some_list_upd)
  moreover have "\<not> on_some_list (L(l \<mapsto> xs @ ys)) u" if "u \<in> F" for u
    using tl_stateD(2) [OF assms(1) that]
    by (auto simp: on_some_list_upd on_some_list_at [of L l, OF assms(2)])
  moreover have "tln_self h (Node t) = Some t" using tl_worldD(3) [OF w assms(2)] by simp
  moreover have "length (xs @ ys) < 2 ^ 32" using tl_stateD(3) [OF assms(1,2)] by simp
  ultimately show ?thesis using assms(1,3,4) by (auto simp: tl_state_def)
qed

lemma addhead_state:
  assumes "tl_state h F L" "L l = Some xs" "t \<in> F" "Suc (length xs) < 2 ^ 32"
  shows "\<exists>h'. threadlist_addhead l t h = Some h' \<and> tl_state h' (F - {t}) (L(l \<mapsto> t # xs))"
  using insertafter_world [OF tl_stateD(1) [OF assms(1)], of l "[]" xs t]
    tl_state_insert [OF assms(1), of l "[]" xs t] tl_stateD(2) [OF assms(1,3)] assms(2-4)
  by (auto simp: threadlist_addhead_def)

lemma addtail_state:
  assumes "tl_state h F L" "L l = Some xs" "t \<in> F" "Suc (length xs) < 2 ^ 32"
  shows "\<exists>h'. threadlist_addtail l t h = Some h' \<and> tl_state h' (F - {t}) (L(l \<mapsto> xs @ [t]))"
  using insertbefore_world [OF tl_stateD(1) [OF assms(1)], of l xs "[]" t]
    tl_state_insert [OF assms(1), of l xs "[]" t] tl_stateD(2) [OF assms(1,3)] assms(2-4)
  by (auto simp: threadlist_addtail_def)

lemma insertafter_state:
  assumes "tl_state h F L" "L l = Some (xs @ u # ys)" "t \<in> F" "Suc (length (xs @ u # ys)) < 2 ^ 32"
  shows "\<exists>h'. threadlist_insertafter l u t h = Some h' \<and>
    tl_state h' (F - {t}) (L(l \<mapsto> xs @ u # t # ys))"
  using insertafter_world [OF tl_stateD(1) [OF assms(1)], of l "xs @ [u]" ys t]
    tl_state_insert [OF assms(1), of l "xs @ [u]" ys t] tl_stateD(2) [OF assms(1,3)] assms(2-4)
  by (auto simp: threadlist_insertafter_def)

lemma insertbefore_state:
  assumes "tl_state h F L" "L l = Some (xs @ u # ys)" "t \<in> F" "Suc (length (xs @ u # ys)) < 2 ^ 32"
  shows "\<exists>h'. threadlist_insertbefore l t u h = Some h' \<and>
    tl_state h' (F - {t}) (L(l \<mapsto> xs @ t # u # ys))"
  using insertbefore_world [OF tl_stateD(1) [OF assms(1)], of l xs "u # ys" t]
    tl_state_insert [OF assms(1), of l xs "u # ys" t] tl_stateD(2) [OF assms(1,3)] assms(2-4)
  by (auto simp: threadlist_insertbefore_def)

lemma remove_state:
  assumes "tl_state h F L" "L l = Some (xs @ t # ys)"
  shows "\<exists>h'. threadlist_remove l t h = Some h' \<and> tl_state h' (insert t F) (L(l \<mapsto> xs @ ys))"
  using remove_world [OF tl_stateD(1) [OF assms(1)] assms(2) tl_stateD(3) [OF assms]]
    tl_state_delete [OF assms]
  by (auto simp: threadlist_remove_def)

lemma remhead_state:
  assumes "tl_state h F L" "L l = Some xs"
  shows "case xs of
      [] \<Rightarrow> threadlist_remhead l h = Some (h, None)
    | t # ys \<Rightarrow> \<exists>h'. threadlist_remhead l h = Some (h', Some t) \<and> tl_state h' (insert t F) (L(l \<mapsto> ys))"
proof (cases xs)
  case Nil
  then have "tl_rep h l []" using tl_worldD(1) [OF tl_stateD(1) [OF assms(1)] assms(2)] by simp
  then show ?thesis using Nil by (simp add: threadlist_remhead_def tl_rep_def nodes_def)
next
  case (Cons t ys)
  then have l: "L l = Some ([] @ t # ys)" using assms(2) by simp
  then have rep: "tl_rep h l ([] @ t # ys)" using tl_worldD(1) [OF tl_stateD(1) [OF assms(1)]] by simp
  obtain h' h'' where "threadlist_removenode (Node t) h = Some h'" "dec_count l h' = Some h''"
    and w: "tl_world h'' (L(l \<mapsto> [] @ ys))" and self: "tln_self h'' = tln_self h"
    using remove_world [OF tl_stateD(1) [OF assms(1)] l tl_stateD(3) [OF assms(1) l]] by blast
  moreover have "tln_next h (Head l) = Some (Node t)" "tln_next h (Node t) \<noteq> None"
    using tl_rep_gap(1) [of h l "[]" "t # ys"] tl_rep_elem(2) [OF rep] rep by simp_all
  moreover have "tln_self h (Node t) = Some t" using rep by (simp add: tl_rep_def)
  ultimately show ?thesis
    using tl_state_delete [OF assms(1) l w self] self Cons by (auto simp: threadlist_remhead_def)
qed

lemma remtail_state:
  assumes "tl_state h F L" "L l = Some xs"
  shows "if xs = [] then threadlist_remtail l h = Some (h, None)
    else \<exists>h'. threadlist_remtail l h = Some (h', Some (last xs)) \<and>
           tl_state h' (insert (last xs) F) (L(l \<mapsto> butlast xs))"
proof (cases xs rule: rev_cases)
  case Nil
  then have "tl_rep h l []" using tl_worldD(1) [OF tl_stateD(1) [OF assms(1)] assms(2)] by simp
  then show ?thesis using Nil by (simp add: threadlist_remtail_def tl_rep_def nodes_def)
next
  case (snoc ys t)
  then have l: "L l = Some (ys @ t # [])" using assms(2) by simp
  then have rep: "tl_rep h l (ys @ t # [])" using tl_worldD(1) [OF tl_stateD(1) [OF assms(1)]] by simp
  obtain h' h'' where "threadlist_removenode (Node t) h = Some h'" "dec_count l h' = Some h''"
    and w: "tl_world h'' (L(l \<mapsto> ys @ []))" and self: "tln_self h'' = tln_self h"
    using remove_world [OF tl_stateD(1) [OF assms(1)] l tl_stateD(3) [OF assms(1) l]] by blast
  moreover have "tln_prev h (Tail l) = Some (Node t)" "tln_prev h (Node t) \<noteq> None"
    using tl_rep_gap(2) [of h l "ys @ [t]" "[]"] tl_rep_elem(1) [OF rep] rep by simp_all
  moreover have "tln_self h (Node t) = Some t" using rep by (simp add: tl_rep_def)
  ultimately show ?thesis
    using tl_state_delete [OF assms(1) l w self] self snoc by (auto simp: threadlist_remtail_def)
qed

lemma isempty_state:
  assumes "tl_state h F L" "L l = Some xs"
  shows "threadlist_isempty l h \<longleftrightarrow> xs = []"
proof -
  have "tl_count h l = of_nat (length xs)"
    using tl_worldD(1) [OF tl_stateD(1) [OF assms(1)] assms(2)] by (simp add: tl_rep_def)
  moreover have "length xs < 2 ^ 32" using assms by (rule tl_stateD)
  ultimately show ?thesis
    using nat_dvd_not_less [of "length xs" "2 ^ 32"]
    by (auto simp: threadlist_isempty_def word_of_nat_eq_0_iff)
qed

text \<open>The iteration macro visits exactly the threads of the list, in order, and stops.\<close>

lemma forall_from_spec:
  assumes "tl_rep h l (xs @ ys)" "length ys \<le> k"
  shows "forall_from k (Some (right_of l ys)) h = Some ys"
  using assms
proof (induction ys arbitrary: xs k)
  case Nil
  then show ?case by (simp add: tl_rep_def)
next
  case (Cons y ys)
  then obtain k' where k': "k = Suc k'" by (cases k) auto
  have "tl_rep h l ((xs @ [y]) @ ys)" using Cons.prems(1) by simp
  then have "forall_from k' (Some (right_of l ys)) h = Some ys"
    using Cons.prems(2) k' by (intro Cons.IH [of "xs @ [y]"]) simp_all
  moreover have "tln_self h (Node y) = Some y" using Cons.prems(1) by (simp add: tl_rep_def)
  moreover have "tln_next h (Node y) = Some (right_of l ys)" using tl_rep_elem(2) Cons.prems(1) .
  ultimately show ?case using k' by simp
qed

lemma THREADLIST_FORALL_spec:
  assumes "tl_rep h l xs" "length xs \<le> k"
  shows "THREADLIST_FORALL k l h = Some xs"
  using forall_from_spec [of h l "[]" xs k] tl_rep_gap(1) [of h l "[]" xs] assms
  by (simp add: THREADLIST_FORALL_def)

section \<open>Queues of threads\<close>

text \<open>
  The interface the scheduler and the wait channels use: a family of first-in first-out queues
  over one store, where a thread must be free to be added and is free again once removed.
\<close>

locale thread_queues =
  fixes state :: "'h \<Rightarrow> tid set \<Rightarrow> (nat \<rightharpoonup> tid list) \<Rightarrow> bool"
    and addtail :: "nat \<Rightarrow> tid \<Rightarrow> 'h \<Rightarrow> 'h option"
    and remhead :: "nat \<Rightarrow> 'h \<Rightarrow> ('h \<times> tid option) option"
  assumes addtail_law: "state h F L \<Longrightarrow> L l = Some xs \<Longrightarrow> t \<in> F \<Longrightarrow> Suc (length xs) < 2 ^ 32 \<Longrightarrow>
      \<exists>h'. addtail l t h = Some h' \<and> state h' (F - {t}) (L(l \<mapsto> xs @ [t]))"
    and remhead_law: "state h F L \<Longrightarrow> L l = Some xs \<Longrightarrow>
      case xs of
        [] \<Rightarrow> remhead l h = Some (h, None)
      | t # ys \<Rightarrow> \<exists>h'. remhead l h = Some (h', Some t) \<and> state h' (insert t F) (L(l \<mapsto> ys))"
begin

fun addall :: "nat \<Rightarrow> tid list \<Rightarrow> 'h \<Rightarrow> 'h option" where
  "addall l [] h = Some h"
| "addall l (t # ts) h = do { h \<leftarrow> addtail l t h; addall l ts h }"

fun remall :: "nat \<Rightarrow> nat \<Rightarrow> 'h \<Rightarrow> ('h \<times> tid list) option" where
  "remall 0 l h = Some (h, [])"
| "remall (Suc n) l h =
     do { (h, r) \<leftarrow> remhead l h;
          (case r of
             None \<Rightarrow> Some (h, [])
           | Some t \<Rightarrow> do { (h, ts) \<leftarrow> remall n l h; Some (h, t # ts) }) }"

lemma addall_spec:
  assumes "state h F L" "L l = Some xs" "set ts \<subseteq> F" "distinct ts" "length xs + length ts < 2 ^ 32"
  shows "\<exists>h'. addall l ts h = Some h' \<and> state h' (F - set ts) (L(l \<mapsto> xs @ ts))"
  using assms
proof (induction ts arbitrary: h F L xs)
  case Nil
  then show ?case by (simp add: fun_upd_idem)
next
  case (Cons t ts)
  then obtain h1 where h1: "addtail l t h = Some h1" "state h1 (F - {t}) (L(l \<mapsto> xs @ [t]))"
    using addtail_law [of h F L l xs t] by auto
  have "set ts \<subseteq> F - {t}" using Cons.prems by auto
  then obtain h' where "addall l ts h1 = Some h'"
    "state h' (F - {t} - set ts) (L(l \<mapsto> (xs @ [t]) @ ts))"
    using Cons.IH [OF h1(2), of "xs @ [t]"] Cons.prems(4,5)
    by (auto simp: fun_upd_def cong: if_cong)
  moreover have "F - {t} - set ts = F - set (t # ts)" by auto
  ultimately show ?case using h1(1) by (simp add: fun_upd_def del: list.set)
qed

lemma remall_spec:
  assumes "state h F L" "L l = Some xs"
  shows "\<exists>h'. remall n l h = Some (h', take n xs) \<and>
    state h' (F \<union> set (take n xs)) (L(l \<mapsto> drop n xs))"
  using assms
proof (induction n arbitrary: h F L xs)
  case 0
  then show ?case by (simp add: fun_upd_idem)
next
  case (Suc n)
  show ?case
  proof (cases xs)
    case Nil
    then show ?thesis using remhead_law [OF Suc.prems] Suc.prems by (simp add: fun_upd_idem)
  next
    case (Cons t ys)
    then obtain h1 where h1: "remhead l h = Some (h1, Some t)" "state h1 (insert t F) (L(l \<mapsto> ys))"
      using remhead_law [OF Suc.prems] by auto
    from Suc.IH [OF h1(2), of ys] obtain h' where "remall n l h1 = Some (h', take n ys)"
      "state h' (insert t F \<union> set (take n ys)) (L(l \<mapsto> drop n ys))"
      unfolding fun_upd_upd fun_upd_same by blast
    then show ?thesis using h1(1) Cons by (simp add: fun_upd_def)
  qed
qed

text \<open>First in, first out: whoever was waiting comes out first, then the new ones, in order.\<close>

lemma fifo:
  assumes "state h F L" "L l = Some xs" "set ts \<subseteq> F" "distinct ts" "length xs + length ts < 2 ^ 32"
    and n: "n = length xs + length ts"
  shows "\<exists>h' h''. addall l ts h = Some h' \<and> remall n l h' = Some (h'', xs @ ts)"
proof -
  obtain h' where "addall l ts h = Some h'" "state h' (F - set ts) (L(l \<mapsto> xs @ ts))"
    using addall_spec [OF assms(1-5)] by blast
  then show ?thesis using remall_spec [of h' _ "L(l \<mapsto> xs @ ts)" l "xs @ ts" n] n by auto
qed

end

interpretation tlq: thread_queues tl_state threadlist_addtail threadlist_remhead
  by unfold_locales (rule addtail_state remhead_state; assumption)+

section \<open>Thread lists are sequences of threads\<close>

datatype tl_op =
    AddHead nat tid | AddTail nat tid | RemHead nat | RemTail nat
  | InsertAfter nat tid tid | InsertBefore nat tid tid | Remove nat tid | IsEmpty nat

datatype tl_res = Done | Got "tid option" | Answer bool

fun tl_do :: "tl_op \<Rightarrow> tlheap \<Rightarrow> (tlheap \<times> tl_res) option" where
  "tl_do (AddHead l t) h = map_option (\<lambda>h. (h, Done)) (threadlist_addhead l t h)"
| "tl_do (AddTail l t) h = map_option (\<lambda>h. (h, Done)) (threadlist_addtail l t h)"
| "tl_do (RemHead l) h = map_option (map_prod id Got) (threadlist_remhead l h)"
| "tl_do (RemTail l) h = map_option (map_prod id Got) (threadlist_remtail l h)"
| "tl_do (InsertAfter l u t) h = map_option (\<lambda>h. (h, Done)) (threadlist_insertafter l u t h)"
| "tl_do (InsertBefore l t u) h = map_option (\<lambda>h. (h, Done)) (threadlist_insertbefore l t u h)"
| "tl_do (Remove l t) h = map_option (\<lambda>h. (h, Done)) (threadlist_remove l t h)"
| "tl_do (IsEmpty l) h = Some (h, Answer (threadlist_isempty l h))"

text \<open>
  The same operations on the free threads and the sequences; \<open>None\<close> is a client that breaks
  the contract: a list never initialised, a thread added that is not free, a neighbour or a
  thread to remove that is not on the list.
\<close>

fun seq_do :: "tl_op \<Rightarrow> tid set \<times> (nat \<rightharpoonup> tid list) \<Rightarrow> ((tid set \<times> (nat \<rightharpoonup> tid list)) \<times> tl_res) option" where
  "seq_do (AddHead l t) (F, L) =
     do { xs \<leftarrow> L l; kassert (t \<in> F \<and> Suc (length xs) < 2 ^ 32); Some ((F - {t}, L(l \<mapsto> t # xs)), Done) }"
| "seq_do (AddTail l t) (F, L) =
     do { xs \<leftarrow> L l; kassert (t \<in> F \<and> Suc (length xs) < 2 ^ 32); Some ((F - {t}, L(l \<mapsto> xs @ [t])), Done) }"
| "seq_do (RemHead l) (F, L) =
     do { xs \<leftarrow> L l;
          (case xs of
             [] \<Rightarrow> Some ((F, L), Got None)
           | t # ys \<Rightarrow> Some ((insert t F, L(l \<mapsto> ys)), Got (Some t))) }"
| "seq_do (RemTail l) (F, L) =
     do { xs \<leftarrow> L l;
          if xs = [] then Some ((F, L), Got None)
          else Some ((insert (last xs) F, L(l \<mapsto> butlast xs)), Got (Some (last xs))) }"
| "seq_do (InsertAfter l u t) (F, L) =
     do { xs \<leftarrow> L l; kassert (u \<in> set xs \<and> t \<in> F \<and> Suc (length xs) < 2 ^ 32);
          let (as, bs) = (takeWhile (\<lambda>x. x \<noteq> u) xs, tl (dropWhile (\<lambda>x. x \<noteq> u) xs));
          Some ((F - {t}, L(l \<mapsto> as @ u # t # bs)), Done) }"
| "seq_do (InsertBefore l t u) (F, L) =
     do { xs \<leftarrow> L l; kassert (u \<in> set xs \<and> t \<in> F \<and> Suc (length xs) < 2 ^ 32);
          let (as, bs) = (takeWhile (\<lambda>x. x \<noteq> u) xs, tl (dropWhile (\<lambda>x. x \<noteq> u) xs));
          Some ((F - {t}, L(l \<mapsto> as @ t # u # bs)), Done) }"
| "seq_do (Remove l t) (F, L) =
     do { xs \<leftarrow> L l; kassert (t \<in> set xs); Some ((insert t F, L(l \<mapsto> remove1 t xs)), Done) }"
| "seq_do (IsEmpty l) (F, L) =
     do { xs \<leftarrow> L l; Some ((F, L), Answer (xs = [])) }"

fun tl_run :: "tl_op list \<Rightarrow> tlheap \<Rightarrow> (tlheap \<times> tl_res list) option" where
  "tl_run [] h = Some (h, [])"
| "tl_run (x # xs) h =
     do { (h, r) \<leftarrow> tl_do x h; (h, rs) \<leftarrow> tl_run xs h; Some (h, r # rs) }"

fun seq_run :: "tl_op list \<Rightarrow> tid set \<times> (nat \<rightharpoonup> tid list)
    \<Rightarrow> ((tid set \<times> (nat \<rightharpoonup> tid list)) \<times> tl_res list) option" where
  "seq_run [] s = Some (s, [])"
| "seq_run (x # xs) s =
     do { (s, r) \<leftarrow> seq_do x s; (s, rs) \<leftarrow> seq_run xs s; Some (s, r # rs) }"

lemma split_at:
  assumes "u \<in> set xs"
  shows "xs = takeWhile (\<lambda>x. x \<noteq> u) xs @ u # tl (dropWhile (\<lambda>x. x \<noteq> u) xs)"
proof -
  have "dropWhile (\<lambda>x. x \<noteq> u) xs \<noteq> []" using assms by (simp add: dropWhile_eq_Nil_conv)
  moreover from this have "hd (dropWhile (\<lambda>x. x \<noteq> u) xs) = u"
    using hd_dropWhile [of "\<lambda>x. x \<noteq> u" xs] by simp
  ultimately show ?thesis by (metis list.collapse takeWhile_dropWhile_id)
qed

lemma tl_do_simulates:
  assumes "tl_state h F L" "seq_do x (F, L) = Some ((F', L'), r)"
  shows "\<exists>h'. tl_do x h = Some (h', r) \<and> tl_state h' F' L'"
proof (cases x)
  case (AddHead l t)
  then obtain xs where "L l = Some xs" "t \<in> F" "Suc (length xs) < 2 ^ 32"
    and "F' = F - {t}" "L' = L(l \<mapsto> t # xs)" "r = Done"
    using assms(2) by (auto simp: bind_eq_Some_conv split: if_splits)
  then show ?thesis using addhead_state [OF assms(1), of l xs t] AddHead by auto
next
  case (AddTail l t)
  then obtain xs where "L l = Some xs" "t \<in> F" "Suc (length xs) < 2 ^ 32"
    and "F' = F - {t}" "L' = L(l \<mapsto> xs @ [t])" "r = Done"
    using assms(2) by (auto simp: bind_eq_Some_conv split: if_splits)
  then show ?thesis using addtail_state [OF assms(1), of l xs t] AddTail by auto
next
  case (RemHead l)
  then obtain xs where xs: "L l = Some xs" using assms(2) by (auto simp: bind_eq_Some_conv)
  then show ?thesis
    using assms RemHead remhead_state [OF assms(1) xs] by (cases xs) auto
next
  case (RemTail l)
  then obtain xs where xs: "L l = Some xs" using assms(2) by (auto simp: bind_eq_Some_conv)
  then show ?thesis
    using assms RemTail remtail_state [OF assms(1) xs] by (cases "xs = []") auto
next
  case (InsertAfter l u t)
  then obtain xs where xs: "L l = Some xs" "u \<in> set xs" "t \<in> F" "Suc (length xs) < 2 ^ 32"
    and eq: "F' = F - {t}" "r = Done"
      "L' = L(l \<mapsto> takeWhile (\<lambda>x. x \<noteq> u) xs @ u # t # tl (dropWhile (\<lambda>x. x \<noteq> u) xs))"
    using assms(2) by (auto simp: bind_eq_Some_conv split: if_splits)
  then show ?thesis
    using insertafter_state [OF assms(1), of l "takeWhile (\<lambda>x. x \<noteq> u) xs" u
        "tl (dropWhile (\<lambda>x. x \<noteq> u) xs)" t] split_at [OF xs(2)] InsertAfter by auto
next
  case (InsertBefore l t u)
  then obtain xs where xs: "L l = Some xs" "u \<in> set xs" "t \<in> F" "Suc (length xs) < 2 ^ 32"
    and eq: "F' = F - {t}" "r = Done"
      "L' = L(l \<mapsto> takeWhile (\<lambda>x. x \<noteq> u) xs @ t # u # tl (dropWhile (\<lambda>x. x \<noteq> u) xs))"
    using assms(2) by (auto simp: bind_eq_Some_conv split: if_splits)
  then show ?thesis
    using insertbefore_state [OF assms(1), of l "takeWhile (\<lambda>x. x \<noteq> u) xs" u
        "tl (dropWhile (\<lambda>x. x \<noteq> u) xs)" t] split_at [OF xs(2)] InsertBefore by auto
next
  case (Remove l t)
  then obtain xs where xs: "L l = Some xs" "t \<in> set xs"
    and eq: "F' = insert t F" "r = Done" "L' = L(l \<mapsto> remove1 t xs)"
    using assms(2) by (auto simp: bind_eq_Some_conv split: if_splits)
  then obtain ys zs where "xs = ys @ t # zs" "t \<notin> set ys" by (meson split_list_first)
  then show ?thesis
    using remove_state [OF assms(1), of l ys t zs] xs eq Remove by (auto simp: remove1_append)
next
  case (IsEmpty l)
  then show ?thesis using assms isempty_state [OF assms(1)] by (auto simp: bind_eq_Some_conv)
qed

lemma tl_run_simulates:
  assumes "tl_state h F L" "seq_run xs (F, L) = Some ((F', L'), rs)"
  shows "\<exists>h'. tl_run xs h = Some (h', rs) \<and> tl_state h' F' L'"
  using assms
proof (induction xs arbitrary: h F L rs)
  case Nil
  then show ?case by auto
next
  case (Cons x xs)
  from Cons.prems(2) obtain F1 L1 r rs' where "seq_do x (F, L) = Some ((F1, L1), r)"
    "seq_run xs (F1, L1) = Some ((F', L'), rs')" "rs = r # rs'"
    by (auto simp: bind_eq_Some_conv)
  moreover from this obtain h1 where "tl_do x h = Some (h1, r)" "tl_state h1 F1 L1"
    using tl_do_simulates Cons.prems(1) by blast
  ultimately show ?case using Cons.IH by fastforce
qed

text \<open>The heap after the initialisers have run for some lists and some threads.\<close>

definition tlheap0 :: tlheap where
  "tlheap0 = \<lparr>tln_prev = (\<lambda>_. None), tln_next = (\<lambda>_. None), tln_self = (\<lambda>_. None), tl_count = (\<lambda>_. 0)\<rparr>"

definition tl_boot :: "nat list \<Rightarrow> tid list \<Rightarrow> tlheap" where
  "tl_boot ls ts = fold threadlist_init ls (fold threadlistnode_init ts tlheap0)"

lemma boot_nodes:
  "tl_world h Map.empty \<Longrightarrow> \<forall>t\<in>F. tln_self h (Node t) = Some t \<Longrightarrow>
   tl_world (fold threadlistnode_init ts h) Map.empty \<and>
   (\<forall>t\<in>F \<union> set ts. tln_self (fold threadlistnode_init ts h) (Node t) = Some t)"
proof (induction ts arbitrary: h F)
  case (Cons t ts)
  have "tl_world (threadlistnode_init t h) Map.empty"
    using Cons.prems(1) by (rule tl_world_node_init) (simp add: on_some_list_def)
  moreover have "\<forall>u\<in>insert t F. tln_self (threadlistnode_init t h) (Node u) = Some u"
    using Cons.prems(2) by (simp add: threadlistnode_init_def)
  ultimately show ?case using Cons.IH [of "threadlistnode_init t h" "insert t F"] by simp
qed simp

lemma boot_lists:
  "tl_state h F L \<Longrightarrow> distinct ls \<Longrightarrow> \<forall>l\<in>set ls. L l = None \<Longrightarrow>
   tl_state (fold threadlist_init ls h) F (\<lambda>l. if l \<in> set ls then Some [] else L l)"
proof (induction ls arbitrary: h L)
  case (Cons l ls)
  have "tl_world (threadlist_init l h) (L(l \<mapsto> []))"
    using Cons.prems tl_stateD(1) by (intro tl_world_init) auto
  moreover have "tln_self (threadlist_init l h) (Node t) = tln_self h (Node t)" for t
    by (simp add: threadlist_init_def)
  moreover have "\<not> on_some_list (L(l \<mapsto> [])) t" if "t \<in> F" for t
    using tl_stateD(2) [OF Cons.prems(1) that] by (auto simp: on_some_list_upd on_some_list_def)
  ultimately have st: "tl_state (threadlist_init l h) F (L(l \<mapsto> []))"
    using Cons.prems(1) by (auto simp: tl_state_def)
  have "tl_state (fold threadlist_init ls (threadlist_init l h)) F
      (\<lambda>k. if k \<in> set ls then Some [] else (L(l \<mapsto> [])) k)"
    by (rule Cons.IH [OF st]) (use Cons.prems in auto)
  moreover have "(\<lambda>k. if k \<in> set ls then Some [] else (L(l \<mapsto> [])) k)
      = (\<lambda>k. if k \<in> set (l # ls) then Some [] else L k)"
    by auto
  ultimately show ?case by simp
qed simp

lemma tl_boot_state:
  assumes "distinct ls"
  shows "tl_state (tl_boot ls ts) (set ts) (\<lambda>l. if l \<in> set ls then Some [] else None)"
proof -
  have "tl_world tlheap0 Map.empty"
    by (simp add: tl_world_def lists_disjoint_def tlheap0_def)
  then have "tl_state (fold threadlistnode_init ts tlheap0) (set ts) Map.empty"
    using boot_nodes [of tlheap0 "{}" ts] by (simp add: tl_state_def on_some_list_def)
  then show ?thesis unfolding tl_boot_def using boot_lists assms by fastforce
qed

text \<open>
  C12. Thread lists are sequences of threads: take any lists and threads, initialised by
  \<^verbatim>\<open>threadlist_init\<close> and \<^verbatim>\<open>threadlistnode_init\<close>, and any program of insertions, removals
  and emptiness tests on them that keeps the contract (\<open>seq_run\<close> is defined: a thread is only
  added while it is on no list, only removed from a list it is on). The pointer code runs
  without a null dereference or a failed assertion, returns the same answers as the sequences
  do, and at the end each list holds exactly its sequence: linked both ways with the right
  count, no thread on two lists, the nodes of all other threads clean, and
  \<^verbatim>\<open>THREADLIST_FORALL\<close> visits it in order and stops.
\<close>

theorem threadlist_refines_sequences:
  assumes "distinct ls"
    and "seq_run ops (set ts, (\<lambda>l. if l \<in> set ls then Some [] else None)) = Some ((F, L), rs)"
  shows "\<exists>h. tl_run ops (tl_boot ls ts) = Some (h, rs) \<and> tl_world h L \<and>
    (\<forall>l xs. L l = Some xs \<longrightarrow> THREADLIST_FORALL (length xs) l h = Some xs)"
proof -
  obtain h where h: "tl_run ops (tl_boot ls ts) = Some (h, rs)" "tl_state h F L"
    using tl_run_simulates [OF tl_boot_state [OF assms(1)] assms(2)] by blast
  have "tl_world h L" using h(2) by (rule tl_stateD)
  then show ?thesis using h(1) THREADLIST_FORALL_spec tl_worldD(1) by blast
qed

theorem threadlist_refines_sequences_witness:
  "\<exists>h L. tl_run [AddTail 0 7, AddTail 0 8, AddHead 1 9, RemHead 0, AddTail 1 7, InsertBefore 1 3 7, RemTail 1]
        (tl_boot [0, 1] [3, 7, 8, 9])
       = Some (h, [Done, Done, Done, Got (Some 7), Done, Done, Got (Some 7)]) \<and>
     tl_world h L \<and> L 0 = Some [8] \<and> L 1 = Some [9, 3] \<and> THREADLIST_FORALL 2 1 h = Some [9, 3]"
proof -
  let ?ops = "[AddTail 0 7, AddTail 0 8, AddHead 1 9, RemHead 0, AddTail 1 7, InsertBefore 1 3 7, RemTail 1]"
  let ?L = "(\<lambda>l. if l \<in> set [0, 1 :: nat] then Some [] else None) (0 \<mapsto> [7], 0 \<mapsto> [7, 8], 1 \<mapsto> [9], 0 \<mapsto> [8],
    1 \<mapsto> [9, 7], 1 \<mapsto> [9, 3, 7], 1 \<mapsto> [9, 3])"
  have "\<exists>F. seq_run ?ops (set [3, 7, 8, 9], (\<lambda>l. if l \<in> set [0, 1] then Some [] else None))
      = Some ((F, ?L), [Done, Done, Done, Got (Some 7), Done, Done, Got (Some 7)])"
    by simp
  then obtain F where "seq_run ?ops (set [3, 7, 8, 9], (\<lambda>l. if l \<in> set [0, 1] then Some [] else None))
      = Some ((F, ?L), [Done, Done, Done, Got (Some 7), Done, Done, Got (Some 7)])" by blast
  from threadlist_refines_sequences [OF _ this] obtain h where
    "tl_run ?ops (tl_boot [0, 1] [3, 7, 8, 9])
       = Some (h, [Done, Done, Done, Got (Some 7), Done, Done, Got (Some 7)])"
    and "tl_world h ?L" and "\<forall>l xs. ?L l = Some xs \<longrightarrow> THREADLIST_FORALL (length xs) l h = Some xs"
    by auto
  moreover from this(3) [THEN spec, of 1, THEN spec, of "[9, 3]"]
  have "THREADLIST_FORALL 2 1 h = Some [9, 3]" by (simp add: numeral_2_eq_2)
  moreover have "?L 0 = Some [8]" "?L 1 = Some [9, 3]" by simp_all
  ultimately show ?thesis by (intro exI [of _ h] exI [of _ ?L]) simp
qed

text \<open>
  C31. A thread list is first in, first out: threads added at the tail come off the head in the
  order they were added, after the threads that were already there.
\<close>

theorem threadlist_fifo:
  assumes "tl_state h F L" "L l = Some xs" "set ts \<subseteq> F" "distinct ts" "length xs + length ts < 2 ^ 32"
  shows "\<exists>h' h''. tlq.addall l ts h = Some h' \<and>
    tlq.remall (length xs + length ts) l h' = Some (h'', xs @ ts)"
  using tlq.fifo [OF assms] by simp

theorem threadlist_fifo_witness:
  "\<exists>h' h''. tlq.addall 0 [5, 3, 4] (tl_boot [0] [3, 4, 5]) = Some h' \<and>
     tlq.remall 3 0 h' = Some (h'', [5, 3, 4])"
  using threadlist_fifo [OF tl_boot_state [of "[0]" "[3, 4, 5]"], of 0 "[]" "[5, 3, 4]"]
  by (simp add: numeral_3_eq_3)

end
