(* ===== verification/Pid.thy ===== *)
theory Pid
  imports Kernel_Prelude
begin

text \<open>
  \<^verbatim>\<open>kern/proc/pid.c\<close>: process ids, exit statuses and waiting. The process table is a hash
  table of \<open>PROCS_MAX\<close> slots with one process per slot. \<open>pidstate\<close> holds the file's static
  variables; each C function is one definition. All of them run under \<^verbatim>\<open>pidlock\<close>: \<open>pidlock\<close>
  is the process that holds it, an operation starts at the moment its \<^verbatim>\<open>lock_acquire\<close>
  succeeds, and the assertions \<^verbatim>\<open>lock_do_i_hold(pidlock)\<close> of the source are checked.
  \<^verbatim>\<open>pid_wait\<close> gives the lock up while it sleeps, so it is two definitions: up to
  \<^verbatim>\<open>cv_wait\<close>, and from there on. A process has one thread, so a thread is named by its process.
\<close>

section \<open>The tables\<close>

type_synonym pid = int

definition PROCS_MAX :: nat where [kdefs]: "PROCS_MAX = 128"
definition PID_MIN :: pid where [kdefs]: "PID_MIN = 2"
definition PID_MAX :: pid where [kdefs]: "PID_MAX = 32767"
definition INVALID_PID :: pid where [kdefs]: "INVALID_PID = 0"
definition KERNEL_PID :: pid where [kdefs]: "KERNEL_PID = 1"
definition WNOHANG :: int where [kdefs]: "WNOHANG = 1"

text \<open>\<open>pi_cv\<close> is the condition variable: the processes asleep on it.\<close>

record pidinfo =
  pi_pid :: pid
  pi_ppid :: pid
  pi_exited :: bool
  pi_exitstatus :: int
  pi_cv :: "pid list"

record pidstate =
  pidlock :: "pid option"
  pidinfo_tab :: "nat \<rightharpoonup> pidinfo"
  nextpid :: pid
  nprocs :: int

definition slot :: "pid \<Rightarrow> nat" where
  "slot pid = nat (pid mod int PROCS_MAX)"

abbreviation tab_upd :: "nat \<Rightarrow> pidinfo option \<Rightarrow> pidstate \<Rightarrow> pidstate" where
  "tab_upd i v s \<equiv> s\<lparr>pidinfo_tab := (pidinfo_tab s)(i := v)\<rparr>"

section \<open>The lock\<close>

definition pidlock_acquire :: "pid \<Rightarrow> pidstate \<Rightarrow> pidstate option" where
  "pidlock_acquire cur s = do { kassert (pidlock s = None); Some (s\<lparr>pidlock := Some cur\<rparr>) }"

definition pidlock_release :: "pid \<Rightarrow> pidstate \<Rightarrow> pidstate option" where
  "pidlock_release cur s = do { kassert (pidlock s = Some cur); Some (s\<lparr>pidlock := None\<rparr>) }"

section \<open>The operations\<close>

text \<open>\<open>mem1\<close> and \<open>mem2\<close>: whether \<^verbatim>\<open>kmalloc\<close> and \<^verbatim>\<open>cv_create\<close> find memory.\<close>

definition pidinfo_create :: "bool \<Rightarrow> bool \<Rightarrow> pid \<Rightarrow> pid \<Rightarrow> pidinfo option option" where
  "pidinfo_create mem1 mem2 pid ppid =
     do {
       kassert (pid \<noteq> INVALID_PID);
       Some (if \<not> mem1 then None
             else if \<not> mem2 then None
             else Some \<lparr>pi_pid = pid, pi_ppid = ppid, pi_exited = False,
                        pi_exitstatus = 0xbeef, pi_cv = []\<rparr>)
     }"

text \<open>\<^verbatim>\<open>cv_destroy\<close> asserts that nobody sleeps on the condition variable.\<close>

definition pidinfo_destroy :: "pidinfo \<Rightarrow> unit option" where
  "pidinfo_destroy pi =
     do {
       kassert (pi_exited pi);
       kassert (pi_ppid pi = INVALID_PID);
       kassert (pi_cv pi = [])
     }"

definition pid_bootstrap :: "bool \<Rightarrow> bool \<Rightarrow> bool \<Rightarrow> pidstate option" where
  "pid_bootstrap memlock mem1 mem2 =
     do {
       kassert memlock;
       pi \<leftarrow> pidinfo_create mem1 mem2 KERNEL_PID INVALID_PID;
       pi \<leftarrow> pi;
       Some \<lparr>pidlock = None, pidinfo_tab = [nat KERNEL_PID \<mapsto> pi], nextpid = PID_MIN, nprocs = 1\<rparr>
     }"

definition pi_get :: "pid \<Rightarrow> pid \<Rightarrow> pidstate \<Rightarrow> pidinfo option option" where
  "pi_get cur pid s =
     do {
       kassert (pid \<ge> 0);
       kassert (pid \<noteq> INVALID_PID);
       kassert (pidlock s = Some cur);
       Some (case pidinfo_tab s (slot pid) of
               None \<Rightarrow> None
             | Some pi \<Rightarrow> if pi_pid pi \<noteq> pid then None else Some pi)
     }"

definition pi_put :: "pid \<Rightarrow> pid \<Rightarrow> pidinfo \<Rightarrow> pidstate \<Rightarrow> pidstate option" where
  "pi_put cur pid pi s =
     do {
       kassert (pidlock s = Some cur);
       kassert (pid \<noteq> INVALID_PID);
       kassert (pidinfo_tab s (slot pid) = None);
       Some ((tab_upd (slot pid) (Some pi) s)\<lparr>nprocs := nprocs s + 1\<rparr>)
     }"

definition pi_drop :: "pid \<Rightarrow> pid \<Rightarrow> pidstate \<Rightarrow> pidstate option" where
  "pi_drop cur pid s =
     do {
       kassert (pidlock s = Some cur);
       pi \<leftarrow> pidinfo_tab s (slot pid);
       kassert (pi_pid pi = pid);
       pidinfo_destroy pi;
       Some ((tab_upd (slot pid) None s)\<lparr>nprocs := nprocs s - 1\<rparr>)
     }"

definition inc_nextpid :: "pid \<Rightarrow> pid" where
  "inc_nextpid np = (if np + 1 > PID_MAX then PID_MIN else np + 1)"

text \<open>The search loop of \<^verbatim>\<open>pid_alloc\<close>, with the loop count its assertion bounds.\<close>

function pid_search :: "(nat \<rightharpoonup> pidinfo) \<Rightarrow> nat \<Rightarrow> pid \<Rightarrow> pid option" where
  "pid_search tab count np =
     (if tab (slot np) \<noteq> None then
        if count < PROCS_MAX * 2 + 5 then pid_search tab (count + 1) (inc_nextpid np) else None
      else Some np)"
  by auto
termination
  by (relation "measure (\<lambda>(tab, count, np). PROCS_MAX * 2 + 5 - count)") auto

declare pid_search.simps [simp del]

definition pid_alloc :: "bool \<Rightarrow> bool \<Rightarrow> pid \<Rightarrow> pidstate \<Rightarrow> (pidstate \<times> (errno + pid)) option" where
  "pid_alloc mem1 mem2 cur s =
     do {
       kassert (cur \<noteq> INVALID_PID);
       s \<leftarrow> pidlock_acquire cur s;
       if nprocs s = int PROCS_MAX then
         do { s \<leftarrow> pidlock_release cur s; Some (s, Inl EAGAIN) }
       else do {
         np \<leftarrow> pid_search (pidinfo_tab s) 0 (nextpid s);
         let s = s\<lparr>nextpid := np\<rparr>;
         pi \<leftarrow> pidinfo_create mem1 mem2 np cur;
         (case pi of
            None \<Rightarrow> do { s \<leftarrow> pidlock_release cur s; Some (s, Inl ENOMEM) }
          | Some pi \<Rightarrow>
              do {
                s \<leftarrow> pi_put cur np pi s;
                let s = s\<lparr>nextpid := inc_nextpid (nextpid s)\<rparr>;
                s \<leftarrow> pidlock_release cur s;
                Some (s, Inr np)
              })
       }
     }"

definition pid_unalloc :: "pid \<Rightarrow> pid \<Rightarrow> pidstate \<Rightarrow> pidstate option" where
  "pid_unalloc cur theirpid s =
     do {
       kassert (theirpid \<ge> PID_MIN \<and> theirpid \<le> PID_MAX);
       s \<leftarrow> pidlock_acquire cur s;
       them \<leftarrow> pi_get cur theirpid s;
       them \<leftarrow> them;
       kassert (\<not> pi_exited them);
       kassert (pi_ppid them = cur);
       let s = tab_upd (slot theirpid)
         (Some (them\<lparr>pi_exitstatus := 0xdead, pi_exited := True, pi_ppid := INVALID_PID\<rparr>)) s;
       s \<leftarrow> pi_drop cur theirpid s;
       pidlock_release cur s
     }"

definition pid_disown :: "pid \<Rightarrow> pid \<Rightarrow> pidstate \<Rightarrow> pidstate option" where
  "pid_disown cur theirpid s =
     do {
       kassert (theirpid \<ge> PID_MIN \<and> theirpid \<le> PID_MAX);
       s \<leftarrow> pidlock_acquire cur s;
       them \<leftarrow> pi_get cur theirpid s;
       them \<leftarrow> them;
       kassert (pi_ppid them = cur);
       let s = tab_upd (slot theirpid) (Some (them\<lparr>pi_ppid := INVALID_PID\<rparr>)) s;
       s \<leftarrow> (if pi_exited them then pi_drop cur (pi_pid them) s else Some s);
       pidlock_release cur s
     }"

text \<open>
  One round of the loop of \<^verbatim>\<open>pid_setexitstatus\<close> that disowns the children, and the loop over
  the slots.
\<close>

definition disown_slot :: "pid \<Rightarrow> nat \<Rightarrow> pidstate \<Rightarrow> pidstate option" where
  "disown_slot cur i s =
     (case pidinfo_tab s i of
        None \<Rightarrow> Some s
      | Some pi \<Rightarrow>
          if pi_ppid pi = cur then
            let s = tab_upd i (Some (pi\<lparr>pi_ppid := INVALID_PID\<rparr>)) s in
            if pi_exited pi then pi_drop cur (pi_pid pi) s else Some s
          else Some s)"

fun disown_slots :: "pid \<Rightarrow> nat list \<Rightarrow> pidstate \<Rightarrow> pidstate option" where
  "disown_slots cur [] s = Some s"
| "disown_slots cur (i # is) s = do { s \<leftarrow> disown_slot cur i s; disown_slots cur is s }"

text \<open>
  \<open>pid_setexitstatus\<close> also returns the sleepers its broadcast wakes; the caller's
  \<^verbatim>\<open>p_pid\<close> becomes \<^verbatim>\<open>INVALID_PID\<close>, the last component.
\<close>

definition pid_setexitstatus :: "pid \<Rightarrow> int \<Rightarrow> pidstate \<Rightarrow> (pidstate \<times> pid list \<times> pid) option" where
  "pid_setexitstatus cur status s =
     do {
       s \<leftarrow> pidlock_acquire cur s;
       kassert (cur \<noteq> INVALID_PID);
       s \<leftarrow> disown_slots cur [0..<PROCS_MAX] s;
       us \<leftarrow> pi_get cur cur s;
       us \<leftarrow> us;
       let us = us\<lparr>pi_exitstatus := status, pi_exited := True\<rparr>;
       let s = tab_upd (slot cur) (Some us) s;
       (s, woken) \<leftarrow>
         (if pi_ppid us = INVALID_PID then map_option (\<lambda>s. (s, [])) (pi_drop cur cur s)
          else Some (tab_upd (slot cur) (Some (us\<lparr>pi_cv := []\<rparr>)) s, pi_cv us));
       s \<leftarrow> pidlock_release cur s;
       Some (s, woken, INVALID_PID)
     }"

text \<open>
  The end of \<^verbatim>\<open>pid_wait\<close>: hand back the status and the pid, clear the parent, drop the entry.
\<close>

definition pid_collect :: "pid \<Rightarrow> pidinfo \<Rightarrow> pidstate \<Rightarrow> (pidstate \<times> pid \<times> int) option" where
  "pid_collect cur them s =
     do {
       let s = tab_upd (slot (pi_pid them)) (Some (them\<lparr>pi_ppid := 0\<rparr>)) s;
       s \<leftarrow> pi_drop cur (pi_pid them) s;
       s \<leftarrow> pidlock_release cur s;
       Some (s, pi_pid them, pi_exitstatus them)
     }"

text \<open>
  The outcomes of \<^verbatim>\<open>pid_wait\<close> up to the sleep: an error; \<^verbatim>\<open>WNOHANG\<close> with the child still
  running, where \<^verbatim>\<open>*ret\<close> is 0 and \<^verbatim>\<open>*status\<close> is not written; a collected child; or the caller
  asleep on the child's condition variable. \<open>ret\<close> says whether the pointer is not null.
\<close>

datatype wait_result = Wait_error errno | Wait_nohang | Wait_status pid int | Wait_asleep

definition pid_wait :: "pid \<Rightarrow> pid \<Rightarrow> int \<Rightarrow> bool \<Rightarrow> pidstate \<Rightarrow> (pidstate \<times> wait_result) option" where
  "pid_wait cur theirpid flags ret s =
     do {
       kassert (cur \<noteq> INVALID_PID);
       if theirpid = cur then Some (s, Wait_error EINVAL)
       else if theirpid = INVALID_PID \<or> theirpid < 0 then Some (s, Wait_error ENOSYS)
       else if flags \<noteq> 0 \<and> flags \<noteq> WNOHANG then Some (s, Wait_error EINVAL)
       else do {
         s \<leftarrow> pidlock_acquire cur s;
         them \<leftarrow> pi_get cur theirpid s;
         (case them of
            None \<Rightarrow> do { s \<leftarrow> pidlock_release cur s; Some (s, Wait_error ESRCH) }
          | Some them \<Rightarrow>
              if pi_ppid them \<noteq> cur then
                do { s \<leftarrow> pidlock_release cur s; Some (s, Wait_error EPERM) }
              else if \<not> pi_exited them then
                if flags = WNOHANG then
                  do { s \<leftarrow> pidlock_release cur s; kassert ret; Some (s, Wait_nohang) }
                else do {
                  let s = tab_upd (slot theirpid) (Some (them\<lparr>pi_cv := pi_cv them @ [cur]\<rparr>)) s;
                  s \<leftarrow> pidlock_release cur s;
                  Some (s, Wait_asleep)
                }
              else do {
                (s, pid, status) \<leftarrow> pid_collect cur them s;
                Some (s, Wait_status pid status)
              })
       }
     }"

text \<open>
  After the sleep. \<^verbatim>\<open>them\<close> is the pointer obtained before it: if the slot no longer holds
  that entry, the memory has been freed, and using it is the machine stopping.
\<close>

definition pid_wait_resume :: "pid \<Rightarrow> pid \<Rightarrow> pidstate \<Rightarrow> (pidstate \<times> wait_result) option" where
  "pid_wait_resume cur theirpid s =
     do {
       s \<leftarrow> pidlock_acquire cur s;
       them \<leftarrow> pidinfo_tab s (slot theirpid);
       kassert (pi_pid them = theirpid);
       kassert (pi_exited them);
       (s, pid, status) \<leftarrow> pid_collect cur them s;
       Some (s, Wait_status pid status)
     }"

section \<open>The table as a map from pids\<close>

definition tab_ok :: "pidstate \<Rightarrow> bool" where
  "tab_ok s \<longleftrightarrow> dom (pidinfo_tab s) \<subseteq> {..<128} \<and>
     (\<forall>i pi. pidinfo_tab s i = Some pi \<longrightarrow> slot (pi_pid pi) = i \<and> 1 \<le> pi_pid pi \<and> pi_pid pi \<le> 32767) \<and>
     nprocs s = int (card (dom (pidinfo_tab s))) \<and> 2 \<le> nextpid s \<and> nextpid s \<le> 32767"

definition pidmap :: "pidstate \<Rightarrow> pid \<rightharpoonup> pidinfo" where
  "pidmap s p =
     (case pidinfo_tab s (slot p) of
        None \<Rightarrow> None
      | Some pi \<Rightarrow> if pi_pid pi = p then Some pi else None)"

lemma slot_less: "slot p < 128"
  by (simp add: slot_def kdefs)

lemma tab_okD:
  assumes "tab_ok s"
  shows "finite (dom (pidinfo_tab s))" "nprocs s = int (card (dom (pidinfo_tab s)))"
    "pidinfo_tab s i = Some pi \<Longrightarrow> slot (pi_pid pi) = i \<and> 1 \<le> pi_pid pi \<and> pi_pid pi \<le> 32767 \<and> i < 128"
    "2 \<le> nextpid s" "nextpid s \<le> 32767"
proof -
  show "finite (dom (pidinfo_tab s))" using assms finite_subset by (auto simp: tab_ok_def)
qed (use assms in \<open>auto simp: tab_ok_def\<close>)

lemma pidmap_SomeD:
  "pidmap s p = Some pi \<Longrightarrow> pidinfo_tab s (slot p) = Some pi \<and> pi_pid pi = p"
  by (simp add: pidmap_def split: option.splits if_splits)

lemma pidmap_tab: "tab_ok s \<Longrightarrow> pidinfo_tab s i = Some pi \<Longrightarrow> pidmap s (pi_pid pi) = Some pi"
  using tab_okD(3) by (auto simp: pidmap_def)

lemma pidmap_range: "tab_ok s \<Longrightarrow> pidmap s p = Some pi \<Longrightarrow> 1 \<le> p \<and> p \<le> 32767"
  using pidmap_SomeD tab_okD(3) by blast

lemma pidmap_lock [simp]: "pidmap (s\<lparr>pidlock := l\<rparr>) = pidmap s"
  "pidmap (s\<lparr>nextpid := n\<rparr>) = pidmap s" "pidmap (s\<lparr>nprocs := k\<rparr>) = pidmap s"
  by (simp_all add: pidmap_def fun_eq_iff)

lemma tab_ok_lock [simp]: "tab_ok (s\<lparr>pidlock := l\<rparr>) = tab_ok s"
  by (simp add: tab_ok_def)

lemma pidmap_upd:
  assumes "tab_ok s" "pidmap s p = Some pi" "pi_pid pi' = p"
  shows "pidmap (tab_upd (slot p) (Some pi') s) = (pidmap s)(p \<mapsto> pi')"
    and "tab_ok (tab_upd (slot p) (Some pi') s)"
proof -
  note p = pidmap_SomeD [OF assms(2)]
  show "pidmap (tab_upd (slot p) (Some pi') s) = (pidmap s)(p \<mapsto> pi')"
    using p assms(3) by (auto simp: pidmap_def fun_eq_iff split: option.splits)
  have "dom ((pidinfo_tab s)(slot p \<mapsto> pi')) = dom (pidinfo_tab s)" using p by auto
  then show "tab_ok (tab_upd (slot p) (Some pi') s)"
    using assms p pidmap_range [OF assms(1,2)] unfolding tab_ok_def by (auto simp: slot_less)
qed

lemma pi_get_eq:
  "pidlock s = Some cur \<Longrightarrow> 0 < p \<Longrightarrow> pi_get cur p s = Some (pidmap s p)"
  by (auto simp: pi_get_def pidmap_def kdefs split: option.splits)

lemma pi_drop_eq:
  assumes "tab_ok s" "pidlock s = Some cur" "pidmap s p = Some pi" "pi_exited pi" "pi_ppid pi = 0"
    "pi_cv pi = []"
  obtains s' where "pi_drop cur p s = Some s'" "tab_ok s'" "pidlock s' = Some cur"
    "pidmap s' = (pidmap s)(p := None)" "pidinfo_tab s' = (pidinfo_tab s)(slot p := None)"
proof -
  note p = pidmap_SomeD [OF assms(3)]
  let ?s = "(tab_upd (slot p) None s)\<lparr>nprocs := nprocs s - 1\<rparr>"
  have "pi_drop cur p s = Some ?s"
    using assms p by (simp add: pi_drop_def pidinfo_destroy_def kdefs)
  moreover have "tab_ok ?s"
  proof -
    have "slot p \<in> dom (pidinfo_tab s)" using p by blast
    then have "card (dom (pidinfo_tab s)) = Suc (card (dom (pidinfo_tab s) - {slot p}))"
      by (rule card.remove [OF tab_okD(1) [OF assms(1)]])
    then have "nprocs s - 1 = int (card (dom ((pidinfo_tab s)(slot p := None))))"
      using tab_okD(2) [OF assms(1)] by simp
    moreover have "dom ((pidinfo_tab s)(slot p := None)) \<subseteq> {..<128}"
      using assms(1) by (auto simp: tab_ok_def)
    ultimately show ?thesis
      using tab_okD [OF assms(1)] unfolding tab_ok_def by (simp del: dom_fun_upd)
  qed
  moreover have "pidmap ?s = (pidmap s)(p := None)"
    using p by (auto simp: pidmap_def fun_eq_iff split: option.splits)
  ultimately show ?thesis using that assms(2) by simp
qed

lemma pi_put_eq:
  assumes "tab_ok s" "pidlock s = Some cur" "pidinfo_tab s (slot p) = None" "1 \<le> p" "p \<le> 32767" "pi_pid pi = p"
  obtains s' where "pi_put cur p pi s = Some s'" "tab_ok s'" "pidlock s' = Some cur"
    "pidmap s' = (pidmap s)(p \<mapsto> pi)" "nextpid s' = nextpid s"
proof -
  let ?s = "(tab_upd (slot p) (Some pi) s)\<lparr>nprocs := nprocs s + 1\<rparr>"
  have "pi_put cur p pi s = Some ?s" using assms by (simp add: pi_put_def kdefs)
  moreover have "tab_ok ?s"
  proof -
    have "slot p \<notin> dom (pidinfo_tab s)" using assms(3) by auto
    then have "nprocs s + 1 = int (card (dom ((pidinfo_tab s)(slot p \<mapsto> pi))))"
      using tab_okD(1,2) [OF assms(1)] by simp
    moreover have "dom ((pidinfo_tab s)(slot p \<mapsto> pi)) \<subseteq> {..<128}"
      using assms(1) slot_less by (auto simp: tab_ok_def)
    ultimately show ?thesis
      using tab_okD [OF assms(1)] assms(4-6) unfolding tab_ok_def by (simp del: dom_fun_upd)
  qed
  moreover have "pidmap ?s = (pidmap s)(p \<mapsto> pi)"
    using assms(3,6) by (auto simp: pidmap_def fun_eq_iff split: option.splits)
  ultimately show ?thesis using that assms(2) by simp
qed

section \<open>The search for a free pid\<close>

text \<open>
  The candidates run through all residues: at most 127 steps until the wrap at \<^verbatim>\<open>PID_MAX\<close>, then
  at most 128 more, which is below the bound that the loop asserts.
\<close>

lemma inc_nextpid_range: "2 \<le> np \<Longrightarrow> np \<le> 32767 \<Longrightarrow> 2 \<le> inc_nextpid np \<and> inc_nextpid np \<le> 32767"
  by (simp add: inc_nextpid_def kdefs)

lemma inc_funpow: "np + int k \<le> 32767 \<Longrightarrow> (inc_nextpid ^^ k) np = np + int k"
  by (induction k) (auto simp: inc_nextpid_def kdefs)

lemma inc_funpow_wrap:
  assumes "np \<le> 32767"
  shows "(inc_nextpid ^^ nat (32768 - np)) np = 2"
proof -
  obtain k where k: "nat (32768 - np) = Suc k" using assms by (cases "nat (32768 - np)") auto
  then have "np + int k = 32767" using assms by linarith
  then show ?thesis using k inc_funpow [of np k] by (simp add: inc_nextpid_def kdefs)
qed

lemma candidates_cover:
  assumes "2 \<le> np" "np \<le> 32767" "j < 128"
  shows "\<exists>k\<le>255. slot ((inc_nextpid ^^ k) np) = j"
proof -
  have slot_at: "slot (x + (int j - x) mod 128) = j" for x :: int
  proof -
    have "(x + (int j - x) mod 128) mod 128 = int j mod 128" by (simp add: mod_simps)
    then show ?thesis using assms(3) by (simp add: slot_def kdefs)
  qed
  define d where "d = nat ((int j - np) mod 128)"
  have d: "int d = (int j - np) mod 128" "d < 128" by (simp_all add: d_def)
  show ?thesis
  proof (cases "np + int d \<le> 32767")
    case True
    then show ?thesis using inc_funpow [OF True] d slot_at [of np] by (intro exI [of _ d]) auto
  next
    case False
    define e where "e = nat ((int j - 2) mod 128)"
    have e: "int e = (int j - 2) mod 128" "e < 128" by (simp_all add: e_def)
    let ?k = "e + nat (32768 - np)"
    have "(inc_nextpid ^^ ?k) np = 2 + int e"
      using inc_funpow_wrap [OF assms(2)] inc_funpow [of 2 e] e by (simp add: funpow_add)
    moreover have "?k \<le> 255" using False d(2) e(2) by linarith
    ultimately show ?thesis using slot_at [of 2] e(1) by (intro exI [of _ ?k]) simp
  qed
qed

lemma pid_search_funpow:
  assumes "tab (slot ((inc_nextpid ^^ k) np)) = None" "count + k \<le> 261" "2 \<le> np" "np \<le> 32767"
  shows "\<exists>p. pid_search tab count np = Some p \<and> tab (slot p) = None \<and> 2 \<le> p \<and> p \<le> 32767"
  using assms
proof (induction k arbitrary: count np)
  case 0
  then show ?case by (simp add: pid_search.simps [of tab count np])
next
  case (Suc k)
  show ?case
  proof (cases "tab (slot np)")
    case None
    then show ?thesis using Suc.prems by (simp add: pid_search.simps [of tab count np])
  next
    case (Some pi)
    have "tab (slot ((inc_nextpid ^^ k) (inc_nextpid np))) = None"
      using Suc.prems(1) by (simp add: funpow_swap1)
    then have "\<exists>p. pid_search tab (count + 1) (inc_nextpid np) = Some p \<and> tab (slot p) = None \<and> 2 \<le> p \<and> p \<le> 32767"
      using Suc.prems inc_nextpid_range by (intro Suc.IH) auto
    then show ?thesis
      using Some Suc.prems(2) by (simp add: pid_search.simps [of tab count np] PROCS_MAX_def)
  qed
qed

lemma pid_search_finds:
  assumes "dom tab \<subseteq> {..<128}" "card (dom tab) \<noteq> 128" "2 \<le> np" "np \<le> 32767"
  obtains p where "pid_search tab 0 np = Some p" "tab (slot p) = None" "2 \<le> p" "p \<le> 32767"
proof -
  have "dom tab \<noteq> {..<128}" using assms(2) by auto
  then obtain j where "j < 128" "tab j = None" using assms(1) by blast
  then obtain k where "k \<le> 255" "tab (slot ((inc_nextpid ^^ k) np)) = None"
    using candidates_cover [OF assms(3,4)] by metis
  then show ?thesis using pid_search_funpow [of tab k np 0] assms(3,4) that by auto
qed

section \<open>The operations on the map\<close>

text \<open>A free lock and a consistent table: what every operation starts from and leaves.\<close>

definition pid_ok :: "pidstate \<Rightarrow> bool" where
  "pid_ok s \<longleftrightarrow> pidlock s = None \<and> tab_ok s"

definition new_pidinfo :: "pid \<Rightarrow> pid \<Rightarrow> pidinfo" where
  "new_pidinfo pid ppid =
     \<lparr>pi_pid = pid, pi_ppid = ppid, pi_exited = False, pi_exitstatus = 0xbeef, pi_cv = []\<rparr>"

lemma pid_alloc_full:
  assumes "pid_ok s" "cur \<noteq> 0" "card (dom (pidinfo_tab s)) = 128"
  shows "pid_alloc m1 m2 cur s = Some (s, Inl EAGAIN)"
  using assms by (simp add: pid_alloc_def pid_ok_def pidlock_acquire_def pidlock_release_def
      tab_okD(2) kdefs)

lemma pid_alloc_nomem:
  assumes "pid_ok s" "cur \<noteq> 0" "card (dom (pidinfo_tab s)) \<noteq> 128" "\<not> (m1 \<and> m2)"
  obtains s' where "pid_alloc m1 m2 cur s = Some (s', Inl ENOMEM)" "pid_ok s'" "pidmap s' = pidmap s"
proof -
  have ok: "tab_ok s" using assms(1) by (simp add: pid_ok_def)
  then have "dom (pidinfo_tab s) \<subseteq> {..<128}" by (simp add: tab_ok_def)
  then obtain np where np: "pid_search (pidinfo_tab s) 0 (nextpid s) = Some np" "2 \<le> np" "np \<le> 32767"
    using pid_search_finds [OF _ assms(3)] tab_okD(4,5) [OF ok] by metis
  let ?s = "s\<lparr>nextpid := np\<rparr>"
  have "pid_alloc m1 m2 cur s = Some (?s, Inl ENOMEM)"
    using assms np ok
    by (simp add: pid_alloc_def pid_ok_def pidlock_acquire_def pidlock_release_def tab_okD(2)
        pidinfo_create_def kdefs)
  moreover have "pid_ok ?s" using assms(1) np by (simp add: pid_ok_def tab_ok_def)
  ultimately show ?thesis using that by simp
qed

lemma pid_alloc_ok:
  assumes "pid_ok s" "cur \<noteq> 0" "card (dom (pidinfo_tab s)) \<noteq> 128"
  obtains s' np where "pid_alloc True True cur s = Some (s', Inr np)" "pid_ok s'"
    "pidmap s' = (pidmap s)(np \<mapsto> new_pidinfo np cur)" "pidmap s np = None" "2 \<le> np" "np \<le> 32767"
proof -
  have ok: "tab_ok s" and free: "pidlock s = None" using assms(1) by (simp_all add: pid_ok_def)
  then have "dom (pidinfo_tab s) \<subseteq> {..<128}" by (simp add: tab_ok_def)
  then obtain np where np: "pid_search (pidinfo_tab s) 0 (nextpid s) = Some np" "2 \<le> np" "np \<le> 32767"
    "pidinfo_tab s (slot np) = None"
    using pid_search_finds [OF _ assms(3)] tab_okD(4,5) [OF ok] by metis
  let ?s1 = "s\<lparr>pidlock := Some cur, nextpid := np\<rparr>"
  have s1: "tab_ok ?s1" "pidlock ?s1 = Some cur" using ok np(2,3) by (simp_all add: tab_ok_def)
  have "pi_pid (new_pidinfo np cur) = np" by (simp add: new_pidinfo_def)
  then obtain s2 where s2: "pi_put cur np (new_pidinfo np cur) ?s1 = Some s2" "tab_ok s2"
    "pidlock s2 = Some cur" "pidmap s2 = (pidmap ?s1)(np \<mapsto> new_pidinfo np cur)" "nextpid s2 = np"
    using pi_put_eq [OF s1, of np "new_pidinfo np cur"] np(2-4) by auto
  let ?s' = "s2\<lparr>nextpid := inc_nextpid np, pidlock := None\<rparr>"
  have "pid_alloc True True cur s = Some (?s', Inr np)"
    using assms(2,3) np ok free s2
    by (simp add: pid_alloc_def pidlock_acquire_def pidlock_release_def tab_okD(2)
        pidinfo_create_def new_pidinfo_def kdefs)
  moreover have "pid_ok ?s'"
    using s2(2) inc_nextpid_range [OF np(2,3)] by (simp add: pid_ok_def tab_ok_def)
  moreover have "pidmap s np = None" using np(4) by (simp add: pidmap_def)
  ultimately show ?thesis using that s2(4) np(2,3) by simp
qed

lemma pid_unalloc_ok:
  assumes "pid_ok s" "pidmap s p = Some pi" "2 \<le> p" "\<not> pi_exited pi" "pi_ppid pi = cur" "pi_cv pi = []"
  obtains s' where "pid_unalloc cur p s = Some s'" "pid_ok s'" "pidmap s' = (pidmap s)(p := None)"
proof -
  let ?s1 = "s\<lparr>pidlock := Some cur\<rparr>"
  let ?pi = "pi\<lparr>pi_exitstatus := 0xdead, pi_exited := True, pi_ppid := INVALID_PID\<rparr>"
  have ok: "tab_ok ?s1" and free: "pidlock s = None" using assms(1) by (simp_all add: pid_ok_def)
  have p: "pidmap ?s1 p = Some pi" using assms(2) by simp
  have "pi_pid ?pi = p" using pidmap_SomeD [OF assms(2)] by simp
  note upd = pidmap_upd [OF ok p this]
  have "pidmap (tab_upd (slot p) (Some ?pi) ?s1) p = Some ?pi" using upd(1) by simp
  then obtain s2 where s2: "pi_drop cur p (tab_upd (slot p) (Some ?pi) ?s1) = Some s2" "tab_ok s2"
    "pidlock s2 = Some cur" "pidmap s2 = (pidmap s)(p := None)"
    using upd assms(6) pi_drop_eq [OF upd(2), of cur p ?pi] by (auto simp: kdefs)
  have "p \<le> 32767" using pidmap_range [OF ok p] by simp
  then have "pid_unalloc cur p s = Some (s2\<lparr>pidlock := None\<rparr>)"
    using assms free s2
    by (simp add: pid_unalloc_def pidlock_acquire_def pidlock_release_def pi_get_eq PID_MIN_def PID_MAX_def)
  then show ?thesis using that s2 by (simp add: pid_ok_def)
qed

lemma pid_disown_ok:
  assumes "pid_ok s" "pidmap s p = Some pi" "2 \<le> p" "pi_ppid pi = cur" "pi_exited pi \<longrightarrow> pi_cv pi = []"
  obtains s' where "pid_disown cur p s = Some s'" "pid_ok s'"
    "pidmap s' = (pidmap s)(p := if pi_exited pi then None else Some (pi\<lparr>pi_ppid := 0\<rparr>))"
proof -
  let ?s1 = "s\<lparr>pidlock := Some cur\<rparr>" and ?pi = "pi\<lparr>pi_ppid := INVALID_PID\<rparr>"
  have ok: "tab_ok ?s1" and free: "pidlock s = None" using assms(1) by (simp_all add: pid_ok_def)
  have p: "pidmap ?s1 p = Some pi" and pid: "pi_pid pi = p" using assms(2) pidmap_SomeD by auto
  then have "pi_pid ?pi = p" by simp
  note upd = pidmap_upd [OF ok p this]
  have range: "p \<le> 32767" using pidmap_range [OF ok p] by simp
  show ?thesis
  proof (cases "pi_exited pi")
    case True
    have "pidmap (tab_upd (slot p) (Some ?pi) ?s1) p = Some ?pi" using upd(1) by simp
    then obtain s2 where s2: "pi_drop cur p (tab_upd (slot p) (Some ?pi) ?s1) = Some s2" "tab_ok s2"
      "pidlock s2 = Some cur" "pidmap s2 = (pidmap s)(p := None)"
      using upd assms(5) True pi_drop_eq [OF upd(2), of cur p ?pi] by (auto simp: kdefs)
    have "pid_disown cur p s = Some (s2\<lparr>pidlock := None\<rparr>)"
      using assms free s2 pid range True
      by (simp add: pid_disown_def pidlock_acquire_def pidlock_release_def pi_get_eq PID_MIN_def PID_MAX_def)
    then show ?thesis using that s2 True by (simp add: pid_ok_def)
  next
    case False
    let ?s' = "(tab_upd (slot p) (Some ?pi) ?s1)\<lparr>pidlock := None\<rparr>"
    have "pid_disown cur p s = Some ?s'"
      using assms free pid range False
      by (simp add: pid_disown_def pidlock_acquire_def pidlock_release_def pi_get_eq PID_MIN_def PID_MAX_def)
    moreover have "pidmap ?s' = (pidmap s)(p \<mapsto> ?pi)" using upd(1) by (metis pidmap_lock(1))
    moreover have "pid_ok ?s'" using upd(2) unfolding pid_ok_def by (simp add: tab_ok_def)
    ultimately show ?thesis using that False by (simp add: INVALID_PID_def)
  qed
qed

text \<open>The disowning of a parent's children, per entry.\<close>

definition disowned :: "pid \<Rightarrow> pidinfo option \<Rightarrow> pidinfo option" where
  "disowned cur x =
     (case x of
        None \<Rightarrow> None
      | Some pi \<Rightarrow>
          if pi_ppid pi = cur then if pi_exited pi then None else Some (pi\<lparr>pi_ppid := 0\<rparr>)
          else Some pi)"

lemma disowned_None [simp]: "disowned cur None = None"
  by (simp add: disowned_def)

lemma disowned_SomeD:
  "disowned cur x = Some pi' \<Longrightarrow> \<exists>pi. x = Some pi \<and> pi_pid pi' = pi_pid pi \<and> pi_exited pi' = pi_exited pi \<and>
     pi_cv pi' = pi_cv pi \<and> pi_exitstatus pi' = pi_exitstatus pi \<and>
     (if pi_ppid pi = cur then \<not> pi_exited pi \<and> pi_ppid pi' = 0 else pi' = pi)"
  by (auto simp: disowned_def split: option.splits if_splits)

lemma disown_slot_ok:
  assumes ok: "tab_ok s" and lk: "pidlock s = Some cur"
    and cv: "\<And>pi. pidinfo_tab s i = Some pi \<Longrightarrow> pi_ppid pi = cur \<Longrightarrow> pi_exited pi \<Longrightarrow> pi_cv pi = []"
  shows "\<exists>s'. disown_slot cur i s = Some s' \<and> tab_ok s' \<and> pidlock s' = Some cur \<and>
    pidinfo_tab s' = (pidinfo_tab s)(i := disowned cur (pidinfo_tab s i))"
proof (cases "pidinfo_tab s i")
  case None
  then show ?thesis using ok lk by (auto simp: disown_slot_def)
next
  case (Some pi)
  show ?thesis
  proof (cases "pi_ppid pi = cur")
    case False
    then show ?thesis using ok lk Some by (auto simp: disown_slot_def disowned_def)
  next
    case True
    let ?pi = "pi\<lparr>pi_ppid := INVALID_PID\<rparr>" and ?p = "pi_pid pi"
    have p: "pidmap s ?p = Some pi" "slot ?p = i" using pidmap_tab [OF ok Some] tab_okD(3) [OF ok Some] by auto
    note upd = pidmap_upd [OF ok p(1), of ?pi, simplified]
    show ?thesis
    proof (cases "pi_exited pi")
      case True
      have "pidmap (tab_upd (slot ?p) (Some ?pi) s) ?p = Some ?pi" using upd(1) by simp
      then obtain s2 where "pi_drop cur ?p (tab_upd (slot ?p) (Some ?pi) s) = Some s2" "tab_ok s2"
        "pidlock s2 = Some cur" "pidinfo_tab s2 = (pidinfo_tab s)(slot ?p := None)"
        using upd True cv [OF Some \<open>pi_ppid pi = cur\<close> True] lk pi_drop_eq [OF upd(2), of cur ?p ?pi]
        by (auto simp: kdefs)
      then show ?thesis
        using Some True \<open>pi_ppid pi = cur\<close> p(2) by (simp add: disown_slot_def disowned_def)
    next
      case False
      then show ?thesis
        using Some upd(2) lk \<open>pi_ppid pi = cur\<close> p(2)
        by (simp add: disown_slot_def disowned_def INVALID_PID_def)
    qed
  qed
qed

lemma disown_slots_ok:
  assumes "tab_ok s" "pidlock s = Some cur" "distinct is"
    and "\<And>i pi. pidinfo_tab s i = Some pi \<Longrightarrow> pi_ppid pi = cur \<Longrightarrow> pi_exited pi \<Longrightarrow> pi_cv pi = []"
  shows "\<exists>s'. disown_slots cur is s = Some s' \<and> tab_ok s' \<and> pidlock s' = Some cur \<and>
    pidinfo_tab s' = (\<lambda>j. if j \<in> set is then disowned cur (pidinfo_tab s j) else pidinfo_tab s j)"
  using assms
proof (induction "is" arbitrary: s)
  case Nil
  then show ?case by auto
next
  case (Cons i "is")
  obtain s1 where s1: "disown_slot cur i s = Some s1" "tab_ok s1" "pidlock s1 = Some cur"
    "pidinfo_tab s1 = (pidinfo_tab s)(i := disowned cur (pidinfo_tab s i))"
    using disown_slot_ok [OF Cons.prems(1,2)] Cons.prems(4) by blast
  have "pi_cv pi = []" if "pidinfo_tab s1 j = Some pi" "pi_ppid pi = cur" "pi_exited pi" for j pi
    using that s1(4) Cons.prems(4) by (auto split: if_splits dest!: disowned_SomeD)
  then obtain s2 where "disown_slots cur is s1 = Some s2" "tab_ok s2" "pidlock s2 = Some cur"
    "pidinfo_tab s2 = (\<lambda>j. if j \<in> set is then disowned cur (pidinfo_tab s1 j) else pidinfo_tab s1 j)"
    using Cons.IH [OF s1(2,3)] Cons.prems(3) by auto
  then show ?case using s1 Cons.prems(3) by (auto simp: fun_eq_iff)
qed

lemma disown_children:
  assumes "tab_ok s" "pidlock s = Some cur"
    and "\<And>p pi. pidmap s p = Some pi \<Longrightarrow> pi_ppid pi = cur \<Longrightarrow> pi_exited pi \<Longrightarrow> pi_cv pi = []"
  obtains s' where "disown_slots cur [0..<PROCS_MAX] s = Some s'" "tab_ok s'" "pidlock s' = Some cur"
    "pidmap s' = (\<lambda>p. disowned cur (pidmap s p))"
proof -
  have "pi_cv pi = []" if "pidinfo_tab s i = Some pi" "pi_ppid pi = cur" "pi_exited pi" for i pi
    using assms(3) pidmap_tab [OF assms(1) that(1)] that by blast
  then obtain s' where s': "disown_slots cur [0..<PROCS_MAX] s = Some s'" "tab_ok s'" "pidlock s' = Some cur"
    "pidinfo_tab s' = (\<lambda>j. if j \<in> set [0..<PROCS_MAX] then disowned cur (pidinfo_tab s j) else pidinfo_tab s j)"
    using disown_slots_ok [OF assms(1,2), of "[0..<PROCS_MAX]"] by auto
  have "pidmap s' p = disowned cur (pidmap s p)" for p
    using slot_less [of p] by (auto simp: pidmap_def s'(4) PROCS_MAX_def disowned_def split: option.splits)
  then show ?thesis using that s'(1-3) by blast
qed

lemma pid_setexitstatus_ok:
  assumes ok: "pid_ok s" and us: "pidmap s cur = Some us" and ppid: "pi_ppid us \<noteq> cur"
    and cv: "\<And>p pi. pidmap s p = Some pi \<Longrightarrow> pi_ppid pi = cur \<Longrightarrow> pi_exited pi \<Longrightarrow> pi_cv pi = []"
    and orphan: "pi_ppid us = 0 \<Longrightarrow> pi_cv us = []"
  shows "\<exists>s'. pid_setexitstatus cur status s = Some (s', if pi_ppid us = 0 then [] else pi_cv us, 0) \<and>
    pid_ok s' \<and>
    pidmap s' = (\<lambda>p. disowned cur (pidmap s p))(cur := if pi_ppid us = 0 then None
       else Some (us\<lparr>pi_exitstatus := status, pi_exited := True, pi_cv := []\<rparr>))"
proof -
  let ?s1 = "s\<lparr>pidlock := Some cur\<rparr>"
  have free: "pidlock s = None" and ok1: "tab_ok ?s1" using ok by (simp_all add: pid_ok_def)
  have cur: "0 < cur" using pidmap_range [OF ok1] us by fastforce
  obtain s2 where s2: "disown_slots cur [0..<PROCS_MAX] ?s1 = Some s2" "tab_ok s2"
    "pidlock s2 = Some cur" "pidmap s2 = (\<lambda>p. disowned cur (pidmap s p))"
    using disown_children [OF ok1] cv by auto
  have us2: "pidmap s2 cur = Some us" using us ppid by (simp add: s2(4) disowned_def)
  let ?us = "us\<lparr>pi_exitstatus := status, pi_exited := True\<rparr>"
  have "pi_pid us = cur" using pidmap_SomeD [OF us] by simp
  then have pid: "pi_pid ?us = cur" "pi_pid (?us\<lparr>pi_cv := []\<rparr>) = cur" by simp_all
  note upd = pidmap_upd [OF s2(2) us2 pid(1)]
  have lk: "pidlock (tab_upd (slot cur) (Some ?us) s2) = Some cur" using s2(3) by simp
  have at: "pidmap (tab_upd (slot cur) (Some ?us) s2) cur = Some ?us" using upd(1) by simp
  show ?thesis
  proof (cases "pi_ppid us = 0")
    case True
    obtain s3 where s3: "pi_drop cur cur (tab_upd (slot cur) (Some ?us) s2) = Some s3" "tab_ok s3"
      "pidlock s3 = Some cur" "pidmap s3 = (pidmap s2)(cur := None)"
      using pi_drop_eq [OF upd(2) lk at] True orphan upd(1) by auto
    have "pid_setexitstatus cur status s = Some (s3\<lparr>pidlock := None\<rparr>, [], 0)"
      using free cur s2 us2 s3 True
      by (simp add: pid_setexitstatus_def pidlock_acquire_def pidlock_release_def pi_get_eq INVALID_PID_def)
    then show ?thesis using s3 s2(4) True by (simp add: pid_ok_def)
  next
    case False
    note upd' = pidmap_upd [OF s2(2) us2 pid(2)]
    let ?s3 = "tab_upd (slot cur) (Some (?us\<lparr>pi_cv := []\<rparr>)) s2"
    have "pid_setexitstatus cur status s = Some (?s3\<lparr>pidlock := None\<rparr>, pi_cv us, 0)"
      using free cur s2 us2 False
      by (simp add: pid_setexitstatus_def pidlock_acquire_def pidlock_release_def pi_get_eq INVALID_PID_def)
    moreover have "pid_ok (?s3\<lparr>pidlock := None\<rparr>)" using upd'(2) unfolding pid_ok_def by (simp add: tab_ok_def)
    moreover have "pidmap (?s3\<lparr>pidlock := None\<rparr>) = (pidmap s2)(cur \<mapsto> ?us\<lparr>pi_cv := []\<rparr>)"
      using upd'(1) by (metis pidmap_lock(1))
    ultimately show ?thesis using s2(4) False by simp
  qed
qed

lemma pid_collect_ok:
  assumes "tab_ok s" "pidlock s = Some cur" "pidmap s p = Some pi" "pi_exited pi" "pi_cv pi = []"
  obtains s' where "pid_collect cur pi s = Some (s', p, pi_exitstatus pi)" "pid_ok s'"
    "pidmap s' = (pidmap s)(p := None)"
proof -
  let ?pi = "pi\<lparr>pi_ppid := 0\<rparr>"
  have pid: "pi_pid pi = p" using pidmap_SomeD [OF assms(3)] by simp
  then have "pi_pid ?pi = p" by simp
  note upd = pidmap_upd [OF assms(1,3) this]
  have "pidmap (tab_upd (slot p) (Some ?pi) s) p = Some ?pi" using upd(1) by simp
  then obtain s2 where "pi_drop cur p (tab_upd (slot p) (Some ?pi) s) = Some s2" "tab_ok s2"
    "pidlock s2 = Some cur" "pidmap s2 = (pidmap s)(p := None)"
    using upd assms(2,4,5) pi_drop_eq [OF upd(2), of cur p ?pi] by auto
  then show ?thesis
    using that pid by (simp add: pid_collect_def pidlock_release_def pid_ok_def)
qed

lemma lock_roundtrip: "pidlock s = None \<Longrightarrow> s\<lparr>pidlock := Some cur, pidlock := None\<rparr> = s"
  by (cases s) simp

lemma pid_wait_errors:
  assumes "cur \<noteq> 0"
  shows "pid_wait cur cur flags ret s = Some (s, Wait_error EINVAL)"
    "p \<noteq> cur \<Longrightarrow> p \<le> 0 \<Longrightarrow> pid_wait cur p flags ret s = Some (s, Wait_error ENOSYS)"
    "p \<noteq> cur \<Longrightarrow> 0 < p \<Longrightarrow> flags \<noteq> 0 \<Longrightarrow> flags \<noteq> 1 \<Longrightarrow>
      pid_wait cur p flags ret s = Some (s, Wait_error EINVAL)"
    "pid_ok s \<Longrightarrow> p \<noteq> cur \<Longrightarrow> 0 < p \<Longrightarrow> flags \<in> {0, 1} \<Longrightarrow> pidmap s p = None \<Longrightarrow>
      pid_wait cur p flags ret s = Some (s, Wait_error ESRCH)"
    "pid_ok s \<Longrightarrow> p \<noteq> cur \<Longrightarrow> 0 < p \<Longrightarrow> flags \<in> {0, 1} \<Longrightarrow> pidmap s p = Some pi \<Longrightarrow> pi_ppid pi \<noteq> cur \<Longrightarrow>
      pid_wait cur p flags ret s = Some (s, Wait_error EPERM)"
    "pid_ok s \<Longrightarrow> p \<noteq> cur \<Longrightarrow> pidmap s p = Some pi \<Longrightarrow> pi_ppid pi = cur \<Longrightarrow> \<not> pi_exited pi \<Longrightarrow>
      pid_wait cur p 1 True s = Some (s, Wait_nohang)"
  using assms pidmap_range [of s p pi]
  by (auto simp: pid_wait_def kdefs pidlock_acquire_def pidlock_release_def pi_get_eq pid_ok_def
      lock_roundtrip)

lemma pid_wait_sleeps:
  assumes "pid_ok s" "cur \<noteq> 0" "p \<noteq> cur" "pidmap s p = Some pi" "pi_ppid pi = cur" "\<not> pi_exited pi"
  obtains s' where "pid_wait cur p 0 ret s = Some (s', Wait_asleep)" "pid_ok s'"
    "pidmap s' = (pidmap s)(p \<mapsto> pi\<lparr>pi_cv := pi_cv pi @ [cur]\<rparr>)"
proof -
  let ?s1 = "s\<lparr>pidlock := Some cur\<rparr>" and ?pi = "pi\<lparr>pi_cv := pi_cv pi @ [cur]\<rparr>"
  have ok: "tab_ok ?s1" and free: "pidlock s = None" using assms(1) by (simp_all add: pid_ok_def)
  have p: "pidmap ?s1 p = Some pi" using assms(4) by simp
  have "pi_pid ?pi = p" using pidmap_SomeD [OF assms(4)] by simp
  note upd = pidmap_upd [OF ok p this]
  let ?s' = "(tab_upd (slot p) (Some ?pi) ?s1)\<lparr>pidlock := None\<rparr>"
  have "0 < p" using pidmap_range [OF ok p] by simp
  then have "pid_wait cur p 0 ret s = Some (?s', Wait_asleep)"
    using assms free
    by (simp add: pid_wait_def kdefs pidlock_acquire_def pidlock_release_def pi_get_eq)
  moreover have "pidmap ?s' = (pidmap s)(p \<mapsto> ?pi)" using upd(1) by (metis pidmap_lock(1))
  moreover have "pid_ok ?s'" using upd(2) unfolding pid_ok_def by (simp add: tab_ok_def)
  ultimately show ?thesis using that by simp
qed

lemma pid_wait_collects:
  assumes "pid_ok s" "cur \<noteq> 0" "p \<noteq> cur" "flags \<in> {0, 1}" "pidmap s p = Some pi" "pi_ppid pi = cur"
    "pi_exited pi" "pi_cv pi = []"
  obtains s' where "pid_wait cur p flags ret s = Some (s', Wait_status p (pi_exitstatus pi))" "pid_ok s'"
    "pidmap s' = (pidmap s)(p := None)"
proof -
  let ?s1 = "s\<lparr>pidlock := Some cur\<rparr>"
  have ok: "tab_ok ?s1" and free: "pidlock s = None" using assms(1) by (simp_all add: pid_ok_def)
  have p: "pidmap ?s1 p = Some pi" using assms(5) by simp
  obtain s' where s': "pid_collect cur pi ?s1 = Some (s', p, pi_exitstatus pi)" "pid_ok s'"
    "pidmap s' = (pidmap s)(p := None)"
    using pid_collect_ok [OF ok _ p assms(7,8)] by auto
  have "0 < p" using pidmap_range [OF ok p] by simp
  then have "pid_wait cur p flags ret s = Some (s', Wait_status p (pi_exitstatus pi))"
    using assms free s'(1)
    by (auto simp: pid_wait_def kdefs pidlock_acquire_def pidlock_release_def pi_get_eq)
  then show ?thesis using that s' by simp
qed

lemma pid_wait_resume_ok:
  assumes "pid_ok s" "pidmap s p = Some pi" "pi_exited pi" "pi_cv pi = []"
  obtains s' where "pid_wait_resume cur p s = Some (s', Wait_status p (pi_exitstatus pi))" "pid_ok s'"
    "pidmap s' = (pidmap s)(p := None)"
proof -
  let ?s1 = "s\<lparr>pidlock := Some cur\<rparr>"
  have ok: "tab_ok ?s1" and free: "pidlock s = None" using assms(1) by (simp_all add: pid_ok_def)
  have p: "pidmap ?s1 p = Some pi" using assms(2) by simp
  obtain s' where "pid_collect cur pi ?s1 = Some (s', p, pi_exitstatus pi)" "pid_ok s'"
    "pidmap s' = (pidmap s)(p := None)"
    using pid_collect_ok [OF ok _ p assms(3,4)] by auto
  then show ?thesis
    using that assms(3) free pidmap_SomeD [OF assms(2)]
    by (simp add: pid_wait_resume_def pidlock_acquire_def)
qed

section \<open>Processes\<close>

text \<open>
  The processes of the machine and what each may do next. \<open>running\<close>: the processes whose
  thread runs; \<open>embryo\<close>: pids given out by \<^verbatim>\<open>pid_alloc\<close> to a parent whose child does not run
  yet (between \<^verbatim>\<open>proc_fork\<close> and \<^verbatim>\<open>thread_fork\<close>); \<open>waiting\<close>: the processes inside
  \<^verbatim>\<open>cv_wait\<close>, with the child they wait for; \<open>awake\<close>: those of them that a broadcast has made
  runnable again and that still have to take \<^verbatim>\<open>pidlock\<close>.
\<close>

record pidsys =
  pids :: pidstate
  running :: "pid set"
  embryo :: "pid \<rightharpoonup> pid"
  waiting :: "pid \<rightharpoonup> pid"
  awake :: "pid set"

datatype pid_event =
    Fork pid bool bool
  | Start pid
  | Unfork pid pid
  | Exit pid int
  | Wait pid pid int
  | Resume pid
  | Disown pid pid

text \<open>
  When an event can happen: the process runs and is not in the middle of a fork (\<open>idle\<close>), the
  kernel process does not exit
  (\<^verbatim>\<open>proc_exit\<close> asserts it), and the callers in the kernel only give back, or disown, pids that
  are theirs.
\<close>

definition idle :: "pid \<Rightarrow> pidsys \<Rightarrow> bool" where
  "idle p y \<longleftrightarrow> p \<in> running y \<and> p \<notin> ran (embryo y)"

fun pid_enabled :: "pid_event \<Rightarrow> pidsys \<Rightarrow> bool" where
  "pid_enabled (Fork p m1 m2) y \<longleftrightarrow> idle p y"
| "pid_enabled (Start c) y \<longleftrightarrow> embryo y c \<noteq> None"
| "pid_enabled (Unfork p c) y \<longleftrightarrow> embryo y c = Some p"
| "pid_enabled (Exit p status) y \<longleftrightarrow> idle p y \<and> p \<noteq> KERNEL_PID"
| "pid_enabled (Wait p c flags) y \<longleftrightarrow> idle p y"
| "pid_enabled (Resume p) y \<longleftrightarrow> p \<in> awake y"
| "pid_enabled (Disown p c) y \<longleftrightarrow> idle p y \<and> (\<exists>pi. pidmap (pids y) c = Some pi \<and> pi_ppid pi = p)"

text \<open>What an event does; \<open>None\<close> is a panic. The result is what the caller sees.\<close>

datatype pid_result = Res_none | Res_alloc "errno + pid" | Res_wait wait_result

fun pid_do :: "pid_event \<Rightarrow> pidsys \<Rightarrow> (pidsys \<times> pid_result) option" where
  "pid_do (Fork p m1 m2) y =
     do {
       (s, r) \<leftarrow> pid_alloc m1 m2 p (pids y);
       Some (case r of
               Inl e \<Rightarrow> (y\<lparr>pids := s\<rparr>, Res_alloc (Inl e))
             | Inr c \<Rightarrow> (y\<lparr>pids := s, embryo := (embryo y)(c \<mapsto> p)\<rparr>, Res_alloc (Inr c)))
     }"
| "pid_do (Start c) y =
     Some (y\<lparr>embryo := (embryo y)(c := None), running := insert c (running y)\<rparr>, Res_none)"
| "pid_do (Unfork p c) y =
     do {
       s \<leftarrow> pid_unalloc p c (pids y);
       Some (y\<lparr>pids := s, embryo := (embryo y)(c := None)\<rparr>, Res_none)
     }"
| "pid_do (Exit p status) y =
     do {
       (s, woken, _) \<leftarrow> pid_setexitstatus p status (pids y);
       Some (y\<lparr>pids := s, running := running y - {p}, awake := awake y \<union> set woken\<rparr>, Res_none)
     }"
| "pid_do (Wait p c flags) y =
     do {
       (s, r) \<leftarrow> pid_wait p c flags True (pids y);
       Some (if r = Wait_asleep
             then (y\<lparr>pids := s, running := running y - {p}, waiting := (waiting y)(p \<mapsto> c)\<rparr>, Res_wait r)
             else (y\<lparr>pids := s\<rparr>, Res_wait r))
     }"
| "pid_do (Resume p) y =
     do {
       c \<leftarrow> waiting y p;
       (s, r) \<leftarrow> pid_wait_resume p c (pids y);
       Some (y\<lparr>pids := s, running := insert p (running y), waiting := (waiting y)(p := None),
               awake := awake y - {p}\<rparr>, Res_wait r)
     }"
| "pid_do (Disown p c) y =
     do {
       s \<leftarrow> pid_disown p c (pids y);
       Some (y\<lparr>pids := s\<rparr>, Res_none)
     }"

section \<open>The invariant of the process system\<close>

definition entry_ok :: "(pid \<rightharpoonup> pid) \<Rightarrow> pid set \<Rightarrow> pid set \<Rightarrow> pid set \<Rightarrow> pid \<Rightarrow> pidinfo \<Rightarrow> bool" where
  "entry_ok W parents live A p pi \<longleftrightarrow> 1 \<le> p \<and> pi_pid pi = p \<and> pi_ppid pi \<noteq> p \<and>
     (pi_ppid pi = 0 \<or> pi_ppid pi \<in> parents) \<and>
     (if pi_exited pi then pi_ppid pi \<noteq> 0 \<and> pi_cv pi = [] else p \<in> live) \<and>
     (pi_cv pi = [] \<or> pi_cv pi = [pi_ppid pi] \<and> W (pi_ppid pi) = Some p \<and> pi_ppid pi \<notin> A)"

definition procs_ok ::
    "(pid \<rightharpoonup> pidinfo) \<Rightarrow> pid set \<Rightarrow> (pid \<rightharpoonup> pid) \<Rightarrow> (pid \<rightharpoonup> pid) \<Rightarrow> pid set \<Rightarrow> bool" where
  "procs_ok m R E W A \<longleftrightarrow>
     (\<forall>p pi. m p = Some pi \<longrightarrow> entry_ok W (R \<union> dom W) (R \<union> dom E \<union> dom W) A p pi) \<and>
     (\<forall>p\<in>R \<union> dom E \<union> dom W. \<exists>pi. m p = Some pi \<and> \<not> pi_exited pi) \<and>
     R \<inter> dom E = {} \<and> R \<inter> dom W = {} \<and> dom E \<inter> dom W = {} \<and>
     (\<forall>c p. E c = Some p \<longrightarrow> p \<in> R \<and> 2 \<le> c \<and> (\<exists>pi. m c = Some pi \<and> pi_ppid pi = p \<and> \<not> pi_exited pi)) \<and>
     (\<forall>p c. W p = Some c \<longrightarrow> (\<exists>pi. m c = Some pi \<and> pi_ppid pi = p \<and>
        (if p \<in> A then pi_exited pi else \<not> pi_exited pi \<and> pi_cv pi = [p]))) \<and>
     A \<subseteq> dom W \<and> (\<exists>pi. m 1 = Some pi \<and> pi_ppid pi = 0)"

lemma procs_okD:
  assumes "procs_ok m R E W A"
  shows entryD: "m p = Some pi \<Longrightarrow> entry_ok W (R \<union> dom W) (R \<union> dom E \<union> dom W) A p pi"
    and liveD: "p \<in> R \<or> p \<in> dom E \<or> p \<in> dom W \<Longrightarrow> \<exists>pi. m p = Some pi \<and> \<not> pi_exited pi"
    and disjD: "R \<inter> dom E = {}" "R \<inter> dom W = {}" "dom E \<inter> dom W = {}"
    and embryoD: "E c = Some p \<Longrightarrow> p \<in> R \<and> 2 \<le> c \<and> (\<exists>pi. m c = Some pi \<and> pi_ppid pi = p \<and> \<not> pi_exited pi)"
    and waitD: "W p = Some c \<Longrightarrow> \<exists>pi. m c = Some pi \<and> pi_ppid pi = p \<and>
        (if p \<in> A then pi_exited pi else \<not> pi_exited pi \<and> pi_cv pi = [p])"
    and awakeD: "A \<subseteq> dom W"
    and kernelD: "\<exists>pi. m 1 = Some pi \<and> pi_ppid pi = 0"
  using assms unfolding procs_ok_def by blast+

text \<open>A running parent has no sleeper on its children, and an entry that is nobody's parent.\<close>

lemma running_child_cv:
  assumes "procs_ok m R E W A" "m c = Some pi" "pi_ppid pi = p" "p \<in> R"
  shows "pi_cv pi = []" "W q \<noteq> Some c"
proof -
  have "p \<notin> dom W" using disjD(2) [OF assms(1)] assms(4) by blast
  then show "pi_cv pi = []" using entryD [OF assms(1,2)] assms(3) by (auto simp: entry_ok_def)
  show "W q \<noteq> Some c" using waitD [OF assms(1), of q c] assms(2,3) \<open>p \<notin> dom W\<close> by auto
qed

lemma not_parent:
  assumes "procs_ok m R E W A" "m c = Some pi" "pi_exited pi \<or> c \<in> dom E" "m q = Some qi"
  shows "pi_ppid qi \<noteq> c"
proof
  assume eq: "pi_ppid qi = c"
  have "1 \<le> c" using entryD [OF assms(1,2)] by (simp add: entry_ok_def)
  then have "c \<in> R \<union> dom W" using entryD [OF assms(1,4)] eq by (auto simp: entry_ok_def)
  moreover from this have "\<not> pi_exited pi" using liveD [OF assms(1), of c] assms(2) by auto
  ultimately show False using assms(3) disjD [OF assms(1)] by blast
qed

text \<open>Removing an entry that is nobody's parent and that nobody sleeps on.\<close>

lemma procs_ok_remove:
  assumes ok: "procs_ok m R E W A" and c: "m c = Some pi" "pi_exited pi" "\<And>q. W q \<noteq> Some c"
  shows "procs_ok (m(c := None)) R E W A"
proof -
  have live: "c \<notin> R \<union> dom E \<union> dom W" using liveD [OF ok, of c] c(1,2) by auto
  have "c \<noteq> 1" using kernelD [OF ok] entryD [OF ok c(1)] c(1,2) by (auto simp: entry_ok_def)
  have par: "\<forall>p qi. (m(c := None)) p = Some qi \<longrightarrow> entry_ok W (R \<union> dom W) (R \<union> dom E \<union> dom W) A p qi"
    using entryD [OF ok] by (simp split: if_splits)
  have "\<forall>p\<in>R \<union> dom E \<union> dom W. \<exists>pi. (m(c := None)) p = Some pi \<and> \<not> pi_exited pi"
    using liveD [OF ok] live by auto
  moreover have "\<forall>d p. E d = Some p \<longrightarrow> p \<in> R \<and> 2 \<le> d \<and>
      (\<exists>pi. (m(c := None)) d = Some pi \<and> pi_ppid pi = p \<and> \<not> pi_exited pi)"
    using embryoD [OF ok] live by (metis Un_iff domI fun_upd_other)
  moreover have "\<forall>p d. W p = Some d \<longrightarrow> (\<exists>pi. (m(c := None)) d = Some pi \<and> pi_ppid pi = p \<and>
      (if p \<in> A then pi_exited pi else \<not> pi_exited pi \<and> pi_cv pi = [p]))"
    using waitD [OF ok] c(3) by (metis fun_upd_other)
  ultimately show ?thesis
    using par disjD [OF ok] awakeD [OF ok] kernelD [OF ok] \<open>c \<noteq> 1\<close> unfolding procs_ok_def by simp
qed

lemma procs_okI:
  assumes "\<And>p pi. m p = Some pi \<Longrightarrow> entry_ok W (R \<union> dom W) (R \<union> dom E \<union> dom W) A p pi"
    and "\<And>p. p \<in> R \<union> dom E \<union> dom W \<Longrightarrow> \<exists>pi. m p = Some pi \<and> \<not> pi_exited pi"
    and "R \<inter> dom E = {}" "R \<inter> dom W = {}" "dom E \<inter> dom W = {}"
    and "\<And>c p. E c = Some p \<Longrightarrow> p \<in> R \<and> 2 \<le> c \<and> (\<exists>pi. m c = Some pi \<and> pi_ppid pi = p \<and> \<not> pi_exited pi)"
    and "\<And>p c. W p = Some c \<Longrightarrow> \<exists>pi. m c = Some pi \<and> pi_ppid pi = p \<and>
        (if p \<in> A then pi_exited pi else \<not> pi_exited pi \<and> pi_cv pi = [p])"
    and "A \<subseteq> dom W" "\<exists>pi. m 1 = Some pi \<and> pi_ppid pi = 0"
  shows "procs_ok m R E W A"
  unfolding procs_ok_def using assms by blast

lemma procs_ok_fork:
  assumes ok: "procs_ok m R E W A" and p: "p \<in> R" and c: "m c = None" "2 \<le> c"
  shows "procs_ok (m(c \<mapsto> new_pidinfo c p)) R (E(c \<mapsto> p)) W A"
proof (rule procs_okI)
  have fresh: "c \<notin> R" "c \<notin> dom E" "c \<notin> dom W" using liveD [OF ok, of c] c(1) by auto
  have pc: "p \<noteq> c" using fresh p by blast
  show "entry_ok W (R \<union> dom W) (R \<union> dom (E(c \<mapsto> p)) \<union> dom W) A q pi"
    if "(m(c \<mapsto> new_pidinfo c p)) q = Some pi" for q pi
    using that entryD [OF ok, of q] p pc c(2)
    by (auto simp: entry_ok_def new_pidinfo_def split: if_splits)
  show "\<exists>pi. (m(c \<mapsto> new_pidinfo c p)) q = Some pi \<and> \<not> pi_exited pi"
    if "q \<in> R \<union> dom (E(c \<mapsto> p)) \<union> dom W" for q
    using that liveD [OF ok, of q] by (cases "q = c") (auto simp: new_pidinfo_def)
  show "\<exists>pi. (m(c \<mapsto> new_pidinfo c p)) d = Some pi \<and> pi_ppid pi = q \<and>
      (if q \<in> A then pi_exited pi else \<not> pi_exited pi \<and> pi_cv pi = [q])" if "W q = Some d" for q d
    using waitD [OF ok that] c(1) by auto
  show "q \<in> R \<and> 2 \<le> d \<and> (\<exists>pi. (m(c \<mapsto> new_pidinfo c p)) d = Some pi \<and> pi_ppid pi = q \<and> \<not> pi_exited pi)"
    if "(E(c \<mapsto> p)) d = Some q" for d q
    using that embryoD [OF ok, of d q] p c(2) by (cases "d = c") (auto simp: new_pidinfo_def)
  show "\<exists>pi. (m(c \<mapsto> new_pidinfo c p)) 1 = Some pi \<and> pi_ppid pi = 0"
    using kernelD [OF ok] c(2) by simp
qed (use disjD [OF ok] awakeD [OF ok] liveD [OF ok, of c] c(1) in auto)

lemma procs_ok_start:
  assumes ok: "procs_ok m R E W A" and c: "E c = Some p"
  shows "procs_ok m (insert c R) (E(c := None)) W A"
proof (rule procs_okI)
  have cE: "c \<in> dom E" using c by blast
  have live: "insert c R \<union> dom (E(c := None)) \<union> dom W = R \<union> dom E \<union> dom W" using cE by auto
  show "entry_ok W (insert c R \<union> dom W) (insert c R \<union> dom (E(c := None)) \<union> dom W) A q pi"
    if "m q = Some pi" for q pi
    unfolding live using entryD [OF ok that] by (auto simp: entry_ok_def)
  show "\<exists>pi. m q = Some pi \<and> \<not> pi_exited pi" if "q \<in> insert c R \<union> dom (E(c := None)) \<union> dom W" for q
    using that liveD [OF ok, of q] unfolding live by blast
  show "q \<in> insert c R \<and> 2 \<le> d \<and> (\<exists>pi. m d = Some pi \<and> pi_ppid pi = q \<and> \<not> pi_exited pi)"
    if "(E(c := None)) d = Some q" for d q
    using that embryoD [OF ok, of d q] by (auto split: if_splits)
  show "\<exists>pi. m d = Some pi \<and> pi_ppid pi = q \<and>
      (if q \<in> A then pi_exited pi else \<not> pi_exited pi \<and> pi_cv pi = [q])" if "W q = Some d" for q d
    using waitD [OF ok that] .
qed (use disjD [OF ok] awakeD [OF ok] kernelD [OF ok] c in auto)

lemma procs_ok_unfork:
  assumes ok: "procs_ok m R E W A" and c: "E c = Some p"
  shows "procs_ok (m(c := None)) R (E(c := None)) W A"
proof (rule procs_okI)
  obtain ci where p: "p \<in> R" and ci: "m c = Some ci" "pi_ppid ci = p" "2 \<le> c"
    using embryoD [OF ok c] by blast
  have cE: "c \<in> dom E" using c by blast
  then have out: "c \<notin> R" "c \<notin> dom W" using disjD [OF ok] by auto
  have cv: "\<And>q. W q \<noteq> Some c" using running_child_cv [OF ok ci(1,2) p] by simp
  show "entry_ok W (R \<union> dom W) (R \<union> dom (E(c := None)) \<union> dom W) A q pi" if "(m(c := None)) q = Some pi" for q pi
    using that entryD [OF ok, of q pi] by (auto simp: entry_ok_def split: if_splits)
  show "\<exists>pi. (m(c := None)) q = Some pi \<and> \<not> pi_exited pi" if "q \<in> R \<union> dom (E(c := None)) \<union> dom W" for q
  proof -
    have "q \<noteq> c" using that out by auto
    then show ?thesis using that liveD [OF ok, of q] by auto
  qed
  show "q \<in> R \<and> 2 \<le> d \<and> (\<exists>pi. (m(c := None)) d = Some pi \<and> pi_ppid pi = q \<and> \<not> pi_exited pi)"
    if "(E(c := None)) d = Some q" for d q
    using that embryoD [OF ok, of d q] by (cases "d = c") auto
  show "\<exists>pi. (m(c := None)) d = Some pi \<and> pi_ppid pi = q \<and>
      (if q \<in> A then pi_exited pi else \<not> pi_exited pi \<and> pi_cv pi = [q])" if "W q = Some d" for q d
    using waitD [OF ok that] that cv by (cases "d = c") auto
  show "\<exists>pi. (m(c := None)) 1 = Some pi \<and> pi_ppid pi = 0" using kernelD [OF ok] ci(3) by simp
qed (use disjD [OF ok] awakeD [OF ok] in auto)

lemma procs_ok_sleep:
  assumes ok: "procs_ok m R E W A" and p: "p \<in> R" "p \<notin> ran E"
    and c: "m c = Some pi" "pi_ppid pi = p" "\<not> pi_exited pi"
  shows "procs_ok (m(c \<mapsto> pi\<lparr>pi_cv := pi_cv pi @ [p]\<rparr>)) (R - {p}) E (W(p \<mapsto> c)) A"
proof (rule procs_okI)
  let ?m = "m(c \<mapsto> pi\<lparr>pi_cv := pi_cv pi @ [p]\<rparr>)"
  have W: "p \<notin> dom W" "p \<notin> dom E" using disjD [OF ok] p(1) by auto
  then have A: "p \<notin> A" using awakeD [OF ok] by blast
  have cv: "pi_cv pi = []" "\<And>q. W q \<noteq> Some c" using running_child_cv [OF ok c(1,2) p(1)] by simp_all
  have sets: "R - {p} \<union> dom (W(p \<mapsto> c)) = R \<union> dom W"
    "R - {p} \<union> dom E \<union> dom (W(p \<mapsto> c)) = R \<union> dom E \<union> dom W" using p(1) by auto
  show "entry_ok (W(p \<mapsto> c)) (R - {p} \<union> dom (W(p \<mapsto> c))) (R - {p} \<union> dom E \<union> dom (W(p \<mapsto> c))) A q qi"
    if "?m q = Some qi" for q qi
    unfolding sets
    using that entryD [OF ok, of q] entryD [OF ok c(1)] cv c A W(1)
    by (cases "q = c") (auto simp: entry_ok_def)
  show "\<exists>pi. ?m q = Some pi \<and> \<not> pi_exited pi" if "q \<in> R - {p} \<union> dom E \<union> dom (W(p \<mapsto> c))" for q
    using that liveD [OF ok, of q] c unfolding sets by (cases "q = c") auto
  show "q \<in> R - {p} \<and> 2 \<le> d \<and> (\<exists>pi. ?m d = Some pi \<and> pi_ppid pi = q \<and> \<not> pi_exited pi)"
    if "E d = Some q" for d q
  proof -
    have "q \<noteq> p" using that p(2) by (auto simp: ran_def)
    moreover from this have "d \<noteq> c" using embryoD [OF ok that] c by auto
    ultimately show ?thesis using embryoD [OF ok that] by auto
  qed
  show "\<exists>pi. ?m d = Some pi \<and> pi_ppid pi = q \<and>
      (if q \<in> A then pi_exited pi else \<not> pi_exited pi \<and> pi_cv pi = [q])" if "(W(p \<mapsto> c)) q = Some d" for q d
    using that waitD [OF ok, of q d] cv c A by (cases "q = p"; cases "d = c") auto
  show "\<exists>pi. ?m 1 = Some pi \<and> pi_ppid pi = 0" using kernelD [OF ok] c(1) by (cases "c = 1") auto
qed (use disjD [OF ok] awakeD [OF ok] p in auto)

lemma procs_ok_resume:
  assumes ok: "procs_ok m R E W A" and p: "p \<in> A" "W p = Some c"
  shows "procs_ok (m(c := None)) (insert p R) E (W(p := None)) (A - {p})"
proof -
  obtain pi where c: "m c = Some pi" "pi_ppid pi = p" "pi_exited pi" using waitD [OF ok p(2)] p(1) by auto
  have sets: "insert p R \<union> dom (W(p := None)) = R \<union> dom W"
    "insert p R \<union> dom E \<union> dom (W(p := None)) = R \<union> dom E \<union> dom W" using p(2) by auto
  have wake: "procs_ok m (insert p R) E (W(p := None)) (A - {p})"
  proof (rule procs_okI)
    show "entry_ok (W(p := None)) (insert p R \<union> dom (W(p := None))) (insert p R \<union> dom E \<union> dom (W(p := None)))
        (A - {p}) q qi" if "m q = Some qi" for q qi
      unfolding sets using entryD [OF ok that] p by (auto simp: entry_ok_def)
    show "\<exists>pi. m q = Some pi \<and> \<not> pi_exited pi" if "q \<in> insert p R \<union> dom E \<union> dom (W(p := None))" for q
      using that liveD [OF ok, of q] unfolding sets by blast
    show "q \<in> insert p R \<and> 2 \<le> d \<and> (\<exists>pi. m d = Some pi \<and> pi_ppid pi = q \<and> \<not> pi_exited pi)"
      if "E d = Some q" for d q
      using embryoD [OF ok that] by auto
    show "\<exists>pi. m d = Some pi \<and> pi_ppid pi = q \<and>
        (if q \<in> A - {p} then pi_exited pi else \<not> pi_exited pi \<and> pi_cv pi = [q])"
      if "(W(p := None)) q = Some d" for q d
      using that waitD [OF ok, of q d] by (auto split: if_splits)
  qed (use disjD [OF ok] awakeD [OF ok] kernelD [OF ok] p in auto)
  moreover have "(W(p := None)) q \<noteq> Some c" for q using waitD [OF ok, of q c] c by auto
  ultimately show ?thesis using procs_ok_remove c(1,3) by blast
qed

lemma procs_ok_disown:
  assumes ok: "procs_ok m R E W A" and p: "p \<in> R" "p \<notin> ran E" and c: "m c = Some pi" "pi_ppid pi = p"
  shows "procs_ok (m(c := if pi_exited pi then None else Some (pi\<lparr>pi_ppid := 0\<rparr>))) R E W A"
proof (cases "pi_exited pi")
  case True
  then show ?thesis using procs_ok_remove [OF ok c(1)] running_child_cv [OF ok c p(1)] by simp
next
  case False
  have cv: "pi_cv pi = []" "\<And>q. W q \<noteq> Some c" using running_child_cv [OF ok c p(1)] by simp_all
  have "procs_ok (m(c \<mapsto> pi\<lparr>pi_ppid := 0\<rparr>)) R E W A"
  proof (rule procs_okI)
    let ?m = "m(c \<mapsto> pi\<lparr>pi_ppid := 0\<rparr>)"
    show "entry_ok W (R \<union> dom W) (R \<union> dom E \<union> dom W) A q qi" if "?m q = Some qi" for q qi
    proof (cases "q = c")
      case True
      then have "qi = pi\<lparr>pi_ppid := 0\<rparr>" using that by simp
      then show ?thesis
        using entryD [OF ok c(1)] cv(1) \<open>\<not> pi_exited pi\<close> True by (simp add: entry_ok_def)
    next
      case False
      then show ?thesis using that entryD [OF ok] by simp
    qed
    show "\<exists>pi. ?m q = Some pi \<and> \<not> pi_exited pi" if "q \<in> R \<union> dom E \<union> dom W" for q
      using that liveD [OF ok, of q] False by (cases "q = c") auto
    show "q \<in> R \<and> 2 \<le> d \<and> (\<exists>pi. ?m d = Some pi \<and> pi_ppid pi = q \<and> \<not> pi_exited pi)" if "E d = Some q" for d q
    proof -
      have "q \<noteq> p" using that p(2) by (auto simp: ran_def)
      then have "d \<noteq> c" using embryoD [OF ok that] c by auto
      then show ?thesis using embryoD [OF ok that] by auto
    qed
    show "\<exists>pi. ?m d = Some pi \<and> pi_ppid pi = q \<and>
        (if q \<in> A then pi_exited pi else \<not> pi_exited pi \<and> pi_cv pi = [q])" if "W q = Some d" for q d
      using waitD [OF ok that] that cv(2) by (cases "d = c") auto
    show "\<exists>pi. ?m 1 = Some pi \<and> pi_ppid pi = 0" using kernelD [OF ok] c(1) by (cases "c = 1") auto
  qed (use disjD [OF ok] awakeD [OF ok] in auto)
  then show ?thesis using False by simp
qed

text \<open>
  The exit of a running process: its children are disowned, its own entry stays for a parent
  that may still wait, and the parent asleep on it, if any, becomes runnable.
\<close>

definition exit_map :: "pid \<Rightarrow> pidinfo \<Rightarrow> int \<Rightarrow> (pid \<rightharpoonup> pidinfo) \<Rightarrow> (pid \<rightharpoonup> pidinfo)" where
  "exit_map p us status m = (\<lambda>q. disowned p (m q))(p := if pi_ppid us = 0 then None
     else Some (us\<lparr>pi_exitstatus := status, pi_exited := True, pi_cv := []\<rparr>))"

lemma exit_map_other:
  assumes "q \<noteq> p" "m q = Some qi" "pi_ppid qi \<noteq> p"
  shows "exit_map p us status m q = Some qi"
  using assms by (simp add: exit_map_def disowned_def)

lemma exit_map_SomeD:
  assumes "exit_map p us status m q = Some qi"
  obtains (self) "q = p" "pi_ppid us \<noteq> 0"
      "qi = us\<lparr>pi_exitstatus := status, pi_exited := True, pi_cv := []\<rparr>"
  | (child) pi where "q \<noteq> p" "m q = Some pi" "pi_ppid pi = p" "\<not> pi_exited pi" "qi = pi\<lparr>pi_ppid := 0\<rparr>"
  | (other) "q \<noteq> p" "m q = Some qi" "pi_ppid qi \<noteq> p"
  using assms by (auto simp: exit_map_def disowned_def split: if_splits option.splits)

lemma procs_ok_exit:
  assumes ok: "procs_ok m R E W A" and p: "p \<in> R" "p \<notin> ran E" "p \<noteq> 1" and us: "m p = Some us"
  shows "procs_ok (exit_map p us status m) (R - {p}) E W (A \<union> (if pi_ppid us = 0 then {} else set (pi_cv us)))"
    (is "procs_ok ?m ?R E W ?A")
proof (rule procs_okI)
  have p1: "1 \<le> p" and ppid: "pi_ppid us \<noteq> p" using entryD [OF ok us] by (simp_all add: entry_ok_def)
  have out: "p \<notin> dom W" "p \<notin> dom E" using disjD [OF ok] p(1) by auto
  have alive: "\<not> pi_exited us" using liveD [OF ok, of p] p(1) us by auto
  have cv_us: "pi_cv us = [] \<or> pi_cv us = [pi_ppid us] \<and> W (pi_ppid us) = Some p"
    using entryD [OF ok us] by (simp add: entry_ok_def) blast
  have newA: "q \<in> ?A \<Longrightarrow> W q \<noteq> Some p \<Longrightarrow> q \<in> A" for q using cv_us by (auto split: if_splits)
  show "entry_ok W (?R \<union> dom W) (?R \<union> dom E \<union> dom W) ?A q qi" if q: "?m q = Some qi" for q qi
    using q
  proof (cases rule: exit_map_SomeD)
    case self
    then show ?thesis using entryD [OF ok us] ppid by (auto simp: entry_ok_def)
  next
    case (child pi)
    then show ?thesis
      using entryD [OF ok child(2)] running_child_cv(1) [OF ok child(2,3) p(1)] by (auto simp: entry_ok_def)
  next
    case other
    moreover have "pi_ppid qi \<in> ?A \<longrightarrow> W (pi_ppid qi) = Some q \<longrightarrow> pi_ppid qi \<in> A"
      using newA [of "pi_ppid qi"] other(1) by auto
    ultimately show ?thesis using entryD [OF ok other(2)] by (auto simp: entry_ok_def)
  qed
  show "\<exists>pi. ?m q = Some pi \<and> \<not> pi_exited pi" if "q \<in> ?R \<union> dom E \<union> dom W" for q
  proof -
    have "q \<noteq> p" "\<exists>pi. m q = Some pi \<and> \<not> pi_exited pi" using that liveD [OF ok, of q] out by auto
    then show ?thesis by (auto simp: exit_map_def disowned_def)
  qed
  show "q \<in> ?R \<and> 2 \<le> d \<and> (\<exists>pi. ?m d = Some pi \<and> pi_ppid pi = q \<and> \<not> pi_exited pi)" if d: "E d = Some q" for d q
  proof -
    have "q \<noteq> p" "d \<noteq> p" using d p(2) out(2) by (auto simp: ran_def)
    then show ?thesis using embryoD [OF ok d] exit_map_other [of d p m] by auto
  qed
  show "\<exists>pi. ?m d = Some pi \<and> pi_ppid pi = q \<and>
      (if q \<in> ?A then pi_exited pi else \<not> pi_exited pi \<and> pi_cv pi = [q])" if q: "W q = Some d" for q d
  proof -
    obtain pi where pi: "m d = Some pi" "pi_ppid pi = q"
      "if q \<in> A then pi_exited pi else \<not> pi_exited pi \<and> pi_cv pi = [q]"
      using waitD [OF ok q] by blast
    have "q \<noteq> p" using q out(1) by auto
    obtain qi where "m q = Some qi" using liveD [OF ok, of q] q by auto
    then have "q \<noteq> 0" using entryD [OF ok] by (fastforce simp: entry_ok_def)
    show ?thesis
    proof (cases "d = p")
      case True
      then have "pi = us" "q \<notin> A" using pi us alive by (auto split: if_splits)
      then show ?thesis using True pi \<open>q \<noteq> 0\<close> by (auto simp: exit_map_def)
    next
      case False
      then have "?m d = Some pi" using exit_map_other [of d p m pi] False pi(1,2) \<open>q \<noteq> p\<close> by simp
      moreover have "q \<in> ?A \<longleftrightarrow> q \<in> A" using newA [of q] q False by auto
      ultimately show ?thesis using pi(2,3) by simp
    qed
  qed
  show "?A \<subseteq> dom W" using awakeD [OF ok] cv_us by auto
  obtain k where "m 1 = Some k" "pi_ppid k = 0" using kernelD [OF ok] by blast
  then show "\<exists>pi. ?m 1 = Some pi \<and> pi_ppid pi = 0" using exit_map_other [of 1 p m k] p(3) p1 by auto
qed (use disjD [OF ok] in auto)

section \<open>No event panics\<close>

definition pidsys_ok :: "pidsys \<Rightarrow> bool" where
  "pidsys_ok y \<longleftrightarrow> pid_ok (pids y) \<and> procs_ok (pidmap (pids y)) (running y) (embryo y) (waiting y) (awake y)"

definition pidsys_boot :: "pidstate \<Rightarrow> pidsys" where
  "pidsys_boot s = \<lparr>pids = s, running = {KERNEL_PID}, embryo = Map.empty, waiting = Map.empty, awake = {}\<rparr>"

lemma pidmap_bootstrap:
  assumes "pid_bootstrap True True True = Some s"
  shows "pid_ok s" "pidmap s = [1 \<mapsto> new_pidinfo 1 0]"
proof -
  have s: "s = \<lparr>pidlock = None, pidinfo_tab = [1 \<mapsto> new_pidinfo 1 0], nextpid = 2, nprocs = 1\<rparr>"
    using assms by (simp add: pid_bootstrap_def pidinfo_create_def new_pidinfo_def kdefs)
  show "pid_ok s" by (auto simp: s pid_ok_def tab_ok_def new_pidinfo_def slot_def kdefs)
  show "pidmap s = [1 \<mapsto> new_pidinfo 1 0]"
    by (auto simp: s pidmap_def new_pidinfo_def fun_eq_iff slot_def kdefs split: option.splits)
qed

lemma pidsys_boot_ok:
  assumes "pid_bootstrap True True True = Some s"
  shows "pidsys_ok (pidsys_boot s)"
  using pidmap_bootstrap [OF assms]
  by (auto simp: pidsys_ok_def pidsys_boot_def procs_ok_def entry_ok_def new_pidinfo_def KERNEL_PID_def
      split: if_splits)

lemma pidsys_okD:
  assumes "pidsys_ok y"
  shows "pid_ok (pids y)" "procs_ok (pidmap (pids y)) (running y) (embryo y) (waiting y) (awake y)"
  using assms by (simp_all add: pidsys_ok_def)

lemma running_pid:
  assumes "pidsys_ok y" "p \<in> running y"
  obtains pi where "pidmap (pids y) p = Some pi" "\<not> pi_exited pi" "1 \<le> p" "pi_ppid pi \<noteq> p"
proof -
  note ok = pidsys_okD(2) [OF assms(1)]
  obtain pi where "pidmap (pids y) p = Some pi" "\<not> pi_exited pi" using liveD [OF ok, of p] assms(2) by blast
  moreover from this have "1 \<le> p" "pi_ppid pi \<noteq> p" using entryD [OF ok] by (simp_all add: entry_ok_def)
  ultimately show ?thesis using that by blast
qed

text \<open>What each event does, with the result its caller sees.\<close>

lemma do_fork:
  assumes "pidsys_ok y" "idle p y"
  obtains y' r where "pid_do (Fork p m1 m2) y = Some (y', Res_alloc r)" "pidsys_ok y'"
    "r = Inl EAGAIN \<and> card (dom (pidinfo_tab (pids y))) = 128 \<or>
     r = Inl ENOMEM \<and> \<not> (m1 \<and> m2) \<or>
     (\<exists>c. r = Inr c \<and> 2 \<le> c \<and> c \<le> 32767 \<and> pidmap (pids y) c = None \<and>
          pidmap (pids y') = (pidmap (pids y))(c \<mapsto> new_pidinfo c p))"
    "\<forall>e. r = Inl e \<longrightarrow> pidmap (pids y') = pidmap (pids y)"
proof -
  note ok = pidsys_okD [OF assms(1)]
  have p: "p \<in> running y" using assms(2) by (simp add: idle_def)
  then have p0: "p \<noteq> 0" by (rule running_pid [OF assms(1)]) simp
  consider "card (dom (pidinfo_tab (pids y))) = 128"
    | "card (dom (pidinfo_tab (pids y))) \<noteq> 128" "\<not> (m1 \<and> m2)"
    | "card (dom (pidinfo_tab (pids y))) \<noteq> 128" "m1 \<and> m2" by blast
  then show ?thesis
  proof cases
    case 1
    then show ?thesis using that [of y "Inl EAGAIN"] pid_alloc_full [OF ok(1) p0 1] assms(1) by simp
  next
    case 2
    obtain s' where "pid_alloc m1 m2 p (pids y) = Some (s', Inl ENOMEM)" "pid_ok s'"
      "pidmap s' = pidmap (pids y)"
      using pid_alloc_nomem [OF ok(1) p0 2] .
    then show ?thesis using that [of "y\<lparr>pids := s'\<rparr>" "Inl ENOMEM"] 2 ok by (simp add: pidsys_ok_def)
  next
    case 3
    obtain s' c where s': "pid_alloc True True p (pids y) = Some (s', Inr c)" "pid_ok s'"
      "pidmap s' = (pidmap (pids y))(c \<mapsto> new_pidinfo c p)" "pidmap (pids y) c = None" "2 \<le> c" "c \<le> 32767"
      using pid_alloc_ok [OF ok(1) p0 3(1)] .
    then show ?thesis
      using that [of "y\<lparr>pids := s', embryo := (embryo y)(c \<mapsto> p)\<rparr>" "Inr c"] 3(2)
        procs_ok_fork [OF ok(2) p s'(4,5)] by (simp add: pidsys_ok_def)
  qed
qed

lemma do_start:
  assumes "pidsys_ok y" "embryo y c = Some p"
  shows "\<exists>y'. pid_do (Start c) y = Some (y', Res_none) \<and> pidsys_ok y' \<and> pids y' = pids y"
  using procs_ok_start [OF pidsys_okD(2) [OF assms(1)] assms(2)] pidsys_okD(1) [OF assms(1)]
  by (simp add: pidsys_ok_def)

lemma do_unfork:
  assumes "pidsys_ok y" "embryo y c = Some p"
  obtains y' where "pid_do (Unfork p c) y = Some (y', Res_none)" "pidsys_ok y'"
    "pidmap (pids y') = (pidmap (pids y))(c := None)"
proof -
  note ok = pidsys_okD [OF assms(1)]
  obtain pi where c: "p \<in> running y" "2 \<le> c" "pidmap (pids y) c = Some pi" "pi_ppid pi = p" "\<not> pi_exited pi"
    using embryoD [OF ok(2) assms(2)] by blast
  then have "pi_cv pi = []" using running_child_cv(1) [OF ok(2) c(3,4,1)] by simp
  then obtain s' where "pid_unalloc p c (pids y) = Some s'" "pid_ok s'" "pidmap s' = (pidmap (pids y))(c := None)"
    using pid_unalloc_ok [OF ok(1) c(3,2,5,4)] by blast
  then show ?thesis
    using that [of "y\<lparr>pids := s', embryo := (embryo y)(c := None)\<rparr>"] procs_ok_unfork [OF ok(2) assms(2)]
    by (simp add: pidsys_ok_def)
qed

lemma do_exit:
  assumes "pidsys_ok y" "idle p y" "p \<noteq> 1" "pidmap (pids y) p = Some us"
  obtains y' where "pid_do (Exit p status) y = Some (y', Res_none)" "pidsys_ok y'"
    "pidmap (pids y') = exit_map p us status (pidmap (pids y))"
    "awake y' = awake y \<union> (if pi_ppid us = 0 then {} else set (pi_cv us))"
proof -
  note ok = pidsys_okD [OF assms(1)]
  have p: "p \<in> running y" "p \<notin> ran (embryo y)" using assms(2) by (simp_all add: idle_def)
  have ppid: "pi_ppid us \<noteq> p" using entryD [OF ok(2) assms(4)] by (simp add: entry_ok_def)
  have cv: "\<And>q pi. pidmap (pids y) q = Some pi \<Longrightarrow> pi_ppid pi = p \<Longrightarrow> pi_exited pi \<Longrightarrow> pi_cv pi = []"
    using running_child_cv(1) [OF ok(2) _ _ p(1)] by blast
  have orphan: "pi_cv us = []" if "pi_ppid us = 0"
  proof (rule ccontr)
    assume "pi_cv us \<noteq> []"
    then have "waiting y 0 = Some p" using entryD [OF ok(2) assms(4)] that by (auto simp: entry_ok_def)
    then obtain qi where "pidmap (pids y) 0 = Some qi" using liveD [OF ok(2), of 0] by blast
    then show False using entryD [OF ok(2)] by (fastforce simp: entry_ok_def)
  qed
  obtain s' where s': "pid_setexitstatus p status (pids y) = Some (s', if pi_ppid us = 0 then [] else pi_cv us, 0)"
    "pid_ok s'" "pidmap s' = exit_map p us status (pidmap (pids y))"
    using pid_setexitstatus_ok [of "pids y" p us status, OF ok(1) assms(4) ppid] cv orphan
    unfolding exit_map_def by metis
  let ?A = "awake y \<union> (if pi_ppid us = 0 then {} else set (pi_cv us))"
  let ?y = "y\<lparr>pids := s', running := running y - {p}, awake := ?A\<rparr>"
  have "pid_do (Exit p status) y = Some (?y, Res_none)" using s'(1) by simp
  moreover have "pidsys_ok ?y"
    using procs_ok_exit [OF ok(2) p assms(3,4)] s'(2,3) by (simp add: pidsys_ok_def)
  ultimately show ?thesis using that [of ?y] s'(3) by simp
qed

lemma do_resume:
  assumes "pidsys_ok y" "p \<in> awake y"
  obtains y' c pi where "waiting y p = Some c" "pidmap (pids y) c = Some pi" "pi_exited pi"
    "pid_do (Resume p) y = Some (y', Res_wait (Wait_status c (pi_exitstatus pi)))" "pidsys_ok y'"
    "pidmap (pids y') = (pidmap (pids y))(c := None)"
proof -
  note ok = pidsys_okD [OF assms(1)]
  obtain c where c: "waiting y p = Some c" using awakeD [OF ok(2)] assms(2) by blast
  then obtain pi where pi: "pidmap (pids y) c = Some pi" "pi_exited pi"
    using waitD [OF ok(2) c] assms(2) by auto
  moreover from this have "pi_cv pi = []" using entryD [OF ok(2) pi(1)] by (simp add: entry_ok_def)
  ultimately obtain s' where "pid_wait_resume p c (pids y) = Some (s', Wait_status c (pi_exitstatus pi))"
    "pid_ok s'" "pidmap s' = (pidmap (pids y))(c := None)"
    using pid_wait_resume_ok [OF ok(1)] by metis
  then show ?thesis
    using that [of c pi] c pi procs_ok_resume [OF ok(2) assms(2) c] by (simp add: pidsys_ok_def)
qed

lemma do_disown:
  assumes "pidsys_ok y" "idle p y" "pidmap (pids y) c = Some pi" "pi_ppid pi = p"
  obtains y' where "pid_do (Disown p c) y = Some (y', Res_none)" "pidsys_ok y'"
    "pidmap (pids y') = (pidmap (pids y))(c := if pi_exited pi then None else Some (pi\<lparr>pi_ppid := 0\<rparr>))"
proof -
  note ok = pidsys_okD [OF assms(1)]
  have p: "p \<in> running y" "p \<notin> ran (embryo y)" using assms(2) by (simp_all add: idle_def)
  have "1 \<le> p" using running_pid [OF assms(1) p(1)] by blast
  then have "c \<noteq> 1" using kernelD [OF ok(2)] assms(3,4) by auto
  then have "2 \<le> c" using entryD [OF ok(2) assms(3)] by (simp add: entry_ok_def)
  moreover have "pi_cv pi = []" using running_child_cv(1) [OF ok(2) assms(3,4) p(1)] .
  ultimately obtain s' where s': "pid_disown p c (pids y) = Some s'" "pid_ok s'"
    "pidmap s' = (pidmap (pids y))(c := if pi_exited pi then None else Some (pi\<lparr>pi_ppid := 0\<rparr>))"
    using pid_disown_ok [OF ok(1) assms(3) _ assms(4)] by blast
  then show ?thesis
    using that [of "y\<lparr>pids := s'\<rparr>"] procs_ok_disown [OF ok(2) p assms(3,4)] by (simp add: pidsys_ok_def)
qed

text \<open>What \<^verbatim>\<open>pid_wait\<close> promises, read off the map of processes.\<close>

definition wait_spec :: "pid \<Rightarrow> pid \<Rightarrow> int \<Rightarrow> (pid \<rightharpoonup> pidinfo) \<Rightarrow> wait_result" where
  "wait_spec p c flags m =
     (if c = p then Wait_error EINVAL
      else if c \<le> 0 then Wait_error ENOSYS
      else if flags \<noteq> 0 \<and> flags \<noteq> 1 then Wait_error EINVAL
      else case m c of
             None \<Rightarrow> Wait_error ESRCH
           | Some pi \<Rightarrow>
               if pi_ppid pi \<noteq> p then Wait_error EPERM
               else if pi_exited pi then Wait_status c (pi_exitstatus pi)
               else if flags = 1 then Wait_nohang else Wait_asleep)"

lemma do_wait:
  assumes "pidsys_ok y" "idle p y"
  shows "\<exists>y'. pid_do (Wait p c flags) y = Some (y', Res_wait (wait_spec p c flags (pidmap (pids y)))) \<and>
    pidsys_ok y' \<and>
    (case wait_spec p c flags (pidmap (pids y)) of
       Wait_status q st \<Rightarrow> q = c \<and> pidmap (pids y') = (pidmap (pids y))(c := None)
     | Wait_asleep \<Rightarrow> waiting y' = (waiting y)(p \<mapsto> c) \<and> (\<exists>pi. pidmap (pids y) c = Some pi \<and> \<not> pi_exited pi \<and>
         pidmap (pids y') = (pidmap (pids y))(c \<mapsto> pi\<lparr>pi_cv := pi_cv pi @ [p]\<rparr>))
     | _ \<Rightarrow> y' = y)"
proof -
  note ok = pidsys_okD [OF assms(1)]
  have p: "p \<in> running y" "p \<notin> ran (embryo y)" using assms(2) by (simp_all add: idle_def)
  have p0: "p \<noteq> 0" by (rule running_pid [OF assms(1) p(1)]) simp
  note err = pid_wait_errors [OF p0]
  let ?m = "pidmap (pids y)"
  consider (bad) e where "wait_spec p c flags ?m = Wait_error e"
      "pid_wait p c flags True (pids y) = Some (pids y, Wait_error e)"
    | (child) pi where "c \<noteq> p" "0 < c" "flags \<in> {0, 1}" "?m c = Some pi" "pi_ppid pi = p"
  proof (cases "c = p \<or> c \<le> 0 \<or> flags \<noteq> 0 \<and> flags \<noteq> 1")
    case True
    then have "\<exists>e. wait_spec p c flags ?m = Wait_error e \<and>
        pid_wait p c flags True (pids y) = Some (pids y, Wait_error e)"
      using err(1-3) by (cases "c = p"; cases "c \<le> 0") (simp_all add: wait_spec_def)
    then show ?thesis using bad by blast
  next
    case False
    then have "(\<exists>e. wait_spec p c flags ?m = Wait_error e \<and>
        pid_wait p c flags True (pids y) = Some (pids y, Wait_error e)) \<or>
        (\<exists>pi. ?m c = Some pi \<and> pi_ppid pi = p)"
      using err(4,5) [OF ok(1), of c flags] by (cases "?m c") (auto simp: wait_spec_def)
    then show ?thesis using bad child False by fastforce
  qed
  then show ?thesis
  proof cases
    case bad
    then show ?thesis using assms(1) by simp
  next
    case (child pi)
    note cv = running_child_cv(1) [OF ok(2) child(4,5) p(1)]
    show ?thesis
    proof (cases "pi_exited pi")
      case True
      obtain s' where s': "pid_wait p c flags True (pids y) = Some (s', Wait_status c (pi_exitstatus pi))"
        "pid_ok s'" "pidmap s' = ?m(c := None)"
        using pid_wait_collects [OF ok(1) p0 child(1,3,4,5) True cv] .
      have "wait_spec p c flags ?m = Wait_status c (pi_exitstatus pi)"
        using child True by (auto simp: wait_spec_def)
      moreover have "procs_ok (?m(c := None)) (running y) (embryo y) (waiting y) (awake y)"
        using procs_ok_remove [OF ok(2) child(4) True] running_child_cv(2) [OF ok(2) child(4,5) p(1)] by blast
      ultimately show ?thesis using s' by (simp add: pidsys_ok_def)
    next
      case False
      show ?thesis
      proof (cases "flags = 1")
        case True
        then show ?thesis
          using pid_wait_errors(6) [OF p0 ok(1) child(1,4,5) False] assms(1) child False
          by (simp add: wait_spec_def)
      next
        case nohang: False
        then have [simp]: "flags = 0" using child(3) by simp
        obtain s' where s': "pid_wait p c 0 True (pids y) = Some (s', Wait_asleep)" "pid_ok s'"
          "pidmap s' = ?m(c \<mapsto> pi\<lparr>pi_cv := pi_cv pi @ [p]\<rparr>)"
          using pid_wait_sleeps [OF ok(1) p0 child(1,4,5) False] .
        have "wait_spec p c flags ?m = Wait_asleep" using child False by (auto simp: wait_spec_def)
        then show ?thesis
          using s' procs_ok_sleep [OF ok(2) p child(4,5) False] child(4) False by (simp add: pidsys_ok_def)
      qed
    qed
  qed
qed

text \<open>Runs of the system.\<close>

inductive pid_steps :: "pidsys \<Rightarrow> pid_event list \<Rightarrow> pidsys \<Rightarrow> bool" where
  pid_steps_Nil: "pid_steps y [] y"
| pid_steps_Cons: "pid_enabled e y \<Longrightarrow> pid_do e y = Some (y', r) \<Longrightarrow> pid_steps y' es y'' \<Longrightarrow> pid_steps y (e # es) y''"

inductive_cases pid_steps_ConsE: "pid_steps y (e # es) y''"

lemma pid_do_total:
  assumes "pidsys_ok y" "pid_enabled e y"
  shows "\<exists>y' r. pid_do e y = Some (y', r) \<and> pidsys_ok y'"
proof (cases e)
  case (Fork p m1 m2)
  then show ?thesis using assms by (auto elim: do_fork [of y p m1 m2])
next
  case (Start c)
  then show ?thesis using assms do_start by (fastforce simp del: pid_do.simps)
next
  case (Unfork p c)
  then show ?thesis using assms by (auto elim: do_unfork [of y c p])
next
  case (Exit p st)
  then have e: "idle p y" "p \<noteq> 1" using assms(2) by (simp_all add: KERNEL_PID_def)
  then obtain us where "pidmap (pids y) p = Some us"
    using running_pid [OF assms(1)] unfolding idle_def by metis
  then show ?thesis using do_exit [OF assms(1) e] Exit by metis
next
  case (Wait p c flags)
  then show ?thesis using do_wait [OF assms(1), of p c flags] assms(2) by (auto simp del: pid_do.simps)
next
  case (Resume p)
  then show ?thesis using do_resume [OF assms(1)] assms(2) by (metis pid_enabled.simps(6))
next
  case (Disown p c)
  then show ?thesis using do_disown [OF assms(1)] assms(2) by (metis pid_enabled.simps(7))
qed

lemma pid_steps_ok: "pid_steps y es y' \<Longrightarrow> pidsys_ok y \<Longrightarrow> pidsys_ok y'"
proof (induction rule: pid_steps.induct)
  case (pid_steps_Cons e y y' r es y'')
  then show ?case using pid_do_total [of y e] by simp
qed

text \<open>
  An entry of an exited process stays as it is through every event but those by which its
  parent gives it up: a wait that collects it, a disown, the parent's own exit.
\<close>

fun gives_up :: "pid \<Rightarrow> pid \<Rightarrow> pid_event \<Rightarrow> bool" where
  "gives_up p c (Wait q d flags) \<longleftrightarrow> q = p \<and> d = c"
| "gives_up p c (Resume q) \<longleftrightarrow> q = p"
| "gives_up p c (Disown q d) \<longleftrightarrow> q = p \<and> d = c"
| "gives_up p c (Exit q status) \<longleftrightarrow> q = p"
| "gives_up p c e \<longleftrightarrow> False"

lemma zombie_kept:
  assumes "pidsys_ok y" "pid_enabled e y" "pid_do e y = Some (y', r)"
    and c: "pidmap (pids y) c = Some pi" "pi_exited pi" "pi_ppid pi = p" and e: "\<not> gives_up p c e"
  shows "pidmap (pids y') c = Some pi"
proof (cases e)
  case (Fork q m1 m2)
  then obtain y2 r2 where "pid_do e y = Some (y2, r2)"
    "pidmap (pids y2) = pidmap (pids y) \<or> (\<exists>d. pidmap (pids y) d = None \<and>
       pidmap (pids y2) = (pidmap (pids y))(d \<mapsto> new_pidinfo d q))"
    using do_fork [OF assms(1), of q m1 m2] assms(2) by (metis pid_enabled.simps(1) sum.exhaust)
  then show ?thesis using assms(3) c(1) by auto
next
  case (Start d)
  then show ?thesis using assms(3) c(1) by auto
next
  case (Unfork q d)
  then have d: "embryo y d = Some q" using assms(2) by simp
  then have "d \<noteq> c" using embryoD [OF pidsys_okD(2) [OF assms(1)] d] c by auto
  moreover obtain y2 where "pid_do e y = Some (y2, Res_none)" "pidmap (pids y2) = (pidmap (pids y))(d := None)"
    using do_unfork [OF assms(1) d] Unfork by metis
  ultimately show ?thesis using assms(3) c(1) by simp
next
  case (Exit q st)
  then have q: "idle q y" "q \<noteq> 1" "q \<noteq> p" using assms(2) e by (simp_all add: KERNEL_PID_def)
  then obtain us where us: "pidmap (pids y) q = Some us" "\<not> pi_exited us"
    using running_pid [OF assms(1)] unfolding idle_def by metis
  obtain y2 where "pid_do e y = Some (y2, Res_none)" "pidmap (pids y2) = exit_map q us st (pidmap (pids y))"
    using do_exit [OF assms(1) q(1,2) us(1)] Exit by metis
  moreover have "c \<noteq> q" using us c by auto
  ultimately show ?thesis using assms(3) exit_map_other [of c q _ pi us st] c q(3) by simp
next
  case (Wait q d flags)
  then obtain y2 where y2: "pid_do e y = Some (y2, Res_wait (wait_spec q d flags (pidmap (pids y))))"
    "case wait_spec q d flags (pidmap (pids y)) of
       Wait_status q st \<Rightarrow> q = d \<and> pidmap (pids y2) = (pidmap (pids y))(d := None)
     | Wait_asleep \<Rightarrow> waiting y2 = (waiting y)(q \<mapsto> d) \<and> (\<exists>pi. pidmap (pids y) d = Some pi \<and> \<not> pi_exited pi \<and>
         pidmap (pids y2) = (pidmap (pids y))(d \<mapsto> pi\<lparr>pi_cv := pi_cv pi @ [q]\<rparr>))
     | _ \<Rightarrow> y2 = y"
    using do_wait [OF assms(1), of q d flags] assms(2) by auto
  have "wait_spec q c flags (pidmap (pids y)) \<noteq> Wait_status d st \<or> c \<noteq> d" for st
    using c Wait e by (auto simp: wait_spec_def)
  then show ?thesis
    using y2 assms(3) c
    by (cases "wait_spec q d flags (pidmap (pids y))") (auto simp: fun_upd_def)
next
  case (Resume q)
  then obtain y2 d r2 where d: "waiting y q = Some d" "pid_do e y = Some (y2, r2)"
    "pidmap (pids y2) = (pidmap (pids y))(d := None)"
    using do_resume [OF assms(1), of q] assms(2) by (metis pid_enabled.simps(6))
  have "d \<noteq> c" using waitD [OF pidsys_okD(2) [OF assms(1)] d(1)] c Resume e by auto
  then show ?thesis using d assms(3) c(1) by simp
next
  case (Disown q d)
  then obtain di y2 where d: "pidmap (pids y) d = Some di" "pi_ppid di = q" "pid_do e y = Some (y2, Res_none)"
    "pidmap (pids y2) = (pidmap (pids y))(d := if pi_exited di then None else Some (di\<lparr>pi_ppid := 0\<rparr>))"
    using do_disown [OF assms(1), of q d] assms(2) by (metis pid_enabled.simps(7))
  have "d \<noteq> c" using d(1,2) c Disown e by auto
  then show ?thesis using d(3,4) assms(3) c(1) by simp
qed

lemma zombie_kept_steps:
  assumes "pid_steps y es y'" "pidsys_ok y" "pidmap (pids y) c = Some pi" "pi_exited pi" "pi_ppid pi = p"
    "\<forall>e\<in>set es. \<not> gives_up p c e"
  shows "pidmap (pids y') c = Some pi"
  using assms
proof (induction rule: pid_steps.induct)
  case (pid_steps_Cons e y y' r es y'')
  have "pidsys_ok y'" using pid_do_total [OF pid_steps_Cons.prems(1) pid_steps_Cons.hyps(1)] pid_steps_Cons.hyps(2) by simp
  moreover have "pidmap (pids y') c = Some pi"
    using zombie_kept pid_steps_Cons by (metis list.set_intros(1))
  ultimately show ?case using pid_steps_Cons by simp
qed

lemma awake_kept:
  assumes "pidsys_ok y" "pid_enabled e y" "pid_do e y = Some (y', r)" "p \<in> awake y" "e \<noteq> Resume p"
  shows "p \<in> awake y' \<and> waiting y' p = waiting y p"
proof -
  have "p \<notin> running y"
    using disjD(2) [OF pidsys_okD(2) [OF assms(1)]] awakeD [OF pidsys_okD(2) [OF assms(1)]] assms(4) by blast
  note simps = bind_eq_Some_conv idle_def
  from \<open>p \<notin> running y\<close> show ?thesis
  proof (cases e)
    case (Fork q m1 m2)
    then obtain s x where "pid_alloc m1 m2 q (pids y) = Some (s, x)" using assms(3) by (auto simp: simps)
    then show ?thesis using assms(3,4) Fork by (cases x) auto
  next
    case (Wait q c flags)
    then obtain s w where "pid_wait q c flags True (pids y) = Some (s, w)" using assms(3) by (auto simp: simps)
    then show ?thesis
      using assms(2-4) Wait \<open>p \<notin> running y\<close> by (cases "w = Wait_asleep") (auto simp: idle_def)
  qed (use assms(2-5) in \<open>auto simp: simps\<close>)
qed

lemma awake_kept_steps:
  assumes "pid_steps y es y'" "pidsys_ok y" "p \<in> awake y" "Resume p \<notin> set es"
  shows "p \<in> awake y' \<and> waiting y' p = waiting y p"
  using assms
proof (induction rule: pid_steps.induct)
  case (pid_steps_Cons e y y' r es y'')
  have "pidsys_ok y'" using pid_do_total [OF pid_steps_Cons.prems(1) pid_steps_Cons.hyps(1)] pid_steps_Cons.hyps(2) by simp
  moreover have "p \<in> awake y' \<and> waiting y' p = waiting y p"
    using awake_kept [OF pid_steps_Cons.prems(1) pid_steps_Cons.hyps(1,2)] pid_steps_Cons.prems by auto
  ultimately show ?case using pid_steps_Cons by simp
qed simp

section \<open>Properties\<close>

text \<open>
  C20. \<^verbatim>\<open>pid_alloc\<close> is correct: it says \<^verbatim>\<open>EAGAIN\<close> exactly when all \<open>PROCS_MAX\<close> slots are
  taken, \<^verbatim>\<open>ENOMEM\<close> when there is room but no memory, and otherwise returns a pid between
  \<^verbatim>\<open>PID_MIN\<close> and \<^verbatim>\<open>PID_MAX\<close> that no process has, entered in the table as a child of the caller;
  every other process keeps its entry. Its search loop always ends below the bound it asserts,
  and the lock is free again on every path.
\<close>

theorem pid_alloc_correct:
  assumes "pid_ok s" "cur \<noteq> INVALID_PID"
  shows "\<exists>s' r. pid_alloc m1 m2 cur s = Some (s', r) \<and> pid_ok s' \<and>
    (if card (dom (pidinfo_tab s)) = PROCS_MAX then r = Inl EAGAIN \<and> s' = s
     else if \<not> (m1 \<and> m2) then r = Inl ENOMEM \<and> pidmap s' = pidmap s
     else \<exists>np. r = Inr np \<and> PID_MIN \<le> np \<and> np \<le> PID_MAX \<and> pidmap s np = None \<and>
            pidmap s' = (pidmap s)(np \<mapsto> new_pidinfo np cur))"
proof -
  have cur: "cur \<noteq> 0" using assms(2) by (simp add: INVALID_PID_def)
  consider "card (dom (pidinfo_tab s)) = 128"
    | "card (dom (pidinfo_tab s)) \<noteq> 128" "\<not> (m1 \<and> m2)"
    | "card (dom (pidinfo_tab s)) \<noteq> 128" "m1 \<and> m2" by blast
  then show ?thesis
  proof cases
    case 1
    then show ?thesis using pid_alloc_full [OF assms(1) cur 1] assms(1) by (simp add: PROCS_MAX_def)
  next
    case 2
    then show ?thesis using pid_alloc_nomem [OF assms(1) cur 2] unfolding PROCS_MAX_def by metis
  next
    case 3
    then show ?thesis
      using pid_alloc_ok [OF assms(1) cur 3(1)] unfolding PROCS_MAX_def PID_MIN_def PID_MAX_def by metis
  qed
qed

lemma boot_eq:
  "pid_bootstrap True True True
     = Some \<lparr>pidlock = None, pidinfo_tab = [1 \<mapsto> new_pidinfo 1 0], nextpid = 2, nprocs = 1\<rparr>"
  by (simp add: pid_bootstrap_def pidinfo_create_def new_pidinfo_def kdefs)

theorem pid_alloc_correct_witness:
  "\<exists>s s' r. pid_bootstrap True True True = Some s \<and> pid_alloc True True 1 s = Some (s', r) \<and> pid_ok s' \<and>
     (\<exists>np. r = Inr np \<and> pidmap s' np = Some (new_pidinfo np 1))"
proof -
  let ?s = "\<lparr>pidlock = None, pidinfo_tab = [1 \<mapsto> new_pidinfo 1 0], nextpid = 2, nprocs = 1\<rparr>"
  have "pid_ok ?s" using pidmap_bootstrap [OF boot_eq] by simp
  moreover have "card (dom (pidinfo_tab ?s)) \<noteq> PROCS_MAX" by (simp add: PROCS_MAX_def)
  ultimately show ?thesis
    using pid_alloc_correct [of ?s 1 True True] boot_eq by (auto simp: INVALID_PID_def)
qed

text \<open>
  C1. The process table never panics: whatever the processes do, in any order and with any
  interleaving of the waits (forks that succeed or fail, exits, waits with or without
  \<^verbatim>\<open>WNOHANG\<close> on any pid, resumptions after a wake-up, disowns of own children), no assertion in
  \<^verbatim>\<open>pid.c\<close> fails, no freed entry is used, and after each operation the lock is free and
  \<^verbatim>\<open>nprocs\<close> is the number of occupied slots. In particular the comment "don't need to loop on
  this" at \<^verbatim>\<open>cv_wait\<close> is right: a parent that wakes up finds its child exited.
\<close>

theorem pid_no_panic:
  assumes "pid_bootstrap True True True = Some s" "pid_steps (pidsys_boot s) es y" "pid_enabled e y"
  shows "\<exists>y' r. pid_do e y = Some (y', r) \<and> pidlock (pids y') = None \<and>
    nprocs (pids y') = int (card (dom (pidinfo_tab (pids y'))))"
proof -
  have "pidsys_ok y" using assms(2) pidsys_boot_ok [OF assms(1)] by (rule pid_steps_ok)
  then obtain y' r where "pid_do e y = Some (y', r)" "pidsys_ok y'" using pid_do_total assms(3) by blast
  then show ?thesis using tab_okD(2) by (auto simp: pidsys_ok_def pid_ok_def)
qed

text \<open>A concrete run: the kernel forks process 2, which starts, and waits for it.\<close>

definition wait_run_start :: pidsys where
  "wait_run_start = pidsys_boot \<lparr>pidlock = None, pidinfo_tab = [1 \<mapsto> new_pidinfo 1 0], nextpid = 2, nprocs = 1\<rparr>"

definition wait_run_end :: pidsys where
  "wait_run_end =
     \<lparr>pids = \<lparr>pidlock = None, pidinfo_tab = [1 \<mapsto> new_pidinfo 1 0, 2 \<mapsto> (new_pidinfo 2 1)\<lparr>pi_cv := [1]\<rparr>],
               nextpid = 3, nprocs = 2\<rparr>,
      running = {2}, embryo = Map.empty, waiting = [1 \<mapsto> 2], awake = {}\<rparr>"

lemma wait_run: "pid_steps wait_run_start [Fork 1 True True, Start 2, Wait 1 2 0] wait_run_end"
proof -
  have slots: "slot 2 = 2" "slot 1 = 1" by (simp_all add: slot_def kdefs)
  let ?y1 = "\<lparr>pids = \<lparr>pidlock = None, pidinfo_tab = [1 \<mapsto> new_pidinfo 1 0, 2 \<mapsto> new_pidinfo 2 1],
               nextpid = 3, nprocs = 2\<rparr>,
      running = {1}, embryo = [2 \<mapsto> 1], waiting = Map.empty, awake = {}\<rparr>"
  let ?y2 = "?y1\<lparr>running := {2, 1}, embryo := Map.empty\<rparr>"
  have f1: "pid_do (Fork 1 True True) wait_run_start = Some (?y1, Res_alloc (Inr 2))"
    by (simp add: wait_run_start_def pidsys_boot_def pid_alloc_def pidlock_acquire_def pidlock_release_def
        pid_search.simps [of _ 0 2] slots pidinfo_create_def pi_put_def inc_nextpid_def new_pidinfo_def kdefs)
  have f2: "pid_do (Start 2) ?y1 = Some (?y2, Res_none)" by simp
  have f3: "pid_do (Wait 1 2 0) ?y2 = Some (wait_run_end, Res_wait Wait_asleep)"
    by (simp add: wait_run_end_def pid_wait_def pidlock_acquire_def pidlock_release_def pi_get_def slots
        new_pidinfo_def kdefs) auto
  have en: "pid_enabled (Fork 1 True True) wait_run_start" "pid_enabled (Start 2) ?y1"
    "pid_enabled (Wait 1 2 0) ?y2"
    by (simp_all add: wait_run_start_def pidsys_boot_def idle_def KERNEL_PID_def)
  show ?thesis
    by (rule pid_steps_Cons [OF en(1) f1 pid_steps_Cons [OF en(2) f2 pid_steps_Cons [OF en(3) f3
          pid_steps_Nil]]])
qed

lemma wait_run_enabled: "pid_enabled (Exit 2 st) wait_run_end"
  by (simp add: wait_run_end_def idle_def KERNEL_PID_def)

theorem pid_no_panic_witness:
  "\<exists>y' r. pid_do (Exit 2 7) wait_run_end = Some (y', r) \<and> pidlock (pids y') = None"
  using pid_no_panic [OF boot_eq wait_run [unfolded wait_run_start_def] wait_run_enabled] by blast

text \<open>
  C8. Exit statuses are delivered: when a process exits with a status while its parent lives,
  the entry keeps that status, and its pid is not given to anyone else, through whatever the
  other processes do afterwards; a parent already asleep in \<^verbatim>\<open>waitpid\<close> has been woken and
  resumes with the child's pid and status, and a parent that waits later, with or without
  \<^verbatim>\<open>WNOHANG\<close>, gets them at once. Either way the entry is then gone.
\<close>

theorem exit_status_delivered:
  assumes boot: "pid_bootstrap True True True = Some s" and reach: "pid_steps (pidsys_boot s) es0 y"
    and child: "pidmap (pids y) c = Some ci" "pi_ppid ci = p" "p \<noteq> INVALID_PID"
    and exit: "pid_enabled (Exit c st) y" "pid_do (Exit c st) y = Some (y1, r)"
    and later: "pid_steps y1 es y2" "\<forall>e\<in>set es. \<not> gives_up p c e"
  shows "if waiting y p = Some c
    then p \<in> awake y2 \<and> (\<exists>y3. pid_do (Resume p) y2 = Some (y3, Res_wait (Wait_status c st)) \<and>
           pidmap (pids y3) c = None)
    else idle p y2 \<longrightarrow> (\<forall>flags\<in>{0, WNOHANG}. \<exists>y3. pid_do (Wait p c flags) y2
           = Some (y3, Res_wait (Wait_status c st)) \<and> pidmap (pids y3) c = None)"
proof -
  have ok: "pidsys_ok y" using reach pidsys_boot_ok [OF boot] by (rule pid_steps_ok)
  have c: "idle c y" "c \<noteq> 1" using exit(1) by (simp_all add: KERNEL_PID_def)
  have p0: "p \<noteq> 0" using child(3) by (simp add: INVALID_PID_def)
  let ?ci = "ci\<lparr>pi_exitstatus := st, pi_exited := True, pi_cv := []\<rparr>"
  obtain y1' where y1': "pid_do (Exit c st) y = Some (y1', Res_none)" "pidsys_ok y1'"
    "pidmap (pids y1') = exit_map c ci st (pidmap (pids y))"
    "awake y1' = awake y \<union> (if pi_ppid ci = 0 then {} else set (pi_cv ci))"
    by (rule do_exit [OF ok c child(1), of st])
  have "y1' = y1" using y1'(1) exit(2) by simp
  then have y1: "pidsys_ok y1" "pidmap (pids y1) = exit_map c ci st (pidmap (pids y))"
    "awake y1 = awake y \<union> set (pi_cv ci)"
    using y1'(2-4) child(2) p0 by simp_all
  then have "pidmap (pids y1) c = Some ?ci" using child(2) p0 by (simp add: exit_map_def)
  then have y2: "pidmap (pids y2) c = Some ?ci"
    by (rule zombie_kept_steps [OF later(1) y1(1)]) (use child(2) later(2) in simp_all)
  have ok2: "pidsys_ok y2" using later(1) y1(1) by (rule pid_steps_ok)
  show ?thesis
  proof (cases "waiting y p = Some c")
    case True
    have alive: "\<not> pi_exited ci"
      using liveD [OF pidsys_okD(2) [OF ok], of c] c(1) child(1) by (auto simp: idle_def)
    then have "p \<notin> awake y" "pi_cv ci = [p]"
      using waitD [OF pidsys_okD(2) [OF ok] True] child(1) by (auto split: if_splits)
    then have "p \<in> awake y1" using y1(3) by simp
    moreover have "waiting y1 p = Some c" using exit(2) True by (auto simp: bind_eq_Some_conv)
    moreover have "Resume p \<notin> set es" using later(2) by auto
    ultimately have aw: "p \<in> awake y2" "waiting y2 p = Some c"
      using awake_kept_steps [OF later(1) y1(1)] by auto
    obtain y3 d di where y3: "waiting y2 p = Some d" "pidmap (pids y2) d = Some di"
      "pid_do (Resume p) y2 = Some (y3, Res_wait (Wait_status d (pi_exitstatus di)))"
      "pidmap (pids y3) = (pidmap (pids y2))(d := None)"
      by (rule do_resume [OF ok2 aw(1)])
    then have "d = c" "di = ?ci" using aw(2) y2 by simp_all
    then show ?thesis using True aw(1) y3(3,4) by (simp del: pid_do.simps)
  next
    case False
    have "\<exists>y3. pid_do (Wait p c flags) y2 = Some (y3, Res_wait (Wait_status c st)) \<and> pidmap (pids y3) c = None"
      if "idle p y2" "flags \<in> {0, 1}" for flags
    proof -
      have "c \<noteq> p" using entryD [OF pidsys_okD(2) [OF ok] child(1)] child(2) by (auto simp: entry_ok_def)
      moreover have "0 < c" using entryD [OF pidsys_okD(2) [OF ok] child(1)] by (simp add: entry_ok_def)
      ultimately have "wait_spec p c flags (pidmap (pids y2)) = Wait_status c st"
        using y2 child(2) that(2) by (auto simp: wait_spec_def)
      then show ?thesis using do_wait [OF ok2 that(1), of c flags] by (auto simp del: pid_do.simps)
    qed
    then show ?thesis using False by (simp add: WNOHANG_def del: pid_do.simps)
  qed
qed

theorem exit_status_delivered_witness:
  "\<exists>y1 y3. pid_do (Exit 2 7) wait_run_end = Some (y1, Res_none) \<and> 1 \<in> awake y1 \<and>
     pid_do (Resume 1) y1 = Some (y3, Res_wait (Wait_status 2 7))"
proof -
  have ok: "pidsys_ok wait_run_end"
    using wait_run [unfolded wait_run_start_def] pidsys_boot_ok [OF boot_eq] by (rule pid_steps_ok)
  have c: "pidmap (pids wait_run_end) 2 = Some ((new_pidinfo 2 1)\<lparr>pi_cv := [1]\<rparr>)"
    by (simp add: pidmap_def wait_run_end_def slot_def new_pidinfo_def kdefs)
  have "idle 2 wait_run_end" by (simp add: idle_def wait_run_end_def)
  then obtain y1 where y1: "pid_do (Exit 2 7) wait_run_end = Some (y1, Res_none)"
    by (rule do_exit [OF ok _ _ c, of 7]) simp
  have "waiting wait_run_end 1 = Some 2" by (simp add: wait_run_end_def)
  then show ?thesis
    using exit_status_delivered [OF boot_eq wait_run [unfolded wait_run_start_def] c _ _ wait_run_enabled y1
        pid_steps_Nil] y1
    by (auto simp: new_pidinfo_def INVALID_PID_def simp del: pid_do.simps)
qed

text \<open>
  C21. No zombie is left behind: in every state the system can reach, the entry of a process that
  has exited has a parent that is still alive and can wait for it; a process whose parent is
  gone or has disowned it leaves no entry when it exits.
\<close>

theorem no_orphan_zombie:
  assumes "pid_bootstrap True True True = Some s" "pid_steps (pidsys_boot s) es y"
    and "pidmap (pids y) c = Some ci" "pi_exited ci"
  shows "\<exists>pi. pidmap (pids y) (pi_ppid ci) = Some pi \<and> \<not> pi_exited pi \<and>
    (pi_ppid ci \<in> running y \<or> waiting y (pi_ppid ci) \<noteq> None)"
proof -
  have "pidsys_ok y" using assms(2) pidsys_boot_ok [OF assms(1)] by (rule pid_steps_ok)
  note ok = pidsys_okD(2) [OF this]
  have "pi_ppid ci \<in> running y \<union> dom (waiting y)"
    using entryD [OF ok assms(3)] assms(4) by (auto simp: entry_ok_def)
  then show ?thesis using liveD [OF ok, of "pi_ppid ci"] by auto
qed

theorem no_orphan_zombie_witness:
  "\<exists>y1 ci pi. pid_do (Exit 2 7) wait_run_end = Some (y1, Res_none) \<and> pidmap (pids y1) 2 = Some ci \<and>
     pi_exited ci \<and> pidmap (pids y1) (pi_ppid ci) = Some pi \<and> \<not> pi_exited pi"
proof -
  have ok: "pidsys_ok wait_run_end"
    using wait_run [unfolded wait_run_start_def] pidsys_boot_ok [OF boot_eq] by (rule pid_steps_ok)
  let ?ci = "(new_pidinfo 2 1)\<lparr>pi_cv := [1]\<rparr>"
  have c: "pidmap (pids wait_run_end) 2 = Some ?ci"
    by (simp add: pidmap_def wait_run_end_def slot_def new_pidinfo_def kdefs)
  have "idle 2 wait_run_end" by (simp add: idle_def wait_run_end_def)
  then obtain y1 where y1: "pid_do (Exit 2 7) wait_run_end = Some (y1, Res_none)"
    "pidmap (pids y1) = exit_map 2 ?ci 7 (pidmap (pids wait_run_end))"
    by (rule do_exit [OF ok _ _ c, of 7]) simp
  let ?zi = "?ci\<lparr>pi_exitstatus := 7, pi_exited := True, pi_cv := []\<rparr>"
  have z: "pidmap (pids y1) 2 = Some ?zi" using y1(2) by (simp add: exit_map_def new_pidinfo_def)
  have step: "pid_steps wait_run_end [Exit 2 7] y1"
    by (rule pid_steps_Cons [OF wait_run_enabled y1(1) pid_steps_Nil])
  have "pid_steps y es y' \<Longrightarrow> pid_steps y' es' y'' \<Longrightarrow> pid_steps y (es @ es') y''" for y es y' es' y''
    by (induction rule: pid_steps.induct) (auto intro: pid_steps_Cons)
  from this [OF wait_run step]
  show ?thesis using no_orphan_zombie [OF boot_eq _ z] y1(1) z
    by (auto simp: wait_run_start_def simp del: pid_do.simps)
qed

end
