(* ===== verification/Filetable.thy ===== *)
theory Filetable
  imports Kernel_Prelude
begin

unbundle bit_operations_syntax

text \<open>
  Open files: \<^verbatim>\<open>kern/syscall/openfile.c\<close> (the reference-counted seek positions),
  \<^verbatim>\<open>kern/syscall/filetable.c\<close> (the per-process tables of descriptors) and
  \<^verbatim>\<open>kern/syscall/file_syscalls.c\<close> (the system calls on them). Open files live in a heap,
  \<open>of_heap\<close>, so that tables share them; \<open>vn_opens\<close> counts, per vnode, the opens that
  \<^verbatim>\<open>vfs_open\<close> granted and \<^verbatim>\<open>vfs_close\<close> has not given back.

  The vnode operations are function pointers in the source: they are the fields of \<open>vnops\<close>, an
  argument of the definitions that call them, and so is \<^verbatim>\<open>vfs_open\<close>. A system call holds
  \<^verbatim>\<open>of_offsetlock\<close> from the moment it reads the seek position until it has stored the new one,
  so calls on one open file do not interleave: each runs to its end.
\<close>

section \<open>Open files\<close>

record openfile =
  of_vnode :: nat
  of_accmode :: int
  of_offsetlock :: bool
  of_offset :: int
  of_refcount :: int

record files =
  of_heap :: "nat \<rightharpoonup> openfile"
  of_fresh :: nat
  vn_opens :: "nat \<Rightarrow> nat"

definition O_RDONLY :: int where [kdefs]: "O_RDONLY = 0"
definition O_WRONLY :: int where [kdefs]: "O_WRONLY = 1"
definition O_RDWR :: int where [kdefs]: "O_RDWR = 2"
definition O_ACCMODE :: int where [kdefs]: "O_ACCMODE = 3"

text \<open>
  \<open>openfile_create\<close> takes the outcome of \<^verbatim>\<open>kmalloc\<close> and \<^verbatim>\<open>lock_create\<close>; the new structure
  gets an address that is not in use.
\<close>

definition openfile_create :: "bool \<Rightarrow> bool \<Rightarrow> nat \<Rightarrow> int \<Rightarrow> files \<Rightarrow> (files \<times> nat option) option" where
  "openfile_create mem1 mem2 vn accmode w =
     do {
       kassert (accmode = O_RDONLY \<or> accmode = O_WRONLY \<or> accmode = O_RDWR);
       Some (if \<not> mem1 then (w, None)
             else if \<not> mem2 then (w, None)
             else (w\<lparr>of_heap := (of_heap w)(of_fresh w \<mapsto>
                       \<lparr>of_vnode = vn, of_accmode = accmode, of_offsetlock = False,
                        of_offset = 0, of_refcount = 1\<rparr>),
                     of_fresh := of_fresh w + 1\<rparr>, Some (of_fresh w)))
     }"

text \<open>\<^verbatim>\<open>vfs_close\<close> gives back one open of the vnode; there has to be one.\<close>

definition vfs_close :: "nat \<Rightarrow> files \<Rightarrow> files option" where
  "vfs_close vn w =
     do {
       kassert (vn_opens w vn > 0);
       Some (w\<lparr>vn_opens := (vn_opens w)(vn := vn_opens w vn - 1)\<rparr>)
     }"

text \<open>\<^verbatim>\<open>lock_destroy\<close> asserts that the lock is free.\<close>

definition openfile_destroy :: "nat \<Rightarrow> files \<Rightarrow> files option" where
  "openfile_destroy f w =
     do {
       file \<leftarrow> of_heap w f;
       w \<leftarrow> vfs_close (of_vnode file) w;
       kassert (\<not> of_offsetlock file);
       Some (w\<lparr>of_heap := (of_heap w)(f := None)\<rparr>)
     }"

type_synonym vfs_open = "string \<Rightarrow> int \<Rightarrow> errno + nat"

definition openfile_open ::
    "vfs_open \<Rightarrow> bool \<Rightarrow> bool \<Rightarrow> string \<Rightarrow> int \<Rightarrow> files \<Rightarrow> (files \<times> (errno + nat)) option" where
  "openfile_open vfs mem1 mem2 filename openflags w =
     (case vfs filename openflags of
        Inl e \<Rightarrow> Some (w, Inl e)
      | Inr vn \<Rightarrow>
          do {
            let w = w\<lparr>vn_opens := (vn_opens w)(vn := vn_opens w vn + 1)\<rparr>;
            (w, file) \<leftarrow> openfile_create mem1 mem2 vn (openflags AND O_ACCMODE) w;
            (case file of
               None \<Rightarrow> do { w \<leftarrow> vfs_close vn w; Some (w, Inl ENOMEM) }
             | Some f \<Rightarrow> Some (w, Inr f))
          })"

abbreviation of_upd :: "nat \<Rightarrow> openfile \<Rightarrow> files \<Rightarrow> files" where
  "of_upd f file w \<equiv> w\<lparr>of_heap := (of_heap w)(f \<mapsto> file)\<rparr>"

definition openfile_incref :: "nat \<Rightarrow> files \<Rightarrow> files option" where
  "openfile_incref f w =
     do { file \<leftarrow> of_heap w f; Some (of_upd f (file\<lparr>of_refcount := of_refcount file + 1\<rparr>) w) }"

definition openfile_decref :: "nat \<Rightarrow> files \<Rightarrow> files option" where
  "openfile_decref f w =
     do {
       file \<leftarrow> of_heap w f;
       if of_refcount file = 1 then openfile_destroy f w
       else do {
         kassert (of_refcount file > 1);
         Some (of_upd f (file\<lparr>of_refcount := of_refcount file - 1\<rparr>) w)
       }
     }"

section \<open>File tables\<close>

definition OPEN_MAX :: nat where [kdefs]: "OPEN_MAX = 128"

type_synonym filetable = "nat option list"

definition filetable_create :: "bool \<Rightarrow> filetable option" where
  "filetable_create mem = (if \<not> mem then None else Some (replicate OPEN_MAX None))"

text \<open>The closing loop of \<^verbatim>\<open>filetable_destroy\<close>, over the entries.\<close>

fun decref_all :: "filetable \<Rightarrow> files \<Rightarrow> files option" where
  "decref_all [] w = Some w"
| "decref_all (file # ft) w =
     do {
       w \<leftarrow> (case file of None \<Rightarrow> Some w | Some f \<Rightarrow> openfile_decref f w);
       decref_all ft w
     }"

definition filetable_destroy :: "filetable \<Rightarrow> files \<Rightarrow> files option" where
  "filetable_destroy ft w = decref_all ft w"

text \<open>The sharing loop of \<^verbatim>\<open>filetable_copy\<close>, over the entries; it returns the entries of the copy.\<close>

fun share_all :: "filetable \<Rightarrow> files \<Rightarrow> (files \<times> filetable) option" where
  "share_all [] w = Some (w, [])"
| "share_all (file # src) w =
     do {
       w \<leftarrow> (case file of None \<Rightarrow> Some w | Some f \<Rightarrow> openfile_incref f w);
       (w, dest) \<leftarrow> share_all src w;
       Some (w, file # dest)
     }"

definition filetable_copy ::
    "bool \<Rightarrow> filetable option \<Rightarrow> files \<Rightarrow> (files \<times> (errno + filetable option)) option" where
  "filetable_copy mem src w =
     (case src of
        None \<Rightarrow> Some (w, Inr None)
      | Some src \<Rightarrow>
          (case filetable_create mem of
             None \<Rightarrow> Some (w, Inl ENOMEM)
           | Some _ \<Rightarrow> do { (w, dest) \<leftarrow> share_all src w; Some (w, Inr (Some dest)) }))"

definition filetable_okfd :: "filetable \<Rightarrow> int \<Rightarrow> bool" where
  "filetable_okfd ft fd \<longleftrightarrow> fd \<ge> 0 \<and> fd < int OPEN_MAX"

definition filetable_get :: "filetable \<Rightarrow> int \<Rightarrow> errno + nat" where
  "filetable_get ft fd =
     (if \<not> filetable_okfd ft fd then Inl EBADF
      else case ft ! nat fd of
             None \<Rightarrow> Inl EBADF
           | Some f \<Rightarrow> Inr f)"

definition filetable_put :: "filetable \<Rightarrow> int \<Rightarrow> nat \<Rightarrow> unit option" where
  "filetable_put ft fd f = kassert (ft ! nat fd = Some f)"

definition filetable_place :: "filetable \<Rightarrow> nat \<Rightarrow> filetable \<times> (errno + int)" where
  "filetable_place ft f =
     (case find (\<lambda>fd. ft ! fd = None) [0..<OPEN_MAX] of
        Some fd \<Rightarrow> (ft[fd := Some f], Inr (int fd))
      | None \<Rightarrow> (ft, Inl EMFILE))"

definition filetable_placeat :: "filetable \<Rightarrow> nat option \<Rightarrow> int \<Rightarrow> (filetable \<times> nat option) option" where
  "filetable_placeat ft newfile fd =
     do {
       kassert (filetable_okfd ft fd);
       Some (ft[nat fd := newfile], ft ! nat fd)
     }"

section \<open>The system calls\<close>

text \<open>
  The vnode operations a file descriptor reaches. \<open>vop_rw\<close> gives the offset and the residue
  that \<^verbatim>\<open>VOP_READ\<close> or \<^verbatim>\<open>VOP_WRITE\<close> leaves in the uio it is handed.
\<close>

record vnops =
  vop_isseekable :: "nat \<Rightarrow> bool"
  vop_rw :: "uio_rw \<Rightarrow> nat \<Rightarrow> int \<Rightarrow> nat \<Rightarrow> errno + int \<times> nat"
  vop_stat :: "nat \<Rightarrow> errno + int"

definition O_ALLFLAGS :: int where [kdefs]: "O_ALLFLAGS = 127"

definition sys_open ::
    "vfs_open \<Rightarrow> bool \<Rightarrow> bool \<Rightarrow> bool \<Rightarrow> errno + string \<Rightarrow> int \<Rightarrow> filetable \<Rightarrow> files
       \<Rightarrow> (filetable \<times> files \<times> (errno + int)) option" where
  "sys_open vfs mem mem1 mem2 upath flags ft w =
     (if flags AND O_ALLFLAGS \<noteq> flags then Some (ft, w, Inl EINVAL)
      else if \<not> mem then Some (ft, w, Inl ENOMEM)
      else case upath of
             Inl e \<Rightarrow> Some (ft, w, Inl e)
           | Inr kpath \<Rightarrow>
               do {
                 (w, r) \<leftarrow> openfile_open vfs mem1 mem2 kpath flags w;
                 (case r of
                    Inl e \<Rightarrow> Some (ft, w, Inl e)
                  | Inr f \<Rightarrow>
                      (case filetable_place ft f of
                         (ft, Inr fd) \<Rightarrow> Some (ft, w, Inr fd)
                       | (ft, Inl e) \<Rightarrow>
                           do { w \<leftarrow> openfile_decref f w; Some (ft, w, Inl e) }))
               })"

text \<open>
  \<open>lock_of\<close> and \<open>unlock_of\<close>: the seek lock, taken and released only where the source does.
\<close>

definition lock_of :: "nat \<Rightarrow> files \<Rightarrow> files option" where
  "lock_of f w =
     do { file \<leftarrow> of_heap w f; kassert (\<not> of_offsetlock file); Some (of_upd f (file\<lparr>of_offsetlock := True\<rparr>) w) }"

definition unlock_of :: "nat \<Rightarrow> files \<Rightarrow> files option" where
  "unlock_of f w =
     do { file \<leftarrow> of_heap w f; kassert (of_offsetlock file); Some (of_upd f (file\<lparr>of_offsetlock := False\<rparr>) w) }"

definition sys_readwrite ::
    "vnops \<Rightarrow> int \<Rightarrow> nat \<Rightarrow> uio_rw \<Rightarrow> int \<Rightarrow> filetable \<Rightarrow> files \<Rightarrow> (files \<times> (errno + nat)) option" where
  "sys_readwrite V fd len rw badaccmode ft w =
     (case filetable_get ft fd of
        Inl e \<Rightarrow> Some (w, Inl e)
      | Inr f \<Rightarrow>
          do {
            file \<leftarrow> of_heap w f;
            let locked = vop_isseekable V (of_vnode file);
            w \<leftarrow> (if locked then lock_of f w else Some w);
            let pos = (if locked then of_offset file else 0);
            let result = (if of_accmode file = badaccmode then Inl EBADF
                          else vop_rw V rw (of_vnode file) pos len);
            (case result of
               Inl e \<Rightarrow>
                 do {
                   w \<leftarrow> (if locked then unlock_of f w else Some w);
                   filetable_put ft fd f;
                   Some (w, Inl e)
                 }
             | Inr (uio_offset, uio_resid) \<Rightarrow>
                 do {
                   w \<leftarrow> (if locked then do {
                           file \<leftarrow> of_heap w f;
                           unlock_of f (of_upd f (file\<lparr>of_offset := uio_offset\<rparr>) w)
                         } else Some w);
                   filetable_put ft fd f;
                   Some (w, Inr (len - uio_resid))
                 })
          })"

definition sys_read :: "vnops \<Rightarrow> int \<Rightarrow> nat \<Rightarrow> filetable \<Rightarrow> files \<Rightarrow> (files \<times> (errno + nat)) option" where
  "sys_read V fd len ft w = sys_readwrite V fd len UIO_READ O_WRONLY ft w"

definition sys_write :: "vnops \<Rightarrow> int \<Rightarrow> nat \<Rightarrow> filetable \<Rightarrow> files \<Rightarrow> (files \<times> (errno + nat)) option" where
  "sys_write V fd len ft w = sys_readwrite V fd len UIO_WRITE O_RDONLY ft w"

definition sys_close :: "int \<Rightarrow> filetable \<Rightarrow> files \<Rightarrow> (filetable \<times> files \<times> (errno + unit)) option" where
  "sys_close fd ft w =
     (if \<not> filetable_okfd ft fd then Some (ft, w, Inl EBADF)
      else do {
        (ft, file) \<leftarrow> filetable_placeat ft None fd;
        (case file of
           None \<Rightarrow> Some (ft, w, Inl EBADF)
         | Some f \<Rightarrow> do { w \<leftarrow> openfile_decref f w; Some (ft, w, Inr ()) })
      })"

text \<open>\<^verbatim>\<open>off_t\<close> is a signed 64-bit integer; the sums of \<^verbatim>\<open>lseek\<close> wrap.\<close>

definition s64 :: "int \<Rightarrow> int" where
  "s64 x = (x + 2 ^ 63) mod 2 ^ 64 - 2 ^ 63"

definition SEEK_SET :: int where [kdefs]: "SEEK_SET = 0"
definition SEEK_CUR :: int where [kdefs]: "SEEK_CUR = 1"
definition SEEK_END :: int where [kdefs]: "SEEK_END = 2"

text \<open>The position the \<^verbatim>\<open>switch (whence)\<close> computes.\<close>

definition seek_target :: "vnops \<Rightarrow> openfile \<Rightarrow> int \<Rightarrow> int \<Rightarrow> errno + int" where
  "seek_target V file offset whence =
     (if whence = SEEK_SET then Inr offset
      else if whence = SEEK_CUR then Inr (s64 (of_offset file + offset))
      else if whence = SEEK_END then
        (case vop_stat V (of_vnode file) of
           Inl e \<Rightarrow> Inl e
         | Inr st_size \<Rightarrow> Inr (s64 (st_size + offset)))
      else Inl EINVAL)"

definition sys_lseek ::
    "vnops \<Rightarrow> int \<Rightarrow> int \<Rightarrow> int \<Rightarrow> filetable \<Rightarrow> files \<Rightarrow> (files \<times> (errno + int)) option" where
  "sys_lseek V fd offset whence ft w =
     (case filetable_get ft fd of
        Inl e \<Rightarrow> Some (w, Inl e)
      | Inr f \<Rightarrow>
          do {
            file \<leftarrow> of_heap w f;
            if \<not> vop_isseekable V (of_vnode file) then
              do { filetable_put ft fd f; Some (w, Inl ESPIPE) }
            else do {
              w \<leftarrow> lock_of f w;
              (case seek_target V file offset whence of
                 Inl e \<Rightarrow>
                   do { w \<leftarrow> unlock_of f w; filetable_put ft fd f; Some (w, Inl e) }
               | Inr pos \<Rightarrow>
                   if pos < 0 then
                     do { w \<leftarrow> unlock_of f w; filetable_put ft fd f; Some (w, Inl EINVAL) }
                   else do {
                     file \<leftarrow> of_heap w f;
                     w \<leftarrow> unlock_of f (of_upd f (file\<lparr>of_offset := pos\<rparr>) w);
                     filetable_put ft fd f;
                     Some (w, Inr pos)
                   })
            }
          })"

definition sys_dup2 :: "int \<Rightarrow> int \<Rightarrow> filetable \<Rightarrow> files \<Rightarrow> (filetable \<times> files \<times> (errno + int)) option" where
  "sys_dup2 oldfd newfd ft w =
     (if \<not> filetable_okfd ft newfd then Some (ft, w, Inl EBADF)
      else if oldfd = newfd then Some (ft, w, Inr newfd)
      else case filetable_get ft oldfd of
             Inl e \<Rightarrow> Some (ft, w, Inl e)
           | Inr f \<Rightarrow>
               do {
                 w \<leftarrow> openfile_incref f w;
                 filetable_put ft oldfd f;
                 (ft, newfdfile) \<leftarrow> filetable_placeat ft (Some f) newfd;
                 w \<leftarrow> (case newfdfile of None \<Rightarrow> Some w | Some g \<Rightarrow> openfile_decref g w);
                 Some (ft, w, Inr newfd)
               })"

section \<open>Reference counting\<close>

text \<open>
  The contract of a reference-counted object, for the clients that hold the references: \<open>cnt x\<close>
  is the number of references held, an object is there exactly while it is positive, and its
  contents change with neither operation.
\<close>

locale refcounts =
  fixes ok :: "'s \<Rightarrow> ('o \<Rightarrow> nat) \<Rightarrow> bool"
    and look :: "'s \<Rightarrow> 'o \<Rightarrow> 'c option"
    and incref :: "'o \<Rightarrow> 's \<Rightarrow> 's option"
    and decref :: "'o \<Rightarrow> 's \<Rightarrow> 's option"
  assumes look_live: "ok s cnt \<Longrightarrow> look s x \<noteq> None \<longleftrightarrow> 0 < cnt x"
    and incref_law: "ok s cnt \<Longrightarrow> 0 < cnt x \<Longrightarrow>
      \<exists>s'. incref x s = Some s' \<and> ok s' (cnt(x := cnt x + 1)) \<and> look s' = look s"
    and decref_law: "ok s cnt \<Longrightarrow> 0 < cnt x \<Longrightarrow>
      \<exists>s'. decref x s = Some s' \<and> ok s' (cnt(x := cnt x - 1)) \<and>
        look s' = (if cnt x = 1 then (look s)(x := None) else look s)"
begin

fun each :: "('o \<Rightarrow> 's \<Rightarrow> 's option) \<Rightarrow> 'o list \<Rightarrow> 's \<Rightarrow> 's option" where
  "each f [] s = Some s"
| "each f (x # xs) s = do { s \<leftarrow> f x s; each f xs s }"

lemma incref_each:
  assumes "ok s cnt" "\<forall>x\<in>set xs. 0 < cnt x"
  shows "\<exists>s'. each incref xs s = Some s' \<and> ok s' (\<lambda>x. cnt x + count_list xs x) \<and> look s' = look s"
  using assms
proof (induction xs arbitrary: s cnt)
  case (Cons x xs)
  then obtain s1 where s1: "incref x s = Some s1" "ok s1 (cnt(x := cnt x + 1))" "look s1 = look s"
    using incref_law [of s cnt x] by auto
  have "\<forall>y\<in>set xs. 0 < (cnt(x := cnt x + 1)) y" using Cons.prems by simp
  from Cons.IH [OF s1(2) this] obtain s2 where "each incref xs s1 = Some s2"
    "ok s2 (\<lambda>y. (cnt(x := cnt x + 1)) y + count_list xs y)" "look s2 = look s1"
    by blast
  moreover have "(\<lambda>y. (cnt(x := cnt x + 1)) y + count_list xs y) = (\<lambda>y. cnt y + count_list (x # xs) y)"
    by auto
  ultimately show ?case using s1 by (simp del: count_list.simps)
qed simp

lemma decref_each:
  assumes "ok s cnt" "\<forall>x. count_list xs x \<le> cnt x"
  shows "\<exists>s'. each decref xs s = Some s' \<and> ok s' (\<lambda>x. cnt x - count_list xs x) \<and>
    (\<forall>y. look s' y = (if count_list xs y = cnt y then None else look s y))"
  using assms
proof (induction xs arbitrary: s cnt)
  case Nil
  have "look s y = (if count_list [] y = cnt y then None else look s y)" for y
    using look_live [OF Nil.prems(1), of y] by auto
  then show ?case using Nil.prems(1) by auto
next
  case (Cons x xs)
  have "0 < cnt x" using Cons.prems(2) [rule_format, of x] by simp
  then obtain s1 where s1: "decref x s = Some s1" "ok s1 (cnt(x := cnt x - 1))"
    "look s1 = (if cnt x = 1 then (look s)(x := None) else look s)"
    using decref_law [OF Cons.prems(1)] by blast
  have "\<forall>y. count_list xs y \<le> (cnt(x := cnt x - 1)) y"
    using Cons.prems(2) \<open>0 < cnt x\<close> by (auto split: if_splits)
  from Cons.IH [OF s1(2) this] obtain s2 where s2: "each decref xs s1 = Some s2"
    "ok s2 (\<lambda>y. (cnt(x := cnt x - 1)) y - count_list xs y)"
    "\<forall>y. look s2 y = (if count_list xs y = (cnt(x := cnt x - 1)) y then None else look s1 y)"
    by blast
  have "(\<lambda>y. (cnt(x := cnt x - 1)) y - count_list xs y) = (\<lambda>y. cnt y - count_list (x # xs) y)"
    by auto
  moreover have "look s2 y = (if count_list (x # xs) y = cnt y then None else look s y)" for y
    using s2(3) s1(3) \<open>0 < cnt x\<close> Cons.prems(2) [rule_format, of x] by auto
  ultimately show ?case using s1(1) s2(1,2) by (simp del: count_list.simps)
qed

end

text \<open>The open files under that contract; \<open>content\<close> is an open file without its count.\<close>

definition files_ok :: "files \<Rightarrow> (nat \<Rightarrow> nat) \<Rightarrow> bool" where
  "files_ok w cnt \<longleftrightarrow>
     (\<forall>f. of_heap w f = None \<longrightarrow> cnt f = 0) \<and>
     (\<forall>f file. of_heap w f = Some file \<longrightarrow> of_refcount file = int (cnt f) \<and> 0 < cnt f \<and> \<not> of_offsetlock file) \<and>
     (\<forall>f\<ge>of_fresh w. of_heap w f = None) \<and>
     (\<forall>v. vn_opens w v = card {f. \<exists>file. of_heap w f = Some file \<and> of_vnode file = v})"

definition content :: "files \<Rightarrow> nat \<Rightarrow> openfile option" where
  "content w f = map_option (of_refcount_update (\<lambda>_. 0)) (of_heap w f)"

abbreviation users :: "files \<Rightarrow> nat \<Rightarrow> nat set" where
  "users w v \<equiv> {f. \<exists>file. of_heap w f = Some file \<and> of_vnode file = v}"

lemma files_okD:
  assumes "files_ok w cnt"
  shows "of_heap w f = None \<Longrightarrow> cnt f = 0"
    "of_heap w f = Some file \<Longrightarrow> of_refcount file = int (cnt f) \<and> 0 < cnt f \<and> \<not> of_offsetlock file"
    "of_fresh w \<le> f \<Longrightarrow> of_heap w f = None"
    "vn_opens w v = card (users w v)"
    "finite (users w v)"
proof -
  have "users w v \<subseteq> {..<of_fresh w}"
    using assms unfolding files_ok_def by (auto simp: not_less [symmetric])
  then show "finite (users w v)" using finite_subset by blast
qed (use assms in \<open>auto simp: files_ok_def\<close>)

lemma files_ok_live: "files_ok w cnt \<Longrightarrow> of_heap w f \<noteq> None \<longleftrightarrow> 0 < cnt f"
  using files_okD(1,2) [of w cnt f] by (cases "of_heap w f") auto

text \<open>Changing an open file in place: its vnode stays, so the opens do.\<close>

lemma files_ok_upd:
  assumes "files_ok w cnt" "of_heap w f = Some file" "of_vnode file' = of_vnode file"
    "of_refcount file' = int n" "0 < n" "\<not> of_offsetlock file'"
  shows "files_ok (of_upd f file' w) (cnt(f := n))"
proof -
  have "users (of_upd f file' w) v = users w v" for v using assms(2,3) by auto
  moreover have "f < of_fresh w" using files_okD(3) [OF assms(1), of f] assms(2) by (auto simp: not_le [symmetric])
  ultimately show ?thesis using assms unfolding files_ok_def by auto
qed

lemma incref_ok:
  assumes "files_ok w cnt" "0 < cnt f"
  shows "\<exists>w'. openfile_incref f w = Some w' \<and> files_ok w' (cnt(f := cnt f + 1)) \<and> content w' = content w"
proof -
  obtain fl where at: "of_heap w f = Some fl" using files_ok_live [OF assms(1)] assms(2) by blast
  let ?fl = "fl\<lparr>of_refcount := of_refcount fl + 1\<rparr>"
  have "files_ok (of_upd f ?fl w) (cnt(f := cnt f + 1))"
    by (rule files_ok_upd [OF assms(1) at]) (use files_okD(2) [OF assms(1) at] in auto)
  moreover have "content (of_upd f ?fl w) = content w" using at by (auto simp: content_def)
  ultimately show ?thesis using at by (simp add: openfile_incref_def)
qed

lemma decref_ok:
  assumes "files_ok w cnt" "0 < cnt f"
  shows "\<exists>w'. openfile_decref f w = Some w' \<and> files_ok w' (cnt(f := cnt f - 1)) \<and>
    content w' = (if cnt f = 1 then (content w)(f := None) else content w)"
proof -
  obtain fl where at: "of_heap w f = Some fl" using files_ok_live [OF assms(1)] assms(2) by blast
  note inv = files_okD [OF assms(1)]
  show ?thesis
  proof (cases "cnt f = 1")
    case True
    let ?v = "of_vnode fl"
    let ?w = "w\<lparr>vn_opens := (vn_opens w)(?v := vn_opens w ?v - 1), of_heap := (of_heap w)(f := None)\<rparr>"
    have f: "f \<in> users w ?v" using at by simp
    then have pos: "0 < vn_opens w ?v" using inv(4,5) by (auto simp: card_gt_0_iff)
    have "openfile_decref f w = Some ?w"
      using at inv(2) [OF at] True pos
      by (simp add: openfile_decref_def openfile_destroy_def vfs_close_def)
    moreover have "files_ok ?w (cnt(f := cnt f - 1))"
    proof -
      have "users ?w v = (if v = ?v then users w v - {f} else users w v)" for v using at by auto
      then have "vn_opens ?w v = card (users ?w v)" for v
        using inv(4,5) f by (simp add: card_Diff_singleton)
      then show ?thesis using assms(1) True unfolding files_ok_def by auto
    qed
    moreover have "content ?w = (content w)(f := None)" by (auto simp: content_def)
    ultimately show ?thesis using True by simp
  next
    case False
    let ?fl = "fl\<lparr>of_refcount := of_refcount fl - 1\<rparr>"
    have "files_ok (of_upd f ?fl w) (cnt(f := cnt f - 1))"
      by (rule files_ok_upd [OF assms(1) at]) (use inv(2) [OF at] False in auto)
    moreover have "content (of_upd f ?fl w) = content w" using at by (auto simp: content_def)
    ultimately show ?thesis using at inv(2) [OF at] False by (simp add: openfile_decref_def)
  qed
qed

interpretation ofr: refcounts files_ok content openfile_incref openfile_decref
proof unfold_locales
  show "(content w f \<noteq> None) = (0 < cnt f)" if "files_ok w cnt" for w cnt f
    using files_ok_live [OF that, of f] by (simp add: content_def)
qed (fact incref_ok decref_ok)+

text \<open>The references a table holds.\<close>

fun held :: "filetable \<Rightarrow> nat list" where
  "held [] = []"
| "held (None # ft) = held ft"
| "held (Some f # ft) = f # held ft"

lemma decref_all_each: "decref_all ft = ofr.each openfile_decref (held ft)"
proof (induction ft)
  case (Cons x ft)
  show ?case
  proof
    fix w
    show "decref_all (x # ft) w = ofr.each openfile_decref (held (x # ft)) w"
      using Cons by (cases x) simp_all
  qed
qed auto

lemma share_all_each:
  "share_all ft w = map_option (\<lambda>w. (w, ft)) (ofr.each openfile_incref (held ft) w)"
proof (induction ft arbitrary: w)
  case (Cons x ft)
  show ?case
  proof (cases x)
    case None
    then show ?thesis using Cons.IH [of w] by (cases "ofr.each openfile_incref (held ft) w") simp_all
  next
    case (Some f)
    show ?thesis
    proof (cases "openfile_incref f w")
      case None
      then show ?thesis using Some by simp
    next
      case at: (Some w1)
      then show ?thesis
        using Some Cons.IH [of w1] by (cases "ofr.each openfile_incref (held ft) w1") simp_all
    qed
  qed
qed simp

lemma count_held: "count_list (held ft) f = count_list ft (Some f)"
  by (induction ft rule: held.induct) auto

lemma set_held: "f \<in> set (held ft) \<longleftrightarrow> Some f \<in> set ft"
  by (induction ft rule: held.induct) auto

text \<open>What \<^verbatim>\<open>openfile_open\<close> needs of \<^verbatim>\<open>vfs_open\<close>: it only accepts a valid access mode.\<close>

definition vfs_open_ok :: "vfs_open \<Rightarrow> bool" where
  "vfs_open_ok vfs \<longleftrightarrow>
     (\<forall>path flags v. vfs path flags = Inr v \<longrightarrow> flags AND O_ACCMODE \<in> {O_RDONLY, O_WRONLY, O_RDWR})"

definition new_openfile :: "nat \<Rightarrow> int \<Rightarrow> openfile" where
  "new_openfile vn accmode =
     \<lparr>of_vnode = vn, of_accmode = accmode, of_offsetlock = False, of_offset = 0, of_refcount = 1\<rparr>"

lemma openfile_open_ok:
  assumes "vfs_open_ok vfs" "files_ok w cnt"
  obtains (error) e where "openfile_open vfs m1 m2 path flags w = Some (w, Inl e)"
      "vfs path flags = Inl e \<or> (\<exists>vn. vfs path flags = Inr vn) \<and> e = ENOMEM \<and> \<not> (m1 \<and> m2)"
  | (opened) w' f vn where "openfile_open vfs m1 m2 path flags w = Some (w', Inr f)" "vfs path flags = Inr vn"
      "cnt f = 0" "files_ok w' (cnt(f := 1))"
      "of_heap w' = (of_heap w)(f \<mapsto> new_openfile vn (flags AND O_ACCMODE))"
      "m1" "m2" "vn_opens w' = (vn_opens w)(vn := vn_opens w vn + 1)"
proof (cases "vfs path flags")
  case (Inl e)
  then show ?thesis using error by (simp add: openfile_open_def)
next
  case (Inr vn)
  then have acc: "flags AND O_ACCMODE = O_RDONLY \<or> flags AND O_ACCMODE = O_WRONLY \<or> flags AND O_ACCMODE = O_RDWR"
    using assms(1) by (auto simp: vfs_open_ok_def)
  show ?thesis
  proof (cases "m1 \<and> m2")
    case False
    have "w\<lparr>vn_opens := (vn_opens w)(vn := vn_opens w vn + 1, vn := vn_opens w vn)\<rparr> = w" by (cases w) simp
    then have "openfile_open vfs m1 m2 path flags w = Some (w, Inl ENOMEM)"
      using Inr acc False by (auto simp: openfile_open_def openfile_create_def vfs_close_def Let_def)
    then show ?thesis using error Inr False by blast
  next
    case True
    let ?f = "of_fresh w" and ?o = "new_openfile vn (flags AND O_ACCMODE)"
    let ?w = "w\<lparr>vn_opens := (vn_opens w)(vn := vn_opens w vn + 1), of_heap := (of_heap w)(?f \<mapsto> ?o), of_fresh := ?f + 1\<rparr>"
    have opened_eq: "openfile_open vfs m1 m2 path flags w = Some (?w, Inr ?f)"
      using Inr acc True by (auto simp: openfile_open_def openfile_create_def new_openfile_def)
    note inv = files_okD [OF assms(2)]
    have none: "of_heap w ?f = None" using inv(3) by simp
    have "users ?w v = (if v = vn then insert ?f (users w v) else users w v)" for v
      using none by (auto simp: new_openfile_def)
    moreover have "?f \<notin> users w v" for v using none by simp
    ultimately have "vn_opens ?w v = card (users ?w v)" for v using inv(4,5) by simp
    then have "files_ok ?w (cnt(?f := 1))"
      using assms(2) unfolding files_ok_def by (auto simp: new_openfile_def)
    then show ?thesis using opened [of ?w ?f vn] opened_eq Inr inv(1) [OF none] True by simp
  qed
qed

section \<open>The machine's file tables\<close>

text \<open>
  The open files and the file table of every process. \<open>refs\<close> counts, over all tables, the
  descriptors that refer to an open file.
\<close>

record fdworld =
  wfiles :: files
  tables :: "nat \<rightharpoonup> filetable"

definition refs :: "(nat \<rightharpoonup> filetable) \<Rightarrow> nat \<Rightarrow> nat" where
  "refs T f = (\<Sum>p\<in>dom T. count_list (the (T p)) (Some f))"

definition fdworld_ok :: "fdworld \<Rightarrow> bool" where
  "fdworld_ok y \<longleftrightarrow> finite (dom (tables y)) \<and> (\<forall>p t. tables y p = Some t \<longrightarrow> length t = 128) \<and>
     files_ok (wfiles y) (refs (tables y))"

lemma fdworld_okD:
  assumes "fdworld_ok y"
  shows "finite (dom (tables y))" "tables y p = Some t \<Longrightarrow> length t = 128"
    "files_ok (wfiles y) (refs (tables y))"
  using assms by (auto simp: fdworld_ok_def)

lemma refs_split:
  assumes "finite (dom T)" "T p = Some t"
  shows "refs T f = count_list t (Some f) + refs (T(p := None)) f"
proof -
  let ?c = "\<lambda>T q. count_list (the (T q)) (Some f)"
  have "p \<in> dom T" using assms(2) by blast
  then have "refs T f = ?c T p + sum (?c T) (dom T - {p})"
    unfolding refs_def by (rule sum.remove [OF assms(1)])
  also have "sum (?c T) (dom T - {p}) = sum (?c (T(p := None))) (dom (T(p := None)))"
    by (rule sum.cong) auto
  finally show ?thesis using assms(2) unfolding refs_def by simp
qed

lemma refs_upd:
  assumes "finite (dom T)" "T p = Some t"
  shows "refs (T(p \<mapsto> t')) f + count_list t (Some f) = refs T f + count_list t' (Some f)"
proof -
  have "refs (T(p \<mapsto> t')) f = count_list t' (Some f) + refs (T(p := None)) f"
    using refs_split [of "T(p \<mapsto> t')" p t' f] assms(1) by simp
  then show ?thesis using refs_split [of T p t f] assms by simp
qed

lemma count_update:
  "i < length xs \<Longrightarrow> count_list (xs[i := v]) y + (if xs ! i = y then 1 else 0)
     = count_list xs y + (if v = y then 1 else 0)"
proof (induction xs arbitrary: i)
  case (Cons x xs)
  show ?case
  proof (cases i)
    case (Suc j)
    then show ?thesis using Cons.IH [of j] Cons.prems by (auto split: if_splits)
  qed simp
qed simp

text \<open>Storing a reference in a slot, or taking one out, by cases.\<close>

lemma refs_slot:
  assumes "finite (dom T)" "T p = Some t" "i < length t"
  shows "refs (T(p \<mapsto> t[i := v])) f + (if t ! i = Some f then 1 else 0)
    = refs T f + (if v = Some f then 1 else 0)"
  using refs_upd [OF assms(1,2), of "t[i := v]" f] count_update [OF assms(3), of v "Some f"] by simp

text \<open>
  A lookup that succeeds yields an open file that is there and whose lock is free.
\<close>

lemma get_live:
  assumes "fdworld_ok y" "tables y p = Some t" "filetable_get t fd = Inr f"
  obtains fl where "of_heap (wfiles y) f = Some fl" "\<not> of_offsetlock fl" "t ! nat fd = Some f"
    "nat fd < length t" "0 < refs (tables y) f"
proof -
  have t: "t ! nat fd = Some f" "nat fd < length t"
    using assms fdworld_okD(2) [OF assms(1,2)]
    by (auto simp: filetable_get_def filetable_okfd_def kdefs split: if_splits option.splits)
  then have "0 < count_list t (Some f)" by (metis count_list_0_iff gr0I nth_mem)
  then have "0 < refs (tables y) f" using refs_split [OF fdworld_okD(1) [OF assms(1)] assms(2), of f] by simp
  moreover note fok = fdworld_okD(3) [OF assms(1)]
  ultimately obtain fl where "of_heap (wfiles y) f = Some fl" using files_ok_live [OF fok] by blast
  then show ?thesis using that t files_okD(2) [OF fok] \<open>0 < refs (tables y) f\<close> by blast
qed

lemma lock_of_eq:
  "of_heap w f = Some fl \<Longrightarrow> \<not> of_offsetlock fl \<Longrightarrow> lock_of f w = Some (of_upd f (fl\<lparr>of_offsetlock := True\<rparr>) w)"
  by (simp add: lock_of_def)

lemma unlock_of_eq:
  assumes "of_heap w f = Some fl" "\<not> of_offsetlock fl"
  shows "unlock_of f (of_upd f (fl\<lparr>of_offsetlock := True\<rparr>) w) = Some w"
    "unlock_of f (of_upd f (fl\<lparr>of_offsetlock := True, of_offset := x\<rparr>) w) = Some (of_upd f (fl\<lparr>of_offset := x\<rparr>) w)"
proof -
  have "w\<lparr>of_heap := (of_heap w)(f \<mapsto> fl)\<rparr> = w" using assms(1) by (cases w) (simp add: fun_upd_idem)
  then show "unlock_of f (of_upd f (fl\<lparr>of_offsetlock := True\<rparr>) w) = Some w"
    using assms(2) by (cases fl) (simp add: unlock_of_def)
  show "unlock_of f (of_upd f (fl\<lparr>of_offsetlock := True, of_offset := x\<rparr>) w) = Some (of_upd f (fl\<lparr>of_offset := x\<rparr>) w)"
    using assms(2) by (cases fl) (simp add: unlock_of_def)
qed

text \<open>The read and write calls, branch by branch: the lock is back where it was on all of them.\<close>

lemma sys_readwrite_eq:
  assumes "of_heap w f = Some fl" "\<not> of_offsetlock fl" "filetable_get t fd = Inr f" "t ! nat fd = Some f"
  shows "sys_readwrite V fd len rw bad t w =
    (let seek = vop_isseekable V (of_vnode fl) in
     if of_accmode fl = bad then Some (w, Inl EBADF)
     else case vop_rw V rw (of_vnode fl) (if seek then of_offset fl else 0) len of
            Inl e \<Rightarrow> Some (w, Inl e)
          | Inr (off, resid) \<Rightarrow>
              Some (if seek then of_upd f (fl\<lparr>of_offset := off\<rparr>) w else w, Inr (len - resid)))"
proof -
  note locks = lock_of_eq [OF assms(1,2)] unlock_of_eq [OF assms(1,2)]
  show ?thesis
  proof (cases "vop_isseekable V (of_vnode fl)")
    case True
    then show ?thesis
      using assms locks
      by (cases "vop_rw V rw (of_vnode fl) (of_offset fl) len") (auto simp: sys_readwrite_def filetable_put_def Let_def)
  next
    case False
    then show ?thesis
      using assms
      by (cases "vop_rw V rw (of_vnode fl) 0 len") (auto simp: sys_readwrite_def filetable_put_def Let_def)
  qed
qed

lemma sys_lseek_eq:
  assumes "of_heap w f = Some fl" "\<not> of_offsetlock fl" "filetable_get t fd = Inr f" "t ! nat fd = Some f"
  shows "sys_lseek V fd offset whence t w =
    (if \<not> vop_isseekable V (of_vnode fl) then Some (w, Inl ESPIPE)
     else case seek_target V fl offset whence of
            Inl e \<Rightarrow> Some (w, Inl e)
          | Inr pos \<Rightarrow>
              if pos < 0 then Some (w, Inl EINVAL)
              else Some (of_upd f (fl\<lparr>of_offset := pos\<rparr>) w, Inr pos))"
proof -
  note locks = lock_of_eq [OF assms(1,2)] unlock_of_eq [OF assms(1,2)]
  show ?thesis
  proof (cases "seek_target V fl offset whence")
    case (Inl e)
    then show ?thesis using assms locks by (simp add: sys_lseek_def filetable_put_def)
  next
    case (Inr pos)
    then show ?thesis using assms locks by (simp add: sys_lseek_def filetable_put_def)
  qed
qed

section \<open>Any program of system calls\<close>

datatype fd_event =
    FOpen nat bool bool bool "errno + string" int
  | FClose nat int
  | FDup2 nat int int
  | FRead nat int nat
  | FWrite nat int nat
  | FSeek nat int int int
  | FFork nat nat bool
  | FExit nat

datatype fd_res = RInt "errno + int" | RNat "errno + nat" | RUnit "errno + unit"

text \<open>
  \<open>FFork p c\<close> is the file table part of \<^verbatim>\<open>proc_fork\<close>, \<open>FExit p\<close> that of \<^verbatim>\<open>proc_destroy\<close>.
  \<open>None\<close> is a panic, or a call by a process without a table.
\<close>

fun fd_do :: "vfs_open \<Rightarrow> vnops \<Rightarrow> fd_event \<Rightarrow> fdworld \<Rightarrow> (fdworld \<times> fd_res) option" where
  "fd_do vfs V (FOpen p m m1 m2 upath flags) y =
     do {
       t \<leftarrow> tables y p;
       (t, w, r) \<leftarrow> sys_open vfs m m1 m2 upath flags t (wfiles y);
       Some (y\<lparr>wfiles := w, tables := (tables y)(p \<mapsto> t)\<rparr>, RInt r)
     }"
| "fd_do vfs V (FClose p fd) y =
     do {
       t \<leftarrow> tables y p;
       (t, w, r) \<leftarrow> sys_close fd t (wfiles y);
       Some (y\<lparr>wfiles := w, tables := (tables y)(p \<mapsto> t)\<rparr>, RUnit r)
     }"
| "fd_do vfs V (FDup2 p oldfd newfd) y =
     do {
       t \<leftarrow> tables y p;
       (t, w, r) \<leftarrow> sys_dup2 oldfd newfd t (wfiles y);
       Some (y\<lparr>wfiles := w, tables := (tables y)(p \<mapsto> t)\<rparr>, RInt r)
     }"
| "fd_do vfs V (FRead p fd len) y =
     do {
       t \<leftarrow> tables y p;
       (w, r) \<leftarrow> sys_read V fd len t (wfiles y);
       Some (y\<lparr>wfiles := w\<rparr>, RNat r)
     }"
| "fd_do vfs V (FWrite p fd len) y =
     do {
       t \<leftarrow> tables y p;
       (w, r) \<leftarrow> sys_write V fd len t (wfiles y);
       Some (y\<lparr>wfiles := w\<rparr>, RNat r)
     }"
| "fd_do vfs V (FSeek p fd off whence) y =
     do {
       t \<leftarrow> tables y p;
       (w, r) \<leftarrow> sys_lseek V fd off whence t (wfiles y);
       Some (y\<lparr>wfiles := w\<rparr>, RInt r)
     }"
| "fd_do vfs V (FFork p c m) y =
     do {
       t \<leftarrow> tables y p;
       (w, r) \<leftarrow> filetable_copy m (Some t) (wfiles y);
       Some (case r of
               Inl e \<Rightarrow> (y\<lparr>wfiles := w\<rparr>, RUnit (Inl e))
             | Inr t' \<Rightarrow> (y\<lparr>wfiles := w, tables := (tables y)(c := t')\<rparr>, RUnit (Inr ())))
     }"
| "fd_do vfs V (FExit p) y =
     do {
       t \<leftarrow> tables y p;
       w \<leftarrow> filetable_destroy t (wfiles y);
       Some (y\<lparr>wfiles := w, tables := (tables y)(p := None)\<rparr>, RUnit (Inr ()))
     }"

fun fd_enabled :: "fd_event \<Rightarrow> fdworld \<Rightarrow> bool" where
  "fd_enabled (FOpen p m m1 m2 upath flags) y \<longleftrightarrow> tables y p \<noteq> None"
| "fd_enabled (FClose p fd) y \<longleftrightarrow> tables y p \<noteq> None"
| "fd_enabled (FDup2 p oldfd newfd) y \<longleftrightarrow> tables y p \<noteq> None"
| "fd_enabled (FRead p fd len) y \<longleftrightarrow> tables y p \<noteq> None"
| "fd_enabled (FWrite p fd len) y \<longleftrightarrow> tables y p \<noteq> None"
| "fd_enabled (FSeek p fd off whence) y \<longleftrightarrow> tables y p \<noteq> None"
| "fd_enabled (FFork p c m) y \<longleftrightarrow> tables y p \<noteq> None \<and> tables y c = None"
| "fd_enabled (FExit p) y \<longleftrightarrow> tables y p \<noteq> None"

lemma fdworld_ok_slot:
  assumes "fdworld_ok y" "tables y p = Some t" "length t' = 128"
    "files_ok w (refs ((tables y)(p \<mapsto> t')))"
  shows "fdworld_ok (y\<lparr>wfiles := w, tables := (tables y)(p \<mapsto> t')\<rparr>)"
  using assms by (auto simp: fdworld_ok_def)

lemma fdworld_same: "tables y p = Some t \<Longrightarrow> y\<lparr>wfiles := wfiles y, tables := (tables y)(p \<mapsto> t)\<rparr> = y"
  by (cases y) (simp add: fun_upd_idem)

lemma close_world:
  assumes ok: "fdworld_ok y" and t: "tables y p = Some t"
  shows "\<exists>y' r. fd_do vfs V (FClose p fd) y = Some (y', RUnit r) \<and> fdworld_ok y' \<and>
    (case filetable_get t fd of
       Inl e \<Rightarrow> r = Inl EBADF \<and> tables y' p = Some t
     | Inr f \<Rightarrow> r = Inr () \<and> tables y' p = Some (t[nat fd := None]))"
proof (cases "filetable_get t fd")
  case (Inl e)
  have upd: "t[nat fd := None] = t" if "t ! nat fd = None" using that by (metis list_update_id)
  have "sys_close fd t (wfiles y) = Some (t, wfiles y, Inl EBADF)"
    using Inl upd
    by (auto simp: sys_close_def filetable_get_def filetable_placeat_def split: if_splits option.splits)
  then have "fd_do vfs V (FClose p fd) y = Some (y, RUnit (Inl EBADF))"
    using t fdworld_same [OF t] by simp
  then show ?thesis using t ok Inl by (simp del: fd_do.simps)
next
  case (Inr f)
  have i: "t ! nat fd = Some f" "nat fd < length t" "0 < refs (tables y) f"
    by (rule get_live [OF ok t Inr], assumption)+
  have len: "length (t[nat fd := None]) = 128" using fdworld_okD(2) [OF ok t] by simp
  obtain w' where w': "openfile_decref f (wfiles y) = Some w'"
    "files_ok w' ((refs (tables y))(f := refs (tables y) f - 1))"
    using decref_ok [OF fdworld_okD(3) [OF ok] i(3)] by blast
  have "refs ((tables y)(p \<mapsto> t[nat fd := None])) = (refs (tables y))(f := refs (tables y) f - 1)"
  proof
    fix g
    show "refs ((tables y)(p \<mapsto> t[nat fd := None])) g = ((refs (tables y))(f := refs (tables y) f - 1)) g"
      using refs_slot [OF fdworld_okD(1) [OF ok] t i(2), of None g] i(1) by auto
  qed
  then have "fdworld_ok (y\<lparr>wfiles := w', tables := (tables y)(p \<mapsto> t[nat fd := None])\<rparr>)"
    using fdworld_ok_slot [OF ok t len] w'(2) by simp
  moreover have "sys_close fd t (wfiles y) = Some (t[nat fd := None], w', Inr ())"
    using Inr i w'(1) by (auto simp: sys_close_def filetable_get_def filetable_placeat_def split: if_splits)
  ultimately show ?thesis using t Inr by simp
qed

lemma filetable_place_eq:
  assumes "length t = 128"
  obtains (full) "filetable_place t f = (t, Inl EMFILE)" "\<forall>i<128. t ! i \<noteq> None"
  | (placed) i where "filetable_place t f = (t[i := Some f], Inr (int i))" "i < 128" "t ! i = None"
      "\<forall>j<i. t ! j \<noteq> None"
proof (cases "find (\<lambda>fd. t ! fd = None) [0..<OPEN_MAX]")
  case None
  then have "\<forall>i<128. t ! i \<noteq> None" by (simp add: OPEN_MAX_def)
  moreover have "filetable_place t f = (t, Inl EMFILE)" unfolding filetable_place_def None by simp
  ultimately show ?thesis using full by blast
next
  case (Some i)
  then have "i < 128" "t ! i = None" "\<forall>j<i. t ! j \<noteq> None" by (simp_all add: OPEN_MAX_def)
  moreover have "filetable_place t f = (t[i := Some f], Inr (int i))" unfolding filetable_place_def Some by simp
  ultimately show ?thesis using placed by blast
qed

text \<open>
  \<open>open\<close>: the error that the call has to return, if any, in the order of the checks; otherwise the descriptor
  is the least free one, and it refers to a new open file at offset 0.
\<close>

definition open_error ::
    "vfs_open \<Rightarrow> bool \<Rightarrow> bool \<Rightarrow> bool \<Rightarrow> errno + string \<Rightarrow> int \<Rightarrow> filetable \<Rightarrow> errno option" where
  "open_error vfs m m1 m2 upath flags t =
     (if flags AND O_ALLFLAGS \<noteq> flags then Some EINVAL
      else if \<not> m then Some ENOMEM
      else case upath of
             Inl e \<Rightarrow> Some e
           | Inr path \<Rightarrow>
               (case vfs path flags of
                  Inl e \<Rightarrow> Some e
                | Inr vn \<Rightarrow>
                    if \<not> (m1 \<and> m2) then Some ENOMEM
                    else if None \<notin> set t then Some EMFILE
                    else None))"

text \<open>A new open file that finds no descriptor is destroyed again, and its vnode closed.\<close>

lemma decref_new:
  assumes "files_ok w cnt" "cnt f = 0" "files_ok w' (cnt(f := 1))" "of_heap w' = (of_heap w)(f \<mapsto> new_openfile vn a)"
    "vn_opens w' = (vn_opens w)(vn := vn_opens w vn + 1)"
  obtains w'' where "openfile_decref f w' = Some w''" "files_ok w'' cnt" "of_heap w'' = of_heap w" "vn_opens w'' = vn_opens w"
proof -
  obtain w'' where w'': "openfile_decref f w' = Some w''" "files_ok w'' cnt"
    using decref_ok [OF assms(3), of f] assms(2) by (auto simp: fun_upd_idem)
  have "of_heap w f = None" using files_ok_live [OF assms(1), of f] assms(2) by simp
  then have "of_heap w'' = of_heap w" "vn_opens w'' = vn_opens w"
    using w''(1) assms(4,5) by (auto simp: openfile_decref_def openfile_destroy_def vfs_close_def new_openfile_def fun_upd_idem)
  then show ?thesis using that w'' by blast
qed

lemma open_world:
  assumes vfs: "vfs_open_ok vfs" and ok: "fdworld_ok y" and t: "tables y p = Some t"
  shows "\<exists>y' r. fd_do vfs V (FOpen p m m1 m2 upath flags) y = Some (y', RInt r) \<and> fdworld_ok y' \<and>
    (case open_error vfs m m1 m2 upath flags t of
       Some e \<Rightarrow> r = Inl e \<and> tables y' = tables y \<and> of_heap (wfiles y') = of_heap (wfiles y) \<and>
         vn_opens (wfiles y') = vn_opens (wfiles y)
     | None \<Rightarrow> \<exists>i f vn path. upath = Inr path \<and> vfs path flags = Inr vn \<and> r = Inr (int i) \<and> i < 128 \<and>
         t ! i = None \<and> (\<forall>j<i. t ! j \<noteq> None) \<and> tables y' = (tables y)(p \<mapsto> t[i := Some f]) \<and>
         of_heap (wfiles y) f = None \<and>
         of_heap (wfiles y') = (of_heap (wfiles y))(f \<mapsto> new_openfile vn (flags AND O_ACCMODE)) \<and>
         vn_opens (wfiles y') = (vn_opens (wfiles y))(vn := vn_opens (wfiles y) vn + 1))"
proof -
  note fok = fdworld_okD(3) [OF ok] and len = fdworld_okD(2) [OF ok t]
  have err: ?thesis
    if "sys_open vfs m m1 m2 upath flags t (wfiles y) = Some (t, wfiles y, Inl e)"
      "open_error vfs m m1 m2 upath flags t = Some e" for e
  proof -
    have "fd_do vfs V (FOpen p m m1 m2 upath flags) y = Some (y, RInt (Inl e))"
      using that t fdworld_same [OF t] by simp
    then show ?thesis using ok t that(2) by (simp del: fd_do.simps)
  qed
  show ?thesis
  proof (cases "\<exists>path. flags AND O_ALLFLAGS = flags \<and> m \<and> upath = Inr path")
    case False
    let ?e = "if flags AND O_ALLFLAGS \<noteq> flags then EINVAL else if \<not> m then ENOMEM else projl upath"
    have "sys_open vfs m m1 m2 upath flags t (wfiles y) = Some (t, wfiles y, Inl ?e)"
      "open_error vfs m m1 m2 upath flags t = Some ?e"
      using False by (cases upath; simp add: sys_open_def open_error_def)+
    then show ?thesis by (rule err)
  next
    case True
    then obtain path where path: "upath = Inr path" by blast
    from vfs fok show ?thesis
    proof (cases rule: openfile_open_ok [where ?m1.0 = m1 and ?m2.0 = m2 and path = path and flags = flags])
      case (error e)
      then show ?thesis using True path by (intro err [of e]) (auto simp: sys_open_def open_error_def)
    next
      case (opened w' f vn)
      have none: "of_heap (wfiles y) f = None" using files_ok_live [OF fok, of f] opened(3) by auto
      from len show ?thesis
      proof (cases rule: filetable_place_eq [where f = f])
        case full
        obtain w'' where w'': "openfile_decref f w' = Some w''" "files_ok w'' (refs (tables y))"
          "of_heap w'' = of_heap (wfiles y)" "vn_opens w'' = vn_opens (wfiles y)"
          by (rule decref_new [OF fok opened(3-5,8)])
        have "None \<notin> set t" using full(2) len by (auto simp: in_set_conv_nth)
        then have "open_error vfs m m1 m2 upath flags t = Some EMFILE"
          using True path opened(2,6,7) by (auto simp: open_error_def)
        moreover have "sys_open vfs m m1 m2 upath flags t (wfiles y) = Some (t, w'', Inl EMFILE)"
          using True path opened(1) full w''(1) by (simp add: sys_open_def)
        moreover have "fdworld_ok (y\<lparr>wfiles := w'', tables := (tables y)(p \<mapsto> t)\<rparr>)"
          using fdworld_ok_slot [OF ok t len] w''(2) t by (simp add: fun_upd_idem)
        ultimately show ?thesis using t w''(3,4) by (simp add: fun_upd_idem)
      next
        case (placed i)
        have "refs ((tables y)(p \<mapsto> t[i := Some f])) = (refs (tables y))(f := 1)"
        proof
          fix g
          show "refs ((tables y)(p \<mapsto> t[i := Some f])) g = ((refs (tables y))(f := 1)) g"
            using refs_slot [OF fdworld_okD(1) [OF ok] t, of i "Some f" g] placed(2,3) len opened(3) by auto
        qed
        then have "fdworld_ok (y\<lparr>wfiles := w', tables := (tables y)(p \<mapsto> t[i := Some f])\<rparr>)"
          using fdworld_ok_slot [OF ok t, of "t[i := Some f]" w'] len opened(4) by simp
        moreover have "sys_open vfs m m1 m2 upath flags t (wfiles y) = Some (t[i := Some f], w', Inr (int i))"
          using True path opened(1) placed(1) by (simp add: sys_open_def)
        moreover have "None \<in> set t" using placed(2,3) len by (metis nth_mem)
        then have "open_error vfs m m1 m2 upath flags t = None"
          using True path opened(2,6,7) by (auto simp: open_error_def)
        ultimately show ?thesis using t placed none opened(2,5,8) path by simp (blast intro: exI [of _ f])
      qed
    qed
  qed
qed

text \<open>\<open>dup2\<close>: the new descriptor refers to the open file of the old one; the others stay.\<close>

lemma dup2_world:
  assumes ok: "fdworld_ok y" and t: "tables y p = Some t"
  shows "\<exists>y' r. fd_do vfs V (FDup2 p oldfd newfd) y = Some (y', RInt r) \<and> fdworld_ok y' \<and>
    (if \<not> filetable_okfd t newfd then r = Inl EBADF \<and> y' = y
     else if oldfd = newfd then r = Inr newfd \<and> y' = y
     else case filetable_get t oldfd of
            Inl e \<Rightarrow> r = Inl e \<and> y' = y
          | Inr f \<Rightarrow> r = Inr newfd \<and> tables y' = (tables y)(p \<mapsto> t[nat newfd := Some f]) \<and>
              content (wfiles y') f = content (wfiles y) f)"
proof (cases "filetable_okfd t newfd \<and> oldfd \<noteq> newfd \<and> (\<exists>f. filetable_get t oldfd = Inr f)")
  case False
  then have "\<exists>r. sys_dup2 oldfd newfd t (wfiles y) = Some (t, wfiles y, r)"
    by (auto simp: sys_dup2_def split: sum.splits)
  then show ?thesis using t ok fdworld_same [OF t] False by (auto simp: sys_dup2_def split: sum.splits)
next
  case True
  then obtain f where f: "filetable_get t oldfd = Inr f" and new: "filetable_okfd t newfd" "oldfd \<noteq> newfd" by blast
  let ?T = "tables y" and ?i = "nat newfd"
  note fok = fdworld_okD(3) [OF ok]
  have old: "t ! nat oldfd = Some f" "0 < refs ?T f" by (rule get_live [OF ok t f], assumption)+
  have i: "?i < length t" using new fdworld_okD(2) [OF ok t] by (auto simp: filetable_okfd_def OPEN_MAX_def)
  have cnt: "refs (?T(p \<mapsto> t[?i := Some f])) g + (if t ! ?i = Some g then 1 else 0)
      = refs ?T g + (if f = g then 1 else 0)" for g
    using refs_slot [OF fdworld_okD(1) [OF ok] t i, of "Some f" g] by simp
  obtain w1 where w1: "openfile_incref f (wfiles y) = Some w1" "files_ok w1 ((refs ?T)(f := refs ?T f + 1))"
    "content w1 = content (wfiles y)"
    using incref_ok [OF fok old(2)] by blast
  obtain w2 where w2: "(case t ! ?i of None \<Rightarrow> Some w1 | Some g \<Rightarrow> openfile_decref g w1) = Some w2"
    "files_ok w2 (refs (?T(p \<mapsto> t[?i := Some f])))" "content w2 f = content (wfiles y) f"
  proof (cases "t ! ?i")
    case None
    then have "(refs ?T)(f := refs ?T f + 1) = refs (?T(p \<mapsto> t[?i := Some f]))" using cnt by (auto simp: fun_eq_iff)
    then show ?thesis using that w1 None by simp
  next
    case (Some g)
    let ?c = "(refs ?T)(f := refs ?T f + 1)"
    have g: "0 < ?c g" using cnt [of g] Some by (auto split: if_splits)
    have "?c(g := ?c g - 1) = refs (?T(p \<mapsto> t[?i := Some f]))"
    proof
      fix h
      show "(?c(g := ?c g - 1)) h = refs (?T(p \<mapsto> t[?i := Some f])) h"
        using cnt [of h] Some by (auto split: if_splits)
    qed
    moreover obtain w2 where w2: "openfile_decref g w1 = Some w2" "files_ok w2 (?c(g := ?c g - 1))"
      "content w2 = (if ?c g = 1 then (content w1)(g := None) else content w1)"
      using decref_ok [OF w1(2) g] by blast
    moreover have "content w2 f = content (wfiles y) f"
      using w2(3) w1(3) old(2) by (cases "g = f") auto
    ultimately show ?thesis using that [of w2] Some by (simp only: option.simps)
  qed
  have "sys_dup2 oldfd newfd t (wfiles y) = Some (t[?i := Some f], w2, Inr newfd)"
    using new f old w1(1) w2(1) by (simp add: sys_dup2_def filetable_put_def filetable_placeat_def)
  moreover have "fdworld_ok (y\<lparr>wfiles := w2, tables := ?T(p \<mapsto> t[?i := Some f])\<rparr>)"
    using fdworld_ok_slot [OF ok t, of "t[?i := Some f]" w2] fdworld_okD(2) [OF ok t] w2(2) by simp
  ultimately show ?thesis using t f new w2(3) by simp
qed

text \<open>Reads, writes and seeks: only the offset of one open file changes.\<close>

lemma readwrite_world:
  assumes ok: "fdworld_ok y" and t: "tables y p = Some t"
  obtains w r where "sys_readwrite V fd len rw bad t (wfiles y) = Some (w, r)" "fdworld_ok (y\<lparr>wfiles := w\<rparr>)"
proof (cases "filetable_get t fd")
  case (Inl e)
  then show ?thesis using that [of "wfiles y" "Inl e"] ok by (simp add: sys_readwrite_def)
next
  case (Inr f)
  obtain fl where fl: "of_heap (wfiles y) f = Some fl" "\<not> of_offsetlock fl" "t ! nat fd = Some f"
    by (rule get_live [OF ok t Inr])
  note fok = fdworld_okD(3) [OF ok]
  note inv = files_okD(2) [OF fok fl(1)]
  have upd: "fdworld_ok (y\<lparr>wfiles := of_upd f (fl\<lparr>of_offset := x\<rparr>) (wfiles y)\<rparr>)" for x
    using files_ok_upd [OF fok fl(1), of "fl\<lparr>of_offset := x\<rparr>" "refs (tables y) f"] inv ok
    by (auto simp: fdworld_ok_def)
  have same: "fdworld_ok (y\<lparr>wfiles := wfiles y\<rparr>)" using ok by simp
  let ?seek = "vop_isseekable V (of_vnode fl)"
  show ?thesis
  proof (cases "of_accmode fl = bad")
    case True
    then show ?thesis using that sys_readwrite_eq [OF fl(1,2) Inr fl(3)] same by simp
  next
    case False
    show ?thesis
    proof (cases "vop_rw V rw (of_vnode fl) (if ?seek then of_offset fl else 0) len")
      case (Inl e)
      then show ?thesis using that sys_readwrite_eq [OF fl(1,2) Inr fl(3)] same False by (simp add: Let_def)
    next
      case off: (Inr z)
      then show ?thesis
        using that [of "if ?seek then of_upd f (fl\<lparr>of_offset := fst z\<rparr>) (wfiles y) else wfiles y"]
          sys_readwrite_eq [OF fl(1,2) Inr fl(3), of V len rw bad] same upd False
        by (cases z) (simp add: Let_def)
    qed
  qed
qed

lemma lseek_world:
  assumes ok: "fdworld_ok y" and t: "tables y p = Some t"
  obtains w r where "sys_lseek V fd off whence t (wfiles y) = Some (w, r)" "fdworld_ok (y\<lparr>wfiles := w\<rparr>)"
proof (cases "filetable_get t fd")
  case (Inl e)
  then show ?thesis using that [of "wfiles y" "Inl e"] ok by (simp add: sys_lseek_def)
next
  case (Inr f)
  obtain fl where fl: "of_heap (wfiles y) f = Some fl" "\<not> of_offsetlock fl" "t ! nat fd = Some f"
    by (rule get_live [OF ok t Inr])
  note fok = fdworld_okD(3) [OF ok]
  note inv = files_okD(2) [OF fok fl(1)]
  have upd: "fdworld_ok (y\<lparr>wfiles := of_upd f (fl\<lparr>of_offset := x\<rparr>) (wfiles y)\<rparr>)" for x
    using files_ok_upd [OF fok fl(1), of "fl\<lparr>of_offset := x\<rparr>" "refs (tables y) f"] inv ok
    by (auto simp: fdworld_ok_def)
  have same: "fdworld_ok (y\<lparr>wfiles := wfiles y\<rparr>)" using ok by simp
  note eq = sys_lseek_eq [OF fl(1,2) Inr fl(3), of V off whence]
  show ?thesis
  proof (cases "vop_isseekable V (of_vnode fl)")
    case False
    then show ?thesis using that eq same by simp
  next
    case True
    then show ?thesis using that eq same upd
      by (cases "seek_target V fl off whence") (auto split: if_splits)
  qed
qed

text \<open>
  \<open>fork\<close>: the child's table is the parent's, entry for entry, with one more reference to each
  open file; contents are shared, not copied.
\<close>

lemma fork_world:
  assumes ok: "fdworld_ok y" and t: "tables y p = Some t" and c: "tables y c = None"
  shows "\<exists>y' r. fd_do vfs V (FFork p c m) y = Some (y', RUnit r) \<and> fdworld_ok y' \<and>
    (if m then r = Inr () \<and> tables y' = (tables y)(c \<mapsto> t) \<and> content (wfiles y') = content (wfiles y)
     else r = Inl ENOMEM \<and> y' = y)"
proof (cases m)
  case False
  then show ?thesis using t ok by (simp add: filetable_copy_def filetable_create_def)
next
  case True
  let ?T = "tables y"
  have "\<forall>f\<in>set (held t). 0 < refs ?T f"
  proof
    fix f assume "f \<in> set (held t)"
    then have "0 < count_list t (Some f)" by (metis count_list_0_iff gr0I set_held)
    then show "0 < refs ?T f" using refs_split [OF fdworld_okD(1) [OF ok] t, of f] by simp
  qed
  then obtain w where w: "ofr.each openfile_incref (held t) (wfiles y) = Some w"
    "files_ok w (\<lambda>f. refs ?T f + count_list (held t) f)" "content w = content (wfiles y)"
    using ofr.incref_each [OF fdworld_okD(3) [OF ok]] by blast
  have "refs (?T(c \<mapsto> t)) f = refs ?T f + count_list (held t) f" for f
  proof -
    have "?T(c := None) = ?T" using c by (simp add: fun_upd_idem)
    then show ?thesis
      using refs_split [of "?T(c \<mapsto> t)" c t f] fdworld_okD(1) [OF ok] by (simp add: count_held)
  qed
  then have "files_ok w (refs (?T(c \<mapsto> t)))" using w(2) by (metis (no_types, lifting) ext)
  then have "fdworld_ok (y\<lparr>wfiles := w, tables := ?T(c \<mapsto> t)\<rparr>)"
    using ok t by (auto simp: fdworld_ok_def)
  then show ?thesis
    using t True w by (simp add: filetable_copy_def filetable_create_def share_all_each)
qed

text \<open>\<open>exit\<close>: every reference of the table is given back.\<close>

lemma exit_world:
  assumes ok: "fdworld_ok y" and t: "tables y p = Some t"
  shows "\<exists>y'. fd_do vfs V (FExit p) y = Some (y', RUnit (Inr ())) \<and> fdworld_ok y' \<and>
    tables y' = (tables y)(p := None)"
proof -
  let ?T = "tables y"
  have split: "refs ?T f = count_list (held t) f + refs (?T(p := None)) f" for f
    using refs_split [OF fdworld_okD(1) [OF ok] t, of f] by (simp add: count_held)
  then have "\<forall>f. count_list (held t) f \<le> refs ?T f" by simp
  then obtain w where w: "ofr.each openfile_decref (held t) (wfiles y) = Some w"
    "files_ok w (\<lambda>f. refs ?T f - count_list (held t) f)"
    using ofr.decref_each [OF fdworld_okD(3) [OF ok]] by blast
  have "refs ?T f - count_list (held t) f = refs (?T(p := None)) f" for f using split [of f] by simp
  then have "files_ok w (refs (?T(p := None)))" using w(2) by simp
  then have "fdworld_ok (y\<lparr>wfiles := w, tables := ?T(p := None)\<rparr>)"
    using ok by (auto simp: fdworld_ok_def split: if_splits)
  then show ?thesis using t w(1) by (simp add: filetable_destroy_def decref_all_each)
qed

lemma fd_do_total:
  assumes "vfs_open_ok vfs" "fdworld_ok y" "fd_enabled e y"
  shows "\<exists>y' r. fd_do vfs V e y = Some (y', r) \<and> fdworld_ok y'"
proof (cases e)
  case (FOpen p m m1 m2 upath flags)
  then obtain t where t: "tables y p = Some t" using assms(3) by auto
  then show ?thesis using open_world [OF assms(1,2) t] FOpen by blast
next
  case (FClose p fd)
  then obtain t where t: "tables y p = Some t" using assms(3) by auto
  then show ?thesis using close_world [OF assms(2) t] FClose by blast
next
  case (FDup2 p a b)
  then obtain t where t: "tables y p = Some t" using assms(3) by auto
  then show ?thesis using dup2_world [OF assms(2) t] FDup2 by blast
next
  case (FRead p fd len)
  then obtain t where t: "tables y p = Some t" using assms(3) by auto
  show ?thesis by (rule readwrite_world [OF assms(2) t, of V fd len UIO_READ O_WRONLY]) (simp add: FRead t sys_read_def)
next
  case (FWrite p fd len)
  then obtain t where t: "tables y p = Some t" using assms(3) by auto
  show ?thesis by (rule readwrite_world [OF assms(2) t, of V fd len UIO_WRITE O_RDONLY]) (simp add: FWrite t sys_write_def)
next
  case (FSeek p fd off wh)
  then obtain t where t: "tables y p = Some t" using assms(3) by auto
  show ?thesis by (rule lseek_world [OF assms(2) t, of V fd off wh]) (simp add: FSeek t)
next
  case (FFork p c m)
  then obtain t where t: "tables y p = Some t" "tables y c = None" using assms(3) by auto
  then show ?thesis using fork_world [OF assms(2) t] FFork by blast
next
  case (FExit p)
  then obtain t where t: "tables y p = Some t" using assms(3) by auto
  then show ?thesis using exit_world [OF assms(2) t] FExit by blast
qed

inductive fd_steps :: "vfs_open \<Rightarrow> vnops \<Rightarrow> fdworld \<Rightarrow> fd_event list \<Rightarrow> fdworld \<Rightarrow> bool"
  for vfs :: vfs_open and V :: vnops where
  fd_steps_Nil: "fd_steps vfs V y [] y"
| fd_steps_Cons: "fd_enabled e y \<Longrightarrow> fd_do vfs V e y = Some (y', r) \<Longrightarrow> fd_steps vfs V y' es y'' \<Longrightarrow>
    fd_steps vfs V y (e # es) y''"

lemma fd_steps_ok: "fd_steps vfs V y es y' \<Longrightarrow> vfs_open_ok vfs \<Longrightarrow> fdworld_ok y \<Longrightarrow> fdworld_ok y'"
proof (induction rule: fd_steps.induct)
  case (fd_steps_Cons e y y' r es y'')
  then show ?case using fd_do_total [of vfs y e V] by simp
qed

text \<open>Processes with empty tables and no open file, as after boot.\<close>

definition fd_boot :: "nat list \<Rightarrow> fdworld" where
  "fd_boot ps =
     \<lparr>wfiles = \<lparr>of_heap = Map.empty, of_fresh = 0, vn_opens = (\<lambda>_. 0)\<rparr>,
      tables = (\<lambda>p. if p \<in> set ps then Some (replicate OPEN_MAX None) else None)\<rparr>"

lemma fd_boot_ok: "fdworld_ok (fd_boot ps)"
proof -
  have "dom (tables (fd_boot ps)) \<subseteq> set ps" by (auto simp: fd_boot_def split: if_splits)
  then have "finite (dom (tables (fd_boot ps)))" using finite_subset by blast
  moreover have "count_list (the (tables (fd_boot ps) p)) (Some f) = 0" if "p \<in> dom (tables (fd_boot ps))" for p f
    using that by (auto simp: fd_boot_def count_list_0_iff split: if_splits)
  then have "refs (tables (fd_boot ps)) f = 0" for f unfolding refs_def by simp
  then have "files_ok (wfiles (fd_boot ps)) (refs (tables (fd_boot ps)))"
    by (simp add: files_ok_def) (simp add: fd_boot_def)
  ultimately show ?thesis by (auto simp: fdworld_ok_def fd_boot_def OPEN_MAX_def split: if_splits)
qed

section \<open>Properties\<close>

text \<open>
  C4. Reference counts are exact: start from any processes with empty tables and run any
  sequence of open, close, dup2, read, write, lseek, fork and exit by any of them, with any
  arguments and with memory running out anywhere. No call panics or uses a freed open file, and
  after each call the count of every open file is the number of descriptors that refer to it,
  over all processes, an open file exists exactly while that number is positive, its seek lock
  is free, and each vnode has one open per open file.
\<close>

theorem fd_refcounts_exact:
  assumes "vfs_open_ok vfs" "fd_steps vfs V (fd_boot ps) es y" "fd_enabled e y"
  shows "\<exists>y' r. fd_do vfs V e y = Some (y', r) \<and>
    (\<forall>f. of_heap (wfiles y') f = None \<longrightarrow> refs (tables y') f = 0) \<and>
    (\<forall>f fl. of_heap (wfiles y') f = Some fl \<longrightarrow>
       of_refcount fl = int (refs (tables y') f) \<and> 0 < refs (tables y') f \<and> \<not> of_offsetlock fl) \<and>
    (\<forall>v. vn_opens (wfiles y') v = card {f. \<exists>fl. of_heap (wfiles y') f = Some fl \<and> of_vnode fl = v})"
proof -
  have "fdworld_ok y" using fd_steps_ok [OF assms(2,1) fd_boot_ok] .
  then obtain y' r where "fd_do vfs V e y = Some (y', r)" "fdworld_ok y'"
    using fd_do_total assms(1,3) by blast
  then show ?thesis using fdworld_okD(3) unfolding files_ok_def by blast
qed

definition vfs_demo :: vfs_open where
  "vfs_demo path flags = (if flags AND O_ACCMODE \<in> {0, 1, 2} then Inr (length path) else Inl EINVAL)"

definition vnops_demo :: vnops where
  "vnops_demo = \<lparr>vop_isseekable = (\<lambda>v. True),
     vop_rw = (\<lambda>rw v pos n. Inr (pos + int (min n 10), n - min n 10)), vop_stat = (\<lambda>v. Inr 100)\<rparr>"

lemma vfs_demo_ok: "vfs_open_ok vfs_demo"
  by (auto simp: vfs_open_ok_def vfs_demo_def kdefs split: if_splits)

abbreviation demo_open :: fd_event where
  "demo_open \<equiv> FOpen 1 True True True (Inr ''a'') 2"

lemma demo_run:
  obtains y r where "fd_enabled demo_open (fd_boot [1])"
    "fd_do vfs_demo vnops_demo demo_open (fd_boot [1]) = Some (y, RInt r)" "fdworld_ok y"
    "tables y 1 \<noteq> None" "\<forall>q. q \<noteq> 1 \<longrightarrow> tables y q = None"
proof -
  let ?t = "replicate OPEN_MAX None"
  have t: "tables (fd_boot [1]) 1 = Some ?t" by (simp add: fd_boot_def)
  then have en: "fd_enabled demo_open (fd_boot [1])" by simp
  obtain y r where y: "fd_do vfs_demo vnops_demo demo_open (fd_boot [1]) = Some (y, RInt r)" "fdworld_ok y"
    using open_world [OF vfs_demo_ok fd_boot_ok t] by blast
  from y(1) have "tables y 1 \<noteq> None" "\<forall>q. q \<noteq> 1 \<longrightarrow> tables y q = None"
    by (auto simp: fd_boot_def bind_eq_Some_conv)
  then show ?thesis using that en y by blast
qed

theorem fd_refcounts_exact_witness:
  "\<exists>y y' r. fd_steps vfs_demo vnops_demo (fd_boot [1]) [demo_open] y \<and>
     fd_do vfs_demo vnops_demo (FFork 1 2 True) y = Some (y', r) \<and>
     (\<forall>f fl. of_heap (wfiles y') f = Some fl \<longrightarrow> of_refcount fl = int (refs (tables y') f))"
proof -
  obtain y r where y: "fd_enabled demo_open (fd_boot [1])"
    "fd_do vfs_demo vnops_demo demo_open (fd_boot [1]) = Some (y, RInt r)"
    "tables y 1 \<noteq> None" "\<forall>q. q \<noteq> 1 \<longrightarrow> tables y q = None"
    by (rule demo_run)
  then have steps: "fd_steps vfs_demo vnops_demo (fd_boot [1]) [demo_open] y"
    by (intro fd_steps_Cons [OF y(1,2)] fd_steps_Nil)
  have "fd_enabled (FFork 1 2 True) y" using y(3,4) by simp
  from fd_refcounts_exact [OF vfs_demo_ok steps this] show ?thesis using steps by blast
qed

text \<open>
  C11. Nothing leaks: once every process has exited, no open file is left and every vnode that
  was opened has been closed as often as it was opened.
\<close>

theorem fd_no_leak:
  assumes "vfs_open_ok vfs" "fd_steps vfs V (fd_boot ps) es y" "tables y = Map.empty"
  shows "of_heap (wfiles y) = Map.empty \<and> (\<forall>v. vn_opens (wfiles y) v = 0)"
proof -
  have ok: "files_ok (wfiles y) (refs (tables y))"
    using fd_steps_ok [OF assms(2,1) fd_boot_ok] by (rule fdworld_okD)
  have "refs (tables y) f = 0" for f using assms(3) by (simp add: refs_def)
  then have none: "of_heap (wfiles y) f = None" for f using files_ok_live [OF ok, of f] by simp
  then show ?thesis using files_okD(4) [OF ok] by auto
qed

theorem fd_no_leak_witness:
  "\<exists>y. fd_steps vfs_demo vnops_demo (fd_boot [1]) [demo_open, FExit 1] y \<and>
     of_heap (wfiles y) = Map.empty \<and> (\<forall>v. vn_opens (wfiles y) v = 0)"
proof -
  obtain y r where y: "fd_enabled demo_open (fd_boot [1])"
    "fd_do vfs_demo vnops_demo demo_open (fd_boot [1]) = Some (y, RInt r)" "fdworld_ok y"
    "tables y 1 \<noteq> None" "\<forall>q. q \<noteq> 1 \<longrightarrow> tables y q = None"
    by (rule demo_run)
  then obtain t' where t': "tables y 1 = Some t'" by blast
  obtain y' where y': "fd_do vfs_demo vnops_demo (FExit 1) y = Some (y', RUnit (Inr ()))"
    "tables y' = (tables y)(1 := None)"
    using exit_world [OF y(3) t'] by blast
  have "tables y' = Map.empty" using y'(2) y(5) by auto
  moreover have "fd_enabled (FExit 1) y" using t' by simp
  then have "fd_steps vfs_demo vnops_demo (fd_boot [1]) [demo_open, FExit 1] y'"
    by (intro fd_steps_Cons [OF y(1,2)] fd_steps_Cons [OF _ y'(1)] fd_steps_Nil)
  ultimately show ?thesis using fd_no_leak [OF vfs_demo_ok] by blast
qed

text \<open>
  C22. \<open>open\<close>, on every path. It fails exactly with the first of these errors that applies, and then the tables,
  the open files and the opens of every vnode are as before: \<^verbatim>\<open>EINVAL\<close> for flags it does not know,
  \<^verbatim>\<open>ENOMEM\<close> without memory for the path, the error of the copy of the path or of \<^verbatim>\<open>vfs_open\<close>,
  \<^verbatim>\<open>ENOMEM\<close> without memory for the open file, and \<^verbatim>\<open>EMFILE\<close> when all 128 descriptors are in use (the file
  it opened is closed again). Otherwise it returns the smallest free descriptor, which now refers to a new
  open file of the vnode that \<^verbatim>\<open>vfs_open\<close> returned, at offset 0 and with the access mode asked for; the vnode
  has one more open, and no other descriptor, table or open file has changed.
\<close>

theorem sys_open_least_descriptor:
  assumes "vfs_open_ok vfs" "fdworld_ok y" "tables y p = Some t"
  shows "\<exists>y' r. fd_do vfs V (FOpen p m m1 m2 upath flags) y = Some (y', RInt r) \<and>
    (case open_error vfs m m1 m2 upath flags t of
       Some e \<Rightarrow> r = Inl e \<and> tables y' = tables y \<and> of_heap (wfiles y') = of_heap (wfiles y) \<and>
         vn_opens (wfiles y') = vn_opens (wfiles y)
     | None \<Rightarrow> \<exists>fd f vn path. upath = Inr path \<and> vfs path flags = Inr vn \<and> r = Inr (int fd) \<and> fd < OPEN_MAX \<and>
         t ! fd = None \<and> (\<forall>j<fd. t ! j \<noteq> None) \<and> tables y' = (tables y)(p \<mapsto> t[fd := Some f]) \<and>
         of_heap (wfiles y) f = None \<and>
         of_heap (wfiles y') = (of_heap (wfiles y))(f \<mapsto> new_openfile vn (flags AND O_ACCMODE)) \<and>
         vn_opens (wfiles y') = (vn_opens (wfiles y))(vn := vn_opens (wfiles y) vn + 1))"
  using open_world [OF assms, of V m m1 m2 upath flags] unfolding OPEN_MAX_def by blast

lemma demo_open_result: "\<exists>y. fd_do vfs_demo vnops_demo demo_open (fd_boot [1]) = Some (y, RInt (Inr 0))"
proof -
  have "find (\<lambda>fd. replicate OPEN_MAX (None :: nat option) ! fd = None) [0..<OPEN_MAX] = Some 0"
    by (simp add: OPEN_MAX_def)
  then have "filetable_place (replicate OPEN_MAX None) f = ((replicate OPEN_MAX None)[0 := Some f], Inr 0)" for f
    by (simp add: filetable_place_def del: find_upt_Some_iff)
  then show ?thesis
    by (simp add: sys_open_def openfile_open_def openfile_create_def vfs_demo_def fd_boot_def kdefs)
qed

theorem sys_open_least_descriptor_witness:
  "\<exists>y' f. fd_do vfs_demo vnops_demo demo_open (fd_boot [1]) = Some (y', RInt (Inr 0)) \<and>
     tables y' 1 = Some ((replicate OPEN_MAX None)[0 := Some f]) \<and>
     of_heap (wfiles y') f = Some (new_openfile 1 2)"
proof -
  have t: "tables (fd_boot [1]) 1 = Some (replicate OPEN_MAX None)" by (simp add: fd_boot_def)
  obtain y' where y': "fd_do vfs_demo vnops_demo demo_open (fd_boot [1]) = Some (y', RInt (Inr 0))"
    using demo_open_result by blast
  have "vfs_demo ''a'' 2 = Inr 1" "(2 :: int) AND O_ACCMODE = 2" by (simp_all add: vfs_demo_def kdefs)
  moreover from this have "open_error vfs_demo True True True (Inr ''a'') 2 (replicate OPEN_MAX None) = None"
    by (simp add: open_error_def kdefs)
  ultimately show ?thesis
    using sys_open_least_descriptor [OF vfs_demo_ok fd_boot_ok t, of vnops_demo True True True "Inr ''a''" 2] y'
    by (auto simp del: fd_do.simps)
qed

text \<open>
  What \<^verbatim>\<open>uiomove\<close> makes every \<^verbatim>\<open>VOP_READ\<close> and \<^verbatim>\<open>VOP_WRITE\<close> do with its uio: the offset goes up
  by as much as the residue goes down.
\<close>

definition vop_rw_ok :: "vnops \<Rightarrow> bool" where
  "vop_rw_ok V \<longleftrightarrow> (\<forall>rw v pos n off resid. vop_rw V rw v pos n = Inr (off, resid) \<longrightarrow>
     resid \<le> n \<and> off = pos + int (n - resid))"


lemma demo_read:
  obtains y f t where "fdworld_ok y" "tables y 1 = Some t" "filetable_get t 0 = Inr f" "t ! 0 = Some f"
    "length t = 128" "of_heap (wfiles y) f = Some (new_openfile 1 2)" "tables y 2 = None"
proof -
  have t: "tables (fd_boot [1]) 1 = Some (replicate OPEN_MAX None)" by (simp add: fd_boot_def)
  have v: "vfs_demo ''a'' 2 = Inr 1" "(2 :: int) AND O_ACCMODE = 2" by (simp_all add: vfs_demo_def kdefs)
  have "open_error vfs_demo True True True (Inr ''a'') 2 (replicate OPEN_MAX None) = None"
    using v by (simp add: open_error_def kdefs)
  moreover obtain y where "fd_do vfs_demo vnops_demo demo_open (fd_boot [1]) = Some (y, RInt (Inr 0))"
    using demo_open_result by blast
  ultimately obtain f where f: "fdworld_ok y" "tables y 1 = Some ((replicate OPEN_MAX None)[0 := Some f])"
    "of_heap (wfiles y) f = Some (new_openfile 1 2)"
    using open_world [OF vfs_demo_ok fd_boot_ok t, of vnops_demo True True True "Inr ''a''" 2] v
    by (auto simp del: fd_do.simps)
  have "tables y 2 = None"
    using \<open>fd_do vfs_demo vnops_demo demo_open (fd_boot [1]) = Some (y, RInt (Inr 0))\<close>
    by (auto simp: fd_boot_def bind_eq_Some_conv)
  then show ?thesis
    using that [OF f(1,2) _ _ _ f(3)] by (simp add: filetable_get_def filetable_okfd_def OPEN_MAX_def)
qed

lemma vnops_demo_ok: "vop_rw_ok vnops_demo"
  by (auto simp: vop_rw_ok_def vnops_demo_def)


text \<open>
  C28. The seek position is shared across \<open>dup2\<close> and \<open>fork\<close>: after a process has cloned a
  descriptor with \<open>dup2\<close> and forked, a seek of the child through the clone moves the position
  that the parent sees through the original descriptor.
\<close>

theorem dup2_fork_share_offset:
  assumes ok: "fdworld_ok y" "tables y p = Some t" and f: "filetable_get t oldfd = Inr f"
    and fl: "of_heap (wfiles y) f = Some fl" "vop_isseekable V (of_vnode fl)"
    and dup: "oldfd \<noteq> newfd" "fd_do vfs V (FDup2 p oldfd newfd) y = Some (y1, RInt (Inr newfd))"
    and fork: "c \<noteq> p" "tables y c = None" "fd_do vfs V (FFork p c True) y1 = Some (y2, RUnit (Inr ()))"
    and seek: "0 \<le> off" "off < 2 ^ 63" "fd_do vfs V (FSeek c newfd off SEEK_SET) y2 = Some (y3, r)"
  shows "r = RInt (Inr off) \<and> fd_do vfs V (FSeek p oldfd 0 SEEK_CUR) y3 = Some (y3, RInt (Inr off))"
proof -
  let ?t = "t[nat newfd := Some f]"
  have new: "filetable_okfd t newfd"
  proof (rule ccontr)
    assume "\<not> filetable_okfd t newfd"
    then show False using dup(2) ok(2) by (simp add: sys_dup2_def)
  qed
  then have y1: "fdworld_ok y1" "tables y1 = (tables y)(p \<mapsto> ?t)" "content (wfiles y1) f = content (wfiles y) f"
    using dup2_world [OF ok, of vfs V oldfd newfd] dup f by (auto simp del: fd_do.simps)
  have t1: "tables y1 p = Some ?t" "tables y1 c = None" using y1(2) fork(1,2) by simp_all
  then have y2: "fdworld_ok y2" "tables y2 = (tables y1)(c \<mapsto> ?t)" "content (wfiles y2) f = content (wfiles y) f"
    using fork_world [OF y1(1) t1, of vfs V True] fork(3) y1(3) by (auto simp del: fd_do.simps)
  have len: "length t = 128" "nat newfd < 128" "nat oldfd \<noteq> nat newfd"
    using fdworld_okD(2) [OF ok] new f dup(1)
    by (auto simp: filetable_okfd_def filetable_get_def OPEN_MAX_def split: if_splits)
  have get: "filetable_get ?t newfd = Inr f" "?t ! nat newfd = Some f"
    "filetable_get ?t oldfd = Inr f" "?t ! nat oldfd = Some f"
    using len new f by (auto simp: filetable_get_def filetable_okfd_def OPEN_MAX_def split: if_splits option.splits)
  have t2: "tables y2 c = Some ?t" "tables y2 p = Some ?t" using y2(2) t1 fork(1) by simp_all
  obtain g where g: "of_heap (wfiles y2) f = Some g" "\<not> of_offsetlock g"
    by (rule get_live [OF y2(1) t2(1) get(1)])
  then have vn: "of_vnode g = of_vnode fl"
  proof -
    have "map_option of_vnode (content (wfiles y2) f) = map_option of_vnode (content (wfiles y) f)"
      using y2(3) by simp
    then show ?thesis using g(1) fl(1) by (simp add: content_def)
  qed
  have y3: "r = RInt (Inr off)" "y3 = y2\<lparr>wfiles := of_upd f (g\<lparr>of_offset := off\<rparr>) (wfiles y2)\<rparr>"
    using seek t2(1) sys_lseek_eq [OF g get(1,2), of V off SEEK_SET] vn fl(2)
    by (simp_all add: seek_target_def)
  let ?g = "g\<lparr>of_offset := off\<rparr>"
  have h3: "of_heap (wfiles y3) f = Some ?g" "tables y3 p = Some ?t" "\<not> of_offsetlock ?g"
    using y3(2) t2(2) g(2) by simp_all
  have "s64 off = off" using seek(1,2) by (simp add: s64_def)
  then have "sys_lseek V oldfd 0 SEEK_CUR ?t (wfiles y3)
      = Some (of_upd f (?g\<lparr>of_offset := off\<rparr>) (wfiles y3), Inr off)"
    using sys_lseek_eq [OF h3(1,3) get(3,4), of V 0 SEEK_CUR] vn fl(2) seek(1)
    by (simp add: seek_target_def SEEK_SET_def SEEK_CUR_def)
  moreover have "y3\<lparr>wfiles := of_upd f (?g\<lparr>of_offset := off\<rparr>) (wfiles y3)\<rparr> = y3"
    using y3(2) by simp
  ultimately show ?thesis using y3(1) h3(2) by simp
qed

theorem dup2_fork_share_offset_witness:
  "\<exists>y t y1 y2 y3. tables y 1 = Some t \<and>
     fd_do vfs_demo vnops_demo (FDup2 1 0 7) y = Some (y1, RInt (Inr 7)) \<and>
     fd_do vfs_demo vnops_demo (FFork 1 2 True) y1 = Some (y2, RUnit (Inr ())) \<and>
     fd_do vfs_demo vnops_demo (FSeek 2 7 42 SEEK_SET) y2 = Some (y3, RInt (Inr 42)) \<and>
     fd_do vfs_demo vnops_demo (FSeek 1 0 0 SEEK_CUR) y3 = Some (y3, RInt (Inr 42))"
proof -
  obtain y f t where y: "fdworld_ok y" "tables y 1 = Some t" "filetable_get t 0 = Inr f" "t ! 0 = Some f"
    "of_heap (wfiles y) f = Some (new_openfile 1 2)" "tables y 2 = None"
    by (rule demo_read)
  have "filetable_okfd t 7" by (simp add: filetable_okfd_def OPEN_MAX_def)
  then obtain y1 where y1: "fd_do vfs_demo vnops_demo (FDup2 1 0 7) y = Some (y1, RInt (Inr 7))"
    "fdworld_ok y1" "tables y1 = (tables y)(1 \<mapsto> t[7 := Some f])"
    using dup2_world [OF y(1,2), of vfs_demo vnops_demo 0 7] y(3) by (auto simp del: fd_do.simps)
  have t1: "tables y1 1 = Some (t[7 := Some f])" "tables y1 2 = None" using y1(3) y(6) by simp_all
  obtain y2 where y2: "fd_do vfs_demo vnops_demo (FFork 1 2 True) y1 = Some (y2, RUnit (Inr ()))"
    "fdworld_ok y2" "tables y2 = (tables y1)(2 \<mapsto> t[7 := Some f])"
    using fork_world [OF y1(2) t1, of vfs_demo vnops_demo True] by (auto simp del: fd_do.simps)
  then have "tables y2 2 = Some (t[7 := Some f])" by simp
  then obtain y3 r where y3: "fd_do vfs_demo vnops_demo (FSeek 2 7 42 SEEK_SET) y2 = Some (y3, r)"
    using fd_do_total [OF vfs_demo_ok y2(2), of "FSeek 2 7 42 SEEK_SET" vnops_demo] by (auto simp del: fd_do.simps)
  have v: "vop_isseekable vnops_demo (of_vnode (new_openfile 1 2))" by (simp add: vnops_demo_def)
  have "r = RInt (Inr 42) \<and> fd_do vfs_demo vnops_demo (FSeek 1 0 0 SEEK_CUR) y3 = Some (y3, RInt (Inr 42))"
    by (rule dup2_fork_share_offset [OF y(1,2,3,5) v _ y1(1) _ y(6) y2(1) _ _ y3]) simp_all
  then show ?thesis
    using y(2) y1(1) y2(1) y3
    by (intro exI [of _ y] exI [of _ t] exI [of _ y1] exI [of _ y2] exI [of _ y3]) (simp del: fd_do.simps)
qed

end
