(* ===== verification/Synch.thy ===== *)
theory Synch
  imports Threadlist
begin

text \<open>
  \<^verbatim>\<open>kern/thread/synch.c\<close>: semaphores, sleep locks and condition variables. Each is a structure
  with a count or a holder and a wait channel, and each operation is a critical section under
  the structure's spinlock; \<^verbatim>\<open>wchan_sleep\<close> ends a section by putting the caller on the channel
  and letting the spinlock go, and a thread that is woken runs the loop test again in a new
  section. The operations here are those sections. A wait channel is the sequence of threads
  asleep on it (theory \<open>Threadlist\<close> shows that the pointer lists are sequences). What the
  threads do between sections, and in which order the sections run, is left open: the step
  relations below allow every interleaving.
\<close>

section \<open>Wait channels\<close>

type_synonym wchan = "tid list"

definition wchan_sleep :: "tid \<Rightarrow> wchan \<Rightarrow> wchan" where
  "wchan_sleep t wc = wc @ [t]"

definition wchan_wakeone :: "wchan \<Rightarrow> wchan \<times> tid option" where
  "wchan_wakeone wc = (case wc of [] \<Rightarrow> ([], None) | t # ts \<Rightarrow> (ts, Some t))"

definition wchan_wakeall :: "wchan \<Rightarrow> wchan \<times> tid list" where
  "wchan_wakeall wc = ([], wc)"

section \<open>Semaphores\<close>

record semaphore =
  sem_wchan :: wchan
  sem_count :: "32 word"

text \<open>\<open>mem1\<close>, \<open>mem2\<close>, \<open>mem3\<close>: whether the structure, its name and its channel get memory.\<close>

definition sem_create :: "bool \<Rightarrow> bool \<Rightarrow> bool \<Rightarrow> 32 word \<Rightarrow> semaphore option" where
  "sem_create mem1 mem2 mem3 initial_count =
     (if \<not> mem1 then None
      else if \<not> mem2 then None
      else if \<not> mem3 then None
      else Some \<lparr>sem_wchan = [], sem_count = initial_count\<rparr>)"

definition sem_destroy :: "semaphore \<Rightarrow> unit option" where
  "sem_destroy sem = kassert (sem_wchan sem = [])"

text \<open>
  One round of the loop in \<^verbatim>\<open>P\<close>, from taking the spinlock to letting it go: the thread either
  goes to sleep or gets through.
\<close>

definition P :: "tid \<Rightarrow> semaphore \<Rightarrow> semaphore \<times> bool" where
  "P t sem =
     (if sem_count sem = 0 then (sem\<lparr>sem_wchan := wchan_sleep t (sem_wchan sem)\<rparr>, False)
      else (sem\<lparr>sem_count := sem_count sem - 1\<rparr>, True))"

text \<open>The call of \<^verbatim>\<open>P\<close> up to its first sleep: it first checks that it is not in an interrupt handler. The step
  relations below are about calls that pass this check.\<close>

definition P_call :: "bool \<Rightarrow> tid \<Rightarrow> semaphore \<Rightarrow> (semaphore \<times> bool) option" where
  "P_call t_in_interrupt t sem = do { kassert (\<not> t_in_interrupt); Some (P t sem) }"

definition V :: "semaphore \<Rightarrow> (semaphore \<times> tid option) option" where
  "V sem =
     do {
       let sem = sem\<lparr>sem_count := sem_count sem + 1\<rparr>;
       kassert (sem_count sem > 0);
       let (wc, woken) = wchan_wakeone (sem_wchan sem);
       Some (sem\<lparr>sem_wchan := wc\<rparr>, woken)
     }"

section \<open>Sleep locks\<close>

record lock =
  lk_wchan :: wchan
  lk_count :: "32 word"
  lk_holder :: "tid option"

definition lock_create :: "bool \<Rightarrow> bool \<Rightarrow> bool \<Rightarrow> lock option" where
  "lock_create mem1 mem2 mem3 =
     (if \<not> mem1 then None
      else if \<not> mem2 then None
      else if \<not> mem3 then None
      else Some \<lparr>lk_wchan = [], lk_count = 1, lk_holder = None\<rparr>)"

definition lock_destroy :: "lock \<Rightarrow> unit option" where
  "lock_destroy lk = kassert (lk_wchan lk = [])"

definition lock_do_i_hold :: "tid \<Rightarrow> lock \<Rightarrow> bool" where
  "lock_do_i_hold t lk \<longleftrightarrow> lk_holder lk = Some t"

definition lock_acquire :: "tid \<Rightarrow> lock \<Rightarrow> lock \<times> bool" where
  "lock_acquire t lk =
     (if lk_count lk = 0 then (lk\<lparr>lk_wchan := wchan_sleep t (lk_wchan lk)\<rparr>, False)
      else (lk\<lparr>lk_holder := Some t, lk_count := lk_count lk - 1\<rparr>, True))"

definition lock_acquire_call :: "bool \<Rightarrow> tid \<Rightarrow> lock \<Rightarrow> (lock \<times> bool) option" where
  "lock_acquire_call t_in_interrupt t lk = do { kassert (\<not> t_in_interrupt); Some (lock_acquire t lk) }"

definition lock_release :: "tid \<Rightarrow> lock \<Rightarrow> (lock \<times> tid option) option" where
  "lock_release t lk =
     do {
       kassert (lock_do_i_hold t lk);
       let lk = lk\<lparr>lk_count := lk_count lk + 1, lk_holder := None\<rparr>;
       kassert (lk_count lk > 0);
       let (wc, woken) = wchan_wakeone (lk_wchan lk);
       Some (lk\<lparr>lk_wchan := wc\<rparr>, woken)
     }"

section \<open>Condition variables\<close>

text \<open>
  \<open>cv_lock\<close> is the spinlock, because \<^verbatim>\<open>cv_wait\<close> keeps it across \<^verbatim>\<open>lock_release\<close>: its holder.
\<close>

record cv =
  cv_wchan :: wchan
  cv_lock :: "tid option"

definition cv_create :: "bool \<Rightarrow> bool \<Rightarrow> bool \<Rightarrow> cv option" where
  "cv_create mem1 mem2 mem3 =
     (if \<not> mem1 then None
      else if \<not> mem2 then None
      else if \<not> mem3 then None
      else Some \<lparr>cv_wchan = [], cv_lock = None\<rparr>)"

definition cv_destroy :: "cv \<Rightarrow> unit option" where
  "cv_destroy cv = do { kassert (cv_lock cv = None); kassert (cv_wchan cv = []) }"

text \<open>
  \<^verbatim>\<open>cv_wait\<close> in the pieces between which other threads can run: take the spinlock; give the
  lock back; go to sleep, which lets the spinlock go; and, once woken, take and release the
  spinlock again, after which the thread calls \<^verbatim>\<open>lock_acquire\<close>. The pieces that start by taking
  the spinlock, and the sections of \<^verbatim>\<open>cv_signal\<close> and \<^verbatim>\<open>cv_broadcast\<close>, run when it is free.
\<close>

definition cv_wait_begin :: "tid \<Rightarrow> cv \<Rightarrow> cv" where
  "cv_wait_begin t cv = cv\<lparr>cv_lock := Some t\<rparr>"

definition cv_wait_call :: "bool \<Rightarrow> tid \<Rightarrow> cv \<Rightarrow> cv option" where
  "cv_wait_call t_in_interrupt t cv = do { kassert (\<not> t_in_interrupt); Some (cv_wait_begin t cv) }"

definition cv_wait_release :: "tid \<Rightarrow> lock \<Rightarrow> (lock \<times> tid option) option" where
  "cv_wait_release t lk = lock_release t lk"

definition cv_wait_sleep :: "tid \<Rightarrow> cv \<Rightarrow> cv option" where
  "cv_wait_sleep t cv =
     do { kassert (cv_lock cv = Some t);
          Some (cv\<lparr>cv_wchan := wchan_sleep t (cv_wchan cv), cv_lock := None\<rparr>) }"

definition cv_signal :: "cv \<Rightarrow> cv \<times> tid option" where
  "cv_signal cv = (let (wc, woken) = wchan_wakeone (cv_wchan cv) in (cv\<lparr>cv_wchan := wc\<rparr>, woken))"

definition cv_broadcast :: "cv \<Rightarrow> cv \<times> tid list" where
  "cv_broadcast cv = (let (wc, woken) = wchan_wakeall (cv_wchan cv) in (cv\<lparr>cv_wchan := wc\<rparr>, woken))"

section \<open>Counted gates\<close>

text \<open>
  What semaphores and locks share: a count, a channel, an entry that takes a unit or sleeps, an
  exit that puts a unit back and wakes the first sleeper. A woken thread does not get the unit,
  it tests again, and in the meantime another thread may have taken it. No wake-up is lost all
  the same: while threads sleep, there are at least as many woken threads on their way as there
  are units.
\<close>

locale gate =
  fixes units :: "'s \<Rightarrow> nat"
    and chan :: "'s \<Rightarrow> tid list"
    and enter :: "tid \<Rightarrow> 's \<Rightarrow> 's \<times> bool"
    and leave :: "tid \<Rightarrow> 's \<Rightarrow> ('s \<times> tid option) option"
  assumes enter_zero: "units s = 0 \<Longrightarrow> enter t s = (s', b) \<Longrightarrow> \<not> b \<and> units s' = 0 \<and> chan s' = chan s @ [t]"
    and enter_pos: "0 < units s \<Longrightarrow> enter t s = (s', b) \<Longrightarrow> b \<and> units s' = units s - 1 \<and> chan s' = chan s"
    and leave_law: "leave t s = Some (s', woken) \<Longrightarrow>
      units s' = Suc (units s) \<and> chan s' = tl (chan s) \<and> woken = (if chan s = [] then None else Some (hd (chan s)))"
begin

definition no_lost_wakeup :: "'s \<Rightarrow> tid set \<Rightarrow> bool" where
  "no_lost_wakeup s R \<longleftrightarrow> finite R \<and> distinct (chan s) \<and> set (chan s) \<inter> R = {} \<and>
     (chan s \<noteq> [] \<longrightarrow> units s \<le> card R)"

lemma enter_passes_iff: "enter t s = (s', b) \<Longrightarrow> b \<longleftrightarrow> 0 < units s"
  using enter_zero enter_pos by blast

lemma enter_first:
  assumes "no_lost_wakeup s R" "t \<notin> R" "t \<notin> set (chan s)" "enter t s = (s', b)"
  shows "no_lost_wakeup s' R"
proof (cases "units s = 0")
  case True
  then show ?thesis using assms enter_zero [OF True assms(4)] by (auto simp: no_lost_wakeup_def)
next
  case False
  then show ?thesis using assms enter_pos [of s t s' b] by (auto simp: no_lost_wakeup_def)
qed

lemma enter_again:
  assumes "no_lost_wakeup s R" "t \<in> R" "enter t s = (s', b)"
  shows "no_lost_wakeup s' (R - {t})"
proof (cases "units s = 0")
  case True
  then show ?thesis using assms enter_zero [OF True assms(3)] by (auto simp: no_lost_wakeup_def)
next
  case False
  have "card (R - {t}) = card R - 1" using assms(1,2) by (simp add: no_lost_wakeup_def)
  then show ?thesis using assms False enter_pos [of s t s' b] by (auto simp: no_lost_wakeup_def)
qed

lemma leave_wakes:
  assumes "no_lost_wakeup s R" "leave t s = Some (s', woken)"
  shows "no_lost_wakeup s' (R \<union> set_option woken)"
proof (cases "chan s")
  case Nil
  then show ?thesis using assms leave_law [OF assms(2)] by (auto simp: no_lost_wakeup_def)
next
  case (Cons u us)
  then have "u \<notin> R" "finite R" using assms(1) by (auto simp: no_lost_wakeup_def)
  then have "card (insert u R) = Suc (card R)" by simp
  then show ?thesis using assms Cons leave_law [OF assms(2)] by (auto simp: no_lost_wakeup_def)
qed

lemma quiet_gate:
  assumes "no_lost_wakeup s {}" "chan s \<noteq> []"
  shows "units s = 0"
  using assms by (simp add: no_lost_wakeup_def)

end

lemma unat_dec: "x \<noteq> 0 \<Longrightarrow> unat (x - 1) = unat x - 1" for x :: "'a::len word"
  by (simp add: unat_minus_one)

lemma unat_inc: "0 < x + 1 \<Longrightarrow> unat (x + 1) = Suc (unat x)" for x :: "'a::len word"
  by (metis add.commute gr0I unatSuc unsigned_eq_0_iff word_gt_0)

interpretation semg: gate "\<lambda>s. unat (sem_count s)" sem_wchan P "\<lambda>_. V"
proof unfold_locales
  fix s t s' b
  assume "unat (sem_count s) = 0" "P t s = (s', b)"
  then show "\<not> b \<and> unat (sem_count s') = 0 \<and> sem_wchan s' = sem_wchan s @ [t]"
    by (auto simp: P_def wchan_sleep_def unat_eq_zero)
next
  fix s t s' b
  assume "0 < unat (sem_count s)" "P t s = (s', b)"
  then show "b \<and> unat (sem_count s') = unat (sem_count s) - 1 \<and> sem_wchan s' = sem_wchan s"
    by (auto simp: P_def unat_dec split: if_splits)
next
  fix s s' woken
  assume "V s = Some (s', woken)"
  then show "unat (sem_count s') = Suc (unat (sem_count s)) \<and> sem_wchan s' = tl (sem_wchan s) \<and>
      woken = (if sem_wchan s = [] then None else Some (hd (sem_wchan s)))"
    by (auto simp: V_def Let_def wchan_wakeone_def unat_inc split: if_splits list.splits)
qed

interpretation lkg: gate "\<lambda>s. unat (lk_count s)" lk_wchan lock_acquire lock_release
proof unfold_locales
  fix s t s' b
  assume "unat (lk_count s) = 0" "lock_acquire t s = (s', b)"
  then show "\<not> b \<and> unat (lk_count s') = 0 \<and> lk_wchan s' = lk_wchan s @ [t]"
    by (auto simp: lock_acquire_def wchan_sleep_def unat_eq_zero)
next
  fix s t s' b
  assume "0 < unat (lk_count s)" "lock_acquire t s = (s', b)"
  then show "b \<and> unat (lk_count s') = unat (lk_count s) - 1 \<and> lk_wchan s' = lk_wchan s"
    by (auto simp: lock_acquire_def unat_dec split: if_splits)
next
  fix t s s' woken
  assume "lock_release t s = Some (s', woken)"
  then show "unat (lk_count s') = Suc (unat (lk_count s)) \<and> lk_wchan s' = tl (lk_wchan s) \<and>
      woken = (if lk_wchan s = [] then None else Some (hd (lk_wchan s)))"
    by (auto simp: lock_release_def Let_def wchan_wakeone_def unat_inc split: if_splits list.splits)
qed

section \<open>Threads around a semaphore\<close>

text \<open>
  \<open>sem_retry\<close> are the threads woken in \<^verbatim>\<open>P\<close> that have yet to test the count again; \<open>sem_passed\<close> and
  \<open>sem_posted\<close> count the calls of \<^verbatim>\<open>P\<close> that returned and the calls of \<^verbatim>\<open>V\<close>.
\<close>

record semsys =
  ssem :: semaphore
  sem_retry :: "tid set"
  sem_passed :: nat
  sem_posted :: nat

definition sem_start :: "32 word \<Rightarrow> semsys" where
  "sem_start n = \<lparr>ssem = \<lparr>sem_wchan = [], sem_count = n\<rparr>, sem_retry = {}, sem_passed = 0, sem_posted = 0\<rparr>"

inductive sem_steps :: "semsys \<Rightarrow> semsys \<Rightarrow> bool" where
  sem_refl: "sem_steps x x"
| sem_P: "sem_steps x y \<Longrightarrow> t \<notin> sem_retry y \<Longrightarrow> t \<notin> set (sem_wchan (ssem y)) \<Longrightarrow>
    P t (ssem y) = (s', b) \<Longrightarrow>
    sem_steps x (y\<lparr>ssem := s', sem_passed := sem_passed y + of_bool b\<rparr>)"
| sem_P_again: "sem_steps x y \<Longrightarrow> t \<in> sem_retry y \<Longrightarrow> P t (ssem y) = (s', b) \<Longrightarrow>
    sem_steps x (y\<lparr>ssem := s', sem_retry := sem_retry y - {t}, sem_passed := sem_passed y + of_bool b\<rparr>)"
| sem_V: "sem_steps x y \<Longrightarrow> V (ssem y) = Some (s', woken) \<Longrightarrow>
    sem_steps x (y\<lparr>ssem := s', sem_retry := sem_retry y \<union> set_option woken, sem_posted := sem_posted y + 1\<rparr>)"

lemma P_units: "P t s = (s', b) \<Longrightarrow> unat (sem_count s') + of_bool b = unat (sem_count s)"
  using semg.enter_zero [of s t s' b] semg.enter_pos [of s t s' b] by (cases "unat (sem_count s)") auto

lemma sem_steps_no_lost_wakeup:
  "sem_steps x y \<Longrightarrow> semg.no_lost_wakeup (ssem x) (sem_retry x) \<Longrightarrow> semg.no_lost_wakeup (ssem y) (sem_retry y)"
proof (induction rule: sem_steps.induct)
  case (sem_P x y t s' b)
  then show ?case using semg.enter_first by auto
next
  case (sem_P_again x y t s' b)
  then show ?case using semg.enter_again by auto
next
  case (sem_V x y s' woken)
  then show ?case using semg.leave_wakes by auto
qed simp

lemma sem_steps_count:
  "sem_steps x y \<Longrightarrow>
    unat (sem_count (ssem y)) + sem_passed y + sem_posted x = unat (sem_count (ssem x)) + sem_passed x + sem_posted y"
proof (induction rule: sem_steps.induct)
  case (sem_P x y t s' b)
  then show ?case using P_units [OF sem_P(4)] by simp
next
  case (sem_P_again x y t s' b)
  then show ?case using P_units [OF sem_P_again(3)] by simp
next
  case (sem_V x y s' woken)
  then show ?case using semg.leave_law by auto
qed simp

lemma sem_start_ok: "semg.no_lost_wakeup (ssem (sem_start n)) (sem_retry (sem_start n))"
  by (simp add: semg.no_lost_wakeup_def sem_start_def)

text \<open>
  C10. A semaphore neither loses nor invents units: at every moment, the count plus the number of
  calls of \<^verbatim>\<open>P\<close> that returned is the initial count plus the number of calls of \<^verbatim>\<open>V\<close>. And it loses no
  wake-up: while threads sleep in \<^verbatim>\<open>P\<close>, at least as many threads have been woken and are about
  to retry as there are units, so that once these have run, either nobody sleeps or no unit is left.
\<close>

theorem sem_conserves_units:
  assumes "sem_steps (sem_start n) y"
  shows "unat (sem_count (ssem y)) + sem_passed y = unat n + sem_posted y
    \<and> (sem_wchan (ssem y) = [] \<or> unat (sem_count (ssem y)) \<le> card (sem_retry y))
    \<and> (sem_wchan (ssem y) = [] \<or> sem_retry y \<noteq> {} \<or> sem_passed y = unat n + sem_posted y)"
proof -
  have "unat (sem_count (ssem y)) + sem_passed y = unat n + sem_posted y"
    using sem_steps_count [OF assms] by (simp add: sem_start_def)
  moreover have "sem_wchan (ssem y) = [] \<or> unat (sem_count (ssem y)) \<le> card (sem_retry y)"
    using sem_steps_no_lost_wakeup [OF assms sem_start_ok] by (auto simp: semg.no_lost_wakeup_def)
  ultimately show ?thesis by auto
qed

definition sem_woken_state :: semsys where
  "sem_woken_state =
     \<lparr>ssem = \<lparr>sem_wchan = [], sem_count = 1\<rparr>, sem_retry = {3}, sem_passed = 0, sem_posted = 1\<rparr>"

lemma sem_woken_reached: "sem_steps (sem_start 0) sem_woken_state"
proof -
  have "sem_steps (sem_start 0)
      ((sem_start 0)\<lparr>ssem := \<lparr>sem_wchan = [3], sem_count = 0\<rparr>, sem_passed := sem_passed (sem_start 0) + of_bool False\<rparr>)"
    by (rule sem_P [OF sem_refl]) (simp_all add: sem_start_def P_def wchan_sleep_def)
  from sem_V [OF this, of "\<lparr>sem_wchan = [], sem_count = 1\<rparr>" "Some 3"] show ?thesis
    by (simp add: sem_start_def sem_woken_state_def V_def wchan_wakeone_def)
qed

theorem sem_conserves_units_witness:
  "sem_steps (sem_start 0) sem_woken_state \<and>
   unat (sem_count (ssem sem_woken_state)) + sem_passed sem_woken_state = 0 + sem_posted sem_woken_state"
  using sem_conserves_units [OF sem_woken_reached] sem_woken_reached by simp

section \<open>Threads around a lock\<close>

text \<open>
  \<open>lk_inside\<close> are the threads that returned from \<^verbatim>\<open>lock_acquire\<close> and have not called
  \<^verbatim>\<open>lock_release\<close> since. Any thread that is not blocked may call \<^verbatim>\<open>lock_acquire\<close>, also one that
  is inside; only threads inside call \<^verbatim>\<open>lock_release\<close>.
\<close>

record locksys =
  slock :: lock
  lk_retry :: "tid set"
  lk_inside :: "tid set"

definition lock_start :: locksys where
  "lock_start = \<lparr>slock = \<lparr>lk_wchan = [], lk_count = 1, lk_holder = None\<rparr>, lk_retry = {}, lk_inside = {}\<rparr>"

definition lk_blocked :: "locksys \<Rightarrow> tid set" where
  "lk_blocked y = lk_retry y \<union> set (lk_wchan (slock y))"

inductive lock_step :: "tid \<Rightarrow> locksys \<Rightarrow> locksys \<Rightarrow> bool" for t where
  lock_first: "t \<notin> lk_blocked y \<Longrightarrow> lock_acquire t (slock y) = (l', b) \<Longrightarrow>
    lock_step t y (y\<lparr>slock := l', lk_inside := lk_inside y \<union> (if b then {t} else {})\<rparr>)"
| lock_again: "t \<in> lk_retry y \<Longrightarrow> lock_acquire t (slock y) = (l', b) \<Longrightarrow>
    lock_step t y (y\<lparr>slock := l', lk_retry := lk_retry y - {t}, lk_inside := lk_inside y \<union> (if b then {t} else {})\<rparr>)"
| lock_rel: "t \<in> lk_inside y \<Longrightarrow> t \<notin> lk_blocked y \<Longrightarrow> lock_release t (slock y) = Some (l', woken) \<Longrightarrow>
    lock_step t y (y\<lparr>slock := l', lk_retry := lk_retry y \<union> set_option woken, lk_inside := lk_inside y - {t}\<rparr>)"

inductive lock_steps :: "locksys \<Rightarrow> locksys \<Rightarrow> bool" where
  lock_refl: "lock_steps x x"
| lock_more: "lock_steps x y \<Longrightarrow> lock_step t y z \<Longrightarrow> lock_steps x z"

definition lock_ok :: "lock \<Rightarrow> tid set \<Rightarrow> bool" where
  "lock_ok l I \<longleftrightarrow> I = set_option (lk_holder l) \<and> lk_count l = (if lk_holder l = None then 1 else 0)"

lemma lock_acquire_ok:
  assumes "lock_ok l I" "lock_acquire t l = (l', b)"
  shows "lock_ok l' (I \<union> (if b then {t} else {}))"
  using assms by (auto simp: lock_ok_def lock_acquire_def split: if_splits)

lemma lock_release_ok:
  assumes "lock_ok l I" "lock_release t l = Some (l', woken)"
  shows "lock_ok l' (I - {t})"
  using assms
  by (auto simp: lock_ok_def lock_release_def Let_def lock_do_i_hold_def wchan_wakeone_def split: if_splits list.splits)

lemma lock_release_holder:
  assumes "lock_ok l I"
  shows "lock_release t l \<noteq> None \<longleftrightarrow> t \<in> I"
  using assms
  by (auto simp: lock_ok_def lock_release_def Let_def lock_do_i_hold_def wchan_wakeone_def split: list.splits)

definition locksys_ok :: "locksys \<Rightarrow> bool" where
  "locksys_ok y \<longleftrightarrow> lkg.no_lost_wakeup (slock y) (lk_retry y) \<and> lock_ok (slock y) (lk_inside y)"

lemma lock_step_inv:
  assumes "lock_step t y z" "locksys_ok y"
  shows "locksys_ok z"
  using assms(1)
proof (cases rule: lock_step.cases)
  case (lock_first l' b)
  then show ?thesis using assms(2) lkg.enter_first [of "slock y" "lk_retry y" t l' b] lock_acquire_ok [of "slock y"]
    by (simp add: lk_blocked_def locksys_ok_def)
next
  case (lock_again l' b)
  then show ?thesis using assms(2) lkg.enter_again [of "slock y" "lk_retry y" t l' b] lock_acquire_ok [of "slock y"]
    by (simp add: locksys_ok_def)
next
  case (lock_rel l' woken)
  then show ?thesis using assms(2) lkg.leave_wakes [of "slock y" "lk_retry y" t l' woken] lock_release_ok [of "slock y"]
    by (simp add: locksys_ok_def)
qed

lemma lock_steps_inv: "lock_steps x y \<Longrightarrow> locksys_ok x \<Longrightarrow> locksys_ok y"
  by (induction rule: lock_steps.induct) (auto intro: lock_step_inv)

lemma lock_start_ok: "locksys_ok lock_start"
  by (simp add: locksys_ok_def lkg.no_lost_wakeup_def lock_start_def lock_ok_def)

text \<open>
  C9. Locks give mutual exclusion: at most one thread is between \<^verbatim>\<open>lock_acquire\<close> and
  \<^verbatim>\<open>lock_release\<close>, \<^verbatim>\<open>lock_do_i_hold\<close> is true for exactly that thread, \<^verbatim>\<open>lock_release\<close> panics for every
  other thread and for no holder, and the lock stands free with threads asleep on it only while a
  woken thread is on its way to take it.
\<close>

theorem lock_mutual_exclusion:
  assumes "lock_steps lock_start y"
  shows "card (lk_inside y) \<le> 1
    \<and> (\<forall>t. lock_do_i_hold t (slock y) = (t \<in> lk_inside y))
    \<and> (\<forall>t. (lock_release t (slock y) = None) = (t \<notin> lk_inside y))
    \<and> (lk_wchan (slock y) = [] \<or> lk_retry y \<noteq> {} \<or> lk_inside y \<noteq> {})"
proof -
  have ok: "lock_ok (slock y) (lk_inside y)" and w: "lkg.no_lost_wakeup (slock y) (lk_retry y)"
    using lock_steps_inv [OF assms lock_start_ok] by (auto simp: locksys_ok_def)
  have "card (lk_inside y) \<le> 1" using ok by (cases "lk_holder (slock y)") (auto simp: lock_ok_def)
  moreover have "lock_do_i_hold t (slock y) = (t \<in> lk_inside y)" for t
    using ok by (auto simp: lock_ok_def lock_do_i_hold_def)
  moreover have "(lock_release t (slock y) = None) = (t \<notin> lk_inside y)" for t
    using lock_release_holder [OF ok, of t] by blast
  moreover have "lk_inside y \<noteq> {}" if "lk_wchan (slock y) \<noteq> []" "lk_retry y = {}"
    using lkg.quiet_gate [of "slock y"] w ok that
    by (cases "lk_holder (slock y)") (auto simp: lock_ok_def)
  ultimately show ?thesis by blast
qed

definition lock_held_state :: locksys where
  "lock_held_state = \<lparr>slock = \<lparr>lk_wchan = [], lk_count = 0, lk_holder = Some 4\<rparr>, lk_retry = {}, lk_inside = {4}\<rparr>"

lemma lock_held_reached: "lock_steps lock_start lock_held_state"
  using lock_more [OF lock_refl lock_first, of 4 lock_start "\<lparr>lk_wchan = [], lk_count = 0, lk_holder = Some 4\<rparr>" True]
  by (simp add: lock_held_state_def lock_start_def lk_blocked_def lock_acquire_def)

theorem lock_mutual_exclusion_witness:
  "lock_steps lock_start lock_held_state \<and> lock_do_i_hold 4 (slock lock_held_state)
   \<and> lock_release 5 (slock lock_held_state) = None"
  using lock_mutual_exclusion [OF lock_held_reached] lock_held_reached by (simp add: lock_held_state_def)

text \<open>
  Nothing in \<^verbatim>\<open>lock_acquire\<close> looks at the holder: a thread that acquires a lock it holds
  sleeps on it, and from then on no step of anybody frees the lock.
\<close>

definition self_blocked :: "tid \<Rightarrow> locksys \<Rightarrow> bool" where
  "self_blocked t y \<longleftrightarrow> t \<in> lk_inside y \<and> t \<in> lk_blocked y"

lemma self_blocked_step:
  assumes "lock_step u y z" "locksys_ok y" "self_blocked t y"
  shows "self_blocked t z"
  using assms(1)
proof (cases rule: lock_step.cases)
  case (lock_first l' b)
  then show ?thesis using assms(3)
    by (auto simp: self_blocked_def lk_blocked_def lock_acquire_def wchan_sleep_def split: if_splits)
next
  case (lock_again l' b)
  have "lk_count (slock y) = 0"
    using assms(2,3) by (auto simp: self_blocked_def locksys_ok_def lock_ok_def split: if_splits)
  with lock_again assms(3) show ?thesis
    by (auto simp: self_blocked_def lk_blocked_def lock_acquire_def wchan_sleep_def)
next
  case (lock_rel l' woken)
  then have "u = t" using assms(2,3) by (auto simp: self_blocked_def locksys_ok_def lock_ok_def)
  with assms(3) lock_rel show ?thesis by (simp add: self_blocked_def)
qed

lemma self_blocked_stays: "lock_steps x y \<Longrightarrow> locksys_ok x \<Longrightarrow> self_blocked t x \<Longrightarrow> self_blocked t y"
  by (induction rule: lock_steps.induct) (auto intro: self_blocked_step lock_steps_inv)

text \<open>
  C29. A thread that calls \<^verbatim>\<open>lock_acquire\<close> on a lock it already holds does not return from it, and
  no other thread ever enters the lock again, whatever anybody does: the call deadlocks silently,
  without an assertion. (A holder that behaves is never in this situation; the lock itself does
  not check.)
\<close>

theorem self_acquire_deadlocks:
  assumes "lock_steps lock_start x" "t \<in> lk_inside x" "t \<notin> lk_blocked x"
    and "lock_acquire t (slock x) = (l', b)"
    and "lock_steps (x\<lparr>slock := l'\<rparr>) y"
  shows "\<not> b \<and> t \<in> lk_blocked y \<and> lk_inside y = {t} \<and> lk_count (slock y) = 0"
proof -
  have ok: "locksys_ok x" using lock_steps_inv [OF assms(1) lock_start_ok] .
  have "lk_count (slock x) = 0" using ok assms(2) by (auto simp: locksys_ok_def lock_ok_def split: if_splits)
  with assms(4) have b: "\<not> b" and l': "l' = (slock x)\<lparr>lk_wchan := lk_wchan (slock x) @ [t]\<rparr>"
    by (auto simp: lock_acquire_def wchan_sleep_def)
  have "lock_step t x (x\<lparr>slock := l'\<rparr>)"
    using lock_first [OF assms(3,4)] b by simp
  then have ok': "locksys_ok (x\<lparr>slock := l'\<rparr>)" using ok by (rule lock_step_inv)
  have "self_blocked t y"
    by (rule self_blocked_stays [OF assms(5) ok']) (use assms(2) l' in \<open>auto simp: self_blocked_def lk_blocked_def\<close>)
  moreover have "locksys_ok y" using lock_steps_inv [OF assms(5) ok'] .
  ultimately show ?thesis using b by (auto simp: self_blocked_def locksys_ok_def lock_ok_def split: if_splits)
qed

theorem self_acquire_deadlocks_witness:
  "let x = lock_held_state; l' = fst (lock_acquire 4 (slock x)) in
     lock_steps lock_start x \<and> 4 \<in> lk_inside x \<and> 4 \<in> lk_blocked (x\<lparr>slock := l'\<rparr>)"
  using self_acquire_deadlocks [OF lock_held_reached, of 4 "fst (lock_acquire 4 (slock lock_held_state))" False,
      OF _ _ _ lock_refl] lock_held_reached
  by (simp add: lock_held_state_def lk_blocked_def lock_acquire_def)

section \<open>Threads around a condition variable\<close>

datatype cvpc = Running | CvLocked | CvReleased | CvAsleep | CvWoken | CvReacquire

record cvsys =
  cvlk :: locksys
  scv :: cv
  cvpcs :: "tid \<Rightarrow> cvpc"

definition cv_start :: cvsys where
  "cv_start = \<lparr>cvlk = lock_start, scv = \<lparr>cv_wchan = [], cv_lock = None\<rparr>, cvpcs = (\<lambda>_. Running)\<rparr>"

definition cv_caller :: "tid \<Rightarrow> cvsys \<Rightarrow> bool" where
  "cv_caller t y \<longleftrightarrow> cvpcs y t = Running \<and> t \<in> lk_inside (cvlk y) \<and> t \<notin> lk_blocked (cvlk y)"

definition wake_pcs :: "tid set \<Rightarrow> (tid \<Rightarrow> cvpc) \<Rightarrow> tid \<Rightarrow> cvpc" where
  "wake_pcs W pcs t = (if t \<in> W then CvWoken else pcs t)"

inductive cv_step :: "tid \<Rightarrow> cvsys \<Rightarrow> cvsys \<Rightarrow> bool" for t where
  cv_locking: "cvpcs y t = Running \<Longrightarrow> lock_step t (cvlk y) l' \<Longrightarrow> cv_step t y (y\<lparr>cvlk := l'\<rparr>)"
| cv_begin: "cv_caller t y \<Longrightarrow> cv_lock (scv y) = None \<Longrightarrow>
    cv_step t y (y\<lparr>scv := cv_wait_begin t (scv y), cvpcs := (cvpcs y)(t := CvLocked)\<rparr>)"
| cv_release: "cvpcs y t = CvLocked \<Longrightarrow> cv_wait_release t (slock (cvlk y)) = Some (l', woken) \<Longrightarrow>
    cv_step t y (y\<lparr>cvlk := (cvlk y)\<lparr>slock := l', lk_retry := lk_retry (cvlk y) \<union> set_option woken,
                                  lk_inside := lk_inside (cvlk y) - {t}\<rparr>,
                 cvpcs := (cvpcs y)(t := CvReleased)\<rparr>)"
| cv_sleep: "cvpcs y t = CvReleased \<Longrightarrow> cv_wait_sleep t (scv y) = Some cv' \<Longrightarrow>
    cv_step t y (y\<lparr>scv := cv', cvpcs := (cvpcs y)(t := CvAsleep)\<rparr>)"
| cv_resume: "cvpcs y t = CvWoken \<Longrightarrow> cv_lock (scv y) = None \<Longrightarrow>
    cv_step t y (y\<lparr>cvpcs := (cvpcs y)(t := CvReacquire)\<rparr>)"
| cv_reacquire: "cvpcs y t = CvReacquire \<Longrightarrow> lock_acquire t (slock (cvlk y)) = (l', b) \<Longrightarrow>
    cv_step t y (y\<lparr>cvlk := (cvlk y)\<lparr>slock := l', lk_inside := lk_inside (cvlk y) \<union> (if b then {t} else {})\<rparr>,
                 cvpcs := (cvpcs y)(t := Running)\<rparr>)"
| cv_sig: "cv_caller t y \<Longrightarrow> cv_lock (scv y) = None \<Longrightarrow> cv_signal (scv y) = (cv', woken) \<Longrightarrow>
    cv_step t y (y\<lparr>scv := cv', cvpcs := wake_pcs (set_option woken) (cvpcs y)\<rparr>)"
| cv_bcast: "cv_caller t y \<Longrightarrow> cv_lock (scv y) = None \<Longrightarrow> cv_broadcast (scv y) = (cv', woken) \<Longrightarrow>
    cv_step t y (y\<lparr>scv := cv', cvpcs := wake_pcs (set woken) (cvpcs y)\<rparr>)"

inductive cv_steps :: "cvsys \<Rightarrow> cvsys \<Rightarrow> bool" where
  cv_refl: "cv_steps x x"
| cv_more: "cv_steps x y \<Longrightarrow> cv_step t y z \<Longrightarrow> cv_steps x z"

text \<open>A thread waits from the moment it has given the lock back until it is woken.\<close>

definition cv_waiting :: "cvsys \<Rightarrow> tid set" where
  "cv_waiting y = {t. cvpcs y t = CvReleased \<or> cvpcs y t = CvAsleep}"

definition cv_ok :: "cv \<Rightarrow> (tid \<Rightarrow> cvpc) \<Rightarrow> bool" where
  "cv_ok cv pcs \<longleftrightarrow> distinct (cv_wchan cv) \<and> set (cv_wchan cv) = {t. pcs t = CvAsleep} \<and>
     (\<forall>t. (pcs t = CvLocked \<or> pcs t = CvReleased) = (cv_lock cv = Some t))"

definition cvlk_ok :: "locksys \<Rightarrow> (tid \<Rightarrow> cvpc) \<Rightarrow> bool" where
  "cvlk_ok l pcs \<longleftrightarrow> locksys_ok l \<and>
     (\<forall>t. pcs t = CvLocked \<longrightarrow> t \<in> lk_inside l \<and> t \<notin> lk_blocked l) \<and>
     (\<forall>t. pcs t \<noteq> Running \<and> pcs t \<noteq> CvLocked \<longrightarrow> t \<notin> lk_inside l \<and> t \<notin> lk_blocked l)"

lemma lock_step_others:
  assumes "lock_step u y z" "t \<noteq> u"
  shows "(t \<in> lk_inside z) = (t \<in> lk_inside y) \<and> (t \<in> lk_blocked z) = (t \<in> lk_blocked y)"
  using assms(1)
proof (cases rule: lock_step.cases)
  case (lock_rel l' woken)
  then show ?thesis using lkg.leave_law [OF lock_rel(4)] assms(2)
    by (cases "lk_wchan (slock y)") (auto simp: lk_blocked_def)
qed (use assms(2) in \<open>auto simp: lk_blocked_def lock_acquire_def wchan_sleep_def split: if_splits\<close>)

lemma cvlk_ok_lock_step:
  assumes "cvlk_ok l pcs" "lock_step u l l'"
    and "p = Running \<or> p = CvReleased \<and> u \<notin> lk_inside l' \<and> u \<notin> lk_blocked l'"
  shows "cvlk_ok l' (pcs(u := p))"
proof -
  have "locksys_ok l'" using lock_step_inv [OF assms(2)] assms(1) by (simp add: cvlk_ok_def)
  then show ?thesis using assms(1,3) lock_step_others [OF assms(2)] unfolding cvlk_ok_def by auto
qed

lemma cv_step_lock_ok:
  assumes "cv_step t y z" "cv_ok (scv y) (cvpcs y)" "cvlk_ok (cvlk y) (cvpcs y)"
  shows "cvlk_ok (cvlk z) (cvpcs z)"
  using assms(1)
proof (cases rule: cv_step.cases)
  case (cv_locking l')
  moreover have "(cvpcs y)(t := Running) = cvpcs y" using cv_locking(2) by auto
  ultimately show ?thesis using cvlk_ok_lock_step [OF assms(3) cv_locking(3), of Running] by simp
next
  case cv_begin
  then show ?thesis using assms(3) by (auto simp: cvlk_ok_def cv_caller_def)
next
  case (cv_release l' woken)
  have t: "t \<in> lk_inside (cvlk y)" "t \<notin> lk_blocked (cvlk y)"
    using assms(3) cv_release(2) by (auto simp: cvlk_ok_def)
  have rel: "lock_release t (slock (cvlk y)) = Some (l', woken)"
    using cv_release(3) by (simp add: cv_wait_release_def)
  have "t \<notin> lk_blocked (cvlk z)"
    using t(2) lkg.leave_law [OF rel] cv_release(1) by (cases "lk_wchan (slock (cvlk y))") (auto simp: lk_blocked_def)
  then show ?thesis
    using cvlk_ok_lock_step [OF assms(3) lock_rel [OF t rel], of CvReleased] cv_release(1) by simp
next
  case (cv_sleep cv')
  then show ?thesis using assms(3) by (auto simp: cvlk_ok_def)
next
  case cv_resume
  then show ?thesis using assms(3) by (auto simp: cvlk_ok_def)
next
  case (cv_reacquire l' b)
  have "t \<notin> lk_blocked (cvlk y)" using assms(3) cv_reacquire(2) by (simp add: cvlk_ok_def)
  from lock_first [OF this cv_reacquire(3)] show ?thesis
    using cvlk_ok_lock_step [OF assms(3), of t _ Running] cv_reacquire(1) by simp
next
  case (cv_sig cv' woken)
  then have "u \<in> set_option woken \<Longrightarrow> cvpcs y u = CvAsleep" for u
    using assms(2) by (auto simp: cv_ok_def cv_signal_def wchan_wakeone_def split: list.splits)
  then show ?thesis using assms(3) cv_sig by (auto simp: cvlk_ok_def wake_pcs_def)
next
  case (cv_bcast cv' woken)
  then have "u \<in> set woken \<Longrightarrow> cvpcs y u = CvAsleep" for u
    using assms(2) by (auto simp: cv_ok_def cv_broadcast_def wchan_wakeall_def)
  then show ?thesis using assms(3) cv_bcast by (auto simp: cvlk_ok_def wake_pcs_def)
qed

lemma cv_ok_pc: "cv_ok cv pcs \<Longrightarrow> (pcs t = CvLocked \<or> pcs t = CvReleased) = (cv_lock cv = Some t)"
  by (simp add: cv_ok_def)

lemma cv_step_cv_ok:
  assumes "cv_step t y z" "cv_ok (scv y) (cvpcs y)"
  shows "cv_ok (scv z) (cvpcs z)"
  using assms(1)
proof (cases rule: cv_step.cases)
  case cv_begin
  then show ?thesis using assms(2) by (auto simp: cv_ok_def cv_caller_def cv_wait_begin_def)
next
  case (cv_sleep cv')
  then have "cv_lock (scv y) = Some t" "scv z = (scv y)\<lparr>cv_wchan := cv_wchan (scv y) @ [t], cv_lock := None\<rparr>"
    by (auto simp: cv_wait_sleep_def wchan_sleep_def split: if_splits)
  then show ?thesis using assms(2) cv_sleep by (auto simp: cv_ok_def)
next
  case (cv_sig cv' woken)
  show ?thesis
  proof (cases "cv_wchan (scv y)")
    case Nil
    then show ?thesis using assms(2) cv_sig
      by (auto simp: cv_ok_def cv_signal_def wchan_wakeone_def wake_pcs_def)
  next
    case (Cons u us)
    then have "set us = {t. cvpcs y t = CvAsleep} - {u}" using assms(2) by (auto simp: cv_ok_def)
    then show ?thesis using assms(2) cv_sig Cons
      by (auto simp: cv_ok_def cv_signal_def wchan_wakeone_def wake_pcs_def)
  qed
next
  case (cv_bcast cv' woken)
  then show ?thesis using assms(2)
    by (auto simp: cv_ok_def cv_broadcast_def wchan_wakeall_def wake_pcs_def)
next
  case (cv_reacquire l' b)
  have "cv_lock (scv y) \<noteq> Some t" using cv_ok_pc [OF assms(2), of t] cv_reacquire(2) by simp
  then show ?thesis using assms(2) cv_reacquire by (auto simp: cv_ok_def)
qed (use assms(2) in \<open>auto simp: cv_ok_def\<close>)

lemma cv_steps_ok:
  "cv_steps x y \<Longrightarrow> cv_ok (scv x) (cvpcs x) \<Longrightarrow> cvlk_ok (cvlk x) (cvpcs x) \<Longrightarrow>
    cv_ok (scv y) (cvpcs y) \<and> cvlk_ok (cvlk y) (cvpcs y)"
  by (induction rule: cv_steps.induct) (auto intro: cv_step_cv_ok cv_step_lock_ok)

lemma cv_start_ok: "cv_ok (scv cv_start) (cvpcs cv_start)" "cvlk_ok (cvlk cv_start) (cvpcs cv_start)"
  using lock_start_ok by (simp_all add: cv_ok_def cvlk_ok_def cv_start_def)

text \<open>
  C5. Waiting on a condition variable is atomic: although other threads run between the moment
  \<^verbatim>\<open>cv_wait\<close> gives the lock back and the moment the thread is asleep, no signal falls in between.
  Whenever a thread can be in the critical section of \<^verbatim>\<open>cv_signal\<close> or \<^verbatim>\<open>cv_broadcast\<close>, every thread that
  gave the lock back and was not woken is on the channel: broadcast wakes them all, signal wakes
  one of them if there is one. Neither the release nor the sleep inside \<^verbatim>\<open>cv_wait\<close> fails its
  assertion, and mutual exclusion on the lock is kept.
\<close>

theorem cv_wait_atomic:
  assumes "cv_steps cv_start y"
  shows "card (lk_inside (cvlk y)) \<le> 1
    \<and> (\<forall>t. cvpcs y t = CvLocked \<longrightarrow> cv_wait_release t (slock (cvlk y)) \<noteq> None)
    \<and> (\<forall>t. cvpcs y t = CvReleased \<longrightarrow> cv_wait_sleep t (scv y) \<noteq> None)
    \<and> (cv_lock (scv y) = None \<longrightarrow>
         set (snd (cv_broadcast (scv y))) = cv_waiting y
         \<and> (cv_waiting y \<noteq> {} \<longrightarrow> (\<exists>t \<in> cv_waiting y. snd (cv_signal (scv y)) = Some t)))"
proof -
  have cv: "cv_ok (scv y) (cvpcs y)" and lk: "cvlk_ok (cvlk y) (cvpcs y)"
    using cv_steps_ok [OF assms cv_start_ok] by auto
  have lok: "lock_ok (slock (cvlk y)) (lk_inside (cvlk y))" using lk by (simp add: cvlk_ok_def locksys_ok_def)
  have "card (lk_inside (cvlk y)) \<le> 1"
    using lok by (cases "lk_holder (slock (cvlk y))") (auto simp: lock_ok_def)
  moreover have "cv_wait_release t (slock (cvlk y)) \<noteq> None" if "cvpcs y t = CvLocked" for t
    using lk that lock_release_holder [OF lok, of t] by (simp add: cvlk_ok_def cv_wait_release_def)
  moreover have "cv_wait_sleep t (scv y) \<noteq> None" if "cvpcs y t = CvReleased" for t
    using cv that by (auto simp: cv_ok_def cv_wait_sleep_def)
  moreover have "set (cv_wchan (scv y)) = cv_waiting y" if "cv_lock (scv y) = None"
    using cv that by (auto simp: cv_ok_def cv_waiting_def)
  ultimately show ?thesis
    by (cases "cv_wchan (scv y)")
      (auto simp: cv_broadcast_def cv_signal_def wchan_wakeone_def wchan_wakeall_def)
qed

definition cv_asleep_state :: cvsys where
  "cv_asleep_state =
     \<lparr>cvlk = lock_start, scv = \<lparr>cv_wchan = [4], cv_lock = None\<rparr>, cvpcs = (\<lambda>_. Running)(4 := CvAsleep)\<rparr>"

lemma cv_asleep_reached: "cv_steps cv_start cv_asleep_state"
proof -
  let ?l = "\<lparr>lk_wchan = [], lk_count = 0, lk_holder = Some 4\<rparr>"
  have "lock_step 4 lock_start lock_held_state"
    using lock_first [of 4 lock_start ?l True]
    by (simp add: lock_held_state_def lock_start_def lk_blocked_def lock_acquire_def)
  then have "cv_steps cv_start (cv_start\<lparr>cvlk := lock_held_state\<rparr>)" (is "cv_steps _ ?y1")
    by (intro cv_more [OF cv_refl] cv_locking) (simp_all add: cv_start_def)
  moreover have "cv_step 4 ?y1 (?y1\<lparr>scv := cv_wait_begin 4 (scv ?y1), cvpcs := (cvpcs ?y1)(4 := CvLocked)\<rparr>)"
      (is "cv_step _ _ ?y2")
    by (rule cv_begin) (simp_all add: cv_start_def lock_held_state_def cv_caller_def lk_blocked_def)
  moreover have "cv_step 4 ?y2 (?y2\<lparr>cvlk := lock_start, cvpcs := (cvpcs ?y2)(4 := CvReleased)\<rparr>)"
      (is "cv_step _ _ ?y3")
    using cv_release [of ?y2 4 "slock lock_start" None]
    by (simp add: cv_wait_release_def lock_release_def lock_do_i_hold_def wchan_wakeone_def
        lock_held_state_def lock_start_def)
  moreover have "cv_step 4 ?y3 cv_asleep_state"
    using cv_sleep [of ?y3 4 "\<lparr>cv_wchan = [4], cv_lock = None\<rparr>"]
    by (simp add: cv_wait_sleep_def cv_wait_begin_def wchan_sleep_def cv_start_def cv_asleep_state_def)
  ultimately show ?thesis by (blast intro: cv_more)
qed

theorem cv_wait_atomic_witness:
  "cv_steps cv_start cv_asleep_state \<and> cv_waiting cv_asleep_state \<noteq> {}
   \<and> set (snd (cv_broadcast (scv cv_asleep_state))) = cv_waiting cv_asleep_state"
  using cv_wait_atomic [OF cv_asleep_reached] cv_asleep_reached
  by (simp add: cv_asleep_state_def cv_waiting_def)

end
