(* ===== verification/Spinlock.thy ===== *)
theory Spinlock
  imports Kernel_Prelude
begin

text \<open>
  Spinlocks and interrupt priority levels: \<^verbatim>\<open>kern/thread/spinlock.c\<close>, the test-and-set of
  \<^verbatim>\<open>kern/arch/mips/include/spinlock.h\<close> and \<^verbatim>\<open>kern/thread/spl.c\<close>. A call of \<^verbatim>\<open>spinlock_acquire\<close> is cut into
  the accesses to the lock word and the holder field between which other processors can run. The
  model is sequentially consistent: the memory barriers of the source are what makes the
  hardware so.
\<close>

type_synonym cpuid = nat

section \<open>Priority levels\<close>

record ipl =
  irq_on :: bool
  t_iplhigh_count :: int
  t_curspl :: int

definition IPL_NONE :: int where
  "IPL_NONE = 0"

definition IPL_HIGH :: int where
  "IPL_HIGH = 1"

definition splraise :: "int \<Rightarrow> int \<Rightarrow> ipl \<Rightarrow> ipl option" where
  "splraise oldspl newspl s =
     do {
       kassert (oldspl = IPL_NONE);
       kassert (newspl = IPL_HIGH);
       let s = (if t_iplhigh_count s = 0 then s\<lparr>irq_on := False\<rparr> else s);
       Some (s\<lparr>t_iplhigh_count := t_iplhigh_count s + 1\<rparr>)
     }"

definition spllower :: "int \<Rightarrow> int \<Rightarrow> ipl \<Rightarrow> ipl option" where
  "spllower oldspl newspl s =
     do {
       kassert (oldspl = IPL_HIGH);
       kassert (newspl = IPL_NONE);
       let s = s\<lparr>t_iplhigh_count := t_iplhigh_count s - 1\<rparr>;
       Some (if t_iplhigh_count s = 0 then s\<lparr>irq_on := True\<rparr> else s)
     }"

definition splx :: "int \<Rightarrow> ipl \<Rightarrow> (ipl \<times> int) option" where
  "splx spl s =
     (if t_curspl s < spl then
        do { s' \<leftarrow> splraise (t_curspl s) spl s;
             Some (s'\<lparr>t_curspl := spl\<rparr>, t_curspl s) }
      else if t_curspl s > spl then
        do { s' \<leftarrow> spllower (t_curspl s) spl (s\<lparr>t_curspl := spl\<rparr>);
             Some (s', t_curspl s) }
      else Some (s, spl))"

text \<open>
  What a thread does with the level: take a spinlock (which raises it), release one (which
  lowers it), or set it with \<^verbatim>\<open>splx\<close>. The calls do not have to nest.
\<close>

datatype spl_op = Raise | Lower | Splx int

fun spl_do :: "spl_op \<Rightarrow> ipl \<Rightarrow> ipl option" where
  "spl_do Raise s = splraise IPL_NONE IPL_HIGH s"
| "spl_do Lower s = spllower IPL_HIGH IPL_NONE s"
| "spl_do (Splx n) s = map_option fst (splx n s)"

fun spl_run :: "spl_op list \<Rightarrow> ipl \<Rightarrow> ipl option" where
  "spl_run [] s = Some s"
| "spl_run (p # ps) s = Option.bind (spl_do p s) (spl_run ps)"

text \<open>
  The discipline: a \<^verbatim>\<open>spllower\<close> outside \<^verbatim>\<open>splx\<close> undoes an earlier \<^verbatim>\<open>splraise\<close>, and \<^verbatim>\<open>splx\<close> gets one of
  the two levels. \<open>k\<close> is the number of raises not yet undone.
\<close>

fun spl_disciplined :: "nat \<Rightarrow> spl_op list \<Rightarrow> bool" where
  "spl_disciplined k [] = True"
| "spl_disciplined k (Raise # ps) = spl_disciplined (Suc k) ps"
| "spl_disciplined k (Lower # ps) = (0 < k \<and> spl_disciplined (k - 1) ps)"
| "spl_disciplined k (Splx n # ps) = ((n = IPL_NONE \<or> n = IPL_HIGH) \<and> spl_disciplined k ps)"

fun spl_pending :: "nat \<Rightarrow> spl_op list \<Rightarrow> nat" where
  "spl_pending k [] = k"
| "spl_pending k (Raise # ps) = spl_pending (Suc k) ps"
| "spl_pending k (Lower # ps) = spl_pending (k - 1) ps"
| "spl_pending k (Splx n # ps) = spl_pending k ps"

fun spl_level :: "int \<Rightarrow> spl_op list \<Rightarrow> int" where
  "spl_level l [] = l"
| "spl_level l (Splx n # ps) = spl_level n ps"
| "spl_level l (p # ps) = spl_level l ps"

definition ipl_ok :: "nat \<Rightarrow> ipl \<Rightarrow> bool" where
  "ipl_ok k s \<longleftrightarrow> (t_curspl s = IPL_NONE \<or> t_curspl s = IPL_HIGH) \<and>
     t_iplhigh_count s = int k + t_curspl s \<and> irq_on s = (t_iplhigh_count s = 0)"

lemmas spl_defs = splraise_def spllower_def splx_def IPL_NONE_def IPL_HIGH_def ipl_ok_def Let_def

lemma ipl_ok_raise: "ipl_ok k s \<Longrightarrow> \<exists>s'. splraise IPL_NONE IPL_HIGH s = Some s' \<and> ipl_ok (Suc k) s' \<and> t_curspl s' = t_curspl s"
  by (auto simp: spl_defs)

lemma ipl_ok_lower:
  "ipl_ok k s \<Longrightarrow> 0 < k \<Longrightarrow> \<exists>s'. spllower IPL_HIGH IPL_NONE s = Some s' \<and> ipl_ok (k - 1) s' \<and> t_curspl s' = t_curspl s"
  by (auto simp: spl_defs)

lemma ipl_ok_splx:
  assumes "ipl_ok k s" "n = IPL_NONE \<or> n = IPL_HIGH"
  shows "\<exists>s'. splx n s = Some (s', t_curspl s) \<and> ipl_ok k s' \<and> t_curspl s' = n"
  using assms by (auto simp: spl_defs)

lemma spl_run_ok:
  "ipl_ok k s \<Longrightarrow> spl_disciplined k ps \<Longrightarrow>
    \<exists>s'. spl_run ps s = Some s' \<and> ipl_ok (spl_pending k ps) s' \<and> t_curspl s' = spl_level (t_curspl s) ps"
proof (induction ps arbitrary: k s)
  case (Cons p ps)
  show ?case
  proof (cases p)
    case Raise
    obtain s1 where "splraise IPL_NONE IPL_HIGH s = Some s1" "ipl_ok (Suc k) s1" "t_curspl s1 = t_curspl s"
      using ipl_ok_raise [OF Cons(2)] by blast
    then show ?thesis using Cons(1) [of "Suc k" s1] Cons(3) Raise by simp
  next
    case Lower
    with Cons(3) have "0 < k" by simp
    then obtain s1 where "spllower IPL_HIGH IPL_NONE s = Some s1" "ipl_ok (k - 1) s1" "t_curspl s1 = t_curspl s"
      using ipl_ok_lower [OF Cons(2)] by blast
    then show ?thesis using Cons(1) [of "k - 1" s1] Cons(3) Lower by simp
  next
    case (Splx n)
    with Cons(3) have "n = IPL_NONE \<or> n = IPL_HIGH" by simp
    then obtain s1 where "splx n s = Some (s1, t_curspl s)" "ipl_ok k s1" "t_curspl s1 = n"
      using ipl_ok_splx [OF Cons(2)] by blast
    then show ?thesis using Cons(1) [of k s1] Cons(3) Splx by simp
  qed
qed simp

definition ipl_boot :: ipl where
  "ipl_boot = \<lparr>irq_on = True, t_iplhigh_count = 0, t_curspl = IPL_NONE\<rparr>"

text \<open>
  C30. Priority levels are counted correctly even when spinlocks and \<^verbatim>\<open>splx\<close> calls overlap without
  nesting: after any disciplined sequence of calls no assertion has failed, and interrupts are off
  exactly if a spinlock is still held or the last \<^verbatim>\<open>splx\<close> set \<^verbatim>\<open>IPL_HIGH\<close>.
\<close>

theorem interrupts_off_iff_pending:
  assumes "spl_disciplined 0 ps"
  shows "\<exists>s. spl_run ps ipl_boot = Some s \<and>
    irq_on s = (spl_pending 0 ps = 0 \<and> spl_level IPL_NONE ps = IPL_NONE)"
proof -
  have "ipl_ok 0 ipl_boot" by (simp add: ipl_boot_def spl_defs)
  from spl_run_ok [OF this assms] obtain s where
    "spl_run ps ipl_boot = Some s" "ipl_ok (spl_pending 0 ps) s" "t_curspl s = spl_level IPL_NONE ps"
    by (auto simp: ipl_boot_def)
  then show ?thesis by (auto simp: spl_defs)
qed

theorem interrupts_off_iff_pending_witness:
  "\<exists>s. spl_run [Raise, Splx 1, Raise, Splx 0, Lower] ipl_boot = Some s \<and> \<not> irq_on s"
  using interrupts_off_iff_pending [of "[Raise, Splx 1, Raise, Splx 0, Lower]"] by (simp add: spl_defs)

section \<open>Spinlocks\<close>

record spinlock =
  splk_lock :: "32 word"
  splk_holder :: "cpuid option"

definition spinlock_init :: spinlock where
  "spinlock_init = \<lparr>splk_lock = 0, splk_holder = None\<rparr>"

definition spinlock_cleanup :: "spinlock \<Rightarrow> unit option" where
  "spinlock_cleanup l = do { kassert (splk_holder l = None); kassert (splk_lock l = 0) }"

definition spinlock_do_i_hold :: "cpuid \<Rightarrow> spinlock \<Rightarrow> bool" where
  "spinlock_do_i_hold c l \<longleftrightarrow> splk_holder l = Some c"

text \<open>The store conditional may fail (\<open>sc\<close> is false): then the lock counts as held.\<close>

definition spinlock_data_testandset :: "bool \<Rightarrow> 32 word \<Rightarrow> 32 word \<times> 32 word" where
  "spinlock_data_testandset sc sd = (if sc then (1, sd) else (sd, 1))"

text \<open>
  Where a processor is: outside; at the plain read of the loop; at the test-and-set; about to
  store its name in the holder field; past \<^verbatim>\<open>spinlock_acquire\<close>; in \<^verbatim>\<open>spinlock_release\<close> with the holder
  cleared and the lock word still set.
\<close>

datatype spinpc = Outside | Testing | TestAndSet | SetHolder | Holding | Clearing

record spinsys =
  splk :: spinlock
  spinpcs :: "cpuid \<Rightarrow> spinpc"
  c_spinlocks :: "cpuid \<Rightarrow> nat"

definition spin_goto :: "cpuid \<Rightarrow> spinpc \<Rightarrow> spinsys \<Rightarrow> spinsys" where
  "spin_goto c p y = y\<lparr>spinpcs := (spinpcs y)(c := p)\<rparr>"

definition spinlock_acquire_begin :: "cpuid \<Rightarrow> spinsys \<Rightarrow> spinsys option" where
  "spinlock_acquire_begin c y =
     do {
       kassert (splk_holder (splk y) \<noteq> Some c);
       Some (spin_goto c Testing (y\<lparr>c_spinlocks := (c_spinlocks y)(c := c_spinlocks y c + 1)\<rparr>))
     }"

definition spinlock_acquire_round :: "cpuid \<Rightarrow> bool \<Rightarrow> spinsys \<Rightarrow> spinsys" where
  "spinlock_acquire_round c sc y =
     (case spinpcs y c of
        Testing \<Rightarrow> if splk_lock (splk y) \<noteq> 0 then y else spin_goto c TestAndSet y
      | TestAndSet \<Rightarrow>
          (let (w, x) = spinlock_data_testandset sc (splk_lock (splk y));
               y = y\<lparr>splk := (splk y)\<lparr>splk_lock := w\<rparr>\<rparr> in
           if x \<noteq> 0 then spin_goto c Testing y else spin_goto c SetHolder y)
      | SetHolder \<Rightarrow> spin_goto c Holding (y\<lparr>splk := (splk y)\<lparr>splk_holder := Some c\<rparr>\<rparr>)
      | _ \<Rightarrow> y)"

definition spinlock_release_begin :: "cpuid \<Rightarrow> spinsys \<Rightarrow> spinsys option" where
  "spinlock_release_begin c y =
     do {
       kassert (splk_holder (splk y) = Some c);
       kassert (c_spinlocks y c > 0);
       Some (spin_goto c Clearing
         (y\<lparr>c_spinlocks := (c_spinlocks y)(c := c_spinlocks y c - 1), splk := (splk y)\<lparr>splk_holder := None\<rparr>\<rparr>))
     }"

definition spinlock_release_end :: "cpuid \<Rightarrow> spinsys \<Rightarrow> spinsys" where
  "spinlock_release_end c y = spin_goto c Outside (y\<lparr>splk := (splk y)\<lparr>splk_lock := 0\<rparr>\<rparr>)"

definition spin_start :: spinsys where
  "spin_start = \<lparr>splk = spinlock_init, spinpcs = (\<lambda>_. Outside), c_spinlocks = (\<lambda>_. 0)\<rparr>"

inductive spin_steps :: "spinsys \<Rightarrow> spinsys \<Rightarrow> bool" where
  spin_refl: "spin_steps x x"
| spin_begin: "spin_steps x y \<Longrightarrow> spinpcs y c = Outside \<Longrightarrow> spinlock_acquire_begin c y = Some z \<Longrightarrow> spin_steps x z"
| spin_round: "spin_steps x y \<Longrightarrow> spin_steps x (spinlock_acquire_round c sc y)"
| spin_release: "spin_steps x y \<Longrightarrow> spinpcs y c = Holding \<Longrightarrow> spinlock_release_begin c y = Some z \<Longrightarrow> spin_steps x z"
| spin_clear: "spin_steps x y \<Longrightarrow> spinpcs y c = Clearing \<Longrightarrow> spin_steps x (spinlock_release_end c y)"

definition spin_owner :: "spinpc \<Rightarrow> bool" where
  "spin_owner p \<longleftrightarrow> p = SetHolder \<or> p = Holding \<or> p = Clearing"

text \<open>The invariant names the processor, if any, that has the lock word.\<close>

definition spin_inv :: "cpuid option \<Rightarrow> spinsys \<Rightarrow> bool" where
  "spin_inv ow y \<longleftrightarrow>
     (\<forall>c. spin_owner (spinpcs y c) = (ow = Some c)) \<and>
     (splk_lock (splk y) = 0) = (ow = None) \<and>
     (\<forall>c. (splk_holder (splk y) = Some c) = (spinpcs y c = Holding)) \<and>
     (\<forall>c. spinpcs y c = Holding \<longrightarrow> 0 < c_spinlocks y c) \<and>
     (\<forall>c. spinpcs y c \<in> {Testing, TestAndSet, SetHolder} \<longrightarrow> 0 < c_spinlocks y c)"

lemma spin_invD:
  assumes "spin_inv ow y"
  shows "spin_owner (spinpcs y c) = (ow = Some c)" "(splk_lock (splk y) = 0) = (ow = None)"
    "(splk_holder (splk y) = Some c) = (spinpcs y c = Holding)"
    "spinpcs y c \<in> {Testing, TestAndSet, SetHolder, Holding} \<Longrightarrow> 0 < c_spinlocks y c"
  using assms by (auto simp: spin_inv_def)

lemma spin_inv_begin:
  assumes "spin_inv ow y" "spinpcs y c = Outside" "spinlock_acquire_begin c y = Some z"
  shows "spin_inv ow z"
proof -
  have z: "z = spin_goto c Testing (y\<lparr>c_spinlocks := (c_spinlocks y)(c := c_spinlocks y c + 1)\<rparr>)"
    using assms(3) by (auto simp: spinlock_acquire_begin_def split: if_splits)
  have "ow \<noteq> Some c" using spin_invD(1) [OF assms(1), of c] assms(2) by (simp add: spin_owner_def)
  moreover have "splk_holder (splk y) \<noteq> Some c" using spin_invD(3) [OF assms(1), of c] assms(2) by simp
  ultimately show ?thesis using assms(1) unfolding z spin_inv_def by (simp add: spin_goto_def spin_owner_def)
qed

lemma spin_inv_release:
  assumes "spin_inv ow y" "spinpcs y c = Holding" "spinlock_release_begin c y = Some z"
  shows "spin_inv ow z"
proof -
  have z: "z = spin_goto c Clearing
         (y\<lparr>c_spinlocks := (c_spinlocks y)(c := c_spinlocks y c - 1), splk := (splk y)\<lparr>splk_holder := None\<rparr>\<rparr>)"
    using assms(3) by (auto simp: spinlock_release_begin_def split: if_splits)
  have ow: "ow = Some c" using spin_invD(1) [OF assms(1), of c] assms(2) by (simp add: spin_owner_def)
  have "spinpcs y d \<noteq> Holding \<and> spinpcs y d \<noteq> SetHolder \<and> spinpcs y d \<noteq> Clearing" if "d \<noteq> c" for d
    using spin_invD(1) [OF assms(1), of d] ow that by (auto simp: spin_owner_def)
  then show ?thesis using assms(1) ow unfolding z spin_inv_def by (simp add: spin_goto_def spin_owner_def)
qed

lemma spin_inv_clear:
  assumes "spin_inv ow y" "spinpcs y c = Clearing"
  shows "spin_inv None (spinlock_release_end c y)"
proof -
  have ow: "ow = Some c" using spin_invD(1) [OF assms(1), of c] assms(2) by (simp add: spin_owner_def)
  have "spinpcs y d \<noteq> Holding \<and> spinpcs y d \<noteq> SetHolder \<and> spinpcs y d \<noteq> Clearing" if "d \<noteq> c" for d
    using spin_invD(1) [OF assms(1), of d] ow that by (auto simp: spin_owner_def)
  moreover have "splk_holder (splk y) \<noteq> Some c" using spin_invD(3) [OF assms(1), of c] assms(2) by simp
  ultimately show ?thesis using assms(1) ow unfolding spin_inv_def spinlock_release_end_def
    by (simp add: spin_goto_def spin_owner_def)
qed

lemma spin_inv_take:
  assumes "spin_inv None y" "spinpcs y c = TestAndSet"
  shows "spin_inv (Some c) (spin_goto c SetHolder (y\<lparr>splk := (splk y)\<lparr>splk_lock := 1\<rparr>\<rparr>))"
proof -
  have "splk_holder (splk y) \<noteq> Some c" using spin_invD(3) [OF assms(1), of c] assms(2) by simp
  then show ?thesis using assms unfolding spin_inv_def
    by (simp add: spin_goto_def spin_owner_def)
qed

lemma spin_inv_retry:
  assumes "spin_inv ow y" "spinpcs y c = Testing \<or> spinpcs y c = TestAndSet" "p = Testing \<or> p = TestAndSet"
  shows "spin_inv ow (spin_goto c p y)"
proof -
  have "ow \<noteq> Some c" using spin_invD(1) [OF assms(1), of c] assms(2) by (auto simp: spin_owner_def)
  moreover have "splk_holder (splk y) \<noteq> Some c" using spin_invD(3) [OF assms(1), of c] assms(2) by auto
  moreover have "0 < c_spinlocks y c" using spin_invD(4) [OF assms(1), of c] assms(2) by auto
  ultimately show ?thesis using assms(1,3) unfolding spin_inv_def by (auto simp: spin_goto_def spin_owner_def)
qed

lemma spin_inv_hold:
  assumes "spin_inv ow y" "spinpcs y c = SetHolder"
  shows "spin_inv ow (spin_goto c Holding (y\<lparr>splk := (splk y)\<lparr>splk_holder := Some c\<rparr>\<rparr>))"
proof -
  have ow: "ow = Some c" using spin_invD(1) [OF assms(1), of c] assms(2) by (simp add: spin_owner_def)
  moreover have "spinpcs y d \<noteq> Holding \<and> spinpcs y d \<noteq> SetHolder \<and> spinpcs y d \<noteq> Clearing" if "d \<noteq> c" for d
    using spin_invD(1) [OF assms(1), of d] ow that by (auto simp: spin_owner_def)
  moreover have "0 < c_spinlocks y c" using spin_invD(4) [OF assms(1), of c] assms(2) by auto
  ultimately show ?thesis using assms(1) unfolding spin_inv_def by (auto simp: spin_goto_def spin_owner_def)
qed

lemma spin_inv_round:
  assumes "spin_inv ow y"
  shows "\<exists>ow'. spin_inv ow' (spinlock_acquire_round c sc y)"
proof (cases "spinpcs y c")
  case Testing
  then show ?thesis using assms spin_inv_retry [OF assms, of c TestAndSet]
    by (auto simp: spinlock_acquire_round_def)
next
  case TestAndSet
  have upd: "y\<lparr>splk := (splk y)\<lparr>splk_lock := splk_lock (splk y)\<rparr>\<rparr> = y" by simp
  show ?thesis
  proof (cases "sc \<and> splk_lock (splk y) = 0")
    case True
    then have "spin_inv None y" using spin_invD(2) [OF assms] assms by simp
    from spin_inv_take [OF this TestAndSet] show ?thesis using True TestAndSet
      by (auto simp: spinlock_acquire_round_def spinlock_data_testandset_def)
  next
    case False
    have "spin_inv ow (y\<lparr>splk := (splk y)\<lparr>splk_lock := fst (spinlock_data_testandset sc (splk_lock (splk y)))\<rparr>\<rparr>)"
      using assms False by (auto simp: spin_inv_def spinlock_data_testandset_def)
    from spin_inv_retry [OF this, of c Testing] show ?thesis using False TestAndSet
      by (auto simp: spinlock_acquire_round_def spinlock_data_testandset_def split: if_splits)
  qed
next
  case SetHolder
  then show ?thesis using spin_inv_hold [OF assms SetHolder] by (auto simp: spinlock_acquire_round_def)
qed (use assms in \<open>auto simp: spinlock_acquire_round_def\<close>)

lemma spin_steps_inv: "spin_steps x y \<Longrightarrow> spin_inv ow x \<Longrightarrow> \<exists>ow. spin_inv ow y"
proof (induction rule: spin_steps.induct)
  case (spin_begin x y c z)
  then show ?case using spin_inv_begin by blast
next
  case (spin_round x y c sc)
  then show ?case using spin_inv_round by blast
next
  case (spin_release x y c z)
  then show ?case using spin_inv_release by blast
next
  case (spin_clear x y c)
  then show ?case using spin_inv_clear by blast
qed blast

lemma spin_start_inv: "spin_inv None spin_start"
  by (simp add: spin_inv_def spin_owner_def spin_start_def spinlock_init_def)

text \<open>
  C6. Spinlocks work on any number of processors, with the test, the test-and-set (which may fail
  spuriously) and the holder field accessed one at a time: never two processors are past
  \<^verbatim>\<open>spinlock_acquire\<close>; \<^verbatim>\<open>spinlock_do_i_hold\<close> answers yes to exactly the one that is; the assertions of
  \<^verbatim>\<open>spinlock_release\<close> hold for it; the panic of \<^verbatim>\<open>spinlock_acquire\<close> strikes exactly a processor that
  takes the lock twice; and when no processor is in the lock, one that tries gets it within three
  accesses of its own if the store conditional succeeds.
\<close>

theorem spinlock_mutual_exclusion:
  assumes "spin_steps spin_start y"
  shows "(\<forall>c d. spinpcs y c = Holding \<and> spinpcs y d = Holding \<longrightarrow> c = d)
    \<and> (\<forall>c. spinlock_do_i_hold c (splk y) = (spinpcs y c = Holding))
    \<and> (\<forall>c. spinpcs y c = Holding \<longrightarrow> spinlock_release_begin c y \<noteq> None)
    \<and> (\<forall>c. (spinlock_acquire_begin c y = None) = (spinpcs y c = Holding))
    \<and> (\<forall>c. (\<forall>d. \<not> spin_owner (spinpcs y d)) \<and> spinpcs y c = Testing \<longrightarrow>
          spinpcs ((spinlock_acquire_round c True ^^ 3) y) c = Holding)"
proof -
  obtain ow where ok: "spin_inv ow y" using spin_steps_inv [OF assms spin_start_inv] by blast
  have "spinpcs ((spinlock_acquire_round c True ^^ 3) y) c = Holding"
    if "\<forall>d. \<not> spin_owner (spinpcs y d)" "spinpcs y c = Testing" for c
  proof -
    have "ow = None" using spin_invD(1) [OF ok] that(1) by (cases ow) auto
    then have w: "splk_lock (splk y) = 0" using spin_invD(2) [OF ok] by simp
    then have "spinlock_acquire_round c True y = spin_goto c TestAndSet y"
      using that(2) by (simp add: spinlock_acquire_round_def)
    moreover have "spinlock_acquire_round c True (spin_goto c TestAndSet y)
        = spin_goto c SetHolder (spin_goto c TestAndSet y\<lparr>splk := (splk y)\<lparr>splk_lock := 1\<rparr>\<rparr>)"
      using w by (simp add: spinlock_acquire_round_def spin_goto_def spinlock_data_testandset_def)
    ultimately show ?thesis
      by (simp add: eval_nat_numeral) (simp add: spinlock_acquire_round_def spin_goto_def)
  qed
  moreover have "spinlock_release_begin c y \<noteq> None" if "spinpcs y c = Holding" for c
    using spin_invD(3,4) [OF ok, of c] that by (simp add: spinlock_release_begin_def)
  moreover have "(spinlock_acquire_begin c y = None) = (spinpcs y c = Holding)" for c
    using spin_invD(3) [OF ok, of c] by (simp add: spinlock_acquire_begin_def)
  moreover have "spinlock_do_i_hold c (splk y) = (spinpcs y c = Holding)" for c
    using spin_invD(3) [OF ok] by (simp add: spinlock_do_i_hold_def)
  moreover have "c = d" if "spinpcs y c = Holding" "spinpcs y d = Holding" for c d
    using spin_invD(3) [OF ok, of c] spin_invD(3) [OF ok, of d] that by simp
  ultimately show ?thesis by blast
qed

definition spin_held :: spinsys where
  "spin_held = (spinlock_acquire_round 2 True ^^ 3) (the (spinlock_acquire_begin 2 spin_start))"

lemma spin_held_reached: "spin_steps spin_start spin_held"
proof -
  have "spin_steps spin_start (the (spinlock_acquire_begin 2 spin_start))"
    by (rule spin_begin [OF spin_refl, of _ 2])
      (simp_all add: spin_start_def spinlock_acquire_begin_def spinlock_init_def)
  then show ?thesis by (simp add: spin_held_def eval_nat_numeral spin_round)
qed

theorem spinlock_mutual_exclusion_witness:
  "spin_steps spin_start spin_held \<and> spinlock_do_i_hold 2 (splk spin_held)
   \<and> spinlock_acquire_begin 2 spin_held = None"
proof -
  have "spinpcs spin_held 2 = Holding"
    by (simp add: spin_held_def spin_start_def spinlock_acquire_begin_def spinlock_init_def eval_nat_numeral
        spinlock_acquire_round_def spin_goto_def spinlock_data_testandset_def)
  then show ?thesis using spinlock_mutual_exclusion [OF spin_held_reached] spin_held_reached by blast
qed

end
