(* ===== verification/Thread.thy ===== *)
theory Thread
  imports Threadlist Spinlock "HOL-Library.Multiset"
begin

text \<open>
  The thread system: \<^verbatim>\<open>kern/thread/thread.c\<close> with \<^verbatim>\<open>struct thread\<close> and \<^verbatim>\<open>struct cpu\<close>, the clock interrupt of
  \<^verbatim>\<open>kern/thread/clock.c\<close>, and \<^verbatim>\<open>proc_addthread\<close> and \<^verbatim>\<open>proc_remthread\<close> of \<^verbatim>\<open>kern/proc/proc.c\<close>.

  Run queues, wait channels and zombie lists are the sequences that the theory of thread lists
  shows the linked lists to be. A section under a run queue lock is one step. Context switches are
  cut where the code lets the lock go: putting the current thread away, and each round of the
  loop that looks for the next one. A wake-up is cut in two, taking the thread off its channel and
  making it runnable, and a migration into its lock sections, so that the other processors run in
  between. Interrupt levels have their own theory.
\<close>

unbundle bit_operations_syntax

section \<open>Threads and processors\<close>

datatype threadstate = S_RUN | S_READY | S_SLEEP | S_ZOMBIE

record thread =
  t_state :: threadstate
  t_stack :: bool
  t_cpu :: "cpuid option"
  t_proc :: "nat option"

type_synonym tlbshootdown = "32 word"

record cpu =
  c_curthread :: tid
  c_zombies :: "tid list"
  c_hardclocks :: "32 word"
  c_isidle :: bool
  c_runqueue :: "tid list"
  c_ipi_pending :: "32 word"
  c_shootdown :: "tlbshootdown list"
  c_numshootdown :: int

definition IPI_PANIC :: nat where "IPI_PANIC = 0"
definition IPI_OFFLINE :: nat where "IPI_OFFLINE = 1"
definition IPI_UNIDLE :: nat where "IPI_UNIDLE = 2"
definition IPI_TLBSHOOTDOWN :: nat where "IPI_TLBSHOOTDOWN = 3"

definition TLBSHOOTDOWN_MAX :: int where "TLBSHOOTDOWN_MAX = 16"
definition TLBSHOOTDOWN_ALL :: int where "TLBSHOOTDOWN_ALL = -1"

text \<open>
  A migration in progress on a processor: which processor's queue is counted next, with the total
  and the own count so far; how many threads to take off the own queue; which processor is offered
  threads next; putting the rest back.
\<close>

datatype mig_pc =
    MCount nat nat nat
  | MTake nat nat
  | MGive nat nat nat
  | MReturn

record sched =
  threads :: "tid \<Rightarrow> thread option"
  next_tid :: tid
  ncpus :: nat
  cpus :: "cpuid \<Rightarrow> cpu"
  wchans :: "nat \<Rightarrow> tid list"
  waking :: "tid list"
  p_threads :: "nat \<Rightarrow> tid list"
  in_idle :: "cpuid \<Rightarrow> bool"
  mig :: "cpuid \<Rightarrow> mig_pc option"
  victims :: "cpuid \<Rightarrow> tid list"

definition kproc :: nat where
  "kproc = 0"

definition upd_cpu :: "cpuid \<Rightarrow> (cpu \<Rightarrow> cpu) \<Rightarrow> sched \<Rightarrow> sched" where
  "upd_cpu c f s = s\<lparr>cpus := (cpus s)(c := f (cpus s c))\<rparr>"

definition upd_thread :: "tid \<Rightarrow> (thread \<Rightarrow> thread) \<Rightarrow> sched \<Rightarrow> sched option" where
  "upd_thread t f s =
     (case threads s t of None \<Rightarrow> None | Some th \<Rightarrow> Some (s\<lparr>threads := (threads s)(t \<mapsto> f th)\<rparr>))"

section \<open>Interprocessor interrupts\<close>

definition ipi_bit :: "nat \<Rightarrow> 32 word" where
  "ipi_bit code = push_bit code 1"

definition ipi_send :: "cpuid \<Rightarrow> nat \<Rightarrow> sched \<Rightarrow> sched option" where
  "ipi_send c code s =
     do {
       kassert (code < 32);
       Some (upd_cpu c (\<lambda>cp. cp\<lparr>c_ipi_pending := c_ipi_pending cp OR ipi_bit code\<rparr>) s)
     }"

fun ipi_send_all :: "cpuid list \<Rightarrow> cpuid \<Rightarrow> nat \<Rightarrow> sched \<Rightarrow> sched option" where
  "ipi_send_all [] me code s = Some s"
| "ipi_send_all (c # cs) me code s =
     do { s \<leftarrow> (if c \<noteq> me then ipi_send c code s else Some s); ipi_send_all cs me code s }"

definition ipi_broadcast :: "cpuid \<Rightarrow> nat \<Rightarrow> sched \<Rightarrow> sched option" where
  "ipi_broadcast me code s = ipi_send_all [0..<ncpus s] me code s"

text \<open>The array of pending shootdowns has \<^verbatim>\<open>TLBSHOOTDOWN_MAX\<close> entries: a write outside it is \<open>None\<close>.\<close>

definition ipi_tlbshootdown :: "tlbshootdown \<Rightarrow> cpu \<Rightarrow> cpu option" where
  "ipi_tlbshootdown mapping cp =
     do {
       let n = c_numshootdown cp;
       cp \<leftarrow> (if n = TLBSHOOTDOWN_MAX then Some (cp\<lparr>c_numshootdown := TLBSHOOTDOWN_ALL\<rparr>)
             else do {
               kassert (0 \<le> n \<and> n < int (length (c_shootdown cp)));
               Some (cp\<lparr>c_shootdown := (c_shootdown cp)[nat n := mapping], c_numshootdown := n + 1\<rparr>) });
       Some (cp\<lparr>c_ipi_pending := c_ipi_pending cp OR ipi_bit IPI_TLBSHOOTDOWN\<rparr>)
     }"

datatype ipi_result = Ipi_halt | Ipi_done "tlbshootdown list option"

text \<open>
  The result says whether the processor stops for good; if not, which mappings were invalidated:
  \<open>None\<close> for all of them.
\<close>

definition interprocessor_interrupt :: "cpu \<Rightarrow> cpu \<times> ipi_result" where
  "interprocessor_interrupt cp =
     (let bits = c_ipi_pending cp in
      if bit bits IPI_PANIC then (cp, Ipi_halt)
      else if bit bits IPI_OFFLINE then (cp, Ipi_halt)
      else if bit bits IPI_TLBSHOOTDOWN then
        (cp\<lparr>c_numshootdown := 0, c_ipi_pending := 0\<rparr>,
         Ipi_done (if c_numshootdown cp = TLBSHOOTDOWN_ALL then None
                   else Some (take (nat (c_numshootdown cp)) (c_shootdown cp))))
      else (cp\<lparr>c_ipi_pending := 0\<rparr>, Ipi_done (Some [])))"

section \<open>Threads of a process\<close>

definition proc_addthread :: "nat \<Rightarrow> tid \<Rightarrow> bool \<Rightarrow> sched \<Rightarrow> (sched \<times> (errno + unit)) option" where
  "proc_addthread p t mem s =
     do {
       th \<leftarrow> threads s t;
       kassert (t_proc th = None);
       if \<not> mem then Some (s, Inl ENOMEM)
       else do {
         let s = s\<lparr>p_threads := (p_threads s)(p := p_threads s p @ [t])\<rparr>;
         s \<leftarrow> upd_thread t (\<lambda>th. th\<lparr>t_proc := Some p\<rparr>) s;
         Some (s, Inr ())
       }
     }"

definition proc_remthread :: "tid \<Rightarrow> sched \<Rightarrow> sched option" where
  "proc_remthread t s =
     do {
       th \<leftarrow> threads s t;
       p \<leftarrow> t_proc th;
       if t \<in> set (p_threads s p) then
         upd_thread t (\<lambda>th. th\<lparr>t_proc := None\<rparr>) (s\<lparr>p_threads := (p_threads s)(p := remove1 t (p_threads s p))\<rparr>)
       else None
     }"

text \<open>
  \<^verbatim>\<open>proc_exit\<close> between setting the status and destroying the process: the thread leaves its process for the
  kernel's, and no thread may be left behind. The result of \<^verbatim>\<open>proc_addthread\<close>, which may run out of memory, is
  not looked at.
\<close>

definition to_kernel :: "cpuid \<Rightarrow> bool \<Rightarrow> sched \<Rightarrow> sched option" where
  "to_kernel c mem s =
     do {
       let cur = c_curthread (cpus s c);
       th \<leftarrow> threads s cur;
       proc \<leftarrow> t_proc th;
       kassert (proc \<noteq> kproc);
       s \<leftarrow> proc_remthread cur s;
       (s, _) \<leftarrow> proc_addthread kproc cur mem s;
       kassert (p_threads s proc = []);
       Some s
     }"

section \<open>Creating and destroying threads\<close>

definition thread_create :: "bool \<Rightarrow> bool \<Rightarrow> sched \<Rightarrow> sched \<times> tid option" where
  "thread_create mem1 mem2 s =
     (if \<not> mem1 then (s, None)
      else if \<not> mem2 then (s, None)
      else (s\<lparr>threads := (threads s)(next_tid s \<mapsto> \<lparr>t_state = S_READY, t_stack = False, t_cpu = None, t_proc = None\<rparr>),
              next_tid := Suc (next_tid s)\<rparr>, Some (next_tid s)))"

definition thread_destroy :: "cpuid \<Rightarrow> tid \<Rightarrow> sched \<Rightarrow> sched option" where
  "thread_destroy c t s =
     do {
       kassert (t \<noteq> c_curthread (cpus s c));
       th \<leftarrow> threads s t;
       kassert (t_state th \<noteq> S_RUN);
       kassert (t_proc th = None);
       Some (s\<lparr>threads := (threads s)(t := None)\<rparr>)
     }"

fun exorcise_list :: "cpuid \<Rightarrow> tid list \<Rightarrow> sched \<Rightarrow> sched option" where
  "exorcise_list c [] s = Some s"
| "exorcise_list c (z # zs) s =
     do {
       let s = upd_cpu c (\<lambda>cp. cp\<lparr>c_zombies := zs\<rparr>) s;
       kassert (z \<noteq> c_curthread (cpus s c));
       th \<leftarrow> threads s z;
       kassert (t_state th = S_ZOMBIE);
       s \<leftarrow> thread_destroy c z s;
       exorcise_list c zs s
     }"

definition exorcise :: "cpuid \<Rightarrow> sched \<Rightarrow> sched option" where
  "exorcise c s = exorcise_list c (c_zombies (cpus s c)) s"

text \<open>
  \<^verbatim>\<open>cpu_create\<close> for the next processor: its boot thread runs from the start, in the state
  \<^verbatim>\<open>thread_create\<close> gave it (and on the boot processor without a stack of its own); running out of
  memory is a panic.
\<close>

definition cpu_create :: "bool \<Rightarrow> sched \<Rightarrow> sched option" where
  "cpu_create mem s =
     do {
       kassert mem;
       let c = ncpus s;
       let (s, t) = thread_create True True s;
       t \<leftarrow> t;
       let s = s\<lparr>ncpus := Suc c, cpus := (cpus s)(c := \<lparr>c_curthread = t, c_zombies = [], c_hardclocks = 0, c_isidle = False,
                   c_runqueue = [], c_ipi_pending = 0, c_shootdown = replicate (nat TLBSHOOTDOWN_MAX) 0, c_numshootdown = 0\<rparr>)\<rparr>;
       (s, r) \<leftarrow> proc_addthread kproc t True s;
       s \<leftarrow> upd_thread t (\<lambda>th. th\<lparr>t_stack := (c \<noteq> 0), t_cpu := Some c\<rparr>) s;
       Some s
     }"

section \<open>Context switches\<close>

definition thread_make_runnable :: "tid \<Rightarrow> sched \<Rightarrow> sched option" where
  "thread_make_runnable target s =
     do {
       th \<leftarrow> threads s target;
       targetcpu \<leftarrow> t_cpu th;
       s \<leftarrow> upd_thread target (\<lambda>th. th\<lparr>t_state := S_READY\<rparr>) s;
       let s = upd_cpu targetcpu (\<lambda>cp. cp\<lparr>c_runqueue := c_runqueue cp @ [target]\<rparr>) s;
       if c_isidle (cpus s targetcpu) then ipi_send targetcpu IPI_UNIDLE s else Some s
     }"

definition thread_fork :: "cpuid \<Rightarrow> nat option \<Rightarrow> bool \<Rightarrow> bool \<Rightarrow> bool \<Rightarrow> bool \<Rightarrow> sched \<Rightarrow> (sched \<times> (errno + unit)) option" where
  "thread_fork c proc mem1 mem2 mem_stack mem_array s =
     (case thread_create mem1 mem2 s of
        (s, None) \<Rightarrow> Some (s, Inl ENOMEM)
      | (s, Some t) \<Rightarrow>
          if \<not> mem_stack then do { s \<leftarrow> thread_destroy c t s; Some (s, Inl ENOMEM) }
          else do {
            cur \<leftarrow> threads s (c_curthread (cpus s c));
            s \<leftarrow> upd_thread t (\<lambda>th. th\<lparr>t_stack := True, t_cpu := t_cpu cur\<rparr>) s;
            p \<leftarrow> (case proc of None \<Rightarrow> t_proc cur | Some p \<Rightarrow> Some p);
            (s, r) \<leftarrow> proc_addthread p t mem_array s;
            case r of
              Inl e \<Rightarrow> do { s \<leftarrow> thread_destroy c t s; Some (s, Inl e) }
            | Inr _ \<Rightarrow> do { s \<leftarrow> thread_make_runnable t s; Some (s, Inr ()) }
          })"

text \<open>
  \<open>thread_switch\<close> is the part up to the loop that looks for another thread; it leaves the processor
  marked idle. \<open>thread_switch_next\<close> is a round of that loop: with nothing to run the processor
  enters \<^verbatim>\<open>cpu_idle\<close>; otherwise it goes on in the next thread with the end of \<^verbatim>\<open>thread_switch\<close>, or, in a
  new thread, with the start of \<^verbatim>\<open>thread_startup\<close>, which is the same.
\<close>

definition thread_switch :: "cpuid \<Rightarrow> threadstate \<Rightarrow> nat \<Rightarrow> sched \<Rightarrow> sched option" where
  "thread_switch c newstate wc s =
     do {
       let cur = c_curthread (cpus s c);
       th \<leftarrow> threads s cur;
       kassert (t_cpu th = Some c);
       if c_isidle (cpus s c) then Some s
       else if newstate = S_READY \<and> c_runqueue (cpus s c) = [] then Some s
       else do {
         s \<leftarrow> (case newstate of
                 S_RUN \<Rightarrow> None
               | S_READY \<Rightarrow> thread_make_runnable cur s
               | S_SLEEP \<Rightarrow> Some (s\<lparr>wchans := (wchans s)(wc := wchans s wc @ [cur])\<rparr>)
               | S_ZOMBIE \<Rightarrow> Some (upd_cpu c (\<lambda>cp. cp\<lparr>c_zombies := c_zombies cp @ [cur]\<rparr>) s));
         s \<leftarrow> upd_thread cur (\<lambda>th. th\<lparr>t_state := newstate\<rparr>) s;
         Some (upd_cpu c (\<lambda>cp. cp\<lparr>c_isidle := True\<rparr>) s)
       }
     }"

definition thread_switch_next :: "cpuid \<Rightarrow> sched \<Rightarrow> sched option" where
  "thread_switch_next c s =
     (case c_runqueue (cpus s c) of
        [] \<Rightarrow> Some (s\<lparr>in_idle := (in_idle s)(c := True)\<rparr>)
      | next # rest \<Rightarrow>
          do {
            let s = upd_cpu c (\<lambda>cp. cp\<lparr>c_runqueue := rest, c_isidle := False, c_curthread := next\<rparr>) s;
            s \<leftarrow> upd_thread next (\<lambda>th. th\<lparr>t_state := S_RUN\<rparr>) s;
            exorcise c s
          })"

definition thread_yield :: "cpuid \<Rightarrow> sched \<Rightarrow> sched option" where
  "thread_yield c s = thread_switch c S_READY 0 s"

definition thread_exit :: "cpuid \<Rightarrow> sched \<Rightarrow> sched option" where
  "thread_exit c s =
     do {
       let cur = c_curthread (cpus s c);
       th \<leftarrow> threads s cur;
       kassert (t_proc th = Some kproc);
       s \<leftarrow> proc_remthread cur s;
       th \<leftarrow> threads s cur;
       kassert (t_proc th = None);
       thread_switch c S_ZOMBIE 0 s
     }"

section \<open>Wait channels\<close>

text \<open>
  The assertions at the start are on the context of the call: whether it is in an interrupt handler, whether it
  holds the spinlock of the channel, and how many spinlocks its processor holds.
\<close>

definition wchan_sleep_on :: "bool \<Rightarrow> bool \<Rightarrow> nat \<Rightarrow> cpuid \<Rightarrow> nat \<Rightarrow> sched \<Rightarrow> sched option" where
  "wchan_sleep_on t_in_interrupt i_hold nspinlocks c wc s =
     do {
       kassert (\<not> t_in_interrupt);
       kassert i_hold;
       kassert (nspinlocks = 1);
       thread_switch c S_SLEEP wc s
     }"

definition wchan_wakeone_take :: "bool \<Rightarrow> nat \<Rightarrow> sched \<Rightarrow> sched option" where
  "wchan_wakeone_take i_hold wc s =
     do {
       kassert i_hold;
       case wchans s wc of
         [] \<Rightarrow> Some s
       | target # rest \<Rightarrow> Some (s\<lparr>wchans := (wchans s)(wc := rest), waking := waking s @ [target]\<rparr>)
     }"

definition wchan_wakeall_take :: "bool \<Rightarrow> nat \<Rightarrow> sched \<Rightarrow> sched option" where
  "wchan_wakeall_take i_hold wc s =
     do {
       kassert i_hold;
       Some (s\<lparr>wchans := (wchans s)(wc := []), waking := waking s @ wchans s wc\<rparr>)
     }"

definition wake_target :: "tid \<Rightarrow> sched \<Rightarrow> sched option" where
  "wake_target t s = thread_make_runnable t (s\<lparr>waking := remove1 t (waking s)\<rparr>)"

section \<open>Migration and the clock\<close>

definition mig_count :: "cpuid \<Rightarrow> nat \<Rightarrow> nat \<Rightarrow> nat \<Rightarrow> sched \<Rightarrow> sched" where
  "mig_count c i tot my s =
     (if i < ncpus s then
        let n = length (c_runqueue (cpus s i)) in
        s\<lparr>mig := (mig s)(c \<mapsto> MCount (Suc i) (tot + n) (if i = c then n else my))\<rparr>
      else
        let one_share = divroundup tot (ncpus s) in
        if my < one_share then s\<lparr>mig := (mig s)(c := None)\<rparr>
        else s\<lparr>mig := (mig s)(c \<mapsto> MTake one_share (my - one_share))\<rparr>)"

text \<open>Taking \<open>n\<close> threads off the tail of the queue, each put before the ones taken earlier.\<close>

fun take_victims :: "nat \<Rightarrow> tid list \<Rightarrow> tid list \<Rightarrow> (tid list \<times> tid list) option" where
  "take_victims 0 q vs = Some (q, vs)"
| "take_victims (Suc n) q vs = (if q = [] then None else take_victims n (butlast q) (last q # vs))"

definition mig_take :: "cpuid \<Rightarrow> nat \<Rightarrow> nat \<Rightarrow> sched \<Rightarrow> sched option" where
  "mig_take c one_share to_send s =
     do {
       (q, vs) \<leftarrow> take_victims to_send (c_runqueue (cpus s c)) [];
       Some ((upd_cpu c (\<lambda>cp. cp\<lparr>c_runqueue := q\<rparr>) s)
               \<lparr>victims := (victims s)(c := vs), mig := (mig s)(c \<mapsto> MGive 0 one_share to_send)\<rparr>)
     }"

text \<open>
  Giving threads to processor \<open>d\<close>: the \<^verbatim>\<open>while\<close> loop under its run queue lock.
\<close>

fun give_victims :: "tid \<Rightarrow> cpuid \<Rightarrow> nat \<Rightarrow> nat \<Rightarrow> tid list \<Rightarrow> sched \<Rightarrow> (tid list \<times> nat \<times> sched) option" where
  "give_victims cur d one_share 0 vs s = Some (vs, 0, s)"
| "give_victims cur d one_share (Suc to_send) vs s =
     (if length (c_runqueue (cpus s d)) < one_share then
        case vs of
          [] \<Rightarrow> None
        | t # vs \<Rightarrow>
            if t = cur then give_victims cur d one_share to_send (vs @ [t]) s
            else do {
              s \<leftarrow> upd_thread t (\<lambda>th. th\<lparr>t_cpu := Some d\<rparr>) s;
              let s = upd_cpu d (\<lambda>cp. cp\<lparr>c_runqueue := c_runqueue cp @ [t]\<rparr>) s;
              s \<leftarrow> (if c_isidle (cpus s d) then ipi_send d IPI_UNIDLE s else Some s);
              give_victims cur d one_share to_send vs s
            }
      else Some (vs, Suc to_send, s))"

definition mig_give :: "cpuid \<Rightarrow> nat \<Rightarrow> nat \<Rightarrow> nat \<Rightarrow> sched \<Rightarrow> sched option" where
  "mig_give c i one_share to_send s =
     (if i < ncpus s \<and> to_send > 0 then
        if i = c then Some (s\<lparr>mig := (mig s)(c \<mapsto> MGive (Suc i) one_share to_send)\<rparr>)
        else do {
          (vs, n, s) \<leftarrow> give_victims (c_curthread (cpus s c)) i one_share to_send (victims s c) s;
          Some (s\<lparr>victims := (victims s)(c := vs), mig := (mig s)(c \<mapsto> MGive (Suc i) one_share n)\<rparr>)
        }
      else Some (s\<lparr>mig := (mig s)(c \<mapsto> MReturn)\<rparr>))"

definition mig_return :: "cpuid \<Rightarrow> sched \<Rightarrow> sched" where
  "mig_return c s =
     (upd_cpu c (\<lambda>cp. cp\<lparr>c_runqueue := c_runqueue cp @ victims s c\<rparr>) s)
       \<lparr>victims := (victims s)(c := []), mig := (mig s)(c := None)\<rparr>"

definition thread_consider_migration :: "cpuid \<Rightarrow> sched \<Rightarrow> sched option" where
  "thread_consider_migration c s =
     (case mig s c of
        None \<Rightarrow> Some (s\<lparr>mig := (mig s)(c \<mapsto> MCount 0 0 0)\<rparr>)
      | Some (MCount i tot my) \<Rightarrow> Some (mig_count c i tot my s)
      | Some (MTake one_share to_send) \<Rightarrow> mig_take c one_share to_send s
      | Some (MGive i one_share to_send) \<Rightarrow> mig_give c i one_share to_send s
      | Some MReturn \<Rightarrow> Some (mig_return c s))"

definition MIGRATE_HARDCLOCKS :: nat where "MIGRATE_HARDCLOCKS = 16"

text \<open>
  \<^verbatim>\<open>hardclock\<close> up to the call of \<^verbatim>\<open>thread_consider_migration\<close>; the \<^verbatim>\<open>thread_yield\<close> at its end comes when
  that is over. The interrupt takes an idle processor out of \<^verbatim>\<open>cpu_idle\<close>.
\<close>

definition hardclock :: "cpuid \<Rightarrow> sched \<Rightarrow> sched option" where
  "hardclock c s =
     do {
       let s = upd_cpu c (\<lambda>cp. cp\<lparr>c_hardclocks := c_hardclocks cp + 1\<rparr>) (s\<lparr>in_idle := (in_idle s)(c := False)\<rparr>);
       if unat (c_hardclocks (cpus s c)) mod MIGRATE_HARDCLOCKS = 0
       then thread_consider_migration c s else Some s
     }"

end
