(* ===== verification/Thread_Safety.thy ===== *)
theory Thread_Safety
  imports Thread
begin

text \<open>
  Why the thread system is safe. Every thread is in exactly one place: running, on a run queue,
  among the victims of a migration, a zombie, on a wait channel, or on its way from a channel to a
  run queue. The place fits the thread's state and processor. The steps of all processors, in any
  order, keep this, and an assertion fails only where a caller breaks the rules of the interface.
\<close>

unbundle bit_operations_syntax

section \<open>Places\<close>

datatype place = PRun cpuid | PQueue cpuid | PVictim cpuid | PZombie cpuid | PChan nat | PWaking

fun place_at :: "sched \<Rightarrow> place \<Rightarrow> tid list" where
  "place_at s (PRun c) = (if c < ncpus s \<and> \<not> c_isidle (cpus s c) then [c_curthread (cpus s c)] else [])"
| "place_at s (PQueue c) = c_runqueue (cpus s c)"
| "place_at s (PVictim c) = victims s c"
| "place_at s (PZombie c) = c_zombies (cpus s c)"
| "place_at s (PChan w) = wchans s w"
| "place_at s PWaking = waking s"

lemma place_atI:
  assumes "\<And>c. place_at s (PRun c) = L (PRun c)" "\<And>c. place_at s (PQueue c) = L (PQueue c)"
    "\<And>c. place_at s (PVictim c) = L (PVictim c)" "\<And>c. place_at s (PZombie c) = L (PZombie c)"
    "\<And>w. place_at s (PChan w) = L (PChan w)" "place_at s PWaking = L PWaking"
  shows "place_at s = L"
proof
  fix p show "place_at s p = L p" using assms by (cases p) simp_all
qed

fun fits :: "place \<Rightarrow> thread \<Rightarrow> bool" where
  "fits (PRun c) th = (t_state th \<in> {S_RUN, S_READY} \<and> t_cpu th = Some c)"
| "fits (PQueue c) th = (t_state th = S_READY \<and> t_cpu th = Some c)"
| "fits (PVictim c) th = (t_state th = S_READY \<and> t_cpu th = Some c)"
| "fits (PZombie c) th = (t_state th = S_ZOMBIE \<and> t_cpu th = Some c \<and> t_proc th = None)"
| "fits (PChan w) th = (t_state th = S_SLEEP \<and> t_cpu th \<noteq> None)"
| "fits PWaking th = (t_state th = S_SLEEP \<and> t_cpu th \<noteq> None)"

definition placed :: "('p \<Rightarrow> tid list) \<Rightarrow> (tid \<Rightarrow> thread option) \<Rightarrow> ('p \<Rightarrow> thread \<Rightarrow> bool) \<Rightarrow> bool" where
  "placed L T F \<longleftrightarrow> (\<forall>p. distinct (L p)) \<and> (\<forall>p q. p \<noteq> q \<longrightarrow> set (L p) \<inter> set (L q) = {}) \<and>
     (\<forall>t. (T t \<noteq> None) = (\<exists>p. t \<in> set (L p))) \<and> (\<forall>p. \<forall>t \<in> set (L p). \<forall>th. T t = Some th \<longrightarrow> F p th)"

lemma placedD:
  assumes "placed L T F"
  shows "distinct (L p)" "t \<in> set (L p) \<Longrightarrow> t \<in> set (L q) \<Longrightarrow> p = q"
    "t \<in> set (L p) \<Longrightarrow> \<exists>th. T t = Some th \<and> F p th" "T t = Some th \<Longrightarrow> \<exists>p. t \<in> set (L p) \<and> F p th"
proof -
  show "distinct (L p)" using assms by (simp add: placed_def)
  show "p = q" if "t \<in> set (L p)" "t \<in> set (L q)"
    using assms that unfolding placed_def by (metis disjoint_iff)
  show "\<exists>th. T t = Some th \<and> F p th" if "t \<in> set (L p)"
  proof -
    obtain th where "T t = Some th" using assms \<open>t \<in> set (L p)\<close> unfolding placed_def by (cases "T t") blast+
    then show ?thesis using assms that unfolding placed_def by blast
  qed
  show "\<exists>p. t \<in> set (L p) \<and> F p th" if "T t = Some th"
    using assms that unfolding placed_def by (metis option.distinct(1))
qed

lemma placed_move:
  assumes "placed L T F" "p \<noteq> q" "mset xs + mset ys = mset (L p) + mset (L q)"
    and "\<And>t th. t \<in> set xs \<Longrightarrow> T t = Some th \<Longrightarrow> F p th"
    and "\<And>t th. t \<in> set ys \<Longrightarrow> T t = Some th \<Longrightarrow> F q th"
  shows "placed (L(p := xs, q := ys)) T F"
proof -
  have m: "mset (xs @ ys) = mset (L p @ L q)" using assms(3) by simp
  have "distinct (L p @ L q)" using assms(1,2) by (auto simp: placed_def)
  then have d: "distinct (xs @ ys)" using m by (metis mset_eq_imp_distinct_iff)
  have u: "set xs \<union> set ys = set (L p) \<union> set (L q)" using mset_eq_setD [OF m] by simp
  have "set (L r) \<inter> (set xs \<union> set ys) = {}" if "r \<noteq> p" "r \<noteq> q" for r
    using assms(1) that unfolding u placed_def by blast
  then have dis: "r \<noteq> r' \<Longrightarrow> set ((L(p := xs, q := ys)) r) \<inter> set ((L(p := xs, q := ys)) r') = {}" for r r'
    using d assms(1,2) by (auto simp: placed_def)
  have "(\<exists>r. t \<in> set ((L(p := xs, q := ys)) r)) = (\<exists>r. t \<in> set (L r))" for t
  proof -
    have "t \<in> set (L p) \<or> t \<in> set (L q) \<longleftrightarrow> t \<in> set xs \<or> t \<in> set ys" using u by blast
    then show ?thesis using assms(2) by (metis fun_upd_apply)
  qed
  then show ?thesis using assms(1,4,5) d dis unfolding placed_def by auto
qed

lemma placed_move1:
  assumes "placed L T F" "p \<noteq> q" "t \<in> set (L p)" "F q th"
    and L': "L' = L(p := remove1 t (L p), q := L q @ [t])"
  shows "placed L' (T(t \<mapsto> th)) F"
proof -
  have notin: "t \<notin> set (L r)" if "r \<noteq> p" for r using placedD(2) [OF assms(1,3)] that by blast
  have T: "\<exists>th. T t = Some th" using placedD(3) [OF assms(1,3)] by blast
  have "placed L (T(t \<mapsto> th)) (\<lambda>r th'. True)" using assms(1) T unfolding placed_def by auto
  then have "placed L' (T(t \<mapsto> th)) (\<lambda>r th'. True)"
    unfolding L' by (rule placed_move) (use assms(2,3) in auto)
  moreover have "F r th'" if "u \<in> set (L' r)" "(T(t \<mapsto> th)) u = Some th'" for r u th'
  proof (cases "u = t")
    case True
    then have "r = q" using that(1) notin placedD(1) [OF assms(1), of p] assms(2) L' by (auto split: if_splits)
    then show ?thesis using that(2) True assms(4) by simp
  next
    case False
    then have "u \<in> set (L r)" using that(1) notin assms(2) L' by (auto split: if_splits dest: notin_set_remove1)
    then show ?thesis using placedD(3) [OF assms(1)] that(2) False by fastforce
  qed
  ultimately show ?thesis unfolding placed_def by blast
qed

lemma placed_new:
  assumes "placed L T F" "T t = None" "F q th"
  shows "placed (L(q := L q @ [t])) (T(t \<mapsto> th)) F"
proof -
  have no: "t \<notin> set (L r)" for r using placedD(3) [OF assms(1)] assms(2) by fastforce
  have "F r th'" if "u \<in> set ((L(q := L q @ [t])) r)" "(T(t \<mapsto> th)) u = Some th'" for r u th'
  proof (cases "u = t")
    case True
    then have "r = q" using that(1) no by (auto split: if_splits)
    then show ?thesis using that(2) True assms(3) by simp
  next
    case False
    then have "u \<in> set (L r)" using that(1) by (auto split: if_splits)
    then show ?thesis using placedD(3) [OF assms(1)] that(2) False by fastforce
  qed
  moreover have "((T(t \<mapsto> th)) u \<noteq> None) = (\<exists>r. u \<in> set ((L(q := L q @ [t])) r))" for u
    using assms(1) unfolding placed_def by (cases "u = t") (auto split: if_splits)
  moreover have "distinct ((L(q := L q @ [t])) r)" for r using assms(1) no unfolding placed_def by simp
  moreover have "set ((L(q := L q @ [t])) r) \<inter> set ((L(q := L q @ [t])) r') = {}" if "r \<noteq> r'" for r r'
    using assms(1) no that unfolding placed_def by auto
  ultimately show ?thesis unfolding placed_def by blast
qed

lemma placed_drop:
  assumes "placed L T F" "T' = (\<lambda>t. if t \<in> set (L q) then None else T t)"
  shows "placed (L(q := [])) T' F"
  using assms(1) unfolding assms(2) placed_def by (auto split: if_splits)

section \<open>The invariant\<close>

text \<open>
  \<open>pin_ok\<close>: a processor's current thread, whose stack it is on even while it idles, belongs to it.
  \<open>idle_ok\<close>: a processor asleep in \<^verbatim>\<open>cpu_idle\<close> while its run queue is not empty has an interrupt
  pending. \<open>mig_ok\<close>: a migration never wants more threads than it has.
\<close>

definition pin_ok :: "sched \<Rightarrow> bool" where
  "pin_ok s \<longleftrightarrow> (\<forall>c < ncpus s. \<exists>th. threads s (c_curthread (cpus s c)) = Some th \<and> t_cpu th = Some c)"

definition range_ok :: "sched \<Rightarrow> bool" where
  "range_ok s \<longleftrightarrow> (\<forall>t th. threads s t = Some th \<longrightarrow> t < next_tid s \<and> (\<forall>c. t_cpu th = Some c \<longrightarrow> c < ncpus s))"

definition proc_ok :: "sched \<Rightarrow> bool" where
  "proc_ok s \<longleftrightarrow> (\<forall>p. distinct (p_threads s p) \<and>
     (\<forall>t. t \<in> set (p_threads s p) \<longleftrightarrow> (\<exists>th. threads s t = Some th \<and> t_proc th = Some p)))"

definition cpu_idle_ok :: "bool \<Rightarrow> mig_pc option \<Rightarrow> cpu \<Rightarrow> bool" where
  "cpu_idle_ok inidle m cp \<longleftrightarrow>
     (inidle \<longrightarrow> c_isidle cp \<and> m = None \<and> (c_runqueue cp \<noteq> [] \<longrightarrow> bit (c_ipi_pending cp) IPI_UNIDLE)) \<and>
     \<not> bit (c_ipi_pending cp) IPI_PANIC \<and> \<not> bit (c_ipi_pending cp) IPI_OFFLINE"

fun cpu_mig_ok :: "mig_pc option \<Rightarrow> nat \<Rightarrow> tid list \<Rightarrow> bool" where
  "cpu_mig_ok None n vs = (vs = [])"
| "cpu_mig_ok (Some (MCount i tot my)) n vs = (vs = [] \<and> my \<le> n)"
| "cpu_mig_ok (Some (MTake share k)) n vs = (vs = [] \<and> k \<le> n)"
| "cpu_mig_ok (Some (MGive i share k)) n vs = (k \<le> length vs)"
| "cpu_mig_ok (Some MReturn) n vs = True"

definition idle_ok :: "sched \<Rightarrow> bool" where
  "idle_ok s \<longleftrightarrow> (\<forall>c. cpu_idle_ok (in_idle s c) (mig s c) (cpus s c))"

definition mig_ok :: "sched \<Rightarrow> bool" where
  "mig_ok s \<longleftrightarrow> (\<forall>c. cpu_mig_ok (mig s c) (length (c_runqueue (cpus s c))) (victims s c))"

definition sched_ok :: "sched \<Rightarrow> bool" where
  "sched_ok s \<longleftrightarrow> placed (place_at s) (threads s) fits \<and> pin_ok s \<and> range_ok s \<and> proc_ok s \<and> idle_ok s \<and> mig_ok s"

lemma sched_okD:
  assumes "sched_ok s"
  shows "placed (place_at s) (threads s) fits" "pin_ok s" "range_ok s" "proc_ok s" "idle_ok s" "mig_ok s"
  using assms by (auto simp: sched_ok_def)

lemma cpu_mig_ok_mono: "cpu_mig_ok m n vs \<Longrightarrow> n \<le> n' \<Longrightarrow> cpu_mig_ok m n' vs"
  by (cases "(m, n, vs)" rule: cpu_mig_ok.cases) auto

lemma mig_okD: "mig_ok s \<Longrightarrow> cpu_mig_ok (mig s c) (length (c_runqueue (cpus s c))) (victims s c)"
  by (simp add: mig_ok_def)

lemma idle_okD: "idle_ok s \<Longrightarrow> cpu_idle_ok (in_idle s c) (mig s c) (cpus s c)"
  by (simp add: idle_ok_def)

text \<open>The invariants that look at \<open>threads\<close> only at the processor and the process of each thread.\<close>

lemma proc_ok_upd:
  assumes "proc_ok s" "threads s t = Some th" "t_proc th' = t_proc th"
    and "threads s' = (threads s)(t \<mapsto> th')" "p_threads s' = p_threads s"
  shows "proc_ok s'"
  using assms by (auto simp: proc_ok_def)

lemma range_ok_upd:
  assumes "range_ok s" "threads s t = Some th" "\<And>c. t_cpu th' = Some c \<Longrightarrow> c < ncpus s"
    and "threads s' = (threads s)(t \<mapsto> th')" "next_tid s' = next_tid s" "ncpus s' = ncpus s"
  shows "range_ok s'"
  using assms by (auto simp: range_ok_def)

lemma pin_ok_upd:
  assumes "pin_ok s" "threads s t = Some th" "t_cpu th' = t_cpu th"
    and "threads s' = (threads s)(t \<mapsto> th')" "ncpus s' = ncpus s"
    and "\<And>c. c_curthread (cpus s' c) = c_curthread (cpus s c)"
  shows "pin_ok s'"
  using assms by (fastforce simp: pin_ok_def)

lemma idle_ok_upd:
  assumes "idle_ok s" "in_idle s' = in_idle s" "mig s' = mig s"
    and "cpus s' = (cpus s)(c := cp)" "cpu_idle_ok (in_idle s c) (mig s c) cp"
  shows "idle_ok s'"
  using assms by (auto simp: idle_ok_def)

lemma mig_ok_upd:
  assumes "mig_ok s" "victims s' = victims s" "mig s' = mig s"
    and "cpus s' = (cpus s)(c := cp)" "length (c_runqueue (cpus s c)) \<le> length (c_runqueue cp)"
  shows "mig_ok s'"
  using assms by (auto simp: mig_ok_def intro: cpu_mig_ok_mono)

section \<open>What the operations compute\<close>

lemma bit_or_ipi: "k < 32 \<Longrightarrow> bit (x OR ipi_bit k) n \<longleftrightarrow> bit x n \<or> n = k"
  unfolding ipi_bit_def bit_or_iff bit_push_bit_iff by (auto simp: bit_1_iff)

lemma bit_unidle [simp]:
  "bit (x OR ipi_bit IPI_UNIDLE) IPI_UNIDLE"
  "bit (x OR ipi_bit IPI_UNIDLE) IPI_PANIC = bit x IPI_PANIC"
  "bit (x OR ipi_bit IPI_UNIDLE) IPI_OFFLINE = bit x IPI_OFFLINE"
  by (simp_all add: bit_or_ipi IPI_UNIDLE_def IPI_PANIC_def IPI_OFFLINE_def)

definition enqueued :: "tid \<Rightarrow> cpu \<Rightarrow> cpu" where
  "enqueued t cp = cp\<lparr>c_runqueue := c_runqueue cp @ [t],
     c_ipi_pending := (if c_isidle cp then c_ipi_pending cp OR ipi_bit IPI_UNIDLE else c_ipi_pending cp)\<rparr>"

lemma enqueued_simps [simp]:
  "c_runqueue (enqueued t cp) = c_runqueue cp @ [t]" "c_isidle (enqueued t cp) = c_isidle cp"
  "c_curthread (enqueued t cp) = c_curthread cp" "c_zombies (enqueued t cp) = c_zombies cp"
  by (simp_all add: enqueued_def)

lemma enqueued_idle_ok: "cpu_idle_ok b m cp \<Longrightarrow> cpu_idle_ok b m (enqueued t cp)"
  by (auto simp: cpu_idle_ok_def enqueued_def)

lemma thread_make_runnable_eq:
  assumes "threads s t = Some th" "t_cpu th = Some d"
  shows "thread_make_runnable t s =
    Some (s\<lparr>threads := (threads s)(t \<mapsto> th\<lparr>t_state := S_READY\<rparr>), cpus := (cpus s)(d := enqueued t (cpus s d))\<rparr>)"
  using assms
  by (simp add: thread_make_runnable_def upd_thread_def upd_cpu_def ipi_send_def enqueued_def IPI_UNIDLE_def)

lemma wake_ok:
  assumes "sched_ok s" "t \<in> set (waking s)"
  shows "\<exists>s'. wake_target t s = Some s' \<and> sched_ok s'"
proof -
  note ok = sched_okD [OF assms(1)]
  have "t \<in> set (place_at s PWaking)" using assms(2) by simp
  from placedD(3) [OF ok(1) this] obtain th where th: "threads s t = Some th" "fits PWaking th" by blast
  then obtain d where d: "t_cpu th = Some d" by auto
  have dn: "d < ncpus s" using ok(3) th(1) d by (auto simp: range_ok_def)
  let ?th = "th\<lparr>t_state := S_READY\<rparr>"
  let ?s = "s\<lparr>waking := remove1 t (waking s), threads := (threads s)(t \<mapsto> ?th), cpus := (cpus s)(d := enqueued t (cpus s d))\<rparr>"
  have w: "wake_target t s = Some ?s"
    using thread_make_runnable_eq [of "s\<lparr>waking := remove1 t (waking s)\<rparr>" t th d] th(1) d by (simp add: wake_target_def)
  have pl: "place_at ?s = (place_at s)(PWaking := remove1 t (place_at s PWaking), PQueue d := place_at s (PQueue d) @ [t])"
    by (rule place_atI) auto
  have "placed (place_at ?s) (threads ?s) fits"
    using placed_move1 [OF ok(1) _ _ _ pl, of ?th] assms(2) th(2) d by simp
  moreover have "pin_ok ?s" by (rule pin_ok_upd [OF ok(2) th(1), of ?th]) auto
  moreover have "range_ok ?s" by (rule range_ok_upd [OF ok(3) th(1), of ?th]) (use d dn in auto)
  moreover have "proc_ok ?s" by (rule proc_ok_upd [OF ok(4) th(1), of ?th]) auto
  moreover have "idle_ok ?s"
    by (rule idle_ok_upd [OF ok(5), where c = d and cp = "enqueued t (cpus s d)"])
      (use ok(5) in \<open>auto simp: idle_ok_def intro: enqueued_idle_ok\<close>)
  moreover have "mig_ok ?s"
    by (rule mig_ok_upd [OF ok(6), where c = d and cp = "enqueued t (cpus s d)"]) auto
  ultimately show ?thesis using w by (auto simp: sched_ok_def)
qed

section \<open>Leaving and entering a processor\<close>

text \<open>The process of the current thread of a processor; a thread may have none.\<close>

definition curproc :: "cpuid \<Rightarrow> sched \<Rightarrow> nat option" where
  "curproc c s = Option.bind (threads s (c_curthread (cpus s c))) t_proc"

lemma running_thread:
  assumes "sched_ok s" "c < ncpus s" "\<not> c_isidle (cpus s c)"
  shows "\<exists>th. threads s (c_curthread (cpus s c)) = Some th \<and> fits (PRun c) th"
  using placedD(3) [OF sched_okD(1) [OF assms(1)], of "c_curthread (cpus s c)" "PRun c"] assms(2,3) by simp

lemma leave_cpu:
  assumes ok: "sched_ok s" and c: "c < ncpus s" "\<not> c_isidle (cpus s c)"
    and th: "threads s (c_curthread (cpus s c)) = Some th"
    and q: "q \<noteq> PRun c" "fits q th'" "t_cpu th' = t_cpu th"
    and pl: "place_at s' = (place_at s)(PRun c := [], q := place_at s q @ [c_curthread (cpus s c)])"
    and T: "threads s' = (threads s)(c_curthread (cpus s c) \<mapsto> th')" "ncpus s' = ncpus s" "next_tid s' = next_tid s"
    and cp: "cpus s' = (cpus s)(c := cp)" "c_curthread cp = c_curthread (cpus s c)"
      "length (c_runqueue (cpus s c)) \<le> length (c_runqueue cp)" "c_ipi_pending cp = c_ipi_pending (cpus s c)"
    and fr: "in_idle s' = in_idle s" "mig s' = mig s" "victims s' = victims s" and pr: "proc_ok s'"
  shows "sched_ok s'"
proof -
  note ok = sched_okD [OF ok]
  have run: "place_at s (PRun c) = [c_curthread (cpus s c)]" using c by simp
  have "placed (place_at s') (threads s') fits"
    using placed_move1 [OF ok(1) q(1) [symmetric], of "c_curthread (cpus s c)" th' "place_at s'"] pl q(2) run T c by simp
  moreover have "pin_ok s'" by (rule pin_ok_upd [OF ok(2) th q(3) T(1,2)]) (use cp in auto)
  moreover have "range_ok s'"
    by (rule range_ok_upd [OF ok(3) th _ T(1) T(3) T(2)]) (use ok(3) th q(3) in \<open>auto simp: range_ok_def\<close>)
  moreover have "idle_ok s'"
    by (rule idle_ok_upd [OF ok(5) fr(1,2) cp(1)]) (use ok(5) c cp in \<open>auto simp: idle_ok_def cpu_idle_ok_def\<close>)
  moreover have "mig_ok s'" by (rule mig_ok_upd [OF ok(6) fr(3,2) cp(1,3)])
  ultimately show ?thesis using pr by (auto simp: sched_ok_def)
qed

lemma switch_ready_ok:
  assumes ok: "sched_ok s" and c: "c < ncpus s" "\<not> c_isidle (cpus s c)"
  shows "\<exists>s'. thread_switch c S_READY w s = Some s' \<and> sched_ok s'"
proof -
  obtain th where th: "threads s (c_curthread (cpus s c)) = Some th" "fits (PRun c) th"
    using running_thread [OF ok c] by blast
  then have tc: "t_cpu th = Some c" by simp
  show ?thesis
  proof (cases "c_runqueue (cpus s c) = []")
    case True
    then show ?thesis using th(1) tc c ok by (simp add: thread_switch_def)
  next
    case False
    let ?cur = "c_curthread (cpus s c)"
    let ?cp = "(cpus s c)\<lparr>c_runqueue := c_runqueue (cpus s c) @ [?cur], c_isidle := True\<rparr>"
    let ?s = "s\<lparr>threads := (threads s)(?cur \<mapsto> th\<lparr>t_state := S_READY\<rparr>), cpus := (cpus s)(c := ?cp)\<rparr>"
    have eq: "thread_switch c S_READY w s = Some ?s"
      using th(1) tc c False
      by (simp add: thread_switch_def Let_def thread_make_runnable_eq enqueued_def upd_thread_def upd_cpu_def)
    have pl: "place_at ?s = (place_at s)(PRun c := [], PQueue c := place_at s (PQueue c) @ [?cur])"
      by (rule place_atI) (use c in auto)
    have "sched_ok ?s"
      by (rule leave_cpu [OF ok c th(1), of "PQueue c" "th\<lparr>t_state := S_READY\<rparr>" ?s ?cp])
        (use th(2) tc c proc_ok_upd [OF sched_okD(4) [OF ok] th(1), of "th\<lparr>t_state := S_READY\<rparr>" ?s]
          in \<open>simp_all add: pl\<close>)
    with eq show ?thesis by blast
  qed
qed

lemma switch_sleep_ok:
  assumes ok: "sched_ok s" and c: "c < ncpus s" "\<not> c_isidle (cpus s c)"
  shows "\<exists>s'. thread_switch c S_SLEEP w s = Some s' \<and> sched_ok s'"
proof -
  obtain th where th: "threads s (c_curthread (cpus s c)) = Some th" "fits (PRun c) th"
    using running_thread [OF ok c] by blast
  then have tc: "t_cpu th = Some c" by simp
  let ?cur = "c_curthread (cpus s c)"
  let ?cp = "(cpus s c)\<lparr>c_isidle := True\<rparr>"
  let ?s = "s\<lparr>threads := (threads s)(?cur \<mapsto> th\<lparr>t_state := S_SLEEP\<rparr>), cpus := (cpus s)(c := ?cp),
      wchans := (wchans s)(w := wchans s w @ [?cur])\<rparr>"
  have eq: "thread_switch c S_SLEEP w s = Some ?s"
    using th(1) tc c by (simp add: thread_switch_def Let_def upd_thread_def upd_cpu_def)
  have pl: "place_at ?s = (place_at s)(PRun c := [], PChan w := place_at s (PChan w) @ [?cur])"
    by (rule place_atI) (use c in auto)
  have "sched_ok ?s"
    by (rule leave_cpu [OF ok c th(1), of "PChan w" "th\<lparr>t_state := S_SLEEP\<rparr>" ?s ?cp])
      (use th(2) tc c proc_ok_upd [OF sched_okD(4) [OF ok] th(1), of "th\<lparr>t_state := S_SLEEP\<rparr>" ?s]
        in \<open>simp_all add: pl\<close>)
  with eq show ?thesis by blast
qed

lemma proc_remthread_eq:
  assumes "proc_ok s" "threads s t = Some th" "t_proc th = Some p"
  shows "proc_remthread t s = Some (s\<lparr>threads := (threads s)(t \<mapsto> th\<lparr>t_proc := None\<rparr>),
    p_threads := (p_threads s)(p := remove1 t (p_threads s p))\<rparr>)"
proof -
  have "t \<in> set (p_threads s p)" using assms by (auto simp: proc_ok_def)
  then show ?thesis using assms(2,3) by (simp add: proc_remthread_def upd_thread_def)
qed

lemma proc_ok_remove:
  assumes "proc_ok s" "threads s t = Some th" "t_proc th = Some p" "t_proc th' = None"
    and "threads s' = (threads s)(t \<mapsto> th')" "p_threads s' = (p_threads s)(p := remove1 t (p_threads s p))"
  shows "proc_ok s'"
  using assms by (auto simp: proc_ok_def)

lemma thread_exit_ok:
  assumes ok: "sched_ok s" and c: "c < ncpus s" "\<not> c_isidle (cpus s c)"
    and k: "curproc c s = Some kproc"
  shows "\<exists>s'. thread_exit c s = Some s' \<and> sched_ok s'"
proof -
  obtain th where th: "threads s (c_curthread (cpus s c)) = Some th" "fits (PRun c) th"
    using running_thread [OF ok c] by blast
  then have tc: "t_cpu th = Some c" by simp
  have pk: "t_proc th = Some kproc" using k th(1) by (simp add: curproc_def)
  let ?cur = "c_curthread (cpus s c)"
  let ?th = "th\<lparr>t_proc := None, t_state := S_ZOMBIE\<rparr>"
  let ?cp = "(cpus s c)\<lparr>c_zombies := c_zombies (cpus s c) @ [?cur], c_isidle := True\<rparr>"
  let ?s = "s\<lparr>threads := (threads s)(?cur \<mapsto> ?th), cpus := (cpus s)(c := ?cp),
      p_threads := (p_threads s)(kproc := remove1 ?cur (p_threads s kproc))\<rparr>"
  have eq: "thread_exit c s = Some ?s"
    using th(1) tc c pk proc_remthread_eq [OF sched_okD(4) [OF ok] th(1) pk]
    by (simp add: thread_exit_def thread_switch_def Let_def upd_thread_def upd_cpu_def)
  have pl: "place_at ?s = (place_at s)(PRun c := [], PZombie c := place_at s (PZombie c) @ [?cur])"
    by (rule place_atI) (use c in auto)
  have "sched_ok ?s"
    by (rule leave_cpu [OF ok c th(1), of "PZombie c" ?th ?s ?cp])
      (use th(2) tc c proc_ok_remove [OF sched_okD(4) [OF ok] th(1) pk, of ?th ?s]
        in \<open>simp_all add: pl\<close>)
  with eq show ?thesis by blast
qed

lemma thread_exit_panics: "curproc c s \<noteq> Some kproc \<Longrightarrow> thread_exit c s = None"
  by (auto simp: thread_exit_def curproc_def Let_def bind_eq_None_conv)

text \<open>Picking the next thread, and laying the zombies of the processor to rest in its context.\<close>

lemma exorcise_list_eq:
  assumes "c_zombies (cpus s c) = zs" "distinct zs"
    and "\<And>z. z \<in> set zs \<Longrightarrow> z \<noteq> c_curthread (cpus s c) \<and> (\<exists>th. threads s z = Some th \<and> t_state th = S_ZOMBIE \<and> t_proc th = None)"
  shows "exorcise_list c zs s =
    Some (s\<lparr>threads := (\<lambda>t. if t \<in> set zs then None else threads s t), cpus := (cpus s)(c := (cpus s c)\<lparr>c_zombies := []\<rparr>)\<rparr>)"
  using assms
proof (induction zs arbitrary: s)
  case Nil
  then have "(cpus s)(c := (cpus s c)\<lparr>c_zombies := []\<rparr>) = cpus s" by auto
  then show ?case by simp
next
  case (Cons z zs)
  obtain th where th: "threads s z = Some th" "t_state th = S_ZOMBIE" "t_proc th = None" and nc: "z \<noteq> c_curthread (cpus s c)"
    using Cons(4) [of z] by auto
  let ?s = "s\<lparr>cpus := (cpus s)(c := (cpus s c)\<lparr>c_zombies := zs\<rparr>), threads := (threads s)(z := None)\<rparr>"
  have "exorcise_list c (z # zs) s = exorcise_list c zs ?s"
    using th nc by (simp add: upd_cpu_def thread_destroy_def)
  also have "\<dots> = Some (?s\<lparr>threads := (\<lambda>t. if t \<in> set zs then None else threads ?s t),
      cpus := (cpus ?s)(c := (cpus ?s c)\<lparr>c_zombies := []\<rparr>)\<rparr>)"
    by (rule Cons(1)) (use Cons(2-4) in auto)
  also have "(\<lambda>t. if t \<in> set zs then None else threads ?s t) = (\<lambda>t. if t \<in> set (z # zs) then None else threads s t)"
    by auto
  also have "(cpus ?s)(c := (cpus ?s c)\<lparr>c_zombies := []\<rparr>) = (cpus s)(c := (cpus s c)\<lparr>c_zombies := []\<rparr>)"
    by auto
  finally show ?case by (simp del: exorcise_list.simps)
qed

lemma switch_next_ok:
  assumes ok: "sched_ok s" and c: "c < ncpus s" "c_isidle (cpus s c)" "\<not> in_idle s c" "mig s c = None"
  shows "\<exists>s'. thread_switch_next c s = Some s' \<and> sched_ok s'"
proof (cases "c_runqueue (cpus s c)")
  case Nil
  note ok = sched_okD [OF ok]
  let ?s = "s\<lparr>in_idle := (in_idle s)(c := True)\<rparr>"
  have pl: "place_at ?s = place_at s" by (rule place_atI) auto
  have "sched_ok ?s" unfolding sched_ok_def pl
    using ok Nil c
    by (simp add: pin_ok_def range_ok_def proc_ok_def mig_ok_def idle_ok_def cpu_idle_ok_def)
  then show ?thesis using Nil by (simp add: thread_switch_next_def)
next
  case (Cons nx rest)
  note oks = sched_okD [OF ok]
  obtain th where th: "threads s nx = Some th" "fits (PQueue c) th"
    using placedD(3) [OF oks(1), of "nx" "PQueue c"] Cons by auto
  let ?th = "th\<lparr>t_state := S_RUN\<rparr>"
  let ?zs = "c_zombies (cpus s c)"
  let ?cp = "(cpus s c)\<lparr>c_runqueue := rest, c_isidle := False, c_curthread := nx\<rparr>"
  let ?s1 = "s\<lparr>cpus := (cpus s)(c := ?cp), threads := (threads s)(nx \<mapsto> ?th)\<rparr>"
  let ?s2 = "?s1\<lparr>threads := (\<lambda>t. if t \<in> set ?zs then None else threads ?s1 t), cpus := (cpus ?s1)(c := (cpus ?s1 c)\<lparr>c_zombies := []\<rparr>)\<rparr>"
  have pl1: "place_at ?s1 = (place_at s)(PQueue c := remove1 nx (place_at s (PQueue c)), PRun c := place_at s (PRun c) @ [nx])"
    by (rule place_atI) (use Cons c in auto)
  have placed1: "placed (place_at ?s1) (threads ?s1) fits"
    using placed_move1 [OF oks(1) _ _ _ pl1, of ?th] Cons th(2) by simp
  have pl2: "place_at ?s2 = (place_at ?s1)(PZombie c := [])"
    by (rule place_atI) auto
  have z: "z \<noteq> nx \<and> (\<exists>th. threads s z = Some th \<and> t_state th = S_ZOMBIE \<and> t_proc th = None \<and> t_cpu th = Some c)"
    if "z \<in> set ?zs" for z
    using placedD(3) [OF oks(1), of z "PZombie c"] that th by auto
  have "thread_switch_next c s = exorcise_list c ?zs ?s1"
    using Cons th(1) by (simp add: thread_switch_next_def Let_def upd_cpu_def upd_thread_def exorcise_def)
  also have "\<dots> = Some ?s2"
    by (rule exorcise_list_eq) (use z placedD(1) [OF oks(1), of "PZombie c"] in fastforce)+
  finally have eq: "thread_switch_next c s = Some ?s2" .
  have "placed (place_at ?s2) (threads ?s2) fits"
    unfolding pl2 by (rule placed_drop [OF placed1]) simp
  moreover have "pin_ok ?s2"
    unfolding pin_ok_def
  proof (intro allI impI)
    fix d assume d: "d < ncpus ?s2"
    show "\<exists>th. threads ?s2 (c_curthread (cpus ?s2 d)) = Some th \<and> t_cpu th = Some d"
    proof (cases "d = c")
      case True
      then show ?thesis using z th by auto
    next
      case False
      obtain th' where "threads s (c_curthread (cpus s d)) = Some th'" "t_cpu th' = Some d"
        using oks(2) d by (auto simp: pin_ok_def)
      moreover from this have "c_curthread (cpus s d) \<notin> set ?zs" using z False by force
      ultimately show ?thesis using False th by auto
    qed
  qed
  moreover have "range_ok ?s2" using oks(3) th by (auto simp: range_ok_def)
  moreover have "proc_ok ?s2"
    using oks(4) th z unfolding proc_ok_def by (auto split: if_splits) force+
  moreover have "idle_ok ?s2"
    by (rule idle_ok_upd [OF oks(5), where c = c and cp = "?cp\<lparr>c_zombies := []\<rparr>"])
      (use oks(5) c in \<open>auto simp: idle_ok_def cpu_idle_ok_def\<close>)
  moreover have "mig_ok ?s2" using oks(6) mig_okD [OF oks(6), of c] c by (auto simp: mig_ok_def)
  ultimately show ?thesis using eq by (auto simp: sched_ok_def)
qed

section \<open>Creating threads\<close>

lemma fork_ok:
  assumes ok: "sched_ok s" and c: "c < ncpus s" "\<not> c_isidle (cpus s c)" and has: "\<not> (m1 \<and> m2 \<and> m3 \<and> p = None \<and> curproc c s = None)"
  shows "\<exists>s' r. thread_fork c p m1 m2 m3 m4 s = Some (s', r) \<and> sched_ok s' \<and> (r = Inr () \<or> (r = Inl ENOMEM \<and> threads s' = threads s))"
proof (cases "m1 \<and> m2")
  case False
  then show ?thesis using ok by (auto simp: thread_fork_def thread_create_def)
next
  case True
  note oks = sched_okD [OF ok]
  obtain cth where cth: "threads s (c_curthread (cpus s c)) = Some cth" "fits (PRun c) cth"
    using running_thread [OF ok c] by blast
  let ?t = "next_tid s"
  have new: "threads s ?t = None"
  proof (rule ccontr)
    assume "threads s ?t \<noteq> None"
    then show False using oks(3) by (auto simp: range_ok_def)
  qed
  have ne: "?t \<noteq> c_curthread (cpus s c)" using new cth(1) by auto
  have upd [simp]: "(threads s)(?t := None) = threads s" using new by auto
  let ?fresh = "s\<lparr>next_tid := Suc ?t\<rparr>"
  have "place_at ?fresh = place_at s" by (rule place_atI) auto
  then have ok0: "sched_ok ?fresh"
    using oks by (auto simp: sched_ok_def pin_ok_def range_ok_def proc_ok_def idle_ok_def mig_ok_def intro: less_SucI)
  have early: ?thesis if "\<not> m3"
  proof -
    have "thread_fork c p m1 m2 m3 m4 s = Some (?fresh, Inl ENOMEM)"
      using True that ne by (simp add: thread_fork_def thread_create_def thread_destroy_def)
    then show ?thesis using ok0 by auto
  qed
  define pr where "pr = the (case p of None \<Rightarrow> t_proc cth | Some p \<Rightarrow> Some p)"
  have pr: "(case p of None \<Rightarrow> t_proc cth | Some p \<Rightarrow> Some p) = Some pr" if m3
    using has cth(1) that True by (cases p) (auto simp: pr_def curproc_def)
  let ?th = "\<lparr>t_state = S_READY, t_stack = True, t_cpu = Some c, t_proc = Some pr\<rparr>"
  let ?s = "s\<lparr>next_tid := Suc ?t, p_threads := (p_threads s)(pr := p_threads s pr @ [?t]),
      threads := (threads s)(?t \<mapsto> ?th), cpus := (cpus s)(c := enqueued ?t (cpus s c))\<rparr>"
  show ?thesis
  proof (cases "m3 \<and> m4")
    case False
    show ?thesis
    proof (cases m3)
      case m3: True
      then have "thread_fork c p m1 m2 m3 m4 s = Some (?fresh, Inl ENOMEM)"
        using True False ne cth pr [OF m3]
        by (auto simp: thread_fork_def thread_create_def thread_destroy_def upd_thread_def proc_addthread_def)
      then show ?thesis using ok0 by auto
    qed (rule early)
  next
    case m: True
    note pr = pr [OF conjunct1 [OF m]]
    have eq: "thread_fork c p m1 m2 m3 m4 s = Some (?s, Inr ())"
      using True m ne cth pr c
      by (simp add: thread_fork_def thread_create_def upd_thread_def proc_addthread_def thread_make_runnable_eq)
    have pl: "place_at ?s = (place_at s)(PQueue c := place_at s (PQueue c) @ [?t])"
      by (rule place_atI) auto
    have "placed (place_at ?s) (threads ?s) fits"
      unfolding pl using placed_new [OF oks(1) new, of "PQueue c" ?th] by simp
    moreover have "pin_ok ?s" using oks(2) new by (fastforce simp: pin_ok_def)
    moreover have "range_ok ?s" using oks(3) c(1) by (auto simp: range_ok_def less_Suc_eq)
    moreover have "proc_ok ?s" using oks(4) new by (auto simp: proc_ok_def)
    moreover have "idle_ok ?s"
      by (rule idle_ok_upd [OF oks(5), where c = c and cp = "enqueued ?t (cpus s c)"])
        (use oks(5) in \<open>auto simp: idle_ok_def intro: enqueued_idle_ok\<close>)
    moreover have "mig_ok ?s"
      by (rule mig_ok_upd [OF oks(6), where c = c and cp = "enqueued ?t (cpus s c)"]) auto
    ultimately show ?thesis using eq by (auto simp: sched_ok_def)
  qed
qed

lemma fork_panics:
  assumes ok: "sched_ok s" and c: "c < ncpus s" "\<not> c_isidle (cpus s c)" and m: "m1 \<and> m2 \<and> m3 \<and> p = None \<and> curproc c s = None"
  shows "thread_fork c p m1 m2 m3 m4 s = None"
proof -
  obtain cth where cth: "threads s (c_curthread (cpus s c)) = Some cth" using running_thread [OF ok c] by blast
  have "c_curthread (cpus s c) \<noteq> next_tid s" using cth sched_okD(3) [OF ok] unfolding range_ok_def by (metis less_irrefl)
  then show ?thesis using m cth by (simp add: thread_fork_def thread_create_def upd_thread_def curproc_def)
qed

section \<open>Wake-ups, interrupts and attachment\<close>

text \<open>Steps that move threads between places without touching the thread structures.\<close>

lemma sched_ok_move:
  assumes ok: "sched_ok s" and pq: "p \<noteq> q" "mset xs + mset ys = mset (place_at s p) + mset (place_at s q)"
    and fits: "\<And>t th. t \<in> set xs \<Longrightarrow> threads s t = Some th \<Longrightarrow> fits p th"
      "\<And>t th. t \<in> set ys \<Longrightarrow> threads s t = Some th \<Longrightarrow> fits q th"
    and pl: "place_at s' = (place_at s)(p := xs, q := ys)"
    and fr: "threads s' = threads s" "next_tid s' = next_tid s" "ncpus s' = ncpus s" "p_threads s' = p_threads s"
      "\<And>c. c_curthread (cpus s' c) = c_curthread (cpus s c)"
    and im: "idle_ok s'" "mig_ok s'"
  shows "sched_ok s'"
proof -
  note oks = sched_okD [OF ok]
  have "placed (place_at s') (threads s') fits"
    unfolding pl fr(1) by (rule placed_move [OF oks(1) pq]) (use fits in blast)+
  then show ?thesis using oks im fr by (simp add: sched_ok_def pin_ok_def range_ok_def proc_ok_def)
qed

lemma sched_ok_frame:
  assumes ok: "sched_ok s" and pl: "place_at s' = place_at s"
    and fr: "threads s' = threads s" "next_tid s' = next_tid s" "ncpus s' = ncpus s" "p_threads s' = p_threads s"
      "\<And>c. c_curthread (cpus s' c) = c_curthread (cpus s c)"
    and im: "idle_ok s'" "mig_ok s'"
  shows "sched_ok s'"
  using sched_okD [OF ok] im fr pl by (simp add: sched_ok_def pin_ok_def range_ok_def proc_ok_def)

lemma placed_fits: "sched_ok s \<Longrightarrow> t \<in> set (place_at s p) \<Longrightarrow> threads s t = Some th \<Longrightarrow> fits p th"
  using placedD(3) [OF sched_okD(1), of s t p] by auto

lemma wakeone_ok:
  assumes ok: "sched_ok s"
  shows "\<exists>s'. wchan_wakeone_take True w s = Some s' \<and> sched_ok s'"
proof (cases "wchans s w")
  case Nil
  then show ?thesis using ok by (simp add: wchan_wakeone_take_def)
next
  case (Cons t ts)
  let ?s = "s\<lparr>wchans := (wchans s)(w := ts), waking := waking s @ [t]\<rparr>"
  have "place_at ?s = (place_at s)(PChan w := ts, PWaking := waking s @ [t])" by (rule place_atI) auto
  moreover have "idle_ok ?s" "mig_ok ?s" using sched_okD(5,6) [OF ok] by (simp_all add: idle_ok_def mig_ok_def)
  moreover have "fits p th" if "u \<in> set (place_at s p)" "threads s u = Some th" for u p th
    using placed_fits [OF ok that] .
  from this [of _ "PChan w"] this [of _ PWaking]
  have "u \<in> set (wchans s w) \<Longrightarrow> threads s u = Some th \<Longrightarrow> fits (PChan w) th \<and> fits PWaking th"
    "u \<in> set (waking s) \<Longrightarrow> threads s u = Some th \<Longrightarrow> fits PWaking th" for u th by fastforce+
  ultimately have "sched_ok ?s"
    by (intro sched_ok_move [OF ok, of "PChan w" PWaking ts "waking s @ [t]" ?s]) (use Cons in auto)
  then show ?thesis using Cons by (simp add: wchan_wakeone_take_def)
qed

lemma wakeall_ok:
  assumes ok: "sched_ok s"
  shows "\<exists>s'. wchan_wakeall_take True w s = Some s' \<and> sched_ok s'"
proof -
  let ?s = "s\<lparr>wchans := (wchans s)(w := []), waking := waking s @ wchans s w\<rparr>"
  have "place_at ?s = (place_at s)(PChan w := [], PWaking := waking s @ wchans s w)" by (rule place_atI) auto
  moreover have "idle_ok ?s" "mig_ok ?s" using sched_okD(5,6) [OF ok] by (simp_all add: idle_ok_def mig_ok_def)
  moreover have "fits PWaking th" if "u \<in> set (wchans s w)" "threads s u = Some th" for u th
    using placed_fits [OF ok _ that(2), of "PChan w"] that by simp
  moreover have "fits PWaking th" if "u \<in> set (waking s)" "threads s u = Some th" for u th
    using placed_fits [OF ok _ that(2), of PWaking] that by simp
  ultimately have "sched_ok ?s"
    by (intro sched_ok_move [OF ok, of "PChan w" PWaking "[]" "waking s @ wchans s w" ?s]) auto
  then show ?thesis by (simp add: wchan_wakeall_take_def)
qed

definition take_ipi :: "cpuid \<Rightarrow> sched \<Rightarrow> sched" where
  "take_ipi c s = (upd_cpu c (\<lambda>cp. fst (interprocessor_interrupt cp)) s)\<lparr>in_idle := (in_idle s)(c := False)\<rparr>"

lemma ipi_ok:
  assumes ok: "sched_ok s"
  shows "sched_ok (take_ipi c s) \<and> snd (interprocessor_interrupt (cpus s c)) \<noteq> Ipi_halt"
proof -
  note oks = sched_okD [OF ok]
  let ?cp = "fst (interprocessor_interrupt (cpus s c))"
  have cp: "c_runqueue ?cp = c_runqueue (cpus s c)" "c_isidle ?cp = c_isidle (cpus s c)" "c_zombies ?cp = c_zombies (cpus s c)"
    "c_curthread ?cp = c_curthread (cpus s c)" "c_ipi_pending ?cp = 0" "snd (interprocessor_interrupt (cpus s c)) \<noteq> Ipi_halt"
    using idle_okD [OF oks(5), of c] by (auto simp: interprocessor_interrupt_def Let_def cpu_idle_ok_def)
  have "place_at (take_ipi c s) = place_at s"
    by (rule place_atI) (auto simp: take_ipi_def upd_cpu_def cp)
  moreover have "idle_ok (take_ipi c s)"
    using oks(5) cp by (auto simp: idle_ok_def take_ipi_def upd_cpu_def cpu_idle_ok_def)
  moreover have "mig_ok (take_ipi c s)"
    using oks(6) mig_okD [OF oks(6), of c] cp by (auto simp: mig_ok_def take_ipi_def upd_cpu_def)
  ultimately have "sched_ok (take_ipi c s)"
    by (intro sched_ok_frame [OF ok]) (auto simp: take_ipi_def upd_cpu_def cp)
  then show ?thesis using cp(6) by simp
qed

text \<open>Changes of the process of the running thread.\<close>

lemma reattach_ok:
  assumes ok: "sched_ok s" and c: "c < ncpus s" "\<not> c_isidle (cpus s c)"
    and th: "threads s (c_curthread (cpus s c)) = Some th"
    and pr: "proc_ok (s\<lparr>threads := (threads s)(c_curthread (cpus s c) \<mapsto> th\<lparr>t_proc := q\<rparr>), p_threads := pt\<rparr>)"
  shows "sched_ok (s\<lparr>threads := (threads s)(c_curthread (cpus s c) \<mapsto> th\<lparr>t_proc := q\<rparr>), p_threads := pt\<rparr>)"
proof -
  note oks = sched_okD [OF ok]
  let ?t = "c_curthread (cpus s c)" and ?th = "th\<lparr>t_proc := q\<rparr>"
  let ?s = "s\<lparr>threads := (threads s)(?t \<mapsto> ?th), p_threads := pt\<rparr>"
  have pl: "place_at ?s = place_at s" by (rule place_atI) auto
  have f: "fits (PRun c) th" using running_thread [OF ok c] th by simp
  have "fits r th'" if "?t \<in> set (place_at s r)" "(threads ?s) ?t = Some th'" for r th'
    using placedD(2) [OF oks(1), of ?t r "PRun c"] that f c by auto
  then have "placed (place_at ?s) (threads ?s) fits"
    using oks(1) th unfolding pl placed_def by (auto split: if_splits)
  moreover have "pin_ok ?s" by (rule pin_ok_upd [OF oks(2) th, of ?th]) auto
  moreover have "range_ok ?s" by (rule range_ok_upd [OF oks(3) th, of ?th]) (use th oks(3) in \<open>auto simp: range_ok_def\<close>)
  moreover have "idle_ok ?s" "mig_ok ?s" using oks(5,6) by (simp_all add: idle_ok_def mig_ok_def)
  ultimately show ?thesis using pr by (auto simp: sched_ok_def)
qed

text \<open>Leaving the process: it needs to be another one than the kernel's, with no other thread. The thread is
  then attached to the kernel's process, or to none if there was no memory.\<close>

lemma to_kernel_cases:
  assumes ok: "sched_ok s" and c: "c < ncpus s" "\<not> c_isidle (cpus s c)"
  shows "if \<exists>p. curproc c s = Some p \<and> p \<noteq> kproc \<and> p_threads s p = [c_curthread (cpus s c)]
    then \<exists>s'. to_kernel c mem s = Some s' \<and> sched_ok s' \<and> curproc c s' = (if mem then Some kproc else None)
      \<and> ncpus s' = ncpus s \<and> cpus s' = cpus s
    else to_kernel c mem s = None"
proof -
  note oks = sched_okD [OF ok]
  let ?t = "c_curthread (cpus s c)"
  obtain th where th: "threads s ?t = Some th" using running_thread [OF ok c] by blast
  show ?thesis
  proof (cases "\<exists>p. t_proc th = Some p \<and> p \<noteq> kproc")
    case False
    then have "to_kernel c mem s = None" using th by (cases "t_proc th") (auto simp: to_kernel_def Let_def)
    then show ?thesis using False th by (auto simp: curproc_def)
  next
    case True
    then obtain p where p: "t_proc th = Some p" "p \<noteq> kproc" by blast
    let ?pt = "(p_threads s)(p := remove1 ?t (p_threads s p))"
    let ?th = "th\<lparr>t_proc := if mem then Some kproc else None\<rparr>"
    let ?pt' = "if mem then ?pt(kproc := ?pt kproc @ [?t]) else ?pt"
    let ?s = "s\<lparr>threads := (threads s)(?t \<mapsto> ?th), p_threads := ?pt'\<rparr>"
    have mem: "?t \<in> set (p_threads s p)" "distinct (p_threads s p)" using oks(4) th p by (auto simp: proc_ok_def)
    have eq: "to_kernel c mem s = (if remove1 ?t (p_threads s p) = [] then Some ?s else None)"
      using proc_remthread_eq [OF oks(4) th p(1)] th p
      by (cases mem) (simp_all add: to_kernel_def Let_def proc_addthread_def upd_thread_def)
    have one: "remove1 ?t (p_threads s p) = [] \<longleftrightarrow> p_threads s p = [?t]"
      using mem by (cases "p_threads s p") (auto split: if_splits)
    have "proc_ok ?s" using oks(4) th p by (auto simp: proc_ok_def)
    then have "sched_ok ?s" by (intro reattach_ok [OF ok c th])
    moreover have "curproc c ?s = (if mem then Some kproc else None)" by (simp add: curproc_def)
    ultimately show ?thesis using eq one p th by (auto simp: curproc_def)
  qed
qed

section \<open>Migration\<close>

lemma take_victims_eq:
  "n \<le> length q \<Longrightarrow> take_victims n q vs = Some (take (length q - n) q, drop (length q - n) q @ vs)"
proof (induction n arbitrary: q vs)
  case (Suc n)
  then have ne: "q \<noteq> []" by auto
  have "take_victims (Suc n) q vs = take_victims n (butlast q) (last q # vs)" using ne by simp
  also have "\<dots> = Some (take (length (butlast q) - n) (butlast q), drop (length (butlast q) - n) (butlast q) @ last q # vs)"
    by (rule Suc.IH) (use Suc.prems in simp)
  also have "drop (length (butlast q) - n) (butlast q) @ last q # vs = drop (length q - Suc n) q @ vs"
  proof -
    have "drop (length q - Suc n) (butlast q @ [last q]) = drop (length q - Suc n) (butlast q) @ [last q]"
      using Suc.prems ne by (simp del: append_butlast_last_id)
    then show ?thesis using ne by simp
  qed
  also have "take (length (butlast q) - n) (butlast q) = take (length q - Suc n) q"
    using ne by (simp add: take_butlast)
  finally show ?case .
qed simp

lemma mig_set_ok:
  assumes ok: "sched_ok s" and c: "\<not> in_idle s c"
    and m: "cpu_mig_ok m (length (c_runqueue (cpus s c))) (victims s c)"
  shows "sched_ok (s\<lparr>mig := (mig s)(c := m)\<rparr>)"
proof -
  note oks = sched_okD [OF ok]
  let ?s = "s\<lparr>mig := (mig s)(c := m)\<rparr>"
  have "place_at ?s = place_at s" by (rule place_atI) auto
  moreover have "idle_ok ?s" using oks(5) c by (auto simp: idle_ok_def cpu_idle_ok_def)
  moreover have "mig_ok ?s" using oks(6) m by (auto simp: mig_ok_def)
  ultimately show ?thesis by (intro sched_ok_frame [OF ok]) auto
qed

lemma mig_count_ok:
  assumes ok: "sched_ok s" and c: "\<not> in_idle s c" "mig s c = Some (MCount i tot my)"
  shows "sched_ok (mig_count c i tot my s)"
proof -
  have v: "victims s c = []" "my \<le> length (c_runqueue (cpus s c))" using mig_okD [OF sched_okD(6) [OF ok], of c] c by auto
  then show ?thesis using mig_set_ok [OF ok c(1)] by (auto simp: mig_count_def Let_def)
qed

lemma victims_move_ok:
  assumes ok: "sched_ok s" and c: "\<not> in_idle s c"
    and eq: "mset q + mset vs = mset (c_runqueue (cpus s c)) + mset (victims s c)"
    and m: "cpu_mig_ok m (length q) vs"
  shows "sched_ok (s\<lparr>cpus := (cpus s)(c := (cpus s c)\<lparr>c_runqueue := q\<rparr>), victims := (victims s)(c := vs), mig := (mig s)(c := m)\<rparr>)"
    (is "sched_ok ?s")
proof -
  note oks = sched_okD [OF ok]
  have pl: "place_at ?s = (place_at s)(PQueue c := q, PVictim c := vs)" by (rule place_atI) auto
  have f: "fits (PQueue c) th \<and> fits (PVictim c) th"
    if "u \<in> set q \<union> set vs" "threads s u = Some th" for u th
  proof -
    have "u \<in> set (c_runqueue (cpus s c)) \<union> set (victims s c)"
      using that(1) arg_cong [OF eq, of set_mset] by auto
    then show ?thesis
      using placed_fits [OF ok _ that(2), of "PQueue c"] placed_fits [OF ok _ that(2), of "PVictim c"] by auto
  qed
  have "idle_ok ?s" using oks(5) c by (auto simp: idle_ok_def cpu_idle_ok_def)
  moreover have "mig_ok ?s" using oks(6) m by (auto simp: mig_ok_def)
  ultimately show ?thesis
    by (intro sched_ok_move [OF ok, of "PQueue c" "PVictim c" q vs ?s]) (use f eq pl in auto)
qed

lemma mig_take_ok:
  assumes ok: "sched_ok s" and c: "\<not> in_idle s c" "mig s c = Some (MTake share n)"
  shows "\<exists>s'. mig_take c share n s = Some s' \<and> sched_ok s'"
proof -
  let ?q = "c_runqueue (cpus s c)"
  have v: "victims s c = []" "n \<le> length ?q" using mig_okD [OF sched_okD(6) [OF ok], of c] c by auto
  have "mset (take (length ?q - n) ?q) + mset (drop (length ?q - n) ?q) = mset ?q"
    by (metis append_take_drop_id mset_append)
  then show ?thesis
    using victims_move_ok [OF ok c(1), of "take (length ?q - n) ?q" "drop (length ?q - n) ?q" "Some (MGive 0 share n)"] v
    by (simp add: mig_take_def take_victims_eq upd_cpu_def)
qed

lemma mig_return_ok:
  assumes ok: "sched_ok s" and c: "\<not> in_idle s c"
  shows "sched_ok (mig_return c s)"
  using victims_move_ok [OF ok c, of "c_runqueue (cpus s c) @ victims s c" "[]" None]
  by (simp add: mig_return_def upd_cpu_def)

text \<open>One round of giving: the head of the victims goes to processor \<open>d\<close>, unless it is the current thread.\<close>

definition staged :: "cpuid \<Rightarrow> nat \<Rightarrow> nat \<Rightarrow> tid list \<Rightarrow> nat \<Rightarrow> sched \<Rightarrow> sched" where
  "staged c i share vs n s = s\<lparr>victims := (victims s)(c := vs), mig := (mig s)(c \<mapsto> MGive i share n)\<rparr>"

lemma staged_simps [simp]:
  "threads (staged c i share vs n s) = threads s" "cpus (staged c i share vs n s) = cpus s"
  "ncpus (staged c i share vs n s) = ncpus s" "in_idle (staged c i share vs n s) = in_idle s"
  "victims (staged c i share vs n s) = (victims s)(c := vs)" "mig (staged c i share vs n s) = (mig s)(c \<mapsto> MGive i share n)"
  by (simp_all add: staged_def)

lemma give_one_ok:
  assumes ok: "sched_ok (staged c i share (t # vs) (Suc n) s)" and d: "d < ncpus s" "d \<noteq> c"
    and t: "t \<noteq> c_curthread (cpus s c)" "\<not> in_idle s c" and c: "c < ncpus s"
    and th: "threads s t = Some th"
  shows "sched_ok (staged c i share vs n
    (s\<lparr>threads := (threads s)(t \<mapsto> th\<lparr>t_cpu := Some d\<rparr>), cpus := (cpus s)(d := enqueued t (cpus s d))\<rparr>))"
    (is "sched_ok ?s")
proof -
  let ?o = "staged c i share (t # vs) (Suc n) s"
  let ?th = "th\<lparr>t_cpu := Some d\<rparr>"
  note oks = sched_okD [OF ok]
  have ft: "fits (PVictim c) th" using placed_fits [OF ok, of t "PVictim c" th] th by simp
  have pl: "place_at ?s = (place_at ?o)(PVictim c := remove1 t (place_at ?o (PVictim c)), PQueue d := place_at ?o (PQueue d) @ [t])"
    by (rule place_atI) (auto simp: staged_def)
  have "placed (place_at ?s) (threads ?s) fits"
    using placed_move1 [OF oks(1) _ _ _ pl, of ?th] ft by simp
  moreover have "pin_ok ?s"
    unfolding pin_ok_def
  proof (intro allI impI)
    fix e assume e: "e < ncpus ?s"
    then obtain th' where th': "threads s (c_curthread (cpus s e)) = Some th'" "t_cpu th' = Some e"
      using oks(2) by (auto simp: pin_ok_def)
    have "c_curthread (cpus s e) \<noteq> t"
    proof
      assume "c_curthread (cpus s e) = t"
      then have "e = c" using th' th ft by simp
      then show False using t(1) \<open>c_curthread (cpus s e) = t\<close> by simp
    qed
    then show "\<exists>th. threads ?s (c_curthread (cpus ?s e)) = Some th \<and> t_cpu th = Some e" using th' by auto
  qed
  moreover have "range_ok ?s"
    by (rule range_ok_upd [OF oks(3), of t th ?th]) (use th d in \<open>auto simp: staged_def\<close>)
  moreover have "proc_ok ?s"
    by (rule proc_ok_upd [OF oks(4), of t th ?th]) (use th in \<open>auto simp: staged_def\<close>)
  moreover have "idle_ok ?s"
    using oks(5) d(2) t(2) enqueued_idle_ok [OF idle_okD [OF oks(5), of d]] by (auto simp: idle_ok_def cpu_idle_ok_def)
  moreover have "mig_ok ?s"
  proof -
    have "cpu_mig_ok (mig s d) (length (c_runqueue (enqueued t (cpus s d)))) (victims s d)"
      using cpu_mig_ok_mono [OF mig_okD [OF oks(6), of d]] d(2) by simp
    moreover have "cpu_mig_ok (mig s e) (length (c_runqueue (cpus s e))) (victims s e)" if "e \<noteq> c" for e
      using mig_okD [OF oks(6), of e] that by simp
    ultimately show ?thesis using mig_okD [OF oks(6), of c] d(2) by (auto simp: mig_ok_def)
  qed
  ultimately show ?thesis by (auto simp: sched_ok_def)
qed

lemma rotate_ok:
  assumes ok: "sched_ok (staged c i share (t # vs) (Suc n) s)" and c: "\<not> in_idle s c"
  shows "sched_ok (staged c i share (vs @ [t]) n s)"
proof -
  let ?o = "staged c i share (t # vs) (Suc n) s"
  have m: "cpu_mig_ok (Some (MGive i share n)) (length (c_runqueue (cpus ?o c))) (vs @ [t])"
    using mig_okD [OF sched_okD(6) [OF ok], of c] by simp
  have "?o\<lparr>cpus := (cpus ?o)(c := (cpus ?o c)\<lparr>c_runqueue := c_runqueue (cpus ?o c)\<rparr>), victims := (victims ?o)(c := vs @ [t]),
      mig := (mig ?o)(c \<mapsto> MGive i share n)\<rparr> = staged c i share (vs @ [t]) n s"
    by (simp add: staged_def)
  with victims_move_ok [OF ok _ _ m, of c] c show ?thesis by simp
qed

lemma give_victims_ok:
  assumes "sched_ok (staged c i share vs n s)" "d < ncpus s" "d \<noteq> c" "\<not> in_idle s c" "c < ncpus s"
  shows "\<exists>vs' n' s'. give_victims (c_curthread (cpus s c)) d share n vs s = Some (vs', n', s') \<and>
    sched_ok (staged c i share vs' n' s') \<and> in_idle s' = in_idle s"
  using assms
proof (induction n arbitrary: vs s)
  case 0
  then show ?case by auto
next
  case (Suc n)
  show ?case
  proof (cases "length (c_runqueue (cpus s d)) < share")
    case False
    then show ?thesis using Suc.prems by auto
  next
    case True
    have "Suc n \<le> length vs" using mig_okD [OF sched_okD(6) [OF Suc.prems(1)], of c] by simp
    then obtain t ws where vs: "vs = t # ws" by (cases vs) auto
    show ?thesis
    proof (cases "t = c_curthread (cpus s c)")
      case t: True
      have "sched_ok (staged c i share (ws @ [t]) n s)"
        using rotate_ok [of c i share t ws n s] Suc.prems(1,4) vs by simp
      from Suc.IH [OF this Suc.prems(2-5)] show ?thesis using True t vs by simp
    next
      case nt: False
      obtain th where th: "threads s t = Some th" "t_cpu th = Some c"
        using placedD(3) [OF sched_okD(1) [OF Suc.prems(1)], of t "PVictim c"] vs by auto
      let ?s = "s\<lparr>threads := (threads s)(t \<mapsto> th\<lparr>t_cpu := Some d\<rparr>), cpus := (cpus s)(d := enqueued t (cpus s d))\<rparr>"
      have step: "give_victims (c_curthread (cpus s c)) d share (Suc n) vs s =
          give_victims (c_curthread (cpus s c)) d share n ws ?s"
        using True nt th vs
        by (simp add: upd_thread_def upd_cpu_def ipi_send_def enqueued_def IPI_UNIDLE_def)
      have ok: "sched_ok (staged c i share ws n ?s)"
        using give_one_ok [of c i share t ws n s d th] Suc.prems vs nt th(1) by simp
      have "\<exists>vs' n' s'. give_victims (c_curthread (cpus ?s c)) d share n ws ?s = Some (vs', n', s') \<and>
          sched_ok (staged c i share vs' n' s') \<and> in_idle s' = in_idle ?s"
        by (rule Suc.IH [OF ok]) (use Suc.prems in simp_all)
      then show ?thesis unfolding step using Suc.prems(3) by simp
    qed
  qed
qed

lemma mig_give_ok:
  assumes ok: "sched_ok s" and c: "\<not> in_idle s c" "mig s c = Some (MGive i share n)" "c < ncpus s"
  shows "\<exists>s'. mig_give c i share n s = Some s' \<and> sched_ok s'"
proof -
  have st: "staged c i share (victims s c) n s = s" using c(2) by (simp add: staged_def fun_upd_idem)
  have n: "n \<le> length (victims s c)" using mig_okD [OF sched_okD(6) [OF ok], of c] c by simp
  consider "\<not> (i < ncpus s \<and> n > 0)" | "i < ncpus s" "n > 0" "i = c" | "i < ncpus s" "n > 0" "i \<noteq> c" by blast
  then show ?thesis
  proof cases
    case 1
    then show ?thesis using mig_set_ok [OF ok c(1), of "Some MReturn"] by (auto simp: mig_give_def)
  next
    case 2
    then show ?thesis using mig_set_ok [OF ok c(1), of "Some (MGive (Suc i) share n)"] n by (simp add: mig_give_def)
  next
    case 3
    obtain vs' n' s' where g: "give_victims (c_curthread (cpus s c)) i share n (victims s c) s = Some (vs', n', s')"
      "sched_ok (staged c i share vs' n' s')" "in_idle s' = in_idle s"
      using give_victims_ok [of c i share "victims s c" n s i] st ok 3 c by auto
    let ?o = "staged c i share vs' n' s'"
    have "n' \<le> length vs'" using mig_okD [OF sched_okD(6) [OF g(2)], of c] by simp
    then have "sched_ok (?o\<lparr>mig := (mig ?o)(c := Some (MGive (Suc i) share n'))\<rparr>)"
      by (intro mig_set_ok [OF g(2)]) (use g(3) c(1) in auto)
    moreover have "?o\<lparr>mig := (mig ?o)(c := Some (MGive (Suc i) share n'))\<rparr>
        = s'\<lparr>victims := (victims s')(c := vs'), mig := (mig s')(c \<mapsto> MGive (Suc i) share n')\<rparr>"
      by (simp add: staged_def)
    ultimately show ?thesis using 3 g(1) by (simp add: mig_give_def)
  qed
qed

lemma migration_ok:
  assumes ok: "sched_ok s" and c: "\<not> in_idle s c" "c < ncpus s"
  shows "\<exists>s'. thread_consider_migration c s = Some s' \<and> sched_ok s'"
proof (cases "mig s c")
  case None
  then have "victims s c = []" using mig_okD [OF sched_okD(6) [OF ok], of c] by simp
  then show ?thesis using mig_set_ok [OF ok c(1), of "Some (MCount 0 0 0)"] None by (simp add: thread_consider_migration_def)
next
  case (Some m)
  then show ?thesis
    using mig_count_ok [OF ok c(1)] mig_take_ok [OF ok c(1)] mig_give_ok [OF ok c(1) _ c(2)] mig_return_ok [OF ok c(1)]
    by (cases m) (auto simp: thread_consider_migration_def)
qed

lemma hardclock_ok:
  assumes ok: "sched_ok s" and c: "c < ncpus s" "mig s c = None"
  shows "\<exists>s'. hardclock c s = Some s' \<and> sched_ok s'"
proof -
  note oks = sched_okD [OF ok]
  let ?s = "upd_cpu c (\<lambda>cp. cp\<lparr>c_hardclocks := c_hardclocks cp + 1\<rparr>) (s\<lparr>in_idle := (in_idle s)(c := False)\<rparr>)"
  have pl: "place_at ?s = place_at s" by (rule place_atI) (auto simp: upd_cpu_def)
  have "idle_ok ?s" using oks(5) by (auto simp: idle_ok_def upd_cpu_def cpu_idle_ok_def)
  moreover have "mig_ok ?s" using oks(6) mig_okD [OF oks(6), of c] by (auto simp: mig_ok_def upd_cpu_def)
  ultimately have "sched_ok ?s" by (intro sched_ok_frame [OF ok pl]) (auto simp: upd_cpu_def)
  moreover have "\<not> in_idle ?s c" "c < ncpus ?s" using c by (simp_all add: upd_cpu_def)
  ultimately show ?thesis using migration_ok [of ?s c] by (auto simp: hardclock_def Let_def)
qed

lemma exorcise_list_cpu:
  "exorcise_list c zs s = Some u \<Longrightarrow>
    c_curthread (cpus u c) = c_curthread (cpus s c) \<and> c_isidle (cpus u c) = c_isidle (cpus s c)
    \<and> c_runqueue (cpus u c) = c_runqueue (cpus s c)"
  by (induction zs arbitrary: s)
    (fastforce simp: Let_def upd_cpu_def thread_destroy_def bind_eq_Some_conv split: if_splits)+

section \<open>Booting\<close>

definition no_cpu :: cpu where
  "no_cpu = \<lparr>c_curthread = 0, c_zombies = [], c_hardclocks = 0, c_isidle = False, c_runqueue = [],
     c_ipi_pending = 0, c_shootdown = [], c_numshootdown = 0\<rparr>"

definition sched_empty :: sched where
  "sched_empty = \<lparr>threads = Map.empty, next_tid = 0, ncpus = 0, cpus = (\<lambda>_. no_cpu), wchans = (\<lambda>_. []), waking = [],
     p_threads = (\<lambda>_. []), in_idle = (\<lambda>_. False), mig = (\<lambda>_. None), victims = (\<lambda>_. [])\<rparr>"

fun sched_boot :: "nat \<Rightarrow> sched option" where
  "sched_boot 0 = Some sched_empty"
| "sched_boot (Suc n) = Option.bind (sched_boot n) (cpu_create True)"

definition quiet :: "sched \<Rightarrow> bool" where
  "quiet s \<longleftrightarrow> (\<forall>c. \<not> in_idle s c \<and> mig s c = None)"

lemma empty_ok: "sched_ok sched_empty"
proof -
  have pl: "place_at sched_empty = (\<lambda>_. [])" by (rule place_atI) (auto simp: sched_empty_def no_cpu_def)
  show ?thesis unfolding sched_ok_def pl
    by (simp add: placed_def pin_ok_def range_ok_def proc_ok_def idle_ok_def mig_ok_def cpu_idle_ok_def sched_empty_def no_cpu_def)
qed

lemma list_eq_emptyI: "(\<And>x. x \<notin> set xs) \<Longrightarrow> xs = []"
  by (cases xs) auto

lemma cpu_create_ok:
  assumes ok: "sched_ok s" and q: "quiet s"
  shows "\<exists>s'. cpu_create True s = Some s' \<and> sched_ok s' \<and> quiet s' \<and> ncpus s' = Suc (ncpus s)"
proof -
  note oks = sched_okD [OF ok]
  let ?c = "ncpus s" and ?t = "next_tid s"
  let ?th = "\<lparr>t_state = S_READY, t_stack = (?c \<noteq> 0), t_cpu = Some ?c, t_proc = Some kproc\<rparr>"
  let ?cp = "\<lparr>c_curthread = ?t, c_zombies = [], c_hardclocks = 0, c_isidle = False, c_runqueue = [], c_ipi_pending = 0,
     c_shootdown = replicate (nat TLBSHOOTDOWN_MAX) 0, c_numshootdown = 0\<rparr>"
  let ?s = "s\<lparr>threads := (threads s)(?t \<mapsto> ?th), next_tid := Suc ?t, ncpus := Suc ?c, cpus := (cpus s)(?c := ?cp),
      p_threads := (p_threads s)(kproc := p_threads s kproc @ [?t])\<rparr>"
  have eq: "cpu_create True s = Some ?s"
    by (simp add: cpu_create_def thread_create_def proc_addthread_def upd_thread_def Let_def)
  have new: "threads s ?t = None"
  proof (rule ccontr)
    assume "threads s ?t \<noteq> None"
    then show False using oks(3) by (auto simp: range_ok_def)
  qed
  have nocpu: "u \<notin> set (place_at s p)" if p: "\<And>th. fits p th \<Longrightarrow> t_cpu th = Some ?c" for u p
  proof
    assume "u \<in> set (place_at s p)"
    then obtain th where "threads s u = Some th" "fits p th" using placedD(3) [OF oks(1)] by blast
    then show False using p oks(3) unfolding range_ok_def by blast
  qed
  have e: "c_runqueue (cpus s ?c) = []" "c_zombies (cpus s ?c) = []"
    using nocpu [of "PQueue ?c"] nocpu [of "PZombie ?c"] by (simp_all add: list_eq_emptyI)
  have v: "victims s ?c = []" using mig_okD [OF oks(6), of ?c] q by (simp add: quiet_def)
  have pl: "place_at ?s = (place_at s)(PRun ?c := place_at s (PRun ?c) @ [?t])"
    by (rule place_atI) (use e in \<open>auto simp: less_Suc_eq\<close>)
  have "placed (place_at ?s) (threads ?s) fits"
    unfolding pl using placed_new [OF oks(1) new, of "PRun ?c" ?th] by simp
  moreover have "pin_ok ?s" using oks(2) new by (fastforce simp: pin_ok_def less_Suc_eq)
  moreover have "range_ok ?s" using oks(3) by (fastforce simp: range_ok_def less_Suc_eq)
  moreover have "proc_ok ?s" using oks(4) new by (auto simp: proc_ok_def)
  moreover have "idle_ok ?s" using oks(5) q by (auto simp: idle_ok_def quiet_def cpu_idle_ok_def)
  moreover have "mig_ok ?s" using oks(6) q v by (auto simp: mig_ok_def quiet_def)
  ultimately show ?thesis using eq q by (auto simp: sched_ok_def quiet_def)
qed

lemma sched_boot_ok: "\<exists>s. sched_boot n = Some s \<and> sched_ok s \<and> quiet s \<and> ncpus s = n"
proof (induction n)
  case 0
  show ?case using empty_ok by (simp add: quiet_def) (simp add: sched_empty_def)
next
  case (Suc n)
  then show ?case using cpu_create_ok by fastforce
qed

section \<open>All steps of all processors\<close>

text \<open>
  What a processor can do: the running thread forks, yields, sleeps, leaves its process (with or without
  memory to attach it to the kernel's) or exits; calls on wait channels come from any context; a processor that has put its thread away looks for the next one; it takes an
  interprocessor interrupt or a clock interrupt, when it runs a thread or is in \<^verbatim>\<open>cpu_idle\<close>; it goes on
  with a migration. Anyone takes threads off a channel, and makes the threads taken off runnable.
\<close>

datatype sched_event =
    Fork cpuid "nat option" bool bool bool bool
  | Yield cpuid
  | Sleep bool bool nat cpuid nat
  | ToKernel cpuid bool
  | Exit cpuid
  | Next cpuid
  | Ipi cpuid
  | Clock cpuid
  | Migrate cpuid
  | WakeOne bool nat
  | WakeAll bool nat
  | Wake tid

definition runs :: "cpuid \<Rightarrow> sched \<Rightarrow> bool" where
  "runs c s \<longleftrightarrow> c < ncpus s \<and> \<not> c_isidle (cpus s c) \<and> mig s c = None"

fun sched_enabled :: "sched_event \<Rightarrow> sched \<Rightarrow> bool" where
  "sched_enabled (Fork c p m1 m2 m3 m4) s = runs c s"
| "sched_enabled (Yield c) s = runs c s"
| "sched_enabled (Sleep irq hold n c w) s = runs c s"
| "sched_enabled (ToKernel c mem) s = runs c s"
| "sched_enabled (Exit c) s = runs c s"
| "sched_enabled (Next c) s = (c < ncpus s \<and> c_isidle (cpus s c) \<and> \<not> in_idle s c \<and> mig s c = None)"
| "sched_enabled (Ipi c) s = (c < ncpus s \<and> mig s c = None \<and> (in_idle s c \<or> \<not> c_isidle (cpus s c)))"
| "sched_enabled (Clock c) s = (c < ncpus s \<and> mig s c = None \<and> (in_idle s c \<or> \<not> c_isidle (cpus s c)))"
| "sched_enabled (Migrate c) s = (c < ncpus s \<and> mig s c \<noteq> None)"
| "sched_enabled (WakeOne hold w) s = True"
| "sched_enabled (WakeAll hold w) s = True"
| "sched_enabled (Wake t) s = (t \<in> set (waking s))"

fun sched_do :: "sched_event \<Rightarrow> sched \<Rightarrow> sched option" where
  "sched_do (Fork c p m1 m2 m3 m4) s = map_option fst (thread_fork c p m1 m2 m3 m4 s)"
| "sched_do (Yield c) s = thread_yield c s"
| "sched_do (Sleep irq hold n c w) s = wchan_sleep_on irq hold n c w s"
| "sched_do (ToKernel c mem) s = to_kernel c mem s"
| "sched_do (Exit c) s = thread_exit c s"
| "sched_do (Next c) s = thread_switch_next c s"
| "sched_do (Ipi c) s = Some (take_ipi c s)"
| "sched_do (Clock c) s = hardclock c s"
| "sched_do (Migrate c) s = thread_consider_migration c s"
| "sched_do (WakeOne hold w) s = wchan_wakeone_take hold w s"
| "sched_do (WakeAll hold w) s = wchan_wakeall_take hold w s"
| "sched_do (Wake t) s = wake_target t s"

text \<open>
  The uses that the interface forbids: forking into the process of a thread that has none; sleeping in an
  interrupt handler, without the lock of the channel or with another one, and waking without it; leaving a
  process that is the kernel's or has other threads; exiting outside the kernel's process.
\<close>

fun misuse :: "sched_event \<Rightarrow> sched \<Rightarrow> bool" where
  "misuse (Fork c p m1 m2 m3 m4) s = (m1 \<and> m2 \<and> m3 \<and> p = None \<and> curproc c s = None)"
| "misuse (Sleep irq hold n c w) s = (irq \<or> \<not> hold \<or> n \<noteq> 1)"
| "misuse (ToKernel c mem) s = (\<not> (\<exists>p. curproc c s = Some p \<and> p \<noteq> kproc \<and> p_threads s p = [c_curthread (cpus s c)]))"
| "misuse (Exit c) s = (curproc c s \<noteq> Some kproc)"
| "misuse (WakeOne hold w) s = (\<not> hold)"
| "misuse (WakeAll hold w) s = (\<not> hold)"
| "misuse _ s = False"

lemma sched_do_ok:
  assumes ok: "sched_ok s" and en: "sched_enabled e s"
  shows "if misuse e s then sched_do e s = None else \<exists>s'. sched_do e s = Some s' \<and> sched_ok s'"
proof (cases e)
  case (Fork c p m1 m2 m3 m4)
  then show ?thesis using fork_ok [OF ok, of c m1 m2 m3 p m4] fork_panics [OF ok, of c m1 m2 m3 p m4] en by (auto simp: runs_def)
next
  case (Yield c)
  then show ?thesis using switch_ready_ok [OF ok] en by (simp add: runs_def thread_yield_def)
next
  case (Sleep irq hold n c w)
  then show ?thesis using switch_sleep_ok [OF ok, of c w] en by (auto simp: runs_def wchan_sleep_on_def)
next
  case (ToKernel c mem)
  then show ?thesis using to_kernel_cases [OF ok, of c mem] en by (auto simp: runs_def split: if_splits)
next
  case (Exit c)
  then show ?thesis using thread_exit_ok [OF ok, of c] thread_exit_panics [of c s] en by (auto simp: runs_def)
next
  case (Next c)
  then show ?thesis using switch_next_ok [OF ok] en by simp
next
  case (Clock c)
  then show ?thesis using hardclock_ok [OF ok] en by simp
next
  case (Migrate c)
  then have "\<not> in_idle s c" using en idle_okD [OF sched_okD(5) [OF ok], of c] by (auto simp: cpu_idle_ok_def)
  then show ?thesis using migration_ok [OF ok] en Migrate by simp
next
  case (WakeOne hold w)
  then show ?thesis using wakeone_ok [OF ok, of w] by (cases hold) (simp_all add: wchan_wakeone_take_def)
next
  case (WakeAll hold w)
  then show ?thesis using wakeall_ok [OF ok, of w] by (cases hold) (simp_all add: wchan_wakeall_take_def)
next
  case (Wake t)
  then show ?thesis using wake_ok [OF ok] en by simp
qed (use ipi_ok [OF ok] in auto)

inductive sched_steps :: "sched \<Rightarrow> sched \<Rightarrow> bool" where
  sched_refl: "sched_steps s s"
| sched_step: "sched_steps s u \<Longrightarrow> sched_enabled e u \<Longrightarrow> sched_do e u = Some v \<Longrightarrow> sched_steps s v"

lemma sched_steps_ok: "sched_steps s u \<Longrightarrow> sched_ok s \<Longrightarrow> sched_ok u"
proof (induction rule: sched_steps.induct)
  case (sched_step s u e v)
  then show ?case using sched_do_ok [of u e] by (auto split: if_splits)
qed

text \<open>
  C3. The thread system is safe on any number of processors. In every interleaving of forks, yields, sleeps,
  wake-ups, departures from a process, exits, idle loops, interrupts and migrations, with memory failing
  anywhere: a step fails an assertion, or touches a null or freed thread or process, exactly when it is one
  of the forbidden uses of \<open>misuse\<close>; every existing thread is in exactly one place, which fits its state and
  its processor; the arrays of threads of the processes list exactly the threads attached to them, once;
  and no two processors are ever on the same thread's stack, not even while they idle on the stack of a
  thread that has been put away. One forbidden use is the kernel's own: \<^verbatim>\<open>proc_exit\<close> does not look at the
  result of \<^verbatim>\<open>proc_addthread\<close>, and the \<^verbatim>\<open>thread_exit\<close> after it fails its assertion if and only if there was no
  memory to attach the thread.
\<close>

theorem threads_in_one_place:
  assumes "sched_boot n = Some s" "sched_steps s u"
  shows "(\<forall>e. sched_enabled e u \<longrightarrow> (sched_do e u = None \<longleftrightarrow> misuse e u))
    \<and> (\<forall>t th. threads u t = Some th \<longrightarrow> (\<exists>!p. t \<in> set (place_at u p)) \<and> (\<exists>p. t \<in> set (place_at u p) \<and> fits p th))
    \<and> (\<forall>t p. t \<in> set (place_at u p) \<longrightarrow> threads u t \<noteq> None)
    \<and> (\<forall>p. distinct (p_threads u p) \<and> set (p_threads u p) = {t. \<exists>th. threads u t = Some th \<and> t_proc th = Some p})
    \<and> (\<forall>c d. c < ncpus u \<and> d < ncpus u \<and> c_curthread (cpus u c) = c_curthread (cpus u d) \<longrightarrow> c = d)
    \<and> (\<forall>c d. c < ncpus u \<and> c_curthread (cpus u c) \<in> set (c_runqueue (cpus u d)) \<longrightarrow> c = d)
    \<and> (\<forall>c mem v. sched_enabled (ToKernel c mem) u \<and> sched_do (ToKernel c mem) u = Some v \<longrightarrow>
          (sched_do (Exit c) v = None \<longleftrightarrow> \<not> mem))"
proof -
  have ok: "sched_ok u" using sched_boot_ok [of n] sched_steps_ok [OF assms(2)] assms(1) by auto
  note oks = sched_okD [OF ok]
  have "sched_do e u = None \<longleftrightarrow> misuse e u" if "sched_enabled e u" for e
    using sched_do_ok [OF ok that] by (auto split: if_splits)
  moreover have "(\<exists>!p. t \<in> set (place_at u p)) \<and> (\<exists>p. t \<in> set (place_at u p) \<and> fits p th)" if "threads u t = Some th" for t th
    using placedD(4) [OF oks(1) that] placedD(2) [OF oks(1)] by blast
  moreover have "threads u t \<noteq> None" if "t \<in> set (place_at u p)" for t p
    using placedD(3) [OF oks(1) that] by auto
  moreover have "distinct (p_threads u p) \<and> set (p_threads u p) = {t. \<exists>th. threads u t = Some th \<and> t_proc th = Some p}" for p
    using oks(4) by (auto simp: proc_ok_def)
  moreover have "c = d" if "c < ncpus u" "d < ncpus u" "c_curthread (cpus u c) = c_curthread (cpus u d)" for c d
    using oks(2) that unfolding pin_ok_def by (metis option.inject)
  moreover have "c = d" if cd: "c < ncpus u" "c_curthread (cpus u c) \<in> set (c_runqueue (cpus u d))" for c d
  proof -
    obtain th where "threads u (c_curthread (cpus u c)) = Some th" "t_cpu th = Some d"
      using placedD(3) [OF oks(1), of "c_curthread (cpus u c)" "PQueue d"] cd(2) by auto
    then show ?thesis using oks(2) cd(1) by (auto simp: pin_ok_def)
  qed
  moreover have "sched_do (Exit c) v = None \<longleftrightarrow> \<not> mem"
    if v: "sched_enabled (ToKernel c mem) u" "sched_do (ToKernel c mem) u = Some v" for c mem v
  proof -
    have "sched_ok v" "curproc c v = (if mem then Some kproc else None)" "c < ncpus v" "\<not> c_isidle (cpus v c)"
      using to_kernel_cases [OF ok, of c mem] v by (auto simp: runs_def split: if_splits)
    then show ?thesis using thread_exit_ok [of v c] thread_exit_panics [of c v] by (cases mem) auto
  qed
  ultimately show ?thesis by blast
qed

text \<open>
  C7. No processor sleeps through work: a processor that waits in \<^verbatim>\<open>cpu_idle\<close> while threads are on its
  run queue has the unidle interrupt pending, and once it has taken it, the next round of its loop
  runs the thread at the head of the queue.
\<close>

theorem idle_cpu_is_interrupted:
  assumes "sched_boot n = Some s" "sched_steps s u"
    and "in_idle u c" "c_runqueue (cpus u c) = t # ts"
  shows "bit (c_ipi_pending (cpus u c)) IPI_UNIDLE
    \<and> (\<exists>v. thread_switch_next c (take_ipi c u) = Some v \<and> c_curthread (cpus v c) = t \<and> \<not> c_isidle (cpus v c)
           \<and> c_runqueue (cpus v c) = ts)"
proof -
  have ok: "sched_ok u" using sched_boot_ok [of n] sched_steps_ok [OF assms(2)] assms(1) by auto
  have i: "bit (c_ipi_pending (cpus u c)) IPI_UNIDLE" "c_isidle (cpus u c)" "mig u c = None"
    using idle_okD [OF sched_okD(5) [OF ok], of c] assms(3,4) by (auto simp: cpu_idle_ok_def)
  obtain th where "threads u t = Some th" "t_cpu th = Some c"
    using placedD(3) [OF sched_okD(1) [OF ok], of t "PQueue c"] assms(4) by auto
  then have c: "c < ncpus u" using sched_okD(3) [OF ok] by (auto simp: range_ok_def)
  have q: "c_runqueue (cpus (take_ipi c u) c) = t # ts" "c_isidle (cpus (take_ipi c u) c)"
    using assms(4) i(2) by (auto simp: take_ipi_def upd_cpu_def interprocessor_interrupt_def Let_def)
  obtain v where v: "thread_switch_next c (take_ipi c u) = Some v"
    using switch_next_ok [of "take_ipi c u" c] ipi_ok [OF ok, of c] c q(2) i(3) by (auto simp: take_ipi_def upd_cpu_def)
  show ?thesis using v q i(1)
    by (auto simp: thread_switch_next_def Let_def exorcise_def upd_cpu_def upd_thread_def bind_eq_Some_conv
        dest!: exorcise_list_cpu split: option.splits)
qed

text \<open>Two processors; the second goes to sleep and idle, and is woken.\<close>

fun sched_run :: "sched_event list \<Rightarrow> sched \<Rightarrow> sched option" where
  "sched_run [] s = Some s"
| "sched_run (e # es) s = (if sched_enabled e s then Option.bind (sched_do e s) (sched_run es) else None)"

lemma sched_run_steps: "sched_run es u = Some v \<Longrightarrow> sched_steps s u \<Longrightarrow> sched_steps s v"
  by (induction es arbitrary: u) (auto split: if_splits simp: bind_eq_Some_conv intro: sched_step)

definition two_cpus :: sched where
  "two_cpus = the (sched_boot 2)"

definition woken_idle :: sched where
  "woken_idle = the (sched_run [Sleep False True 1 1 7, Next 1, WakeOne True 7, Wake 1] two_cpus)"

lemma two_cpus_boot: "sched_boot 2 = Some two_cpus"
  using sched_boot_ok [of 2] by (auto simp: two_cpus_def)

lemma woken_idle_run: "sched_run [Sleep False True 1 1 7, Next 1, WakeOne True 7, Wake 1] two_cpus = Some woken_idle"
proof -
  have "sched_run [Sleep False True 1 1 7, Next 1, WakeOne True 7, Wake 1] two_cpus \<noteq> None" by code_simp
  then show ?thesis by (auto simp: woken_idle_def)
qed

lemma woken_idle_steps: "sched_steps two_cpus woken_idle"
  by (rule sched_run_steps [OF woken_idle_run sched_refl])

text \<open>A process of one thread, which leaves it without memory to be attached to the kernel's.\<close>

abbreviation leaving_events :: "sched_event list" where
  "leaving_events \<equiv> [Fork 0 (Some 5) True True True True, Yield 0, Next 0]"

definition in_process :: sched where
  "in_process = the (sched_run leaving_events two_cpus)"

lemma in_process_run: "sched_run leaving_events two_cpus = Some in_process"
proof -
  have "sched_run leaving_events two_cpus \<noteq> None" by code_simp
  then show ?thesis by (auto simp: in_process_def)
qed

theorem threads_in_one_place_witness:
  "sched_boot 2 = Some two_cpus \<and> sched_steps two_cpus in_process
   \<and> (\<exists>v. sched_do (ToKernel 0 False) in_process = Some v \<and> sched_do (Exit 0) v = None)"
proof -
  note st = sched_run_steps [OF in_process_run sched_refl]
  have en: "sched_enabled (ToKernel 0 False) in_process" by code_simp
  have "sched_do (ToKernel 0 False) in_process \<noteq> None" by code_simp
  then obtain v where v: "sched_do (ToKernel 0 False) in_process = Some v" by blast
  then have "sched_do (Exit 0) v = None" using threads_in_one_place [OF two_cpus_boot st] en by blast
  then show ?thesis using two_cpus_boot st v by blast
qed

theorem idle_cpu_is_interrupted_witness:
  "sched_steps two_cpus woken_idle \<and> in_idle woken_idle 1 \<and> c_runqueue (cpus woken_idle 1) = [1]
   \<and> bit (c_ipi_pending (cpus woken_idle 1)) IPI_UNIDLE"
proof -
  have i: "in_idle woken_idle 1" "c_runqueue (cpus woken_idle 1) = [1]" by code_simp+
  then show ?thesis using idle_cpu_is_interrupted [OF two_cpus_boot woken_idle_steps i] woken_idle_steps by blast
qed

section \<open>TLB shootdowns\<close>

text \<open>
  Requests collect in the array until the processor takes the interrupt.
\<close>

fun shootdown_all :: "tlbshootdown list \<Rightarrow> cpu \<Rightarrow> cpu option" where
  "shootdown_all [] cp = Some cp"
| "shootdown_all (m # ms) cp = Option.bind (ipi_tlbshootdown m cp) (shootdown_all ms)"

lemma shootdown_all_some:
  assumes "length (c_shootdown cp) = 16" "c_numshootdown cp = int k" "k + length ms \<le> 16"
  shows "\<exists>cp'. shootdown_all ms cp = Some cp' \<and> c_numshootdown cp' = int (k + length ms)
    \<and> length (c_shootdown cp') = 16 \<and> take (k + length ms) (c_shootdown cp') = take k (c_shootdown cp) @ ms
    \<and> (ms \<noteq> [] \<longrightarrow> bit (c_ipi_pending cp') IPI_TLBSHOOTDOWN)
    \<and> (\<forall>b. b \<noteq> IPI_TLBSHOOTDOWN \<longrightarrow> bit (c_ipi_pending cp') b = bit (c_ipi_pending cp) b)"
  using assms
proof (induction ms arbitrary: cp k)
  case (Cons m ms)
  let ?cp = "cp\<lparr>c_shootdown := (c_shootdown cp)[k := m], c_numshootdown := int k + 1,
      c_ipi_pending := c_ipi_pending cp OR ipi_bit IPI_TLBSHOOTDOWN\<rparr>"
  have k: "k < 16" using Cons.prems(3) by simp
  have s: "ipi_tlbshootdown m cp = Some ?cp"
    using Cons.prems k by (simp add: ipi_tlbshootdown_def TLBSHOOTDOWN_MAX_def Let_def)
  have t: "take (Suc k) ((c_shootdown cp)[k := m]) = take k (c_shootdown cp) @ [m]"
    using Cons.prems(1) k by (simp add: take_Suc_conv_app_nth)
  obtain cp' where cp': "shootdown_all ms ?cp = Some cp'" "c_numshootdown cp' = int (Suc k + length ms)"
    "length (c_shootdown cp') = 16" "take (Suc k + length ms) (c_shootdown cp') = take (Suc k) (c_shootdown ?cp) @ ms"
    "\<forall>b. b \<noteq> IPI_TLBSHOOTDOWN \<longrightarrow> bit (c_ipi_pending cp') b = bit (c_ipi_pending ?cp) b"
    "ms \<noteq> [] \<longrightarrow> bit (c_ipi_pending cp') IPI_TLBSHOOTDOWN"
    using Cons.IH [of ?cp "Suc k"] Cons.prems by auto
  have "bit (c_ipi_pending cp') IPI_TLBSHOOTDOWN"
    using cp'(1,6) by (cases ms) (auto simp: bit_or_ipi IPI_TLBSHOOTDOWN_def)
  moreover have "bit (c_ipi_pending cp') b = bit (c_ipi_pending cp) b" if "b \<noteq> IPI_TLBSHOOTDOWN" for b
    using cp'(5) that by (simp add: bit_or_ipi IPI_TLBSHOOTDOWN_def)
  ultimately show ?case using s cp' t by auto
qed simp

lemma shootdown_all_append:
  "shootdown_all (ms @ ns) cp = Option.bind (shootdown_all ms cp) (shootdown_all ns)"
proof (induction ms arbitrary: cp)
  case (Cons m ms)
  then show ?case by (cases "ipi_tlbshootdown m cp") auto
qed simp

definition shootdown_idle :: "cpu \<Rightarrow> bool" where
  "shootdown_idle cp \<longleftrightarrow> length (c_shootdown cp) = 16 \<and> c_numshootdown cp = 0 \<and>
     \<not> bit (c_ipi_pending cp) IPI_PANIC \<and> \<not> bit (c_ipi_pending cp) IPI_OFFLINE"

lemma ipi_names: "IPI_PANIC \<noteq> IPI_TLBSHOOTDOWN" "IPI_OFFLINE \<noteq> IPI_TLBSHOOTDOWN"
  by (simp_all add: IPI_PANIC_def IPI_OFFLINE_def IPI_TLBSHOOTDOWN_def)

lemma shootdown_17:
  assumes "shootdown_idle cp" "length ms = 16"
  shows "\<exists>cp'. shootdown_all (ms @ [m]) cp = Some cp' \<and> c_numshootdown cp' = TLBSHOOTDOWN_ALL
    \<and> bit (c_ipi_pending cp') IPI_TLBSHOOTDOWN \<and> \<not> bit (c_ipi_pending cp') IPI_PANIC \<and> \<not> bit (c_ipi_pending cp') IPI_OFFLINE"
proof -
  obtain cp' where "shootdown_all ms cp = Some cp'" "c_numshootdown cp' = 16"
    "\<forall>b. b \<noteq> IPI_TLBSHOOTDOWN \<longrightarrow> bit (c_ipi_pending cp') b = bit (c_ipi_pending cp) b"
    using shootdown_all_some [of cp 0 ms] assms by (auto simp: shootdown_idle_def)
  then show ?thesis using assms(1) ipi_names
    by (simp add: shootdown_all_append ipi_tlbshootdown_def Let_def TLBSHOOTDOWN_MAX_def shootdown_idle_def)
      (simp add: bit_or_ipi IPI_TLBSHOOTDOWN_def IPI_PANIC_def IPI_OFFLINE_def)
qed

text \<open>
  C24. TLB shootdowns sent to a processor that has none pending: up to sixteen are all carried out,
  in order and nothing else, at its next interprocessor interrupt; seventeen flush the whole TLB.
  But an eighteenth before the interrupt is taken writes to \<^verbatim>\<open>c_shootdown[-1]\<close>, outside the array: the
  code compares the count with the size of the array and not with the marker it stores when the
  array is full.
\<close>

theorem tlb_shootdown_outcomes:
  assumes "shootdown_idle cp" "ms \<noteq> []"
  shows "(length ms \<le> 16 \<longrightarrow> (\<exists>cp'. shootdown_all ms cp = Some cp' \<and> snd (interprocessor_interrupt cp') = Ipi_done (Some ms)))
    \<and> (length ms = 17 \<longrightarrow> (\<exists>cp'. shootdown_all ms cp = Some cp' \<and> snd (interprocessor_interrupt cp') = Ipi_done None))
    \<and> (length ms > 17 \<longrightarrow> shootdown_all ms cp = None)"
proof (intro conjI impI)
  assume "length ms \<le> 16"
  then obtain cp' where "shootdown_all ms cp = Some cp'" "c_numshootdown cp' = int (length ms)"
    "take (length ms) (c_shootdown cp') = ms" "bit (c_ipi_pending cp') IPI_TLBSHOOTDOWN"
    "\<forall>b. b \<noteq> IPI_TLBSHOOTDOWN \<longrightarrow> bit (c_ipi_pending cp') b = bit (c_ipi_pending cp) b"
    using shootdown_all_some [of cp 0 ms] assms by (auto simp: shootdown_idle_def)
  then show "\<exists>cp'. shootdown_all ms cp = Some cp' \<and> snd (interprocessor_interrupt cp') = Ipi_done (Some ms)"
    using assms(1) ipi_names
    by (auto simp: interprocessor_interrupt_def Let_def shootdown_idle_def TLBSHOOTDOWN_ALL_def)
next
  assume l: "length ms = 17"
  have ms: "ms = butlast ms @ [last ms]" using assms(2) by simp
  show "\<exists>cp'. shootdown_all ms cp = Some cp' \<and> snd (interprocessor_interrupt cp') = Ipi_done None"
    using shootdown_17 [OF assms(1), of "butlast ms" "last ms"] l assms(2)
    by (auto simp: interprocessor_interrupt_def Let_def)
next
  assume l: "length ms > 17"
  then have ms: "ms = (take 16 ms @ [ms ! 16]) @ ms ! 17 # drop 18 ms"
    by (simp add: Cons_nth_drop_Suc take_Suc_conv_app_nth [symmetric] numeral_eq_Suc del: take_Suc_conv_app_nth)
  obtain cp' where "shootdown_all (take 16 ms @ [ms ! 16]) cp = Some cp'" "c_numshootdown cp' = TLBSHOOTDOWN_ALL"
    using shootdown_17 [OF assms(1), of "take 16 ms" "ms ! 16"] l by auto
  then show "shootdown_all ms cp = None"
    by (subst ms, subst shootdown_all_append)
      (simp add: ipi_tlbshootdown_def Let_def TLBSHOOTDOWN_ALL_def TLBSHOOTDOWN_MAX_def)
qed

theorem tlb_shootdown_outcomes_witness:
  "let cp = no_cpu\<lparr>c_shootdown := replicate 16 0\<rparr> in
     shootdown_idle cp \<and> shootdown_all (replicate 18 5) cp = None
     \<and> (\<exists>cp'. shootdown_all [3, 4] cp = Some cp' \<and> snd (interprocessor_interrupt cp') = Ipi_done (Some [3, 4]))"
proof -
  have i: "shootdown_idle (no_cpu\<lparr>c_shootdown := replicate 16 0\<rparr>)"
    by (simp add: shootdown_idle_def no_cpu_def)
  show ?thesis
    using tlb_shootdown_outcomes [OF i, of "replicate 18 5"] tlb_shootdown_outcomes [OF i, of "[3, 4]"] i
    by (simp add: Let_def)
qed

end
