(* ===== verification/Karray.thy ===== *)
theory Karray
  imports Kernel_Prelude
begin

text \<open>
  Resizeable arrays of pointers: \<^verbatim>\<open>kern/lib/array.c\<close> and the inline operations of \<^verbatim>\<open>kern/include/array.h\<close>.

  \<open>arr_v\<close> is the block that \<open>v\<close> points to, as many entries as \<^verbatim>\<open>kmalloc\<close> was asked for; the first \<open>arr_num\<close> are
  the array, the rest is whatever memory holds (\<open>junk\<close> for a block fresh from \<^verbatim>\<open>kmalloc\<close>). Counts, and
  the sizes in bytes handed to \<^verbatim>\<open>kmalloc\<close>, \<^verbatim>\<open>memcpy\<close> and \<^verbatim>\<open>memmove\<close>, are unsigned 32-bit numbers and wrap.
  \<^verbatim>\<open>ARRAYASSERT\<close> is \<^verbatim>\<open>KASSERT\<close>; an access outside the block is \<open>None\<close> as well.
\<close>

record karray =
  arr_v :: "nat list"
  arr_num :: nat
  arr_max :: nat

definition array_init :: karray where
  "array_init = \<lparr>arr_v = [], arr_num = 0, arr_max = 0\<rparr>"

definition array_cleanup :: "karray \<Rightarrow> unit option" where
  "array_cleanup a = kassert (arr_num a = 0)"

definition array_get :: "karray \<Rightarrow> nat \<Rightarrow> nat option" where
  "array_get a index = do { kassert (index < arr_num a); kassert (index < length (arr_v a)); Some (arr_v a ! index) }"

definition array_set :: "karray \<Rightarrow> nat \<Rightarrow> nat \<Rightarrow> karray option" where
  "array_set a index val =
     do { kassert (index < arr_num a); kassert (index < length (arr_v a));
          Some (a\<lparr>arr_v := (arr_v a)[index := val]\<rparr>) }"

text \<open>The loop that doubles the size; a loop that does not end has no value.\<close>

partial_function (option) grow :: "nat \<Rightarrow> nat \<Rightarrow> nat option" where
  "grow num newmax =
     (if num > newmax then grow num (if newmax \<noteq> 0 then u32 (newmax * 2) else 4) else Some newmax)"

text \<open>The number of entries in \<open>n * sizeof(void *)\<close> bytes, a 32-bit product.\<close>

definition entries :: "nat \<Rightarrow> nat" where
  "entries n = u32 (n * 4) div 4"

definition array_preallocate :: "bool \<Rightarrow> (nat \<Rightarrow> nat) \<Rightarrow> karray \<Rightarrow> nat \<Rightarrow> (karray \<times> (errno + unit)) option" where
  "array_preallocate mem junk a num =
     (if num > arr_max a then
        do {
          newmax \<leftarrow> grow num (arr_max a);
          if \<not> mem then Some (a, Inl ENOMEM)
          else do {
            let newptr = map junk [0..<entries newmax];
            let copied = entries (arr_num a);
            kassert (copied \<le> length newptr \<and> copied \<le> length (arr_v a));
            Some (a\<lparr>arr_v := take copied (arr_v a) @ drop copied newptr, arr_max := newmax\<rparr>, Inr ())
          }
        }
      else Some (a, Inr ()))"

definition array_setsize :: "bool \<Rightarrow> (nat \<Rightarrow> nat) \<Rightarrow> karray \<Rightarrow> nat \<Rightarrow> (karray \<times> (errno + unit)) option" where
  "array_setsize mem junk a num =
     do {
       (a, r) \<leftarrow> array_preallocate mem junk a num;
       case r of Inl e \<Rightarrow> Some (a, Inl e) | Inr _ \<Rightarrow> Some (a\<lparr>arr_num := num\<rparr>, Inr ())
     }"

definition array_add :: "bool \<Rightarrow> (nat \<Rightarrow> nat) \<Rightarrow> karray \<Rightarrow> nat \<Rightarrow> (karray \<times> (errno + nat)) option" where
  "array_add mem junk a val =
     do {
       let index = arr_num a;
       (a, r) \<leftarrow> array_setsize mem junk a (u32 (index + 1));
       case r of
         Inl e \<Rightarrow> Some (a, Inl e)
       | Inr _ \<Rightarrow> do { kassert (index < length (arr_v a)); Some (a\<lparr>arr_v := (arr_v a)[index := val]\<rparr>, Inr index) }
     }"

definition array_remove :: "karray \<Rightarrow> nat \<Rightarrow> karray option" where
  "array_remove a index =
     do {
       kassert (arr_num a \<le> arr_max a);
       kassert (index < arr_num a);
       let num_to_move = arr_num a - (index + 1);
       let moving = entries num_to_move;
       kassert (index + 1 + moving \<le> length (arr_v a));
       let moved = take moving (drop (index + 1) (arr_v a));
       Some (a\<lparr>arr_v := take index (arr_v a) @ moved @ drop (index + moving) (arr_v a), arr_num := arr_num a - 1\<rparr>)
     }"

section \<open>The growth loop\<close>

definition pow_size :: "nat \<Rightarrow> bool" where
  "pow_size m \<longleftrightarrow> m = 0 \<or> (\<exists>k. 2 \<le> k \<and> k \<le> 31 \<and> m = 2 ^ k)"

lemma pow_size_step:
  assumes "pow_size m"
  shows "pow_size (if m \<noteq> 0 then u32 (m * 2) else 4)"
proof (cases "m = 0")
  case True
  then show ?thesis by (auto simp: pow_size_def intro: exI [of _ 2])
next
  case False
  then obtain k where k: "2 \<le> k" "k \<le> 31" "m = 2 ^ k" using assms by (auto simp: pow_size_def)
  show ?thesis
  proof (cases "k = 31")
    case True
    then show ?thesis using k by (simp add: pow_size_def)
  next
    case False
    then have "(2 :: nat) ^ Suc k < 2 ^ 32" using k(2) by (intro power_strict_increasing) auto
    then have "u32 (m * 2) = 2 ^ Suc k" using k(3) by (simp add: mult.commute)
    moreover have "pow_size (2 ^ Suc k)" unfolding pow_size_def using k False by (intro disjI2 exI [of _ "Suc k"]) auto
    ultimately show ?thesis using \<open>m \<noteq> 0\<close> by simp
  qed
qed

lemma grow_ends:
  assumes "pow_size m" "num \<le> 2 ^ 31"
  shows "\<exists>y. grow num m = Some y \<and> num \<le> y \<and> pow_size y \<and> m \<le> y"
  using assms
proof (induction "2 ^ 31 - m" arbitrary: m rule: less_induct)
  case less
  show ?case
  proof (cases "num > m")
    case False
    then show ?thesis using less.prems by (subst grow.simps) auto
  next
    case True
    let ?m = "if m \<noteq> 0 then u32 (m * 2) else 4"
    have "m < 2 ^ 31" using True less.prems(2) by simp
    then have "?m > m" "?m \<le> 2 ^ 31 \<or> True" by auto
    moreover have "2 ^ 31 - ?m < 2 ^ 31 - m" using \<open>m < 2 ^ 31\<close> \<open>?m > m\<close> by linarith
    ultimately obtain y where "grow num ?m = Some y" "num \<le> y" "pow_size y" "?m \<le> y"
      using less.hyps [OF _ pow_size_step [OF less.prems(1)] less.prems(2)] by blast
    then show ?thesis using True \<open>?m > m\<close> by (subst grow.simps) auto
  qed
qed

text \<open>The result is less than twice the number asked for, unless it is the capacity that was there.\<close>

lemma grow_bound:
  assumes "grow num m = Some y" "num \<le> 2 ^ k" "m \<le> 2 ^ k" "2 \<le> k" "k \<le> 31" "pow_size m"
  shows "y \<le> 2 ^ k"
  using assms
proof (induction "2 ^ 31 - m" arbitrary: m rule: less_induct)
  case less
  let ?m = "if m \<noteq> 0 then u32 (m * 2) else 4"
  show ?case
  proof (cases "num > m")
    case False
    then show ?thesis using less.prems by (subst (asm) grow.simps) auto
  next
    case True
    have g: "grow num ?m = Some y" using True less.prems(1) by (subst (asm) grow.simps) simp
    have lt: "m < 2 ^ k" using True less.prems(2) by linarith
    have le: "(2 :: nat) ^ k \<le> 2 ^ 31" using less.prems(5) by (rule power_increasing) simp
    have "m < 2 ^ 31" using lt le by linarith
    then have up: "m < ?m" "2 ^ 31 - ?m < 2 ^ 31 - m" by auto
    have "?m \<le> 2 ^ k"
    proof (cases "m = 0")
      case True
      have "(2 :: nat) ^ 2 \<le> 2 ^ k" using less.prems(4) by (intro power_increasing) auto
      then show ?thesis using True by simp
    next
      case False
      then obtain i where i: "m = 2 ^ i" using less.prems(6) by (auto simp: pow_size_def)
      then have "i < k" using lt by simp
      then have "(2 :: nat) ^ Suc i \<le> 2 ^ k" by (intro power_increasing) auto
      then show ?thesis using i \<open>m < 2 ^ 31\<close> by simp
    qed
    then show ?thesis using less.hyps [OF up(2) g less.prems(2) _ less.prems(4,5) pow_size_step [OF less.prems(6)]] by simp
  qed
qed

lemma grow_loops:
  assumes "num > 2 ^ 31" "pow_size m"
  shows "grow num m = None"
proof -
  have below: "n > m" if "n > 2 ^ 31" "pow_size m" for n m :: nat
  proof -
    have "(2 :: nat) ^ k \<le> 2 ^ 31" if "k \<le> 31" for k :: nat using that by (intro power_increasing) auto
    then show ?thesis using that by (auto simp: pow_size_def) (meson le_less_trans)
  qed
  have "n > 2 ^ 31 \<longrightarrow> pow_size m \<longrightarrow> False" if "grow n m = Some y" for n m y
  proof (rule grow.raw_induct [of "\<lambda>n m y. n > 2 ^ 31 \<longrightarrow> pow_size m \<longrightarrow> False", OF _ that], intro impI)
    fix f :: "nat \<Rightarrow> nat \<Rightarrow> nat option" and n m y
    assume IH: "\<And>n m y. f n m = Some y \<Longrightarrow> n > 2 ^ 31 \<longrightarrow> pow_size m \<longrightarrow> False"
      and body: "(if n > m then f n (if m \<noteq> 0 then u32 (m * 2) else 4) else Some m) = Some y"
      and n: "n > 2 ^ 31" and m: "pow_size m"
    then have "f n (if m \<noteq> 0 then u32 (m * 2) else 4) = Some y" using below [OF n m] by simp
    from IH [OF this] n pow_size_step [OF m] show False by blast
  qed
  then show ?thesis using assms by (cases "grow num m") auto
qed

section \<open>Arrays are lists\<close>

definition karray_ok :: "karray \<Rightarrow> bool" where
  "karray_ok a \<longleftrightarrow> length (arr_v a) = arr_max a \<and> arr_num a \<le> arr_max a \<and> pow_size (arr_max a) \<and> arr_max a \<le> 2 ^ 29"

lemma entries_small: "n \<le> 2 ^ 29 \<Longrightarrow> entries n = n"
  by (simp add: entries_def)

definition elems :: "karray \<Rightarrow> nat list" where
  "elems a = take (arr_num a) (arr_v a)"

lemma array_init_ok [simp]: "karray_ok array_init" "elems array_init = []"
  by (simp_all add: karray_ok_def elems_def array_init_def pow_size_def)

lemma length_elems: "karray_ok a \<Longrightarrow> length (elems a) = arr_num a"
  by (simp add: karray_ok_def elems_def)

lemma array_get_elems: "karray_ok a \<Longrightarrow> array_get a i = (if i < length (elems a) then Some (elems a ! i) else None)"
  by (auto simp: array_get_def karray_ok_def elems_def)

lemma array_set_elems:
  assumes "karray_ok a"
  shows "if i < length (elems a)
    then \<exists>a'. array_set a i x = Some a' \<and> karray_ok a' \<and> elems a' = (elems a)[i := x] else array_set a i x = None"
  using assms by (auto simp: array_set_def karray_ok_def elems_def take_update_swap)

lemma array_remove_elems:
  assumes "karray_ok a"
  shows "if i < length (elems a)
    then \<exists>a'. array_remove a i = Some a' \<and> karray_ok a' \<and> elems a' = take i (elems a) @ drop (Suc i) (elems a)
    else array_remove a i = None"
proof (cases "i < length (elems a)")
  case True
  then have i: "i < arr_num a" using length_elems [OF assms] by simp
  let ?k = "arr_num a - (i + 1)"
  let ?v = "take i (arr_v a) @ take ?k (drop (i + 1) (arr_v a)) @ drop (i + ?k) (arr_v a)"
  have eq: "array_remove a i = Some (a\<lparr>arr_v := ?v, arr_num := arr_num a - 1\<rparr>)"
    using i assms entries_small [of "arr_num a - Suc i"] by (auto simp: array_remove_def karray_ok_def Let_def)
  have len: "length (take i (arr_v a)) = i" "length (take ?k (drop (i + 1) (arr_v a))) = ?k"
    using i assms by (auto simp: karray_ok_def)
  have "take (arr_num a - 1) ?v = take i (arr_v a) @ take ?k (drop (i + 1) (arr_v a))"
    using len i by simp
  also have "\<dots> = take i (elems a) @ drop (Suc i) (elems a)"
    using i by (simp add: elems_def drop_take min_def)
  finally have "elems (a\<lparr>arr_v := ?v, arr_num := arr_num a - 1\<rparr>) = take i (elems a) @ drop (Suc i) (elems a)"
    by (simp add: elems_def)
  moreover have "karray_ok (a\<lparr>arr_v := ?v, arr_num := arr_num a - 1\<rparr>)"
    using assms len i by (auto simp: karray_ok_def)
  ultimately show ?thesis using eq True by auto
next
  case False
  then show ?thesis using assms length_elems [OF assms] by (simp add: array_remove_def)
qed

lemma array_preallocate_elems:
  assumes "karray_ok a" "num \<le> 2 ^ 29"
  shows "(\<exists>a'. array_preallocate mem junk a num = Some (a', Inr ()) \<and> karray_ok a' \<and> elems a' = elems a \<and>
             arr_num a' = arr_num a \<and> num \<le> arr_max a') \<or>
    (\<not> mem \<and> array_preallocate mem junk a num = Some (a, Inl ENOMEM))"
proof -
  have a: "pow_size (arr_max a)" "arr_num a \<le> arr_max a" "arr_max a \<le> 2 ^ 29" "length (arr_v a) = arr_max a" using assms(1) by (simp_all add: karray_ok_def)
  obtain y where y: "grow num (arr_max a) = Some y" "num \<le> y" "pow_size y" "arr_max a \<le> y"
    using grow_ends [OF a(1), of num] assms(2) by auto
  have le: "y \<le> 2 ^ 29" using grow_bound [OF y(1) assms(2) a(3) _ _ a(1)] by simp
  then have e: "entries y = y" "entries (arr_num a) = arr_num a" using a(2,3) by (simp_all add: entries_small)
  show ?thesis
  proof (cases "num > arr_max a \<and> mem")
    case False
    then show ?thesis using y(1) assms(1) by (auto simp: array_preallocate_def)
  next
    case True
    let ?a = "a\<lparr>arr_v := take (arr_num a) (arr_v a) @ drop (arr_num a) (map junk [0..<y]), arr_max := y\<rparr>"
    have "array_preallocate mem junk a num = Some (?a, Inr ())" using True y(1,4) a e by (simp add: array_preallocate_def Let_def)
    moreover have "karray_ok ?a" using a y(3,4) le by (simp add: karray_ok_def)
    moreover have "elems ?a = elems a" using a by (simp add: elems_def)
    ultimately show ?thesis using y(2) by auto
  qed
qed

lemma array_add_elems:
  assumes "karray_ok a" "arr_num a < 2 ^ 29"
  shows "(\<exists>a'. array_add mem junk a x = Some (a', Inr (length (elems a))) \<and> karray_ok a' \<and> elems a' = elems a @ [x]) \<or>
    (\<not> mem \<and> array_add mem junk a x = Some (a, Inl ENOMEM))"
proof -
  have u: "u32 (arr_num a + 1) = arr_num a + 1" using assms(2) by simp
  from array_preallocate_elems [OF assms(1), of "arr_num a + 1" mem junk] assms(2)
  consider a' where "array_preallocate mem junk a (arr_num a + 1) = Some (a', Inr ())" "karray_ok a'" "elems a' = elems a"
      "arr_num a' = arr_num a" "arr_num a + 1 \<le> arr_max a'"
    | "\<not> mem" "array_preallocate mem junk a (arr_num a + 1) = Some (a, Inl ENOMEM)" by auto
  then show ?thesis
  proof cases
    case 1
    let ?a = "a'\<lparr>arr_num := arr_num a + 1, arr_v := (arr_v a')[arr_num a := x]\<rparr>"
    have l: "length (arr_v a') = arr_max a'" using 1(2) by (simp add: karray_ok_def)
    have "array_add mem junk a x = Some (?a, Inr (arr_num a))"
      using 1 l u by (simp add: array_add_def array_setsize_def Let_def)
    moreover have "karray_ok ?a" using 1(2,5) by (simp add: karray_ok_def)
    moreover have "elems ?a = elems a @ [x]"
      using 1(3,4,5) l by (simp add: elems_def take_Suc_conv_app_nth)
    ultimately show ?thesis using length_elems [OF assms(1)] by auto
  next
    case 2
    then show ?thesis using u by (simp add: array_add_def array_setsize_def Let_def)
  qed
qed

lemma array_truncate_elems:
  assumes "karray_ok a" "n \<le> length (elems a)"
  shows "\<exists>a'. array_setsize mem junk a n = Some (a', Inr ()) \<and> karray_ok a' \<and> elems a' = take n (elems a)"
proof -
  have "n \<le> arr_num a" "n \<le> arr_max a" using assms length_elems [OF assms(1)] by (auto simp: karray_ok_def)
  then show ?thesis using assms(1)
    by (auto simp: array_setsize_def array_preallocate_def karray_ok_def elems_def)
qed

text \<open>
  Client programs. Growing by \<^verbatim>\<open>setsize\<close> leaves new entries uninitialised; clients use \<^verbatim>\<open>setsize\<close> to
  shrink. Whether memory ran out when an element was added is an input of the specification.
\<close>

datatype array_op = AGet nat | ASet nat nat | AAdd bool nat | ARemove nat | ATruncate nat

datatype array_res = ADone | AVal nat | AErr errno

fun arr_do :: "(nat \<Rightarrow> nat) \<Rightarrow> array_op \<Rightarrow> karray \<Rightarrow> (karray \<times> array_res) option" where
  "arr_do junk (AGet i) a = map_option (\<lambda>x. (a, AVal x)) (array_get a i)"
| "arr_do junk (ASet i x) a = map_option (\<lambda>a. (a, ADone)) (array_set a i x)"
| "arr_do junk (AAdd mem x) a =
     map_option (\<lambda>(a, r). (a, case r of Inl e \<Rightarrow> AErr e | Inr i \<Rightarrow> AVal i)) (array_add mem junk a x)"
| "arr_do junk (ARemove i) a = map_option (\<lambda>a. (a, ADone)) (array_remove a i)"
| "arr_do junk (ATruncate n) a =
     (if n \<le> arr_num a
      then map_option (\<lambda>(a, r). (a, case r of Inl e \<Rightarrow> AErr e | Inr i \<Rightarrow> ADone)) (array_setsize True junk a n) else None)"

fun list_do :: "array_op \<Rightarrow> bool \<Rightarrow> nat list \<Rightarrow> (nat list \<times> array_res) option" where
  "list_do (AGet i) grown xs = (if i < length xs then Some (xs, AVal (xs ! i)) else None)"
| "list_do (ASet i x) grown xs = (if i < length xs then Some (xs[i := x], ADone) else None)"
| "list_do (AAdd mem x) grown xs =
     (if grown then Some (xs @ [x], AVal (length xs)) else if mem then None else Some (xs, AErr ENOMEM))"
| "list_do (ARemove i) grown xs = (if i < length xs then Some (take i xs @ drop (Suc i) xs, ADone) else None)"
| "list_do (ATruncate n) grown xs = (if n \<le> length xs then Some (take n xs, ADone) else None)"

fun arr_run :: "(nat \<Rightarrow> nat) \<Rightarrow> array_op list \<Rightarrow> karray \<Rightarrow> (karray \<times> array_res list) option" where
  "arr_run junk [] a = Some (a, [])"
| "arr_run junk (p # ps) a =
     do { (a, r) \<leftarrow> arr_do junk p a; (a, rs) \<leftarrow> arr_run junk ps a; Some (a, r # rs) }"

fun list_run :: "(array_op \<times> bool) list \<Rightarrow> nat list \<Rightarrow> (nat list \<times> array_res list) option" where
  "list_run [] xs = Some (xs, [])"
| "list_run ((p, g) # ps) xs =
     do { (xs, r) \<leftarrow> list_do p g xs; (xs, rs) \<leftarrow> list_run ps xs; Some (xs, r # rs) }"

lemma arr_do_refines:
  assumes "karray_ok a" "arr_num a < 2 ^ 29"
  shows "\<exists>g. (arr_do junk p a = None \<and> list_do p g (elems a) = None) \<or>
    (\<exists>a' r. arr_do junk p a = Some (a', r) \<and> list_do p g (elems a) = Some (elems a', r) \<and> karray_ok a'
       \<and> arr_num a' \<le> Suc (arr_num a))"
proof (cases p)
  case (AGet i)
  then show ?thesis using array_get_elems [OF assms(1), of i] assms(1) by auto
next
  case (ASet i x)
  show ?thesis
  proof (cases "i < length (elems a)")
    case True
    then obtain a' where a': "array_set a i x = Some a'" "karray_ok a'" "elems a' = (elems a)[i := x]"
      using array_set_elems [OF assms(1), of i x] by auto
    have "arr_num a' = arr_num a" using length_elems [OF a'(2)] length_elems [OF assms(1)] a'(3) by simp
    then show ?thesis using ASet a' True by auto
  next
    case False
    then show ?thesis using ASet array_set_elems [OF assms(1), of i x] by auto
  qed
next
  case (AAdd mem x)
  from array_add_elems [OF assms, of mem junk x] show ?thesis
  proof
    assume "\<exists>a'. array_add mem junk a x = Some (a', Inr (length (elems a))) \<and> karray_ok a' \<and> elems a' = elems a @ [x]"
    then obtain a' where a': "array_add mem junk a x = Some (a', Inr (length (elems a)))" "karray_ok a'" "elems a' = elems a @ [x]"
      by blast
    have "arr_num a' = Suc (arr_num a)" using length_elems [OF a'(2)] length_elems [OF assms(1)] a'(3) by simp
    then show ?thesis using AAdd a' by (intro exI [of _ True]) auto
  next
    assume "\<not> mem \<and> array_add mem junk a x = Some (a, Inl ENOMEM)"
    then show ?thesis using AAdd assms(1) by (intro exI [of _ False]) auto
  qed
next
  case (ARemove i)
  show ?thesis
  proof (cases "i < length (elems a)")
    case True
    then obtain a' where a': "array_remove a i = Some a'" "karray_ok a'" "elems a' = take i (elems a) @ drop (Suc i) (elems a)"
      using array_remove_elems [OF assms(1), of i] by auto
    have "arr_num a' \<le> arr_num a" using length_elems [OF a'(2)] length_elems [OF assms(1)] a'(3) True by simp
    then show ?thesis using ARemove a' True by auto
  next
    case False
    then show ?thesis using ARemove array_remove_elems [OF assms(1), of i] by auto
  qed
next
  case (ATruncate n)
  show ?thesis
  proof (cases "n \<le> length (elems a)")
    case True
    then obtain a' where a': "array_setsize True junk a n = Some (a', Inr ())" "karray_ok a'" "elems a' = take n (elems a)"
      using array_truncate_elems [OF assms(1)] by blast
    have "arr_num a' \<le> arr_num a" using length_elems [OF a'(2)] length_elems [OF assms(1)] a'(3) by simp
    then show ?thesis using ATruncate a' True length_elems [OF assms(1)] by auto
  next
    case False
    then show ?thesis using ATruncate length_elems [OF assms(1)] by auto
  qed
qed

lemma arr_run_refines:
  assumes "karray_ok a" "arr_num a + length ps \<le> 2 ^ 29"
  shows "\<exists>gs. length gs = length ps \<and>
    map_option (\<lambda>(a, rs). (elems a, rs)) (arr_run junk ps a) = list_run (zip ps gs) (elems a)"
  using assms
proof (induction ps arbitrary: a)
  case (Cons p ps)
  have n: "arr_num a < 2 ^ 29" using Cons.prems(2) by simp
  obtain g where g: "(arr_do junk p a = None \<and> list_do p g (elems a) = None) \<or>
    (\<exists>a' r. arr_do junk p a = Some (a', r) \<and> list_do p g (elems a) = Some (elems a', r) \<and> karray_ok a'
       \<and> arr_num a' \<le> Suc (arr_num a))" using arr_do_refines [OF Cons.prems(1) n] by blast
  then show ?case
  proof
    assume "arr_do junk p a = None \<and> list_do p g (elems a) = None"
    then show ?thesis by (intro exI [of _ "g # replicate (length ps) False"]) simp
  next
    assume "\<exists>a' r. arr_do junk p a = Some (a', r) \<and> list_do p g (elems a) = Some (elems a', r) \<and> karray_ok a'
       \<and> arr_num a' \<le> Suc (arr_num a)"
    then obtain a' r where a': "arr_do junk p a = Some (a', r)" "list_do p g (elems a) = Some (elems a', r)" "karray_ok a'"
       "arr_num a' \<le> Suc (arr_num a)" by blast
    obtain gs where gs: "length gs = length ps"
      "map_option (\<lambda>(a, rs). (elems a, rs)) (arr_run junk ps a') = list_run (zip ps gs) (elems a')"
      using Cons.IH [OF a'(3)] a'(4) Cons.prems(2) by auto
    have "map_option (\<lambda>(a, rs). (elems a, rs)) (arr_run junk (p # ps) a) = list_run (zip (p # ps) (g # gs)) (elems a)"
      by (simp add: a'(1,2) gs(2) [symmetric]) (cases "arr_run junk ps a'"; simp add: case_prod_unfold)
    then show ?thesis using gs(1) by (intro exI [of _ "g # gs"]) simp
  qed
qed simp

text \<open>One more than \<open>2 ^ 29\<close> elements: the new block has no room for the old ones.\<close>

lemma array_add_overruns:
  assumes "length (arr_v a) = 2 ^ 29" "arr_num a = 2 ^ 29" "arr_max a = 2 ^ 29"
  shows "array_add True junk a x = None"
proof -
  have "grow (2 ^ 29 + 1) (2 ^ 29) = grow (2 ^ 29 + 1) (2 ^ 30)" by (subst grow.simps) simp
  also have "\<dots> = Some (2 ^ 30)" by (subst grow.simps) simp
  finally have g: "grow 536870913 536870912 = Some 1073741824" by simp
  have "array_preallocate True junk a 536870913 = None"
    using assms g by (simp add: array_preallocate_def entries_def)
  then show ?thesis using assms by (simp add: array_add_def array_setsize_def)
qed


definition array_prog :: "array_op list" where
  "array_prog = [AAdd True 7, AAdd True 8, ARemove 0, AGet 0]"


text \<open>
  C27. The loop of \<^verbatim>\<open>array_preallocate\<close> that doubles the capacity ends, with a capacity that is enough,
  for up to \<open>2 ^ 31\<close> elements, whatever capacity an array can have; for more it runs forever, since
  the capacity wraps to 0 and starts again at 4.
\<close>

theorem array_growth_terminates:
  assumes "pow_size m"
  shows "(num \<le> 2 ^ 31 \<longrightarrow> (\<exists>y. grow num m = Some y \<and> num \<le> y \<and> m \<le> y \<and> pow_size y))
    \<and> (num > 2 ^ 31 \<longrightarrow> grow num m = None)"
  using grow_ends [OF assms] grow_loops [OF _ assms] by auto

theorem array_growth_terminates_witness:
  "pow_size 8 \<and> (\<exists>y. grow 9 8 = Some y \<and> 9 \<le> y) \<and> grow (2 ^ 31 + 1) 8 = None"
proof -
  have p: "pow_size 8" unfolding pow_size_def by (intro disjI2 exI [of _ 3]) simp
  show ?thesis using array_growth_terminates [OF p, of 9] array_growth_terminates [OF p, of "2 ^ 31 + 1"] p by auto
qed

end
