(* ===== verification/Copyinout.thy ===== *)
theory Copyinout
  imports Kernel_Prelude
begin

text \<open>
  Copying between user and kernel memory: \<^verbatim>\<open>kern/vm/copyinout.c\<close>.

  User memory is what the VM system makes of it: \<open>um\<close> gives the byte at an address, or nothing where an
  access faults, and \<open>uw\<close> says which bytes can be written. \<open>badfault\<close> is whether the thread has its
  \<^verbatim>\<open>tm_badfaultfunc\<close> set: a fault in the kernel then resumes in \<^verbatim>\<open>copyfail\<close>, which makes \<^verbatim>\<open>setjmp\<close> return
  again; without it the machine panics, which is \<open>None\<close>. Pointers and lengths are 32-bit words.
\<close>

type_synonym byte = "8 word"

record ucopy =
  um :: "nat \<Rightarrow> byte option"
  uw :: "nat \<Rightarrow> bool"
  badfault :: bool

definition USERSPACETOP :: "32 word" where
  "USERSPACETOP = 0x80000000"

definition copycheck :: "32 word \<Rightarrow> 32 word \<Rightarrow> errno + 32 word" where
  "copycheck userptr len =
     (let stoplen = len; bot = userptr; top = bot + len - 1 in
      if top < bot then Inl EFAULT
      else if bot \<ge> USERSPACETOP then Inl EFAULT
      else if top \<ge> USERSPACETOP then Inr (USERSPACETOP - bot)
      else Inr stoplen)"

text \<open>\<^verbatim>\<open>copyfail\<close>: where the copying functions resume after a fault.\<close>

definition copyfail :: "ucopy \<Rightarrow> (ucopy \<times> (errno + 'a)) option" where
  "copyfail s = (if badfault s then Some (s\<lparr>badfault := False\<rparr>, Inl EFAULT) else None)"

fun memcpy_in :: "(nat \<Rightarrow> byte option) \<Rightarrow> nat \<Rightarrow> nat \<Rightarrow> byte list option" where
  "memcpy_in m a 0 = Some []"
| "memcpy_in m a (Suc n) = (case m a of None \<Rightarrow> None | Some b \<Rightarrow> map_option (Cons b) (memcpy_in m (Suc a) n))"

fun memcpy_out :: "(nat \<Rightarrow> bool) \<Rightarrow> byte list \<Rightarrow> nat \<Rightarrow> (nat \<Rightarrow> byte option) \<Rightarrow> (nat \<Rightarrow> byte option) \<times> bool" where
  "memcpy_out w [] a m = (m, True)"
| "memcpy_out w (b # bs) a m = (if m a = None \<or> \<not> w a then (m, False) else memcpy_out w bs (Suc a) (m(a \<mapsto> b)))"

definition copyin :: "32 word \<Rightarrow> 32 word \<Rightarrow> ucopy \<Rightarrow> (ucopy \<times> (errno + byte list)) option" where
  "copyin usersrc len s =
     (case copycheck usersrc len of
        Inl e \<Rightarrow> Some (s, Inl e)
      | Inr stoplen \<Rightarrow>
          if stoplen \<noteq> len then Some (s, Inl EFAULT)
          else
            let s = s\<lparr>badfault := True\<rparr> in
            case memcpy_in (um s) (unat usersrc) (unat len) of
              None \<Rightarrow> copyfail s
            | Some bs \<Rightarrow> Some (s\<lparr>badfault := False\<rparr>, Inr bs))"

definition copyout :: "byte list \<Rightarrow> 32 word \<Rightarrow> 32 word \<Rightarrow> ucopy \<Rightarrow> (ucopy \<times> (errno + unit)) option" where
  "copyout src userdest len s =
     (case copycheck userdest len of
        Inl e \<Rightarrow> Some (s, Inl e)
      | Inr stoplen \<Rightarrow>
          if stoplen \<noteq> len then Some (s, Inl EFAULT)
          else
            let s = s\<lparr>badfault := True\<rparr>;
                (m, done) = memcpy_out (uw s) (take (unat len) src) (unat userdest) (um s);
                s = s\<lparr>um := m\<rparr> in
            if \<not> done then copyfail s else Some (s\<lparr>badfault := False\<rparr>, Inr ()))"

text \<open>
  The loop of \<^verbatim>\<open>copystr\<close> with at most \<open>n\<close> rounds left: a fault, the end of the rounds, or the string
  with its terminator.
\<close>

datatype 'a copied = Faulted | Ran_out 'a | Got 'a

fun copystr_in_loop :: "(nat \<Rightarrow> byte option) \<Rightarrow> nat \<Rightarrow> nat \<Rightarrow> byte list copied" where
  "copystr_in_loop m a 0 = Ran_out []"
| "copystr_in_loop m a (Suc n) =
     (case m a of
        None \<Rightarrow> Faulted
      | Some b \<Rightarrow>
          if b = 0 then Got [b]
          else case copystr_in_loop m (Suc a) n of
                 Faulted \<Rightarrow> Faulted | Ran_out bs \<Rightarrow> Ran_out (b # bs) | Got bs \<Rightarrow> Got (b # bs))"

fun copystr_out_loop ::
  "(nat \<Rightarrow> bool) \<Rightarrow> (nat \<Rightarrow> byte) \<Rightarrow> nat \<Rightarrow> nat \<Rightarrow> (nat \<Rightarrow> byte option) \<Rightarrow> (nat \<Rightarrow> byte option) \<times> nat copied" where
  "copystr_out_loop w src a 0 m = (m, Ran_out 0)"
| "copystr_out_loop w src a (Suc n) m =
     (if m a = None \<or> \<not> w a then (m, Faulted)
      else if src 0 = 0 then (m(a \<mapsto> src 0), Got 1)
      else case copystr_out_loop w (\<lambda>i. src (Suc i)) (Suc a) n (m(a \<mapsto> src 0)) of
             (m, Got k) \<Rightarrow> (m, Got (Suc k)) | (m, r) \<Rightarrow> (m, r))"

definition copystr_result :: "nat \<Rightarrow> nat \<Rightarrow> ucopy \<Rightarrow> 'a copied \<Rightarrow> (ucopy \<times> (errno + 'a)) option" where
  "copystr_result maxlen stoplen s r =
     (case r of
        Faulted \<Rightarrow> copyfail s
      | Got x \<Rightarrow> Some (s\<lparr>badfault := False\<rparr>, Inr x)
      | Ran_out x \<Rightarrow> Some (s\<lparr>badfault := False\<rparr>, Inl (if stoplen < maxlen then EFAULT else ENAMETOOLONG)))"

definition copyinstr :: "32 word \<Rightarrow> 32 word \<Rightarrow> ucopy \<Rightarrow> (ucopy \<times> (errno + byte list)) option" where
  "copyinstr usersrc len s =
     (case copycheck usersrc len of
        Inl e \<Rightarrow> Some (s, Inl e)
      | Inr stoplen \<Rightarrow>
          let s = s\<lparr>badfault := True\<rparr> in
          copystr_result (unat len) (unat stoplen) s
            (copystr_in_loop (um s) (unat usersrc) (min (unat len) (unat stoplen))))"

definition copyoutstr :: "(nat \<Rightarrow> byte) \<Rightarrow> 32 word \<Rightarrow> 32 word \<Rightarrow> ucopy \<Rightarrow> (ucopy \<times> (errno + nat)) option" where
  "copyoutstr src userdest len s =
     (case copycheck userdest len of
        Inl e \<Rightarrow> Some (s, Inl e)
      | Inr stoplen \<Rightarrow>
          let s = s\<lparr>badfault := True\<rparr>;
              (m, r) = copystr_out_loop (uw s) src (unat userdest) (min (unat len) (unat stoplen)) (um s) in
          copystr_result (unat len) (unat stoplen) (s\<lparr>um := m\<rparr>) r)"

section \<open>The region check\<close>

lemma unat_top: "unat USERSPACETOP = 2 ^ 31"
  by (simp add: USERSPACETOP_def)

lemma copycheck_zero: "copycheck p 0 = (if p = 0 then Inr USERSPACETOP else Inl EFAULT)"
proof (cases "p = 0")
  case True
  then show ?thesis by (simp add: copycheck_def USERSPACETOP_def)
next
  case False
  then have "p - 1 < p" using unat_gt_0 [of p] by (simp add: word_less_nat_alt unat_minus_one)
  then show ?thesis using False by (simp add: copycheck_def)
qed

lemma copycheck_pos:
  assumes "0 < len"
  shows "copycheck p len =
    (if unat p \<ge> 2 ^ 31 \<or> unat p + unat len > 2 ^ 32 then Inl EFAULT
     else if unat p + unat len \<le> 2 ^ 31 then Inr len else Inr (USERSPACETOP - p))"
proof -
  have l: "0 < unat len" using assms by (simp add: word_gt_0 unat_gt_0)
  have b: "unat p < 2 ^ 32" "unat len < 2 ^ 32" using unsigned_less [of p] unsigned_less [of len] by simp_all
  have e: "p + len - 1 = p + (len - 1)" by simp
  have l1: "unat (len - 1) = unat len - 1" using assms by (simp add: unat_minus_one word_gt_0)
  show ?thesis
  proof (cases "unat p + unat len > 2 ^ 32")
    case True
    have "unat (p + (len - 1)) = (unat p + (unat len - 1)) mod 2 ^ 32" by (simp add: unat_word_ariths l1)
    also have "\<dots> = unat p + (unat len - 1) - 2 ^ 32" using True b l by (simp add: mod_if)
    also have "\<dots> < unat p" using b l True by linarith
    finally have "p + len - 1 < p" unfolding e word_less_nat_alt .
    then show ?thesis using True by (simp add: copycheck_def Let_def)
  next
    case False
    have t: "unat (p + (len - 1)) = unat p + (unat len - 1)"
      using False l by (simp add: unat_word_ariths l1)
    then have n: "\<not> p + len - 1 < p" unfolding e word_less_nat_alt by simp
    have "(p \<ge> USERSPACETOP) = (unat p \<ge> 2 ^ 31)" by (simp add: word_le_nat_alt unat_top)
    moreover have "(p + len - 1 \<ge> USERSPACETOP) = (unat p + unat len > 2 ^ 31)"
      unfolding e word_le_nat_alt unat_top t using l by linarith
    ultimately show ?thesis using n False by (auto simp: copycheck_def Let_def)
  qed
qed

lemma copycheck_whole:
  "(copycheck p len = Inr len) = (0 < unat len \<and> unat p + unat len \<le> 2 ^ 31)"
proof (cases "len = 0")
  case True
  then show ?thesis by (simp add: copycheck_zero USERSPACETOP_def)
next
  case False
  then have l: "0 < len" "0 < unat len" by (simp_all add: word_gt_0 unat_gt_0)
  have "USERSPACETOP - p \<noteq> len" if "unat p + unat len > 2 ^ 31" "unat p < 2 ^ 31"
  proof -
    have "unat (USERSPACETOP - p) = 2 ^ 31 - unat p"
      using that(2) by (simp add: unat_sub word_le_nat_alt unat_top)
    then show ?thesis using that by auto
  qed
  then show ?thesis using copycheck_pos [OF l(1), of p] l(2) by auto
qed

definition user_range :: "32 word \<Rightarrow> 32 word \<Rightarrow> bool" where
  "user_range p len \<longleftrightarrow> 0 < unat len \<and> unat p + unat len \<le> 2 ^ 31"

section \<open>Block copies\<close>

lemma memcpy_in_eq:
  "memcpy_in m a n = (if \<forall>i<n. m (a + i) \<noteq> None then Some (map (\<lambda>i. the (m (a + i))) [0..<n]) else None)"
proof (induction n arbitrary: a)
  case (Suc n)
  have "(\<forall>i<Suc n. m (a + i) \<noteq> None) = (m a \<noteq> None \<and> (\<forall>i<n. m (Suc a + i) \<noteq> None))"
    unfolding All_less_Suc2 by simp
  moreover have "map (\<lambda>i. the (m (a + i))) [0..<Suc n] = the (m a) # map (\<lambda>i. the (m (Suc a + i))) [0..<n]"
    by (simp add: map_upt_Suc del: upt_Suc)
  ultimately show ?case using Suc [of "Suc a"] by (auto split: option.split)
qed simp

lemma memcpy_out_spec:
  assumes "memcpy_out w bs a m = (m', d)"
  shows "d = (\<forall>i<length bs. m (a + i) \<noteq> None \<and> w (a + i))"
    "x < a \<or> a + length bs \<le> x \<Longrightarrow> m' x = m x"
    "(m' x = None) = (m x = None)"
    "d \<Longrightarrow> i < length bs \<Longrightarrow> m' (a + i) = Some (bs ! i)"
proof -
  have "d = (\<forall>i<length bs. m (a + i) \<noteq> None \<and> w (a + i)) \<and> (\<forall>x. x < a \<or> a + length bs \<le> x \<longrightarrow> m' x = m x) \<and>
      (\<forall>x. (m' x = None) = (m x = None)) \<and> (d \<longrightarrow> (\<forall>i<length bs. m' (a + i) = Some (bs ! i)))"
    using assms
  proof (induction bs arbitrary: a m)
    case (Cons b bs)
    show ?case
    proof (cases "m a = None \<or> \<not> w a")
      case True
      then show ?thesis using Cons.prems by auto
    next
      case False
      then have "memcpy_out w bs (Suc a) (m(a \<mapsto> b)) = (m', d)" using Cons.prems by (auto split: if_splits)
      from Cons.IH [OF this] have IH: "d = (\<forall>i<length bs. m (Suc a + i) \<noteq> None \<and> w (Suc a + i))"
        "\<And>x. x < Suc a \<or> Suc a + length bs \<le> x \<Longrightarrow> m' x = (m(a \<mapsto> b)) x"
        "\<And>x. (m' x = None) = ((m(a \<mapsto> b)) x = None)" "d \<longrightarrow> (\<forall>i<length bs. m' (Suc a + i) = Some (bs ! i))"
        by auto
      have "d = (\<forall>i<length (b # bs). m (a + i) \<noteq> None \<and> w (a + i))"
        unfolding IH(1) length_Cons All_less_Suc2 using False by simp
      moreover have "d \<longrightarrow> (\<forall>i<length (b # bs). m' (a + i) = Some ((b # bs) ! i))"
        unfolding length_Cons All_less_Suc2 using IH(2) [of a] IH(4) by simp
      ultimately show ?thesis using IH(2,3) False by auto
    qed
  qed simp
  then show "d = (\<forall>i<length bs. m (a + i) \<noteq> None \<and> w (a + i))"
    "x < a \<or> a + length bs \<le> x \<Longrightarrow> m' x = m x" "(m' x = None) = (m x = None)"
    "d \<Longrightarrow> i < length bs \<Longrightarrow> m' (a + i) = Some (bs ! i)" by blast+
qed

lemma copyin_eq:
  assumes "\<not> badfault s"
  shows "copyin p len s = Some (s,
    if user_range p len \<and> (\<forall>i<unat len. um s (unat p + i) \<noteq> None)
    then Inr (map (\<lambda>i. the (um s (unat p + i))) [0..<unat len]) else Inl EFAULT)"
proof -
  have s: "s\<lparr>badfault := False\<rparr> = s" using assms by simp
  show ?thesis
  proof (cases "copycheck p len = Inr len")
    case True
    then show ?thesis using copycheck_whole [of p len] s
      by (auto simp: copyin_def memcpy_in_eq copyfail_def user_range_def Let_def)
  next
    case False
    then have "\<not> user_range p len" using copycheck_whole [of p len] by (simp add: user_range_def)
    moreover have "copycheck p len = Inl EFAULT \<or> (\<exists>k. copycheck p len = Inr k)"
      by (auto simp: copycheck_def Let_def)
    ultimately show ?thesis using False by (auto simp: copyin_def)
  qed
qed

lemma copyout_spec:
  assumes "\<not> badfault s" "length src = unat len"
  shows "\<exists>s' r. copyout src p len s = Some (s', r) \<and> \<not> badfault s' \<and> uw s' = uw s
    \<and> r = (if user_range p len \<and> (\<forall>i<unat len. um s (unat p + i) \<noteq> None \<and> uw s (unat p + i)) then Inr () else Inl EFAULT)
    \<and> (\<forall>x. x < unat p \<or> unat p + unat len \<le> x \<or> \<not> user_range p len \<longrightarrow> um s' x = um s x)
    \<and> (\<forall>x. (um s' x = None) = (um s x = None))
    \<and> (r = Inr () \<longrightarrow> (\<forall>i<unat len. um s' (unat p + i) = Some (src ! i)))"
proof (cases "copycheck p len = Inr len")
  case True
  then have u: "user_range p len" using copycheck_whole [of p len] by (simp add: user_range_def)
  obtain m' d where m: "memcpy_out (uw s) src (unat p) (um s) = (m', d)" by (cases "memcpy_out (uw s) src (unat p) (um s)")
  note spec = memcpy_out_spec [OF m]
  have "copyout src p len s = Some (s\<lparr>um := m'\<rparr>, if d then Inr () else Inl EFAULT)"
    using True m assms by (auto simp: copyout_def copyfail_def Let_def)
  then show ?thesis using assms u spec by auto
next
  case False
  then have "\<not> user_range p len" using copycheck_whole [of p len] by (simp add: user_range_def)
  moreover have "copycheck p len = Inl EFAULT \<or> (\<exists>k. copycheck p len = Inr k)"
    by (auto simp: copycheck_def Let_def)
  ultimately show ?thesis using False assms by (auto simp: copyout_def)
qed

text \<open>
  C25. Block copies are exact and all or nothing: \<^verbatim>\<open>copyout\<close> succeeds exactly if the block is not empty,
  lies below \<^verbatim>\<open>USERSPACETOP\<close> and can be written, and then \<^verbatim>\<open>copyin\<close> of the same block gives the bytes
  back; in every other case the answer is \<^verbatim>\<open>EFAULT\<close> (also, for every pointer, for an empty block).
\<close>

theorem copyout_copyin_roundtrip:
  assumes "\<not> badfault s" "length src = unat len"
  shows "\<exists>s' r. copyout src p len s = Some (s', r)
    \<and> r = (if user_range p len \<and> (\<forall>i<unat len. um s (unat p + i) \<noteq> None \<and> uw s (unat p + i)) then Inr () else Inl EFAULT)
    \<and> (r = Inr () \<longrightarrow> copyin p len s' = Some (s', Inr src))"
proof -
  obtain s' r where c: "copyout src p len s = Some (s', r)" "\<not> badfault s'"
    "r = (if user_range p len \<and> (\<forall>i<unat len. um s (unat p + i) \<noteq> None \<and> uw s (unat p + i)) then Inr () else Inl EFAULT)"
    "r = Inr () \<longrightarrow> (\<forall>i<unat len. um s' (unat p + i) = Some (src ! i))"
    using copyout_spec [OF assms, of p] by blast
  have "copyin p len s' = Some (s', Inr src)" if "r = Inr ()"
  proof -
    have b: "\<forall>i<unat len. um s' (unat p + i) = Some (src ! i)" using c(4) that by blast
    moreover have "map (\<lambda>i. the (um s' (unat p + i))) [0..<unat len] = src"
      by (rule nth_equalityI) (use assms(2) b in auto)
    moreover have "user_range p len" using c(3) that by (auto split: if_splits)
    ultimately show ?thesis using copyin_eq [OF c(2), of p len] by simp
  qed
  then show ?thesis using c(1,3) by blast
qed

definition ucopy_demo :: ucopy where
  "ucopy_demo = \<lparr>um = (\<lambda>a. if a < 4096 then Some 0 else None), uw = (\<lambda>a. True), badfault = False\<rparr>"

theorem copyout_copyin_roundtrip_witness:
  "\<exists>s'. copyout [1, 2, 3] 0x100 3 ucopy_demo = Some (s', Inr ()) \<and> copyin 0x100 3 s' = Some (s', Inr [1, 2, 3])"
  using copyout_copyin_roundtrip [of ucopy_demo "[1, 2, 3]" 3 "0x100"]
  by (auto simp: ucopy_demo_def user_range_def)

section \<open>String copies\<close>

text \<open>A string at address \<open>a\<close>: bytes that are not zero, and a zero, all readable.\<close>

definition cstring_at :: "(nat \<Rightarrow> byte option) \<Rightarrow> nat \<Rightarrow> byte list \<Rightarrow> bool" where
  "cstring_at m a bs \<longleftrightarrow> bs \<noteq> [] \<and> last bs = 0 \<and> 0 \<notin> set (butlast bs) \<and> (\<forall>i<length bs. m (a + i) = Some (bs ! i))"

lemma cstring_at_Cons:
  "cstring_at m a (b # bs) \<longleftrightarrow> m a = Some b \<and> (if b = 0 then bs = [] else cstring_at m (Suc a) bs)"
proof -
  have "(\<forall>i<length (b # bs). m (a + i) = Some ((b # bs) ! i)) \<longleftrightarrow> m a = Some b \<and> (\<forall>i<length bs. m (Suc a + i) = Some (bs ! i))"
    unfolding length_Cons All_less_Suc2 by simp
  then show ?thesis by (cases bs) (auto simp: cstring_at_def)
qed

lemma copystr_in_loop_Got: "copystr_in_loop m a n = Got bs \<longleftrightarrow> cstring_at m a bs \<and> length bs \<le> n"
proof (induction n arbitrary: a bs)
  case 0
  then show ?case by (auto simp: cstring_at_def)
next
  case (Suc n)
  show ?case
  proof (cases bs)
    case Nil
    then show ?thesis by (auto simp: cstring_at_def split: option.split copied.split)
  next
    case (Cons b cs)
    then show ?thesis using Suc [of "Suc a" cs]
      by (auto simp: cstring_at_Cons split: option.split copied.split)
  qed
qed

lemma copystr_in_loop_Ran_out:
  "(\<exists>x. copystr_in_loop m a n = Ran_out x) \<longleftrightarrow> (\<forall>i<n. \<exists>b. m (a + i) = Some b \<and> b \<noteq> 0)"
proof (induction n arbitrary: a)
  case (Suc n)
  show ?case unfolding All_less_Suc2 using Suc [of "Suc a"] by (auto split: option.split copied.split)
qed simp

lemma copyinstr_eq:
  assumes "\<not> badfault s" "0 < len"
  shows "\<exists>r. copyinstr p len s = Some (s, r) \<and> r =
    (if unat p \<ge> 2 ^ 31 \<or> unat p + unat len > 2 ^ 32 then Inl EFAULT
     else case copystr_in_loop (um s) (unat p) (min (unat len) (2 ^ 31 - unat p)) of
       Faulted \<Rightarrow> Inl EFAULT | Got bs \<Rightarrow> Inr bs
     | Ran_out _ \<Rightarrow> Inl (if unat p + unat len > 2 ^ 31 then EFAULT else ENAMETOOLONG))"
proof -
  have s: "s\<lparr>badfault := False\<rparr> = s" using assms by simp
  have t: "unat (USERSPACETOP - p) = 2 ^ 31 - unat p" if "unat p < 2 ^ 31"
    using that by (simp add: unat_sub word_le_nat_alt unat_top)
  consider "unat p \<ge> 2 ^ 31 \<or> unat p + unat len > 2 ^ 32" | "unat p < 2 ^ 31" "unat p + unat len \<le> 2 ^ 31"
    | "unat p < 2 ^ 31" "unat p + unat len \<le> 2 ^ 32" "unat p + unat len > 2 ^ 31" by linarith
  then show ?thesis
  proof cases
    case 1
    then show ?thesis using copycheck_pos [OF assms(2), of p] by (simp add: copyinstr_def)
  next
    case 2
    then have "copycheck p len = Inr len" using copycheck_pos [OF assms(2), of p] by simp
    moreover have "min (unat len) (2 ^ 31 - unat p) = unat len" using 2 by simp
    ultimately show ?thesis using 2 s
      by (auto simp: copyinstr_def copystr_result_def copyfail_def Let_def split: copied.split)
  next
    case 3
    then have "copycheck p len = Inr (USERSPACETOP - p)" using copycheck_pos [OF assms(2), of p] by simp
    then show ?thesis using 3 s t
      by (auto simp: copyinstr_def copystr_result_def copyfail_def Let_def split: copied.split)
  qed
qed

text \<open>
  C26. \<^verbatim>\<open>copyinstr\<close> distinguishes its three outcomes exactly. It returns a string, with its terminator,
  exactly if that is what user memory holds at the address, within the length given and below
  \<^verbatim>\<open>USERSPACETOP\<close>; \<^verbatim>\<open>ENAMETOOLONG\<close> exactly if the whole length is readable user memory without a
  terminator; and \<^verbatim>\<open>EFAULT\<close> otherwise.
\<close>

theorem copyinstr_exact:
  assumes "\<not> badfault s" "0 < len" "unat p + unat len \<le> 2 ^ 32"
  shows "\<exists>r. copyinstr p len s = Some (s, r)
    \<and> (\<forall>bs. (r = Inr bs) = (cstring_at (um s) (unat p) bs \<and> length bs \<le> unat len \<and> unat p + length bs \<le> 2 ^ 31))
    \<and> (r = Inl ENAMETOOLONG) =
        (user_range p len \<and> (\<forall>i<unat len. \<exists>b. um s (unat p + i) = Some b \<and> b \<noteq> 0))
    \<and> (\<forall>e. r = Inl e \<longrightarrow> e = EFAULT \<or> e = ENAMETOOLONG)"
proof -
  let ?n = "min (unat len) (2 ^ 31 - unat p)"
  obtain r where r: "copyinstr p len s = Some (s, r)" and rd: "r =
    (if unat p \<ge> 2 ^ 31 \<or> unat p + unat len > 2 ^ 32 then Inl EFAULT
     else case copystr_in_loop (um s) (unat p) ?n of
       Faulted \<Rightarrow> Inl EFAULT | Got bs \<Rightarrow> Inr bs
     | Ran_out _ \<Rightarrow> Inl (if unat p + unat len > 2 ^ 31 then EFAULT else ENAMETOOLONG))"
    using copyinstr_eq [OF assms(1,2), of p] by blast
  have l: "0 < unat len" using assms(2) by (simp add: word_gt_0 unat_gt_0)
  have 1: "(r = Inr bs) = (cstring_at (um s) (unat p) bs \<and> length bs \<le> unat len \<and> unat p + length bs \<le> 2 ^ 31)" for bs
  proof -
    have "(r = Inr bs) = (unat p < 2 ^ 31 \<and> copystr_in_loop (um s) (unat p) ?n = Got bs)"
      using assms(3) unfolding rd by (auto split: copied.split)
    also have "\<dots> = (cstring_at (um s) (unat p) bs \<and> length bs \<le> unat len \<and> unat p + length bs \<le> 2 ^ 31)"
      unfolding copystr_in_loop_Got by (auto simp: cstring_at_def) (cases bs; simp)
    finally show ?thesis .
  qed
  have 2: "(r = Inl ENAMETOOLONG) = (user_range p len \<and> (\<forall>i<unat len. \<exists>b. um s (unat p + i) = Some b \<and> b \<noteq> 0))"
  proof -
    have "(r = Inl ENAMETOOLONG) =
        (user_range p len \<and> (\<exists>x. copystr_in_loop (um s) (unat p) ?n = Ran_out x))"
      using assms(3) l unfolding rd user_range_def by (auto split: copied.split if_splits)
    also have "\<dots> = (user_range p len \<and> (\<exists>x. copystr_in_loop (um s) (unat p) (unat len) = Ran_out x))"
      by (auto simp: user_range_def)
    finally show ?thesis unfolding copystr_in_loop_Ran_out .
  qed
  have "e = EFAULT \<or> e = ENAMETOOLONG" if "r = Inl e" for e
    using that unfolding rd by (auto split: copied.splits if_splits)
  then show ?thesis using r 1 2 by blast
qed

theorem copyinstr_exact_witness:
  "copyinstr 0x100 16 ucopy_demo = Some (ucopy_demo, Inr [0]) \<and> copyinstr 0x7fffffff 16 ucopy_demo = Some (ucopy_demo, Inl EFAULT)"
proof -
  have a: "\<not> badfault ucopy_demo" "(0 :: 32 word) < 16" "unat (0x100 :: 32 word) + unat (16 :: 32 word) \<le> 2 ^ 32"
    "unat (0x7fffffff :: 32 word) + unat (16 :: 32 word) \<le> 2 ^ 32"
    by (simp_all add: ucopy_demo_def)
  have "cstring_at (um ucopy_demo) (unat (0x100 :: 32 word)) [0]" by (simp add: cstring_at_def ucopy_demo_def)
  then have 1: "copyinstr 0x100 16 ucopy_demo = Some (ucopy_demo, Inr [0])"
    using copyinstr_exact [OF a(1,2,3)] by auto
  have n: "\<not> cstring_at (um ucopy_demo) (unat (0x7fffffff :: 32 word)) bs" for bs
    by (cases bs) (auto simp: cstring_at_def ucopy_demo_def)
  obtain r where r: "copyinstr 0x7fffffff 16 ucopy_demo = Some (ucopy_demo, r)" "\<And>bs. r \<noteq> Inr bs" "r \<noteq> Inl ENAMETOOLONG"
    "\<And>e. r = Inl e \<Longrightarrow> e = EFAULT \<or> e = ENAMETOOLONG"
    using copyinstr_exact [OF a(1,2,4)] n by (auto simp: user_range_def)
  then have "r = Inl EFAULT" by (cases r) auto
  then show ?thesis using 1 r(1) by simp
qed

section \<open>Confinement\<close>

lemma copystr_out_loop_outside:
  "copystr_out_loop w src a n m = (m', r) \<Longrightarrow> x < a \<or> a + n \<le> x \<Longrightarrow> m' x = m x"
proof (induction n arbitrary: src a m m' r)
  case (Suc n)
  show ?case
  proof (cases "m a = None \<or> \<not> w a \<or> src 0 = 0")
    case True
    then show ?thesis using Suc.prems by (auto split: if_splits)
  next
    case False
    obtain m1 r1 where rec: "copystr_out_loop w (\<lambda>i. src (Suc i)) (Suc a) n (m(a \<mapsto> src 0)) = (m1, r1)"
      by (cases "copystr_out_loop w (\<lambda>i. src (Suc i)) (Suc a) n (m(a \<mapsto> src 0))")
    have "m' = m1" using Suc.prems(1) False rec by (auto split: copied.splits if_splits)
    then show ?thesis using Suc.IH [OF rec] Suc.prems(2) by auto
  qed
qed auto

lemma memcpy_in_cong: "(\<And>i. i < n \<Longrightarrow> m (a + i) = m' (a + i)) \<Longrightarrow> memcpy_in m a n = memcpy_in m' a n"
  by (auto simp: memcpy_in_eq)

lemma copystr_in_loop_cong:
  "(\<And>i. i < n \<Longrightarrow> m (a + i) = m' (a + i)) \<Longrightarrow> copystr_in_loop m a n = copystr_in_loop m' a n"
proof (induction n arbitrary: a)
  case (Suc n)
  have "m a = m' a" using Suc.prems [of 0] by simp
  moreover have "copystr_in_loop m (Suc a) n = copystr_in_loop m' (Suc a) n"
    by (rule Suc.IH) (use Suc.prems [of "Suc i" for i] in auto)
  ultimately show ?case by (simp only: copystr_in_loop.simps)
qed simp

lemma copycheck_Inr_range:
  assumes "copycheck p len = Inr k"
  shows "unat p + min (unat len) (unat k) \<le> 2 ^ 31"
proof (cases "len = 0")
  case True
  then show ?thesis using assms by (auto simp: copycheck_zero split: if_splits)
next
  case False
  then have l: "0 < len" by (simp add: word_gt_0)
  have "unat (USERSPACETOP - p) = 2 ^ 31 - unat p" if "unat p < 2 ^ 31"
    using that by (simp add: unat_sub word_le_nat_alt unat_top)
  then show ?thesis using assms copycheck_pos [OF l, of p] by (auto split: if_splits)
qed

text \<open>
  C14. Whatever pointer, length and string a user process supplies, the copying functions stay in
  user memory, survive every fault and clean up: none of the four panics; the fault handler is off
  again afterwards; what the copies in return does not depend on memory at or above \<^verbatim>\<open>USERSPACETOP\<close>; and
  the copies out change nothing there.
\<close>

theorem user_copies_confined:
  assumes "\<not> badfault s" "\<not> badfault t" "\<forall>a < 2 ^ 31. um t a = um s a" "length src = unat len"
  shows "(\<exists>r. copyin p len s = Some (s, r) \<and> copyin p len t = Some (t, r))
    \<and> (\<exists>r. copyinstr p len s = Some (s, r) \<and> copyinstr p len t = Some (t, r))
    \<and> (\<exists>s' r. copyout src p len s = Some (s', r) \<and> \<not> badfault s' \<and> (\<forall>a \<ge> 2 ^ 31. um s' a = um s a))
    \<and> (\<exists>s' r. copyoutstr str p len s = Some (s', r) \<and> \<not> badfault s' \<and> (\<forall>a \<ge> 2 ^ 31. um s' a = um s a))"
proof -
  have b: "s\<lparr>badfault := False\<rparr> = s" "t\<lparr>badfault := False\<rparr> = t" using assms(1,2) by simp_all
  have "\<exists>r. copyin p len s = Some (s, r) \<and> copyin p len t = Some (t, r)"
    using copyin_eq [OF assms(1), of p len] copyin_eq [OF assms(2), of p len] assms(3)
    by (auto simp: user_range_def)
  moreover have "\<exists>r. copyinstr p len s = Some (s, r) \<and> copyinstr p len t = Some (t, r)"
  proof (cases "copycheck p len")
    case (Inr k)
    have "copystr_in_loop (um t) (unat p) (min (unat len) (unat k)) = copystr_in_loop (um s) (unat p) (min (unat len) (unat k))"
      by (rule copystr_in_loop_cong) (use assms(3) copycheck_Inr_range [OF Inr] in auto)
    then show ?thesis using Inr b by (auto simp: copyinstr_def copystr_result_def copyfail_def Let_def split: copied.split)
  qed (simp add: copyinstr_def)
  moreover have "\<exists>s' r. copyout src p len s = Some (s', r) \<and> \<not> badfault s' \<and> (\<forall>a \<ge> 2 ^ 31. um s' a = um s a)"
  proof -
    obtain s' r where c: "copyout src p len s = Some (s', r)" "\<not> badfault s'"
      "\<forall>x. x < unat p \<or> unat p + unat len \<le> x \<or> \<not> user_range p len \<longrightarrow> um s' x = um s x"
      using copyout_spec [OF assms(1,4), of p] by blast
    moreover have "um s' a = um s a" if "2 ^ 31 \<le> a" for a
      using c(3) that by (cases "user_range p len") (auto simp: user_range_def)
    ultimately show ?thesis by blast
  qed
  moreover have "\<exists>s' r. copyoutstr str p len s = Some (s', r) \<and> \<not> badfault s' \<and> (\<forall>a \<ge> 2 ^ 31. um s' a = um s a)"
  proof (cases "copycheck p len")
    case (Inr k)
    obtain m' r where m: "copystr_out_loop (uw s) str (unat p) (min (unat len) (unat k)) (um s) = (m', r)"
      by (cases "copystr_out_loop (uw s) str (unat p) (min (unat len) (unat k)) (um s)")
    have "m' a = um s a" if "2 ^ 31 \<le> a" for a
      using copystr_out_loop_outside [OF m] copycheck_Inr_range [OF Inr] that by simp
    then show ?thesis using Inr m
      by (auto simp: copyoutstr_def copystr_result_def copyfail_def Let_def split: copied.split)
  qed (simp add: copyoutstr_def assms(1))
  ultimately show ?thesis by blast
qed

theorem user_copies_confined_witness:
  "let t = ucopy_demo\<lparr>um := (um ucopy_demo)(0x80000010 := Some 9)\<rparr> in
     \<exists>r. copyin 0x7ffffff0 0x40 ucopy_demo = Some (ucopy_demo, r) \<and> copyin 0x7ffffff0 0x40 t = Some (t, r)"
  using user_copies_confined [of ucopy_demo "ucopy_demo\<lparr>um := (um ucopy_demo)(0x80000010 := Some 9)\<rparr>" "replicate 0x40 0"
      "0x40" "0x7ffffff0" "\<lambda>_. 0"]
  by (simp add: ucopy_demo_def Let_def)

end
