(* ===== verification/Uio.thy ===== *)
theory Uio
  imports Copyinout
begin

text \<open>
  The \<^verbatim>\<open>uio\<close> abstraction: \<^verbatim>\<open>kern/include/uio.h\<close> and \<^verbatim>\<open>kern/lib/uio.c\<close>.

  Sizes are below \<open>2 ^ 32\<close>, and \<^verbatim>\<open>uio_resid\<close> wraps as the code's subtraction does.
  The blocks are a list of which \<^verbatim>\<open>uio_iov\<close> points to the head and \<^verbatim>\<open>uio_iovcnt\<close> is the length. Kernel memory
  is a function from addresses to bytes; user memory is reached through \<open>copyin\<close> and \<open>copyout\<close>. An address
  space is a number.
\<close>

datatype uio_seg = UIO_USERISPACE | UIO_USERSPACE | UIO_SYSSPACE

record iovec =
  iov_base :: nat
  iov_len :: nat

record uio =
  uio_iov :: "iovec list"
  uio_offset :: int
  uio_resid :: nat
  uio_segflg :: uio_seg
  uio_dir :: uio_rw
  uio_space :: "nat option"

record machine =
  kmem :: "nat \<Rightarrow> byte"
  uspace :: ucopy
  curas :: "nat option"

definition kread :: "machine \<Rightarrow> nat \<Rightarrow> nat \<Rightarrow> byte list" where
  "kread m a n = map (\<lambda>i. kmem m (a + i)) [0..<n]"

definition kwrite :: "nat \<Rightarrow> byte list \<Rightarrow> machine \<Rightarrow> machine" where
  "kwrite a bs m = m\<lparr>kmem := (\<lambda>x. if a \<le> x \<and> x < a + length bs then bs ! (x - a) else kmem m x)\<rparr>"

text \<open>One block: the \<^verbatim>\<open>switch\<close> on the kind of memory. \<open>memmove\<close> copies as if through a temporary.\<close>

definition uiomove_block :: "nat \<Rightarrow> nat \<Rightarrow> nat \<Rightarrow> uio \<Rightarrow> machine \<Rightarrow> (machine \<times> (errno + unit)) option" where
  "uiomove_block ptr base sz u m =
     (if uio_segflg u = UIO_SYSSPACE then
        Some (if uio_dir u = UIO_READ then kwrite base (kread m ptr sz) m else kwrite ptr (kread m base sz) m, Inr ())
      else if uio_dir u = UIO_READ then
        do { (us, r) \<leftarrow> copyout (kread m ptr sz) (of_nat base) (of_nat sz) (uspace m);
             Some (m\<lparr>uspace := us\<rparr>, r) }
      else
        do { (us, r) \<leftarrow> copyin (of_nat base) (of_nat sz) (uspace m);
             case r of
               Inl e \<Rightarrow> Some (m\<lparr>uspace := us\<rparr>, Inl e)
             | Inr bs \<Rightarrow> Some (kwrite ptr bs (m\<lparr>uspace := us\<rparr>), Inr ()) })"

definition uio_advance :: "nat \<Rightarrow> uio \<Rightarrow> uio" where
  "uio_advance sz u =
     u\<lparr>uio_iov := (case uio_iov u of
          [] \<Rightarrow> []
        | v # vs \<Rightarrow> v\<lparr>iov_base := iov_base v + sz, iov_len := iov_len v - sz\<rparr> # vs),
       uio_resid := u32 (uio_resid u + 2 ^ 32 - sz),
       uio_offset := uio_offset u + int sz\<rparr>"

function uiomove_loop :: "nat \<Rightarrow> nat \<Rightarrow> uio \<Rightarrow> machine \<Rightarrow> (uio \<times> machine \<times> (errno + unit)) option" where
  "uiomove_loop ptr n u m =
     (if 0 < n \<and> 0 < uio_resid u then
        case uio_iov u of
          [] \<Rightarrow> None
        | v # vs \<Rightarrow>
            (let sz = min (iov_len v) n in
             if sz = 0 then
               if vs = [] then None else uiomove_loop ptr n (u\<lparr>uio_iov := vs\<rparr>) m
             else
               case uiomove_block ptr (iov_base v) sz u m of
                 None \<Rightarrow> None
               | Some (m, Inl e) \<Rightarrow> Some (u, m, Inl e)
               | Some (m, Inr _) \<Rightarrow> uiomove_loop (ptr + sz) (n - sz) (uio_advance sz u) m)
      else Some (u, m, Inr ()))"
  by pat_completeness auto
termination
  by (relation "measure (\<lambda>(ptr, n, u, m). n + length (uio_iov u))") (auto simp: uio_advance_def)

declare uiomove_loop.simps [simp del]

definition uiomove :: "nat \<Rightarrow> nat \<Rightarrow> uio \<Rightarrow> machine \<Rightarrow> (uio \<times> machine \<times> (errno + unit)) option" where
  "uiomove ptr n u m =
     do {
       kassert (if uio_segflg u = UIO_SYSSPACE then uio_space u = None else uio_space u = curas m);
       uiomove_loop ptr n u m
     }"

text \<open>
  \<^verbatim>\<open>uiomovezeros\<close> sends the sixteen bytes of the static array \<^verbatim>\<open>zeros\<close>, here at address \<open>zeros\<close>, again and again.
\<close>

function uiomovezeros_loop :: "nat \<Rightarrow> nat \<Rightarrow> uio \<Rightarrow> machine \<Rightarrow> (uio \<times> machine \<times> (errno + unit)) option" where
  "uiomovezeros_loop zeros n u m =
     (if n > 0 then
        let amt = min 16 n in
        case uiomove zeros amt u m of
          None \<Rightarrow> None
        | Some (u, m, Inl e) \<Rightarrow> Some (u, m, Inl e)
        | Some (u, m, Inr _) \<Rightarrow> uiomovezeros_loop zeros (n - amt) u m
      else Some (u, m, Inr ()))"
  by pat_completeness auto
termination
  by (relation "measure (\<lambda>(z, n, u, m). n)") auto

declare uiomovezeros_loop.simps [simp del]

definition uiomovezeros :: "nat \<Rightarrow> nat \<Rightarrow> uio \<Rightarrow> machine \<Rightarrow> (uio \<times> machine \<times> (errno + unit)) option" where
  "uiomovezeros zeros n u m = do { kassert (uio_dir u = UIO_READ); uiomovezeros_loop zeros n u m }"

definition uio_kinit :: "nat \<Rightarrow> nat \<Rightarrow> int \<Rightarrow> uio_rw \<Rightarrow> uio" where
  "uio_kinit kbuf len pos rw =
     \<lparr>uio_iov = [\<lparr>iov_base = kbuf, iov_len = len\<rparr>], uio_offset = pos, uio_resid = len,
      uio_segflg = UIO_SYSSPACE, uio_dir = rw, uio_space = None\<rparr>"

definition uio_uinit :: "nat \<Rightarrow> nat \<Rightarrow> int \<Rightarrow> uio_rw \<Rightarrow> nat option \<Rightarrow> uio" where
  "uio_uinit ubuf len offset rw as =
     \<lparr>uio_iov = [\<lparr>iov_base = ubuf, iov_len = len\<rparr>], uio_offset = offset, uio_resid = len,
      uio_segflg = UIO_USERSPACE, uio_dir = rw, uio_space = as\<rparr>"

section \<open>Addresses of a uio\<close>

text \<open>The addresses a \<^verbatim>\<open>uio\<close> refers to, in the order in which it is worked through.\<close>

definition seg_addrs :: "iovec list \<Rightarrow> nat list" where
  "seg_addrs vs = concat (map (\<lambda>v. [iov_base v..<iov_base v + iov_len v]) vs)"

definition uio_ok :: "uio \<Rightarrow> bool" where
  "uio_ok u \<longleftrightarrow> uio_resid u \<le> length (seg_addrs (uio_iov u))"

lemma seg_addrs_simps [simp]:
  "seg_addrs [] = []" "seg_addrs (v # vs) = [iov_base v..<iov_base v + iov_len v] @ seg_addrs vs"
  by (simp_all add: seg_addrs_def)

lemma advance_addrs:
  assumes "uio_iov u = v # vs" "sz \<le> iov_len v"
  shows "seg_addrs (uio_iov (uio_advance sz u)) = drop sz (seg_addrs (uio_iov u))"
  using assms by (simp add: uio_advance_def)

lemma advance_simps [simp]:
  "uio_offset (uio_advance k u) = uio_offset u + int k"
  "uio_segflg (uio_advance k u) = uio_segflg u" "uio_dir (uio_advance k u) = uio_dir u" "uio_space (uio_advance k u) = uio_space u"
  by (simp_all add: uio_advance_def)

lemma advance_resid:
  assumes "sz \<le> uio_resid u" "uio_resid u < 2 ^ 32"
  shows "uio_resid (uio_advance sz u) = uio_resid u - sz"
proof -
  have "uio_resid u + 2 ^ 32 - sz = 2 ^ 32 + (uio_resid u - sz)" using assms(1) by simp
  then have "u32 (uio_resid u + 2 ^ 32 - sz) = u32 (uio_resid u - sz)" by (simp only: mod_add_self1)
  also have "\<dots> = uio_resid u - sz" using assms(2) by (intro mod_less) linarith
  finally have "u32 (uio_resid u + 2 ^ 32 - sz) = uio_resid u - sz" .
  then show ?thesis by (simp add: uio_advance_def)
qed

text \<open>
  A request of \<open>n\<close> bytes that the residue covers, or a \<^verbatim>\<open>uio\<close> whose residue is all that its blocks hold.
\<close>

definition uio_request :: "nat \<Rightarrow> uio \<Rightarrow> bool" where
  "uio_request n u \<longleftrightarrow> uio_resid u < 2 ^ 32 \<and> uio_resid u \<le> length (seg_addrs (uio_iov u)) \<and>
     (n \<le> uio_resid u \<or> uio_resid u = length (seg_addrs (uio_iov u)))"

lemma request_block:
  assumes "uio_request n u" "0 < n" "0 < uio_resid u" "uio_iov u = v # vs" "sz = min (iov_len v) n"
  shows "sz = 0 \<Longrightarrow> vs \<noteq> [] \<and> uio_request n (u\<lparr>uio_iov := vs\<rparr>) \<and> seg_addrs vs = seg_addrs (uio_iov u)"
    and "sz \<le> uio_resid u" "sz \<le> iov_len v" "sz \<le> n"
    and "uio_request (n - sz) (uio_advance sz u)"
    and "seg_addrs (uio_iov (uio_advance sz u)) = drop sz (seg_addrs (uio_iov u))"
    and "take sz (seg_addrs (uio_iov u)) = [iov_base v..<iov_base v + sz]"
proof -
  show s: "sz \<le> uio_resid u" "sz \<le> iov_len v" "sz \<le> n" using assms by (auto simp: uio_request_def)
  show "vs \<noteq> [] \<and> uio_request n (u\<lparr>uio_iov := vs\<rparr>) \<and> seg_addrs vs = seg_addrs (uio_iov u)" if "sz = 0"
  proof -
    have "iov_len v = 0" using that assms(2,5) by simp
    then have e: "seg_addrs (uio_iov u) = seg_addrs vs" using assms(4) by simp
    have "seg_addrs vs \<noteq> []" using assms(1,3) e by (auto simp: uio_request_def)
    then show ?thesis using assms(1) e by (auto simp: uio_request_def)
  qed
  show a: "seg_addrs (uio_iov (uio_advance sz u)) = drop sz (seg_addrs (uio_iov u))"
    using advance_addrs [OF assms(4) s(2)] .
  have "uio_resid (uio_advance sz u) = uio_resid u - sz"
    using advance_resid [OF s(1)] assms(1) by (simp add: uio_request_def)
  then show "uio_request (n - sz) (uio_advance sz u)" using assms(1) s a by (auto simp: uio_request_def)
  show "take sz (seg_addrs (uio_iov u)) = [iov_base v..<iov_base v + sz]" using assms(4) s(2) by simp
qed

lemma kmem_kwrite: "kmem (kwrite a bs m) x = (if a \<le> x \<and> x < a + length bs then bs ! (x - a) else kmem m x)"
  by (simp add: kwrite_def)

lemma kwrite_simps [simp]: "uspace (kwrite a bs m) = uspace m" "curas (kwrite a bs m) = curas m"
  by (simp_all add: kwrite_def)

section \<open>Gathering into a kernel buffer\<close>

text \<open>
  The contract of one block of a transfer into the kernel buffer between \<open>lo\<close> and \<open>hi\<close>: as long as the
  machine is \<open>good\<close>, the byte at an accessible address \<open>a\<close> is \<open>src a\<close>, and storing into the buffer keeps
  the machine good.
\<close>

locale gather =
  fixes kind :: "uio \<Rightarrow> bool" and good :: "machine \<Rightarrow> bool" and acc :: "nat \<Rightarrow> bool" and src :: "nat \<Rightarrow> byte"
    and lo hi :: nat
  assumes block: "kind u \<Longrightarrow> good m \<Longrightarrow> 0 < sz \<Longrightarrow> (\<And>a. base \<le> a \<Longrightarrow> a < base + sz \<Longrightarrow> acc a) \<Longrightarrow>
      uiomove_block ptr base sz u m = Some (kwrite ptr (map src [base..<base + sz]) m, Inr ())"
    and keep: "good m \<Longrightarrow> lo \<le> ptr \<Longrightarrow> ptr + length bs \<le> hi \<Longrightarrow> good (kwrite ptr bs m)"
    and kind_advance: "kind u \<Longrightarrow> kind (uio_advance k u)"
    and kind_next: "kind u \<Longrightarrow> kind (u\<lparr>uio_iov := vs\<rparr>)"
begin

definition gathered :: "nat \<Rightarrow> nat \<Rightarrow> uio \<Rightarrow> machine \<Rightarrow> uio \<Rightarrow> machine \<Rightarrow> bool" where
  "gathered ptr k u m u' m' \<longleftrightarrow> good m' \<and> uspace m' = uspace m \<and>
    (\<forall>x. kmem m' x = (if ptr \<le> x \<and> x < ptr + k then src (seg_addrs (uio_iov u) ! (x - ptr)) else kmem m x)) \<and>
    uio_resid u' = uio_resid u - k \<and> uio_offset u' = uio_offset u + int k \<and>
    seg_addrs (uio_iov u') = drop k (seg_addrs (uio_iov u))"

lemma gathered_cons:
  assumes g: "gathered (ptr + sz) (k - sz) (uio_advance sz u) (kwrite ptr (map src bs) m) u' m'"
    and k: "sz \<le> k" "k \<le> uio_resid u" "uio_resid u < 2 ^ 32" "k \<le> length (seg_addrs (uio_iov u))"
    and bs: "bs = take sz (seg_addrs (uio_iov u))" "seg_addrs (uio_iov (uio_advance sz u)) = drop sz (seg_addrs (uio_iov u))"
  shows "gathered ptr k u m u' m'"
proof -
  have r: "uio_resid (uio_advance sz u) = uio_resid u - sz" using advance_resid [of sz u] k by simp
  have l: "length bs = sz" using bs(1) k by simp
  have "kmem m' x = (if ptr \<le> x \<and> x < ptr + k then src (seg_addrs (uio_iov u) ! (x - ptr)) else kmem m x)" for x
  proof -
    have m': "kmem m' x = (if ptr + sz \<le> x \<and> x < ptr + sz + (k - sz)
        then src (drop sz (seg_addrs (uio_iov u)) ! (x - (ptr + sz))) else kmem (kwrite ptr (map src bs) m) x)"
      using g unfolding gathered_def bs(2) by blast
    consider "ptr \<le> x" "x < ptr + sz" | "ptr + sz \<le> x" "x < ptr + k" | "x < ptr \<or> ptr + k \<le> x" by linarith
    then show ?thesis
    proof cases
      case 1
      then have "bs ! (x - ptr) = seg_addrs (uio_iov u) ! (x - ptr)" using bs(1) by simp
      then show ?thesis using 1 k(1) l m' by (simp add: kmem_kwrite)
    next
      case 2
      then show ?thesis using m' k by simp
    next
      case 3
      then show ?thesis using m' k(1) l by (auto simp: kmem_kwrite)
    qed
  qed
  then show ?thesis using g k(1) unfolding gathered_def by (simp add: r bs(2))
qed

lemma loop_gathers:
  assumes "kind u" "good m" "uio_request n u" "lo \<le> ptr" "ptr + min n (uio_resid u) \<le> hi"
    and "\<forall>a \<in> set (take (min n (uio_resid u)) (seg_addrs (uio_iov u))). acc a"
  shows "\<exists>u' m'. uiomove_loop ptr n u m = Some (u', m', Inr ()) \<and> gathered ptr (min n (uio_resid u)) u m u' m'"
  using assms
proof (induction "n + length (uio_iov u)" arbitrary: ptr n u m rule: less_induct)
  case less
  show ?case
  proof (cases "0 < n \<and> 0 < uio_resid u")
    case False
    then show ?thesis using less.prems(2) by (subst uiomove_loop.simps) (auto simp: gathered_def)
  next
    case True
    then obtain v vs where v: "uio_iov u = v # vs"
      using less.prems(3) by (cases "uio_iov u") (auto simp: uio_request_def)
    define sz where "sz = min (iov_len v) n"
    note rb = request_block [OF less.prems(3) conjunct1 [OF True] conjunct2 [OF True] v sz_def]
    show ?thesis
    proof (cases "sz = 0")
      case z: True
      let ?v = "u\<lparr>uio_iov := vs\<rparr>"
      have n: "vs \<noteq> []" "uio_request n ?v" and e: "seg_addrs (uio_iov ?v) = seg_addrs (uio_iov u)" using rb(1) [OF z] by auto
      have step: "uiomove_loop ptr n u m = uiomove_loop ptr n ?v m"
        using True v n(1) z by (subst uiomove_loop.simps) (simp add: sz_def)
      have "\<exists>u' m'. uiomove_loop ptr n ?v m = Some (u', m', Inr ()) \<and> gathered ptr (min n (uio_resid ?v)) ?v m u' m'"
      proof (rule less.hyps [OF _ kind_next [OF less.prems(1)] less.prems(2) n(2) less.prems(4)])
        show "n + length (uio_iov ?v) < n + length (uio_iov u)" using v by simp
        show "ptr + min n (uio_resid ?v) \<le> hi" using less.prems(5) by simp
        show "\<forall>a \<in> set (take (min n (uio_resid ?v)) (seg_addrs (uio_iov ?v))). acc a" unfolding e using less.prems(6) by simp
      qed
      then show ?thesis unfolding step gathered_def e by simp
    next
      case z: False
      let ?k = "min n (uio_resid u)" and ?u = "uio_advance sz u"
      let ?m = "kwrite ptr (map src [iov_base v..<iov_base v + sz]) m"
      have s: "0 < sz" "sz \<le> ?k" "sz \<le> n" "sz \<le> uio_resid u" using rb(2,4) z by auto
      have rq: "uio_resid u < 2 ^ 32" "?k \<le> length (seg_addrs (uio_iov u))" using less.prems(3) by (auto simp: uio_request_def)
      have r: "uio_resid ?u = uio_resid u - sz" using advance_resid [OF s(4) rq(1)] .
      have k: "min (n - sz) (uio_resid u - sz) = ?k - sz" by simp
      have acc1: "acc a" if "iov_base v \<le> a" "a < iov_base v + sz" for a
      proof -
        have "a \<in> set (take sz (seg_addrs (uio_iov u)))" unfolding rb(7) using that by simp
        from subsetD [OF set_take_subset_set_take [OF s(2)] this] show ?thesis using less.prems(6) by (rule bspec [rotated])
      qed
      have acc2: "\<forall>a \<in> set (take (?k - sz) (drop sz (seg_addrs (uio_iov u)))). acc a"
        using less.prems(6) s(2) by (auto simp: take_drop dest: in_set_dropD)
      have bl: "uiomove_block ptr (iov_base v) sz u m = Some (?m, Inr ())"
        by (rule block [OF less.prems(1,2) s(1)]) (rule acc1)
      have step: "uiomove_loop ptr n u m = uiomove_loop (ptr + sz) (n - sz) ?u ?m"
        using True v s(1) bl
        by (subst uiomove_loop.simps) (simp add: sz_def [symmetric])
      have g: "good ?m"
        by (rule keep [OF less.prems(2,4)]) (use order_trans [OF add_left_mono [OF s(2)] less.prems(5)] in simp)
      have le: "length (uio_iov ?u) = length (uio_iov u)" by (simp add: uio_advance_def split: list.split)
      have "\<exists>u' m'. uiomove_loop (ptr + sz) (n - sz) ?u ?m = Some (u', m', Inr ()) \<and>
          gathered (ptr + sz) (min (n - sz) (uio_resid ?u)) ?u ?m u' m'"
        by (rule less.hyps [OF _ kind_advance [OF less.prems(1)] g rb(5)])
          (use s less.prems(4,5) acc2 in \<open>simp_all add: r k le rb(6)\<close>)
      then obtain u' m' where IH: "uiomove_loop (ptr + sz) (n - sz) ?u ?m = Some (u', m', Inr ())"
        "gathered (ptr + sz) (?k - sz) ?u ?m u' m'" unfolding r k by blast
      have "gathered ptr ?k u m u' m'"
        by (rule gathered_cons [OF IH(2) s(2) _ rq rb(7) [symmetric] rb(6)]) simp
      then show ?thesis unfolding step using IH(1) by blast
    qed
  qed
qed

end

text \<open>User memory keeps this contract (\<open>us\<close> is the user side, which does not change), and so does kernel memory outside the buffer.\<close>

definition user_kind :: "uio_rw \<Rightarrow> uio \<Rightarrow> bool" where
  "user_kind rw u \<longleftrightarrow> uio_segflg u \<noteq> UIO_SYSSPACE \<and> uio_dir u = rw"

definition sys_kind :: "uio_rw \<Rightarrow> uio \<Rightarrow> bool" where
  "sys_kind rw u \<longleftrightarrow> uio_segflg u = UIO_SYSSPACE \<and> uio_dir u = rw"

definition readable :: "ucopy \<Rightarrow> nat \<Rightarrow> bool" where
  "readable us a \<longleftrightarrow> a < 2 ^ 31 \<and> um us a \<noteq> None"

lemma block_range:
  assumes "0 < sz" "\<And>a. base \<le> a \<Longrightarrow> a < base + sz \<Longrightarrow> a < 2 ^ 31"
  shows "unat (of_nat base :: 32 word) = base" "unat (of_nat sz :: 32 word) = sz"
    "user_range (of_nat base) (of_nat sz)"
proof -
  have "base + sz - 1 < 2 ^ 31" using assms(1) by (intro assms(2)) auto
  then have "base + sz \<le> 2 ^ 31" using assms(1) by linarith
  then show "unat (of_nat base :: 32 word) = base" "unat (of_nat sz :: 32 word) = sz"
    by (simp_all add: unat_of_nat)
  then show "user_range (of_nat base) (of_nat sz)"
    using assms(1) \<open>base + sz \<le> 2 ^ 31\<close> by (simp add: user_range_def)
qed

interpretation from_user: gather "user_kind UIO_WRITE" "\<lambda>m. uspace m = us \<and> \<not> badfault us" "readable us" "\<lambda>a. the (um us a)" lo hi
  for us lo hi
proof unfold_locales
  fix u and m :: machine and sz base ptr
  assume k: "user_kind UIO_WRITE u" and g: "uspace m = us \<and> \<not> badfault us" and sz: "0 < sz"
    and r: "\<And>a. base \<le> a \<Longrightarrow> a < base + sz \<Longrightarrow> readable us a"
  note br = block_range [OF sz, of base] r
  have "unat (of_nat base :: 32 word) = base" "unat (of_nat sz :: 32 word) = sz" "user_range (of_nat base) (of_nat sz)"
    using br by (auto simp: readable_def)
  moreover have "\<forall>i. i < sz \<longrightarrow> um us (base + i) \<noteq> None" using r by (auto simp: readable_def)
  moreover have "map (\<lambda>i. the (um us (base + i))) [0..<sz] = map (\<lambda>a. the (um us a)) [base..<base + sz]"
    by (rule nth_equalityI) auto
  ultimately have "copyin (of_nat base) (of_nat sz) us = Some (us, Inr (map (\<lambda>a. the (um us a)) [base..<base + sz]))"
    using copyin_eq [of us "of_nat base" "of_nat sz"] g by simp
  then show "uiomove_block ptr base sz u m = Some (kwrite ptr (map (\<lambda>a. the (um us a)) [base..<base + sz]) m, Inr ())"
    using k conjunct1 [OF g, symmetric] by (simp add: uiomove_block_def user_kind_def)
qed (auto simp: user_kind_def)

interpretation from_sys: gather "sys_kind UIO_WRITE" "\<lambda>m :: machine. \<forall>a. a < lo \<or> hi \<le> a \<longrightarrow> kmem m a = k a" "\<lambda>a. a < lo \<or> hi \<le> a" k lo hi
  for k lo hi
proof unfold_locales
  fix u and m :: machine and sz base ptr
  assume kind: "sys_kind UIO_WRITE u" and g: "\<forall>a. a < lo \<or> hi \<le> a \<longrightarrow> kmem m a = k a"
    and r: "\<And>a. base \<le> a \<Longrightarrow> a < base + sz \<Longrightarrow> a < lo \<or> hi \<le> a"
  have "kmem m (base + i) = k (base + i)" if "i < sz" for i using g r [of "base + i"] that by auto
  then have "kread m base sz = map k [base..<base + sz]"
    by (intro nth_equalityI) (auto simp: kread_def)
  then show "uiomove_block ptr base sz u m = Some (kwrite ptr (map k [base..<base + sz]) m, Inr ())"
    using kind by (simp add: uiomove_block_def sys_kind_def)
qed (auto simp: sys_kind_def kmem_kwrite)

text \<open>
  C17. \<^verbatim>\<open>uiomove\<close> from user space gathers exactly: for a request of \<open>n\<close> bytes with a residue \<open>r\<close>, it stores
  the first \<open>min n r\<close> bytes of the user blocks, block after block and in order, into the kernel
  buffer, changes nothing else, moves residue and offset by that many bytes, and leaves the \<^verbatim>\<open>uio\<close> at
  the rest of the blocks, so that a following call goes on where this one stopped.
\<close>

theorem uiomove_gathers:
  assumes "user_kind UIO_WRITE u" "uio_space u = curas m" "\<not> badfault (uspace m)" "uio_request n u"
    and "k = min n (uio_resid u)" "\<forall>a \<in> set (take k (seg_addrs (uio_iov u))). readable (uspace m) a"
  shows "\<exists>u' m'. uiomove ptr n u m = Some (u', m', Inr ()) \<and> uspace m' = uspace m
    \<and> kread m' ptr k = map (\<lambda>a. the (um (uspace m) a)) (take k (seg_addrs (uio_iov u)))
    \<and> (\<forall>x. x < ptr \<or> ptr + k \<le> x \<longrightarrow> kmem m' x = kmem m x)
    \<and> uio_resid u' = uio_resid u - k \<and> uio_offset u' = uio_offset u + int k
    \<and> seg_addrs (uio_iov u') = drop k (seg_addrs (uio_iov u))"
proof -
  have "uiomove ptr n u m = uiomove_loop ptr n u m"
    using assms(1,2) by (simp add: uiomove_def user_kind_def)
  moreover obtain u' m' where l: "uiomove_loop ptr n u m = Some (u', m', Inr ())"
    "from_user.gathered (uspace m) ptr k u m u' m'"
    using from_user.loop_gathers [of u m "uspace m" n ptr ptr "ptr + k"] assms by auto
  moreover have "kread m' ptr k = map (\<lambda>a. the (um (uspace m) a)) (take k (seg_addrs (uio_iov u)))"
    by (rule nth_equalityI)
      (use l(2) assms(4,5) in \<open>auto simp: kread_def from_user.gathered_def uio_request_def\<close>)
  ultimately show ?thesis by (auto simp: from_user.gathered_def)
qed

definition uio_demo :: uio where
  "uio_demo = \<lparr>uio_iov = [\<lparr>iov_base = 16, iov_len = 2\<rparr>, \<lparr>iov_base = 5, iov_len = 0\<rparr>, \<lparr>iov_base = 100, iov_len = 3\<rparr>],
     uio_offset = 7, uio_resid = 5, uio_segflg = UIO_USERSPACE, uio_dir = UIO_WRITE, uio_space = Some 1\<rparr>"

definition machine_demo :: machine where
  "machine_demo = \<lparr>kmem = (\<lambda>_. 0), uspace = ucopy_demo\<lparr>um := (\<lambda>a. if a < 4096 then Some (of_nat a) else None)\<rparr>, curas = Some 1\<rparr>"

theorem uiomove_gathers_witness:
  "\<exists>u' m'. uiomove 5000 4 uio_demo machine_demo = Some (u', m', Inr ())
    \<and> kread m' 5000 4 = map (\<lambda>a. the (um (uspace machine_demo) a)) [16, 17, 100, 101] \<and> uio_resid u' = 1"
proof -
  have addrs: "seg_addrs (uio_iov uio_demo) = [16, 17, 100, 101, 102]"
    by (simp add: uio_demo_def upt_rec)
  have "uio_request 4 uio_demo" using addrs by (simp add: uio_request_def) (simp add: uio_demo_def)
  moreover have "\<forall>a \<in> set (take 4 (seg_addrs (uio_iov uio_demo))). readable (uspace machine_demo) a"
    unfolding addrs by (simp add: readable_def machine_demo_def)
  ultimately have "\<exists>u' m'. uiomove 5000 4 uio_demo machine_demo = Some (u', m', Inr ()) \<and> uspace m' = uspace machine_demo
    \<and> kread m' 5000 4 = map (\<lambda>a. the (um (uspace machine_demo) a)) (take 4 (seg_addrs (uio_iov uio_demo)))
    \<and> (\<forall>x. x < 5000 \<or> 5000 + 4 \<le> x \<longrightarrow> kmem m' x = kmem machine_demo x)
    \<and> uio_resid u' = uio_resid uio_demo - 4 \<and> uio_offset u' = uio_offset uio_demo + int 4
    \<and> seg_addrs (uio_iov u') = drop 4 (seg_addrs (uio_iov uio_demo))"
    by (intro uiomove_gathers) (simp_all add: user_kind_def uio_demo_def machine_demo_def ucopy_demo_def)
  then show ?thesis unfolding addrs by (fastforce simp: uio_demo_def)
qed

section \<open>Scattering out of a kernel buffer\<close>

text \<open>
  The contract of a block going the other way: \<open>view\<close> is the memory that is written, the kernel buffer
  holds \<open>src\<close>, and writing a block at accessible addresses keeps the machine good.
\<close>

locale scatter =
  fixes kind :: "uio \<Rightarrow> bool" and good :: "machine \<Rightarrow> bool" and acc :: "nat \<Rightarrow> bool" and src :: "nat \<Rightarrow> byte"
    and view :: "machine \<Rightarrow> nat \<Rightarrow> byte option" and lo hi :: nat
  assumes block: "kind u \<Longrightarrow> good m \<Longrightarrow> 0 < sz \<Longrightarrow> lo \<le> ptr \<Longrightarrow> ptr + sz \<le> hi \<Longrightarrow>
      (\<And>a. base \<le> a \<Longrightarrow> a < base + sz \<Longrightarrow> acc a) \<Longrightarrow>
      \<exists>m'. uiomove_block ptr base sz u m = Some (m', Inr ()) \<and> good m' \<and>
        (\<forall>x. view m' x = (if base \<le> x \<and> x < base + sz then Some (src (ptr + (x - base))) else view m x))"
    and kind_advance: "kind u \<Longrightarrow> kind (uio_advance k u)"
    and kind_next: "kind u \<Longrightarrow> kind (u\<lparr>uio_iov := vs\<rparr>)"
begin

definition scattered :: "nat \<Rightarrow> nat \<Rightarrow> uio \<Rightarrow> machine \<Rightarrow> uio \<Rightarrow> machine \<Rightarrow> bool" where
  "scattered ptr k u m u' m' \<longleftrightarrow> good m' \<and>
    (\<forall>i<k. view m' (seg_addrs (uio_iov u) ! i) = Some (src (ptr + i))) \<and>
    (\<forall>x. x \<notin> set (take k (seg_addrs (uio_iov u))) \<longrightarrow> view m' x = view m x) \<and>
    uio_resid u' = uio_resid u - k \<and> uio_offset u' = uio_offset u + int k \<and>
    seg_addrs (uio_iov u') = drop k (seg_addrs (uio_iov u))"

lemma scattered_cons:
  assumes g: "scattered (ptr + sz) (k - sz) (uio_advance sz u) m1 u' m'"
    and v: "\<forall>x. view m1 x = (if base \<le> x \<and> x < base + sz then Some (src (ptr + (x - base))) else view m x)"
    and k: "sz \<le> k" "k \<le> uio_resid u" "uio_resid u < 2 ^ 32" "k \<le> length (seg_addrs (uio_iov u))"
    and d: "distinct (take k (seg_addrs (uio_iov u)))"
    and bs: "take sz (seg_addrs (uio_iov u)) = [base..<base + sz]"
      "seg_addrs (uio_iov (uio_advance sz u)) = drop sz (seg_addrs (uio_iov u))"
  shows "scattered ptr k u m u' m'"
proof -
  let ?A = "seg_addrs (uio_iov u)"
  have r: "uio_resid (uio_advance sz u) = uio_resid u - sz" using advance_resid [of sz u] k by simp
  have split: "take k ?A = [base..<base + sz] @ take (k - sz) (drop sz ?A)"
    using k(1) bs(1) by (metis le_add_diff_inverse take_add)
  have g1: "\<forall>i<k - sz. view m' (drop sz ?A ! i) = Some (src (ptr + sz + i))"
    and g2: "\<And>x. x \<notin> set (take (k - sz) (drop sz ?A)) \<Longrightarrow> view m' x = view m1 x"
    using g unfolding scattered_def bs(2) by auto
  have "view m' (?A ! i) = Some (src (ptr + i))" if i: "i < k" for i
  proof (cases "i < sz")
    case True
    have e: "?A ! i = base + i" using True bs(1) by (metis add_0 nth_take nth_upt add.commute nat_add_left_cancel_less)
    have "base + i \<notin> set (take (k - sz) (drop sz ?A))" using d True unfolding split by (simp add: disjoint_iff)
    then show ?thesis using g2 v True e by simp
  next
    case False
    then have "view m' (drop sz ?A ! (i - sz)) = Some (src (ptr + sz + (i - sz)))" using g1 i by simp
    moreover have "drop sz ?A ! (i - sz) = ?A ! i" using False k i by simp
    ultimately show ?thesis using False by simp
  qed
  moreover have "view m' x = view m x" if "x \<notin> set (take k ?A)" for x
    using that g2 [of x] v unfolding split by auto
  ultimately show ?thesis using g k(1) unfolding scattered_def by (simp add: r bs(2))
qed

lemma loop_scatters:
  assumes "kind u" "good m" "uio_request n u" "lo \<le> ptr" "ptr + min n (uio_resid u) \<le> hi"
    and "distinct (take (min n (uio_resid u)) (seg_addrs (uio_iov u)))"
    and "\<forall>a \<in> set (take (min n (uio_resid u)) (seg_addrs (uio_iov u))). acc a"
  shows "\<exists>u' m'. uiomove_loop ptr n u m = Some (u', m', Inr ()) \<and> scattered ptr (min n (uio_resid u)) u m u' m'"
  using assms
proof (induction "n + length (uio_iov u)" arbitrary: ptr n u m rule: less_induct)
  case less
  show ?case
  proof (cases "0 < n \<and> 0 < uio_resid u")
    case False
    then show ?thesis using less.prems(2) by (subst uiomove_loop.simps) (auto simp: scattered_def)
  next
    case True
    then obtain v vs where v: "uio_iov u = v # vs"
      using less.prems(3) by (cases "uio_iov u") (auto simp: uio_request_def)
    define sz where "sz = min (iov_len v) n"
    note rb = request_block [OF less.prems(3) conjunct1 [OF True] conjunct2 [OF True] v sz_def]
    show ?thesis
    proof (cases "sz = 0")
      case z: True
      let ?v = "u\<lparr>uio_iov := vs\<rparr>"
      have n: "vs \<noteq> []" "uio_request n ?v" and e: "seg_addrs (uio_iov ?v) = seg_addrs (uio_iov u)" using rb(1) [OF z] by auto
      have step: "uiomove_loop ptr n u m = uiomove_loop ptr n ?v m"
        using True v n(1) z by (subst uiomove_loop.simps) (simp add: sz_def)
      have "\<exists>u' m'. uiomove_loop ptr n ?v m = Some (u', m', Inr ()) \<and> scattered ptr (min n (uio_resid ?v)) ?v m u' m'"
      proof (rule less.hyps [OF _ kind_next [OF less.prems(1)] less.prems(2) n(2) less.prems(4)])
        show "n + length (uio_iov ?v) < n + length (uio_iov u)" using v by simp
        show "ptr + min n (uio_resid ?v) \<le> hi" using less.prems(5) by simp
        show "distinct (take (min n (uio_resid ?v)) (seg_addrs (uio_iov ?v)))" unfolding e using less.prems(6) by simp
        show "\<forall>a \<in> set (take (min n (uio_resid ?v)) (seg_addrs (uio_iov ?v))). acc a" unfolding e using less.prems(7) by simp
      qed
      then show ?thesis unfolding step scattered_def e by simp
    next
      case z: False
      let ?k = "min n (uio_resid u)" and ?u = "uio_advance sz u"
      have s: "0 < sz" "sz \<le> ?k" "sz \<le> n" "sz \<le> uio_resid u" using rb(2,4) z by auto
      have rq: "uio_resid u < 2 ^ 32" "?k \<le> length (seg_addrs (uio_iov u))" using less.prems(3) by (auto simp: uio_request_def)
      have r: "uio_resid ?u = uio_resid u - sz" using advance_resid [OF s(4) rq(1)] .
      have k: "min (n - sz) (uio_resid u - sz) = ?k - sz" by simp
      have acc1: "acc a" if "iov_base v \<le> a" "a < iov_base v + sz" for a
      proof -
        have "a \<in> set (take sz (seg_addrs (uio_iov u)))" unfolding rb(7) using that by simp
        from subsetD [OF set_take_subset_set_take [OF s(2)] this] show ?thesis using less.prems(7) by (rule bspec [rotated])
      qed
      have acc2: "\<forall>a \<in> set (take (?k - sz) (drop sz (seg_addrs (uio_iov u)))). acc a"
        using less.prems(7) s(2) by (auto simp: take_drop dest: in_set_dropD)
      have dis: "distinct (take (?k - sz) (drop sz (seg_addrs (uio_iov u))))"
        using less.prems(6) s(2) by (simp add: take_drop)
      obtain m1 where bl: "uiomove_block ptr (iov_base v) sz u m = Some (m1, Inr ())" "good m1"
        "\<forall>x. view m1 x = (if iov_base v \<le> x \<and> x < iov_base v + sz then Some (src (ptr + (x - iov_base v))) else view m x)"
        using block [OF less.prems(1,2) s(1) less.prems(4) order_trans [OF add_left_mono [OF s(2)] less.prems(5)] acc1] by blast
      have step: "uiomove_loop ptr n u m = uiomove_loop (ptr + sz) (n - sz) ?u m1"
        using True v s(1) bl(1) by (subst uiomove_loop.simps) (simp add: sz_def [symmetric])
      have le: "length (uio_iov ?u) = length (uio_iov u)" by (simp add: uio_advance_def split: list.split)
      have "\<exists>u' m'. uiomove_loop (ptr + sz) (n - sz) ?u m1 = Some (u', m', Inr ()) \<and>
          scattered (ptr + sz) (min (n - sz) (uio_resid ?u)) ?u m1 u' m'"
        by (rule less.hyps [OF _ kind_advance [OF less.prems(1)] bl(2) rb(5)])
          (use s less.prems(4,5) acc2 dis in \<open>simp_all add: r k le rb(6)\<close>)
      then obtain u' m' where IH: "uiomove_loop (ptr + sz) (n - sz) ?u m1 = Some (u', m', Inr ())"
        "scattered (ptr + sz) (?k - sz) ?u m1 u' m'" unfolding r k by blast
      have "scattered ptr ?k u m u' m'"
        by (rule scattered_cons [OF IH(2) bl(3) s(2) _ rq less.prems(6) rb(7,6)]) simp
      then show ?thesis unfolding step using IH(1) by blast
    qed
  qed
qed

end

definition writable :: "ucopy \<Rightarrow> nat \<Rightarrow> bool" where
  "writable us a \<longleftrightarrow> a < 2 ^ 31 \<and> um us a \<noteq> None \<and> uw us a"

text \<open>For user memory, a good machine has the kernel memory \<open>k\<close> and can be written where \<open>us\<close> could.\<close>

definition to_user_good :: "(nat \<Rightarrow> byte) \<Rightarrow> ucopy \<Rightarrow> machine \<Rightarrow> bool" where
  "to_user_good k us m \<longleftrightarrow> kmem m = k \<and> \<not> badfault (uspace m) \<and> uw (uspace m) = uw us \<and>
     (\<forall>a. (um (uspace m) a = None) = (um us a = None))"

interpretation to_user: scatter "user_kind UIO_READ" "to_user_good k us" "writable us" k "\<lambda>m. um (uspace m)" lo hi
  for k us lo hi
proof unfold_locales
  fix u and m :: machine and sz ptr base
  assume kind: "user_kind UIO_READ u" and g: "to_user_good k us m" and sz: "0 < sz"
    and r: "\<And>a. base \<le> a \<Longrightarrow> a < base + sz \<Longrightarrow> writable us a"
  note br = block_range [OF sz, of base]
  have b: "unat (of_nat base :: 32 word) = base" "unat (of_nat sz :: 32 word) = sz" "user_range (of_nat base) (of_nat sz)"
    using br r by (auto simp: writable_def)
  have w: "um (uspace m) (base + i) \<noteq> None \<and> uw (uspace m) (base + i)" if "i < sz" for i
    using g r [of "base + i"] that by (auto simp: writable_def to_user_good_def)
  have nb: "\<not> badfault (uspace m)" "length (kread m ptr sz) = unat (of_nat sz :: 32 word)"
    using g b by (simp_all add: to_user_good_def kread_def)
  obtain us' where c: "copyout (kread m ptr sz) (of_nat base) (of_nat sz) (uspace m) = Some (us', Inr ())" "\<not> badfault us'"
    "uw us' = uw (uspace m)" "\<forall>x. x < base \<or> base + sz \<le> x \<longrightarrow> um us' x = um (uspace m) x"
    "\<forall>x. (um us' x = None) = (um (uspace m) x = None)" "\<forall>i. i < sz \<longrightarrow> um us' (base + i) = Some (kread m ptr sz ! i)"
    using copyout_spec [OF nb, of "of_nat base"] b w by (auto simp: b)
  let ?m = "m\<lparr>uspace := us'\<rparr>"
  have "uiomove_block ptr base sz u m = Some (?m, Inr ())"
    using kind c(1) by (simp add: uiomove_block_def user_kind_def)
  moreover have "to_user_good k us ?m" using g c by (auto simp: to_user_good_def)
  moreover have "um us' x = (if base \<le> x \<and> x < base + sz then Some (k (ptr + (x - base))) else um (uspace m) x)" for x
  proof (cases "base \<le> x \<and> x < base + sz")
    case True
    then have "um us' (base + (x - base)) = Some (kread m ptr sz ! (x - base))"
      by (intro c(6) [rule_format]) linarith
    moreover have "x - base < sz" using True by linarith
    ultimately show ?thesis using True g by (simp add: kread_def to_user_good_def)
  next
    case False
    then show ?thesis using c(4) by auto
  qed
  ultimately show "\<exists>m'. uiomove_block ptr base sz u m = Some (m', Inr ()) \<and> to_user_good k us m' \<and>
      (\<forall>x. um (uspace m') x = (if base \<le> x \<and> x < base + sz then Some (k (ptr + (x - base))) else um (uspace m) x))"
    by (intro exI [of _ ?m]) simp
qed (auto simp: user_kind_def)

text \<open>
  C18. \<^verbatim>\<open>uiomove\<close> to user space scatters exactly: the first \<open>min n r\<close> bytes of the kernel buffer arrive at
  the addresses of the blocks, in order, no other byte of user or kernel memory changes, and
  residue, offset and blocks move on by as much.
\<close>

theorem uiomove_scatters:
  assumes "user_kind UIO_READ u" "uio_space u = curas m" "\<not> badfault (uspace m)" "uio_request n u"
    and "k = min n (uio_resid u)" "distinct (take k (seg_addrs (uio_iov u)))"
    and "\<forall>a \<in> set (take k (seg_addrs (uio_iov u))). writable (uspace m) a"
  shows "\<exists>u' m'. uiomove ptr n u m = Some (u', m', Inr ()) \<and> kmem m' = kmem m
    \<and> (\<forall>i<k. um (uspace m') (seg_addrs (uio_iov u) ! i) = Some (kmem m (ptr + i)))
    \<and> (\<forall>x. x \<notin> set (take k (seg_addrs (uio_iov u))) \<longrightarrow> um (uspace m') x = um (uspace m) x)
    \<and> uio_resid u' = uio_resid u - k \<and> uio_offset u' = uio_offset u + int k
    \<and> seg_addrs (uio_iov u') = drop k (seg_addrs (uio_iov u))"
proof -
  have g: "to_user_good (kmem m) (uspace m) m" using assms(3) by (simp add: to_user_good_def)
  have "uiomove ptr n u m = uiomove_loop ptr n u m"
    using assms(1,2) by (simp add: uiomove_def user_kind_def)
  moreover obtain u' m' where "uiomove_loop ptr n u m = Some (u', m', Inr ())"
    "to_user.scattered (kmem m) (uspace m) ptr k u m u' m'"
    using to_user.loop_scatters [OF assms(1) g assms(4), of ptr ptr "ptr + k"] assms(5,6,7) by auto
  ultimately show ?thesis by (auto simp: to_user.scattered_def to_user_good_def)
qed

theorem uiomove_scatters_witness:
  "\<exists>u' m'. uiomove 5000 4 (uio_demo\<lparr>uio_dir := UIO_READ\<rparr>) (machine_demo\<lparr>kmem := \<lambda>a. 9\<rparr>) = Some (u', m', Inr ())
    \<and> um (uspace m') 100 = Some 9 \<and> um (uspace m') 99 = Some 99"
proof -
  let ?u = "uio_demo\<lparr>uio_dir := UIO_READ\<rparr>" and ?m = "machine_demo\<lparr>kmem := \<lambda>a. 9\<rparr>"
  have addrs: "seg_addrs (uio_iov ?u) = [16, 17, 100, 101, 102]"
    by (simp add: uio_demo_def upt_rec)
  have rq: "uio_request 4 ?u" using addrs by (simp add: uio_request_def) (simp add: uio_demo_def)
  have w: "\<forall>a \<in> set (take 4 (seg_addrs (uio_iov ?u))). writable (uspace ?m) a"
    unfolding addrs by (simp add: writable_def machine_demo_def ucopy_demo_def)
  have "\<exists>u' m'. uiomove 5000 4 ?u ?m = Some (u', m', Inr ()) \<and> kmem m' = kmem ?m
    \<and> (\<forall>i<4. um (uspace m') (seg_addrs (uio_iov ?u) ! i) = Some (kmem ?m (5000 + i)))
    \<and> (\<forall>x. x \<notin> set (take 4 (seg_addrs (uio_iov ?u))) \<longrightarrow> um (uspace m') x = um (uspace ?m) x)
    \<and> uio_resid u' = uio_resid ?u - 4 \<and> uio_offset u' = uio_offset ?u + int 4
    \<and> seg_addrs (uio_iov u') = drop 4 (seg_addrs (uio_iov ?u))"
    by (rule uiomove_scatters [OF _ _ _ rq _ _ w])
      (simp_all add: addrs, simp_all add: user_kind_def uio_demo_def machine_demo_def ucopy_demo_def)
  then obtain u' m' where um: "uiomove 5000 4 ?u ?m = Some (u', m', Inr ())"
    "\<forall>i<4. um (uspace m') ([16, 17, 100, 101, 102] ! i) = Some (kmem ?m (5000 + i))"
    "\<forall>x. x \<notin> {16, 17, 100, 101} \<longrightarrow> um (uspace m') x = um (uspace ?m) x" unfolding addrs by auto
  have "um (uspace m') 100 = Some 9" using um(2) [rule_format, of 2] by simp
  moreover have "um (uspace m') 99 = Some 99" using um(3) by (simp add: machine_demo_def)
  ultimately show ?thesis using um(1) by blast
qed

end
