(* ===== verification/Vm.thy ===== *)
theory Vm
  imports Kernel_Prelude
begin

text \<open>
  Physical memory and the coremap: \<^verbatim>\<open>kern/arch/mips/vm/ram.c\<close>, \<^verbatim>\<open>kern/vm/vm.c\<close> and
  \<^verbatim>\<open>kern/vm/addrspace.c\<close>.

  Addresses are unsigned 32-bit numbers, with the wrap-around written out by \<open>u32\<close>. The state \<open>vm\<close>
  collects the static variables of the two files and the TLB. \<open>coremap_lock\<close> is taken at the start and
  released at the end of every function that uses the coremap, so each of them is one step. A panic is
  \<open>None\<close>.

  The locale \<open>page_source\<close> is what the kernel heap (\<^verbatim>\<open>kmalloc.c\<close>) expects of \<^verbatim>\<open>alloc_kpages\<close> and
  \<^verbatim>\<open>free_kpages\<close>; it is interpreted here on the coremap, as long as the caller has no address space and
  a page is free, and in the theory of \<^verbatim>\<open>dumbvm.c\<close> on that file's functions.
\<close>

section \<open>Addresses\<close>

definition PAGE_SIZE :: nat where "PAGE_SIZE = 4096"
definition MIPS_KSEG0 :: nat where "MIPS_KSEG0 = 0x80000000"
definition MIPS_KSEG1 :: nat where "MIPS_KSEG1 = 0xa0000000"

definition PADDR_TO_KVADDR :: "nat \<Rightarrow> nat" where
  "PADDR_TO_KVADDR paddr = u32 (paddr + MIPS_KSEG0)"

text \<open>\<open>usub\<close> is unsigned subtraction; \<open>page_frame\<close> is the mask \<^verbatim>\<open>& PAGE_FRAME\<close> and \<open>page_offset\<close> the mask
  \<^verbatim>\<open>& ~PAGE_FRAME\<close>.\<close>

definition usub :: "nat \<Rightarrow> nat \<Rightarrow> nat" where
  "usub a b = u32 (a + 2 ^ 32 - b)"

definition page_frame :: "nat \<Rightarrow> nat" where "page_frame a = a - a mod PAGE_SIZE"
definition page_offset :: "nat \<Rightarrow> nat" where "page_offset a = a mod PAGE_SIZE"

lemma usub_eq [simp]: "b \<le> a \<Longrightarrow> a < 2 ^ 32 \<Longrightarrow> usub a b = a - b"
proof -
  assume h: "b \<le> a" "a < 2 ^ 32"
  then have "a + 2 ^ 32 - b = (a - b) + 2 ^ 32" by simp
  then show ?thesis using h unfolding usub_def by (simp only: mod_add_self2) simp
qed

lemma PADDR_TO_KVADDR_low: "a < MIPS_KSEG0 \<Longrightarrow> PADDR_TO_KVADDR a = a + MIPS_KSEG0"
  by (simp add: PADDR_TO_KVADDR_def MIPS_KSEG0_def)

section \<open>Physical memory before the VM system\<close>

record ram =
  firstpaddr :: nat
  lastpaddr :: nat

text \<open>\<open>ramsize\<close> is what \<^verbatim>\<open>mainbus_ramsize\<close> reports and \<open>firstfree\<close> what \<^verbatim>\<open>start.S\<close> has saved.\<close>

definition ram_bootstrap :: "nat \<Rightarrow> nat \<Rightarrow> ram" where
  "ram_bootstrap ramsize firstfree =
     (let ramsize = (if ramsize > 512 * 1024 * 1024 then 512 * 1024 * 1024 else ramsize) in
      \<lparr>firstpaddr = usub firstfree MIPS_KSEG0, lastpaddr = ramsize\<rparr>)"

definition ram_stealmem :: "nat \<Rightarrow> ram \<Rightarrow> ram \<times> nat" where
  "ram_stealmem npages r =
     (let sz = u32 (npages * PAGE_SIZE) in
      if u32 (firstpaddr r + sz) > lastpaddr r then (r, 0)
      else
        let paddr = firstpaddr r in
        (r\<lparr>firstpaddr := u32 (firstpaddr r + sz)\<rparr>, paddr))"

definition ram_getsize :: "ram \<Rightarrow> nat" where
  "ram_getsize r = lastpaddr r"

definition ram_getfirstfree :: "ram \<Rightarrow> ram \<times> nat" where
  "ram_getfirstfree r = (let ret = firstpaddr r in (r\<lparr>firstpaddr := 0, lastpaddr := 0\<rparr>, ret))"

section \<open>The coremap\<close>

datatype page_status = FREE | DIRTY | FIXED | CLEAN

record coremap_entry =
  ce_status :: page_status
  ce_as :: nat
  ce_pfn :: nat
  ce_vfn :: nat

text \<open>\<open>ce_as\<close> is the address of a \<^verbatim>\<open>struct addrspace\<close>, 0 for \<^verbatim>\<open>NULL\<close>; no function uses \<^verbatim>\<open>time_stamp\<close>.
  The \<^verbatim>\<open>struct coremap_entry\<close> is 24 bytes with the padding of its 64-bit member.\<close>

definition COREMAP_ENTRY_SIZE :: nat where "COREMAP_ENTRY_SIZE = 24"

definition NUM_TLB :: nat where "NUM_TLB = 64"
definition TLBHI_INVALID :: "nat \<Rightarrow> nat" where "TLBHI_INVALID entryno = u32 ((0x80000 + entryno) * 2 ^ 12)"
definition TLBLO_INVALID :: nat where "TLBLO_INVALID = 0"

record vm =
  vm_ram :: ram
  bootstrapped :: bool
  num_pages :: nat
  coremap :: "coremap_entry list"
  tlb :: "(nat \<times> nat) list"

definition vm_bootstrap :: "vm \<Rightarrow> vm option" where
  "vm_bootstrap v =
     (let lastaddr = ram_getsize (vm_ram v);
          (r, firstaddr) = ram_getfirstfree (vm_ram v);
          n = usub lastaddr firstaddr div PAGE_SIZE;
          coremap_size = u32 (n * COREMAP_ENTRY_SIZE) in
      if u32 (firstaddr + coremap_size) \<ge> lastaddr then None
      else
        let remaining_addr = u32 (firstaddr + n * COREMAP_ENTRY_SIZE);
            fixed_pages = n div PAGE_SIZE;
            fixed_pages = (if remaining_addr mod PAGE_SIZE \<noteq> 0 then fixed_pages + 1 else fixed_pages);
            fixed = map (\<lambda>i. \<lparr>ce_status = FIXED, ce_as = 0, ce_pfn = PAGE_SIZE * i,
                              ce_vfn = PADDR_TO_KVADDR (PAGE_SIZE * i)\<rparr>) [0..<fixed_pages];
            free = map (\<lambda>i. \<lparr>ce_status = FREE, ce_as = 0, ce_pfn = PAGE_SIZE * i, ce_vfn = 0\<rparr>)
                     [fixed_pages..<n] in
        Some (v\<lparr>vm_ram := r, num_pages := n, coremap := fixed @ free, bootstrapped := True\<rparr>))"

text \<open>\<open>curas\<close> is what \<^verbatim>\<open>proc_getas\<close> returns for the calling thread.\<close>

definition coremap_get_pages :: "nat \<Rightarrow> nat \<Rightarrow> vm \<Rightarrow> (vm \<times> nat) option" where
  "coremap_get_pages curas npages v =
     (if npages = 0 then Some (v, 0)
      else if npages = 1 then
        case find (\<lambda>i. ce_status (coremap v ! i) = FREE) [0..<num_pages v] of
          Some i \<Rightarrow>
            let e = coremap v ! i;
                e = e\<lparr>ce_status := DIRTY, ce_as := curas, ce_vfn := PADDR_TO_KVADDR (ce_pfn e)\<rparr> in
            Some (v\<lparr>coremap := (coremap v)[i := e]\<rparr>, ce_pfn e)
        | None \<Rightarrow> Some (v, 0)
      else None)"

definition getppages :: "nat \<Rightarrow> nat \<Rightarrow> vm \<Rightarrow> (vm \<times> nat) option" where
  "getppages curas npages v =
     (if \<not> bootstrapped v then
        let (r, addr) = ram_stealmem npages (vm_ram v) in Some (v\<lparr>vm_ram := r\<rparr>, addr)
      else coremap_get_pages curas npages v)"

definition alloc_kpages :: "nat \<Rightarrow> nat \<Rightarrow> vm \<Rightarrow> (vm \<times> nat) option" where
  "alloc_kpages curas npages v =
     do {
       (v, pa) \<leftarrow> (if \<not> bootstrapped v then getppages curas npages v
                  else coremap_get_pages curas npages v);
       Some (v, PADDR_TO_KVADDR pa)
     }"

definition coremap_find_entry_by_vaddr :: "nat \<Rightarrow> vm \<Rightarrow> nat option" where
  "coremap_find_entry_by_vaddr addr v = find (\<lambda>i. ce_vfn (coremap v ! i) = addr) [0..<num_pages v]"

text \<open>\<^verbatim>\<open>free_kpages\<close> takes \<^verbatim>\<open>coremap_lock\<close> twice, in the search for the entry and again to free it (\<open>free_entry\<close>);
  \<open>free_kpages\<close> is the call when no other one comes between the two.\<close>

definition free_entry :: "nat \<Rightarrow> vm \<Rightarrow> vm" where
  "free_entry i v =
     (let e = (coremap v ! i)\<lparr>ce_status := FREE\<rparr>;
          e = (if ce_as e \<noteq> 0 then e\<lparr>ce_pfn := 0, ce_vfn := 0, ce_as := 0\<rparr> else e) in
      v\<lparr>coremap := (coremap v)[i := e]\<rparr>)"

definition free_kpages :: "nat \<Rightarrow> vm \<Rightarrow> vm" where
  "free_kpages addr v =
     (case coremap_find_entry_by_vaddr addr v of
        None \<Rightarrow> v
      | Some i \<Rightarrow> free_entry i v)"

definition vm_tlbshootdown_all :: "vm \<Rightarrow> vm" where
  "vm_tlbshootdown_all v =
     v\<lparr>tlb := fold (\<lambda>i t. t[i := (TLBHI_INVALID i, TLBLO_INVALID)]) [0..<NUM_TLB] (tlb v)\<rparr>"

definition vm_fault :: "int \<Rightarrow> nat \<Rightarrow> vm \<Rightarrow> vm \<times> int" where
  "vm_fault faulttype faultaddress v = (v, 0)"

section \<open>Address spaces\<close>

record addrspace =
  as_vbase1 :: nat
  as_pbase1 :: nat
  as_npages1 :: nat
  as_vbase2 :: nat
  as_pbase2 :: nat
  as_npages2 :: nat
  as_heapbase :: nat
  as_stackpbase :: nat

definition USERSTACK :: nat where "USERSTACK = 0x80000000"

text \<open>\<open>junk\<close> is what the fresh block holds: \<^verbatim>\<open>as_create\<close> does not set the two physical bases. \<open>mem\<close> is
  whether \<^verbatim>\<open>kmalloc\<close> succeeds.\<close>

definition as_create :: "bool \<Rightarrow> addrspace \<Rightarrow> addrspace option" where
  "as_create mem junk =
     (if \<not> mem then None
      else Some (junk\<lparr>as_vbase1 := 0, as_vbase2 := 0, as_npages1 := 0, as_npages2 := 0,
                      as_heapbase := 0, as_stackpbase := 0\<rparr>))"

definition as_copy :: "bool \<Rightarrow> addrspace \<Rightarrow> addrspace \<Rightarrow> errno + addrspace" where
  "as_copy mem junk old =
     (case as_create mem junk of
        None \<Rightarrow> Inl ENOMEM
      | Some newas \<Rightarrow>
          let newas = newas\<lparr>as_vbase1 := as_vbase1 old, as_vbase2 := as_vbase2 old,
                            as_npages1 := as_npages1 old, as_npages2 := as_npages2 old\<rparr>;
              newas = newas\<lparr>as_heapbase := u32 (as_vbase2 newas + as_npages2 newas * PAGE_SIZE)\<rparr> in
          Inr (newas\<lparr>as_stackpbase := as_heapbase newas\<rparr>))"

definition as_set_heap :: "addrspace \<Rightarrow> addrspace" where
  "as_set_heap as =
     (let as = as\<lparr>as_heapbase := u32 (as_vbase2 as + as_npages2 as * PAGE_SIZE)\<rparr> in
      as\<lparr>as_stackpbase := as_heapbase as\<rparr>)"

definition as_define_region :: "addrspace \<Rightarrow> nat \<Rightarrow> nat \<Rightarrow> addrspace \<times> (errno + unit)" where
  "as_define_region as vaddr sz =
     (let sz = u32 (sz + page_offset vaddr);
          vaddr = page_frame vaddr;
          sz = page_frame (u32 (sz + PAGE_SIZE - 1));
          npages = sz div PAGE_SIZE in
      if as_vbase1 as = 0 then (as_set_heap (as\<lparr>as_vbase1 := vaddr, as_npages1 := npages\<rparr>), Inr ())
      else if as_vbase2 as = 0 then (as_set_heap (as\<lparr>as_vbase2 := vaddr, as_npages2 := npages\<rparr>), Inr ())
      else (as, Inl ENOSYS))"

definition as_prepare_load :: "addrspace \<Rightarrow> addrspace \<times> (errno + unit)" where
  "as_prepare_load as = (as, Inr ())"

definition as_complete_load :: "addrspace \<Rightarrow> addrspace \<times> (errno + unit)" where
  "as_complete_load as = (as, Inr ())"

definition as_define_stack :: "addrspace \<Rightarrow> addrspace \<times> nat" where
  "as_define_stack as = (as, USERSTACK)"

text \<open>The rounding of a region to whole pages: the least run of pages that holds it.\<close>

lemma region_rounding:
  assumes "vaddr + sz + PAGE_SIZE \<le> 2 ^ 32"
  defines "n \<equiv> page_frame (u32 (u32 (sz + page_offset vaddr) + PAGE_SIZE - 1)) div PAGE_SIZE"
  shows "page_frame vaddr \<le> vaddr" "vaddr + sz \<le> page_frame vaddr + n * PAGE_SIZE"
    "page_frame vaddr + n * PAGE_SIZE < vaddr + sz + PAGE_SIZE" "PAGE_SIZE dvd page_frame vaddr"
proof -
  have o: "page_offset vaddr \<le> vaddr" "page_frame vaddr + page_offset vaddr = vaddr"
    by (simp_all add: page_frame_def page_offset_def)
  then have u: "u32 (u32 (sz + page_offset vaddr) + PAGE_SIZE - 1) = sz + page_offset vaddr + PAGE_SIZE - 1"
    using assms(1) by (simp add: PAGE_SIZE_def)
  let ?t = "sz + page_offset vaddr + PAGE_SIZE - 1"
  have n: "n * PAGE_SIZE = ?t - ?t mod PAGE_SIZE"
    unfolding n_def u page_frame_def by (simp add: minus_mod_eq_div_mult)
  have "?t mod PAGE_SIZE < PAGE_SIZE" by (simp add: PAGE_SIZE_def)
  then have "sz + page_offset vaddr \<le> n * PAGE_SIZE" "n * PAGE_SIZE < sz + page_offset vaddr + PAGE_SIZE"
    unfolding n by (simp_all add: PAGE_SIZE_def)
  then show "vaddr + sz \<le> page_frame vaddr + n * PAGE_SIZE" "page_frame vaddr + n * PAGE_SIZE < vaddr + sz + PAGE_SIZE"
    using o by linarith+
  show "page_frame vaddr \<le> vaddr" "PAGE_SIZE dvd page_frame vaddr" by (simp_all add: page_frame_def)
qed

section \<open>What the kernel heap expects of the page allocator\<close>

text \<open>A page of the direct-mapped segment.\<close>

definition kpage :: "nat \<Rightarrow> bool" where
  "kpage va \<longleftrightarrow> PAGE_SIZE dvd va \<and> MIPS_KSEG0 \<le> va \<and> va < MIPS_KSEG1"

text \<open>\<open>n\<close> consecutive pages.\<close>

definition span :: "nat \<Rightarrow> nat \<Rightarrow> nat list" where
  "span p n = map (\<lambda>i. p + i * PAGE_SIZE) [0..<n]"

lemma span_one [simp]: "span p 1 = [p]" "span p (Suc 0) = [p]"
  by (simp_all add: span_def)

lemma distinct_span: "distinct (span p n)"
  by (simp add: span_def distinct_map inj_on_def PAGE_SIZE_def)

lemma in_span: "x \<in> set (span p n) \<longleftrightarrow> (\<exists>i<n. x = p + i * PAGE_SIZE)"
  by (auto simp: span_def)

text \<open>
  A request for at most \<open>most\<close> pages gives 0 or consecutive pages that are not handed out already; a page given
  back may be handed out again, and no other.
\<close>

locale page_source =
  fixes palloc :: "nat \<Rightarrow> 'p \<Rightarrow> ('p \<times> nat) option"
    and pfree :: "nat \<Rightarrow> 'p \<Rightarrow> 'p"
    and most :: nat
    and pok :: "'p \<Rightarrow> bool"
    and roomy :: "'p \<Rightarrow> bool"
    and handed :: "'p \<Rightarrow> nat set"
  assumes most_fits: "1 \<le> most" "most < 2 ^ 20"
    and palloc_pages: "pok p \<Longrightarrow> roomy p \<Longrightarrow> 1 \<le> n \<Longrightarrow> n \<le> most \<Longrightarrow>
      \<exists>p' va. palloc n p = Some (p', va) \<and> pok p' \<and>
        (va = 0 \<and> handed p' = handed p
         \<or> (\<forall>x\<in>set (span va n). kpage x \<and> x \<notin> handed p) \<and> handed p' = set (span va n) \<union> handed p)"
    and pfree_keeps: "pok p \<Longrightarrow> a \<in> handed p \<Longrightarrow>
      pok (pfree a p) \<and> handed (pfree a p) \<subseteq> handed p \<and> handed p - {a} \<subseteq> handed (pfree a p)"

section \<open>The coremap as a source of kernel pages\<close>

definition entry_ok :: "nat \<Rightarrow> coremap_entry \<Rightarrow> bool" where
  "entry_ok i e \<longleftrightarrow> ce_pfn e = PAGE_SIZE * i \<and> ce_as e = 0
     \<and> (ce_vfn e = 0 \<or> ce_vfn e = PADDR_TO_KVADDR (PAGE_SIZE * i))
     \<and> (ce_status e = DIRTY \<longrightarrow> ce_vfn e = PADDR_TO_KVADDR (PAGE_SIZE * i))"

definition cm_ok :: "vm \<Rightarrow> bool" where
  "cm_ok v \<longleftrightarrow> bootstrapped v \<and> length (coremap v) = num_pages v \<and> num_pages v \<le> 2 ^ 17
     \<and> (\<forall>i<num_pages v. entry_ok i (coremap v ! i))"

definition cm_roomy :: "vm \<Rightarrow> bool" where
  "cm_roomy v \<longleftrightarrow> (\<exists>i<num_pages v. ce_status (coremap v ! i) = FREE)"

definition cm_handed :: "vm \<Rightarrow> nat set" where
  "cm_handed v = (\<lambda>i. PADDR_TO_KVADDR (PAGE_SIZE * i)) ` {i. i < num_pages v \<and> ce_status (coremap v ! i) = DIRTY}"

lemma frame_kvaddr: "i < 2 ^ 17 \<Longrightarrow> PADDR_TO_KVADDR (PAGE_SIZE * i) = PAGE_SIZE * i + MIPS_KSEG0"
  by (rule PADDR_TO_KVADDR_low) (simp add: MIPS_KSEG0_def PAGE_SIZE_def)

lemma frame_kvaddr_inj:
  "i < 2 ^ 17 \<Longrightarrow> j < 2 ^ 17 \<Longrightarrow>
   PADDR_TO_KVADDR (PAGE_SIZE * i) = PADDR_TO_KVADDR (PAGE_SIZE * j) \<longleftrightarrow> i = j"
  unfolding frame_kvaddr by (simp add: PAGE_SIZE_def)

lemma frame_kpage: "i < 2 ^ 17 \<Longrightarrow> kpage (PADDR_TO_KVADDR (PAGE_SIZE * i))"
proof -
  assume i: "i < 2 ^ 17"
  have "PAGE_SIZE * i < MIPS_KSEG1 - MIPS_KSEG0"
    using i by (simp add: PAGE_SIZE_def MIPS_KSEG0_def MIPS_KSEG1_def)
  moreover have "PAGE_SIZE dvd MIPS_KSEG0" by (simp add: PAGE_SIZE_def MIPS_KSEG0_def)
  ultimately show ?thesis unfolding frame_kvaddr [OF i] kpage_def by simp
qed

lemma frame_nonzero: "i < 2 ^ 17 \<Longrightarrow> 0 < PADDR_TO_KVADDR (PAGE_SIZE * i)"
  by (simp add: frame_kvaddr MIPS_KSEG0_def)

lemma cm_okD:
  assumes "cm_ok v" "i < num_pages v"
  shows "ce_pfn (coremap v ! i) = PAGE_SIZE * i" "ce_as (coremap v ! i) = 0"
    "ce_vfn (coremap v ! i) = 0 \<or> ce_vfn (coremap v ! i) = PADDR_TO_KVADDR (PAGE_SIZE * i)"
    "ce_status (coremap v ! i) = DIRTY \<Longrightarrow> ce_vfn (coremap v ! i) = PADDR_TO_KVADDR (PAGE_SIZE * i)"
    "i < 2 ^ 17"
  using assms by (auto simp: cm_ok_def entry_ok_def)

lemma frames_inj: "cm_ok v \<Longrightarrow> inj_on (\<lambda>i. PADDR_TO_KVADDR (PAGE_SIZE * i)) {i. i < num_pages v}"
  by (rule inj_onI) (simp only: mem_Collect_eq frame_kvaddr_inj [OF cm_okD(5) cm_okD(5)])

text \<open>The first free frame is what an allocation of one page takes.\<close>

lemma get_one_page:
  assumes "i < num_pages v" "ce_status (coremap v ! i) = FREE" "\<forall>j<i. ce_status (coremap v ! j) \<noteq> FREE"
    "bootstrapped v"
  shows "alloc_kpages curas 1 v =
    Some (v\<lparr>coremap := (coremap v)[i := (coremap v ! i)\<lparr>ce_status := DIRTY, ce_as := curas,
             ce_vfn := PADDR_TO_KVADDR (ce_pfn (coremap v ! i))\<rparr>]\<rparr>,
          PADDR_TO_KVADDR (ce_pfn (coremap v ! i)))"
proof -
  have "find (\<lambda>i. ce_status (coremap v ! i) = FREE) [0..<num_pages v] = Some i"
    using assms by simp
  then show ?thesis
    using assms(4) by (simp add: alloc_kpages_def coremap_get_pages_def Let_def del: find_upt_Some_iff)
qed

lemma get_last_page:
  "\<forall>i<num_pages v. ce_status (coremap v ! i) \<noteq> FREE \<Longrightarrow> bootstrapped v \<Longrightarrow>
   alloc_kpages curas 1 v = Some (v, MIPS_KSEG0)"
proof -
  assume h: "\<forall>i<num_pages v. ce_status (coremap v ! i) \<noteq> FREE" "bootstrapped v"
  then have "find (\<lambda>i. ce_status (coremap v ! i) = FREE) [0..<num_pages v] = None" by simp
  then show ?thesis using h(2)
    by (simp add: alloc_kpages_def coremap_get_pages_def PADDR_TO_KVADDR_def MIPS_KSEG0_def del: find_upt_None_iff)
qed

lemma first_free:
  assumes "cm_roomy v"
  obtains i where "i < num_pages v" "ce_status (coremap v ! i) = FREE" "\<forall>j<i. ce_status (coremap v ! j) \<noteq> FREE"
proof -
  have "\<exists>i. i < num_pages v \<and> ce_status (coremap v ! i) = FREE" using assms by (auto simp: cm_roomy_def)
  then obtain i where "i < num_pages v \<and> ce_status (coremap v ! i) = FREE"
    "\<forall>j<i. \<not> (j < num_pages v \<and> ce_status (coremap v ! j) = FREE)"
    unfolding exists_least_iff [of "\<lambda>i. i < num_pages v \<and> ce_status (coremap v ! i) = FREE"] by metis
  then show thesis by (intro that [of i]) auto
qed

lemma alloc_kpages_fresh:
  assumes ok: "cm_ok v" and room: "cm_roomy v"
  shows "\<exists>v' va. alloc_kpages 0 1 v = Some (v', va) \<and> cm_ok v' \<and> kpage va \<and> va \<notin> cm_handed v
    \<and> cm_handed v' = insert va (cm_handed v)"
proof -
  obtain i where i: "i < num_pages v" "ce_status (coremap v ! i) = FREE"
    "\<forall>j<i. ce_status (coremap v ! j) \<noteq> FREE"
    using first_free [OF room] .
  let ?e = "(coremap v ! i)\<lparr>ce_status := DIRTY, ce_as := 0, ce_vfn := PADDR_TO_KVADDR (PAGE_SIZE * i)\<rparr>"
  let ?v = "v\<lparr>coremap := (coremap v)[i := ?e]\<rparr>"
  have len: "length (coremap v) = num_pages v" using ok by (simp add: cm_ok_def)
  have a: "alloc_kpages 0 1 v = Some (?v, PADDR_TO_KVADDR (PAGE_SIZE * i))"
    using get_one_page [OF i] ok cm_okD(1) [OF ok i(1)] by (simp add: cm_ok_def)
  have "cm_ok ?v"
    using ok i(1) cm_okD(1) [OF ok i(1)] by (auto simp: cm_ok_def entry_ok_def nth_list_update)
  moreover have "PADDR_TO_KVADDR (PAGE_SIZE * i) \<notin> cm_handed v"
    using i(2) cm_okD(5) [OF ok] i(1) by (auto simp: cm_handed_def frame_kvaddr_inj)
  moreover have "{k. k < num_pages ?v \<and> ce_status (coremap ?v ! k) = DIRTY}
      = insert i {k. k < num_pages v \<and> ce_status (coremap v ! k) = DIRTY}"
    using i(1) len by (auto simp: nth_list_update)
  then have "cm_handed ?v = insert (PADDR_TO_KVADDR (PAGE_SIZE * i)) (cm_handed v)"
    by (simp only: cm_handed_def image_insert)
  ultimately show ?thesis using a frame_kpage [OF cm_okD(5) [OF ok i(1)]] by blast
qed

text \<open>The entry found for an address handed out is its own.\<close>

lemma find_handed:
  assumes ok: "cm_ok v" and i: "i < num_pages v" "ce_status (coremap v ! i) = DIRTY"
  shows "coremap_find_entry_by_vaddr (PADDR_TO_KVADDR (PAGE_SIZE * i)) v = Some i"
proof -
  have "ce_vfn (coremap v ! j) \<noteq> PADDR_TO_KVADDR (PAGE_SIZE * i)" if "j < i" for j
    using cm_okD(3) [OF ok, of j] cm_okD(5) [OF ok, of j] that i cm_okD(5) [OF ok i(1)]
      frame_nonzero [OF cm_okD(5) [OF ok i(1)]] by (auto simp: frame_kvaddr_inj)
  then show ?thesis using i cm_okD(4) [OF ok i] by (simp add: coremap_find_entry_by_vaddr_def)
qed

lemma free_kpages_handed:
  assumes ok: "cm_ok v" and a: "a \<in> cm_handed v"
  shows "cm_ok (free_kpages a v) \<and> cm_handed (free_kpages a v) = cm_handed v - {a} \<and> cm_roomy (free_kpages a v)"
proof -
  obtain i where i: "i < num_pages v" "ce_status (coremap v ! i) = DIRTY" "a = PADDR_TO_KVADDR (PAGE_SIZE * i)"
    using a by (auto simp: cm_handed_def)
  let ?v = "v\<lparr>coremap := (coremap v)[i := (coremap v ! i)\<lparr>ce_status := FREE\<rparr>]\<rparr>"
  have len: "length (coremap v) = num_pages v" using ok by (simp add: cm_ok_def)
  have f: "free_kpages a v = ?v"
    using find_handed [OF ok i(1,2)] cm_okD(2) [OF ok i(1)] by (simp add: free_kpages_def free_entry_def i(3))
  have "cm_ok ?v"
    using ok i(1) by (auto simp: cm_ok_def entry_ok_def nth_list_update)
  moreover have "{k. k < num_pages ?v \<and> ce_status (coremap ?v ! k) = DIRTY}
      = {k. k < num_pages v \<and> ce_status (coremap v ! k) = DIRTY} - {i}"
    using i(1) len by (auto simp: nth_list_update)
  then have "cm_handed ?v = cm_handed v - {a}"
    unfolding cm_handed_def i(3)
    using inj_on_image_set_diff [OF frames_inj [OF ok],
        of "{k. k < num_pages v \<and> ce_status (coremap v ! k) = DIRTY}" "{i}"] i(1) by auto
  moreover have "cm_roomy ?v" using i(1) len by (auto simp: cm_roomy_def intro: exI [of _ i])
  ultimately show ?thesis by (simp add: f)
qed

interpretation vmc: page_source "alloc_kpages 0" free_kpages 1 cm_ok cm_roomy cm_handed
proof unfold_locales
  show "\<exists>p' va. alloc_kpages 0 n p = Some (p', va) \<and> cm_ok p' \<and>
      (va = 0 \<and> cm_handed p' = cm_handed p
       \<or> (\<forall>x\<in>set (span va n). kpage x \<and> x \<notin> cm_handed p) \<and> cm_handed p' = set (span va n) \<union> cm_handed p)"
    if "cm_ok p" "cm_roomy p" "1 \<le> n" "n \<le> 1" for p n
  proof -
    have "n = 1" using that(3,4) by simp
    then show ?thesis using alloc_kpages_fresh [OF that(1,2)] by auto
  qed
  show "cm_ok (free_kpages a p) \<and> cm_handed (free_kpages a p) \<subseteq> cm_handed p
      \<and> cm_handed p - {a} \<subseteq> cm_handed (free_kpages a p)"
    if "cm_ok p" "a \<in> cm_handed p" for p a
    using free_kpages_handed [OF that] by auto
qed simp_all

section \<open>Starting the coremap\<close>

text \<open>The number of entries marked \<^verbatim>\<open>FIXED\<close> at the start.\<close>

definition fixed_count :: "vm \<Rightarrow> nat" where
  "fixed_count v =
     (let n = (lastpaddr (vm_ram v) - firstpaddr (vm_ram v)) div PAGE_SIZE in
      n div PAGE_SIZE + (if (firstpaddr (vm_ram v) + n * COREMAP_ENTRY_SIZE) mod PAGE_SIZE \<noteq> 0 then 1 else 0))"

definition ram_ok :: "ram \<Rightarrow> bool" where
  "ram_ok r \<longleftrightarrow> firstpaddr r + PAGE_SIZE \<le> lastpaddr r \<and> lastpaddr r \<le> 2 ^ 29"

lemma vm_bootstrap_entries:
  assumes r: "ram_ok (vm_ram v)" and b: "vm_bootstrap v = Some v'"
  defines "n \<equiv> (lastpaddr (vm_ram v) - firstpaddr (vm_ram v)) div PAGE_SIZE"
  shows "bootstrapped v'" "num_pages v' = n" "n \<le> 2 ^ 17" "length (coremap v') = n" "fixed_count v \<le> n"
    "\<And>i. i < n \<Longrightarrow> coremap v' ! i =
       (if i < fixed_count v
        then \<lparr>ce_status = FIXED, ce_as = 0, ce_pfn = PAGE_SIZE * i, ce_vfn = PADDR_TO_KVADDR (PAGE_SIZE * i)\<rparr>
        else \<lparr>ce_status = FREE, ce_as = 0, ce_pfn = PAGE_SIZE * i, ce_vfn = 0\<rparr>)"
proof -
  let ?f = "firstpaddr (vm_ram v)"
  have l: "?f < 2 ^ 32" "lastpaddr (vm_ram v) < 2 ^ 32" "?f \<le> lastpaddr (vm_ram v)"
    using r by (auto simp: ram_ok_def PAGE_SIZE_def)
  have u: "usub (lastpaddr (vm_ram v)) ?f = lastpaddr (vm_ram v) - ?f" using l by simp
  show n17: "n \<le> 2 ^ 17" using r by (auto simp: n_def ram_ok_def PAGE_SIZE_def)
  have n1: "1 \<le> n" using r by (auto simp: n_def ram_ok_def PAGE_SIZE_def)
  have sm: "?f + n * COREMAP_ENTRY_SIZE < 2 ^ 32" "n * COREMAP_ENTRY_SIZE < 2 ^ 32"
    using n17 r by (auto simp: ram_ok_def COREMAP_ENTRY_SIZE_def PAGE_SIZE_def)
  have eq: "v' = v\<lparr>vm_ram := fst (ram_getfirstfree (vm_ram v)), num_pages := n,
      coremap := map (\<lambda>i. \<lparr>ce_status = FIXED, ce_as = 0, ce_pfn = PAGE_SIZE * i,
                              ce_vfn = PADDR_TO_KVADDR (PAGE_SIZE * i)\<rparr>) [0..<fixed_count v]
        @ map (\<lambda>i. \<lparr>ce_status = FREE, ce_as = 0, ce_pfn = PAGE_SIZE * i, ce_vfn = 0\<rparr>) [fixed_count v..<n],
      bootstrapped := True\<rparr>"
    using b sm unfolding vm_bootstrap_def fixed_count_def ram_getsize_def ram_getfirstfree_def Let_def
      prod.case fst_conv u n_def [symmetric]
    by (auto split: if_splits)
  show fx: "fixed_count v \<le> n"
  proof (cases "n = 1")
    case True
    then show ?thesis unfolding fixed_count_def Let_def n_def [symmetric] by (simp add: PAGE_SIZE_def)
  next
    case False
    then have "n div PAGE_SIZE + 1 \<le> n" using n1 by (simp add: PAGE_SIZE_def)
    then show ?thesis unfolding fixed_count_def Let_def n_def [symmetric] by simp
  qed
  show "bootstrapped v'" "num_pages v' = n" "length (coremap v') = n" using eq fx by simp_all
  show "coremap v' ! i =
       (if i < fixed_count v
        then \<lparr>ce_status = FIXED, ce_as = 0, ce_pfn = PAGE_SIZE * i, ce_vfn = PADDR_TO_KVADDR (PAGE_SIZE * i)\<rparr>
        else \<lparr>ce_status = FREE, ce_as = 0, ce_pfn = PAGE_SIZE * i, ce_vfn = 0\<rparr>)" if "i < n" for i
  proof (cases "i < fixed_count v")
    case True
    then show ?thesis by (simp add: eq nth_append)
  next
    case False
    then have "[fixed_count v..<n] ! (i - fixed_count v) = i" using that by simp
    then show ?thesis using False that by (simp add: eq nth_append)
  qed
qed

lemma vm_bootstrap_cm_ok:
  "ram_ok (vm_ram v) \<Longrightarrow> vm_bootstrap v = Some v' \<Longrightarrow> cm_ok v' \<and> cm_handed v' = {}"
  using vm_bootstrap_entries [of v v'] by (auto simp: cm_ok_def entry_ok_def cm_handed_def)

section \<open>Properties of the coremap and of address spaces\<close>

lemma alloc_after_bootstrap:
  assumes "ram_ok (vm_ram v)" "vm_bootstrap v = Some v'" "fixed_count v < num_pages v'"
  shows "\<exists>w. alloc_kpages curas 1 v' = Some (w, PADDR_TO_KVADDR (PAGE_SIZE * fixed_count v))"
proof -
  note e = vm_bootstrap_entries [OF assms(1,2)]
  have "\<forall>j<fixed_count v. ce_status (coremap v' ! j) \<noteq> FREE" using e(2,6) assms(3) by simp
  moreover have "ce_status (coremap v' ! fixed_count v) = FREE" "ce_pfn (coremap v' ! fixed_count v) = PAGE_SIZE * fixed_count v"
    using e(2,6) assms(3) by simp_all
  ultimately show ?thesis using get_one_page [OF assms(3) _ _ e(1), of curas] by simp
qed

lemma fixed_count_le: "ram_ok (vm_ram v) \<Longrightarrow> fixed_count v \<le> 33"
proof -
  assume "ram_ok (vm_ram v)"
  then have "(lastpaddr (vm_ram v) - firstpaddr (vm_ram v)) div PAGE_SIZE \<le> 2 ^ 17"
    by (auto simp: ram_ok_def PAGE_SIZE_def)
  then have "(lastpaddr (vm_ram v) - firstpaddr (vm_ram v)) div PAGE_SIZE div PAGE_SIZE \<le> 32"
    by (simp add: PAGE_SIZE_def)
  then show ?thesis by (simp add: fixed_count_def Let_def)
qed

text \<open>
  C36. What \<^verbatim>\<open>vm_bootstrap\<close> makes of the page numbers. Frame \<open>i\<close> of the coremap is given the physical
  address \<^verbatim>\<open>PAGE_SIZE * i\<close>, counted from 0 and not from the first free address: on every machine whose
  kernel (with the pages taken before the VM system started) occupies more than 33 pages, the first page
  that \<^verbatim>\<open>alloc_kpages\<close> returns lies in memory that is already in use by the kernel.
\<close>

theorem first_page_overlaps_kernel:
  assumes "ram_ok (vm_ram v)" "vm_bootstrap v = Some v'"
    "33 * PAGE_SIZE < firstpaddr (vm_ram v)" "34 < num_pages v'"
  shows "\<exists>w va. alloc_kpages curas 1 v' = Some (w, va) \<and> MIPS_KSEG0 \<le> va
    \<and> va < PADDR_TO_KVADDR (firstpaddr (vm_ram v))"
proof -
  have f: "fixed_count v \<le> 33" using fixed_count_le [OF assms(1)] .
  have "firstpaddr (vm_ram v) < 2 ^ 29" using assms(1) by (simp add: ram_ok_def PAGE_SIZE_def)
  then have "PADDR_TO_KVADDR (firstpaddr (vm_ram v)) = firstpaddr (vm_ram v) + MIPS_KSEG0"
    by (simp add: PADDR_TO_KVADDR_low MIPS_KSEG0_def)
  moreover have "PADDR_TO_KVADDR (PAGE_SIZE * fixed_count v) = PAGE_SIZE * fixed_count v + MIPS_KSEG0"
    using f by (intro frame_kvaddr) simp
  moreover have "PAGE_SIZE * fixed_count v < firstpaddr (vm_ram v)"
    using f assms(3) by (simp add: PAGE_SIZE_def)
  ultimately show ?thesis using alloc_after_bootstrap [OF assms(1,2), of curas] f assms(4) by auto
qed

definition wit_vm :: "nat \<Rightarrow> vm" where
  "wit_vm n = \<lparr>vm_ram = \<lparr>firstpaddr = 262144, lastpaddr = 262144 + n * 4096\<rparr>, bootstrapped = False,
     num_pages = 0, coremap = [], tlb = replicate 64 (0, 0)\<rparr>"

theorem first_page_overlaps_kernel_witness:
  "\<exists>v v' w va. ram_ok (vm_ram v) \<and> vm_bootstrap v = Some v' \<and> 33 * PAGE_SIZE < firstpaddr (vm_ram v)
     \<and> 34 < num_pages v' \<and> alloc_kpages 0 1 v' = Some (w, va) \<and> va < PADDR_TO_KVADDR (firstpaddr (vm_ram v))"
proof -
  have r: "ram_ok (vm_ram (wit_vm 40))" by (simp add: ram_ok_def wit_vm_def PAGE_SIZE_def)
  have "vm_bootstrap (wit_vm 40) \<noteq> None"
    by (simp add: vm_bootstrap_def wit_vm_def ram_getsize_def ram_getfirstfree_def PAGE_SIZE_def
        COREMAP_ENTRY_SIZE_def usub_def Let_def)
  then obtain v' where v': "vm_bootstrap (wit_vm 40) = Some v'" by blast
  have n: "num_pages v' = 40"
    using vm_bootstrap_entries(2) [OF r v'] by (simp add: wit_vm_def PAGE_SIZE_def)
  have f: "33 * PAGE_SIZE < firstpaddr (vm_ram (wit_vm 40))" by (simp add: wit_vm_def PAGE_SIZE_def)
  show ?thesis
    using first_page_overlaps_kernel [OF r v' f, of 0] n r v' f by auto
qed

text \<open>A free frame that keeps its number is found again by an allocation.\<close>

lemma realloc_first:
  assumes "i < num_pages v" "bootstrapped v" "\<forall>j<i. ce_status (coremap v ! j) \<noteq> FREE"
    "ce_status (coremap v ! i) = FREE" "ce_pfn (coremap v ! i) = 0" "length (coremap v) = num_pages v"
  obtains w where "alloc_kpages curas 1 v = Some (w, MIPS_KSEG0)" "num_pages w = num_pages v" "bootstrapped w"
    "length (coremap w) = num_pages w"
    "\<And>k. k \<noteq> i \<Longrightarrow> coremap w ! k = coremap v ! k" "ce_status (coremap w ! i) = DIRTY"
proof -
  have "PADDR_TO_KVADDR 0 = MIPS_KSEG0" by (simp add: PADDR_TO_KVADDR_def MIPS_KSEG0_def)
  then show thesis
    using get_one_page [OF assms(1,4,3,2), of curas] assms(1,5,6,2)
    by (intro that [of "v\<lparr>coremap := (coremap v)[i := (coremap v ! i)\<lparr>ce_status := DIRTY, ce_as := curas,
             ce_vfn := PADDR_TO_KVADDR (ce_pfn (coremap v ! i))\<rparr>]\<rparr>"]) auto
qed

lemma free_user_frame:
  assumes "i < num_pages v" "length (coremap v) = num_pages v" "ce_vfn (coremap v ! i) = a"
    "\<forall>j<num_pages v. j \<noteq> i \<longrightarrow> ce_vfn (coremap v ! j) \<noteq> a" "ce_as (coremap v ! i) \<noteq> 0"
  shows "free_kpages a v = v\<lparr>coremap := (coremap v)[i := \<lparr>ce_status = FREE, ce_as = 0, ce_pfn = 0, ce_vfn = 0\<rparr>]\<rparr>"
proof -
  have "coremap_find_entry_by_vaddr a v = Some i"
    using assms by (simp add: coremap_find_entry_by_vaddr_def)
  then show ?thesis using assms(5) by (cases "coremap v ! i") (simp add: free_kpages_def free_entry_def Let_def)
qed

lemma cm_vfn_other:
  assumes "cm_ok v" "i < num_pages v" "j < num_pages v" "j \<noteq> i"
  shows "ce_vfn (coremap v ! j) \<noteq> PADDR_TO_KVADDR (PAGE_SIZE * i)"
  using cm_okD(3) [OF assms(1,3)] frame_nonzero [OF cm_okD(5) [OF assms(1,2)]] assms(4)
    frame_kvaddr_inj [OF cm_okD(5) [OF assms(1,2)] cm_okD(5) [OF assms(1,3)]] by auto

text \<open>The coremap after two pages have been handed to a process with an address space.\<close>

definition user_entry :: "nat \<Rightarrow> nat \<Rightarrow> coremap_entry" where
  "user_entry curas i = \<lparr>ce_status = DIRTY, ce_as = curas, ce_pfn = PAGE_SIZE * i, ce_vfn = PADDR_TO_KVADDR (PAGE_SIZE * i)\<rparr>"

lemma two_user_pages:
  assumes ok: "cm_ok v" and i: "i < num_pages v" "ce_status (coremap v ! i) = FREE" "\<forall>k<i. ce_status (coremap v ! k) \<noteq> FREE"
    and j: "i < j" "j < num_pages v" "ce_status (coremap v ! j) = FREE" "\<forall>k<j. k \<noteq> i \<longrightarrow> ce_status (coremap v ! k) \<noteq> FREE"
  shows "alloc_kpages curas 1 v = Some (v\<lparr>coremap := (coremap v)[i := user_entry curas i]\<rparr>, PADDR_TO_KVADDR (PAGE_SIZE * i))"
    "alloc_kpages curas 1 (v\<lparr>coremap := (coremap v)[i := user_entry curas i]\<rparr>)
      = Some (v\<lparr>coremap := (coremap v)[i := user_entry curas i, j := user_entry curas j]\<rparr>, PADDR_TO_KVADDR (PAGE_SIZE * j))"
proof -
  have len: "length (coremap v) = num_pages v" "bootstrapped v" using ok by (simp_all add: cm_ok_def)
  have e: "(coremap v ! k)\<lparr>ce_status := DIRTY, ce_as := curas, ce_vfn := PADDR_TO_KVADDR (PAGE_SIZE * k)\<rparr> = user_entry curas k"
    if "k < num_pages v" for k
    using cm_okD(1) [OF ok that] by (cases "coremap v ! k") (simp add: user_entry_def)
  show "alloc_kpages curas 1 v = Some (v\<lparr>coremap := (coremap v)[i := user_entry curas i]\<rparr>, PADDR_TO_KVADDR (PAGE_SIZE * i))"
    using get_one_page [OF i len(2), of curas] e [OF i(1)] cm_okD(1) [OF ok i(1)] by simp
  let ?w = "v\<lparr>coremap := (coremap v)[i := user_entry curas i]\<rparr>"
  have w: "j < num_pages ?w" "ce_status (coremap ?w ! j) = FREE" "\<forall>k<j. ce_status (coremap ?w ! k) \<noteq> FREE" "bootstrapped ?w"
    "coremap ?w ! j = coremap v ! j"
    using i j len by (auto simp: nth_list_update user_entry_def)
  show "alloc_kpages curas 1 ?w
      = Some (v\<lparr>coremap := (coremap v)[i := user_entry curas i, j := user_entry curas j]\<rparr>, PADDR_TO_KVADDR (PAGE_SIZE * j))"
    using get_one_page [OF w(1-4), of curas] w(5) e [OF j(2)] cm_okD(1) [OF ok j(2)] by simp
qed

definition lost_entry :: coremap_entry where
  "lost_entry = \<lparr>ce_status = FREE, ce_as = 0, ce_pfn = 0, ce_vfn = 0\<rparr>"

lemma free_two_user_pages:
  assumes ok: "cm_ok v" and ij: "i < j" "j < num_pages v" and as: "curas \<noteq> 0"
  shows "free_kpages (PADDR_TO_KVADDR (PAGE_SIZE * j)) (free_kpages (PADDR_TO_KVADDR (PAGE_SIZE * i))
      (v\<lparr>coremap := (coremap v)[i := user_entry curas i, j := user_entry curas j]\<rparr>))
    = v\<lparr>coremap := (coremap v)[i := lost_entry, j := lost_entry]\<rparr>"
proof -
  let ?w = "v\<lparr>coremap := (coremap v)[i := user_entry curas i, j := user_entry curas j]\<rparr>"
  let ?x = "v\<lparr>coremap := (coremap v)[i := lost_entry, j := user_entry curas j]\<rparr>"
  have len: "length (coremap v) = num_pages v" using ok by (simp add: cm_ok_def)
  have i: "i < num_pages v" using ij by simp
  note f = cm_okD(5) [OF ok]
  have "free_kpages (PADDR_TO_KVADDR (PAGE_SIZE * i)) ?w = ?x"
    using ij i as len cm_vfn_other [OF ok i] frame_kvaddr_inj [OF f f, OF i ij(2)]
    by (subst free_user_frame [of i])
       (auto simp: nth_list_update user_entry_def lost_entry_def list_update_swap)
  moreover have "free_kpages (PADDR_TO_KVADDR (PAGE_SIZE * j)) ?x
      = v\<lparr>coremap := (coremap v)[i := lost_entry, j := lost_entry]\<rparr>"
    using ij i as len cm_vfn_other [OF ok ij(2)] frame_nonzero [OF f [OF ij(2)]]
    by (subst free_user_frame [of j])
       (auto simp: nth_list_update user_entry_def lost_entry_def)
  ultimately show ?thesis by simp
qed

text \<open>
  C35. Pages freed by a process with an address space. \<^verbatim>\<open>free_kpages\<close> clears the number of a frame whose
  \<^verbatim>\<open>as\<close> is set: when such a process allocates two pages and frees them, the next two allocations of
  anybody, with nothing freed in between, return the same address, the exception page at the bottom of
  physical memory. The contract of a page allocator holds for callers without an address space only.
\<close>

theorem freed_user_pages_collide:
  assumes ok: "cm_ok v" and as: "curas \<noteq> 0"
    and i: "i < num_pages v" "ce_status (coremap v ! i) = FREE" "\<forall>k<i. ce_status (coremap v ! k) \<noteq> FREE"
    and j: "i < j" "j < num_pages v" "ce_status (coremap v ! j) = FREE"
      "\<forall>k<j. k \<noteq> i \<longrightarrow> ce_status (coremap v ! k) \<noteq> FREE"
  shows "\<exists>v1 v2 a b. alloc_kpages curas 1 v = Some (v1, a) \<and> alloc_kpages curas 1 v1 = Some (v2, b) \<and> a \<noteq> b
    \<and> (\<exists>v3 v4. alloc_kpages c 1 (free_kpages b (free_kpages a v2)) = Some (v3, MIPS_KSEG0)
          \<and> alloc_kpages d 1 v3 = Some (v4, MIPS_KSEG0))"
proof -
  let ?w = "v\<lparr>coremap := (coremap v)[i := lost_entry, j := lost_entry]\<rparr>"
  have len: "length (coremap v) = num_pages v" "bootstrapped v" using ok by (simp_all add: cm_ok_def)
  note two = two_user_pages [OF ok i j, of curas]
  have ne: "PADDR_TO_KVADDR (PAGE_SIZE * i) \<noteq> PADDR_TO_KVADDR (PAGE_SIZE * j)"
    using frame_kvaddr_inj [OF cm_okD(5) [OF ok i(1)] cm_okD(5) [OF ok j(2)]] j(1) by simp
  obtain x where x: "alloc_kpages c 1 ?w = Some (x, MIPS_KSEG0)" "num_pages x = num_pages ?w" "bootstrapped x"
      "length (coremap x) = num_pages x" "\<And>k. k \<noteq> i \<Longrightarrow> coremap x ! k = coremap ?w ! k" "ce_status (coremap x ! i) = DIRTY"
    by (rule realloc_first [of i ?w c]) (use i j len in \<open>auto simp: nth_list_update lost_entry_def\<close>)
  have c: "coremap x ! k = coremap v ! k" if "k \<noteq> i" "k < j" for k using x(5) [OF that(1)] that by simp
  have n: "\<forall>k<j. ce_status (coremap x ! k) \<noteq> FREE"
    using j(4) c x(6) by (metis page_status.distinct(1))
  have e: "coremap x ! j = lost_entry" using x(5) [of j] j len by simp
  obtain y where "alloc_kpages d 1 x = Some (y, MIPS_KSEG0)"
    by (rule realloc_first [of j x d]) (use x n e j in \<open>auto simp: lost_entry_def\<close>)
  then show ?thesis using two ne free_two_user_pages [OF ok j(1,2) as] x(1) by auto
qed

definition wit_cm :: vm where
  "wit_cm = \<lparr>vm_ram = \<lparr>firstpaddr = 0, lastpaddr = 0\<rparr>, bootstrapped = True, num_pages = 3,
     coremap = [\<lparr>ce_status = FIXED, ce_as = 0, ce_pfn = 0, ce_vfn = 0x80000000\<rparr>,
                \<lparr>ce_status = FREE, ce_as = 0, ce_pfn = 4096, ce_vfn = 0\<rparr>,
                \<lparr>ce_status = FREE, ce_as = 0, ce_pfn = 8192, ce_vfn = 0\<rparr>], tlb = []\<rparr>"

lemma wit_cm_ok: "cm_ok wit_cm"
  by (auto simp: cm_ok_def wit_cm_def entry_ok_def less_Suc_eq numeral_3_eq_3 PAGE_SIZE_def
      PADDR_TO_KVADDR_def MIPS_KSEG0_def)

theorem freed_user_pages_collide_witness:
  "\<exists>v1 v2 a b. alloc_kpages 7 1 wit_cm = Some (v1, a) \<and> alloc_kpages 7 1 v1 = Some (v2, b) \<and> a \<noteq> b
    \<and> (\<exists>v3 v4. alloc_kpages 0 1 (free_kpages b (free_kpages a v2)) = Some (v3, MIPS_KSEG0)
          \<and> alloc_kpages 0 1 v3 = Some (v4, MIPS_KSEG0))"
  by (rule freed_user_pages_collide [OF wit_cm_ok, of 7 1 2 0 0])
     (auto simp: wit_cm_def less_Suc_eq numeral_2_eq_2)

end
