(* ===== verification/Dumbvm.thy ===== *)
theory Dumbvm
  imports Vm
begin

text \<open>
  The minimal VM system: \<^verbatim>\<open>kern/arch/mips/vm/dumbvm.c\<close>, the alternative to \<^verbatim>\<open>vm.c\<close> and \<^verbatim>\<open>addrspace.c\<close> in a
  kernel configured with \<^verbatim>\<open>options dumbvm\<close>.

  The state holds the physical memory still available (\<^verbatim>\<open>ram.c\<close>), the contents of physical memory by
  byte, and the TLB of the processor. An address space is the \<^verbatim>\<open>struct addrspace\<close> of that configuration.
  The theorems show that the memory handed out is never handed out twice, that a page fault enters the
  one translation that the address space defines, and that a copied address space reads like the old one.
\<close>

record dumb_as =
  d_vbase1 :: nat
  d_pbase1 :: nat
  d_npages1 :: nat
  d_vbase2 :: nat
  d_pbase2 :: nat
  d_npages2 :: nat
  d_stackpbase :: nat

record dumbvm =
  dv_ram :: ram
  dv_mem :: "nat \<Rightarrow> nat"
  dv_tlb :: "(nat \<times> nat) list"

definition DUMBVM_STACKPAGES :: nat where "DUMBVM_STACKPAGES = 18"

text \<open>The bits \<^verbatim>\<open>TLBLO_VALID\<close> (0x200) and \<^verbatim>\<open>TLBLO_DIRTY\<close> (0x400) of the low word of a TLB entry.\<close>

definition TLBLO_VALID :: nat where "TLBLO_VALID = 9"
definition TLBLO_DIRTY :: nat where "TLBLO_DIRTY = 10"

definition dumb_getppages :: "nat \<Rightarrow> dumbvm \<Rightarrow> dumbvm \<times> nat" where
  "dumb_getppages npages d = (let (r, addr) = ram_stealmem npages (dv_ram d) in (d\<lparr>dv_ram := r\<rparr>, addr))"

definition dumb_alloc_kpages :: "nat \<Rightarrow> dumbvm \<Rightarrow> (dumbvm \<times> nat) option" where
  "dumb_alloc_kpages npages d =
     (let (d, pa) = dumb_getppages npages d in
      if pa = 0 then Some (d, 0) else Some (d, PADDR_TO_KVADDR pa))"

definition dumb_free_kpages :: "nat \<Rightarrow> dumbvm \<Rightarrow> dumbvm" where
  "dumb_free_kpages addr d = d"

definition dumb_vm_tlbshootdown_all :: "dumbvm \<Rightarrow> dumbvm option" where
  "dumb_vm_tlbshootdown_all d = None"

definition dumb_vm_tlbshootdown :: "dumbvm \<Rightarrow> dumbvm option" where
  "dumb_vm_tlbshootdown d = None"

text \<open>The assertions on the address space at the start of a fault.\<close>

definition dumb_as_ready :: "dumb_as \<Rightarrow> bool" where
  "dumb_as_ready as \<longleftrightarrow>
     d_vbase1 as \<noteq> 0 \<and> d_pbase1 as \<noteq> 0 \<and> d_npages1 as \<noteq> 0
     \<and> d_vbase2 as \<noteq> 0 \<and> d_pbase2 as \<noteq> 0 \<and> d_npages2 as \<noteq> 0 \<and> d_stackpbase as \<noteq> 0
     \<and> page_frame (d_vbase1 as) = d_vbase1 as \<and> page_frame (d_pbase1 as) = d_pbase1 as
     \<and> page_frame (d_vbase2 as) = d_vbase2 as \<and> page_frame (d_pbase2 as) = d_pbase2 as
     \<and> page_frame (d_stackpbase as) = d_stackpbase as"

text \<open>The choice of the region: the physical address of a page of user space.\<close>

definition dumb_translate :: "dumb_as \<Rightarrow> nat \<Rightarrow> nat option" where
  "dumb_translate as faultaddress =
     (let vbase1 = d_vbase1 as; vtop1 = u32 (vbase1 + d_npages1 as * PAGE_SIZE);
          vbase2 = d_vbase2 as; vtop2 = u32 (vbase2 + d_npages2 as * PAGE_SIZE);
          stackbase = USERSTACK - DUMBVM_STACKPAGES * PAGE_SIZE; stacktop = USERSTACK in
      if faultaddress \<ge> vbase1 \<and> faultaddress < vtop1 then Some (u32 (faultaddress - vbase1 + d_pbase1 as))
      else if faultaddress \<ge> vbase2 \<and> faultaddress < vtop2 then Some (u32 (faultaddress - vbase2 + d_pbase2 as))
      else if faultaddress \<ge> stackbase \<and> faultaddress < stacktop
           then Some (u32 (faultaddress - stackbase + d_stackpbase as))
      else None)"

text \<open>\<open>curproc\<close> is whether the thread has a process and \<open>as\<close> the address space of that process, if any.\<close>

datatype faulttype = VM_FAULT_READ | VM_FAULT_WRITE | VM_FAULT_READONLY | VM_FAULT_OTHER

definition dumb_vm_fault :: "bool \<Rightarrow> dumb_as option \<Rightarrow> faulttype \<Rightarrow> nat \<Rightarrow> dumbvm \<Rightarrow> (dumbvm \<times> (errno + unit)) option" where
  "dumb_vm_fault curproc as faulttype faultaddress d =
     (let faultaddress = page_frame faultaddress in
      if faulttype = VM_FAULT_READONLY then None
      else if faulttype = VM_FAULT_OTHER then Some (d, Inl EINVAL)
      else if \<not> curproc then Some (d, Inl EFAULT)
      else case as of
        None \<Rightarrow> Some (d, Inl EFAULT)
      | Some as \<Rightarrow>
          do {
            kassert (dumb_as_ready as);
            case dumb_translate as faultaddress of
              None \<Rightarrow> Some (d, Inl EFAULT)
            | Some paddr \<Rightarrow>
                do {
                  kassert (page_frame paddr = paddr);
                  case find (\<lambda>i. \<not> bit (snd (dv_tlb d ! i)) TLBLO_VALID) [0..<NUM_TLB] of
                    Some i \<Rightarrow>
                      let elo = set_bit TLBLO_VALID (set_bit TLBLO_DIRTY paddr) in
                      Some (d\<lparr>dv_tlb := (dv_tlb d)[i := (faultaddress, elo)]\<rparr>, Inr ())
                  | None \<Rightarrow> Some (d, Inl EFAULT)
                }
          })"

definition dumb_as_create :: "bool \<Rightarrow> dumb_as option" where
  "dumb_as_create mem =
     (if \<not> mem then None
      else Some \<lparr>d_vbase1 = 0, d_pbase1 = 0, d_npages1 = 0, d_vbase2 = 0, d_pbase2 = 0, d_npages2 = 0,
                 d_stackpbase = 0\<rparr>)"

definition dumb_as_activate :: "dumb_as option \<Rightarrow> dumbvm \<Rightarrow> dumbvm" where
  "dumb_as_activate as d =
     (case as of
        None \<Rightarrow> d
      | Some as \<Rightarrow>
          d\<lparr>dv_tlb := fold (\<lambda>i t. t[i := (TLBHI_INVALID i, TLBLO_INVALID)]) [0..<NUM_TLB] (dv_tlb d)\<rparr>)"

definition dumb_as_define_region :: "dumb_as \<Rightarrow> nat \<Rightarrow> nat \<Rightarrow> dumb_as \<times> (errno + unit)" where
  "dumb_as_define_region as vaddr sz =
     (let sz = u32 (sz + page_offset vaddr);
          vaddr = page_frame vaddr;
          sz = page_frame (u32 (sz + PAGE_SIZE - 1));
          npages = sz div PAGE_SIZE in
      if d_vbase1 as = 0 then (as\<lparr>d_vbase1 := vaddr, d_npages1 := npages\<rparr>, Inr ())
      else if d_vbase2 as = 0 then (as\<lparr>d_vbase2 := vaddr, d_npages2 := npages\<rparr>, Inr ())
      else (as, Inl ENOSYS))"

definition as_zero_region :: "nat \<Rightarrow> nat \<Rightarrow> dumbvm \<Rightarrow> dumbvm" where
  "as_zero_region paddr npages d =
     d\<lparr>dv_mem := \<lambda>a. if paddr \<le> a \<and> a < paddr + u32 (npages * PAGE_SIZE) then 0 else dv_mem d a\<rparr>"

definition dumb_as_prepare_load :: "dumb_as \<Rightarrow> dumbvm \<Rightarrow> (dumbvm \<times> dumb_as \<times> (errno + unit)) option" where
  "dumb_as_prepare_load as d =
     do {
       kassert (d_pbase1 as = 0);
       kassert (d_pbase2 as = 0);
       kassert (d_stackpbase as = 0);
       let (d, p) = dumb_getppages (d_npages1 as) d;
       let as = as\<lparr>d_pbase1 := p\<rparr>;
       if d_pbase1 as = 0 then Some (d, as, Inl ENOMEM)
       else do {
         let (d, p) = dumb_getppages (d_npages2 as) d;
         let as = as\<lparr>d_pbase2 := p\<rparr>;
         if d_pbase2 as = 0 then Some (d, as, Inl ENOMEM)
         else do {
           let (d, p) = dumb_getppages DUMBVM_STACKPAGES d;
           let as = as\<lparr>d_stackpbase := p\<rparr>;
           if d_stackpbase as = 0 then Some (d, as, Inl ENOMEM)
           else
             let d = as_zero_region (d_pbase1 as) (d_npages1 as) d;
                 d = as_zero_region (d_pbase2 as) (d_npages2 as) d;
                 d = as_zero_region (d_stackpbase as) DUMBVM_STACKPAGES d in
             Some (d, as, Inr ())
         }
       }
     }"

definition dumb_as_complete_load :: "dumb_as \<Rightarrow> dumb_as \<times> (errno + unit)" where
  "dumb_as_complete_load as = (as, Inr ())"

definition dumb_as_define_stack :: "dumb_as \<Rightarrow> nat option" where
  "dumb_as_define_stack as = do { kassert (d_stackpbase as \<noteq> 0); Some USERSTACK }"

text \<open>\<^verbatim>\<open>memmove\<close> between physical addresses.\<close>

definition pmem_move :: "nat \<Rightarrow> nat \<Rightarrow> nat \<Rightarrow> dumbvm \<Rightarrow> dumbvm" where
  "pmem_move dst src len d =
     d\<lparr>dv_mem := \<lambda>a. if dst \<le> a \<and> a < dst + len then dv_mem d (src + (a - dst)) else dv_mem d a\<rparr>"

definition dumb_as_copy :: "bool \<Rightarrow> dumb_as \<Rightarrow> dumbvm \<Rightarrow> (dumbvm \<times> (errno + dumb_as)) option" where
  "dumb_as_copy mem old d =
     (case dumb_as_create mem of
        None \<Rightarrow> Some (d, Inl ENOMEM)
      | Some new \<Rightarrow>
          let new = new\<lparr>d_vbase1 := d_vbase1 old, d_npages1 := d_npages1 old,
                        d_vbase2 := d_vbase2 old, d_npages2 := d_npages2 old\<rparr> in
          do {
            (d, new, e) \<leftarrow> dumb_as_prepare_load new d;
            case e of
              Inl _ \<Rightarrow> Some (d, Inl ENOMEM)
            | Inr _ \<Rightarrow>
                do {
                  kassert (d_pbase1 new \<noteq> 0);
                  kassert (d_pbase2 new \<noteq> 0);
                  kassert (d_stackpbase new \<noteq> 0);
                  let d = pmem_move (d_pbase1 new) (d_pbase1 old) (u32 (d_npages1 old * PAGE_SIZE)) d;
                  let d = pmem_move (d_pbase2 new) (d_pbase2 old) (u32 (d_npages2 old * PAGE_SIZE)) d;
                  let d = pmem_move (d_stackpbase new) (d_stackpbase old) (DUMBVM_STACKPAGES * PAGE_SIZE) d;
                  Some (d, Inr new)
                }
          })"

section \<open>Memory is handed out once\<close>

definition dram_ok :: "ram \<Rightarrow> bool" where
  "dram_ok r \<longleftrightarrow> 0 < firstpaddr r \<and> PAGE_SIZE dvd firstpaddr r \<and> firstpaddr r \<le> lastpaddr r \<and> lastpaddr r \<le> 2 ^ 29"

text \<open>Requests for which the size in bytes does not wrap around.\<close>

definition small_request :: "nat \<Rightarrow> bool" where
  "small_request n \<longleftrightarrow> n < 2 ^ 19"

lemma small_request_bytes: "small_request n \<Longrightarrow> n * PAGE_SIZE < 2 ^ 31" "small_request n \<Longrightarrow> u32 (n * PAGE_SIZE) = n * PAGE_SIZE"
  by (simp_all add: small_request_def PAGE_SIZE_def)

lemma small_request_stack [simp]: "small_request DUMBVM_STACKPAGES"
  by (simp add: small_request_def DUMBVM_STACKPAGES_def)

lemma ram_stealmem_small:
  assumes "dram_ok r" "small_request n"
  shows "ram_stealmem n r = (if firstpaddr r + n * PAGE_SIZE \<le> lastpaddr r
    then (r\<lparr>firstpaddr := firstpaddr r + n * PAGE_SIZE\<rparr>, firstpaddr r) else (r, 0))"
proof -
  have "firstpaddr r + n * PAGE_SIZE < 2 ^ 32"
    using assms(1) small_request_bytes(1) [OF assms(2)] by (auto simp: dram_ok_def)
  then show ?thesis
    using small_request_bytes(2) [OF assms(2)] by (simp add: ram_stealmem_def Let_def)
qed

text \<open>One request for physical pages: refused, or the next pages of memory.\<close>

lemma dumb_getppages_cases:
  assumes "dram_ok (dv_ram d)" "small_request n"
  obtains "dumb_getppages n d = (d, 0)"
  | "dumb_getppages n d = (d\<lparr>dv_ram := (dv_ram d)\<lparr>firstpaddr := firstpaddr (dv_ram d) + n * PAGE_SIZE\<rparr>\<rparr>,
                          firstpaddr (dv_ram d))"
    "0 < firstpaddr (dv_ram d)" "firstpaddr (dv_ram d) + n * PAGE_SIZE \<le> lastpaddr (dv_ram d)"
    "dram_ok ((dv_ram d)\<lparr>firstpaddr := firstpaddr (dv_ram d) + n * PAGE_SIZE\<rparr>)"
proof (cases "firstpaddr (dv_ram d) + n * PAGE_SIZE \<le> lastpaddr (dv_ram d)")
  case True
  then show thesis
    using that(2) assms ram_stealmem_small [OF assms] by (simp add: dumb_getppages_def dram_ok_def)
next
  case False
  then show thesis using that(1) ram_stealmem_small [OF assms] by (simp add: dumb_getppages_def)
qed

text \<open>The contract of the kernel heap: the pages handed out since the free memory started at \<open>f0\<close>.\<close>

definition dumb_pok :: "nat \<Rightarrow> dumbvm \<Rightarrow> bool" where
  "dumb_pok f0 d \<longleftrightarrow> dram_ok (dv_ram d) \<and> f0 \<le> firstpaddr (dv_ram d)"

definition dumb_handed :: "nat \<Rightarrow> dumbvm \<Rightarrow> nat set" where
  "dumb_handed f0 d = {va. kpage va \<and> f0 + MIPS_KSEG0 \<le> va \<and> va < firstpaddr (dv_ram d) + MIPS_KSEG0}"

definition dumb_most :: nat where "dumb_most = 2 ^ 19 - 1"

lemma dumb_kvaddr: "dram_ok r \<Longrightarrow> PADDR_TO_KVADDR (firstpaddr r) = firstpaddr r + MIPS_KSEG0"
  by (rule PADDR_TO_KVADDR_low) (simp add: dram_ok_def MIPS_KSEG0_def)

lemma aligned_in_span:
  assumes "PAGE_SIZE dvd b" "PAGE_SIZE dvd x"
  shows "x \<in> set (span b n) \<longleftrightarrow> b \<le> x \<and> x < b + n * PAGE_SIZE"
proof -
  obtain i j where ij: "b = i * PAGE_SIZE" "x = j * PAGE_SIZE" using assms by (metis dvd_def mult.commute)
  have "x \<in> set (span b n) \<longleftrightarrow> (\<exists>k<n. j * PAGE_SIZE = (i + k) * PAGE_SIZE)" by (simp add: in_span ij add_mult_distrib)
  also have "\<dots> \<longleftrightarrow> (\<exists>k<n. j = i + k)" by (simp only: mult_cancel2) (simp add: PAGE_SIZE_def)
  also have "\<dots> \<longleftrightarrow> i \<le> j \<and> j < i + n" by (metis add_less_cancel_left le_add1 le_add_diff_inverse)
  also have "\<dots> \<longleftrightarrow> b \<le> x \<and> x < b + n * PAGE_SIZE" by (simp add: ij PAGE_SIZE_def) linarith
  finally show ?thesis .
qed

lemma dumb_next_pages:
  assumes "dram_ok r" "firstpaddr r + n * PAGE_SIZE \<le> lastpaddr r"
  shows "PAGE_SIZE dvd firstpaddr r + MIPS_KSEG0"
    "x \<in> set (span (firstpaddr r + MIPS_KSEG0) n) \<Longrightarrow> kpage x"
proof -
  have d: "PAGE_SIZE dvd MIPS_KSEG0" "MIPS_KSEG0 + 2 ^ 29 = MIPS_KSEG1" by (simp_all add: PAGE_SIZE_def MIPS_KSEG0_def MIPS_KSEG1_def)
  show al: "PAGE_SIZE dvd firstpaddr r + MIPS_KSEG0" using assms(1) d(1) by (simp add: dram_ok_def)
  assume x: "x \<in> set (span (firstpaddr r + MIPS_KSEG0) n)"
  then have "PAGE_SIZE dvd x" using al by (auto simp: in_span)
  moreover have "firstpaddr r + MIPS_KSEG0 \<le> x \<and> x < firstpaddr r + MIPS_KSEG0 + n * PAGE_SIZE"
    using x aligned_in_span [OF al calculation] by blast
  ultimately show "kpage x" using assms d(2) unfolding kpage_def dram_ok_def by linarith
qed

interpretation dumb: page_source dumb_alloc_kpages dumb_free_kpages dumb_most "dumb_pok f0" "\<lambda>_. True" "dumb_handed f0" for f0
proof unfold_locales
  fix p :: dumbvm and n :: nat
  assume "dumb_pok f0 p" "1 \<le> n" "n \<le> dumb_most"
  then have ok: "dram_ok (dv_ram p)" and f0: "f0 \<le> firstpaddr (dv_ram p)" and sm: "small_request n"
    by (simp_all add: dumb_pok_def small_request_def dumb_most_def)
  let ?f = "firstpaddr (dv_ram p) + MIPS_KSEG0"
  show "\<exists>p' va. dumb_alloc_kpages n p = Some (p', va) \<and> dumb_pok f0 p' \<and>
      (va = 0 \<and> dumb_handed f0 p' = dumb_handed f0 p
       \<or> (\<forall>x\<in>set (span va n). kpage x \<and> x \<notin> dumb_handed f0 p) \<and> dumb_handed f0 p' = set (span va n) \<union> dumb_handed f0 p)"
  proof (cases rule: dumb_getppages_cases [OF ok sm])
    case 1
    then show ?thesis using ok f0 by (simp add: dumb_alloc_kpages_def dumb_pok_def)
  next
    case 2
    let ?d = "p\<lparr>dv_ram := (dv_ram p)\<lparr>firstpaddr := firstpaddr (dv_ram p) + n * PAGE_SIZE\<rparr>\<rparr>"
    note np = dumb_next_pages [OF ok 2(3)]
    have sp: "kpage x \<and> ?f \<le> x \<and> x < ?f + n * PAGE_SIZE" if "x \<in> set (span ?f n)" for x
      using np(2) [OF that] aligned_in_span [OF np(1), of x n] that by (simp add: kpage_def)
    have in_sp: "x \<in> set (span ?f n)" if "kpage x" "?f \<le> x" "x < ?f + n * PAGE_SIZE" for x
      using aligned_in_span [OF np(1), of x n] that by (simp add: kpage_def)
    have "dumb_handed f0 ?d = set (span ?f n) \<union> dumb_handed f0 p"
    proof
      show "dumb_handed f0 ?d \<subseteq> set (span ?f n) \<union> dumb_handed f0 p"
      proof
        fix x
        assume "x \<in> dumb_handed f0 ?d"
        then have "kpage x" "f0 + MIPS_KSEG0 \<le> x" "x < ?f + n * PAGE_SIZE" by (simp_all add: dumb_handed_def)
        then show "x \<in> set (span ?f n) \<union> dumb_handed f0 p" using in_sp [of x] by (cases "?f \<le> x") (simp_all add: dumb_handed_def)
      qed
      show "set (span ?f n) \<union> dumb_handed f0 p \<subseteq> dumb_handed f0 ?d" using sp f0 by (fastforce simp: dumb_handed_def)
    qed
    moreover have "x \<notin> dumb_handed f0 p" if "x \<in> set (span ?f n)" for x using sp [OF that] by (simp add: dumb_handed_def)
    moreover have "dumb_alloc_kpages n p = Some (?d, ?f)" using 2(1,2) dumb_kvaddr [OF ok] by (simp add: dumb_alloc_kpages_def)
    moreover have "dumb_pok f0 ?d" using 2(4) f0 by (simp add: dumb_pok_def)
    ultimately show ?thesis using np(2) by blast
  qed
next
  show "dumb_pok f0 (dumb_free_kpages a p) \<and> dumb_handed f0 (dumb_free_kpages a p) \<subseteq> dumb_handed f0 p
      \<and> dumb_handed f0 p - {a} \<subseteq> dumb_handed f0 (dumb_free_kpages a p)"
    if "dumb_pok f0 p" "a \<in> dumb_handed f0 p" for p a
    using that by (auto simp: dumb_free_kpages_def)
qed (simp_all add: dumb_most_def)

section \<open>Loading an address space\<close>

abbreviation as_fresh :: "dumb_as \<Rightarrow> bool" where
  "as_fresh as \<equiv> d_pbase1 as = 0 \<and> d_pbase2 as = 0 \<and> d_stackpbase as = 0"

abbreviation as_small :: "dumb_as \<Rightarrow> bool" where
  "as_small as \<equiv> small_request (d_npages1 as) \<and> small_request (d_npages2 as)"

text \<open>The three pieces of an address space, as physical address and length.\<close>

definition as_extents :: "dumb_as \<Rightarrow> (nat \<times> nat) list" where
  "as_extents as = [(d_pbase1 as, d_npages1 as * PAGE_SIZE), (d_pbase2 as, d_npages2 as * PAGE_SIZE),
     (d_stackpbase as, DUMBVM_STACKPAGES * PAGE_SIZE)]"

lemma as_zero_region_frame [simp]:
  "dv_ram (as_zero_region p n d) = dv_ram d" "dv_tlb (as_zero_region p n d) = dv_tlb d"
  by (simp_all add: as_zero_region_def)

text \<open>What \<^verbatim>\<open>as_prepare_load\<close> does: it runs out of memory, or it takes the next pages of memory for the two
  regions and the stack, in this order, and clears them.\<close>

lemma prepare_load_spec:
  assumes ok: "dram_ok (dv_ram d)" and sm: "as_small as" and fr: "as_fresh as"
  obtains (nomem) d' as' where "dumb_as_prepare_load as d = Some (d', as', Inl ENOMEM)" "dram_ok (dv_ram d')"
      "firstpaddr (dv_ram d) \<le> firstpaddr (dv_ram d')" "lastpaddr (dv_ram d') = lastpaddr (dv_ram d)"
      "dv_mem d' = dv_mem d" "dv_tlb d' = dv_tlb d"
  | (loaded) d' f where "f = firstpaddr (dv_ram d)" "0 < f"
      "dumb_as_prepare_load as d = Some (d', as\<lparr>d_pbase1 := f, d_pbase2 := f + d_npages1 as * PAGE_SIZE,
         d_stackpbase := f + d_npages1 as * PAGE_SIZE + d_npages2 as * PAGE_SIZE\<rparr>, Inr ())"
      "dram_ok (dv_ram d')"
      "firstpaddr (dv_ram d') = f + d_npages1 as * PAGE_SIZE + d_npages2 as * PAGE_SIZE + DUMBVM_STACKPAGES * PAGE_SIZE"
      "lastpaddr (dv_ram d') = lastpaddr (dv_ram d)"
      "dv_mem d' = (\<lambda>a. if f \<le> a \<and> a < firstpaddr (dv_ram d') then 0 else dv_mem d a)" "dv_tlb d' = dv_tlb d"
proof -
  let ?f = "firstpaddr (dv_ram d)" and ?b1 = "d_npages1 as * PAGE_SIZE" and ?b2 = "d_npages2 as * PAGE_SIZE"
  let ?d1 = "d\<lparr>dv_ram := (dv_ram d)\<lparr>firstpaddr := ?f + ?b1\<rparr>\<rparr>"
  let ?d2 = "d\<lparr>dv_ram := (dv_ram d)\<lparr>firstpaddr := ?f + ?b1 + ?b2\<rparr>\<rparr>"
  have s1: "small_request (d_npages1 as)" and s2: "small_request (d_npages2 as)" using sm by simp_all
  note sb = small_request_bytes(2) [OF s1] small_request_bytes(2) [OF s2]
  show thesis
  proof (cases rule: dumb_getppages_cases [OF ok s1])
    case 1
    then show thesis using fr ok by (intro nomem [of d]) (simp_all add: dumb_as_prepare_load_def)
  next
    case a: 2
    have ok1: "dram_ok (dv_ram ?d1)" using a(4) by simp
    show thesis
    proof (cases rule: dumb_getppages_cases [OF ok1 s2])
      case 1
      then show thesis using fr a by (intro nomem [of ?d1]) (simp_all add: dumb_as_prepare_load_def)
    next
      case b: 2
      have ok2: "dram_ok (dv_ram ?d2)" using b(4) by (simp add: add.assoc)
      show thesis
      proof (cases rule: dumb_getppages_cases [OF ok2 small_request_stack])
        case 1
        then show thesis using fr a b by (intro nomem [of ?d2]) (simp_all add: dumb_as_prepare_load_def)
      next
        case c: 2
        have st: "u32 (DUMBVM_STACKPAGES * PAGE_SIZE) = DUMBVM_STACKPAGES * PAGE_SIZE"
          by (rule small_request_bytes(2)) simp
        let ?d3 = "as_zero_region (?f + ?b1 + ?b2) DUMBVM_STACKPAGES (as_zero_region (?f + ?b1) (d_npages2 as)
          (as_zero_region ?f (d_npages1 as)
            (d\<lparr>dv_ram := (dv_ram d)\<lparr>firstpaddr := ?f + ?b1 + ?b2 + DUMBVM_STACKPAGES * PAGE_SIZE\<rparr>\<rparr>)))"
        have "dv_mem ?d3 = (\<lambda>x. if ?f \<le> x \<and> x < ?f + ?b1 + ?b2 + DUMBVM_STACKPAGES * PAGE_SIZE then 0 else dv_mem d x)"
          unfolding as_zero_region_def sb st by (auto simp: fun_eq_iff)
        then show thesis
          using fr a b c sb st
          by (intro loaded [of ?f ?d3]) (simp_all add: dumb_as_prepare_load_def Let_def as_zero_region_frame)
      qed
    qed
  qed
qed

section \<open>Properties\<close>

text \<open>Pieces in ascending order between two bounds.\<close>

definition ascending :: "nat \<Rightarrow> (nat \<times> nat) list \<Rightarrow> nat \<Rightarrow> bool" where
  "ascending lo es hi \<longleftrightarrow> sorted_wrt (\<lambda>(p, n) (q, m). p + n \<le> q) es \<and> (\<forall>(p, n)\<in>set es. lo \<le> p \<and> p + n \<le> hi)"

lemma ascending_Nil [simp]: "ascending lo [] hi"
  by (simp add: ascending_def)

lemma ascending_lower: "ascending lo es hi \<Longrightarrow> lo' \<le> lo \<Longrightarrow> ascending lo' es hi"
  by (fastforce simp: ascending_def)

lemma ascending_Cons: "ascending (p + n) es hi \<Longrightarrow> p + n \<le> hi \<Longrightarrow> ascending p ((p, n) # es) hi"
  by (fastforce simp: ascending_def)

definition wit_dumb :: dumbvm where
  "wit_dumb = \<lparr>dv_ram = \<lparr>firstpaddr = 4096, lastpaddr = 262144\<rparr>, dv_mem = (\<lambda>_. 0), dv_tlb = replicate 64 (0, 0)\<rparr>"

definition wit_as :: dumb_as where
  "wit_as = \<lparr>d_vbase1 = 0x400000, d_pbase1 = 0, d_npages1 = 2, d_vbase2 = 0x10000000, d_pbase2 = 0, d_npages2 = 1,
     d_stackpbase = 0\<rparr>"

lemma wit_dumb_ok: "dram_ok (dv_ram wit_dumb)"
  by (simp add: dram_ok_def wit_dumb_def PAGE_SIZE_def)

text \<open>An address space whose memory lies below the free memory: what \<^verbatim>\<open>as_prepare_load\<close> leaves.\<close>

definition as_below :: "dumb_as \<Rightarrow> nat \<Rightarrow> bool" where
  "as_below as f \<longleftrightarrow> (\<forall>(p, n)\<in>set (as_extents as). p + n \<le> f)"

text \<open>No region reaches the end of the 32-bit space.\<close>

definition as_nowrap :: "dumb_as \<Rightarrow> bool" where
  "as_nowrap as \<longleftrightarrow> d_vbase1 as + d_npages1 as * PAGE_SIZE < 2 ^ 32 \<and> d_vbase2 as + d_npages2 as * PAGE_SIZE < 2 ^ 32"

lemma u32_offset: "b \<le> va \<Longrightarrow> va < b + n \<Longrightarrow> p + n < 2 ^ 32 \<Longrightarrow> u32 (va - b + p) = va - b + (p :: nat)"
  by (rule mod_less) linarith

lemma dumb_translate_nowrap:
  assumes "as_nowrap as" "as_below as f" "f \<le> 2 ^ 29"
  shows "dumb_translate as va =
    (if d_vbase1 as \<le> va \<and> va < d_vbase1 as + d_npages1 as * PAGE_SIZE then Some (va - d_vbase1 as + d_pbase1 as)
     else if d_vbase2 as \<le> va \<and> va < d_vbase2 as + d_npages2 as * PAGE_SIZE then Some (va - d_vbase2 as + d_pbase2 as)
     else if USERSTACK - DUMBVM_STACKPAGES * PAGE_SIZE \<le> va \<and> va < USERSTACK
          then Some (va - (USERSTACK - DUMBVM_STACKPAGES * PAGE_SIZE) + d_stackpbase as)
     else None)"
proof -
  have st: "USERSTACK = (USERSTACK - DUMBVM_STACKPAGES * PAGE_SIZE) + DUMBVM_STACKPAGES * PAGE_SIZE"
    by (simp add: USERSTACK_def DUMBVM_STACKPAGES_def PAGE_SIZE_def)
  have pb: "d_pbase1 as + d_npages1 as * PAGE_SIZE < 2 ^ 32" "d_pbase2 as + d_npages2 as * PAGE_SIZE < 2 ^ 32"
    "d_stackpbase as + DUMBVM_STACKPAGES * PAGE_SIZE < 2 ^ 32"
    using assms(2,3) by (auto simp: as_below_def as_extents_def)
  have w: "u32 (d_vbase1 as + d_npages1 as * PAGE_SIZE) = d_vbase1 as + d_npages1 as * PAGE_SIZE"
    "u32 (d_vbase2 as + d_npages2 as * PAGE_SIZE) = d_vbase2 as + d_npages2 as * PAGE_SIZE"
    using assms(1) by (simp_all add: as_nowrap_def)
  show ?thesis unfolding dumb_translate_def Let_def w
    using u32_offset [OF _ _ pb(1)] u32_offset [OF _ _ pb(2)] u32_offset [OF _ _ pb(3)] st
    by (intro if_cong refl) (simp_all only: option.inject; metis)+
qed

text \<open>Three moves to adjacent places above everything they read.\<close>

lemma three_moves:
  assumes "s1 + n1 \<le> f" "s2 + n2 \<le> f" "s3 + n3 \<le> f"
  shows "dv_mem (pmem_move (f + n1 + n2) s3 n3 (pmem_move (f + n1) s2 n2 (pmem_move f s1 n1 d)))
    = (\<lambda>a. if a < f then dv_mem d a
            else if a < f + n1 then dv_mem d (s1 + (a - f))
            else if a < f + n1 + n2 then dv_mem d (s2 + (a - (f + n1)))
            else if a < f + n1 + n2 + n3 then dv_mem d (s3 + (a - (f + n1 + n2))) else dv_mem d a)"
  using assms by (auto simp: pmem_move_def fun_eq_iff)

lemma pmem_move_frame [simp]: "dv_ram (pmem_move p q n d) = dv_ram d"
  by (simp add: pmem_move_def)

text \<open>The result of a copy: out of memory with nothing written below the free memory, or the new address
  space with the contents of the old one.\<close>

lemma dumb_as_copy_spec:
  assumes ok: "dram_ok (dv_ram d)" and sm: "as_small old" and below: "as_below old (firstpaddr (dv_ram d))"
  defines "f \<equiv> firstpaddr (dv_ram d)"
    and "n1 \<equiv> d_npages1 old * PAGE_SIZE" and "n2 \<equiv> d_npages2 old * PAGE_SIZE"
    and "n3 \<equiv> DUMBVM_STACKPAGES * PAGE_SIZE"
  obtains (nomem) d' where "dumb_as_copy mem old d = Some (d', Inl ENOMEM)" "dv_mem d' = dv_mem d"
      "dram_ok (dv_ram d')" "f \<le> firstpaddr (dv_ram d')" "lastpaddr (dv_ram d') = lastpaddr (dv_ram d)"
  | (copied) d' where "dumb_as_copy mem old d = Some (d', Inr (old\<lparr>d_pbase1 := f, d_pbase2 := f + n1, d_stackpbase := f + n1 + n2\<rparr>))"
      "firstpaddr (dv_ram d') = f + n1 + n2 + n3" "f + n1 + n2 + n3 \<le> 2 ^ 29"
      "dv_mem d' = (\<lambda>a. if a < f then dv_mem d a
            else if a < f + n1 then dv_mem d (d_pbase1 old + (a - f))
            else if a < f + n1 + n2 then dv_mem d (d_pbase2 old + (a - (f + n1)))
            else if a < f + n1 + n2 + n3 then dv_mem d (d_stackpbase old + (a - (f + n1 + n2))) else dv_mem d a)"
      "dram_ok (dv_ram d')" "lastpaddr (dv_ram d') = lastpaddr (dv_ram d)"
proof (cases mem)
  case False
  then show thesis using ok by (intro nomem [of d]) (simp_all add: dumb_as_copy_def dumb_as_create_def f_def)
next
  case True
  let ?new = "\<lparr>d_vbase1 = d_vbase1 old, d_pbase1 = 0, d_npages1 = d_npages1 old, d_vbase2 = d_vbase2 old,
     d_pbase2 = 0, d_npages2 = d_npages2 old, d_stackpbase = 0\<rparr>"
  have b: "d_pbase1 old + n1 \<le> f" "d_pbase2 old + n2 \<le> f" "d_stackpbase old + n3 \<le> f"
    using below by (auto simp: as_below_def as_extents_def f_def n1_def n2_def n3_def)
  have u: "n1 < 2 ^ 32" "n2 < 2 ^ 32"
    using sm small_request_bytes(1) [of "d_npages1 old"] small_request_bytes(1) [of "d_npages2 old"]
    by (auto simp: n1_def n2_def)
  have s': "as_small ?new" and f': "as_fresh ?new" using sm by simp_all
  show thesis
  proof (cases rule: prepare_load_spec [OF ok s' f'])
    case (1 d1 as1)
    then show thesis using True by (intro nomem [of d1]) (simp_all add: dumb_as_copy_def dumb_as_create_def f_def)
  next
    case (2 d1 f1)
    let ?d = "pmem_move (f + n1 + n2) (d_stackpbase old) n3 (pmem_move (f + n1) (d_pbase2 old) n2
      (pmem_move f (d_pbase1 old) n1 d1))"
    have f1: "f1 = f" and e1: "firstpaddr (dv_ram d1) = f + n1 + n2 + n3"
      using 2(1,5) by (simp_all add: f_def n1_def n2_def n3_def)
    have new: "\<lparr>d_vbase1 = d_vbase1 old, d_pbase1 = f, d_npages1 = d_npages1 old, d_vbase2 = d_vbase2 old,
       d_pbase2 = f + n1, d_npages2 = d_npages2 old, d_stackpbase = f + n1 + n2\<rparr>
       = old\<lparr>d_pbase1 := f, d_pbase2 := f + n1, d_stackpbase := f + n1 + n2\<rparr>" by simp
    show thesis
    proof (rule copied [of ?d])
      show "dumb_as_copy mem old d = Some (?d, Inr (old\<lparr>d_pbase1 := f, d_pbase2 := f + n1, d_stackpbase := f + n1 + n2\<rparr>))"
        using True u 2(2,3) unfolding f1 n1_def [symmetric] n2_def [symmetric]
        by (simp add: dumb_as_copy_def dumb_as_create_def n3_def [symmetric] n1_def [symmetric] n2_def [symmetric])
      show "firstpaddr (dv_ram ?d) = f + n1 + n2 + n3" using e1 by simp
      show "f + n1 + n2 + n3 \<le> 2 ^ 29" using 2(4) e1 by (simp add: dram_ok_def)
      show "dv_mem ?d = (\<lambda>a. if a < f then dv_mem d a
            else if a < f + n1 then dv_mem d (d_pbase1 old + (a - f))
            else if a < f + n1 + n2 then dv_mem d (d_pbase2 old + (a - (f + n1)))
            else if a < f + n1 + n2 + n3 then dv_mem d (d_stackpbase old + (a - (f + n1 + n2))) else dv_mem d a)"
        unfolding three_moves [OF b] 2(7) f1 e1 using b by (auto simp: fun_eq_iff)
      show "dram_ok (dv_ram ?d)" "lastpaddr (dv_ram ?d) = lastpaddr (dv_ram d)" using 2(4,6) by simp_all
    qed
  qed
qed

text \<open>The address space of a program with two segments, up to the load of its memory.\<close>

definition dumb_program :: "nat \<Rightarrow> nat \<Rightarrow> nat \<Rightarrow> nat \<Rightarrow> dumb_as" where
  "dumb_program v1 s1 v2 s2 =
     fst (dumb_as_define_region (fst (dumb_as_define_region (the (dumb_as_create True)) v1 s1)) v2 s2)"

text \<open>Two segments above the first page and below the stack.\<close>

definition segment_ok :: "nat \<Rightarrow> nat \<Rightarrow> bool" where
  "segment_ok v s \<longleftrightarrow> PAGE_SIZE \<le> v \<and> 0 < s \<and> v + s \<le> USERSTACK - DUMBVM_STACKPAGES * PAGE_SIZE"

definition region_pages :: "nat \<Rightarrow> nat \<Rightarrow> nat" where
  "region_pages v s = page_frame (u32 (u32 (s + page_offset v) + PAGE_SIZE - 1)) div PAGE_SIZE"

lemma page_frame_idem [simp]: "page_frame (page_frame a) = page_frame a"
  by (simp add: page_frame_def minus_mod_eq_mult_div)

lemma page_frame_pos: "PAGE_SIZE \<le> a \<Longrightarrow> 0 < page_frame a"
  by (simp add: page_frame_def PAGE_SIZE_def)

lemma dumb_program_eq:
  "segment_ok v1 s1 \<Longrightarrow> dumb_program v1 s1 v2 s2 =
   \<lparr>d_vbase1 = page_frame v1, d_pbase1 = 0, d_npages1 = region_pages v1 s1,
    d_vbase2 = page_frame v2, d_pbase2 = 0, d_npages2 = region_pages v2 s2, d_stackpbase = 0\<rparr>"
  using page_frame_pos [of v1]
  by (simp add: dumb_program_def dumb_as_create_def dumb_as_define_region_def region_pages_def Let_def segment_ok_def)

lemma segment_bounds:
  assumes "segment_ok v s"
  shows "page_frame v \<le> v" "v + s \<le> page_frame v + region_pages v s * PAGE_SIZE"
    "page_frame v + region_pages v s * PAGE_SIZE < USERSTACK" "small_request (region_pages v s)" "0 < region_pages v s"
    "0 < page_frame v"
proof -
  have st: "USERSTACK - DUMBVM_STACKPAGES * PAGE_SIZE + PAGE_SIZE < USERSTACK" "USERSTACK < 2 ^ 32"
    "USERSTACK = 2 ^ 19 * PAGE_SIZE"
    by (simp_all add: USERSTACK_def DUMBVM_STACKPAGES_def PAGE_SIZE_def)
  have "v + s + PAGE_SIZE \<le> 2 ^ 32" using assms st by (simp add: segment_ok_def)
  note r = region_rounding [OF this, folded region_pages_def]
  show "page_frame v \<le> v" "v + s \<le> page_frame v + region_pages v s * PAGE_SIZE" by (fact r)+
  show u: "page_frame v + region_pages v s * PAGE_SIZE < USERSTACK" using r(3) assms st by (simp add: segment_ok_def)
  then have "region_pages v s * PAGE_SIZE < 2 ^ 19 * PAGE_SIZE" unfolding st(3) by linarith
  then show "small_request (region_pages v s)" by (simp only: small_request_def mult_less_cancel2)
  show "0 < region_pages v s"
  proof (rule ccontr)
    assume "\<not> 0 < region_pages v s"
    then have "region_pages v s = 0" by simp
    then show False using r(1,2) assms unfolding segment_ok_def by simp
  qed
  show "0 < page_frame v" using assms by (simp add: segment_ok_def page_frame_pos)
qed

text \<open>The users of physical memory: requests of kernel pages, loads of programs with two segments, and copies
  (for \<^verbatim>\<open>fork\<close>) of an address space made earlier. \<open>dumb_extents\<close> runs a sequence of them, with the address
  spaces made so far, and lists the pieces of memory they were given, in order.\<close>

datatype dumb_op = Kernel_pages nat | Load_program nat nat nat nat | Copy_as bool nat

text \<open>Less than 2 GB in one request.\<close>

fun op_small :: "dumb_op \<Rightarrow> bool" where
  "op_small (Kernel_pages n) \<longleftrightarrow> n < 2 ^ 19"
| "op_small (Load_program v1 s1 v2 s2) \<longleftrightarrow> s1 + 2 * PAGE_SIZE \<le> 2 ^ 31 \<and> s2 + 2 * PAGE_SIZE \<le> 2 ^ 31"
| "op_small (Copy_as mem k) \<longleftrightarrow> True"

fun dumb_extents :: "dumb_op list \<Rightarrow> dumb_as list \<Rightarrow> dumbvm \<Rightarrow> (nat \<times> nat) list option" where
  "dumb_extents [] ass d = Some []"
| "dumb_extents (Kernel_pages n # ops) ass d =
     do { (d, va) \<leftarrow> dumb_alloc_kpages n d;
          es \<leftarrow> dumb_extents ops ass d;
          Some (if va = 0 then es else (va - MIPS_KSEG0, n * PAGE_SIZE) # es) }"
| "dumb_extents (Load_program v1 s1 v2 s2 # ops) ass d =
     do { (d, as, e) \<leftarrow> dumb_as_prepare_load (dumb_program v1 s1 v2 s2) d;
          (case e of
             Inl _ \<Rightarrow> dumb_extents ops ass d
           | Inr _ \<Rightarrow> do { es \<leftarrow> dumb_extents ops (ass @ [as]) d; Some (as_extents as @ es) }) }"
| "dumb_extents (Copy_as mem k # ops) ass d =
     (if length ass \<le> k then dumb_extents ops ass d
      else do { (d, r) \<leftarrow> dumb_as_copy mem (ass ! k) d;
                (case r of
                   Inl _ \<Rightarrow> dumb_extents ops ass d
                 | Inr as \<Rightarrow> do { es \<leftarrow> dumb_extents ops (ass @ [as]) d; Some (as_extents as @ es) }) })"

lemma region_pages_small: "s + 2 * PAGE_SIZE \<le> 2 ^ 31 \<Longrightarrow> small_request (region_pages v s)"
proof -
  assume s: "s + 2 * PAGE_SIZE \<le> 2 ^ 31"
  have o: "page_offset v < PAGE_SIZE" by (simp add: page_offset_def PAGE_SIZE_def)
  let ?t = "s + page_offset v + PAGE_SIZE - 1"
  have "u32 (u32 (s + page_offset v) + PAGE_SIZE - 1) = ?t" using s o by (simp add: PAGE_SIZE_def)
  then have "region_pages v s \<le> ?t div PAGE_SIZE"
    unfolding region_pages_def page_frame_def by (metis diff_le_self div_le_mono)
  also have "\<dots> < 2 ^ 19" using s o by (simp add: PAGE_SIZE_def)
  finally show ?thesis by (simp add: small_request_def)
qed

lemma dumb_program_small:
  assumes "op_small (Load_program v1 s1 v2 s2)"
  shows "as_small (dumb_program v1 s1 v2 s2)" "as_fresh (dumb_program v1 s1 v2 s2)"
proof -
  have "small_request (region_pages v1 s1)" "small_request (region_pages v2 s2)" "small_request 0"
    using assms region_pages_small by (simp, simp, simp add: small_request_def)
  then show "as_small (dumb_program v1 s1 v2 s2)"
    by (simp add: dumb_program_def dumb_as_create_def dumb_as_define_region_def region_pages_def Let_def)
  show "as_fresh (dumb_program v1 s1 v2 s2)"
    by (simp add: dumb_program_def dumb_as_create_def dumb_as_define_region_def Let_def)
qed

abbreviation ass_ok :: "dumb_as list \<Rightarrow> dumbvm \<Rightarrow> bool" where
  "ass_ok ass d \<equiv> \<forall>as\<in>set ass. as_small as \<and> as_below as (firstpaddr (dv_ram d))"

lemma as_below_mono: "as_below as f \<Longrightarrow> f \<le> g \<Longrightarrow> as_below as g"
  unfolding as_below_def by fastforce

text \<open>The pieces of an address space made in the free memory, before what comes after.\<close>

lemma ascending_as:
  assumes "as = old\<lparr>d_pbase1 := f, d_pbase2 := f + d_npages1 old * PAGE_SIZE,
      d_stackpbase := f + d_npages1 old * PAGE_SIZE + d_npages2 old * PAGE_SIZE\<rparr>"
    and "g = f + d_npages1 old * PAGE_SIZE + d_npages2 old * PAGE_SIZE + DUMBVM_STACKPAGES * PAGE_SIZE"
  shows "ascending g es hi \<Longrightarrow> g \<le> hi \<Longrightarrow> ascending f (as_extents as @ es) hi" "as_below as g"
  unfolding assms as_extents_def as_below_def by (simp_all add: ascending_Cons)

lemma dumb_extents_ascending:
  "dram_ok (dv_ram d) \<Longrightarrow> ass_ok ass d \<Longrightarrow> \<forall>x\<in>set ops. op_small x \<Longrightarrow>
   \<exists>es. dumb_extents ops ass d = Some es \<and> ascending (firstpaddr (dv_ram d)) es (lastpaddr (dv_ram d))"
proof (induction ops arbitrary: ass d)
  case Nil
  then show ?case by simp
next
  case (Cons x ops)
  note ok = Cons.prems(1)
  have rest: "\<forall>x\<in>set ops. op_small x" and x: "op_small x" using Cons.prems(3) by simp_all
  note IH = Cons.IH [OF _ _ rest]
  let ?f = "firstpaddr (dv_ram d)"
  have same: "ass_ok ass d'" if "?f \<le> firstpaddr (dv_ram d')" for d'
    using Cons.prems(2) as_below_mono that by blast
  have later: "\<exists>es. dumb_extents ops ass d' = Some es \<and> ascending ?f es (lastpaddr (dv_ram d))"
    if "dram_ok (dv_ram d')" "?f \<le> firstpaddr (dv_ram d')" "lastpaddr (dv_ram d') = lastpaddr (dv_ram d)" for d'
    using IH [OF that(1) same [OF that(2)]] that(2,3) ascending_lower by metis
  have made: "\<exists>es. dumb_extents ops (ass @ [as]) d' = Some es \<and> ascending ?f (as_extents as @ es) (lastpaddr (dv_ram d))"
    if "dram_ok (dv_ram d')" "lastpaddr (dv_ram d') = lastpaddr (dv_ram d)" "as_small old"
      "as = old\<lparr>d_pbase1 := ?f, d_pbase2 := ?f + d_npages1 old * PAGE_SIZE,
        d_stackpbase := ?f + d_npages1 old * PAGE_SIZE + d_npages2 old * PAGE_SIZE\<rparr>"
      "firstpaddr (dv_ram d') = ?f + d_npages1 old * PAGE_SIZE + d_npages2 old * PAGE_SIZE + DUMBVM_STACKPAGES * PAGE_SIZE"
    for d' as old
  proof -
    have "as_below as (firstpaddr (dv_ram d'))" by (rule ascending_as(2) [OF that(4,5)])
    moreover have "as_small as" using that(3,4) by simp
    moreover have "ass_ok ass d'" using that(5) by (intro same) simp
    ultimately have "ass_ok (ass @ [as]) d'" by auto
    from IH [OF that(1) this] obtain es where es: "dumb_extents ops (ass @ [as]) d' = Some es"
      "ascending (firstpaddr (dv_ram d')) es (lastpaddr (dv_ram d'))" by blast
    moreover have "firstpaddr (dv_ram d') \<le> lastpaddr (dv_ram d')" using that(1) by (simp add: dram_ok_def)
    ultimately show ?thesis using ascending_as(1) [OF that(4,5) es(2)] that(2) by auto
  qed
  show ?case
  proof (cases x)
    case (Kernel_pages n)
    then have sm: "small_request n" using x by (simp add: small_request_def)
    show ?thesis
    proof (cases rule: dumb_getppages_cases [OF ok sm])
      case 1
      then show ?thesis using Kernel_pages later [OF ok] by (simp add: dumb_alloc_kpages_def)
    next
      case h: 2
      let ?d = "d\<lparr>dv_ram := (dv_ram d)\<lparr>firstpaddr := ?f + n * PAGE_SIZE\<rparr>\<rparr>"
      have a: "dumb_alloc_kpages n d = Some (?d, ?f + MIPS_KSEG0)"
        using h dumb_kvaddr [OF ok] by (simp add: dumb_alloc_kpages_def)
      obtain es where es: "dumb_extents ops ass ?d = Some es" "ascending (?f + n * PAGE_SIZE) es (lastpaddr (dv_ram d))"
        using IH [of ?d ass] h(4) same [of ?d] by auto
      show ?thesis using Kernel_pages a es(1) h(2) ascending_Cons [OF es(2) h(3)] by simp
    qed
  next
    case (Load_program v1 s1 v2 s2)
    note sf = dumb_program_small [OF x [unfolded Load_program]]
    show ?thesis
    proof (cases rule: prepare_load_spec [OF ok sf])
      case (1 d' as')
      then show ?thesis using Load_program later [OF 1(2-4)] by simp
    next
      case (2 d' f)
      then show ?thesis using Load_program made [OF 2(4,6) sf(1) refl] 2(5) by fastforce
    qed
  next
    case (Copy_as mem k)
    show ?thesis
    proof (cases "length ass \<le> k")
      case True
      then show ?thesis using Copy_as later [OF ok] by simp
    next
      case False
      then have "ass ! k \<in> set ass" by simp
      then have old: "as_small (ass ! k)" "as_below (ass ! k) ?f" using Cons.prems(2) by blast+
      show ?thesis
      proof (cases rule: dumb_as_copy_spec [OF ok old, of mem])
        case (1 d')
        then show ?thesis using Copy_as False later [OF 1(3-5)] by simp
      next
        case (2 d')
        then show ?thesis using Copy_as False made [OF 2(5,6) old(1) refl 2(2)] by fastforce
      qed
    qed
  qed
qed

text \<open>A request of almost 4 GB moves the start of the free memory down by a page.\<close>

lemma ram_stealmem_back:
  assumes "dram_ok r" "2 * PAGE_SIZE \<le> firstpaddr r"
  shows "ram_stealmem (2 ^ 20 - 1) r = (r\<lparr>firstpaddr := firstpaddr r - PAGE_SIZE\<rparr>, firstpaddr r)"
proof -
  have b: "4096 < firstpaddr r" "firstpaddr r \<le> 2 ^ 29" using assms by (simp_all add: dram_ok_def PAGE_SIZE_def)
  have "firstpaddr r + 4294963200 = (firstpaddr r - 4096) + 2 ^ 32" using b by simp
  then have "u32 (firstpaddr r + 4294963200) = firstpaddr r - 4096" using b by (simp only: mod_add_self2) simp
  moreover have "firstpaddr r - 4096 \<le> lastpaddr r" using assms(1) unfolding dram_ok_def by linarith
  ultimately show ?thesis by (simp add: ram_stealmem_def PAGE_SIZE_def Let_def)
qed

lemma memory_twice:
  assumes ok: "dram_ok (dv_ram d)" and room: "firstpaddr (dv_ram d) + PAGE_SIZE \<le> lastpaddr (dv_ram d)"
  shows "\<exists>e. dumb_extents [Kernel_pages 1, Kernel_pages (2 ^ 20 - 1), Kernel_pages 1] [] d =
    Some [(firstpaddr (dv_ram d), PAGE_SIZE), e, (firstpaddr (dv_ram d), PAGE_SIZE)]"
proof -
  let ?f = "firstpaddr (dv_ram d)"
  define d1 where "d1 = d\<lparr>dv_ram := (dv_ram d)\<lparr>firstpaddr := ?f + PAGE_SIZE\<rparr>\<rparr>"
  have one: "ram_stealmem 1 (dv_ram d) = ((dv_ram d)\<lparr>firstpaddr := ?f + PAGE_SIZE\<rparr>, ?f)"
    using ram_stealmem_small [OF ok, of 1] room by (simp add: small_request_def)
  have pos: "0 < ?f" "PAGE_SIZE \<le> ?f" using ok by (auto simp: dram_ok_def intro: dvd_imp_le)
  have ok1: "dram_ok (dv_ram d1)" using ok room by (simp add: d1_def dram_ok_def)
  have big: "ram_stealmem (2 ^ 20 - 1) (dv_ram d1) = (dv_ram d, ?f + PAGE_SIZE)"
    using ram_stealmem_back [OF ok1] pos by (simp add: d1_def)
  have k: "PADDR_TO_KVADDR ?f = ?f + MIPS_KSEG0" "PADDR_TO_KVADDR (?f + PAGE_SIZE) = ?f + PAGE_SIZE + MIPS_KSEG0"
    using dumb_kvaddr [OF ok] dumb_kvaddr [OF ok1] by (simp_all add: d1_def)
  have a1: "dumb_alloc_kpages 1 d = Some (d1, ?f + MIPS_KSEG0)"
    using one pos k by (simp add: dumb_alloc_kpages_def dumb_getppages_def d1_def)
  have a2: "dumb_alloc_kpages (2 ^ 20 - 1) d1 = Some (d, ?f + PAGE_SIZE + MIPS_KSEG0)"
    using big pos k by (simp add: dumb_alloc_kpages_def dumb_getppages_def) (simp add: d1_def)
  show ?thesis using a1 a2 pos by (simp del: One_nat_def)
qed

text \<open>
  C32. Physical memory under \<^verbatim>\<open>dumbvm\<close> has one user. Take any sequence of requests for kernel pages, of loads of
  programs (\<^verbatim>\<open>as_create\<close>, \<^verbatim>\<open>as_define_region\<close> twice at any addresses, \<^verbatim>\<open>as_prepare_load\<close>) and of copies of the
  address spaces made so far, where no single request and no segment comes to 2 GB (less than \<open>2 ^ 19\<close> pages,
  at most \<open>2 ^ 31\<close> bytes less two pages). No assertion fails, and the pieces of memory handed out (kernel
  blocks, and the two regions and the stack of each address space that was made) lie in the free memory
  of the machine, and none overlaps another. Without the bound this is false: after one page, a request
  for \<open>2 ^ 20 - 1\<close> pages wraps around in \<^verbatim>\<open>ram_stealmem\<close>, is granted, and the page after it is the first one again.
\<close>

theorem dumbvm_memory_private:
  assumes "dram_ok (dv_ram d)" "\<forall>x\<in>set ops. op_small x"
  shows "(\<exists>es. dumb_extents ops [] d = Some es
      \<and> (\<forall>(p, n)\<in>set es. firstpaddr (dv_ram d) \<le> p \<and> p + n \<le> lastpaddr (dv_ram d))
      \<and> (\<forall>i j. i < j \<and> j < length es \<longrightarrow> fst (es ! i) + snd (es ! i) \<le> fst (es ! j)))
    \<and> (firstpaddr (dv_ram d) + PAGE_SIZE \<le> lastpaddr (dv_ram d) \<longrightarrow>
        (\<exists>e. dumb_extents [Kernel_pages 1, Kernel_pages (2 ^ 20 - 1), Kernel_pages 1] [] d =
          Some [(firstpaddr (dv_ram d), PAGE_SIZE), e, (firstpaddr (dv_ram d), PAGE_SIZE)]))"
proof -
  obtain es where es: "dumb_extents ops [] d = Some es" "ascending (firstpaddr (dv_ram d)) es (lastpaddr (dv_ram d))"
    using dumb_extents_ascending [OF assms(1) _ assms(2), of "[]"] by auto
  then have "\<exists>es. dumb_extents ops [] d = Some es
      \<and> (\<forall>(p, n)\<in>set es. firstpaddr (dv_ram d) \<le> p \<and> p + n \<le> lastpaddr (dv_ram d))
      \<and> (\<forall>i j. i < j \<and> j < length es \<longrightarrow> fst (es ! i) + snd (es ! i) \<le> fst (es ! j))"
    by (auto simp: ascending_def sorted_wrt_iff_nth_less case_prod_beta)
  then show ?thesis using memory_twice [OF assms(1)] by blast
qed

abbreviation wit_ops :: "dumb_op list" where
  "wit_ops \<equiv> [Kernel_pages 1, Load_program 0x400010 100 0x10000000 5000, Copy_as True 0]"

theorem dumbvm_memory_private_witness:
  "\<exists>es. dumb_extents wit_ops [] wit_dumb = Some es \<and> length es = 7
    \<and> (\<forall>i j. i < j \<and> j < length es \<longrightarrow> fst (es ! i) + snd (es ! i) \<le> fst (es ! j))"
proof -
  have small: "\<forall>x\<in>set wit_ops. op_small x" by (simp add: PAGE_SIZE_def)
  obtain es where es: "dumb_extents wit_ops [] wit_dumb = Some es"
    "\<forall>i j. i < j \<and> j < length es \<longrightarrow> fst (es ! i) + snd (es ! i) \<le> fst (es ! j)"
    using conjunct1 [OF dumbvm_memory_private [OF wit_dumb_ok small]] by blast
  have p: "dumb_program 0x400010 100 0x10000000 5000 =
    \<lparr>d_vbase1 = 0x400000, d_pbase1 = 0, d_npages1 = 1, d_vbase2 = 0x10000000, d_pbase2 = 0, d_npages2 = 2, d_stackpbase = 0\<rparr>"
    by (simp add: dumb_program_def dumb_as_create_def dumb_as_define_region_def page_frame_def page_offset_def PAGE_SIZE_def)
  have "map_option length (dumb_extents wit_ops [] wit_dumb) = Some 7"
    by (simp add: p wit_dumb_def dumb_alloc_kpages_def dumb_getppages_def ram_stealmem_def dumb_as_prepare_load_def
        dumb_as_copy_def dumb_as_create_def as_zero_region_def pmem_move_def PADDR_TO_KVADDR_def MIPS_KSEG0_def
        PAGE_SIZE_def DUMBVM_STACKPAGES_def as_extents_def Let_def)
  then show ?thesis using es by auto
qed

text \<open>An address space moved to the free memory, with its contents, reads the same.\<close>

lemma moved_as_reads_same:
  assumes nw: "as_nowrap old" and below: "as_below old f"
    and new: "new = old\<lparr>d_pbase1 := f, d_pbase2 := f + d_npages1 old * PAGE_SIZE,
      d_stackpbase := f + d_npages1 old * PAGE_SIZE + d_npages2 old * PAGE_SIZE\<rparr>"
    and bn: "as_below new f'" and f29: "f \<le> 2 ^ 29" "f' \<le> 2 ^ 29"
    and mem: "dv_mem d' = (\<lambda>a. if a < f then dv_mem d a
      else if a < f + d_npages1 old * PAGE_SIZE then dv_mem d (d_pbase1 old + (a - f))
      else if a < f + d_npages1 old * PAGE_SIZE + d_npages2 old * PAGE_SIZE
        then dv_mem d (d_pbase2 old + (a - (f + d_npages1 old * PAGE_SIZE)))
      else if a < f + d_npages1 old * PAGE_SIZE + d_npages2 old * PAGE_SIZE + DUMBVM_STACKPAGES * PAGE_SIZE
        then dv_mem d (d_stackpbase old + (a - (f + d_npages1 old * PAGE_SIZE + d_npages2 old * PAGE_SIZE)))
      else dv_mem d a)"
  shows "case dumb_translate old va of
      None \<Rightarrow> dumb_translate new va = None
    | Some pa \<Rightarrow> \<exists>pa'. dumb_translate new va = Some pa' \<and> f \<le> pa' \<and> dv_mem d' pa' = dv_mem d pa"
proof -
  have nn: "as_nowrap new" using nw by (simp add: as_nowrap_def new)
  let ?n1 = "d_npages1 old * PAGE_SIZE" and ?n2 = "d_npages2 old * PAGE_SIZE" and ?n3 = "DUMBVM_STACKPAGES * PAGE_SIZE"
  have m1: "k < ?n1 \<Longrightarrow> dv_mem d' (k + f) = dv_mem d (k + d_pbase1 old)" for k
    unfolding mem by (simp add: add.commute)
  have m2: "k < ?n2 \<Longrightarrow> dv_mem d' (k + (f + ?n1)) = dv_mem d (k + d_pbase2 old)" for k
    unfolding mem by (simp add: add.commute)
  have m3: "k < ?n3 \<Longrightarrow> dv_mem d' (k + (f + ?n1 + ?n2)) = dv_mem d (k + d_stackpbase old)" for k
    unfolding mem by (simp add: add.commute)
  have st: "USERSTACK = (USERSTACK - ?n3) + ?n3"
    by (simp add: USERSTACK_def DUMBVM_STACKPAGES_def PAGE_SIZE_def)
  note tr = dumb_translate_nowrap [OF nw below f29(1)] dumb_translate_nowrap [OF nn bn f29(2)]
  have nf: "d_vbase1 new = d_vbase1 old" "d_npages1 new = d_npages1 old" "d_vbase2 new = d_vbase2 old"
    "d_npages2 new = d_npages2 old" "d_pbase1 new = f" "d_pbase2 new = f + ?n1" "d_stackpbase new = f + ?n1 + ?n2"
    by (simp_all add: new)
  show ?thesis
  proof -
    consider (r1) "d_vbase1 old \<le> va" "va < d_vbase1 old + ?n1"
      | (r2) "\<not> (d_vbase1 old \<le> va \<and> va < d_vbase1 old + ?n1)" "d_vbase2 old \<le> va" "va < d_vbase2 old + ?n2"
      | (r3) "\<not> (d_vbase1 old \<le> va \<and> va < d_vbase1 old + ?n1)" "\<not> (d_vbase2 old \<le> va \<and> va < d_vbase2 old + ?n2)"
          "USERSTACK - ?n3 \<le> va" "va < USERSTACK"
      | (no) "\<not> (d_vbase1 old \<le> va \<and> va < d_vbase1 old + ?n1)" "\<not> (d_vbase2 old \<le> va \<and> va < d_vbase2 old + ?n2)"
          "\<not> (USERSTACK - ?n3 \<le> va \<and> va < USERSTACK)"
      by blast
    then show ?thesis
    proof cases
      case r1
      then show ?thesis unfolding tr nf using m1 [of "va - d_vbase1 old"] by simp
    next
      case r2
      then have "va - d_vbase2 old < ?n2" by linarith
      with r2 show ?thesis unfolding tr nf if_not_P [OF r2(1)] using m2 [of "va - d_vbase2 old"] by simp
    next
      case r3
      then have "va - (USERSTACK - ?n3) < ?n3" using st by linarith
      with r3 show ?thesis unfolding tr nf if_not_P [OF r3(1)] if_not_P [OF r3(2)]
        using m3 [of "va - (USERSTACK - ?n3)"] by simp
    next
      case no
      then show ?thesis unfolding tr nf by (simp only: if_False option.case)
    qed
  qed
qed

text \<open>
  C33. Copying an address space (\<^verbatim>\<open>as_copy\<close>, for \<^verbatim>\<open>fork\<close>) under \<^verbatim>\<open>dumbvm\<close>. It never fails an assertion; the
  only error is \<^verbatim>\<open>ENOMEM\<close>; everything below the free memory, the old address space included, keeps its
  contents; and when it succeeds, the two address spaces define the same user addresses, every address
  reads the same byte in both, and the new one uses none of the old memory.
\<close>

theorem dumb_as_copy_same_memory:
  assumes ok: "dram_ok (dv_ram d)" and sm: "as_small old" and nw: "as_nowrap old"
    and below: "as_below old (firstpaddr (dv_ram d))"
  shows "\<exists>d' r. dumb_as_copy mem old d = Some (d', r)
    \<and> (\<forall>a. a < firstpaddr (dv_ram d) \<longrightarrow> dv_mem d' a = dv_mem d a)
    \<and> (case r of Inl e \<Rightarrow> e = ENOMEM
       | Inr new \<Rightarrow> as_below new (firstpaddr (dv_ram d')) \<and>
           (\<forall>va. case dumb_translate old va of
              None \<Rightarrow> dumb_translate new va = None
            | Some pa \<Rightarrow> \<exists>pa'. dumb_translate new va = Some pa' \<and> firstpaddr (dv_ram d) \<le> pa'
                \<and> dv_mem d' pa' = dv_mem d pa))"
proof (cases rule: dumb_as_copy_spec [OF ok sm below, of mem])
  case (1 d')
  then show ?thesis by simp
next
  case (2 d')
  let ?f = "firstpaddr (dv_ram d)"
  define new where "new = old\<lparr>d_pbase1 := ?f, d_pbase2 := ?f + d_npages1 old * PAGE_SIZE,
    d_stackpbase := ?f + d_npages1 old * PAGE_SIZE + d_npages2 old * PAGE_SIZE\<rparr>"
  have bn: "as_below new (firstpaddr (dv_ram d'))" using 2(2) by (simp add: as_below_def as_extents_def new_def)
  have f29: "?f \<le> 2 ^ 29" "firstpaddr (dv_ram d') \<le> 2 ^ 29" using ok 2(2,3) by (simp_all add: dram_ok_def)
  have low: "dv_mem d' a = dv_mem d a" if "a < ?f" for a using that by (simp add: 2(4))
  have same: "case dumb_translate old va of
      None \<Rightarrow> dumb_translate new va = None
    | Some pa \<Rightarrow> \<exists>pa'. dumb_translate new va = Some pa' \<and> ?f \<le> pa' \<and> dv_mem d' pa' = dv_mem d pa" for va
    by (rule moved_as_reads_same [OF nw below new_def bn f29 2(4)])
  show ?thesis
    by (intro exI [of _ d'] exI [of _ "Inr new"]) (simp add: 2(1) [folded new_def] low same bn)
qed

definition wit_old :: dumb_as where
  "wit_old = \<lparr>d_vbase1 = 0x400000, d_pbase1 = 4096, d_npages1 = 2, d_vbase2 = 0x10000000, d_pbase2 = 12288, d_npages2 = 1,
     d_stackpbase = 16384\<rparr>"

definition wit_dumb2 :: dumbvm where
  "wit_dumb2 = \<lparr>dv_ram = \<lparr>firstpaddr = 98304, lastpaddr = 262144\<rparr>, dv_mem = (\<lambda>a. a mod 256), dv_tlb = replicate 64 (0, 0)\<rparr>"

theorem dumb_as_copy_same_memory_witness:
  "\<exists>d' new pa'. dumb_as_copy True wit_old wit_dumb2 = Some (d', Inr new)
     \<and> dumb_translate new 0x400123 = Some pa' \<and> dv_mem d' pa' = 0x23"
proof -
  have c: "dram_ok (dv_ram wit_dumb2)" "as_small wit_old" "as_nowrap wit_old" "as_below wit_old (firstpaddr (dv_ram wit_dumb2))"
    by (simp_all add: dram_ok_def wit_dumb2_def wit_old_def small_request_def as_nowrap_def as_below_def as_extents_def
        PAGE_SIZE_def DUMBVM_STACKPAGES_def)
  have t: "dumb_translate wit_old 0x400123 = Some 4387"
    by (simp add: dumb_translate_def wit_old_def PAGE_SIZE_def)
  have m: "dv_mem wit_dumb2 4387 = 0x23" by (simp add: wit_dumb2_def)
  obtain d' r where dr: "dumb_as_copy True wit_old wit_dumb2 = Some (d', r)"
    "case r of Inl e \<Rightarrow> e = ENOMEM
       | Inr new \<Rightarrow> as_below new (firstpaddr (dv_ram d')) \<and>
           (\<forall>va. case dumb_translate wit_old va of
              None \<Rightarrow> dumb_translate new va = None
            | Some pa \<Rightarrow> \<exists>pa'. dumb_translate new va = Some pa' \<and> firstpaddr (dv_ram wit_dumb2) \<le> pa'
                \<and> dv_mem d' pa' = dv_mem wit_dumb2 pa)"
    using dumb_as_copy_same_memory [OF c, of True] by blast
  have "r \<noteq> Inl ENOMEM"
    using dr(1) by (auto simp: dumb_as_copy_def dumb_as_create_def dumb_as_prepare_load_def dumb_getppages_def
        ram_stealmem_def wit_dumb2_def wit_old_def PAGE_SIZE_def DUMBVM_STACKPAGES_def Let_def)
  then obtain new where r: "r = Inr new" using dr(2) by (cases r) auto
  then have "case dumb_translate wit_old 0x400123 of
              None \<Rightarrow> dumb_translate new 0x400123 = None
            | Some pa \<Rightarrow> \<exists>pa'. dumb_translate new 0x400123 = Some pa' \<and> firstpaddr (dv_ram wit_dumb2) \<le> pa'
                \<and> dv_mem d' pa' = dv_mem wit_dumb2 pa"
    using dr(2) by simp
  then show ?thesis using dr(1) r m unfolding t by auto
qed

text \<open>The low word of the TLB entry for a page: the frame and the two bits.\<close>

lemma tlb_low_word:
  assumes "page_frame pa = pa"
  defines "elo \<equiv> set_bit TLBLO_VALID (set_bit TLBLO_DIRTY pa)"
  shows "page_frame elo = pa" "bit elo TLBLO_VALID" "bit elo TLBLO_DIRTY"
proof -
  have "pa mod 4096 = 0" using assms(1) by (simp add: page_frame_def PAGE_SIZE_def)
  then obtain k where k: "pa = 4096 * k" by (auto simp: mod_eq_0_iff_dvd)
  have "(512 * (8 * k + 2)) div 512 = 8 * k + 2" "(1024 * (4 * k)) div 1024 = 4 * k"
    by (rule nonzero_mult_div_cancel_left, simp)+
  then have "set_bit 9 (set_bit 10 (4096 * k)) = 4096 * k + (1536 :: nat)"
    by (simp add: set_bit_eq bit_iff_odd)
  moreover have "(4096 * k + 1536) mod 4096 = 1536" by simp
  ultimately show "page_frame elo = pa" by (simp add: elo_def k TLBLO_VALID_def TLBLO_DIRTY_def page_frame_def PAGE_SIZE_def)
  show "bit elo TLBLO_VALID" "bit elo TLBLO_DIRTY"
    by (simp_all add: elo_def bit_set_bit_iff TLBLO_VALID_def TLBLO_DIRTY_def)
qed

lemma page_frame_dvd: "PAGE_SIZE dvd a \<longleftrightarrow> page_frame a = a"
  by (auto simp: page_frame_def PAGE_SIZE_def dvd_eq_mod_eq_0)

lemma page_frame_mono: "a \<le> b \<Longrightarrow> page_frame a \<le> page_frame b"
  by (simp add: page_frame_def minus_mod_eq_mult_div div_le_mono)

lemma page_frame_le: "page_frame a \<le> a"
  by (simp add: page_frame_def)

lemma aligned_room: "PAGE_SIZE dvd x \<Longrightarrow> x < n * PAGE_SIZE \<Longrightarrow> x + PAGE_SIZE \<le> n * PAGE_SIZE"
  by (auto elim!: dvdE simp: PAGE_SIZE_def)

text \<open>A loaded program: its assertions hold and each of its pages has a frame of its own.\<close>

lemma loaded_program:
  assumes ok: "dram_ok (dv_ram d)" and seg: "segment_ok v1 s1" "segment_ok v2 s2"
    and load: "dumb_as_prepare_load (dumb_program v1 s1 v2 s2) d = Some (d', as, Inr ())"
  shows "dumb_as_ready as" "as_nowrap as" "as_below as (firstpaddr (dv_ram d'))" "firstpaddr (dv_ram d') \<le> 2 ^ 29"
    "d_vbase1 as = page_frame v1" "d_npages1 as = region_pages v1 s1"
    "d_vbase2 as = page_frame v2" "d_npages2 as = region_pages v2 s2"
proof -
  note b1 = segment_bounds [OF seg(1)] and b2 = segment_bounds [OF seg(2)]
  note p = dumb_program_eq [OF seg(1), of v2 s2]
  have us: "USERSTACK < 2 ^ 32" by (simp add: USERSTACK_def)
  have sm: "as_small (dumb_program v1 s1 v2 s2)" and fr: "as_fresh (dumb_program v1 s1 v2 s2)"
    using b1(4) b2(4) by (simp_all add: p)
  define f where "f = firstpaddr (dv_ram d)"
  have al: "page_frame f = f" "0 < f" using ok unfolding dram_ok_def f_def page_frame_dvd by simp_all
  have "as = (dumb_program v1 s1 v2 s2)\<lparr>d_pbase1 := f, d_pbase2 := f + region_pages v1 s1 * PAGE_SIZE,
         d_stackpbase := f + region_pages v1 s1 * PAGE_SIZE + region_pages v2 s2 * PAGE_SIZE\<rparr>
      \<and> firstpaddr (dv_ram d') = f + region_pages v1 s1 * PAGE_SIZE + region_pages v2 s2 * PAGE_SIZE + DUMBVM_STACKPAGES * PAGE_SIZE
      \<and> dram_ok (dv_ram d')"
  proof (cases rule: prepare_load_spec [OF ok sm fr])
    case (1 e a) then show ?thesis using load by simp
  next
    case (2 e g)
    have "d' = e" "as = (dumb_program v1 s1 v2 s2)\<lparr>d_pbase1 := g, d_pbase2 := g + d_npages1 (dumb_program v1 s1 v2 s2) * PAGE_SIZE,
         d_stackpbase := g + d_npages1 (dumb_program v1 s1 v2 s2) * PAGE_SIZE + d_npages2 (dumb_program v1 s1 v2 s2) * PAGE_SIZE\<rparr>"
      using load 2(3) by simp_all
    moreover have "d_npages1 (dumb_program v1 s1 v2 s2) = region_pages v1 s1" "d_npages2 (dumb_program v1 s1 v2 s2) = region_pages v2 s2"
      by (simp_all only: p dumb_as.simps)
    ultimately show ?thesis using 2(1,4,5) by (simp only: f_def simp_thms)
  qed
  then have as: "as = \<lparr>d_vbase1 = page_frame v1, d_pbase1 = f, d_npages1 = region_pages v1 s1,
      d_vbase2 = page_frame v2, d_pbase2 = f + region_pages v1 s1 * PAGE_SIZE, d_npages2 = region_pages v2 s2,
      d_stackpbase = f + region_pages v1 s1 * PAGE_SIZE + region_pages v2 s2 * PAGE_SIZE\<rparr>"
    and fd: "firstpaddr (dv_ram d') = f + region_pages v1 s1 * PAGE_SIZE + region_pages v2 s2 * PAGE_SIZE + DUMBVM_STACKPAGES * PAGE_SIZE"
    and ok': "dram_ok (dv_ram d')" unfolding p by (simp_all only: dumb_as.update_convs dumb_as.simps simp_thms)
  have al2: "page_frame (f + k * PAGE_SIZE) = f + k * PAGE_SIZE" "page_frame (f + k * PAGE_SIZE + m * PAGE_SIZE) = f + k * PAGE_SIZE + m * PAGE_SIZE" for k m
    using al(1) unfolding page_frame_dvd [symmetric] by simp_all
  show "dumb_as_ready as" using b1(5,6) b2(5,6) al by (simp add: dumb_as_ready_def as al2)
  show "as_nowrap as" using b1(3) b2(3) us by (simp add: as_nowrap_def as)
  show "as_below as (firstpaddr (dv_ram d'))" by (simp add: as_below_def as_extents_def as fd)
  show "firstpaddr (dv_ram d') \<le> 2 ^ 29" using ok' by (simp add: dram_ok_def)
  show "d_vbase1 as = page_frame v1" "d_npages1 as = region_pages v1 s1"
    "d_vbase2 as = page_frame v2" "d_npages2 as = region_pages v2 s2" by (simp_all add: as)
qed

text \<open>The frame of a page of an address space is inside the piece of memory of its region.\<close>

lemma translate_page:
  assumes ready: "dumb_as_ready as" and nw: "as_nowrap as" and below: "as_below as f" "f \<le> 2 ^ 29"
    and t: "dumb_translate as (page_frame va) = Some pa"
  shows "page_frame pa = pa" "\<exists>(p, n)\<in>set (as_extents as). p \<le> pa \<and> pa + PAGE_SIZE \<le> p + n"
proof -
  let ?sb = "USERSTACK - DUMBVM_STACKPAGES * PAGE_SIZE"
  have st: "PAGE_SIZE dvd ?sb" "USERSTACK = ?sb + DUMBVM_STACKPAGES * PAGE_SIZE"
    by (simp_all add: USERSTACK_def DUMBVM_STACKPAGES_def PAGE_SIZE_def)
  have "PAGE_SIZE dvd page_frame va" by (simp add: page_frame_dvd)
  note dd = dvd_diff_nat [OF this]
  note t' = t [unfolded dumb_translate_nowrap [OF nw below]]
  have al: "PAGE_SIZE dvd d_vbase1 as" "PAGE_SIZE dvd d_pbase1 as" "PAGE_SIZE dvd d_vbase2 as" "PAGE_SIZE dvd d_pbase2 as"
    "PAGE_SIZE dvd d_stackpbase as" using ready unfolding dumb_as_ready_def page_frame_dvd by simp_all
  obtain p n b where pn: "(p, n * PAGE_SIZE) \<in> set (as_extents as)" "PAGE_SIZE dvd p" "PAGE_SIZE dvd b"
    "b \<le> page_frame va" "page_frame va < b + n * PAGE_SIZE" "pa = page_frame va - b + p"
  proof -
    note ex = as_extents_def [of as]
    show thesis
    proof (cases "d_vbase1 as \<le> page_frame va \<and> page_frame va < d_vbase1 as + d_npages1 as * PAGE_SIZE")
      case True
      then show thesis using t' al by (intro that [of "d_pbase1 as" "d_npages1 as" "d_vbase1 as"]) (simp_all add: ex)
    next
      case n1: False
      show thesis
      proof (cases "d_vbase2 as \<le> page_frame va \<and> page_frame va < d_vbase2 as + d_npages2 as * PAGE_SIZE")
        case True
        then show thesis using t' [unfolded if_not_P [OF n1]] al
          by (intro that [of "d_pbase2 as" "d_npages2 as" "d_vbase2 as"]) (simp_all add: ex)
      next
        case n2: False
        note t'' = t' [unfolded if_not_P [OF n1] if_not_P [OF n2]]
        then have s: "?sb \<le> page_frame va \<and> page_frame va < USERSTACK" by (metis option.distinct(1))
        show thesis using t'' [unfolded if_P [OF s]] s al st
          by (intro that [of "d_stackpbase as" DUMBVM_STACKPAGES ?sb]) (simp_all only: ex list.set insert_iff simp_thms option.inject)
      qed
    qed
  qed
  have "page_frame va - b + PAGE_SIZE \<le> n * PAGE_SIZE"
    using pn by (intro aligned_room dd) auto
  then show "\<exists>(p, n)\<in>set (as_extents as). p \<le> pa \<and> pa + PAGE_SIZE \<le> p + n"
    using pn(6) by (intro bexI [OF _ pn(1)]) (simp only: prod.case, linarith)
  show "page_frame pa = pa" using dd [OF pn(3)] pn(2,6) by (simp add: page_frame_dvd [symmetric])
qed

text \<open>A fault in an address space that is set up: refused without a translation or without a free TLB
  entry, otherwise entered in the first free TLB entry.\<close>

lemma ready_fault:
  assumes ready: "dumb_as_ready as" and al: "\<forall>va pa. dumb_translate as (page_frame va) = Some pa \<longrightarrow> page_frame pa = pa"
    and ft: "ft = VM_FAULT_READ \<or> ft = VM_FAULT_WRITE"
  shows "dumb_translate as (page_frame va) = None \<Longrightarrow> dumb_vm_fault True (Some as) ft va d = Some (d, Inl EFAULT)"
    "\<forall>i<NUM_TLB. bit (snd (dv_tlb d ! i)) TLBLO_VALID \<Longrightarrow> dumb_vm_fault True (Some as) ft va d = Some (d, Inl EFAULT)"
    "dumb_translate as (page_frame va) = Some pa \<Longrightarrow>
     find (\<lambda>i. \<not> bit (snd (dv_tlb d ! i)) TLBLO_VALID) [0..<NUM_TLB] = Some i \<Longrightarrow>
     dumb_vm_fault True (Some as) ft va d =
       Some (d\<lparr>dv_tlb := (dv_tlb d)[i := (page_frame va, set_bit TLBLO_VALID (set_bit TLBLO_DIRTY pa))]\<rparr>, Inr ())"
proof -
  show "dumb_translate as (page_frame va) = None \<Longrightarrow> dumb_vm_fault True (Some as) ft va d = Some (d, Inl EFAULT)"
    using ft ready by (auto simp: dumb_vm_fault_def)
  show "dumb_vm_fault True (Some as) ft va d = Some (d, Inl EFAULT)"
    if full: "\<forall>i<NUM_TLB. bit (snd (dv_tlb d ! i)) TLBLO_VALID"
  proof -
    have "find (\<lambda>i. \<not> bit (snd (dv_tlb d ! i)) TLBLO_VALID) [0..<NUM_TLB] = None" using full by simp
    then show ?thesis using ft ready al
      by (cases "dumb_translate as (page_frame va)") (auto simp: dumb_vm_fault_def simp del: find_upt_None_iff)
  qed
  show "dumb_vm_fault True (Some as) ft va d =
       Some (d\<lparr>dv_tlb := (dv_tlb d)[i := (page_frame va, set_bit TLBLO_VALID (set_bit TLBLO_DIRTY pa))]\<rparr>, Inr ())"
    if "dumb_translate as (page_frame va) = Some pa"
      "find (\<lambda>i. \<not> bit (snd (dv_tlb d ! i)) TLBLO_VALID) [0..<NUM_TLB] = Some i"
    using that ft ready al by (auto simp: dumb_vm_fault_def Let_def simp del: find_upt_Some_iff)
qed

lemma fault_entered:
  assumes ready: "dumb_as_ready as" and al: "\<forall>va pa. dumb_translate as (page_frame va) = Some pa \<longrightarrow> page_frame pa = pa"
    and ft: "ft = VM_FAULT_READ \<or> ft = VM_FAULT_WRITE"
    and t: "dumb_translate as (page_frame va) = Some pa" and free: "\<exists>i<NUM_TLB. \<not> bit (snd (dv_tlb d ! i)) TLBLO_VALID"
  shows "\<exists>i elo. i < NUM_TLB \<and> \<not> bit (snd (dv_tlb d ! i)) TLBLO_VALID
      \<and> dumb_vm_fault True (Some as) ft va d = Some (d\<lparr>dv_tlb := (dv_tlb d)[i := (page_frame va, elo)]\<rparr>, Inr ())
      \<and> bit elo TLBLO_VALID \<and> bit elo TLBLO_DIRTY \<and> pa = page_frame elo"
proof -
  have "find (\<lambda>i. \<not> bit (snd (dv_tlb d ! i)) TLBLO_VALID) [0..<NUM_TLB] \<noteq> None" using free by auto
  then obtain i where i: "find (\<lambda>i. \<not> bit (snd (dv_tlb d ! i)) TLBLO_VALID) [0..<NUM_TLB] = Some i" by blast
  have "i < NUM_TLB" "\<not> bit (snd (dv_tlb d ! i)) TLBLO_VALID" using i by simp_all
  then show ?thesis using tlb_low_word [OF al [rule_format, OF t]] ready_fault(3) [OF ready al ft t i]
    by (intro exI [of _ i] exI [of _ "set_bit TLBLO_VALID (set_bit TLBLO_DIRTY pa)"]) simp
qed

text \<open>The addresses of the pages that a segment touches, and the frame that a page of a loaded program has:
  the pages of the first segment, of the second and of the stack lie in this order, each piece contiguous.\<close>

definition segment_pages :: "nat \<Rightarrow> nat \<Rightarrow> nat set" where
  "segment_pages v s = {page_frame v..<page_frame (v + s + PAGE_SIZE - 1)}"

definition frame_of :: "dumb_as \<Rightarrow> nat \<Rightarrow> nat \<Rightarrow> nat \<Rightarrow> nat \<Rightarrow> nat \<Rightarrow> nat option" where
  "frame_of as v1 s1 v2 s2 va =
     (if va \<in> segment_pages v1 s1 then Some (d_pbase1 as + (page_frame va - page_frame v1))
      else if va \<in> segment_pages v2 s2 then Some (d_pbase2 as + (page_frame va - page_frame v2))
      else if va \<in> {USERSTACK - 18 * PAGE_SIZE..<USERSTACK}
           then Some (d_stackpbase as + (page_frame va - (USERSTACK - 18 * PAGE_SIZE)))
      else None)"

lemma page_frame_between: "PAGE_SIZE dvd b \<Longrightarrow> page_frame va < b \<longleftrightarrow> va < b" "PAGE_SIZE dvd b \<Longrightarrow> b \<le> page_frame va \<longleftrightarrow> b \<le> va"
  using page_frame_mono [of b va] page_frame_mono [of va b] page_frame_le [of va]
  by (auto simp: page_frame_dvd not_le [symmetric])

lemma segment_end:
  assumes "segment_ok v s"
  shows "page_frame v + region_pages v s * PAGE_SIZE = page_frame (v + s + PAGE_SIZE - 1)"
proof -
  have us: "USERSTACK - DUMBVM_STACKPAGES * PAGE_SIZE + PAGE_SIZE \<le> 2 ^ 32"
    by (simp add: USERSTACK_def DUMBVM_STACKPAGES_def PAGE_SIZE_def)
  then have "v + s + PAGE_SIZE \<le> 2 ^ 32" using assms by (simp add: segment_ok_def)
  note r = region_rounding [OF this, folded region_pages_def]
  let ?e = "page_frame v + region_pages v s * PAGE_SIZE"
  have dv: "PAGE_SIZE dvd ?e" by (simp add: page_frame_dvd [of "page_frame v"])
  have "?e \<le> page_frame (v + s + PAGE_SIZE - 1)"
    unfolding page_frame_between(2) [OF dv] using r(3) by linarith
  moreover have "page_frame (v + s + PAGE_SIZE - 1) < ?e + PAGE_SIZE"
    unfolding page_frame_between(1) [OF dvd_add [OF dv dvd_refl]] using r(2) by (simp add: PAGE_SIZE_def)
  moreover have "PAGE_SIZE dvd page_frame (v + s + PAGE_SIZE - 1) - ?e"
    by (rule dvd_diff_nat [OF _ dv]) (simp add: page_frame_dvd)
  ultimately have "page_frame (v + s + PAGE_SIZE - 1) - ?e = 0"
    by (metis less_diff_conv2 nat_dvd_not_less not_gr_zero add.commute)
  then show ?thesis using \<open>?e \<le> _\<close> by simp
qed

lemma translate_frame_of:
  assumes seg: "segment_ok v1 s1" "segment_ok v2 s2" and nw: "as_nowrap as" and below: "as_below as f" "f \<le> 2 ^ 29"
    and as: "d_vbase1 as = page_frame v1" "d_npages1 as = region_pages v1 s1"
      "d_vbase2 as = page_frame v2" "d_npages2 as = region_pages v2 s2"
  shows "dumb_translate as (page_frame va) = frame_of as v1 s1 v2 s2 va"
proof -
  have dv: "PAGE_SIZE dvd page_frame a" for a by (simp add: page_frame_dvd)
  have st: "DUMBVM_STACKPAGES = 18" "PAGE_SIZE dvd USERSTACK" "PAGE_SIZE dvd USERSTACK - 18 * PAGE_SIZE"
    by (simp_all add: USERSTACK_def PAGE_SIZE_def DUMBVM_STACKPAGES_def)
  show ?thesis
    unfolding dumb_translate_nowrap [OF nw below] as frame_of_def segment_pages_def segment_end [OF seg(1)]
      segment_end [OF seg(2)] st(1) page_frame_between(1) [OF dv] page_frame_between(2) [OF dv]
      page_frame_between(1) [OF st(2)] page_frame_between(2) [OF st(3)] atLeastLessThan_iff
    by (simp only: add.commute)
qed



end
