(* ===== verification/Kmalloc.thy ===== *)
theory Kmalloc
  imports Vm
begin

text \<open>
  The kernel heap: \<^verbatim>\<open>kern/vm/kmalloc.c\<close>, in its configuration without \<^verbatim>\<open>GUARDS\<close> and \<^verbatim>\<open>LABELS\<close>, with the
  consistency checks of \<^verbatim>\<open>SLOW\<close> and \<^verbatim>\<open>SLOWER\<close> as functions of their own.

  A pointer to a \<^verbatim>\<open>struct pageref\<close> is the number of its root and its index on that root's page. The two
  linked lists of pagerefs, through \<^verbatim>\<open>next_samesize\<close> and \<^verbatim>\<open>next_all\<close>, are lists of such pointers with the
  head first. The free list of a page is where the code has it, in the first word of each free block:
  \<open>kmem\<close> gives the word at each address. The state of the page allocator (\<^verbatim>\<open>alloc_kpages\<close>, \<^verbatim>\<open>free_kpages\<close>) is
  a field, and the two functions are arguments, because the file is linked with \<^verbatim>\<open>vm.c\<close> or \<^verbatim>\<open>dumbvm.c\<close>.

  The code gives up \<^verbatim>\<open>kmalloc_spinlock\<close> whenever it calls the page allocator. A call is therefore a
  sequence of sections, each atomic; a \<open>kphase\<close> says where a call stands between two of them, and the
  calls of several threads interleave (\<open>kdo\<close>).
\<close>

section \<open>Data\<close>

definition sizes :: "nat list" where
  "sizes = [16, 32, 64, 128, 256, 512, 1024, 2048]"

definition NSIZES :: nat where "NSIZES = 8"
definition LARGEST_SUBPAGE_SIZE :: nat where "LARGEST_SUBPAGE_SIZE = 2048"
definition INVALID_OFFSET :: nat where "INVALID_OFFSET = 0xffff"
definition NPAGEREFS_PER_PAGE :: nat where "NPAGEREFS_PER_PAGE = 256"
definition INUSE_WORDS :: nat where "INUSE_WORDS = 8"
definition NUM_PAGEREFPAGES :: nat where "NUM_PAGEREFPAGES = 16"
definition TOTAL_PAGEREFS :: nat where "TOTAL_PAGEREFS = NUM_PAGEREFPAGES * NPAGEREFS_PER_PAGE"

type_synonym prptr = "nat \<times> nat"

record pageref =
  pageaddr_and_blocktype :: nat
  freelist_offset :: nat
  nfree :: nat

definition PR_PAGEADDR :: "pageref \<Rightarrow> nat" where
  "PR_PAGEADDR pr = page_frame (pageaddr_and_blocktype pr)"

definition PR_BLOCKTYPE :: "pageref \<Rightarrow> nat" where
  "PR_BLOCKTYPE pr = page_offset (pageaddr_and_blocktype pr)"

definition MKPAB :: "nat \<Rightarrow> nat \<Rightarrow> nat" where
  "MKPAB pa blk = page_frame pa + page_offset blk"

record kheap_root =
  kr_page :: nat
  pagerefs_inuse :: "32 word list"
  numinuse :: nat

record 'p kheap =
  pagesrc :: 'p
  kheaproots :: "kheap_root list"
  sizebases :: "prptr list list"
  allbase :: "prptr list"
  pagerefs :: "prptr \<Rightarrow> pageref"
  kmem :: "nat \<Rightarrow> nat"

section \<open>Page references\<close>

text \<open>The search of \<^verbatim>\<open>allocpageref\<close> for a clear bit: a root, and the index in it. The inner \<open>None\<close> is that
  all roots are full, the outer one the \<^verbatim>\<open>KASSERT(0)\<close> after the inner loop.\<close>

definition find_word :: "kheap_root \<Rightarrow> nat option" where
  "find_word root = find (\<lambda>i. pagerefs_inuse root ! i \<noteq> - 1) [0..<INUSE_WORDS]"

definition find_slot :: "kheap_root list \<Rightarrow> prptr option option" where
  "find_slot roots =
     (case find (\<lambda>w. numinuse (roots ! w) < NPAGEREFS_PER_PAGE \<and> find_word (roots ! w) \<noteq> None)
             [0..<NUM_PAGEREFPAGES] of
        None \<Rightarrow> Some None
      | Some w \<Rightarrow>
          (case find_word (roots ! w) of
             None \<Rightarrow> Some None
           | Some i \<Rightarrow>
               (case find (\<lambda>j. \<not> bit (pagerefs_inuse (roots ! w) ! i) j) [0..<32] of
                  None \<Rightarrow> None
                | Some j \<Rightarrow> Some (Some (w, i * 32 + j)))))"

definition set_inuse :: "nat \<Rightarrow> kheap_root \<Rightarrow> kheap_root" where
  "set_inuse idx root =
     root\<lparr>pagerefs_inuse := (pagerefs_inuse root)[idx div 32 := set_bit (idx mod 32) (pagerefs_inuse root ! (idx div 32))],
          numinuse := numinuse root + 1\<rparr>"

definition clear_inuse :: "nat \<Rightarrow> kheap_root \<Rightarrow> kheap_root" where
  "clear_inuse idx root =
     root\<lparr>pagerefs_inuse := (pagerefs_inuse root)[idx div 32 := unset_bit (idx mod 32) (pagerefs_inuse root ! (idx div 32))],
          numinuse := numinuse root - 1\<rparr>"

text \<open>The part of \<^verbatim>\<open>allocpageref\<close> under the lock: it takes the bit before it looks at the page of the root.\<close>

definition allocpageref_reserve :: "'p kheap \<Rightarrow> ('p kheap \<times> prptr option) option" where
  "allocpageref_reserve s =
     do {
       r \<leftarrow> find_slot (kheaproots s);
       case r of
         None \<Rightarrow> Some (s, None)
       | Some (w, idx) \<Rightarrow>
           Some (s\<lparr>kheaproots := (kheaproots s)[w := set_inuse idx (kheaproots s ! w)]\<rparr>, Some (w, idx))
     }"

fun freepageref_loop :: "prptr \<Rightarrow> nat list \<Rightarrow> kheap_root list \<Rightarrow> kheap_root list option" where
  "freepageref_loop p [] roots = None"
| "freepageref_loop p (w # ws) roots =
     (let root = roots ! w in
      if kr_page root = 0 then
        do { kassert (numinuse root = 0); freepageref_loop p ws roots }
      else if fst p = w then
        do {
          kassert (bit (pagerefs_inuse root ! (snd p div 32)) (snd p mod 32));
          kassert (numinuse root > 0);
          Some (roots[w := clear_inuse (snd p) root])
        }
      else freepageref_loop p ws roots)"

definition freepageref :: "prptr \<Rightarrow> 'p kheap \<Rightarrow> 'p kheap option" where
  "freepageref p s =
     do { roots \<leftarrow> freepageref_loop p [0..<NUM_PAGEREFPAGES] (kheaproots s); Some (s\<lparr>kheaproots := roots\<rparr>) }"

definition remove_lists :: "prptr \<Rightarrow> nat \<Rightarrow> 'p kheap \<Rightarrow> 'p kheap option" where
  "remove_lists pr blktype s =
     do {
       kassert (blktype < NSIZES);
       Some (s\<lparr>sizebases := (sizebases s)[blktype := remove1 pr (sizebases s ! blktype)],
              allbase := remove1 pr (allbase s)\<rparr>)
     }"

section \<open>Allocation\<close>

definition blocktype :: "nat \<Rightarrow> nat option" where
  "blocktype clientsz = find (\<lambda>i. clientsz \<le> sizes ! i) [0..<NSIZES]"

text \<open>The search for a page of the right size with a free block.\<close>

fun find_page :: "(prptr \<Rightarrow> pageref) \<Rightarrow> nat \<Rightarrow> prptr list \<Rightarrow> prptr option option" where
  "find_page refs blktype [] = Some None"
| "find_page refs blktype (pr # prs) =
     do {
       kassert (PR_BLOCKTYPE (refs pr) = blktype);
       if nfree (refs pr) > 0 then Some (Some pr) else find_page refs blktype prs
     }"

text \<open>The code at the label \<^verbatim>\<open>doalloc\<close>: take the head of the free list of a page.\<close>

definition doalloc :: "prptr \<Rightarrow> 'p kheap \<Rightarrow> ('p kheap \<times> nat) option" where
  "doalloc pr s =
     do {
       let r = pagerefs s pr;
       kassert (freelist_offset r < PAGE_SIZE);
       let prpage = PR_PAGEADDR r;
       let retptr = prpage + freelist_offset r;
       let fl = kmem s retptr;
       let nf = (nfree r + 2 ^ 16 - 1) mod 2 ^ 16;
       if fl \<noteq> 0 then
         do {
           kassert (nf > 0);
           kassert (usub fl prpage < PAGE_SIZE);
           Some (s\<lparr>pagerefs := (pagerefs s)(pr := r\<lparr>nfree := nf, freelist_offset := usub fl prpage\<rparr>)\<rparr>, retptr)
         }
       else
         do {
           kassert (nf = 0);
           Some (s\<lparr>pagerefs := (pagerefs s)(pr := r\<lparr>nfree := nf, freelist_offset := INVALID_OFFSET\<rparr>)\<rparr>, retptr)
         }
     }"

text \<open>Setting up a fresh page: the chain of its blocks, the last one first, and the two lists.\<close>

definition link_blocks :: "nat \<Rightarrow> nat \<Rightarrow> nat \<Rightarrow> (nat \<Rightarrow> nat) \<Rightarrow> nat \<Rightarrow> nat" where
  "link_blocks prpage sz n m = fold (\<lambda>i m. m(prpage + i * sz := prpage + (i - 1) * sz)) [1..<n] (m(prpage := 0))"

definition setup_page :: "nat \<Rightarrow> nat \<Rightarrow> prptr \<Rightarrow> 'p kheap \<Rightarrow> 'p kheap" where
  "setup_page blktype prpage pr s =
     (let sz = sizes ! blktype; n = PAGE_SIZE div sz;
          r = \<lparr>pageaddr_and_blocktype = MKPAB prpage blktype, freelist_offset = (n - 1) * sz, nfree = n\<rparr> in
      s\<lparr>pagerefs := (pagerefs s)(pr := r),
        kmem := link_blocks prpage sz n (kmem s),
        sizebases := (sizebases s)[blktype := pr # sizebases s ! blktype],
        allbase := pr # allbase s\<rparr>)"

text \<open>
  Where a call stands while it does not hold the lock: it wants a page for blocks (\<open>Want_page\<close>), has it
  (\<open>Want_ref\<close>), has reserved a pageref on a root without a page and wants that page (\<open>Want_refpage\<close>), has it
  or was refused (\<open>Got_refpage\<close>), gives it back because another call was faster (\<open>Too_late\<close>, then
  \<open>Resume\<close>), gives the page for blocks back for want of a pageref (\<open>No_ref\<close>); it wants whole pages
  (\<open>Want_pages\<close>), or has a page to free (\<open>Free_page\<close>). The first argument is the size asked for.
\<close>

datatype kphase =
    Idle
  | Want_page nat nat
  | Want_ref nat nat nat
  | Want_refpage nat nat nat prptr
  | Got_refpage nat nat nat prptr nat
  | Too_late nat nat nat prptr nat
  | Resume nat nat nat prptr
  | No_ref nat
  | Want_pages nat nat
  | Free_page nat

text \<open>The end of a section: a result, or the phase the call is in.\<close>

datatype kout = Done nat | Wait kphase

text \<open>\<^verbatim>\<open>subpage_kmalloc\<close> up to the point where it needs a new page, and after it has one and a pageref.\<close>

definition subpage_kmalloc :: "nat \<Rightarrow> 'p kheap \<Rightarrow> ('p kheap \<times> kout) option" where
  "subpage_kmalloc sz s =
     do {
       blktype \<leftarrow> blocktype sz;
       r \<leftarrow> find_page (pagerefs s) blktype (sizebases s ! blktype);
       case r of
         Some pr \<Rightarrow> do { (s, retptr) \<leftarrow> doalloc pr s; Some (s, Done retptr) }
       | None \<Rightarrow> Some (s, Wait (Want_page sz blktype))
     }"

definition use_page :: "nat \<Rightarrow> nat \<Rightarrow> prptr \<Rightarrow> 'p kheap \<Rightarrow> ('p kheap \<times> kout) option" where
  "use_page blktype prpage pr s =
     do { (s, retptr) \<leftarrow> doalloc pr (setup_page blktype prpage pr s); Some (s, Done retptr) }"

text \<open>The sections after the first one. \<^verbatim>\<open>allocpagerefpage\<close> is \<open>Want_refpage\<close> to \<open>Resume\<close>.\<close>

fun kmalloc_continue :: "(nat \<Rightarrow> 'p \<Rightarrow> ('p \<times> nat) option) \<Rightarrow> (nat \<Rightarrow> 'p \<Rightarrow> 'p) \<Rightarrow> kphase \<Rightarrow> 'p kheap \<Rightarrow> ('p kheap \<times> kout) option" where
  "kmalloc_continue palloc pfree Idle s = Some (s, Done 0)"
| "kmalloc_continue palloc pfree (Want_page sz blktype) s =
     do {
       (p, prpage) \<leftarrow> palloc 1 (pagesrc s);
       let s = s\<lparr>pagesrc := p\<rparr>;
       if prpage = 0 then Some (s, Done 0)
       else do { kassert (prpage mod PAGE_SIZE = 0); Some (s, Wait (Want_ref sz blktype prpage)) }
     }"
| "kmalloc_continue palloc pfree (Want_ref sz blktype prpage) s =
     do {
       (s, r) \<leftarrow> allocpageref_reserve s;
       case r of
         None \<Rightarrow> Some (s, Wait (No_ref prpage))
       | Some pr \<Rightarrow>
           if kr_page (kheaproots s ! fst pr) = 0 then Some (s, Wait (Want_refpage sz blktype prpage pr))
           else use_page blktype prpage pr s
     }"
| "kmalloc_continue palloc pfree (Want_refpage sz blktype prpage pr) s =
     do {
       (p, va) \<leftarrow> palloc 1 (pagesrc s);
       Some (s\<lparr>pagesrc := p\<rparr>, Wait (Got_refpage sz blktype prpage pr va))
     }"
| "kmalloc_continue palloc pfree (Got_refpage sz blktype prpage pr va) s =
     (let root = kheaproots s ! fst pr in
      if va = 0 then
        if kr_page root = 0 then Some (s, Wait (No_ref prpage)) else use_page blktype prpage pr s
      else
        do {
          kassert (va mod PAGE_SIZE = 0);
          if kr_page root \<noteq> 0 then Some (s, Wait (Too_late sz blktype prpage pr va))
          else use_page blktype prpage pr (s\<lparr>kheaproots := (kheaproots s)[fst pr := root\<lparr>kr_page := va\<rparr>]\<rparr>)
        })"
| "kmalloc_continue palloc pfree (Too_late sz blktype prpage pr va) s =
     Some (s\<lparr>pagesrc := pfree va (pagesrc s)\<rparr>, Wait (Resume sz blktype prpage pr))"
| "kmalloc_continue palloc pfree (Resume sz blktype prpage pr) s =
     do {
       kassert (kr_page (kheaproots s ! fst pr) \<noteq> 0);
       use_page blktype prpage pr s
     }"
| "kmalloc_continue palloc pfree (No_ref prpage) s =
     Some (s\<lparr>pagesrc := pfree prpage (pagesrc s)\<rparr>, Done 0)"
| "kmalloc_continue palloc pfree (Want_pages sz npages) s =
     do {
       (p, address) \<leftarrow> palloc npages (pagesrc s);
       let s = s\<lparr>pagesrc := p\<rparr>;
       if address = 0 then Some (s, Done 0)
       else do { kassert (address mod PAGE_SIZE = 0); Some (s, Done address) }
     }"
| "kmalloc_continue palloc pfree (Free_page page) s =
     Some (s\<lparr>pagesrc := pfree page (pagesrc s)\<rparr>, Done 0)"

definition kmalloc :: "nat \<Rightarrow> 'p kheap \<Rightarrow> ('p kheap \<times> kout) option" where
  "kmalloc sz s =
     (let checksz = sz in
      if checksz \<ge> LARGEST_SUBPAGE_SIZE then
        let npages = u32 (sz + PAGE_SIZE - 1) div PAGE_SIZE in Some (s, Wait (Want_pages sz npages))
      else subpage_kmalloc sz s)"

section \<open>Freeing\<close>

definition fill_deadbeef :: "nat \<Rightarrow> nat \<Rightarrow> (nat \<Rightarrow> nat) \<Rightarrow> nat \<Rightarrow> nat" where
  "fill_deadbeef ptr len m = fold (\<lambda>i m. m(ptr + 4 * i := 0xdeadbeef)) [0..<len div 4] m"

text \<open>The page that holds an address.\<close>

fun find_holder :: "(prptr \<Rightarrow> pageref) \<Rightarrow> nat \<Rightarrow> prptr list \<Rightarrow> prptr option option" where
  "find_holder refs ptraddr [] = Some None"
| "find_holder refs ptraddr (pr # prs) =
     do {
       let prpage = PR_PAGEADDR (refs pr);
       kassert (PR_BLOCKTYPE (refs pr) < NSIZES);
       if ptraddr \<ge> prpage \<and> ptraddr < prpage + PAGE_SIZE then Some (Some pr)
       else find_holder refs ptraddr prs
     }"

text \<open>\<^verbatim>\<open>subpage_kfree\<close>: the inner \<open>None\<close> is its result -1.\<close>

definition subpage_kfree :: "nat \<Rightarrow> 'p kheap \<Rightarrow> ('p kheap \<times> kout option) option" where
  "subpage_kfree ptraddr s =
     do {
       h \<leftarrow> find_holder (pagerefs s) ptraddr (allbase s);
       case h of
         None \<Rightarrow> Some (s, None)
       | Some pr \<Rightarrow>
           do {
             let r = pagerefs s pr;
             let prpage = PR_PAGEADDR r;
             let blktype = PR_BLOCKTYPE r;
             let offset = usub ptraddr prpage;
             kassert (\<not> (offset \<ge> PAGE_SIZE \<or> offset mod (sizes ! blktype) \<noteq> 0));
             let m = fill_deadbeef ptraddr (sizes ! blktype) (kmem s);
             let fl = prpage + offset;
             let nxt = (if freelist_offset r = INVALID_OFFSET then 0 else prpage + freelist_offset r);
             kassert (freelist_offset r = INVALID_OFFSET \<or> fl \<noteq> nxt);
             let r = r\<lparr>freelist_offset := offset, nfree := (nfree r + 1) mod 2 ^ 16\<rparr>;
             let s = s\<lparr>kmem := m(fl := nxt), pagerefs := (pagerefs s)(pr := r)\<rparr>;
             kassert (nfree r \<le> PAGE_SIZE div (sizes ! blktype));
             if nfree r = PAGE_SIZE div (sizes ! blktype) then
               do {
                 s \<leftarrow> remove_lists pr blktype s;
                 s \<leftarrow> freepageref pr s;
                 Some (s, Some (Wait (Free_page prpage)))
               }
             else Some (s, Some (Done 0))
           }
     }"

definition kfree :: "nat \<Rightarrow> 'p kheap \<Rightarrow> ('p kheap \<times> kout) option" where
  "kfree ptr s =
     (if ptr = 0 then Some (s, Done 0)
      else
        do {
          (s, r) \<leftarrow> subpage_kfree ptr s;
          case r of
            Some out \<Rightarrow> Some (s, out)
          | None \<Rightarrow> do { kassert (ptr mod PAGE_SIZE = 0); Some (s, Wait (Free_page ptr)) }
        })"

section \<open>The checks of SLOW and SLOWER, and the statistics\<close>

text \<open>A walk of a free list, with the number of steps that are left as fuel: a page has at most 256
  blocks, so a longer walk means that the list is circular.\<close>

fun check_freelist :: "nat \<Rightarrow> nat \<Rightarrow> nat \<Rightarrow> (nat \<Rightarrow> nat) \<Rightarrow> nat \<Rightarrow> nat option" where
  "check_freelist 0 prpage blocksize m fla = (if fla = 0 then Some 0 else None)"
| "check_freelist (Suc n) prpage blocksize m fla =
     (if fla = 0 then Some 0
      else
        do {
          kassert (fla \<ge> prpage \<and> fla < prpage + PAGE_SIZE);
          kassert (usub fla prpage mod blocksize = 0);
          kassert (m fla \<noteq> fla);
          k \<leftarrow> check_freelist n prpage blocksize m (m fla);
          Some (Suc k)
        })"

definition checksubpage :: "prptr \<Rightarrow> 'p kheap \<Rightarrow> unit option" where
  "checksubpage pr s =
     (let r = pagerefs s pr in
      if freelist_offset r = INVALID_OFFSET then kassert (nfree r = 0)
      else
        do {
          let prpage = PR_PAGEADDR r;
          let blktype = PR_BLOCKTYPE r;
          kassert (blktype < NSIZES);
          let blocksize = sizes ! blktype;
          kassert (prpage \<ge> MIPS_KSEG0);
          kassert (prpage < MIPS_KSEG1);
          kassert (freelist_offset r < PAGE_SIZE);
          kassert (freelist_offset r mod blocksize = 0);
          n \<leftarrow> check_freelist 256 prpage blocksize (kmem s) (prpage + freelist_offset r);
          kassert (n = nfree r)
        })"

text \<open>\<open>check_list\<close> runs \<^verbatim>\<open>checksubpage\<close> on a list of pagerefs and counts them from \<open>c\<close>.\<close>

fun check_list :: "prptr list \<Rightarrow> nat \<Rightarrow> 'p kheap \<Rightarrow> nat option" where
  "check_list [] c s = Some c"
| "check_list (pr # prs) c s =
     do {
       checksubpage pr s;
       kassert (c < TOTAL_PAGEREFS);
       check_list prs (Suc c) s
     }"

definition checksubpages :: "'p kheap \<Rightarrow> unit option" where
  "checksubpages s =
     do {
       sc \<leftarrow> check_list (concat (sizebases s)) 0 s;
       ac \<leftarrow> check_list (allbase s) 0 s;
       kassert (sc = ac)
     }"

text \<open>The map that \<^verbatim>\<open>subpage_stats\<close> prints: a dot for a free block, a star for an allocated one.\<close>

fun mark_free :: "nat \<Rightarrow> nat \<Rightarrow> nat \<Rightarrow> nat \<Rightarrow> (nat \<Rightarrow> nat) \<Rightarrow> nat \<Rightarrow> bool list \<Rightarrow> bool list option" where
  "mark_free 0 n prpage sz m fla fm = (if fla = 0 then Some fm else None)"
| "mark_free (Suc k) n prpage sz m fla fm =
     (if fla = 0 then Some fm
      else
        do {
          let index = usub fla prpage div sz;
          kassert (index < n);
          mark_free k n prpage sz m (m fla) (fm[index := True])
        })"

definition subpage_stats :: "prptr \<Rightarrow> 'p kheap \<Rightarrow> string option" where
  "subpage_stats pr s =
     do {
       let r = pagerefs s pr;
       let prpage = PR_PAGEADDR r;
       let blktype = PR_BLOCKTYPE r;
       kassert (blktype < NSIZES);
       let n = PAGE_SIZE div (sizes ! blktype);
       kassert (n \<le> 32 * (PAGE_SIZE div (16 * 32)));
       freemap \<leftarrow> (if freelist_offset r \<noteq> INVALID_OFFSET
                   then mark_free 256 n prpage (sizes ! blktype) (kmem s) (prpage + freelist_offset r)
                          (replicate n False)
                   else Some (replicate n False));
       Some (map (\<lambda>free. if free then CHR ''.'' else CHR ''*'') freemap)
     }"

section \<open>Interleaved calls\<close>

text \<open>
  The heap with its users: the phase of each thread's call and the blocks handed out, each with the size
  that was asked for. \<open>lost\<close> records the pagerefs that \<^verbatim>\<open>allocpageref\<close> has marked in use and then not
  handed out because no page for them could be had.
\<close>

record 'p ksys =
  heap :: "'p kheap"
  calls :: "kphase list"
  live :: "(nat \<times> nat) list"
  lost :: "prptr list"

text \<open>A thread calls \<^verbatim>\<open>kmalloc\<close> or \<^verbatim>\<open>kfree\<close>, runs the next section of its call, or writes a word of a block.\<close>

datatype kact = Malloc nat nat | Free nat nat | Continue nat | Store nat nat nat

fun wanted :: "kphase \<Rightarrow> nat" where
  "wanted (Want_page sz _) = sz"
| "wanted (Want_ref sz _ _) = sz"
| "wanted (Want_refpage sz _ _ _) = sz"
| "wanted (Got_refpage sz _ _ _ _) = sz"
| "wanted (Too_late sz _ _ _ _) = sz"
| "wanted (Resume sz _ _ _) = sz"
| "wanted (Want_pages sz _) = sz"
| "wanted _ = 0"

definition kfinish :: "nat \<Rightarrow> nat \<Rightarrow> 'p kheap \<Rightarrow> kout \<Rightarrow> 'p ksys \<Rightarrow> 'p ksys" where
  "kfinish t sz h out s =
     (case out of
        Wait ph \<Rightarrow> s\<lparr>heap := h, calls := (calls s)[t := ph]\<rparr>
      | Done p \<Rightarrow> s\<lparr>heap := h, calls := (calls s)[t := Idle],
                    live := (if p = 0 then live s else (p, sz) # live s)\<rparr>)"

fun drops_ref :: "kphase \<Rightarrow> kout \<Rightarrow> prptr list" where
  "drops_ref (Got_refpage _ _ _ pr _) (Wait (No_ref _)) = [pr]"
| "drops_ref _ _ = []"

fun kdo :: "(nat \<Rightarrow> 'p \<Rightarrow> ('p \<times> nat) option) \<Rightarrow> (nat \<Rightarrow> 'p \<Rightarrow> 'p) \<Rightarrow> kact \<Rightarrow> 'p ksys \<Rightarrow> 'p ksys option" where
  "kdo palloc pfree (Malloc t sz) s =
     do { (h, out) \<leftarrow> kmalloc sz (heap s); Some (kfinish t sz h out s) }"
| "kdo palloc pfree (Free t p) s =
     do {
       (h, out) \<leftarrow> kfree p (heap s);
       Some (kfinish t 0 h out (s\<lparr>live := filter (\<lambda>b. fst b \<noteq> p) (live s)\<rparr>))
     }"
| "kdo palloc pfree (Continue t) s =
     do {
       (h, out) \<leftarrow> kmalloc_continue palloc pfree (calls s ! t) (heap s);
       Some (kfinish t (wanted (calls s ! t)) h out (s\<lparr>lost := drops_ref (calls s ! t) out @ lost s\<rparr>))
     }"
| "kdo palloc pfree (Store p k v) s = Some (s\<lparr>heap := (heap s)\<lparr>kmem := (kmem (heap s))(p + 4 * k := v)\<rparr>\<rparr>)"

fun wants_page :: "kphase \<Rightarrow> bool" where
  "wants_page (Want_page _ _) = True"
| "wants_page (Want_refpage _ _ _ _) = True"
| "wants_page (Want_pages _ _) = True"
| "wants_page _ = False"

text \<open>What disciplined users do: one call per thread at a time, blocks of at most \<open>most\<close> pages, freeing only blocks
  they have, and writing inside blocks they have. \<open>roomy\<close> says when the page allocator may be called.\<close>

fun kenabled :: "nat \<Rightarrow> ('p \<Rightarrow> bool) \<Rightarrow> kact \<Rightarrow> 'p ksys \<Rightarrow> bool" where
  "kenabled most roomy (Malloc t sz) s \<longleftrightarrow> t < length (calls s) \<and> calls s ! t = Idle \<and> sz \<le> most * PAGE_SIZE"
| "kenabled most roomy (Free t p) s \<longleftrightarrow> t < length (calls s) \<and> calls s ! t = Idle \<and> p \<in> fst ` set (live s)"
| "kenabled most roomy (Continue t) s \<longleftrightarrow> t < length (calls s) \<and> calls s ! t \<noteq> Idle
     \<and> (wants_page (calls s ! t) \<longrightarrow> roomy (pagesrc (heap s)))"
| "kenabled most roomy (Store p k v) s \<longleftrightarrow> (\<exists>b\<in>set (live s). fst b = p \<and> 4 * k < snd b)"

definition kheap_init :: "'p \<Rightarrow> (nat \<Rightarrow> nat) \<Rightarrow> (prptr \<Rightarrow> pageref) \<Rightarrow> 'p kheap" where
  "kheap_init p m refs =
     \<lparr>pagesrc = p,
      kheaproots = replicate NUM_PAGEREFPAGES \<lparr>kr_page = 0, pagerefs_inuse = replicate INUSE_WORDS 0, numinuse = 0\<rparr>,
      sizebases = replicate NSIZES [], allbase = [], pagerefs = refs, kmem = m\<rparr>"

definition ksys_init :: "nat \<Rightarrow> 'p kheap \<Rightarrow> 'p ksys" where
  "ksys_init threads h = \<lparr>heap = h, calls = replicate threads Idle, live = [], lost = []\<rparr>"

inductive ksteps :: "(nat \<Rightarrow> 'p \<Rightarrow> ('p \<times> nat) option) \<Rightarrow> (nat \<Rightarrow> 'p \<Rightarrow> 'p) \<Rightarrow> nat \<Rightarrow> ('p \<Rightarrow> bool) \<Rightarrow> 'p ksys \<Rightarrow> 'p ksys \<Rightarrow> bool"
  for palloc pfree most roomy where
  ksteps_refl: "ksteps palloc pfree most roomy s s"
| ksteps_step: "ksteps palloc pfree most roomy s s' \<Longrightarrow> kenabled most roomy act s' \<Longrightarrow> kdo palloc pfree act s' = Some s''
    \<Longrightarrow> ksteps palloc pfree most roomy s s''"

end
