(* ===== verification/Kmalloc_Safety.thy ===== *)
theory Kmalloc_Safety
  imports Kmalloc Dumbvm "HOL-Library.Multiset"
begin

text \<open>
  Correctness of the kernel heap under every interleaving of its calls.

  The invariant has five parts: the pages the heap holds are distinct and handed out by the page
  allocator (\<open>pages_ok\<close>); the bits of the roots are those of the pagerefs in use (\<open>slots_ok\<close>); the two kinds
  of lists agree (\<open>lists_ok\<close>); each page's free list runs through exactly the blocks not handed out
  (\<open>blocks_ok\<close>); and each block handed out is a block of a page (\<open>live_ok\<close>). It is proved once for every page
  allocator that meets the contract \<open>page_source\<close>, and holds for \<^verbatim>\<open>vm.c\<close> and \<^verbatim>\<open>dumbvm.c\<close> by interpretation.
  The properties are about the heap on \<^verbatim>\<open>dumbvm.c\<close>, whose allocator meets it for every request below 2 GB; \<^verbatim>\<open>vm.c\<close>
  meets it only for single pages, without an address space, and while it has a free frame.
\<close>

declare split_paired_All [simp del] split_paired_Ex [simp del]

section \<open>Block sizes\<close>

lemma sizes_power: "b < NSIZES \<Longrightarrow> sizes ! b = 16 * 2 ^ b"
  by (auto simp: NSIZES_def sizes_def less_Suc_eq numeral_eq_Suc)

lemma sizes_bounds:
  assumes "b < NSIZES"
  shows "0 < sizes ! b" "sizes ! b \<le> 2048" "16 dvd sizes ! b" "sizes ! b * (PAGE_SIZE div (sizes ! b)) = PAGE_SIZE"
    "2 \<le> PAGE_SIZE div (sizes ! b)" "PAGE_SIZE div (sizes ! b) \<le> 256"
proof -
  have "b = 0 \<or> b = 1 \<or> b = 2 \<or> b = 3 \<or> b = 4 \<or> b = 5 \<or> b = 6 \<or> b = 7" using assms by (auto simp: NSIZES_def)
  then show "0 < sizes ! b" "sizes ! b \<le> 2048" "16 dvd sizes ! b" "sizes ! b * (PAGE_SIZE div (sizes ! b)) = PAGE_SIZE"
    "2 \<le> PAGE_SIZE div (sizes ! b)" "PAGE_SIZE div (sizes ! b) \<le> 256"
    by (auto simp: sizes_def PAGE_SIZE_def)
qed

lemma blocktype_small:
  assumes "sz < LARGEST_SUBPAGE_SIZE"
  obtains b where "blocktype sz = Some b" "b < NSIZES" "sz \<le> sizes ! b"
proof -
  have "sz \<le> sizes ! 7" using assms by (simp add: sizes_def LARGEST_SUBPAGE_SIZE_def)
  then have "blocktype sz \<noteq> None" by (auto simp: blocktype_def NSIZES_def intro: exI [of _ 7])
  then obtain b where b: "blocktype sz = Some b" by blast
  then have "b < NSIZES" "sz \<le> sizes ! b" by (simp_all add: blocktype_def)
  then show thesis using that b by blast
qed

section \<open>The blocks of a page\<close>

abbreviation bsize :: "pageref \<Rightarrow> nat" where
  "bsize r \<equiv> sizes ! PR_BLOCKTYPE r"

abbreviation nblocks :: "pageref \<Rightarrow> nat" where
  "nblocks r \<equiv> PAGE_SIZE div bsize r"

definition blocks :: "pageref \<Rightarrow> nat set" where
  "blocks r = (\<lambda>i. PR_PAGEADDR r + i * bsize r) ` {..<nblocks r}"

definition pr_ok :: "pageref \<Rightarrow> bool" where
  "pr_ok r \<longleftrightarrow> kpage (PR_PAGEADDR r) \<and> PR_BLOCKTYPE r < NSIZES"

lemma pr_okD:
  assumes "pr_ok r"
  shows "0 < bsize r" "bsize r * nblocks r = PAGE_SIZE" "2 \<le> nblocks r" "nblocks r \<le> 256" "16 dvd bsize r"
    "kpage (PR_PAGEADDR r)" "PR_BLOCKTYPE r < NSIZES"
  using assms sizes_bounds by (auto simp: pr_ok_def)

lemma kpageD:
  assumes "kpage p"
  shows "0 < p" "p + PAGE_SIZE \<le> MIPS_KSEG1" "p + PAGE_SIZE < 2 ^ 32" "PAGE_SIZE dvd p" "p mod PAGE_SIZE = 0" "MIPS_KSEG0 \<le> p" "p < MIPS_KSEG1"
proof -
  have "p \<noteq> 0" "PAGE_SIZE dvd p" "p < MIPS_KSEG1" using assms by (auto simp: kpage_def MIPS_KSEG0_def)
  moreover from this have "p + PAGE_SIZE \<le> MIPS_KSEG1"
    by (auto simp: PAGE_SIZE_def MIPS_KSEG1_def elim!: dvdE)
  ultimately show "0 < p" "p + PAGE_SIZE \<le> MIPS_KSEG1" "p + PAGE_SIZE < 2 ^ 32" "PAGE_SIZE dvd p"
    "p mod PAGE_SIZE = 0" "MIPS_KSEG0 \<le> p" "p < MIPS_KSEG1"
    using assms by (auto simp: MIPS_KSEG1_def kpage_def)
qed

lemma blocks_range:
  assumes "pr_ok r" "a \<in> blocks r"
  shows "PR_PAGEADDR r \<le> a" "a + bsize r \<le> PR_PAGEADDR r + PAGE_SIZE" "(a - PR_PAGEADDR r) mod bsize r = 0"
    "a < PR_PAGEADDR r + PAGE_SIZE" "0 < a"
proof -
  obtain i where i: "i < nblocks r" "a = PR_PAGEADDR r + i * bsize r" using assms(2) by (auto simp: blocks_def)
  have "Suc i * bsize r \<le> nblocks r * bsize r" using i(1) by (intro mult_right_mono) simp_all
  then have "Suc i * bsize r \<le> PAGE_SIZE" using pr_okD(2) [OF assms(1)] by (simp add: mult.commute)
  then show "a + bsize r \<le> PR_PAGEADDR r + PAGE_SIZE" by (simp add: i(2))
  then show "a < PR_PAGEADDR r + PAGE_SIZE" using pr_okD(1) [OF assms(1)] by linarith
  show "PR_PAGEADDR r \<le> a" "(a - PR_PAGEADDR r) mod bsize r = 0" by (simp_all add: i(2))
  then show "0 < a" using kpageD(1) [OF pr_okD(6) [OF assms(1)]] by linarith
qed

lemma blocks_card: "pr_ok r \<Longrightarrow> card (blocks r) = nblocks r" "finite (blocks r)"
proof -
  show "finite (blocks r)" by (simp add: blocks_def)
  assume "pr_ok r"
  then have "inj_on (\<lambda>i. PR_PAGEADDR r + i * bsize r) {..<nblocks r}"
    using pr_okD(1) by (auto simp: inj_on_def)
  then show "card (blocks r) = nblocks r" by (simp add: blocks_def card_image)
qed

text \<open>Distinct blocks of a page do not overlap.\<close>

lemma blocks_apart:
  assumes "pr_ok r" "a \<in> blocks r" "b \<in> blocks r" "a \<noteq> b"
  shows "a + bsize r \<le> b \<or> b + bsize r \<le> a"
proof -
  obtain i j where ij: "a = PR_PAGEADDR r + i * bsize r" "b = PR_PAGEADDR r + j * bsize r"
    using assms(2,3) by (auto simp: blocks_def)
  have "Suc i * bsize r \<le> j * bsize r \<or> Suc j * bsize r \<le> i * bsize r"
    using assms(4) ij by (metis linorder_neqE_nat Suc_leI mult_le_mono1)
  then show ?thesis using ij by auto
qed

lemma blocks_member:
  assumes "pr_ok r" "PR_PAGEADDR r \<le> a" "a < PR_PAGEADDR r + PAGE_SIZE" "(a - PR_PAGEADDR r) mod bsize r = 0"
  shows "a \<in> blocks r"
proof -
  obtain i where i: "a - PR_PAGEADDR r = bsize r * i" using assms(4) by (auto simp: mod_eq_0_iff_dvd)
  have "bsize r * i < bsize r * nblocks r" using i assms(2,3) pr_okD(2) [OF assms(1)] by simp
  then have "i < nblocks r" by simp
  then show ?thesis using i assms(2) by (auto simp: blocks_def intro!: image_eqI [of _ _ i] simp: mult.commute)
qed

section \<open>Free lists in memory\<close>

fun chain :: "(nat \<Rightarrow> nat) \<Rightarrow> nat \<Rightarrow> nat list \<Rightarrow> bool" where
  "chain m h [] \<longleftrightarrow> h = 0"
| "chain m h (a # as) \<longleftrightarrow> h = a \<and> a \<noteq> 0 \<and> chain m (m a) as"

lemma chain_cong: "(\<And>a. a \<in> set as \<Longrightarrow> m' a = m a) \<Longrightarrow> chain m' h as \<longleftrightarrow> chain m h as"
  by (induction as arbitrary: h) auto

lemma chain_upd [simp]: "a \<notin> set as \<Longrightarrow> chain (m(a := v)) h as \<longleftrightarrow> chain m h as"
  by (rule chain_cong) auto

definition fhead :: "pageref \<Rightarrow> nat" where
  "fhead r = (if freelist_offset r = INVALID_OFFSET then 0 else PR_PAGEADDR r + freelist_offset r)"

text \<open>The state of a page: its free list runs through the blocks that are not handed out.\<close>

definition page_free :: "(nat \<Rightarrow> nat) \<Rightarrow> nat set \<Rightarrow> pageref \<Rightarrow> nat list \<Rightarrow> bool" where
  "page_free m L r fs \<longleftrightarrow> chain m (fhead r) fs \<and> distinct fs \<and> set fs = blocks r - L \<and> nfree r = length fs
     \<and> (freelist_offset r = INVALID_OFFSET \<or> freelist_offset r < PAGE_SIZE)"

definition page_ok :: "(nat \<Rightarrow> nat) \<Rightarrow> nat set \<Rightarrow> pageref \<Rightarrow> bool" where
  "page_ok m L r \<longleftrightarrow> pr_ok r \<and> (\<exists>fs. page_free m L r fs)"

lemma page_free_length: "pr_ok r \<Longrightarrow> page_free m L r fs \<Longrightarrow> length fs + card (blocks r \<inter> L) = nblocks r"
proof -
  assume h: "pr_ok r" "page_free m L r fs"
  have "length fs = card (blocks r - L)" using h(2) by (metis distinct_card page_free_def)
  moreover have "card (blocks r - L) + card (blocks r \<inter> L) = card (blocks r)"
    using blocks_card(2) [of r] by (metis Int_Diff_disjoint Int_Diff_Un Int_commute add.commute card_Un_disjoint finite_Diff finite_Int)
  ultimately show ?thesis using blocks_card(1) [OF h(1)] by simp
qed

text \<open>A page is not concerned by changes outside its free blocks.\<close>

lemma page_free_frame:
  assumes "page_free m L r fs" "\<And>a. a \<in> blocks r - L \<Longrightarrow> m' a = m a" "blocks r \<inter> L' = blocks r \<inter> L"
  shows "page_free m' L' r fs"
proof -
  have "blocks r - L' = blocks r - L" using assms(3) by blast
  then show ?thesis using assms(1,2) chain_cong [of fs m' m "fhead r"] by (auto simp: page_free_def)
qed

section \<open>Taking and giving back a block\<close>

lemma find_page_spec:
  assumes "\<forall>pr\<in>set prs. PR_BLOCKTYPE (refs pr) = b"
  shows "\<exists>r. find_page refs b prs = Some r
    \<and> (case r of None \<Rightarrow> \<forall>pr\<in>set prs. nfree (refs pr) = 0 | Some pr \<Rightarrow> pr \<in> set prs \<and> 0 < nfree (refs pr))"
  using assms
proof (induction prs)
  case (Cons pr prs)
  then obtain r where r: "find_page refs b prs = Some r"
    "case r of None \<Rightarrow> \<forall>pr\<in>set prs. nfree (refs pr) = 0 | Some pr \<Rightarrow> pr \<in> set prs \<and> 0 < nfree (refs pr)" by auto
  show ?case
  proof (cases "nfree (refs pr) > 0")
    case False
    then show ?thesis using r Cons.prems by (auto split: option.splits)
  qed (use Cons.prems in auto)
qed simp

text \<open>Taking the head of a free list: the block leaves the list and nothing else changes.\<close>

lemma doalloc_spec:
  assumes pr: "pr_ok (pagerefs s pr)" and pf: "page_free (kmem s) L (pagerefs s pr) fs" and ne: "0 < nfree (pagerefs s pr)"
  shows "\<exists>r'. doalloc pr s = Some (s\<lparr>pagerefs := (pagerefs s)(pr := r')\<rparr>, hd fs)
    \<and> pageaddr_and_blocktype r' = pageaddr_and_blocktype (pagerefs s pr)
    \<and> hd fs \<in> blocks (pagerefs s pr) - L \<and> page_free (kmem s) (insert (hd fs) L) r' (tl fs)"
proof -
  let ?r = "pagerefs s pr"
  have len: "nfree ?r = length fs" using pf by (simp add: page_free_def)
  then obtain a as where fs: "fs = a # as" using ne by (cases fs) auto
  have c: "fhead ?r = a" "a \<noteq> 0" "chain (kmem s) (kmem s a) as" "a \<notin> set as" "distinct as" "set (a # as) = blocks ?r - L"
    using pf fs by (auto simp: page_free_def)
  have ab: "a \<in> blocks ?r" using c(6) by auto
  have off: "freelist_offset ?r < PAGE_SIZE" "a = PR_PAGEADDR ?r + freelist_offset ?r"
    using c(1,2) pf by (auto simp: fhead_def page_free_def split: if_splits)
  have "length fs \<le> nblocks ?r" using page_free_length [OF pr pf] by simp
  then have nf: "(nfree ?r + 2 ^ 16 - 1) mod 2 ^ 16 = length as"
    using len fs pr_okD(4) [OF pr] by (simp add: mod_if)
  show ?thesis
  proof (cases as)
    case Nil
    then have z: "kmem s a = 0" using c(3) by simp
    let ?q = "?r\<lparr>nfree := length as, freelist_offset := INVALID_OFFSET\<rparr>"
    have "doalloc pr s = Some (s\<lparr>pagerefs := (pagerefs s)(pr := ?q)\<rparr>, a)"
      unfolding doalloc_def Let_def off(2) [symmetric] nf z using off(1) Nil by simp
    moreover have "page_free (kmem s) (insert a L) ?q []"
      using c(6) Nil by (auto simp: page_free_def fhead_def blocks_def PR_PAGEADDR_def PR_BLOCKTYPE_def)
    ultimately show ?thesis using fs Nil ab c(6) by auto
  next
    case (Cons a' as')
    have z: "kmem s a = a'" "a' \<noteq> 0" using c(3) Cons by simp_all
    have b': "a' \<in> blocks ?r" using c(6) Cons by auto
    note rng = blocks_range [OF pr b']
    have u: "usub a' (PR_PAGEADDR ?r) = a' - PR_PAGEADDR ?r"
      using rng(1,4) kpageD(3) [OF pr_okD(6) [OF pr]] by (intro usub_eq) linarith+
    have lt: "a' - PR_PAGEADDR ?r < PAGE_SIZE" using rng(1,4) by linarith
    let ?q = "?r\<lparr>nfree := length as, freelist_offset := a' - PR_PAGEADDR ?r\<rparr>"
    have "doalloc pr s = Some (s\<lparr>pagerefs := (pagerefs s)(pr := ?q)\<rparr>, a)"
      unfolding doalloc_def Let_def off(2) [symmetric] nf z(1) u using off(1) lt z(2) Cons by simp
    moreover have "fhead ?q = a'"
      using lt rng(1) by (simp add: fhead_def INVALID_OFFSET_def PAGE_SIZE_def PR_PAGEADDR_def)
    then have "page_free (kmem s) (insert a L) ?q as"
      using c z lt by (auto simp: page_free_def blocks_def PR_PAGEADDR_def PR_BLOCKTYPE_def)
    ultimately show ?thesis using fs ab c(6) by auto
  qed
qed

text \<open>Setting up a page: the chain runs from the last block to the first.\<close>

lemma link_blocks_Suc: "0 < n \<Longrightarrow> link_blocks p sz (Suc n) m = (link_blocks p sz n m)(p + n * sz := p + (n - 1) * sz)"
  by (simp add: link_blocks_def)

lemma link_blocks_at:
  "0 < n \<Longrightarrow> 0 < sz \<Longrightarrow> i < n \<Longrightarrow> link_blocks p sz n m (p + i * sz) = (if i = 0 then 0 else p + (i - 1) * sz)"
proof (induction n arbitrary: i)
  case (Suc n)
  show ?case
  proof (cases "n = 0")
    case True
    then show ?thesis using Suc.prems by (simp add: link_blocks_def)
  next
    case False
    then show ?thesis using Suc by (cases "i = n") (auto simp: link_blocks_Suc)
  qed
qed simp

lemma link_blocks_other:
  "0 < n \<Longrightarrow> (\<And>i. i < n \<Longrightarrow> a \<noteq> p + i * sz) \<Longrightarrow> link_blocks p sz n m a = m a"
proof (induction n)
  case (Suc n)
  show ?case
  proof (cases "n = 0")
    case True
    then show ?thesis using Suc.prems(2) [of 0] by (simp add: link_blocks_def)
  next
    case False
    then show ?thesis using Suc.IH Suc.prems by (simp add: link_blocks_Suc)
  qed
qed simp

lemma link_blocks_chain:
  assumes "0 < sz" "0 < p" "k \<le> n" "0 < n"
  shows "chain (link_blocks p sz n m) (if k = 0 then 0 else p + (k - 1) * sz) (map (\<lambda>i. p + i * sz) (rev [0..<k]))"
  using assms(3)
proof (induction k)
  case (Suc k)
  then show ?case using link_blocks_at [OF assms(4,1), of k p m] assms(2) by auto
qed simp

lemma MKPAB_parts:
  assumes "kpage p" "b < NSIZES"
  shows "page_frame (MKPAB p b) = p" "page_offset (MKPAB p b) = b"
proof -
  have d: "p mod PAGE_SIZE = 0" using kpageD(5) [OF assms(1)] .
  have b: "b < PAGE_SIZE" using assms(2) by (simp add: NSIZES_def PAGE_SIZE_def)
  have "(p + b) mod PAGE_SIZE = b" using d b by (metis add.left_neutral mod_add_left_eq mod_less)
  then show "page_frame (MKPAB p b) = p" "page_offset (MKPAB p b) = b"
    using d b by (simp_all add: MKPAB_def page_frame_def page_offset_def)
qed

definition fresh_ref :: "nat \<Rightarrow> nat \<Rightarrow> pageref" where
  "fresh_ref blktype prpage = (let sz = sizes ! blktype; n = PAGE_SIZE div sz in
     \<lparr>pageaddr_and_blocktype = MKPAB prpage blktype, freelist_offset = (n - 1) * sz, nfree = n\<rparr>)"

lemma fresh_ref_parts:
  assumes "kpage p" "b < NSIZES"
  shows "PR_PAGEADDR (fresh_ref b p) = p" "PR_BLOCKTYPE (fresh_ref b p) = b" "pr_ok (fresh_ref b p)"
    "nfree (fresh_ref b p) = PAGE_SIZE div (sizes ! b)"
  using assms MKPAB_parts [OF assms] by (simp_all add: fresh_ref_def Let_def PR_PAGEADDR_def PR_BLOCKTYPE_def pr_ok_def)

lemma fresh_page_free:
  assumes p: "kpage p" and b: "b < NSIZES" and L: "blocks (fresh_ref b p) \<inter> L = {}"
  shows "page_free (link_blocks p (sizes ! b) (PAGE_SIZE div (sizes ! b)) m) L (fresh_ref b p)
    (map (\<lambda>i. p + i * (sizes ! b)) (rev [0..<PAGE_SIZE div (sizes ! b)]))"
proof -
  let ?n = "PAGE_SIZE div (sizes ! b)" and ?sz = "sizes ! b"
  note z = sizes_bounds [OF b] and f = fresh_ref_parts [OF p b]
  have "?sz * (?n - 1) < ?sz * ?n" using z(1,5) by simp
  then have lt: "(?n - 1) * ?sz < PAGE_SIZE" using z(4) by (simp add: mult.commute)
  then have o: "freelist_offset (fresh_ref b p) < PAGE_SIZE" "freelist_offset (fresh_ref b p) = (?n - 1) * ?sz"
    by (simp_all add: fresh_ref_def Let_def)
  then have "fhead (fresh_ref b p) = p + (?n - 1) * ?sz"
    unfolding fhead_def f by (simp add: INVALID_OFFSET_def PAGE_SIZE_def)
  moreover have "chain (link_blocks p ?sz ?n m) (p + (?n - 1) * ?sz) (map (\<lambda>i. p + i * ?sz) (rev [0..<?n]))"
    using link_blocks_chain [OF z(1) kpageD(1) [OF p] order_refl, of ?n m] z(5) by simp
  moreover have "distinct (map (\<lambda>i. p + i * ?sz) (rev [0..<?n]))"
    using z(1) by (auto simp: distinct_map inj_on_def)
  moreover have "set (map (\<lambda>i. p + i * ?sz) (rev [0..<?n])) = blocks (fresh_ref b p) - L"
  proof -
    have "blocks (fresh_ref b p) - L = blocks (fresh_ref b p)" using L by blast
    then show ?thesis by (auto simp: blocks_def f)
  qed
  ultimately show ?thesis using o f(4) by (simp add: page_free_def)
qed

lemma setup_page_eq:
  "setup_page b p pr s = s\<lparr>pagerefs := (pagerefs s)(pr := fresh_ref b p),
     kmem := link_blocks p (sizes ! b) (PAGE_SIZE div (sizes ! b)) (kmem s),
     sizebases := (sizebases s)[b := pr # sizebases s ! b], allbase := pr # allbase s\<rparr>"
  by (simp add: setup_page_def fresh_ref_def Let_def)

text \<open>Memory outside a page is left alone when the page is set up, and memory outside a block when it is
  filled.\<close>

lemma link_blocks_outside:
  assumes "b < NSIZES" "a < p \<or> p + PAGE_SIZE \<le> a"
  shows "link_blocks p (sizes ! b) (PAGE_SIZE div (sizes ! b)) m a = m a"
proof (rule link_blocks_other)
  note z = sizes_bounds [OF assms(1)]
  show "0 < PAGE_SIZE div (sizes ! b)" using z(5) by linarith
  show "a \<noteq> p + i * sizes ! b" if "i < PAGE_SIZE div (sizes ! b)" for i
  proof -
    have "sizes ! b * i < sizes ! b * (PAGE_SIZE div (sizes ! b))" using that z(1) by simp
    then have "i * sizes ! b < PAGE_SIZE" using z(4) by (simp add: mult.commute)
    then show ?thesis using assms(2) by auto
  qed
qed

lemma fill_deadbeef_outside: "a < p \<or> p + n \<le> a \<Longrightarrow> fill_deadbeef p n m a = m a"
proof -
  assume h: "a < p \<or> p + n \<le> a"
  have "fold (\<lambda>i m. m(p + 4 * i := 0xdeadbeef)) [0..<k] m a = m a" if "4 * k \<le> n" for k
    using that h by (induction k) auto
  then show ?thesis by (simp add: fill_deadbeef_def)
qed

text \<open>Putting a block back at the head of its page's free list.\<close>

lemma page_free_give:
  assumes pr: "pr_ok r" and pf: "page_free m L r fs" and p: "p \<in> blocks r" "p \<in> L"
  shows "page_free ((fill_deadbeef p (bsize r) m)(p := fhead r)) (L - {p})
    (r\<lparr>freelist_offset := p - PR_PAGEADDR r, nfree := nfree r + 1\<rparr>) (p # fs)"
proof -
  let ?r = "r\<lparr>freelist_offset := p - PR_PAGEADDR r, nfree := nfree r + 1\<rparr>"
  let ?m = "(fill_deadbeef p (bsize r) m)(p := fhead r)"
  note rng = blocks_range [OF pr p(1)]
  have fs: "set fs = blocks r - L" "distinct fs" "chain m (fhead r) fs" "nfree r = length fs"
    using pf by (simp_all add: page_free_def)
  have off: "p - PR_PAGEADDR r < PAGE_SIZE" using rng(1,4) by linarith
  have b: "blocks ?r = blocks r" by (simp add: blocks_def PR_PAGEADDR_def PR_BLOCKTYPE_def)
  have h: "fhead ?r = p" using off rng(1) by (simp add: fhead_def INVALID_OFFSET_def PAGE_SIZE_def PR_PAGEADDR_def)
  have "?m a = m a" if "a \<in> set fs" for a
  proof -
    have a: "a \<in> blocks r" "a \<noteq> p" using that fs(1) p(2) by auto
    have "a + bsize r \<le> p \<or> p + bsize r \<le> a" using blocks_apart [OF pr a(1) p(1) a(2)] .
    then have "a < p \<or> p + bsize r \<le> a" using pr_okD(1) [OF pr] by linarith
    then show ?thesis using a(2) by (simp add: fill_deadbeef_outside)
  qed
  then have "chain ?m (fhead r) fs" using chain_cong [of fs ?m m] fs(3) by blast
  then have "chain ?m p (p # fs)" using rng(5) by simp
  then show ?thesis unfolding page_free_def h b using fs p off by auto
qed

lemma find_holder_spec:
  assumes "\<forall>pr\<in>set prs. PR_BLOCKTYPE (refs pr) < NSIZES"
  shows "\<exists>r. find_holder refs a prs = Some r
    \<and> (case r of
         None \<Rightarrow> \<forall>pr\<in>set prs. \<not> (PR_PAGEADDR (refs pr) \<le> a \<and> a < PR_PAGEADDR (refs pr) + PAGE_SIZE)
       | Some pr \<Rightarrow> pr \<in> set prs \<and> PR_PAGEADDR (refs pr) \<le> a \<and> a < PR_PAGEADDR (refs pr) + PAGE_SIZE)"
  using assms
proof (induction prs)
  case (Cons pr prs)
  then obtain r where r: "find_holder refs a prs = Some r"
    "case r of
         None \<Rightarrow> \<forall>pr\<in>set prs. \<not> (PR_PAGEADDR (refs pr) \<le> a \<and> a < PR_PAGEADDR (refs pr) + PAGE_SIZE)
       | Some pr \<Rightarrow> pr \<in> set prs \<and> PR_PAGEADDR (refs pr) \<le> a \<and> a < PR_PAGEADDR (refs pr) + PAGE_SIZE" by auto
  show ?case
  proof (cases "PR_PAGEADDR (refs pr) \<le> a \<and> a < PR_PAGEADDR (refs pr) + PAGE_SIZE")
    case False
    then show ?thesis using r Cons.prems by (intro exI [of _ r]) (auto split: option.splits)
  qed (use Cons.prems in auto)
qed simp

section \<open>The bits of the roots\<close>

definition inuse :: "kheap_root \<Rightarrow> nat \<Rightarrow> bool" where
  "inuse root idx \<longleftrightarrow> bit (pagerefs_inuse root ! (idx div 32)) (idx mod 32)"

text \<open>A root counts its bits.\<close>

definition root_ok :: "kheap_root \<Rightarrow> bool" where
  "root_ok root \<longleftrightarrow> length (pagerefs_inuse root) = INUSE_WORDS
     \<and> numinuse root = card {idx. idx < NPAGEREFS_PER_PAGE \<and> inuse root idx}"

lemma slot_word: "idx < NPAGEREFS_PER_PAGE \<Longrightarrow> idx div 32 < INUSE_WORDS"
  by (simp add: NPAGEREFS_PER_PAGE_def INUSE_WORDS_def)

lemma inuse_set:
  assumes "length (pagerefs_inuse root) = INUSE_WORDS" "idx < NPAGEREFS_PER_PAGE"
  shows "inuse (set_inuse idx root) j \<longleftrightarrow> j = idx \<or> inuse root j"
proof (cases "j div 32 = idx div 32")
  case True
  have "j = idx \<longleftrightarrow> j mod 32 = idx mod 32" using True by (metis div_mult_mod_eq)
  then show ?thesis using slot_word [OF assms(2)] assms(1) True
    by (auto simp: inuse_def set_inuse_def bit_set_bit_iff)
next
  case False
  then show ?thesis by (auto simp: inuse_def set_inuse_def)
qed

lemma inuse_clear:
  assumes "length (pagerefs_inuse root) = INUSE_WORDS" "idx < NPAGEREFS_PER_PAGE"
  shows "inuse (clear_inuse idx root) j \<longleftrightarrow> j \<noteq> idx \<and> inuse root j"
proof (cases "j div 32 = idx div 32")
  case True
  have "j = idx \<longleftrightarrow> j mod 32 = idx mod 32" using True by (metis div_mult_mod_eq)
  then show ?thesis using slot_word [OF assms(2)] assms(1) True
    by (auto simp: inuse_def clear_inuse_def bit_unset_bit_iff)
next
  case False
  then show ?thesis by (auto simp: inuse_def clear_inuse_def)
qed

lemma root_ok_set:
  assumes "root_ok root" "idx < NPAGEREFS_PER_PAGE" "\<not> inuse root idx"
  shows "root_ok (set_inuse idx root)"
proof -
  have l: "length (pagerefs_inuse root) = INUSE_WORDS" using assms(1) by (simp add: root_ok_def)
  have "{j. j < NPAGEREFS_PER_PAGE \<and> inuse (set_inuse idx root) j}
      = insert idx {j. j < NPAGEREFS_PER_PAGE \<and> inuse root j}"
    using assms(2) by (auto simp: inuse_set [OF l assms(2)])
  then show ?thesis using assms by (simp add: root_ok_def) (simp add: set_inuse_def)
qed

lemma root_ok_clear:
  assumes "root_ok root" "idx < NPAGEREFS_PER_PAGE" "inuse root idx"
  shows "root_ok (clear_inuse idx root)" "0 < numinuse root"
proof -
  have l: "length (pagerefs_inuse root) = INUSE_WORDS" using assms(1) by (simp add: root_ok_def)
  have "{j. j < NPAGEREFS_PER_PAGE \<and> inuse (clear_inuse idx root) j}
      = {j. j < NPAGEREFS_PER_PAGE \<and> inuse root j} - {idx}"
    by (auto simp: inuse_clear [OF l assms(2)])
  then show "root_ok (clear_inuse idx root)" using assms by (simp add: root_ok_def) (simp add: clear_inuse_def)
  have "{j. j < NPAGEREFS_PER_PAGE \<and> inuse root j} \<noteq> {}" using assms(2,3) by blast
  then show "0 < numinuse root" using assms(1) by (simp add: root_ok_def card_gt_0_iff)
qed

text \<open>A root that the search passes over is full.\<close>

lemma root_full:
  assumes ok: "root_ok root" and full: "\<not> (numinuse root < NPAGEREFS_PER_PAGE \<and> find_word root \<noteq> None)" and idx: "idx < NPAGEREFS_PER_PAGE"
  shows "inuse root idx"
proof (cases "numinuse root < NPAGEREFS_PER_PAGE")
  case True
  then have "find (\<lambda>i. pagerefs_inuse root ! i \<noteq> - 1) [0..<INUSE_WORDS] = None"
    using full by (simp add: find_word_def)
  then have "pagerefs_inuse root ! (idx div 32) = - 1" using slot_word [OF idx] by simp
  then show ?thesis by (simp add: inuse_def)
next
  case False
  have "{j. j < NPAGEREFS_PER_PAGE \<and> inuse root j} = {..<NPAGEREFS_PER_PAGE}"
    by (rule card_seteq) (use False ok in \<open>auto simp: root_ok_def\<close>)
  then show ?thesis using idx by blast
qed

lemma find_slot_spec:
  assumes ok: "\<forall>w<NUM_PAGEREFPAGES. root_ok (roots ! w)"
  obtains (full) "find_slot roots = Some None" "\<forall>w<NUM_PAGEREFPAGES. \<forall>idx<NPAGEREFS_PER_PAGE. inuse (roots ! w) idx"
  | (slot) w idx where "find_slot roots = Some (Some (w, idx))" "w < NUM_PAGEREFPAGES" "idx < NPAGEREFS_PER_PAGE"
      "\<not> inuse (roots ! w) idx" "\<forall>v<w. \<forall>idx<NPAGEREFS_PER_PAGE. inuse (roots ! v) idx"
proof (cases "find (\<lambda>w. numinuse (roots ! w) < NPAGEREFS_PER_PAGE \<and> find_word (roots ! w) \<noteq> None) [0..<NUM_PAGEREFPAGES]")
  case None
  then have "\<forall>w<NUM_PAGEREFPAGES. \<forall>idx<NPAGEREFS_PER_PAGE. inuse (roots ! w) idx"
    using root_full ok by (simp only: find_upt_None_iff) blast
  moreover have "find_slot roots = Some None" unfolding find_slot_def None by simp
  ultimately show thesis by (rule full [rotated])
next
  case (Some w)
  then have w: "w < NUM_PAGEREFPAGES" "find_word (roots ! w) \<noteq> None"
    "\<forall>v<w. \<not> (numinuse (roots ! v) < NPAGEREFS_PER_PAGE \<and> find_word (roots ! v) \<noteq> None)" by simp_all
  then obtain i where i: "find_word (roots ! w) = Some i" by blast
  then have i': "i < INUSE_WORDS" "pagerefs_inuse (roots ! w) ! i \<noteq> - 1" by (simp_all add: find_word_def)
  have "\<exists>j<32. \<not> bit (pagerefs_inuse (roots ! w) ! i) j"
  proof (rule ccontr)
    assume "\<not> ?thesis"
    then have "pagerefs_inuse (roots ! w) ! i = - 1" by (intro bit_word_eqI) simp
    then show False using i'(2) by contradiction
  qed
  then have "find (\<lambda>j. \<not> bit (pagerefs_inuse (roots ! w) ! i) j) [0..<32] \<noteq> None" by simp
  then obtain j where j: "find (\<lambda>j. \<not> bit (pagerefs_inuse (roots ! w) ! i) j) [0..<32] = Some j" by blast
  then have j': "j < 32" "\<not> bit (pagerefs_inuse (roots ! w) ! i) j" by simp_all
  have "find_slot roots = Some (Some (w, i * 32 + j))" unfolding find_slot_def Some by (simp add: i j del: find_upt_Some_iff)
  moreover have "i * 32 + j < NPAGEREFS_PER_PAGE" using i'(1) j'(1) by (simp add: INUSE_WORDS_def NPAGEREFS_PER_PAGE_def)
  moreover have "\<not> inuse (roots ! w) (i * 32 + j)" using j' by (simp add: inuse_def)
  moreover have "\<forall>v<w. \<forall>idx<NPAGEREFS_PER_PAGE. inuse (roots ! v) idx"
    using root_full w(1,3) ok by (meson less_trans)
  ultimately show thesis using slot w(1) by blast
qed

text \<open>The search of \<^verbatim>\<open>freepageref\<close> for the root of a pageref.\<close>

lemma freepageref_loop_spec:
  assumes "w \<in> set ws" "kr_page (roots ! w) \<noteq> 0" "inuse (roots ! w) idx" "0 < numinuse (roots ! w)"
    "\<forall>v\<in>set (takeWhile (\<lambda>v. v \<noteq> w) ws). kr_page (roots ! v) = 0 \<longrightarrow> numinuse (roots ! v) = 0"
  shows "freepageref_loop (w, idx) ws roots = Some (roots[w := clear_inuse idx (roots ! w)])"
  using assms
proof (induction ws)
  case (Cons v ws)
  then show ?case by (cases "v = w") (auto simp: inuse_def Let_def)
qed simp

lemma takeWhile_upt_neq: "w < n \<Longrightarrow> set (takeWhile (\<lambda>v. v \<noteq> w) [0..<n]) = {..<w}"
proof -
  assume "w < n"
  then have "[0..<n] = [0..<w] @ w # [Suc w..<n]" by (metis upt_conv_Cons upt_add_eq_append le_add1 le_add_diff_inverse less_imp_le_nat plus_nat.add_0)
  then have "takeWhile (\<lambda>v. v \<noteq> w) [0..<n] = [0..<w]" by (simp add: takeWhile_append)
  then show ?thesis by auto
qed

lemma freepageref_spec:
  assumes "w < NUM_PAGEREFPAGES" "kr_page (kheaproots s ! w) \<noteq> 0" "inuse (kheaproots s ! w) idx" "0 < numinuse (kheaproots s ! w)"
    "\<forall>v<w. kr_page (kheaproots s ! v) = 0 \<longrightarrow> numinuse (kheaproots s ! v) = 0"
  shows "freepageref (w, idx) s = Some (s\<lparr>kheaproots := (kheaproots s)[w := clear_inuse idx (kheaproots s ! w)]\<rparr>)"
  using freepageref_loop_spec [of w "[0..<NUM_PAGEREFPAGES]" "kheaproots s" idx] assms
  by (simp add: freepageref_def takeWhile_upt_neq)

section \<open>The invariant\<close>

fun phase_pages :: "kphase \<Rightarrow> nat list" where
  "phase_pages (Want_ref _ _ prpage) = [prpage]"
| "phase_pages (Want_refpage _ _ prpage _) = [prpage]"
| "phase_pages (Got_refpage _ _ prpage _ va) = (if va = 0 then [prpage] else [prpage, va])"
| "phase_pages (Too_late _ _ prpage _ va) = [prpage, va]"
| "phase_pages (Resume _ _ prpage _) = [prpage]"
| "phase_pages (No_ref prpage) = [prpage]"
| "phase_pages (Free_page page) = [page]"
| "phase_pages _ = []"

fun phase_slots :: "kphase \<Rightarrow> prptr list" where
  "phase_slots (Want_refpage _ _ _ pr) = [pr]"
| "phase_slots (Got_refpage _ _ _ pr _) = [pr]"
| "phase_slots (Too_late _ _ _ pr _) = [pr]"
| "phase_slots (Resume _ _ _ pr) = [pr]"
| "phase_slots _ = []"

text \<open>The pages of a block of a large size.\<close>

definition npages :: "nat \<Rightarrow> nat" where
  "npages sz = (sz + PAGE_SIZE - 1) div PAGE_SIZE"

lemma npages_covers: "sz \<le> npages sz * PAGE_SIZE" "0 < sz \<Longrightarrow> 0 < npages sz" "sz \<le> k * PAGE_SIZE \<Longrightarrow> npages sz \<le> k"
proof -
  have "(sz + PAGE_SIZE - 1) div PAGE_SIZE * PAGE_SIZE + (sz + PAGE_SIZE - 1) mod PAGE_SIZE = sz + PAGE_SIZE - 1" by simp
  moreover have "(sz + PAGE_SIZE - 1) mod PAGE_SIZE < PAGE_SIZE" by (simp add: PAGE_SIZE_def)
  ultimately show le: "sz \<le> npages sz * PAGE_SIZE" unfolding npages_def by linarith
  show "0 < sz \<Longrightarrow> 0 < npages sz" using le by (cases "npages sz") auto
  show "sz \<le> k * PAGE_SIZE \<Longrightarrow> npages sz \<le> k"
    unfolding npages_def by (simp add: PAGE_SIZE_def)
qed

text \<open>What a phase remembers: a block type that fits the size, or the pages for a large size; and that the
  page of its root is there once another call has been seen to install it.\<close>

fun phase_ok :: "nat \<Rightarrow> kheap_root list \<Rightarrow> kphase \<Rightarrow> bool" where
  "phase_ok most roots (Want_page sz b) \<longleftrightarrow> b < NSIZES \<and> sz \<le> sizes ! b \<and> sz < LARGEST_SUBPAGE_SIZE"
| "phase_ok most roots (Want_ref sz b _) \<longleftrightarrow> b < NSIZES \<and> sz \<le> sizes ! b \<and> sz < LARGEST_SUBPAGE_SIZE"
| "phase_ok most roots (Want_refpage sz b _ pr) \<longleftrightarrow> b < NSIZES \<and> sz \<le> sizes ! b \<and> sz < LARGEST_SUBPAGE_SIZE"
| "phase_ok most roots (Got_refpage sz b _ pr _) \<longleftrightarrow> b < NSIZES \<and> sz \<le> sizes ! b \<and> sz < LARGEST_SUBPAGE_SIZE"
| "phase_ok most roots (Too_late sz b _ pr va) \<longleftrightarrow> b < NSIZES \<and> sz \<le> sizes ! b \<and> sz < LARGEST_SUBPAGE_SIZE
     \<and> kr_page (roots ! fst pr) \<noteq> 0"
| "phase_ok most roots (Resume sz b _ pr) \<longleftrightarrow> b < NSIZES \<and> sz \<le> sizes ! b \<and> sz < LARGEST_SUBPAGE_SIZE
     \<and> kr_page (roots ! fst pr) \<noteq> 0"
| "phase_ok most roots (Want_pages sz n) \<longleftrightarrow> n = npages sz \<and> n \<le> most \<and> LARGEST_SUBPAGE_SIZE \<le> sz"
| "phase_ok most roots _ \<longleftrightarrow> True"

definition data_pages :: "'p kheap \<Rightarrow> nat multiset" where
  "data_pages h = image_mset (\<lambda>pr. PR_PAGEADDR (pagerefs h pr)) (mset (allbase h))"

definition root_pages :: "kheap_root list \<Rightarrow> nat multiset" where
  "root_pages roots = mset (filter (\<lambda>p. p \<noteq> 0) (map kr_page roots))"

definition call_pages :: "kphase list \<Rightarrow> nat multiset" where
  "call_pages cs = mset (concat (map phase_pages cs))"

definition call_slots :: "kphase list \<Rightarrow> prptr multiset" where
  "call_slots cs = mset (concat (map phase_slots cs))"

definition big_pages :: "(nat \<times> nat) list \<Rightarrow> nat multiset" where
  "big_pages bs = mset (concat (map (\<lambda>(p, n). span p (npages n)) (filter (\<lambda>b. LARGEST_SUBPAGE_SIZE \<le> snd b) bs)))"

text \<open>All pages that the heap, its calls and its users hold, and all pagerefs marked in use.\<close>

definition pagebag :: "'p ksys \<Rightarrow> nat multiset" where
  "pagebag s = data_pages (heap s) + root_pages (kheaproots (heap s)) + call_pages (calls s) + big_pages (live s)"

definition slotbag :: "'p ksys \<Rightarrow> prptr multiset" where
  "slotbag s = mset (allbase (heap s)) + call_slots (calls s) + mset (lost s)"

definition pages_ok :: "('p \<Rightarrow> bool) \<Rightarrow> ('p \<Rightarrow> nat set) \<Rightarrow> 'p \<Rightarrow> nat multiset \<Rightarrow> bool" where
  "pages_ok pok handed p B \<longleftrightarrow> pok p \<and> (\<forall>x. x \<in># B \<longrightarrow> kpage x \<and> x \<in> handed p \<and> count B x = 1)"

definition slots_ok :: "kheap_root list \<Rightarrow> prptr list \<Rightarrow> prptr multiset \<Rightarrow> bool" where
  "slots_ok roots as S \<longleftrightarrow> length roots = NUM_PAGEREFPAGES
     \<and> (\<forall>w. w < NUM_PAGEREFPAGES \<longrightarrow> root_ok (roots ! w))
     \<and> (\<forall>x. x \<in># S \<longrightarrow> fst x < NUM_PAGEREFPAGES \<and> snd x < NPAGEREFS_PER_PAGE \<and> count S x = 1)
     \<and> (\<forall>w idx. w < NUM_PAGEREFPAGES \<longrightarrow> idx < NPAGEREFS_PER_PAGE \<longrightarrow> inuse (roots ! w) idx = ((w, idx) \<in># S))
     \<and> (\<forall>pr. pr \<in> set as \<longrightarrow> kr_page (roots ! fst pr) \<noteq> 0)
     \<and> (\<forall>v w. v < w \<longrightarrow> w < NUM_PAGEREFPAGES \<longrightarrow> 0 < numinuse (roots ! w) \<longrightarrow> kr_page (roots ! v) \<noteq> 0)"

definition lists_ok :: "'p kheap \<Rightarrow> bool" where
  "lists_ok h \<longleftrightarrow> length (sizebases h) = NSIZES
     \<and> (\<forall>b. b < NSIZES \<longrightarrow> distinct (sizebases h ! b)
          \<and> set (sizebases h ! b) = {pr \<in> set (allbase h). PR_BLOCKTYPE (pagerefs h pr) = b})"

definition blocks_ok :: "'p kheap \<Rightarrow> nat set \<Rightarrow> bool" where
  "blocks_ok h L \<longleftrightarrow> (\<forall>pr. pr \<in> set (allbase h) \<longrightarrow> page_ok (kmem h) L (pagerefs h pr))"

definition live_ok :: "'p kheap \<Rightarrow> (nat \<times> nat) list \<Rightarrow> bool" where
  "live_ok h bs \<longleftrightarrow> distinct (map fst bs)
     \<and> (\<forall>p n. (p, n) \<in> set bs \<longrightarrow> n < LARGEST_SUBPAGE_SIZE \<longrightarrow>
          (\<exists>pr\<in>set (allbase h). p \<in> blocks (pagerefs h pr) \<and> n \<le> bsize (pagerefs h pr)))"

abbreviation liveset :: "'p ksys \<Rightarrow> nat set" where
  "liveset s \<equiv> fst ` set (live s)"

definition kcore :: "nat \<Rightarrow> ('p \<Rightarrow> bool) \<Rightarrow> ('p \<Rightarrow> nat set) \<Rightarrow> 'p ksys \<Rightarrow> bool" where
  "kcore most pok handed s \<longleftrightarrow>
     pages_ok pok handed (pagesrc (heap s)) (pagebag s)
     \<and> slots_ok (kheaproots (heap s)) (allbase (heap s)) (slotbag s)
     \<and> (\<forall>t. t < length (calls s) \<longrightarrow> phase_ok most (kheaproots (heap s)) (calls s ! t))
     \<and> lists_ok (heap s) \<and> blocks_ok (heap s) (liveset s) \<and> live_ok (heap s) (live s)"

text \<open>Every page has a block in use, except perhaps those of a set.\<close>

definition busy_but :: "prptr set \<Rightarrow> 'p ksys \<Rightarrow> bool" where
  "busy_but X s \<longleftrightarrow> (\<forall>pr. pr \<in> set (allbase (heap s)) \<longrightarrow> pr \<notin> X \<longrightarrow> blocks (pagerefs (heap s) pr) \<inter> liveset s \<noteq> {})"

lemma kcoreD:
  assumes "kcore most pok handed s"
  shows "pages_ok pok handed (pagesrc (heap s)) (pagebag s)"
    "slots_ok (kheaproots (heap s)) (allbase (heap s)) (slotbag s)"
    "\<And>t. t < length (calls s) \<Longrightarrow> phase_ok most (kheaproots (heap s)) (calls s ! t)"
    "lists_ok (heap s)" "blocks_ok (heap s) (liveset s)" "live_ok (heap s) (live s)"
  using assms by (simp_all add: kcore_def)

lemma concat_update:
  "t < length cs \<Longrightarrow> mset (concat (map f (cs[t := x]))) + mset (f (cs ! t)) = mset (concat (map f cs)) + mset (f x)"
proof (induction cs arbitrary: t)
  case (Cons c cs)
  then show ?case by (cases t) (auto simp: ac_simps)
qed simp

lemma call_pages_update:
  "t < length cs \<Longrightarrow> call_pages (cs[t := x]) + mset (phase_pages (cs ! t)) = call_pages cs + mset (phase_pages x)"
  by (simp add: call_pages_def concat_update)

lemma call_slots_update:
  "t < length cs \<Longrightarrow> call_slots (cs[t := x]) + mset (phase_slots (cs ! t)) = call_slots cs + mset (phase_slots x)"
  by (simp add: call_slots_def concat_update)

text \<open>Two pages of the heap are different.\<close>

lemma data_pages_inj:
  assumes "\<And>x. x \<in># B \<Longrightarrow> count B x = 1" "data_pages h \<subseteq># B" "pr \<in> set (allbase h)" "pr' \<in> set (allbase h)" "pr \<noteq> pr'"
  shows "PR_PAGEADDR (pagerefs h pr) \<noteq> PR_PAGEADDR (pagerefs h pr')"
proof
  assume eq: "PR_PAGEADDR (pagerefs h pr) = PR_PAGEADDR (pagerefs h pr')"
  have "{#pr, pr'#} \<subseteq># mset (allbase h)"
    using assms(3-5) by (simp add: insert_subset_eq_iff in_diff_count)
  then have "image_mset (\<lambda>pr. PR_PAGEADDR (pagerefs h pr)) {#pr, pr'#} \<subseteq># data_pages h"
    unfolding data_pages_def by (rule image_mset_subseteq_mono)
  then have "{#PR_PAGEADDR (pagerefs h pr), PR_PAGEADDR (pagerefs h pr')#} \<subseteq># B"
    using assms(2) by (metis (no_types, lifting) image_mset_add_mset image_mset_empty subset_mset.order_trans)
  then have "2 \<le> count B (PR_PAGEADDR (pagerefs h pr))"
    using eq by (metis mset_subset_eq_count count_add_mset one_add_one plus_1_eq_Suc count_empty numeral_2_eq_2)
  moreover from this have "PR_PAGEADDR (pagerefs h pr) \<in># B" by (metis count_inI not_numeral_le_zero)
  ultimately show False using assms(1) by force
qed

section \<open>Consequences of the invariant\<close>

lemma kpages_apart:
  assumes "kpage p" "kpage q" "p \<noteq> q"
  shows "p + PAGE_SIZE \<le> q \<or> q + PAGE_SIZE \<le> p"
proof -
  obtain i j where ij: "p = PAGE_SIZE * i" "q = PAGE_SIZE * j"
    using kpageD(4) [OF assms(1)] kpageD(4) [OF assms(2)] by (auto elim!: dvdE)
  have "PAGE_SIZE * Suc i \<le> PAGE_SIZE * j \<or> PAGE_SIZE * Suc j \<le> PAGE_SIZE * i"
    using assms(3) ij by (metis linorder_neqE_nat Suc_leI mult_le_mono2)
  then show ?thesis using ij by auto
qed

text \<open>A page that is not one of a run of pages lies before or behind them; so do two runs without a common page.\<close>

lemma span_apart:
  assumes "PAGE_SIZE dvd p" "PAGE_SIZE dvd q" "q \<notin> set (span p n)"
  shows "p + n * PAGE_SIZE \<le> q \<or> q + PAGE_SIZE \<le> p"
proof (cases "p \<le> q")
  case True
  then show ?thesis using aligned_in_span [OF assms(1,2), of n] assms(3) by linarith
next
  case False
  obtain i j where ij: "p = PAGE_SIZE * i" "q = PAGE_SIZE * j" using assms(1,2) by (auto elim!: dvdE)
  then have "j < i" using False by simp
  then have "PAGE_SIZE * Suc j \<le> PAGE_SIZE * i" by (simp only: mult_le_mono2 Suc_leI)
  then show ?thesis using ij by simp
qed

lemma spans_apart:
  assumes "PAGE_SIZE dvd p" "PAGE_SIZE dvd q" "set (span p n) \<inter> set (span q m) = {}" "0 < n" "0 < m"
  shows "p + n * PAGE_SIZE \<le> q \<or> q + m * PAGE_SIZE \<le> p"
proof -
  have "p \<in> set (span p n)" "q \<in> set (span q m)" using assms(4,5) by (auto simp: in_span)
  then have "p \<notin> set (span q m)" "q \<notin> set (span p n)" using assms(3) by blast+
  then show ?thesis using span_apart [OF assms(1,2), of n] span_apart [OF assms(2,1), of m] by (auto simp: PAGE_SIZE_def)
qed

lemma pages_ok_subset: "pages_ok pok handed p B \<Longrightarrow> B' \<subseteq># B \<Longrightarrow> pages_ok pok handed p B'"
  unfolding pages_ok_def by (metis count_greater_eq_one_iff le_antisym mset_subset_eqD mset_subset_eq_count)

lemma pages_okD:
  assumes "pages_ok pok handed p B" "x \<in># B"
  shows "kpage x" "x \<in> handed p" "count B x = 1"
  using assms by (auto simp: pages_ok_def)

lemma bag_parts:
  "data_pages (heap s) \<subseteq># pagebag s" "root_pages (kheaproots (heap s)) \<subseteq># pagebag s"
  "call_pages (calls s) \<subseteq># pagebag s" "big_pages (live s) \<subseteq># pagebag s"
  by (simp_all add: pagebag_def subset_mset.add_increasing subset_mset.add_increasing2)

lemma same_pab:
  assumes "pageaddr_and_blocktype r' = pageaddr_and_blocktype r"
  shows "PR_PAGEADDR r' = PR_PAGEADDR r" "PR_BLOCKTYPE r' = PR_BLOCKTYPE r" "blocks r' = blocks r" "pr_ok r' = pr_ok r"
  using assms by (simp_all add: PR_PAGEADDR_def PR_BLOCKTYPE_def blocks_def pr_ok_def)

lemma core_pr:
  assumes "kcore most pok handed s" "pr \<in> set (allbase (heap s))"
  shows "pr_ok (pagerefs (heap s) pr)" "\<exists>fs. page_free (kmem (heap s)) (liveset s) (pagerefs (heap s) pr) fs"
    "PR_PAGEADDR (pagerefs (heap s) pr) \<in># pagebag s"
proof -
  show "pr_ok (pagerefs (heap s) pr)" "\<exists>fs. page_free (kmem (heap s)) (liveset s) (pagerefs (heap s) pr) fs"
    using kcoreD(5) [OF assms(1)] assms(2) by (auto simp: blocks_ok_def page_ok_def)
  have "PR_PAGEADDR (pagerefs (heap s) pr) \<in># data_pages (heap s)" using assms(2) by (simp add: data_pages_def)
  then show "PR_PAGEADDR (pagerefs (heap s) pr) \<in># pagebag s" using bag_parts(1) [of s] by (meson mset_subset_eqD)
qed

text \<open>An address lies on at most one page of the heap.\<close>

lemma holder_unique:
  assumes core: "kcore most pok handed s" and pr: "pr \<in> set (allbase (heap s))" "pr' \<in> set (allbase (heap s))"
    and a: "PR_PAGEADDR (pagerefs (heap s) pr) \<le> a" "a < PR_PAGEADDR (pagerefs (heap s) pr) + PAGE_SIZE"
      "PR_PAGEADDR (pagerefs (heap s) pr') \<le> a" "a < PR_PAGEADDR (pagerefs (heap s) pr') + PAGE_SIZE"
  shows "pr' = pr"
proof (rule ccontr)
  assume "pr' \<noteq> pr"
  then have ne: "PR_PAGEADDR (pagerefs (heap s) pr) \<noteq> PR_PAGEADDR (pagerefs (heap s) pr')"
    using data_pages_inj [OF pages_okD(3) [OF kcoreD(1) [OF core]] bag_parts(1) pr] by blast
  show False
    using kpages_apart [OF pr_okD(6) [OF core_pr(1) [OF core pr(1)]] pr_okD(6) [OF core_pr(1) [OF core pr(2)]] ne] a
    by linarith
qed

lemma block_holder_unique:
  assumes core: "kcore most pok handed s" and pr: "pr \<in> set (allbase (heap s))" "pr' \<in> set (allbase (heap s))"
    and a: "a \<in> blocks (pagerefs (heap s) pr)" "a \<in> blocks (pagerefs (heap s) pr')"
  shows "pr' = pr"
proof -
  note r = blocks_range [OF core_pr(1) [OF core pr(1)] a(1)] and r' = blocks_range [OF core_pr(1) [OF core pr(2)] a(2)]
  show ?thesis by (rule holder_unique [OF core pr r(1,4) r'(1,4)])
qed

text \<open>A large block is a page that no page of small blocks meets.\<close>

lemma count_parts_disjoint:
  assumes "\<And>x. x \<in># A + B + C \<Longrightarrow> count (A + B + C) x = 1" "x \<in># A" "x \<in># B"
  shows False
proof -
  have "count A x \<noteq> 0" "count B x \<noteq> 0" using assms(2,3) by (simp_all only: not_in_iff [symmetric] not_not)
  moreover have "count A x + count B x + count C x = 1" using assms(1) [of x] assms(2) by simp
  ultimately show False by linarith
qed

lemma big_pages_member:
  assumes "(p, n) \<in> set bs" "LARGEST_SUBPAGE_SIZE \<le> n"
  shows "x \<in> set (span p (npages n)) \<Longrightarrow> x \<in># big_pages bs" "p \<in># big_pages bs" "0 < npages n"
proof -
  show in_big: "x \<in># big_pages bs" if "x \<in> set (span p (npages n))" for x using assms that by (force simp: big_pages_def)
  show "0 < npages n" using assms(2) npages_covers(2) [of n] by (simp add: LARGEST_SUBPAGE_SIZE_def)
  then show "p \<in># big_pages bs" by (intro in_big) (auto simp: in_span)
qed

lemma big_apart:
  assumes core: "kcore most pok handed s" and b: "(p, n) \<in> set (live s)" "LARGEST_SUBPAGE_SIZE \<le> n" and pr: "pr \<in> set (allbase (heap s))"
  shows "p + n \<le> PR_PAGEADDR (pagerefs (heap s) pr) \<or> PR_PAGEADDR (pagerefs (heap s) pr) + PAGE_SIZE \<le> p"
    "p \<notin> blocks (pagerefs (heap s) pr)"
proof -
  let ?q = "PR_PAGEADDR (pagerefs (heap s) pr)"
  note bm = big_pages_member [OF b]
  have kp: "kpage p" using bm(2) bag_parts(4) [of s] pages_okD(1) [OF kcoreD(1) [OF core]] by (meson mset_subset_eqD)
  have "?q \<in># data_pages (heap s)" using pr by (simp add: data_pages_def)
  then have "?q \<notin> set (span p (npages n))"
    using count_parts_disjoint [of "data_pages (heap s)" "big_pages (live s)"
        "root_pages (kheaproots (heap s)) + call_pages (calls s)" ?q] bm(1) [of ?q] pages_okD(3) [OF kcoreD(1) [OF core]]
    by (auto simp: pagebag_def ac_simps)
  then have "p + npages n * PAGE_SIZE \<le> ?q \<or> ?q + PAGE_SIZE \<le> p"
    using span_apart [OF kpageD(4) [OF kp] kpageD(4) [OF pr_okD(6) [OF core_pr(1) [OF core pr]]]] by blast
  then show ap: "p + n \<le> ?q \<or> ?q + PAGE_SIZE \<le> p" using npages_covers(1) [of n] by linarith
  show "p \<notin> blocks (pagerefs (heap s) pr)"
    using ap blocks_range(1,4) [OF core_pr(1) [OF core pr], of p] b(2) by (auto simp: LARGEST_SUBPAGE_SIZE_def)
qed

lemma live_cases:
  assumes core: "kcore most pok handed s" and b: "(p, n) \<in> set (live s)"
  obtains (small) pr where "n < LARGEST_SUBPAGE_SIZE" "pr \<in> set (allbase (heap s))" "p \<in> blocks (pagerefs (heap s) pr)"
      "n \<le> bsize (pagerefs (heap s) pr)"
  | (big) "LARGEST_SUBPAGE_SIZE \<le> n" "kpage p" "\<And>x. x \<in> set (span p (npages n)) \<Longrightarrow> x \<in># pagebag s" "p \<in># pagebag s"
proof (cases "n < LARGEST_SUBPAGE_SIZE")
  case True
  then show thesis using kcoreD(6) [OF core] b small unfolding live_ok_def by blast
next
  case False
  then have bm: "\<And>x. x \<in> set (span p (npages n)) \<Longrightarrow> x \<in># pagebag s" "p \<in># pagebag s"
    using big_pages_member [OF b] bag_parts(4) [of s] by (simp, meson mset_subset_eqD, simp, meson mset_subset_eqD)
  then show thesis using big False pages_okD(1) [OF kcoreD(1) [OF core]] by simp
qed

section \<open>The steps\<close>

lemma kfinish_simps [simp]:
  "heap (kfinish t sz h out s) = h" "lost (kfinish t sz h out s) = lost s"
  "calls (kfinish t sz h (Done p) s) = (calls s)[t := Idle]" "calls (kfinish t sz h (Wait ph) s) = (calls s)[t := ph]"
  "live (kfinish t sz h (Wait ph) s) = live s"
  "live (kfinish t sz h (Done p) s) = (if p = 0 then live s else (p, sz) # live s)"
  by (simp_all add: kfinish_def split: kout.splits)

lemma phases_update:
  "(\<And>u. u < length cs \<Longrightarrow> phase_ok most roots (cs ! u)) \<Longrightarrow> phase_ok most roots x \<Longrightarrow> u < length cs \<Longrightarrow> phase_ok most roots (cs[t := x] ! u)"
  by (cases "u = t") simp_all

lemma live_ok_mono:
  assumes "live_ok h bs" "set (allbase h) \<subseteq> set (allbase h')"
    "\<And>pr. pr \<in> set (allbase h) \<Longrightarrow> pageaddr_and_blocktype (pagerefs h' pr) = pageaddr_and_blocktype (pagerefs h pr)"
  shows "live_ok h' bs"
proof -
  have "p \<in> blocks (pagerefs h' pr) \<and> n \<le> bsize (pagerefs h' pr) \<and> pr \<in> set (allbase h')"
    if "pr \<in> set (allbase h)" "p \<in> blocks (pagerefs h pr)" "n \<le> bsize (pagerefs h pr)" for pr p n
    using that same_pab [OF assms(3) [OF that(1)]] assms(2) by auto
  then show ?thesis using assms(1) unfolding live_ok_def by meson
qed

lemma live_ok_Cons:
  assumes "live_ok h bs" "p \<notin> fst ` set bs"
    "n < LARGEST_SUBPAGE_SIZE \<Longrightarrow> \<exists>pr\<in>set (allbase h). p \<in> blocks (pagerefs h pr) \<and> n \<le> bsize (pagerefs h pr)"
  shows "live_ok h ((p, n) # bs)"
  using assms by (simp add: live_ok_def)

text \<open>Taking a block from a page that has a free one.\<close>

lemma take_block:
  assumes core: "kcore most pok handed s" and busy: "busy_but {pr} s" and pr: "pr \<in> set (allbase (heap s))"
    and nf: "0 < nfree (pagerefs (heap s) pr)" and t: "t < length (calls s)" "phase_pages (calls s ! t) = []" "phase_slots (calls s ! t) = []"
    and sz: "sz \<le> bsize (pagerefs (heap s) pr)" "sz < LARGEST_SUBPAGE_SIZE"
  shows "\<exists>h p. doalloc pr (heap s) = Some (h, p) \<and> p \<noteq> 0 \<and> p \<notin> liveset s \<and> kmem h = kmem (heap s)
    \<and> kcore most pok handed (kfinish t sz h (Done p) s) \<and> busy_but {} (kfinish t sz h (Done p) s)"
proof -
  let ?r = "pagerefs (heap s) pr"
  obtain fs where fs: "page_free (kmem (heap s)) (liveset s) ?r fs" using core_pr(2) [OF core pr] by blast
  obtain r' where r': "doalloc pr (heap s) = Some ((heap s)\<lparr>pagerefs := (pagerefs (heap s))(pr := r')\<rparr>, hd fs)"
    "pageaddr_and_blocktype r' = pageaddr_and_blocktype ?r" "hd fs \<in> blocks ?r" "hd fs \<notin> liveset s"
    "page_free (kmem (heap s)) (insert (hd fs) (liveset s)) r' (tl fs)"
    using doalloc_spec [OF core_pr(1) [OF core pr] fs nf] by blast
  let ?p = "hd fs" and ?h = "(heap s)\<lparr>pagerefs := (pagerefs (heap s))(pr := r')\<rparr>"
  let ?s = "kfinish t sz ?h (Done ?p) s"
  note sp = same_pab [OF r'(2)]
  have p0: "?p \<noteq> 0" using blocks_range(5) [OF core_pr(1) [OF core pr] r'(3)] by simp
  have pa: "PR_PAGEADDR (pagerefs ?h q) = PR_PAGEADDR (pagerefs (heap s) q)"
    "PR_BLOCKTYPE (pagerefs ?h q) = PR_BLOCKTYPE (pagerefs (heap s) q)" "blocks (pagerefs ?h q) = blocks (pagerefs (heap s) q)" for q
    using sp by simp_all
  have "call_pages ((calls s)[t := Idle]) = call_pages (calls s)" "call_slots ((calls s)[t := Idle]) = call_slots (calls s)"
    using call_pages_update [OF t(1), of Idle] call_slots_update [OF t(1), of Idle] t(2,3) by simp_all
  moreover have "data_pages ?h = data_pages (heap s)" by (simp only: data_pages_def pa) simp
  moreover have "big_pages ((?p, sz) # live s) = big_pages (live s)" using sz(2) by (simp add: big_pages_def)
  ultimately have bags: "pagebag ?s = pagebag s" "slotbag ?s = slotbag s"
    using p0 by (simp_all add: pagebag_def slotbag_def)
  have "page_ok (kmem ?h) (liveset ?s) (pagerefs ?h q)" if q: "q \<in> set (allbase (heap s))" for q
  proof (cases "q = pr")
    case True
    then show ?thesis using r'(5) core_pr(1) [OF core pr] sp(4) p0 by (auto simp: page_ok_def)
  next
    case False
    obtain gs where gs: "page_free (kmem (heap s)) (liveset s) (pagerefs (heap s) q) gs" using core_pr(2) [OF core q] by blast
    have "?p \<notin> blocks (pagerefs (heap s) q)" using block_holder_unique [OF core pr q r'(3)] False by blast
    then have "page_free (kmem (heap s)) (insert ?p (liveset s)) (pagerefs (heap s) q) gs"
      by (intro page_free_frame [OF gs]) auto
    then show ?thesis using False core_pr(1) [OF core q] p0 by (auto simp: page_ok_def)
  qed
  then have "blocks_ok ?h (liveset ?s)" by (simp add: blocks_ok_def)
  moreover have "live_ok ?h (live s)" by (rule live_ok_mono [OF kcoreD(6) [OF core]]) (use r'(2) in auto)
  then have "live_ok ?h ((?p, sz) # live s)"
    using r'(3,4) pr sz sp by (intro live_ok_Cons) (auto simp: PAGE_SIZE_def LARGEST_SUBPAGE_SIZE_def)
  then have "live_ok ?h (live ?s)" using p0 by simp
  moreover have "lists_ok ?h" using kcoreD(4) [OF core] by (simp only: lists_ok_def pa) simp
  moreover have "phase_ok most (kheaproots (heap s)) ((calls s)[t := Idle] ! u)" if "u < length (calls s)" for u
    using phases_update [OF kcoreD(3) [OF core], of Idle u t] that by simp
  ultimately have "kcore most pok handed ?s"
    using kcoreD(1,2) [OF core] by (simp add: kcore_def bags)
  moreover have "busy_but {} ?s"
    using busy r'(3) p0 sp(3) by (auto simp: busy_but_def)
  ultimately show ?thesis using r'(1,4) p0 by auto
qed

text \<open>A page that a call holds has no block in use, and no other page of the heap is that page.\<close>

lemma call_page_apart:
  assumes core: "kcore most pok handed s" and pg: "pg \<in># call_pages (calls s)"
  shows "kpage pg" "pr \<in> set (allbase (heap s)) \<Longrightarrow> a \<in> blocks (pagerefs (heap s) pr) \<Longrightarrow>
      a + bsize (pagerefs (heap s) pr) \<le> pg \<or> pg + PAGE_SIZE \<le> a"
    "(p, n) \<in> set (live s) \<Longrightarrow> p + n \<le> pg \<or> pg + PAGE_SIZE \<le> p" "p \<in> liveset s \<Longrightarrow> p < pg \<or> pg + PAGE_SIZE \<le> p"
proof -
  note one = pages_okD(3) [OF kcoreD(1) [OF core]]
  show kp: "kpage pg" using pg bag_parts(3) [of s] pages_okD(1) [OF kcoreD(1) [OF core]] by (meson mset_subset_eqD)
  have prs: "a + bsize (pagerefs (heap s) pr) \<le> pg \<or> pg + PAGE_SIZE \<le> a"
    if "pr \<in> set (allbase (heap s))" "a \<in> blocks (pagerefs (heap s) pr)" for pr a
  proof -
    let ?q = "PR_PAGEADDR (pagerefs (heap s) pr)"
    have "?q \<in># data_pages (heap s)" using that(1) by (simp add: data_pages_def)
    then have ne: "pg \<noteq> ?q"
      using count_parts_disjoint [of "data_pages (heap s)" "call_pages (calls s)"
          "root_pages (kheaproots (heap s)) + big_pages (live s)" pg] pg one by (auto simp: pagebag_def ac_simps)
    show ?thesis
      using kpages_apart [OF kp pr_okD(6) [OF core_pr(1) [OF core that(1)]] ne]
        blocks_range(1,2) [OF core_pr(1) [OF core that(1)] that(2)] by linarith
  qed
  then show "pr \<in> set (allbase (heap s)) \<Longrightarrow> a \<in> blocks (pagerefs (heap s) pr) \<Longrightarrow>
      a + bsize (pagerefs (heap s) pr) \<le> pg \<or> pg + PAGE_SIZE \<le> a" .
  have lv: "p + n \<le> pg \<or> pg + PAGE_SIZE \<le> p" if b: "(p, n) \<in> set (live s)" for p n
    using core b
  proof (cases rule: live_cases)
    case (small pr)
    then show ?thesis using prs [OF small(2,3)] by linarith
  next
    case big
    have "pg \<notin> set (span p (npages n))"
      using count_parts_disjoint [of "big_pages (live s)" "call_pages (calls s)"
          "root_pages (kheaproots (heap s)) + data_pages (heap s)" pg] big_pages_member(1) [OF b big(1)] pg one
      by (auto simp: pagebag_def ac_simps)
    then show ?thesis
      using span_apart [OF kpageD(4) [OF big(2)] kpageD(4) [OF kp]] npages_covers(1) [of n] by fastforce
  qed
  show "(p, n) \<in> set (live s) \<Longrightarrow> p + n \<le> pg \<or> pg + PAGE_SIZE \<le> p" by (rule lv)
  show "p < pg \<or> pg + PAGE_SIZE \<le> p" if l: "p \<in> liveset s" for p
  proof -
    obtain n where b: "(p, n) \<in> set (live s)" using l by force
    have "p \<noteq> pg"
      using core b
    proof (cases rule: live_cases)
      case (small pr)
      then show ?thesis using prs [OF small(2,3)] pr_okD(1) [OF core_pr(1) [OF core small(2)]] by (auto simp: PAGE_SIZE_def)
    next
      case big
      then show ?thesis using lv [OF b] by (auto simp: LARGEST_SUBPAGE_SIZE_def PAGE_SIZE_def)
    qed
    then show ?thesis using lv [OF b] by linarith
  qed
qed

lemma in_call_pages: "t < length cs \<Longrightarrow> p \<in> set (phase_pages (cs ! t)) \<Longrightarrow> p \<in># call_pages cs"
  by (force simp: call_pages_def)

lemma in_call_slots: "t < length cs \<Longrightarrow> p \<in> set (phase_slots (cs ! t)) \<Longrightarrow> p \<in># call_slots cs"
  by (force simp: call_slots_def)

lemma slots_okD:
  assumes "slots_ok roots as S"
  shows "length roots = NUM_PAGEREFPAGES" "\<And>w. w < NUM_PAGEREFPAGES \<Longrightarrow> root_ok (roots ! w)"
    "\<And>x. x \<in># S \<Longrightarrow> fst x < NUM_PAGEREFPAGES \<and> snd x < NPAGEREFS_PER_PAGE \<and> count S x = 1"
    "\<And>w idx. w < NUM_PAGEREFPAGES \<Longrightarrow> idx < NPAGEREFS_PER_PAGE \<Longrightarrow> inuse (roots ! w) idx = ((w, idx) \<in># S)"
    "\<And>pr. pr \<in> set as \<Longrightarrow> kr_page (roots ! fst pr) \<noteq> 0"
    "\<And>v w. v < w \<Longrightarrow> w < NUM_PAGEREFPAGES \<Longrightarrow> 0 < numinuse (roots ! w) \<Longrightarrow> kr_page (roots ! v) \<noteq> 0"
  using assms unfolding slots_ok_def by blast+

text \<open>Setting up the page that a call holds, with its pageref.\<close>

lemma add_page:
  assumes core: "kcore most pok handed s" and busy: "busy_but {} s" and t: "t < length (calls s)" "calls s ! t = Resume sz b pg pr"
  defines "s' \<equiv> s\<lparr>heap := setup_page b pg pr (heap s), calls := (calls s)[t := Idle]\<rparr>"
  shows "kcore most pok handed s'" "busy_but {pr} s'" "pr \<in> set (allbase (heap s'))" "0 < nfree (pagerefs (heap s') pr)"
    "bsize (pagerefs (heap s') pr) = sizes ! b" "\<And>a. a < pg \<or> pg + PAGE_SIZE \<le> a \<Longrightarrow> kmem (heap s') a = kmem (heap s) a"
proof -
  have ph: "b < NSIZES" "kr_page (kheaproots (heap s) ! fst pr) \<noteq> 0" using kcoreD(3) [OF core t(1)] t(2) by auto
  have pgc: "pg \<in># call_pages (calls s)" using in_call_pages [OF t(1), of pg] t(2) by simp
  note ap = call_page_apart [OF core pgc]
  note f = fresh_ref_parts [OF ap(1) ph(1)]
  have prc: "pr \<in># call_slots (calls s)" using in_call_slots [OF t(1), of pr] t(2) by simp
  have new: "pr \<notin> set (allbase (heap s))"
    using count_parts_disjoint [of "mset (allbase (heap s))" "call_slots (calls s)" "mset (lost s)" pr] prc
      slots_okD(3) [OF kcoreD(2) [OF core]] by (auto simp: slotbag_def)
  have h: "heap s' = (heap s)\<lparr>pagerefs := (pagerefs (heap s))(pr := fresh_ref b pg),
     kmem := link_blocks pg (sizes ! b) (PAGE_SIZE div (sizes ! b)) (kmem (heap s)),
     sizebases := (sizebases (heap s))[b := pr # sizebases (heap s) ! b], allbase := pr # allbase (heap s)\<rparr>"
    by (simp add: s'_def setup_page_eq)
  have s': "calls s' = (calls s)[t := Idle]" "live s' = live s" "lost s' = lost s" by (simp_all add: s'_def)
  show mem: "kmem (heap s') a = kmem (heap s) a" if "a < pg \<or> pg + PAGE_SIZE \<le> a" for a
    using link_blocks_outside [OF ph(1) that] by (simp add: h)
  have "call_pages ((calls s)[t := Idle]) + {#pg#} = call_pages (calls s)"
    "call_slots ((calls s)[t := Idle]) + {#pr#} = call_slots (calls s)"
    using call_pages_update [OF t(1), of Idle] call_slots_update [OF t(1), of Idle] t(2) by simp_all
  moreover have "data_pages (heap s') = data_pages (heap s) + {#pg#}"
    using new f(1) by (auto simp: data_pages_def h intro!: image_mset_cong)
  ultimately have bags: "pagebag s' = pagebag s" "slotbag s' = slotbag s"
    by (simp_all add: pagebag_def slotbag_def s') (simp_all add: h ac_simps flip: add.assoc)
  have "page_ok (kmem (heap s')) (liveset s') (pagerefs (heap s') q)" if q: "q \<in> set (allbase (heap s'))" for q
  proof (cases "q = pr")
    case True
    have "a \<notin> liveset s" if "a \<in> blocks (fresh_ref b pg)" for a
      using blocks_range(1,4) [OF f(3) that] ap(4) [of a] by (auto simp: f(1))
    then have "blocks (fresh_ref b pg) \<inter> liveset s = {}" by blast
    from fresh_page_free [OF ap(1) ph(1) this, of "kmem (heap s)"] show ?thesis
      using f(3) True by (auto simp: page_ok_def h s')
  next
    case False
    then have q': "q \<in> set (allbase (heap s))" using q by (simp add: h)
    obtain gs where gs: "page_free (kmem (heap s)) (liveset s) (pagerefs (heap s) q) gs" using core_pr(2) [OF core q'] by blast
    have "kmem (heap s') a = kmem (heap s) a" if "a \<in> blocks (pagerefs (heap s) q)" for a
      using ap(2) [OF q' that] pr_okD(1) [OF core_pr(1) [OF core q']] by (intro mem) linarith
    then have "page_free (kmem (heap s')) (liveset s) (pagerefs (heap s) q) gs"
      by (intro page_free_frame [OF gs]) auto
    then show ?thesis using core_pr(1) [OF core q'] False by (auto simp: page_ok_def h s')
  qed
  then have "blocks_ok (heap s') (liveset s')" by (simp add: blocks_ok_def)
  moreover have "live_ok (heap s') (live s')"
    unfolding s' by (rule live_ok_mono [OF kcoreD(6) [OF core]]) (use new in \<open>auto simp: h\<close>)
  moreover have "lists_ok (heap s')"
    using kcoreD(4) [OF core] new ph(1) f(2) by (auto simp: lists_ok_def h nth_list_update)
  moreover have "slots_ok (kheaproots (heap s')) (allbase (heap s')) (slotbag s')"
    using kcoreD(2) [OF core] ph(2) by (simp add: slots_ok_def bags h)
  moreover have "phase_ok most (kheaproots (heap s)) ((calls s)[t := Idle] ! u)" if "u < length (calls s)" for u
    using phases_update [OF kcoreD(3) [OF core], of Idle u t] that by simp
  ultimately show "kcore most pok handed s'"
    using kcoreD(1) [OF core] by (simp add: kcore_def bags h s')
  show "busy_but {pr} s'" using busy by (simp add: busy_but_def h s')
  show "pr \<in> set (allbase (heap s'))" "0 < nfree (pagerefs (heap s') pr)" "bsize (pagerefs (heap s') pr) = sizes ! b"
    using f(2,4) sizes_bounds(5) [OF ph(1)] by (simp_all add: h)
qed

lemma kfinish_Done_again: "kfinish t sz h (Done p) (s\<lparr>heap := h', calls := (calls s)[t := ph]\<rparr>) = kfinish t sz h (Done p) s"
  by (simp add: kfinish_def)

text \<open>Using the page that a call holds: it becomes a page of the heap and its first block is handed out.\<close>

lemma use_page_step:
  assumes core: "kcore most pok handed s" and busy: "busy_but {} s" and t: "t < length (calls s)" "calls s ! t = Resume sz b pg pr"
  shows "\<exists>h p. use_page b pg pr (heap s) = Some (h, Done p) \<and> p \<noteq> 0
    \<and> kcore most pok handed (kfinish t sz h (Done p) s) \<and> busy_but {} (kfinish t sz h (Done p) s)
    \<and> (\<forall>a. a < pg \<or> pg + PAGE_SIZE \<le> a \<longrightarrow> kmem h a = kmem (heap s) a)"
proof -
  let ?s = "s\<lparr>heap := setup_page b pg pr (heap s), calls := (calls s)[t := Idle]\<rparr>"
  note a = add_page [OF core busy t]
  have sz: "sz \<le> sizes ! b" "sz < LARGEST_SUBPAGE_SIZE" using kcoreD(3) [OF core t(1)] t(2) by auto
  obtain h p where hp: "doalloc pr (heap ?s) = Some (h, p)" "p \<noteq> 0" "kmem h = kmem (heap ?s)"
    "kcore most pok handed (kfinish t sz h (Done p) ?s)" "busy_but {} (kfinish t sz h (Done p) ?s)"
    using take_block [OF a(1-4), of t sz] t(1) sz a(5) by auto
  then have "use_page b pg pr (heap s) = Some (h, Done p)" by (simp add: use_page_def)
  then show ?thesis using hp(2-5) a(6) unfolding kfinish_Done_again by auto
qed

text \<open>A call moves to a phase with the same pages and pagerefs; a pageref may be lost on the way.\<close>

lemma change_phase:
  assumes core: "kcore most pok handed s" and busy: "busy_but {} s" and t: "t < length (calls s)"
    and ph: "phase_ok most (kheaproots (heap s)) ph" "mset (phase_pages ph) = mset (phase_pages (calls s ! t))"
      "mset (phase_slots (calls s ! t)) = mset (phase_slots ph) + mset l"
  defines "s' \<equiv> s\<lparr>lost := l @ lost s, calls := (calls s)[t := ph]\<rparr>"
  shows "kcore most pok handed s'" "busy_but {} s'"
proof -
  have "call_pages ((calls s)[t := ph]) = call_pages (calls s)"
    using call_pages_update [OF t, of ph] ph(2) by simp
  moreover have "call_slots ((calls s)[t := ph]) + mset l = call_slots (calls s)"
    using call_slots_update [OF t, of ph] ph(3) by (simp add: ac_simps)
  ultimately have bags: "pagebag s' = pagebag s" "slotbag s' = slotbag s"
    by (simp_all add: pagebag_def slotbag_def s'_def)
  have "phase_ok most (kheaproots (heap s)) ((calls s)[t := ph] ! u)" if "u < length (calls s)" for u
    using phases_update [OF kcoreD(3) [OF core] ph(1)] that by simp
  then show "kcore most pok handed s'" using kcoreD(1,2,4-6) [OF core] by (simp add: kcore_def bags) (simp add: s'_def)
  show "busy_but {} s'" using busy by (simp add: busy_but_def s'_def)
qed

text \<open>A page comes in: to a call, or as a large block.\<close>

lemma change_pages:
  assumes core: "kcore most pok handed s" and busy: "busy_but {} s" and t: "t < length (calls s)"
    and ph: "phase_ok most (kheaproots (heap s)) ph" "phase_slots ph = phase_slots (calls s ! t)"
    and ok: "pages_ok pok handed p (pagebag (s\<lparr>calls := (calls s)[t := ph]\<rparr>))"
  shows "kcore most pok handed (s\<lparr>heap := (heap s)\<lparr>pagesrc := p\<rparr>, calls := (calls s)[t := ph]\<rparr>)"
    "busy_but {} (s\<lparr>heap := (heap s)\<lparr>pagesrc := p\<rparr>, calls := (calls s)[t := ph]\<rparr>)"
proof -
  let ?s = "s\<lparr>heap := (heap s)\<lparr>pagesrc := p\<rparr>, calls := (calls s)[t := ph]\<rparr>"
  have "call_slots ((calls s)[t := ph]) = call_slots (calls s)" using call_slots_update [OF t, of ph] ph(2) by simp
  then have "slotbag ?s = slotbag s" "pagebag ?s = pagebag (s\<lparr>calls := (calls s)[t := ph]\<rparr>)"
    by (simp_all add: slotbag_def pagebag_def data_pages_def)
  moreover have "phase_ok most (kheaproots (heap s)) ((calls s)[t := ph] ! u)" if "u < length (calls s)" for u
    using phases_update [OF kcoreD(3) [OF core] ph(1)] that by simp
  ultimately show "kcore most pok handed ?s"
    using kcoreD(2,4-6) [OF core] ok by (simp add: kcore_def lists_ok_def blocks_ok_def live_ok_def)
  show "busy_but {} ?s" using busy by (simp add: busy_but_def)
qed

lemma pagebag_change:
  assumes "t < length (calls s)"
  shows "pagebag (s\<lparr>calls := (calls s)[t := ph]\<rparr>) + mset (phase_pages (calls s ! t)) = pagebag s + mset (phase_pages ph)"
  using call_pages_update [OF assms, of ph] by (simp add: pagebag_def ac_simps)

text \<open>Reserving a pageref.\<close>

lemma slots_ok_reserve:
  assumes ok: "slots_ok roots as S" and w: "w < NUM_PAGEREFPAGES" "idx < NPAGEREFS_PER_PAGE" "\<not> inuse (roots ! w) idx"
    and low: "\<And>v. v < w \<Longrightarrow> kr_page (roots ! v) \<noteq> 0"
  shows "slots_ok (roots[w := set_inuse idx (roots ! w)]) as (add_mset (w, idx) S)"
proof -
  note d = slots_okD [OF ok]
  have len: "length (pagerefs_inuse (roots ! w)) = INUSE_WORDS" using d(2) [OF w(1)] by (simp add: root_ok_def)
  have new: "(w, idx) \<notin># S" using d(4) [OF w(1,2)] w(3) by simp
  let ?r = "roots[w := set_inuse idx (roots ! w)]"
  have kr: "kr_page (?r ! v) = kr_page (roots ! v)" for v
    using d(1) w(1) by (cases "v = w") (auto simp: set_inuse_def)
  have "root_ok (?r ! v)" if "v < NUM_PAGEREFPAGES" for v
    using d(1,2) that w root_ok_set by (cases "v = w") auto
  moreover have "fst x < NUM_PAGEREFPAGES \<and> snd x < NPAGEREFS_PER_PAGE \<and> count (add_mset (w, idx) S) x = 1"
    if "x \<in># add_mset (w, idx) S" for x
  proof (cases "x = (w, idx)")
    case True
    then show ?thesis using new w by (simp add: not_in_iff)
  next
    case False
    then show ?thesis using d(3) [of x] that by simp
  qed
  moreover have "inuse (?r ! v) j = ((v, j) \<in># add_mset (w, idx) S)" if "v < NUM_PAGEREFPAGES" "j < NPAGEREFS_PER_PAGE" for v j
    using d(4) [OF that] inuse_set [OF len w(2), of j] d(1) w(1) by (cases "v = w") auto
  moreover have "kr_page (?r ! v) \<noteq> 0" if "v < u" "u < NUM_PAGEREFPAGES" "0 < numinuse (?r ! u)" for v u
    using d(6) [OF that(1,2)] that low [of v] d(1) w(1) unfolding kr by (cases "u = w") auto
  ultimately show ?thesis using d(1,5) by (simp add: slots_ok_def kr)
qed

text \<open>A root whose bits are all taken has its page, as long as fewer than 256 calls are under way or have
  lost a pageref.\<close>

definition few_calls :: "'p ksys \<Rightarrow> bool" where
  "few_calls s \<longleftrightarrow> length (calls s) + length (lost s) < NPAGEREFS_PER_PAGE"

lemma phase_slots_one: "length (phase_slots ph) \<le> 1"
  by (cases ph) auto

lemma size_call_slots: "size (call_slots cs) \<le> length cs"
proof (induction cs)
  case (Cons c cs)
  then show ?case using phase_slots_one [of c] by (simp add: call_slots_def)
qed (simp add: call_slots_def)

lemma card_set_mset_le: "card (set_mset M) \<le> size M"
  by (induction M) (auto simp: card_insert_if)

lemma full_root_paged:
  assumes ok: "slots_ok roots as (mset as + C + mset ls)" and v: "v < NUM_PAGEREFPAGES"
    and full: "\<forall>idx<NPAGEREFS_PER_PAGE. inuse (roots ! v) idx" and few: "size C + length ls < NPAGEREFS_PER_PAGE"
  shows "kr_page (roots ! v) \<noteq> 0"
proof
  assume z: "kr_page (roots ! v) = 0"
  note d = slots_okD [OF ok]
  have "(v, idx) \<in># C + mset ls" if "idx < NPAGEREFS_PER_PAGE" for idx
  proof -
    have "(v, idx) \<in># mset as + C + mset ls" using d(4) [OF v that] full that by simp
    moreover have "(v, idx) \<notin> set as" using d(5) [of "(v, idx)"] z by auto
    ultimately show ?thesis by auto
  qed
  then have "Pair v ` {..<NPAGEREFS_PER_PAGE} \<subseteq> set_mset (C + mset ls)" by auto
  then have "card (Pair v ` {..<NPAGEREFS_PER_PAGE}) \<le> card (set_mset (C + mset ls))" by (intro card_mono) simp_all
  also have "\<dots> \<le> size (C + mset ls)" by (rule card_set_mset_le)
  finally show False using few by (simp add: card_image inj_on_def)
qed

text \<open>Reserving a pageref for a call that has a page.\<close>

lemma reserve_step:
  assumes core: "kcore most pok handed s" and busy: "busy_but {} s" and few: "few_calls s"
    and t: "t < length (calls s)" "calls s ! t = Want_ref sz b pg"
  obtains (full) "allocpageref_reserve (heap s) = Some (heap s, None)"
  | (slot) h pr ph where "allocpageref_reserve (heap s) = Some (h, Some pr)" "kmem h = kmem (heap s)"
      "ph = (if kr_page (kheaproots h ! fst pr) = 0 then Want_refpage sz b pg pr else Resume sz b pg pr)"
      "kcore most pok handed (s\<lparr>heap := h, calls := (calls s)[t := ph]\<rparr>)" "busy_but {} (s\<lparr>heap := h, calls := (calls s)[t := ph]\<rparr>)"
proof -
  note sl = kcoreD(2) [OF core] and d = slots_okD [OF kcoreD(2) [OF core]]
  have rok: "\<forall>w<NUM_PAGEREFPAGES. root_ok (kheaproots (heap s) ! w)" using d(2) by blast
  show thesis
  proof (cases rule: find_slot_spec [OF rok])
    case 1
    then show thesis using full by (simp add: allocpageref_reserve_def)
  next
    case (2 w idx)
    let ?roots = "(kheaproots (heap s))[w := set_inuse idx (kheaproots (heap s) ! w)]"
    let ?h = "(heap s)\<lparr>kheaproots := ?roots\<rparr>"
    let ?ph = "if kr_page (?roots ! w) = 0 then Want_refpage sz b pg (w, idx) else Resume sz b pg (w, idx)"
    let ?s = "s\<lparr>heap := ?h, calls := (calls s)[t := ?ph]\<rparr>"
    have kr: "kr_page (?roots ! v) = kr_page (kheaproots (heap s) ! v)" for v
      using d(1) 2(2) by (cases "v = w") (auto simp: set_inuse_def)
    have low: "kr_page (kheaproots (heap s) ! v) \<noteq> 0" if "v < w" for v
    proof (rule full_root_paged)
      show "slots_ok (kheaproots (heap s)) (allbase (heap s)) (mset (allbase (heap s)) + call_slots (calls s) + mset (lost s))"
        using sl by (simp add: slotbag_def)
      show "size (call_slots (calls s)) + length (lost s) < NPAGEREFS_PER_PAGE"
        using few size_call_slots [of "calls s"] by (simp add: few_calls_def)
    qed (use that 2(2,5) in auto)
    have "call_slots ((calls s)[t := ?ph]) = add_mset (w, idx) (call_slots (calls s))"
      "call_pages ((calls s)[t := ?ph]) = call_pages (calls s)"
      using call_slots_update [OF t(1), of ?ph] call_pages_update [OF t(1), of ?ph] t(2) by (auto split: if_splits)
    moreover have "root_pages ?roots = root_pages (kheaproots (heap s))"
    proof -
      have "map kr_page ?roots = map kr_page (kheaproots (heap s))"
        by (rule nth_equalityI) (use kr in auto)
      then show ?thesis by (simp add: root_pages_def)
    qed
    ultimately have bags: "slotbag ?s = add_mset (w, idx) (slotbag s)" "pagebag ?s = pagebag s"
      by (simp_all add: slotbag_def pagebag_def data_pages_def)
    have "phase_ok most ?roots x" if "phase_ok most (kheaproots (heap s)) x" for x
      using that kr by (cases x) auto
    then have "phase_ok most ?roots ((calls s)[t := ?ph] ! u)" if "u < length (calls s)" for u
      using kcoreD(3) [OF core that] kcoreD(3) [OF core t(1)] t that by (cases "u = t") (auto split: if_splits)
    moreover have "slots_ok ?roots (allbase (heap s)) (slotbag ?s)"
      unfolding bags by (rule slots_ok_reserve [OF sl 2(2-4) low])
    ultimately have "kcore most pok handed ?s"
      using kcoreD(1,4-6) [OF core] by (simp add: kcore_def bags lists_ok_def blocks_ok_def live_ok_def)
    moreover have "busy_but {} ?s" using busy by (simp add: busy_but_def)
    moreover have "allocpageref_reserve (heap s) = Some (?h, Some (w, idx))"
      by (simp add: allocpageref_reserve_def 2(1))
    ultimately show thesis by (intro slot [of ?h "(w, idx)" ?ph]) auto
  qed
qed

text \<open>Installing the page of a root.\<close>

lemma root_pages_install:
  assumes "w < length roots" "kr_page (roots ! w) = 0" "va \<noteq> 0"
  shows "root_pages (roots[w := (roots ! w)\<lparr>kr_page := va\<rparr>]) = add_mset va (root_pages roots)"
proof -
  have "mset (map kr_page (roots[w := (roots ! w)\<lparr>kr_page := va\<rparr>])) = add_mset va (mset (map kr_page roots) - {#0#})"
    using assms by (simp add: map_update mset_update)
  then have "root_pages (roots[w := (roots ! w)\<lparr>kr_page := va\<rparr>]) = filter_mset (\<lambda>p. p \<noteq> 0) (add_mset va (mset (map kr_page roots) - {#0#}))"
    unfolding root_pages_def mset_filter by (rule arg_cong)
  also have "\<dots> = add_mset va (filter_mset (\<lambda>p. p \<noteq> 0) (mset (map kr_page roots)))"
    using assms(3) by (simp add: filter_diff_mset)
  finally show ?thesis unfolding root_pages_def mset_filter .
qed

lemma install_step:
  assumes core: "kcore most pok handed s" and busy: "busy_but {} s" and t: "t < length (calls s)" "calls s ! t = Got_refpage sz b pg pr va"
    and va: "va \<noteq> 0" "kr_page (kheaproots (heap s) ! fst pr) = 0"
  defines "h \<equiv> (heap s)\<lparr>kheaproots := (kheaproots (heap s))[fst pr := (kheaproots (heap s) ! fst pr)\<lparr>kr_page := va\<rparr>]\<rparr>"
  shows "kcore most pok handed (s\<lparr>heap := h, calls := (calls s)[t := Resume sz b pg pr]\<rparr>)"
    "busy_but {} (s\<lparr>heap := h, calls := (calls s)[t := Resume sz b pg pr]\<rparr>)"
proof -
  let ?s = "s\<lparr>heap := h, calls := (calls s)[t := Resume sz b pg pr]\<rparr>"
  note sl = kcoreD(2) [OF core] and d = slots_okD [OF kcoreD(2) [OF core]]
  let ?old = "kheaproots (heap s)" and ?new = "kheaproots h"
  have new: "?new = ?old[fst pr := (?old ! fst pr)\<lparr>kr_page := va\<rparr>]" by (simp add: h_def)
  have "pr \<in># slotbag s" using in_call_slots [OF t(1), of pr] t(2) by (simp add: slotbag_def)
  then have w: "fst pr < NUM_PAGEREFPAGES" using d(3) by blast
  have kr: "kr_page (?new ! v) = (if v = fst pr then va else kr_page (?old ! v))"
    and same: "pagerefs_inuse (?new ! v) = pagerefs_inuse (?old ! v)" "numinuse (?new ! v) = numinuse (?old ! v)" for v
    using w d(1) by (auto simp: new nth_list_update)
  have "call_slots ((calls s)[t := Resume sz b pg pr]) = call_slots (calls s)"
    "add_mset va (call_pages ((calls s)[t := Resume sz b pg pr])) = call_pages (calls s)"
    using call_slots_update [OF t(1), of "Resume sz b pg pr"] call_pages_update [OF t(1), of "Resume sz b pg pr"] t(2) va(1) by auto
  moreover have "root_pages ?new = add_mset va (root_pages ?old)"
    unfolding new using w d(1) va by (intro root_pages_install) simp_all
  ultimately have bags: "slotbag ?s = slotbag s" "pagebag ?s = pagebag s"
    by (simp_all add: slotbag_def pagebag_def data_pages_def h_def)
  have iu: "inuse (?new ! v) j = inuse (?old ! v) j" and rok: "root_ok (?new ! v) = root_ok (?old ! v)" for v j
    by (simp_all add: inuse_def root_ok_def same)
  have "slots_ok ?new (allbase (heap s)) (slotbag s)"
    using sl va(1) by (simp add: slots_ok_def iu rok same kr) (simp add: new)
  moreover have "phase_ok most ?new x" if "phase_ok most ?old x" for x
    using that kr va(1) by (cases x) auto
  then have "phase_ok most ?new ((calls s)[t := Resume sz b pg pr] ! u)" if "u < length (calls s)" for u
    using kcoreD(3) [OF core that] kcoreD(3) [OF core t(1)] t that kr va(1) by (cases "u = t") auto
  ultimately show "kcore most pok handed ?s"
    using kcoreD(1,4-6) [OF core] by (simp add: kcore_def bags lists_ok_def blocks_ok_def live_ok_def) (simp add: h_def)
  show "busy_but {} ?s" using busy by (simp add: busy_but_def h_def)
qed

section \<open>Freeing\<close>

lemma in_filter_live: "fst ` set (filter (\<lambda>b. fst b \<noteq> p) bs) = fst ` set bs - {p}"
  by auto

lemma live_ok_filter: "live_ok h bs \<Longrightarrow> live_ok h (filter P bs)"
  unfolding live_ok_def by (auto intro: distinct_map_filter)

lemma big_pages_filter:
  assumes "distinct (map fst bs)" "(p, n) \<in> set bs"
  shows "big_pages bs = big_pages (filter (\<lambda>b. fst b \<noteq> p) bs)
    + (if LARGEST_SUBPAGE_SIZE \<le> n then mset (span p (npages n)) else {#})"
  using assms
proof (induction bs)
  case (Cons b bs)
  show ?case
  proof (cases "b = (p, n)")
    case True
    then have "filter (\<lambda>b. fst b \<noteq> p) bs = bs" using Cons.prems(1) by (intro filter_True) force
    then show ?thesis using True by (simp add: big_pages_def)
  next
    case False
    then have m: "(p, n) \<in> set bs" using Cons.prems by simp
    then have "p \<in> set (map fst bs)" by force
    then have "fst b \<noteq> p" using Cons.prems(1) by auto
    then show ?thesis using Cons m by (simp add: big_pages_def)
  qed
qed simp

text \<open>The state after a small block has been put back on its page's free list.\<close>

definition put_back :: "prptr \<Rightarrow> nat \<Rightarrow> 'p kheap \<Rightarrow> 'p kheap" where
  "put_back pr p h = (let r = pagerefs h pr in
     h\<lparr>kmem := (fill_deadbeef p (bsize r) (kmem h))(p := fhead r),
       pagerefs := (pagerefs h)(pr := r\<lparr>freelist_offset := p - PR_PAGEADDR r, nfree := nfree r + 1\<rparr>)\<rparr>)"

lemma put_back_simps [simp]:
  "allbase (put_back pr p h) = allbase h" "sizebases (put_back pr p h) = sizebases h"
  "kheaproots (put_back pr p h) = kheaproots h" "pagesrc (put_back pr p h) = pagesrc h"
  "pageaddr_and_blocktype (pagerefs (put_back pr p h) q) = pageaddr_and_blocktype (pagerefs h q)"
  by (simp_all add: put_back_def Let_def)

lemmas put_back_parts [simp] = same_pab [OF put_back_simps(5)]

lemma put_back_mem:
  "0 < bsize (pagerefs h pr) \<Longrightarrow> a < p \<or> p + bsize (pagerefs h pr) \<le> a \<Longrightarrow> kmem (put_back pr p h) a = kmem h a"
  by (auto simp: put_back_def Let_def fill_deadbeef_outside)

lemma give_block:
  assumes core: "kcore most pok handed s" and busy: "busy_but {} s" and pr: "pr \<in> set (allbase (heap s))"
    and p: "p \<in> blocks (pagerefs (heap s) pr)" "(p, n) \<in> set (live s)" "n < LARGEST_SUBPAGE_SIZE"
  defines "s' \<equiv> s\<lparr>heap := put_back pr p (heap s), live := filter (\<lambda>b. fst b \<noteq> p) (live s)\<rparr>"
  shows "kcore most pok handed s'" "busy_but {pr} s'"
proof -
  let ?r = "pagerefs (heap s) pr" and ?L = "liveset s - {p}"
  note pok = core_pr(1) [OF core pr]
  have L': "liveset s' = ?L" by (auto simp: s'_def)
  have "big_pages (filter (\<lambda>b. fst b \<noteq> p) (live s)) = big_pages (live s)"
    using big_pages_filter [OF _ p(2)] kcoreD(6) [OF core] p(3) by (simp add: live_ok_def)
  moreover have "data_pages (heap s') = data_pages (heap s)" by (simp add: s'_def data_pages_def)
  ultimately have bags: "pagebag s' = pagebag s" "slotbag s' = slotbag s"
    by (simp_all add: pagebag_def slotbag_def s'_def)
  have notin: "p \<notin> blocks (pagerefs (heap s) q)" if "q \<in> set (allbase (heap s))" "q \<noteq> pr" for q
    using block_holder_unique [OF core pr that(1) p(1)] that(2) by blast
  have "page_ok (kmem (heap s')) ?L (pagerefs (heap s') q)" if q: "q \<in> set (allbase (heap s))" for q
  proof (cases "q = pr")
    case True
    obtain fs where fs: "page_free (kmem (heap s)) (liveset s) ?r fs" using core_pr(2) [OF core pr] by blast
    have pL: "p \<in> liveset s" using p(2) by force
    have "page_free (kmem (heap s')) ?L (pagerefs (heap s') pr) (p # fs)"
      using page_free_give [OF pok fs p(1) pL] by (simp add: s'_def put_back_def Let_def)
    then show ?thesis using True pok by (auto simp: page_ok_def s'_def)
  next
    case False
    obtain gs where gs: "page_free (kmem (heap s)) (liveset s) (pagerefs (heap s) q) gs" using core_pr(2) [OF core q] by blast
    have "kmem (heap s') a = kmem (heap s) a" if a: "a \<in> blocks (pagerefs (heap s) q)" for a
    proof -
      note ra = blocks_range [OF core_pr(1) [OF core q] a] and rp = blocks_range [OF pok p(1)]
      have "\<not> (PR_PAGEADDR ?r \<le> a \<and> a < PR_PAGEADDR ?r + PAGE_SIZE)"
        using holder_unique [OF core pr q _ _ ra(1,4)] False by blast
      then have "a < p \<or> p + bsize ?r \<le> a" using rp(1,2) by linarith
      then show ?thesis using put_back_mem [OF pr_okD(1) [OF pok]] by (simp add: s'_def)
    qed
    then have "page_free (kmem (heap s')) ?L (pagerefs (heap s) q) gs"
      using notin [OF q False] by (intro page_free_frame [OF gs]) auto
    then show ?thesis using core_pr(1) [OF core q] False by (auto simp: page_ok_def s'_def put_back_def Let_def)
  qed
  then have "blocks_ok (heap s') (liveset s')" unfolding L' by (simp add: blocks_ok_def s'_def)
  moreover have "live_ok (heap s') (live s')"
    using live_ok_mono [OF live_ok_filter [OF kcoreD(6) [OF core]], of "heap s'"] by (simp add: s'_def)
  moreover have "lists_ok (heap s')" using kcoreD(4) [OF core] by (simp add: lists_ok_def s'_def)
  ultimately show "kcore most pok handed s'"
    using kcoreD(1-3) [OF core] by (simp add: kcore_def bags) (simp add: s'_def)
  have "blocks (pagerefs (heap s) q) \<inter> ?L \<noteq> {}" if q: "q \<in> set (allbase (heap s))" "q \<noteq> pr" for q
  proof -
    obtain a where "a \<in> blocks (pagerefs (heap s) q)" "a \<in> liveset s" using busy q unfolding busy_but_def by blast
    then show ?thesis using notin [OF q] by blast
  qed
  then show "busy_but {pr} s'" unfolding busy_but_def L' by (simp add: s'_def)
qed

text \<open>Giving up a page without blocks in use: it leaves the lists, its pageref is released, and the call
  holds it.\<close>

lemma slots_ok_release:
  assumes ok: "slots_ok roots as (add_mset (w, idx) S)" and w: "w < NUM_PAGEREFPAGES" "idx < NPAGEREFS_PER_PAGE"
    and as: "set as' \<subseteq> set as"
  shows "slots_ok (roots[w := clear_inuse idx (roots ! w)]) as' S"
proof -
  note d = slots_okD [OF ok]
  have len: "length (pagerefs_inuse (roots ! w)) = INUSE_WORDS" using d(2) [OF w(1)] by (simp add: root_ok_def)
  have iu: "inuse (roots ! w) idx" using d(4) [OF w] by simp
  have gone: "(w, idx) \<notin># S" using d(3) [of "(w, idx)"] by (simp add: not_in_iff)
  let ?r = "roots[w := clear_inuse idx (roots ! w)]"
  have kr: "kr_page (?r ! v) = kr_page (roots ! v)" for v
    using d(1) w(1) by (cases "v = w") (auto simp: clear_inuse_def)
  have num: "numinuse (?r ! v) \<le> numinuse (roots ! v)" for v
    using d(1) w(1) by (cases "v = w") (auto simp: clear_inuse_def)
  have "root_ok (?r ! v)" if "v < NUM_PAGEREFPAGES" for v
    using d(1,2) that w root_ok_clear(1) iu by (cases "v = w") auto
  moreover have "fst x < NUM_PAGEREFPAGES \<and> snd x < NPAGEREFS_PER_PAGE \<and> count S x = 1" if "x \<in># S" for x
    using d(3) [of x] that gone by (cases "x = (w, idx)") auto
  moreover have "inuse (?r ! v) j = ((v, j) \<in># S)" if "v < NUM_PAGEREFPAGES" "j < NPAGEREFS_PER_PAGE" for v j
    using d(4) [OF that] inuse_clear [OF len w(2), of j] d(1) w(1) gone by (cases "v = w") auto
  moreover have "kr_page (?r ! v) \<noteq> 0" if "v < u" "u < NUM_PAGEREFPAGES" "0 < numinuse (?r ! u)" for v u
    using d(6) [OF that(1,2)] that num [of u] unfolding kr by linarith
  ultimately show ?thesis using d(1,5) as by (auto simp: slots_ok_def kr)
qed

lemma drop_page:
  assumes core: "kcore most pok handed s" and busy: "busy_but {pr} s" and pr: "pr \<in> set (allbase (heap s))"
    and free: "blocks (pagerefs (heap s) pr) \<inter> liveset s = {}" and t: "t < length (calls s)" "calls s ! t = Idle"
  defines "pg \<equiv> PR_PAGEADDR (pagerefs (heap s) pr)"
  shows "\<exists>h2 h. remove_lists pr (PR_BLOCKTYPE (pagerefs (heap s) pr)) (heap s) = Some h2 \<and> freepageref pr h2 = Some h
    \<and> kmem h = kmem (heap s)
    \<and> kcore most pok handed (s\<lparr>heap := h, calls := (calls s)[t := Free_page pg]\<rparr>)
    \<and> busy_but {} (s\<lparr>heap := h, calls := (calls s)[t := Free_page pg]\<rparr>)"
proof -
  let ?b = "PR_BLOCKTYPE (pagerefs (heap s) pr)" and ?roots = "kheaproots (heap s)"
  obtain w idx where wi: "pr = (w, idx)" by (cases pr)
  note d = slots_okD [OF kcoreD(2) [OF core]]
  have b: "?b < NSIZES" using pr_okD(7) [OF core_pr(1) [OF core pr]] .
  have "pr \<in># slotbag s" using pr by (simp add: slotbag_def)
  then have w: "w < NUM_PAGEREFPAGES" "idx < NPAGEREFS_PER_PAGE" "count (slotbag s) pr = 1" using d(3) wi by auto
  have iu: "inuse (?roots ! w) idx" using d(4) [OF w(1,2)] \<open>pr \<in># slotbag s\<close> wi by simp
  have dis: "pr \<notin> set (remove1 pr (allbase (heap s)))"
  proof -
    have "count (mset (allbase (heap s))) pr \<le> 1" using w(3) by (simp add: slotbag_def)
    then show ?thesis by (simp flip: set_mset_mset)
      (metis One_nat_def diff_is_0_eq mset_remove1 count_diff count_single not_in_iff set_mset_mset)
  qed
  then have ds: "x \<in> set (remove1 pr (allbase (heap s))) \<longleftrightarrow> x \<in> set (allbase (heap s)) \<and> x \<noteq> pr" for x
    by (cases "x = pr") simp_all
  let ?h2 = "(heap s)\<lparr>sizebases := (sizebases (heap s))[?b := remove1 pr (sizebases (heap s) ! ?b)],
     allbase := remove1 pr (allbase (heap s))\<rparr>"
  let ?new = "?roots[w := clear_inuse idx (?roots ! w)]"
  let ?h = "?h2\<lparr>kheaproots := ?new\<rparr>"
  let ?s = "s\<lparr>heap := ?h, calls := (calls s)[t := Free_page pg]\<rparr>"
  have r1: "remove_lists pr ?b (heap s) = Some ?h2" using b by (simp add: remove_lists_def)
  have num: "0 < numinuse (?roots ! w)" using root_ok_clear(2) [OF d(2) [OF w(1)] w(2) iu] .
  have r2: "freepageref pr ?h2 = Some ?h"
    unfolding wi using freepageref_spec [of w ?h2 idx] w(1) d(5) [OF pr] wi iu num d(6) [OF _ w(1) num] by simp
  have ab: "mset (allbase (heap s)) = add_mset pr (mset (remove1 pr (allbase (heap s))))" using pr by simp
  have "data_pages (heap s) = add_mset pg (data_pages ?h)"
    unfolding data_pages_def ab by (simp add: pg_def)
  moreover have "call_pages ((calls s)[t := Free_page pg]) = add_mset pg (call_pages (calls s))"
    "call_slots ((calls s)[t := Free_page pg]) = call_slots (calls s)"
    using call_pages_update [OF t(1), of "Free_page pg"] call_slots_update [OF t(1), of "Free_page pg"] t(2) by simp_all
  moreover have kr: "kr_page (?new ! v) = kr_page (?roots ! v)" for v
    using d(1) w(1) by (cases "v = w") (auto simp: clear_inuse_def)
  moreover have "root_pages ?new = root_pages ?roots"
  proof -
    have "map kr_page ?new = map kr_page ?roots" by (rule nth_equalityI) (use kr in auto)
    then show ?thesis by (simp add: root_pages_def)
  qed
  ultimately have bags: "pagebag ?s = pagebag s" "slotbag s = add_mset pr (slotbag ?s)"
    using ab by (simp_all add: pagebag_def slotbag_def)
  have "slots_ok ?roots (allbase (heap s)) (add_mset (w, idx) (slotbag ?s))"
    using kcoreD(2) [OF core] unfolding bags(2) wi .
  then have "slots_ok ?new (allbase ?h) (slotbag ?s)"
    by (rule slots_ok_release [OF _ w(1,2)]) (simp add: set_remove1_subset)
  moreover have "phase_ok most ?new x" if "phase_ok most ?roots x" for x using that kr by (cases x) auto
  then have "phase_ok most ?new ((calls s)[t := Free_page pg] ! u)" if "u < length (calls s)" for u
    using kcoreD(3) [OF core that] t that by (cases "u = t") auto
  moreover have "lists_ok ?h"
    using kcoreD(4) [OF core] b pr by (auto simp: lists_ok_def nth_list_update ds)
  moreover have "blocks_ok ?h (liveset s)" using kcoreD(5) [OF core] by (simp add: blocks_ok_def ds)
  moreover have "live_ok ?h (live s)"
  proof -
    have "q \<in> set (remove1 pr (allbase (heap s)))"
      if "q \<in> set (allbase (heap s))" "p \<in> blocks (pagerefs (heap s) q)" "(p, n) \<in> set (live s)" for q p n
    proof -
      have "p \<in> liveset s" using that(3) by force
      then have "q \<noteq> pr" using that(2) free by blast
      then show ?thesis using that(1) by simp
    qed
    then show ?thesis using kcoreD(6) [OF core] unfolding live_ok_def by simp meson
  qed
  ultimately have "kcore most pok handed ?s" using kcoreD(1) [OF core] by (simp add: kcore_def bags)
  moreover have "busy_but {} ?s"
    using busy by (simp add: busy_but_def ds)
  ultimately show ?thesis using r1 r2 by auto
qed

text \<open>The computation of \<^verbatim>\<open>subpage_kfree\<close> for a small block in use, up to the test for a free page.\<close>

lemma subpage_kfree_eq:
  assumes core: "kcore most pok handed s" and pr: "pr \<in> set (allbase (heap s))"
    and p: "p \<in> blocks (pagerefs (heap s) pr)" "p \<in> liveset s"
  shows "subpage_kfree p (heap s) =
    (if nfree (pagerefs (put_back pr p (heap s)) pr) = nblocks (pagerefs (heap s) pr)
     then do {
       h \<leftarrow> remove_lists pr (PR_BLOCKTYPE (pagerefs (heap s) pr)) (put_back pr p (heap s));
       h \<leftarrow> freepageref pr h;
       Some (h, Some (Wait (Free_page (PR_PAGEADDR (pagerefs (heap s) pr)))))
     }
     else Some (put_back pr p (heap s), Some (Done 0)))"
proof -
  let ?r = "pagerefs (heap s) pr"
  note pok = core_pr(1) [OF core pr]
  note rng = blocks_range [OF pok p(1)]
  obtain fs where fs: "page_free (kmem (heap s)) (liveset s) ?r fs" using core_pr(2) [OF core pr] by blast
  have "\<forall>pr\<in>set (allbase (heap s)). PR_BLOCKTYPE (pagerefs (heap s) pr) < NSIZES"
    using core_pr(1) [OF core] pr_okD(7) by blast
  from find_holder_spec [OF this, of p] obtain q where q: "find_holder (pagerefs (heap s)) p (allbase (heap s)) = Some q"
    "case q of
         None \<Rightarrow> \<forall>pr\<in>set (allbase (heap s)). \<not> (PR_PAGEADDR (pagerefs (heap s) pr) \<le> p \<and> p < PR_PAGEADDR (pagerefs (heap s) pr) + PAGE_SIZE)
       | Some pr \<Rightarrow> pr \<in> set (allbase (heap s)) \<and> PR_PAGEADDR (pagerefs (heap s) pr) \<le> p \<and> p < PR_PAGEADDR (pagerefs (heap s) pr) + PAGE_SIZE"
    by blast
  have "q = Some pr"
  proof (cases q)
    case None
    then show ?thesis using q(2) pr rng(1,4) by auto
  next
    case (Some q')
    then have "q' \<in> set (allbase (heap s))" "PR_PAGEADDR (pagerefs (heap s) q') \<le> p" "p < PR_PAGEADDR (pagerefs (heap s) q') + PAGE_SIZE"
      using q(2) by simp_all
    then show ?thesis using holder_unique [OF core pr _ rng(1,4)] Some by blast
  qed
  then have h: "find_holder (pagerefs (heap s)) p (allbase (heap s)) = Some (Some pr)" using q(1) by simp
  have u: "usub p (PR_PAGEADDR ?r) = p - PR_PAGEADDR ?r"
    using rng(1,4) kpageD(3) [OF pr_okD(6) [OF pok]] by (intro usub_eq) linarith+
  have off: "p - PR_PAGEADDR ?r < PAGE_SIZE" "PR_PAGEADDR ?r + (p - PR_PAGEADDR ?r) = p" using rng(1,4) by linarith+
  have len: "length fs < nblocks ?r"
  proof -
    have "finite (blocks ?r \<inter> liveset s)" "p \<in> blocks ?r \<inter> liveset s" using p by simp_all
    then have "0 < card (blocks ?r \<inter> liveset s)" by (metis card_gt_0_iff empty_iff)
    then show ?thesis using page_free_length [OF pok fs] by linarith
  qed
  have nf: "nfree ?r = length fs" using fs by (simp add: page_free_def)
  have m16: "(nfree ?r + 1) mod 2 ^ 16 = nfree ?r + 1" using nf len pr_okD(4) [OF pok] by simp
  have head: "freelist_offset ?r = INVALID_OFFSET \<or> p \<noteq> PR_PAGEADDR ?r + freelist_offset ?r"
  proof (rule ccontr)
    assume c: "\<not> ?thesis"
    then have "fhead ?r = p" by (simp add: fhead_def)
    then have "chain (kmem (heap s)) p fs" using fs by (simp add: page_free_def)
    then have "p \<in> set fs" using rng(5) by (cases fs) auto
    then show False using fs p(2) by (auto simp: page_free_def)
  qed
  have le: "nfree ?r + 1 \<le> nblocks ?r" using nf len by simp
  show ?thesis
    unfolding subpage_kfree_def h Let_def bind.simps option.case u off(2) m16 put_back_def
    using off(1) rng(3) head le by (cases "freelist_offset ?r = INVALID_OFFSET") (simp_all add: fhead_def Let_def)
qed

text \<open>A block of a page and a different block in use do not meet, and neither do two blocks in use.\<close>

lemma block_apart_live:
  assumes core: "kcore most pok handed s" and pr: "pr \<in> set (allbase (heap s))" and p: "p \<in> blocks (pagerefs (heap s) pr)"
    and q: "(q, m) \<in> set (live s)" "q \<noteq> p"
  shows "p + bsize (pagerefs (heap s) pr) \<le> q \<or> q + m \<le> p"
  using core q(1)
proof (cases rule: live_cases)
  case (small pr')
  note r = blocks_range [OF core_pr(1) [OF core pr] p] and r' = blocks_range [OF core_pr(1) [OF core small(2)] small(3)]
  show ?thesis
  proof (cases "pr' = pr")
    case True
    then show ?thesis using blocks_apart [OF core_pr(1) [OF core pr] p, of q] small(3,4) q(2) by auto
  next
    case False
    then have "PR_PAGEADDR (pagerefs (heap s) pr) \<noteq> PR_PAGEADDR (pagerefs (heap s) pr')"
      using data_pages_inj [OF pages_okD(3) [OF kcoreD(1) [OF core]] bag_parts(1) pr small(2)] by blast
    then show ?thesis
      using kpages_apart [OF pr_okD(6) [OF core_pr(1) [OF core pr]] pr_okD(6) [OF core_pr(1) [OF core small(2)]]]
        r(1,2) r'(1,2) small(4) by linarith
  qed
next
  case big
  then show ?thesis
    using big_apart(1) [OF core q(1) big(1) pr] blocks_range(1,2) [OF core_pr(1) [OF core pr] p] by linarith
qed

lemma big_disjoint:
  assumes core: "kcore most pok handed s" and b: "(p, n) \<in> set (live s)" "(q, m) \<in> set (live s)" "p \<noteq> q"
    and big: "LARGEST_SUBPAGE_SIZE \<le> n" "LARGEST_SUBPAGE_SIZE \<le> m"
  shows "set (span p (npages n)) \<inter> set (span q (npages m)) = {}"
proof -
  have "distinct (map fst (live s))" using kcoreD(6) [OF core] by (simp add: live_ok_def)
  then have "big_pages (live s) = big_pages (filter (\<lambda>b. fst b \<noteq> p) (live s)) + mset (span p (npages n))"
    using big_pages_filter [OF _ b(1)] big(1) by simp
  moreover have "x \<in># big_pages (filter (\<lambda>b. fst b \<noteq> p) (live s))" if "x \<in> set (span q (npages m))" for x
    using big_pages_member(1) [OF _ big(2) that] b(2,3) by simp
  ultimately show ?thesis
    using count_parts_disjoint [of "big_pages (filter (\<lambda>b. fst b \<noteq> p) (live s))" "mset (span p (npages n))"
        "root_pages (kheaproots (heap s)) + data_pages (heap s) + call_pages (calls s)"] pages_okD(3) [OF kcoreD(1) [OF core]]
    by (auto simp: pagebag_def ac_simps)
qed

lemma live_apart:
  assumes core: "kcore most pok handed s" and b: "(p, n) \<in> set (live s)" "(q, m) \<in> set (live s)" "p \<noteq> q"
  shows "p + n \<le> q \<or> q + m \<le> p"
  using core b(1)
proof (cases rule: live_cases)
  case (small pr)
  then show ?thesis using block_apart_live [OF core small(2,3) b(2)] b(3) by auto
next
  case p: big
  show ?thesis using core b(2)
  proof (cases rule: live_cases)
    case (small pr)
    then show ?thesis using block_apart_live [OF core small(2,3) b(1)] b(3) by auto
  next
    case big
    have "set (span p (npages n)) \<inter> set (span q (npages m)) = {}" by (rule big_disjoint [OF core b p(1) big(1)])
    then have "p + npages n * PAGE_SIZE \<le> q \<or> q + npages m * PAGE_SIZE \<le> p"
      using kpageD(4) p(1,2) big(1,2) big_pages_member(3) b(1,2) by (intro spans_apart) blast+
    then show ?thesis using npages_covers(1) [of n] npages_covers(1) [of m] by linarith
  qed
qed

text \<open>The blocks of a list keep their contents.\<close>

definition keeps :: "(nat \<times> nat) set \<Rightarrow> (nat \<Rightarrow> nat) \<Rightarrow> (nat \<Rightarrow> nat) \<Rightarrow> bool" where
  "keeps B m m' \<longleftrightarrow> (\<forall>p n k. (p, n) \<in> B \<longrightarrow> 4 * k < n \<longrightarrow> m' (p + 4 * k) = m (p + 4 * k))"

lemma keeps_refl [simp]: "keeps B m m"
  by (simp add: keeps_def)

lemma keepsD: "keeps B m m' \<Longrightarrow> (p, n) \<in> B \<Longrightarrow> 4 * k < n \<Longrightarrow> m' (p + 4 * k) = m (p + 4 * k)"
  unfolding keeps_def by blast

lemma keepsI:
  assumes "\<And>a. a < lo \<or> hi \<le> a \<Longrightarrow> m' a = m a" "\<And>p n. (p, n) \<in> B \<Longrightarrow> p + n \<le> lo \<or> hi \<le> p"
  shows "keeps B m m'"
  unfolding keeps_def
proof (intro allI impI)
  fix p n k
  assume "(p, n) \<in> B" "4 * k < n"
  then have "p + 4 * k < lo \<or> hi \<le> p + 4 * k" using assms(2) [of p n] by linarith
  then show "m' (p + 4 * k) = m (p + 4 * k)" by (rule assms(1))
qed

text \<open>One call of \<^verbatim>\<open>kfree\<close> on a block in use, small or large.\<close>

lemma free_small_step:
  assumes core: "kcore most pok handed s" and busy: "busy_but {} s" and t: "t < length (calls s)" "calls s ! t = Idle"
    and b: "(p, n) \<in> set (live s)"
    and small: "n < LARGEST_SUBPAGE_SIZE" "pr \<in> set (allbase (heap s))" "p \<in> blocks (pagerefs (heap s) pr)"
  shows "\<exists>h out. kfree p (heap s) = Some (h, out) \<and> (out = Done 0 \<or> (\<exists>pg. out = Wait (Free_page pg)))
    \<and> kcore most pok handed (kfinish t 0 h out (s\<lparr>live := filter (\<lambda>b. fst b \<noteq> p) (live s)\<rparr>))
    \<and> busy_but {} (kfinish t 0 h out (s\<lparr>live := filter (\<lambda>b. fst b \<noteq> p) (live s)\<rparr>))
    \<and> keeps {b \<in> set (live s). fst b \<noteq> p} (kmem (heap s)) (kmem h)"
proof -
  let ?r = "pagerefs (heap s) pr" and ?h = "put_back pr p (heap s)"
  let ?s = "s\<lparr>heap := ?h, live := filter (\<lambda>b. fst b \<noteq> p) (live s)\<rparr>"
  note pok = core_pr(1) [OF core small(2)]
  have p0: "p \<noteq> 0" using blocks_range(5) [OF pok small(3)] by simp
  have pL: "p \<in> liveset s" using b by force
  note g = give_block [OF core busy small(2,3) b small(1)]
  note eq = subpage_kfree_eq [OF core small(2,3) pL]
  have pok': "pr_ok (pagerefs ?h pr)" using pok by simp
  obtain gs where gs: "page_free (kmem ?h) (liveset ?s) (pagerefs ?h pr) gs"
    using core_pr(2) [OF g(1), of pr] small(2) by auto
  have len: "nfree (pagerefs ?h pr) + card (blocks ?r \<inter> liveset ?s) = nblocks ?r"
    using page_free_length [OF pok' gs] gs by (simp add: page_free_def)
  have keep: "keeps {b \<in> set (live s). fst b \<noteq> p} (kmem (heap s)) (kmem ?h)"
    using put_back_mem [OF pr_okD(1) [OF pok]] block_apart_live [OF core small(2,3)]
    by (intro keepsI [of p "p + bsize ?r"]) auto
  show ?thesis
  proof (cases "nfree (pagerefs ?h pr) = nblocks ?r")
    case False
    then have "blocks ?r \<inter> liveset ?s \<noteq> {}" using len by (metis add.right_neutral card.empty)
    then have "busy_but {} ?s" using g(2) by (auto simp: busy_but_def)
    moreover have "kfinish t 0 ?h (Done 0) (s\<lparr>live := filter (\<lambda>b. fst b \<noteq> p) (live s)\<rparr>) = ?s"
      using t by (simp add: kfinish_def list_update_same_conv)
    ultimately show ?thesis using False eq p0 g(1) keep by (auto simp: kfree_def)
  next
    case True
    then have "card (blocks ?r \<inter> liveset ?s) = 0" using len by simp
    then have none: "blocks (pagerefs (heap ?s) pr) \<inter> liveset ?s = {}" using blocks_card(2) by simp
    obtain h2 h where h: "remove_lists pr (PR_BLOCKTYPE ?r) ?h = Some h2" "freepageref pr h2 = Some h" "kmem h = kmem ?h"
      "kcore most pok handed (?s\<lparr>heap := h, calls := (calls ?s)[t := Free_page (PR_PAGEADDR ?r)]\<rparr>)"
      "busy_but {} (?s\<lparr>heap := h, calls := (calls ?s)[t := Free_page (PR_PAGEADDR ?r)]\<rparr>)"
      using drop_page [OF g(1,2) _ none, of t] small(2) t by auto
    have "kfree p (heap s) = Some (h, Wait (Free_page (PR_PAGEADDR ?r)))"
      using eq True h(1,2) p0 by (simp add: kfree_def)
    then show ?thesis using h(3-5) keep by (auto simp: kfinish_def)
  qed
qed

lemma free_big_step:
  assumes core: "kcore most pok handed s" and busy: "busy_but {} s" and t: "t < length (calls s)" "calls s ! t = Idle"
    and b: "(p, n) \<in> set (live s)"
    and big: "LARGEST_SUBPAGE_SIZE \<le> n" "kpage p"
  shows "\<exists>h out. kfree p (heap s) = Some (h, out) \<and> (out = Done 0 \<or> (\<exists>pg. out = Wait (Free_page pg)))
    \<and> kcore most pok handed (kfinish t 0 h out (s\<lparr>live := filter (\<lambda>b. fst b \<noteq> p) (live s)\<rparr>))
    \<and> busy_but {} (kfinish t 0 h out (s\<lparr>live := filter (\<lambda>b. fst b \<noteq> p) (live s)\<rparr>))
    \<and> keeps {b \<in> set (live s). fst b \<noteq> p} (kmem (heap s)) (kmem h)"
proof -
  have p0: "p \<noteq> 0" "p mod PAGE_SIZE = 0" using kpageD(1,5) [OF big(2)] by simp_all
  have "\<forall>pr\<in>set (allbase (heap s)). PR_BLOCKTYPE (pagerefs (heap s) pr) < NSIZES"
    using core_pr(1) [OF core] pr_okD(7) by blast
  from find_holder_spec [OF this, of p] obtain q where q: "find_holder (pagerefs (heap s)) p (allbase (heap s)) = Some q"
    "case q of
         None \<Rightarrow> \<forall>pr\<in>set (allbase (heap s)). \<not> (PR_PAGEADDR (pagerefs (heap s) pr) \<le> p \<and> p < PR_PAGEADDR (pagerefs (heap s) pr) + PAGE_SIZE)
       | Some pr \<Rightarrow> pr \<in> set (allbase (heap s)) \<and> PR_PAGEADDR (pagerefs (heap s) pr) \<le> p \<and> p < PR_PAGEADDR (pagerefs (heap s) pr) + PAGE_SIZE"
    by blast
  have "q = None"
  proof (cases q)
    case (Some q')
    then show ?thesis using q(2) big_apart(1) [OF core b big(1), of q'] big(1) by (auto simp: LARGEST_SUBPAGE_SIZE_def)
  qed simp
  then have eq: "kfree p (heap s) = Some (heap s, Wait (Free_page p))"
    using q(1) p0 by (simp add: kfree_def subpage_kfree_def)
  let ?s = "kfinish t 0 (heap s) (Wait (Free_page p)) (s\<lparr>live := filter (\<lambda>b. fst b \<noteq> p) (live s)\<rparr>)"
  have "{#p#} \<subseteq># mset (span p (npages n))"
    using big_pages_member(3) [OF b big(1)] by (auto simp: in_span)
  then have "add_mset p (big_pages (filter (\<lambda>b. fst b \<noteq> p) (live s))) \<subseteq># big_pages (live s)"
    using big_pages_filter [OF _ b] kcoreD(6) [OF core] big(1) by (simp add: live_ok_def)
  moreover have "call_pages ((calls s)[t := Free_page p]) = add_mset p (call_pages (calls s))"
    "call_slots ((calls s)[t := Free_page p]) = call_slots (calls s)"
    using call_pages_update [OF t(1), of "Free_page p"] call_slots_update [OF t(1), of "Free_page p"] t(2) by simp_all
  ultimately have sub: "pagebag ?s \<subseteq># pagebag s" and bags: "slotbag ?s = slotbag s"
    by (simp_all add: pagebag_def slotbag_def)
  have nb: "p \<notin> blocks (pagerefs (heap s) pr)" if "pr \<in> set (allbase (heap s))" for pr
    using big_apart(2) [OF core b big(1) that] .
  have L': "liveset ?s = liveset s - {p}" by auto
  have "page_ok (kmem (heap s)) (liveset s - {p}) (pagerefs (heap s) pr)" if pr: "pr \<in> set (allbase (heap s))" for pr
  proof -
    obtain fs where "page_free (kmem (heap s)) (liveset s) (pagerefs (heap s) pr) fs" using core_pr(2) [OF core pr] by blast
    then have "page_free (kmem (heap s)) (liveset s - {p}) (pagerefs (heap s) pr) fs"
      by (rule page_free_frame) (use nb [OF pr] in auto)
    then show ?thesis using core_pr(1) [OF core pr] by (auto simp: page_ok_def)
  qed
  then have "blocks_ok (heap s) (liveset ?s)" unfolding L' by (simp add: blocks_ok_def)
  moreover have "phase_ok most (kheaproots (heap s)) ((calls s)[t := Free_page p] ! u)" if "u < length (calls s)" for u
    using phases_update [OF kcoreD(3) [OF core]] that by simp
  ultimately have "kcore most pok handed ?s"
    using pages_ok_subset [OF kcoreD(1) [OF core] sub] kcoreD(2,4) [OF core] live_ok_filter [OF kcoreD(6) [OF core]]
    by (simp add: kcore_def bags)
  moreover have "busy_but {} ?s"
    unfolding busy_but_def L'
  proof (intro allI impI)
    fix pr
    assume "pr \<in> set (allbase (heap ?s))"
    then have pr: "pr \<in> set (allbase (heap s))" by simp
    then have "blocks (pagerefs (heap s) pr) \<inter> liveset s \<noteq> {}" using busy by (simp add: busy_but_def)
    then show "blocks (pagerefs (heap ?s) pr) \<inter> (liveset s - {p}) \<noteq> {}" using nb [OF pr] by auto
  qed
  ultimately show ?thesis using eq by auto
qed

lemma free_step:
  assumes core: "kcore most pok handed s" and busy: "busy_but {} s" and t: "t < length (calls s)" "calls s ! t = Idle"
    and b: "(p, n) \<in> set (live s)"
  shows "\<exists>h out. kfree p (heap s) = Some (h, out) \<and> (out = Done 0 \<or> (\<exists>pg. out = Wait (Free_page pg)))
    \<and> kcore most pok handed (kfinish t 0 h out (s\<lparr>live := filter (\<lambda>b. fst b \<noteq> p) (live s)\<rparr>))
    \<and> busy_but {} (kfinish t 0 h out (s\<lparr>live := filter (\<lambda>b. fst b \<noteq> p) (live s)\<rparr>))
    \<and> keeps {b \<in> set (live s). fst b \<noteq> p} (kmem (heap s)) (kmem h)"
  using core b
proof (cases rule: live_cases)
  case (small pr)
  then show ?thesis using free_small_step [OF core busy t b] by blast
next
  case big
  then show ?thesis using free_big_step [OF core busy t b] by blast
qed

text \<open>One call of \<^verbatim>\<open>kmalloc\<close>, up to its first wait.\<close>

lemma wait_step:
  assumes core: "kcore most pok handed s" and busy: "busy_but {} s" and t: "t < length (calls s)"
    and ph: "phase_ok most (kheaproots (heap s)) ph" "mset (phase_pages ph) = mset (phase_pages (calls s ! t))"
      "mset (phase_slots (calls s ! t)) = mset (phase_slots ph) + mset l"
  shows "kcore most pok handed (kfinish t sz (heap s) (Wait ph) (s\<lparr>lost := l @ lost s\<rparr>))"
    "busy_but {} (kfinish t sz (heap s) (Wait ph) (s\<lparr>lost := l @ lost s\<rparr>))"
  using change_phase [OF assms] by (simp_all add: kfinish_def)

lemma lost_same [simp]: "s\<lparr>lost := lost s\<rparr> = s" for s :: "'p ksys"
  by simp

lemma malloc_step:
  assumes core: "kcore most pok handed s" and busy: "busy_but {} s" and t: "t < length (calls s)" "calls s ! t = Idle"
    and sz: "sz \<le> most * PAGE_SIZE" "most < 2 ^ 20"
  shows "\<exists>h out. kmalloc sz (heap s) = Some (h, out) \<and> kmem h = kmem (heap s)
    \<and> kcore most pok handed (kfinish t sz h out s) \<and> busy_but {} (kfinish t sz h out s)"
proof (cases "sz < LARGEST_SUBPAGE_SIZE")
  case False
  have "sz + PAGE_SIZE - 1 < 2 ^ 32" using sz by (simp add: PAGE_SIZE_def)
  then have "kmalloc sz (heap s) = Some (heap s, Wait (Want_pages sz (npages sz)))"
    using False by (simp add: kmalloc_def npages_def)
  then show ?thesis
    using wait_step [OF core busy t(1), of "Want_pages sz (npages sz)" "[]" sz] False npages_covers(3) [OF sz(1)] t(2) by simp
next
  case True
  obtain b where b: "blocktype sz = Some b" "b < NSIZES" "sz \<le> sizes ! b" using blocktype_small [OF True] .
  have sb: "set (sizebases (heap s) ! b) = {pr \<in> set (allbase (heap s)). PR_BLOCKTYPE (pagerefs (heap s) pr) = b}"
    using kcoreD(4) [OF core] b(2) by (simp add: lists_ok_def)
  then have "\<forall>pr\<in>set (sizebases (heap s) ! b). PR_BLOCKTYPE (pagerefs (heap s) pr) = b" by simp
  from find_page_spec [OF this] obtain r where r: "find_page (pagerefs (heap s)) b (sizebases (heap s) ! b) = Some r"
    "case r of None \<Rightarrow> \<forall>pr\<in>set (sizebases (heap s) ! b). nfree (pagerefs (heap s) pr) = 0
     | Some pr \<Rightarrow> pr \<in> set (sizebases (heap s) ! b) \<and> 0 < nfree (pagerefs (heap s) pr)" by blast
  show ?thesis
  proof (cases r)
    case None
    then have "kmalloc sz (heap s) = Some (heap s, Wait (Want_page sz b))"
      using True b(1) r(1) by (simp add: kmalloc_def subpage_kmalloc_def)
    then show ?thesis using wait_step [OF core busy t(1), of "Want_page sz b" "[]" sz] True b t(2) by simp
  next
    case (Some pr)
    then have pr: "pr \<in> set (allbase (heap s))" "PR_BLOCKTYPE (pagerefs (heap s) pr) = b" "0 < nfree (pagerefs (heap s) pr)"
      using r(2) sb by auto
    have "busy_but {pr} s" using busy by (simp add: busy_but_def)
    then obtain h p where "doalloc pr (heap s) = Some (h, p)" "kmem h = kmem (heap s)"
        "kcore most pok handed (kfinish t sz h (Done p) s)" "busy_but {} (kfinish t sz h (Done p) s)"
      using take_block [OF core _ pr(1,3) t(1), of sz] b(3) True t(2) pr(2) by auto
    moreover from this have "kmalloc sz (heap s) = Some (h, Done p)"
      using True b(1) r(1) Some by (simp add: kmalloc_def subpage_kmalloc_def)
    ultimately show ?thesis by blast
  qed
qed

text \<open>Writing a word of a block in use.\<close>

lemma store_step:
  assumes core: "kcore most pok handed s" and busy: "busy_but {} s" and b: "(p, n) \<in> set (live s)" "4 * k < n"
  shows "kcore most pok handed (s\<lparr>heap := (heap s)\<lparr>kmem := (kmem (heap s))(p + 4 * k := v)\<rparr>\<rparr>)"
    "busy_but {} (s\<lparr>heap := (heap s)\<lparr>kmem := (kmem (heap s))(p + 4 * k := v)\<rparr>\<rparr>)"
    "keeps {b \<in> set (live s). fst b \<noteq> p} (kmem (heap s)) ((kmem (heap s))(p + 4 * k := v))"
proof -
  let ?m = "(kmem (heap s))(p + 4 * k := v)"
  let ?s = "s\<lparr>heap := (heap s)\<lparr>kmem := ?m\<rparr>\<rparr>"
  have "page_ok ?m (liveset s) (pagerefs (heap s) pr)" if pr: "pr \<in> set (allbase (heap s))" for pr
  proof -
    obtain fs where fs: "page_free (kmem (heap s)) (liveset s) (pagerefs (heap s) pr) fs" using core_pr(2) [OF core pr] by blast
    have "?m a = kmem (heap s) a" if a: "a \<in> blocks (pagerefs (heap s) pr) - liveset s" for a
    proof -
      have "p \<noteq> a" using b(1) a by force
      then have "a + bsize (pagerefs (heap s) pr) \<le> p \<or> p + n \<le> a" using block_apart_live [OF core pr _ b(1)] a by blast
      then have "a \<noteq> p + 4 * k" using b(2) pr_okD(1) [OF core_pr(1) [OF core pr]] by linarith
      then show ?thesis by simp
    qed
    then show ?thesis using page_free_frame [OF fs, of ?m "liveset s"] core_pr(1) [OF core pr] by (auto simp: page_ok_def)
  qed
  then show "kcore most pok handed ?s"
    using core by (simp add: kcore_def blocks_ok_def pagebag_def slotbag_def data_pages_def lists_ok_def live_ok_def)
  show "busy_but {} ?s" using busy by (simp add: busy_but_def)
  show "keeps {b \<in> set (live s). fst b \<noteq> p} (kmem (heap s)) ?m"
    using live_apart [OF core b(1)] b(2) by (intro keepsI [of p "p + n"]) auto
qed

section \<open>The sections that call the page allocator\<close>

context page_source
begin

lemma pages_ok_gains:
  assumes "pages_ok pok handed p B" "roomy p" "1 \<le> n" "n \<le> most"
  obtains (none) p' where "palloc n p = Some (p', 0)" "pages_ok pok handed p' B"
  | (pages) p' va where "palloc n p = Some (p', va)" "va \<noteq> 0" "va mod PAGE_SIZE = 0" "pages_ok pok handed p' (mset (span va n) + B)"
      "\<And>x. x \<in> set (span va n) \<Longrightarrow> kpage x \<and> x \<notin># B"
proof -
  have ok: "pok p" using assms(1) by (simp add: pages_ok_def)
  obtain p' va where pv: "palloc n p = Some (p', va)" "pok p'"
    "va = 0 \<and> handed p' = handed p
     \<or> (\<forall>x\<in>set (span va n). kpage x \<and> x \<notin> handed p) \<and> handed p' = set (span va n) \<union> handed p"
    using palloc_pages [OF ok assms(2-4)] by blast
  from pv(3) show thesis
  proof
    assume z: "va = 0 \<and> handed p' = handed p"
    then have "pages_ok pok handed p' B" using assms(1) pv(2) by (simp add: pages_ok_def)
    then show thesis using none pv(1) z by simp
  next
    assume k: "(\<forall>x\<in>set (span va n). kpage x \<and> x \<notin> handed p) \<and> handed p' = set (span va n) \<union> handed p"
    have new: "kpage x \<and> x \<notin># B" if "x \<in> set (span va n)" for x using assms(1) k that by (auto simp: pages_ok_def)
    have "va \<in> set (span va n)" unfolding in_span using assms(3) by (intro exI [of _ 0]) simp
    then have kp: "kpage va" using k by blast
    have "count (mset (span va n) + B) x = 1" if "x \<in># mset (span va n) + B" for x
      using that new [of x] assms(1) distinct_count_atmost_1 [of "span va n"] distinct_span [of va n]
      by (cases "x \<in> set (span va n)") (auto simp: pages_ok_def not_in_iff)
    then have "pages_ok pok handed p' (mset (span va n) + B)"
      using assms(1) pv(2) k by (auto simp: pages_ok_def)
    then show thesis using pages pv(1) new kpageD(1,5) [OF kp] by simp
  qed
qed

lemma pages_ok_gain:
  assumes "pages_ok pok handed p B" "roomy p"
  obtains (none) p' where "palloc 1 p = Some (p', 0)" "pages_ok pok handed p' B"
  | (page) p' va where "palloc 1 p = Some (p', va)" "va \<noteq> 0" "va mod PAGE_SIZE = 0" "pages_ok pok handed p' (add_mset va B)"
  using assms order_refl most_fits(1)
proof (cases rule: pages_ok_gains)
  case (pages p' va)
  then show thesis by (intro page [of p' va]) simp_all
qed (use none in blast)

lemma pages_ok_lose:
  assumes "pages_ok pok handed p (add_mset a B)"
  shows "pages_ok pok handed (pfree a p) B"
proof -
  have a: "pok p" "a \<in> handed p" "count (add_mset a B) a = 1" using assms by (simp_all add: pages_ok_def)
  then have "a \<notin># B" by (simp add: not_in_iff)
  moreover have "pok (pfree a p)" "handed p - {a} \<subseteq> handed (pfree a p)" using pfree_keeps [OF a(1,2)] by blast+
  ultimately show ?thesis using assms unfolding pages_ok_def
    by (metis Diff_iff add_mset_remove_trivial count_add_mset singletonD subsetD union_iff union_single_eq_member add_mset_add_single)
qed

text \<open>Each section of a call, by its phase: it runs to its end and keeps the invariant and the contents of
  all blocks in use.\<close>

definition section_ok :: "'p ksys \<Rightarrow> nat \<Rightarrow> bool" where
  "section_ok s t \<longleftrightarrow>
     (\<exists>h out. kmalloc_continue palloc pfree (calls s ! t) (heap s) = Some (h, out)
       \<and> kcore most pok handed (kfinish t (wanted (calls s ! t)) h out (s\<lparr>lost := drops_ref (calls s ! t) out @ lost s\<rparr>))
       \<and> busy_but {} (kfinish t (wanted (calls s ! t)) h out (s\<lparr>lost := drops_ref (calls s ! t) out @ lost s\<rparr>))
       \<and> keeps (set (live s)) (kmem (heap s)) (kmem h))"

lemma section_okI:
  assumes "kmalloc_continue palloc pfree (calls s ! t) (heap s) = Some (h, out)" "drops_ref (calls s ! t) out = []"
    "kcore most pok handed (kfinish t (wanted (calls s ! t)) h out s)" "busy_but {} (kfinish t (wanted (calls s ! t)) h out s)"
    "keeps (set (live s)) (kmem (heap s)) (kmem h)"
  shows "section_ok s t"
  using assms by (auto simp: section_ok_def)

lemma use_page_section:
  assumes core: "kcore most pok handed s'" and busy: "busy_but {} s'" and s': "s' = s\<lparr>heap := h', calls := (calls s)[t := Resume sz b pg pr]\<rparr>"
    and t: "t < length (calls s)" and m: "kmem h' = kmem (heap s)"
    and eq: "kmalloc_continue palloc pfree (calls s ! t) (heap s) = use_page b pg pr h'" "wanted (calls s ! t) = sz"
  shows "section_ok s t"
proof -
  have t': "t < length (calls s')" "calls s' ! t = Resume sz b pg pr" using t by (simp_all add: s')
  obtain h p where hp: "use_page b pg pr (heap s') = Some (h, Done p)"
    "kcore most pok handed (kfinish t sz h (Done p) s')" "busy_but {} (kfinish t sz h (Done p) s')"
    "\<forall>a. a < pg \<or> pg + PAGE_SIZE \<le> a \<longrightarrow> kmem h a = kmem (heap s') a"
    using use_page_step [OF core busy t'] by blast
  have pg: "pg \<in># call_pages (calls s')" using in_call_pages [OF t'(1), of pg] t'(2) by simp
  have "keeps (set (live s)) (kmem (heap s)) (kmem h)"
    using hp(4) call_page_apart(3) [OF core pg] m by (intro keepsI [of pg "pg + PAGE_SIZE"]) (auto simp: s')
  moreover have "drops_ref (calls s ! t) (Done p) = []" by (cases "calls s ! t") auto
  ultimately show ?thesis using hp eq
    by (intro section_okI [of s t h "Done p"]) (simp_all add: s' kfinish_Done_again)
qed

lemma gain_section:
  assumes core: "kcore most pok handed s" and busy: "busy_but {} s" and t: "t < length (calls s)"
    and ok: "pages_ok pok handed p (pagebag (s\<lparr>calls := (calls s)[t := ph]\<rparr>))"
    and ph: "phase_ok most (kheaproots (heap s)) ph" "phase_slots ph = phase_slots (calls s ! t)"
    and eq: "kmalloc_continue palloc pfree (calls s ! t) (heap s) = Some ((heap s)\<lparr>pagesrc := p\<rparr>, out)"
      "out = Wait ph \<or> out = Done 0 \<and> ph = Idle" "drops_ref (calls s ! t) out = []"
  shows "section_ok s t"
proof (rule section_okI [OF eq(1,3)])
  have "kfinish t n ((heap s)\<lparr>pagesrc := p\<rparr>) out s = s\<lparr>heap := (heap s)\<lparr>pagesrc := p\<rparr>, calls := (calls s)[t := ph]\<rparr>" for n
    using eq(2) by (auto simp: kfinish_def)
  then show "kcore most pok handed (kfinish t (wanted (calls s ! t)) ((heap s)\<lparr>pagesrc := p\<rparr>) out s)"
    "busy_but {} (kfinish t (wanted (calls s ! t)) ((heap s)\<lparr>pagesrc := p\<rparr>) out s)"
    using change_pages [OF core busy t ph ok] by simp_all
qed simp

lemma want_page_section:
  assumes core: "kcore most pok handed s" and busy: "busy_but {} s" and t: "t < length (calls s)" "calls s ! t = Want_page sz b"
    and room: "roomy (pagesrc (heap s))"
  shows "section_ok s t"
  using kcoreD(1) [OF core] room
proof (cases rule: pages_ok_gain)
  case (none p')
  then show ?thesis using pagebag_change [OF t(1), of Idle] t
    by (intro gain_section [OF core busy t(1), of p' Idle "Done 0"]) simp_all
next
  case (page p' va)
  have "pagebag (s\<lparr>calls := (calls s)[t := Want_ref sz b va]\<rparr>) = add_mset va (pagebag s)"
    using pagebag_change [OF t(1), of "Want_ref sz b va"] t(2) by simp
  then show ?thesis using page kcoreD(3) [OF core t(1)] t
    by (intro gain_section [OF core busy t(1), of p' "Want_ref sz b va" "Wait (Want_ref sz b va)"]) simp_all
qed

lemma want_refpage_section:
  assumes core: "kcore most pok handed s" and busy: "busy_but {} s" and t: "t < length (calls s)" "calls s ! t = Want_refpage sz b pg pr"
    and room: "roomy (pagesrc (heap s))"
  shows "section_ok s t"
  using kcoreD(1) [OF core] room
proof (cases rule: pages_ok_gain)
  case (none p')
  have "pagebag (s\<lparr>calls := (calls s)[t := Got_refpage sz b pg pr 0]\<rparr>) = pagebag s"
    using pagebag_change [OF t(1), of "Got_refpage sz b pg pr 0"] t(2) by simp
  then show ?thesis using none kcoreD(3) [OF core t(1)] t
    by (intro gain_section [OF core busy t(1), of p' "Got_refpage sz b pg pr 0" "Wait (Got_refpage sz b pg pr 0)"]) simp_all
next
  case (page p' va)
  have "pagebag (s\<lparr>calls := (calls s)[t := Got_refpage sz b pg pr va]\<rparr>) = add_mset va (pagebag s)"
    using pagebag_change [OF t(1), of "Got_refpage sz b pg pr va"] t(2) page(2) by simp
  then show ?thesis using page kcoreD(3) [OF core t(1)] t
    by (intro gain_section [OF core busy t(1), of p' "Got_refpage sz b pg pr va" "Wait (Got_refpage sz b pg pr va)"]) simp_all
qed

text \<open>A page given back.\<close>

lemma lose_section:
  assumes core: "kcore most pok handed s" and busy: "busy_but {} s" and t: "t < length (calls s)"
    and pages: "mset (phase_pages (calls s ! t)) = add_mset a (mset (phase_pages ph))"
    and ph: "phase_ok most (kheaproots (heap s)) ph" "phase_slots ph = phase_slots (calls s ! t)"
    and eq: "kmalloc_continue palloc pfree (calls s ! t) (heap s) = Some ((heap s)\<lparr>pagesrc := pfree a (pagesrc (heap s))\<rparr>, out)"
      "out = Wait ph \<or> out = Done 0 \<and> ph = Idle" "drops_ref (calls s ! t) out = []"
  shows "section_ok s t"
proof -
  have "add_mset a (pagebag (s\<lparr>calls := (calls s)[t := ph]\<rparr>)) = pagebag s"
    using pagebag_change [OF t, of ph] pages by simp
  then have "pages_ok pok handed (pagesrc (heap s)) (add_mset a (pagebag (s\<lparr>calls := (calls s)[t := ph]\<rparr>)))"
    using kcoreD(1) [OF core] by simp
  then show ?thesis by (intro gain_section [OF core busy t pages_ok_lose ph eq])
qed

lemma got_refpage_section:
  assumes core: "kcore most pok handed s" and busy: "busy_but {} s" and t: "t < length (calls s)" "calls s ! t = Got_refpage sz b pg pr va"
  shows "section_ok s t"
proof -
  let ?root = "kheaproots (heap s) ! fst pr"
  note ph = kcoreD(3) [OF core t(1), unfolded t(2)]
  have al: "va \<noteq> 0 \<Longrightarrow> va mod PAGE_SIZE = 0"
  proof -
    assume "va \<noteq> 0"
    then have "va \<in># call_pages (calls s)" using in_call_pages [OF t(1), of va] t(2) by simp
    then show "va mod PAGE_SIZE = 0" using kpageD(5) [OF call_page_apart(1) [OF core]] by blast
  qed
  consider (lost) "va = 0" "kr_page ?root = 0" | (use) "va = 0" "kr_page ?root \<noteq> 0"
    | (late) "va \<noteq> 0" "kr_page ?root \<noteq> 0" | (install) "va \<noteq> 0" "kr_page ?root = 0" by blast
  then show ?thesis
  proof cases
    case lost
    then show ?thesis using wait_step [OF core busy t(1), of "No_ref pg" "[pr]" sz] t(2)
      unfolding section_ok_def by (intro exI [of _ "heap s"] exI [of _ "Wait (No_ref pg)"]) simp
  next
    case use
    have "kcore most pok handed (kfinish t sz (heap s) (Wait (Resume sz b pg pr)) s)" "busy_but {} (kfinish t sz (heap s) (Wait (Resume sz b pg pr)) s)"
      using wait_step [OF core busy t(1), of "Resume sz b pg pr" "[]" sz] ph use t(2) by simp_all
    then show ?thesis using use t
      by (intro use_page_section [where s' = "kfinish t sz (heap s) (Wait (Resume sz b pg pr)) s" and h' = "heap s"])
         (simp_all add: kfinish_def)
  next
    case late
    then show ?thesis using wait_step [OF core busy t(1), of "Too_late sz b pg pr va" "[]" sz] ph t(2) al
      by (intro section_okI [of s t "heap s" "Wait (Too_late sz b pg pr va)"]) simp_all
  next
    case install
    then show ?thesis using t al
      by (intro use_page_section [OF install_step [OF core busy t install] refl]) (simp_all add: Let_def)
  qed
qed

lemma want_ref_section:
  assumes core: "kcore most pok handed s" and busy: "busy_but {} s" and few: "few_calls s"
    and t: "t < length (calls s)" "calls s ! t = Want_ref sz b pg"
  shows "section_ok s t"
proof (cases rule: reserve_step [OF core busy few t])
  case 1
  then show ?thesis using wait_step [OF core busy t(1), of "No_ref pg" "[]" sz] t(2)
    by (intro section_okI [of s t "heap s" "Wait (No_ref pg)"]) simp_all
next
  case (2 h pr ph)
  show ?thesis
  proof (cases "kr_page (kheaproots h ! fst pr) = 0")
    case True
    then show ?thesis using 2 t(2)
      by (intro section_okI [of s t h "Wait ph"]) (simp_all add: kfinish_def)
  next
    case False
    then have ph: "ph = Resume sz b pg pr" using 2(3) by simp
    show ?thesis using 2(1,2) t False by (intro use_page_section [OF 2(4,5) [unfolded ph] refl]) simp_all
  qed
qed

text \<open>A large block: the pages go to the user.\<close>

lemma new_pages_fresh:
  assumes core: "kcore most pok handed s" and new: "\<And>x. x \<in> set (span va n) \<Longrightarrow> kpage x \<and> x \<notin># pagebag s" and n: "0 < n"
  shows "va \<notin> liveset s" "pr \<in> set (allbase (heap s)) \<Longrightarrow> a \<in> blocks (pagerefs (heap s) pr) \<Longrightarrow> a \<noteq> va"
proof -
  have va: "kpage va" "va \<notin># pagebag s" using new [of va] n by (auto simp: in_span)
  have ne: "a \<noteq> va" if "pr \<in> set (allbase (heap s))" "a \<in> blocks (pagerefs (heap s) pr)" for pr a
  proof -
    have "PR_PAGEADDR (pagerefs (heap s) pr) \<noteq> va" using core_pr(3) [OF core that(1)] va(2) by auto
    then show ?thesis
      using kpages_apart [OF pr_okD(6) [OF core_pr(1) [OF core that(1)]] va(1)]
        blocks_range(1,4) [OF core_pr(1) [OF core that(1)] that(2)] by (auto simp: PAGE_SIZE_def)
  qed
  then show "pr \<in> set (allbase (heap s)) \<Longrightarrow> a \<in> blocks (pagerefs (heap s) pr) \<Longrightarrow> a \<noteq> va" .
  show "va \<notin> liveset s"
  proof
    assume "va \<in> liveset s"
    then obtain m where m: "(va, m) \<in> set (live s)" by force
    show False using core m
    proof (cases rule: live_cases)
      case (small pr) then show ?thesis using ne by blast
    next
      case big then show ?thesis using va(2) by blast
    qed
  qed
qed

lemma want_pages_section:
  assumes core: "kcore most pok handed s" and busy: "busy_but {} s" and t: "t < length (calls s)" "calls s ! t = Want_pages sz n"
    and room: "roomy (pagesrc (heap s))"
  shows "section_ok s t"
proof -
  have ph: "n = npages sz" "n \<le> most" "LARGEST_SUBPAGE_SIZE \<le> sz" using kcoreD(3) [OF core t(1)] t(2) by auto
  have n1: "1 \<le> n" using npages_covers(2) [of sz] ph(1,3) by (simp add: LARGEST_SUBPAGE_SIZE_def)
  have same: "pagebag (s\<lparr>calls := (calls s)[t := Idle]\<rparr>) = pagebag s" using pagebag_change [OF t(1), of Idle] t(2) by simp
  show ?thesis using kcoreD(1) [OF core] room n1 ph(2)
  proof (cases rule: pages_ok_gains)
    case (none p')
    then show ?thesis using same t
      by (intro gain_section [OF core busy t(1), of p' Idle "Done 0"]) simp_all
  next
    case (pages p' va)
    let ?h = "(heap s)\<lparr>pagesrc := p'\<rparr>" and ?s = "kfinish t sz ((heap s)\<lparr>pagesrc := p'\<rparr>) (Done va) s"
    note fresh = new_pages_fresh [OF core, of va n]
    have vl: "va \<notin> liveset s" by (rule fresh(1)) (use pages(5) n1 in auto)
    have vb: "a \<noteq> va" if "pr \<in> set (allbase (heap s))" "a \<in> blocks (pagerefs (heap s) pr)" for pr a
      by (rule fresh(2) [OF _ _ that]) (use pages(5) n1 in auto)
    have "call_slots ((calls s)[t := Idle]) = call_slots (calls s)" "call_pages ((calls s)[t := Idle]) = call_pages (calls s)"
      using call_slots_update [OF t(1), of Idle] call_pages_update [OF t(1), of Idle] t(2) by simp_all
    then have bags: "slotbag ?s = slotbag s" "pagebag ?s = mset (span va n) + pagebag s"
      using pages(2) ph(1,3) by (simp_all add: slotbag_def pagebag_def data_pages_def big_pages_def ac_simps)
    have L': "liveset ?s = insert va (liveset s)" using pages(2) by simp
    have "page_ok (kmem (heap s)) (insert va (liveset s)) (pagerefs (heap s) pr)" if pr: "pr \<in> set (allbase (heap s))" for pr
    proof -
      obtain fs where "page_free (kmem (heap s)) (liveset s) (pagerefs (heap s) pr) fs" using core_pr(2) [OF core pr] by blast
      then have "page_free (kmem (heap s)) (insert va (liveset s)) (pagerefs (heap s) pr) fs"
        by (rule page_free_frame) (use vb [OF pr] in auto)
      then show ?thesis using core_pr(1) [OF core pr] by (auto simp: page_ok_def)
    qed
    then have "blocks_ok ?h (liveset ?s)" unfolding L' by (simp add: blocks_ok_def)
    moreover have "live_ok ?h (live ?s)"
      using live_ok_Cons [OF kcoreD(6) [OF core] vl, of sz] ph(3) pages(2) by (simp add: live_ok_def)
    moreover have "phase_ok most (kheaproots (heap s)) ((calls s)[t := Idle] ! u)" if "u < length (calls s)" for u
      using phases_update [OF kcoreD(3) [OF core]] that by simp
    ultimately have "kcore most pok handed ?s"
      using kcoreD(2,4) [OF core] pages(4) by (simp add: kcore_def bags lists_ok_def)
    moreover have "busy_but {} ?s" unfolding busy_but_def L' using busy by (auto simp: busy_but_def)
    ultimately show ?thesis using pages(1-3) t(2) by (intro section_okI [of s t ?h "Done va"]) simp_all
  qed
qed

lemma continue_step:
  assumes core: "kcore most pok handed s" and busy: "busy_but {} s" and few: "few_calls s"
    and t: "t < length (calls s)" "calls s ! t \<noteq> Idle" and room: "wants_page (calls s ! t) \<Longrightarrow> roomy (pagesrc (heap s))"
  shows "section_ok s t"
proof (cases "calls s ! t")
  case (Want_page sz b)
  then show ?thesis using want_page_section [OF core busy t(1)] room by simp
next
  case (Want_ref sz b pg)
  then show ?thesis using want_ref_section [OF core busy few t(1)] by simp
next
  case (Want_refpage sz b pg pr)
  then show ?thesis using want_refpage_section [OF core busy t(1)] room by simp
next
  case (Got_refpage sz b pg pr va)
  then show ?thesis using got_refpage_section [OF core busy t(1)] by simp
next
  case (Too_late sz b pg pr va)
  then show ?thesis using kcoreD(3) [OF core t(1)]
    by (intro lose_section [OF core busy t(1), where a = va and ph = "Resume sz b pg pr" and out = "Wait (Resume sz b pg pr)"]) simp_all
next
  case (Resume sz b pg pr)
  have "(calls s)[t := Resume sz b pg pr] = calls s" using list_update_id [of "calls s" t] Resume by simp
  then have "s = s\<lparr>heap := heap s, calls := (calls s)[t := Resume sz b pg pr]\<rparr>" by simp
  then show ?thesis using Resume kcoreD(3) [OF core t(1)]
    by (intro use_page_section [OF core busy _ t(1), where h' = "heap s"]) simp_all
next
  case (No_ref pg)
  then show ?thesis
    by (intro lose_section [OF core busy t(1), where a = pg and ph = Idle and out = "Done 0"]) simp_all
next
  case (Want_pages sz n)
  then show ?thesis using want_pages_section [OF core busy t(1)] room by simp
next
  case (Free_page pg)
  then show ?thesis
    by (intro lose_section [OF core busy t(1), where a = pg and ph = Idle and out = "Done 0"]) simp_all
qed (use t(2) in simp)

text \<open>Every action of disciplined users runs without a failed assertion and keeps the invariant.\<close>

lemma kdo_step:
  assumes core: "kcore most pok handed s" and busy: "busy_but {} s" and few: "few_calls s" and en: "kenabled most roomy act s"
  shows "\<exists>s'. kdo palloc pfree act s = Some s' \<and> kcore most pok handed s' \<and> busy_but {} s'
    \<and> keeps {b \<in> set (live s). \<forall>t p k v. act = Free t p \<or> act = Store p k v \<longrightarrow> fst b \<noteq> p} (kmem (heap s)) (kmem (heap s'))"
proof (cases act)
  case (Malloc t sz)
  then show ?thesis using malloc_step [OF core busy, of t sz] most_fits(2) en by auto
next
  case (Free t p)
  then obtain n where n: "(p, n) \<in> set (live s)" and t: "t < length (calls s)" "calls s ! t = Idle" using en by auto
  show ?thesis using free_step [OF core busy t n] Free by auto
next
  case (Continue t)
  then have t: "t < length (calls s)" "calls s ! t \<noteq> Idle" "wants_page (calls s ! t) \<Longrightarrow> roomy (pagesrc (heap s))"
    using en by simp_all
  have "section_ok s t" by (rule continue_step [OF core busy few t])
  then show ?thesis using Continue by (auto simp: section_ok_def)
next
  case (Store p k v)
  then obtain n where "(p, n) \<in> set (live s)" "4 * k < n" using en by force
  then show ?thesis using store_step [OF core busy] Store by auto
qed

lemma kdo_counts:
  assumes "kdo palloc pfree act s = Some s'"
  shows "length (calls s') = length (calls s)" "length (lost s) \<le> length (lost s')"
proof -
  have f: "length (calls (kfinish t n h out s)) = length (calls s)" for t n h out and s :: "'p ksys"
    by (cases out) simp_all
  show "length (calls s') = length (calls s)" "length (lost s) \<le> length (lost s')"
    using assms by (cases act; auto simp: bind_eq_Some_conv f)+
qed

lemma kheap_init_core:
  assumes "pok p"
  shows "kcore most pok handed (ksys_init threads (kheap_init p m refs))" "busy_but {} (ksys_init threads (kheap_init p m refs))"
proof -
  have ph: "phase_pages x = []" "phase_slots x = []" if "x \<in> set (replicate threads Idle)" for x
    using that by simp_all
  have "call_pages (replicate threads Idle) = {#}" "call_slots (replicate threads Idle) = {#}"
    by (simp_all add: call_pages_def call_slots_def concat_eq_Nil_conv)
  then show "kcore most pok handed (ksys_init threads (kheap_init p m refs))"
    using assms by (auto simp: kcore_def ksys_init_def kheap_init_def pagebag_def slotbag_def data_pages_def root_pages_def
        big_pages_def pages_ok_def slots_ok_def root_ok_def inuse_def NUM_PAGEREFPAGES_def NPAGEREFS_PER_PAGE_def
        INUSE_WORDS_def lists_ok_def blocks_ok_def live_ok_def nth_replicate)
  show "busy_but {} (ksys_init threads (kheap_init p m refs))" by (simp add: busy_but_def ksys_init_def kheap_init_def)
qed

lemma ksteps_counts:
  "ksteps palloc pfree most roomy s s' \<Longrightarrow> length (calls s') = length (calls s) \<and> length (lost s) \<le> length (lost s')"
proof (induction rule: ksteps.induct)
  case (ksteps_step s s' act s'')
  then show ?case using kdo_counts [OF ksteps_step.hyps(3)] by simp
qed simp

lemma ksteps_invariant:
  assumes "ksteps palloc pfree most roomy s s'" "few_calls s'" "kcore most pok handed s" "busy_but {} s"
  shows "kcore most pok handed s' \<and> busy_but {} s'"
  using assms
proof (induction rule: ksteps.induct)
  case (ksteps_step s s' act s'')
  have few: "few_calls s'" using kdo_counts [OF ksteps_step.hyps(3)] ksteps_step.prems(1) by (simp add: few_calls_def)
  then have "kcore most pok handed s'" "busy_but {} s'" using ksteps_step by simp_all
  then show ?case using kdo_step [OF _ _ few ksteps_step.hyps(2)] ksteps_step.hyps(3) by fastforce
qed simp

end

section \<open>The consistency checks\<close>

lemma check_freelist_chain:
  assumes "pr_ok r" "chain m h fs" "distinct fs" "set fs \<subseteq> blocks r" "length fs \<le> n"
  shows "check_freelist n (PR_PAGEADDR r) (bsize r) m h = Some (length fs)"
  using assms(2-)
proof (induction fs arbitrary: h n)
  case Nil
  then show ?case by (cases n) simp_all
next
  case (Cons a fs)
  then obtain k where n: "n = Suc k" "length fs \<le> k" by (cases n) auto
  have a: "a \<in> blocks r" "h = a" "a \<noteq> 0" "chain m (m a) fs" using Cons.prems by auto
  note rng = blocks_range [OF assms(1) a(1)]
  have u: "usub a (PR_PAGEADDR r) = a - PR_PAGEADDR r"
    using rng(1,4) kpageD(3) [OF pr_okD(6) [OF assms(1)]] by (intro usub_eq) linarith+
  have "m a \<noteq> a" using a(3,4) Cons.prems(2) by (cases fs) auto
  moreover have "check_freelist k (PR_PAGEADDR r) (bsize r) m (m a) = Some (length fs)"
    using Cons.prems n(2) a(4) by (intro Cons.IH) auto
  ultimately show ?case using n(1) a rng by (simp add: u)
qed

lemma checksubpage_ok:
  assumes "page_ok (kmem h) L (pagerefs h pr)"
  shows "checksubpage pr h = Some ()"
proof -
  let ?r = "pagerefs h pr"
  obtain fs where r: "pr_ok ?r" and fs: "page_free (kmem h) L ?r fs" using assms by (auto simp: page_ok_def)
  have nf: "nfree ?r = length fs" "chain (kmem h) (fhead ?r) fs" "distinct fs" "set fs \<subseteq> blocks ?r"
    using fs by (auto simp: page_free_def)
  have len: "length fs \<le> 256" using page_free_length [OF r fs] pr_okD(4) [OF r] by linarith
  show ?thesis
  proof (cases "freelist_offset ?r = INVALID_OFFSET")
    case True
    then have "fs = []" using nf(2) by (cases fs) (auto simp: fhead_def)
    then show ?thesis using True nf(1) by (simp add: checksubpage_def Let_def kassert_def)
  next
    case False
    then have h: "fhead ?r = PR_PAGEADDR ?r + freelist_offset ?r" by (simp add: fhead_def)
    then have "fs \<noteq> []" using nf(2) kpageD(1) [OF pr_okD(6) [OF r]] by (cases fs) auto
    then have "fhead ?r \<in> blocks ?r" using nf(2,4) by (cases fs) auto
    note rng = blocks_range [OF r this]
    have "freelist_offset ?r < PAGE_SIZE" "freelist_offset ?r mod bsize ?r = 0" using rng(3,4) h by simp_all
    moreover have "check_freelist 256 (PR_PAGEADDR ?r) (bsize ?r) (kmem h) (PR_PAGEADDR ?r + freelist_offset ?r) = Some (length fs)"
      using check_freelist_chain [OF r nf(2-4) len] h by simp
    ultimately show ?thesis
      using False nf(1) pr_okD(7) [OF r] kpageD(6,7) [OF pr_okD(6) [OF r]] by (simp add: checksubpage_def Let_def kassert_def)
  qed
qed

lemma check_list_ok:
  "\<forall>pr\<in>set prs. checksubpage pr h = Some () \<Longrightarrow> c + length prs \<le> TOTAL_PAGEREFS \<Longrightarrow>
   check_list prs c h = Some (c + length prs)"
  by (induction prs arbitrary: c) auto

lemma mset_concat_classes:
  "mset (concat (map (\<lambda>b. filter (\<lambda>x. f x = b) xs) [0..<n])) = mset (filter (\<lambda>x. f x < n) xs)"
proof (induction n)
  case (Suc n)
  have "mset (filter (\<lambda>x. f x < Suc n) xs) = mset (filter (\<lambda>x. f x < n) xs) + mset (filter (\<lambda>x. f x = n) xs)"
    by (induction xs) auto
  then show ?case using Suc by simp
qed simp

lemma sizebases_allbase:
  assumes "kcore most pok handed s"
  shows "mset (concat (sizebases (heap s))) = mset (allbase (heap s))" "length (allbase (heap s)) \<le> TOTAL_PAGEREFS"
proof -
  let ?h = "heap s" and ?f = "\<lambda>pr. PR_BLOCKTYPE (pagerefs (heap s) pr)"
  note d = slots_okD [OF kcoreD(2) [OF assms]]
  have dist: "distinct (allbase ?h)"
  proof -
    have "count (mset (allbase ?h)) x = 1" if "x \<in> set (allbase ?h)" for x
    proof -
      have "count (mset (allbase ?h)) x + (count (call_slots (calls s)) x + count (mset (lost s)) x) = 1"
        using d(3) [of x] that by (simp add: slotbag_def)
      moreover have "count (mset (allbase ?h)) x \<noteq> 0" using that by simp
      ultimately show ?thesis by linarith
    qed
    then show ?thesis unfolding distinct_count_atmost_1 by simp
  qed
  have lists: "length (sizebases ?h) = NSIZES"
    "\<And>b. b < NSIZES \<Longrightarrow> distinct (sizebases ?h ! b) \<and> set (sizebases ?h ! b) = {pr \<in> set (allbase ?h). ?f pr = b}"
    using kcoreD(4) [OF assms] by (auto simp: lists_ok_def)
  have "mset (sizebases ?h ! b) = mset (filter (\<lambda>pr. ?f pr = b) (allbase ?h))" if "b < NSIZES" for b
    using lists(2) [OF that] dist by (intro iffD1 [OF set_eq_iff_mset_eq_distinct]) (simp_all add: distinct_filter)
  then have "map mset (sizebases ?h) = map mset (map (\<lambda>b. filter (\<lambda>pr. ?f pr = b) (allbase ?h)) [0..<NSIZES])"
    using lists(1) by (intro nth_equalityI) simp_all
  then have "mset (concat (sizebases ?h)) = mset (concat (map (\<lambda>b. filter (\<lambda>pr. ?f pr = b) (allbase ?h)) [0..<NSIZES]))"
    by (simp only: mset_concat map_map)
  also have "\<dots> = mset (filter (\<lambda>pr. ?f pr < NSIZES) (allbase ?h))" by (rule mset_concat_classes)
  also have "filter (\<lambda>pr. ?f pr < NSIZES) (allbase ?h) = allbase ?h"
    using core_pr(1) [OF assms] pr_okD(7) by (intro filter_True) blast
  finally show "mset (concat (sizebases ?h)) = mset (allbase ?h)" .
  have "set (allbase ?h) \<subseteq> {..<NUM_PAGEREFPAGES} \<times> {..<NPAGEREFS_PER_PAGE}"
  proof
    fix x
    assume "x \<in> set (allbase ?h)"
    then have "x \<in># slotbag s" by (simp add: slotbag_def)
    then show "x \<in> {..<NUM_PAGEREFPAGES} \<times> {..<NPAGEREFS_PER_PAGE}" using d(3) [of x] by (simp add: mem_Times_iff)
  qed
  then have "card (set (allbase ?h)) \<le> card ({..<NUM_PAGEREFPAGES} \<times> {..<NPAGEREFS_PER_PAGE})" by (intro card_mono) simp_all
  then show "length (allbase ?h) \<le> TOTAL_PAGEREFS" using dist by (simp add: distinct_card TOTAL_PAGEREFS_def)
qed

lemma checksubpages_ok:
  assumes core: "kcore most pok handed s"
  shows "checksubpages (heap s) = Some ()"
proof -
  note sa = sizebases_allbase [OF core]
  have ok: "checksubpage pr (heap s) = Some ()" if "pr \<in> set (allbase (heap s))" for pr
    using kcoreD(5) [OF core] that checksubpage_ok unfolding blocks_ok_def by blast
  have "length (concat (sizebases (heap s))) = length (allbase (heap s))" using sa(1) by (rule mset_eq_length)
  moreover have "\<forall>pr\<in>set (concat (sizebases (heap s))). checksubpage pr (heap s) = Some ()"
    using ok mset_eq_setD [OF sa(1)] by blast
  ultimately show ?thesis using check_list_ok [of _ "heap s" 0] ok sa(2) by (simp add: checksubpages_def kassert_def)
qed

text \<open>The map printed for a page.\<close>

lemma mark_free_chain:
  assumes "pr_ok r" "chain m h fs" "set fs \<subseteq> blocks r" "length fs \<le> k" "length fm = nblocks r"
  shows "\<exists>fm'. mark_free k (nblocks r) (PR_PAGEADDR r) (bsize r) m h fm = Some fm' \<and> length fm' = nblocks r
    \<and> (\<forall>i<nblocks r. fm' ! i = (fm ! i \<or> PR_PAGEADDR r + i * bsize r \<in> set fs))"
  using assms(2-)
proof (induction fs arbitrary: h k fm)
  case Nil
  then show ?case by (cases k) simp_all
next
  case (Cons a fs)
  then obtain j where k: "k = Suc j" "length fs \<le> j" by (cases k) auto
  have a: "a \<in> blocks r" "h = a" "a \<noteq> 0" "chain m (m a) fs" using Cons.prems by auto
  then obtain i where i: "i < nblocks r" "a = PR_PAGEADDR r + i * bsize r" by (auto simp: blocks_def)
  have z: "0 < bsize r" using pr_okD(1) [OF assms(1)] .
  have u: "usub a (PR_PAGEADDR r) div bsize r = i"
  proof -
    have "usub a (PR_PAGEADDR r) = i * bsize r"
      using blocks_range(1,4) [OF assms(1) a(1)] kpageD(3) [OF pr_okD(6) [OF assms(1)]] i(2)
      by (subst usub_eq) (linarith, linarith, simp)
    then show ?thesis using z by simp
  qed
  obtain fm' where fm': "mark_free j (nblocks r) (PR_PAGEADDR r) (bsize r) m (m a) (fm[i := True]) = Some fm'"
    "length fm' = nblocks r"
    "\<forall>l<nblocks r. fm' ! l = (fm[i := True] ! l \<or> PR_PAGEADDR r + l * bsize r \<in> set fs)"
    using Cons.IH [of "m a" j "fm[i := True]"] Cons.prems(2,4) a(4) k(2) by auto
  have "fm' ! l = (fm ! l \<or> PR_PAGEADDR r + l * bsize r \<in> set (a # fs))" if "l < nblocks r" for l
    using fm'(3) that i Cons.prems(4) z by (cases "l = i") auto
  moreover have "mark_free k (nblocks r) (PR_PAGEADDR r) (bsize r) m h fm = Some fm'"
    using k(1) a(2,3) u i(1) fm'(1) by simp
  ultimately show ?case using fm'(2) by blast
qed

lemma subpage_stats_ok:
  assumes "page_ok (kmem h) L (pagerefs h pr)"
  shows "subpage_stats pr h = Some (map (\<lambda>i. if PR_PAGEADDR (pagerefs h pr) + i * bsize (pagerefs h pr) \<in> L
      then CHR ''*'' else CHR ''.'') [0..<nblocks (pagerefs h pr)])"
proof -
  let ?r = "pagerefs h pr"
  obtain fs where r: "pr_ok ?r" and fs: "page_free (kmem h) L ?r fs" using assms by (auto simp: page_ok_def)
  have nf: "chain (kmem h) (fhead ?r) fs" "set fs = blocks ?r - L" using fs by (auto simp: page_free_def)
  have len: "length fs \<le> 256" using page_free_length [OF r fs] pr_okD(4) [OF r] by linarith
  obtain fm where fm: "mark_free 256 (nblocks ?r) (PR_PAGEADDR ?r) (bsize ?r) (kmem h) (fhead ?r) (replicate (nblocks ?r) False) = Some fm"
    "length fm = nblocks ?r" "\<forall>i<nblocks ?r. fm ! i = (PR_PAGEADDR ?r + i * bsize ?r \<in> set fs)"
    using mark_free_chain [OF r nf(1) _ len, of "replicate (nblocks ?r) False"] nf(2) by auto
  have eq: "map (\<lambda>free. if free then CHR ''.'' else CHR ''*'') fm
      = map (\<lambda>i. if PR_PAGEADDR ?r + i * bsize ?r \<in> L then CHR ''*'' else CHR ''.'') [0..<nblocks ?r]"
  proof (rule nth_equalityI)
    fix i
    assume "i < length (map (\<lambda>free. if free then CHR ''.'' else CHR ''*'') fm)"
    then have i: "i < nblocks ?r" using fm(2) by simp
    then have "PR_PAGEADDR ?r + i * bsize ?r \<in> blocks ?r" unfolding blocks_def by blast
    then show "map (\<lambda>free. if free then CHR ''.'' else CHR ''*'') fm ! i
      = map (\<lambda>i. if PR_PAGEADDR ?r + i * bsize ?r \<in> L then CHR ''*'' else CHR ''.'') [0..<nblocks ?r] ! i"
      using fm(2,3) i nf(2) by auto
  qed (use fm(2) in simp)
  have n: "nblocks ?r \<le> 32 * (PAGE_SIZE div (16 * 32))" using pr_okD(4) [OF r] by (simp add: PAGE_SIZE_def)
  show ?thesis
  proof (cases "freelist_offset ?r = INVALID_OFFSET")
    case True
    then have "fs = []" using nf(1) by (cases fs) (auto simp: fhead_def)
    then have "fm = replicate (nblocks ?r) False" using fm(2,3) by (intro nth_equalityI) simp_all
    then show ?thesis using True eq n pr_okD(7) [OF r] by (simp add: subpage_stats_def Let_def)
  next
    case False
    then show ?thesis using fm(1) eq n pr_okD(7) [OF r] by (simp add: subpage_stats_def Let_def fhead_def)
  qed
qed

section \<open>Properties\<close>

text \<open>The heap on top of \<^verbatim>\<open>dumbvm.c\<close>.\<close>

abbreviation dumb_ksteps :: "dumbvm ksys \<Rightarrow> dumbvm ksys \<Rightarrow> bool" where
  "dumb_ksteps \<equiv> ksteps dumb_alloc_kpages dumb_free_kpages dumb_most (\<lambda>_. True)"

lemma dumb_heap_inv:
  assumes "dram_ok (dv_ram d)" "dumb_ksteps (ksys_init threads (kheap_init d m refs)) s" "threads + length (lost s) < 256"
  shows "kcore dumb_most (dumb_pok (firstpaddr (dv_ram d))) (dumb_handed (firstpaddr (dv_ram d))) s" "busy_but {} s" "few_calls s"
proof -
  have "length (calls s) = threads" using dumb.ksteps_counts [OF assms(2)] by (simp add: ksys_init_def)
  then show few: "few_calls s" using assms(3) by (simp add: few_calls_def NPAGEREFS_PER_PAGE_def)
  have "dumb_pok (firstpaddr (dv_ram d)) d" using assms(1) by (simp add: dumb_pok_def)
  then show "kcore dumb_most (dumb_pok (firstpaddr (dv_ram d))) (dumb_handed (firstpaddr (dv_ram d))) s" "busy_but {} s"
    using dumb.ksteps_invariant [OF assms(2) few] dumb.kheap_init_core by blast+
qed

text \<open>The heap as it is after \<^verbatim>\<open>vm_bootstrap\<close> of \<^verbatim>\<open>vm.c\<close>: the same invariant, as long as the threads have no address
  space, no request is larger than a page, and the page allocator is called only while it has a free page.\<close>

abbreviation vm_ksteps :: "vm ksys \<Rightarrow> vm ksys \<Rightarrow> bool" where
  "vm_ksteps \<equiv> ksteps (alloc_kpages 0) free_kpages 1 cm_roomy"

lemma vm_heap_inv:
  assumes "cm_ok v" "vm_ksteps (ksys_init threads (kheap_init v m refs)) s" "few_calls s"
  shows "kcore 1 cm_ok cm_handed s" "busy_but {} s"
  using vmc.ksteps_invariant [OF assms(2,3)] vmc.kheap_init_core [of v threads m refs] assms(1) by blast+

lemma vm_heap_step:
  assumes "cm_ok v" "vm_ksteps (ksys_init threads (kheap_init v m refs)) s" "few_calls s" "kenabled 1 cm_roomy act s"
  shows "\<exists>s'. kdo (alloc_kpages 0) free_kpages act s = Some s'
      \<and> keeps {b \<in> set (live s). \<forall>t p k v. act = Free t p \<or> act = Store p k v \<longrightarrow> fst b \<noteq> p} (kmem (heap s)) (kmem (heap s'))"
  using vmc.kdo_step [OF vm_heap_inv [OF assms(1-3)] assms(3,4)] by blast

text \<open>Where a block in use lies: aligned, and on pages that are handed out.\<close>

lemma kpage_frame: "kpage pg \<Longrightarrow> pg \<le> a \<Longrightarrow> a < pg + PAGE_SIZE \<Longrightarrow> page_frame a = pg"
proof -
  assume h: "kpage pg" "pg \<le> a" "a < pg + PAGE_SIZE"
  obtain k where k: "pg = PAGE_SIZE * k" using kpageD(4) [OF h(1)] by (auto elim: dvdE)
  then have "a = PAGE_SIZE * k + (a - pg)" "a - pg < PAGE_SIZE" using h(2,3) by linarith+
  then have "a mod PAGE_SIZE = a - pg" by (metis mod_less mod_mult_self4)
  then show ?thesis using h(2) by (simp add: page_frame_def)
qed

lemma live_placed:
  assumes core: "kcore most pok handed s" and b: "(p, n) \<in> set (live s)"
  shows "16 dvd p" "p \<le> a \<Longrightarrow> a < p + max n 1 \<Longrightarrow> page_frame a \<in> handed (pagesrc (heap s))"
  using core b
proof (atomize (full), cases rule: live_cases)
  case (small pr)
  let ?r = "pagerefs (heap s) pr"
  note r = core_pr(1) [OF core small(2)]
  obtain i where i: "p = PR_PAGEADDR ?r + i * bsize ?r" using small(3) by (auto simp: blocks_def)
  have "16 dvd PAGE_SIZE" by (simp add: PAGE_SIZE_def)
  then have "16 dvd PR_PAGEADDR ?r" using kpageD(4) [OF pr_okD(6) [OF r]] by (rule dvd_trans)
  then have al: "16 dvd p" using pr_okD(5) [OF r] by (simp add: i)
  have "page_frame a = PR_PAGEADDR ?r" if "p \<le> a" "a < p + max n 1"
    using blocks_range(1,2) [OF r small(3)] pr_okD(1) [OF r] small(4) that by (intro kpage_frame [OF pr_okD(6) [OF r]]) linarith+
  then show "16 dvd p \<and> (p \<le> a \<longrightarrow> a < p + max n 1 \<longrightarrow> page_frame a \<in> handed (pagesrc (heap s)))"
    using al pages_okD(2) [OF kcoreD(1) [OF core] core_pr(3) [OF core small(2)]] by simp
next
  case big
  have "16 dvd PAGE_SIZE" by (simp add: PAGE_SIZE_def)
  then have al: "16 dvd p" using kpageD(4) [OF big(2)] by (rule dvd_trans)
  have "page_frame a \<in># pagebag s" if "p \<le> a" "a < p + max n 1"
  proof (rule big(3))
    have "a < p + npages n * PAGE_SIZE" using that(2) npages_covers(1) [of n] big(1) by (simp add: LARGEST_SUBPAGE_SIZE_def)
    moreover have "PAGE_SIZE dvd p + npages n * PAGE_SIZE" using kpageD(4) [OF big(2)] by simp
    ultimately show "page_frame a \<in> set (span p (npages n))"
      using aligned_in_span [OF kpageD(4) [OF big(2)], of "page_frame a" "npages n"] that(1)
        page_frame_between(2) [OF kpageD(4) [OF big(2)], of a] page_frame_between(1) by (simp add: page_frame_dvd)
  qed
  then show "16 dvd p \<and> (p \<le> a \<longrightarrow> a < p + max n 1 \<longrightarrow> page_frame a \<in> handed (pagesrc (heap s)))"
    using al pages_okD(2) [OF kcoreD(1) [OF core]] by blast
qed

text \<open>A page of pagerefs meets no block in use.\<close>

lemma root_page_apart:
  assumes core: "kcore most pok handed s" and b: "(p, n) \<in> set (live s)" and w: "w < NUM_PAGEREFPAGES" "kr_page (kheaproots (heap s) ! w) \<noteq> 0"
  shows "p + n \<le> kr_page (kheaproots (heap s) ! w) \<or> kr_page (kheaproots (heap s) ! w) + PAGE_SIZE \<le> p"
proof -
  let ?g = "kr_page (kheaproots (heap s) ! w)"
  note one = pages_okD(3) [OF kcoreD(1) [OF core]]
  have "?g \<in> kr_page ` set (kheaproots (heap s))" using w(1) slots_okD(1) [OF kcoreD(2) [OF core]] by simp
  then have g: "?g \<in># root_pages (kheaproots (heap s))" using w(2) by (simp add: root_pages_def)
  then have kg: "kpage ?g" using bag_parts(2) [of s] pages_okD(1) [OF kcoreD(1) [OF core]] by (meson mset_subset_eqD)
  show ?thesis using core b
  proof (cases rule: live_cases)
    case (small pr)
    let ?q = "PR_PAGEADDR (pagerefs (heap s) pr)"
    have "?q \<in># data_pages (heap s)" using small(2) by (simp add: data_pages_def)
    then have "?g \<noteq> ?q"
      using count_parts_disjoint [of "data_pages (heap s)" "root_pages (kheaproots (heap s))"
          "call_pages (calls s) + big_pages (live s)" ?q] g one by (auto simp: pagebag_def ac_simps)
    then show ?thesis
      using kpages_apart [OF kg pr_okD(6) [OF core_pr(1) [OF core small(2)]]] small(4)
        blocks_range(1,2) [OF core_pr(1) [OF core small(2)] small(3)] by linarith
  next
    case big
    have "?g \<notin> set (span p (npages n))"
      using count_parts_disjoint [of "big_pages (live s)" "root_pages (kheaproots (heap s))"
          "call_pages (calls s) + data_pages (heap s)" ?g] big_pages_member(1) [OF b big(1)] g one
      by (auto simp: pagebag_def ac_simps)
    then show ?thesis
      using span_apart [OF kpageD(4) [OF big(2)] kpageD(4) [OF kg]] npages_covers(1) [of n] by fastforce
  qed
qed

lemma dumb_live_placed:
  assumes core: "kcore dumb_most (dumb_pok f0) (dumb_handed f0) s" and b: "(p, n) \<in> set (live s)"
  shows "f0 + MIPS_KSEG0 \<le> p" "p + n \<le> firstpaddr (dv_ram (pagesrc (heap s))) + MIPS_KSEG0"
proof -
  let ?e = "firstpaddr (dv_ram (pagesrc (heap s))) + MIPS_KSEG0"
  have in_handed: "page_frame a \<in> dumb_handed f0 (pagesrc (heap s))" if "p \<le> a" "a < p + max n 1" for a
    by (rule live_placed(2) [OF core b that])
  have "page_frame p \<in> dumb_handed f0 (pagesrc (heap s))" by (rule in_handed) simp_all
  then have low: "f0 + MIPS_KSEG0 \<le> page_frame p" by (simp add: dumb_handed_def)
  then show "f0 + MIPS_KSEG0 \<le> p" using page_frame_le [of p] by linarith
  have "PAGE_SIZE dvd ?e"
    using kcoreD(1) [OF core] by (auto simp: pages_ok_def dumb_pok_def dram_ok_def PAGE_SIZE_def MIPS_KSEG0_def)
  moreover have "page_frame (p + max n 1 - 1) < ?e" using in_handed [of "p + max n 1 - 1"] by (simp add: dumb_handed_def)
  ultimately have "p + max n 1 - 1 < ?e" by (simp add: page_frame_between(1))
  then show "p + n \<le> ?e" by linarith
qed

text \<open>
  C2. The kernel heap is safe under every interleaving. Threads call \<^verbatim>\<open>kmalloc\<close> and \<^verbatim>\<open>kfree\<close> in any order, their
  calls interleaved wherever \<^verbatim>\<open>kmalloc_spinlock\<close> is released, and write to the blocks they have, on top of
  the page allocator of \<^verbatim>\<open>dumbvm.c\<close>, which may run out of memory at any point. Then no assertion of
  \<^verbatim>\<open>kmalloc.c\<close> fails in the next action, and the next action changes no word of a block in use except the
  one it frees or writes; every block in use is 16-byte aligned and lies, with the size asked for, in the
  memory that the page allocator has handed out since the start; no two blocks in use overlap; and no block
  in use meets a page that holds pagerefs. The scope: one request is for at most \<open>2 ^ 19 - 1\<close> pages, users
  free and write only blocks they have, and the threads, together with the pagerefs lost to calls that
  found no memory, are fewer than 256.
\<close>

theorem kheap_safe:
  assumes "dram_ok (dv_ram d)" "dumb_ksteps (ksys_init threads (kheap_init d m refs)) s" "threads + length (lost s) < 256"
    "kenabled dumb_most (\<lambda>_. True) act s"
  shows "(\<exists>s'. kdo dumb_alloc_kpages dumb_free_kpages act s = Some s'
      \<and> keeps {b \<in> set (live s). \<forall>t p k v. act = Free t p \<or> act = Store p k v \<longrightarrow> fst b \<noteq> p} (kmem (heap s)) (kmem (heap s')))
    \<and> (\<forall>p n. (p, n) \<in> set (live s) \<longrightarrow> 16 dvd p
        \<and> firstpaddr (dv_ram d) + MIPS_KSEG0 \<le> p \<and> p + n \<le> firstpaddr (dv_ram (pagesrc (heap s))) + MIPS_KSEG0)
    \<and> distinct (map fst (live s))
    \<and> (\<forall>p n q m. (p, n) \<in> set (live s) \<and> (q, m) \<in> set (live s) \<and> p \<noteq> q \<longrightarrow> p + n \<le> q \<or> q + m \<le> p)
    \<and> (\<forall>p n. \<forall>w<NUM_PAGEREFPAGES. (p, n) \<in> set (live s) \<and> kr_page (kheaproots (heap s) ! w) \<noteq> 0 \<longrightarrow>
        p + n \<le> kr_page (kheaproots (heap s) ! w) \<or> kr_page (kheaproots (heap s) ! w) + PAGE_SIZE \<le> p)"
proof -
  note inv = dumb_heap_inv [OF assms(1-3)]
  have "distinct (map fst (live s))" using kcoreD(6) [OF inv(1)] by (simp add: live_ok_def)
  then show ?thesis
    using dumb.kdo_step [OF inv assms(4)] live_placed(1) [OF inv(1)] dumb_live_placed [OF inv(1)] live_apart [OF inv(1)]
      root_page_apart [OF inv(1)] by blast
qed

text \<open>
  C15. The heap keeps no page without need, in the setting of C2. Whenever no call is under way: every page of
  small blocks has a block in use; and when everything has been freed, all lists are empty and the pagerefs
  marked in use are exactly those lost to calls that found no memory for the page of their pageref.
\<close>

theorem kheap_releases_pages:
  assumes "dram_ok (dv_ram d)" "dumb_ksteps (ksys_init threads (kheap_init d m refs)) s" "threads + length (lost s) < 256"
    "\<forall>t<length (calls s). calls s ! t = Idle"
  shows "(\<forall>pr\<in>set (allbase (heap s)). \<exists>p n. (p, n) \<in> set (live s) \<and> PR_PAGEADDR (pagerefs (heap s) pr) \<le> p
        \<and> p < PR_PAGEADDR (pagerefs (heap s) pr) + PAGE_SIZE)
    \<and> (live s = [] \<longrightarrow> allbase (heap s) = [] \<and> concat (sizebases (heap s)) = []
        \<and> (\<forall>w<NUM_PAGEREFPAGES. \<forall>idx<NPAGEREFS_PER_PAGE. inuse (kheaproots (heap s) ! w) idx \<longleftrightarrow> (w, idx) \<in> set (lost s)))"
proof (intro conjI impI)
  note inv = dumb_heap_inv [OF assms(1-3)]
  show "\<forall>pr\<in>set (allbase (heap s)). \<exists>p n. (p, n) \<in> set (live s) \<and> PR_PAGEADDR (pagerefs (heap s) pr) \<le> p
        \<and> p < PR_PAGEADDR (pagerefs (heap s) pr) + PAGE_SIZE"
  proof
    fix pr
    assume pr: "pr \<in> set (allbase (heap s))"
    then obtain p where p: "p \<in> blocks (pagerefs (heap s) pr)" "p \<in> liveset s" using inv(2) unfolding busy_but_def by blast
    then obtain n where "(p, n) \<in> set (live s)" by force
    then show "\<exists>p n. (p, n) \<in> set (live s) \<and> PR_PAGEADDR (pagerefs (heap s) pr) \<le> p
        \<and> p < PR_PAGEADDR (pagerefs (heap s) pr) + PAGE_SIZE"
      using blocks_range(1,4) [OF core_pr(1) [OF inv(1) pr] p(1)] by blast
  qed
  assume none: "live s = []"
  show ab: "allbase (heap s) = []"
  proof (rule ccontr)
    assume "allbase (heap s) \<noteq> []"
    then have "hd (allbase (heap s)) \<in> set (allbase (heap s))" by simp
    then show False using inv(2) none unfolding busy_but_def by fastforce
  qed
  show "concat (sizebases (heap s)) = []" using sizebases_allbase(1) [OF inv(1)] ab by simp
  have "phase_slots c = []" if "c \<in> set (calls s)" for c using assms(4) that by (auto simp: in_set_conv_nth)
  then have "call_slots (calls s) = {#}" by (simp add: call_slots_def)
  then have "slotbag s = mset (lost s)" using ab by (simp add: slotbag_def)
  then show "\<forall>w<NUM_PAGEREFPAGES. \<forall>idx<NPAGEREFS_PER_PAGE. inuse (kheaproots (heap s) ! w) idx \<longleftrightarrow> (w, idx) \<in> set (lost s)"
    using slots_okD(4) [OF kcoreD(2) [OF inv(1)]] by simp
qed

text \<open>
  C16. The heap's own checks agree. In every state that is reached in the setting of C2 (on \<^verbatim>\<open>dumbvm.c\<close>, requests
  of at most \<open>2 ^ 19 - 1\<close> pages, users that free and write only what they have, threads and lost pagerefs
  together fewer than 256), also in the middle of calls, the consistency check of
  all pages that \<^verbatim>\<open>SLOWER\<close> enables (\<^verbatim>\<open>checksubpages\<close>) finds nothing, and the map that \<^verbatim>\<open>kheap_printstats\<close> prints
  for a page has a star exactly at the blocks in use.
\<close>

theorem kheap_checks_pass:
  assumes "dram_ok (dv_ram d)" "dumb_ksteps (ksys_init threads (kheap_init d m refs)) s" "threads + length (lost s) < 256"
  shows "checksubpages (heap s) = Some ()
    \<and> (\<forall>pr\<in>set (allbase (heap s)). \<exists>sz n. sz = sizes ! PR_BLOCKTYPE (pagerefs (heap s) pr) \<and> n * sz = PAGE_SIZE
        \<and> subpage_stats pr (heap s) = Some (map (\<lambda>i. if PR_PAGEADDR (pagerefs (heap s) pr) + i * sz \<in> fst ` set (live s)
              then CHR ''*'' else CHR ''.'') [0..<n]))"
proof -
  note inv = dumb_heap_inv [OF assms]
  have "subpage_stats pr (heap s) = Some (map (\<lambda>i. if PR_PAGEADDR (pagerefs (heap s) pr) + i * bsize (pagerefs (heap s) pr) \<in> liveset s
      then CHR ''*'' else CHR ''.'') [0..<nblocks (pagerefs (heap s) pr)])" if "pr \<in> set (allbase (heap s))" for pr
    using kcoreD(5) [OF inv(1)] that subpage_stats_ok unfolding blocks_ok_def by blast
  moreover have "nblocks (pagerefs (heap s) pr) * bsize (pagerefs (heap s) pr) = PAGE_SIZE" if "pr \<in> set (allbase (heap s))" for pr
    using pr_okD(2) [OF core_pr(1) [OF inv(1) that]] by (simp add: mult.commute)
  ultimately show ?thesis using checksubpages_ok [OF inv(1)] by blast
qed

text \<open>A run of actions, for the witnesses.\<close>

fun krun :: "(nat \<Rightarrow> 'p \<Rightarrow> ('p \<times> nat) option) \<Rightarrow> (nat \<Rightarrow> 'p \<Rightarrow> 'p) \<Rightarrow> nat \<Rightarrow> ('p \<Rightarrow> bool) \<Rightarrow> kact list \<Rightarrow> 'p ksys \<Rightarrow> 'p ksys option" where
  "krun palloc pfree most roomy [] s = Some s"
| "krun palloc pfree most roomy (a # as) s =
     (if kenabled most roomy a s then do { s \<leftarrow> kdo palloc pfree a s; krun palloc pfree most roomy as s } else None)"

lemma krun_ksteps:
  "krun palloc pfree most roomy as s = Some s' \<Longrightarrow> ksteps palloc pfree most roomy s0 s \<Longrightarrow> ksteps palloc pfree most roomy s0 s'"
proof (induction as arbitrary: s)
  case (Cons a as)
  then show ?case using ksteps_step by (fastforce simp: bind_eq_Some_conv split: if_splits)
qed simp

definition wit_heap :: "dumbvm ksys" where
  "wit_heap = ksys_init 2 (kheap_init wit_dumb (\<lambda>_. 0) (\<lambda>_. \<lparr>pageaddr_and_blocktype = 0, freelist_offset = 0, nfree = 0\<rparr>))"

lemma wit_calls: "replicate 2 Idle = [Idle, Idle]"
  by (simp add: numeral_2_eq_2)

lemmas wit_defs = wit_heap_def wit_dumb_def ksys_init_def kheap_init_def kmalloc_def subpage_kmalloc_def blocktype_def sizes_def
  NSIZES_def LARGEST_SUBPAGE_SIZE_def kfinish_def NUM_PAGEREFPAGES_def INUSE_WORDS_def PAGE_SIZE_def dumb_alloc_kpages_def
  dumb_getppages_def ram_stealmem_def PADDR_TO_KVADDR_def MIPS_KSEG0_def allocpageref_reserve_def find_slot_def find_word_def
  set_inuse_def NPAGEREFS_PER_PAGE_def use_page_def doalloc_def setup_page_def link_blocks_def MKPAB_def page_frame_def
  page_offset_def PR_PAGEADDR_def PR_BLOCKTYPE_def usub_def INVALID_OFFSET_def dumb_most_def upt_rec

lemma wit_run:
  "\<exists>s. krun dumb_alloc_kpages dumb_free_kpages dumb_most (\<lambda>_. True)
     [Malloc 0 2000, Continue 0, Continue 0, Continue 0, Continue 0, Malloc 1 1500, Malloc 0 5000, Continue 0] wit_heap = Some s
   \<and> lost s = [] \<and> live s = [(0x80003000, 5000), (0x80001000, 1500), (0x80001800, 2000)] \<and> allbase (heap s) = [(0, 0)]
   \<and> calls s = [Idle, Idle]"
  by (simp add: wit_defs wit_calls del: find_upt_Some_iff find_upt_None_iff)

lemma wit_reach:
  obtains s where "dumb_ksteps wit_heap s" "2 + length (lost s) < 256"
    "live s = [(0x80003000, 5000), (0x80001000, 1500), (0x80001800, 2000)]"
    "allbase (heap s) = [(0, 0)]" "calls s = [Idle, Idle]"
proof -
  obtain s where s: "krun dumb_alloc_kpages dumb_free_kpages dumb_most (\<lambda>_. True)
     [Malloc 0 2000, Continue 0, Continue 0, Continue 0, Continue 0, Malloc 1 1500, Malloc 0 5000, Continue 0] wit_heap = Some s"
    "lost s = []" "live s = [(0x80003000, 5000), (0x80001000, 1500), (0x80001800, 2000)]" "allbase (heap s) = [(0, 0)]"
    "calls s = [Idle, Idle]" using wit_run by blast
  show thesis using that [OF krun_ksteps [OF s(1) ksteps_refl] _ s(3-5)] s(2) by simp
qed

theorem kheap_safe_witness:
  "\<exists>s s'. dumb_ksteps wit_heap s \<and> live s = [(0x80003000, 5000), (0x80001000, 1500), (0x80001800, 2000)]
     \<and> kdo dumb_alloc_kpages dumb_free_kpages (Free 0 0x80001000) s = Some s'
     \<and> kmem (heap s') 0x80001800 = kmem (heap s) 0x80001800 \<and> kmem (heap s') 0x80004000 = kmem (heap s) 0x80004000"
proof -
  obtain s where s: "dumb_ksteps wit_heap s" "2 + length (lost s) < 256"
    "live s = [(0x80003000, 5000), (0x80001000, 1500), (0x80001800, 2000)]" "calls s = [Idle, Idle]"
    using wit_reach .
  have en: "kenabled dumb_most (\<lambda>_. True) (Free 0 0x80001000) s" by (simp add: s(3,4))
  obtain s' where s': "kdo dumb_alloc_kpages dumb_free_kpages (Free 0 0x80001000) s = Some s'"
    "keeps {b \<in> set (live s). \<forall>t p k v. Free 0 0x80001000 = Free t p \<or> Free 0 0x80001000 = Store p k v \<longrightarrow> fst b \<noteq> p}
       (kmem (heap s)) (kmem (heap s'))"
    using conjunct1 [OF kheap_safe [OF wit_dumb_ok s(1) [unfolded wit_heap_def] s(2) en]] by (elim exE conjE)
  have "kmem (heap s') (0x80001800 + 4 * 0) = kmem (heap s) (0x80001800 + 4 * 0)"
    by (rule keepsD [OF s'(2), of _ 2000]) (simp_all add: s(3))
  moreover have "kmem (heap s') (0x80003000 + 4 * 1024) = kmem (heap s) (0x80003000 + 4 * 1024)"
    by (rule keepsD [OF s'(2), of _ 5000]) (simp_all add: s(3))
  ultimately show ?thesis using s(1,3) s'(1) by (intro exI [of _ s] exI [of _ s']) simp
qed

text \<open>A machine with a single free page: the call gets the page for its blocks, finds none for its pageref, and
  gives up; the pageref is lost.\<close>

definition tiny_heap :: "dumbvm ksys" where
  "tiny_heap = ksys_init 1 (kheap_init (wit_dumb\<lparr>dv_ram := \<lparr>firstpaddr = 4096, lastpaddr = 8192\<rparr>\<rparr>) (\<lambda>_. 0)
     (\<lambda>_. \<lparr>pageaddr_and_blocktype = 0, freelist_offset = 0, nfree = 0\<rparr>))"

lemma tiny_run:
  "\<exists>s. krun dumb_alloc_kpages dumb_free_kpages dumb_most (\<lambda>_. True)
     [Malloc 0 2000, Continue 0, Continue 0, Continue 0, Continue 0, Continue 0] tiny_heap = Some s
   \<and> lost s = [(0, 0)] \<and> live s = [] \<and> calls s = [Idle]"
  by (simp add: tiny_heap_def dumb_free_kpages_def wit_defs del: find_upt_Some_iff find_upt_None_iff)

theorem kheap_releases_pages_witness:
  "\<exists>s. dumb_ksteps tiny_heap s \<and> lost s = [(0, 0)] \<and> allbase (heap s) = [] \<and> inuse (kheaproots (heap s) ! 0) 0
     \<and> \<not> inuse (kheaproots (heap s) ! 0) 1"
proof -
  obtain s where s: "krun dumb_alloc_kpages dumb_free_kpages dumb_most (\<lambda>_. True)
     [Malloc 0 2000, Continue 0, Continue 0, Continue 0, Continue 0, Continue 0] tiny_heap = Some s"
    "lost s = [(0, 0)]" "live s = []" "calls s = [Idle]" using tiny_run by blast
  note st = krun_ksteps [OF s(1) ksteps_refl]
  have ok: "dram_ok (dv_ram (wit_dumb\<lparr>dv_ram := \<lparr>firstpaddr = 4096, lastpaddr = 8192\<rparr>\<rparr>))" by (simp add: dram_ok_def PAGE_SIZE_def)
  have "allbase (heap s) = [] \<and> concat (sizebases (heap s)) = []
      \<and> (\<forall>w<NUM_PAGEREFPAGES. \<forall>idx<NPAGEREFS_PER_PAGE. inuse (kheaproots (heap s) ! w) idx \<longleftrightarrow> (w, idx) \<in> set (lost s))"
    using conjunct2 [OF kheap_releases_pages [OF ok st [unfolded tiny_heap_def]]] s(2-4) by simp
  then show ?thesis using st s(2) by (auto simp: NUM_PAGEREFPAGES_def NPAGEREFS_PER_PAGE_def)
qed

theorem kheap_checks_pass_witness:
  "\<exists>s. dumb_ksteps wit_heap s \<and> allbase (heap s) = [(0, 0)] \<and> checksubpages (heap s) = Some ()"
proof -
  obtain s where s: "dumb_ksteps wit_heap s" "2 + length (lost s) < 256" "allbase (heap s) = [(0, 0)]" using wit_reach .
  then show ?thesis using conjunct1 [OF kheap_checks_pass [OF wit_dumb_ok s(1) [unfolded wit_heap_def] s(2)]] by blast
qed

end
