(* ===== verification/Sfs_Block.thy ===== *)
theory Sfs_Block
  imports Bitmap Uio
begin

text \<open>
  The lower half of the SFS file system: the disk driver (\<^verbatim>\<open>kern/dev/lamebus/lhd.c\<close>), block I/O
  (\<^verbatim>\<open>kern/fs/sfs/sfs_io.c\<close>), block allocation (\<^verbatim>\<open>sfs_balloc.c\<close>) and the block map (\<^verbatim>\<open>sfs_bmap.c\<close>).

  \<^item> The disk is an array of sectors of bytes; \<open>media rw n\<close> says whether its \<open>n\<close>-th operation, a read or a write, meets a media
    error. The driver moves data through its buffer at address \<open>lh_buf\<close> with \<open>uiomove\<close>.
  \<^item> A structure that the code reads from or writes to a block as it lies in memory (an inode, an indirect
    block, the superblock) is translated to and from bytes, most significant byte first.
  \<^item> An operation returns \<open>None\<close> for a panic, and otherwise the new state with an error (\<open>Inl\<close>) or a
    result (\<open>Inr\<close>); \<open>onok\<close> goes on after a success and returns early with an error.
  \<^item> \<open>wp m Q\<close> says that \<open>m\<close> does not panic and its outcome satisfies \<open>Q\<close>.
  \<^item> \<open>biglock\<close> is the depth of \<^verbatim>\<open>vfs_biglock\<close> as held by the current thread: every operation of SFS
    runs under that lock from its start to its end, so that each is one step.
\<close>

section \<open>Sequencing with early return\<close>

definition onok :: "('s \<times> (errno + 'a)) option \<Rightarrow> ('a \<Rightarrow> 's \<Rightarrow> ('s \<times> (errno + 'b)) option) \<Rightarrow> ('s \<times> (errno + 'b)) option" where
  "onok m k = (case m of None \<Rightarrow> None | Some (s, Inl e) \<Rightarrow> Some (s, Inl e) | Some (s, Inr x) \<Rightarrow> k x s)"

definition wp :: "('s \<times> 'r) option \<Rightarrow> ('s \<Rightarrow> 'r \<Rightarrow> bool) \<Rightarrow> bool" where
  "wp m Q \<longleftrightarrow> (case m of None \<Rightarrow> False | Some (s, r) \<Rightarrow> Q s r)"

lemma wp_simps [simp]: "wp None Q \<longleftrightarrow> False" "wp (Some (s, r)) Q \<longleftrightarrow> Q s r"
  by (simp_all add: wp_def)

lemma wp_onok [simp]:
  "wp (onok m k) Q \<longleftrightarrow> wp m (\<lambda>s r. case r of Inl e \<Rightarrow> Q s (Inl e) | Inr x \<Rightarrow> wp (k x s) Q)"
  by (auto simp: wp_def onok_def split: option.splits prod.splits sum.splits)

lemma wp_mono: "wp m Q \<Longrightarrow> (\<And>s r. Q s r \<Longrightarrow> Q' s r) \<Longrightarrow> wp m Q'"
  by (auto simp: wp_def split: option.splits prod.splits)

lemma wp_conj: "wp m Q \<Longrightarrow> wp m Q' \<Longrightarrow> wp m (\<lambda>s r. Q s r \<and> Q' s r)"
  by (auto simp: wp_def split: option.splits prod.splits)

lemma wp_bind [simp]:
  "wp (Option.bind m (\<lambda>(s, r). k s r)) Q \<longleftrightarrow> wp m (\<lambda>s r. wp (k s r) Q)"
  by (auto simp: wp_def split: option.splits prod.splits)

lemma wp_kassert [simp]: "wp (Option.bind (kassert b) k) Q \<longleftrightarrow> b \<and> wp (k ()) Q"
  by simp

lemma wpE: "wp m Q \<Longrightarrow> (\<And>s r. m = Some (s, r) \<Longrightarrow> Q s r \<Longrightarrow> P) \<Longrightarrow> P"
  by (auto simp: wp_def split: option.splits prod.splits)

fun fold_opt :: "('a \<Rightarrow> 's \<Rightarrow> 's option) \<Rightarrow> 'a list \<Rightarrow> 's \<Rightarrow> 's option" where
  "fold_opt f [] s = Some s"
| "fold_opt f (x # xs) s = do { s \<leftarrow> f x s; fold_opt f xs s }"

lemma fold_opt_append: "fold_opt f (xs @ ys) s = do { s \<leftarrow> fold_opt f xs s; fold_opt f ys s }"
proof (induction xs arbitrary: s)
  case (Cons x xs)
  then show ?case by (cases "f x s") auto
qed simp

section \<open>Words in blocks\<close>

definition SFS_BLOCKSIZE :: nat where "SFS_BLOCKSIZE = 512"
definition SFS_NDIRECT :: nat where "SFS_NDIRECT = 15"
definition SFS_NINDIRECT :: nat where "SFS_NINDIRECT = 1"
definition SFS_DBPERIDB :: nat where "SFS_DBPERIDB = 128"

definition put32 :: "nat \<Rightarrow> byte list" where
  "put32 n = [of_nat (n div 2 ^ 24), of_nat (n div 2 ^ 16), of_nat (n div 2 ^ 8), of_nat n]"

definition get32 :: "byte list \<Rightarrow> nat" where
  "get32 bs = ((unat (bs ! 0) * 256 + unat (bs ! 1)) * 256 + unat (bs ! 2)) * 256 + unat (bs ! 3)"

definition words_of :: "byte list \<Rightarrow> nat list" where
  "words_of bs = map (\<lambda>i. get32 (take 4 (drop (4 * i) bs))) [0..<length bs div 4]"

definition bytes_of :: "nat list \<Rightarrow> byte list" where
  "bytes_of ws = concat (map put32 ws)"

definition SFS_TYPE_INVAL :: nat where "SFS_TYPE_INVAL = 0"
definition SFS_TYPE_FILE :: nat where "SFS_TYPE_FILE = 1"
definition SFS_TYPE_DIR :: nat where "SFS_TYPE_DIR = 2"

record sfs_dinode =
  sfi_size :: nat
  sfi_type :: nat
  sfi_linkcount :: nat
  sfi_direct :: "nat list"
  sfi_indirect :: nat
  sfi_waste :: "nat list"

definition dinode_of :: "byte list \<Rightarrow> sfs_dinode" where
  "dinode_of bs =
     (let w = words_of bs in
      \<lparr>sfi_size = w ! 0, sfi_type = w ! 1 div 2 ^ 16, sfi_linkcount = w ! 1 mod 2 ^ 16,
       sfi_direct = take SFS_NDIRECT (drop 2 w), sfi_indirect = w ! (2 + SFS_NDIRECT), sfi_waste = drop (3 + SFS_NDIRECT) w\<rparr>)"

definition dinode_bytes :: "sfs_dinode \<Rightarrow> byte list" where
  "dinode_bytes d =
     bytes_of ([sfi_size d, sfi_type d * 2 ^ 16 + sfi_linkcount d] @ sfi_direct d @ [sfi_indirect d] @ sfi_waste d)"

record sfs_superblock =
  sb_magic :: nat
  sb_nblocks :: nat
  sb_volname :: "byte list"
  sb_reserved :: "byte list"

definition superblock_of :: "byte list \<Rightarrow> sfs_superblock" where
  "superblock_of bs =
     \<lparr>sb_magic = get32 (take 4 bs), sb_nblocks = get32 (take 4 (drop 4 bs)), sb_volname = take 32 (drop 8 bs),
      sb_reserved = drop 40 bs\<rparr>"

definition superblock_bytes :: "sfs_superblock \<Rightarrow> byte list" where
  "superblock_bytes sb = put32 (sb_magic sb) @ put32 (sb_nblocks sb) @ sb_volname sb @ sb_reserved sb"

section \<open>State\<close>

record lhd =
  lh_blocks :: nat
  sectors :: "nat \<Rightarrow> byte list"
  media :: "uio_rw \<Rightarrow> nat \<Rightarrow> bool"
  nops :: nat
  lh_buf :: nat

text \<open>Which table of operations a vnode has.\<close>

datatype vnode_ops = Sfs_fileops | Sfs_dirops | No_ops

record sfs_vnode =
  sv_i :: sfs_dinode
  sv_ino :: nat
  sv_dirty :: bool
  vn_refcount :: nat
  vn_ops :: vnode_ops

text \<open>
  The volume, with the machine it runs on. \<open>svs\<close> is the memory that holds the vnodes and \<open>sfs_vnodes\<close> the table
  of pointers to those in use. \<open>memok n\<close> is the outcome of the \<open>n\<close>-th request for memory, and \<open>ticks\<close> how
  many there were; it also serves as the address of the next vnode. \<open>kbuf\<close>, \<open>iobuf\<close> and \<open>zeros\<close> are the addresses
  of the buffer that a caller of \<^verbatim>\<open>sfs_readblock\<close> or \<^verbatim>\<open>sfs_writeblock\<close> passes, of the static buffer of
  \<^verbatim>\<open>sfs_partialio\<close>, and of the zeros of \<^verbatim>\<open>uiomovezeros\<close>.
\<close>

record sfs =
  disk :: lhd
  sfs_sb :: sfs_superblock
  sfs_superdirty :: bool
  sfs_device :: bool
  sfs_vnodes :: "nat list"
  sfs_freemap :: bitmap
  sfs_freemapdirty :: bool
  svs :: "nat \<Rightarrow> sfs_vnode"
  biglock :: nat
  mach :: machine
  memok :: "nat \<Rightarrow> bool"
  ticks :: nat
  kbuf :: nat
  iobuf :: nat
  zeros :: nat

definition vfs_biglock_acquire :: "sfs \<Rightarrow> sfs" where
  "vfs_biglock_acquire s = s\<lparr>biglock := biglock s + 1\<rparr>"

definition vfs_biglock_release :: "sfs \<Rightarrow> sfs option" where
  "vfs_biglock_release s = do { kassert (biglock s > 0); Some (s\<lparr>biglock := biglock s - 1\<rparr>) }"

text \<open>A body that runs under the lock and releases it on every way out.\<close>

definition locked :: "(sfs \<Rightarrow> (sfs \<times> (errno + 'a)) option) \<Rightarrow> sfs \<Rightarrow> (sfs \<times> (errno + 'a)) option" where
  "locked body s =
     do {
       (s, r) \<leftarrow> body (vfs_biglock_acquire s);
       s \<leftarrow> vfs_biglock_release s;
       Some (s, r)
     }"

section \<open>The disk driver\<close>

definition LHD_SECTSIZE :: nat where "LHD_SECTSIZE = 512"

datatype lhd_status = LHD_IDLE | LHD_WORKING | LHD_OK | LHD_INVSECT | LHD_MEDIA

text \<open>The device: one operation on a sector, through the buffer on the card.\<close>

definition lhd_operate :: "uio_rw \<Rightarrow> nat \<Rightarrow> lhd \<Rightarrow> machine \<Rightarrow> lhd \<times> machine \<times> lhd_status" where
  "lhd_operate rw sect lh m =
     (let n = nops lh; lh = lh\<lparr>nops := n + 1\<rparr> in
      if sect \<ge> lh_blocks lh then (lh, m, LHD_INVSECT)
      else if media lh rw n then (lh, m, LHD_MEDIA)
      else case rw of
             UIO_WRITE \<Rightarrow> (lh\<lparr>sectors := (sectors lh)(sect := kread m (lh_buf lh) LHD_SECTSIZE)\<rparr>, m, LHD_OK)
           | UIO_READ \<Rightarrow> (lh, kwrite (lh_buf lh) (sectors lh sect) m, LHD_OK))"

definition lhd_code_to_errno :: "lhd_status \<Rightarrow> errno + unit" where
  "lhd_code_to_errno code =
     (case code of LHD_OK \<Rightarrow> Inr () | LHD_INVSECT \<Rightarrow> Inl EINVAL | LHD_MEDIA \<Rightarrow> Inl EIO | _ \<Rightarrow> Inl EAGAIN)"

text \<open>The interrupt handler: the result it stores for the thread that waits, if the operation is over.\<close>

definition lhd_irq :: "lhd_status \<Rightarrow> (errno + unit) option" where
  "lhd_irq val = (if val = LHD_IDLE \<or> val = LHD_WORKING then None else Some (lhd_code_to_errno val))"

fun lhd_io_loop :: "nat list \<Rightarrow> uio \<Rightarrow> sfs \<Rightarrow> ((uio \<times> sfs) \<times> (errno + unit)) option" where
  "lhd_io_loop [] u s = Some ((u, s), Inr ())"
| "lhd_io_loop (sect # sects) u s =
     do {
       (u, m, r) \<leftarrow> (if uio_dir u = UIO_WRITE then uiomove (lh_buf (disk s)) LHD_SECTSIZE u (mach s) else Some (u, mach s, Inr ()));
       let s = s\<lparr>mach := m\<rparr>;
       case r of
         Inl e \<Rightarrow> Some ((u, s), Inl e)
       | Inr _ \<Rightarrow>
           (let (lh, m, val) = lhd_operate (uio_dir u) sect (disk s) (mach s); s = s\<lparr>disk := lh, mach := m\<rparr> in
            do {
              result \<leftarrow> lhd_irq val;
              (u, m, result) \<leftarrow>
                (if result = Inr () \<and> uio_dir u = UIO_READ then uiomove (lh_buf (disk s)) LHD_SECTSIZE u (mach s)
                 else Some (u, mach s, result));
              let s = s\<lparr>mach := m\<rparr>;
              case result of Inl e \<Rightarrow> Some ((u, s), Inl e) | Inr _ \<Rightarrow> lhd_io_loop sects u s
            })
     }"

text \<open>\<open>sector + i\<close> is computed in 32 bits for every round, as the check \<^verbatim>\<open>sector+len > d_blocks\<close> is.\<close>

definition lhd_io :: "uio \<Rightarrow> sfs \<Rightarrow> ((uio \<times> sfs) \<times> (errno + unit)) option" where
  "lhd_io u s =
     (let sector = nat (uio_offset u div int LHD_SECTSIZE mod 2 ^ 32); sectoff = uio_offset u mod int LHD_SECTSIZE;
          len = uio_resid u div LHD_SECTSIZE; lenoff = uio_resid u mod LHD_SECTSIZE in
      if sectoff \<noteq> 0 \<or> lenoff \<noteq> 0 then Some ((u, s), Inl EINVAL)
      else if u32 (sector + len) > lh_blocks (disk s) then Some ((u, s), Inl EINVAL)
      else lhd_io_loop (map (\<lambda>i. u32 (sector + i)) [0..<len]) u s)"

section \<open>Block I/O\<close>

fun rwblock_tries :: "nat \<Rightarrow> uio \<Rightarrow> sfs \<Rightarrow> ((uio \<times> sfs) \<times> (errno + unit)) option" where
  "rwblock_tries left u s =
     do {
       ((u, s), result) \<leftarrow> lhd_io u s;
       if result = Inl EINVAL then None
       else if result = Inl EIO then
         (case left of 0 \<Rightarrow> Some ((u, s), result) | Suc left' \<Rightarrow> rwblock_tries left' u s)
       else Some ((u, s), result)
     }"

declare rwblock_tries.simps [simp del]

text \<open>The first attempt may be followed by ten more.\<close>

definition sfs_rwblock :: "uio \<Rightarrow> sfs \<Rightarrow> ((uio \<times> sfs) \<times> (errno + unit)) option" where
  "sfs_rwblock u s = do { kassert (biglock s > 0); rwblock_tries 10 u s }"

definition SFSUIO :: "nat \<Rightarrow> nat \<Rightarrow> uio_rw \<Rightarrow> uio" where
  "SFSUIO ptr block rw = uio_kinit ptr SFS_BLOCKSIZE (int block * int SFS_BLOCKSIZE) rw"

definition sfs_readblock :: "nat \<Rightarrow> sfs \<Rightarrow> (sfs \<times> (errno + byte list)) option" where
  "sfs_readblock block s =
     do {
       ((ku, s), r) \<leftarrow> sfs_rwblock (SFSUIO (kbuf s) block UIO_READ) s;
       case r of Inl e \<Rightarrow> Some (s, Inl e) | Inr _ \<Rightarrow> Some (s, Inr (kread (mach s) (kbuf s) SFS_BLOCKSIZE))
     }"

definition sfs_writeblock :: "nat \<Rightarrow> byte list \<Rightarrow> sfs \<Rightarrow> (sfs \<times> (errno + unit)) option" where
  "sfs_writeblock block data s =
     do {
       kassert (length data = SFS_BLOCKSIZE);
       let s = s\<lparr>mach := kwrite (kbuf s) data (mach s)\<rparr>;
       ((ku, s), r) \<leftarrow> sfs_rwblock (SFSUIO (kbuf s) block UIO_WRITE) s;
       Some (s, r)
     }"

section \<open>Block allocation\<close>

definition sfs_clearblock :: "nat \<Rightarrow> sfs \<Rightarrow> (sfs \<times> (errno + unit)) option" where
  "sfs_clearblock block s = sfs_writeblock block (replicate SFS_BLOCKSIZE 0) s"

definition sfs_balloc :: "sfs \<Rightarrow> (sfs \<times> (errno + nat)) option" where
  "sfs_balloc s =
     do {
       (fm, r) \<leftarrow> bitmap_alloc (sfs_freemap s);
       let s = s\<lparr>sfs_freemap := fm\<rparr>;
       case r of
         Inl e \<Rightarrow> Some (s, Inl e)
       | Inr diskblock \<Rightarrow>
           do {
             let s = s\<lparr>sfs_freemapdirty := True\<rparr>;
             kassert (diskblock < sb_nblocks (sfs_sb s));
             (s, r) \<leftarrow> sfs_clearblock diskblock s;
             case r of
               Inl e \<Rightarrow> do { fm \<leftarrow> bitmap_unmark (sfs_freemap s) diskblock; Some (s\<lparr>sfs_freemap := fm\<rparr>, Inl e) }
             | Inr _ \<Rightarrow> Some (s, Inr diskblock)
           }
     }"

definition sfs_bfree :: "nat \<Rightarrow> sfs \<Rightarrow> sfs option" where
  "sfs_bfree diskblock s =
     do { fm \<leftarrow> bitmap_unmark (sfs_freemap s) diskblock; Some (s\<lparr>sfs_freemap := fm, sfs_freemapdirty := True\<rparr>) }"

definition sfs_bused :: "nat \<Rightarrow> sfs \<Rightarrow> bool option" where
  "sfs_bused diskblock s =
     do { kassert (diskblock < sb_nblocks (sfs_sb s)); bitmap_isset (sfs_freemap s) diskblock }"

section \<open>The block map\<close>

definition set_dinode :: "nat \<Rightarrow> (sfs_dinode \<Rightarrow> sfs_dinode) \<Rightarrow> sfs \<Rightarrow> sfs" where
  "set_dinode sv f s =
     s\<lparr>svs := (svs s)(sv := (svs s sv)\<lparr>sv_i := f (sv_i (svs s sv)), sv_dirty := True\<rparr>)\<rparr>"

text \<open>The last lines of both parts of \<^verbatim>\<open>sfs_bmap\<close>: a block handed back must be marked in use.\<close>

definition hand_back :: "nat \<Rightarrow> sfs \<Rightarrow> (sfs \<times> (errno + nat)) option" where
  "hand_back block s =
     do {
       used \<leftarrow> (if block \<noteq> 0 then sfs_bused block s else Some True);
       kassert used;
       Some (s, Inr block)
     }"

text \<open>The indirect block: its number and its contents, allocated empty or loaded.\<close>

definition get_idbuf :: "nat \<Rightarrow> sfs \<Rightarrow> (sfs \<times> (errno + nat \<times> nat list)) option" where
  "get_idbuf sv s =
     (let idblock = sfi_indirect (sv_i (svs s sv)) in
      if idblock = 0 then
        onok (sfs_balloc s) (\<lambda>idblock s.
          Some (set_dinode sv (\<lambda>d. d\<lparr>sfi_indirect := idblock\<rparr>) s, Inr (idblock, replicate SFS_DBPERIDB 0)))
      else
        onok (sfs_readblock idblock s) (\<lambda>b s. Some (s, Inr (idblock, words_of b))))"

definition sfs_bmap :: "nat \<Rightarrow> nat \<Rightarrow> bool \<Rightarrow> sfs \<Rightarrow> (sfs \<times> (errno + nat)) option" where
  "sfs_bmap sv fileblock doalloc s =
     do {
       kassert (biglock s > 0);
       if fileblock < SFS_NDIRECT then
         let block = sfi_direct (sv_i (svs s sv)) ! fileblock in
         if block = 0 \<and> doalloc then
           onok (sfs_balloc s) (\<lambda>block s.
             hand_back block (set_dinode sv (\<lambda>d. d\<lparr>sfi_direct := (sfi_direct d)[fileblock := block]\<rparr>) s))
         else hand_back block s
       else
         let fileblock = fileblock - SFS_NDIRECT; idnum = fileblock div SFS_DBPERIDB; idoff = fileblock mod SFS_DBPERIDB in
         if idnum \<ge> SFS_NINDIRECT then Some (s, Inl EFBIG)
         else if sfi_indirect (sv_i (svs s sv)) = 0 \<and> \<not> doalloc then Some (s, Inr 0)
         else
           onok (get_idbuf sv s) (\<lambda>(idblock, idbuf) s.
             let block = idbuf ! idoff in
             if block = 0 \<and> doalloc then
               onok (sfs_balloc s) (\<lambda>block s.
                 onok (sfs_writeblock idblock (bytes_of (idbuf[idoff := block])) s) (\<lambda>_ s. hand_back block s))
             else hand_back block s)
     }"

text \<open>
  \<^verbatim>\<open>sfs_itrunc\<close>: the direct blocks; the loop over the indirect block, with \<^verbatim>\<open>iddirty\<close>; the whole.
\<close>

definition trunc_direct :: "nat \<Rightarrow> nat \<Rightarrow> nat \<Rightarrow> sfs \<Rightarrow> sfs option" where
  "trunc_direct sv blocklen i s =
     (let block = sfi_direct (sv_i (svs s sv)) ! i in
      if i \<ge> blocklen \<and> block \<noteq> 0 then
        do { s \<leftarrow> sfs_bfree block s; Some (set_dinode sv (\<lambda>d. d\<lparr>sfi_direct := (sfi_direct d)[i := 0]\<rparr>) s) }
      else Some s)"

definition trunc_indirect :: "nat \<Rightarrow> nat \<Rightarrow> (sfs \<times> nat list \<times> bool) \<Rightarrow> (sfs \<times> nat list \<times> bool) option" where
  "trunc_indirect blocklen j = (\<lambda>(s, idbuf, iddirty).
     if blocklen < SFS_NDIRECT + j \<and> idbuf ! j \<noteq> 0 then
       do { s \<leftarrow> sfs_bfree (idbuf ! j) s; Some (s, idbuf[j := 0], True) }
     else Some (s, idbuf, iddirty))"

definition sfs_itrunc_body :: "nat \<Rightarrow> nat \<Rightarrow> sfs \<Rightarrow> (sfs \<times> (errno + unit)) option" where
  "sfs_itrunc_body sv len s =
     (let blocklen = u32 ((len + SFS_BLOCKSIZE - 1) div SFS_BLOCKSIZE);
          finish = (\<lambda>s. Some (set_dinode sv (\<lambda>d. d\<lparr>sfi_size := u32 len\<rparr>) s, Inr ())) in
      do {
        s \<leftarrow> fold_opt (trunc_direct sv blocklen) [0..<SFS_NDIRECT] s;
        let idblock = sfi_indirect (sv_i (svs s sv));
        let highblock = SFS_NDIRECT + SFS_DBPERIDB - 1;
        if blocklen < highblock \<and> idblock \<noteq> 0 then
          onok (sfs_readblock idblock s) (\<lambda>b s.
            do {
              (s, idbuf, iddirty) \<leftarrow> fold_opt (trunc_indirect blocklen) [0..<SFS_DBPERIDB] (s, words_of b, False);
              let hasnonzero = (\<exists>w\<in>set idbuf. w \<noteq> 0);
              if \<not> hasnonzero then
                do { s \<leftarrow> sfs_bfree idblock s; finish (set_dinode sv (\<lambda>d. d\<lparr>sfi_indirect := 0\<rparr>) s) }
              else if iddirty then onok (sfs_writeblock idblock (bytes_of idbuf) s) (\<lambda>_ s. finish s)
              else finish s
            })
        else finish s
      })"

definition sfs_itrunc :: "nat \<Rightarrow> nat \<Rightarrow> sfs \<Rightarrow> (sfs \<times> (errno + unit)) option" where
  "sfs_itrunc sv len s = locked (sfs_itrunc_body sv len) s"

end
