(* ===== verification/Sfs_File.thy ===== *)
theory Sfs_File
  imports Sfs_Block
begin

text \<open>
  The upper half of SFS: file-level I/O (the rest of \<^verbatim>\<open>sfs_io.c\<close>), directories (\<^verbatim>\<open>sfs_dir.c\<close>), inodes
  (\<^verbatim>\<open>sfs_inode.c\<close>), the vnode operations (\<^verbatim>\<open>sfs_vnops.c\<close>), the operations on a volume (\<^verbatim>\<open>sfs_fsops.c\<close>), and the
  reference counts of vnodes (\<^verbatim>\<open>kern/vfs/vnode.c\<close>).

  A vnode is a pointer into \<open>svs\<close>. An operation with a \<^verbatim>\<open>uio\<close> works on the pair of it and the volume. A name
  is the list of its bytes without the terminator.
\<close>

section \<open>File I/O\<close>

definition lift_uio :: "uio \<Rightarrow> (sfs \<times> (errno + 'a)) option \<Rightarrow> ((uio \<times> sfs) \<times> (errno + 'a)) option" where
  "lift_uio u m = (case m of None \<Rightarrow> None | Some (s, r) \<Rightarrow> Some ((u, s), r))"

definition uiomove_s :: "nat \<Rightarrow> nat \<Rightarrow> uio \<Rightarrow> sfs \<Rightarrow> ((uio \<times> sfs) \<times> (errno + unit)) option" where
  "uiomove_s ptr n u s = do { (u, m, r) \<leftarrow> uiomove ptr n u (mach s); Some ((u, s\<lparr>mach := m\<rparr>), r) }"

definition sfs_partialio :: "nat \<Rightarrow> uio \<Rightarrow> nat \<Rightarrow> nat \<Rightarrow> sfs \<Rightarrow> ((uio \<times> sfs) \<times> (errno + unit)) option" where
  "sfs_partialio sv u skipstart len s =
     do {
       let doalloc = (uio_dir u = UIO_WRITE);
       kassert (skipstart + len \<le> SFS_BLOCKSIZE);
       kassert (biglock s > 0);
       let fileblock = nat (uio_offset u div int SFS_BLOCKSIZE mod 2 ^ 32);
       onok (lift_uio u (sfs_bmap sv fileblock doalloc s)) (\<lambda>diskblock (u, s).
         onok
           (if diskblock = 0 then
              do { kassert (uio_dir u = UIO_READ); Some ((u, s), Inr (replicate SFS_BLOCKSIZE 0)) }
            else lift_uio u (sfs_readblock diskblock s))
           (\<lambda>b (u, s).
             onok (uiomove_s (iobuf s + skipstart) len u (s\<lparr>mach := kwrite (iobuf s) b (mach s)\<rparr>)) (\<lambda>_ (u, s).
               if uio_dir u = UIO_WRITE then
                 lift_uio u (sfs_writeblock diskblock (kread (mach s) (iobuf s) SFS_BLOCKSIZE) s)
               else Some ((u, s), Inr ()))))
     }"

text \<open>\<^verbatim>\<open>diskblock * SFS_BLOCKSIZE\<close> is a 32-bit product.\<close>

definition sfs_blockio :: "nat \<Rightarrow> uio \<Rightarrow> sfs \<Rightarrow> ((uio \<times> sfs) \<times> (errno + unit)) option" where
  "sfs_blockio sv u s =
     (let doalloc = (uio_dir u = UIO_WRITE); fileblock = nat (uio_offset u div int SFS_BLOCKSIZE mod 2 ^ 32) in
      onok (lift_uio u (sfs_bmap sv fileblock doalloc s)) (\<lambda>diskblock (u, s).
        if diskblock = 0 then
          do {
            kassert (uio_dir u = UIO_READ);
            (u, m, r) \<leftarrow> uiomovezeros (zeros s) SFS_BLOCKSIZE u (mach s);
            Some ((u, s\<lparr>mach := m\<rparr>), r)
          }
        else
          do {
            let saveoff = uio_offset u;
            let diskoff = int (u32 (diskblock * SFS_BLOCKSIZE));
            kassert (uio_resid u \<ge> SFS_BLOCKSIZE);
            let saveres = uio_resid u;
            let diskres = SFS_BLOCKSIZE;
            ((u, s), r) \<leftarrow> sfs_rwblock (u\<lparr>uio_offset := diskoff, uio_resid := diskres\<rparr>) s;
            Some ((u\<lparr>uio_offset := uio_offset u - diskoff + saveoff, uio_resid := uio_resid u + saveres - diskres\<rparr>, s), r)
          }))"

primrec blockio_loop :: "nat \<Rightarrow> nat \<Rightarrow> uio \<Rightarrow> sfs \<Rightarrow> ((uio \<times> sfs) \<times> (errno + unit)) option" where
  "blockio_loop 0 sv u s = Some ((u, s), Inr ())"
| "blockio_loop (Suc n) sv u s = onok (sfs_blockio sv u s) (\<lambda>_ (u, s). blockio_loop n sv u s)"

text \<open>The three parts of the transfer, up to the label \<^verbatim>\<open>out\<close>.\<close>

definition sfs_io_parts :: "nat \<Rightarrow> uio \<Rightarrow> sfs \<Rightarrow> ((uio \<times> sfs) \<times> (errno + unit)) option" where
  "sfs_io_parts sv u s =
     (let blkoff = nat (uio_offset u mod int SFS_BLOCKSIZE) in
      onok
        (if blkoff \<noteq> 0 then sfs_partialio sv u blkoff (min (SFS_BLOCKSIZE - blkoff) (uio_resid u)) s else Some ((u, s), Inr ()))
        (\<lambda>_ (u, s).
          if uio_resid u = 0 then Some ((u, s), Inr ())
          else
            do {
              kassert (uio_offset u mod int SFS_BLOCKSIZE = 0);
              onok (blockio_loop (uio_resid u div SFS_BLOCKSIZE) sv u s) (\<lambda>_ (u, s).
                do {
                  kassert (uio_resid u < SFS_BLOCKSIZE);
                  if uio_resid u > 0 then sfs_partialio sv u 0 (uio_resid u) s else Some ((u, s), Inr ())
                })
            }))"

text \<open>What happens at \<^verbatim>\<open>out\<close>.\<close>

definition sfs_io_out :: "nat \<Rightarrow> nat \<Rightarrow> nat \<Rightarrow> uio \<Rightarrow> sfs \<Rightarrow> uio \<times> sfs" where
  "sfs_io_out sv origresid extraresid u s =
     (let s = (if uio_resid u \<noteq> origresid \<and> uio_dir u = UIO_WRITE \<and> uio_offset u > int (sfi_size (sv_i (svs s sv)))
               then set_dinode sv (\<lambda>d. d\<lparr>sfi_size := nat (uio_offset u mod 2 ^ 32)\<rparr>) s else s) in
      (u\<lparr>uio_resid := u32 (uio_resid u + extraresid)\<rparr>, s))"

definition sfs_io :: "nat \<Rightarrow> uio \<Rightarrow> sfs \<Rightarrow> ((uio \<times> sfs) \<times> (errno + unit)) option" where
  "sfs_io sv u s =
     (let origresid = uio_resid u; sz = int (sfi_size (sv_i (svs s sv))); endpos = uio_offset u + int (uio_resid u) in
      if uio_dir u = UIO_READ \<and> uio_offset u \<ge> sz then Some ((u, s), Inr ())
      else
        do {
          let extraresid = (if uio_dir u = UIO_READ \<and> endpos > sz then nat ((endpos - sz) mod 2 ^ 32) else 0);
          kassert (uio_dir u = UIO_READ \<and> endpos > sz \<longrightarrow> uio_resid u > extraresid);
          ((u, s), r) \<leftarrow> sfs_io_parts sv (u\<lparr>uio_resid := uio_resid u - extraresid\<rparr>) s;
          Some (sfs_io_out sv origresid extraresid u s, r)
        })"

text \<open>
  Metadata I/O, as a read and a write: objects in the kernel that do not cross a block. Copying past the
  end of the buffer is a failed assertion here.
\<close>

definition sfs_metaio_read :: "nat \<Rightarrow> nat \<Rightarrow> nat \<Rightarrow> sfs \<Rightarrow> (sfs \<times> (errno + byte list)) option" where
  "sfs_metaio_read sv actualpos len s =
     do {
       kassert (biglock s > 0);
       let vnblock = u32 (actualpos div SFS_BLOCKSIZE);
       let blockoffset = actualpos mod SFS_BLOCKSIZE;
       onok (sfs_bmap sv vnblock False s) (\<lambda>diskblock s.
         if diskblock = 0 then Some (s, Inr (replicate len 0))
         else
           onok (sfs_readblock diskblock s) (\<lambda>b s.
             do { kassert (blockoffset + len \<le> SFS_BLOCKSIZE); Some (s, Inr (take len (drop blockoffset b))) }))
     }"

definition sfs_metaio_write :: "nat \<Rightarrow> nat \<Rightarrow> byte list \<Rightarrow> sfs \<Rightarrow> (sfs \<times> (errno + unit)) option" where
  "sfs_metaio_write sv actualpos data s =
     do {
       kassert (biglock s > 0);
       let len = length data;
       let vnblock = u32 (actualpos div SFS_BLOCKSIZE);
       let blockoffset = actualpos mod SFS_BLOCKSIZE;
       onok (sfs_bmap sv vnblock True s) (\<lambda>diskblock s.
         do {
           kassert (diskblock \<noteq> 0);
           onok (sfs_readblock diskblock s) (\<lambda>b s.
             do {
               kassert (blockoffset + len \<le> SFS_BLOCKSIZE);
               onok (sfs_writeblock diskblock (take blockoffset b @ data @ drop (blockoffset + len) b) s) (\<lambda>_ s.
                 let endpos = actualpos + len in
                 Some (if endpos > sfi_size (sv_i (svs s sv)) then set_dinode sv (\<lambda>d. d\<lparr>sfi_size := u32 endpos\<rparr>) s else s, Inr ()))
             })
         })
     }"

section \<open>Directories\<close>

definition SFS_NAMELEN :: nat where "SFS_NAMELEN = 60"
definition SFS_NOINO :: nat where "SFS_NOINO = 0"
definition SFS_ROOTDIR_INO :: nat where "SFS_ROOTDIR_INO = 1"
definition DIRENTRY_SIZE :: nat where "DIRENTRY_SIZE = 4 + SFS_NAMELEN"

record sfs_direntry =
  sfd_ino :: nat
  sfd_name :: "byte list"

definition direntry_of :: "byte list \<Rightarrow> sfs_direntry" where
  "direntry_of bs = \<lparr>sfd_ino = get32 (take 4 bs), sfd_name = drop 4 bs\<rparr>"

definition direntry_bytes :: "sfs_direntry \<Rightarrow> byte list" where
  "direntry_bytes sd = put32 (sfd_ino sd) @ sfd_name sd"

text \<open>The string in an array of bytes.\<close>

definition cstring :: "byte list \<Rightarrow> byte list" where
  "cstring bs = takeWhile (\<lambda>b. b \<noteq> 0) bs"

definition sfs_readdir :: "nat \<Rightarrow> nat \<Rightarrow> sfs \<Rightarrow> (sfs \<times> (errno + sfs_direntry)) option" where
  "sfs_readdir sv slot s =
     onok (sfs_metaio_read sv (u32 (slot * DIRENTRY_SIZE)) DIRENTRY_SIZE s) (\<lambda>b s. Some (s, Inr (direntry_of b)))"

definition sfs_writedir :: "nat \<Rightarrow> nat \<Rightarrow> sfs_direntry \<Rightarrow> sfs \<Rightarrow> (sfs \<times> (errno + unit)) option" where
  "sfs_writedir sv slot sd s = sfs_metaio_write sv (u32 (slot * DIRENTRY_SIZE)) (direntry_bytes sd) s"

definition sfs_dir_nentries :: "nat \<Rightarrow> sfs \<Rightarrow> nat option" where
  "sfs_dir_nentries sv s =
     do {
       kassert (sfi_type (sv_i (svs s sv)) = SFS_TYPE_DIR);
       kassert (sfi_size (sv_i (svs s sv)) mod DIRENTRY_SIZE = 0);
       Some (sfi_size (sv_i (svs s sv)) div DIRENTRY_SIZE)
     }"

text \<open>
  The search: the entry found (inode and slot) and the last empty slot seen. \<open>Inr\<close> without an entry is
  the result \<^verbatim>\<open>ENOENT\<close>, which hands back the empty slot as well.
\<close>

fun findname_loop :: "nat \<Rightarrow> byte list \<Rightarrow> nat list \<Rightarrow> (nat \<times> nat) option \<Rightarrow> nat option \<Rightarrow> sfs
    \<Rightarrow> (sfs \<times> (errno + (nat \<times> nat) option \<times> nat option)) option" where
  "findname_loop sv name [] found emptyslot s = Some (s, Inr (found, emptyslot))"
| "findname_loop sv name (i # is) found emptyslot s =
     onok (sfs_readdir sv i s) (\<lambda>tsd s.
       if sfd_ino tsd = SFS_NOINO then findname_loop sv name is found (Some i) s
       else if cstring (take (SFS_NAMELEN - 1) (sfd_name tsd)) = name then
         do { kassert (found = None); findname_loop sv name is (Some (sfd_ino tsd, i)) emptyslot s }
       else findname_loop sv name is found emptyslot s)"

definition sfs_dir_findname :: "nat \<Rightarrow> byte list \<Rightarrow> sfs \<Rightarrow> (sfs \<times> (errno + (nat \<times> nat) option \<times> nat option)) option" where
  "sfs_dir_findname sv name s =
     do { nentries \<leftarrow> sfs_dir_nentries sv s; findname_loop sv name [0..<nentries] None None s }"

text \<open>\<^verbatim>\<open>sfs_dir_link\<close> hands back the slot.\<close>

definition sfs_dir_link :: "nat \<Rightarrow> byte list \<Rightarrow> nat \<Rightarrow> sfs \<Rightarrow> (sfs \<times> (errno + nat)) option" where
  "sfs_dir_link sv name ino s =
     onok (sfs_dir_findname sv name s) (\<lambda>(found, emptyslot) s.
       if found \<noteq> None then Some (s, Inl EEXIST)
       else if length name + 1 > SFS_NAMELEN then Some (s, Inl ENAMETOOLONG)
       else
         do {
           slot \<leftarrow> (case emptyslot of Some e \<Rightarrow> Some e | None \<Rightarrow> sfs_dir_nentries sv s);
           let sd = \<lparr>sfd_ino = ino, sfd_name = name @ replicate (SFS_NAMELEN - length name) 0\<rparr>;
           onok (sfs_writedir sv slot sd s) (\<lambda>_ s. Some (s, Inr slot))
         })"

definition sfs_dir_unlink :: "nat \<Rightarrow> nat \<Rightarrow> sfs \<Rightarrow> (sfs \<times> (errno + unit)) option" where
  "sfs_dir_unlink sv slot s = sfs_writedir sv slot \<lparr>sfd_ino = SFS_NOINO, sfd_name = replicate SFS_NAMELEN 0\<rparr> s"

section \<open>Vnodes and inodes\<close>

definition vnode_check :: "nat \<Rightarrow> sfs \<Rightarrow> unit option" where
  "vnode_check v s =
     do {
       kassert (vn_ops (svs s v) \<noteq> No_ops);
       kassert (vn_refcount (svs s v) > 0)
     }"

definition vnode_incref :: "nat \<Rightarrow> sfs \<Rightarrow> sfs" where
  "vnode_incref v s = s\<lparr>svs := (svs s)(v := (svs s v)\<lparr>vn_refcount := vn_refcount (svs s v) + 1\<rparr>)\<rparr>"

definition vnode_cleanup :: "nat \<Rightarrow> sfs \<Rightarrow> sfs option" where
  "vnode_cleanup v s =
     do {
       kassert (vn_refcount (svs s v) = 1);
       Some (s\<lparr>svs := (svs s)(v := (svs s v)\<lparr>vn_ops := No_ops, vn_refcount := 0\<rparr>)\<rparr>)
     }"

definition sfs_sync_inode :: "nat \<Rightarrow> sfs \<Rightarrow> (sfs \<times> (errno + unit)) option" where
  "sfs_sync_inode sv s =
     (if sv_dirty (svs s sv) then
        onok (sfs_writeblock (sv_ino (svs s sv)) (dinode_bytes (sv_i (svs s sv))) s) (\<lambda>_ s.
          Some (s\<lparr>svs := (svs s)(sv := (svs s sv)\<lparr>sv_dirty := False\<rparr>)\<rparr>, Inr ()))
      else Some (s, Inr ()))"

definition sfs_reclaim :: "nat \<Rightarrow> sfs \<Rightarrow> (sfs \<times> (errno + unit)) option" where
  "sfs_reclaim v = locked (\<lambda>s.
     if vn_refcount (svs s v) \<noteq> 1 then
       do {
         kassert (vn_refcount (svs s v) > 1);
         Some (s\<lparr>svs := (svs s)(v := (svs s v)\<lparr>vn_refcount := vn_refcount (svs s v) - 1\<rparr>)\<rparr>, Inl EBUSY)
       }
     else
       onok (if sfi_linkcount (sv_i (svs s v)) = 0 then sfs_itrunc v 0 s else Some (s, Inr ())) (\<lambda>_ s.
         onok (sfs_sync_inode v s) (\<lambda>_ s.
           do {
             s \<leftarrow> (if sfi_linkcount (sv_i (svs s v)) = 0 then sfs_bfree (sv_ino (svs s v)) s else Some s);
             kassert (v \<in> set (sfs_vnodes s));
             let s = s\<lparr>sfs_vnodes := remove1 v (sfs_vnodes s)\<rparr>;
             s \<leftarrow> vnode_cleanup v s;
             Some (s, Inr ())
           })))"

text \<open>\<^verbatim>\<open>vnode_decref\<close> only prints a warning when \<^verbatim>\<open>VOP_RECLAIM\<close> fails.\<close>

definition vnode_decref :: "nat \<Rightarrow> sfs \<Rightarrow> sfs option" where
  "vnode_decref v s =
     do {
       kassert (vn_refcount (svs s v) > 0);
       if vn_refcount (svs s v) > 1 then Some (s\<lparr>svs := (svs s)(v := (svs s v)\<lparr>vn_refcount := vn_refcount (svs s v) - 1\<rparr>)\<rparr>)
       else do { vnode_check v s; (s, r) \<leftarrow> sfs_reclaim v s; Some s }
     }"

text \<open>The search in the table of vnodes: every inode in memory must be in an allocated block.\<close>

fun find_vnode :: "nat \<Rightarrow> nat list \<Rightarrow> sfs \<Rightarrow> nat option option" where
  "find_vnode ino [] s = Some None"
| "find_vnode ino (v # vs) s =
     do {
       used \<leftarrow> sfs_bused (sv_ino (svs s v)) s;
       kassert used;
       if sv_ino (svs s v) = ino then Some (Some v) else find_vnode ino vs s
     }"

text \<open>The outcome of a request for memory, and an address.\<close>

definition request_memory :: "sfs \<Rightarrow> sfs \<times> bool \<times> nat" where
  "request_memory s = (s\<lparr>ticks := ticks s + 1\<rparr>, memok s (ticks s), ticks s)"

definition vnode_ops_of :: "nat \<Rightarrow> vnode_ops option" where
  "vnode_ops_of t = (if t = SFS_TYPE_FILE then Some Sfs_fileops else if t = SFS_TYPE_DIR then Some Sfs_dirops else None)"

definition sfs_loadvnode :: "nat \<Rightarrow> nat \<Rightarrow> sfs \<Rightarrow> (sfs \<times> (errno + nat)) option" where
  "sfs_loadvnode ino forcetype s =
     do {
       found \<leftarrow> find_vnode ino (sfs_vnodes s) s;
       case found of
         Some v \<Rightarrow> do { kassert (forcetype = SFS_TYPE_INVAL); Some (vnode_incref v s, Inr v) }
       | None \<Rightarrow>
           (let (s, mem, sv) = request_memory s in
            if \<not> mem then Some (s, Inl ENOMEM)
            else
              do {
                used \<leftarrow> sfs_bused ino s;
                kassert used;
                onok (sfs_readblock ino s) (\<lambda>b s.
                  do {
                    let d = dinode_of b;
                    kassert (forcetype \<noteq> SFS_TYPE_INVAL \<longrightarrow> sfi_type d = SFS_TYPE_INVAL);
                    let (d, dirty) = (if forcetype \<noteq> SFS_TYPE_INVAL then (d\<lparr>sfi_type := forcetype\<rparr>, True) else (d, False));
                    ops \<leftarrow> vnode_ops_of (sfi_type d);
                    let s = s\<lparr>svs := (svs s)(sv := \<lparr>sv_i = d, sv_ino = ino, sv_dirty = dirty, vn_refcount = 1, vn_ops = ops\<rparr>)\<rparr>;
                    let (s, mem, _) = request_memory s;
                    if \<not> mem then do { s \<leftarrow> vnode_cleanup sv s; Some (s, Inl ENOMEM) }
                    else Some (s\<lparr>sfs_vnodes := sfs_vnodes s @ [sv]\<rparr>, Inr sv)
                  })
              })
     }"

definition sfs_makeobj :: "nat \<Rightarrow> sfs \<Rightarrow> (sfs \<times> (errno + nat)) option" where
  "sfs_makeobj type s =
     onok (sfs_balloc s) (\<lambda>ino s.
       do {
         (s, r) \<leftarrow> sfs_loadvnode ino type s;
         case r of
           Inl e \<Rightarrow> do { s \<leftarrow> sfs_bfree ino s; Some (s, Inl e) }
         | Inr sv \<Rightarrow> Some (s, Inr sv)
       })"

definition sfs_getroot :: "sfs \<Rightarrow> (sfs \<times> (errno + nat)) option" where
  "sfs_getroot = locked (\<lambda>s.
     do {
       (s, r) \<leftarrow> sfs_loadvnode SFS_ROOTDIR_INO SFS_TYPE_INVAL s;
       case r of
         Inl e \<Rightarrow> None
       | Inr sv \<Rightarrow> do { kassert (sfi_type (sv_i (svs s sv)) = SFS_TYPE_DIR); Some (s, Inr sv) }
     })"

definition sfs_lookonce :: "nat \<Rightarrow> byte list \<Rightarrow> sfs \<Rightarrow> (sfs \<times> (errno + nat \<times> nat)) option" where
  "sfs_lookonce sv name s =
     onok (sfs_dir_findname sv name s) (\<lambda>(found, _) s.
       case found of
         None \<Rightarrow> Some (s, Inl ENOENT)
       | Some (ino, slot) \<Rightarrow>
           onok (sfs_loadvnode ino SFS_TYPE_INVAL s) (\<lambda>ret s.
             do { kassert (sfi_linkcount (sv_i (svs s ret)) \<noteq> 0); Some (s, Inr (ret, slot)) }))"

end
