(* ===== verification/Sfs_Vnops.thy ===== *)
theory Sfs_Vnops
  imports Sfs_File
begin

text \<open>
  The operations of SFS that the VFS layer calls: \<^verbatim>\<open>sfs_vnops.c\<close> with its two tables of operations and the
  failures of \<^verbatim>\<open>kern/vfs/vfsfail.c\<close> in them, and \<^verbatim>\<open>sfs_fsops.c\<close>. A \<^verbatim>\<open>VOP\<close> macro checks the vnode and calls the
  entry of its table.
\<close>

section \<open>Directory operations\<close>

definition change_links :: "(nat \<Rightarrow> nat) \<Rightarrow> nat \<Rightarrow> sfs \<Rightarrow> sfs" where
  "change_links f sv s = set_dinode sv (\<lambda>d. d\<lparr>sfi_linkcount := f (sfi_linkcount d) mod 2 ^ 16\<rparr>) s"

definition sfs_creat :: "nat \<Rightarrow> byte list \<Rightarrow> bool \<Rightarrow> sfs \<Rightarrow> (sfs \<times> (errno + nat)) option" where
  "sfs_creat v name excl = locked (\<lambda>s.
     onok (sfs_dir_findname v name s) (\<lambda>(found, _) s.
       case found of
         Some (ino, _) \<Rightarrow> if excl then Some (s, Inl EEXIST) else sfs_loadvnode ino SFS_TYPE_INVAL s
       | None \<Rightarrow>
           onok (sfs_makeobj SFS_TYPE_FILE s) (\<lambda>newguy s.
             do {
               (s, r) \<leftarrow> sfs_dir_link v name (sv_ino (svs s newguy)) s;
               case r of
                 Inl e \<Rightarrow> do { s \<leftarrow> vnode_decref newguy s; Some (s, Inl e) }
               | Inr _ \<Rightarrow> Some (change_links (\<lambda>n. n + 1) newguy s, Inr newguy)
             })))"

definition sfs_link :: "nat \<Rightarrow> byte list \<Rightarrow> nat \<Rightarrow> sfs \<Rightarrow> (sfs \<times> (errno + unit)) option" where
  "sfs_link dir name f = locked (\<lambda>s.
     if sfi_type (sv_i (svs s f)) = SFS_TYPE_DIR then Some (s, Inl EINVAL)
     else
       onok (sfs_dir_link dir name (sv_ino (svs s f)) s) (\<lambda>_ s.
         Some (change_links (\<lambda>n. n + 1) f s, Inr ())))"

definition sfs_remove :: "nat \<Rightarrow> byte list \<Rightarrow> sfs \<Rightarrow> (sfs \<times> (errno + unit)) option" where
  "sfs_remove dir name = locked (\<lambda>s.
     onok (sfs_lookonce dir name s) (\<lambda>(victim, slot) s.
       do {
         (s, result) \<leftarrow> sfs_dir_unlink dir slot s;
         s \<leftarrow> (case result of
                Inl e \<Rightarrow> Some s
              | Inr _ \<Rightarrow>
                  do { kassert (sfi_linkcount (sv_i (svs s victim)) > 0); Some (change_links (\<lambda>n. n - 1) victim s) });
         s \<leftarrow> vnode_decref victim s;
         Some (s, result)
       }))"

text \<open>
  \<^verbatim>\<open>sfs_rename\<close>; the error recovery at \<^verbatim>\<open>puke_harder\<close> takes the count back without marking the inode dirty, which
  it is already.
\<close>

definition rename_recover :: "nat \<Rightarrow> nat \<Rightarrow> nat \<Rightarrow> errno \<Rightarrow> sfs \<Rightarrow> (sfs \<times> (errno + unit)) option" where
  "rename_recover sv g1 slot2 result s =
     do {
       (s, result2) \<leftarrow> sfs_dir_unlink sv slot2 s;
       case result2 of
         Inl _ \<Rightarrow> None
       | Inr _ \<Rightarrow>
           do {
             let g = svs s g1;
             let s = s\<lparr>svs := (svs s)(g1 := g\<lparr>sv_i := (sv_i g)\<lparr>sfi_linkcount := (sfi_linkcount (sv_i g) + 2 ^ 16 - 1) mod 2 ^ 16\<rparr>\<rparr>)\<rparr>;
             s \<leftarrow> vnode_decref g1 s;
             Some (s, Inl result)
           }
     }"

definition sfs_rename :: "nat \<Rightarrow> byte list \<Rightarrow> nat \<Rightarrow> byte list \<Rightarrow> sfs \<Rightarrow> (sfs \<times> (errno + unit)) option" where
  "sfs_rename d1 n1 d2 n2 = locked (\<lambda>s.
     do {
       kassert (d1 = d2);
       kassert (sv_ino (svs s d1) = SFS_ROOTDIR_INO);
       onok (sfs_lookonce d1 n1 s) (\<lambda>(g1, slot1) s.
         do {
           kassert (sfi_type (sv_i (svs s g1)) = SFS_TYPE_FILE);
           (s, r) \<leftarrow> sfs_dir_link d1 n2 (sv_ino (svs s g1)) s;
           case r of
             Inl e \<Rightarrow> do { s \<leftarrow> vnode_decref g1 s; Some (s, Inl e) }
           | Inr slot2 \<Rightarrow>
               do {
                 (s, r) \<leftarrow> sfs_dir_unlink d1 slot1 (change_links (\<lambda>n. n + 1) g1 s);
                 case r of
                   Inl e \<Rightarrow> rename_recover d1 g1 slot2 e s
                 | Inr _ \<Rightarrow>
                     do {
                       kassert (sfi_linkcount (sv_i (svs s g1)) > 0);
                       s \<leftarrow> vnode_decref g1 (change_links (\<lambda>n. n - 1) g1 s);
                       Some (s, Inr ())
                     }
               }
         })
     })"

definition sfs_lookparent :: "nat \<Rightarrow> byte list \<Rightarrow> nat \<Rightarrow> sfs \<Rightarrow> (sfs \<times> (errno + nat \<times> byte list)) option" where
  "sfs_lookparent v path buflen = locked (\<lambda>s.
     if sfi_type (sv_i (svs s v)) \<noteq> SFS_TYPE_DIR then Some (s, Inl ENOTDIR)
     else if length path + 1 > buflen then Some (s, Inl ENAMETOOLONG)
     else Some (vnode_incref v s, Inr (v, path)))"

definition sfs_lookup :: "nat \<Rightarrow> byte list \<Rightarrow> sfs \<Rightarrow> (sfs \<times> (errno + nat)) option" where
  "sfs_lookup v path = locked (\<lambda>s.
     if sfi_type (sv_i (svs s v)) \<noteq> SFS_TYPE_DIR then Some (s, Inl ENOTDIR)
     else onok (sfs_lookonce v path s) (\<lambda>(final, _) s. Some (s, Inr final)))"

section \<open>File operations\<close>

text \<open>A body with a \<^verbatim>\<open>uio\<close> under the lock.\<close>

definition locked_uio :: "(uio \<Rightarrow> sfs \<Rightarrow> ((uio \<times> sfs) \<times> (errno + unit)) option) \<Rightarrow> uio \<Rightarrow> sfs \<Rightarrow> ((uio \<times> sfs) \<times> (errno + unit)) option" where
  "locked_uio body u s =
     do {
       ((u, s), r) \<leftarrow> body u (vfs_biglock_acquire s);
       s \<leftarrow> vfs_biglock_release s;
       Some ((u, s), r)
     }"

definition sfs_read :: "nat \<Rightarrow> uio \<Rightarrow> sfs \<Rightarrow> ((uio \<times> sfs) \<times> (errno + unit)) option" where
  "sfs_read v u s = do { kassert (uio_dir u = UIO_READ); locked_uio (sfs_io v) u s }"

definition sfs_write :: "nat \<Rightarrow> uio \<Rightarrow> sfs \<Rightarrow> ((uio \<times> sfs) \<times> (errno + unit)) option" where
  "sfs_write v u s = do { kassert (uio_dir u = UIO_WRITE); locked_uio (sfs_io v) u s }"

definition sfs_fsync :: "nat \<Rightarrow> sfs \<Rightarrow> (sfs \<times> (errno + unit)) option" where
  "sfs_fsync v = locked (sfs_sync_inode v)"

definition sfs_truncate :: "nat \<Rightarrow> nat \<Rightarrow> sfs \<Rightarrow> (sfs \<times> (errno + unit)) option" where
  "sfs_truncate v len = sfs_itrunc v len"

datatype file_kind = S_IFREG | S_IFDIR

definition sfs_gettype :: "nat \<Rightarrow> sfs \<Rightarrow> (sfs \<times> (errno + file_kind)) option" where
  "sfs_gettype v = locked (\<lambda>s.
     if sfi_type (sv_i (svs s v)) = SFS_TYPE_FILE then Some (s, Inr S_IFREG)
     else if sfi_type (sv_i (svs s v)) = SFS_TYPE_DIR then Some (s, Inr S_IFDIR)
     else None)"

record stat =
  st_size :: nat
  st_mode :: file_kind
  st_nlink :: nat
  st_blocks :: nat

definition sfs_stat :: "nat \<Rightarrow> sfs \<Rightarrow> (sfs \<times> (errno + stat)) option" where
  "sfs_stat v s =
     do {
       vnode_check v s;
       onok (sfs_gettype v s) (\<lambda>t s.
         Some (s, Inr \<lparr>st_size = sfi_size (sv_i (svs s v)), st_mode = t, st_nlink = sfi_linkcount (sv_i (svs s v)), st_blocks = 0\<rparr>))
     }"

definition sfs_namefile :: "nat \<Rightarrow> sfs \<Rightarrow> (sfs \<times> (errno + unit)) option" where
  "sfs_namefile v s = do { kassert (sv_ino (svs s v) = SFS_ROOTDIR_INO); Some (s, Inr ()) }"

definition O_ACCMODE :: nat where "O_ACCMODE = 3"

definition sfs_eachopendir :: "nat \<Rightarrow> errno + unit" where
  "sfs_eachopendir openflags =
     (if openflags mod (O_ACCMODE + 1) \<noteq> 0 then Inl EISDIR
      else if odd (openflags div 32) then Inl EISDIR
      else Inr ())"

section \<open>The tables of operations\<close>

text \<open>
  A call through a table: the check of the vnode, and the entry for files or the entry for the directory.
\<close>

definition vop :: "nat \<Rightarrow> ('s \<Rightarrow> sfs) \<Rightarrow> ('s \<Rightarrow> ('s \<times> (errno + 'a)) option) \<Rightarrow> ('s \<Rightarrow> ('s \<times> (errno + 'a)) option) \<Rightarrow> 's
    \<Rightarrow> ('s \<times> (errno + 'a)) option" where
  "vop v vol fileop dirop s =
     do {
       vnode_check v (vol s);
       (case vn_ops (svs (vol s) v) of Sfs_fileops \<Rightarrow> fileop s | Sfs_dirops \<Rightarrow> dirop s | No_ops \<Rightarrow> None)
     }"

definition fails :: "errno \<Rightarrow> 's \<Rightarrow> ('s \<times> (errno + 'a)) option" where
  "fails e s = Some (s, Inl e)"

definition VOP_EACHOPEN :: "nat \<Rightarrow> nat \<Rightarrow> sfs \<Rightarrow> (sfs \<times> (errno + unit)) option" where
  "VOP_EACHOPEN v flags = vop v id (\<lambda>s. Some (s, Inr ())) (\<lambda>s. Some (s, sfs_eachopendir flags))"

definition VOP_READ :: "nat \<Rightarrow> uio \<times> sfs \<Rightarrow> ((uio \<times> sfs) \<times> (errno + unit)) option" where
  "VOP_READ v = vop v snd (\<lambda>(u, s). sfs_read v u s) (fails EISDIR)"

definition VOP_WRITE :: "nat \<Rightarrow> uio \<times> sfs \<Rightarrow> ((uio \<times> sfs) \<times> (errno + unit)) option" where
  "VOP_WRITE v = vop v snd (\<lambda>(u, s). sfs_write v u s) (fails EISDIR)"

definition VOP_STAT :: "nat \<Rightarrow> sfs \<Rightarrow> (sfs \<times> (errno + stat)) option" where
  "VOP_STAT v = vop v id (sfs_stat v) (sfs_stat v)"

definition VOP_GETTYPE :: "nat \<Rightarrow> sfs \<Rightarrow> (sfs \<times> (errno + file_kind)) option" where
  "VOP_GETTYPE v = vop v id (sfs_gettype v) (sfs_gettype v)"

definition VOP_FSYNC :: "nat \<Rightarrow> sfs \<Rightarrow> (sfs \<times> (errno + unit)) option" where
  "VOP_FSYNC v = vop v id (sfs_fsync v) (sfs_fsync v)"

definition VOP_TRUNCATE :: "nat \<Rightarrow> nat \<Rightarrow> sfs \<Rightarrow> (sfs \<times> (errno + unit)) option" where
  "VOP_TRUNCATE v len = vop v id (sfs_truncate v len) (fails EISDIR)"

definition VOP_NAMEFILE :: "nat \<Rightarrow> sfs \<Rightarrow> (sfs \<times> (errno + unit)) option" where
  "VOP_NAMEFILE v = vop v id (fails ENOTDIR) (sfs_namefile v)"

definition VOP_CREAT :: "nat \<Rightarrow> byte list \<Rightarrow> bool \<Rightarrow> sfs \<Rightarrow> (sfs \<times> (errno + nat)) option" where
  "VOP_CREAT v name excl = vop v id (fails ENOTDIR) (sfs_creat v name excl)"

definition VOP_LINK :: "nat \<Rightarrow> byte list \<Rightarrow> nat \<Rightarrow> sfs \<Rightarrow> (sfs \<times> (errno + unit)) option" where
  "VOP_LINK v name f = vop v id (fails ENOTDIR) (sfs_link v name f)"

definition VOP_REMOVE :: "nat \<Rightarrow> byte list \<Rightarrow> sfs \<Rightarrow> (sfs \<times> (errno + unit)) option" where
  "VOP_REMOVE v name = vop v id (fails ENOTDIR) (sfs_remove v name)"

definition VOP_RENAME :: "nat \<Rightarrow> byte list \<Rightarrow> nat \<Rightarrow> byte list \<Rightarrow> sfs \<Rightarrow> (sfs \<times> (errno + unit)) option" where
  "VOP_RENAME v1 n1 v2 n2 = vop v1 id (fails ENOTDIR) (sfs_rename v1 n1 v2 n2)"

definition VOP_LOOKUP :: "nat \<Rightarrow> byte list \<Rightarrow> sfs \<Rightarrow> (sfs \<times> (errno + nat)) option" where
  "VOP_LOOKUP v path = vop v id (fails ENOTDIR) (sfs_lookup v path)"

definition VOP_LOOKPARENT :: "nat \<Rightarrow> byte list \<Rightarrow> nat \<Rightarrow> sfs \<Rightarrow> (sfs \<times> (errno + nat \<times> byte list)) option" where
  "VOP_LOOKPARENT v path buflen = vop v id (fails ENOTDIR) (sfs_lookparent v path buflen)"

section \<open>The volume\<close>

definition SFS_MAGIC :: nat where "SFS_MAGIC = 0xabadf001"
definition SFS_SUPER_BLOCK :: nat where "SFS_SUPER_BLOCK = 0"
definition SFS_FREEMAP_START :: nat where "SFS_FREEMAP_START = 2"
definition SFS_BITSPERBLOCK :: nat where "SFS_BITSPERBLOCK = SFS_BLOCKSIZE * 8"

definition SFS_FREEMAPBITS :: "nat \<Rightarrow> nat" where
  "SFS_FREEMAPBITS nblocks = u32 (u32 (nblocks + SFS_BITSPERBLOCK - 1) div SFS_BITSPERBLOCK * SFS_BITSPERBLOCK)"

definition SFS_FREEMAPBLOCKS :: "nat \<Rightarrow> nat" where
  "SFS_FREEMAPBLOCKS nblocks = SFS_FREEMAPBITS nblocks div SFS_BITSPERBLOCK"

text \<open>\<^verbatim>\<open>sfs_freemapio\<close>, in its two directions.\<close>

fun freemap_read :: "nat list \<Rightarrow> sfs \<Rightarrow> (sfs \<times> (errno + unit)) option" where
  "freemap_read [] s = Some (s, Inr ())"
| "freemap_read (j # js) s =
     onok (sfs_readblock (SFS_FREEMAP_START + j) s) (\<lambda>b s.
       let v = bm_v (sfs_freemap s) in
       freemap_read js (s\<lparr>sfs_freemap := (sfs_freemap s)\<lparr>bm_v := take (j * SFS_BLOCKSIZE) v @ b @ drop ((j + 1) * SFS_BLOCKSIZE) v\<rparr>\<rparr>))"

fun freemap_write :: "nat list \<Rightarrow> sfs \<Rightarrow> (sfs \<times> (errno + unit)) option" where
  "freemap_write [] s = Some (s, Inr ())"
| "freemap_write (j # js) s =
     onok (sfs_writeblock (SFS_FREEMAP_START + j) (take SFS_BLOCKSIZE (drop (j * SFS_BLOCKSIZE) (bm_v (sfs_freemap s)))) s) (\<lambda>_ s.
       freemap_write js s)"

definition sfs_freemapio :: "uio_rw \<Rightarrow> sfs \<Rightarrow> (sfs \<times> (errno + unit)) option" where
  "sfs_freemapio rw s =
     (let js = [0..<SFS_FREEMAPBLOCKS (sb_nblocks (sfs_sb s))] in
      case rw of UIO_READ \<Rightarrow> freemap_read js s | UIO_WRITE \<Rightarrow> freemap_write js s)"

text \<open>\<^verbatim>\<open>sfs_sync\<close> does not look at the results of \<^verbatim>\<open>VOP_FSYNC\<close>.\<close>

definition sfs_sync :: "sfs \<Rightarrow> (sfs \<times> (errno + unit)) option" where
  "sfs_sync = locked (\<lambda>s.
     do {
       s \<leftarrow> fold_opt (\<lambda>v s. do { (s, _) \<leftarrow> VOP_FSYNC v s; Some s }) (sfs_vnodes s) s;
       onok
         (if sfs_freemapdirty s then
            onok (sfs_freemapio UIO_WRITE s) (\<lambda>_ s. Some (s\<lparr>sfs_freemapdirty := False\<rparr>, Inr ()))
          else Some (s, Inr ()))
         (\<lambda>_ s.
           if sfs_superdirty s then
             onok (sfs_writeblock SFS_SUPER_BLOCK (superblock_bytes (sfs_sb s)) s) (\<lambda>_ s. Some (s\<lparr>sfs_superdirty := False\<rparr>, Inr ()))
           else Some (s, Inr ()))
     })"

definition sfs_fs_destroy :: "sfs \<Rightarrow> sfs option" where
  "sfs_fs_destroy s =
     do {
       kassert (sfs_vnodes s = []);
       kassert (\<not> sfs_device s);
       Some s
     }"

definition sfs_unmount :: "sfs \<Rightarrow> (sfs \<times> (errno + unit)) option" where
  "sfs_unmount = locked (\<lambda>s.
     if sfs_vnodes s \<noteq> [] then Some (s, Inl EBUSY)
     else
       do {
         kassert (\<not> sfs_superdirty s);
         kassert (\<not> sfs_freemapdirty s);
         s \<leftarrow> sfs_fs_destroy (s\<lparr>sfs_device := False\<rparr>);
         Some (s, Inr ())
       })"

text \<open>The structure itself and its table of vnodes are two requests for memory.\<close>

definition sfs_fs_create :: "sfs \<Rightarrow> sfs \<times> bool" where
  "sfs_fs_create s =
     (let (s, mem1, _) = request_memory s in
      if \<not> mem1 then (s, False)
      else
        let (s, mem2, _) = request_memory (s\<lparr>sfs_superdirty := False, sfs_device := False\<rparr>) in
        if \<not> mem2 then (s, False)
        else (s\<lparr>sfs_vnodes := [], sfs_freemapdirty := False\<rparr>, True))"

text \<open>An error of \<^verbatim>\<open>sfs_domount\<close> after the volume has been created.\<close>

definition mount_fails :: "errno \<Rightarrow> sfs \<Rightarrow> (sfs \<times> (errno + unit)) option" where
  "mount_fails e s = do { s \<leftarrow> sfs_fs_destroy s; Some (s, Inl e) }"

definition sfs_domount :: "nat \<Rightarrow> sfs \<Rightarrow> (sfs \<times> (errno + unit)) option" where
  "sfs_domount blocksize = locked (\<lambda>s.
     if blocksize \<noteq> SFS_BLOCKSIZE then Some (s, Inl ENXIO)
     else
       let (s, ok) = sfs_fs_create s in
       if \<not> ok then Some (s, Inl ENOMEM)
       else
         do {
           (s, r) \<leftarrow> sfs_readblock SFS_SUPER_BLOCK (s\<lparr>sfs_device := True\<rparr>);
           case r of
             Inl e \<Rightarrow> mount_fails e s
           | Inr b \<Rightarrow>
               (let s = s\<lparr>sfs_sb := superblock_of b\<rparr> in
                if sb_magic (sfs_sb s) \<noteq> SFS_MAGIC then mount_fails EINVAL s
                else
                  let s = s\<lparr>sfs_sb := (sfs_sb s)\<lparr>sb_volname := (sb_volname (sfs_sb s))[31 := 0]\<rparr>\<rparr>;
                      (s, mem1, _) = request_memory s; (s, mem2, _) = request_memory s in
                  do {
                    fm \<leftarrow> bitmap_create mem1 mem2 (SFS_FREEMAPBITS (sb_nblocks (sfs_sb s)));
                    case fm of
                      None \<Rightarrow> mount_fails ENOMEM s
                    | Some fm \<Rightarrow>
                        do {
                          (s, r) \<leftarrow> sfs_freemapio UIO_READ (s\<lparr>sfs_freemap := fm\<rparr>);
                          case r of Inl e \<Rightarrow> mount_fails e s | Inr _ \<Rightarrow> Some (s, Inr ())
                        }
                  })
         })"

end
