(* ===== verification/Sfs_Map.thy ===== *)
theory Sfs_Map
  imports Sfs_Vnops
begin

text \<open>
  Facts on the lower half of SFS: the translation of structures to bytes and back, what block I/O does, and
  the ownership of blocks.
\<close>

section \<open>Structures as bytes\<close>

lemma unat_of_nat_8: "unat (of_nat n :: byte) = n mod 256"
  by (simp add: unat_of_nat)

lemma base256: "n < 2 ^ 32 \<Longrightarrow> ((n div 2 ^ 24 mod 256 * 256 + n div 2 ^ 16 mod 256) * 256 + n div 2 ^ 8 mod 256) * 256 + n mod 256 = n" for n :: nat
proof -
  assume n: "n < 2 ^ 32"
  have a: "n div 2 ^ 24 mod 256 = n div 2 ^ 24" using n by (intro mod_less) (simp add: less_mult_imp_div_less)
  have b: "n div 2 ^ 24 * 256 + n div 2 ^ 16 mod 256 = n div 2 ^ 16"
    using div_mult_mod_eq [of "n div 2 ^ 16" 256] by (simp add: div_mult2_eq [symmetric])
  have c: "n div 2 ^ 16 * 256 + n div 2 ^ 8 mod 256 = n div 2 ^ 8"
    using div_mult_mod_eq [of "n div 2 ^ 8" 256] by (simp add: div_mult2_eq [symmetric])
  have d: "n div 2 ^ 8 * 256 + n mod 256 = n" using div_mult_mod_eq [of n 256] by simp
  show ?thesis unfolding a b c d ..
qed

lemma length_put32 [simp]: "length (put32 n) = 4"
  by (simp add: put32_def)

lemma get32_put32 [simp]: "n < 2 ^ 32 \<Longrightarrow> get32 (put32 n) = n"
  using base256 [of n] by (simp add: get32_def put32_def unat_of_nat_8 numeral_2_eq_2 numeral_3_eq_3 del: of_nat_div)

lemma get32_less: "get32 bs < 2 ^ 32"
proof -
  have b: "unat (x :: byte) < 256" for x using unsigned_less [of x] by simp
  show ?thesis using b [of "bs ! 0"] b [of "bs ! 1"] b [of "bs ! 2"] b [of "bs ! 3"] unfolding get32_def by simp
qed

lemma bytes_of_simps [simp]: "bytes_of [] = []" "bytes_of (w # ws) = put32 w @ bytes_of ws"
  by (simp_all add: bytes_of_def)

lemma length_bytes_of [simp]: "length (bytes_of ws) = 4 * length ws"
  by (induction ws) auto

lemma length_words_of [simp]: "length (words_of bs) = length bs div 4"
  by (simp add: words_of_def)

lemma words_of_bytes_of [simp]:
  assumes "\<forall>w\<in>set ws. w < 2 ^ 32"
  shows "words_of (bytes_of ws) = ws"
proof (rule nth_equalityI)
  fix i
  assume "i < length (words_of (bytes_of ws))"
  then have i: "i < length ws" by simp
  have "take 4 (drop (4 * i) (bytes_of ws)) = put32 (ws ! i)" using i
  proof (induction ws arbitrary: i)
    case (Cons w ws)
    then show ?case by (cases i) simp_all
  qed simp
  then show "words_of (bytes_of ws) ! i = ws ! i" using i assms by (simp add: words_of_def)
qed simp

lemma words_of_less: "w \<in> set (words_of bs) \<Longrightarrow> w < 2 ^ 32"
  using get32_less by (auto simp: words_of_def)

lemma words_of_zeros: "words_of (replicate n 0) = replicate (n div 4) 0"
proof (rule nth_equalityI)
  fix i
  assume "i < length (words_of (replicate n (0 :: byte)))"
  then have i: "4 * i + 3 < n" "i < n div 4" by auto
  have "take 4 (drop (4 * i) (replicate n (0 :: byte))) = replicate 4 0" using i(1) by (simp add: min_def)
  then have "get32 (take 4 (drop (4 * i) (replicate n (0 :: byte)))) = 0" by (simp add: get32_def)
  then show "words_of (replicate n 0) ! i = replicate (n div 4) 0 ! i" using i(2) by (simp add: words_of_def)
qed simp

definition dinode_ok :: "sfs_dinode \<Rightarrow> bool" where
  "dinode_ok d \<longleftrightarrow> sfi_size d < 2 ^ 32 \<and> sfi_type d < 2 ^ 16 \<and> sfi_linkcount d < 2 ^ 16 \<and> length (sfi_direct d) = 15
     \<and> (\<forall>w\<in>set (sfi_direct d). w < 2 ^ 32) \<and> sfi_indirect d < 2 ^ 32 \<and> length (sfi_waste d) = 110
     \<and> (\<forall>w\<in>set (sfi_waste d). w < 2 ^ 32)"

lemma length_dinode_bytes: "dinode_ok d \<Longrightarrow> length (dinode_bytes d) = 512"
  by (simp add: dinode_bytes_def dinode_ok_def)

lemma dinode_roundtrip:
  assumes "dinode_ok d"
  shows "dinode_of (dinode_bytes d) = d"
proof -
  let ?ws = "[sfi_size d, sfi_type d * 2 ^ 16 + sfi_linkcount d] @ sfi_direct d @ [sfi_indirect d] @ sfi_waste d"
  have "sfi_type d * 2 ^ 16 + sfi_linkcount d < 2 ^ 32" using assms unfolding dinode_ok_def by simp
  then have "\<forall>w\<in>set ?ws. w < 2 ^ 32" using assms unfolding dinode_ok_def by auto
  then have w: "words_of (dinode_bytes d) = ?ws" unfolding dinode_bytes_def by (rule words_of_bytes_of)
  have "(sfi_type d * 2 ^ 16 + sfi_linkcount d) div 2 ^ 16 = sfi_type d" "(sfi_type d * 2 ^ 16 + sfi_linkcount d) mod 2 ^ 16 = sfi_linkcount d"
    using assms unfolding dinode_ok_def by simp_all
  then show ?thesis using assms unfolding dinode_of_def w dinode_ok_def by (simp add: SFS_NDIRECT_def nth_append)
qed

lemma dinode_of_ok: "length bs = 512 \<Longrightarrow> dinode_ok (dinode_of bs)"
proof -
  assume l: "length bs = 512"
  have n: "words_of bs ! i < 2 ^ 32" if "i < 128" for i by (rule words_of_less, rule nth_mem) (use that l in simp)
  have "words_of bs ! 1 div 2 ^ 16 < 2 ^ 16" using n [of 1] by (simp add: less_mult_imp_div_less)
  moreover have "\<forall>w\<in>set (take 15 (drop 2 (words_of bs))). w < 2 ^ 32" by (metis in_set_dropD in_set_takeD words_of_less)
  moreover have "\<forall>w\<in>set (drop 18 (words_of bs)). w < 2 ^ 32" by (metis in_set_dropD words_of_less)
  ultimately show ?thesis using l n [of 0] n [of 17] by (simp add: dinode_ok_def dinode_of_def SFS_NDIRECT_def Let_def)
qed

lemma dinode_of_zeros:
  "sfi_size (dinode_of (replicate 512 0)) = 0" "sfi_type (dinode_of (replicate 512 0)) = 0"
  "sfi_linkcount (dinode_of (replicate 512 0)) = 0" "sfi_direct (dinode_of (replicate 512 0)) = replicate 15 0"
  "sfi_indirect (dinode_of (replicate 512 0)) = 0"
  by (simp_all add: dinode_of_def words_of_zeros SFS_NDIRECT_def min_def)

lemma direntry_roundtrip [simp]: "sfd_ino sd < 2 ^ 32 \<Longrightarrow> direntry_of (direntry_bytes sd) = sd"
  by (simp add: direntry_of_def direntry_bytes_def)

lemma superblock_roundtrip:
  assumes "sb_magic sb < 2 ^ 32" "sb_nblocks sb < 2 ^ 32" "length (sb_volname sb) = 32"
  shows "superblock_of (superblock_bytes sb) = sb"
  using assms by (simp add: superblock_of_def superblock_bytes_def)

section \<open>Transfers of one sector\<close>

lemma kread_kwrite_same: "length bs = n \<Longrightarrow> kread (kwrite a bs m) a n = bs"
  by (rule nth_equalityI) (simp_all add: kread_def kmem_kwrite)

lemma length_kread [simp]: "length (kread m a n) = n"
  by (simp add: kread_def)

text \<open>A \<^verbatim>\<open>uio\<close> for one kernel buffer of a block.\<close>

lemma uiomove_kernel:
  assumes "uio_iov u = [\<lparr>iov_base = base, iov_len = n\<rparr>]" "uio_resid u = n" "uio_segflg u = UIO_SYSSPACE" "uio_space u = None" "0 < n"
  shows "uiomove ptr n u m =
    Some (uio_advance n u, if uio_dir u = UIO_READ then kwrite base (kread m ptr n) m else kwrite ptr (kread m base n) m, Inr ())"
proof -
  have "uiomove_loop p 0 v m' = Some (v, m', Inr ())" for p v m' by (subst uiomove_loop.simps) simp
  then show ?thesis using assms
    unfolding uiomove_def by (subst uiomove_loop.simps) (simp add: uiomove_block_def)
qed

lemma lhd_io_one:
  assumes "uio_offset u = int b * 512" "uio_resid u = 512" "b < lh_blocks (disk s)" "lh_blocks (disk s) < 2 ^ 32"
  shows "lhd_io u s = lhd_io_loop [b] u s"
proof -
  have b: "b + 1 < 2 ^ 32" "b + 1 \<le> lh_blocks (disk s)" "b < 2 ^ 32" using assms(3,4) by linarith+
  have "int b mod 2 ^ 32 = int b" using b(3) by (intro mod_pos_pos_trivial) auto
  then have "nat (uio_offset u div 512 mod 2 ^ 32) = b" using assms(1) by simp
  moreover have "u32 (b + 1) = b + 1" "u32 (b + 0) = b" using b by (auto intro: mod_less)
  ultimately show ?thesis using assms(1,2) b(2) by (simp add: lhd_io_def LHD_SECTSIZE_def Let_def)
qed

lemma lhd_io_read:
  assumes u: "uio_offset u = int b * 512" "uio_resid u = 512" "uio_dir u = UIO_READ"
    and b: "b < lh_blocks (disk s)" "lh_blocks (disk s) < 2 ^ 32"
    and m: "uiomove (lh_buf (disk s)) 512 u (kwrite (lh_buf (disk s)) (sectors (disk s) b) (mach s)) = Some (u', m', r)"
  shows "lhd_io u s =
    (if media (disk s) UIO_READ (nops (disk s)) then Some ((u, s\<lparr>disk := (disk s)\<lparr>nops := nops (disk s) + 1\<rparr>\<rparr>), Inl EIO)
     else Some ((u', s\<lparr>disk := (disk s)\<lparr>nops := nops (disk s) + 1\<rparr>, mach := m'\<rparr>), r))"
  using u(3) b(1) m unfolding lhd_io_one [OF u(1,2) b]
  by (cases r) (auto simp: lhd_operate_def lhd_irq_def lhd_code_to_errno_def LHD_SECTSIZE_def Let_def)

lemma rwblock_tries_read:
  assumes u: "uio_offset u = int b * 512" "uio_resid u = 512" "uio_dir u = UIO_READ"
    and b: "b < lh_blocks (disk s)" "lh_blocks (disk s) < 2 ^ 32"
    and m: "uiomove (lh_buf (disk s)) 512 u (kwrite (lh_buf (disk s)) (sectors (disk s) b) (mach s)) = Some (u', m', r)"
    and r: "r \<noteq> Inl EINVAL" "r \<noteq> Inl EIO"
  shows "\<exists>n. rwblock_tries left u s = Some ((u, s\<lparr>disk := (disk s)\<lparr>nops := n\<rparr>\<rparr>), Inl EIO)
    \<or> rwblock_tries left u s = Some ((u', s\<lparr>disk := (disk s)\<lparr>nops := n\<rparr>, mach := m'\<rparr>), r)"
  using b m
proof (induction left arbitrary: s)
  case 0
  then show ?case using lhd_io_read [OF u 0] r by (auto simp: rwblock_tries.simps)
next
  case (Suc left)
  let ?s = "s\<lparr>disk := (disk s)\<lparr>nops := nops (disk s) + 1\<rparr>\<rparr>"
  show ?case
  proof (cases "media (disk s) UIO_READ (nops (disk s))")
    case True
    then have "rwblock_tries (Suc left) u s = rwblock_tries left u ?s"
      using lhd_io_read [OF u Suc.prems] by (simp add: rwblock_tries.simps [of "Suc left"])
    moreover obtain n where "rwblock_tries left u ?s = Some ((u, ?s\<lparr>disk := (disk ?s)\<lparr>nops := n\<rparr>\<rparr>), Inl EIO)
      \<or> rwblock_tries left u ?s = Some ((u', ?s\<lparr>disk := (disk ?s)\<lparr>nops := n\<rparr>, mach := m'\<rparr>), r)"
      using Suc.IH [of ?s] Suc.prems by auto
    ultimately show ?thesis by auto
  next
    case False
    then show ?thesis using lhd_io_read [OF u Suc.prems] r by (auto simp: rwblock_tries.simps)
  qed
qed

lemma rwblock_tries_write:
  assumes u: "uio_offset u = int b * 512" "uio_resid u = 512" "uio_dir u = UIO_WRITE"
    and b: "b < lh_blocks (disk s)" "lh_blocks (disk s) < 2 ^ 32"
    and m: "uiomove (lh_buf (disk s)) 512 u (mach s) = Some (u', m', r)" "uio_dir u' = UIO_WRITE"
    and r: "r \<noteq> Inl EINVAL" "r \<noteq> Inl EIO" and media: "\<not> media (disk s) UIO_WRITE (nops (disk s))"
  shows "rwblock_tries left u s =
    (case r of
       Inl e \<Rightarrow> Some ((u', s\<lparr>mach := m'\<rparr>), Inl e)
     | Inr _ \<Rightarrow> Some ((u', s\<lparr>disk := (disk s)\<lparr>nops := nops (disk s) + 1, sectors := (sectors (disk s))(b := kread m' (lh_buf (disk s)) 512)\<rparr>,
         mach := m'\<rparr>), Inr ()))"
proof -
  have "lhd_io u s =
    (case r of
       Inl e \<Rightarrow> Some ((u', s\<lparr>mach := m'\<rparr>), Inl e)
     | Inr _ \<Rightarrow> Some ((u', s\<lparr>disk := (disk s)\<lparr>nops := nops (disk s) + 1, sectors := (sectors (disk s))(b := kread m' (lh_buf (disk s)) 512)\<rparr>,
         mach := m'\<rparr>), Inr ()))"
    using u(3) b(1) m media unfolding lhd_io_one [OF u(1,2) b]
    by (cases r) (simp_all add: lhd_operate_def lhd_irq_def lhd_code_to_errno_def LHD_SECTSIZE_def Let_def)
  then show ?thesis using r by (cases r) (auto simp: rwblock_tries.simps)
qed

section \<open>Block I/O on the volume\<close>

text \<open>The buffers of the kernel do not overlap, the sectors are whole, and no write meets a media error.\<close>

definition apart :: "nat \<Rightarrow> nat \<Rightarrow> nat \<Rightarrow> nat \<Rightarrow> bool" where
  "apart a n b k \<longleftrightarrow> a + n \<le> b \<or> b + k \<le> a"

definition bufs_ok :: "sfs \<Rightarrow> bool" where
  "bufs_ok s \<longleftrightarrow> apart (lh_buf (disk s)) 512 (kbuf s) 512 \<and> apart (lh_buf (disk s)) 512 (iobuf s) 512 \<and> apart (kbuf s) 512 (iobuf s) 512
     \<and> apart (zeros s) 16 (lh_buf (disk s)) 512 \<and> apart (zeros s) 16 (kbuf s) 512 \<and> apart (zeros s) 16 (iobuf s) 512
     \<and> (\<forall>i<16. kmem (mach s) (zeros s + i) = 0)"

definition hw_ok :: "sfs \<Rightarrow> bool" where
  "hw_ok s \<longleftrightarrow> bufs_ok s \<and> lh_blocks (disk s) < 2 ^ 32 \<and> (\<forall>b. length (sectors (disk s) b) = 512) \<and> (\<forall>n. \<not> media (disk s) UIO_WRITE n)"

definition scratch :: "sfs \<Rightarrow> nat set" where
  "scratch s = {lh_buf (disk s)..<lh_buf (disk s) + 512} \<union> {kbuf s..<kbuf s + 512} \<union> {iobuf s..<iobuf s + 512}"

text \<open>The states that differ in the number of disk operations and in the kernel's buffers only.\<close>

definition quiet :: "sfs \<Rightarrow> sfs \<Rightarrow> bool" where
  "quiet s s' \<longleftrightarrow> (\<exists>n k. s' = s\<lparr>disk := (disk s)\<lparr>nops := n\<rparr>, mach := (mach s)\<lparr>kmem := k\<rparr>\<rparr> \<and> (\<forall>a. a \<notin> scratch s \<longrightarrow> k a = kmem (mach s) a))"

lemma quiet_refl [simp]: "quiet s s"
  unfolding quiet_def by (intro exI [of _ "nops (disk s)"] exI [of _ "kmem (mach s)"]) simp

lemma quietE:
  assumes "quiet s s'"
  obtains n k where "s' = s\<lparr>disk := (disk s)\<lparr>nops := n\<rparr>, mach := (mach s)\<lparr>kmem := k\<rparr>\<rparr>" "\<And>a. a \<notin> scratch s \<Longrightarrow> k a = kmem (mach s) a"
proof -
  from assms obtain n k where "s' = s\<lparr>disk := (disk s)\<lparr>nops := n\<rparr>, mach := (mach s)\<lparr>kmem := k\<rparr>\<rparr>" "\<forall>a. a \<notin> scratch s \<longrightarrow> k a = kmem (mach s) a"
    unfolding quiet_def by (elim exE conjE)
  then show thesis using that by blast
qed

lemma quietI:
  "(\<And>a. a \<notin> scratch s \<Longrightarrow> k a = kmem (mach s) a) \<Longrightarrow> quiet s (s\<lparr>disk := (disk s)\<lparr>nops := n\<rparr>, mach := (mach s)\<lparr>kmem := k\<rparr>\<rparr>)"
  unfolding quiet_def by blast

lemma quiet_trans: "quiet s s' \<Longrightarrow> quiet s' s'' \<Longrightarrow> quiet s s''"
proof -
  assume a: "quiet s s'" and b: "quiet s' s''"
  from a obtain n k where s': "s' = s\<lparr>disk := (disk s)\<lparr>nops := n\<rparr>, mach := (mach s)\<lparr>kmem := k\<rparr>\<rparr>" and k: "\<And>a. a \<notin> scratch s \<Longrightarrow> k a = kmem (mach s) a"
    by (elim quietE) blast
  from b obtain n' k' where s'': "s'' = s'\<lparr>disk := (disk s')\<lparr>nops := n'\<rparr>, mach := (mach s')\<lparr>kmem := k'\<rparr>\<rparr>" and k': "\<And>a. a \<notin> scratch s' \<Longrightarrow> k' a = kmem (mach s') a"
    by (elim quietE) blast
  have "scratch s' = scratch s" using s' by (simp add: scratch_def)
  then show "quiet s s''" using quietI [of s k' n'] k k' unfolding s'' s' by auto
qed

lemma quiet_simps:
  assumes "quiet s s'"
  shows "sectors (disk s') = sectors (disk s)" "lh_blocks (disk s') = lh_blocks (disk s)" "media (disk s') = media (disk s)"
    "lh_buf (disk s') = lh_buf (disk s)" "sfs_sb s' = sfs_sb s" "sfs_superdirty s' = sfs_superdirty s" "sfs_device s' = sfs_device s"
    "sfs_vnodes s' = sfs_vnodes s" "sfs_freemap s' = sfs_freemap s" "sfs_freemapdirty s' = sfs_freemapdirty s" "svs s' = svs s"
    "biglock s' = biglock s" "memok s' = memok s" "ticks s' = ticks s" "kbuf s' = kbuf s" "iobuf s' = iobuf s" "zeros s' = zeros s"
    "uspace (mach s') = uspace (mach s)" "curas (mach s') = curas (mach s)" "scratch s' = scratch s"
    "a \<notin> scratch s \<Longrightarrow> kmem (mach s') a = kmem (mach s) a"
  using assms by (auto elim!: quietE simp: scratch_def)

lemma bufs_ok_zeros: "bufs_ok s \<Longrightarrow> i < 16 \<Longrightarrow> zeros s + i \<notin> scratch s"
  unfolding bufs_ok_def apart_def scratch_def by auto

lemma quiet_bufs: "quiet s s' \<Longrightarrow> bufs_ok s \<Longrightarrow> bufs_ok s'"
  using quiet_simps [of s s'] bufs_ok_zeros [of s] unfolding bufs_ok_def by simp

lemma quiet_hw: "quiet s s' \<Longrightarrow> hw_ok s \<Longrightarrow> hw_ok s'"
  using quiet_bufs [of s s'] quiet_simps [of s s'] unfolding hw_ok_def by simp

definition set_sector :: "nat \<Rightarrow> byte list \<Rightarrow> sfs \<Rightarrow> sfs" where
  "set_sector b d s = s\<lparr>disk := (disk s)\<lparr>sectors := (sectors (disk s))(b := d)\<rparr>\<rparr>"

lemma set_sector_simps [simp]:
  "sectors (disk (set_sector b d s)) = (sectors (disk s))(b := d)" "lh_blocks (disk (set_sector b d s)) = lh_blocks (disk s)"
  "media (disk (set_sector b d s)) = media (disk s)" "lh_buf (disk (set_sector b d s)) = lh_buf (disk s)"
  "sfs_sb (set_sector b d s) = sfs_sb s" "sfs_superdirty (set_sector b d s) = sfs_superdirty s" "sfs_device (set_sector b d s) = sfs_device s"
  "sfs_vnodes (set_sector b d s) = sfs_vnodes s" "sfs_freemap (set_sector b d s) = sfs_freemap s"
  "sfs_freemapdirty (set_sector b d s) = sfs_freemapdirty s" "svs (set_sector b d s) = svs s" "biglock (set_sector b d s) = biglock s"
  "memok (set_sector b d s) = memok s" "ticks (set_sector b d s) = ticks s" "kbuf (set_sector b d s) = kbuf s"
  "iobuf (set_sector b d s) = iobuf s" "zeros (set_sector b d s) = zeros s" "mach (set_sector b d s) = mach s"
  "scratch (set_sector b d s) = scratch s"
  by (simp_all add: set_sector_def scratch_def)

lemma set_sector_hw: "hw_ok s \<Longrightarrow> length d = 512 \<Longrightarrow> hw_ok (set_sector b d s)"
  by (simp add: hw_ok_def bufs_ok_def)

lemma readblock_wp:
  assumes hw: "hw_ok s" and b: "b < lh_blocks (disk s)" and l: "biglock s > 0"
  shows "wp (sfs_readblock b s) (\<lambda>s' r. quiet s s' \<and> (r = Inl EIO \<or> r = Inr (sectors (disk s) b)))"
proof -
  let ?u = "SFSUIO (kbuf s) b UIO_READ"
  have u: "uio_offset ?u = int b * 512" "uio_resid ?u = 512" "uio_dir ?u = UIO_READ" "uio_segflg ?u = UIO_SYSSPACE" "uio_space ?u = None"
    "uio_iov ?u = [\<lparr>iov_base = kbuf s, iov_len = 512\<rparr>]" by (simp_all add: SFSUIO_def uio_kinit_def SFS_BLOCKSIZE_def)
  let ?d = "sectors (disk s) b" and ?m = "kwrite (lh_buf (disk s)) (sectors (disk s) b) (mach s)"
  let ?m' = "kwrite (kbuf s) ?d ?m"
  have l512: "length ?d = 512" using hw by (simp add: hw_ok_def)
  have mv: "uiomove (lh_buf (disk s)) 512 ?u ?m = Some (uio_advance 512 ?u, ?m', Inr ())"
    using uiomove_kernel [OF u(6,2,4,5)] u(3) by (simp add: kread_kwrite_same [OF l512])
  have m': "s\<lparr>disk := (disk s)\<lparr>nops := n\<rparr>, mach := ?m'\<rparr> = s\<lparr>disk := (disk s)\<lparr>nops := n\<rparr>, mach := (mach s)\<lparr>kmem := kmem ?m'\<rparr>\<rparr>" for n
    by (simp add: kwrite_def)
  have "quiet s (s\<lparr>disk := (disk s)\<lparr>nops := n\<rparr>, mach := ?m'\<rparr>)" for n
    unfolding m' by (rule quietI) (auto simp: kmem_kwrite l512 scratch_def)
  moreover have "quiet s (s\<lparr>disk := (disk s)\<lparr>nops := n\<rparr>\<rparr>)" for n
    using quietI [of s "kmem (mach s)" n] by simp
  moreover obtain n where "sfs_rwblock ?u s = Some ((?u, s\<lparr>disk := (disk s)\<lparr>nops := n\<rparr>\<rparr>), Inl EIO)
      \<or> sfs_rwblock ?u s = Some ((uio_advance 512 ?u, s\<lparr>disk := (disk s)\<lparr>nops := n\<rparr>, mach := ?m'\<rparr>), Inr ())"
    using rwblock_tries_read [OF u(1-3) b _ mv, of 10] hw l by (auto simp: hw_ok_def sfs_rwblock_def)
  ultimately show ?thesis by (auto simp: sfs_readblock_def SFS_BLOCKSIZE_def kread_kwrite_same [OF l512])
qed

lemma writeblock_wp:
  assumes hw: "hw_ok s" and b: "b < lh_blocks (disk s)" and l: "biglock s > 0" and d: "length d = 512"
  shows "wp (sfs_writeblock b d s) (\<lambda>s' r. r = Inr () \<and> quiet (set_sector b d s) s')"
proof -
  let ?s = "s\<lparr>mach := kwrite (kbuf s) d (mach s)\<rparr>"
  let ?u = "SFSUIO (kbuf s) b UIO_WRITE"
  have u: "uio_offset ?u = int b * 512" "uio_resid ?u = 512" "uio_dir ?u = UIO_WRITE" "uio_segflg ?u = UIO_SYSSPACE" "uio_space ?u = None"
    "uio_iov ?u = [\<lparr>iov_base = kbuf s, iov_len = 512\<rparr>]" by (simp_all add: SFSUIO_def uio_kinit_def SFS_BLOCKSIZE_def)
  let ?m' = "kwrite (lh_buf (disk s)) d (mach ?s)"
  have mv: "uiomove (lh_buf (disk ?s)) 512 ?u (mach ?s) = Some (uio_advance 512 ?u, ?m', Inr ())"
    using uiomove_kernel [OF u(6,2,4,5)] u(3) by (simp add: kread_kwrite_same [OF d])
  have "sfs_rwblock ?u ?s = Some ((uio_advance 512 ?u, ?s\<lparr>disk := (disk ?s)\<lparr>nops := nops (disk ?s) + 1,
      sectors := (sectors (disk ?s))(b := kread ?m' (lh_buf (disk ?s)) 512)\<rparr>, mach := ?m'\<rparr>), Inr ())"
    using rwblock_tries_write [OF u(1-3) _ _ mv, of 10] hw l b u(3) by (simp add: hw_ok_def sfs_rwblock_def)
  then have "sfs_writeblock b d s = Some (s\<lparr>disk := (disk s)\<lparr>nops := nops (disk s) + 1, sectors := (sectors (disk s))(b := d)\<rparr>, mach := ?m'\<rparr>, Inr ())"
    using d by (simp add: sfs_writeblock_def SFS_BLOCKSIZE_def kread_kwrite_same [OF d])
  moreover have "quiet (set_sector b d s) (s\<lparr>disk := (disk s)\<lparr>nops := nops (disk s) + 1, sectors := (sectors (disk s))(b := d)\<rparr>, mach := ?m'\<rparr>)"
  proof -
    have e: "s\<lparr>disk := (disk s)\<lparr>nops := nops (disk s) + 1, sectors := (sectors (disk s))(b := d)\<rparr>, mach := ?m'\<rparr>
        = (set_sector b d s)\<lparr>disk := (disk (set_sector b d s))\<lparr>nops := nops (disk s) + 1\<rparr>, mach := (mach (set_sector b d s))\<lparr>kmem := kmem ?m'\<rparr>\<rparr>"
      by (simp add: set_sector_def kwrite_def)
    have "kmem ?m' a = kmem (mach (set_sector b d s)) a" if "a \<notin> scratch (set_sector b d s)" for a
      using that by (auto simp: kmem_kwrite d scratch_def)
    then show ?thesis unfolding e by (rule quietI)
  qed
  ultimately show ?thesis by simp
qed

section \<open>Ownership of blocks\<close>

text \<open>
  A place that can hold a block number: the inode itself, one of its direct entries, its indirect entry, an
  entry of its indirect block. A map \<open>m\<close> gives the block in every place of every inode (0 for none). The
  blocks in \<open>X\<close> are allocated and not yet, or no longer, in any place; \<open>U\<close> are the blocks marked in use, \<open>M\<close> those of
  the volume's own data.
\<close>

datatype place = Self | Direct nat | Ind | Entry nat

definition own :: "('l \<Rightarrow> nat) \<Rightarrow> nat set \<Rightarrow> nat set \<Rightarrow> nat \<Rightarrow> nat set \<Rightarrow> bool" where
  "own m X U nb M \<longleftrightarrow> 0 \<in> M \<and> X \<inter> M = {} \<and> X \<subseteq> {..<nb}
     \<and> (\<forall>l l'. m l \<noteq> 0 \<and> m l = m l' \<longrightarrow> l = l')
     \<and> (\<forall>l. m l \<noteq> 0 \<longrightarrow> m l < nb \<and> m l \<notin> M \<and> m l \<notin> X)
     \<and> (\<forall>b<nb. b \<in> U \<longleftrightarrow> b \<in> M \<or> b \<in> X \<or> (\<exists>l. m l = b))"

lemma ownD:
  assumes "own m X U nb M"
  shows "0 \<in> M" "X \<inter> M = {}" "X \<subseteq> {..<nb}" "m l \<noteq> 0 \<Longrightarrow> m l = m l' \<Longrightarrow> l = l'"
    "m l \<noteq> 0 \<Longrightarrow> m l < nb" "m l \<noteq> 0 \<Longrightarrow> m l \<notin> M" "m l \<noteq> 0 \<Longrightarrow> m l \<notin> X" "m l \<noteq> 0 \<Longrightarrow> m l \<in> U"
    "b < nb \<Longrightarrow> b \<in> U \<longleftrightarrow> b \<in> M \<or> b \<in> X \<or> (\<exists>l. m l = b)"
  using assms unfolding own_def by blast+

lemma own_alloc:
  assumes "own m X U nb M" "b < nb" "b \<notin> U"
  shows "own m (insert b X) (insert b U) nb M"
proof -
  have b: "b \<notin> M" "b \<notin> X" "\<forall>l. m l \<noteq> b" using ownD(9) [OF assms(1,2)] assms(3) by auto
  have "b' \<in> insert b U \<longleftrightarrow> b' \<in> M \<or> b' \<in> insert b X \<or> (\<exists>l. m l = b')" if "b' < nb" for b'
    using ownD(9) [OF assms(1) that] by auto
  moreover have "\<forall>l. m l \<noteq> 0 \<longrightarrow> m l < nb \<and> m l \<notin> M \<and> m l \<notin> insert b X" using ownD(5-7) [OF assms(1)] b(3) by blast
  moreover have "\<forall>l l'. m l \<noteq> 0 \<and> m l = m l' \<longrightarrow> l = l'" using ownD(4) [OF assms(1)] by blast
  moreover have "insert b X \<inter> M = {}" "insert b X \<subseteq> {..<nb}" using ownD(2,3) [OF assms(1)] b(1) assms(2) by auto
  ultimately show ?thesis using ownD(1) [OF assms(1)] unfolding own_def by blast
qed

lemma own_free:
  assumes "own m X U nb M" "b \<in> X"
  shows "own m (X - {b}) (U - {b}) nb M"
proof -
  have n: "m l \<noteq> b" for l
  proof
    assume "m l = b"
    moreover have "b \<noteq> 0" using ownD(1,2) [OF assms(1)] assms(2) by auto
    ultimately show False using ownD(7) [OF assms(1), of l] assms(2) by simp
  qed
  have "b \<notin> M" using ownD(2) [OF assms(1)] assms(2) by blast
  then have "b' \<in> U - {b} \<longleftrightarrow> b' \<in> M \<or> b' \<in> X - {b} \<or> (\<exists>l. m l = b')" if "b' < nb" for b'
    using ownD(9) [OF assms(1) that] n by blast
  moreover have "\<forall>l. m l \<noteq> 0 \<longrightarrow> m l < nb \<and> m l \<notin> M \<and> m l \<notin> X - {b}" using ownD(5-7) [OF assms(1)] by blast
  moreover have "\<forall>l l'. m l \<noteq> 0 \<and> m l = m l' \<longrightarrow> l = l'" using ownD(4) [OF assms(1)] by blast
  moreover have "(X - {b}) \<inter> M = {}" "X - {b} \<subseteq> {..<nb}" using ownD(2,3) [OF assms(1)] by auto
  ultimately show ?thesis using ownD(1) [OF assms(1)] unfolding own_def by blast
qed

lemma own_attach:
  assumes o: "own m X U nb M" and b: "b \<in> X" and l: "m l = 0"
  shows "own (m(l := b)) (X - {b}) U nb M"
proof -
  have b0: "b \<noteq> 0" "b < nb" "b \<notin> M" using ownD(1-3) [OF o] b by auto
  have n: "m l' \<noteq> b" for l' using ownD(7) [OF o, of l'] b b0(1) by metis
  have w: "(\<exists>l'. (m(l := b)) l' = b') \<longleftrightarrow> b' = b \<or> (\<exists>l'. l' \<noteq> l \<and> m l' = b')" for b' by auto
  have "b' \<in> U \<longleftrightarrow> b' \<in> M \<or> b' \<in> X - {b} \<or> (\<exists>l'. (m(l := b)) l' = b')" if "b' < nb" for b'
  proof -
    have "(\<exists>l'. m l' = b') \<longleftrightarrow> b' = 0 \<or> (\<exists>l'. l' \<noteq> l \<and> m l' = b')" using l by metis
    then show ?thesis using ownD(9) [OF o that] ownD(1) [OF o] b unfolding w by auto
  qed
  moreover have "\<forall>l'. (m(l := b)) l' \<noteq> 0 \<longrightarrow> (m(l := b)) l' < nb \<and> (m(l := b)) l' \<notin> M \<and> (m(l := b)) l' \<notin> X - {b}"
    using ownD(5-7) [OF o] b0 by simp
  moreover have "\<forall>k k'. (m(l := b)) k \<noteq> 0 \<and> (m(l := b)) k = (m(l := b)) k' \<longrightarrow> k = k'"
    using ownD(4) [OF o] n by (metis fun_upd_apply)
  moreover have "(X - {b}) \<inter> M = {}" "X - {b} \<subseteq> {..<nb}" using ownD(2,3) [OF o] by auto
  ultimately show ?thesis using ownD(1) [OF o] unfolding own_def by blast
qed

lemma own_detach:
  assumes o: "own m X U nb M" and l: "m l = b" "b \<noteq> 0"
  shows "own (m(l := 0)) (insert b X) U nb M"
proof -
  have b: "b < nb" "b \<notin> M" using ownD(5,6) [OF o, of l] l by auto
  have n: "m l' \<noteq> b" if "l' \<noteq> l" for l' using ownD(4) [OF o, of l l'] l that by auto
  have w: "(\<exists>l'. (m(l := 0)) l' = b') \<longleftrightarrow> b' = 0 \<or> (\<exists>l'. l' \<noteq> l \<and> m l' = b')" for b' by auto
  have "b' \<in> U \<longleftrightarrow> b' \<in> M \<or> b' \<in> insert b X \<or> (\<exists>l'. (m(l := 0)) l' = b')" if "b' < nb" for b'
  proof -
    have "(\<exists>l'. m l' = b') \<longleftrightarrow> b' = b \<or> (\<exists>l'. l' \<noteq> l \<and> m l' = b')" using l(1) by metis
    then show ?thesis using ownD(9) [OF o that] ownD(1) [OF o] unfolding w by auto
  qed
  moreover have "\<forall>l'. (m(l := 0)) l' \<noteq> 0 \<longrightarrow> (m(l := 0)) l' < nb \<and> (m(l := 0)) l' \<notin> M \<and> (m(l := 0)) l' \<notin> insert b X"
    using ownD(5-7) [OF o] n by simp
  moreover have "\<forall>k k'. (m(l := 0)) k \<noteq> 0 \<and> (m(l := 0)) k = (m(l := 0)) k' \<longrightarrow> k = k'"
    using ownD(4) [OF o] by (metis fun_upd_apply)
  moreover have "insert b X \<inter> M = {}" "insert b X \<subseteq> {..<nb}" using ownD(2,3) [OF o] b by auto
  ultimately show ?thesis using ownD(1) [OF o] unfolding own_def by blast
qed

lemma own_cong: "own m X U nb M \<Longrightarrow> (\<And>l. m' l = m l) \<Longrightarrow> own m' X U nb M"
  by (simp add: own_def)

subsection \<open>The places of the inodes of a volume\<close>

fun blk :: "(nat \<Rightarrow> byte list) \<Rightarrow> sfs_dinode \<Rightarrow> place \<Rightarrow> nat" where
  "blk S d Self = 0"
| "blk S d (Direct k) = (if k < 15 then sfi_direct d ! k else 0)"
| "blk S d Ind = sfi_indirect d"
| "blk S d (Entry k) = (if k < 128 \<and> sfi_indirect d \<noteq> 0 then words_of (S (sfi_indirect d)) ! k else 0)"

definition occ :: "(nat \<Rightarrow> byte list) \<Rightarrow> (nat \<Rightarrow> sfs_dinode) \<Rightarrow> nat set \<Rightarrow> nat \<times> place \<Rightarrow> nat" where
  "occ S C I l = (case l of (i, p) \<Rightarrow> if i \<in> I then if p = Self then i else blk S (C i) p else 0)"

lemma occ_simps [simp]:
  "i \<in> I \<Longrightarrow> occ S C I (i, Self) = i" "i \<in> I \<Longrightarrow> p \<noteq> Self \<Longrightarrow> occ S C I (i, p) = blk S (C i) p" "i \<notin> I \<Longrightarrow> occ S C I (i, p) = 0"
  by (simp_all add: occ_def)

text \<open>Only indirect blocks have a say in where blocks are.\<close>

lemma blk_cong: "S' (sfi_indirect d) = S (sfi_indirect d) \<Longrightarrow> blk S' d p = blk S d p"
  by (cases p) auto

lemma occ_cong:
  assumes "\<And>i. i \<in> I \<Longrightarrow> S' (sfi_indirect (C i)) = S (sfi_indirect (C i))"
  shows "occ S' C I = occ S C I"
  by (rule ext) (auto simp: occ_def intro!: blk_cong assms split: prod.split)

lemma blk_write: "sfi_indirect d = 0 \<or> sfi_indirect d \<noteq> b \<Longrightarrow> blk (S(b := x)) d p = blk S d p"
  by (cases p) auto

lemma occ_write:
  assumes "\<And>i. i \<in> I \<Longrightarrow> sfi_indirect (C i) = 0 \<or> sfi_indirect (C i) \<noteq> b"
  shows "occ (S(b := x)) C I = occ S C I"
  by (rule ext) (auto simp: occ_def intro!: blk_write assms split: prod.split)

lemma own_not_ind:
  assumes "own (occ S C I) X U nb M" "b \<in> X \<or> (\<exists>j p. occ S C I (j, p) = b \<and> p \<noteq> Ind) \<or> b \<in> M" "i \<in> I"
  shows "sfi_indirect (C i) = 0 \<or> sfi_indirect (C i) \<noteq> b"
proof (rule ccontr)
  assume "\<not> ?thesis"
  then have z: "occ S C I (i, Ind) \<noteq> 0" and e: "occ S C I (i, Ind) = b" using assms(3) by auto
  from assms(2) show False using ownD(4,6,7) [OF assms(1) z] e by blast
qed

lemma occ_set_direct:
  assumes "i \<in> I" "k < 15" "length (sfi_direct (C i)) = 15"
  shows "occ S (C(i := (C i)\<lparr>sfi_direct := (sfi_direct (C i))[k := b]\<rparr>)) I = (occ S C I)((i, Direct k) := b)"
proof
  fix l :: "nat \<times> place"
  obtain j p where l: "l = (j, p)" by (cases l)
  show "occ S (C(i := (C i)\<lparr>sfi_direct := (sfi_direct (C i))[k := b]\<rparr>)) I l = ((occ S C I)((i, Direct k) := b)) l"
    unfolding l using assms by (cases p) (auto simp: occ_def nth_list_update)
qed

lemma occ_set_ind:
  assumes "i \<in> I" "sfi_indirect (C i) = 0" "\<forall>w\<in>set (words_of (S b)). w = 0" "length (S b) = 512"
  shows "occ S (C(i := (C i)\<lparr>sfi_indirect := b\<rparr>)) I = (occ S C I)((i, Ind) := b)"
proof
  fix l :: "nat \<times> place"
  obtain j p where l: "l = (j, p)" by (cases l)
  have z: "words_of (S b) ! k = 0" if "k < 128" for k using assms(3,4) that by simp
  show "occ S (C(i := (C i)\<lparr>sfi_indirect := b\<rparr>)) I l = ((occ S C I)((i, Ind) := b)) l"
    unfolding l using assms(1,2) z by (cases p) (auto simp: occ_def)
qed

text \<open>The entries of the indirect block of \<open>i\<close> replaced by a list.\<close>

definition with_entries :: "(nat \<times> place \<Rightarrow> nat) \<Rightarrow> nat \<Rightarrow> nat list \<Rightarrow> nat \<times> place \<Rightarrow> nat" where
  "with_entries m i ws l = (case l of (j, Entry k) \<Rightarrow> if j = i then if k < 128 then ws ! k else 0 else m l | _ \<Rightarrow> m l)"

lemma with_entries_self:
  assumes "i \<in> I" "sfi_indirect (C i) \<noteq> 0"
  shows "with_entries (occ S C I) i (words_of (S (sfi_indirect (C i)))) = occ S C I"
  by (rule ext) (use assms in \<open>auto simp: with_entries_def occ_def split: prod.split place.split\<close>)

lemma with_entries_update:
  assumes "k < 128" "length ws = 128"
  shows "with_entries m i (ws[k := b]) = (with_entries m i ws)((i, Entry k) := b)"
  by (rule ext) (use assms in \<open>auto simp: with_entries_def nth_list_update split: prod.split place.split\<close>)

lemma with_entries_simps [simp]:
  "with_entries m i ws (j, Self) = m (j, Self)" "with_entries m i ws (j, Direct k) = m (j, Direct k)" "with_entries m i ws (j, Ind) = m (j, Ind)"
  "j \<noteq> i \<Longrightarrow> with_entries m i ws (j, p) = m (j, p)" "with_entries m i ws (i, Entry k) = (if k < 128 then ws ! k else 0)"
  by (simp_all add: with_entries_def split: place.split)

lemma occ_write_ind:
  assumes "own (with_entries (occ S C I) i us) X U nb M" "i \<in> I" "sfi_indirect (C i) = b" "b \<noteq> 0" "words_of x = ws"
  shows "occ (S(b := x)) C I = with_entries (occ S C I) i ws"
proof
  fix l :: "nat \<times> place"
  obtain j p where l: "l = (j, p)" by (cases l)
  have n: "sfi_indirect (C j) \<noteq> b" if "j \<in> I" "j \<noteq> i" for j
  proof
    assume e: "sfi_indirect (C j) = b"
    have "(j, Ind) = (i, Ind)" by (rule ownD(4) [OF assms(1)]) (use e assms(2-4) that in simp_all)
    then show False using that by simp
  qed
  show "occ (S(b := x)) C I l = with_entries (occ S C I) i ws l"
    unfolding l using assms(2-5) n by (cases p) (auto simp: occ_def with_entries_def)
qed

text \<open>Forgetting the indirect block, whatever it holds.\<close>

lemma occ_drop_ind:
  assumes "i \<in> I" "sfi_indirect (C i) \<noteq> 0" "\<forall>k<128. ws ! k = 0"
  shows "occ S (C(i := (C i)\<lparr>sfi_indirect := 0\<rparr>)) I = (with_entries (occ S C I) i ws)((i, Ind) := 0)"
proof
  fix l :: "nat \<times> place"
  obtain j p where l: "l = (j, p)" by (cases l)
  show "occ S (C(i := (C i)\<lparr>sfi_indirect := 0\<rparr>)) I l = ((with_entries (occ S C I) i ws)((i, Ind) := 0)) l"
    unfolding l using assms by (cases p) (auto simp: occ_def with_entries_def)
qed

end
