(* ===== verification/Sfs_Errors.thy ===== *)
theory Sfs_Errors
  imports Sfs_Map
begin

text \<open>
  Two failures of SFS that the model shows: a write that meets a media error is reported as a success, and
  mounting a volume that is not SFS stops the machine.
\<close>

lemma lhd_io_write_media:
  assumes "uio_offset u = int b * 512" "uio_resid u = 512" "uio_dir u = UIO_WRITE" "b < lh_blocks (disk s)" "lh_blocks (disk s) < 2 ^ 32"
    and "uiomove (lh_buf (disk s)) 512 u (mach s) = Some (u', m', Inr ())" "uio_dir u' = UIO_WRITE" "media (disk s) UIO_WRITE (nops (disk s))"
  shows "lhd_io u s = Some ((u', s\<lparr>disk := (disk s)\<lparr>nops := nops (disk s) + 1\<rparr>, mach := m'\<rparr>), Inl EIO)"
  using assms(3,4,6-8) unfolding lhd_io_one [OF assms(1,2,4,5)]
  by (simp add: lhd_operate_def lhd_irq_def lhd_code_to_errno_def LHD_SECTSIZE_def Let_def)

text \<open>A \<^verbatim>\<open>uio\<close> that has been used up is no work for the driver.\<close>

lemma lhd_io_empty:
  assumes "uio_offset u = int b * 512" "uio_resid u = 0" "b \<le> lh_blocks (disk s)" "lh_blocks (disk s) < 2 ^ 32"
  shows "lhd_io u s = Some ((u, s), Inr ())"
proof -
  have b: "b < 2 ^ 32" using assms(3,4) by linarith
  then have "int b mod 2 ^ 32 = int b" by (intro mod_pos_pos_trivial) auto
  moreover have "u32 b = b" using b by simp
  ultimately show ?thesis using assms by (simp add: lhd_io_def LHD_SECTSIZE_def Let_def)
qed

lemma rwblock_retry: "lhd_io u s = Some ((u', s'), Inl EIO) \<Longrightarrow> rwblock_tries (Suc n) u s = rwblock_tries n u' s'"
  by (subst rwblock_tries.simps) simp

lemma rwblock_done: "lhd_io u s = Some ((u', s'), Inr ()) \<Longrightarrow> rwblock_tries n u s = Some ((u', s'), Inr ())"
  by (subst rwblock_tries.simps) simp

text \<open>
  C37. A write that meets a media error is lost and reported as a success. \<^verbatim>\<open>sfs_rwblock\<close> retries after \<^verbatim>\<open>EIO\<close> with
  the same \<^verbatim>\<open>uio\<close>, but \<^verbatim>\<open>lhd_io\<close> has already moved the data out of it: the second attempt finds nothing to
  do and returns 0. The disk is unchanged, and the caller is told that the block has been written.
\<close>

theorem sfs_write_error_lost:
  assumes "biglock s > 0" "b < lh_blocks (disk s)" "lh_blocks (disk s) < 2 ^ 32" "length d = 512" "media (disk s) UIO_WRITE (nops (disk s))"
  shows "\<exists>s'. sfs_writeblock b d s = Some (s', Inr ()) \<and> sectors (disk s') = sectors (disk s)"
proof -
  let ?s = "s\<lparr>mach := kwrite (kbuf s) d (mach s)\<rparr>" and ?u = "SFSUIO (kbuf s) b UIO_WRITE"
  have u: "uio_offset ?u = int b * 512" "uio_resid ?u = 512" "uio_dir ?u = UIO_WRITE" "uio_segflg ?u = UIO_SYSSPACE" "uio_space ?u = None"
    "uio_iov ?u = [\<lparr>iov_base = kbuf s, iov_len = 512\<rparr>]" by (simp_all add: SFSUIO_def uio_kinit_def SFS_BLOCKSIZE_def)
  let ?v = "uio_advance 512 ?u"
  obtain m' where mv: "uiomove (lh_buf (disk ?s)) 512 ?u (mach ?s) = Some (?v, m', Inr ())"
    using uiomove_kernel [OF u(6,2,4,5)] u(3) by simp
  let ?s' = "?s\<lparr>disk := (disk ?s)\<lparr>nops := nops (disk ?s) + 1\<rparr>, mach := m'\<rparr>"
  have v: "uio_offset ?v = int (b + 1) * 512" "uio_resid ?v = 0" using u(1,2) by (simp_all add: uio_advance_def)
  have "lhd_io ?u ?s = Some ((?v, ?s'), Inl EIO)"
    by (rule lhd_io_write_media [OF u(1-3) _ _ mv]) (use assms u(3) in simp_all)
  moreover have "lhd_io ?v ?s' = Some ((?v, ?s'), Inr ())"
    by (rule lhd_io_empty [OF v]) (use assms in simp_all)
  ultimately have "rwblock_tries (Suc 9) ?u ?s = Some ((?v, ?s'), Inr ())"
    using rwblock_retry rwblock_done by metis
  then have "sfs_writeblock b d s = Some (?s', Inr ())"
    using assms(1,4) by (simp add: sfs_writeblock_def sfs_rwblock_def SFS_BLOCKSIZE_def)
  then show ?thesis by simp
qed

text \<open>A small volume in memory, for witnesses: a disk of \<open>n\<close> blocks with given contents, mounted or about to be.\<close>

definition blank_sfs :: "(nat \<Rightarrow> byte list) \<Rightarrow> (uio_rw \<Rightarrow> nat \<Rightarrow> bool) \<Rightarrow> sfs" where
  "blank_sfs S bad =
     \<lparr>disk = \<lparr>lh_blocks = 64, sectors = S, media = bad, nops = 0, lh_buf = 0x9000\<rparr>,
      sfs_sb = \<lparr>sb_magic = SFS_MAGIC, sb_nblocks = 64, sb_volname = replicate 32 0, sb_reserved = replicate 472 0\<rparr>,
      sfs_superdirty = False, sfs_device = True, sfs_vnodes = [], sfs_freemap = \<lparr>bm_nbits = 0, bm_v = []\<rparr>, sfs_freemapdirty = False,
      svs = (\<lambda>_. \<lparr>sv_i = dinode_of (replicate 512 0), sv_ino = 0, sv_dirty = False, vn_refcount = 0, vn_ops = No_ops\<rparr>),
      biglock = 0, mach = \<lparr>kmem = (\<lambda>_. 0), uspace = \<lparr>um = (\<lambda>a. if a < 4096 then Some 0 else None), uw = (\<lambda>_. True), badfault = False\<rparr>, curas = Some 1\<rparr>,
      memok = (\<lambda>_. True), ticks = 0, kbuf = 0xa000, iobuf = 0xb000, zeros = 0xc000\<rparr>"

theorem sfs_write_error_lost_witness:
  "\<exists>s'. sfs_writeblock 7 (replicate 512 1) ((blank_sfs (\<lambda>_. replicate 512 0) (\<lambda>rw n. n = 0))\<lparr>biglock := 1\<rparr>) = Some (s', Inr ())
     \<and> sectors (disk s') 7 = replicate 512 0"
proof -
  let ?s = "(blank_sfs (\<lambda>_. replicate 512 0) (\<lambda>rw n. n = 0))\<lparr>biglock := 1\<rparr>"
  have "\<exists>s'. sfs_writeblock 7 (replicate 512 1) ?s = Some (s', Inr ()) \<and> sectors (disk s') = sectors (disk ?s)"
    by (rule sfs_write_error_lost) (simp_all add: blank_sfs_def)
  then show ?thesis by (auto simp: blank_sfs_def)
qed

text \<open>
  C38. Mounting a disk that does not hold an SFS volume stops the machine instead of returning \<^verbatim>\<open>EINVAL\<close>:
  \<^verbatim>\<open>sfs_domount\<close> has set \<^verbatim>\<open>sfs_device\<close> when it finds the wrong magic number, and \<^verbatim>\<open>sfs_fs_destroy\<close> asserts that it
  is null.
\<close>

theorem sfs_mount_bad_magic_panics:
  assumes "hw_ok s" "0 < lh_blocks (disk s)" "memok s (ticks s)" "memok s (ticks s + 1)"
    and "sb_magic (superblock_of (sectors (disk s) 0)) \<noteq> SFS_MAGIC"
  shows "sfs_domount SFS_BLOCKSIZE s = None"
proof -
  let ?s = "s\<lparr>biglock := biglock s + 1, ticks := ticks s + 2, sfs_superdirty := False, sfs_vnodes := [], sfs_freemapdirty := False, sfs_device := True\<rparr>"
  have hw: "hw_ok ?s" using assms(1) by (simp add: hw_ok_def bufs_ok_def)
  obtain s' r where s': "sfs_readblock 0 ?s = Some (s', r)" "quiet ?s s'" "r = Inl EIO \<or> r = Inr (sectors (disk s) 0)"
    using readblock_wp [OF hw, of 0] assms(2) by (auto elim!: wpE)
  have "sfs_fs_create (vfs_biglock_acquire s) = (?s\<lparr>sfs_device := False\<rparr>, True)"
    using assms(3,4) by (simp add: sfs_fs_create_def request_memory_def vfs_biglock_acquire_def)
  moreover have "sfs_device s'" using quiet_simps(7) [OF s'(2)] by simp
  ultimately show ?thesis using s'(1,3) assms(5)
    by (auto simp: sfs_domount_def locked_def SFS_SUPER_BLOCK_def mount_fails_def sfs_fs_destroy_def Let_def)
qed

theorem sfs_mount_bad_magic_panics_witness:
  "sfs_domount SFS_BLOCKSIZE (blank_sfs (\<lambda>_. replicate 512 0) (\<lambda>_ _. False)) = None"
proof (rule sfs_mount_bad_magic_panics)
  show "hw_ok (blank_sfs (\<lambda>_. replicate 512 0) (\<lambda>_ _. False))" by (simp add: blank_sfs_def hw_ok_def bufs_ok_def apart_def)
qed (simp_all add: blank_sfs_def superblock_of_def get32_def SFS_MAGIC_def)

end
