(* ===== verification/Sfs_Struct.thy ===== *)
theory Sfs_Struct
  imports Sfs_Map
begin

text \<open>
  The invariant of a mounted volume, \<open>vol_inv\<close>, and what the operations on blocks do to it and to the files. A
  file is seen as its type, link count, size and contents (\<open>file_at\<close>), where a block that is not there reads as
  zeros.
\<close>

section \<open>The current inodes\<close>

abbreviation sect :: "sfs \<Rightarrow> nat \<Rightarrow> byte list" where
  "sect s \<equiv> sectors (disk s)"

abbreviation ino_of :: "sfs \<Rightarrow> nat \<Rightarrow> nat" where
  "ino_of s v \<equiv> sv_ino (svs s v)"

definition loaded :: "sfs \<Rightarrow> nat set" where
  "loaded s = ino_of s ` set (sfs_vnodes s)"

definition cur :: "sfs \<Rightarrow> nat \<Rightarrow> sfs_dinode" where
  "cur s i = (case find (\<lambda>v. ino_of s v = i) (sfs_vnodes s) of Some v \<Rightarrow> sv_i (svs s v) | None \<Rightarrow> dinode_of (sect s i))"

definition vnode_ok :: "sfs \<Rightarrow> nat \<Rightarrow> bool" where
  "vnode_ok s v \<longleftrightarrow> v < ticks s \<and> 0 < vn_refcount (svs s v) \<and> vnode_ops_of (sfi_type (sv_i (svs s v))) = Some (vn_ops (svs s v))
     \<and> (sv_dirty (svs s v) \<or> dinode_of (sect s (ino_of s v)) = sv_i (svs s v))"

definition vtab_ok :: "sfs \<Rightarrow> bool" where
  "vtab_ok s \<longleftrightarrow> distinct (sfs_vnodes s) \<and> inj_on (ino_of s) (set (sfs_vnodes s)) \<and> (\<forall>v\<in>set (sfs_vnodes s). vnode_ok s v)"

lemma vtab_okD:
  assumes "vtab_ok s"
  shows "distinct (sfs_vnodes s)" "inj_on (ino_of s) (set (sfs_vnodes s))" "v \<in> set (sfs_vnodes s) \<Longrightarrow> vnode_ok s v"
  using assms by (auto simp: vtab_ok_def)

lemma cur_unloaded: "i \<notin> loaded s \<Longrightarrow> cur s i = dinode_of (sect s i)"
proof -
  assume "i \<notin> loaded s"
  then have "find (\<lambda>v. ino_of s v = i) (sfs_vnodes s) = None" by (auto simp: find_None_iff loaded_def)
  then show ?thesis by (simp add: cur_def)
qed

lemma find_ino:
  assumes "inj_on (ino_of s) (set (sfs_vnodes s))" "v \<in> set (sfs_vnodes s)"
  shows "find (\<lambda>w. ino_of s w = ino_of s v) (sfs_vnodes s) = Some v"
proof -
  have "find (\<lambda>w. ino_of s w = ino_of s v) (sfs_vnodes s) \<noteq> None" using assms(2) by (auto simp: find_None_iff)
  then obtain w where w: "find (\<lambda>w. ino_of s w = ino_of s v) (sfs_vnodes s) = Some w" by blast
  then have "w \<in> set (sfs_vnodes s)" "ino_of s w = ino_of s v" by (auto simp: find_Some_iff)
  then have "w = v" using assms by (auto dest: inj_onD)
  then show ?thesis using w by simp
qed

lemma cur_loaded: "vtab_ok s \<Longrightarrow> v \<in> set (sfs_vnodes s) \<Longrightarrow> cur s (ino_of s v) = sv_i (svs s v)"
  using find_ino [of s v] by (simp add: cur_def vtab_ok_def)

lemma set_dinode_simps [simp]:
  "disk (set_dinode v f s) = disk s" "sfs_sb (set_dinode v f s) = sfs_sb s" "sfs_superdirty (set_dinode v f s) = sfs_superdirty s"
  "sfs_device (set_dinode v f s) = sfs_device s" "sfs_vnodes (set_dinode v f s) = sfs_vnodes s" "sfs_freemap (set_dinode v f s) = sfs_freemap s"
  "sfs_freemapdirty (set_dinode v f s) = sfs_freemapdirty s" "biglock (set_dinode v f s) = biglock s" "mach (set_dinode v f s) = mach s"
  "memok (set_dinode v f s) = memok s" "ticks (set_dinode v f s) = ticks s" "kbuf (set_dinode v f s) = kbuf s"
  "iobuf (set_dinode v f s) = iobuf s" "zeros (set_dinode v f s) = zeros s" "scratch (set_dinode v f s) = scratch s"
  "ino_of (set_dinode v f s) w = ino_of s w" "vn_refcount (svs (set_dinode v f s) w) = vn_refcount (svs s w)"
  "vn_ops (svs (set_dinode v f s) w) = vn_ops (svs s w)"
  "sv_i (svs (set_dinode v f s) w) = (if w = v then f (sv_i (svs s v)) else sv_i (svs s w))"
  "sv_dirty (svs (set_dinode v f s) w) = (if w = v then True else sv_dirty (svs s w))"
  by (simp_all add: set_dinode_def scratch_def)

lemma loaded_set_dinode [simp]: "loaded (set_dinode v f s) = loaded s"
  by (simp add: loaded_def)

lemma cur_set_dinode:
  assumes "vtab_ok s" "v \<in> set (sfs_vnodes s)"
  shows "cur (set_dinode v f s) = (cur s)(ino_of s v := f (cur s (ino_of s v)))"
proof
  fix i
  show "cur (set_dinode v f s) i = ((cur s)(ino_of s v := f (cur s (ino_of s v)))) i"
  proof (cases "i = ino_of s v")
    case True
    have "find (\<lambda>w. ino_of (set_dinode v f s) w = i) (sfs_vnodes (set_dinode v f s)) = Some v"
      using find_ino [OF vtab_okD(2) [OF assms(1)] assms(2)] by (simp add: True)
    then show ?thesis using True cur_loaded [OF assms] by (simp add: cur_def)
  next
    case False
    have "w \<noteq> v" if "find (\<lambda>w. ino_of s w = i) (sfs_vnodes s) = Some w" for w
      using that False by (auto simp: find_Some_iff)
    then show ?thesis using False by (auto simp: cur_def split: option.split)
  qed
qed

lemma loaded_set_sector [simp]: "loaded (set_sector b d s) = loaded s"
  by (simp add: loaded_def)

lemma cur_set_sector: "i \<noteq> b \<or> i \<in> loaded s \<Longrightarrow> cur (set_sector b d s) i = cur s i"
proof -
  assume a: "i \<noteq> b \<or> i \<in> loaded s"
  have "i \<in> loaded s" if "find (\<lambda>v. ino_of s v = i) (sfs_vnodes s) = Some v" for v
    using that by (auto simp: find_Some_iff loaded_def)
  moreover have "i \<notin> loaded s" if "find (\<lambda>v. ino_of s v = i) (sfs_vnodes s) = None"
    using that by (auto simp: find_None_iff loaded_def)
  ultimately show ?thesis using a by (auto simp: cur_def split: option.split)
qed

section \<open>The invariant\<close>

definition meta :: "nat \<Rightarrow> nat set" where
  "meta nblocks = insert 0 {SFS_FREEMAP_START..<SFS_FREEMAP_START + SFS_FREEMAPBLOCKS nblocks}"

abbreviation nblks :: "sfs \<Rightarrow> nat" where
  "nblks s \<equiv> sb_nblocks (sfs_sb s)"

abbreviation places :: "nat set \<Rightarrow> sfs \<Rightarrow> nat \<times> place \<Rightarrow> nat" where
  "places I s \<equiv> occ (sect s) (cur s) I"

text \<open>The freemap covers the volume, and what it has beyond the volume is marked in use. A volume has at most \<open>2 ^ 23\<close> blocks.\<close>

definition freemap_ok :: "sfs \<Rightarrow> bool" where
  "freemap_ok s \<longleftrightarrow> bitmap_ok (sfs_freemap s) \<and> bm_nbits (sfs_freemap s) = SFS_FREEMAPBITS (nblks s) \<and> nblks s \<le> bm_nbits (sfs_freemap s)
     \<and> {nblks s..<bm_nbits (sfs_freemap s)} \<subseteq> bitmap_used (sfs_freemap s) \<and> nblks s \<le> lh_blocks (disk s) \<and> nblks s \<le> 2 ^ 23"

definition vol_base :: "nat set \<Rightarrow> sfs \<Rightarrow> bool" where
  "vol_base I s \<longleftrightarrow> hw_ok s \<and> freemap_ok s \<and> vtab_ok s \<and> loaded s \<subseteq> I \<and> 0 \<notin> I \<and> (\<forall>i\<in>I. dinode_ok (cur s i))"

abbreviation owned :: "(nat \<times> place \<Rightarrow> nat) \<Rightarrow> nat set \<Rightarrow> sfs \<Rightarrow> bool" where
  "owned m X s \<equiv> own m X (bitmap_used (sfs_freemap s)) (nblks s) (meta (nblks s))"

definition vol_inv :: "nat set \<Rightarrow> nat set \<Rightarrow> sfs \<Rightarrow> bool" where
  "vol_inv I X s \<longleftrightarrow> vol_base I s \<and> owned (places I s) X s"

lemma vol_baseD:
  assumes "vol_base I s"
  shows "hw_ok s" "freemap_ok s" "vtab_ok s" "loaded s \<subseteq> I" "0 \<notin> I" "i \<in> I \<Longrightarrow> dinode_ok (cur s i)"
  using assms by (auto simp: vol_base_def)

lemma vol_invD:
  assumes "vol_inv I X s"
  shows "hw_ok s" "freemap_ok s" "vtab_ok s" "loaded s \<subseteq> I" "0 \<notin> I" "i \<in> I \<Longrightarrow> dinode_ok (cur s i)"
    "owned (places I s) X s" "vol_base I s"
  using assms by (auto simp: vol_inv_def vol_base_def)

lemma freemap_okD:
  assumes "freemap_ok s"
  shows "bitmap_ok (sfs_freemap s)" "bm_nbits (sfs_freemap s) = SFS_FREEMAPBITS (nblks s)" "nblks s \<le> bm_nbits (sfs_freemap s)"
    "{nblks s..<bm_nbits (sfs_freemap s)} \<subseteq> bitmap_used (sfs_freemap s)" "nblks s \<le> lh_blocks (disk s)" "nblks s \<le> 2 ^ 23"
  using assms by (auto simp: freemap_ok_def)

lemma ino_bound:
  assumes "vol_inv I X s" "i \<in> I"
  shows "i < nblks s" "i \<noteq> 0" "i \<notin> X" "i \<notin> meta (nblks s)" "i \<in> bitmap_used (sfs_freemap s)"
proof -
  show z: "i \<noteq> 0" using vol_invD(5) [OF assms(1)] assms(2) by metis
  then show "i < nblks s" "i \<notin> X" "i \<notin> meta (nblks s)" "i \<in> bitmap_used (sfs_freemap s)"
    using ownD(5-8) [OF vol_invD(7) [OF assms(1)], of "(i, Self)"] assms(2) by auto
qed

lemma vnode_in: "vol_inv I X s \<Longrightarrow> v \<in> set (sfs_vnodes s) \<Longrightarrow> ino_of s v \<in> I"
  using vol_invD(4) [of I X s] by (auto simp: loaded_def)

lemma vnode_cur: "vol_inv I X s \<Longrightarrow> v \<in> set (sfs_vnodes s) \<Longrightarrow> sv_i (svs s v) = cur s (ino_of s v)"
  using cur_loaded [OF vol_invD(3)] by simp

text \<open>Files.\<close>

definition fblk :: "(nat \<Rightarrow> byte list) \<Rightarrow> sfs_dinode \<Rightarrow> nat \<Rightarrow> nat" where
  "fblk S d k = (if k < 15 then blk S d (Direct k) else blk S d (Entry (k - 15)))"

definition contents :: "(nat \<Rightarrow> byte list) \<Rightarrow> sfs_dinode \<Rightarrow> nat \<Rightarrow> byte" where
  "contents S d off = (let b = fblk S d (off div 512) in if b = 0 then 0 else S b ! (off mod 512))"

record afile =
  f_type :: nat
  f_links :: nat
  f_size :: nat
  f_data :: "nat \<Rightarrow> byte"

definition file_of :: "(nat \<Rightarrow> byte list) \<Rightarrow> sfs_dinode \<Rightarrow> afile" where
  "file_of S d = \<lparr>f_type = sfi_type d, f_links = sfi_linkcount d, f_size = sfi_size d, f_data = contents S d\<rparr>"

abbreviation file_at :: "sfs \<Rightarrow> nat \<Rightarrow> afile" where
  "file_at s i \<equiv> file_of (sect s) (cur s i)"

lemma file_eqI:
  "sfi_type d' = sfi_type d \<Longrightarrow> sfi_linkcount d' = sfi_linkcount d \<Longrightarrow> sfi_size d' = sfi_size d \<Longrightarrow>
   (\<And>off. contents S' d' off = contents S d off) \<Longrightarrow> file_of S' d' = file_of S d"
  by (simp add: file_of_def fun_eq_iff)

text \<open>The place of a block of a file.\<close>

definition place_of :: "nat \<Rightarrow> place" where
  "place_of k = (if k < 15 then Direct k else Entry (k - 15))"

lemma fblk_place: "fblk S d k = blk S d (place_of k)"
  by (simp add: fblk_def place_of_def)

lemma place_of_simps [simp]: "place_of k \<noteq> Self" "place_of k \<noteq> Ind" "place_of k = place_of k' \<longleftrightarrow> k = k'"
  by (auto simp: place_of_def split: if_splits)

lemma fblk_occ: "i \<in> I \<Longrightarrow> fblk S (C i) k = occ S C I (i, place_of k)"
  by (simp add: fblk_place)

text \<open>The blocks of the volume itself stay, and the freemap stays or is marked as changed.\<close>

definition meta_kept :: "sfs \<Rightarrow> sfs \<Rightarrow> bool" where
  "meta_kept s s' \<longleftrightarrow> (\<forall>b\<in>meta (nblks s). sect s' b = sect s b) \<and> (sfs_freemapdirty s' \<or> \<not> sfs_freemapdirty s \<and> sfs_freemap s' = sfs_freemap s)"

lemma meta_kept_refl [simp]: "meta_kept s s"
  by (auto simp: meta_kept_def)

lemma meta_kept_trans: "meta_kept s s' \<Longrightarrow> meta_kept s' s'' \<Longrightarrow> sfs_sb s' = sfs_sb s \<Longrightarrow> meta_kept s s''"
  by (auto simp: meta_kept_def)

text \<open>What stays while blocks are moved about: all but the contents of the disk, the freemap, the inodes and the buffers.\<close>

definition calm :: "sfs \<Rightarrow> sfs \<Rightarrow> bool" where
  "calm s s' \<longleftrightarrow> lh_blocks (disk s') = lh_blocks (disk s) \<and> media (disk s') = media (disk s) \<and> lh_buf (disk s') = lh_buf (disk s)
     \<and> sfs_sb s' = sfs_sb s \<and> sfs_superdirty s' = sfs_superdirty s \<and> sfs_device s' = sfs_device s \<and> sfs_vnodes s' = sfs_vnodes s
     \<and> biglock s' = biglock s \<and> memok s' = memok s \<and> ticks s' = ticks s \<and> kbuf s' = kbuf s \<and> iobuf s' = iobuf s \<and> zeros s' = zeros s
     \<and> uspace (mach s') = uspace (mach s) \<and> curas (mach s') = curas (mach s)
     \<and> (\<forall>a. a \<notin> scratch s \<longrightarrow> kmem (mach s') a = kmem (mach s) a)
     \<and> (\<forall>v. ino_of s' v = ino_of s v \<and> vn_refcount (svs s' v) = vn_refcount (svs s v) \<and> vn_ops (svs s' v) = vn_ops (svs s v)) \<and> meta_kept s s'"

lemma calm_refl [simp]: "calm s s"
  by (simp add: calm_def)

lemma calmD:
  assumes "calm s s'"
  shows "lh_blocks (disk s') = lh_blocks (disk s)" "media (disk s') = media (disk s)" "lh_buf (disk s') = lh_buf (disk s)"
    "sfs_sb s' = sfs_sb s" "sfs_superdirty s' = sfs_superdirty s" "sfs_device s' = sfs_device s" "sfs_vnodes s' = sfs_vnodes s"
    "biglock s' = biglock s" "memok s' = memok s" "ticks s' = ticks s" "kbuf s' = kbuf s" "iobuf s' = iobuf s" "zeros s' = zeros s"
    "uspace (mach s') = uspace (mach s)" "curas (mach s') = curas (mach s)" "ino_of s' v = ino_of s v"
    "vn_refcount (svs s' v) = vn_refcount (svs s v)" "vn_ops (svs s' v) = vn_ops (svs s v)" "scratch s' = scratch s"
    "a \<notin> scratch s \<Longrightarrow> kmem (mach s') a = kmem (mach s) a" "loaded s' = loaded s" "meta_kept s s'"
  using assms by (simp_all add: calm_def scratch_def loaded_def)

lemma calm_trans:
  assumes "calm s s'" "calm s' s''"
  shows "calm s s''"
proof -
  have "\<forall>a. a \<notin> scratch s \<longrightarrow> kmem (mach s'') a = kmem (mach s) a"
    using calmD(19,20) [OF assms(1)] calmD(20) [OF assms(2)] by simp
  moreover have "meta_kept s s''" using meta_kept_trans [OF calmD(22) [OF assms(1)] calmD(22) [OF assms(2)] calmD(4) [OF assms(1)]] .
  ultimately show ?thesis unfolding calm_def by (simp only: calmD(1-18) [OF assms(2)] calmD(1-18) [OF assms(1)] simp_thms)
qed

lemma quiet_calm: "quiet s s' \<Longrightarrow> calm s s'"
  unfolding calm_def meta_kept_def by (auto simp: quiet_simps)

lemma calm_set_sector: "b \<notin> meta (nblks s) \<Longrightarrow> calm s (set_sector b d s)"
  by (auto simp: calm_def meta_kept_def)

lemma quiet_cur: "quiet s s' \<Longrightarrow> cur s' = cur s"
  by (rule ext) (simp add: cur_def quiet_simps split: option.split)

lemma quiet_loaded: "quiet s s' \<Longrightarrow> loaded s' = loaded s"
  using quiet_simps [of s s'] by (simp add: loaded_def)

lemma vol_inv_quiet:
  assumes "quiet s s'" "vol_inv I X s"
  shows "vol_inv I X s'"
proof -
  have "freemap_ok s' = freemap_ok s" "vtab_ok s' = vtab_ok s"
    unfolding freemap_ok_def vtab_ok_def vnode_ok_def by (simp_all only: quiet_simps [OF assms(1)])
  then show ?thesis using assms(2) quiet_hw [OF assms(1)]
    unfolding vol_inv_def vol_base_def by (simp only: quiet_simps [OF assms(1)] quiet_cur [OF assms(1)] quiet_loaded [OF assms(1)]) blast
qed

section \<open>Writing a block\<close>

lemma occ_inodes_cong: "(\<And>i. i \<in> I \<Longrightarrow> C' i = C i) \<Longrightarrow> occ S C' I = occ S C I"
  by (rule ext) (auto simp: occ_def split: prod.split)

text \<open>A block that holds no inode and no block numbers: a block in \<open>X\<close>, or a data block of a file.\<close>

definition plain :: "nat set \<Rightarrow> nat set \<Rightarrow> sfs \<Rightarrow> nat \<Rightarrow> bool" where
  "plain I X s b \<longleftrightarrow> b \<in> X \<or> (b \<noteq> 0 \<and> (\<exists>i k. i \<in> I \<and> places I s (i, place_of k) = b))"

lemma plain_not_ino:
  assumes "vol_inv I X s" "plain I X s b"
  shows "b \<notin> I"
proof
  assume b: "b \<in> I"
  then have e: "places I s (b, Self) = b" by simp
  show False
  proof (cases "b \<in> X")
    case True
    then show False using ino_bound(3) [OF assms(1) b] by simp
  next
    case False
    then obtain i k where "b \<noteq> 0" "places I s (i, place_of k) = b" using assms(2) by (auto simp: plain_def)
    then have "(b, Self) = (i, place_of k)" using ownD(4) [OF vol_invD(7) [OF assms(1)]] e by metis
    then show False by (metis place_of_simps(1) prod.inject)
  qed
qed

lemma plain_bound:
  assumes "vol_inv I X s" "plain I X s b"
  shows "b < nblks s" "b \<notin> meta (nblks s)" "b \<noteq> 0"
proof -
  note o = vol_invD(7) [OF assms(1)]
  have "b < nblks s \<and> b \<notin> meta (nblks s)"
  proof (cases "b \<in> X")
    case True
    then show ?thesis using ownD(2,3) [OF o] by auto
  next
    case False
    then obtain i k where "b \<noteq> 0" "places I s (i, place_of k) = b" using assms(2) unfolding plain_def by blast
    then show ?thesis using ownD(5,6) [OF o, of "(i, place_of k)"] by metis
  qed
  then show "b < nblks s" "b \<notin> meta (nblks s)" "b \<noteq> 0" by (auto simp: meta_def)
qed

lemma plain_not_ind:
  assumes "vol_inv I X s" "plain I X s b" "i \<in> I"
  shows "sfi_indirect (cur s i) = 0 \<or> sfi_indirect (cur s i) \<noteq> b"
proof (rule own_not_ind [OF vol_invD(7) [OF assms(1)] _ assms(3)])
  show "b \<in> X \<or> (\<exists>j p. places I s (j, p) = b \<and> p \<noteq> Ind) \<or> b \<in> meta (nblks s)"
    using assms(2) unfolding plain_def by (metis place_of_simps(2))
qed

lemma set_sector_plain:
  assumes inv: "vol_inv I X s" and b: "plain I X s b" and d: "length d = 512"
  shows "vol_inv I X (set_sector b d s)" "i \<in> I \<Longrightarrow> cur (set_sector b d s) i = cur s i"
    "places I (set_sector b d s) = places I s"
proof -
  have ni: "b \<notin> I" using plain_not_ino [OF inv b] .
  show c: "cur (set_sector b d s) i = cur s i" if "i \<in> I" for i using that ni by (intro cur_set_sector) auto
  have "places I (set_sector b d s) = occ (sect (set_sector b d s)) (cur s) I" by (rule occ_inodes_cong) (rule c)
  also have "\<dots> = places I s" unfolding set_sector_simps by (rule occ_write) (rule plain_not_ind [OF inv b])
  finally show p: "places I (set_sector b d s) = places I s" .
  have "ino_of s v \<noteq> b" if "v \<in> set (sfs_vnodes s)" for v using vnode_in [OF inv that] ni by auto
  then have "vtab_ok (set_sector b d s)" using vol_invD(3) [OF inv] by (simp add: vtab_ok_def vnode_ok_def)
  moreover have "freemap_ok (set_sector b d s) = freemap_ok s" by (simp only: freemap_ok_def set_sector_simps)
  ultimately show "vol_inv I X (set_sector b d s)"
    using set_sector_hw [OF vol_invD(1) [OF inv] d] vol_invD(2,4-7) [OF inv] c unfolding vol_inv_def vol_base_def p by simp
qed

lemma fblk_write: "sfi_indirect d = 0 \<or> sfi_indirect d \<noteq> b \<Longrightarrow> fblk (S(b := x)) d k = fblk S d k"
  by (simp add: fblk_place blk_write)

lemma contents_write:
  assumes "sfi_indirect d = 0 \<or> sfi_indirect d \<noteq> b"
  shows "contents (S(b := x)) d off = (if fblk S d (off div 512) = b \<and> b \<noteq> 0 then x ! (off mod 512) else contents S d off)"
  by (simp add: contents_def fblk_write [OF assms] Let_def)

text \<open>A write to a data block changes that block of that file, and a write to a block of \<open>X\<close> no file at all.\<close>

lemma file_set_sector_free:
  assumes inv: "vol_inv I X s" and b: "b \<in> X" and d: "length d = 512" and i: "i \<in> I"
  shows "file_at (set_sector b d s) i = file_at s i"
proof -
  have pl: "plain I X s b" using b by (simp add: plain_def)
  have "fblk (sect s) (cur s i) k \<noteq> b" for k
    using ownD(7) [OF vol_invD(7) [OF inv], of "(i, place_of k)"] b plain_bound(3) [OF inv pl] i by (auto simp: fblk_place)
  then show ?thesis using set_sector_plain(2) [OF inv pl d i] plain_not_ind [OF inv pl i]
    by (intro file_eqI) (simp_all add: contents_write)
qed

lemma file_set_sector_data:
  assumes inv: "vol_inv I X s" and j: "j \<in> I" "fblk (sect s) (cur s j) k = b" "b \<noteq> 0" and d: "length d = 512" and i: "i \<in> I"
  shows "file_at (set_sector b d s) i =
    (if i = j then (file_at s i)\<lparr>f_data := (\<lambda>off. if off div 512 = k then d ! (off mod 512) else f_data (file_at s i) off)\<rparr> else file_at s i)"
proof -
  have e: "places I s (j, place_of k) = b" using j by (simp add: fblk_place)
  then have pl: "plain I X s b" using j unfolding plain_def by blast
  have "fblk (sect s) (cur s i) k' = b \<longleftrightarrow> i = j \<and> k' = k" for k'
  proof
    assume "fblk (sect s) (cur s i) k' = b"
    then have "places I s (i, place_of k') = b" using i by (simp add: fblk_place)
    then have "(i, place_of k') = (j, place_of k)" using ownD(4) [OF vol_invD(7) [OF inv]] e j(3) by metis
    then show "i = j \<and> k' = k" by simp
  qed (use j in simp)
  then show ?thesis using set_sector_plain(2) [OF inv pl d i] plain_not_ind [OF inv pl i] j(3)
    by (simp add: file_of_def contents_write fun_eq_iff)
qed

section \<open>Allocation and release\<close>

lemma freemap_cur [simp]: "cur (s\<lparr>sfs_freemap := fm, sfs_freemapdirty := db\<rparr>) = cur s"
  by (rule ext) (simp add: cur_def split: option.split)

lemma vol_base_freemap:
  assumes "vol_base I s" "bitmap_ok fm" "bm_nbits fm = bm_nbits (sfs_freemap s)" "{nblks s..<bm_nbits fm} \<subseteq> bitmap_used fm"
  shows "vol_base I (s\<lparr>sfs_freemap := fm, sfs_freemapdirty := db\<rparr>)"
proof -
  let ?s = "s\<lparr>sfs_freemap := fm, sfs_freemapdirty := db\<rparr>"
  have "hw_ok ?s" using vol_baseD(1) [OF assms(1)] by (simp add: hw_ok_def bufs_ok_def)
  moreover have "freemap_ok ?s" using freemap_okD [OF vol_baseD(2) [OF assms(1)]] assms(2-4) by (simp add: freemap_ok_def)
  moreover have "vtab_ok ?s" using vol_baseD(3) [OF assms(1)] by (simp add: vtab_ok_def vnode_ok_def)
  moreover have "loaded ?s = loaded s" by (simp add: loaded_def)
  ultimately show ?thesis using vol_baseD(4-6) [OF assms(1)] by (simp add: vol_base_def)
qed

lemma vol_inv_freemap:
  assumes "vol_inv I X s" "bitmap_ok fm" "bm_nbits fm = bm_nbits (sfs_freemap s)"
    "{nblks s..<bm_nbits fm} \<subseteq> bitmap_used fm" "own (places I s) X' (bitmap_used fm) (nblks s) (meta (nblks s))"
  shows "vol_inv I X' (s\<lparr>sfs_freemap := fm, sfs_freemapdirty := db\<rparr>)"
  using vol_base_freemap [OF vol_invD(8) [OF assms(1)] assms(2-4)] assms(5) by (simp add: vol_inv_def)

lemma balloc_wp:
  assumes inv: "vol_inv I X s" and l: "biglock s > 0"
  shows "wp (sfs_balloc s) (\<lambda>s' r. calm s s' \<and> svs s' = svs s \<and> (\<forall>i\<in>I. cur s' i = cur s i \<and> file_at s' i = file_at s i) \<and>
    (case r of
       Inl e \<Rightarrow> e = ENOSPC \<and> vol_inv I X s'
     | Inr b \<Rightarrow> vol_inv I (insert b X) s' \<and> b \<notin> X \<and> sect s' b = replicate 512 0 \<and> places I s' = places I s))"
proof (cases "bitmap_used (sfs_freemap s) = {..<bm_nbits (sfs_freemap s)}")
  case True
  have "sfs_balloc s = Some (s, Inl ENOSPC)"
    using bitmap_alloc_full [OF freemap_okD(1) [OF vol_invD(2) [OF inv]] True] by (simp add: sfs_balloc_def)
  then show ?thesis using inv by simp
next
  case False
  note fm = freemap_okD [OF vol_invD(2) [OF inv]]
  obtain i where "i < bm_nbits (sfs_freemap s)" "i \<notin> bitmap_used (sfs_freemap s)"
    using False bitmap_used_bound [of "sfs_freemap s"] by auto
  then obtain fm' b where a: "bitmap_alloc (sfs_freemap s) = Some (fm', Inr b)" "bitmap_ok fm'" "bm_nbits fm' = bm_nbits (sfs_freemap s)"
      "b < bm_nbits (sfs_freemap s)" "b \<notin> bitmap_used (sfs_freemap s)" "bitmap_used fm' = insert b (bitmap_used (sfs_freemap s))"
    using bitmap_alloc_free [OF fm(1)] by metis
  have b: "b < nblks s"
  proof (rule ccontr)
    assume "\<not> b < nblks s"
    then have "b \<in> {nblks s..<bm_nbits (sfs_freemap s)}" using a(4) by simp
    then show False using fm(4) a(5) by blast
  qed
  let ?s = "s\<lparr>sfs_freemap := fm', sfs_freemapdirty := True\<rparr>"
  have i1: "vol_inv I (insert b X) ?s"
    using vol_inv_freemap [OF inv a(2,3)] own_alloc [OF vol_invD(7) [OF inv] b a(5)] fm(4) a(3,6) by auto
  let ?s2 = "set_sector b (replicate 512 0) ?s"
  have pl: "plain I (insert b X) ?s b" by (simp add: plain_def)
  note w = set_sector_plain [OF i1 pl, of "replicate 512 0"]
  have f: "file_at ?s2 i = file_at s i" if "i \<in> I" for i
    using file_set_sector_free [OF i1, of b "replicate 512 0" i] that by simp
  have "b \<notin> meta (nblks s)" using plain_bound(2) [OF i1 pl] by simp
  then have c: "calm s ?s2" by (auto simp: calm_def meta_kept_def)
  have wb: "wp (sfs_writeblock b (replicate 512 0) ?s) (\<lambda>s' r. r = Inr () \<and> quiet ?s2 s')"
    by (rule writeblock_wp) (use vol_invD(1) [OF i1] b fm(5) l in simp_all)
  have nX: "b \<notin> X" using ownD(9) [OF vol_invD(7) [OF inv] b] a(5) by blast
  have "wp (sfs_writeblock b (replicate 512 0) ?s) (\<lambda>s' r. r = Inr () \<and> calm s s' \<and> svs s' = svs s \<and>
      (\<forall>i\<in>I. cur s' i = cur s i \<and> file_at s' i = file_at s i) \<and> vol_inv I (insert b X) s' \<and> sect s' b = replicate 512 0 \<and> places I s' = places I s)"
  proof (rule wp_mono [OF wb], elim conjE, intro conjI ballI)
    fix s' r
    assume q: "quiet ?s2 s'"
    show "calm s s'" using calm_trans [OF c quiet_calm [OF q]] .
    show "svs s' = svs s" "sect s' b = replicate 512 0" using quiet_simps [OF q] by simp_all
    show "vol_inv I (insert b X) s'" using vol_inv_quiet [OF q w(1)] by simp
    show "places I s' = places I s" using w(3) by (simp add: quiet_simps [OF q] quiet_cur [OF q])
    show "cur s' i = cur s i" "file_at s' i = file_at s i" if "i \<in> I" for i
      using w(2) [OF _ that] f [OF that] by (simp_all add: quiet_simps [OF q] quiet_cur [OF q])
  qed simp_all
  note key = this
  have "sfs_balloc s = do { (s, r) \<leftarrow> sfs_writeblock b (replicate 512 0) ?s;
      case r of
        Inl e \<Rightarrow> do { fm \<leftarrow> bitmap_unmark (sfs_freemap s) b; Some (s\<lparr>sfs_freemap := fm\<rparr>, Inl e) }
      | Inr _ \<Rightarrow> Some (s, Inr b) }"
    using a(1) b by (simp add: sfs_balloc_def sfs_clearblock_def SFS_BLOCKSIZE_def)
  then show ?thesis using nX
    by (simp only: wp_bind) (rule wp_mono [OF key], elim conjE, simp only: sum.case wp_simps, blast)
qed

lemma bfree_base:
  assumes base: "vol_base I s" and o: "owned m X s" and b: "b \<in> X"
  obtains s' where "sfs_bfree b s = Some s'" "vol_base I s'" "owned m (X - {b}) s'" "calm s s'" "svs s' = svs s" "cur s' = cur s" "sect s' = sect s"
proof -
  note fm = freemap_okD [OF vol_baseD(2) [OF base]]
  have bb: "b < nblks s" using ownD(3) [OF o] b by auto
  then have "b \<in> bitmap_used (sfs_freemap s)" using ownD(9) [OF o bb] b by blast
  then obtain fm' where f: "bitmap_unmark (sfs_freemap s) b = Some fm'" "bitmap_ok fm'" "bm_nbits fm' = bm_nbits (sfs_freemap s)"
      "bitmap_used fm' = bitmap_used (sfs_freemap s) - {b}" using bitmap_unmark_spec [OF fm(1)] by metis
  let ?s = "s\<lparr>sfs_freemap := fm', sfs_freemapdirty := True\<rparr>"
  have "vol_base I ?s"
    by (rule vol_base_freemap [OF base f(2,3)]) (use fm(4) f(3,4) bb in auto)
  moreover have "owned m (X - {b}) ?s" using own_free [OF o b] f(4) by simp
  ultimately show ?thesis using that [of ?s] f(1) by (simp add: sfs_bfree_def calm_def meta_kept_def)
qed

lemma bfree_spec:
  assumes inv: "vol_inv I X s" and b: "b \<in> X"
  obtains s' where "sfs_bfree b s = Some s'" "vol_inv I (X - {b}) s'" "calm s s'" "svs s' = svs s" "cur s' = cur s" "sect s' = sect s"
  using bfree_base [OF vol_invD(8,7) [OF inv] b] that unfolding vol_inv_def by metis

lemma hand_back_wp:
  assumes inv: "vol_inv I X s" and b: "b \<noteq> 0 \<Longrightarrow> \<exists>l. places I s l = b"
  shows "hand_back b s = Some (s, Inr b)"
proof (cases "b = 0")
  case False
  then have u: "b < nblks s" "b \<in> bitmap_used (sfs_freemap s)" using b ownD(5,8) [OF vol_invD(7) [OF inv]] by auto
  have "sfs_bused b s = Some True"
    using bitmap_isset_spec [OF freemap_okD(1) [OF vol_invD(2) [OF inv]], of b] u freemap_okD(3) [OF vol_invD(2) [OF inv]]
    by (simp add: sfs_bused_def)
  then show ?thesis by (simp add: hand_back_def)
qed (simp add: hand_back_def)

section \<open>Putting blocks into places\<close>

lemma vol_inv_set_dinode:
  assumes inv: "vol_inv I X s" and v: "v \<in> set (sfs_vnodes s)"
    and f: "sfi_type (f (cur s (ino_of s v))) = sfi_type (cur s (ino_of s v))" "dinode_ok (f (cur s (ino_of s v)))"
    and o: "own (occ (sect s) ((cur s)(ino_of s v := f (cur s (ino_of s v)))) I) X' (bitmap_used (sfs_freemap s)) (nblks s) (meta (nblks s))"
  shows "vol_inv I X' (set_dinode v f s)"
proof -
  let ?s = "set_dinode v f s"
  note c = cur_set_dinode [OF vol_invD(3) [OF inv] v, of f]
  have "hw_ok ?s" using vol_invD(1) [OF inv] by (simp add: hw_ok_def bufs_ok_def)
  moreover have "freemap_ok ?s = freemap_ok s" by (simp only: freemap_ok_def set_dinode_simps)
  moreover have "vnode_ok ?s w" if "w \<in> set (sfs_vnodes s)" for w
    using vtab_okD(3) [OF vol_invD(3) [OF inv] that] f(1) vnode_cur [OF inv v] by (auto simp: vnode_ok_def)
  then have "vtab_ok ?s" using vtab_okD(1,2) [OF vol_invD(3) [OF inv]] by (simp add: vtab_ok_def)
  moreover have "\<forall>i\<in>I. dinode_ok (cur ?s i)" using vol_invD(6) [OF inv] f(2) unfolding c by simp
  ultimately show ?thesis using vol_invD(2,4,5) [OF inv] o unfolding vol_inv_def vol_base_def c by simp
qed

lemma calm_set_dinode [simp]: "calm s (set_dinode v f s)"
  by (auto simp: calm_def meta_kept_def)

lemma attach_direct:
  assumes inv: "vol_inv I (insert b X) s" and b: "b \<notin> X" "sect s b = replicate 512 0" and v: "v \<in> set (sfs_vnodes s)"
    and k: "k < 15" "sfi_direct (cur s (ino_of s v)) ! k = 0"
    and s': "s' = set_dinode v (\<lambda>d. d\<lparr>sfi_direct := (sfi_direct d)[k := b]\<rparr>) s"
  shows "vol_inv I X s'" "i \<in> I \<Longrightarrow> file_at s' i = file_at s i" "fblk (sect s') (cur s' (ino_of s v)) k = b"
proof -
  let ?i = "ino_of s v" and ?f = "\<lambda>d. d\<lparr>sfi_direct := (sfi_direct d)[k := b]\<rparr>"
  note c = cur_set_dinode [OF vol_invD(3) [OF inv] v, of ?f] and ok = vol_invD(6) [OF inv vnode_in [OF inv v]]
  note o = vol_invD(7) [OF inv]
  have len: "length (sfi_direct (cur s ?i)) = 15" using ok by (simp add: dinode_ok_def)
  have bn: "b < nblks s" "b < 2 ^ 32" using ownD(3) [OF o] freemap_okD(6) [OF vol_invD(2) [OF inv]] by auto
  have "own ((places I s)((?i, Direct k) := b)) (insert b X - {b}) (bitmap_used (sfs_freemap s)) (nblks s) (meta (nblks s))"
    by (rule own_attach [OF o]) (use k vnode_in [OF inv v] in simp_all)
  then have "own (occ (sect s) ((cur s)(?i := ?f (cur s ?i))) I) X (bitmap_used (sfs_freemap s)) (nblks s) (meta (nblks s))"
    using occ_set_direct [where i = ?i and C = "cur s" and S = "sect s" and k = k and b = b, OF vnode_in [OF inv v] k(1) len] b(1) by simp
  moreover have "dinode_ok (?f (cur s ?i))" using ok bn(2) by (auto simp: dinode_ok_def dest!: subsetD [OF set_update_subset_insert])
  ultimately show "vol_inv I X s'" unfolding s' by (intro vol_inv_set_dinode [OF inv v]) simp_all
  have "contents (sect s) (?f (cur s ?i)) off = contents (sect s) (cur s ?i) off" for off
  proof (cases "off div 512 = k")
    case True
    then show ?thesis using k len b(2) by (simp add: contents_def fblk_def)
  next
    case False
    then show ?thesis by (auto simp: contents_def fblk_def Let_def nth_list_update)
  qed
  then show "file_at s' i = file_at s i" if "i \<in> I" using that unfolding s' set_dinode_simps c by (simp add: file_of_def fun_eq_iff)
  show "fblk (sect s') (cur s' ?i) k = b" unfolding s' set_dinode_simps c using k(1) len by (simp add: fblk_def)
qed

lemma attach_ind:
  assumes inv: "vol_inv I (insert b X) s" and b: "b \<notin> X" "sect s b = replicate 512 0" and v: "v \<in> set (sfs_vnodes s)"
    and k: "sfi_indirect (cur s (ino_of s v)) = 0" and s': "s' = set_dinode v (\<lambda>d. d\<lparr>sfi_indirect := b\<rparr>) s"
  shows "vol_inv I X s'" "i \<in> I \<Longrightarrow> file_at s' i = file_at s i" "sfi_indirect (cur s' (ino_of s v)) = b" "b \<noteq> 0"
proof -
  let ?i = "ino_of s v" and ?f = "\<lambda>d. d\<lparr>sfi_indirect := b\<rparr>"
  note c = cur_set_dinode [OF vol_invD(3) [OF inv] v, of ?f] and ok = vol_invD(6) [OF inv vnode_in [OF inv v]]
  note o = vol_invD(7) [OF inv]
  have bn: "b < nblks s" "b < 2 ^ 32" using ownD(3) [OF o] freemap_okD(6) [OF vol_invD(2) [OF inv]] by auto
  show "b \<noteq> 0" using ownD(1,2) [OF o] by auto
  have "own ((places I s)((?i, Ind) := b)) (insert b X - {b}) (bitmap_used (sfs_freemap s)) (nblks s) (meta (nblks s))"
    by (rule own_attach [OF o]) (use k vnode_in [OF inv v] in simp_all)
  then have "own (occ (sect s) ((cur s)(?i := ?f (cur s ?i))) I) X (bitmap_used (sfs_freemap s)) (nblks s) (meta (nblks s))"
    using occ_set_ind [where i = ?i and C = "cur s" and S = "sect s" and b = b, OF vnode_in [OF inv v] k] b by (simp add: words_of_zeros)
  moreover have "dinode_ok (?f (cur s ?i))" using ok bn(2) by (simp add: dinode_ok_def)
  ultimately show "vol_inv I X s'" unfolding s' by (intro vol_inv_set_dinode [OF inv v]) simp_all
  have "contents (sect s) (?f (cur s ?i)) off = contents (sect s) (cur s ?i) off" for off
    using k by (simp add: contents_def fblk_def Let_def b(2) words_of_zeros)
  then show "file_at s' i = file_at s i" if "i \<in> I" using that unfolding s' set_dinode_simps c by (simp add: file_of_def fun_eq_iff)
  show "sfi_indirect (cur s' ?i) = b" unfolding s' c by simp
qed

text \<open>Writing an indirect block.\<close>

lemma ind_place:
  assumes o: "owned (with_entries (places I s) i us) X s" and i: "i \<in> I" "sfi_indirect (cur s i) = b" "b \<noteq> 0"
  shows "b \<notin> I" "b < nblks s" "with_entries (places I s) i us l = b \<longleftrightarrow> l = (i, Ind)" "b \<notin> meta (nblks s)"
proof -
  let ?m = "with_entries (places I s) i us"
  have e: "?m (i, Ind) = b" using i by simp
  then show "b < nblks s" "b \<notin> meta (nblks s)" using ownD(5,6) [OF o, of "(i, Ind)"] i(3) by metis+
  show l: "?m l = b \<longleftrightarrow> l = (i, Ind)" for l using ownD(4) [OF o, of "(i, Ind)" l] e i(3) by metis
  have "?m (b, Self) = places I s (b, Self)" by simp
  then show "b \<notin> I" using l [of "(b, Self)"] by auto
qed

lemma ind_not_ino:
  assumes inv: "vol_inv I X s" and i: "i \<in> I" "sfi_indirect (cur s i) = b" "b \<noteq> 0"
  shows "b \<notin> I" "b < nblks s" "b \<notin> meta (nblks s)"
  using ind_place(1,2,4) [where us = "words_of (sect s b)", OF _ i, of X] with_entries_self [of i I "cur s" "sect s"] vol_invD(7) [OF inv] i by simp_all

lemma set_sector_ind:
  assumes base: "vol_base I s" and i: "i \<in> I" "sfi_indirect (cur s i) = b" "b \<noteq> 0" and d: "length d = 512" "words_of d = ws"
    and o: "owned (with_entries (places I s) i ws) X s"
  shows "vol_inv I X (set_sector b d s)" "j \<in> I \<Longrightarrow> cur (set_sector b d s) j = cur s j"
    "places I (set_sector b d s) = with_entries (places I s) i ws"
proof -
  note ni = ind_place(1,2) [OF o i]
  show c: "cur (set_sector b d s) j = cur s j" if "j \<in> I" for j using that ni by (intro cur_set_sector) auto
  have "places I (set_sector b d s) = occ (sect (set_sector b d s)) (cur s) I" by (rule occ_inodes_cong) (rule c)
  also have "\<dots> = with_entries (places I s) i ws" unfolding set_sector_simps by (rule occ_write_ind [OF o i d(2)])
  finally show p: "places I (set_sector b d s) = with_entries (places I s) i ws" .
  have "ino_of s v \<noteq> b" if "v \<in> set (sfs_vnodes s)" for v using vol_baseD(4) [OF base] that ni by (auto simp: loaded_def)
  then have "vtab_ok (set_sector b d s)" using vol_baseD(3) [OF base] by (simp add: vtab_ok_def vnode_ok_def)
  moreover have "freemap_ok (set_sector b d s) = freemap_ok s" by (simp only: freemap_ok_def set_sector_simps)
  ultimately show "vol_inv I X (set_sector b d s)"
    using set_sector_hw [OF vol_baseD(1) [OF base] d(1)] vol_baseD(2,4-6) [OF base] c o unfolding vol_inv_def vol_base_def p by simp
qed

text \<open>The contents of the files after the indirect block of \<open>i\<close> has been written.\<close>

lemma contents_ind:
  assumes o: "owned (with_entries (places I s) i us) X s" and i: "i \<in> I" "sfi_indirect (cur s i) = b" "b \<noteq> 0" and j: "j \<in> I"
    and d: "length d = 512" "words_of d = ws"
  shows "contents ((sect s)(b := d)) (cur s j) off =
    (if j = i \<and> 15 \<le> off div 512 then let k = off div 512 - 15; w = (if k < 128 then ws ! k else 0) in if w = 0 then 0 else ((sect s)(b := d)) w ! (off mod 512)
     else contents (sect s) (cur s j) off)"
proof (cases "j = i \<and> 15 \<le> off div 512")
  case True
  then show ?thesis using i by (auto simp: contents_def fblk_def Let_def d(2))
next
  case False
  let ?k = "off div 512"
  note l = ind_place(3) [OF o i]
  have "with_entries (places I s) i us (j, place_of ?k) = places I s (j, place_of ?k)"
    using False by (cases "j = i") (auto simp: place_of_def)
  then have nb: "blk (sect s) (cur s j) (place_of ?k) \<noteq> b" using l [of "(j, place_of ?k)"] j by simp
  have "sfi_indirect (cur s j) \<noteq> b" if "j \<noteq> i" using l [of "(j, Ind)"] that j by simp
  then have "fblk ((sect s)(b := d)) (cur s j) ?k = fblk (sect s) (cur s j) ?k"
    using False by (cases "j = i") (auto simp: fblk_def)
  then show ?thesis using False nb by (auto simp: contents_def fblk_place Let_def)
qed

lemma attach_entry:
  assumes inv: "vol_inv I (insert b X) s" and b: "b \<notin> X" "sect s b = replicate 512 0" and i: "i \<in> I" "sfi_indirect (cur s i) = ib" "ib \<noteq> 0"
    and k: "k < 128" "words_of (sect s ib) ! k = 0" and s': "s' = set_sector ib (bytes_of ((words_of (sect s ib))[k := b])) s"
  shows "vol_inv I X s'" "j \<in> I \<Longrightarrow> file_at s' j = file_at s j" "fblk (sect s') (cur s' i) (k + 15) = b" "b \<noteq> 0"
proof -
  note o = vol_invD(7) [OF inv]
  let ?ws = "words_of (sect s ib)"
  have l: "length (sect s x) = 512" for x using vol_invD(1) [OF inv] by (simp add: hw_ok_def)
  have lw: "length ?ws = 128" using l by simp
  have bn: "b < nblks s" "b < 2 ^ 32" "b \<noteq> 0" using ownD(1-3) [OF o] freemap_okD(6) [OF vol_invD(2) [OF inv]] by auto
  then show "b \<noteq> 0" by simp
  have "\<forall>w\<in>set (?ws[k := b]). w < 2 ^ 32" using bn(2) words_of_less by (auto dest!: subsetD [OF set_update_subset_insert])
  then have d: "length (bytes_of (?ws[k := b])) = 512" "words_of (bytes_of (?ws[k := b])) = ?ws[k := b]" using lw by simp_all
  have we: "with_entries (places I s) i (?ws[k := b]) = (places I s)((i, Entry k) := b)"
    using with_entries_update [OF k(1) lw] with_entries_self [OF i(1), of "cur s" "sect s"] i by simp
  have o': "owned (with_entries (places I s) i (?ws[k := b])) X s"
    unfolding we using own_attach [OF o, of b "(i, Entry k)"] b(1) i k by simp
  note w = set_sector_ind [OF vol_invD(8) [OF inv] i d o'] and ci = contents_ind [OF o' i _ d]
  show "vol_inv I X s'" unfolding s' by (rule w(1))
  have nib: "ib \<noteq> b" using ownD(7) [OF o, of "(i, Ind)"] i by auto
  have "contents ((sect s)(ib := bytes_of (?ws[k := b]))) (cur s j) off = contents (sect s) (cur s j) off" if "j \<in> I" for j off
  proof -
    have n: "?ws ! k' \<noteq> ib" if "k' < 128" for k'
    proof
      assume "?ws ! k' = ib"
      then have "places I s (i, Entry k') = ib" "places I s (i, Ind) = ib" using i that by simp_all
      then have "(i, Ind) = (i, Entry k')" using ownD(4) [OF o] i(3) by metis
      then show False by simp
    qed
    have upd: "?ws[k := b] ! q = (if q = k then b else ?ws ! q)" for q using lw k(1) by (simp add: nth_list_update)
    show ?thesis
    proof (cases "j = i \<and> 15 \<le> off div 512")
      case True
      define q where "q = off div 512 - 15"
      have "contents (sect s) (cur s i) off = (let w = (if q < 128 then ?ws ! q else 0) in if w = 0 then 0 else sect s w ! (off mod 512))"
        using True i by (simp add: contents_def fblk_def q_def)
      then show ?thesis unfolding ci [OF \<open>j \<in> I\<close>] upd q_def [symmetric] using True k b(2) nib n [of q]
        by (simp add: Let_def)
    next
      case False
      then show ?thesis unfolding ci [OF \<open>j \<in> I\<close>] by (simp only: if_False)
    qed
  qed
  then show "file_at s' j = file_at s j" if "j \<in> I" unfolding s' using w(2) [OF that] that by (intro file_eqI) simp_all
  show "fblk (sect s') (cur s' i) (k + 15) = b" unfolding s' w(2) [OF i(1)] using i k d lw by (simp add: fblk_def)
qed

end
