(* ===== verification/Sfs_Bmap.thy ===== *)
theory Sfs_Bmap
  imports Sfs_Struct
begin

text \<open>
  \<^verbatim>\<open>sfs_bmap\<close> and \<^verbatim>\<open>sfs_itrunc\<close>: they never panic on a sound volume, keep it sound, and change no file except as
  they should.
\<close>

section \<open>Steps that keep the files\<close>

definition keeps_files :: "nat set \<Rightarrow> sfs \<Rightarrow> sfs \<Rightarrow> bool" where
  "keeps_files I s s' \<longleftrightarrow> calm s s' \<and> (\<forall>i\<in>I. file_at s' i = file_at s i)"

lemma keeps_files_refl [simp]: "keeps_files I s s"
  by (simp add: keeps_files_def)

lemma keeps_files_trans: "keeps_files I s s' \<Longrightarrow> keeps_files I s' s'' \<Longrightarrow> keeps_files I s s''"
  using calm_trans by (auto simp: keeps_files_def)

lemma keeps_filesD: "keeps_files I s s' \<Longrightarrow> calm s s'" "keeps_files I s s' \<Longrightarrow> i \<in> I \<Longrightarrow> file_at s' i = file_at s i"
  by (auto simp: keeps_files_def)

lemma quiet_keeps: "quiet s s' \<Longrightarrow> keeps_files I s s'"
  by (simp add: keeps_files_def quiet_calm quiet_simps quiet_cur)

lemma read_wp:
  assumes inv: "vol_inv I X s" and l: "biglock s > 0" and b: "b < nblks s"
  shows "wp (sfs_readblock b s) (\<lambda>s' r. quiet s s' \<and> (r = Inl EIO \<or> r = Inr (sect s b)))"
  using readblock_wp [OF vol_invD(1) [OF inv] _ l, of b] b freemap_okD(5) [OF vol_invD(2) [OF inv]] by simp

lemma write_wp:
  assumes inv: "vol_inv I X s" and l: "biglock s > 0" and b: "b < nblks s" and d: "length d = 512"
  shows "wp (sfs_writeblock b d s) (\<lambda>s' r. r = Inr () \<and> quiet (set_sector b d s) s')"
  using writeblock_wp [OF vol_invD(1) [OF inv] _ l d, of b] b freemap_okD(5) [OF vol_invD(2) [OF inv]] by simp

section \<open>The block map\<close>

lemma get_idbuf_wp:
  assumes inv: "vol_inv I X s" and l: "biglock s > 0" and v: "v \<in> set (sfs_vnodes s)"
  shows "wp (get_idbuf v s) (\<lambda>s' r. vol_inv I X s' \<and> keeps_files I s s' \<and> (sfi_indirect (cur s (ino_of s v)) \<noteq> 0 \<longrightarrow> quiet s s') \<and>
    (case r of
       Inl e \<Rightarrow> e = ENOSPC \<and> sfi_indirect (cur s (ino_of s v)) = 0 \<or> e = EIO
     | Inr (ib, ws) \<Rightarrow> ib = sfi_indirect (cur s' (ino_of s v)) \<and> ib \<noteq> 0 \<and> ws = words_of (sect s' ib)))"
proof (cases "sfi_indirect (cur s (ino_of s v)) = 0")
  case True
  let ?Q = "\<lambda>s' r. vol_inv I X s' \<and> keeps_files I s s' \<and> (case r of Inl e \<Rightarrow> e = ENOSPC \<and> sfi_indirect (cur s (ino_of s v)) = 0 \<or> e = EIO
     | Inr (ib, ws) \<Rightarrow> ib = sfi_indirect (cur s' (ino_of s v)) \<and> ib \<noteq> 0 \<and> ws = words_of (sect s' ib))"
  have "wp (onok (sfs_balloc s) (\<lambda>idblock s.
          Some (set_dinode v (\<lambda>d. d\<lparr>sfi_indirect := idblock\<rparr>) s, Inr (idblock, replicate SFS_DBPERIDB 0)))) ?Q"
    unfolding wp_onok
  proof (rule wp_mono [OF balloc_wp [OF inv l]], elim conjE)
    fix s1 r
    assume c: "calm s s1" and sv: "svs s1 = svs s" and f: "\<forall>i\<in>I. cur s1 i = cur s i \<and> file_at s1 i = file_at s i"
      and r: "case r of Inl e \<Rightarrow> e = ENOSPC \<and> vol_inv I X s1
        | Inr b \<Rightarrow> vol_inv I (insert b X) s1 \<and> b \<notin> X \<and> sect s1 b = replicate 512 0 \<and> places I s1 = places I s"
    have k: "keeps_files I s s1" using c f unfolding keeps_files_def by blast
    show "case r of Inl e \<Rightarrow> ?Q s1 (Inl e)
        | Inr x \<Rightarrow> wp (Some (set_dinode v (\<lambda>d. d\<lparr>sfi_indirect := x\<rparr>) s1, Inr (x, replicate SFS_DBPERIDB 0))) ?Q"
    proof (cases r)
      case (Inl e)
      then show ?thesis using r k True by simp
    next
      case (Inr b)
      let ?s2 = "set_dinode v (\<lambda>d. d\<lparr>sfi_indirect := b\<rparr>) s1"
      have v1: "v \<in> set (sfs_vnodes s1)" "ino_of s1 v = ino_of s v" using v calmD(7,16) [OF c] by auto
      have z: "sfi_indirect (cur s1 (ino_of s1 v)) = 0" using True f vnode_in [OF inv v] v1(2) by simp
      have r': "vol_inv I (insert b X) s1" "b \<notin> X" "sect s1 b = replicate 512 0" using r Inr by auto
      note a = attach_ind [OF r' v1(1) z refl]
      have "keeps_files I s1 ?s2" using a(2) by (simp add: keeps_files_def)
      then have "keeps_files I s ?s2" using keeps_files_trans [OF k] by blast
      then show ?thesis using Inr a r'(3) v1(2) by (simp add: words_of_zeros SFS_DBPERIDB_def)
    qed
  qed
  then show ?thesis using True vnode_cur [OF inv v] by (simp add: get_idbuf_def)
next
  case False
  let ?ib = "sfi_indirect (cur s (ino_of s v))"
  have b: "?ib < nblks s" using ind_not_ino(2) [OF inv vnode_in [OF inv v] refl False] .
  have e: "get_idbuf v s = onok (sfs_readblock ?ib s) (\<lambda>b s. Some (s, Inr (?ib, words_of b)))"
    using False vnode_cur [OF inv v] by (simp add: get_idbuf_def Let_def)
  show ?thesis unfolding e wp_onok
  proof (rule wp_mono [OF read_wp [OF inv l b]], goal_cases)
    case (1 s' r)
    then have q: "quiet s s'" and r: "r = Inl EIO \<or> r = Inr (sect s ?ib)" by auto
    then show ?case using vol_inv_quiet [OF q inv] quiet_keeps [OF q] False by (auto simp: quiet_simps [OF q] quiet_cur [OF q])
  qed
qed


text \<open>What \<^verbatim>\<open>sfs_bmap\<close> promises: the block of the file, which is there after a call with \<open>doalloc\<close>.\<close>

definition bmap_post :: "nat set \<Rightarrow> nat set \<Rightarrow> sfs \<Rightarrow> nat \<Rightarrow> nat \<Rightarrow> bool \<Rightarrow> sfs \<Rightarrow> errno + nat \<Rightarrow> bool" where
  "bmap_post I X s i k doalloc s' r \<longleftrightarrow> vol_inv I X s' \<and> keeps_files I s s' \<and> (\<not> doalloc \<longrightarrow> quiet s s') \<and>
    (case r of
       Inl e \<Rightarrow> e = EFBIG \<and> 143 \<le> k \<or> e = EIO \<and> k < 143 \<or> e = ENOSPC \<and> doalloc \<and> k < 143
     | Inr b \<Rightarrow> b = fblk (sect s') (cur s' i) k \<and> (doalloc \<longrightarrow> b \<noteq> 0) \<and> k < 143)"

lemma hand_back_file:
  assumes inv: "vol_inv I X s" and i: "i \<in> I" and b: "b = fblk (sect s) (cur s i) k"
  shows "hand_back b s = Some (s, Inr b)"
  by (rule hand_back_wp [OF inv]) (metis b fblk_occ i)

lemma bmap_direct:
  assumes inv: "vol_inv I X s" and l: "biglock s > 0" and v: "v \<in> set (sfs_vnodes s)" and k: "k < 15"
  shows "wp (sfs_bmap v k da s) (bmap_post I X s (ino_of s v) k da)"
proof -
  let ?i = "ino_of s v"
  note i = vnode_in [OF inv v]
  have d: "fblk (sect s) (cur s ?i) k = sfi_direct (sv_i (svs s v)) ! k" using k vnode_cur [OF inv v] by (simp add: fblk_def)
  show ?thesis
  proof (cases "sfi_direct (sv_i (svs s v)) ! k = 0 \<and> da")
    case False
    then have "sfs_bmap v k da s = hand_back (fblk (sect s) (cur s ?i) k) s" using k l d by (auto simp: sfs_bmap_def SFS_NDIRECT_def Let_def)
    then show ?thesis using hand_back_file [OF inv i d [symmetric]] inv False k d by (auto simp: bmap_post_def)
  next
    case True
    let ?f = "\<lambda>b d. d\<lparr>sfi_direct := (sfi_direct d)[k := b]\<rparr>"
    have e: "sfs_bmap v k da s = onok (sfs_balloc s) (\<lambda>b s. hand_back b (set_dinode v (?f b) s))"
      using True k l by (simp add: sfs_bmap_def SFS_NDIRECT_def Let_def)
    show ?thesis unfolding e wp_onok
    proof (rule wp_mono [OF balloc_wp [OF inv l]], goal_cases)
      case (1 s1 r)
      then have c: "calm s s1" and f: "\<forall>i\<in>I. cur s1 i = cur s i \<and> file_at s1 i = file_at s i" by blast+
      then have ks: "keeps_files I s s1" unfolding keeps_files_def by blast
      show ?case
      proof (cases r)
        case (Inl e)
        then show ?thesis using 1 ks True k by (simp add: bmap_post_def)
      next
        case (Inr b)
        let ?s2 = "set_dinode v (?f b) s1"
        have v1: "v \<in> set (sfs_vnodes s1)" "ino_of s1 v = ?i" using v calmD(7,16) [OF c] by auto
        have r': "vol_inv I (insert b X) s1" "b \<notin> X" "sect s1 b = replicate 512 0" using 1 Inr by auto
        have z: "sfi_direct (cur s1 (ino_of s1 v)) ! k = 0" using True f i v1(2) vnode_cur [OF inv v] by simp
        note a = attach_direct [OF r' v1(1) k z refl]
        have "keeps_files I s1 ?s2" using a(2) by (simp add: keeps_files_def)
        then have ks2: "keeps_files I s ?s2" using keeps_files_trans [OF ks] by blast
        have "b \<noteq> 0" using ownD(1,2) [OF vol_invD(7) [OF r'(1)]] by auto
        moreover have "hand_back b ?s2 = Some (?s2, Inr b)"
          by (rule hand_back_file [OF a(1), of ?i b k]) (use i a(3) v1(2) in simp_all)
        ultimately show ?thesis using Inr a ks2 v1(2) True k by (simp add: bmap_post_def)
      qed
    qed
  qed
qed

lemma bmap_entry:
  assumes inv: "vol_inv I X s" and l: "biglock s > 0" and v: "v \<in> set (sfs_vnodes s)" and ib: "ib = sfi_indirect (cur s (ino_of s v))" "ib \<noteq> 0"
    and k: "k < 128" and ws: "ws = words_of (sect s ib)"
  shows "wp (if ws ! k = 0 \<and> da then
       onok (sfs_balloc s) (\<lambda>b s. onok (sfs_writeblock ib (bytes_of (ws[k := b])) s) (\<lambda>_ s. hand_back b s))
     else hand_back (ws ! k) s) (bmap_post I X s (ino_of s v) (k + 15) da)"
proof -
  let ?i = "ino_of s v"
  note i = vnode_in [OF inv v]
  have d: "fblk (sect s) (cur s ?i) (k + 15) = ws ! k" using k ib ws by (simp add: fblk_def)
  show ?thesis
  proof (cases "ws ! k = 0 \<and> da")
    case False
    then show ?thesis using hand_back_file [OF inv i d [symmetric]] inv d k by (auto simp: bmap_post_def)
  next
    case True
    show ?thesis unfolding if_P [OF True] wp_onok
    proof (rule wp_mono [OF balloc_wp [OF inv l]], goal_cases)
      case (1 s1 r)
      then have c: "calm s s1" and f: "\<forall>i\<in>I. cur s1 i = cur s i \<and> file_at s1 i = file_at s i" by blast+
      then have ks: "keeps_files I s s1" unfolding keeps_files_def by blast
      show ?case
      proof (cases r)
        case (Inl e)
        then show ?thesis using 1 ks True k by (simp add: bmap_post_def)
      next
        case (Inr b)
        have r': "vol_inv I (insert b X) s1" "b \<notin> X" "sect s1 b = replicate 512 0" and p: "places I s1 = places I s" using 1 Inr by auto
        have ib1: "sfi_indirect (cur s1 ?i) = ib" using f i ib(1) by simp
        have w1: "words_of (sect s1 ib) = ws"
        proof (rule nth_equalityI)
          have l512: "length (sect s x) = 512" "length (sect s1 x) = 512" for x
            using vol_invD(1) [OF inv] vol_invD(1) [OF r'(1)] by (simp_all add: hw_ok_def)
          then show "length (words_of (sect s1 ib)) = length ws" using ws by simp
          fix k'
          assume "k' < length (words_of (sect s1 ib))"
          then have "k' < 128" using l512 by simp
          then have "places I s1 (?i, Entry k') = words_of (sect s1 ib) ! k'" "places I s (?i, Entry k') = ws ! k'"
            using i ib ib1 ws by simp_all
          then show "words_of (sect s1 ib) ! k' = ws ! k'" using p by simp
        qed
        let ?d = "bytes_of (ws[k := b])"
        have l1: "biglock s1 > 0" "ib < nblks s1" "length ?d = 512"
          using l calmD(8) [OF c] ind_not_ino(2) [OF r'(1) i ib1 ib(2)] vol_invD(1) [OF inv] ws by (simp_all add: hw_ok_def)
        let ?s2 = "set_sector ib ?d s1"
        have z: "words_of (sect s1 ib) ! k = 0" using True w1 by simp
        note a = attach_entry [OF r' i ib1 ib(2) k z refl, unfolded w1]
        have "keeps_files I s1 ?s2" using a(2) calm_set_sector [OF ind_not_ino(3) [OF r'(1) i ib1 ib(2)]] by (simp add: keeps_files_def)
        then have ks2: "keeps_files I s ?s2" using keeps_files_trans [OF ks] by blast
        have "wp (sfs_writeblock ib ?d s1) (\<lambda>s3 r. case r of Inl e \<Rightarrow> bmap_post I X s ?i (k + 15) da s3 (Inl e)
            | Inr _ \<Rightarrow> wp (hand_back b s3) (bmap_post I X s ?i (k + 15) da))"
        proof (rule wp_mono [OF write_wp [OF r'(1) l1]], goal_cases)
          case (1 s3 r3)
          then have q: "quiet ?s2 s3" and r3: "r3 = Inr ()" by auto
          note inv3 = vol_inv_quiet [OF q a(1)] and ks3 = keeps_files_trans [OF ks2 quiet_keeps [OF q]]
          have fb: "fblk (sect s3) (cur s3 ?i) (k + 15) = b" using a(3) by (simp add: quiet_simps [OF q] quiet_cur [OF q])
          have "hand_back b s3 = Some (s3, Inr b)" by (rule hand_back_file [OF inv3 i fb [symmetric]])
          then show ?case using r3 inv3 ks3 fb a(4) True k by (simp add: bmap_post_def)
        qed
        then show ?thesis using Inr by simp
      qed
    qed
  qed
qed

lemma bmap_wp:
  assumes inv: "vol_inv I X s" and l: "biglock s > 0" and v: "v \<in> set (sfs_vnodes s)"
  shows "wp (sfs_bmap v k da s) (bmap_post I X s (ino_of s v) k da)"
proof (cases "k < 15")
  case True
  then show ?thesis using bmap_direct [OF inv l v] by blast
next
  case False
  let ?i = "ino_of s v" and ?k = "k - 15"
  have k: "k = ?k + 15" using False by simp
  show ?thesis
  proof (cases "?k < 128")
    case big: False
    then have "SFS_NINDIRECT \<le> ?k div SFS_DBPERIDB" by (simp add: SFS_NINDIRECT_def SFS_DBPERIDB_def)
    then have "sfs_bmap v k da s = Some (s, Inl EFBIG)" using False l by (simp add: sfs_bmap_def SFS_NDIRECT_def Let_def)
    then show ?thesis using inv big False by (simp add: bmap_post_def)
  next
    case True
    have dm: "?k div SFS_DBPERIDB = 0" "?k mod SFS_DBPERIDB = ?k" using True by (simp_all add: SFS_DBPERIDB_def)
    show ?thesis
    proof (cases "sfi_indirect (cur s ?i) = 0 \<and> \<not> da")
      case z: True
      then have "sfs_bmap v k da s = Some (s, Inr 0)"
        using False l vnode_cur [OF inv v] dm by (simp add: sfs_bmap_def SFS_NDIRECT_def SFS_NINDIRECT_def Let_def)
      moreover have "fblk (sect s) (cur s ?i) k = 0" using False z by (simp add: fblk_def)
      ultimately show ?thesis using inv z k True by (simp add: bmap_post_def)
    next
      case nz: False
      have e: "sfs_bmap v k da s = onok (get_idbuf v s) (\<lambda>(ib, ws) s.
          if ws ! ?k = 0 \<and> da then
            onok (sfs_balloc s) (\<lambda>b s. onok (sfs_writeblock ib (bytes_of (ws[?k := b])) s) (\<lambda>_ s. hand_back b s))
          else hand_back (ws ! ?k) s)"
        using False l vnode_cur [OF inv v] dm nz by (auto simp: sfs_bmap_def SFS_NDIRECT_def SFS_NINDIRECT_def Let_def cong: if_cong)
      show ?thesis unfolding e wp_onok
      proof (rule wp_mono [OF get_idbuf_wp [OF inv l v]], goal_cases)
        case (1 s1 r)
        then have inv1: "vol_inv I X s1" and ks: "keeps_files I s s1" and q: "\<not> da \<longrightarrow> quiet s s1" using nz by auto
        show ?case
        proof (cases r)
          case (Inl e)
          then show ?thesis using 1 nz True k by (auto simp: bmap_post_def)
        next
          case (Inr p)
          obtain ib ws where p: "p = (ib, ws)" by (cases p)
          have ib: "ib = sfi_indirect (cur s1 ?i)" "ib \<noteq> 0" "ws = words_of (sect s1 ib)" using 1 Inr p by auto
          have v1: "v \<in> set (sfs_vnodes s1)" "ino_of s1 v = ?i" "biglock s1 > 0" using v l calmD(7,8,16) [OF keeps_filesD(1) [OF ks]] by auto
          have "bmap_post I X s ?i k da s2 r2" if "bmap_post I X s1 (ino_of s1 v) (?k + 15) da s2 r2" for s2 r2
            using that keeps_files_trans [OF ks] quiet_trans q unfolding bmap_post_def v1(2) k [symmetric] by blast
          note post = this
          show ?thesis unfolding Inr p sum.case prod.case
            by (rule wp_mono [OF bmap_entry [OF inv1 v1(3,1) _ ib(2) True ib(3), of da]]) (use ib(1) v1(2) post in auto)
        qed
      qed
    qed
  qed
qed

end
