(* ===== verification/Sfs_Trunc.thy ===== *)
theory Sfs_Trunc
  imports Sfs_Bmap
begin

text \<open>
  \<^verbatim>\<open>sfs_itrunc\<close>. The blocks it keeps for a length of \<open>B\<close> blocks are those below \<open>B\<close> and, in the indirect part, also
  block \<open>B\<close> itself.
\<close>

definition kept :: "nat \<Rightarrow> nat \<Rightarrow> bool" where
  "kept B k \<longleftrightarrow> (if k < 15 then k < B else k \<le> B)"

definition trunc_data :: "nat \<Rightarrow> (nat \<Rightarrow> byte) \<Rightarrow> nat \<Rightarrow> byte" where
  "trunc_data B f off = (if kept B (off div 512) then f off else 0)"

section \<open>The direct blocks\<close>

lemma bfree_set_dinode: "sfs_bfree b (set_dinode v f s) = map_option (set_dinode v f) (sfs_bfree b s)"
  by (cases "bitmap_unmark (sfs_freemap s) b") (simp_all add: sfs_bfree_def set_dinode_def)

definition cut_direct :: "nat \<Rightarrow> nat \<Rightarrow> sfs_dinode \<Rightarrow> sfs_dinode" where
  "cut_direct B n d = d\<lparr>sfi_direct := map (\<lambda>k. if B \<le> k \<and> k < n then 0 else sfi_direct d ! k) [0..<15]\<rparr>"

lemma cut_direct_0: "dinode_ok d \<Longrightarrow> cut_direct B 0 d = d"
proof -
  assume "dinode_ok d"
  then have "map (\<lambda>k. sfi_direct d ! k) [0..<15] = sfi_direct d"
    by (intro nth_equalityI) (simp_all add: dinode_ok_def)
  then show ?thesis by (simp add: cut_direct_def)
qed

lemma cut_direct_Suc:
  "n < 15 \<Longrightarrow> cut_direct B (Suc n) d = (cut_direct B n d)\<lparr>sfi_direct := (if B \<le> n then (sfi_direct (cut_direct B n d))[n := 0] else sfi_direct (cut_direct B n d))\<rparr>"
proof -
  assume n: "n < 15"
  have "map (\<lambda>k. if B \<le> k \<and> k < Suc n then 0 else sfi_direct d ! k) [0..<15] =
      (if B \<le> n then (map (\<lambda>k. if B \<le> k \<and> k < n then 0 else sfi_direct d ! k) [0..<15])[n := 0]
       else map (\<lambda>k. if B \<le> k \<and> k < n then 0 else sfi_direct d ! k) [0..<15])"
    by (rule nth_equalityI) (use n in \<open>auto simp: nth_list_update less_Suc_eq\<close>)
  then show ?thesis by (simp add: cut_direct_def)
qed

lemma list_update_zero: "xs ! k = 0 \<Longrightarrow> xs[k := 0] = xs" for xs :: "nat list"
  by (metis list_update_id)

lemma trunc_direct_step:
  assumes inv: "vol_inv I X s" and v: "v \<in> set (sfs_vnodes s)" and k: "k < 15" and i: "i = ino_of s v"
  obtains s' where "trunc_direct v B k s = Some s'" "vol_inv I X s'" "calm s s'" "sect s' = sect s"
    "cur s' = (cur s)(i := (cur s i)\<lparr>sfi_direct := (if B \<le> k then (sfi_direct (cur s i))[k := 0] else sfi_direct (cur s i))\<rparr>)"
proof (cases "B \<le> k \<and> sfi_direct (cur s i) ! k \<noteq> 0")
  case False
  then have "trunc_direct v B k s = Some s" using vnode_cur [OF inv v] i by (auto simp: trunc_direct_def Let_def)
  moreover have "(if B \<le> k then (sfi_direct (cur s i))[k := 0] else sfi_direct (cur s i)) = sfi_direct (cur s i)"
    using False by (auto intro: list_update_zero)
  ultimately show ?thesis using that [of s] inv by (simp add: fun_upd_idem)
next
  case True
  let ?b = "sfi_direct (cur s i) ! k" and ?f = "\<lambda>d. d\<lparr>sfi_direct := (sfi_direct d)[k := 0]\<rparr>"
  note iI = vnode_in [OF inv v, folded i] and ok = vol_invD(6) [OF inv vnode_in [OF inv v, folded i]] and o = vol_invD(7) [OF inv]
  have len: "length (sfi_direct (cur s i)) = 15" using ok by (simp add: dinode_ok_def)
  have e: "places I s (i, Direct k) = ?b" using iI k by simp
  have nX: "?b \<notin> X" using ownD(7) [OF o, of "(i, Direct k)"] e True by metis
  let ?s1 = "set_dinode v ?f s"
  have inv1: "vol_inv I (insert ?b X) ?s1"
  proof (rule vol_inv_set_dinode [OF inv v])
    show "owned (occ (sect s) ((cur s)(ino_of s v := ?f (cur s (ino_of s v)))) I) (insert ?b X) s"
      unfolding i [symmetric] occ_set_direct [where C = "cur s", OF iI k len] using own_detach [OF o e] True by simp
    show "dinode_ok (?f (cur s (ino_of s v)))"
      using ok unfolding i [symmetric] by (auto simp: dinode_ok_def dest!: subsetD [OF set_update_subset_insert])
  qed simp
  obtain s2 where s2: "sfs_bfree ?b ?s1 = Some s2" "vol_inv I (insert ?b X - {?b}) s2" "calm ?s1 s2" "cur s2 = cur ?s1" "sect s2 = sect ?s1"
    using bfree_spec [OF inv1, of ?b] by auto
  have "trunc_direct v B k s = Some s2"
    using s2(1) True vnode_cur [OF inv v] i unfolding bfree_set_dinode by (auto simp: trunc_direct_def Let_def)
  moreover have "vol_inv I X s2" using s2(2) nX by simp
  moreover have "calm s s2" using calm_trans [OF calm_set_dinode s2(3)] .
  ultimately show ?thesis using that [of s2] s2(4,5) True cur_set_dinode [OF vol_invD(3) [OF inv] v, of ?f] i by simp
qed

lemma trunc_direct_loop:
  assumes inv: "vol_inv I X s" and v: "v \<in> set (sfs_vnodes s)" and n: "n \<le> 15" and i: "i = ino_of s v"
  shows "\<exists>s'. fold_opt (trunc_direct v B) [0..<n] s = Some s' \<and> vol_inv I X s' \<and> calm s s' \<and> sect s' = sect s
    \<and> cur s' = (cur s)(i := cut_direct B n (cur s i))"
  using n
proof (induction n)
  case 0
  have "dinode_ok (cur s i)" using vol_invD(6) [OF inv vnode_in [OF inv v]] i by simp
  then show ?case using inv by (simp add: cut_direct_0)
next
  case (Suc n)
  then obtain s1 where s1: "fold_opt (trunc_direct v B) [0..<n] s = Some s1" "vol_inv I X s1" "calm s s1" "sect s1 = sect s"
    "cur s1 = (cur s)(i := cut_direct B n (cur s i))" using Suc_leD by blast
  have v1: "v \<in> set (sfs_vnodes s1)" "i = ino_of s1 v" using v i calmD(7,16) [OF s1(3)] by auto
  have n: "n < 15" using Suc.prems by simp
  obtain s2 where s2: "trunc_direct v B n s1 = Some s2" "vol_inv I X s2" "calm s1 s2" "sect s2 = sect s1"
    "cur s2 = (cur s1)(i := (cur s1 i)\<lparr>sfi_direct := (if B \<le> n then (sfi_direct (cur s1 i))[n := 0] else sfi_direct (cur s1 i))\<rparr>)"
    using trunc_direct_step [OF s1(2) v1(1) n v1(2)] .
  have "cur s2 = (cur s)(i := cut_direct B (Suc n) (cur s i))" unfolding s2(5) s1(5) cut_direct_Suc [OF n] by simp
  moreover have "fold_opt (trunc_direct v B) [0..<Suc n] s = Some s2" using s1(1) s2(1) by (simp add: fold_opt_append)
  ultimately show ?case using s1(4) s2(2,4) calm_trans [OF s1(3) s2(3)] by metis
qed

section \<open>The indirect block\<close>

definition cut_entries :: "nat \<Rightarrow> nat \<Rightarrow> nat list \<Rightarrow> nat list" where
  "cut_entries B n ws = map (\<lambda>k. if B < 15 + k \<and> k < n then 0 else ws ! k) [0..<128]"

lemma cut_entries_nth [simp]: "k < 128 \<Longrightarrow> cut_entries B n ws ! k = (if B < 15 + k \<and> k < n then 0 else ws ! k)"
  by (simp add: cut_entries_def)

lemma length_cut_entries [simp]: "length (cut_entries B n ws) = 128"
  by (simp add: cut_entries_def)

lemma cut_entries_0: "length ws = 128 \<Longrightarrow> cut_entries B 0 ws = ws"
  by (rule nth_equalityI) simp_all

lemma cut_entries_Suc: "n < 128 \<Longrightarrow> cut_entries B (Suc n) ws = (if B < 15 + n then (cut_entries B n ws)[n := 0] else cut_entries B n ws)"
  by (rule nth_equalityI) (auto simp: nth_list_update less_Suc_eq)

lemma trunc_entries_loop:
  assumes base: "vol_base I s" and i: "i \<in> I" and ws: "length ws = 128" and o: "owned (with_entries (places I s) i ws) X s" and n: "n \<le> 128"
  shows "\<exists>s' dirty. fold_opt (trunc_indirect B) [0..<n] (s, ws, False) = Some (s', cut_entries B n ws, dirty)
    \<and> vol_base I s' \<and> owned (with_entries (places I s) i (cut_entries B n ws)) X s' \<and> calm s s' \<and> svs s' = svs s \<and> cur s' = cur s \<and> sect s' = sect s
    \<and> (\<not> dirty \<longrightarrow> cut_entries B n ws = ws)"
  using n
proof (induction n)
  case 0
  show ?case using base o ws by (intro exI [of _ s] exI [of _ False]) (simp add: cut_entries_0)
next
  case (Suc n)
  let ?ws = "cut_entries B n ws"
  have n: "n < 128" using Suc.prems by simp
  obtain s1 dirty where s1: "fold_opt (trunc_indirect B) [0..<n] (s, ws, False) = Some (s1, ?ws, dirty)" "vol_base I s1"
    "owned (with_entries (places I s) i ?ws) X s1" "calm s s1" "svs s1 = svs s" "cur s1 = cur s" "sect s1 = sect s" "\<not> dirty \<longrightarrow> ?ws = ws"
    using Suc by auto
  show ?case
  proof (cases "B < 15 + n \<and> ?ws ! n \<noteq> 0")
    case False
    then have "trunc_indirect B n (s1, ?ws, dirty) = Some (s1, ?ws, dirty)" by (simp only: trunc_indirect_def SFS_NDIRECT_def prod.case if_False)
    moreover have "cut_entries B (Suc n) ws = ?ws" unfolding cut_entries_Suc [OF n] using False by (auto intro: list_update_zero)
    ultimately show ?thesis using s1 by (simp add: fold_opt_append)
  next
    case True
    let ?b = "?ws ! n"
    have e: "with_entries (places I s) i ?ws (i, Entry n) = ?b" using n by simp
    have nX: "?b \<notin> X" using ownD(7) [OF s1(3), of "(i, Entry n)"] e True by metis
    have o1: "owned (with_entries (places I s) i (?ws[n := 0])) (insert ?b X) s1"
      unfolding with_entries_update [OF n length_cut_entries] using own_detach [OF s1(3) e] True by blast
    obtain s2 where s2: "sfs_bfree ?b s1 = Some s2" "vol_base I s2" "owned (with_entries (places I s) i (?ws[n := 0])) (insert ?b X - {?b}) s2"
      "calm s1 s2" "svs s2 = svs s1" "cur s2 = cur s1" "sect s2 = sect s1" using bfree_base [OF s1(2) o1, of ?b] by auto
    have "trunc_indirect B n (s1, ?ws, dirty) = Some (s2, ?ws[n := 0], True)"
      using True s2(1) unfolding trunc_indirect_def SFS_NDIRECT_def by simp
    moreover have "cut_entries B (Suc n) ws = ?ws[n := 0]" unfolding cut_entries_Suc [OF n] using True by simp
    ultimately show ?thesis using s1 s2 nX calm_trans [OF s1(4) s2(4)]
      by (intro exI [of _ s2] exI [of _ True]) (simp add: fold_opt_append)
  qed
qed

section \<open>The whole\<close>

lemma blk_attr: "sfi_direct d' = sfi_direct d \<Longrightarrow> sfi_indirect d' = sfi_indirect d \<Longrightarrow> blk S d' p = blk S d p"
  by (cases p) auto

lemma contents_attr: "sfi_direct d' = sfi_direct d \<Longrightarrow> sfi_indirect d' = sfi_indirect d \<Longrightarrow> contents S d' = contents S d"
  by (simp add: fun_eq_iff contents_def fblk_place blk_attr [of d' d])

text \<open>A change of an inode that moves no block.\<close>

lemma set_dinode_attr:
  assumes inv: "vol_inv I X s" and v: "v \<in> set (sfs_vnodes s)" and i: "i = ino_of s v"
    and f: "sfi_direct (f (cur s i)) = sfi_direct (cur s i)" "sfi_indirect (f (cur s i)) = sfi_indirect (cur s i)"
      "sfi_type (f (cur s i)) = sfi_type (cur s i)" "dinode_ok (f (cur s i))"
  shows "vol_inv I X (set_dinode v f s)" "cur (set_dinode v f s) = (cur s)(i := f (cur s i))"
    "file_at (set_dinode v f s) i = (file_at s i)\<lparr>f_links := sfi_linkcount (f (cur s i)), f_size := sfi_size (f (cur s i))\<rparr>"
    "j \<noteq> i \<Longrightarrow> file_at (set_dinode v f s) j = file_at s j"
proof -
  show c: "cur (set_dinode v f s) = (cur s)(i := f (cur s i))" using cur_set_dinode [OF vol_invD(3) [OF inv] v] i by simp
  have "occ (sect s) ((cur s)(i := f (cur s i))) I = places I s"
    by (rule ext) (auto simp: occ_def blk_attr [OF f(1,2)] split: prod.split)
  then show "vol_inv I X (set_dinode v f s)"
    using vol_inv_set_dinode [OF inv v, of f X] f(3,4) vol_invD(7) [OF inv] unfolding i by simp
  show "file_at (set_dinode v f s) i = (file_at s i)\<lparr>f_links := sfi_linkcount (f (cur s i)), f_size := sfi_size (f (cur s i))\<rparr>"
    unfolding c by (simp add: file_of_def f(3) contents_attr [OF f(1,2)])
  show "file_at (set_dinode v f s) j = file_at s j" if "j \<noteq> i" unfolding c using that by simp
qed

definition itrunc_post :: "nat set \<Rightarrow> nat set \<Rightarrow> sfs \<Rightarrow> nat \<Rightarrow> nat \<Rightarrow> sfs \<Rightarrow> errno + unit \<Rightarrow> bool" where
  "itrunc_post I X s i len s' r \<longleftrightarrow> vol_inv I X s' \<and> calm s s' \<and> (\<forall>j\<in>I. j \<noteq> i \<longrightarrow> file_at s' j = file_at s j) \<and>
    (case r of
       Inl e \<Rightarrow> e = EIO \<and> (\<exists>f. file_at s' i = (file_at s i)\<lparr>f_data := f\<rparr>)
     | Inr _ \<Rightarrow> file_at s' i = (file_at s i)\<lparr>f_size := len, f_data := trunc_data ((len + 511) div 512) (f_data (file_at s i))\<rparr>
         \<and> (len = 0 \<longrightarrow> (\<forall>p. blk (sect s') (cur s' i) p = 0)))"

text \<open>The end of \<^verbatim>\<open>sfs_itrunc\<close>: from a state in which the blocks are gone to one with the new size.\<close>

lemma itrunc_finish:
  assumes inv: "vol_inv I X s1" and c: "calm s s1" and v: "v \<in> set (sfs_vnodes s)" and i: "i = ino_of s v" and len: "len < 2 ^ 32"
    and j: "\<forall>j\<in>I. j \<noteq> i \<longrightarrow> file_at s1 j = file_at s j"
    and f: "file_at s1 i = (file_at s i)\<lparr>f_data := trunc_data ((len + 511) div 512) (f_data (file_at s i))\<rparr>"
    and z: "len = 0 \<Longrightarrow> \<forall>p. blk (sect s1) (cur s1 i) p = 0"
  shows "itrunc_post I X s i len (set_dinode v (\<lambda>d. d\<lparr>sfi_size := u32 len\<rparr>) s1) (Inr ())"
proof -
  have v1: "v \<in> set (sfs_vnodes s1)" "i = ino_of s1 v" using v i calmD(7,16) [OF c] by auto
  let ?f = "\<lambda>d. d\<lparr>sfi_size := u32 len\<rparr>"
  have ok: "dinode_ok (?f (cur s1 i))" using vol_invD(6) [OF inv vnode_in [OF inv v1(1)]] v1(2) by (simp add: dinode_ok_def)
  have u: "u32 len = len" using len by simp
  note a = set_dinode_attr [where f = ?f, OF inv v1 _ _ _ ok]
  have "blk (sect s1) (?f (cur s1 i)) p = blk (sect s1) (cur s1 i) p" for p by (rule blk_attr) simp_all
  moreover have "f_links (file_at s1 i) = sfi_linkcount (cur s1 i)" by (simp add: file_of_def)
  ultimately show ?thesis using a calm_trans [OF c calm_set_dinode] j f z unfolding itrunc_post_def u by (auto simp: fun_upd_same)
qed

text \<open>The contents after blocks have been dropped.\<close>

lemma file_trunc:
  assumes "sfi_type d' = sfi_type d" "sfi_linkcount d' = sfi_linkcount d" "sfi_size d' = sfi_size d"
    and k: "\<And>k. fblk S' d' k = (if K k then fblk S d k else 0)"
    and b: "\<And>k. K k \<Longrightarrow> fblk S d k \<noteq> 0 \<Longrightarrow> S' (fblk S d k) = S (fblk S d k)"
  shows "file_of S' d' = (file_of S d)\<lparr>f_data := (\<lambda>off. if K (off div 512) then f_data (file_of S d) off else 0)\<rparr>"
proof -
  have "contents S' d' off = (if K (off div 512) then contents S d off else 0)" for off
    using b [of "off div 512"] by (simp add: contents_def k Let_def)
  then show ?thesis using assms(1-3) by (simp add: file_of_def fun_eq_iff)
qed

lemma cut_direct_simps [simp]:
  "sfi_type (cut_direct B n d) = sfi_type d" "sfi_linkcount (cut_direct B n d) = sfi_linkcount d" "sfi_size (cut_direct B n d) = sfi_size d"
  "sfi_indirect (cut_direct B n d) = sfi_indirect d" "k < 15 \<Longrightarrow> sfi_direct (cut_direct B n d) ! k = (if B \<le> k \<and> k < n then 0 else sfi_direct d ! k)"
  by (simp_all add: cut_direct_def)

lemma fblk_cut_direct: "fblk S (cut_direct B 15 d) k = (if k < 15 \<and> B \<le> k then 0 else fblk S d k)"
  by (simp add: fblk_def)

lemma blk_all_zero: "(\<And>k. fblk S d k = 0) \<Longrightarrow> sfi_indirect d = 0 \<Longrightarrow> blk S d p = 0"
proof (cases p)
  case (Direct k)
  assume "\<And>k. fblk S d k = 0"
  then show ?thesis using Direct by (metis blk.simps(2) fblk_def)
qed simp_all

lemma vol_base_set_dinode:
  assumes base: "vol_base I s" and v: "v \<in> set (sfs_vnodes s)"
    and f: "sfi_type (f (cur s (ino_of s v))) = sfi_type (cur s (ino_of s v))" "dinode_ok (f (cur s (ino_of s v)))"
  shows "vol_base I (set_dinode v f s)"
proof -
  let ?s = "set_dinode v f s"
  note c = cur_set_dinode [OF vol_baseD(3) [OF base] v, of f]
  have "hw_ok ?s" using vol_baseD(1) [OF base] by (simp add: hw_ok_def bufs_ok_def)
  moreover have "freemap_ok ?s = freemap_ok s" by (simp only: freemap_ok_def set_dinode_simps)
  moreover have "vnode_ok ?s w" if "w \<in> set (sfs_vnodes s)" for w
    using vtab_okD(3) [OF vol_baseD(3) [OF base] that] f(1) cur_loaded [OF vol_baseD(3) [OF base] v] by (auto simp: vnode_ok_def)
  then have "vtab_ok ?s" using vtab_okD(1,2) [OF vol_baseD(3) [OF base]] by (simp add: vtab_ok_def)
  moreover have "\<forall>i\<in>I. dinode_ok (cur ?s i)" using vol_baseD(6) [OF base] f(2) unfolding c by simp
  ultimately show ?thesis using vol_baseD(2,4,5) [OF base] unfolding vol_base_def by simp
qed

text \<open>The indirect block goes when nothing is left in it.\<close>

lemma drop_indirect:
  assumes base: "vol_base I s" and o: "owned (with_entries (places I s) i ws) X s" and v: "v \<in> set (sfs_vnodes s)" and i: "i = ino_of s v"
    and ib: "sfi_indirect (cur s i) = ib" "ib \<noteq> 0" and z: "\<forall>k<128. ws ! k = 0"
  obtains s' where "sfs_bfree ib s = Some s'" "vol_inv I X (set_dinode v (\<lambda>d. d\<lparr>sfi_indirect := 0\<rparr>) s')"
    "cur (set_dinode v (\<lambda>d. d\<lparr>sfi_indirect := 0\<rparr>) s') = (cur s)(i := (cur s i)\<lparr>sfi_indirect := 0\<rparr>)" "calm s s'" "sect s' = sect s"
proof -
  let ?f = "\<lambda>d :: sfs_dinode. d\<lparr>sfi_indirect := 0\<rparr>" and ?m = "with_entries (places I s) i ws"
  have iI: "i \<in> I" using vol_baseD(4) [OF base] v i by (auto simp: loaded_def)
  have e: "?m (i, Ind) = ib" using iI ib by simp
  have nX: "ib \<notin> X" using ownD(7) [OF o, of "(i, Ind)"] e ib(2) by metis
  obtain s1 where s1: "sfs_bfree ib s = Some s1" "vol_base I s1" "owned (?m((i, Ind) := 0)) (insert ib X - {ib}) s1"
    "calm s s1" "svs s1 = svs s" "cur s1 = cur s" "sect s1 = sect s"
    using bfree_base [OF base own_detach [OF o e ib(2)], of ib] by auto
  have v1: "v \<in> set (sfs_vnodes s1)" "ino_of s1 v = i" using v i s1(5) calmD(7) [OF s1(4)] by auto
  have ok: "dinode_ok (?f (cur s i))" using vol_baseD(6) [OF base iI] by (simp add: dinode_ok_def)
  have b2: "vol_base I (set_dinode v ?f s1)" by (rule vol_base_set_dinode [OF s1(2) v1(1)]) (use ok v1 s1(6) in simp_all)
  have c: "cur (set_dinode v ?f s1) = (cur s)(i := ?f (cur s i))" using cur_set_dinode [OF vol_baseD(3) [OF s1(2)] v1(1)] v1(2) s1(6) by simp
  have "?m((i, Ind) := 0) = places I (set_dinode v ?f s1)"
    unfolding c set_dinode_simps s1(7) using occ_drop_ind [where C = "cur s" and S = "sect s", OF iI _ z] ib by simp
  then have "owned (places I (set_dinode v ?f s1)) X (set_dinode v ?f s1)" using s1(3) nX by simp
  then have "vol_inv I X (set_dinode v ?f s1)" using b2 by (simp add: vol_inv_def)
  then show ?thesis using that [OF s1(1) _ c s1(4,7)] by blast
qed

definition entries_cut :: "nat set \<Rightarrow> nat set \<Rightarrow> sfs \<Rightarrow> nat \<Rightarrow> nat \<Rightarrow> sfs \<Rightarrow> bool" where
  "entries_cut I X s i B s' \<longleftrightarrow> vol_inv I X s' \<and> calm s s' \<and> (\<forall>j\<in>I. j \<noteq> i \<longrightarrow> file_at s' j = file_at s j) \<and>
     file_at s' i = (file_at s i)\<lparr>f_data := (\<lambda>off. if off div 512 < 15 \<or> off div 512 \<le> B then f_data (file_at s i) off else 0)\<rparr> \<and>
     sfi_direct (cur s' i) = sfi_direct (cur s i) \<and> (B = 0 \<longrightarrow> sfi_indirect (cur s' i) = 0)"

lemma entries_cut_calm: "entries_cut I X s i B s' \<Longrightarrow> calm s s'"
  by (simp add: entries_cut_def)

lemma entries_cut_quiet: "entries_cut I X s i B s1 \<Longrightarrow> quiet s1 s2 \<Longrightarrow> entries_cut I X s i B s2"
  unfolding entries_cut_def using calm_trans [OF _ quiet_calm, of s s1 s2] by (simp add: quiet_simps quiet_cur vol_inv_quiet)

lemma fblk_own:
  assumes inv: "vol_inv I X s" and i: "i \<in> I" "sfi_indirect (cur s i) = ib" "ib \<noteq> 0"
  shows "fblk (sect s) (cur s j) k = ib \<Longrightarrow> j \<notin> I"
proof
  assume b: "fblk (sect s) (cur s j) k = ib" and j: "j \<in> I"
  then have "places I s (j, place_of k) = ib" "places I s (i, Ind) = ib" using i by (simp_all add: fblk_place)
  then have "(i, Ind) = (j, place_of k)" using ownD(4) [OF vol_invD(7) [OF inv]] i(3) by metis
  then show False by (metis place_of_simps(2) prod.inject)
qed

lemma entries_cut_drop:
  assumes inv: "vol_inv I X s" and s1: "vol_base I s1" "owned (with_entries (places I s) i (cut_entries B 128 ws)) X s1" "calm s s1" "svs s1 = svs s" "cur s1 = cur s" "sect s1 = sect s"
    and v: "v \<in> set (sfs_vnodes s)" and i: "i = ino_of s v" and ib: "sfi_indirect (cur s i) = ib" "ib \<noteq> 0"
    and ws: "ws = words_of (sect s ib)" and z: "\<forall>w\<in>set (cut_entries B 128 ws). w = 0"
  obtains s' where "sfs_bfree ib s1 = Some s'" "entries_cut I X s i B (set_dinode v (\<lambda>d. d\<lparr>sfi_indirect := 0\<rparr>) s')"
proof -
  let ?f = "\<lambda>d :: sfs_dinode. d\<lparr>sfi_indirect := 0\<rparr>"
  have zz: "cut_entries B 128 ws ! k = 0" if "k < 128" for k using z that by (simp only: set_conv_nth) auto
  have v1: "v \<in> set (sfs_vnodes s1)" "i = ino_of s1 v" using v i calmD(7,16) [OF s1(3)] by auto
  have o: "owned (with_entries (places I s1) i (cut_entries B 128 ws)) X s1" using s1(2) unfolding s1(5,6) .
  obtain s2 where s2: "sfs_bfree ib s1 = Some s2" "vol_inv I X (set_dinode v ?f s2)"
    "cur (set_dinode v ?f s2) = (cur s)(i := ?f (cur s i))" "calm s1 s2" "sect s2 = sect s"
    using drop_indirect [OF s1(1) o v1, of ib] ib zz unfolding s1(5,6) by metis
  have k: "fblk (sect s) (?f (cur s i)) k = (if k < 15 \<or> k \<le> B then fblk (sect s) (cur s i) k else 0)" for k
  proof -
    have "ws ! (k - 15) = 0" if "15 \<le> k" "k - 15 < 128" "k \<le> B" using zz [OF that(2)] that by (auto simp del: One_nat_def split: if_splits)
    then show ?thesis using ib ws by (auto simp: fblk_def)
  qed
  have "file_of (sect s) (?f (cur s i)) = (file_at s i)\<lparr>f_data := (\<lambda>off. if off div 512 < 15 \<or> off div 512 \<le> B then f_data (file_at s i) off else 0)\<rparr>"
    by (rule file_trunc [OF _ _ _ k]) simp_all
  moreover have "calm s (set_dinode v ?f s2)" using calm_trans [OF calm_trans [OF s1(3) s2(4)] calm_set_dinode] .
  ultimately have "entries_cut I X s i B (set_dinode v ?f s2)" using s2(2) unfolding entries_cut_def s2(3) set_dinode_simps s2(5) by simp
  then show ?thesis using that s2(1) by blast
qed

lemma entries_cut_write:
  assumes inv: "vol_inv I X s" and s1: "vol_base I s1" "owned (with_entries (places I s) i (cut_entries B 128 ws)) X s1" "calm s s1" "svs s1 = svs s" "cur s1 = cur s" "sect s1 = sect s"
    and i: "i \<in> I" and ib: "sfi_indirect (cur s i) = ib" "ib \<noteq> 0" and B: "B \<noteq> 0"
    and ws: "ws = words_of (sect s ib)"
  shows "entries_cut I X s i B (set_sector ib (bytes_of (cut_entries B 128 ws)) s1)"
proof -
  let ?ws = "cut_entries B 128 ws" and ?d = "bytes_of (cut_entries B 128 ws)"
  let ?s = "set_sector ib ?d s1"
  have l: "length ws = 128" using vol_invD(1) [OF inv] by (simp add: ws hw_ok_def)
  have "ws ! k < 2 ^ 32" if "k < 128" for k using words_of_less [of _ "sect s ib"] that l unfolding ws by (metis nth_mem)
  then have "?ws ! k < 2 ^ 32" if "k < 128" for k using that by simp
  then have "\<forall>w\<in>set ?ws. w < 2 ^ 32" by (metis in_set_conv_nth length_cut_entries)
  then have d: "length ?d = 512" "words_of ?d = ?ws" by simp_all
  have o: "owned (with_entries (places I s1) i ?ws) X s1" using s1(2) unfolding s1(5,6) .
  have ib1: "sfi_indirect (cur s1 i) = ib" using ib s1(5) by simp
  note w = set_sector_ind [OF s1(1) i ib1 ib(2) d o] and ci = contents_ind [OF o i ib1 ib(2) _ d]
  have "calm s1 ?s" using calm_set_sector [OF ind_place(4) [OF o i ib1 ib(2)]] .
  then have c: "calm s ?s" using calm_trans [OF s1(3)] by blast
  have j: "file_at ?s j = file_at s j" if "j \<in> I" "j \<noteq> i" for j
    using ci [OF that(1)] that(2) unfolding w(2) [OF that(1)] set_sector_simps s1(5,6) by (intro file_eqI) simp_all
  have k: "fblk ((sect s)(ib := ?d)) (cur s i) k = (if k < 15 \<or> k \<le> B then fblk (sect s) (cur s i) k else 0)" for k
    using ib d(2) ws by (simp add: fblk_def)
  have nb: "((sect s)(ib := ?d)) (fblk (sect s) (cur s i) k) = sect s (fblk (sect s) (cur s i) k)" for k
    using fblk_own [OF inv i ib, of i k] i by auto
  have "file_at ?s i = (file_at s i)\<lparr>f_data := (\<lambda>off. if off div 512 < 15 \<or> off div 512 \<le> B then f_data (file_at s i) off else 0)\<rparr>"
    unfolding w(2) [OF i] set_sector_simps s1(5,6) by (rule file_trunc [OF _ _ _ k nb]) simp_all
  then show ?thesis using w(1) c j B unfolding entries_cut_def w(2) [OF i] s1(5) by simp
qed


lemma entries_cut_same:
  assumes inv: "vol_inv I X s" and i: "i \<in> I" and ib: "sfi_indirect (cur s i) = ib" "ib \<noteq> 0" and B: "B \<noteq> 0"
    and ws: "cut_entries B 128 (words_of (sect s ib)) = words_of (sect s ib)"
    and s1: "vol_inv I X s1" "calm s s1" "cur s1 = cur s" "sect s1 = sect s"
  shows "entries_cut I X s i B s1"
proof -
  have "words_of (sect s ib) ! k = 0" if "k < 128" "B < 15 + k" for k
    using cut_entries_nth [OF that(1), of B 128 "words_of (sect s ib)"] that unfolding ws by simp
  then have k: "fblk (sect s) (cur s i) k = (if k < 15 \<or> k \<le> B then fblk (sect s) (cur s i) k else 0)" for k
    using ib by (simp add: fblk_def)
  have "file_at s i = (file_at s i)\<lparr>f_data := (\<lambda>off. if off div 512 < 15 \<or> off div 512 \<le> B then f_data (file_at s i) off else 0)\<rparr>"
    by (rule file_trunc [OF _ _ _ k]) simp_all
  then show ?thesis using s1 B unfolding entries_cut_def s1(3,4) by simp
qed

lemma trunc_indirect_wp:
  assumes inv: "vol_inv I X s" and l: "biglock s > 0" and v: "v \<in> set (sfs_vnodes s)" and i: "i = ino_of s v"
    and ib: "sfi_indirect (cur s i) = ib" "ib \<noteq> 0"
    and K: "\<And>s'. entries_cut I X s i B s' \<Longrightarrow> wp (K s') Q" and E: "\<And>s'. quiet s s' \<Longrightarrow> Q s' (Inl EIO)"
  shows "wp (onok (sfs_readblock ib s) (\<lambda>b s.
            do {
              (s, idbuf, iddirty) \<leftarrow> fold_opt (trunc_indirect B) [0..<128] (s, words_of b, False);
              if \<not> (\<exists>w\<in>set idbuf. w \<noteq> 0) then
                do { s \<leftarrow> sfs_bfree ib s; K (set_dinode v (\<lambda>d. d\<lparr>sfi_indirect := 0\<rparr>) s) }
              else if iddirty then onok (sfs_writeblock ib (bytes_of idbuf) s) (\<lambda>_ s. K s)
              else K s
            })) Q"
  unfolding wp_onok
proof (rule wp_mono [OF read_wp [OF inv l ind_not_ino(2) [OF inv vnode_in [OF inv v, folded i] ib]]], goal_cases)
  case (1 s1 r)
  then have q: "quiet s s1" by blast
  note iI = vnode_in [OF inv v, folded i] and inv1 = vol_inv_quiet [OF q inv]
  show ?case
  proof (cases "r = Inl EIO")
    case True
    then show ?thesis using E [OF q] by simp
  next
    case False
    then have r: "r = Inr (sect s ib)" using 1 by blast
    let ?ws = "words_of (sect s ib)"
    let ?cs = "cut_entries B 128 ?ws"
    have lw: "length ?ws = 128" using vol_invD(1) [OF inv] by (simp add: hw_ok_def)
    have o: "owned (with_entries (places I s1) i ?ws) X s1"
      using vol_invD(7) [OF inv1] with_entries_self [OF iI, of "cur s" "sect s"] ib by (simp add: quiet_simps [OF q] quiet_cur [OF q])
    obtain s2 dirty where s2: "fold_opt (trunc_indirect B) [0..<128] (s1, ?ws, False) = Some (s2, ?cs, dirty)" "vol_base I s2"
        "owned (with_entries (places I s1) i ?cs) X s2" "calm s1 s2" "svs s2 = svs s1" "cur s2 = cur s1" "sect s2 = sect s1" "\<not> dirty \<longrightarrow> ?cs = ?ws"
      using trunc_entries_loop [OF vol_invD(8) [OF inv1] iI lw o order_refl, of B] by blast
    have p: "owned (with_entries (places I s) i ?cs) X s2" "calm s s2" "svs s2 = svs s" "cur s2 = cur s" "sect s2 = sect s"
      using s2(3-7) calm_trans [OF quiet_calm [OF q]] by (simp_all add: quiet_simps [OF q] quiet_cur [OF q])
    show ?thesis
    proof (cases "\<exists>w\<in>set ?cs. w \<noteq> 0")
      case False
      then have "\<forall>w\<in>set ?cs. w = 0" by blast
      then obtain s3 where "sfs_bfree ib s2 = Some s3" "entries_cut I X s i B (set_dinode v (\<lambda>d. d\<lparr>sfi_indirect := 0\<rparr>) s3)"
        using entries_cut_drop [OF inv s2(2) p v i ib refl] by blast
      then show ?thesis using r s2(1) False K by simp
    next
      case nz: True
      have B: "B \<noteq> 0"
      proof
        assume "B = 0"
        then have "?cs ! k = 0" if "k < 128" for k using that by simp
        then show False using nz by (metis in_set_conv_nth length_cut_entries)
      qed
      show ?thesis
      proof (cases dirty)
        case True
        note c = entries_cut_write [OF inv s2(2) p iI ib B refl]
        have "ib < lh_blocks (disk s2)"
          using ind_not_ino(2) [OF inv iI ib] freemap_okD(5) [OF vol_invD(2) [OF inv]] calmD(1) [OF p(2)] by simp
        then have "wp (sfs_writeblock ib (bytes_of ?cs) s2) (\<lambda>s' r. r = Inr () \<and> quiet (set_sector ib (bytes_of ?cs) s2) s')"
          using l calmD(8) [OF p(2)] by (intro writeblock_wp [OF vol_baseD(1) [OF s2(2)]]) simp_all
        then have "wp (sfs_writeblock ib (bytes_of ?cs) s2) (\<lambda>s' r. case r of Inl e \<Rightarrow> Q s' (Inl e) | Inr _ \<Rightarrow> wp (K s') Q)"
        proof (rule wp_mono, goal_cases)
          case (1 s3 r)
          then have q3: "quiet (set_sector ib (bytes_of ?cs) s2) s3" and "r = Inr ()" by auto
          moreover have "entries_cut I X s i B s3" by (rule entries_cut_quiet [OF c q3])
          ultimately show ?case using K by simp
        qed
        then show ?thesis using r s2(1) nz True by auto
      next
        case False
        have "vol_inv I X s2" using s2(2,3,8) False with_entries_self [OF iI, of "cur s" "sect s"] ib
          unfolding vol_inv_def p(4,5) by (simp add: quiet_simps [OF q] quiet_cur [OF q])
        then have "entries_cut I X s i B s2" using s2(8) False p by (intro entries_cut_same [OF inv iI ib B]) simp_all
        then show ?thesis using r s2(1) nz False K by auto
      qed
    qed
  qed
qed


lemma itrunc_wp:
  assumes inv: "vol_inv I X s" and l: "biglock s > 0" and v: "v \<in> set (sfs_vnodes s)" and i: "i = ino_of s v" and len: "len < 2 ^ 32"
  shows "wp (sfs_itrunc_body v len s) (itrunc_post I X s i len)"
proof -
  let ?B = "(len + 511) div 512" and ?K = "\<lambda>s. Some (set_dinode v (\<lambda>d. d\<lparr>sfi_size := u32 len\<rparr>) s, Inr ()) :: (sfs \<times> (errno + unit)) option"
  have B: "u32 ((len + SFS_BLOCKSIZE - 1) div SFS_BLOCKSIZE) = ?B" using len by (simp add: SFS_BLOCKSIZE_def)
  note iI = vnode_in [OF inv v, folded i]
  obtain s1 where s1: "fold_opt (trunc_direct v ?B) [0..<15] s = Some s1" "vol_inv I X s1" "calm s s1" "sect s1 = sect s"
    "cur s1 = (cur s)(i := cut_direct ?B 15 (cur s i))" using trunc_direct_loop [OF inv v order_refl i] by blast
  have v1: "v \<in> set (sfs_vnodes s1)" "i = ino_of s1 v" "biglock s1 > 0" using v i l calmD(7,8,16) [OF s1(3)] by auto
  have j1: "\<forall>j\<in>I. j \<noteq> i \<longrightarrow> file_at s1 j = file_at s j" using s1(4,5) by simp
  have f1: "file_at s1 i = (file_at s i)\<lparr>f_data := (\<lambda>off. if off div 512 < 15 \<longrightarrow> off div 512 < ?B then f_data (file_at s i) off else 0)\<rparr>"
    unfolding s1(4,5) fun_upd_same by (rule file_trunc) (simp_all add: fblk_cut_direct)
  have ind: "sfi_indirect (sv_i (svs s1 v)) = sfi_indirect (cur s i)" using vnode_cur [OF s1(2) v1(1)] v1(2) s1(5) by simp
  have fin: "itrunc_post I X s i len (set_dinode v (\<lambda>d. d\<lparr>sfi_size := u32 len\<rparr>) s2) (Inr ())"
    if c: "entries_cut I X s1 i ?B s2" for s2
  proof (rule itrunc_finish [OF _ calm_trans [OF s1(3) entries_cut_calm [OF c]] v i len])
    show "vol_inv I X s2" "\<forall>j\<in>I. j \<noteq> i \<longrightarrow> file_at s2 j = file_at s j" using c j1 by (auto simp: entries_cut_def)
    show "file_at s2 i = (file_at s i)\<lparr>f_data := trunc_data ?B (f_data (file_at s i))\<rparr>"
      using c unfolding entries_cut_def f1 by (auto simp: trunc_data_def kept_def fun_eq_iff)
    show "\<forall>p. blk (sect s2) (cur s2 i) p = 0" if "len = 0"
    proof
      fix p
      have "sfi_indirect (cur s2 i) = 0" "sfi_direct (cur s2 i) = sfi_direct (cut_direct 0 15 (cur s i))"
        using c that s1(5) by (auto simp: entries_cut_def)
      then show "blk (sect s2) (cur s2 i) p = 0" by (cases p) simp_all
    qed
  qed
  show ?thesis
  proof (cases "?B < 142 \<and> sfi_indirect (cur s i) \<noteq> 0")
    case True
    let ?ib = "sfi_indirect (cur s i)"
    have e: "sfs_itrunc_body v len s = onok (sfs_readblock (?ib) s1) (\<lambda>b s.
            do {
              (s, idbuf, iddirty) \<leftarrow> fold_opt (trunc_indirect ?B) [0..<128] (s, words_of b, False);
              if \<not> (\<exists>w\<in>set idbuf. w \<noteq> 0) then
                do { s \<leftarrow> sfs_bfree (?ib) s; ?K (set_dinode v (\<lambda>d. d\<lparr>sfi_indirect := 0\<rparr>) s) }
              else if iddirty then onok (sfs_writeblock (?ib) (bytes_of idbuf) s) (\<lambda>_ s. ?K s)
              else ?K s
            })"
      using True s1(1) ind unfolding sfs_itrunc_body_def B Let_def SFS_NDIRECT_def SFS_DBPERIDB_def by (simp cong: if_cong)
    have q: "itrunc_post I X s i len s2 (Inl EIO)" if "quiet s1 s2" for s2
      using vol_inv_quiet [OF that s1(2)] calm_trans [OF s1(3) quiet_calm [OF that]] j1 f1
      unfolding itrunc_post_def quiet_simps [OF that] quiet_cur [OF that] by auto
    show ?thesis unfolding e
      by (rule trunc_indirect_wp [OF s1(2) v1(3,1,2)]) (use True fin q s1(5) in simp_all)
  next
    case False
    have e: "sfs_itrunc_body v len s = ?K s1"
      using False s1(1) ind unfolding sfs_itrunc_body_def B Let_def SFS_NDIRECT_def SFS_DBPERIDB_def by auto
    have k: "fblk (sect s1) (cur s1 i) k = (if k < 15 \<or> k \<le> ?B then fblk (sect s1) (cur s1 i) k else 0)" for k
      using False s1(5) by (auto simp: fblk_def)
    have "file_at s1 i = (file_at s1 i)\<lparr>f_data := (\<lambda>off. if off div 512 < 15 \<or> off div 512 \<le> ?B then f_data (file_at s1 i) off else 0)\<rparr>"
      by (rule file_trunc [OF _ _ _ k]) simp_all
    then have "entries_cut I X s1 i ?B s1" using s1(2,5) False by (auto simp: entries_cut_def)
    then show ?thesis unfolding e using fin by simp
  qed
qed

end
