(* ===== verification/Sfs_User.thy ===== *)
theory Sfs_User
  imports Sfs_Trunc
begin

text \<open>
  Reading and writing files moves data between blocks and a buffer of the user: what such a transfer does when the
  buffer can be reached, and when it cannot.
\<close>

section \<open>Transfers to and from a user's buffer\<close>

abbreviation ubase :: "uio \<Rightarrow> nat" where
  "ubase u \<equiv> iov_base (hd (uio_iov u))"

text \<open>A \<^verbatim>\<open>uio\<close> for one buffer of the current user, which is what the system calls make. The buffer may be anywhere.\<close>

definition user_uio :: "uio_rw \<Rightarrow> uio \<Rightarrow> machine \<Rightarrow> bool" where
  "user_uio rw u m \<longleftrightarrow> (\<exists>v. uio_iov u = [v] \<and> uio_resid u \<le> iov_len v \<and> iov_base v < 2 ^ 32) \<and> uio_resid u < 2 ^ 32
     \<and> user_kind rw u \<and> uio_space u = curas m \<and> \<not> badfault (uspace m)"

definition uadv :: "nat \<Rightarrow> uio \<Rightarrow> uio" where
  "uadv k u = u\<lparr>uio_iov := map (\<lambda>v. v\<lparr>iov_base := iov_base v + k, iov_len := iov_len v - k\<rparr>) (uio_iov u),
     uio_offset := uio_offset u + int k, uio_resid := uio_resid u - k\<rparr>"

lemma uadv_simps [simp]:
  "uadv 0 u = u" "uio_offset (uadv k u) = uio_offset u + int k" "uio_resid (uadv k u) = uio_resid u - k"
  "uio_dir (uadv k u) = uio_dir u" "uio_segflg (uadv k u) = uio_segflg u" "uio_space (uadv k u) = uio_space u"
  "uadv k (uadv j u) = uadv (j + k) u"
  by (simp_all add: uadv_def map_idI add.assoc)

lemma user_uio_adv:
  assumes "user_uio rw u m" "k = 0 \<or> ubase u + k \<le> 2 ^ 31" "curas m' = curas m" "\<not> badfault (uspace m')" "k \<le> uio_resid u"
  shows "user_uio rw (uadv k u) m'" "ubase (uadv k u) = ubase u + k"
  using assms by (auto simp: user_uio_def uadv_def user_kind_def)

lemma user_uioD:
  assumes "user_uio rw u m"
  shows "uio_dir u = rw" "uio_resid u < 2 ^ 32" "ubase u < 2 ^ 32" "\<not> badfault (uspace m)" "uio_segflg u \<noteq> UIO_SYSSPACE" "uio_space u = curas m"
  using assms by (auto simp: user_uio_def user_kind_def)

lemma advance_uadv: "user_uio rw u m \<Longrightarrow> k \<le> uio_resid u \<Longrightarrow> uio_advance k u = uadv k u"
  using advance_resid [of k u] by (auto simp: user_uio_def uio_advance_def uadv_def)

lemma uiomove_nothing: "user_uio rw u m \<Longrightarrow> uiomove ptr 0 u m = Some (u, m, Inr ())"
  by (simp add: uiomove_def user_uioD uiomove_loop.simps)

lemma uiomove_one:
  assumes u: "user_uio rw u m" and n: "0 < n" "n \<le> uio_resid u"
  shows "uiomove ptr n u m = (case uiomove_block ptr (ubase u) n u m of
      None \<Rightarrow> None | Some (m, Inl e) \<Rightarrow> Some (u, m, Inl e) | Some (m, Inr _) \<Rightarrow> Some (uadv n u, m, Inr ()))"
proof -
  obtain v where v: "uio_iov u = [v]" "uio_resid u \<le> iov_len v" using u by (auto simp: user_uio_def)
  have "uiomove_loop (ptr + n) 0 (uadv n u) m' = Some (uadv n u, m', Inr ())" for m' by (simp add: uiomove_loop.simps)
  then show ?thesis using n v advance_uadv [OF u n(2)] user_uioD [OF u]
    by (simp add: uiomove_def uiomove_loop.simps [of ptr n u m] min_absorb2 split: option.split sum.split)
qed

text \<open>What copying to the user may change.\<close>

definition touches :: "ucopy \<Rightarrow> ucopy \<Rightarrow> nat \<Rightarrow> nat \<Rightarrow> bool" where
  "touches us us' a n \<longleftrightarrow> \<not> badfault us' \<and> uw us' = uw us \<and> (\<forall>x. (um us' x = None) = (um us x = None))
     \<and> (\<forall>x. x < a \<or> a + n \<le> x \<longrightarrow> um us' x = um us x)"

lemma touches_refl [simp]: "touches us us a n \<longleftrightarrow> \<not> badfault us"
  by (simp add: touches_def)

lemma touches_mono: "touches us us' a n \<Longrightarrow> b \<le> a \<Longrightarrow> a + n \<le> b + k \<Longrightarrow> touches us us' b k"
  by (auto simp: touches_def)

lemma touches_trans: "touches us us1 a n \<Longrightarrow> touches us1 us2 a n \<Longrightarrow> touches us us2 a n"
  by (auto simp: touches_def)

lemma uiomove_out:
  assumes u: "user_uio UIO_READ u m" and n: "n \<le> uio_resid u"
  shows "\<exists>us'. touches (uspace m) us' (ubase u) n \<and>
    (uiomove ptr n u m = Some (u, m\<lparr>uspace := us'\<rparr>, Inl EFAULT) \<or>
     uiomove ptr n u m = Some (uadv n u, m\<lparr>uspace := us'\<rparr>, Inr ()) \<and> (n = 0 \<or> ubase u + n \<le> 2 ^ 31)
       \<and> (\<forall>i<n. um us' (ubase u + i) = Some (kmem m (ptr + i))))"
proof (cases "n = 0")
  case True
  then show ?thesis using uiomove_nothing [OF u] user_uioD(4) [OF u] by (intro exI [of _ "uspace m"]) simp
next
  case False
  then have n0: "0 < n" by simp
  note d = user_uioD [OF u]
  have b: "unat (of_nat (ubase u) :: 32 word) = ubase u" "unat (of_nat n :: 32 word) = n" using d(2,3) n by (simp_all add: unat_of_nat)
  have l: "length (kread m ptr n) = unat (of_nat n :: 32 word)" using b by (simp add: kread_def)
  obtain us' r where c: "copyout (kread m ptr n) (of_nat (ubase u)) (of_nat n) (uspace m) = Some (us', r)" "\<not> badfault us'" "uw us' = uw (uspace m)"
    "r = (if user_range (of_nat (ubase u)) (of_nat n) \<and> (\<forall>i<n. um (uspace m) (ubase u + i) \<noteq> None \<and> uw (uspace m) (ubase u + i)) then Inr () else Inl EFAULT)"
    "\<forall>x. x < ubase u \<or> ubase u + n \<le> x \<or> \<not> user_range (of_nat (ubase u)) (of_nat n) \<longrightarrow> um us' x = um (uspace m) x"
    "\<forall>x. (um us' x = None) = (um (uspace m) x = None)" "r = Inr () \<longrightarrow> (\<forall>i<n. um us' (ubase u + i) = Some (kread m ptr n ! i))"
    using copyout_spec [OF d(4) l, of "of_nat (ubase u)"] unfolding b by blast
  have bl: "uiomove_block ptr (ubase u) n u m = Some (m\<lparr>uspace := us'\<rparr>, r)" using c(1) d(1,5) by (simp add: uiomove_block_def)
  have t: "touches (uspace m) us' (ubase u) n" using c(2,3,5,6) by (simp add: touches_def)
  show ?thesis
  proof (cases "r = Inr ()")
    case True
    then have "ubase u + n \<le> 2 ^ 31" using c(4) unfolding user_range_def b by (auto split: if_splits)
    then show ?thesis using t uiomove_one [OF u n0 n] bl True c(7) by (intro exI [of _ us']) (simp add: kread_def)
  next
    case False
    then have "r = Inl EFAULT" using c(4) by (auto split: if_splits)
    then show ?thesis using t uiomove_one [OF u n0 n] bl by (intro exI [of _ us']) simp
  qed
qed

definition user_bytes :: "ucopy \<Rightarrow> nat \<Rightarrow> nat \<Rightarrow> byte list" where
  "user_bytes us a n = map (\<lambda>i. the (um us (a + i))) [0..<n]"

lemma length_user_bytes [simp]: "length (user_bytes us a n) = n"
  by (simp add: user_bytes_def)

lemma kwrite_nil: "kwrite p [] m = m"
  by (rule machine.equality) (auto simp: kwrite_def fun_eq_iff)

lemma uiomove_in:
  assumes u: "user_uio UIO_WRITE u m" and n: "n \<le> uio_resid u"
  shows "uiomove ptr n u m = Some (u, m, Inl EFAULT) \<or>
    uiomove ptr n u m = Some (uadv n u, kwrite ptr (user_bytes (uspace m) (ubase u) n) m, Inr ()) \<and> (n = 0 \<or> ubase u + n \<le> 2 ^ 31)"
proof (cases "n = 0")
  case True
  then show ?thesis using uiomove_nothing [OF u] by (simp add: user_bytes_def kwrite_nil)
next
  case False
  then have n0: "0 < n" by simp
  note d = user_uioD [OF u]
  have b: "unat (of_nat (ubase u) :: 32 word) = ubase u" "unat (of_nat n :: 32 word) = n" using d(2,3) n by (simp_all add: unat_of_nat)
  have e: "m\<lparr>uspace := uspace m\<rparr> = m" by simp
  show ?thesis using copyin_eq [OF d(4), of "of_nat (ubase u)" "of_nat n"] uiomove_one [OF u n0 n, of ptr] d(1,5)
    unfolding b by (auto simp: uiomove_block_def user_bytes_def user_range_def b split: if_splits)
qed

text \<open>Zeros for a hole in a file.\<close>

lemma movezeros_loop:
  assumes z: "\<forall>i<16. kmem m (z + i) = 0" and u: "user_uio UIO_READ u m" and n: "n \<le> uio_resid u"
  shows "\<exists>us' k. touches (uspace m) us' (ubase u) n \<and> k \<le> n \<and> (k = 0 \<or> ubase u + k \<le> 2 ^ 31) \<and> (\<forall>i<k. um us' (ubase u + i) = Some 0) \<and>
    (uiomovezeros_loop z n u m = Some (uadv k u, m\<lparr>uspace := us'\<rparr>, Inl EFAULT) \<or>
     uiomovezeros_loop z n u m = Some (uadv k u, m\<lparr>uspace := us'\<rparr>, Inr ()) \<and> k = n)"
  using assms
proof (induction n arbitrary: u m rule: less_induct)
  case (less n)
  show ?case
  proof (cases "n = 0")
    case True
    then show ?thesis using user_uioD(4) [OF less.prems(2)] by (intro exI [of _ "uspace m"] exI [of _ 0]) (simp add: uiomovezeros_loop.simps)
  next
    case False
    let ?a = "min 16 n" and ?b = "ubase u"
    have a: "?a \<le> uio_resid u" "0 < ?a" "?a \<le> n" using less.prems(3) False by auto
    obtain us1 where t1: "touches (uspace m) us1 ?b ?a" and c: "uiomove z ?a u m = Some (u, m\<lparr>uspace := us1\<rparr>, Inl EFAULT) \<or>
        uiomove z ?a u m = Some (uadv ?a u, m\<lparr>uspace := us1\<rparr>, Inr ()) \<and> ?b + ?a \<le> 2 ^ 31 \<and> (\<forall>i<?a. um us1 (?b + i) = Some 0)"
      using uiomove_out [OF less.prems(2) a(1), of z] less.prems(1) a(2) by auto
    have t: "touches (uspace m) us1 ?b n" using touches_mono [OF t1] by simp
    from c show ?thesis
    proof
      assume "uiomove z ?a u m = Some (u, m\<lparr>uspace := us1\<rparr>, Inl EFAULT)"
      then show ?thesis using t False by (intro exI [of _ us1] exI [of _ 0]) (simp add: uiomovezeros_loop.simps Let_def)
    next
      assume s: "uiomove z ?a u m = Some (uadv ?a u, m\<lparr>uspace := us1\<rparr>, Inr ()) \<and> ?b + ?a \<le> 2 ^ 31 \<and> (\<forall>i<?a. um us1 (?b + i) = Some 0)"
      let ?u = "uadv ?a u" and ?m = "m\<lparr>uspace := us1\<rparr>"
      have u1: "user_uio UIO_READ ?u ?m" "ubase ?u = ?b + ?a"
        using user_uio_adv [OF less.prems(2), of ?a ?m] s t1 a(1) by (auto simp: touches_def)
      have "n - ?a < n" "n - ?a \<le> uio_resid ?u" "\<forall>i<16. kmem ?m (z + i) = 0" using a less.prems(1,3) by auto
      from less.IH [OF this(1,3) u1(1) this(2)] obtain us' k where IH: "touches us1 us' (?b + ?a) (n - ?a)" "k \<le> n - ?a"
        "k = 0 \<or> ?b + ?a + k \<le> 2 ^ 31" "\<forall>i<k. um us' (?b + ?a + i) = Some 0"
        "uiomovezeros_loop z (n - ?a) ?u ?m = Some (uadv k ?u, m\<lparr>uspace := us'\<rparr>, Inl EFAULT) \<or>
         uiomovezeros_loop z (n - ?a) ?u ?m = Some (uadv k ?u, m\<lparr>uspace := us'\<rparr>, Inr ()) \<and> k = n - ?a"
        unfolding u1(2) by auto
      have st: "uiomovezeros_loop z n u m = uiomovezeros_loop z (n - ?a) ?u ?m" using s False by (subst uiomovezeros_loop.simps) (simp add: Let_def)
      have "touches us1 us' ?b n" using touches_mono [OF IH(1)] a(3) by simp
      then have "touches (uspace m) us' ?b n" using touches_trans [OF t] by blast
      moreover have "um us' (?b + i) = Some 0" if "i < ?a + k" for i
      proof (cases "i < ?a")
        case True
        then have "um us' (?b + i) = um us1 (?b + i)" using IH(1) by (simp add: touches_def)
        then show ?thesis using s True by simp
      next
        case False
        then have "um us' (?b + ?a + (i - ?a)) = Some 0" using IH(4) that by (metis add.commute less_diff_conv2 linorder_not_less)
        then show ?thesis using False by (simp add: add.assoc del: min_less_iff_conj)
      qed
      moreover have "?a + k \<le> n" "?b + (?a + k) \<le> 2 ^ 31" using IH(2,3) s a by auto
      ultimately show ?thesis using IH(5) unfolding st uadv_simps(7) by (intro exI [of _ us'] exI [of _ "?a + k"]) auto
    qed
  qed
qed


section \<open>States that differ in the memory of the user\<close>

definition with_us :: "ucopy \<Rightarrow> sfs \<Rightarrow> sfs" where
  "with_us us s = s\<lparr>mach := (mach s)\<lparr>uspace := us\<rparr>\<rparr>"

lemma with_us_simps [simp]:
  "disk (with_us us s) = disk s" "sfs_sb (with_us us s) = sfs_sb s" "sfs_superdirty (with_us us s) = sfs_superdirty s"
  "sfs_device (with_us us s) = sfs_device s" "sfs_vnodes (with_us us s) = sfs_vnodes s" "sfs_freemap (with_us us s) = sfs_freemap s"
  "sfs_freemapdirty (with_us us s) = sfs_freemapdirty s" "svs (with_us us s) = svs s" "biglock (with_us us s) = biglock s"
  "memok (with_us us s) = memok s" "ticks (with_us us s) = ticks s" "kbuf (with_us us s) = kbuf s" "iobuf (with_us us s) = iobuf s"
  "zeros (with_us us s) = zeros s" "kmem (mach (with_us us s)) = kmem (mach s)" "curas (mach (with_us us s)) = curas (mach s)"
  "uspace (mach (with_us us s)) = us" "scratch (with_us us s) = scratch s" "with_us us (with_us us' s) = with_us us s"
  "with_us (uspace (mach s)) s = s"
  by (simp_all add: with_us_def scratch_def)

lemma cur_with_us [simp]: "cur (with_us us s) = cur s"
  by (rule ext) (simp add: cur_def split: option.split)

lemma vol_inv_with_us [simp]: "vol_inv I X (with_us us s) = vol_inv I X s"
  by (simp only: vol_inv_def vol_base_def hw_ok_def bufs_ok_def freemap_ok_def vtab_ok_def vnode_ok_def loaded_def with_us_simps cur_with_us)

definition hush :: "sfs \<Rightarrow> sfs \<Rightarrow> bool" where
  "hush s s' \<longleftrightarrow> quiet s (with_us (uspace (mach s)) s')"

lemma hush_simps:
  assumes "hush s s'"
  shows "sect s' = sect s" "lh_blocks (disk s') = lh_blocks (disk s)" "media (disk s') = media (disk s)" "lh_buf (disk s') = lh_buf (disk s)"
    "sfs_sb s' = sfs_sb s" "sfs_superdirty s' = sfs_superdirty s" "sfs_device s' = sfs_device s" "sfs_vnodes s' = sfs_vnodes s" "sfs_freemap s' = sfs_freemap s"
    "sfs_freemapdirty s' = sfs_freemapdirty s" "svs s' = svs s" "biglock s' = biglock s" "memok s' = memok s" "ticks s' = ticks s" "kbuf s' = kbuf s"
    "iobuf s' = iobuf s" "zeros s' = zeros s" "curas (mach s') = curas (mach s)" "scratch s' = scratch s" "cur s' = cur s"
    "a \<notin> scratch s \<Longrightarrow> kmem (mach s') a = kmem (mach s) a"
proof -
  have q: "quiet s (with_us (uspace (mach s)) s')" using assms by (simp add: hush_def)
  show "sect s' = sect s" "lh_blocks (disk s') = lh_blocks (disk s)" "media (disk s') = media (disk s)" "lh_buf (disk s') = lh_buf (disk s)"
    "sfs_sb s' = sfs_sb s" "sfs_superdirty s' = sfs_superdirty s" "sfs_device s' = sfs_device s" "sfs_vnodes s' = sfs_vnodes s" "sfs_freemap s' = sfs_freemap s"
    "sfs_freemapdirty s' = sfs_freemapdirty s" "svs s' = svs s" "biglock s' = biglock s" "memok s' = memok s" "ticks s' = ticks s" "kbuf s' = kbuf s"
    "iobuf s' = iobuf s" "zeros s' = zeros s" "curas (mach s') = curas (mach s)" "scratch s' = scratch s" "cur s' = cur s"
    "a \<notin> scratch s \<Longrightarrow> kmem (mach s') a = kmem (mach s) a"
    using quiet_simps [OF q] quiet_cur [OF q] by simp_all
qed

lemma quiet_with_us: "quiet s s' \<Longrightarrow> quiet (with_us us s) (with_us us s')"
proof (elim quietE)
  fix n k
  assume s': "s' = s\<lparr>disk := (disk s)\<lparr>nops := n\<rparr>, mach := (mach s)\<lparr>kmem := k\<rparr>\<rparr>" and k: "\<And>a. a \<notin> scratch s \<Longrightarrow> k a = kmem (mach s) a"
  have "with_us us s' = (with_us us s)\<lparr>disk := (disk (with_us us s))\<lparr>nops := n\<rparr>, mach := (mach (with_us us s))\<lparr>kmem := k\<rparr>\<rparr>"
    unfolding s' by (simp add: with_us_def)
  then show ?thesis using quietI [of "with_us us s" k n] k by simp
qed

lemma quiet_hush: "quiet s s' \<Longrightarrow> hush s (with_us us s')"
proof -
  assume q: "quiet s s'"
  have "with_us (uspace (mach s)) s' = s'" using with_us_simps(20) [of s'] quiet_simps [OF q] by simp
  then show ?thesis using q by (simp add: hush_def)
qed

lemma hush_trans: "hush s s' \<Longrightarrow> hush s' s'' \<Longrightarrow> hush s s''"
  using quiet_trans quiet_with_us [of s' "with_us (uspace (mach s')) s''" "uspace (mach s)"] by (simp add: hush_def)

lemma vol_inv_hush: "hush s s' \<Longrightarrow> vol_inv I X s \<Longrightarrow> vol_inv I X s'"
  unfolding hush_def using vol_inv_quiet by fastforce

end
