(* ===== verification/Sfs_Read.thy ===== *)
theory Sfs_Read
  imports Sfs_User
begin

text \<open>
  Reading a file. A transfer in several parts is the composition of its parts.
\<close>

lemma wp_lift_uio [simp]: "wp (lift_uio u m) Q \<longleftrightarrow> wp m (\<lambda>s r. Q (u, s) r)"
  by (auto simp: lift_uio_def wp_def split: option.split)

text \<open>The common circumstances of the parts of a transfer. Offsets are below \<open>2 ^ 41\<close>, where block numbers still fit in 32 bits.\<close>

definition io_pre :: "uio_rw \<Rightarrow> nat set \<Rightarrow> nat set \<Rightarrow> nat \<Rightarrow> nat \<Rightarrow> uio \<Rightarrow> sfs \<Rightarrow> bool" where
  "io_pre rw I X v i u s \<longleftrightarrow> vol_inv I X s \<and> biglock s > 0 \<and> v \<in> set (sfs_vnodes s) \<and> i = ino_of s v \<and> user_uio rw u (mach s)
     \<and> 0 \<le> uio_offset u \<and> uio_offset u + int (uio_resid u) < 2 ^ 41"

lemma io_preD:
  assumes "io_pre rw I X v i u s"
  shows "vol_inv I X s" "biglock s > 0" "v \<in> set (sfs_vnodes s)" "i = ino_of s v" "user_uio rw u (mach s)" "i \<in> I" "uio_dir u = rw"
    "uio_offset u = int (nat (uio_offset u))" "nat (uio_offset u div 512 mod 2 ^ 32) = nat (uio_offset u) div 512" "nat (uio_offset u mod 512) = nat (uio_offset u) mod 512"
    "nat (uio_offset u) div 512 < 2 ^ 32" "0 \<le> uio_offset u" "uio_offset u + int (uio_resid u) < 2 ^ 41" "i < nblks s"
proof -
  show a: "vol_inv I X s" "biglock s > 0" "v \<in> set (sfs_vnodes s)" "i = ino_of s v" "user_uio rw u (mach s)" "0 \<le> uio_offset u" "uio_offset u + int (uio_resid u) < 2 ^ 41"
    using assms by (auto simp: io_pre_def)
  show "i \<in> I" using vnode_in [OF a(1,3)] a(4) by simp
  then show "i < nblks s" using ino_bound(1) [OF a(1)] by simp
  show "uio_dir u = rw" using user_uioD(1) [OF a(5)] .
  obtain k where k: "uio_offset u = int k" using a(6) nonneg_int_cases by blast
  then show "uio_offset u = int (nat (uio_offset u))" by simp
  have b: "k div 512 < 2 ^ 32" using a(7) k by simp
  then have "int k div 512 mod 2 ^ 32 = int (k div 512)" by (simp add: zdiv_int)
  then show "nat (uio_offset u div 512 mod 2 ^ 32) = nat (uio_offset u) div 512" unfolding k by simp
  show "nat (uio_offset u mod 512) = nat (uio_offset u) mod 512" unfolding k by (simp add: nat_mod_distrib)
  show "nat (uio_offset u) div 512 < 2 ^ 32" using b k by simp
qed

section \<open>Reading\<close>

definition read_post :: "sfs \<Rightarrow> nat \<Rightarrow> uio \<Rightarrow> nat \<Rightarrow> uio \<times> sfs \<Rightarrow> errno + unit \<Rightarrow> bool" where
  "read_post s i u n w r \<longleftrightarrow> (case w of (u', s') \<Rightarrow> hush s s' \<and> touches (uspace (mach s)) (uspace (mach s')) (ubase u) n \<and>
     (\<exists>k\<le>n. u' = uadv k u \<and> (k = 0 \<or> ubase u + k \<le> 2 ^ 31) \<and>
       (\<forall>j<k. um (uspace (mach s')) (ubase u + j) = Some (f_data (file_at s i) (nat (uio_offset u) + j))) \<and>
       (case r of Inl e \<Rightarrow> e \<in> {EIO, EFAULT, EFBIG} | Inr _ \<Rightarrow> k = n)))"

lemma read_postI:
  assumes "hush s s'" "touches (uspace (mach s)) (uspace (mach s')) (ubase u) n" "k \<le> n" "u' = uadv k u" "k = 0 \<or> ubase u + k \<le> 2 ^ 31"
    "\<And>j. j < k \<Longrightarrow> um (uspace (mach s')) (ubase u + j) = Some (f_data (file_at s i) (nat (uio_offset u) + j))"
    "case r of Inl e \<Rightarrow> e \<in> {EIO, EFAULT, EFBIG} | Inr _ \<Rightarrow> k = n"
  shows "read_post s i u n (u', s') r"
  using assms unfolding read_post_def by blast

lemma read_fails:
  assumes "quiet s s'" "user_uio rw u (mach s)" "e \<in> {EIO, EFAULT, EFBIG}"
  shows "read_post s i u n (u, s') (Inl e)"
proof -
  have e: "with_us (uspace (mach s')) s' = s'" "uspace (mach s') = uspace (mach s)" using quiet_simps [OF assms(1)] by simp_all
  have "hush s s'" using quiet_hush [OF assms(1), of "uspace (mach s')"] e(1) by simp
  then show ?thesis using user_uioD(4) [OF assms(2)] assms(3) e(2) by (intro read_postI [where k = 0]) simp_all
qed

lemma read_error_mono: "read_post s i u m w (Inl e) \<Longrightarrow> m \<le> n \<Longrightarrow> read_post s i u n w (Inl e)"
proof -
  assume p: "read_post s i u m w (Inl e)" and m: "m \<le> n"
  obtain u1 s1 where w: "w = (u1, s1)" by (cases w)
  from p obtain k where "hush s s1" "touches (uspace (mach s)) (uspace (mach s1)) (ubase u) m" "k \<le> m" "u1 = uadv k u" "k = 0 \<or> ubase u + k \<le> 2 ^ 31"
    "\<forall>j<k. um (uspace (mach s1)) (ubase u + j) = Some (f_data (file_at s i) (nat (uio_offset u) + j))" "e \<in> {EIO, EFAULT, EFBIG}"
    unfolding read_post_def w by auto
  then show ?thesis unfolding w using touches_mono [of "uspace (mach s)" _ "ubase u" m "ubase u" n] m by (intro read_postI [where k = k]) simp_all
qed

lemma read_ok:
  assumes p: "io_pre rw I X v i u s" and r: "read_post s i u n (u1, s1) (Inr ())" and n: "n \<le> uio_resid u"
  shows "io_pre rw I X v i u1 s1" "file_at s1 i = file_at s i" "hush s s1" "u1 = uadv n u" "ubase u1 = ubase u + n"
proof -
  note d = io_preD [OF p]
  show h: "hush s s1" and u1: "u1 = uadv n u" using r by (auto simp: read_post_def)
  have b: "n = 0 \<or> ubase u + n \<le> 2 ^ 31" "\<not> badfault (uspace (mach s1))" using r by (auto simp: read_post_def touches_def)
  note a = user_uio_adv [OF d(5) b(1) hush_simps(18) [OF h] b(2) n]
  show "ubase u1 = ubase u + n" using a(2) u1 by simp
  have "uio_offset u1 + int (uio_resid u1) < 2 ^ 41" using d(13) n u1 by simp
  then show "io_pre rw I X v i u1 s1" using d(2-4,12) vol_inv_hush [OF h d(1)] a(1) u1 by (simp add: io_pre_def hush_simps [OF h])
  show "file_at s1 i = file_at s i" by (simp add: hush_simps [OF h])
qed

lemma read_seq_post:
  assumes p: "io_pre rw I X v i u s" and r: "read_post s i u m (u1, s1) (Inr ())" and m: "m \<le> uio_resid u"
    and r2: "read_post s1 i u1 n w r"
  shows "read_post s i u (m + n) w r"
proof -
  note o = read_ok [OF p r m]
  obtain u2 s2 where w: "w = (u2, s2)" by (cases w)
  obtain k where h2: "hush s1 s2" and t2: "touches (uspace (mach s1)) (uspace (mach s2)) (ubase u + m) n" and k: "k \<le> n" "u2 = uadv k u1"
    "k = 0 \<or> ubase u + m + k \<le> 2 ^ 31" "\<And>j. j < k \<Longrightarrow> um (uspace (mach s2)) (ubase u + m + j) = Some (f_data (file_at s i) (nat (uio_offset u1) + j))"
    "case r of Inl e \<Rightarrow> e \<in> {EIO, EFAULT, EFBIG} | Inr _ \<Rightarrow> k = n"
    using r2 unfolding w read_post_def o(2,5) by auto
  have t1: "touches (uspace (mach s)) (uspace (mach s1)) (ubase u) m" and b: "m = 0 \<or> ubase u + m \<le> 2 ^ 31"
    and j1: "\<And>j. j < m \<Longrightarrow> um (uspace (mach s1)) (ubase u + j) = Some (f_data (file_at s i) (nat (uio_offset u) + j))"
    using r unfolding read_post_def by auto
  have off: "nat (uio_offset u1) = nat (uio_offset u) + m" using o(4) io_preD(12) [OF p] by simp
  show ?thesis unfolding w
  proof (rule read_postI [where k = "m + k"])
    show "hush s s2" using hush_trans [OF o(3) h2] .
    show "touches (uspace (mach s)) (uspace (mach s2)) (ubase u) (m + n)"
      by (rule touches_trans [OF touches_mono [OF t1] touches_mono [OF t2]]) simp_all
    show "m + k \<le> m + n" "u2 = uadv (m + k) u" "m + k = 0 \<or> ubase u + (m + k) \<le> 2 ^ 31" using k b o(4) by auto
    show "um (uspace (mach s2)) (ubase u + j) = Some (f_data (file_at s i) (nat (uio_offset u) + j))" if "j < m + k" for j
    proof (cases "j < m")
      case True
      then have "um (uspace (mach s2)) (ubase u + j) = um (uspace (mach s1)) (ubase u + j)" using t2 by (simp add: touches_def)
      then show ?thesis using j1 [OF True] by simp
    next
      case False
      then show ?thesis using k(4) [of "j - m"] that off by simp
    qed
    show "case r of Inl e \<Rightarrow> e \<in> {EIO, EFAULT, EFBIG} | Inr _ \<Rightarrow> m + k = m + n" using k(5) by (simp split: sum.splits)
  qed
qed

lemma read_seq:
  assumes p: "io_pre rw I X v i u s" and m: "m \<le> uio_resid u" and w: "wp c (read_post s i u m)"
    and k: "\<And>u1 s1. io_pre rw I X v i u1 s1 \<Longrightarrow> u1 = uadv m u \<Longrightarrow> hush s s1 \<Longrightarrow> wp (k (u1, s1)) (read_post s1 i u1 n)"
  shows "wp (onok c (\<lambda>_. k)) (read_post s i u (m + n))"
  unfolding wp_onok
proof (rule wp_mono [OF w], goal_cases)
  case (1 w r)
  show ?case
  proof (cases r)
    case (Inl e)
    then show ?thesis using read_error_mono [of s i u m w e "m + n"] 1 by simp
  next
    case (Inr x)
    obtain u1 s1 where us: "w = (u1, s1)" by (cases w)
    have r: "read_post s i u m (u1, s1) (Inr ())" using 1 Inr us by simp
    note o = read_ok [OF p r m]
    show ?thesis unfolding Inr sum.case us
      by (rule wp_mono [OF k [OF o(1,4,3)]]) (rule read_seq_post [OF p r m])
  qed
qed

text \<open>The block of a file that the next byte is in.\<close>

definition block_data :: "sfs \<Rightarrow> nat \<Rightarrow> byte list" where
  "block_data s b = (if b = 0 then replicate 512 0 else sect s b)"

lemma block_data_file:
  "b = fblk (sect s) (cur s i) k \<Longrightarrow> j < 512 \<Longrightarrow> off div 512 = k \<Longrightarrow> off mod 512 = j \<Longrightarrow> block_data s b ! j = f_data (file_at s i) off"
  by (simp add: block_data_def file_of_def contents_def Let_def)

lemma length_block_data: "vol_inv I X s \<Longrightarrow> length (block_data s b) = 512"
  using vol_invD(1) [of I X s] by (simp add: block_data_def hw_ok_def)

lemma load_block:
  assumes inv: "vol_inv I X s" and l: "biglock s > 0" and b: "i \<in> I" "b = fblk (sect s) (cur s i) k" and z: "b = 0 \<Longrightarrow> uio_dir u = UIO_READ"
  shows "wp (if b = 0 then do { kassert (uio_dir u = UIO_READ); Some ((u, s), Inr (replicate SFS_BLOCKSIZE 0)) } else lift_uio u (sfs_readblock b s))
    (\<lambda>(u', s') r. u' = u \<and> quiet s s' \<and> (r = Inl EIO \<or> r = Inr (block_data s b)))"
proof (cases "b = 0")
  case True
  then show ?thesis using z by (simp add: block_data_def SFS_BLOCKSIZE_def)
next
  case False
  have "b < nblks s" using ownD(5) [OF vol_invD(7) [OF inv], of "(i, place_of k)"] False b by (simp add: fblk_place)
  then show ?thesis using False wp_mono [OF read_wp [OF inv l, of b]] by (simp add: block_data_def)
qed

lemma quiet_iobuf: "length d = 512 \<Longrightarrow> quiet s (s\<lparr>mach := kwrite (iobuf s) d (mach s)\<rparr>)"
proof -
  assume d: "length d = 512"
  have e: "s\<lparr>mach := kwrite (iobuf s) d (mach s)\<rparr> = s\<lparr>disk := (disk s)\<lparr>nops := nops (disk s)\<rparr>, mach := (mach s)\<lparr>kmem := kmem (kwrite (iobuf s) d (mach s))\<rparr>\<rparr>"
    by (simp add: kwrite_def)
  have "kmem (kwrite (iobuf s) d (mach s)) a = kmem (mach s) a" if "a \<notin> scratch s" for a
    using that d by (auto simp: kmem_kwrite scratch_def)
  then show ?thesis by (subst e) (rule quietI)
qed


lemma block_pos: "sk = a mod 512 \<Longrightarrow> sk + j < 512 \<Longrightarrow> (a + j) div 512 = a div 512 \<and> (a + j) mod 512 = sk + j" for a :: nat
proof -
  assume "sk = a mod 512" "sk + j < 512"
  moreover have "a + j = a div 512 * 512 + (a mod 512 + j)" by simp
  ultimately show ?thesis by (metis add.left_neutral div_less div_mult_self1 mod_less mod_mult_self3 add.commute zero_neq_numeral)
qed

lemma partial_read:
  assumes p: "io_pre UIO_READ I X v i u s" and n: "n \<le> uio_resid u" "sk = nat (uio_offset u) mod 512" "sk + n \<le> 512"
  shows "wp (sfs_partialio v u sk n s) (read_post s i u n)"
proof -
  note d = io_preD [OF p]
  let ?k = "nat (uio_offset u) div 512"
  have e: "sfs_partialio v u sk n s = onok (lift_uio u (sfs_bmap v ?k False s)) (\<lambda>b (u, s).
      onok (if b = 0 then do { kassert (uio_dir u = UIO_READ); Some ((u, s), Inr (replicate SFS_BLOCKSIZE 0)) } else lift_uio u (sfs_readblock b s))
        (\<lambda>bs (u, s). onok (uiomove_s (iobuf s + sk) n u (s\<lparr>mach := kwrite (iobuf s) bs (mach s)\<rparr>)) (\<lambda>_ (u, s).
               if uio_dir u = UIO_WRITE then
                 lift_uio u (sfs_writeblock b (kread (mach s) (iobuf s) SFS_BLOCKSIZE) s)
               else Some ((u, s), Inr ()))))"
    using d(2,7,9) n(3) by (simp add: sfs_partialio_def SFS_BLOCKSIZE_def)
  show ?thesis unfolding e wp_onok wp_lift_uio
  proof (rule wp_mono [OF bmap_wp [OF d(1-3)]], goal_cases)
    case (1 s1 r)
    then have inv1: "vol_inv I X s1" and q: "quiet s s1" by (auto simp: bmap_post_def)
    show ?case
    proof (cases r)
      case (Inl e)
      then have "e \<in> {EIO, EFAULT, EFBIG}" using 1 by (auto simp: bmap_post_def)
      then show ?thesis using read_fails [OF q d(5)] Inl by simp
    next
      case (Inr b)
      have b: "b = fblk (sect s) (cur s i) ?k" using 1 Inr d(4) by (simp add: bmap_post_def quiet_simps [OF q] quiet_cur [OF q])
      have l1: "biglock s1 > 0" "b = fblk (sect s1) (cur s1 i) ?k" using d(2) b by (simp_all add: quiet_simps [OF q] quiet_cur [OF q])
      show ?thesis unfolding Inr sum.case prod.case wp_onok
      proof (rule wp_mono [OF load_block [OF inv1 l1(1) d(6) l1(2) d(7)]], goal_cases)
        case (1 w r2)
        obtain s2 where w: "w = (u, s2)" and q2: "quiet s1 s2" and r2: "r2 = Inl EIO \<or> r2 = Inr (block_data s1 b)" using 1 by (cases w) auto
        note q12 = quiet_trans [OF q q2]
        show ?case
        proof (cases "r2 = Inl EIO")
          case True
          then show ?thesis using read_fails [OF q12 d(5)] w by simp
        next
          case False
          let ?d = "block_data s1 b" and ?s3 = "s2\<lparr>mach := kwrite (iobuf s2) (block_data s1 b) (mach s2)\<rparr>"
          have ld: "length ?d = 512" using length_block_data [OF inv1] .
          note q3 = quiet_trans [OF q12 quiet_iobuf [OF ld]]
          have u3: "user_uio UIO_READ u (mach ?s3)" using d(5) by (simp add: user_uio_def quiet_simps [OF q12])
          have us: "uspace (mach ?s3) = uspace (mach s)" by (simp add: quiet_simps [OF q12])
          obtain us' where t: "touches (uspace (mach s)) us' (ubase u) n" and m: "uiomove (iobuf s2 + sk) n u (mach ?s3) = Some (u, (mach ?s3)\<lparr>uspace := us'\<rparr>, Inl EFAULT) \<or>
              uiomove (iobuf s2 + sk) n u (mach ?s3) = Some (uadv n u, (mach ?s3)\<lparr>uspace := us'\<rparr>, Inr ()) \<and> (n = 0 \<or> ubase u + n \<le> 2 ^ 31)
                \<and> (\<forall>i<n. um us' (ubase u + i) = Some (kmem (mach ?s3) (iobuf s2 + sk + i)))"
            using uiomove_out [OF u3 n(1), of "iobuf s2 + sk"] unfolding us by blast
          have h: "hush s (with_us us' ?s3)" using quiet_hush [OF q3] .
          have wu: "with_us us' ?s3 = s2\<lparr>mach := (mach ?s3)\<lparr>uspace := us'\<rparr>\<rparr>" by (simp add: with_us_def)
          from m show ?thesis
          proof
            assume "uiomove (iobuf s2 + sk) n u (mach ?s3) = Some (u, (mach ?s3)\<lparr>uspace := us'\<rparr>, Inl EFAULT)"
            moreover have "read_post s i u n (u, with_us us' ?s3) (Inl EFAULT)" using h t by (intro read_postI [where k = 0]) simp_all
            ultimately show ?thesis using w r2 False wu by (simp add: uiomove_s_def)
          next
            assume m: "uiomove (iobuf s2 + sk) n u (mach ?s3) = Some (uadv n u, (mach ?s3)\<lparr>uspace := us'\<rparr>, Inr ()) \<and> (n = 0 \<or> ubase u + n \<le> 2 ^ 31)
                \<and> (\<forall>i<n. um us' (ubase u + i) = Some (kmem (mach ?s3) (iobuf s2 + sk + i)))"
            have "kmem (mach ?s3) (iobuf s2 + sk + j) = f_data (file_at s i) (nat (uio_offset u) + j)" if "j < n" for j
            proof -
              have "kmem (mach ?s3) (iobuf s2 + sk + j) = ?d ! (sk + j)" using that n(3) ld by (simp add: kmem_kwrite)
              also have "\<dots> = f_data (file_at s1 i) (nat (uio_offset u) + j)"
                using block_pos [OF n(2), of j] that n(3) by (intro block_data_file [OF l1(2)]) simp_all
              finally show ?thesis by (simp add: quiet_simps [OF q] quiet_cur [OF q])
            qed
            then have "read_post s i u n (uadv n u, with_us us' ?s3) (Inr ())" using h t m by (intro read_postI [where k = n]) simp_all
            then show ?thesis using w r2 False m wu d(7) by (simp add: uiomove_s_def)
          qed
        qed
      qed
    qed
  qed
qed

text \<open>The \<^verbatim>\<open>uio\<close> as \<^verbatim>\<open>sfs_blockio\<close> lends it to the driver and takes it back.\<close>

definition lent :: "nat \<Rightarrow> uio \<Rightarrow> uio" where
  "lent b u = u\<lparr>uio_offset := int b * 512, uio_resid := 512\<rparr>"

definition taken_back :: "nat \<Rightarrow> uio \<Rightarrow> uio \<Rightarrow> uio" where
  "taken_back b u u' = u'\<lparr>uio_offset := uio_offset u' - int b * 512 + uio_offset u, uio_resid := uio_resid u' + uio_resid u - 512\<rparr>"

lemma lent_back:
  "taken_back b u (lent b u) = u" "512 \<le> uio_resid u \<Longrightarrow> taken_back b u (uadv 512 (lent b u)) = uadv 512 u"
  "uio_offset (lent b u) = int b * 512" "uio_resid (lent b u) = 512" "uio_dir (lent b u) = uio_dir u" "ubase (lent b u) = ubase u"
  by (simp_all add: taken_back_def lent_def uadv_def)

lemma lent_user: "user_uio rw u m \<Longrightarrow> 512 \<le> uio_resid u \<Longrightarrow> user_uio rw (lent b u) m"
  by (auto simp: user_uio_def lent_def user_kind_def)

lemma blockio_eq:
  assumes p: "io_pre rw I X v i u s" and n: "512 \<le> uio_resid u"
  shows "sfs_blockio v u s = onok (lift_uio u (sfs_bmap v (nat (uio_offset u) div 512) (rw = UIO_WRITE) s)) (\<lambda>b (u, s).
        if b = 0 then
          do {
            kassert (uio_dir u = UIO_READ);
            (u, m, r) \<leftarrow> uiomovezeros (zeros s) 512 u (mach s);
            Some ((u, s\<lparr>mach := m\<rparr>), r)
          }
        else
          do {
            let saveoff = uio_offset u;
            let diskoff = int (u32 (b * 512));
            kassert (uio_resid u \<ge> 512);
            let saveres = uio_resid u;
            ((u, s), r) \<leftarrow> sfs_rwblock (u\<lparr>uio_offset := diskoff, uio_resid := 512\<rparr>) s;
            Some ((u\<lparr>uio_offset := uio_offset u - diskoff + saveoff, uio_resid := uio_resid u + saveres - 512\<rparr>, s), r)
          })"
  using io_preD(7,9) [OF p] unfolding sfs_blockio_def SFS_BLOCKSIZE_def Let_def by simp

lemma block_rw:
  assumes b: "b < 2 ^ 23" and n: "512 \<le> uio_resid u" and l: "biglock s > 0"
  shows "(do {
            let saveoff = uio_offset u;
            let diskoff = int (u32 (b * 512));
            kassert (uio_resid u \<ge> 512);
            let saveres = uio_resid u;
            ((u, s), r) \<leftarrow> sfs_rwblock (u\<lparr>uio_offset := diskoff, uio_resid := 512\<rparr>) s;
            Some ((u\<lparr>uio_offset := uio_offset u - diskoff + saveoff, uio_resid := uio_resid u + saveres - 512\<rparr>, s), r)
          }) = (case rwblock_tries 10 (lent b u) s of None \<Rightarrow> None | Some ((u', s), r) \<Rightarrow> Some ((taken_back b u u', s), r))"
proof -
  have "u32 (b * 512) = b * 512" using b by simp
  then show ?thesis using n l by (simp add: sfs_rwblock_def lent_def taken_back_def Let_def split: option.split)
qed

lemma fblk_used:
  assumes "vol_inv I X s" "i \<in> I" "b = fblk (sect s) (cur s i) k" "b \<noteq> 0"
  shows "b < nblks s" "b < 2 ^ 23" "b < lh_blocks (disk s)" "lh_blocks (disk s) < 2 ^ 32"
proof -
  show b: "b < nblks s" using ownD(5) [OF vol_invD(7) [OF assms(1)], of "(i, place_of k)"] assms by (simp add: fblk_place)
  show "b < 2 ^ 23" "b < lh_blocks (disk s)" using b freemap_okD(5,6) [OF vol_invD(2) [OF assms(1)]] by simp_all
  show "lh_blocks (disk s) < 2 ^ 32" using vol_invD(1) [OF assms(1)] by (simp add: hw_ok_def)
qed

lemma block_read_disk:
  assumes p: "io_pre UIO_READ I X v i u s" and n: "512 \<le> uio_resid u" and b: "b = fblk (sect s) (cur s i) (nat (uio_offset u) div 512)" "b \<noteq> 0"
    and o: "nat (uio_offset u) mod 512 = 0"
  shows "wp (case rwblock_tries 10 (lent b u) s of None \<Rightarrow> None | Some ((u', s), r) \<Rightarrow> Some ((taken_back b u u', s), r)) (read_post s i u 512)"
proof -
  note d = io_preD [OF p] and f = fblk_used [OF io_preD(1) [OF p] io_preD(6) [OF p] b]
  let ?m = "kwrite (lh_buf (disk s)) (sect s b) (mach s)" and ?u = "lent b u" and ?lb = "lh_buf (disk s)"
  have ls: "length (sect s b) = 512" using vol_invD(1) [OF d(1)] by (simp add: hw_ok_def)
  have u: "user_uio UIO_READ ?u ?m" using lent_user [OF d(5) n, of b] by (simp add: user_uio_def)
  have q: "quiet s (s\<lparr>disk := (disk s)\<lparr>nops := c\<rparr>, mach := (mach s)\<lparr>kmem := kmem ?m\<rparr>\<rparr>)" for c
    by (rule quietI) (use ls in \<open>auto simp: kmem_kwrite scratch_def\<close>)
  have q0: "quiet s (s\<lparr>disk := (disk s)\<lparr>nops := c\<rparr>\<rparr>)" for c
    using quietI [of s "kmem (mach s)" c] by simp
  have h: "hush s (s\<lparr>disk := (disk s)\<lparr>nops := c\<rparr>, mach := ?m\<lparr>uspace := us'\<rparr>\<rparr>)" for c us'
    using quiet_hush [OF q, of us' c] by (simp add: with_us_def kwrite_def)
  obtain us' where t: "touches (uspace (mach s)) us' (ubase u) 512" and c: "uiomove ?lb 512 ?u ?m = Some (?u, ?m\<lparr>uspace := us'\<rparr>, Inl EFAULT) \<or>
     uiomove ?lb 512 ?u ?m = Some (uadv 512 ?u, ?m\<lparr>uspace := us'\<rparr>, Inr ()) \<and> ubase u + 512 \<le> 2 ^ 31
       \<and> (\<forall>i<512. um us' (ubase u + i) = Some (kmem ?m (?lb + i)))"
    using uiomove_out [OF u, of 512 ?lb] by (auto simp: lent_back)
  from c show ?thesis
  proof
    assume m: "uiomove ?lb 512 ?u ?m = Some (?u, ?m\<lparr>uspace := us'\<rparr>, Inl EFAULT)"
    have "read_post s i u 512 (u, s\<lparr>disk := (disk s)\<lparr>nops := c\<rparr>, mach := ?m\<lparr>uspace := us'\<rparr>\<rparr>) (Inl EFAULT)" for c
      using h t by (intro read_postI [where k = 0]) simp_all
    moreover have "read_post s i u 512 (u, s\<lparr>disk := (disk s)\<lparr>nops := c\<rparr>\<rparr>) (Inl EIO)" for c using read_fails [OF q0 d(5)] by simp
    moreover have "\<exists>c. rwblock_tries 10 ?u s = Some ((?u, s\<lparr>disk := (disk s)\<lparr>nops := c\<rparr>\<rparr>), Inl EIO)
        \<or> rwblock_tries 10 ?u s = Some ((?u, s\<lparr>disk := (disk s)\<lparr>nops := c\<rparr>, mach := ?m\<lparr>uspace := us'\<rparr>\<rparr>), Inl EFAULT)"
      by (rule rwblock_tries_read [OF lent_back(3,4) _ f(3,4) m]) (simp_all add: lent_back d(7))
    ultimately show ?thesis by (auto simp: lent_back)
  next
    assume m: "uiomove ?lb 512 ?u ?m = Some (uadv 512 ?u, ?m\<lparr>uspace := us'\<rparr>, Inr ()) \<and> ubase u + 512 \<le> 2 ^ 31
       \<and> (\<forall>i<512. um us' (ubase u + i) = Some (kmem ?m (?lb + i)))"
    have fd: "kmem ?m (?lb + j) = f_data (file_at s i) (nat (uio_offset u) + j)" if "j < 512" for j
    proof -
      have "kmem ?m (?lb + j) = block_data s b ! j" using that ls b(2) by (simp add: kmem_kwrite block_data_def)
      also have "\<dots> = f_data (file_at s i) (nat (uio_offset u) + j)"
        using block_pos [OF o [symmetric], of j] that by (intro block_data_file [OF b(1)]) simp_all
      finally show ?thesis .
    qed
    have "read_post s i u 512 (uadv 512 u, s\<lparr>disk := (disk s)\<lparr>nops := c\<rparr>, mach := ?m\<lparr>uspace := us'\<rparr>\<rparr>) (Inr ())" for c
      using h t m fd by (intro read_postI [where k = 512]) simp_all
    moreover have "read_post s i u 512 (u, s\<lparr>disk := (disk s)\<lparr>nops := c\<rparr>\<rparr>) (Inl EIO)" for c using read_fails [OF q0 d(5)] by simp
    moreover have "\<exists>c. rwblock_tries 10 ?u s = Some ((?u, s\<lparr>disk := (disk s)\<lparr>nops := c\<rparr>\<rparr>), Inl EIO)
        \<or> rwblock_tries 10 ?u s = Some ((uadv 512 ?u, s\<lparr>disk := (disk s)\<lparr>nops := c\<rparr>, mach := ?m\<lparr>uspace := us'\<rparr>\<rparr>), Inr ())"
      by (rule rwblock_tries_read [OF lent_back(3,4) _ f(3,4) conjunct1 [OF m]]) (simp_all add: lent_back d(7))
    ultimately show ?thesis using lent_back(2) [OF n] by (auto simp: lent_back)
  qed
qed


lemma block_read:
  assumes p: "io_pre UIO_READ I X v i u s" and n: "512 \<le> uio_resid u" and o: "nat (uio_offset u) mod 512 = 0"
  shows "wp (sfs_blockio v u s) (read_post s i u 512)"
  unfolding blockio_eq [OF p n] wp_onok wp_lift_uio
proof (rule wp_mono [OF bmap_wp [OF io_preD(1-3) [OF p]]], goal_cases)
  case (1 s1 r)
  note d = io_preD [OF p]
  from 1 have q: "quiet s s1" by (auto simp: bmap_post_def)
  show ?case
  proof (cases r)
    case (Inl e)
    then have "e \<in> {EIO, EFAULT, EFBIG}" using 1 by (auto simp: bmap_post_def)
    then show ?thesis using read_fails [OF q d(5)] Inl by simp
  next
    case (Inr b)
    have us: "with_us (uspace (mach s1)) s1 = s1" "uspace (mach s1) = uspace (mach s)" using quiet_simps [OF q] by simp_all
    have h: "hush s s1" using quiet_hush [OF q, of "uspace (mach s1)"] us(1) by simp
    have p1: "io_pre UIO_READ I X v i u s1" using p vol_inv_hush [OF h d(1)] by (simp add: io_pre_def user_uio_def hush_simps [OF h] us(2))
    have b: "b = fblk (sect s1) (cur s1 i) (nat (uio_offset u) div 512)" using 1 Inr d(4) by (simp add: bmap_post_def)
    have f1: "file_at s1 i = file_at s i" by (simp add: hush_simps [OF h])
    have post: "read_post s i u 512 w r" if "read_post s1 i u 512 w r" for w r
      using that hush_trans [OF h] unfolding read_post_def f1 us(2) by blast
    show ?thesis
    proof (cases "b = 0")
      case False
      then show ?thesis unfolding Inr sum.case prod.case if_not_P [OF False] block_rw [OF fblk_used(2) [OF io_preD(1,6) [OF p1] b False] n io_preD(2) [OF p1]]
        by (intro wp_mono [OF block_read_disk [OF p1 n b False o]] post)
    next
      case True
      have z: "\<forall>i<16. kmem (mach s1) (zeros s1 + i) = 0" using vol_invD(1) [OF io_preD(1) [OF p1]] by (simp add: hw_ok_def bufs_ok_def)
      obtain us' k where t: "touches (uspace (mach s)) us' (ubase u) 512" "k \<le> 512" "k = 0 \<or> ubase u + k \<le> 2 ^ 31" "\<forall>i<k. um us' (ubase u + i) = Some 0"
        and c: "uiomovezeros_loop (zeros s1) 512 u (mach s1) = Some (uadv k u, (mach s1)\<lparr>uspace := us'\<rparr>, Inl EFAULT) \<or>
          uiomovezeros_loop (zeros s1) 512 u (mach s1) = Some (uadv k u, (mach s1)\<lparr>uspace := us'\<rparr>, Inr ()) \<and> k = 512"
        using movezeros_loop [OF z io_preD(5) [OF p1] n] unfolding us(2) by blast
      have f: "f_data (file_at s1 i) (nat (uio_offset u) + j) = 0" if "j < 512" for j
        using block_data_file [OF b, of j "nat (uio_offset u) + j"] block_pos [OF o [symmetric], of j] that True by (simp add: block_data_def)
      have h1: "hush s (s1\<lparr>mach := (mach s1)\<lparr>uspace := us'\<rparr>\<rparr>)" using quiet_hush [OF q, of us'] by (simp add: with_us_def)
      have "read_post s i u 512 (uadv k u, s1\<lparr>mach := (mach s1)\<lparr>uspace := us'\<rparr>\<rparr>) r" if "case r of Inl e \<Rightarrow> e = EFAULT | Inr _ \<Rightarrow> k = 512" for r
        using h1 t f that f1 by (intro read_postI [where k = k]) (auto split: sum.splits)
      then show ?thesis using c True Inr d(7) by (auto simp: uiomovezeros_def)
    qed
  qed
qed

section \<open>The parts of a transfer\<close>

text \<open>
  What \<^verbatim>\<open>sfs_io\<close> relies on: \<open>post s u n\<close> is the outcome of a transfer of \<open>n\<close> bytes that starts with \<open>u\<close> in state \<open>s\<close>.
  Transfers compose, and the pieces within a block and of whole blocks do what they should.
\<close>

locale transfer =
  fixes pre :: "uio \<Rightarrow> sfs \<Rightarrow> bool" and post :: "sfs \<Rightarrow> uio \<Rightarrow> nat \<Rightarrow> uio \<times> sfs \<Rightarrow> errno + unit \<Rightarrow> bool" and v :: nat
  assumes pre_offset: "pre u s \<Longrightarrow> 0 \<le> uio_offset u"
    and empty: "pre u s \<Longrightarrow> post s u 0 (u, s) (Inr ())"
    and seq: "pre u s \<Longrightarrow> m \<le> uio_resid u \<Longrightarrow> wp c (post s u m) \<Longrightarrow>
      (\<And>u1 s1. pre u1 s1 \<Longrightarrow> u1 = uadv m u \<Longrightarrow> wp (k (u1, s1)) (post s1 u1 n)) \<Longrightarrow> wp (onok c (\<lambda>_. k)) (post s u (m + n))"
    and partial: "pre u s \<Longrightarrow> n \<le> uio_resid u \<Longrightarrow> sk = nat (uio_offset u) mod 512 \<Longrightarrow> sk + n \<le> 512 \<Longrightarrow> wp (sfs_partialio v u sk n s) (post s u n)"
    and block: "pre u s \<Longrightarrow> 512 \<le> uio_resid u \<Longrightarrow> nat (uio_offset u) mod 512 = 0 \<Longrightarrow> wp (sfs_blockio v u s) (post s u 512)"
begin

lemma offset_adv: "pre u s \<Longrightarrow> nat (uio_offset (uadv k u)) = nat (uio_offset u) + k"
  using pre_offset by (simp add: nat_add_distrib)

lemma blocks:
  assumes "pre u s" "n * 512 \<le> uio_resid u" "nat (uio_offset u) mod 512 = 0"
  shows "wp (blockio_loop n v u s) (post s u (n * 512))"
  using assms
proof (induction n arbitrary: u s)
  case 0
  then show ?case by (simp add: empty)
next
  case (Suc n)
  have r: "512 \<le> uio_resid u" using Suc.prems(2) by simp
  have "wp (onok (sfs_blockio v u s) (\<lambda>_. case_prod (blockio_loop n v))) (post s u (512 + n * 512))"
  proof (rule seq [OF Suc.prems(1) r block [OF Suc.prems(1) r Suc.prems(3)]], goal_cases)
    case (1 u1 s1)
    have "nat (uio_offset u1) mod 512 = 0" using Suc.prems(3) offset_adv [OF Suc.prems(1), of 512] 1(2) by simp
    then show ?case using Suc.IH [OF 1(1)] Suc.prems(2) 1(2) by simp
  qed
  then show ?case by (simp add: case_prod_beta')
qed

lemma whole_blocks:
  assumes p: "pre u s" and o: "nat (uio_offset u) mod 512 = 0"
  shows "wp (onok (blockio_loop (uio_resid u div 512) v u s) (\<lambda>_ (u, s).
      do { kassert (uio_resid u < 512); if uio_resid u > 0 then sfs_partialio v u 0 (uio_resid u) s else Some ((u, s), Inr ()) })) (post s u (uio_resid u))"
proof -
  let ?n = "uio_resid u div 512" and ?k = "uio_resid u mod 512"
  have "wp (onok (blockio_loop ?n v u s) (\<lambda>_ (u, s).
      do { kassert (uio_resid u < 512); if uio_resid u > 0 then sfs_partialio v u 0 (uio_resid u) s else Some ((u, s), Inr ()) })) (post s u (?n * 512 + ?k))"
  proof (rule seq [OF p _ blocks [OF p _ o]], goal_cases)
    case (3 u1 s1)
    have r: "uio_resid u1 = ?k" "uio_resid u1 < 512" unfolding 3(2) by (simp_all add: minus_div_mult_eq_mod)
    have o1: "0 = nat (uio_offset u1) mod 512" using offset_adv [OF p, of "?n * 512"] o 3(2) by simp
    show ?case
    proof (cases "uio_resid u1 = 0")
      case True
      then show ?thesis using r by (simp add: empty [OF 3(1)])
    next
      case False
      then show ?thesis using partial [OF 3(1) _ o1, of ?k] r by simp
    qed
  qed (simp_all add: div_times_less_eq_dividend)
  then show ?thesis by (simp only: div_mult_mod_eq)
qed

lemma parts:
  assumes p: "pre u s"
  shows "wp (sfs_io_parts v u s) (post s u (uio_resid u))"
proof -
  let ?b = "nat (uio_offset u) mod 512"
  let ?n = "if ?b \<noteq> 0 then min (512 - ?b) (uio_resid u) else 0"
  have e: "nat (uio_offset u mod int SFS_BLOCKSIZE) = ?b" using pre_offset [OF p] by (simp add: SFS_BLOCKSIZE_def nat_mod_distrib)
  have b: "?b < 512" by simp
  have "wp (sfs_io_parts v u s) (post s u (?n + (uio_resid u - ?n)))"
    unfolding sfs_io_parts_def Let_def e
  proof (rule seq [OF p], goal_cases)
    case 2
    have bn: "?b + min (512 - ?b) (uio_resid u) \<le> 512" using b by linarith
    show ?case
    proof (cases "?b = 0")
      case True
      then show ?thesis by (simp add: empty [OF p])
    next
      case False
      then show ?thesis using partial [OF p _ refl bn] by (simp add: SFS_BLOCKSIZE_def)
    qed
  next
    case (3 u1 s1)
    have r: "uio_resid u1 = uio_resid u - ?n" using 3(2) by simp
    show ?case
    proof (cases "uio_resid u1 = 0")
      case True
      then show ?thesis using r by (simp add: empty [OF 3(1)])
    next
      case False
      have o1: "nat (uio_offset u1) mod 512 = 0"
      proof (cases "?b = 0")
        case True
        then show ?thesis using 3(2) by simp
      next
        case nz: False
        then have "?n = 512 - ?b" using False r by (simp split: if_splits)
        moreover have "(nat (uio_offset u) + (512 - ?b)) mod 512 = 0" using b by (metis add_diff_inverse_nat less_imp_le_nat linorder_not_less mod_add_left_eq mod_self)
        ultimately show ?thesis using offset_adv [OF p, of ?n] 3(2) by simp
      qed
      have "nat (uio_offset u1 mod 512) = 0" using o1 pre_offset [OF 3(1)] by (simp add: nat_mod_distrib)
      then have "uio_offset u1 mod int SFS_BLOCKSIZE = 0" by (simp add: SFS_BLOCKSIZE_def)
      then show ?thesis using whole_blocks [OF 3(1) o1] False unfolding r [symmetric] by (simp add: SFS_BLOCKSIZE_def)
    qed
  qed auto
  then show ?thesis by simp
qed

end

interpretation reading: transfer "io_pre UIO_READ I X v i" "\<lambda>s u. read_post s i u" v for I X v i
proof unfold_locales
  show "0 \<le> uio_offset u" if "io_pre UIO_READ I X v i u s" for u s using io_preD(12) [OF that] .
  show "read_post s i u 0 (u, s) (Inr ())" if "io_pre UIO_READ I X v i u s" for u s
    using quiet_hush [of s s "uspace (mach s)"] user_uioD(4) [OF io_preD(5) [OF that]] by (intro read_postI [where k = 0]) simp_all
qed (rule read_seq partial_read block_read; assumption | blast)+


section \<open>The whole read\<close>

text \<open>How many bytes a read can give: up to the end of the file.\<close>

definition readable_bytes :: "afile \<Rightarrow> uio \<Rightarrow> nat" where
  "readable_bytes f u = min (uio_resid u) (f_size f - nat (uio_offset u))"

lemma extra_resid:
  assumes "off < sz" "r < 2 ^ 32"
  shows "(if int off + int r > int sz then nat ((int off + int r - int sz) mod 2 ^ 32) else 0) = r - min r (sz - off)"
proof (cases "off + r > sz")
  case True
  then have "int off + int r - int sz = int (off + r - sz)" by simp
  moreover have "off + r - sz = r - min r (sz - off)" "off + r - sz < 2 ^ 32" using True assms by auto
  ultimately have "nat ((int off + int r - int sz) mod 2 ^ 32) = r - min r (sz - off)" by (simp add: nat_mod_distrib)
  then show ?thesis using True by simp
qed simp

lemma io_read_wp:
  assumes p: "io_pre UIO_READ I X v i u s"
  shows "wp (sfs_io v u s) (read_post s i u (readable_bytes (file_at s i) u))"
proof -
  note d = io_preD [OF p]
  let ?sz = "sfi_size (cur s i)" and ?o = "nat (uio_offset u)"
  have sz: "sfi_size (sv_i (svs s v)) = ?sz" "f_size (file_at s i) = ?sz" "?sz < 2 ^ 32"
    using vnode_cur [OF d(1,3)] d(4) vol_invD(6) [OF d(1,6)] by (simp_all add: file_of_def dinode_ok_def)
  show ?thesis
  proof (cases "?sz \<le> ?o")
    case True
    then have "int ?sz \<le> uio_offset u" using d(8) by linarith
    then have "sfs_io v u s = Some ((u, s), Inr ())" using d(7) sz(1) by (simp add: sfs_io_def)
    then show ?thesis using reading.empty [OF p] True sz(2) by (simp add: readable_bytes_def)
  next
    case False
    let ?n = "min (uio_resid u) (?sz - ?o)" and ?x = "uio_resid u - min (uio_resid u) (?sz - ?o)"
    let ?u = "u\<lparr>uio_resid := ?n\<rparr>"
    have r32: "uio_resid u < 2 ^ 32" using user_uioD(2) [OF d(5)] .
    have x: "(if uio_offset u + int (uio_resid u) > int ?sz then nat ((uio_offset u + int (uio_resid u) - int ?sz) mod 2 ^ 32) else 0) = ?x"
      using extra_resid [OF _ r32, of ?o ?sz] False unfolding d(8) [symmetric] by (simp only: linorder_not_le)
    have k: "uio_offset u + int (uio_resid u) > int ?sz \<longrightarrow> uio_resid u > ?x" using False d(8) by (auto simp: min_def split: if_splits)
    have e: "sfs_io v u s = do { ((u', s), r) \<leftarrow> sfs_io_parts v ?u s; Some (sfs_io_out v (uio_resid u) ?x u' s, r) }"
    proof -
      have "\<not> int ?sz \<le> uio_offset u" using False d(8) by linarith
      moreover have "u\<lparr>uio_resid := uio_resid u - ?x\<rparr> = ?u" by simp
      ultimately show ?thesis using k unfolding sfs_io_def Let_def sz(1) x [symmetric] d(7) by (simp add: x cong: if_cong)
    qed
    have p1: "io_pre UIO_READ I X v i ?u s" using p r32 unfolding io_pre_def user_uio_def user_kind_def by auto
    have post: "read_post s i u ?n (sfs_io_out v (uio_resid u) ?x u' s') r" if q: "read_post s i ?u ?n (u', s') r" for u' s' r
    proof -
      obtain c where h: "hush s s'" "touches (uspace (mach s)) (uspace (mach s')) (ubase u) ?n" and c: "c \<le> ?n" "u' = uadv c ?u" "c = 0 \<or> ubase u + c \<le> 2 ^ 31"
        "\<And>j. j < c \<Longrightarrow> um (uspace (mach s')) (ubase u + j) = Some (f_data (file_at s i) (nat (uio_offset u) + j))"
        "case r of Inl e \<Rightarrow> e \<in> {EIO, EFAULT, EFBIG} | Inr _ \<Rightarrow> c = ?n"
        using q unfolding read_post_def by auto
      have "u32 (?n - c + ?x) = uio_resid u - c" using c(1) r32 by simp
      then have "sfs_io_out v (uio_resid u) ?x u' s' = (uadv c u, s')" using c(2) d(7) by (simp add: sfs_io_out_def uadv_def)
      then show ?thesis using h c by (simp add: read_postI)
    qed
    have "?n = readable_bytes (file_at s i) u" using sz(2) by (simp add: readable_bytes_def)
    then show ?thesis unfolding e wp_bind using reading.parts [OF p1] post by (auto elim!: wp_mono)
  qed
qed

end
