(* ===== verification/Sfs_Write.thy ===== *)
theory Sfs_Write
  imports Sfs_Read
begin

text \<open>
  Writing a file: bytes of the user lie over the contents of the file, as far as the transfer came.
\<close>

definition overlay :: "nat \<Rightarrow> byte list \<Rightarrow> (nat \<Rightarrow> byte) \<Rightarrow> nat \<Rightarrow> byte" where
  "overlay off bs f x = (if off \<le> x \<and> x < off + length bs then bs ! (x - off) else f x)"

lemma overlay_nil [simp]: "overlay off [] f = f"
  by (rule ext) (auto simp: overlay_def)

lemma overlay_user:
  "overlay (off + m) (user_bytes us (b + m) k) (overlay off (user_bytes us b m) f) = overlay off (user_bytes us b (m + k)) f"
proof
  fix x
  show "overlay (off + m) (user_bytes us (b + m) k) (overlay off (user_bytes us b m) f) x = overlay off (user_bytes us b (m + k)) f x"
    by (cases "x < off + m") (auto simp: overlay_def user_bytes_def algebra_simps)
qed

text \<open>The largest file: 15 direct blocks and 128 in the indirect block.\<close>

definition max_size :: nat where
  "max_size = 143 * 512"

definition write_post :: "nat set \<Rightarrow> nat set \<Rightarrow> sfs \<Rightarrow> nat \<Rightarrow> uio \<Rightarrow> nat \<Rightarrow> uio \<times> sfs \<Rightarrow> errno + unit \<Rightarrow> bool" where
  "write_post I X s i u n w r \<longleftrightarrow> (case w of (u', s') \<Rightarrow> vol_inv I X s' \<and> calm s s' \<and> (\<forall>j\<in>I. j \<noteq> i \<longrightarrow> file_at s' j = file_at s j) \<and>
     (\<exists>k\<le>n. u' = uadv k u \<and> (k = 0 \<or> ubase u + k \<le> 2 ^ 31 \<and> nat (uio_offset u) + k \<le> max_size) \<and>
       file_at s' i = (file_at s i)\<lparr>f_data := overlay (nat (uio_offset u)) (user_bytes (uspace (mach s)) (ubase u) k) (f_data (file_at s i))\<rparr> \<and>
       (case r of Inl e \<Rightarrow> e \<in> {EIO, EFAULT, EFBIG, ENOSPC} | Inr _ \<Rightarrow> k = n)))"

lemma write_postI:
  assumes "vol_inv I X s'" "calm s s'" "\<And>j. j \<in> I \<Longrightarrow> j \<noteq> i \<Longrightarrow> file_at s' j = file_at s j" "k \<le> n" "u' = uadv k u"
    "k = 0 \<or> ubase u + k \<le> 2 ^ 31 \<and> nat (uio_offset u) + k \<le> max_size"
    "file_at s' i = (file_at s i)\<lparr>f_data := overlay (nat (uio_offset u)) (user_bytes (uspace (mach s)) (ubase u) k) (f_data (file_at s i))\<rparr>"
    "case r of Inl e \<Rightarrow> e \<in> {EIO, EFAULT, EFBIG, ENOSPC} | Inr _ \<Rightarrow> k = n"
  shows "write_post I X s i u n (u', s') r"
  using assms unfolding write_post_def by blast

lemma write_none:
  assumes "vol_inv I X s'" "keeps_files I s s'" "i \<in> I" "case r of Inl e \<Rightarrow> e \<in> {EIO, EFAULT, EFBIG, ENOSPC} | Inr _ \<Rightarrow> n = 0"
  shows "write_post I X s i u n (u, s') r"
  using assms keeps_filesD [OF assms(2)] by (intro write_postI [where k = 0]) (simp_all add: user_bytes_def split: sum.splits)

lemma write_postE:
  assumes "write_post I X s i u n (u', s') r"
  obtains k where "vol_inv I X s'" "calm s s'" "\<And>j. j \<in> I \<Longrightarrow> j \<noteq> i \<Longrightarrow> file_at s' j = file_at s j" "k \<le> n" "u' = uadv k u"
    "k = 0 \<or> ubase u + k \<le> 2 ^ 31 \<and> nat (uio_offset u) + k \<le> max_size"
    "file_at s' i = (file_at s i)\<lparr>f_data := overlay (nat (uio_offset u)) (user_bytes (uspace (mach s)) (ubase u) k) (f_data (file_at s i))\<rparr>"
    "case r of Inl e \<Rightarrow> e \<in> {EIO, EFAULT, EFBIG, ENOSPC} | Inr _ \<Rightarrow> k = n"
  using assms unfolding write_post_def prod.case by (elim conjE exE) blast

lemma write_ok:
  assumes p: "io_pre rw I X v i u s" and r: "write_post I X s i u n (u1, s1) (Inr ())" and n: "n \<le> uio_resid u"
  shows "io_pre rw I X v i u1 s1" "calm s s1" "u1 = uadv n u" "ubase u1 = ubase u + n"
proof -
  note d = io_preD [OF p]
  obtain k where k: "vol_inv I X s1" "calm s s1" "u1 = uadv k u" "k = 0 \<or> ubase u + k \<le> 2 ^ 31" "k = n"
    using r by (rule write_postE) auto
  then show c: "calm s s1" and u1: "u1 = uadv n u" by simp_all
  have nb: "\<not> badfault (uspace (mach s1))" using user_uioD(4) [OF d(5)] calmD(14) [OF c] by simp
  note a = user_uio_adv [OF d(5) k(4) calmD(15) [OF c] nb]
  show "ubase u1 = ubase u + n" using a(2) k n by simp
  have "uio_offset u1 + int (uio_resid u1) < 2 ^ 41" using d(13) n u1 by simp
  then show "io_pre rw I X v i u1 s1" using d(2-4,12) k(1,5) a(1) n calmD(7,8,16) [OF c] u1 by (simp add: io_pre_def)
qed

lemma write_seq_post:
  assumes p: "io_pre rw I X v i u s" and r: "write_post I X s i u m (u1, s1) (Inr ())" and m: "m \<le> uio_resid u"
    and r2: "write_post I X s1 i u1 n w r"
  shows "write_post I X s i u (m + n) w r"
proof -
  note o = write_ok [OF p r m] and us = calmD(14) [OF write_ok(2) [OF p r m]]
  obtain u2 s2 where w: "w = (u2, s2)" by (cases w)
  have f1: "\<And>j. j \<in> I \<Longrightarrow> j \<noteq> i \<Longrightarrow> file_at s1 j = file_at s j" "m = 0 \<or> ubase u + m \<le> 2 ^ 31 \<and> nat (uio_offset u) + m \<le> max_size"
    "file_at s1 i = (file_at s i)\<lparr>f_data := overlay (nat (uio_offset u)) (user_bytes (uspace (mach s)) (ubase u) m) (f_data (file_at s i))\<rparr>"
    using r by (auto elim: write_postE)
  have off: "nat (uio_offset u1) = nat (uio_offset u) + m" using o(3) io_preD(12) [OF p] by simp
  obtain k where k: "vol_inv I X s2" "calm s1 s2" "\<And>j. j \<in> I \<Longrightarrow> j \<noteq> i \<Longrightarrow> file_at s2 j = file_at s1 j" "k \<le> n" "u2 = uadv k u1"
    "k = 0 \<or> ubase u1 + k \<le> 2 ^ 31 \<and> nat (uio_offset u1) + k \<le> max_size"
    "file_at s2 i = (file_at s1 i)\<lparr>f_data := overlay (nat (uio_offset u1)) (user_bytes (uspace (mach s1)) (ubase u1) k) (f_data (file_at s1 i))\<rparr>"
    "case r of Inl e \<Rightarrow> e \<in> {EIO, EFAULT, EFBIG, ENOSPC} | Inr _ \<Rightarrow> k = n"
    by (rule write_postE [OF r2 [unfolded w]]) (rule that)
  show ?thesis unfolding w
  proof (rule write_postI [where k = "m + k"])
    show "calm s s2" using calm_trans [OF o(2) k(2)] .
    show "file_at s2 j = file_at s j" if "j \<in> I" "j \<noteq> i" for j using k(3) f1(1) that by simp
    show "file_at s2 i = (file_at s i)\<lparr>f_data := overlay (nat (uio_offset u)) (user_bytes (uspace (mach s)) (ubase u) (m + k)) (f_data (file_at s i))\<rparr>"
      unfolding k(7) f1(3) off us o(4) by (simp add: overlay_user)
    show "m + k = 0 \<or> ubase u + (m + k) \<le> 2 ^ 31 \<and> nat (uio_offset u) + (m + k) \<le> max_size" using k(6) f1(2) off o(4) by auto
    show "case r of Inl e \<Rightarrow> e \<in> {EIO, EFAULT, EFBIG, ENOSPC} | Inr _ \<Rightarrow> m + k = m + n" using k(8) by (simp split: sum.splits)
  qed (use k o(3) in simp_all)
qed

lemma write_error_mono: "write_post I X s i u m w (Inl e) \<Longrightarrow> m \<le> n \<Longrightarrow> write_post I X s i u n w (Inl e)"
proof -
  assume p: "write_post I X s i u m w (Inl e)" and m: "m \<le> n"
  obtain u' s' where w: "w = (u', s')" by (cases w)
  obtain k where k: "vol_inv I X s'" "calm s s'" "\<And>j. j \<in> I \<Longrightarrow> j \<noteq> i \<Longrightarrow> file_at s' j = file_at s j" "k \<le> m" "u' = uadv k u"
    "k = 0 \<or> ubase u + k \<le> 2 ^ 31 \<and> nat (uio_offset u) + k \<le> max_size"
    "file_at s' i = (file_at s i)\<lparr>f_data := overlay (nat (uio_offset u)) (user_bytes (uspace (mach s)) (ubase u) k) (f_data (file_at s i))\<rparr>"
    "case (Inl e :: errno + unit) of Inl e \<Rightarrow> e \<in> {EIO, EFAULT, EFBIG, ENOSPC} | Inr _ \<Rightarrow> k = m"
    by (rule write_postE [OF p [unfolded w]]) (rule that)
  have "e \<in> {EIO, EFAULT, EFBIG, ENOSPC}" using k(8) by simp
  then show ?thesis unfolding w by (intro write_postI [OF k(1-3) order_trans [OF k(4) m] k(5-7)]) simp_all
qed

lemma write_seq:
  assumes p: "io_pre rw I X v i u s" and m: "m \<le> uio_resid u" and w: "wp c (write_post I X s i u m)"
    and k: "\<And>u1 s1. io_pre rw I X v i u1 s1 \<Longrightarrow> u1 = uadv m u \<Longrightarrow> wp (k (u1, s1)) (write_post I X s1 i u1 n)"
  shows "wp (onok c (\<lambda>_. k)) (write_post I X s i u (m + n))"
  unfolding wp_onok
proof (rule wp_mono [OF w], goal_cases)
  case (1 w r)
  show ?case
  proof (cases r)
    case (Inl e)
    then show ?thesis using write_error_mono [of I X s i u m w e "m + n"] 1 by simp
  next
    case (Inr x)
    obtain u1 s1 where us: "w = (u1, s1)" by (cases w)
    have r: "write_post I X s i u m (u1, s1) (Inr ())" using 1 Inr us by simp
    note o = write_ok [OF p r m]
    show ?thesis unfolding Inr sum.case us
      by (rule wp_mono [OF k [OF o(1,3)]]) (rule write_seq_post [OF p r m])
  qed
qed


text \<open>A block with bytes of the user put in.\<close>

lemma overlay_block:
  assumes "k = off div 512" "sk = off mod 512" "sk + length bs \<le> 512" "\<And>j. j < 512 \<Longrightarrow> D ! j = (if sk \<le> j \<and> j < sk + length bs then bs ! (j - sk) else f (k * 512 + j))"
  shows "(\<lambda>x. if x div 512 = k then D ! (x mod 512) else f x) = overlay off bs f"
proof
  fix x
  have o: "off = k * 512 + sk" using assms(1,2) by simp
  show "(if x div 512 = k then D ! (x mod 512) else f x) = overlay off bs f x"
  proof (cases "x div 512 = k")
    case True
    then have x: "x = k * 512 + x mod 512" by (metis div_mult_mod_eq)
    have "off \<le> x \<longleftrightarrow> sk \<le> x mod 512" "x < off + length bs \<longleftrightarrow> x mod 512 < sk + length bs" "x - off = x mod 512 - sk" using x o by linarith+
    moreover have "D ! (x mod 512) = (if sk \<le> x mod 512 \<and> x mod 512 < sk + length bs then bs ! (x mod 512 - sk) else f x)"
      using assms(4) [of "x mod 512"] x by simp
    ultimately show ?thesis using True by (simp add: overlay_def)
  next
    case False
    have "\<not> (off \<le> x \<and> x < off + length bs)"
    proof
      assume "off \<le> x \<and> x < off + length bs"
      then have "k * 512 \<le> x" "x < Suc k * 512" using o assms(3) by simp_all
      then have "x div 512 = k" by (metis div_nat_eqI mult.commute)
      then show False using False by simp
    qed
    then show ?thesis using False unfolding overlay_def by auto
  qed
qed

lemma quiet_kwrite: "(\<And>x. p \<le> x \<Longrightarrow> x < p + length d \<Longrightarrow> x \<in> scratch s) \<Longrightarrow> quiet s (s\<lparr>mach := kwrite p d (mach s)\<rparr>)"
proof -
  assume d: "\<And>x. p \<le> x \<Longrightarrow> x < p + length d \<Longrightarrow> x \<in> scratch s"
  have e: "s\<lparr>mach := kwrite p d (mach s)\<rparr> = s\<lparr>disk := (disk s)\<lparr>nops := nops (disk s)\<rparr>, mach := (mach s)\<lparr>kmem := kmem (kwrite p d (mach s))\<rparr>\<rparr>"
    by (simp add: kwrite_def)
  have "kmem (kwrite p d (mach s)) a = kmem (mach s) a" if "a \<notin> scratch s" for a
    using that d [of a] by (auto simp: kmem_kwrite)
  then show ?thesis by (subst e) (rule quietI)
qed

text \<open>What a write to a block of a file comes to.\<close>

lemma write_block_post:
  assumes p: "io_pre UIO_WRITE I X v i u s" and inv: "vol_inv I X s1" and ks: "keeps_files I s s1"
    and k: "k = nat (uio_offset u) div 512" "k < 143" "b = fblk (sect s1) (cur s1 i) k" "b \<noteq> 0" and sk: "sk = nat (uio_offset u) mod 512" "sk + n \<le> 512"
    and D: "length D = 512" "\<And>j. j < 512 \<Longrightarrow> D ! j = (if sk \<le> j \<and> j < sk + n then user_bytes (uspace (mach s)) (ubase u) n ! (j - sk) else f_data (file_at s i) (k * 512 + j))"
    and n: "n = 0 \<or> ubase u + n \<le> 2 ^ 31" and q: "quiet (set_sector b D s1) s2"
  shows "write_post I X s i u n (uadv n u, s2) (Inr ())"
proof -
  note d = io_preD [OF p] and w = file_set_sector_data [OF inv d(6) k(3) [symmetric] k(4) D(1)]
  have pl: "plain I X s1 b" using k(3,4) d(6) unfolding plain_def by (metis fblk_occ)
  have inv1: "vol_inv I X (set_sector b D s1)" using set_sector_plain(1) [OF inv pl D(1)] .
  have f: "file_at s2 j = file_at (set_sector b D s1) j" for j by (simp add: quiet_simps [OF q] quiet_cur [OF q])
  have c: "calm s1 (set_sector b D s1)" using calm_set_sector [OF plain_bound(2) [OF inv pl]] .
  have ov: "(\<lambda>x. if x div 512 = k then D ! (x mod 512) else f_data (file_at s i) x) = overlay (nat (uio_offset u)) (user_bytes (uspace (mach s)) (ubase u) n) (f_data (file_at s i))"
    by (rule overlay_block [OF k(1) sk(1)]) (use sk(2) D(2) in simp_all)
  show ?thesis
  proof (rule write_postI [where k = n])
    show "vol_inv I X s2" using vol_inv_quiet [OF q inv1] .
    show "calm s s2" using calm_trans [OF calm_trans [OF keeps_filesD(1) [OF ks] c] quiet_calm [OF q]] .
    show "file_at s2 j = file_at s j" if "j \<in> I" "j \<noteq> i" for j unfolding f using w [OF that(1)] keeps_filesD(2) [OF ks that(1)] that by simp
    show "file_at s2 i = (file_at s i)\<lparr>f_data := overlay (nat (uio_offset u)) (user_bytes (uspace (mach s)) (ubase u) n) (f_data (file_at s i))\<rparr>"
      unfolding f w [OF d(6)] keeps_filesD(2) [OF ks d(6)] ov [symmetric] by simp
    have "nat (uio_offset u) = k * 512 + sk" using k(1) sk(1) by simp
    then show "n = 0 \<or> ubase u + n \<le> 2 ^ 31 \<and> nat (uio_offset u) + n \<le> max_size" using n sk(2) k(2) by (auto simp: max_size_def)
  qed simp_all
qed

lemma partial_write:
  assumes p: "io_pre UIO_WRITE I X v i u s" and n: "n \<le> uio_resid u" "sk = nat (uio_offset u) mod 512" "sk + n \<le> 512"
  shows "wp (sfs_partialio v u sk n s) (write_post I X s i u n)"
proof -
  note d = io_preD [OF p]
  let ?k = "nat (uio_offset u) div 512"
  have e: "sfs_partialio v u sk n s = onok (lift_uio u (sfs_bmap v ?k True s)) (\<lambda>b (u, s).
      onok (if b = 0 then do { kassert (uio_dir u = UIO_READ); Some ((u, s), Inr (replicate SFS_BLOCKSIZE 0)) } else lift_uio u (sfs_readblock b s))
        (\<lambda>bs (u, s). onok (uiomove_s (iobuf s + sk) n u (s\<lparr>mach := kwrite (iobuf s) bs (mach s)\<rparr>)) (\<lambda>_ (u, s).
               if uio_dir u = UIO_WRITE then
                 lift_uio u (sfs_writeblock b (kread (mach s) (iobuf s) SFS_BLOCKSIZE) s)
               else Some ((u, s), Inr ()))))"
    using d(2,7,9) n(3) by (simp add: sfs_partialio_def SFS_BLOCKSIZE_def)
  show ?thesis unfolding e wp_onok wp_lift_uio
  proof (rule wp_mono [OF bmap_wp [OF d(1-3)]], goal_cases)
    case (1 s1 r)
    then have inv1: "vol_inv I X s1" and ks: "keeps_files I s s1" by (auto simp: bmap_post_def)
    show ?case
    proof (cases r)
      case (Inl e)
      then have "e \<in> {EIO, EFAULT, EFBIG, ENOSPC}" using 1 by (auto simp: bmap_post_def)
      then show ?thesis using write_none [OF inv1 ks d(6), where r = "Inl e"] Inl by simp
    next
      case (Inr b)
      have b: "b = fblk (sect s1) (cur s1 i) ?k" "b \<noteq> 0" "?k < 143" using 1 Inr d(4) by (simp_all add: bmap_post_def)
      have l1: "biglock s1 > 0" using d(2) calmD(8) [OF keeps_filesD(1) [OF ks]] by simp
      show ?thesis unfolding Inr sum.case prod.case wp_onok
      proof (rule wp_mono [OF load_block [where u = u, OF inv1 l1 d(6) b(1)]], goal_cases)
        case (2 w r2)
        obtain s2 where w: "w = (u, s2)" and q2: "quiet s1 s2" and r2: "r2 = Inl EIO \<or> r2 = Inr (block_data s1 b)" using 2 by (cases w) auto
        have ks2: "vol_inv I X s'" "keeps_files I s s'" if "quiet s1 s'" for s'
          using vol_inv_quiet [OF that inv1] keeps_files_trans [OF ks quiet_keeps [OF that]] by blast+
        show ?case
        proof (cases "r2 = Inl EIO")
          case True
          then show ?thesis using write_none [OF ks2 [OF q2] d(6), where r = "Inl EIO"] w by simp
        next
          case False
          let ?d = "block_data s1 b" and ?s3 = "s2\<lparr>mach := kwrite (iobuf s2) (block_data s1 b) (mach s2)\<rparr>" and ?bs = "user_bytes (uspace (mach s)) (ubase u) n"
          have ld: "length ?d = 512" using length_block_data [OF inv1] .
          note q3 = quiet_trans [OF q2 quiet_iobuf [OF ld]]
          have us: "uspace (mach ?s3) = uspace (mach s)" "curas (mach ?s3) = curas (mach s)"
            using calmD(14,15) [OF keeps_filesD(1) [OF ks2(2) [OF q3]]] by simp_all
          have u3: "user_uio UIO_WRITE u (mach ?s3)" using d(5) unfolding user_uio_def us .
          have "uiomove (iobuf s2 + sk) n u (mach ?s3) = Some (u, mach ?s3, Inl EFAULT) \<or>
              uiomove (iobuf s2 + sk) n u (mach ?s3) = Some (uadv n u, kwrite (iobuf s2 + sk) ?bs (mach ?s3), Inr ()) \<and> (n = 0 \<or> ubase u + n \<le> 2 ^ 31)"
            using uiomove_in [OF u3 n(1), of "iobuf s2 + sk"] unfolding us .
          then show ?thesis
          proof
            assume "uiomove (iobuf s2 + sk) n u (mach ?s3) = Some (u, mach ?s3, Inl EFAULT)"
            then show ?thesis using write_none [OF ks2 [OF q3] d(6), where r = "Inl EFAULT"] w r2 False by (simp add: uiomove_s_def)
          next
            assume m: "uiomove (iobuf s2 + sk) n u (mach ?s3) = Some (uadv n u, kwrite (iobuf s2 + sk) ?bs (mach ?s3), Inr ()) \<and> (n = 0 \<or> ubase u + n \<le> 2 ^ 31)"
            let ?s4 = "s2\<lparr>mach := kwrite (iobuf s2 + sk) ?bs (mach ?s3)\<rparr>"
            let ?D = "kread (mach ?s4) (iobuf s2) 512"
            have "quiet ?s3 (?s3\<lparr>mach := kwrite (iobuf s2 + sk) ?bs (mach ?s3)\<rparr>)" by (rule quiet_kwrite) (use n(3) in \<open>auto simp: scratch_def\<close>)
            then have q4: "quiet s1 ?s4" using quiet_trans [OF q3] by simp
            have D: "?D ! j = (if sk \<le> j \<and> j < sk + n then ?bs ! (j - sk) else f_data (file_at s i) (?k * 512 + j))" if "j < 512" for j
            proof -
              have "?d ! j = f_data (file_at s1 i) (?k * 512 + j)" by (rule block_data_file [OF b(1)]) (use that in simp_all)
              then have "?d ! j = f_data (file_at s i) (?k * 512 + j)" using keeps_filesD(2) [OF ks d(6)] by simp
              then show ?thesis using that ld by (simp add: kread_def kmem_kwrite)
            qed
            have b4: "b = fblk (sect ?s4) (cur ?s4 i) ?k" unfolding quiet_simps [OF q4] quiet_cur [OF q4] by (rule b(1))
            have l4: "biglock ?s4 > 0" "b < nblks ?s4" unfolding quiet_simps [OF q4] by (rule l1 fblk_used(1) [OF inv1 d(6) b(1,2)])+
            have "wp (sfs_writeblock b ?D ?s4) (\<lambda>s' r. write_post I X s i u n (uadv n u, s') r)"
            proof (rule wp_mono [OF write_wp [OF ks2(1) [OF q4] l4]], goal_cases)
              case (2 s5 r5)
              then show ?case using write_block_post [OF p ks2 [OF q4] refl b(3) b4 b(2) n(2,3) _ D _ , of s5] m by simp
            qed simp
            then show ?thesis using w r2 False m d(7) by (simp add: uiomove_s_def SFS_BLOCKSIZE_def)
          qed
        qed
      qed (use b(2) in simp)
    qed
  qed
qed


lemma block_write_disk:
  assumes p: "io_pre UIO_WRITE I X v i u s" and n: "512 \<le> uio_resid u" and o: "nat (uio_offset u) mod 512 = 0"
    and inv: "vol_inv I X s1" and ks: "keeps_files I s s1"
    and b: "b = fblk (sect s1) (cur s1 i) (nat (uio_offset u) div 512)" "b \<noteq> 0" "nat (uio_offset u) div 512 < 143"
  shows "wp (case rwblock_tries 10 (lent b u) s1 of None \<Rightarrow> None | Some ((u', s), r) \<Rightarrow> Some ((taken_back b u u', s), r)) (write_post I X s i u 512)"
proof -
  note d = io_preD [OF p] and f = fblk_used [OF inv io_preD(6) [OF p] b(1,2)] and c = keeps_filesD(1) [OF ks]
  let ?bs = "user_bytes (uspace (mach s)) (ubase u) 512" and ?u = "lent b u" and ?lb = "lh_buf (disk s1)"
  have us: "uspace (mach s1) = uspace (mach s)" "curas (mach s1) = curas (mach s)" using calmD(14,15) [OF c] .
  have u: "user_uio UIO_WRITE ?u (mach s1)" using lent_user [OF d(5) n, of b] unfolding user_uio_def us .
  have md: "\<not> media (disk s1) UIO_WRITE (nops (disk s1))" using vol_invD(1) [OF inv] by (simp add: hw_ok_def)
  have "uiomove ?lb 512 ?u (mach s1) = Some (?u, mach s1, Inl EFAULT) \<or>
    uiomove ?lb 512 ?u (mach s1) = Some (uadv 512 ?u, kwrite ?lb ?bs (mach s1), Inr ()) \<and> ubase u + 512 \<le> 2 ^ 31"
    using uiomove_in [OF u, of 512 ?lb] unfolding lent_back us by simp
  then show ?thesis
  proof
    assume m: "uiomove ?lb 512 ?u (mach s1) = Some (?u, mach s1, Inl EFAULT)"
    have "rwblock_tries 10 ?u s1 = Some ((?u, s1), Inl EFAULT)"
      using rwblock_tries_write [OF lent_back(3,4) _ f(3,4) m _ _ _ md] by (simp add: lent_back d(7))
    then show ?thesis using write_none [OF inv ks d(6), where r = "Inl EFAULT"] by (simp add: lent_back)
  next
    assume m: "uiomove ?lb 512 ?u (mach s1) = Some (uadv 512 ?u, kwrite ?lb ?bs (mach s1), Inr ()) \<and> ubase u + 512 \<le> 2 ^ 31"
    let ?m = "kwrite ?lb ?bs (mach s1)"
    have kr: "kread ?m ?lb 512 = ?bs" by (rule kread_kwrite_same) simp
    let ?s2 = "s1\<lparr>disk := (disk s1)\<lparr>nops := nops (disk s1) + 1, sectors := (sect s1)(b := ?bs)\<rparr>, mach := ?m\<rparr>"
    have e: "?s2 = (set_sector b ?bs s1)\<lparr>disk := (disk (set_sector b ?bs s1))\<lparr>nops := nops (disk s1) + 1\<rparr>, mach := (mach (set_sector b ?bs s1))\<lparr>kmem := kmem ?m\<rparr>\<rparr>"
      by (simp add: set_sector_def kwrite_def)
    have q: "quiet (set_sector b ?bs s1) ?s2" unfolding e by (rule quietI) (auto simp: kmem_kwrite scratch_def)
    have "write_post I X s i u 512 (uadv 512 u, ?s2) (Inr ())"
      by (rule write_block_post [OF p inv ks refl b(3,1,2) o [symmetric] _ _ _ _ q]) (use m in simp_all)
    moreover have "rwblock_tries 10 ?u s1 = Some ((uadv 512 ?u, ?s2), Inr ())"
      using rwblock_tries_write [OF lent_back(3,4) _ f(3,4) conjunct1 [OF m] _ _ _ md] kr by (simp add: lent_back d(7))
    ultimately show ?thesis using lent_back(2) [OF n] by simp
  qed
qed

lemma block_write:
  assumes p: "io_pre UIO_WRITE I X v i u s" and n: "512 \<le> uio_resid u" and o: "nat (uio_offset u) mod 512 = 0"
  shows "wp (sfs_blockio v u s) (write_post I X s i u 512)"
  unfolding blockio_eq [OF p n] wp_onok wp_lift_uio
proof (rule wp_mono [OF bmap_wp [OF io_preD(1-3) [OF p]]], goal_cases)
  case (1 s1 r)
  note d = io_preD [OF p]
  from 1 have inv1: "vol_inv I X s1" and ks: "keeps_files I s s1" by (auto simp: bmap_post_def)
  show ?case
  proof (cases r)
    case (Inl e)
    then have "e \<in> {EIO, EFAULT, EFBIG, ENOSPC}" using 1 by (auto simp: bmap_post_def)
    then show ?thesis using write_none [OF inv1 ks d(6), where r = "Inl e"] Inl by simp
  next
    case (Inr b)
    have b: "b = fblk (sect s1) (cur s1 i) (nat (uio_offset u) div 512)" "b \<noteq> 0" "nat (uio_offset u) div 512 < 143" using 1 Inr d(4) by (simp_all add: bmap_post_def)
    have l: "biglock s1 > 0" using d(2) calmD(8) [OF keeps_filesD(1) [OF ks]] by simp
    show ?thesis unfolding Inr sum.case prod.case if_not_P [OF b(2)] block_rw [OF fblk_used(2) [OF inv1 d(6) b(1,2)] n l]
      by (rule block_write_disk [OF p n o inv1 ks b])
  qed
qed

interpretation writing: transfer "io_pre UIO_WRITE I X v i" "\<lambda>s u. write_post I X s i u" v for I X v i
proof unfold_locales
  show "0 \<le> uio_offset u" if "io_pre UIO_WRITE I X v i u s" for u s using io_preD(12) [OF that] .
  show "write_post I X s i u 0 (u, s) (Inr ())" if "io_pre UIO_WRITE I X v i u s" for u s
    using write_none [OF io_preD(1) [OF that] keeps_files_refl io_preD(6) [OF that], where r = "Inr ()"] by simp
qed (rule write_seq partial_write block_write; assumption | blast)+

section \<open>The whole write\<close>

definition written :: "nat set \<Rightarrow> nat set \<Rightarrow> sfs \<Rightarrow> nat \<Rightarrow> uio \<Rightarrow> uio \<times> sfs \<Rightarrow> errno + unit \<Rightarrow> bool" where
  "written I X s i u w r \<longleftrightarrow> (case w of (u', s') \<Rightarrow> vol_inv I X s' \<and> calm s s' \<and> (\<forall>j\<in>I. j \<noteq> i \<longrightarrow> file_at s' j = file_at s j) \<and>
     (\<exists>k\<le>uio_resid u. u' = uadv k u \<and>
       file_at s' i = (file_at s i)\<lparr>f_size := (if k = 0 then f_size (file_at s i) else max (f_size (file_at s i)) (nat (uio_offset u) + k)),
         f_data := overlay (nat (uio_offset u)) (user_bytes (uspace (mach s)) (ubase u) k) (f_data (file_at s i))\<rparr> \<and>
       (case r of Inl e \<Rightarrow> e \<in> {EIO, EFAULT, EFBIG, ENOSPC} | Inr _ \<Rightarrow> k = uio_resid u)))"

lemma nat_mod_32: "n < 2 ^ 32 \<Longrightarrow> nat (int n mod 2 ^ 32) = n"
  by (simp add: nat_mod_distrib)

lemma diff_same_iff: "k \<le> n \<Longrightarrow> n - k = n \<longleftrightarrow> k = 0" for n :: nat
  by auto

lemma io_out_write:
  assumes p: "io_pre UIO_WRITE I X v i u s" and w: "write_post I X s i u (uio_resid u) (u1, s1) r"
  shows "written I X s i u (sfs_io_out v (uio_resid u) 0 u1 s1) r"
proof -
  note d = io_preD [OF p]
  obtain k where k: "vol_inv I X s1" "calm s s1" "\<And>j. j \<in> I \<Longrightarrow> j \<noteq> i \<Longrightarrow> file_at s1 j = file_at s j" "k \<le> uio_resid u" "u1 = uadv k u"
    "k = 0 \<or> ubase u + k \<le> 2 ^ 31 \<and> nat (uio_offset u) + k \<le> max_size"
    "file_at s1 i = (file_at s i)\<lparr>f_data := overlay (nat (uio_offset u)) (user_bytes (uspace (mach s)) (ubase u) k) (f_data (file_at s i))\<rparr>"
    "case r of Inl e \<Rightarrow> e \<in> {EIO, EFAULT, EFBIG, ENOSPC} | Inr _ \<Rightarrow> k = uio_resid u"
    by (rule write_postE [OF w]) (rule that)
  have v1: "v \<in> set (sfs_vnodes s1)" "i = ino_of s1 v" using d(3,4) calmD(7,16) [OF k(2)] by auto
  have sz: "sfi_size (sv_i (svs s1 v)) = f_size (file_at s1 i)" using vnode_cur [OF k(1) v1(1)] v1(2) by (simp add: file_of_def)
  have sz0: "f_size (file_at s1 i) = f_size (file_at s i)" unfolding k(7) by simp
  have r32: "u32 (uio_resid u1 + 0) = uio_resid u1" using user_uioD(2) [OF d(5)] k(5) by simp
  have off: "uio_offset u1 = int (nat (uio_offset u) + k)" using d(8) k(5) by simp
  have u1: "u1\<lparr>uio_resid := uio_resid u1\<rparr> = u1" by simp
  have dir: "uio_dir u1 = UIO_WRITE" unfolding k(5) using d(7) by simp
  have res: "uio_resid u1 = uio_resid u \<longleftrightarrow> k = 0" unfolding k(5) uadv_simps by (rule diff_same_iff [OF k(4)])
  show ?thesis
  proof (cases "k \<noteq> 0 \<and> nat (uio_offset u) + k > f_size (file_at s i)")
    case False
    have c: "\<not> (uio_resid u1 \<noteq> uio_resid u \<and> uio_dir u1 = UIO_WRITE \<and> uio_offset u1 > int (sfi_size (sv_i (svs s1 v))))"
      unfolding res off sz sz0 of_nat_less_iff using False by blast
    have out: "sfs_io_out v (uio_resid u) 0 u1 s1 = (u1, s1)" unfolding sfs_io_out_def r32 if_not_P [OF c] Let_def u1 ..
    have sz1: "(if k = 0 then f_size (file_at s i) else max (f_size (file_at s i)) (nat (uio_offset u) + k)) = f_size (file_at s i)" using False by auto
    have "file_at s1 i = (file_at s i)\<lparr>f_size := (if k = 0 then f_size (file_at s i) else max (f_size (file_at s i)) (nat (uio_offset u) + k)),
        f_data := overlay (nat (uio_offset u)) (user_bytes (uspace (mach s)) (ubase u) k) (f_data (file_at s i))\<rparr>"
      unfolding k(7) sz1 by (intro afile.equality) simp_all
    then show ?thesis using k(1-5,8) unfolding written_def out prod.case by (intro conjI ballI impI exI [of _ k]) simp_all
  next
    case True
    let ?e = "nat (uio_offset u) + k" and ?s2 = "set_dinode v (\<lambda>d. d\<lparr>sfi_size := nat (uio_offset u1 mod 2 ^ 32)\<rparr>) s1"
    have "?e < 2 ^ 32" using True k(6) by (auto simp: max_size_def)
    then have e: "nat (uio_offset u1 mod 2 ^ 32) = ?e" unfolding off by (rule nat_mod_32)
    have c: "uio_resid u1 \<noteq> uio_resid u \<and> uio_dir u1 = UIO_WRITE \<and> uio_offset u1 > int (sfi_size (sv_i (svs s1 v)))"
      unfolding res off sz sz0 of_nat_less_iff using True dir by blast
    have out: "sfs_io_out v (uio_resid u) 0 u1 s1 = (u1, ?s2)" unfolding sfs_io_out_def r32 if_P [OF c] Let_def u1 ..
    have ok: "dinode_ok ((cur s1 i)\<lparr>sfi_size := ?e\<rparr>)" using vol_invD(6) [OF k(1) d(6)] \<open>?e < 2 ^ 32\<close> by (simp add: dinode_ok_def)
    note a = set_dinode_attr [where f = "\<lambda>d. d\<lparr>sfi_size := ?e\<rparr>", OF k(1) v1 _ _ _ ok]
    have "f_links (file_at s1 i) = sfi_linkcount (cur s1 i)" by (simp add: file_of_def)
    then have "file_at ?s2 i = (file_at s i)\<lparr>f_size := max (f_size (file_at s i)) ?e, f_data := f_data (file_at s1 i)\<rparr>"
      unfolding e using a(3) True k(7) by simp
    then show ?thesis using k True a(1,4) calm_trans [OF k(2) calm_set_dinode] unfolding written_def out prod.case e by (intro conjI ballI impI exI [of _ k]) simp_all
  qed
qed

lemma io_write_wp:
  assumes p: "io_pre UIO_WRITE I X v i u s"
  shows "wp (sfs_io v u s) (written I X s i u)"
proof -
  have "sfs_io v u s = do { ((u', s), r) \<leftarrow> sfs_io_parts v u s; Some (sfs_io_out v (uio_resid u) 0 u' s, r) }"
    using io_preD(7) [OF p] by (simp add: sfs_io_def)
  then show ?thesis using writing.parts [OF p] io_out_write [OF p] by (auto elim!: wp_mono)
qed

end
