(* ===== verification/Sfs_Dir.thy ===== *)
theory Sfs_Dir
  imports Sfs_Write
begin

text \<open>
  Directories. The contents of a directory are slots of 64 bytes; what counts is the set of its entries, \<open>dents\<close>, from
  names to inodes.
\<close>

section \<open>Metadata\<close>

definition file_bytes :: "afile \<Rightarrow> nat \<Rightarrow> nat \<Rightarrow> byte list" where
  "file_bytes f pos len = map (\<lambda>j. f_data f (pos + j)) [0..<len]"

lemma take_drop_block:
  assumes "b = fblk (sect s) (cur s i) (pos div 512)" "pos mod 512 + len \<le> 512" "length (block_data s b) = 512"
  shows "take len (drop (pos mod 512) (block_data s b)) = file_bytes (file_at s i) pos len"
proof (rule nth_equalityI)
  fix j
  assume "j < length (take len (drop (pos mod 512) (block_data s b)))"
  then have j: "j < len" by simp
  have "block_data s b ! (pos mod 512 + j) = f_data (file_at s i) (pos + j)"
    using block_pos [OF refl, of pos j] j assms(2) by (intro block_data_file [OF assms(1)]) simp_all
  then show "take len (drop (pos mod 512) (block_data s b)) ! j = file_bytes (file_at s i) pos len ! j" using j assms(2,3) by (simp add: file_bytes_def)
qed (use assms in \<open>simp add: file_bytes_def\<close>)

lemma metaio_read_wp:
  assumes inv: "vol_inv I X s" and l: "biglock s > 0" and v: "v \<in> set (sfs_vnodes s)" and i: "i = ino_of s v"
    and p: "pos mod 512 + len \<le> 512" "pos < max_size"
  shows "wp (sfs_metaio_read v pos len s) (\<lambda>s' r. quiet s s' \<and> (r = Inl EIO \<or> r = Inr (file_bytes (file_at s i) pos len)))"
proof -
  have k: "u32 (pos div 512) = pos div 512" "pos div 512 < 143" using p(2) by (simp_all add: max_size_def)
  note iI = vnode_in [OF inv v, folded i]
  have e: "sfs_metaio_read v pos len s = onok (sfs_bmap v (pos div 512) False s) (\<lambda>b s.
      if b = 0 then Some (s, Inr (replicate len 0)) else onok (sfs_readblock b s) (\<lambda>bs s. Some (s, Inr (take len (drop (pos mod 512) bs)))))"
    using l p(1) k(1) unfolding sfs_metaio_read_def SFS_BLOCKSIZE_def Let_def by (simp cong: if_cong)
  show ?thesis unfolding e wp_onok
  proof (rule wp_mono [OF bmap_wp [OF inv l v]], goal_cases)
    case (1 s1 r)
    then have inv1: "vol_inv I X s1" and q: "quiet s s1" by (auto simp: bmap_post_def)
    show ?case
    proof (cases r)
      case (Inl e)
      then show ?thesis using 1 k(2) by (auto simp: bmap_post_def)
    next
      case (Inr b)
      have b: "b = fblk (sect s1) (cur s1 i) (pos div 512)" using 1 Inr i by (simp add: bmap_post_def)
      have f: "file_at s1 i = file_at s i" by (simp add: quiet_simps [OF q] quiet_cur [OF q])
      note td = take_drop_block [OF b p(1) length_block_data [OF inv1], unfolded f]
      show ?thesis
      proof (cases "b = 0")
        case True
        have "min len (512 - pos mod 512) = len" using p(1) by simp
        then have "replicate len 0 = file_bytes (file_at s i) pos len" using td True by (simp add: block_data_def min.commute)
        then show ?thesis using True Inr q by simp
      next
        case False
        have l1: "biglock s1 > 0" using l by (simp add: quiet_simps [OF q])
        show ?thesis unfolding Inr sum.case if_not_P [OF False] wp_onok
          by (rule wp_mono [OF read_wp [OF inv1 l1 fblk_used(1) [OF inv1 iI b False]]])
            (use td False quiet_trans [OF q] in \<open>auto simp: block_data_def\<close>)
      qed
    qed
  qed
qed

definition meta_written :: "nat set \<Rightarrow> nat set \<Rightarrow> sfs \<Rightarrow> nat \<Rightarrow> nat \<Rightarrow> byte list \<Rightarrow> sfs \<Rightarrow> errno + unit \<Rightarrow> bool" where
  "meta_written I X s i pos bs s' r \<longleftrightarrow> vol_inv I X s' \<and> calm s s' \<and> (\<forall>j\<in>I. j \<noteq> i \<longrightarrow> file_at s' j = file_at s j) \<and>
     (case r of
        Inl e \<Rightarrow> e \<in> {EIO, EFBIG, ENOSPC} \<and> file_at s' i = file_at s i \<and> (e = EFBIG \<longrightarrow> max_size \<le> pos)
      | Inr _ \<Rightarrow> file_at s' i = (file_at s i)\<lparr>f_size := max (f_size (file_at s i)) (pos + length bs), f_data := overlay pos bs (f_data (file_at s i))\<rparr>
          \<and> pos < max_size)"

lemma meta_finish:
  assumes inv: "vol_inv I X s1" and c: "calm s s1" and v: "v \<in> set (sfs_vnodes s)" and i: "i = ino_of s v"
    and j: "\<And>j. j \<in> I \<Longrightarrow> j \<noteq> i \<Longrightarrow> file_at s1 j = file_at s j" and f: "file_at s1 i = (file_at s i)\<lparr>f_data := overlay pos bs (f_data (file_at s i))\<rparr>"
    and p: "pos < max_size" "pos + length bs < 2 ^ 32"
  shows "meta_written I X s i pos bs (if pos + length bs > sfi_size (sv_i (svs s1 v)) then set_dinode v (\<lambda>d. d\<lparr>sfi_size := u32 (pos + length bs)\<rparr>) s1 else s1) (Inr ())"
proof -
  have v1: "v \<in> set (sfs_vnodes s1)" "i = ino_of s1 v" using v i calmD(7,16) [OF c] by auto
  have sz: "sfi_size (sv_i (svs s1 v)) = f_size (file_at s i)" using vnode_cur [OF inv v1(1)] v1(2) f by (simp add: file_of_def)
  have u: "u32 (pos + length bs) = pos + length bs" using p(2) by simp
  show ?thesis
  proof (cases "pos + length bs > f_size (file_at s i)")
    case False
    then have "file_at s1 i = (file_at s i)\<lparr>f_size := max (f_size (file_at s i)) (pos + length bs), f_data := overlay pos bs (f_data (file_at s i))\<rparr>"
      unfolding f by (intro afile.equality) simp_all
    then show ?thesis using inv c j p(1) False unfolding meta_written_def sz by simp
  next
    case True
    let ?f = "\<lambda>d :: sfs_dinode. d\<lparr>sfi_size := pos + length bs\<rparr>"
    have ok: "dinode_ok (?f (cur s1 i))" using vol_invD(6) [OF inv vnode_in [OF inv v1(1), folded v1(2)]] p(2) by (simp add: dinode_ok_def)
    note a = set_dinode_attr [where f = ?f, OF inv v1 _ _ _ ok]
    have "f_links (file_at s1 i) = sfi_linkcount (cur s1 i)" by (simp add: file_of_def)
    then have "file_at (set_dinode v ?f s1) i = (file_at s i)\<lparr>f_size := max (f_size (file_at s i)) (pos + length bs), f_data := overlay pos bs (f_data (file_at s i))\<rparr>"
      using a(3) True f by simp
    then show ?thesis using a(1,4) calm_trans [OF c calm_set_dinode] j p(1) True unfolding meta_written_def sz u by simp
  qed
qed

lemma metaio_write_wp:
  assumes inv: "vol_inv I X s" and l: "biglock s > 0" and v: "v \<in> set (sfs_vnodes s)" and i: "i = ino_of s v"
    and p: "pos mod 512 + length bs \<le> 512" "pos < 2 ^ 31"
  shows "wp (sfs_metaio_write v pos bs s) (meta_written I X s i pos bs)"
proof -
  have k: "u32 (pos div 512) = pos div 512" using p(2) by simp
  let ?k = "pos div 512" and ?o = "pos mod 512"
  note iI = vnode_in [OF inv v, folded i]
  have e: "sfs_metaio_write v pos bs s = onok (sfs_bmap v ?k True s) (\<lambda>b s.
      do { kassert (b \<noteq> 0);
        onok (sfs_readblock b s) (\<lambda>bl s. onok (sfs_writeblock b (take ?o bl @ bs @ drop (?o + length bs) bl) s) (\<lambda>_ s.
          Some (if pos + length bs > sfi_size (sv_i (svs s v)) then set_dinode v (\<lambda>d. d\<lparr>sfi_size := u32 (pos + length bs)\<rparr>) s else s, Inr ()))) })"
    using l p(1) k unfolding sfs_metaio_write_def SFS_BLOCKSIZE_def Let_def by simp
  show ?thesis unfolding e wp_onok
  proof (rule wp_mono [OF bmap_wp [OF inv l v]], goal_cases)
    case (1 s1 r)
    then have inv1: "vol_inv I X s1" and ks: "keeps_files I s s1" by (auto simp: bmap_post_def)
    have err: "meta_written I X s i pos bs s2 (Inl e)" if "quiet s1 s2" "e \<in> {EIO, EFBIG, ENOSPC}" "e = EFBIG \<longrightarrow> max_size \<le> pos" for s2 e
      using vol_inv_quiet [OF that(1) inv1] keeps_filesD [OF keeps_files_trans [OF ks quiet_keeps [OF that(1)]]] that(2,3) iI by (simp add: meta_written_def)
    show ?case
    proof (cases r)
      case (Inl e)
      have "e \<in> {EIO, EFBIG, ENOSPC}" "e = EFBIG \<longrightarrow> max_size \<le> pos" using 1 Inl by (auto simp: bmap_post_def max_size_def)
      then show ?thesis using err [of s1] Inl by simp
    next
      case (Inr b)
      have b: "b = fblk (sect s1) (cur s1 i) ?k" "b \<noteq> 0" "?k < 143" using 1 Inr i by (simp_all add: bmap_post_def)
      have l1: "biglock s1 > 0" using l calmD(8) [OF keeps_filesD(1) [OF ks]] by simp
      note used = fblk_used(1) [OF inv1 iI b(1,2)]
      show ?thesis unfolding Inr sum.case wp_kassert wp_onok
      proof (intro conjI b(2) wp_mono [OF read_wp [OF inv1 l1 used]], goal_cases)
        case (1 s2 r2)
        then have q2: "quiet s1 s2" by blast
        show ?case
        proof (cases "r2 = Inl EIO")
          case True
          then show ?thesis using err [OF q2, of EIO] by simp
        next
          case False
          then have r2: "r2 = Inr (sect s1 b)" using 1 by blast
          let ?D = "take ?o (sect s1 b) @ bs @ drop (?o + length bs) (sect s1 b)"
          note inv2 = vol_inv_quiet [OF q2 inv1]
          have ls: "length (sect s1 b) = 512" using vol_invD(1) [OF inv1] by (simp add: hw_ok_def)
          have D: "length ?D = 512" using ls p(1) by simp
          have l2: "biglock s2 > 0" "b < nblks s2" using l1 used by (simp_all add: quiet_simps [OF q2])
          have b2: "fblk (sect s2) (cur s2 i) ?k = b" unfolding quiet_simps [OF q2] quiet_cur [OF q2] by (rule b(1) [symmetric])
          note w = file_set_sector_data [OF inv2 iI b2 b(2) D]
          have pl: "plain I X s2 b" using b2 b(2) iI unfolding plain_def by (metis fblk_occ)
          note inv3 = set_sector_plain(1) [OF inv2 pl D]
          have c3: "calm s (set_sector b ?D s2)"
            using calm_trans [OF calm_trans [OF keeps_filesD(1) [OF ks] quiet_calm [OF q2]] calm_set_sector [OF plain_bound(2) [OF inv2 pl]]] .
          have f2: "file_at s2 j = file_at s j" if "j \<in> I" for j using keeps_filesD(2) [OF keeps_files_trans [OF ks quiet_keeps [OF q2]] that] .
          have Dn: "?D ! j = (if ?o \<le> j \<and> j < ?o + length bs then bs ! (j - ?o) else f_data (file_at s i) (?k * 512 + j))" if "j < 512" for j
          proof -
            have "block_data s1 b ! j = f_data (file_at s1 i) (?k * 512 + j)" by (rule block_data_file [OF b(1)]) (use that in simp_all)
            then have "sect s1 b ! j = f_data (file_at s i) (?k * 512 + j)" using b(2) keeps_filesD(2) [OF ks iI] by (simp add: block_data_def)
            then show ?thesis using that ls p(1) by (auto simp: nth_append)
          qed
          have ov: "(\<lambda>x. if x div 512 = ?k then ?D ! (x mod 512) else f_data (file_at s i) x) = overlay pos bs (f_data (file_at s i))"
            by (rule overlay_block [OF refl refl p(1)]) (rule Dn)
          have "wp (sfs_writeblock b ?D s2) (\<lambda>s' r. case r of Inl e \<Rightarrow> meta_written I X s i pos bs s' (Inl e) | Inr _ \<Rightarrow>
              wp (Some (if pos + length bs > sfi_size (sv_i (svs s' v)) then set_dinode v (\<lambda>d. d\<lparr>sfi_size := u32 (pos + length bs)\<rparr>) s' else s', Inr ())) (meta_written I X s i pos bs))"
          proof (rule wp_mono [OF write_wp [OF inv2 l2 D]], goal_cases)
            case (1 s3 r3)
            then have q3: "quiet (set_sector b ?D s2) s3" and r3: "r3 = Inr ()" by auto
            have f3: "file_at s3 j = file_at (set_sector b ?D s2) j" for j by (simp add: quiet_simps [OF q3] quiet_cur [OF q3])
            have "meta_written I X s i pos bs (if pos + length bs > sfi_size (sv_i (svs s3 v)) then set_dinode v (\<lambda>d. d\<lparr>sfi_size := u32 (pos + length bs)\<rparr>) s3 else s3) (Inr ())"
            proof (rule meta_finish [OF vol_inv_quiet [OF q3 inv3] calm_trans [OF c3 quiet_calm [OF q3]] v i])
              show "file_at s3 j = file_at s j" if "j \<in> I" "j \<noteq> i" for j unfolding f3 w [OF that(1)] using f2 that by simp
              show "file_at s3 i = (file_at s i)\<lparr>f_data := overlay pos bs (f_data (file_at s i))\<rparr>" unfolding f3 w [OF iI] f2 [OF iI] ov [symmetric] by simp
              show "pos < max_size" "pos + length bs < 2 ^ 32" using b(3) p by (simp_all add: max_size_def)
            qed
            then show ?case using r3 by simp
          qed
          then show ?thesis unfolding r2 sum.case wp_onok .
        qed
      qed
    qed
  qed
qed


section \<open>Directory entries\<close>

definition dslot :: "afile \<Rightarrow> nat \<Rightarrow> sfs_direntry" where
  "dslot f k = direntry_of (file_bytes f (k * 64) 64)"

abbreviation dino :: "afile \<Rightarrow> nat \<Rightarrow> nat" where
  "dino f k \<equiv> sfd_ino (dslot f k)"

definition dname :: "afile \<Rightarrow> nat \<Rightarrow> byte list" where
  "dname f k = cstring (take 59 (sfd_name (dslot f k)))"

definition nslots :: "afile \<Rightarrow> nat" where
  "nslots f = f_size f div 64"

definition dir_ok :: "afile \<Rightarrow> bool" where
  "dir_ok f \<longleftrightarrow> f_type f = SFS_TYPE_DIR \<and> f_size f mod 64 = 0 \<and> f_size f \<le> max_size
     \<and> (\<forall>j<nslots f. \<forall>k<nslots f. dino f j \<noteq> 0 \<and> dino f k \<noteq> 0 \<and> dname f j = dname f k \<longrightarrow> j = k)"

lemma file_bytes_overlay:
  assumes "a + n \<le> pos \<or> pos + length bs \<le> a \<or> a = pos \<and> n = length bs"
  shows "file_bytes (f\<lparr>f_size := z, f_data := overlay pos bs (f_data f)\<rparr>) a n = (if a = pos \<and> n = length bs then bs else file_bytes f a n)"
proof (cases "a = pos \<and> n = length bs")
  case True
  then show ?thesis by (intro nth_equalityI) (simp_all add: file_bytes_def overlay_def)
next
  case False
  then show ?thesis using assms by (intro nth_equalityI) (auto simp: file_bytes_def overlay_def)
qed

lemma length_file_bytes [simp]: "length (file_bytes f a n) = n"
  by (simp add: file_bytes_def)

lemma dslot_write:
  assumes "length (direntry_bytes sd) = 64" "sfd_ino sd < 2 ^ 32"
  shows "dslot (f\<lparr>f_size := z, f_data := overlay (j * 64) (direntry_bytes sd) (f_data f)\<rparr>) k = (if k = j then sd else dslot f k)"
proof -
  have "k * 64 + 64 \<le> j * 64 \<or> j * 64 + 64 \<le> k * 64 \<or> k * 64 = j * 64" by (cases k j rule: linorder_cases) auto
  then show ?thesis using file_bytes_overlay [of "k * 64" 64 "j * 64" "direntry_bytes sd" f z] assms by (auto simp: dslot_def)
qed

lemma slot_pos: "(k * 64) mod 512 + 64 \<le> 512" for k :: nat
proof -
  have "(k * 64) mod 512 = k mod 8 * 64" using mult_mod_right [of 64 k 8] by (simp add: mult.commute)
  moreover have "k mod 8 \<le> 7" by simp
  ultimately show ?thesis by linarith
qed

lemma readdir_wp:
  assumes inv: "vol_inv I X s" and l: "biglock s > 0" and v: "v \<in> set (sfs_vnodes s)" and i: "i = ino_of s v" and k: "k * 64 < max_size"
  shows "wp (sfs_readdir v k s) (\<lambda>s' r. quiet s s' \<and> (r = Inl EIO \<or> r = Inr (dslot (file_at s i) k)))"
proof -
  have u: "u32 (k * 64) = k * 64" "DIRENTRY_SIZE = 64" using k by (simp_all add: DIRENTRY_SIZE_def SFS_NAMELEN_def max_size_def)
  show ?thesis unfolding sfs_readdir_def u(2) u(1) wp_onok
    by (rule wp_mono [OF metaio_read_wp [OF inv l v i slot_pos k]]) (auto simp: dslot_def)
qed

lemma nentries_eq:
  assumes inv: "vol_inv I X s" and v: "v \<in> set (sfs_vnodes s)" and i: "i = ino_of s v" and d: "dir_ok (file_at s i)"
  shows "sfs_dir_nentries v s = Some (nslots (file_at s i))"
  using d vnode_cur [OF inv v] i by (simp add: sfs_dir_nentries_def dir_ok_def file_of_def nslots_def DIRENTRY_SIZE_def SFS_NAMELEN_def)

text \<open>The search, as what it finds.\<close>

definition found_in :: "afile \<Rightarrow> byte list \<Rightarrow> nat set \<Rightarrow> (nat \<times> nat) option \<Rightarrow> nat option \<Rightarrow> bool" where
  "found_in f name K found em \<longleftrightarrow>
     (case found of None \<Rightarrow> \<forall>k\<in>K. dino f k \<noteq> 0 \<longrightarrow> dname f k \<noteq> name | Some (ino, k) \<Rightarrow> k \<in> K \<and> dino f k = ino \<and> ino \<noteq> 0 \<and> dname f k = name)
     \<and> (case em of None \<Rightarrow> \<forall>k\<in>K. dino f k \<noteq> 0 | Some e \<Rightarrow> e \<in> K \<and> dino f e = 0)"

lemma findname_loop_wp:
  assumes "vol_inv I X s" "biglock s > 0" "v \<in> set (sfs_vnodes s)" "i = ino_of s v" "dir_ok (file_at s i)"
    and "K \<union> set ks \<subseteq> {..<nslots (file_at s i)}" "K \<inter> set ks = {}" "distinct ks" "found_in (file_at s i) name K found em"
  shows "wp (findname_loop v name ks found em s) (\<lambda>s' r. quiet s s' \<and>
    (case r of Inl e \<Rightarrow> e = EIO | Inr (found, em) \<Rightarrow> found_in (file_at s i) name (K \<union> set ks) found em))"
  using assms
proof (induction ks arbitrary: K found em s)
  case Nil
  then show ?case by simp
next
  case (Cons k ks)
  let ?f = "file_at s i"
  have k: "k < nslots ?f" "k \<notin> K" "k \<notin> set ks" using Cons.prems(6-8) by auto
  have "k * 64 < max_size" using k(1) Cons.prems(5) by (auto simp: dir_ok_def nslots_def)
  note rd = readdir_wp [OF Cons.prems(1-4) this]
  show ?case unfolding findname_loop.simps wp_onok
  proof (rule wp_mono [OF rd], goal_cases)
    case (1 s1 r)
    then have q: "quiet s s1" by blast
    show ?case
    proof (cases "r = Inl EIO")
      case True
      then show ?thesis using q by simp
    next
      case False
      then have r: "r = Inr (dslot ?f k)" using 1 by blast
      have f1: "file_at s1 i = ?f" by (simp add: quiet_simps [OF q] quiet_cur [OF q])
      have p1: "vol_inv I X s1" "biglock s1 > 0" "v \<in> set (sfs_vnodes s1)" "i = ino_of s1 v" "dir_ok (file_at s1 i)"
        using vol_inv_quiet [OF q Cons.prems(1)] Cons.prems(2-5) f1 by (simp_all add: quiet_simps [OF q])
      have IH: "wp (findname_loop v name ks found' em' s1) (\<lambda>s' r. quiet s s' \<and>
          (case r of Inl e \<Rightarrow> e = EIO | Inr (found, em) \<Rightarrow> found_in ?f name (K \<union> set (k # ks)) found em))"
        if "found_in ?f name (insert k K) found' em'" for found' em'
        by (rule wp_mono [OF Cons.IH [OF p1, of "insert k K" found' em']])
          (use Cons.prems(6-8) that k f1 quiet_trans [OF q] in \<open>auto split: sum.splits\<close>)
      have nm: "cstring (take (SFS_NAMELEN - 1) (sfd_name (dslot ?f k))) = dname ?f k" by (simp add: dname_def SFS_NAMELEN_def)
      show ?thesis
      proof (cases "dino ?f k = 0")
        case True
        then have "found_in ?f name (insert k K) found (Some k)" using Cons.prems(9) by (auto simp: found_in_def split: option.splits)
        then show ?thesis using IH True r by (simp add: SFS_NOINO_def)
      next
        case nz: False
        show ?thesis
        proof (cases "dname ?f k = name")
          case True
          have "found = None"
          proof (rule ccontr)
            assume "found \<noteq> None"
            then obtain ino j where "found = Some (ino, j)" by auto
            then have "j \<in> K" "dino ?f j \<noteq> 0" "dname ?f j = name" using Cons.prems(9) by (auto simp: found_in_def)
            then have "j = k" using Cons.prems(5,6) k(1) nz True unfolding dir_ok_def by auto
            then show False using k(2) \<open>j \<in> K\<close> by simp
          qed
          moreover have "found_in ?f name (insert k K) (Some (dino ?f k, k)) em" using Cons.prems(9) nz True by (auto simp: found_in_def split: option.splits)
          ultimately show ?thesis using IH nz True r nm by (simp add: SFS_NOINO_def)
        next
          case False
          then have "found_in ?f name (insert k K) found em" using Cons.prems(9) nz by (auto simp: found_in_def split: option.splits)
          then show ?thesis using IH nz False r nm by (simp add: SFS_NOINO_def)
        qed
      qed
    qed
  qed
qed

lemma findname_wp:
  assumes p: "vol_inv I X s" "biglock s > 0" "v \<in> set (sfs_vnodes s)" "i = ino_of s v" "dir_ok (file_at s i)"
  shows "wp (sfs_dir_findname v name s) (\<lambda>s' r. quiet s s' \<and>
    (case r of Inl e \<Rightarrow> e = EIO | Inr (found, em) \<Rightarrow> found_in (file_at s i) name {..<nslots (file_at s i)} found em))"
proof -
  let ?n = "nslots (file_at s i)"
  have n: "{} \<union> set [0..<?n] = {..<?n}" by (simp add: atLeast0LessThan)
  show ?thesis using findname_loop_wp [OF p, of "{}" "[0..<?n]" name None None] nentries_eq [OF p(1,3,4,5)]
    unfolding n by (simp add: sfs_dir_findname_def found_in_def)
qed


section \<open>Directories as sets of entries\<close>

definition dents :: "afile \<Rightarrow> (byte list \<times> nat) set" where
  "dents f = {(dname f k, dino f k) |k. k < nslots f \<and> dino f k \<noteq> 0}"

definition set_slot :: "afile \<Rightarrow> nat \<Rightarrow> sfs_direntry \<Rightarrow> afile" where
  "set_slot f k sd = f\<lparr>f_size := max (f_size f) (k * 64 + 64), f_data := overlay (k * 64) (direntry_bytes sd) (f_data f)\<rparr>"

definition entry_of :: "nat \<Rightarrow> byte list \<Rightarrow> sfs_direntry" where
  "entry_of ino name = \<lparr>sfd_ino = ino, sfd_name = name @ replicate (60 - length name) 0\<rparr>"

definition no_entry :: sfs_direntry where
  "no_entry = \<lparr>sfd_ino = 0, sfd_name = replicate 60 0\<rparr>"

lemma finite_dents [simp]: "finite (dents f)"
proof -
  have "dents f = (\<lambda>k. (dname f k, dino f k)) ` {k. k < nslots f \<and> dino f k \<noteq> 0}" by (auto simp: dents_def)
  then show ?thesis by simp
qed

lemma dents_fun: "dir_ok f \<Longrightarrow> (n, i) \<in> dents f \<Longrightarrow> (n, j) \<in> dents f \<Longrightarrow> i = j"
  by (auto simp: dents_def dir_ok_def)

lemma dents_nonzero: "(n, i) \<in> dents f \<Longrightarrow> i \<noteq> 0"
  by (auto simp: dents_def)

lemma cstring_of: "0 \<notin> set name \<Longrightarrow> cstring (name @ replicate n 0) = name"
proof -
  assume "0 \<notin> set name"
  then have "\<forall>x\<in>set name. x \<noteq> 0" by auto
  then show ?thesis by (cases n) (simp_all add: cstring_def takeWhile_append2)
qed

lemma set_slot_simps [simp]: "f_type (set_slot f k sd) = f_type f" "f_links (set_slot f k sd) = f_links f" "f_size (set_slot f k sd) = max (f_size f) (k * 64 + 64)"
  by (simp_all add: set_slot_def)

lemma nslots_set_slot: "f_size f mod 64 = 0 \<Longrightarrow> nslots (set_slot f k sd) = max (nslots f) (Suc k)"
proof -
  assume "f_size f mod 64 = 0"
  then obtain n where n: "f_size f = n * 64" by (metis mod_0_imp_dvd dvd_def mult.commute)
  have "max (n * 64) (k * 64 + 64) = max n (Suc k) * 64" by (simp add: max_def)
  then show ?thesis using n by (simp add: nslots_def)
qed

lemma dslot_set_slot:
  assumes "length (sfd_name sd) = 60" "sfd_ino sd < 2 ^ 32"
  shows "dslot (set_slot f k sd) j = (if j = k then sd else dslot f j)" "dname (set_slot f k sd) j = (if j = k then cstring (take 59 (sfd_name sd)) else dname f j)"
  using dslot_write [where sd = sd and f = f and j = k and k = j] assms by (simp_all add: set_slot_def direntry_bytes_def dname_def)

lemma dir_size: "dir_ok f \<Longrightarrow> nslots f * 64 \<le> max_size"
  by (auto simp: dir_ok_def nslots_def)

lemma slot_room: "k * 64 < max_size \<Longrightarrow> k * 64 + 64 \<le> max_size"
  unfolding max_size_def by presburger

lemma link_slot:
  assumes d: "dir_ok f" and k: "k \<le> nslots f" "k < nslots f \<Longrightarrow> dino f k = 0" "k * 64 < max_size" and nm: "0 \<notin> set name" "length name \<le> 59"
    and new: "\<And>i. (name, i) \<notin> dents f" and ino: "ino \<noteq> 0" "ino < 2 ^ 32"
  shows "dir_ok (set_slot f k (entry_of ino name))" "dents (set_slot f k (entry_of ino name)) = insert (name, ino) (dents f)"
proof -
  let ?g = "set_slot f k (entry_of ino name)"
  have sz: "f_size f mod 64 = 0" using d by (simp add: dir_ok_def)
  have e: "length (sfd_name (entry_of ino name)) = 60" "sfd_ino (entry_of ino name) < 2 ^ 32" "sfd_ino (entry_of ino name) = ino"
    using nm(2) ino(2) by (simp_all add: entry_of_def)
  have "cstring (take 59 (sfd_name (entry_of ino name))) = name" using cstring_of [OF nm(1)] nm(2) by (simp add: entry_of_def)
  then have n: "dname ?g j = (if j = k then name else dname f j)" "dino ?g j = (if j = k then ino else dino f j)" for j
    using dslot_set_slot [OF e(1,2)] e(3) by simp_all
  have ns: "j < nslots ?g \<longleftrightarrow> j < nslots f \<or> j = k" for j using nslots_set_slot [OF sz] k(1) by (auto simp: max_def)
  have old: "dname f j \<noteq> name" if "j < nslots f" "dino f j \<noteq> 0" for j using new [of "dino f j"] that by (auto simp: dents_def)
  have u: "\<And>j j'. j < nslots f \<Longrightarrow> j' < nslots f \<Longrightarrow> dino f j \<noteq> 0 \<Longrightarrow> dino f j' \<noteq> 0 \<Longrightarrow> dname f j = dname f j' \<Longrightarrow> j = j'"
    using d by (auto simp: dir_ok_def)
  have "\<forall>j<nslots ?g. \<forall>j'<nslots ?g. dino ?g j \<noteq> 0 \<and> dino ?g j' \<noteq> 0 \<and> dname ?g j = dname ?g j' \<longrightarrow> j = j'"
    unfolding ns n using old u by auto
  moreover have "f_size ?g mod 64 = 0" using sz by (simp add: max_def)
  moreover have "f_size ?g \<le> max_size" using d slot_room [OF k(3)] by (simp add: dir_ok_def)
  ultimately show "dir_ok ?g" using d by (simp add: dir_ok_def)
  show "dents ?g = insert (name, ino) (dents f)"
  proof (intro set_eqI iffI)
    fix x
    assume "x \<in> dents ?g"
    then obtain j where j: "x = (dname ?g j, dino ?g j)" "j < nslots f \<or> j = k" "dino ?g j \<noteq> 0" using ns by (auto simp: dents_def)
    then show "x \<in> insert (name, ino) (dents f)" using n by (cases "j = k") (auto simp: dents_def)
  next
    fix x
    assume "x \<in> insert (name, ino) (dents f)"
    then consider "x = (name, ino)" | j where "x = (dname f j, dino f j)" "j < nslots f" "dino f j \<noteq> 0" by (auto simp: dents_def)
    then show "x \<in> dents ?g"
    proof cases
      case 1
      then show ?thesis unfolding dents_def using n [of k] ns ino(1) by (intro CollectI exI [of _ k]) simp
    next
      case (2 j)
      then have "j \<noteq> k" using k(2) by auto
      then show ?thesis unfolding dents_def using n [of j] ns 2 by (intro CollectI exI [of _ j]) simp
    qed
  qed
qed

lemma unlink_slot:
  assumes d: "dir_ok f" and k: "k < nslots f" "dino f k \<noteq> 0"
  shows "dir_ok (set_slot f k no_entry)" "dents (set_slot f k no_entry) = dents f - {(dname f k, dino f k)}" "f_size (set_slot f k no_entry) = f_size f"
proof -
  let ?g = "set_slot f k no_entry"
  have sz: "f_size f mod 64 = 0" using d by (simp add: dir_ok_def)
  have n: "dino ?g j = (if j = k then 0 else dino f j)" "j \<noteq> k \<Longrightarrow> dname ?g j = dname f j" for j
    using dslot_set_slot [of no_entry f k j] by (simp_all add: no_entry_def)
  have ns: "nslots ?g = nslots f" using nslots_set_slot [OF sz] k(1) by simp
  have "f_size f = nslots f * 64" unfolding nslots_def using sz by (simp add: mod_0_imp_dvd)
  then have "k * 64 + 64 \<le> f_size f" using k(1) by simp
  then show s: "f_size ?g = f_size f" by simp
  have u: "\<And>j j'. j < nslots f \<Longrightarrow> j' < nslots f \<Longrightarrow> dino f j \<noteq> 0 \<Longrightarrow> dino f j' \<noteq> 0 \<Longrightarrow> dname f j = dname f j' \<Longrightarrow> j = j'"
    using d by (auto simp: dir_ok_def)
  have "\<forall>j<nslots ?g. \<forall>j'<nslots ?g. dino ?g j \<noteq> 0 \<and> dino ?g j' \<noteq> 0 \<and> dname ?g j = dname ?g j' \<longrightarrow> j = j'"
  proof (intro allI impI, elim conjE)
    fix j j'
    assume a: "j < nslots ?g" "j' < nslots ?g" "dino ?g j \<noteq> 0" "dino ?g j' \<noteq> 0" "dname ?g j = dname ?g j'"
    then have "j \<noteq> k" "j' \<noteq> k" using n(1) by (metis)+
    then show "j = j'" using a u [of j j'] n ns by simp
  qed
  then show "dir_ok ?g" using d s unfolding dir_ok_def set_slot_simps(1) by (simp del: set_slot_simps(3))
  show "dents ?g = dents f - {(dname f k, dino f k)}"
  proof (intro set_eqI iffI)
    fix x
    assume "x \<in> dents ?g"
    then obtain j where j: "x = (dname ?g j, dino ?g j)" "j < nslots f" "dino ?g j \<noteq> 0" using ns by (auto simp: dents_def)
    then have "j \<noteq> k" using n(1) by metis
    then show "x \<in> dents f - {(dname f k, dino f k)}" using j n u [OF j(2) k(1)] k(2) by (auto simp: dents_def)
  next
    fix x
    assume "x \<in> dents f - {(dname f k, dino f k)}"
    then obtain j where j: "x = (dname f j, dino f j)" "j < nslots f" "dino f j \<noteq> 0" "j \<noteq> k" by (auto simp: dents_def)
    then show "x \<in> dents ?g" using n ns unfolding dents_def by (intro CollectI exI [of _ j]) simp
  qed
qed

lemma found_dents:
  assumes "found_in f name {..<nslots f} found em"
  shows "found = None \<Longrightarrow> (name, i) \<notin> dents f" "found = Some (ino, k) \<Longrightarrow> k < nslots f \<and> dino f k = ino \<and> ino \<noteq> 0 \<and> dname f k = name \<and> (name, ino) \<in> dents f"
    "em = Some e \<Longrightarrow> e < nslots f \<and> dino f e = 0"
  using assms by (auto simp: found_in_def dents_def split: option.splits)

section \<open>Changes of a directory\<close>

definition dir_post :: "nat set \<Rightarrow> nat set \<Rightarrow> sfs \<Rightarrow> nat \<Rightarrow> sfs \<Rightarrow> bool" where
  "dir_post I X s i s' \<longleftrightarrow> vol_inv I X s' \<and> calm s s' \<and> (\<forall>j\<in>I. j \<noteq> i \<longrightarrow> file_at s' j = file_at s j)"

lemma dir_post_quiet: "vol_inv I X s \<Longrightarrow> quiet s s' \<Longrightarrow> dir_post I X s i s'"
  by (simp add: dir_post_def vol_inv_quiet quiet_calm quiet_simps quiet_cur)

lemma writedir_wp:
  assumes inv: "vol_inv I X s" and l: "biglock s > 0" and v: "v \<in> set (sfs_vnodes s)" and i: "i = ino_of s v" and k: "k * 64 < 2 ^ 31"
    and sd: "length (sfd_name sd) = 60"
  shows "wp (sfs_writedir v k sd s) (\<lambda>s' r. dir_post I X s i s' \<and>
    (case r of Inl e \<Rightarrow> e \<in> {EIO, EFBIG, ENOSPC} \<and> file_at s' i = file_at s i \<and> (e = EFBIG \<longrightarrow> max_size \<le> k * 64)
     | Inr _ \<Rightarrow> file_at s' i = set_slot (file_at s i) k sd \<and> k * 64 < max_size))"
proof -
  have u: "u32 (k * 64) = k * 64" "DIRENTRY_SIZE = 64" using k by (simp_all add: DIRENTRY_SIZE_def SFS_NAMELEN_def)
  have ln: "length (direntry_bytes sd) = 64" using sd by (simp add: direntry_bytes_def)
  show ?thesis unfolding sfs_writedir_def u(2) u(1)
    by (rule wp_mono [OF metaio_write_wp [OF inv l v i _ k]]) (use slot_pos [of k] ln in \<open>auto simp: meta_written_def dir_post_def set_slot_def split: sum.splits\<close>)
qed

lemma dir_link_wp:
  assumes inv: "vol_inv I X s" and l: "biglock s > 0" and v: "v \<in> set (sfs_vnodes s)" and i: "i = ino_of s v" and d: "dir_ok (file_at s i)"
    and nm: "0 \<notin> set name" and ino: "ino \<noteq> 0" "ino < 2 ^ 32"
  shows "wp (sfs_dir_link v name ino s) (\<lambda>s' r. dir_post I X s i s' \<and>
    (case r of Inl e \<Rightarrow> e \<in> {EIO, EFBIG, ENOSPC, EEXIST, ENAMETOOLONG} \<and> file_at s' i = file_at s i \<and> (e = EEXIST \<longrightarrow> name \<in> fst ` dents (file_at s i))
     | Inr k \<Rightarrow> file_at s' i = set_slot (file_at s i) k (entry_of ino name) \<and> k \<le> nslots (file_at s i) \<and> (k < nslots (file_at s i) \<longrightarrow> dino (file_at s i) k = 0)
         \<and> k * 64 < max_size \<and> length name \<le> 59 \<and> (\<forall>j. (name, j) \<notin> dents (file_at s i))))"
  unfolding sfs_dir_link_def wp_onok
proof (rule wp_mono [OF findname_wp [OF inv l v i d]], goal_cases)
  case (1 s1 r)
  let ?f = "file_at s i"
  have q: "quiet s s1" using 1 by blast
  have f1: "file_at s1 j = file_at s j" for j by (simp add: quiet_simps [OF q] quiet_cur [OF q])
  note same = dir_post_quiet [OF inv q, of i]
  have p1: "vol_inv I X s1" "biglock s1 > 0" "v \<in> set (sfs_vnodes s1)" "i = ino_of s1 v" "dir_ok (file_at s1 i)"
    using vol_inv_quiet [OF q inv] l v i d f1 by (simp_all add: quiet_simps [OF q])
  show ?case
  proof (cases r)
    case (Inl e)
    then show ?thesis using 1 same f1 by simp
  next
    case (Inr w)
    obtain found em where w: "w = (found, em)" by (cases w)
    have fi: "found_in ?f name {..<nslots ?f} found em" using 1 Inr w by simp
    show ?thesis
    proof (cases "found = None \<and> length name \<le> 59")
      case False
      have "name \<in> fst ` dents ?f" if "found \<noteq> None" using that found_dents(2) [OF fi] by force
      then show ?thesis using False Inr w same f1 by (auto simp: SFS_NAMELEN_def)
    next
      case True
      define k where "k = (case em of Some e \<Rightarrow> e | None \<Rightarrow> nslots ?f)"
      have k: "k \<le> nslots ?f" "k < nslots ?f \<longrightarrow> dino ?f k = 0" using found_dents(3) [OF fi] by (auto simp: k_def split: option.split)
      have k2: "k * 64 < 2 ^ 31" using k(1) dir_size [OF d] by (simp add: max_size_def)
      have slot: "(case em of Some e \<Rightarrow> Some e | None \<Rightarrow> sfs_dir_nentries v s1) = Some k"
        using nentries_eq [OF p1(1,3,4,5)] f1 by (simp add: k_def split: option.split)
      have en: "\<lparr>sfd_ino = ino, sfd_name = name @ replicate (SFS_NAMELEN - length name) 0\<rparr> = entry_of ino name" by (simp add: entry_of_def SFS_NAMELEN_def)
      have ln: "length (sfd_name (entry_of ino name)) = 60" using True by (simp add: entry_of_def)
      have abs: "\<forall>j. (name, j) \<notin> dents ?f" using found_dents(1) [OF fi] True by blast
      have dp: "dir_post I X s i s2" if "dir_post I X s1 i s2" for s2 using that calm_trans [OF quiet_calm [OF q]] f1 by (simp add: dir_post_def)
      have "wp (onok (sfs_writedir v k (entry_of ino name) s1) (\<lambda>_ s. Some (s, Inr k))) (\<lambda>s' r. dir_post I X s i s' \<and>
          (case r of Inl e \<Rightarrow> e \<in> {EIO, EFBIG, ENOSPC, EEXIST, ENAMETOOLONG} \<and> file_at s' i = file_at s i \<and> (e = EEXIST \<longrightarrow> name \<in> fst ` dents ?f)
           | Inr k \<Rightarrow> file_at s' i = set_slot ?f k (entry_of ino name) \<and> k \<le> nslots ?f \<and> (k < nslots ?f \<longrightarrow> dino ?f k = 0)
               \<and> k * 64 < max_size \<and> length name \<le> 59 \<and> (\<forall>j. (name, j) \<notin> dents ?f)))"
        unfolding wp_onok by (rule wp_mono [OF writedir_wp [OF p1(1-4) k2 ln]]) (use dp k True abs f1 in \<open>auto split: sum.splits\<close>)
      then show ?thesis using Inr w True slot en by (simp add: SFS_NAMELEN_def)
    qed
  qed
qed

lemma dir_unlink_wp:
  assumes inv: "vol_inv I X s" and l: "biglock s > 0" and v: "v \<in> set (sfs_vnodes s)" and i: "i = ino_of s v" and k: "k * 64 < max_size"
  shows "wp (sfs_dir_unlink v k s) (\<lambda>s' r. dir_post I X s i s' \<and>
    (case r of Inl e \<Rightarrow> e \<in> {EIO, ENOSPC} \<and> file_at s' i = file_at s i | Inr _ \<Rightarrow> file_at s' i = set_slot (file_at s i) k no_entry))"
proof -
  have e: "\<lparr>sfd_ino = SFS_NOINO, sfd_name = replicate SFS_NAMELEN 0\<rparr> = no_entry" by (simp add: no_entry_def SFS_NOINO_def SFS_NAMELEN_def)
  have k2: "k * 64 < 2 ^ 31" "length (sfd_name no_entry) = 60" using k by (simp_all add: max_size_def no_entry_def)
  show ?thesis unfolding sfs_dir_unlink_def e
    by (rule wp_mono [OF writedir_wp [OF inv l v i k2]]) (use k in \<open>auto split: sum.splits\<close>)
qed

end
