(* ===== verification/Sfs_Inode.thy ===== *)
theory Sfs_Inode
  imports Sfs_Dir
begin

text \<open>
  Inodes in memory: the vnode table, loading an inode from its block, creating one, and writing one back, each with what it does to the volume invariant and to the reference counts.
\<close>

section \<open>References to vnodes\<close>

definition rc :: "sfs \<Rightarrow> nat \<Rightarrow> nat" where
  "rc s v = (if v \<in> set (sfs_vnodes s) then vn_refcount (svs s v) else 0)"

text \<open>
  What the operations on vnodes leave alone. A vnode that is in the table and is as old as the first state was
  in the table then, for the same inode.
\<close>

definition env :: "sfs \<Rightarrow> sfs \<Rightarrow> bool" where
  "env s s' \<longleftrightarrow> biglock s' = biglock s \<and> memok s' = memok s \<and> sfs_sb s' = sfs_sb s \<and> lh_blocks (disk s') = lh_blocks (disk s) \<and> media (disk s') = media (disk s)
     \<and> sfs_device s' = sfs_device s \<and> sfs_superdirty s' = sfs_superdirty s \<and> uspace (mach s') = uspace (mach s) \<and> curas (mach s') = curas (mach s)
     \<and> ticks s \<le> ticks s' \<and> (\<forall>v<ticks s. v \<in> set (sfs_vnodes s') \<longrightarrow> v \<in> set (sfs_vnodes s) \<and> ino_of s' v = ino_of s v) \<and> meta_kept s s'"

lemma env_refl [simp]: "env s s"
  by (simp add: env_def)

lemma envD:
  assumes "env s s'"
  shows "biglock s' = biglock s" "memok s' = memok s" "sfs_sb s' = sfs_sb s" "lh_blocks (disk s') = lh_blocks (disk s)" "media (disk s') = media (disk s)"
    "sfs_device s' = sfs_device s" "sfs_superdirty s' = sfs_superdirty s" "uspace (mach s') = uspace (mach s)" "curas (mach s') = curas (mach s)" "ticks s \<le> ticks s'"
    "v < ticks s \<Longrightarrow> v \<in> set (sfs_vnodes s') \<Longrightarrow> v \<in> set (sfs_vnodes s) \<and> ino_of s' v = ino_of s v" "meta_kept s s'"
  using assms by (simp_all add: env_def)

lemma env_trans:
  assumes a: "env s s1" and b: "env s1 s2"
  shows "env s s2"
proof -
  have "v \<in> set (sfs_vnodes s) \<and> ino_of s2 v = ino_of s v" if "v < ticks s" "v \<in> set (sfs_vnodes s2)" for v
    using envD(11) [OF b, of v] envD(11) [OF a that(1)] envD(10) [OF a] that by simp
  moreover have "meta_kept s s2" using meta_kept_trans [OF envD(12) [OF a] envD(12) [OF b] envD(3) [OF a]] .
  ultimately show ?thesis using envD(1-10) [OF a] envD(1-10) [OF b] unfolding env_def by simp
qed

lemma calm_env: "calm s s' \<Longrightarrow> env s s'"
  using calmD [of s s'] by (simp add: env_def)

lemma calm_rc: "calm s s' \<Longrightarrow> rc s' = rc s"
  by (rule ext) (simp add: rc_def calmD)

text \<open>A step on vnodes that changes no file and gives or takes references.\<close>

definition vstep :: "nat set \<Rightarrow> sfs \<Rightarrow> sfs \<Rightarrow> (nat \<Rightarrow> nat) \<Rightarrow> bool" where
  "vstep I s s' c \<longleftrightarrow> env s s' \<and> rc s' = c \<and> (\<forall>i\<in>I. file_at s' i = file_at s i)"

lemma vstep_calm: "keeps_files I s s' \<Longrightarrow> vstep I s s' (rc s)"
  using calm_env calm_rc by (simp add: vstep_def keeps_files_def)

lemma vstep_trans: "vstep I s s1 c \<Longrightarrow> vstep I s1 s2 d \<Longrightarrow> vstep I s s2 d"
  using env_trans by (auto simp: vstep_def)

lemma vstep_keeps: "vstep I s s1 c \<Longrightarrow> keeps_files I s1 s2 \<Longrightarrow> vstep I s s2 c"
  using vstep_trans [of I s s1 c s2 "rc s1"] vstep_calm [of I s1 s2] by (simp add: vstep_def)

section \<open>Changes of the table of vnodes\<close>

definition set_ref :: "nat \<Rightarrow> nat \<Rightarrow> sfs \<Rightarrow> sfs" where
  "set_ref v n s = s\<lparr>svs := (svs s)(v := (svs s v)\<lparr>vn_refcount := n\<rparr>)\<rparr>"

lemma set_ref_simps [simp]:
  "disk (set_ref v n s) = disk s" "sfs_sb (set_ref v n s) = sfs_sb s" "sfs_superdirty (set_ref v n s) = sfs_superdirty s"
  "sfs_device (set_ref v n s) = sfs_device s" "sfs_vnodes (set_ref v n s) = sfs_vnodes s" "sfs_freemap (set_ref v n s) = sfs_freemap s"
  "sfs_freemapdirty (set_ref v n s) = sfs_freemapdirty s" "biglock (set_ref v n s) = biglock s" "mach (set_ref v n s) = mach s"
  "memok (set_ref v n s) = memok s" "ticks (set_ref v n s) = ticks s" "kbuf (set_ref v n s) = kbuf s"
  "iobuf (set_ref v n s) = iobuf s" "zeros (set_ref v n s) = zeros s" "ino_of (set_ref v n s) w = ino_of s w"
  "vn_ops (svs (set_ref v n s) w) = vn_ops (svs s w)" "sv_i (svs (set_ref v n s) w) = sv_i (svs s w)" "sv_dirty (svs (set_ref v n s) w) = sv_dirty (svs s w)"
  "vn_refcount (svs (set_ref v n s) w) = (if w = v then n else vn_refcount (svs s w))"
  by (simp_all add: set_ref_def)

lemma cur_set_ref [simp]: "cur (set_ref v n s) = cur s"
  by (rule ext) (simp add: cur_def split: option.split)

lemma vol_inv_set_ref:
  assumes inv: "vol_inv I X s" and n: "0 < n"
  shows "vol_inv I X (set_ref v n s)"
proof -
  have "vtab_ok (set_ref v n s)" using vol_invD(3) [OF inv] n by (simp add: vtab_ok_def vnode_ok_def)
  moreover have "hw_ok (set_ref v n s) = hw_ok s" "freemap_ok (set_ref v n s) = freemap_ok s" "loaded (set_ref v n s) = loaded s"
    by (simp_all only: hw_ok_def bufs_ok_def freemap_ok_def loaded_def set_ref_simps)
  ultimately show ?thesis using inv unfolding vol_inv_def vol_base_def by simp
qed

lemma vstep_set_ref:
  assumes v: "v \<in> set (sfs_vnodes s)"
  shows "vstep I s (set_ref v n s) ((rc s)(v := n))"
  using v by (auto simp: vstep_def env_def meta_kept_def rc_def fun_eq_iff)

text \<open>A request for memory.\<close>

lemma cur_ticks [simp]: "cur (s\<lparr>ticks := n\<rparr>) = cur s"
  by (rule ext) (simp add: cur_def split: option.split)

lemma vol_inv_ticks: "vol_inv I X s \<Longrightarrow> vol_inv I X (s\<lparr>ticks := ticks s + 1\<rparr>)"
proof -
  assume inv: "vol_inv I X s"
  let ?s = "s\<lparr>ticks := ticks s + 1\<rparr>"
  have c: "cur ?s = cur s" by simp
  have "vnode_ok ?s v" if "vnode_ok s v" for v using that by (simp add: vnode_ok_def)
  then have "vtab_ok ?s" using vol_invD(3) [OF inv] by (simp add: vtab_ok_def)
  moreover have "hw_ok ?s = hw_ok s" "freemap_ok ?s = freemap_ok s" "loaded ?s = loaded s"
    by (simp_all add: hw_ok_def bufs_ok_def freemap_ok_def loaded_def)
  ultimately show ?thesis using inv unfolding vol_inv_def vol_base_def c by simp
qed

lemma vstep_ticks: "vol_inv I X s \<Longrightarrow> vstep I s (s\<lparr>ticks := ticks s + 1\<rparr>) (rc s)"
  by (simp add: vstep_def env_def meta_kept_def rc_def fun_eq_iff)


text \<open>A vnode that is not in the table may hold anything.\<close>

lemma cur_svs_other: "sv \<notin> set (sfs_vnodes s) \<Longrightarrow> cur (s\<lparr>svs := (svs s)(sv := x)\<rparr>) = cur s"
proof
  fix i
  assume sv: "sv \<notin> set (sfs_vnodes s)"
  have e: "find (\<lambda>v. sv_ino (((svs s)(sv := x)) v) = i) (sfs_vnodes s) = find (\<lambda>v. ino_of s v = i) (sfs_vnodes s)"
    by (rule find_cong) (use sv in auto)
  have "v \<noteq> sv" if "find (\<lambda>v. ino_of s v = i) (sfs_vnodes s) = Some v" for v using that sv by (auto simp: find_Some_iff)
  moreover have "cur (s\<lparr>svs := (svs s)(sv := x)\<rparr>) i = (case find (\<lambda>v. ino_of s v = i) (sfs_vnodes s) of Some v \<Rightarrow> sv_i (((svs s)(sv := x)) v) | None \<Rightarrow> dinode_of (sect s i))"
    unfolding cur_def e [symmetric] by (simp split: option.split)
  ultimately show "cur (s\<lparr>svs := (svs s)(sv := x)\<rparr>) i = cur s i" by (auto simp: cur_def split: option.split)
qed

lemma vol_inv_svs_other:
  assumes inv: "vol_inv I X s" and sv: "sv \<notin> set (sfs_vnodes s)"
  shows "vol_inv I X (s\<lparr>svs := (svs s)(sv := x)\<rparr>)"
proof -
  let ?s = "s\<lparr>svs := (svs s)(sv := x)\<rparr>"
  have e: "svs ?s v = svs s v" if "v \<in> set (sfs_vnodes s)" for v using that sv by auto
  have "inj_on (ino_of ?s) (set (sfs_vnodes s)) = inj_on (ino_of s) (set (sfs_vnodes s))" by (rule inj_on_cong) (simp only: e)
  moreover have "vnode_ok ?s v = vnode_ok s v" if "v \<in> set (sfs_vnodes s)" for v using e [OF that] by (simp only: vnode_ok_def) simp
  ultimately have "vtab_ok ?s" using vol_invD(3) [OF inv] by (simp add: vtab_ok_def)
  moreover have "loaded ?s = loaded s" unfolding loaded_def using e by (intro image_cong) simp_all
  moreover have "hw_ok ?s = hw_ok s" "freemap_ok ?s = freemap_ok s" by (simp_all add: hw_ok_def bufs_ok_def freemap_ok_def)
  ultimately show ?thesis using inv unfolding vol_inv_def vol_base_def cur_svs_other [OF sv] by simp
qed

lemma vstep_svs_other: "sv \<notin> set (sfs_vnodes s) \<Longrightarrow> ticks s \<le> sv \<Longrightarrow> vstep I s (s\<lparr>svs := (svs s)(sv := x)\<rparr>) (rc s)"
  using cur_svs_other [of sv s x] by (auto simp: vstep_def env_def meta_kept_def rc_def fun_eq_iff)

text \<open>A vnode enters the table.\<close>

definition enter :: "nat \<Rightarrow> sfs \<Rightarrow> sfs" where
  "enter sv s = s\<lparr>sfs_vnodes := sfs_vnodes s @ [sv]\<rparr>"

lemma enter_simps [simp]:
  "disk (enter v s) = disk s" "sfs_sb (enter v s) = sfs_sb s" "sfs_superdirty (enter v s) = sfs_superdirty s" "sfs_device (enter v s) = sfs_device s"
  "sfs_vnodes (enter v s) = sfs_vnodes s @ [v]" "sfs_freemap (enter v s) = sfs_freemap s" "sfs_freemapdirty (enter v s) = sfs_freemapdirty s"
  "svs (enter v s) = svs s" "biglock (enter v s) = biglock s" "mach (enter v s) = mach s" "memok (enter v s) = memok s" "ticks (enter v s) = ticks s"
  "kbuf (enter v s) = kbuf s" "iobuf (enter v s) = iobuf s" "zeros (enter v s) = zeros s" "loaded (enter v s) = insert (ino_of s v) (loaded s)"
  by (simp_all add: enter_def loaded_def)

lemma find_append: "find P (xs @ ys) = (case find P xs of None \<Rightarrow> find P ys | Some x \<Rightarrow> Some x)"
  by (induction xs) auto

lemma cur_enter: "ino_of s sv \<notin> loaded s \<Longrightarrow> cur (enter sv s) = (cur s)(ino_of s sv := sv_i (svs s sv))"
proof
  fix i
  assume n: "ino_of s sv \<notin> loaded s"
  show "cur (enter sv s) i = ((cur s)(ino_of s sv := sv_i (svs s sv))) i"
  proof (cases "i = ino_of s sv")
    case True
    have "find (\<lambda>v. ino_of s v = i) (sfs_vnodes s) = None" unfolding find_None_iff True using n unfolding loaded_def by (metis imageI)
    then show ?thesis using True by (simp add: cur_def find_append)
  next
    case False
    then show ?thesis by (simp add: cur_def find_append split: option.split)
  qed
qed

lemma vtab_enter:
  assumes "vtab_ok s" "sv \<notin> set (sfs_vnodes s)" "ino_of s sv \<notin> loaded s" "vnode_ok s sv"
  shows "vtab_ok (enter sv s)"
proof -
  have "vnode_ok (enter sv s) v = vnode_ok s v" for v by (simp add: vnode_ok_def)
  then show ?thesis using assms by (auto simp: vtab_ok_def loaded_def)
qed

lemma vol_inv_enter_old:
  assumes inv: "vol_inv I X s" and sv: "sv \<notin> set (sfs_vnodes s)" "ino_of s sv \<notin> loaded s" "vnode_ok s sv" and i: "ino_of s sv \<in> I" "sv_i (svs s sv) = cur s (ino_of s sv)"
  shows "vol_inv I X (enter sv s)" "cur (enter sv s) = cur s"
proof -
  show c: "cur (enter sv s) = cur s" using cur_enter [OF sv(2)] i(2) by (simp add: fun_upd_idem)
  have "hw_ok (enter sv s) = hw_ok s" "freemap_ok (enter sv s) = freemap_ok s" by (simp_all only: hw_ok_def bufs_ok_def freemap_ok_def enter_simps)
  then show "vol_inv I X (enter sv s)" using inv i vtab_enter [OF vol_invD(3) [OF inv] sv] unfolding vol_inv_def vol_base_def c by simp
qed

lemma occ_new_inode:
  assumes "i \<notin> I" "\<And>p. blk S d p = 0"
  shows "occ S (C(i := d)) (insert i I) = (occ S C I)((i, Self) := i)"
proof
  fix l :: "nat \<times> place"
  obtain j p where l: "l = (j, p)" by (cases l)
  show "occ S (C(i := d)) (insert i I) l = ((occ S C I)((i, Self) := i)) l" unfolding l using assms by (auto simp: occ_def)
qed

lemma vol_inv_enter_new:
  assumes inv: "vol_inv I X s" and sv: "sv \<notin> set (sfs_vnodes s)" "ino_of s sv \<notin> loaded s" "vnode_ok s sv"
    and i: "i = ino_of s sv" "i \<in> X" "i \<notin> I" and d: "dinode_ok (sv_i (svs s sv))" "\<And>p. blk (sect s) (sv_i (svs s sv)) p = 0"
  shows "vol_inv (insert i I) (X - {i}) (enter sv s)" "j \<noteq> i \<Longrightarrow> cur (enter sv s) j = cur s j" "cur (enter sv s) i = sv_i (svs s sv)"
proof -
  note c = cur_enter [OF sv(2), folded i(1)]
  show "j \<noteq> i \<Longrightarrow> cur (enter sv s) j = cur s j" "cur (enter sv s) i = sv_i (svs s sv)" unfolding c by simp_all
  note o = vol_invD(7) [OF inv]
  have nz: "i \<noteq> 0" using ownD(1,2) [OF o] i(2) by auto
  have p: "places (insert i I) (enter sv s) = (places I s)((i, Self) := i)" unfolding c enter_simps by (rule occ_new_inode [OF i(3) d(2)])
  have "owned (places (insert i I) (enter sv s)) (X - {i}) (enter sv s)" unfolding p using own_attach [OF o i(2), of "(i, Self)"] i(3) by simp
  moreover have "hw_ok (enter sv s) = hw_ok s" "freemap_ok (enter sv s) = freemap_ok s" by (simp_all only: hw_ok_def bufs_ok_def freemap_ok_def enter_simps)
  ultimately show "vol_inv (insert i I) (X - {i}) (enter sv s)"
    using vol_invD(1-6) [OF inv] vtab_enter [OF vol_invD(3) [OF inv] sv] d(1) nz i unfolding vol_inv_def vol_base_def c by auto
qed

section \<open>Loading an inode\<close>

lemma find_vnode_spec:
  assumes inv: "vol_inv I X s" and vs: "set vs \<subseteq> set (sfs_vnodes s)"
  shows "find_vnode ino vs s = Some (find (\<lambda>v. ino_of s v = ino) vs)"
  using vs
proof (induction vs)
  case (Cons v vs)
  then have i: "ino_of s v \<in> I" using vnode_in [OF inv] by simp
  note b = ino_bound [OF inv i]
  have "sfs_bused (ino_of s v) s = Some True"
    using bitmap_isset_spec [OF freemap_okD(1) [OF vol_invD(2) [OF inv]], of "ino_of s v"] b(1,5) freemap_okD(3) [OF vol_invD(2) [OF inv]] by (simp add: sfs_bused_def)
  then show ?case using Cons by simp
qed simp

lemma bused_ino: "vol_inv I X s \<Longrightarrow> i \<in> I \<union> X \<Longrightarrow> sfs_bused i s = Some True"
proof -
  assume inv: "vol_inv I X s" and i: "i \<in> I \<union> X"
  have b: "i < nblks s" "i \<in> bitmap_used (sfs_freemap s)"
    using i ino_bound(1,5) [OF inv] ownD(3) [OF vol_invD(7) [OF inv]] ownD(9) [OF vol_invD(7) [OF inv], of i] by auto
  then show ?thesis
    using bitmap_isset_spec [OF freemap_okD(1) [OF vol_invD(2) [OF inv]], of i] freemap_okD(3) [OF vol_invD(2) [OF inv]] by (simp add: sfs_bused_def)
qed


text \<open>The steps of \<^verbatim>\<open>sfs_loadvnode\<close> for an inode that is not in memory, up to the point where the new vnode enters the table.\<close>

definition ready :: "nat set \<Rightarrow> nat set \<Rightarrow> sfs \<Rightarrow> sfs_vnode \<Rightarrow> nat \<Rightarrow> sfs \<Rightarrow> bool" where
  "ready I X s vn sv s' \<longleftrightarrow> vol_inv I X s' \<and> vstep I s s' (rc s) \<and> sect s' = sect s \<and> cur s' = cur s \<and> sfs_vnodes s' = sfs_vnodes s \<and> loaded s' = loaded s
     \<and> sv \<notin> set (sfs_vnodes s) \<and> ticks s \<le> sv \<and> sv < ticks s' \<and> svs s' sv = vn"

lemma load_new_wp:
  assumes inv: "vol_inv I X s" and l: "biglock s > 0" and i: "ino \<in> I \<union> X" "ino \<notin> loaded s"
    and d: "d = dinode_of (sect s ino)" "ft \<noteq> 0 \<Longrightarrow> sfi_type d = 0" "d' = (if ft \<noteq> 0 then d\<lparr>sfi_type := ft\<rparr> else d)" "vnode_ops_of (sfi_type d') = Some ops"
    and E: "\<And>s' e. e \<in> {ENOMEM, EIO} \<Longrightarrow> vol_inv I X s' \<Longrightarrow> vstep I s s' (rc s) \<Longrightarrow> sect s' = sect s \<Longrightarrow> Q s' (Inl e)"
    and K: "\<And>s' sv. ready I X s \<lparr>sv_i = d', sv_ino = ino, sv_dirty = (ft \<noteq> 0), vn_refcount = 1, vn_ops = ops\<rparr> sv s' \<Longrightarrow> Q (enter sv s') (Inr sv)"
  shows "wp (sfs_loadvnode ino ft s) Q"
proof -
  let ?s1 = "s\<lparr>ticks := ticks s + 1\<rparr>" and ?sv = "ticks s" and ?vn = "\<lparr>sv_i = d', sv_ino = ino, sv_dirty = (ft \<noteq> 0), vn_refcount = 1, vn_ops = ops\<rparr>"
  have "\<forall>v\<in>set (sfs_vnodes s). ino_of s v \<noteq> ino" using i(2) by (auto simp: loaded_def)
  then have "find (\<lambda>v. ino_of s v = ino) (sfs_vnodes s) = None" by (auto simp: find_None_iff)
  then have fv: "find_vnode ino (sfs_vnodes s) s = Some None" using find_vnode_spec [OF inv order_refl] by simp
  have inv1: "vol_inv I X ?s1" using vol_inv_ticks [OF inv] .
  note v1 = vstep_ticks [OF inv]
  have ns: "?sv \<notin> set (sfs_vnodes s)" using vtab_okD(3) [OF vol_invD(3) [OF inv]] by (auto simp: vnode_ok_def)
  have bu: "sfs_bused ino ?s1 = Some True" using bused_ino [OF inv1 i(1)] .
  have bl: "ino < nblks ?s1" using i(1) ino_bound(1) [OF inv1] ownD(3) [OF vol_invD(7) [OF inv1]] by auto
  have l1: "biglock ?s1 > 0" using l by simp
  show ?thesis
  proof (cases "memok s (ticks s)")
    case False
    then show ?thesis using E [OF _ inv1 v1] fv by (simp add: sfs_loadvnode_def request_memory_def)
  next
    case True
    have e: "sfs_loadvnode ino ft s = onok (sfs_readblock ino ?s1) (\<lambda>b s'. do {
        let d = dinode_of b;
        kassert (ft \<noteq> SFS_TYPE_INVAL \<longrightarrow> sfi_type d = SFS_TYPE_INVAL);
        let (d, dirty) = (if ft \<noteq> SFS_TYPE_INVAL then (d\<lparr>sfi_type := ft\<rparr>, True) else (d, False));
        ops \<leftarrow> vnode_ops_of (sfi_type d);
        let s = s'\<lparr>svs := (svs s')(?sv := \<lparr>sv_i = d, sv_ino = ino, sv_dirty = dirty, vn_refcount = 1, vn_ops = ops\<rparr>)\<rparr>;
        let (s, mem, _) = request_memory s;
        if \<not> mem then do { s \<leftarrow> vnode_cleanup ?sv s; Some (s, Inl ENOMEM) }
        else Some (s\<lparr>sfs_vnodes := sfs_vnodes s @ [?sv]\<rparr>, Inr ?sv)
      })"
      using fv bu True unfolding sfs_loadvnode_def by (simp add: request_memory_def Let_def)
    show ?thesis unfolding e wp_onok
    proof (rule wp_mono [OF read_wp [OF inv1 l1 bl]], goal_cases)
      case (1 s2 r)
      then have q: "quiet ?s1 s2" by blast
      note inv2 = vol_inv_quiet [OF q inv1] and v2 = vstep_trans [OF v1 vstep_calm [OF quiet_keeps [OF q]]]
      have rc1: "rc ?s1 = rc s" using v1 by (simp add: vstep_def)
      show ?case
      proof (cases "r = Inl EIO")
        case True
        then show ?thesis using E [OF _ inv2, of EIO] v2 rc1 quiet_simps(1) [OF q] by simp
      next
        case False
        then have r: "r = Inr (sect s ino)" using 1 by auto
        let ?s3 = "s2\<lparr>svs := (svs s2)(?sv := ?vn)\<rparr>"
        let ?s4 = "?s3\<lparr>ticks := ticks ?s3 + 1\<rparr>"
        have vn2: "sfs_vnodes s2 = sfs_vnodes s" "ticks s2 = Suc (ticks s)" "sect s2 = sect s" "memok s2 = memok s" using quiet_simps [OF q] by simp_all
        have ns2: "?sv \<notin> set (sfs_vnodes s2)" using ns vn2(1) by simp
        have inv3: "vol_inv I X ?s3" using vol_inv_svs_other [OF inv2 ns2] .
        have inv4: "vol_inv I X ?s4" using vol_inv_ticks [OF inv3] .
        have c2: "cur s2 = cur s" unfolding quiet_cur [OF q] by simp
        have c4: "cur ?s4 = cur s" using c2 cur_svs_other [OF ns2] by (simp only: cur_ticks)
        have svs2: "svs s2 = svs s" using quiet_simps [OF q] by simp
        have env4: "env s ?s4" using envD [OF conjunct1 [OF v2 [unfolded vstep_def]]] ns vn2 svs2 by (auto simp: env_def meta_kept_def)
        have rc4: "rc ?s4 = rc s" using ns vn2 svs2 by (auto simp: rc_def fun_eq_iff)
        have v4: "vstep I s ?s4 (rc s)" unfolding vstep_def c4 using env4 rc4 vn2(3) by simp
        have ld: "loaded ?s4 = loaded s" unfolding loaded_def using vn2(1) svs2 ns by (intro image_cong) auto
        have rd: "ready I X s ?vn ?sv ?s4" unfolding ready_def using inv4 v4 c4 ld ns vn2 by simp
        have ops: "dinode_of (sect s ino) = d" using d(1) by simp
        show ?thesis
        proof (cases "memok s (ticks s2)")
          case True
          then show ?thesis using K [OF rd] r d(2-4) ops vn2(4) by (auto simp: request_memory_def SFS_TYPE_INVAL_def enter_def)
        next
          case False
          let ?s5 = "?s4\<lparr>svs := (svs ?s4)(?sv := (svs ?s4 ?sv)\<lparr>vn_ops := No_ops, vn_refcount := 0\<rparr>)\<rparr>"
          have ns4: "?sv \<notin> set (sfs_vnodes ?s4)" using ns2 by simp
          have inv5: "vol_inv I X ?s5" using vol_inv_svs_other [OF inv4 ns4] .
          have c5: "cur ?s5 = cur s" using cur_svs_other [OF ns4] c4 by simp
          have "rc ?s5 = rc s" "env s ?s5" using ns vn2 svs2 env4 by (auto simp: rc_def fun_eq_iff env_def meta_kept_def)
          then have "vstep I s ?s5 (rc s)" unfolding vstep_def c5 using vn2(3) by simp
          then have "Q ?s5 (Inl ENOMEM)" using E [OF _ inv5] vn2(3) by simp
          then show ?thesis using r d(2-4) ops vn2(4) False by (auto simp: request_memory_def SFS_TYPE_INVAL_def vnode_cleanup_def)
        qed
      qed
    qed
  qed
qed


lemma rc_enter: "sv \<notin> set (sfs_vnodes s) \<Longrightarrow> rc (enter sv s) = (rc s)(sv := vn_refcount (svs s sv))"
  by (auto simp: rc_def fun_eq_iff)

lemma env_enter: "env s s1 \<Longrightarrow> ticks s \<le> sv \<Longrightarrow> env s (enter sv s1)"
  by (auto simp: env_def meta_kept_def)

lemma readyD:
  assumes "ready I X s vn sv s'"
  shows "vol_inv I X s'" "vstep I s s' (rc s)" "sect s' = sect s" "cur s' = cur s" "sfs_vnodes s' = sfs_vnodes s" "loaded s' = loaded s"
    "sv \<notin> set (sfs_vnodes s')" "ticks s \<le> sv" "sv < ticks s'" "svs s' sv = vn" "rc s' = rc s" "env s s'" "rc s sv = 0"
  using assms by (auto simp: ready_def vstep_def rc_def)

definition loaded_post :: "nat set \<Rightarrow> nat set \<Rightarrow> sfs \<Rightarrow> nat \<Rightarrow> sfs \<Rightarrow> errno + nat \<Rightarrow> bool" where
  "loaded_post I X s ino s' r \<longleftrightarrow> vol_inv I X s' \<and>
     (case r of
        Inl e \<Rightarrow> e \<in> {ENOMEM, EIO} \<and> ino \<notin> loaded s \<and> vstep I s s' (rc s)
      | Inr v \<Rightarrow> v \<in> set (sfs_vnodes s') \<and> ino_of s' v = ino \<and> vstep I s s' ((rc s)(v := rc s v + 1)))"

lemma ops_of_type: "t \<in> {SFS_TYPE_FILE, SFS_TYPE_DIR} \<Longrightarrow> \<exists>ops. vnode_ops_of t = Some ops"
  by (auto simp: vnode_ops_of_def)

lemma loadvnode_wp:
  assumes inv: "vol_inv I X s" and l: "biglock s > 0" and i: "ino \<in> I" and t: "f_type (file_at s ino) \<in> {SFS_TYPE_FILE, SFS_TYPE_DIR}"
  shows "wp (sfs_loadvnode ino SFS_TYPE_INVAL s) (loaded_post I X s ino)"
proof (cases "ino \<in> loaded s")
  case True
  then obtain v where v: "v \<in> set (sfs_vnodes s)" "ino_of s v = ino" by (auto simp: loaded_def)
  have "find (\<lambda>w. ino_of s w = ino) (sfs_vnodes s) = Some v" using find_ino [OF vtab_okD(2) [OF vol_invD(3) [OF inv]] v(1)] v(2) by simp
  then have "sfs_loadvnode ino SFS_TYPE_INVAL s = Some (set_ref v (vn_refcount (svs s v) + 1) s, Inr v)"
    using find_vnode_spec [OF inv order_refl] by (simp add: sfs_loadvnode_def vnode_incref_def set_ref_def)
  then show ?thesis using vol_inv_set_ref [OF inv] vstep_set_ref [OF v(1), of I "vn_refcount (svs s v) + 1"] v by (simp add: loaded_post_def rc_def)
next
  case False
  let ?d = "dinode_of (sect s ino)"
  have c: "cur s ino = ?d" using cur_unloaded [OF False] .
  obtain ops where ops: "vnode_ops_of (sfi_type ?d) = Some ops" using ops_of_type [of "sfi_type ?d"] t c by (auto simp: file_of_def)
  show ?thesis
  proof (rule load_new_wp [OF inv l _ False refl _ _ ops], goal_cases)
    case (4 s1 e)
    then show ?case using False by (simp add: loaded_post_def)
  next
    case (5 s1 sv)
    have rd: "ready I X s \<lparr>sv_i = ?d, sv_ino = ino, sv_dirty = False, vn_refcount = 1, vn_ops = ops\<rparr> sv s1" using 5 by (simp add: SFS_TYPE_INVAL_def)
    note r = readyD [OF rd]
    have vo: "vnode_ok s1 sv" using r(3,9,10) ops by (simp add: vnode_ok_def)
    have e: "vol_inv I X (enter sv s1)" "cur (enter sv s1) = cur s1"
      using vol_inv_enter_old [OF r(1) r(7) _ vo] r(4,6,10) i c False by simp_all
    have "vstep I s (enter sv s1) ((rc s)(sv := rc s sv + 1))"
      using env_enter [OF r(12,8)] rc_enter [OF r(7)] r(10,11,13) r(3,4) unfolding vstep_def e(2) by simp
    then show ?case using e(1) r(10) by (simp add: loaded_post_def)
  qed (use i in \<open>simp_all add: SFS_TYPE_INVAL_def\<close>)
qed

text \<open>A new object: an inode that was in no place, with an empty file.\<close>

definition empty_file :: "nat \<Rightarrow> afile" where
  "empty_file t = \<lparr>f_type = t, f_links = 0, f_size = 0, f_data = (\<lambda>_. 0)\<rparr>"

definition made_post :: "nat set \<Rightarrow> nat set \<Rightarrow> nat \<Rightarrow> sfs \<Rightarrow> sfs \<Rightarrow> errno + nat \<Rightarrow> bool" where
  "made_post I X t s s' r \<longleftrightarrow>
     (case r of
        Inl e \<Rightarrow> e \<in> {ENOMEM, EIO, ENOSPC} \<and> vol_inv I X s' \<and> vstep I s s' (rc s)
      | Inr v \<Rightarrow> \<exists>ino. ino \<notin> I \<and> ino \<noteq> 0 \<and> ino < 2 ^ 32 \<and> vol_inv (insert ino I) X s' \<and> v \<in> set (sfs_vnodes s') \<and> ino_of s' v = ino \<and> rc s v = 0
          \<and> vstep I s s' ((rc s)(v := 1)) \<and> file_at s' ino = empty_file t)"

lemma makeobj_wp:
  assumes inv: "vol_inv I X s" and l: "biglock s > 0" and t: "t \<in> {SFS_TYPE_FILE, SFS_TYPE_DIR}"
  shows "wp (sfs_makeobj t s) (made_post I X t s)"
  unfolding sfs_makeobj_def wp_onok
proof (rule wp_mono [OF balloc_wp [OF inv l]], goal_cases)
  case (1 s1 r)
  then have c1: "calm s s1" and ks: "keeps_files I s s1" unfolding keeps_files_def by blast+
  note v1 = vstep_calm [OF ks]
  show ?case
  proof (cases r)
    case (Inl e)
    then show ?thesis using 1 v1 by (simp add: made_post_def)
  next
    case (Inr ino)
    have inv1: "vol_inv I (insert ino X) s1" and nX: "ino \<notin> X" and z: "sect s1 ino = replicate 512 0" using 1 Inr by auto
    have nI: "ino \<notin> I" using ino_bound(3) [OF inv1] by auto
    then have nl: "ino \<notin> loaded s1" using vol_invD(4) [OF inv1] by auto
    have l1: "biglock s1 > 0" using l calmD(8) [OF c1] by simp
    have ib: "ino \<noteq> 0" "ino < 2 ^ 32" using ownD(1-3) [OF vol_invD(7) [OF inv1]] freemap_okD(6) [OF vol_invD(2) [OF inv1]] by auto
    define d where "d = (dinode_of (replicate 512 0))\<lparr>sfi_type := t\<rparr>"
    have d: "sfi_size d = 0" "sfi_linkcount d = 0" "sfi_direct d = replicate 15 0" "sfi_indirect d = 0" "sfi_type d = t"
      by (simp_all add: d_def dinode_of_zeros)
    have ok: "dinode_ok d" using dinode_of_ok [of "replicate 512 0"] t by (auto simp: d_def dinode_ok_def SFS_TYPE_FILE_def SFS_TYPE_DIR_def)
    obtain ops where ops: "vnode_ops_of (sfi_type d) = Some ops" using ops_of_type [OF t] d(5) by auto
    have tn: "t \<noteq> 0" using t by (auto simp: SFS_TYPE_FILE_def SFS_TYPE_DIR_def)
    let ?Q = "\<lambda>s' r. case r of Inl e \<Rightarrow> e \<in> {ENOMEM, EIO} \<and> vol_inv I (insert ino X) s' \<and> vstep I s s' (rc s) | Inr v \<Rightarrow> made_post I X t s s' (Inr v)"
    have "wp (sfs_loadvnode ino t s1) ?Q"
    proof (rule load_new_wp [OF inv1 l1 _ nl _ _ _ ops], goal_cases)
      case (5 s2 e)
      then show ?case using vstep_trans [OF v1 5(3)] calm_rc [OF c1] by simp
    next
      case (6 s2 sv)
      have rd: "ready I (insert ino X) s1 \<lparr>sv_i = d, sv_ino = ino, sv_dirty = True, vn_refcount = 1, vn_ops = ops\<rparr> sv s2" using 6 tn by simp
      note r2 = readyD [OF rd]
      have vo: "vnode_ok s2 sv" using r2(9,10) ops by (simp add: vnode_ok_def)
      have bz: "blk (sect s2) d p = 0" for p using d by (cases p) simp_all
      have sv: "ino = ino_of s2 sv" "sv_i (svs s2 sv) = d" "ino_of s2 sv \<notin> loaded s2" using r2(6,10) nl by simp_all
      note e = vol_inv_enter_new [OF r2(1,7) sv(3) vo sv(1) insertI1 nI, unfolded sv(2), OF ok bz]
      have e1: "vol_inv (insert ino I) (insert ino X - {ino}) (enter sv s2)" "\<And>j. j \<noteq> ino \<Longrightarrow> cur (enter sv s2) j = cur s2 j" "cur (enter sv s2) ino = d"
        using e by simp_all
      have f: "file_at (enter sv s2) ino = empty_file t" unfolding e1(3)
        using d by (simp add: file_of_def empty_file_def contents_def fblk_place bz fun_eq_iff)
      have "file_at (enter sv s2) j = file_at s1 j" if "j \<in> I" for j
      proof -
        have "cur (enter sv s2) j = cur s1 j" using e1(2) [of j] r2(4) that nI by (metis (no_types))
        then show ?thesis using r2(3) by simp
      qed
      then have "vstep I s1 (enter sv s2) ((rc s1)(sv := 1))" using env_enter [OF r2(12,8)] rc_enter [OF r2(7)] r2(10,11) by (simp add: vstep_def)
      then have "vstep I s (enter sv s2) ((rc s)(sv := 1))" using vstep_trans [OF v1] calm_rc [OF c1] by simp
      then show ?case using e1(1) nX nI ib f r2(10,13) calm_rc [OF c1] by (simp add: made_post_def)
    qed (use z tn in \<open>simp_all add: dinode_of_zeros d_def\<close>)
    then have "wp (sfs_loadvnode ino t s1) (\<lambda>s r. wp (case r of Inl e \<Rightarrow> do { s \<leftarrow> sfs_bfree ino s; Some (s, Inl e) } | Inr sv \<Rightarrow> Some (s, Inr sv)) (made_post I X t s0))" if "s0 = s" for s0
    proof (rule wp_mono, goal_cases)
      case (1 s2 r2)
      show ?case
      proof (cases r2)
        case (Inl e)
        then have i2: "vol_inv I (insert ino X) s2" and e: "e \<in> {ENOMEM, EIO}" and v2: "vstep I s s2 (rc s)" using 1 by auto
        obtain s3 where s3: "sfs_bfree ino s2 = Some s3" "vol_inv I (insert ino X - {ino}) s3" "calm s2 s3" "cur s3 = cur s2" "sect s3 = sect s2"
          using bfree_spec [OF i2, of ino] by auto
        have "keeps_files I s2 s3" using s3(3-5) by (simp add: keeps_files_def)
        then have "vstep I s s3 (rc s)" using vstep_keeps [OF v2] by blast
        then show ?thesis using Inl s3 nX e that by (auto simp: made_post_def)
      next
        case (Inr v)
        then show ?thesis using 1 that by simp
      qed
    qed
    then show ?thesis using Inr by simp
  qed
qed


section \<open>Writing an inode back\<close>

lemma ino_not_data:
  assumes inv: "vol_inv I X s" and i: "i \<in> I" and j: "j \<in> I"
  shows "fblk (sect s) (cur s j) k \<noteq> i" "sfi_indirect (cur s j) = 0 \<or> sfi_indirect (cur s j) \<noteq> i"
proof -
  note o = vol_invD(7) [OF inv]
  have e: "places I s (i, Self) = i" "i \<noteq> 0" using i ino_bound(2) [OF inv i] by simp_all
  show "fblk (sect s) (cur s j) k \<noteq> i"
  proof
    assume "fblk (sect s) (cur s j) k = i"
    then have "places I s (j, place_of k) = i" using j by (simp add: fblk_place)
    then have "(i, Self) = (j, place_of k)" using ownD(4) [OF o] e by metis
    then show False by (metis place_of_simps(1) prod.inject)
  qed
  show "sfi_indirect (cur s j) = 0 \<or> sfi_indirect (cur s j) \<noteq> i"
    by (rule own_not_ind [OF o _ j]) (use e(1) in blast)
qed

lemma set_sector_ino:
  assumes inv: "vol_inv I X s" and v: "v \<in> set (sfs_vnodes s)" "i = ino_of s v" and dirty: "sv_dirty (svs s v)" and d: "length d = 512"
  shows "vol_inv I X (set_sector i d s)" "cur (set_sector i d s) = cur s" "j \<in> I \<Longrightarrow> file_at (set_sector i d s) j = file_at s j"
proof -
  note iI = vnode_in [OF inv v(1), folded v(2)]
  have il: "i \<in> loaded s" using v by (auto simp: loaded_def)
  show c: "cur (set_sector i d s) = cur s" by (rule ext) (use il in \<open>auto intro: cur_set_sector\<close>)
  have p: "occ ((sect s)(i := d)) (cur s) I = places I s" by (rule occ_write) (rule ino_not_data(2) [OF inv iI])
  have "vnode_ok (set_sector i d s) w" if "w \<in> set (sfs_vnodes s)" for w
  proof -
    have "w = v \<or> ino_of s w \<noteq> i" using vtab_okD(2) [OF vol_invD(3) [OF inv]] v that by (auto dest: inj_onD)
    then show ?thesis using vtab_okD(3) [OF vol_invD(3) [OF inv] that] dirty by (auto simp: vnode_ok_def)
  qed
  then have "vtab_ok (set_sector i d s)" using vol_invD(3) [OF inv] by (simp add: vtab_ok_def)
  moreover have "freemap_ok (set_sector i d s) = freemap_ok s" by (simp only: freemap_ok_def set_sector_simps)
  ultimately show "vol_inv I X (set_sector i d s)"
    using set_sector_hw [OF vol_invD(1) [OF inv] d] vol_invD(2,4-7) [OF inv] unfolding vol_inv_def vol_base_def c by (simp add: p)
  show "file_at (set_sector i d s) j = file_at s j" if "j \<in> I"
    using ino_not_data [OF inv iI that] unfolding c by (intro file_eqI) (simp_all add: contents_write)
qed

definition set_clean :: "nat \<Rightarrow> sfs \<Rightarrow> sfs" where
  "set_clean v s = s\<lparr>svs := (svs s)(v := (svs s v)\<lparr>sv_dirty := False\<rparr>)\<rparr>"

lemma set_clean_simps [simp]:
  "disk (set_clean v s) = disk s" "sfs_sb (set_clean v s) = sfs_sb s" "sfs_superdirty (set_clean v s) = sfs_superdirty s"
  "sfs_device (set_clean v s) = sfs_device s" "sfs_vnodes (set_clean v s) = sfs_vnodes s" "sfs_freemap (set_clean v s) = sfs_freemap s"
  "sfs_freemapdirty (set_clean v s) = sfs_freemapdirty s" "biglock (set_clean v s) = biglock s" "mach (set_clean v s) = mach s"
  "memok (set_clean v s) = memok s" "ticks (set_clean v s) = ticks s" "kbuf (set_clean v s) = kbuf s" "iobuf (set_clean v s) = iobuf s"
  "zeros (set_clean v s) = zeros s" "ino_of (set_clean v s) w = ino_of s w" "vn_ops (svs (set_clean v s) w) = vn_ops (svs s w)"
  "sv_i (svs (set_clean v s) w) = sv_i (svs s w)" "vn_refcount (svs (set_clean v s) w) = vn_refcount (svs s w)"
  "sv_dirty (svs (set_clean v s) w) = (w \<noteq> v \<and> sv_dirty (svs s w))"
  by (simp_all add: set_clean_def)

lemma cur_set_clean [simp]: "cur (set_clean v s) = cur s"
  by (rule ext) (simp add: cur_def split: option.split)

lemma vol_inv_set_clean:
  assumes inv: "vol_inv I X s" and d: "dinode_of (sect s (ino_of s v)) = sv_i (svs s v)"
  shows "vol_inv I X (set_clean v s)"
proof -
  have "vtab_ok (set_clean v s)" using vol_invD(3) [OF inv] d by (auto simp: vtab_ok_def vnode_ok_def)
  moreover have "hw_ok (set_clean v s) = hw_ok s" "freemap_ok (set_clean v s) = freemap_ok s" "loaded (set_clean v s) = loaded s"
    by (simp_all only: hw_ok_def bufs_ok_def freemap_ok_def loaded_def set_clean_simps)
  ultimately show ?thesis using inv unfolding vol_inv_def vol_base_def by simp
qed

lemma sync_inode_wp:
  assumes inv: "vol_inv I X s" and l: "biglock s > 0" and v: "v \<in> set (sfs_vnodes s)"
  shows "wp (sfs_sync_inode v s) (\<lambda>s' r. r = Inr () \<and> vol_inv I X s' \<and> keeps_files I s s' \<and> cur s' = cur s \<and> sfs_freemap s' = sfs_freemap s
    \<and> dinode_of (sect s' (ino_of s v)) = sv_i (svs s' v) \<and> \<not> sv_dirty (svs s' v) \<and> (\<forall>w. w \<noteq> v \<longrightarrow> svs s' w = svs s w)
    \<and> (\<forall>b. b \<noteq> ino_of s v \<longrightarrow> sect s' b = sect s b) \<and> sfs_freemapdirty s' = sfs_freemapdirty s)"
proof (cases "sv_dirty (svs s v)")
  case False
  then have "dinode_of (sect s (ino_of s v)) = sv_i (svs s v)" using vtab_okD(3) [OF vol_invD(3) [OF inv] v] by (simp add: vnode_ok_def)
  then show ?thesis using False inv by (simp add: sfs_sync_inode_def)
next
  case True
  let ?i = "ino_of s v" and ?d = "dinode_bytes (sv_i (svs s v))"
  note iI = vnode_in [OF inv v]
  have ok: "dinode_ok (sv_i (svs s v))" using vol_invD(6) [OF inv iI] vnode_cur [OF inv v] by simp
  note ld = length_dinode_bytes [OF ok] and w = set_sector_ino [OF inv v refl True length_dinode_bytes [OF ok]]
  have e: "sfs_sync_inode v s = onok (sfs_writeblock ?i ?d s) (\<lambda>_ s. Some (set_clean v s, Inr ()))" using True by (simp add: sfs_sync_inode_def set_clean_def)
  show ?thesis unfolding e wp_onok
  proof (rule wp_mono [OF write_wp [OF inv l ino_bound(1) [OF inv iI] ld]], goal_cases)
    case (1 s1 r)
    then have q: "quiet (set_sector ?i ?d s) s1" and r: "r = Inr ()" by auto
    note inv1 = vol_inv_quiet [OF q w(1)]
    have s1: "sect s1 = (sect s)(?i := ?d)" "svs s1 = svs s" "cur s1 = cur s" "sfs_freemap s1 = sfs_freemap s" "sfs_freemapdirty s1 = sfs_freemapdirty s"
      using quiet_simps [OF q] quiet_cur [OF q] w(2) by simp_all
    have d1: "dinode_of (sect s1 (ino_of s1 v)) = sv_i (svs s1 v)" using s1 dinode_roundtrip [OF ok] by simp
    have "calm s (set_sector ?i ?d s)" using calm_set_sector [OF ino_bound(4) [OF inv iI]] .
    then have "calm s s1" using calm_trans quiet_calm [OF q] by blast
    moreover have "calm s1 (set_clean v s1)" by (auto simp: calm_def meta_kept_def)
    ultimately have c: "calm s (set_clean v s1)" using calm_trans by blast
    have "file_at s1 j = file_at s j" if "j \<in> I" for j using w(3) [OF that] by (simp add: quiet_simps [OF q] quiet_cur [OF q])
    then have "keeps_files I s (set_clean v s1)" using c by (simp add: keeps_files_def)
    moreover have "svs (set_clean v s1) w = svs s w" if "w \<noteq> v" for w using that s1(2) by (simp add: set_clean_def)
    ultimately show ?case using r vol_inv_set_clean [OF inv1 d1] s1 d1 by simp
  qed
qed

section \<open>Under the lock\<close>

definition with_lock :: "nat \<Rightarrow> sfs \<Rightarrow> sfs" where
  "with_lock n s = s\<lparr>biglock := n\<rparr>"

lemma with_lock_simps [simp]:
  "disk (with_lock n s) = disk s" "sfs_sb (with_lock n s) = sfs_sb s" "sfs_superdirty (with_lock n s) = sfs_superdirty s"
  "sfs_device (with_lock n s) = sfs_device s" "sfs_vnodes (with_lock n s) = sfs_vnodes s" "sfs_freemap (with_lock n s) = sfs_freemap s"
  "sfs_freemapdirty (with_lock n s) = sfs_freemapdirty s" "svs (with_lock n s) = svs s" "biglock (with_lock n s) = n" "mach (with_lock n s) = mach s"
  "memok (with_lock n s) = memok s" "ticks (with_lock n s) = ticks s" "kbuf (with_lock n s) = kbuf s" "iobuf (with_lock n s) = iobuf s"
  "zeros (with_lock n s) = zeros s" "loaded (with_lock n s) = loaded s" "with_lock n (with_lock m s) = with_lock n s" "with_lock (biglock s) s = s"
  "rc (with_lock n s) = rc s"
  by (simp_all add: with_lock_def loaded_def rc_def fun_eq_iff)

lemma cur_with_lock [simp]: "cur (with_lock n s) = cur s"
  by (rule ext) (simp add: cur_def split: option.split)

lemma vol_inv_with_lock [simp]: "vol_inv I X (with_lock n s) = vol_inv I X s"
proof -
  have "hw_ok (with_lock n s) = hw_ok s" "freemap_ok (with_lock n s) = freemap_ok s" "vtab_ok (with_lock n s) = vtab_ok s"
    by (simp_all only: hw_ok_def bufs_ok_def freemap_ok_def vtab_ok_def vnode_ok_def with_lock_simps)
  then show ?thesis unfolding vol_inv_def vol_base_def by simp
qed

lemma env_with_lock: "env (with_lock n s) s' \<Longrightarrow> env s (with_lock (biglock s) s')"
  by (simp add: env_def meta_kept_def)

lemma vstep_with_lock: "vstep I (with_lock n s) s' c \<Longrightarrow> vstep I s (with_lock (biglock s) s') c"
  using env_with_lock [of n s s'] by (simp add: vstep_def)

lemma vstep_unlock:
  assumes "vstep I (with_lock n s) s' c"
  shows "vstep I s (with_lock (biglock s) s') c" "biglock s' = n"
proof -
  show "vstep I s (with_lock (biglock s) s') c" using vstep_with_lock [OF assms] .
  have "env (with_lock n s) s'" using assms by (simp add: vstep_def)
  then show "biglock s' = n" using envD(1) by fastforce
qed

lemma calm_with_lock: "calm (with_lock n s) s' \<Longrightarrow> calm s (with_lock (biglock s) s')"
  by (simp add: calm_def meta_kept_def scratch_def)

lemma locked_wp:
  assumes "wp (body (with_lock (Suc (biglock s)) s)) (\<lambda>s' r. biglock s' = Suc (biglock s) \<and> Q (with_lock (biglock s) s') r)"
  shows "wp (locked body s) Q"
  using assms unfolding locked_def wp_bind
proof (elim wpE, goal_cases)
  case (1 s' r)
  then show ?case by (simp add: vfs_biglock_acquire_def vfs_biglock_release_def with_lock_def)
qed

section \<open>Leaving the table\<close>

text \<open>A vnode leaves the table and is cleaned up.\<close>

definition leave :: "nat \<Rightarrow> sfs \<Rightarrow> sfs" where
  "leave v s = s\<lparr>sfs_vnodes := remove1 v (sfs_vnodes s), svs := (svs s)(v := (svs s v)\<lparr>vn_ops := No_ops, vn_refcount := 0\<rparr>)\<rparr>"

lemma leave_simps [simp]:
  "disk (leave v s) = disk s" "sfs_sb (leave v s) = sfs_sb s" "sfs_superdirty (leave v s) = sfs_superdirty s" "sfs_device (leave v s) = sfs_device s"
  "sfs_vnodes (leave v s) = remove1 v (sfs_vnodes s)" "sfs_freemap (leave v s) = sfs_freemap s" "sfs_freemapdirty (leave v s) = sfs_freemapdirty s"
  "biglock (leave v s) = biglock s" "mach (leave v s) = mach s" "memok (leave v s) = memok s" "ticks (leave v s) = ticks s" "ino_of (leave v s) w = ino_of s w"
  "kbuf (leave v s) = kbuf s" "iobuf (leave v s) = iobuf s" "zeros (leave v s) = zeros s" "w \<noteq> v \<Longrightarrow> svs (leave v s) w = svs s w" "sv_i (svs (leave v s) w) = sv_i (svs s w)"
  by (simp_all add: leave_def)

lemma vtab_leave:
  assumes t: "vtab_ok s" and v: "v \<in> set (sfs_vnodes s)"
  shows "vtab_ok (leave v s)" "loaded (leave v s) = loaded s - {ino_of s v}" "set (sfs_vnodes (leave v s)) = set (sfs_vnodes s) - {v}"
proof -
  show e: "set (sfs_vnodes (leave v s)) = set (sfs_vnodes s) - {v}" using vtab_okD(1) [OF t] by simp
  have "vnode_ok (leave v s) w" if "w \<in> set (sfs_vnodes s) - {v}" for w using vtab_okD(3) [OF t, of w] that by (simp add: vnode_ok_def)
  moreover have "inj_on (ino_of s) (set (sfs_vnodes s) - {v})" using vtab_okD(2) [OF t] by (rule inj_on_subset) blast
  ultimately show "vtab_ok (leave v s)" using vtab_okD(1) [OF t] unfolding vtab_ok_def e by (simp add: distinct_remove1)
  show "loaded (leave v s) = loaded s - {ino_of s v}" unfolding loaded_def e using vtab_okD(2) [OF t] v by (auto simp: inj_on_def)
qed

lemma cur_leave:
  assumes t: "vtab_ok s" and v: "v \<in> set (sfs_vnodes s)" and d: "dinode_of (sect s (ino_of s v)) = sv_i (svs s v)"
  shows "cur (leave v s) = cur s"
proof
  fix i
  note l = vtab_leave [OF t v]
  show "cur (leave v s) i = cur s i"
  proof (cases "i \<in> loaded (leave v s)")
    case True
    then obtain w where w: "w \<in> set (sfs_vnodes (leave v s))" "i = ino_of (leave v s) w" by (auto simp: loaded_def)
    then show ?thesis using cur_loaded [OF l(1) w(1)] cur_loaded [OF t, of w] l(3) by simp
  next
    case False
    then have "i = ino_of s v \<or> i \<notin> loaded s" using l(2) by auto
    then show ?thesis using cur_unloaded [OF False] cur_loaded [OF t v] cur_unloaded [of i s] d by auto
  qed
qed

lemma rc_leave: "vtab_ok s \<Longrightarrow> rc (leave v s) = (rc s)(v := 0)"
  using vtab_okD(1) [of s] by (auto simp: rc_def fun_eq_iff leave_def)

lemma env_leave: "env s (leave v s)"
  using notin_set_remove1 by (fastforce simp: env_def meta_kept_def)

lemma vol_inv_leave:
  assumes inv: "vol_inv I X s" and v: "v \<in> set (sfs_vnodes s)" and d: "dinode_of (sect s (ino_of s v)) = sv_i (svs s v)"
  shows "vol_inv I X (leave v s)" "vstep I s (leave v s) ((rc s)(v := 0))"
proof -
  note t = vol_invD(3) [OF inv]
  note c = cur_leave [OF t v d] and l = vtab_leave [OF t v]
  have "hw_ok (leave v s) = hw_ok s" "freemap_ok (leave v s) = freemap_ok s" by (simp_all only: hw_ok_def bufs_ok_def freemap_ok_def leave_simps)
  then show "vol_inv I X (leave v s)" using inv l unfolding vol_inv_def vol_base_def c by auto
  show "vstep I s (leave v s) ((rc s)(v := 0))" using env_leave rc_leave [OF t] c by (simp add: vstep_def)
qed

text \<open>The inode goes as well.\<close>

lemma occ_drop_inode:
  assumes "\<And>p. blk S (C i) p = 0"
  shows "occ S C (I - {i}) = (occ S C I)((i, Self) := 0)"
proof
  fix l :: "nat \<times> place"
  obtain j p where l: "l = (j, p)" by (cases l)
  show "occ S C (I - {i}) l = ((occ S C I)((i, Self) := 0)) l" unfolding l using assms by (auto simp: occ_def)
qed

lemma vol_inv_drop:
  assumes inv: "vol_inv I X s" and v: "v \<in> set (sfs_vnodes s)" and i: "i = ino_of s v" and d: "dinode_of (sect s i) = sv_i (svs s v)"
    and z: "\<And>p. blk (sect s) (cur s i) p = 0"
  obtains s' where "sfs_bfree i s = Some s'" "svs s' = svs s" "sfs_vnodes s' = sfs_vnodes s" "vol_inv (I - {i}) X (leave v s')" "vstep (I - {i}) s (leave v s') ((rc s)(v := 0))"
proof -
  have iI: "i \<in> I" using vnode_in [OF inv v] i by simp
  note b = ino_bound [OF inv iI]
  have o: "owned ((places I s)((i, Self) := 0)) (insert i X) s" using own_detach [OF vol_invD(7) [OF inv], of "(i, Self)" i] iI b(2) by simp
  obtain s' where s': "sfs_bfree i s = Some s'" "vol_base I s'" "owned ((places I s)((i, Self) := 0)) (insert i X - {i}) s'" "calm s s'" "svs s' = svs s" "cur s' = cur s" "sect s' = sect s"
    using bfree_base [OF vol_invD(8) [OF inv] o insertI1] by blast
  have v': "v \<in> set (sfs_vnodes s')" "dinode_of (sect s' (ino_of s' v)) = sv_i (svs s' v)" using v d i s' calmD(7) [OF s'(4)] by simp_all
  note t = vol_baseD(3) [OF s'(2)]
  note c = cur_leave [OF t v'] and l = vtab_leave [OF t v'(1)]
  have "hw_ok (leave v s') = hw_ok s'" "freemap_ok (leave v s') = freemap_ok s'" by (simp_all only: hw_ok_def bufs_ok_def freemap_ok_def leave_simps)
  then have "vol_base (I - {i}) (leave v s')" using vol_baseD [OF s'(2)] l i s'(5) unfolding vol_base_def c by auto
  moreover have "owned (places (I - {i}) (leave v s')) X (leave v s')"
    using s'(3) b(3) occ_drop_inode [of "sect s" "cur s" i I, OF z] unfolding c s'(6) by (simp add: s'(7))
  ultimately have inv': "vol_inv (I - {i}) X (leave v s')" by (simp add: vol_inv_def)
  have "env s (leave v s')" using env_trans [OF calm_env [OF s'(4)] env_leave] .
  moreover have "rc (leave v s') = (rc s)(v := 0)" using rc_leave [OF t] calm_rc [OF s'(4)] by simp
  moreover have "file_at (leave v s') j = file_at s j" for j unfolding c s'(6) by (simp add: s'(7))
  ultimately have "vstep (I - {i}) s (leave v s') ((rc s)(v := 0))" by (simp add: vstep_def)
  then show ?thesis using that s'(1,5) inv' calmD(7) [OF s'(4)] by blast
qed


section \<open>The last reference\<close>

lemma itrunc_locked_wp:
  assumes inv: "vol_inv I X s" and v: "v \<in> set (sfs_vnodes s)" and i: "i = ino_of s v" and len: "len < 2 ^ 32"
  shows "wp (sfs_itrunc v len s) (itrunc_post I X s i len)"
  unfolding sfs_itrunc_def
proof (rule locked_wp, rule wp_mono [OF itrunc_wp [where I = I and X = X and i = i]], goal_cases)
  case (6 s' r)
  then have "calm (with_lock (Suc (biglock s)) s) s'" by (simp add: itrunc_post_def)
  then show ?case using 6 calm_with_lock calmD(8) by (fastforce simp: itrunc_post_def split: sum.splits)
qed (use assms in simp_all)

definition dropped :: "nat set \<Rightarrow> nat set \<Rightarrow> sfs \<Rightarrow> nat \<Rightarrow> sfs \<Rightarrow> bool" where
  "dropped I X s v s' \<longleftrightarrow> (let i = ino_of s v in
     (1 < rc s v \<or> f_links (file_at s i) \<noteq> 0) \<and> vol_inv I X s' \<and> vstep I s s' ((rc s)(v := rc s v - 1))
     \<or> rc s v = 1 \<and> f_links (file_at s i) = 0 \<and> vol_inv (I - {i}) X s' \<and> vstep (I - {i}) s s' ((rc s)(v := 0))
     \<or> rc s v = 1 \<and> f_links (file_at s i) = 0 \<and> vol_inv I X s' \<and> env s s' \<and> rc s' = rc s
       \<and> (\<forall>j\<in>I - {i}. file_at s' j = file_at s j) \<and> (\<exists>f. file_at s' i = (file_at s i)\<lparr>f_data := f\<rparr>))"

lemma blk_zero: "(\<And>p. blk S d p = 0) \<Longrightarrow> blk S' d p = 0"
proof -
  assume z: "\<And>p. blk S d p = 0"
  show ?thesis
  proof (cases p)
    case (Direct k)
    then show ?thesis using z [of "Direct k"] by simp
  next
    case (Entry k)
    then show ?thesis using z [of Ind] by simp
  qed (use z [of Ind] in simp_all)
qed

lemma links_of: "vol_inv I X s \<Longrightarrow> v \<in> set (sfs_vnodes s) \<Longrightarrow> sfi_linkcount (sv_i (svs s v)) = f_links (file_at s (ino_of s v))"
  using vnode_cur [of I X s v] by (simp add: file_of_def)

lemma cleanup_leave: "vn_refcount (svs s v) = 1 \<Longrightarrow> vnode_cleanup v (s\<lparr>sfs_vnodes := remove1 v (sfs_vnodes s)\<rparr>) = Some (leave v s)"
  by (simp add: vnode_cleanup_def leave_def)

text \<open>The end of \<^verbatim>\<open>sfs_reclaim\<close>, after the file of an inode without links has been truncated.\<close>

definition reclaim_tail :: "nat \<Rightarrow> sfs \<Rightarrow> (sfs \<times> (errno + unit)) option" where
  "reclaim_tail v s1 = onok (sfs_sync_inode v s1) (\<lambda>_ s.
     do {
       s \<leftarrow> (if sfi_linkcount (sv_i (svs s v)) = 0 then sfs_bfree (sv_ino (svs s v)) s else Some s);
       kassert (v \<in> set (sfs_vnodes s));
       let s = s\<lparr>sfs_vnodes := remove1 v (sfs_vnodes s)\<rparr>;
       s \<leftarrow> vnode_cleanup v s;
       Some (s, Inr ())
     })"

lemma reclaim_tail_wp:
  assumes inv: "vol_inv I X s" and v: "v \<in> set (sfs_vnodes s)" and r1: "rc s v = 1" and i: "i = ino_of s v"
    and s1: "vol_inv I X s1" "calm (with_lock (Suc (biglock s)) s) s1" "\<forall>j\<in>I. j \<noteq> i \<longrightarrow> file_at s1 j = file_at s j" "f_links (file_at s1 i) = f_links (file_at s i)"
      "if f_links (file_at s i) = 0 then \<forall>p. blk (sect s1) (cur s1 i) p = 0 else file_at s1 i = file_at s i"
  shows "wp (reclaim_tail v s1) (\<lambda>s' r. biglock s' = Suc (biglock s) \<and> dropped I X s v (with_lock (biglock s) s'))"
proof -
  let ?s = "with_lock (Suc (biglock s)) s"
  have ref: "vn_refcount (svs s v) = 1" using r1 v by (simp add: rc_def)
  show ?thesis unfolding reclaim_tail_def wp_onok
proof (rule wp_mono [OF sync_inode_wp [OF s1(1)]], goal_cases)
  case 1 then show ?case using calmD(8) [OF s1(2)] by simp
next
  case 2 then show ?case using calmD(7) [OF s1(2)] v by simp
next
  case (3 s2 r)
  have i1: "ino_of s1 v = i" using calmD(16) [OF s1(2)] i by simp
  have inv2: "vol_inv I X s2" and k2: "keeps_files I s1 s2" and c2: "cur s2 = cur s1" and d2: "dinode_of (sect s2 i) = sv_i (svs s2 v)"
    using 3 i1 by auto
  have cc: "calm ?s s2" using calm_trans [OF s1(2)] k2 by (simp add: keeps_files_def)
  have v2: "v \<in> set (sfs_vnodes s2)" "ino_of s2 v = i" "vn_refcount (svs s2 v) = 1" "biglock s2 = Suc (biglock s)" "rc s2 = rc s"
    using calmD(7,8,16,17) [OF cc] v ref i calm_rc [OF cc] by simp_all
  have lk: "sfi_linkcount (sv_i (svs s2 v)) = f_links (file_at s i)"
    using links_of [OF inv2 v2(1)] v2(2) k2 vnode_in [OF inv v] i s1(4) by (simp add: keeps_files_def)
  have e2: "env ?s s2" using calm_env [OF cc] .
  show ?case
  proof (cases "f_links (file_at s i) = 0")
    case True
    have z: "blk (sect s2) (cur s2 i) p = 0" for p unfolding c2 by (rule blk_zero [where S = "sect s1"]) (use s1(5) True in simp)
    obtain s3 where s3: "sfs_bfree i s2 = Some s3" "svs s3 = svs s2" "sfs_vnodes s3 = sfs_vnodes s2" "vol_inv (I - {i}) X (leave v s3)"
        "vstep (I - {i}) s2 (leave v s3) ((rc s2)(v := 0))"
      using vol_inv_drop [OF inv2 v2(1) v2(2)[symmetric] d2 z] by blast
    have "vstep (I - {i}) ?s s2 (rc s)" using e2 v2(5) k2 s1(3) by (auto simp: vstep_def keeps_files_def)
    then have "vstep (I - {i}) ?s (leave v s3) ((rc s)(v := 0))" using vstep_trans s3(5) v2(5) by metis
    then have "vstep (I - {i}) s (with_lock (biglock s) (leave v s3)) ((rc s)(v := 0))" "biglock (leave v s3) = Suc (biglock s)"
      using vstep_unlock by blast+
    then show ?thesis using s3(1-4) v2(1-3) lk True r1 3 i cleanup_leave [of s3 v] by (simp add: dropped_def)
  next
    case False
    note w = vol_inv_leave [OF inv2 v2(1) d2[folded v2(2)]]
    have "vstep I ?s s2 (rc s)" using e2 v2(5) k2 s1(3,5) False by (auto simp: vstep_def keeps_files_def)
    then have "vstep I ?s (leave v s2) ((rc s)(v := 0))" using vstep_trans w(2) v2(5) by metis
    then have "vstep I s (with_lock (biglock s) (leave v s2)) ((rc s)(v := 0))" "biglock (leave v s2) = Suc (biglock s)"
      using vstep_unlock by blast+
    then show ?thesis using w(1) v2(1-3) lk False r1 3 i cleanup_leave [of s2 v] by (simp add: dropped_def)
  qed
qed
qed

lemma reclaim_wp:
  assumes inv: "vol_inv I X s" and v: "v \<in> set (sfs_vnodes s)" and r1: "rc s v = 1"
  shows "wp (sfs_reclaim v s) (\<lambda>s' r. dropped I X s v s')"
proof -
  let ?s = "with_lock (Suc (biglock s)) s" and ?i = "ino_of s v"
  let ?Q = "\<lambda>s' r. biglock s' = Suc (biglock s) \<and> dropped I X s v (with_lock (biglock s) s')"
  have ref: "vn_refcount (svs s v) = 1" using r1 v by (simp add: rc_def)
  have inv0: "vol_inv I X ?s" using inv by simp
  note last = reclaim_tail_wp [OF inv v r1 refl] and lk = links_of [OF inv v]
  have "wp (onok (if sfi_linkcount (sv_i (svs s v)) = 0 then sfs_itrunc v 0 ?s else Some (?s, Inr ())) (\<lambda>_ s. reclaim_tail v s)) ?Q"
  proof (cases "f_links (file_at s ?i) = 0")
    case True
    have "wp (sfs_itrunc v 0 ?s) (itrunc_post I X ?s ?i 0)" by (rule itrunc_locked_wp [OF inv0]) (use v in simp_all)
    then have "wp (onok (sfs_itrunc v 0 ?s) (\<lambda>_ s. reclaim_tail v s)) ?Q"
      unfolding wp_onok [of "sfs_itrunc v 0 ?s"]
    proof (rule wp_mono, goal_cases)
      case (1 s1 r)
      show ?case
      proof (cases r)
        case (Inl e)
        have c: "calm ?s s1" using 1 by (simp add: itrunc_post_def)
        have "env s (with_lock (biglock s) s1)" using env_with_lock [OF calm_env [OF c]] .
        then show ?thesis using 1 Inl True r1 calmD(8) [OF c] calm_rc [OF c] by (auto simp: dropped_def itrunc_post_def)
      next
        case (Inr x)
        have "wp (reclaim_tail v s1) ?Q" by (rule last) (use 1 Inr True in \<open>simp_all add: itrunc_post_def\<close>)
        then show ?thesis using Inr by simp
      qed
    qed
    then show ?thesis using lk True by simp
  next
    case False
    have "wp (reclaim_tail v ?s) ?Q" by (rule last) (use inv False in simp_all)
    then show ?thesis using lk False by simp
  qed
  then show ?thesis unfolding sfs_reclaim_def by (intro locked_wp) (use ref in \<open>simp add: reclaim_tail_def\<close>)
qed

lemma decref_spec:
  assumes inv: "vol_inv I X s" and v: "v \<in> set (sfs_vnodes s)"
  obtains s' where "vnode_decref v s = Some s'" "dropped I X s v s'"
proof -
  have ok: "vnode_ok s v" using vtab_okD(3) [OF vol_invD(3) [OF inv] v] .
  have r: "rc s v = vn_refcount (svs s v)" "vn_refcount (svs s v) > 0" using v ok by (simp_all add: rc_def vnode_ok_def)
  show ?thesis
  proof (cases "vn_refcount (svs s v) > 1")
    case True
    then have "vol_inv I X (set_ref v (rc s v - 1) s)" "vstep I s (set_ref v (rc s v - 1) s) ((rc s)(v := rc s v - 1))"
      using vol_inv_set_ref [OF inv] vstep_set_ref [OF v] r by simp_all
    then show ?thesis using that [of "set_ref v (rc s v - 1) s"] True r by (simp add: vnode_decref_def set_ref_def dropped_def)
  next
    case False
    then have r1: "rc s v = 1" using r by simp
    have "vn_ops (svs s v) \<noteq> No_ops" using ok by (auto simp: vnode_ok_def vnode_ops_of_def split: if_splits)
    then have ck: "vnode_check v s = Some ()" using r by (simp add: vnode_check_def)
    show ?thesis using reclaim_wp [OF inv v r1]
    proof (rule wpE, goal_cases)
      case (1 s' x)
      then show ?case using that [of s'] False r ck by (simp add: vnode_decref_def)
    qed
  qed
qed

end
