(* ===== verification/Sfs_Tree.thy ===== *)
theory Sfs_Tree
  imports Sfs_Inode
begin

text \<open>
  The tree of a volume: the root directory names the files, and the link counts agree with the names. What looking up a name and giving up a reference do to it.
\<close>

section \<open>The tree of a volume\<close>

text \<open>
  A volume has one directory, the root. Its entries name files of the volume, every file has as many links as
  it has names, and a file without a name is in memory.
\<close>

definition names_of :: "afile \<Rightarrow> nat \<Rightarrow> byte list set" where
  "names_of f i = {n. (n, i) \<in> dents f}"

definition tree :: "nat set \<Rightarrow> (nat \<Rightarrow> afile) \<Rightarrow> nat set \<Rightarrow> bool" where
  "tree I F L \<longleftrightarrow> SFS_ROOTDIR_INO \<in> I \<and> dir_ok (F SFS_ROOTDIR_INO) \<and> 0 < f_links (F SFS_ROOTDIR_INO)
     \<and> (\<forall>(n, i)\<in>dents (F SFS_ROOTDIR_INO). i \<in> I \<and> i \<noteq> SFS_ROOTDIR_INO)
     \<and> (\<forall>i\<in>I. i \<noteq> SFS_ROOTDIR_INO \<longrightarrow> f_type (F i) = SFS_TYPE_FILE \<and> f_links (F i) = card (names_of (F SFS_ROOTDIR_INO) i) \<and> (f_links (F i) = 0 \<longrightarrow> i \<in> L))"

lemma treeD:
  assumes "tree I F L"
  shows "SFS_ROOTDIR_INO \<in> I" "dir_ok (F SFS_ROOTDIR_INO)" "0 < f_links (F SFS_ROOTDIR_INO)" "(n, i) \<in> dents (F SFS_ROOTDIR_INO) \<Longrightarrow> i \<in> I" "(n, SFS_ROOTDIR_INO) \<notin> dents (F SFS_ROOTDIR_INO)"
    "i \<in> I \<Longrightarrow> i \<noteq> SFS_ROOTDIR_INO \<Longrightarrow> f_type (F i) = SFS_TYPE_FILE" "i \<in> I \<Longrightarrow> i \<noteq> SFS_ROOTDIR_INO \<Longrightarrow> f_links (F i) = card (names_of (F SFS_ROOTDIR_INO) i)"
    "i \<in> I \<Longrightarrow> i \<noteq> SFS_ROOTDIR_INO \<Longrightarrow> f_links (F i) = 0 \<Longrightarrow> i \<in> L"
  using assms by (auto simp: tree_def)

lemma finite_names_of [simp]: "finite (names_of f i)"
proof -
  have "names_of f i \<subseteq> fst ` dents f" by (force simp: names_of_def)
  then show ?thesis by (rule finite_subset) simp
qed

lemma links_bound: "dir_ok f \<Longrightarrow> card (names_of f i) \<le> 1144"
proof -
  assume d: "dir_ok f"
  have "names_of f i \<subseteq> dname f ` {..<nslots f}" by (auto simp: names_of_def dents_def)
  then have "card (names_of f i) \<le> card (dname f ` {..<nslots f})" by (rule card_mono [rotated]) simp
  also have "\<dots> \<le> nslots f" using card_image_le [of "{..<nslots f}" "dname f"] by simp
  also have "\<dots> \<le> 1144" using dir_size [OF d] by (simp add: max_size_def)
  finally show ?thesis .
qed

lemma tree_cong:
  assumes "tree I F L" "\<And>i. i \<in> I \<Longrightarrow> F' i = F i" "\<And>i. i \<in> I \<Longrightarrow> f_links (F i) = 0 \<Longrightarrow> i \<in> L \<Longrightarrow> i \<in> L'"
  shows "tree I F' L'"
  using assms by (auto simp: tree_def)

lemma tree_new:
  assumes t: "tree I F L" and i: "ino \<notin> I" and f: "F' ino = empty_file SFS_TYPE_FILE" "\<And>i. i \<in> I \<Longrightarrow> F' i = F i" and l: "L \<subseteq> L'" "ino \<in> L'"
  shows "tree (insert ino I) F' L'"
proof -
  have "names_of (F SFS_ROOTDIR_INO) ino = {}" using treeD(4) [OF t] i by (auto simp: names_of_def)
  moreover have "F' SFS_ROOTDIR_INO = F SFS_ROOTDIR_INO" "ino \<noteq> SFS_ROOTDIR_INO" using f(2) treeD(1) [OF t] i by auto
  ultimately show ?thesis using t f l by (auto simp: tree_def empty_file_def)
qed

lemma tree_drop:
  assumes t: "tree I F L" and i: "i \<noteq> SFS_ROOTDIR_INO" "i \<in> I" "f_links (F i) = 0"
  shows "tree (I - {i}) F L"
proof -
  have "names_of (F SFS_ROOTDIR_INO) i = {}" using treeD(7) [OF t i(2,1)] i(3) by simp
  then show ?thesis using t i(1) by (auto simp: tree_def names_of_def)
qed

text \<open>A new name for a file, and a name less.\<close>

lemma names_of_insert: "dents g = insert (n, i) (dents f) \<Longrightarrow> names_of g j = (if j = i then insert n (names_of f i) else names_of f j)"
  by (auto simp: names_of_def)

lemma names_of_remove: "dents g = dents f - {(n, i)} \<Longrightarrow> names_of g j = (if j = i then names_of f i - {n} else names_of f j)"
  by (auto simp: names_of_def)

lemma tree_link:
  assumes t: "tree I F L" and i: "i \<in> I" "i \<noteq> SFS_ROOTDIR_INO"
    and g: "dir_ok (F' SFS_ROOTDIR_INO)" "f_links (F' SFS_ROOTDIR_INO) = f_links (F SFS_ROOTDIR_INO)" "dents (F' SFS_ROOTDIR_INO) = insert (n, i) (dents (F SFS_ROOTDIR_INO))"
      "\<And>j. (n, j) \<notin> dents (F SFS_ROOTDIR_INO)"
    and f: "F' i = (F i)\<lparr>f_links := f_links (F i) + 1\<rparr>" "\<And>j. j \<in> I \<Longrightarrow> j \<noteq> SFS_ROOTDIR_INO \<Longrightarrow> j \<noteq> i \<Longrightarrow> F' j = F j" and l: "L \<subseteq> L'"
  shows "tree I F' L'"
proof -
  have "n \<notin> names_of (F SFS_ROOTDIR_INO) i" using g(4) by (simp add: names_of_def)
  then have c: "card (names_of (F' SFS_ROOTDIR_INO) j) = (if j = i then card (names_of (F SFS_ROOTDIR_INO) i) + 1 else card (names_of (F SFS_ROOTDIR_INO) j))" for j
    using names_of_insert [OF g(3)] by simp
  have "f_type (F' j) = SFS_TYPE_FILE \<and> f_links (F' j) = card (names_of (F' SFS_ROOTDIR_INO) j) \<and> (f_links (F' j) = 0 \<longrightarrow> j \<in> L')" if j: "j \<in> I" "j \<noteq> SFS_ROOTDIR_INO" for j
    using f(1) f(2) [OF j] treeD(6-8) [OF t j] l unfolding c by (cases "j = i") auto
  then show ?thesis using treeD(1-5) [OF t] g(1,2) i unfolding tree_def g(3) by auto
qed

lemma tree_unlink:
  assumes t: "tree I F L" and i: "(n, i) \<in> dents (F SFS_ROOTDIR_INO)" "i \<in> L'"
    and g: "dir_ok (F' SFS_ROOTDIR_INO)" "f_links (F' SFS_ROOTDIR_INO) = f_links (F SFS_ROOTDIR_INO)" "dents (F' SFS_ROOTDIR_INO) = dents (F SFS_ROOTDIR_INO) - {(n, i)}"
    and f: "F' i = (F i)\<lparr>f_links := f_links (F i) - 1\<rparr>" "\<And>j. j \<in> I \<Longrightarrow> j \<noteq> SFS_ROOTDIR_INO \<Longrightarrow> j \<noteq> i \<Longrightarrow> F' j = F j" and l: "L \<subseteq> L'"
  shows "tree I F' L'"
proof -
  have "n \<in> names_of (F SFS_ROOTDIR_INO) i" using i by (simp add: names_of_def)
  then have c: "card (names_of (F' SFS_ROOTDIR_INO) j) = (if j = i then card (names_of (F SFS_ROOTDIR_INO) i) - 1 else card (names_of (F SFS_ROOTDIR_INO) j))" for j
    using names_of_remove [OF g(3)] by simp
  have "f_type (F' j) = SFS_TYPE_FILE \<and> f_links (F' j) = card (names_of (F' SFS_ROOTDIR_INO) j) \<and> (f_links (F' j) = 0 \<longrightarrow> j \<in> L')" if j: "j \<in> I" "j \<noteq> SFS_ROOTDIR_INO" for j
    using f(1) f(2) [OF j] treeD(6-8) [OF t j] l i(2) unfolding c by (cases "j = i") auto
  then show ?thesis using treeD(1-5) [OF t] g(1,2) unfolding tree_def g(3) by auto
qed

lemma tree_data:
  assumes t: "tree I F L" and i: "i \<noteq> SFS_ROOTDIR_INO" "f_type (F' i) = f_type (F i)" "f_links (F' i) = f_links (F i)" and f: "\<And>j. j \<in> I \<Longrightarrow> j \<noteq> i \<Longrightarrow> F' j = F j" and l: "L \<subseteq> L'"
  shows "tree I F' L'"
proof -
  have e: "F' SFS_ROOTDIR_INO = F SFS_ROOTDIR_INO" using f treeD(1) [OF t] i(1) by auto
  have "f_type (F' j) = SFS_TYPE_FILE \<and> f_links (F' j) = card (names_of (F' SFS_ROOTDIR_INO) j) \<and> (f_links (F' j) = 0 \<longrightarrow> j \<in> L')" if j: "j \<in> I" "j \<noteq> SFS_ROOTDIR_INO" for j
    using f [OF j(1)] treeD(6-8) [OF t j] l i unfolding e by (cases "j = i") auto
  then show ?thesis using treeD(1-5) [OF t] unfolding tree_def e by auto
qed

section \<open>The invariant of a mounted volume\<close>

definition fs_inv :: "nat set \<Rightarrow> sfs \<Rightarrow> bool" where
  "fs_inv I s \<longleftrightarrow> vol_inv I {} s \<and> tree I (file_at s) (loaded s)"

abbreviation root_file :: "sfs \<Rightarrow> afile" where
  "root_file s \<equiv> file_at s SFS_ROOTDIR_INO"

lemma fs_invD: "fs_inv I s \<Longrightarrow> vol_inv I {} s" "fs_inv I s \<Longrightarrow> tree I (file_at s) (loaded s)"
  by (simp_all add: fs_inv_def)

lemma rc_pos: "vtab_ok s \<Longrightarrow> 0 < rc s v \<longleftrightarrow> v \<in> set (sfs_vnodes s)"
  using vtab_okD(3) [of s v] by (auto simp: rc_def vnode_ok_def)

lemma env_ino:
  assumes "vtab_ok s" "v \<in> set (sfs_vnodes s)" "env s s'" "v \<in> set (sfs_vnodes s')"
  shows "ino_of s' v = ino_of s v"
  using envD(11) [OF assms(3), of v] vtab_okD(3) [OF assms(1,2)] assms(4) by (simp add: vnode_ok_def)

lemma loaded_rc:
  assumes t: "vtab_ok s" "vtab_ok s'" and e: "env s s'" and v: "v \<in> set (sfs_vnodes s)" "0 < rc s' v"
  shows "ino_of s v \<in> loaded s'"
proof -
  have "v \<in> set (sfs_vnodes s')" using v(2) rc_pos [OF t(2)] by blast
  then show ?thesis using env_ino [OF t(1) v(1) e] by (force simp: loaded_def)
qed

lemma loaded_env:
  assumes t: "vtab_ok s" "vtab_ok s'" and e: "env s s'" and r: "\<And>v. 0 < rc s v \<Longrightarrow> 0 < rc s' v"
  shows "loaded s \<subseteq> loaded s'"
proof
  fix i
  assume "i \<in> loaded s"
  then obtain v where v: "v \<in> set (sfs_vnodes s)" "i = ino_of s v" by (auto simp: loaded_def)
  then show "i \<in> loaded s'" using loaded_rc [OF t e v(1)] r [of v] rc_pos [OF t(1), of v] by simp
qed

lemma fs_inv_vstep:
  assumes "fs_inv I s" "vol_inv I {} s'" "vstep I s s' c" "\<And>v. rc s v \<le> c v"
  shows "fs_inv I s'"
proof -
  have "loaded s \<subseteq> loaded s'"
    by (rule loaded_env [OF vol_invD(3) [OF fs_invD(1) [OF assms(1)]] vol_invD(3) [OF assms(2)]])
      (use assms(3,4) less_le_trans in \<open>auto simp: vstep_def\<close>)
  moreover have "\<forall>i\<in>I. file_at s' i = file_at s i" using assms(3) by (simp add: vstep_def)
  ultimately show ?thesis using assms(2) tree_cong [OF fs_invD(2) [OF assms(1)]] by (simp add: fs_inv_def subset_iff)
qed

lemma fs_inv_with_lock [simp]: "fs_inv I (with_lock n s) = fs_inv I s"
  by (simp add: fs_inv_def)

lemma fs_inv_quiet: "fs_inv I s \<Longrightarrow> quiet s s' \<Longrightarrow> fs_inv I s'"
  using vol_inv_quiet by (simp add: fs_inv_def quiet_simps quiet_cur quiet_loaded)


section \<open>Giving up a reference\<close>

lemma decref_fs:
  assumes inv: "fs_inv I s" and v: "v \<in> set (sfs_vnodes s)" and i: "i = ino_of s v"
  obtains s' I' where "vnode_decref v s = Some s'" "fs_inv I' s'" "env s s'" "I' \<subseteq> I" "\<And>w. rc s w \<le> rc s' w + (if w = v then 1 else 0)"
    "\<And>j. j \<in> I \<Longrightarrow> (j = i \<Longrightarrow> 1 < rc s v \<or> f_links (file_at s i) \<noteq> 0) \<Longrightarrow> j \<in> I' \<and> file_at s' j = file_at s j"
proof -
  note vi = fs_invD(1) [OF inv] and t = fs_invD(2) [OF inv]
  obtain s' where s': "vnode_decref v s = Some s'" "dropped I {} s v s'" using decref_spec [OF vi v] by blast
  have iI: "i \<in> I" using vnode_in [OF vi v] i by simp
  from s'(2) consider
      (kept) "1 < rc s v \<or> f_links (file_at s i) \<noteq> 0" "vol_inv I {} s'" "vstep I s s' ((rc s)(v := rc s v - 1))"
    | (gone) "rc s v = 1" "f_links (file_at s i) = 0" "vol_inv (I - {i}) {} s'" "vstep (I - {i}) s s' ((rc s)(v := 0))"
    | (stuck) "rc s v = 1" "f_links (file_at s i) = 0" "vol_inv I {} s'" "env s s'" "rc s' = rc s" "\<forall>j\<in>I - {i}. file_at s' j = file_at s j"
        "\<exists>f. file_at s' i = (file_at s i)\<lparr>f_data := f\<rparr>"
    unfolding dropped_def i [symmetric] Let_def by argo
  then show ?thesis
  proof cases
    case kept
    note e = kept(3) [unfolded vstep_def]
    have "j \<in> loaded s'" if j: "j \<in> loaded s" "f_links (file_at s j) = 0" for j
    proof -
      obtain w where w: "w \<in> set (sfs_vnodes s)" "j = ino_of s w" using j by (auto simp: loaded_def)
      have "0 < rc s w" using w(1) rc_pos [OF vol_invD(3) [OF vi]] by blast
      then have "0 < rc s' w" using e kept(1) j(2) w(2) i by (cases "w = v") auto
      then show ?thesis using loaded_rc [OF vol_invD(3) [OF vi] vol_invD(3) [OF kept(2)] _ w(1)] e w(2) by blast
    qed
    then have "tree I (file_at s') (loaded s')" using tree_cong [OF t, of "file_at s'" "loaded s'"] e by auto
    moreover have "rc s w \<le> rc s' w + (if w = v then 1 else 0)" for w using e by (simp, arith)
    ultimately show ?thesis using that [of s' I] s'(1) kept(2) e by (simp add: fs_inv_def)
  next
    case gone
    note e = gone(4) [unfolded vstep_def]
    have i1: "i \<noteq> SFS_ROOTDIR_INO" using treeD(3) [OF t] gone(2) by auto
    have "j \<in> loaded s'" if j: "j \<in> loaded s" "j \<noteq> i" for j
    proof -
      obtain w where w: "w \<in> set (sfs_vnodes s)" "j = ino_of s w" using j by (auto simp: loaded_def)
      have "0 < rc s w" using w(1) rc_pos [OF vol_invD(3) [OF vi]] by blast
      then have "0 < rc s' w" using e j(2) w(2) i by (cases "w = v") auto
      then show ?thesis using loaded_rc [OF vol_invD(3) [OF vi] vol_invD(3) [OF gone(3)] _ w(1)] e w(2) by blast
    qed
    then have "tree (I - {i}) (file_at s') (loaded s')" using tree_cong [OF tree_drop [OF t i1 iI gone(2)], of "file_at s'" "loaded s'"] e by auto
    moreover have "rc s w \<le> rc s' w + (if w = v then 1 else 0)" for w using e gone(1) by simp
    ultimately show ?thesis using that [of s' "I - {i}"] s'(1) gone(1-3) e by (auto simp: fs_inv_def)
  next
    case stuck
    have i1: "i \<noteq> SFS_ROOTDIR_INO" using treeD(3) [OF t] stuck(2) by auto
    have "loaded s \<subseteq> loaded s'" by (rule loaded_env [OF vol_invD(3) [OF vi] vol_invD(3) [OF stuck(3)] stuck(4)]) (simp add: stuck(5))
    then have "tree I (file_at s') (loaded s')" using tree_data [OF t i1, of "file_at s'"] stuck(6,7) by auto
    then show ?thesis using that [of s' I] s'(1) stuck by (auto simp: fs_inv_def)
  qed
qed

section \<open>Looking up a name\<close>

text \<open>The vnode of the root.\<close>

definition root_vnode :: "sfs \<Rightarrow> nat \<Rightarrow> bool" where
  "root_vnode s v \<longleftrightarrow> v \<in> set (sfs_vnodes s) \<and> ino_of s v = SFS_ROOTDIR_INO"

lemma file_type:
  assumes "fs_inv I s" "i \<in> I"
  shows "f_type (file_at s i) = (if i = SFS_ROOTDIR_INO then SFS_TYPE_DIR else SFS_TYPE_FILE)"
  using treeD(2,6) [OF fs_invD(2) [OF assms(1)]] assms(2) by (auto simp: dir_ok_def)

lemma loadvnode_fs:
  assumes inv: "fs_inv I s" and l: "biglock s > 0" and i: "ino \<in> I"
  shows "wp (sfs_loadvnode ino SFS_TYPE_INVAL s) (\<lambda>s' r. loaded_post I {} s ino s' r \<and> fs_inv I s')"
proof (rule wp_mono [OF loadvnode_wp [OF fs_invD(1) [OF inv] l i]], goal_cases)
  case 1
  then show ?case using file_type [OF inv i] by simp
next
  case (2 s' r)
  have "fs_inv I s'"
  proof (cases r)
    case (Inl e)
    then show ?thesis using 2 fs_inv_vstep [OF inv, of s' "rc s"] by (simp add: loaded_post_def)
  next
    case (Inr v)
    then show ?thesis using 2 fs_inv_vstep [OF inv, of s' "(rc s)(v := rc s v + 1)"] by (simp add: loaded_post_def)
  qed
  then show ?case using 2 by simp
qed

definition looked_up :: "nat set \<Rightarrow> sfs \<Rightarrow> byte list \<Rightarrow> sfs \<Rightarrow> errno + nat \<times> nat \<Rightarrow> bool" where
  "looked_up I s name s' r \<longleftrightarrow> fs_inv I s' \<and>
     (case r of
        Inl e \<Rightarrow> (e = ENOENT \<and> name \<notin> fst ` dents (root_file s) \<or> e \<in> {EIO, ENOMEM}) \<and> vstep I s s' (rc s)
      | Inr (w, k) \<Rightarrow> k < nslots (root_file s) \<and> dino (root_file s) k = ino_of s' w \<and> dname (root_file s) k = name \<and> (name, ino_of s' w) \<in> dents (root_file s)
          \<and> w \<in> set (sfs_vnodes s') \<and> vstep I s s' ((rc s)(w := rc s w + 1)))"

lemma lookonce_wp:
  assumes inv: "fs_inv I s" and l: "biglock s > 0" and v: "root_vnode s v"
  shows "wp (sfs_lookonce v name s) (looked_up I s name)"
proof -
  have vv: "v \<in> set (sfs_vnodes s)" "SFS_ROOTDIR_INO = ino_of s v" using v by (simp_all add: root_vnode_def)
  note vi = fs_invD(1) [OF inv] and t = fs_invD(2) [OF inv]
  show ?thesis unfolding sfs_lookonce_def wp_onok
  proof (rule wp_mono [OF findname_wp [OF vi l vv treeD(2) [OF t]]], goal_cases)
    case (1 s1 r)
    then have q: "quiet s s1" by blast
    note inv1 = fs_inv_quiet [OF inv q] and v1 = vstep_calm [OF quiet_keeps [OF q], of I]
    have f1: "file_at s1 j = file_at s j" for j by (simp add: quiet_simps [OF q] quiet_cur [OF q])
    show ?case
    proof (cases r)
      case (Inl e)
      then show ?thesis using 1 inv1 v1 by (simp add: looked_up_def)
    next
      case (Inr x)
      obtain found em where x: "x = (found, em)" by (cases x)
      then have fi: "found_in (root_file s) name {..<nslots (root_file s)} found em" using 1 Inr by simp
      note fd = found_dents [OF fi]
      show ?thesis
      proof (cases found)
        case None
        then have "name \<notin> fst ` dents (root_file s)" using fd(1) by auto
        then show ?thesis using Inr x None inv1 v1 by (simp add: looked_up_def)
      next
        case (Some y)
        obtain ino k where y: "y = (ino, k)" by (cases y)
        then have k: "k < nslots (root_file s)" "dino (root_file s) k = ino" "dname (root_file s) k = name" "(name, ino) \<in> dents (root_file s)" using fd(2) Some by blast+
        have iI: "ino \<in> I" "ino \<noteq> SFS_ROOTDIR_INO" using treeD(4,5) [OF t] k(4) by auto
        have "names_of (root_file s) ino \<noteq> {}" using k(4) by (auto simp: names_of_def)
        then have nz: "f_links (file_at s ino) \<noteq> 0" using treeD(7) [OF t iI] by simp
        have l1: "biglock s1 > 0" using l quiet_simps [OF q] by simp
        have "wp (sfs_loadvnode ino SFS_TYPE_INVAL s1) (\<lambda>s r. case r of Inl e \<Rightarrow> looked_up I s0 name s (Inl e)
            | Inr ret \<Rightarrow> sfi_linkcount (sv_i (svs s ret)) \<noteq> 0 \<and> looked_up I s0 name s (Inr (ret, k)))" if "s0 = s" for s0
        proof (rule wp_mono [OF loadvnode_fs [OF inv1 l1 iI(1)]], goal_cases)
          case (1 s2 r2)
          show ?case
          proof (cases r2)
            case (Inl e)
            then show ?thesis using 1 that vstep_trans [OF v1, of s2] calm_rc [OF quiet_calm [OF q]] by (auto simp: looked_up_def loaded_post_def)
          next
            case (Inr w)
            have w: "w \<in> set (sfs_vnodes s2)" "ino_of s2 w = ino" "vstep I s s2 ((rc s)(w := rc s w + 1))" "fs_inv I s2"
              using 1 Inr vstep_trans [OF v1, of s2] calm_rc [OF quiet_calm [OF q]] by (simp_all add: loaded_post_def)
            have "sfi_linkcount (sv_i (svs s2 w)) = f_links (file_at s ino)" using links_of [OF fs_invD(1) [OF w(4)] w(1)] w(2,3) iI(1) by (simp add: vstep_def)
            then show ?thesis using Inr that w k nz by (simp add: looked_up_def)
          qed
        qed
        then show ?thesis using Inr x Some y by (auto elim!: wp_mono split: sum.splits)
      qed
    qed
  qed
qed

end
