(* ===== verification/Sfs_View.thy ===== *)
theory Sfs_View
  imports Sfs_Tree
begin

text \<open>
  What a client of the file system sees of it, as an abstract state, and the two changes every directory operation is made of: a name more and a name less.
\<close>

section \<open>What a client sees\<close>

text \<open>
  A client of the file system holds references to vnodes, \<open>h\<close> of each. It sees the names, the files that have a
  name or that it holds, and its own memory. The root directory is seen as the names only.
\<close>

record fsview =
  names :: "(byte list \<times> nat) set"
  refs :: "nat \<Rightarrow> nat"
  node :: "nat \<Rightarrow> nat option"
  files :: "nat \<Rightarrow> afile option"
  user :: ucopy

definition held :: "(nat \<Rightarrow> nat) \<Rightarrow> sfs \<Rightarrow> nat set" where
  "held h s = ino_of s ` {v. 0 < h v}"

definition seen :: "(nat \<Rightarrow> nat) \<Rightarrow> sfs \<Rightarrow> nat set" where
  "seen h s = (snd ` dents (root_file s) \<union> held h s) - {SFS_ROOTDIR_INO}"

definition view :: "(nat \<Rightarrow> nat) \<Rightarrow> sfs \<Rightarrow> fsview" where
  "view h s = \<lparr>names = dents (root_file s), refs = h, node = (\<lambda>v. if 0 < h v then Some (ino_of s v) else None),
     files = (\<lambda>i. if i \<in> seen h s then Some (file_at s i) else None), user = uspace (mach s)\<rparr>"

definition has_refs :: "(nat \<Rightarrow> nat) \<Rightarrow> sfs \<Rightarrow> bool" where
  "has_refs h s \<longleftrightarrow> (\<forall>v. h v \<le> rc s v)"


lemma has_refsD: "has_refs h s \<Longrightarrow> h v \<le> rc s v"
  by (simp add: has_refs_def)

lemma held_vnode: "fs_inv I s \<Longrightarrow> has_refs h s \<Longrightarrow> 0 < h v \<Longrightarrow> v \<in> set (sfs_vnodes s)"
  using has_refsD [of h s v] rc_pos [OF vol_invD(3) [OF fs_invD(1)], of I s v] by simp

lemma held_ino: "fs_inv I s \<Longrightarrow> has_refs h s \<Longrightarrow> 0 < h v \<Longrightarrow> ino_of s v \<in> I"
  using vnode_in [OF fs_invD(1)] held_vnode by blast

lemma seen_in: "fs_inv I s \<Longrightarrow> has_refs h s \<Longrightarrow> i \<in> seen h s \<Longrightarrow> i \<in> I \<and> i \<noteq> SFS_ROOTDIR_INO"
  using treeD(4) [OF fs_invD(2), of I s] held_ino [of I s h] by (auto simp: seen_def held_def)

lemma view_simps [simp]:
  "names (view h s) = dents (root_file s)" "refs (view h s) = h" "user (view h s) = uspace (mach s)"
  "node (view h s) v = (if 0 < h v then Some (ino_of s v) else None)" "files (view h s) i = (if i \<in> seen h s then Some (file_at s i) else None)"
  by (simp_all add: view_def)

lemma view_eq:
  assumes "names V = dents (root_file s)" "refs V = h" "\<And>v. node V v = (if 0 < h v then Some (ino_of s v) else None)" "user V = uspace (mach s)"
    "\<And>i. i \<in> seen h s \<Longrightarrow> files V i = Some (file_at s i)" "\<And>i. i \<notin> seen h s \<Longrightarrow> files V i = None"
  shows "view h s = V"
  using assms by (intro fsview.equality ext) (simp_all add: fun_eq_iff)

lemma view_with_lock [simp]: "view h (with_lock n s) = view h s" "has_refs h (with_lock n s) = has_refs h s"
  by (simp_all add: view_def seen_def held_def has_refs_def fun_eq_iff)

lemma node_same:
  assumes "fs_inv I s" "has_refs h s" "env s s'" "fs_inv I' s'" "has_refs h' s'" "0 < h v" "0 < h' v"
  shows "ino_of s' v = ino_of s v"
  using env_ino [OF vol_invD(3) [OF fs_invD(1) [OF assms(1)]] held_vnode [OF assms(1,2,6)] assms(3) held_vnode [OF assms(4,5,7)]] .

lemma held_same:
  assumes "fs_inv I s" "has_refs h s" "env s s'" "fs_inv I' s'" "has_refs h s'"
  shows "held h s' = held h s"
  unfolding held_def by (rule image_cong [OF refl]) (use node_same [OF assms(1-5)] in simp)

text \<open>What an operation does, as a relation between what its client saw and what it sees.\<close>

definition freemap_block :: "bitmap \<Rightarrow> nat \<Rightarrow> byte list" where
  "freemap_block fm j = take 512 (drop (j * 512) (bm_v fm))"

text \<open>
  What the disk says of the volume itself: the superblock is there, and so is the freemap unless it is marked as
  changed; the volume has room for it.
\<close>

definition on_disk :: "sfs \<Rightarrow> bool" where
  "on_disk s \<longleftrightarrow> \<not> sfs_superdirty s \<and> SFS_FREEMAP_START + SFS_FREEMAPBLOCKS (nblks s) \<le> nblks s
     \<and> (let b = superblock_of (sect s 0) in sb_magic b = SFS_MAGIC \<and> b\<lparr>sb_volname := (sb_volname b)[31 := 0]\<rparr> = sfs_sb s)
     \<and> (sfs_freemapdirty s \<or> (\<forall>j<SFS_FREEMAPBLOCKS (nblks s). sect s (SFS_FREEMAP_START + j) = freemap_block (sfs_freemap s) j))"

lemma on_disk_kept: "meta_kept s s' \<Longrightarrow> sfs_sb s' = sfs_sb s \<Longrightarrow> sfs_superdirty s' = sfs_superdirty s \<Longrightarrow> on_disk s \<Longrightarrow> on_disk s'"
  by (auto simp: on_disk_def meta_kept_def meta_def Let_def)

definition world :: "sfs \<Rightarrow> sfs \<Rightarrow> bool" where
  "world s s' \<longleftrightarrow> biglock s' = biglock s \<and> memok s' = memok s \<and> sfs_sb s' = sfs_sb s \<and> lh_blocks (disk s') = lh_blocks (disk s) \<and> media (disk s') = media (disk s)
     \<and> sfs_device s' = sfs_device s \<and> sfs_superdirty s' = sfs_superdirty s \<and> curas (mach s') = curas (mach s) \<and> (on_disk s \<longrightarrow> on_disk s')"

lemma env_world: "env s s' \<Longrightarrow> world s s'"
  using on_disk_kept [of s s'] by (simp add: env_def world_def)

lemma on_disk_with_lock [simp]: "on_disk (with_lock n s) = on_disk s"
  by (simp add: on_disk_def)

definition op_post :: "sfs \<Rightarrow> ('r \<Rightarrow> fsview \<Rightarrow> bool) \<Rightarrow> sfs \<Rightarrow> 'r \<Rightarrow> bool" where
  "op_post s R s' r \<longleftrightarrow> (\<exists>I h. fs_inv I s' \<and> world s s' \<and> has_refs h s' \<and> R r (view h s'))"

lemma op_postI: "fs_inv I s' \<Longrightarrow> env s s' \<Longrightarrow> has_refs h s' \<Longrightarrow> R r (view h s') \<Longrightarrow> op_post s R s' r"
  using env_world by (auto simp: op_post_def)

lemma op_post_lock: "op_post (with_lock n s) R s' r \<Longrightarrow> biglock s' = n \<and> op_post s R (with_lock (biglock s) s') r"
  by (auto simp: op_post_def world_def)

lemma locked_op:
  assumes "wp (body (with_lock (Suc (biglock s)) s)) (op_post (with_lock (Suc (biglock s)) s) R)"
  shows "wp (locked body s) (op_post s R)"
  by (rule locked_wp, rule wp_mono [OF assms]) (rule op_post_lock)

section \<open>Nothing happens\<close>

definition unchanged :: "nat set \<Rightarrow> sfs \<Rightarrow> sfs \<Rightarrow> bool" where
  "unchanged I s s' \<longleftrightarrow> (\<exists>I'. I \<subseteq> I' \<and> fs_inv I' s') \<and> env s s' \<and> (\<forall>v. rc s v \<le> rc s' v) \<and> (\<forall>i\<in>I. file_at s' i = file_at s i)"

lemma unchanged_vstep: "vstep I s s' (rc s) \<Longrightarrow> fs_inv I s' \<Longrightarrow> unchanged I s s'"
  by (auto simp: unchanged_def vstep_def)

lemma unchanged_refl: "fs_inv I s \<Longrightarrow> unchanged I s s"
  by (auto simp: unchanged_def)

lemma unchanged_view:
  assumes inv: "fs_inv I s" and h: "has_refs h s" and u: "unchanged I s s'"
  shows "has_refs h s'" "view h s' = view h s"
proof -
  obtain I' where I': "I \<subseteq> I'" "fs_inv I' s'" and e: "env s s'" and r: "\<And>v. rc s v \<le> rc s' v" and f: "\<And>i. i \<in> I \<Longrightarrow> file_at s' i = file_at s i"
    using u by (auto simp: unchanged_def)
  show h': "has_refs h s'" using h r order_trans unfolding has_refs_def by blast
  have root: "root_file s' = root_file s" using f treeD(1) [OF fs_invD(2) [OF inv]] by blast
  have sn: "seen h s' = seen h s" using held_same [OF inv h e I'(2) h'] root by (simp add: seen_def)
  show "view h s' = view h s"
    by (rule view_eq) (use root sn node_same [OF inv h e I'(2) h'] envD(8) [OF e] f seen_in [OF inv h] in auto)
qed

lemma unchanged_op: "fs_inv I s \<Longrightarrow> has_refs h s \<Longrightarrow> unchanged I s s' \<Longrightarrow> R r (view h s) \<Longrightarrow> op_post s R s' r"
  using unchanged_view [of I s h s'] unfolding op_post_def unchanged_def by (metis env_world)

lemma same_op: "fs_inv I s \<Longrightarrow> has_refs h s \<Longrightarrow> R r (view h s) \<Longrightarrow> op_post s R s r"
  by (rule unchanged_op [OF _ _ unchanged_refl])

section \<open>A reference more\<close>

definition hold :: "nat \<Rightarrow> nat \<Rightarrow> fsview \<Rightarrow> fsview" where
  "hold w i V = V\<lparr>refs := (refs V)(w := refs V w + 1), node := (node V)(w \<mapsto> i)\<rparr>"

lemma hold_view:
  assumes inv: "fs_inv I s" and h: "has_refs h s" and v: "vstep I s s' ((rc s)(w := rc s w + 1))" and inv': "fs_inv I s'"
    and w: "w \<in> set (sfs_vnodes s')" "i = ino_of s' w" "i \<in> insert SFS_ROOTDIR_INO (seen h s)"
  shows "has_refs (h(w := h w + 1)) s'" "view (h(w := h w + 1)) s' = hold w i (view h s)"
proof -
  have e: "env s s'" and r: "rc s' = (rc s)(w := rc s w + 1)" and f: "\<And>i. i \<in> I \<Longrightarrow> file_at s' i = file_at s i" using v by (auto simp: vstep_def)
  show h': "has_refs (h(w := h w + 1)) s'" using h r by (auto simp: has_refs_def)
  have root: "root_file s' = root_file s" using f treeD(1) [OF fs_invD(2) [OF inv]] by blast
  have nd: "ino_of s' v = ino_of s v" if "0 < h v" for v using node_same [OF inv h e inv' h' that] that by simp
  have "held (h(w := h w + 1)) s' = insert i (held h s)"
  proof -
    have "{v. 0 < (h(w := h w + 1)) v} = insert w {v. 0 < h v}" by auto
    moreover have "ino_of s' ` {v. 0 < h v} = ino_of s ` {v. 0 < h v}" by (rule image_cong) (use nd in auto)
    ultimately show ?thesis using w(2) by (simp add: held_def)
  qed
  then have sn: "seen (h(w := h w + 1)) s' = seen h s" using root w(3) by (auto simp: seen_def)
  show "view (h(w := h w + 1)) s' = hold w i (view h s)"
    by (rule view_eq) (use root sn nd envD(8) [OF e] f seen_in [OF inv h] w(2) in \<open>auto simp: hold_def\<close>)
qed


section \<open>Calls through the tables of operations\<close>

lemma vop_at:
  assumes inv: "fs_inv I s" and h: "has_refs h s" and v: "0 < h v" and x: "vol x = s"
  shows "vop v vol fo d x = (if ino_of s v = SFS_ROOTDIR_INO then d x else fo x)"
proof -
  note vv = held_vnode [OF inv h v] and vi = fs_invD(1) [OF inv]
  note ok = vtab_okD(3) [OF vol_invD(3) [OF vi] vv, unfolded vnode_ok_def]
  have "sfi_type (sv_i (svs s v)) = f_type (file_at s (ino_of s v))" using vnode_cur [OF vi vv] by (simp add: file_of_def)
  then have "vnode_ops_of (f_type (file_at s (ino_of s v))) = Some (vn_ops (svs s v))" using ok by simp
  moreover have "vnode_ops_of (if c then SFS_TYPE_DIR else SFS_TYPE_FILE) = Some (if c then Sfs_dirops else Sfs_fileops)" for c
    by (simp add: vnode_ops_of_def SFS_TYPE_FILE_def SFS_TYPE_DIR_def)
  ultimately have "vn_ops (svs s v) = (if ino_of s v = SFS_ROOTDIR_INO then Sfs_dirops else Sfs_fileops)"
    unfolding file_type [OF inv vnode_in [OF vi vv]] by (simp only: option.inject)
  then show ?thesis using ok x by (simp add: vop_def vnode_check_def)
qed

lemma vop_held: "fs_inv I s \<Longrightarrow> has_refs h s \<Longrightarrow> 0 < h v \<Longrightarrow> vop v id fo d s = (if ino_of s v = SFS_ROOTDIR_INO then d s else fo s)"
  by (rule vop_at) simp_all

lemma held_root: "fs_inv I s \<Longrightarrow> has_refs h s \<Longrightarrow> 0 < h v \<Longrightarrow> ino_of s v = SFS_ROOTDIR_INO \<Longrightarrow> root_vnode s v"
  using held_vnode by (simp add: root_vnode_def)

lemma type_of: "fs_inv I s \<Longrightarrow> v \<in> set (sfs_vnodes s) \<Longrightarrow> sfi_type (sv_i (svs s v)) = (if ino_of s v = SFS_ROOTDIR_INO then SFS_TYPE_DIR else SFS_TYPE_FILE)"
  using file_type [of I s "ino_of s v"] vnode_in [OF fs_invD(1)] vnode_cur [OF fs_invD(1)] by (simp add: file_of_def)

section \<open>Lookup\<close>

definition lookup_spec :: "nat \<Rightarrow> byte list \<Rightarrow> fsview \<Rightarrow> errno + nat \<Rightarrow> fsview \<Rightarrow> bool" where
  "lookup_spec v name V r V' \<longleftrightarrow>
     (case r of
        Inl e \<Rightarrow> V' = V \<and> (e \<in> {EIO, ENOMEM} \<or> e = ENOENT \<and> name \<notin> fst ` names V \<or> e = ENOTDIR \<and> node V v \<noteq> Some SFS_ROOTDIR_INO)
      | Inr w \<Rightarrow> node V v = Some SFS_ROOTDIR_INO \<and> (\<exists>i. (name, i) \<in> names V \<and> V' = hold w i V))"

lemma named_seen: "fs_inv I s \<Longrightarrow> (n, i) \<in> dents (root_file s) \<Longrightarrow> i \<in> seen h s"
  using treeD(5) [OF fs_invD(2), of I s] by (force simp: seen_def)

lemma looked_up_op:
  assumes inv: "fs_inv I s" and h: "has_refs h s" and r: "looked_up I s name s' r"
    and E: "\<And>e. r = Inl e \<Longrightarrow> e \<in> {EIO, ENOMEM} \<or> e = ENOENT \<and> name \<notin> fst ` dents (root_file s) \<Longrightarrow> R r' (view h s)"
    and K: "\<And>w k i. r = Inr (w, k) \<Longrightarrow> (name, i) \<in> dents (root_file s) \<Longrightarrow> R r' (hold w i (view h s))"
  shows "op_post s R s' r'"
proof (cases r)
  case (Inl e)
  then show ?thesis using r E by (intro unchanged_op [OF inv h unchanged_vstep]) (auto simp: looked_up_def)
next
  case (Inr x)
  obtain w k where x: "x = (w, k)" by (cases x)
  have l: "vstep I s s' ((rc s)(w := rc s w + 1))" "fs_inv I s'" "w \<in> set (sfs_vnodes s')" "(name, ino_of s' w) \<in> dents (root_file s)" using r Inr x by (auto simp: looked_up_def)
  note v = hold_view [OF inv h l(1-3) refl insertI2 [OF named_seen [OF inv l(4)]]]
  show ?thesis by (rule op_postI [OF l(2) _ v(1)]) (use l(1) v(2) K [of w k] Inr x l(4) in \<open>simp_all add: vstep_def\<close>)
qed

lemma VOP_LOOKUP_wp:
  assumes inv: "fs_inv I s" and h: "has_refs h s" and v: "0 < h v"
  shows "wp (VOP_LOOKUP v name s) (op_post s (lookup_spec v name (view h s)))"
proof (cases "ino_of s v = SFS_ROOTDIR_INO")
  case False
  then have "op_post s (lookup_spec v name (view h s)) s (Inl ENOTDIR)" by (intro same_op [OF inv h]) (simp add: lookup_spec_def)
  then show ?thesis unfolding VOP_LOOKUP_def vop_held [OF inv h v] fails_def using False by simp
next
  case True
  let ?s = "with_lock (Suc (biglock s)) s"
  have inv': "fs_inv I ?s" "has_refs h ?s" "biglock ?s > 0" "root_vnode ?s v" using inv h held_root [OF inv h v True] by (simp_all add: root_vnode_def)
  have t: "sfi_type (sv_i (svs ?s v)) = SFS_TYPE_DIR" using type_of [OF inv held_vnode [OF inv h v]] True by simp
  have "wp (onok (sfs_lookonce v name ?s) (\<lambda>(final, _) s. Some (s, Inr final))) (op_post ?s (lookup_spec v name (view h s)))"
    unfolding wp_onok
  proof (rule wp_mono [OF lookonce_wp [OF inv'(1,3,4)]], goal_cases)
    case (1 s' r)
    have "op_post ?s (lookup_spec v name (view h s)) s' (map_sum id fst r)"
      by (rule looked_up_op [OF inv'(1,2) 1]) (use v True in \<open>auto simp: lookup_spec_def\<close>)
    then show ?case by (cases r) auto
  qed
  then show ?thesis unfolding VOP_LOOKUP_def vop_held [OF inv h v] sfs_lookup_def using True t by (simp add: locked_op)
qed


section \<open>Names and link counts\<close>

lemma change_links_spec:
  assumes inv: "vol_inv I X s" and w: "w \<in> set (sfs_vnodes s)" and i: "i = ino_of s w" and n: "n = f (f_links (file_at s i))" "n < 2 ^ 16"
  shows "vol_inv I X (change_links f w s)" "calm s (change_links f w s)" "file_at (change_links f w s) i = (file_at s i)\<lparr>f_links := n\<rparr>"
    "j \<noteq> i \<Longrightarrow> file_at (change_links f w s) j = file_at s j"
proof -
  let ?g = "\<lambda>d. d\<lparr>sfi_linkcount := f (sfi_linkcount d) mod 2 ^ 16\<rparr>"
  have l: "f_links (file_at s i) = sfi_linkcount (cur s i)" "f_size (file_at s i) = sfi_size (cur s i)" by (simp_all add: file_of_def)
  have ok: "dinode_ok (?g (cur s i))" using vol_invD(6) [OF inv vnode_in [OF inv w]] i by (simp add: dinode_ok_def)
  note a = set_dinode_attr [where f = ?g, OF inv w i _ _ _ ok]
  show "vol_inv I X (change_links f w s)" "calm s (change_links f w s)" "j \<noteq> i \<Longrightarrow> file_at (change_links f w s) j = file_at s j"
    unfolding change_links_def using a(1,4) by simp_all
  show "file_at (change_links f w s) i = (file_at s i)\<lparr>f_links := n\<rparr>" unfolding change_links_def using a(3) l n by (simp add: file_of_def)
qed

definition relinked :: "nat set \<Rightarrow> sfs \<Rightarrow> (byte list \<times> nat) set \<Rightarrow> nat \<Rightarrow> nat \<Rightarrow> sfs \<Rightarrow> bool" where
  "relinked I s D i n s' \<longleftrightarrow> fs_inv I s' \<and> calm s s' \<and> dents (root_file s') = D \<and> file_at s' i = (file_at s i)\<lparr>f_links := n\<rparr>
     \<and> (\<forall>j\<in>I. j \<noteq> SFS_ROOTDIR_INO \<and> j \<noteq> i \<longrightarrow> file_at s' j = file_at s j)"

lemma dir_post_same: "dir_post I X s i s' \<Longrightarrow> file_at s' i = file_at s i \<Longrightarrow> keeps_files I s s'"
  unfolding dir_post_def keeps_files_def by metis

lemma fs_inv_keeps: "fs_inv I s \<Longrightarrow> keeps_files I s s' \<Longrightarrow> vol_inv I {} s' \<Longrightarrow> fs_inv I s'"
  by (rule fs_inv_vstep [OF _ _ vstep_calm]) simp_all

lemma link_fs:
  assumes inv: "fs_inv I s" and l: "biglock s > 0" and v: "root_vnode s v" and nm: "0 \<notin> set name" and w: "w \<in> set (sfs_vnodes s)" "i = ino_of s w" "i \<noteq> SFS_ROOTDIR_INO"
  shows "wp (sfs_dir_link v name i s) (\<lambda>s' r.
    case r of
      Inl e \<Rightarrow> (e \<in> {EIO, EFBIG, ENOSPC, ENAMETOOLONG} \<or> e = EEXIST \<and> name \<in> fst ` dents (root_file s)) \<and> fs_inv I s' \<and> keeps_files I s s'
    | Inr k \<Rightarrow> relinked I s (insert (name, i) (dents (root_file s))) i (f_links (file_at s i) + 1) (change_links (\<lambda>n. n + 1) w s') \<and> name \<notin> fst ` dents (root_file s)
        \<and> root_file (change_links (\<lambda>n. n + 1) w s') = set_slot (root_file s) k (entry_of i name) \<and> (k < nslots (root_file s) \<longrightarrow> dino (root_file s) k = 0) \<and> length name \<le> 59)"
proof -
  note vi = fs_invD(1) [OF inv] and t = fs_invD(2) [OF inv]
  have vv: "v \<in> set (sfs_vnodes s)" "SFS_ROOTDIR_INO = ino_of s v" using v by (simp_all add: root_vnode_def)
  have iI: "i \<in> I" using vnode_in [OF vi w(1)] w(2) by simp
  have ib: "i \<noteq> 0" "i < 2 ^ 32" using ino_bound(1,2) [OF vi iI] freemap_okD(6) [OF vol_invD(2) [OF vi]] by simp_all
  show ?thesis
  proof (rule wp_mono [OF dir_link_wp [OF vi l vv treeD(2) [OF t] nm ib]], goal_cases)
    case (1 s1 r)
    show ?case
    proof (cases r)
      case (Inl e)
      then have "keeps_files I s s1" using 1 dir_post_same by auto
      then show ?thesis using 1 Inl fs_inv_keeps [OF inv] by (auto simp: dir_post_def)
    next
      case (Inr k)
      let ?s2 = "change_links (\<lambda>n. n + 1) w s1" and ?R = SFS_ROOTDIR_INO and ?n = "f_links (file_at s i) + 1"
      have p: "vol_inv I {} s1" "calm s s1" "\<And>j. j \<in> I \<Longrightarrow> j \<noteq> ?R \<Longrightarrow> file_at s1 j = file_at s j" and rf: "root_file s1 = set_slot (root_file s) k (entry_of i name)"
        and k: "k \<le> nslots (root_file s)" "k < nslots (root_file s) \<longrightarrow> dino (root_file s) k = 0" "k * 64 < max_size" "length name \<le> 59" and new: "\<And>j. (name, j) \<notin> dents (root_file s)"
        using 1 Inr by (auto simp: dir_post_def)
      note ls = link_slot [OF treeD(2) [OF t] k(1) k(2)[rule_format] k(3) nm k(4) new ib]
      have w1: "w \<in> set (sfs_vnodes s1)" "i = ino_of s1 w" using w calmD(7,16) [OF p(2)] by simp_all
      have "f_links (file_at s i) \<le> 1144" using treeD(7) [OF t iI w(3)] links_bound [OF treeD(2) [OF t], of i] by simp
      then have n: "?n = (\<lambda>n. n + 1) (f_links (file_at s1 i))" "?n < 2 ^ 16" using p(3) [OF iI w(3)] by simp_all
      note c = change_links_spec [where f = "\<lambda>n. n + 1", OF p(1) w1 n]
      have rf2: "root_file ?s2 = set_slot (root_file s) k (entry_of i name)" using c(4) [OF w(3)[symmetric]] rf by simp
      have f2: "file_at ?s2 i = (file_at s i)\<lparr>f_links := ?n\<rparr>" "\<And>j. j \<in> I \<Longrightarrow> j \<noteq> ?R \<Longrightarrow> j \<noteq> i \<Longrightarrow> file_at ?s2 j = file_at s j"
        using c(3,4) p(3) iI w(3) by auto
      have cc: "calm s ?s2" using calm_trans [OF p(2) c(2)] .
      have tr: "tree I (file_at ?s2) (loaded ?s2)"
        by (rule tree_link [OF t iI w(3)]) (use rf2 ls f2 new calmD(21) [OF cc] in auto)
      then have "fs_inv I ?s2" using c(1) by (simp add: fs_inv_def)
      then have "relinked I s (insert (name, i) (dents (root_file s))) i ?n ?s2" unfolding relinked_def using cc ls(2) rf2 f2 by auto
      then show ?thesis using Inr rf2 k(2,4) new by auto
    qed
  qed
qed

lemma unlink_fs:
  assumes inv: "fs_inv I s" and l: "biglock s > 0" and v: "root_vnode s v" and w: "w \<in> set (sfs_vnodes s)" "i = ino_of s w"
    and k: "k < nslots (root_file s)" "dino (root_file s) k = i" "dname (root_file s) k = name"
  shows "wp (sfs_dir_unlink v k s) (\<lambda>s' r.
    case r of
      Inl e \<Rightarrow> e \<in> {EIO, ENOSPC} \<and> fs_inv I s' \<and> keeps_files I s s'
    | Inr _ \<Rightarrow> relinked I s (dents (root_file s) - {(name, i)}) i (f_links (file_at s i) - 1) (change_links (\<lambda>n. n - 1) w s') \<and> 0 < sfi_linkcount (sv_i (svs s' w)))"
proof -
  note vi = fs_invD(1) [OF inv] and t = fs_invD(2) [OF inv]
  have vv: "v \<in> set (sfs_vnodes s)" "SFS_ROOTDIR_INO = ino_of s v" using v by (simp_all add: root_vnode_def)
  have iI: "i \<in> I" using vnode_in [OF vi w(1)] w(2) by simp
  have i0: "i \<noteq> 0" using ino_bound(2) [OF vi iI] .
  have D: "(name, i) \<in> dents (root_file s)" using k i0 by (auto simp: dents_def)
  have iR: "i \<noteq> SFS_ROOTDIR_INO" using treeD(5) [OF t] D by auto
  have kb: "k * 64 < max_size" using dir_size [OF treeD(2) [OF t]] k(1) by simp
  have nl: "0 < f_links (file_at s i)" "f_links (file_at s i) \<le> 1144"
    using treeD(7) [OF t iI iR] links_bound [OF treeD(2) [OF t], of i] D finite_names_of [of "root_file s" i] by (auto simp: card_gt_0_iff names_of_def simp del: finite_names_of)
  show ?thesis
  proof (rule wp_mono [OF dir_unlink_wp [OF vi l vv kb]], goal_cases)
    case (1 s1 r)
    show ?case
    proof (cases r)
      case (Inl e)
      then have "keeps_files I s s1" using 1 dir_post_same by auto
      then show ?thesis using 1 Inl fs_inv_keeps [OF inv] by (auto simp: dir_post_def)
    next
      case (Inr x)
      let ?s2 = "change_links (\<lambda>n. n - 1) w s1" and ?R = SFS_ROOTDIR_INO and ?n = "f_links (file_at s i) - 1"
      have p: "vol_inv I {} s1" "calm s s1" "\<And>j. j \<in> I \<Longrightarrow> j \<noteq> ?R \<Longrightarrow> file_at s1 j = file_at s j" and rf: "root_file s1 = set_slot (root_file s) k no_entry"
        using 1 Inr by (auto simp: dir_post_def)
      note us = unlink_slot [OF treeD(2) [OF t] k(1), unfolded k(2,3), OF i0]
      have w1: "w \<in> set (sfs_vnodes s1)" "i = ino_of s1 w" using w calmD(7,16) [OF p(2)] by simp_all
      have n: "?n = (\<lambda>n. n - 1) (f_links (file_at s1 i))" "?n < 2 ^ 16" using p(3) [OF iI iR] nl by simp_all
      note c = change_links_spec [where f = "\<lambda>n. n - 1", OF p(1) w1 n]
      have rf2: "root_file ?s2 = set_slot (root_file s) k no_entry" using c(4) [OF iR[symmetric]] rf by simp
      have f2: "file_at ?s2 i = (file_at s i)\<lparr>f_links := ?n\<rparr>" "\<And>j. j \<in> I \<Longrightarrow> j \<noteq> ?R \<Longrightarrow> j \<noteq> i \<Longrightarrow> file_at ?s2 j = file_at s j"
        using c(3,4) p(3) iI iR by auto
      have cc: "calm s ?s2" using calm_trans [OF p(2) c(2)] .
      have il: "i \<in> loaded ?s2" using calmD(21) [OF cc] w by (auto simp: loaded_def)
      have tr: "tree I (file_at ?s2) (loaded ?s2)"
        by (rule tree_unlink [OF t D il]) (use rf2 us f2 calmD(21) [OF cc] in auto)
      then have "fs_inv I ?s2" using c(1) by (simp add: fs_inv_def)
      then have "relinked I s (dents (root_file s) - {(name, i)}) i ?n ?s2" unfolding relinked_def using cc us(2) rf2 f2 by auto
      moreover have "sfi_linkcount (sv_i (svs s1 w)) = f_links (file_at s i)" using links_of [OF p(1) w1(1)] w1(2) p(3) [OF iI iR] by simp
      ultimately show ?thesis using Inr nl(1) by simp
    qed
  qed
qed

end
