(* ===== verification/Sfs_Create.thy ===== *)
theory Sfs_Create
  imports Sfs_View
begin

text \<open>
  Creating a file and giving a file another name, as changes of what the client sees.
\<close>

section \<open>Creating a file\<close>

definition new_file :: afile where
  "new_file = (empty_file SFS_TYPE_FILE)\<lparr>f_links := 1\<rparr>"

definition creat_spec :: "nat \<Rightarrow> byte list \<Rightarrow> bool \<Rightarrow> fsview \<Rightarrow> errno + nat \<Rightarrow> fsview \<Rightarrow> bool" where
  "creat_spec v name excl V r V' \<longleftrightarrow>
     (case r of
        Inl e \<Rightarrow> V' = V \<and> (e \<in> {EIO, ENOMEM} \<or> e = EEXIST \<and> excl \<and> name \<in> fst ` names V
            \<or> e \<in> {ENOSPC, EFBIG, ENAMETOOLONG} \<and> name \<notin> fst ` names V \<or> e = ENOTDIR \<and> node V v \<noteq> Some SFS_ROOTDIR_INO)
      | Inr w \<Rightarrow> node V v = Some SFS_ROOTDIR_INO \<and>
          (if name \<in> fst ` names V then \<not> excl \<and> (\<exists>i. (name, i) \<in> names V \<and> V' = hold w i V)
           else \<exists>i. i \<notin> {0, SFS_ROOTDIR_INO} \<and> files V i = None \<and> refs V w = 0
             \<and> V' = hold w i (V\<lparr>names := insert (name, i) (names V), files := (files V)(i \<mapsto> new_file)\<rparr>)))"

lemma root_kept:
  assumes inv: "fs_inv I s" and h: "has_refs h s" and v: "0 < h v" "ino_of s v = SFS_ROOTDIR_INO" and e: "env s s'" and t: "vtab_ok s'" and r: "0 < rc s' v"
  shows "root_vnode s' v"
proof -
  have v': "v \<in> set (sfs_vnodes s')" using rc_pos [OF t] r by blast
  then show ?thesis using env_ino [OF vol_invD(3) [OF fs_invD(1) [OF inv]] held_vnode [OF inv h v(1)] e] v(2) by (simp add: root_vnode_def)
qed

lemma fs_inv_made:
  assumes inv: "fs_inv I s" and i: "ino \<notin> I" and vi: "vol_inv (insert ino I) {} s'" and w: "w \<in> set (sfs_vnodes s')" "ino_of s' w = ino" "rc s w = 0"
    and v: "vstep I s s' ((rc s)(w := 1))" and f: "file_at s' ino = empty_file SFS_TYPE_FILE"
  shows "fs_inv (insert ino I) s'"
proof -
  have "loaded s \<subseteq> loaded s'"
    by (rule loaded_env [OF vol_invD(3) [OF fs_invD(1) [OF inv]] vol_invD(3) [OF vi]]) (use v w(3) in \<open>auto simp: vstep_def\<close>)
  moreover have "ino \<in> loaded s'" using w by (auto simp: loaded_def)
  moreover have "\<forall>i\<in>I. file_at s' i = file_at s i" using v by (simp add: vstep_def)
  ultimately have "tree (insert ino I) (file_at s') (loaded s')" using tree_new [OF fs_invD(2) [OF inv] i, of "file_at s'"] f by auto
  then show ?thesis using vi by (simp add: fs_inv_def)
qed

lemma made_view:
  assumes inv: "fs_inv I s" and h: "has_refs h s" and i: "ino \<notin> I" and w: "w \<in> set (sfs_vnodes s1)" "ino_of s1 w = ino" "rc s w = 0"
    and v: "vstep I s s1 ((rc s)(w := 1))" and f: "file_at s1 ino = empty_file SFS_TYPE_FILE"
    and r: "relinked (insert ino I) s1 (insert (name, ino) (dents (root_file s1))) ino 1 s2"
  shows "env s s2" "has_refs (h(w := h w + 1)) s2"
    "view (h(w := h w + 1)) s2 = hold w ino ((view h s)\<lparr>names := insert (name, ino) (dents (root_file s)), files := (files (view h s))(ino \<mapsto> new_file)\<rparr>)"
proof -
  have e1: "env s s1" and r1: "rc s1 = (rc s)(w := 1)" and f1: "\<And>i. i \<in> I \<Longrightarrow> file_at s1 i = file_at s i" using v by (auto simp: vstep_def)
  have inv2: "fs_inv (insert ino I) s2" and c: "calm s1 s2" and D: "dents (root_file s2) = insert (name, ino) (dents (root_file s1))"
    and fi: "file_at s2 ino = (file_at s1 ino)\<lparr>f_links := 1\<rparr>" and fo: "\<And>j. j \<in> I \<Longrightarrow> j \<noteq> SFS_ROOTDIR_INO \<Longrightarrow> file_at s2 j = file_at s1 j"
    using r i by (auto simp: relinked_def)
  show e: "env s s2" using env_trans [OF e1 calm_env [OF c]] .
  have hw: "h w = 0" using has_refsD [OF h, of w] w(3) by simp
  show h': "has_refs (h(w := h w + 1)) s2" using h r1 calm_rc [OF c] hw by (auto simp: has_refs_def)
  have RI: "SFS_ROOTDIR_INO \<in> I" using treeD(1) [OF fs_invD(2) [OF inv]] .
  then have iR: "ino \<noteq> SFS_ROOTDIR_INO" and root: "root_file s1 = root_file s" using i f1 by auto
  have nd: "ino_of s2 v = ino_of s v" if "0 < h v" for v using node_same [OF inv h e inv2 h' that] that by simp
  have wi: "ino_of s2 w = ino" using w(2) calmD(16) [OF c] by simp
  have hd: "held (h(w := h w + 1)) s2 = insert ino (held h s)"
  proof -
    have "{v. 0 < (h(w := h w + 1)) v} = insert w {v. 0 < h v}" by auto
    moreover have "ino_of s2 ` {v. 0 < h v} = ino_of s ` {v. 0 < h v}" by (rule image_cong) (use nd in auto)
    ultimately show ?thesis using wi by (simp add: held_def)
  qed
  have sn: "seen (h(w := h w + 1)) s2 = insert ino (seen h s)" using D root iR unfolding seen_def hd by auto
  have nf: "file_at s2 ino = new_file" using fi f by (simp add: new_file_def)
  have of: "i \<noteq> ino \<and> file_at s2 i = file_at s i" if "i \<in> seen h s" for i
    using fo [of i] f1 [of i] seen_in [OF inv h that] i by auto
  show "view (h(w := h w + 1)) s2 = hold w ino ((view h s)\<lparr>names := insert (name, ino) (dents (root_file s)), files := (files (view h s))(ino \<mapsto> new_file)\<rparr>)"
    by (rule view_eq) (use D root sn nd wi envD(8) [OF e] nf of in \<open>auto simp: hold_def\<close>)
qed


lemma creat_undo:
  assumes inv: "fs_inv I s" and i: "ino \<notin> I" and w: "w \<in> set (sfs_vnodes s1)" "ino_of s1 w = ino" "rc s w = 0" and v: "vstep I s s1 ((rc s)(w := 1))"
    and s2: "fs_inv (insert ino I) s2" "keeps_files (insert ino I) s1 s2"
  obtains s3 where "vnode_decref w s2 = Some s3" "unchanged I s s3"
proof -
  have e1: "env s s1" and r1: "rc s1 = (rc s)(w := 1)" and f1: "\<And>i. i \<in> I \<Longrightarrow> file_at s1 i = file_at s i" using v by (auto simp: vstep_def)
  have c: "calm s1 s2" and f2: "\<And>j. j \<in> I \<Longrightarrow> file_at s2 j = file_at s1 j" using s2(2) by (auto simp: keeps_files_def)
  have w2: "w \<in> set (sfs_vnodes s2)" "ino = ino_of s2 w" using w calmD(7,16) [OF c] by simp_all
  obtain s3 I3 where s3: "vnode_decref w s2 = Some s3" "fs_inv I3 s3" "env s2 s3" "\<And>x. rc s2 x \<le> rc s3 x + (if x = w then 1 else 0)"
      "\<And>j. j \<in> insert ino I \<Longrightarrow> (j = ino \<Longrightarrow> 1 < rc s2 w \<or> f_links (file_at s2 ino) \<noteq> 0) \<Longrightarrow> j \<in> I3 \<and> file_at s3 j = file_at s2 j"
    using decref_fs [OF s2(1) w2] by metis
  have j: "j \<in> I3 \<and> file_at s3 j = file_at s2 j" if "j \<in> I" for j using s3(5) [of j] that i by auto
  have "rc s x \<le> rc s3 x" for x using s3(4) [of x] calm_rc [OF c] r1 w(3) by (cases "x = w") simp_all
  moreover have "env s s3" using env_trans [OF env_trans [OF e1 calm_env [OF c]] s3(3)] .
  moreover have "I \<subseteq> I3" using j by blast
  ultimately have "unchanged I s s3" unfolding unchanged_def using s3(2) j f1 f2 by auto
  then show ?thesis using that s3(1) by blast
qed

lemma creat_new_wp:
  assumes inv: "fs_inv I s" and h: "has_refs h s" and v: "0 < h v" "ino_of s v = SFS_ROOTDIR_INO" and l: "biglock s > 0" and nm: "0 \<notin> set name"
    and new: "name \<notin> fst ` dents (root_file s)"
  shows "wp (onok (sfs_makeobj SFS_TYPE_FILE s) (\<lambda>newguy s. do {
               (s, r) \<leftarrow> sfs_dir_link v name (sv_ino (svs s newguy)) s;
               case r of
                 Inl e \<Rightarrow> do { s \<leftarrow> vnode_decref newguy s; Some (s, Inl e) }
               | Inr _ \<Rightarrow> Some (change_links (\<lambda>n. n + 1) newguy s, Inr newguy) }))
           (op_post s (creat_spec v name excl (view h s)))"
  unfolding wp_onok
proof (rule wp_mono [OF makeobj_wp [OF fs_invD(1) [OF inv] l]], goal_cases)
  case (2 s1 r)
  show ?case
  proof (cases r)
    case (Inl e)
    then have m: "e \<in> {ENOMEM, EIO, ENOSPC}" "vol_inv I {} s1" "vstep I s s1 (rc s)" using 2 by (simp_all add: made_post_def)
    have "op_post s (creat_spec v name excl (view h s)) s1 (Inl e)"
      by (rule unchanged_op [OF inv h unchanged_vstep [OF m(3) fs_inv_vstep [OF inv m(2,3)]]]) (use m(1) new in \<open>auto simp: creat_spec_def\<close>)
    then show ?thesis using Inl by simp
  next
    case (Inr w)
    obtain ino where m: "ino \<notin> I" "ino \<noteq> 0" "vol_inv (insert ino I) {} s1" "w \<in> set (sfs_vnodes s1)" "ino_of s1 w = ino" "rc s w = 0"
        "vstep I s s1 ((rc s)(w := 1))" "file_at s1 ino = empty_file SFS_TYPE_FILE" using 2 Inr by (auto simp: made_post_def)
    note inv1 = fs_inv_made [OF inv m(1,3-8)]
    have e1: "env s s1" "rc s1 = (rc s)(w := 1)" "root_file s1 = root_file s" using m(7) treeD(1) [OF fs_invD(2) [OF inv]] by (simp_all add: vstep_def)
    have "v \<noteq> w" using has_refsD [OF h, of v] v(1) m(6) by auto
    then have "0 < rc s1 v" using has_refsD [OF h, of v] v(1) e1(2) by simp
    then have rv: "root_vnode s1 v" using root_kept [OF inv h v e1(1) vol_invD(3) [OF m(3)]] by blast
    have l1: "biglock s1 > 0" using l envD(1) [OF e1(1)] by simp
    have iR: "ino \<noteq> SFS_ROOTDIR_INO" using treeD(1) [OF fs_invD(2) [OF inv]] m(1) by auto
    have "wp (sfs_dir_link v name ino s1) (\<lambda>s r. wp (case r of
                 Inl e \<Rightarrow> do { s \<leftarrow> vnode_decref w s; Some (s, Inl e) }
               | Inr _ \<Rightarrow> Some (change_links (\<lambda>n. n + 1) w s, Inr w)) (op_post s0 (creat_spec v name excl (view h s0))))" if "s0 = s" for s0
    proof (rule wp_mono [OF link_fs [OF inv1 l1 rv nm m(4) m(5)[symmetric] iR]], goal_cases)
      case (1 s2 r2)
      show ?case
      proof (cases r2)
        case (Inl e)
        then have x: "e \<in> {EIO, EFBIG, ENOSPC, ENAMETOOLONG}" "fs_inv (insert ino I) s2" "keeps_files (insert ino I) s1 s2" using 1 new e1(3) by auto
        obtain s3 where s3: "vnode_decref w s2 = Some s3" "unchanged I s s3" using creat_undo [OF inv m(1,4-7) x(2,3)] by blast
        have "op_post s (creat_spec v name excl (view h s)) s3 (Inl e)"
          by (rule unchanged_op [OF inv h s3(2)]) (use x(1) new in \<open>auto simp: creat_spec_def\<close>)
        then show ?thesis using Inl s3(1) that by simp
      next
        case (Inr k)
        let ?s2 = "change_links (\<lambda>n. n + 1) w s2"
        have "f_links (file_at s1 ino) + 1 = 1" using m(8) by (simp add: empty_file_def)
        then have r: "relinked (insert ino I) s1 (insert (name, ino) (dents (root_file s1))) ino 1 ?s2" using 1 Inr by simp
        note mv = made_view [OF inv h m(1,4-8) r]
        have iv: "fs_inv (insert ino I) ?s2" using r by (simp add: relinked_def)
        have "ino \<notin> seen h s" using seen_in [OF inv h] m(1) by blast
        then have "op_post s (creat_spec v name excl (view h s)) ?s2 (Inr w)"
          by (intro op_postI [OF iv mv(1,2)], unfold mv(3)) (use v new m(2,6) iR has_refsD [OF h, of w] in \<open>auto simp: creat_spec_def\<close>)
        then show ?thesis using Inr that by simp
      qed
    qed
    then show ?thesis unfolding Inr by (simp only: sum.case wp_bind m(5))
  qed
qed simp

lemma load_op:
  assumes inv: "fs_inv I s" and h: "has_refs h s" and l: "biglock s > 0" and i: "ino \<in> I" "ino \<in> insert SFS_ROOTDIR_INO (seen h s)"
    and E: "\<And>e. e \<in> {ENOMEM, EIO} \<Longrightarrow> ino \<notin> loaded s \<Longrightarrow> R (Inl e) (view h s)" and K: "\<And>w. R (Inr w) (hold w ino (view h s))"
  shows "wp (sfs_loadvnode ino SFS_TYPE_INVAL s) (op_post s R)"
proof (rule wp_mono [OF loadvnode_fs [OF inv l i(1)]], goal_cases)
  case (1 s' r)
  show ?case
  proof (cases r)
    case (Inl e)
    have "unchanged I s s'" using 1 Inl by (intro unchanged_vstep) (simp_all add: loaded_post_def)
    then show ?thesis by (rule unchanged_op [OF inv h]) (use 1 Inl E in \<open>simp add: loaded_post_def\<close>)
  next
    case (Inr w)
    have w: "vstep I s s' ((rc s)(w := rc s w + 1))" "fs_inv I s'" "w \<in> set (sfs_vnodes s')" "ino = ino_of s' w" using 1 Inr by (auto simp: loaded_post_def)
    note hv = hold_view [OF inv h w i(2)]
    show ?thesis unfolding Inr by (rule op_postI [OF w(2) _ hv(1)], unfold hv(2)) (use w(1) K in \<open>simp_all add: vstep_def\<close>)
  qed
qed

lemma VOP_CREAT_wp:
  assumes inv: "fs_inv I s" and h: "has_refs h s" and v: "0 < h v" and nm: "0 \<notin> set name"
  shows "wp (VOP_CREAT v name excl s) (op_post s (creat_spec v name excl (view h s)))"
proof (cases "ino_of s v = SFS_ROOTDIR_INO")
  case False
  then have "op_post s (creat_spec v name excl (view h s)) s (Inl ENOTDIR)" by (intro same_op [OF inv h]) (simp add: creat_spec_def)
  then show ?thesis unfolding VOP_CREAT_def vop_held [OF inv h v] fails_def using False by simp
next
  case True
  let ?s = "with_lock (Suc (biglock s)) s" and ?P = "creat_spec v name excl (view h s)"
  have inv': "fs_inv I ?s" "has_refs h ?s" "biglock ?s > 0" "root_vnode ?s v" using inv h held_root [OF inv h v True] by (simp_all add: root_vnode_def)
  have vv: "v \<in> set (sfs_vnodes ?s)" "SFS_ROOTDIR_INO = ino_of ?s v" using inv'(4) by (simp_all add: root_vnode_def)
  show ?thesis unfolding VOP_CREAT_def vop_held [OF inv h v] sfs_creat_def if_P [OF True]
  proof (rule locked_op, unfold wp_onok [of "sfs_dir_findname _ _ _"], rule wp_mono [OF findname_wp [OF fs_invD(1) [OF inv'(1)] inv'(3) vv treeD(2) [OF fs_invD(2) [OF inv'(1)]]]], goal_cases)
    case (1 s1 r)
    then have q: "quiet ?s s1" by blast
    note inv1 = fs_inv_quiet [OF inv'(1) q] and v1 = vstep_calm [OF quiet_keeps [OF q], of I]
    note un = unchanged_vstep [OF v1 inv1]
    note uv = unchanged_view [OF inv'(1,2) un]
    have vw: "view h s1 = view h s" and root: "root_file s1 = root_file s" using uv(2) by (simp_all add: quiet_simps [OF q] quiet_cur [OF q])
    have post: "op_post s1 ?P s' r' \<Longrightarrow> op_post ?s ?P s' r'" for s' r'
      using env_world [OF conjunct1 [OF v1 [unfolded vstep_def]]] by (auto simp: op_post_def world_def)
    show ?case
    proof (cases r)
      case (Inl e)
      have "op_post ?s ?P s1 (Inl e)" by (rule unchanged_op [OF inv'(1,2) un]) (use 1 Inl in \<open>simp add: creat_spec_def\<close>)
      then show ?thesis using Inl by simp
    next
      case (Inr x)
      obtain found em where x: "x = (found, em)" by (cases x)
      then have fi: "found_in (root_file s) name {..<nslots (root_file s)} found em" using 1 Inr by simp
      note fd = found_dents [OF fi]
      have l1: "biglock s1 > 0" using quiet_simps [OF q] by simp
      show ?thesis
      proof (cases found)
        case None
        have nw: "name \<notin> fst ` dents (root_file s1)" using fd(1) None root by auto
        have "ino_of s1 v = SFS_ROOTDIR_INO" using True quiet_simps [OF q] by simp
        then have "wp (onok (sfs_makeobj SFS_TYPE_FILE s1) (\<lambda>newguy s. do {
               (s, r) \<leftarrow> sfs_dir_link v name (sv_ino (svs s newguy)) s;
               case r of
                 Inl e \<Rightarrow> do { s \<leftarrow> vnode_decref newguy s; Some (s, Inl e) }
               | Inr _ \<Rightarrow> Some (change_links (\<lambda>n. n + 1) newguy s, Inr newguy) })) (op_post ?s ?P)"
          by (intro wp_mono [OF creat_new_wp [OF inv1 uv(1) v _ l1 nm nw, of excl, unfolded vw]]) (simp_all only: post)
        then show ?thesis unfolding Inr x None by (simp only: sum.case prod.case option.case)
      next
        case (Some y)
        obtain ino k where y: "y = (ino, k)" by (cases y)
        then have k: "(name, ino) \<in> dents (root_file s)" "name \<in> fst ` dents (root_file s)" using fd(2) Some by force+
        show ?thesis
        proof (cases excl)
          case True
          have "op_post ?s ?P s1 (Inl EEXIST)" by (rule unchanged_op [OF inv'(1,2) un]) (use True k(2) in \<open>simp add: creat_spec_def\<close>)
          then show ?thesis using Inr x Some y True by simp
        next
          case False
          have iI: "ino \<in> I" "ino \<in> insert SFS_ROOTDIR_INO (seen h s1)" using treeD(4) [OF fs_invD(2) [OF inv]] named_seen [OF inv1] k(1) root by auto
          have "wp (sfs_loadvnode ino SFS_TYPE_INVAL s1) (op_post s1 ?P)"
            by (rule load_op [OF inv1 uv(1) l1 iI], unfold vw) (use v True False k \<open>ino_of s v = SFS_ROOTDIR_INO\<close> in \<open>auto simp: creat_spec_def\<close>)
          then have "wp (sfs_loadvnode ino SFS_TYPE_INVAL s1) (op_post ?s ?P)" using post by (rule wp_mono)
          then show ?thesis using Inr x Some y False by simp
        qed
      qed
    qed
  qed
qed


section \<open>A new name for a file\<close>

definition link_spec :: "nat \<Rightarrow> byte list \<Rightarrow> nat \<Rightarrow> fsview \<Rightarrow> errno + unit \<Rightarrow> fsview \<Rightarrow> bool" where
  "link_spec v name f V r V' \<longleftrightarrow>
     (case r of
        Inl e \<Rightarrow> V' = V \<and> (e \<in> {EIO, ENOSPC, EFBIG, ENAMETOOLONG} \<or> e = EEXIST \<and> name \<in> fst ` names V
            \<or> e = ENOTDIR \<and> node V v \<noteq> Some SFS_ROOTDIR_INO \<or> e = EINVAL \<and> node V f = Some SFS_ROOTDIR_INO)
      | Inr _ \<Rightarrow> node V v = Some SFS_ROOTDIR_INO \<and> name \<notin> fst ` names V \<and>
          (\<exists>i x. node V f = Some i \<and> files V i = Some x
             \<and> V' = V\<lparr>names := insert (name, i) (names V), files := (files V)(i \<mapsto> x\<lparr>f_links := f_links x + 1\<rparr>)\<rparr>))"

lemma keeps_unchanged: "fs_inv I s' \<Longrightarrow> keeps_files I s s' \<Longrightarrow> unchanged I s s'"
  using unchanged_vstep [OF vstep_calm] by blast

lemma relinked_view:
  assumes inv: "fs_inv I s" and h: "has_refs h s" and r: "relinked I s N i n s'" and N: "\<forall>j. j \<noteq> i \<longrightarrow> j \<in> snd ` N \<longleftrightarrow> j \<in> snd ` dents (root_file s)"
    and i: "i \<in> held h s" "i \<noteq> SFS_ROOTDIR_INO"
  shows "env s s'" "has_refs h s'" "view h s' = (view h s)\<lparr>names := N, files := (files (view h s))(i \<mapsto> (file_at s i)\<lparr>f_links := n\<rparr>)\<rparr>"
proof -
  have inv': "fs_inv I s'" and c: "calm s s'" and D: "dents (root_file s') = N" and fi: "file_at s' i = (file_at s i)\<lparr>f_links := n\<rparr>"
    and fo: "\<And>j. j \<in> I \<Longrightarrow> j \<noteq> SFS_ROOTDIR_INO \<Longrightarrow> j \<noteq> i \<Longrightarrow> file_at s' j = file_at s j" using r by (auto simp: relinked_def)
  show e: "env s s'" using calm_env [OF c] .
  show h': "has_refs h s'" using h calm_rc [OF c] by (simp add: has_refs_def)
  note hd = held_same [OF inv h e inv' h'] and nd = calmD(16) [OF c]
  have "j \<in> snd ` N \<union> held h s \<longleftrightarrow> j \<in> snd ` dents (root_file s) \<union> held h s" for j using N i(1) by (cases "j = i") simp_all
  then have sn: "seen h s' = seen h s" unfolding seen_def hd D by blast
  have si: "i \<in> seen h s" using i by (simp add: seen_def)
  show "view h s' = (view h s)\<lparr>names := N, files := (files (view h s))(i \<mapsto> (file_at s i)\<lparr>f_links := n\<rparr>)\<rparr>"
    by (rule view_eq) (use D sn nd envD(8) [OF e] fi fo seen_in [OF inv h] si in auto)
qed

lemma VOP_LINK_wp:
  assumes inv: "fs_inv I s" and h: "has_refs h s" and v: "0 < h v" "0 < h f" and nm: "0 \<notin> set name"
  shows "wp (VOP_LINK v name f s) (op_post s (link_spec v name f (view h s)))"
proof (cases "ino_of s v = SFS_ROOTDIR_INO")
  case False
  then have "op_post s (link_spec v name f (view h s)) s (Inl ENOTDIR)" by (intro same_op [OF inv h]) (simp add: link_spec_def)
  then show ?thesis unfolding VOP_LINK_def vop_held [OF inv h v(1)] fails_def using False by simp
next
  case True
  let ?s = "with_lock (Suc (biglock s)) s" and ?P = "link_spec v name f (view h s)"
  have inv': "fs_inv I ?s" "has_refs h ?s" "biglock ?s > 0" "root_vnode ?s v" using inv h held_root [OF inv h v(1) True] by (simp_all add: root_vnode_def)
  have fv: "f \<in> set (sfs_vnodes ?s)" using held_vnode [OF inv h v(2)] by simp
  note t = type_of [OF inv'(1) fv]
  show ?thesis unfolding VOP_LINK_def vop_held [OF inv h v(1)] sfs_link_def if_P [OF True]
  proof (rule locked_op, cases "ino_of ?s f = SFS_ROOTDIR_INO")
    case True
    then have "op_post ?s ?P ?s (Inl EINVAL)" by (intro same_op [OF inv'(1,2)]) (use v in \<open>simp add: link_spec_def\<close>)
    then show "wp (if sfi_type (sv_i (svs ?s f)) = SFS_TYPE_DIR then Some (?s, Inl EINVAL)
       else onok (sfs_dir_link v name (ino_of ?s f) ?s) (\<lambda>_ s. Some (change_links (\<lambda>n. n + 1) f s, Inr ()))) (op_post ?s ?P)" using t True by simp
  next
    case fR: False
    have "wp (onok (sfs_dir_link v name (ino_of ?s f) ?s) (\<lambda>_ s. Some (change_links (\<lambda>n. n + 1) f s, Inr ()))) (op_post ?s ?P)"
      unfolding wp_onok
    proof (rule wp_mono [OF link_fs [OF inv'(1,3,4) nm fv refl fR]], goal_cases)
      case (1 s1 r)
      show ?case
      proof (cases r)
        case (Inl e)
        then have "unchanged I ?s s1" using 1 keeps_unchanged by simp
        then have "op_post ?s ?P s1 (Inl e)" by (rule unchanged_op [OF inv'(1,2)]) (use 1 Inl in \<open>auto simp: link_spec_def\<close>)
        then show ?thesis using Inl by simp
      next
        case (Inr k)
        let ?s1 = "change_links (\<lambda>n. n + 1) f s1"
        have r: "relinked I ?s (insert (name, ino_of ?s f) (dents (root_file ?s))) (ino_of ?s f) (f_links (file_at ?s (ino_of ?s f)) + 1) ?s1" and nw: "name \<notin> fst ` dents (root_file ?s)"
          using 1 Inr by auto
        have hd: "ino_of ?s f \<in> held h ?s" using v(2) unfolding held_def by blast
        have NN: "\<forall>j. j \<noteq> ino_of ?s f \<longrightarrow> j \<in> snd ` insert (name, ino_of ?s f) (dents (root_file ?s)) \<longleftrightarrow> j \<in> snd ` dents (root_file ?s)" by auto
        note rv = relinked_view [OF inv'(1,2) r NN hd fR]
        have iv: "fs_inv I ?s1" using r by (simp add: relinked_def)
        have "ino_of s f \<in> seen h s" using hd fR by (auto simp: seen_def held_def)
        then have "op_post ?s ?P ?s1 (Inr ())"
          by (intro op_postI [OF iv rv(1,2)], unfold rv(3)) (use v True nw in \<open>auto simp: link_spec_def\<close>)
        then show ?thesis using Inr by simp
      qed
    qed
    then show "wp (if sfi_type (sv_i (svs ?s f)) = SFS_TYPE_DIR then Some (?s, Inl EINVAL)
       else onok (sfs_dir_link v name (ino_of ?s f) ?s) (\<lambda>_ s. Some (change_links (\<lambda>n. n + 1) f s, Inr ()))) (op_post ?s ?P)"
      using t fR by (simp add: SFS_TYPE_DIR_def SFS_TYPE_FILE_def)
  qed
qed

end
