(* ===== verification/Sfs_Remove.thy ===== *)
theory Sfs_Remove
  imports Sfs_Create
begin

text \<open>
  Giving up a reference and removing a name, as changes of what the client sees.
\<close>

section \<open>A reference less\<close>

text \<open>A file that has no name and that nobody holds is no longer there.\<close>

definition prune :: "fsview \<Rightarrow> fsview" where
  "prune V = V\<lparr>files := (\<lambda>i. if i \<in> snd ` names V \<union> ran (node V) then files V i else None)\<rparr>"

definition release :: "nat \<Rightarrow> fsview \<Rightarrow> fsview" where
  "release v V = prune (V\<lparr>refs := (refs V)(v := refs V v - 1), node := (node V)(v := if refs V v = 1 then None else node V v)\<rparr>)"

lemma ran_node: "ran (node (view h s)) = held h s"
  by (auto simp: ran_def held_def)

lemma release_view:
  assumes inv: "fs_inv I s" and h: "has_refs h s" and v: "0 < h v"
  obtains s' I' where "vnode_decref v s = Some s'" "fs_inv I' s'" "env s s'" "has_refs (h(v := h v - 1)) s'" "view (h(v := h v - 1)) s' = release v (view h s)"
proof -
  let ?i = "ino_of s v" and ?h = "h(v := h v - 1)"
  note vi = fs_invD(1) [OF inv] and t = fs_invD(2) [OF inv] and vv = held_vnode [OF inv h v]
  obtain s' I' where s': "vnode_decref v s = Some s'" "fs_inv I' s'" "env s s'" and rc': "\<And>w. rc s w \<le> rc s' w + (if w = v then 1 else 0)"
      and kp: "\<And>j. j \<in> I \<Longrightarrow> (j = ?i \<Longrightarrow> 1 < rc s v \<or> f_links (file_at s ?i) \<noteq> 0) \<Longrightarrow> j \<in> I' \<and> file_at s' j = file_at s j"
    using decref_fs [OF inv vv refl] by metis
  have h': "has_refs ?h s'" unfolding has_refs_def
  proof
    fix w
    show "?h w \<le> rc s' w" using rc' [of w] has_refsD [OF h, of w] by (cases "w = v") auto
  qed
  have root: "root_file s' = root_file s" using kp [of SFS_ROOTDIR_INO] treeD(1,3) [OF t] by auto
  have nd: "ino_of s' w = ino_of s w" if "0 < ?h w" for w using node_same [OF inv h s'(3,2) h' _ that] that by (auto split: if_splits)
  have hd: "held ?h s' = ino_of s ` {w. 0 < ?h w}" unfolding held_def by (rule image_cong) (use nd in auto)
  have same: "file_at s' j = file_at s j" if j: "j \<in> seen ?h s'" for j
  proof -
    from j have jR: "j \<noteq> SFS_ROOTDIR_INO" and d: "j \<in> snd ` dents (root_file s) \<or> j \<in> ino_of s ` {w. 0 < ?h w}" using root hd by (auto simp: seen_def)
    have jI: "j \<in> I" using d treeD(4) [OF t] held_ino [OF inv h] by (force split: if_splits)
    have "1 < rc s v \<or> f_links (file_at s ?i) \<noteq> 0" if ji: "j = ?i"
    proof (cases "j \<in> snd ` dents (root_file s)")
      case True
      then have "names_of (root_file s) j \<noteq> {}" by (force simp: names_of_def)
      then show ?thesis using treeD(7) [OF t jI jR] ji by simp
    next
      case False
      then obtain w where w: "0 < ?h w" "ino_of s w = ?i" using d ji by auto
      then have "0 < h w" by (auto split: if_splits)
      then have "w = v" using vtab_okD(2) [OF vol_invD(3) [OF vi]] w(2) held_vnode [OF inv h] vv by (auto dest: inj_onD)
      then show ?thesis using w(1) has_refsD [OF h, of v] by simp
    qed
    then show ?thesis using kp [OF jI] by blast
  qed
  have sub: "seen ?h s' \<subseteq> seen h s" unfolding seen_def hd root by (auto simp: held_def split: if_splits)
  have ran: "ran (node (release v (view h s))) = ino_of s ` {w. 0 < ?h w}" by (auto simp: release_def prune_def ran_def)
  have "view ?h s' = release v (view h s)"
  proof (rule view_eq, goal_cases)
    case (5 i)
    then have "i \<in> snd ` dents (root_file s) \<union> ino_of s ` {w. 0 < ?h w}" unfolding seen_def hd root by blast
    then show ?case using ran same [OF 5] sub 5 by (simp add: release_def prune_def subset_iff)
  next
    case (6 i)
    then have "i \<notin> snd ` dents (root_file s) \<union> ino_of s ` {w. 0 < ?h w} \<or> i = SFS_ROOTDIR_INO" unfolding seen_def hd root by blast
    then show ?case using ran by (auto simp: release_def prune_def seen_def)
  qed (use root nd envD(8) [OF s'(3)] in \<open>auto simp: release_def prune_def\<close>)
  then show ?thesis using that s' h' by blast
qed

lemma release_hold:
  assumes "refs V w = 0 \<Longrightarrow> node V w = None" "0 < refs V w \<Longrightarrow> node V w = Some i"
  shows "release w ((hold w i V)\<lparr>names := N, files := F\<rparr>) = prune (V\<lparr>names := N, files := F\<rparr>)"
  using assms by (cases "refs V w = 0") (simp_all add: release_def hold_def fun_upd_idem)


lemma prune_view: "fs_inv I s \<Longrightarrow> prune (view h s) = view h s"
  unfolding prune_def ran_node by (rule fsview.equality) (auto simp: seen_def fun_eq_iff)

section \<open>Removing a name\<close>

definition remove_spec :: "nat \<Rightarrow> byte list \<Rightarrow> fsview \<Rightarrow> errno + unit \<Rightarrow> fsview \<Rightarrow> bool" where
  "remove_spec v name V r V' \<longleftrightarrow>
     (case r of
        Inl e \<Rightarrow> V' = V \<and> (e \<in> {EIO, ENOMEM, ENOSPC} \<or> e = ENOENT \<and> name \<notin> fst ` names V \<or> e = ENOTDIR \<and> node V v \<noteq> Some SFS_ROOTDIR_INO)
      | Inr _ \<Rightarrow> node V v = Some SFS_ROOTDIR_INO \<and>
          (\<exists>i x. (name, i) \<in> names V \<and> files V i = Some x
             \<and> V' = prune (V\<lparr>names := names V - {(name, i)}, files := (files V)(i \<mapsto> x\<lparr>f_links := f_links x - 1\<rparr>)\<rparr>)))"

text \<open>The name has been looked up, and \<open>w\<close> is held for it.\<close>

definition found :: "nat set \<Rightarrow> (nat \<Rightarrow> nat) \<Rightarrow> sfs \<Rightarrow> byte list \<Rightarrow> nat \<Rightarrow> nat \<Rightarrow> nat \<Rightarrow> sfs \<Rightarrow> bool" where
  "found I h s name w k i s1 \<longleftrightarrow> fs_inv I s1 \<and> env s s1 \<and> has_refs (h(w := h w + 1)) s1 \<and> view (h(w := h w + 1)) s1 = hold w i (view h s)
     \<and> w \<in> set (sfs_vnodes s1) \<and> i = ino_of s1 w \<and> (name, i) \<in> dents (root_file s) \<and> root_file s1 = root_file s \<and> file_at s1 i = file_at s i
     \<and> k < nslots (root_file s1) \<and> dino (root_file s1) k = i \<and> dname (root_file s1) k = name \<and> (0 < h w \<longrightarrow> ino_of s w = i) \<and> (\<forall>x. 0 < h x \<longrightarrow> 0 < rc s1 x)"

lemma foundI:
  assumes inv: "fs_inv I s" and h: "has_refs h s" and l: "looked_up I s name s1 (Inr (w, k))"
  shows "found I h s name w k (ino_of s1 w) s1"
proof -
  have x: "fs_inv I s1" "vstep I s s1 ((rc s)(w := rc s w + 1))" "w \<in> set (sfs_vnodes s1)" "(name, ino_of s1 w) \<in> dents (root_file s)"
    "k < nslots (root_file s)" "dino (root_file s) k = ino_of s1 w" "dname (root_file s) k = name" using l by (auto simp: looked_up_def)
  have e: "env s s1" "rc s1 = (rc s)(w := rc s w + 1)" "\<And>i. i \<in> I \<Longrightarrow> file_at s1 i = file_at s i" using x(2) by (auto simp: vstep_def)
  note hv = hold_view [OF inv h x(2,1,3) refl insertI2 [OF named_seen [OF inv x(4)]]]
  have "root_file s1 = root_file s" using e(3) treeD(1) [OF fs_invD(2) [OF inv]] by blast
  moreover have "file_at s1 (ino_of s1 w) = file_at s (ino_of s1 w)" using e(3) treeD(4) [OF fs_invD(2) [OF inv] x(4)] by blast
  moreover have "ino_of s w = ino_of s1 w" if "0 < h w" using node_same [OF inv h e(1) x(1) hv(1) that] by simp
  moreover have "0 < rc s1 y" if "0 < h y" for y using has_refsD [OF h, of y] that e(2) by auto
  ultimately show ?thesis unfolding found_def using x e(1) hv by auto
qed

lemma foundD:
  assumes "found I h s name w k i s1"
  shows "fs_inv I s1" "env s s1" "has_refs (h(w := h w + 1)) s1" "view (h(w := h w + 1)) s1 = hold w i (view h s)"
    "w \<in> set (sfs_vnodes s1)" "i = ino_of s1 w" "(name, i) \<in> dents (root_file s)" "root_file s1 = root_file s" "file_at s1 i = file_at s i"
    "k < nslots (root_file s1)" "dino (root_file s1) k = i" "dname (root_file s1) k = name" "0 < h w \<Longrightarrow> ino_of s w = i" "0 < h x \<Longrightarrow> 0 < rc s1 x"
  using assms by (auto simp: found_def)

text \<open>The reference is given up, whatever has become of the names and the files in between.\<close>

lemma found_release:
  assumes inv: "fs_inv I s" and f: "found I h s name w k i s1"
    and s2: "fs_inv J s2" "env s1 s2" "has_refs (h(w := h w + 1)) s2" "view (h(w := h w + 1)) s2 = (view (h(w := h w + 1)) s1)\<lparr>names := N, files := F\<rparr>"
  obtains s3 J' where "vnode_decref w s2 = Some s3" "fs_inv J' s3" "env s s3" "has_refs h s3" "view h s3 = prune ((view h s)\<lparr>names := N, files := F\<rparr>)"
proof -
  note d = foundD [OF f]
  let ?h = "h(w := h w + 1)"
  have w: "0 < ?h w" "?h(w := ?h w - 1) = h" by auto
  obtain s3 J' where s3: "vnode_decref w s2 = Some s3" "fs_inv J' s3" "env s2 s3" "has_refs h s3" "view h s3 = release w (view ?h s2)"
    using release_view [OF s2(1,3) w(1)] unfolding w(2) by metis
  have "release w (view ?h s2) = prune ((view h s)\<lparr>names := N, files := F\<rparr>)"
    unfolding s2(4) d(4) by (rule release_hold) (use d(13) in auto)
  then show ?thesis using that s3 env_trans [OF env_trans [OF d(2) s2(2)] s3(3)] by metis
qed

lemma view_self: "(view h s)\<lparr>names := dents (root_file s), files := files (view h s)\<rparr> = view h s"
  by (rule fsview.equality) (simp_all add: view_def)

lemma found_undo:
  assumes inv: "fs_inv I s" and f: "found I h s name w k i s1" and s2: "fs_inv I s2" "unchanged I s1 s2"
  obtains s3 J where "vnode_decref w s2 = Some s3" "fs_inv J s3" "env s s3" "has_refs h s3" "view h s3 = view h s"
proof -
  let ?h = "h(w := h w + 1)"
  note d = foundD [OF f]
  note uv = unchanged_view [OF d(1,3) s2(2)]
  have e: "env s1 s2" using s2(2) by (simp add: unchanged_def)
  have vw: "view ?h s2 = (view ?h s1)\<lparr>names := dents (root_file s), files := files (view h s)\<rparr>"
    unfolding uv(2) d(4) by (rule fsview.equality) (simp_all add: hold_def view_def)
  obtain s3 J where s3: "vnode_decref w s2 = Some s3" "fs_inv J s3" "env s s3" "has_refs h s3" "view h s3 = prune (view h s)"
    using found_release [OF inv f s2(1) e uv(1) vw] unfolding view_self by metis
  then show ?thesis using that prune_view [OF inv, of h] by metis
qed

lemma remove_found_wp:
  assumes inv: "fs_inv I s" and h: "has_refs h s" and v: "0 < h v" "ino_of s v = SFS_ROOTDIR_INO" and l: "biglock s > 0" and fd: "found I h s name w k i s1"
  shows "wp (sfs_dir_unlink v k s1) (\<lambda>s2 r2. \<exists>s3 s4. (case r2 of Inl e \<Rightarrow> Some s2 | Inr _ \<Rightarrow> do { kassert (sfi_linkcount (sv_i (svs s2 w)) > 0); Some (change_links (\<lambda>n. n - 1) w s2) }) = Some s3
      \<and> vnode_decref w s3 = Some s4 \<and> op_post s (remove_spec v name (view h s)) s4 r2)"
proof -
  note d = foundD [OF fd]
  have rv: "root_vnode s1 v" using root_kept [OF inv h v d(2) vol_invD(3) [OF fs_invD(1) [OF d(1)]] d(14) [OF v(1)]] .
  have l1: "biglock s1 > 0" using envD(1) [OF d(2)] l by simp
  have iR: "i \<noteq> SFS_ROOTDIR_INO" using treeD(5) [OF fs_invD(2) [OF inv]] d(7) by auto
  have si: "i \<in> seen h s" using named_seen [OF inv] d(7) by simp
  let ?h = "h(w := h w + 1)" and ?P = "remove_spec v name (view h s)"
  show ?thesis
  proof (rule wp_mono [OF unlink_fs [OF d(1) l1 rv d(5,6,10-12)]], goal_cases)
    case (1 s2 r2)
    show ?case
    proof (cases r2)
      case (Inl e)
      then have e: "e \<in> {EIO, ENOSPC}" "fs_inv I s2" "unchanged I s1 s2" using 1 keeps_unchanged by auto
      obtain s3 J where s3: "vnode_decref w s2 = Some s3" "fs_inv J s3" "env s s3" "has_refs h s3" "view h s3 = view h s" using found_undo [OF inv fd e(2,3)] by metis
      have "op_post s ?P s3 r2" by (rule op_postI [OF s3(2-4)], unfold s3(5)) (use Inl e(1) in \<open>auto simp: remove_spec_def\<close>)
      then show ?thesis using Inl s3(1) by simp
    next
      case (Inr y)
      let ?s2 = "change_links (\<lambda>n. n - 1) w s2" and ?N = "dents (root_file s1) - {(name, i)}"
      let ?F = "(files (view ?h s1))(i \<mapsto> (file_at s1 i)\<lparr>f_links := f_links (file_at s1 i) - 1\<rparr>)"
      have rl: "relinked I s1 ?N i (f_links (file_at s1 i) - 1) ?s2" and lk: "0 < sfi_linkcount (sv_i (svs s2 w))" using 1 Inr by auto
      have hd: "i \<in> held ?h s1" unfolding held_def d(6) by (rule imageI) simp
      have NN: "\<forall>j. j \<noteq> i \<longrightarrow> j \<in> snd ` ?N \<longleftrightarrow> j \<in> snd ` dents (root_file s1)" by force
      note rv = relinked_view [OF d(1,3) rl NN hd iR]
      have iv: "fs_inv I ?s2" using rl by (simp add: relinked_def)
      have fl: "files (view ?h s1) = files (view h s)" unfolding d(4) by (simp add: hold_def)
      obtain s3 J where s3: "vnode_decref w ?s2 = Some s3" "fs_inv J s3" "env s s3" "has_refs h s3" "view h s3 = prune ((view h s)\<lparr>names := ?N, files := ?F\<rparr>)"
        using found_release [OF inv fd iv rv] by metis
      have "op_post s ?P s3 (Inr y)"
        by (rule op_postI [OF s3(2-4)], unfold s3(5) fl) (use v d(7-9) si in \<open>auto simp: remove_spec_def\<close>)
      then show ?thesis using Inr lk s3(1) by auto
    qed
  qed
qed

lemma VOP_REMOVE_wp:
  assumes inv: "fs_inv I s" and h: "has_refs h s" and v: "0 < h v"
  shows "wp (VOP_REMOVE v name s) (op_post s (remove_spec v name (view h s)))"
proof (cases "ino_of s v = SFS_ROOTDIR_INO")
  case False
  then have "op_post s (remove_spec v name (view h s)) s (Inl ENOTDIR)" by (intro same_op [OF inv h]) (simp add: remove_spec_def)
  then show ?thesis unfolding VOP_REMOVE_def vop_held [OF inv h v] fails_def using False by simp
next
  case True
  let ?s = "with_lock (Suc (biglock s)) s" and ?P = "remove_spec v name (view h s)"
  have inv': "fs_inv I ?s" "has_refs h ?s" "biglock ?s > 0" "root_vnode ?s v" "ino_of ?s v = SFS_ROOTDIR_INO" using inv h held_root [OF inv h v True] True by (simp_all add: root_vnode_def)
  show ?thesis unfolding VOP_REMOVE_def vop_held [OF inv h v] sfs_remove_def if_P [OF True]
  proof (rule locked_op, unfold wp_onok, rule wp_mono [OF lookonce_wp [OF inv'(1,3,4)]], goal_cases)
    case (1 s1 r)
    show ?case
    proof (cases r)
      case (Inl e)
      then have "op_post ?s ?P s1 (Inl e)" by (intro looked_up_op [OF inv'(1,2) 1]) (auto simp: remove_spec_def)
      then show ?thesis using Inl by simp
    next
      case (Inr x)
      obtain w k where x: "x = (w, k)" by (cases x)
      have fd: "found I h ?s name w k (ino_of s1 w) s1" using foundI [OF inv'(1,2)] 1 Inr x by simp
      show ?thesis unfolding Inr x sum.case prod.case wp_bind
      proof (rule wp_mono [OF remove_found_wp [OF inv'(1,2) v inv'(5,3) fd]], goal_cases)
        case (1 s2 r2)
        then show ?case by (elim exE conjE) simp
      qed
    qed
  qed
qed

end
