(* ===== verification/Sfs_Rename.thy ===== *)
theory Sfs_Rename
  imports Sfs_Remove
begin

text \<open>
  Renaming, on a disk that has no read errors: with one, the recovery of \<^verbatim>\<open>sfs_rename\<close> may fail in turn, which is a panic.
\<close>

section \<open>A disk without read errors\<close>

definition no_faults :: "sfs \<Rightarrow> bool" where
  "no_faults s \<longleftrightarrow> (\<forall>n. \<not> media (disk s) UIO_READ n)"

lemma no_faults_env: "env s s' \<Longrightarrow> no_faults s \<Longrightarrow> no_faults s'"
  by (simp add: no_faults_def envD)

lemma readblock_ok:
  assumes hw: "hw_ok s" and b: "b < lh_blocks (disk s)" and l: "biglock s > 0" and nf: "no_faults s"
  shows "wp (sfs_readblock b s) (\<lambda>s' r. quiet s s' \<and> r = Inr (sect s b))"
proof -
  let ?u = "SFSUIO (kbuf s) b UIO_READ"
  have u: "uio_offset ?u = int b * 512" "uio_resid ?u = 512" "uio_dir ?u = UIO_READ" "uio_segflg ?u = UIO_SYSSPACE" "uio_space ?u = None"
    "uio_iov ?u = [\<lparr>iov_base = kbuf s, iov_len = 512\<rparr>]" by (simp_all add: SFSUIO_def uio_kinit_def SFS_BLOCKSIZE_def)
  have n: "lh_blocks (disk s) < 2 ^ 32" using hw by (simp add: hw_ok_def)
  obtain u' m' where m: "uiomove (lh_buf (disk s)) 512 ?u (kwrite (lh_buf (disk s)) (sect s b) (mach s)) = Some (u', m', Inr ())"
    using uiomove_kernel [OF u(6,2,4,5)] by auto
  have "rwblock_tries 10 ?u s = Some ((u', s\<lparr>disk := (disk s)\<lparr>nops := nops (disk s) + 1\<rparr>, mach := m'\<rparr>), Inr ())"
    using lhd_io_read [OF u(1-3) b n m] nf by (simp add: rwblock_tries.simps no_faults_def)
  then have "wp (sfs_readblock b s) (\<lambda>s' r. \<forall>e. r \<noteq> Inl e)" using l by (simp add: sfs_readblock_def sfs_rwblock_def)
  then show ?thesis by (rule wp_mono [OF wp_conj [OF readblock_wp [OF hw b l]]]) auto
qed

lemma volread_ok: "vol_inv I X s \<Longrightarrow> biglock s > 0 \<Longrightarrow> b < nblks s \<Longrightarrow> no_faults s \<Longrightarrow> wp (sfs_readblock b s) (\<lambda>s' r. quiet s s' \<and> r = Inr (sect s b))"
  using readblock_ok [OF vol_invD(1)] freemap_okD(5) [OF vol_invD(2)] by (meson less_le_trans)

lemma bmap_present:
  assumes inv: "vol_inv I X s" and l: "biglock s > 0" and v: "v \<in> set (sfs_vnodes s)" and nf: "no_faults s"
    and b: "b = fblk (sect s) (cur s (ino_of s v)) k" "b \<noteq> 0"
  shows "wp (sfs_bmap v k da s) (\<lambda>s' r. quiet s s' \<and> r = Inr b)"
proof (cases "k < 15")
  case True
  have "sfi_direct (sv_i (svs s v)) ! k = b" using b(1) True vnode_cur [OF inv v] by (simp add: fblk_def)
  then have "sfs_bmap v k da s = hand_back b s" using True l b(2) by (simp add: sfs_bmap_def SFS_NDIRECT_def)
  then show ?thesis using hand_back_file [OF inv vnode_in [OF inv v] b(1)] by simp
next
  case False
  let ?ib = "sfi_indirect (cur s (ino_of s v))" and ?k = "k - 15"
  have i: "?k < 128" "?ib \<noteq> 0" "words_of (sect s ?ib) ! ?k = b" using b False by (auto simp: fblk_def split: if_splits)
  have e: "sfs_bmap v k da s = onok (sfs_readblock ?ib s) (\<lambda>bs s. if words_of bs ! ?k = 0 \<and> da then
        onok (sfs_balloc s) (\<lambda>block s. onok (sfs_writeblock ?ib (bytes_of ((words_of bs)[?k := block])) s) (\<lambda>_ s. hand_back block s))
      else hand_back (words_of bs ! ?k) s)"
    using False l i vnode_cur [OF inv v] by (simp add: sfs_bmap_def get_idbuf_def SFS_NDIRECT_def SFS_NINDIRECT_def SFS_DBPERIDB_def Let_def onok_def split: option.splits prod.splits sum.splits)
  show ?thesis unfolding e wp_onok [of "sfs_readblock _ _"]
  proof (rule wp_mono [OF volread_ok [OF inv l ind_not_ino(2) [OF inv vnode_in [OF inv v] refl i(2)] nf]], goal_cases)
    case (1 s' r)
    then have q: "quiet s s'" and r: "r = Inr (sect s ?ib)" by auto
    have "b = fblk (sect s') (cur s' (ino_of s v)) k" using b(1) by (simp add: quiet_simps [OF q] quiet_cur [OF q])
    then have "hand_back b s' = Some (s', Inr b)" using hand_back_file [OF vol_inv_quiet [OF q inv] vnode_in [OF inv v]] by blast
    then show ?case using q r i(3) b(2) by simp
  qed
qed

lemma metaio_write_ok:
  assumes inv: "vol_inv I X s" and l: "biglock s > 0" and v: "v \<in> set (sfs_vnodes s)" and nf: "no_faults s"
    and p: "pos mod 512 + length bs \<le> 512" "pos < 2 ^ 31" and b: "fblk (sect s) (cur s (ino_of s v)) (pos div 512) \<noteq> 0"
  shows "wp (sfs_metaio_write v pos bs s) (\<lambda>s' r. r = Inr ())"
proof -
  let ?k = "pos div 512" and ?o = "pos mod 512"
  have k: "u32 ?k = ?k" using p(2) by simp
  have e: "sfs_metaio_write v pos bs s = onok (sfs_bmap v ?k True s) (\<lambda>b s.
      do { kassert (b \<noteq> 0);
        onok (sfs_readblock b s) (\<lambda>bl s. onok (sfs_writeblock b (take ?o bl @ bs @ drop (?o + length bs) bl) s) (\<lambda>_ s.
          Some (if pos + length bs > sfi_size (sv_i (svs s v)) then set_dinode v (\<lambda>d. d\<lparr>sfi_size := u32 (pos + length bs)\<rparr>) s else s, Inr ()))) })"
    using l p(1) k unfolding sfs_metaio_write_def SFS_BLOCKSIZE_def Let_def by simp
  show ?thesis unfolding e wp_onok
  proof (rule wp_mono [OF bmap_present [OF inv l v nf refl b]], goal_cases)
    case (1 s1 r)
    then have q: "quiet s s1" and r: "r = Inr (fblk (sect s) (cur s (ino_of s v)) ?k)" by auto
    let ?b = "fblk (sect s) (cur s (ino_of s v)) ?k"
    note inv1 = vol_inv_quiet [OF q inv]
    have s1: "biglock s1 > 0" "no_faults s1" "sect s1 = sect s" "nblks s1 = nblks s" using l nf by (simp_all add: quiet_simps [OF q] no_faults_def)
    have used: "?b < nblks s1" using fblk_used(1) [OF inv vnode_in [OF inv v] refl b] s1(4) by simp
    have "wp (sfs_readblock ?b s1) (\<lambda>s r. case r of Inl e \<Rightarrow> Inl e = Inr () | Inr bl \<Rightarrow>
        wp (sfs_writeblock ?b (take ?o bl @ bs @ drop (?o + length bs) bl) s) (\<lambda>s r. r = Inr ()))"
    proof (rule wp_mono [OF volread_ok [OF inv1 s1(1) used s1(2)]], goal_cases)
      case (1 s2 r2)
      then have q2: "quiet s1 s2" and r2: "r2 = Inr (sect s ?b)" using s1(3) by auto
      have ls: "length (sect s ?b) = 512" using vol_invD(1) [OF inv] by (simp add: hw_ok_def)
      then have D: "length (take ?o (sect s ?b) @ bs @ drop (?o + length bs) (sect s ?b)) = 512" using p(1) by simp
      have "biglock s2 > 0" "?b < nblks s2" using s1(1) used by (simp_all add: quiet_simps [OF q2])
      then show ?case unfolding r2 sum.case by (intro wp_mono [OF write_wp [OF vol_inv_quiet [OF q2 inv1] _ _ D]]) simp_all
    qed
    then show ?case unfolding r sum.case using b by (auto elim!: wp_mono split: sum.splits)
  qed
qed

lemma unlink_ok:
  assumes inv: "vol_inv I X s" and l: "biglock s > 0" and v: "v \<in> set (sfs_vnodes s)" and nf: "no_faults s" and k: "k * 64 < max_size" "dino (file_at s (ino_of s v)) k \<noteq> 0"
  shows "wp (sfs_dir_unlink v k s) (\<lambda>s' r. r = Inr ())"
proof -
  have b: "fblk (sect s) (cur s (ino_of s v)) (k * 64 div 512) \<noteq> 0"
  proof
    assume z: "fblk (sect s) (cur s (ino_of s v)) (k * 64 div 512) = 0"
    have "f_data (file_at s (ino_of s v)) (k * 64 + j) = 0" if "j < 64" for j
      using block_pos [OF refl, of "k * 64" j] slot_pos [of k] that z by (simp add: file_of_def contents_def)
    then have "file_bytes (file_at s (ino_of s v)) (k * 64) 64 = replicate 64 0" by (intro nth_equalityI) (simp_all add: file_bytes_def)
    then have "dslot (file_at s (ino_of s v)) k = direntry_of (replicate 64 0)" by (simp add: dslot_def)
    then show False using k(2) by (simp add: direntry_of_def get32_def)
  qed
  have k2: "k * 64 < 2 ^ 31" "u32 (k * 64) = k * 64" using k(1) by (simp_all add: max_size_def)
  show ?thesis unfolding sfs_dir_unlink_def sfs_writedir_def
    by (rule wp_mono [OF metaio_write_ok [OF inv l v nf]]) (use b k2 slot_pos [of k] in \<open>simp_all add: DIRENTRY_SIZE_def SFS_NAMELEN_def direntry_bytes_def\<close>)
qed


section \<open>Renaming\<close>

definition rename_spec :: "nat \<Rightarrow> byte list \<Rightarrow> byte list \<Rightarrow> fsview \<Rightarrow> errno + unit \<Rightarrow> fsview \<Rightarrow> bool" where
  "rename_spec v n1 n2 V r V' \<longleftrightarrow>
     (case r of
        Inl e \<Rightarrow> V' = V \<and> (e \<in> {EIO, ENOMEM, ENOSPC, EFBIG, ENAMETOOLONG} \<or> e = ENOENT \<and> n1 \<notin> fst ` names V
            \<or> e = EEXIST \<and> n2 \<in> fst ` names V \<or> e = ENOTDIR \<and> node V v \<noteq> Some SFS_ROOTDIR_INO)
      | Inr _ \<Rightarrow> node V v = Some SFS_ROOTDIR_INO \<and> n2 \<notin> fst ` names V \<and>
          (\<exists>i. (n1, i) \<in> names V \<and> V' = V\<lparr>names := insert (n2, i) (names V - {(n1, i)})\<rparr>))"

text \<open>The state after the second name has been entered; the slot of the first one is where it was.\<close>

lemma rename_linked:
  assumes fd: "found I h s n1 w k i s1" and iR: "i \<noteq> SFS_ROOTDIR_INO" and i0: "i \<noteq> 0" and d0: "dir_ok (root_file s1)"
    and r: "relinked I s1 (insert (n2, i) (dents (root_file s1))) i (f_links (file_at s1 i) + 1) s2"
    and rf: "root_file s2 = set_slot (root_file s1) k2 (entry_of i n2)" and k2: "k2 < nslots (root_file s1) \<longrightarrow> dino (root_file s1) k2 = 0"
    and nm: "length n2 \<le> 59" "i < 2 ^ 32"
  shows "k < nslots (root_file s2)" "dino (root_file s2) k = i" "dname (root_file s2) k = n1"
proof -
  note d = foundD [OF fd]
  have "k \<noteq> k2" using k2 d(10,11) i0 by auto
  moreover have "length (sfd_name (entry_of i n2)) = 60" "sfd_ino (entry_of i n2) < 2 ^ 32" using nm by (simp_all add: entry_of_def)
  ultimately show "dino (root_file s2) k = i" "dname (root_file s2) k = n1" unfolding rf using dslot_set_slot [of "entry_of i n2"] d(11,12) by simp_all
  have "f_size (root_file s1) mod 64 = 0" using d0 by (simp add: dir_ok_def)
  then show "k < nslots (root_file s2)" unfolding rf using nslots_set_slot d(10) by simp
qed

lemma rename_view:
  assumes fd: "found I h s n1 w k i s1" and iR: "i \<noteq> SFS_ROOTDIR_INO" and n: "(n2, i) \<notin> dents (root_file s1)"
    and r: "relinked I s1 (insert (n2, i) (dents (root_file s1))) i (l + 1) s2" "l = f_links (file_at s1 i)"
    and r': "relinked I s2 (dents (root_file s2) - {(n1, i)}) i (l + 1 - 1) s3"
  shows "fs_inv I s3" "env s1 s3" "has_refs (h(w := h w + 1)) s3"
    "view (h(w := h w + 1)) s3 = (view (h(w := h w + 1)) s1)\<lparr>names := insert (n2, i) (dents (root_file s1)) - {(n1, i)}, files := files (view (h(w := h w + 1)) s1)\<rparr>"
proof -
  let ?h = "h(w := h w + 1)"
  note d = foundD [OF fd]
  have hd: "i \<in> held ?h s1" unfolding held_def d(6) by (rule imageI) simp
  have D2: "dents (root_file s2) = insert (n2, i) (dents (root_file s1))" and inv2: "fs_inv I s2" and c2: "calm s1 s2" and f2: "file_at s2 i = (file_at s1 i)\<lparr>f_links := l + 1\<rparr>"
    using r(1) by (auto simp: relinked_def)
  note rv = relinked_view [OF d(1,3) r(1) _ hd iR]
  have NN: "\<forall>j. j \<noteq> i \<longrightarrow> j \<in> snd ` insert (n2, i) (dents (root_file s1)) \<longleftrightarrow> j \<in> snd ` dents (root_file s1)" by auto
  note rv1 = rv [OF NN]
  have hd2: "i \<in> held ?h s2" using held_same [OF d(1,3) rv1(1) inv2 rv1(2)] hd by simp
  have NN2: "\<forall>j. j \<noteq> i \<longrightarrow> j \<in> snd ` (dents (root_file s2) - {(n1, i)}) \<longleftrightarrow> j \<in> snd ` dents (root_file s2)" by force
  note rv2 = relinked_view [OF inv2 rv1(2) r' NN2 hd2 iR]
  show "fs_inv I s3" using r' by (simp add: relinked_def)
  show "env s1 s3" using env_trans [OF rv1(1) rv2(1)] .
  show "has_refs ?h s3" using rv2(2) .
  have fe: "(file_at s2 i)\<lparr>f_links := l + 1 - 1\<rparr> = file_at s1 i" unfolding f2 r(2) by (rule afile.equality) simp_all
  have "files (view ?h s1) i = Some (file_at s1 i)" using hd iR by (simp add: seen_def)
  then have "(files (view ?h s2))(i \<mapsto> file_at s1 i) = files (view ?h s1)" unfolding rv1(3) by (simp add: fun_eq_iff del: view_simps)
  then show "view ?h s3 = (view ?h s1)\<lparr>names := insert (n2, i) (dents (root_file s1)) - {(n1, i)}, files := files (view ?h s1)\<rparr>"
    unfolding rv2(3) fe D2 unfolding rv1(3) by (simp del: view_simps)
qed


lemma rename_found_wp:
  assumes inv: "fs_inv I s" and h: "has_refs h s" and v: "0 < h v" "ino_of s v = SFS_ROOTDIR_INO" and l: "biglock s > 0" and nf: "no_faults s" and nm: "0 \<notin> set n2"
    and fd: "found I h s n1 w k i s1"
  shows "wp (do {
           (s, r) \<leftarrow> sfs_dir_link v n2 i s1;
           case r of
             Inl e \<Rightarrow> do { s \<leftarrow> vnode_decref w s; Some (s, Inl e) }
           | Inr slot2 \<Rightarrow>
               do {
                 (s, r) \<leftarrow> sfs_dir_unlink v k (change_links (\<lambda>n. n + 1) w s);
                 case r of
                   Inl e \<Rightarrow> rename_recover v w slot2 e s
                 | Inr _ \<Rightarrow>
                     do {
                       kassert (sfi_linkcount (sv_i (svs s w)) > 0);
                       s \<leftarrow> vnode_decref w (change_links (\<lambda>n. n - 1) w s);
                       Some (s, Inr ())
                     }
               }
         }) (op_post s (rename_spec v n1 n2 (view h s)))"
proof -
  note d = foundD [OF fd]
  let ?h = "h(w := h w + 1)" and ?P = "rename_spec v n1 n2 (view h s)" and ?D = "dents (root_file s)"
  note vi = fs_invD(1) [OF d(1)] and t = fs_invD(2) [OF d(1)]
  have rv: "root_vnode s1 v" using root_kept [OF inv h v d(2) vol_invD(3) [OF vi] d(14) [OF v(1)]] .
  have l1: "biglock s1 > 0" using envD(1) [OF d(2)] l by simp
  have iR: "i \<noteq> SFS_ROOTDIR_INO" using treeD(5) [OF t] d(7,8) by auto
  have iI: "i \<in> I" using vnode_in [OF vi d(5)] d(6) by simp
  have ib: "i \<noteq> 0" "i < 2 ^ 32" using ino_bound(1,2) [OF vi iI] freemap_okD(6) [OF vol_invD(2) [OF vi]] by simp_all
  show ?thesis unfolding wp_bind
  proof (rule wp_mono [OF link_fs [OF d(1) l1 rv nm d(5,6) iR]], goal_cases)
    case (1 s2 r)
    show ?case
    proof (cases r)
      case (Inl e)
      then have e: "e \<in> {EIO, EFBIG, ENOSPC, ENAMETOOLONG} \<or> e = EEXIST \<and> n2 \<in> fst ` ?D" "fs_inv I s2" "unchanged I s1 s2" using 1 keeps_unchanged d(8) by auto
      obtain s3 J where s3: "vnode_decref w s2 = Some s3" "fs_inv J s3" "env s s3" "has_refs h s3" "view h s3 = view h s" using found_undo [OF inv fd e(2,3)] by metis
      have "op_post s ?P s3 (Inl e)" by (rule op_postI [OF s3(2-4)], unfold s3(5)) (use e(1) in \<open>auto simp: rename_spec_def\<close>)
      then show ?thesis using Inl s3(1) by simp
    next
      case (Inr slot2)
      let ?s2 = "change_links (\<lambda>n. n + 1) w s2"
      have x: "relinked I s1 (insert (n2, i) (dents (root_file s1))) i (f_links (file_at s1 i) + 1) ?s2" "n2 \<notin> fst ` dents (root_file s1)"
        "root_file ?s2 = set_slot (root_file s1) slot2 (entry_of i n2)" "slot2 < nslots (root_file s1) \<longrightarrow> dino (root_file s1) slot2 = 0" "length n2 \<le> 59" using 1 Inr by auto
      note sl = rename_linked [OF fd iR ib(1) treeD(2) [OF t] x(1,3,4,5) ib(2)]
      have c2: "calm s1 ?s2" "fs_inv I ?s2" "file_at ?s2 i = (file_at s1 i)\<lparr>f_links := f_links (file_at s1 i) + 1\<rparr>" using x(1) by (auto simp: relinked_def)
      have s2: "biglock ?s2 > 0" "root_vnode ?s2 v" "w \<in> set (sfs_vnodes ?s2)" "i = ino_of ?s2 w"
        using l1 rv d(5,6) calmD(7,8,16) [OF c2(1)] by (simp_all add: root_vnode_def)
      have vv: "v \<in> set (sfs_vnodes ?s2)" "ino_of ?s2 v = SFS_ROOTDIR_INO" using s2(2) by (simp_all add: root_vnode_def)
      have nf2: "no_faults ?s2" using no_faults_env [OF env_trans [OF d(2) calm_env [OF c2(1)]] nf] .
      have kb: "k * 64 < max_size" using dir_size [OF treeD(2) [OF fs_invD(2) [OF c2(2)]]] sl(1) by simp
      have uk: "wp (sfs_dir_unlink v k ?s2) (\<lambda>s r. r = Inr ())" using unlink_ok [OF fs_invD(1) [OF c2(2)] s2(1) vv(1) nf2 kb] vv(2) sl(2) ib(1) by simp
      show ?thesis unfolding Inr sum.case wp_bind
      proof (rule wp_mono [OF wp_conj [OF unlink_fs [OF c2(2) s2 sl] uk]], goal_cases)
        case (1 s3 r3)
        let ?s3 = "change_links (\<lambda>n. n - 1) w s3"
        have r3: "r3 = Inr ()" and lk: "0 < sfi_linkcount (sv_i (svs s3 w))" and rl: "relinked I ?s2 (dents (root_file ?s2) - {(n1, i)}) i (f_links (file_at s1 i) + 1 - 1) ?s3"
          using 1 c2(3) by auto
        have n2: "(n2, i) \<notin> dents (root_file s1)" using x(2) by force
        note rw = rename_view [OF fd iR n2 x(1) refl rl]
        let ?N = "insert (n2, i) (dents (root_file s1)) - {(n1, i)}"
        obtain s4 J where s4: "vnode_decref w ?s3 = Some s4" "fs_inv J s4" "env s s4" "has_refs h s4" "view h s4 = prune ((view h s)\<lparr>names := ?N, files := files (view ?h s1)\<rparr>)"
          using found_release [OF inv fd rw] by metis
        have N: "?N = insert (n2, i) (?D - {(n1, i)})" "n2 \<noteq> n1" using x(2) d(7,8) by force+
        have "snd ` insert (n2, i) (?D - {(n1, i)}) = snd ` ?D" using d(7) by force
        then have "prune ((view h s)\<lparr>names := insert (n2, i) (?D - {(n1, i)}), files := files (view h s)\<rparr>) = (prune (view h s))\<lparr>names := insert (n2, i) (?D - {(n1, i)})\<rparr>"
          by (intro fsview.equality) (simp_all add: prune_def cong: if_cong)
        moreover have "files (view ?h s1) = files (view h s)" unfolding d(4) by (simp add: hold_def)
        ultimately have vw: "view h s4 = (view h s)\<lparr>names := insert (n2, i) (?D - {(n1, i)})\<rparr>" unfolding s4(5) N(1) using prune_view [OF inv] by simp
        have "op_post s ?P s4 (Inr ())" by (rule op_postI [OF s4(2-4)], unfold vw) (use v x(2) d(7,8) in \<open>auto simp: rename_spec_def\<close>)
        then show ?case using r3 lk s4(1) by simp
      qed
    qed
  qed
qed

lemma VOP_RENAME_wp:
  assumes inv: "fs_inv I s" and h: "has_refs h s" and v: "0 < h v" and nf: "no_faults s" and nm: "0 \<notin> set n2"
  shows "wp (VOP_RENAME v n1 v n2 s) (op_post s (rename_spec v n1 n2 (view h s)))"
proof (cases "ino_of s v = SFS_ROOTDIR_INO")
  case False
  then have "op_post s (rename_spec v n1 n2 (view h s)) s (Inl ENOTDIR)" by (intro same_op [OF inv h]) (simp add: rename_spec_def)
  then show ?thesis unfolding VOP_RENAME_def vop_held [OF inv h v] fails_def using False by simp
next
  case True
  let ?s = "with_lock (Suc (biglock s)) s" and ?P = "rename_spec v n1 n2 (view h s)"
  have inv': "fs_inv I ?s" "has_refs h ?s" "biglock ?s > 0" "root_vnode ?s v" "ino_of ?s v = SFS_ROOTDIR_INO" "no_faults ?s"
    using inv h held_root [OF inv h v True] True nf by (simp_all add: root_vnode_def no_faults_def)
  show ?thesis unfolding VOP_RENAME_def vop_held [OF inv h v] sfs_rename_def if_P [OF True]
  proof (rule locked_op, unfold wp_kassert wp_onok [of "sfs_lookonce _ _ _"], intro conjI refl inv'(5), rule wp_mono [OF lookonce_wp [OF inv'(1,3,4)]], goal_cases)
    case (1 s1 r)
    show ?case
    proof (cases r)
      case (Inl e)
      then have "op_post ?s ?P s1 (Inl e)" by (intro looked_up_op [OF inv'(1,2) 1]) (auto simp: rename_spec_def)
      then show ?thesis using Inl by simp
    next
      case (Inr x)
      obtain w k where x: "x = (w, k)" by (cases x)
      have fd: "found I h ?s n1 w k (ino_of s1 w) s1" using foundI [OF inv'(1,2)] 1 Inr x by simp
      note d = foundD [OF fd]
      have "ino_of s1 w \<noteq> SFS_ROOTDIR_INO" using treeD(5) [OF fs_invD(2) [OF inv'(1)]] d(7) by auto
      then have t: "sfi_type (sv_i (svs s1 w)) = SFS_TYPE_FILE" using type_of [OF d(1,5)] by simp
      show ?thesis unfolding Inr x sum.case prod.case wp_kassert
        using t rename_found_wp [OF inv'(1,2) v inv'(5,3,6) nm fd] by simp
    qed
  qed
qed

end
