(* ===== verification/Sfs_Fileops.thy ===== *)
theory Sfs_Fileops
  imports Sfs_Rename
begin

text \<open>
  The operations on a single file and on references, as changes of what the client sees: truncating, reading, writing, asking about a file, and getting hold of the root.
\<close>

section \<open>Changes of one file\<close>

lemma data_view:
  assumes inv: "fs_inv I s" and h: "has_refs h s" and v: "0 < h v" "ino_of s v \<noteq> SFS_ROOTDIR_INO" and i: "i = ino_of s v" and vi: "vol_inv I {} s'" and c: "calm s s'"
    and o: "\<forall>j\<in>I. j \<noteq> i \<longrightarrow> file_at s' j = file_at s j" and f: "f_type (file_at s' i) = f_type (file_at s i)" "f_links (file_at s' i) = f_links (file_at s i)"
  shows "fs_inv I s'" "has_refs h s'" "view h s' = (view h s)\<lparr>files := (files (view h s))(i \<mapsto> file_at s' i)\<rparr>" "i \<in> seen h s"
proof -
  have iR: "i \<noteq> SFS_ROOTDIR_INO" using v(2) i by simp
  have "tree I (file_at s') (loaded s')" by (rule tree_data [OF fs_invD(2) [OF inv] iR]) (use f o calmD(21) [OF c] in auto)
  then show inv': "fs_inv I s'" using vi by (simp add: fs_inv_def)
  show h': "has_refs h s'" using h calm_rc [OF c] by (simp add: has_refs_def)
  have root: "root_file s' = root_file s" using o treeD(1) [OF fs_invD(2) [OF inv]] iR by auto
  have sn: "seen h s' = seen h s" using held_same [OF inv h calm_env [OF c] inv' h'] root by (simp add: seen_def)
  show si: "i \<in> seen h s" using v iR i by (auto simp: seen_def held_def)
  show "view h s' = (view h s)\<lparr>files := (files (view h s))(i \<mapsto> file_at s' i)\<rparr>"
    by (rule view_eq) (use root sn calmD(16) [OF c] calmD(14) [OF c] o seen_in [OF inv h] si in auto)
qed

definition truncate_spec :: "nat \<Rightarrow> nat \<Rightarrow> fsview \<Rightarrow> errno + unit \<Rightarrow> fsview \<Rightarrow> bool" where
  "truncate_spec v len V r V' \<longleftrightarrow>
     (if node V v = Some SFS_ROOTDIR_INO then r = Inl EISDIR \<and> V' = V
      else \<exists>i f. node V v = Some i \<and> files V i = Some f \<and>
        (case r of
           Inl e \<Rightarrow> e = EIO \<and> (\<exists>d. V' = V\<lparr>files := (files V)(i \<mapsto> f\<lparr>f_data := d\<rparr>)\<rparr>)
         | Inr _ \<Rightarrow> V' = V\<lparr>files := (files V)(i \<mapsto> f\<lparr>f_size := len, f_data := trunc_data ((len + 511) div 512) (f_data f)\<rparr>)\<rparr>))"

lemma VOP_TRUNCATE_wp:
  assumes inv: "fs_inv I s" and h: "has_refs h s" and v: "0 < h v" and len: "len < 2 ^ 32"
  shows "wp (VOP_TRUNCATE v len s) (op_post s (truncate_spec v len (view h s)))"
proof (cases "ino_of s v = SFS_ROOTDIR_INO")
  case True
  then have "op_post s (truncate_spec v len (view h s)) s (Inl EISDIR)" by (intro same_op [OF inv h]) (use v in \<open>simp add: truncate_spec_def\<close>)
  then show ?thesis unfolding VOP_TRUNCATE_def vop_held [OF inv h v] fails_def using True by simp
next
  case False
  show ?thesis unfolding VOP_TRUNCATE_def vop_held [OF inv h v] sfs_truncate_def if_not_P [OF False]
  proof (rule wp_mono [OF itrunc_locked_wp [OF fs_invD(1) [OF inv] held_vnode [OF inv h v] refl len]], goal_cases)
    case (1 s' r)
    then have p: "vol_inv I {} s'" "calm s s'" "\<forall>j\<in>I. j \<noteq> ino_of s v \<longrightarrow> file_at s' j = file_at s j" by (auto simp: itrunc_post_def)
    have f: "f_type (file_at s' (ino_of s v)) = f_type (file_at s (ino_of s v))" "f_links (file_at s' (ino_of s v)) = f_links (file_at s (ino_of s v))"
      using 1 by (auto simp: itrunc_post_def split: sum.splits)
    note d = data_view [OF inv h v False refl p f]
    show ?case by (rule op_postI [OF d(1) calm_env [OF p(2)] d(2)], unfold d(3))
      (use 1 v False d(4) in \<open>auto simp: truncate_spec_def itrunc_post_def split: sum.splits\<close>)
  qed
qed

lemma VOP_FSYNC_wp:
  assumes inv: "fs_inv I s" and h: "has_refs h s" and v: "0 < h v"
  shows "wp (VOP_FSYNC v s) (op_post s (\<lambda>r V'. r = Inr () \<and> V' = view h s))"
proof -
  let ?s = "with_lock (Suc (biglock s)) s"
  have inv': "fs_inv I ?s" "has_refs h ?s" "biglock ?s > 0" "v \<in> set (sfs_vnodes ?s)" using inv h held_vnode [OF inv h v] by simp_all
  have "wp (sfs_sync_inode v ?s) (op_post ?s (\<lambda>r V'. r = Inr () \<and> V' = view h s))"
  proof (rule wp_mono [OF sync_inode_wp [OF fs_invD(1) [OF inv'(1)] inv'(3,4)]], goal_cases)
    case (1 s' r)
    then have "fs_inv I s'" "unchanged I ?s s'" using fs_inv_keeps [OF inv'(1)] keeps_unchanged by blast+
    then show ?case by (intro unchanged_op [OF inv'(1,2)]) (use 1 in simp_all)
  qed
  then show ?thesis unfolding VOP_FSYNC_def vop_held [OF inv h v] sfs_fsync_def by (simp add: locked_op)
qed


section \<open>Questions about a file\<close>

definition kind_of :: "nat \<Rightarrow> file_kind" where
  "kind_of i = (if i = SFS_ROOTDIR_INO then S_IFDIR else S_IFREG)"

definition gettype_spec :: "nat \<Rightarrow> fsview \<Rightarrow> errno + file_kind \<Rightarrow> fsview \<Rightarrow> bool" where
  "gettype_spec v V r V' \<longleftrightarrow> V' = V \<and> (\<exists>i. node V v = Some i \<and> r = Inr (kind_of i))"

lemma gettype_eq:
  assumes inv: "fs_inv I s" and h: "has_refs h s" and v: "0 < h v"
  shows "sfs_gettype v s = Some (s, Inr (kind_of (ino_of s v)))"
proof -
  have "sfi_type (sv_i (svs s v)) = (if ino_of s v = SFS_ROOTDIR_INO then SFS_TYPE_DIR else SFS_TYPE_FILE)" using type_of [OF inv held_vnode [OF inv h v]] .
  then show ?thesis
    by (simp add: sfs_gettype_def locked_def vfs_biglock_acquire_def vfs_biglock_release_def kind_of_def SFS_TYPE_DIR_def SFS_TYPE_FILE_def)
qed

lemma VOP_GETTYPE_wp:
  assumes inv: "fs_inv I s" and h: "has_refs h s" and v: "0 < h v"
  shows "wp (VOP_GETTYPE v s) (op_post s (gettype_spec v (view h s)))"
proof -
  have "op_post s (gettype_spec v (view h s)) s (Inr (kind_of (ino_of s v)))" by (rule same_op [OF inv h]) (use v in \<open>simp add: gettype_spec_def\<close>)
  then show ?thesis unfolding VOP_GETTYPE_def vop_held [OF inv h v] using gettype_eq [OF inv h v] by simp
qed

definition stat_spec :: "nat \<Rightarrow> fsview \<Rightarrow> errno + stat \<Rightarrow> fsview \<Rightarrow> bool" where
  "stat_spec v V r V' \<longleftrightarrow> V' = V \<and> (\<exists>i st. node V v = Some i \<and> r = Inr st \<and> st_mode st = kind_of i \<and> st_blocks st = 0
     \<and> (i \<noteq> SFS_ROOTDIR_INO \<longrightarrow> (\<exists>f. files V i = Some f \<and> st_size st = f_size f \<and> st_nlink st = f_links f \<and> f_links f = card {n. (n, i) \<in> names V})))"

lemma VOP_STAT_wp:
  assumes inv: "fs_inv I s" and h: "has_refs h s" and v: "0 < h v"
  shows "wp (VOP_STAT v s) (op_post s (stat_spec v (view h s)))"
proof -
  let ?i = "ino_of s v" and ?st = "\<lparr>st_size = sfi_size (sv_i (svs s v)), st_mode = kind_of (ino_of s v), st_nlink = sfi_linkcount (sv_i (svs s v)), st_blocks = 0\<rparr>"
  note vv = held_vnode [OF inv h v]
  note ok = vtab_okD(3) [OF vol_invD(3) [OF fs_invD(1) [OF inv]] vv, unfolded vnode_ok_def]
  have "vn_ops (svs s v) \<noteq> No_ops" using ok by (auto simp: vnode_ops_of_def split: if_splits)
  then have e: "sfs_stat v s = Some (s, Inr ?st)" using ok gettype_eq [OF inv h v] by (simp add: sfs_stat_def vnode_check_def onok_def)
  have f: "sfi_size (sv_i (svs s v)) = f_size (file_at s ?i)" "sfi_linkcount (sv_i (svs s v)) = f_links (file_at s ?i)"
    using vnode_cur [OF fs_invD(1) [OF inv] vv] by (simp_all add: file_of_def)
  have "f_links (file_at s ?i) = card {n. (n, ?i) \<in> dents (root_file s)}" "?i \<in> seen h s" if "?i \<noteq> SFS_ROOTDIR_INO"
    using treeD(7) [OF fs_invD(2) [OF inv] vnode_in [OF fs_invD(1) [OF inv] vv] that] v that by (auto simp: names_of_def seen_def held_def)
  then have "op_post s (stat_spec v (view h s)) s (Inr ?st)" by (intro same_op [OF inv h]) (use v f in \<open>simp add: stat_spec_def\<close>)
  then show ?thesis unfolding VOP_STAT_def vop_held [OF inv h v] using e by simp
qed

definition eachopen_spec :: "nat \<Rightarrow> nat \<Rightarrow> fsview \<Rightarrow> errno + unit \<Rightarrow> fsview \<Rightarrow> bool" where
  "eachopen_spec v flags V r V' \<longleftrightarrow> V' = V \<and> (if node V v = Some SFS_ROOTDIR_INO then r = sfs_eachopendir flags else r = Inr ())"

lemma VOP_EACHOPEN_wp:
  assumes inv: "fs_inv I s" and h: "has_refs h s" and v: "0 < h v"
  shows "wp (VOP_EACHOPEN v flags s) (op_post s (eachopen_spec v flags (view h s)))"
proof -
  have "op_post s (eachopen_spec v flags (view h s)) s (if ino_of s v = SFS_ROOTDIR_INO then sfs_eachopendir flags else Inr ())"
    by (rule same_op [OF inv h]) (use v in \<open>simp add: eachopen_spec_def\<close>)
  then show ?thesis unfolding VOP_EACHOPEN_def vop_held [OF inv h v] by (simp split: if_splits)
qed

definition namefile_spec :: "nat \<Rightarrow> fsview \<Rightarrow> errno + unit \<Rightarrow> fsview \<Rightarrow> bool" where
  "namefile_spec v V r V' \<longleftrightarrow> V' = V \<and> r = (if node V v = Some SFS_ROOTDIR_INO then Inr () else Inl ENOTDIR)"

lemma VOP_NAMEFILE_wp:
  assumes inv: "fs_inv I s" and h: "has_refs h s" and v: "0 < h v"
  shows "wp (VOP_NAMEFILE v s) (op_post s (namefile_spec v (view h s)))"
proof -
  have "op_post s (namefile_spec v (view h s)) s (if ino_of s v = SFS_ROOTDIR_INO then Inr () else Inl ENOTDIR)"
    by (rule same_op [OF inv h]) (use v in \<open>simp add: namefile_spec_def\<close>)
  then show ?thesis unfolding VOP_NAMEFILE_def vop_held [OF inv h v] by (simp add: sfs_namefile_def fails_def split: if_splits)
qed

section \<open>References\<close>

lemma incref_view:
  assumes inv: "fs_inv I s" and h: "has_refs h s" and v: "0 < h v"
  shows "fs_inv I (vnode_incref v s)" "env s (vnode_incref v s)" "has_refs (h(v := h v + 1)) (vnode_incref v s)"
    "view (h(v := h v + 1)) (vnode_incref v s) = hold v (ino_of s v) (view h s)"
proof -
  note vv = held_vnode [OF inv h v]
  have e: "vnode_incref v s = set_ref v (rc s v + 1) s" using vv by (simp add: vnode_incref_def set_ref_def rc_def)
  note st = vstep_set_ref [OF vv, of I "rc s v + 1"]
  have inv': "fs_inv I (set_ref v (rc s v + 1) s)" by (rule fs_inv_vstep [OF inv vol_inv_set_ref [OF fs_invD(1) [OF inv]] st]) simp_all
  have "ino_of s v \<in> insert SFS_ROOTDIR_INO (seen h s)" using v by (auto simp: seen_def held_def)
  then show "fs_inv I (vnode_incref v s)" "env s (vnode_incref v s)" "has_refs (h(v := h v + 1)) (vnode_incref v s)"
    "view (h(v := h v + 1)) (vnode_incref v s) = hold v (ino_of s v) (view h s)"
    unfolding e using inv' hold_view [OF inv h st inv'] vv st by (simp_all add: vstep_def)
qed

definition lookparent_spec :: "nat \<Rightarrow> byte list \<Rightarrow> nat \<Rightarrow> fsview \<Rightarrow> errno + nat \<times> byte list \<Rightarrow> fsview \<Rightarrow> bool" where
  "lookparent_spec v path buflen V r V' \<longleftrightarrow>
     (case r of
        Inl e \<Rightarrow> V' = V \<and> (e = ENOTDIR \<and> node V v \<noteq> Some SFS_ROOTDIR_INO \<or> e = ENAMETOOLONG \<and> buflen < length path + 1)
      | Inr (w, p) \<Rightarrow> w = v \<and> p = path \<and> length path + 1 \<le> buflen \<and> node V v = Some SFS_ROOTDIR_INO \<and> V' = hold v SFS_ROOTDIR_INO V)"

lemma VOP_LOOKPARENT_wp:
  assumes inv: "fs_inv I s" and h: "has_refs h s" and v: "0 < h v"
  shows "wp (VOP_LOOKPARENT v path buflen s) (op_post s (lookparent_spec v path buflen (view h s)))"
proof (cases "ino_of s v = SFS_ROOTDIR_INO")
  case False
  then have "op_post s (lookparent_spec v path buflen (view h s)) s (Inl ENOTDIR)" by (intro same_op [OF inv h]) (simp add: lookparent_spec_def)
  then show ?thesis unfolding VOP_LOOKPARENT_def vop_held [OF inv h v] fails_def using False by simp
next
  case True
  let ?s = "with_lock (Suc (biglock s)) s" and ?P = "lookparent_spec v path buflen (view h s)"
  have inv': "fs_inv I ?s" "has_refs h ?s" using inv h by simp_all
  have t: "sfi_type (sv_i (svs ?s v)) = SFS_TYPE_DIR" using type_of [OF inv held_vnode [OF inv h v]] True by simp
  note iv = incref_view [OF inv' v]
  have "op_post ?s ?P (vnode_incref v ?s) (Inr (v, path))" if "length path + 1 \<le> buflen"
    by (rule op_postI [OF iv(1-3)], unfold iv(4)) (use that v True in \<open>simp add: lookparent_spec_def\<close>)
  moreover have "op_post ?s ?P ?s (Inl ENAMETOOLONG)" if "buflen < length path + 1"
    by (rule same_op [OF inv']) (use that in \<open>simp add: lookparent_spec_def\<close>)
  ultimately have "wp (if sfi_type (sv_i (svs ?s v)) \<noteq> SFS_TYPE_DIR then Some (?s, Inl ENOTDIR)
     else if length path + 1 > buflen then Some (?s, Inl ENAMETOOLONG) else Some (vnode_incref v ?s, Inr (v, path))) (op_post ?s ?P)" using t by simp
  then show ?thesis unfolding VOP_LOOKPARENT_def vop_held [OF inv h v] sfs_lookparent_def if_P [OF True] by (rule locked_op)
qed

definition getroot_spec :: "fsview \<Rightarrow> errno + nat \<Rightarrow> fsview \<Rightarrow> bool" where
  "getroot_spec V r V' \<longleftrightarrow> (\<exists>w. r = Inr w \<and> V' = hold w SFS_ROOTDIR_INO V)"

lemma loadvnode_ok:
  assumes inv: "fs_inv I s" and l: "biglock s > 0" and i: "ino \<in> I" and nf: "no_faults s" and m: "\<forall>n. memok s n"
  shows "wp (sfs_loadvnode ino SFS_TYPE_INVAL s) (\<lambda>s' r. \<forall>e. r \<noteq> Inl e)"
proof (rule wpE [OF loadvnode_fs [OF inv l i]], goal_cases)
  case (1 s' r)
  let ?s = "s\<lparr>ticks := Suc (ticks s)\<rparr>"
  note v = fs_invD(1) [OF inv]
  have b: "ino < lh_blocks (disk ?s)" using ino_bound(1) [OF v i] freemap_okD(5) [OF vol_invD(2) [OF v]] by simp
  have "hw_ok ?s" "biglock ?s > 0" "no_faults ?s" using vol_invD(1) [OF v] l nf by (simp_all add: hw_ok_def bufs_ok_def no_faults_def)
  then obtain s1 where s1: "sfs_readblock ino ?s = Some (s1, Inr (sect s ino))" and q: "quiet ?s s1" using readblock_ok [OF _ b] by (auto elim!: wpE)
  have m1: "memok s1 = memok s" using quiet_simps [OF q] by simp
  have "r \<noteq> Inl e" for e
  proof
    assume r: "r = Inl e"
    then have "ino \<notin> loaded s" using 1(2) by (simp add: loaded_post_def)
    then have "find_vnode ino (sfs_vnodes s) s = Some None" using find_vnode_spec [OF v order_refl] by (auto simp: find_None_iff loaded_def)
    then show False using 1(1) s1 m m1 unfolding r sfs_loadvnode_def
      by (auto simp: request_memory_def Let_def onok_def split: option.splits bind_splits if_splits)
  qed
  then show ?case using 1(1) by simp
qed

text \<open>\<^verbatim>\<open>sfs_getroot\<close> panics on every error. There is none when the root is in memory, and none when disk and memory do not fail.\<close>

definition root_ready :: "(nat \<Rightarrow> nat) \<Rightarrow> sfs \<Rightarrow> bool" where
  "root_ready h s \<longleftrightarrow> SFS_ROOTDIR_INO \<in> held h s \<or> no_faults s \<and> (\<forall>n. memok s n)"

lemma load_root:
  assumes inv: "fs_inv I s" and h: "has_refs h s" and l: "biglock s > 0" and v: "root_ready h s"
  shows "wp (sfs_loadvnode SFS_ROOTDIR_INO SFS_TYPE_INVAL s) (\<lambda>s' r. \<exists>w. r = Inr w \<and> sfi_type (sv_i (svs s' w)) = SFS_TYPE_DIR)"
proof -
  have RI: "SFS_ROOTDIR_INO \<in> I" using treeD(1) [OF fs_invD(2) [OF inv]] .
  have "wp (sfs_loadvnode SFS_ROOTDIR_INO SFS_TYPE_INVAL s) (\<lambda>s' r. \<forall>e. r \<noteq> Inl e)"
  proof (cases "SFS_ROOTDIR_INO \<in> held h s")
    case True
    then have "SFS_ROOTDIR_INO \<in> loaded s" using held_vnode [OF inv h] by (auto simp: loaded_def held_def)
    then show ?thesis using loadvnode_fs [OF inv l RI] by (elim wp_mono) (auto simp: loaded_post_def)
  next
    case False
    then show ?thesis using v by (intro loadvnode_ok [OF inv l RI]) (simp_all add: root_ready_def)
  qed
  then show ?thesis
  proof (rule wp_mono [OF wp_conj [OF loadvnode_fs [OF inv l RI]]], goal_cases)
    case (1 s' r)
    then obtain w where w: "r = Inr w" by (cases r) auto
    then have "w \<in> set (sfs_vnodes s')" "ino_of s' w = SFS_ROOTDIR_INO" "fs_inv I s'" using 1 by (auto simp: loaded_post_def)
    then show ?case using w type_of [of I s' w] by simp
  qed
qed

lemma sfs_getroot_wp:
  assumes inv: "fs_inv I s" and h: "has_refs h s" and v: "root_ready h s"
  shows "wp (sfs_getroot s) (op_post s (getroot_spec (view h s)))"
proof -
  let ?s = "with_lock (Suc (biglock s)) s" and ?P = "getroot_spec (view h s)" and ?R = "\<lambda>r V'. (\<exists>e. r = Inl e) \<or> getroot_spec (view h s) r V'"
  have inv': "fs_inv I ?s" "has_refs h ?s" "biglock ?s > 0" "root_ready h ?s" using inv h v by (simp_all add: root_ready_def held_def no_faults_def)
  have RI: "SFS_ROOTDIR_INO \<in> I" using treeD(1) [OF fs_invD(2) [OF inv]] .
  have "wp (sfs_loadvnode SFS_ROOTDIR_INO SFS_TYPE_INVAL ?s) (op_post ?s ?R)"
    by (rule load_op [OF inv'(1-3) RI insertI1]) (simp_all add: getroot_spec_def)
  then have "wp (do {
       (s, r) \<leftarrow> sfs_loadvnode SFS_ROOTDIR_INO SFS_TYPE_INVAL ?s;
       case r of
         Inl e \<Rightarrow> None
       | Inr sv \<Rightarrow> do { kassert (sfi_type (sv_i (svs s sv)) = SFS_TYPE_DIR); Some (s, Inr sv) }
     }) (op_post ?s ?P)" using load_root [OF inv'] unfolding wp_bind
    by (rule wp_mono [OF wp_conj]) (auto simp: op_post_def)
  then show ?thesis unfolding sfs_getroot_def by (rule locked_op)
qed


section \<open>Reading and writing\<close>

definition read_spec :: "nat \<Rightarrow> uio \<Rightarrow> fsview \<Rightarrow> uio \<times> (errno + unit) \<Rightarrow> fsview \<Rightarrow> bool" where
  "read_spec v u V x V' \<longleftrightarrow> (case x of (u', r) \<Rightarrow>
     if node V v = Some SFS_ROOTDIR_INO then r = Inl EISDIR \<and> u' = u \<and> V' = V
     else \<exists>i f us k. node V v = Some i \<and> files V i = Some f \<and> V' = V\<lparr>user := us\<rparr> \<and> k \<le> readable_bytes f u \<and> u' = uadv k u
       \<and> touches (user V) us (ubase u) (readable_bytes f u) \<and> (\<forall>j<k. um us (ubase u + j) = Some (f_data f (nat (uio_offset u) + j)))
       \<and> (case r of Inl e \<Rightarrow> e \<in> {EIO, EFAULT, EFBIG} | Inr _ \<Rightarrow> k = readable_bytes f u))"

definition write_spec :: "nat \<Rightarrow> uio \<Rightarrow> fsview \<Rightarrow> uio \<times> (errno + unit) \<Rightarrow> fsview \<Rightarrow> bool" where
  "write_spec v u V x V' \<longleftrightarrow> (case x of (u', r) \<Rightarrow>
     if node V v = Some SFS_ROOTDIR_INO then r = Inl EISDIR \<and> u' = u \<and> V' = V
     else \<exists>i f k. node V v = Some i \<and> files V i = Some f \<and> k \<le> uio_resid u \<and> u' = uadv k u
       \<and> V' = V\<lparr>files := (files V)(i \<mapsto> f\<lparr>f_size := (if k = 0 then f_size f else max (f_size f) (nat (uio_offset u) + k)),
           f_data := overlay (nat (uio_offset u)) (user_bytes (user V) (ubase u) k) (f_data f)\<rparr>)\<rparr>
       \<and> (case r of Inl e \<Rightarrow> e \<in> {EIO, EFAULT, EFBIG, ENOSPC} | Inr _ \<Rightarrow> k = uio_resid u))"

lemma vop_pair: "fs_inv I s \<Longrightarrow> has_refs h s \<Longrightarrow> 0 < h v \<Longrightarrow> vop v snd fo d (u, s) = (if ino_of s v = SFS_ROOTDIR_INO then d (u, s) else fo (u, s))"
  by (rule vop_at) simp_all

lemma locked_uio_wp:
  assumes "wp (body u (with_lock (Suc (biglock s)) s)) (\<lambda>(u', s') r. biglock s' = Suc (biglock s) \<and> Q (u', with_lock (biglock s) s') r)"
  shows "wp (locked_uio body u s) Q"
  using assms
proof (elim wpE, goal_cases)
  case (1 x r)
  then show ?case by (cases x) (simp add: locked_uio_def vfs_biglock_acquire_def vfs_biglock_release_def with_lock_def)
qed

lemma hush_view:
  assumes inv: "fs_inv I s" and h: "has_refs h s" and q: "hush s s'"
  shows "fs_inv I s'" "has_refs h s'" "world s s'" "view h s' = (view h s)\<lparr>user := uspace (mach s')\<rparr>"
proof -
  note e = hush_simps [OF q]
  have f: "file_at s' i = file_at s i" for i by (simp add: e(1,20))
  have "loaded s' = loaded s" by (simp add: loaded_def e(8,11))
  then show "fs_inv I s'" using vol_inv_hush [OF q] inv by (simp add: fs_inv_def e(1,20))
  have "rc s' = rc s" by (rule ext) (simp add: rc_def e(8,11))
  then show "has_refs h s'" using h by (simp add: has_refs_def)
  show "world s s'" by (simp add: world_def on_disk_def e)
  show "view h s' = (view h s)\<lparr>user := uspace (mach s')\<rparr>" by (rule view_eq) (simp_all add: f e(11) seen_def held_def)
qed

definition io_legal :: "uio_rw \<Rightarrow> uio \<Rightarrow> sfs \<Rightarrow> bool" where
  "io_legal rw u s \<longleftrightarrow> user_uio rw u (mach s) \<and> 0 \<le> uio_offset u \<and> uio_offset u + int (uio_resid u) < 2 ^ 41"

lemma VOP_READ_wp:
  assumes inv: "fs_inv I s" and h: "has_refs h s" and v: "0 < h v" and io: "io_legal UIO_READ u s"
  shows "wp (VOP_READ v (u, s)) (\<lambda>(u', s') r. op_post s (read_spec v u (view h s)) s' (u', r))"
proof (cases "ino_of s v = SFS_ROOTDIR_INO")
  case True
  then have "op_post s (read_spec v u (view h s)) s (u, Inl EISDIR)" by (intro same_op [OF inv h]) (use v in \<open>simp add: read_spec_def\<close>)
  then show ?thesis unfolding VOP_READ_def vop_pair [OF inv h v] fails_def using True by simp
next
  case False
  let ?s = "with_lock (Suc (biglock s)) s" and ?i = "ino_of s v"
  have dir: "uio_dir u = UIO_READ" using io user_uioD(1) unfolding io_legal_def by blast
  have pre: "io_pre UIO_READ I {} v ?i u ?s" using inv io held_vnode [OF inv h v] by (simp add: io_pre_def io_legal_def fs_inv_def)
  have "wp (sfs_io v u ?s) (\<lambda>(u', s') r. biglock s' = Suc (biglock s) \<and> op_post s (read_spec v u (view h s)) (with_lock (biglock s) s') (u', r))"
  proof (rule wp_mono [OF io_read_wp [OF pre]], goal_cases)
    case (1 x r)
    obtain u' s' where x: "x = (u', s')" by (cases x)
    have q: "hush ?s s'" using 1 x by (simp add: read_post_def)
    note hv = hush_view [where I = I and h = h, OF _ _ q]
    have sn: "?i \<in> seen h s" using v False by (auto simp: seen_def held_def)
    let ?f = "file_at s ?i"
    obtain k where k: "k \<le> readable_bytes ?f u" "u' = uadv k u" "\<forall>j<k. um (uspace (mach s')) (ubase u + j) = Some (f_data ?f (nat (uio_offset u) + j))"
        "case r of Inl e \<Rightarrow> e \<in> {EIO, EFAULT, EFBIG} | Inr _ \<Rightarrow> k = readable_bytes ?f u" and t: "touches (uspace (mach s)) (uspace (mach s')) (ubase u) (readable_bytes ?f u)"
      using 1 [unfolded x read_post_def prod.case with_lock_simps cur_with_lock] by blast
    have "op_post ?s (read_spec v u (view h s)) s' (u', r)" unfolding op_post_def
    proof (intro exI [of _ I] exI [of _ h] conjI)
      have vw: "view h s' = (view h s)\<lparr>user := uspace (mach s')\<rparr>" using hv(4) inv h by simp
      have "\<exists>i f us k. node (view h s) v = Some i \<and> files (view h s) i = Some f \<and> (view h s)\<lparr>user := uspace (mach s')\<rparr> = (view h s)\<lparr>user := us\<rparr> \<and> k \<le> readable_bytes f u \<and> u' = uadv k u
         \<and> touches (user (view h s)) us (ubase u) (readable_bytes f u) \<and> (\<forall>j<k. um us (ubase u + j) = Some (f_data f (nat (uio_offset u) + j)))
         \<and> (case r of Inl e \<Rightarrow> e \<in> {EIO, EFAULT, EFBIG} | Inr _ \<Rightarrow> k = readable_bytes f u)"
        by (rule exI [of _ ?i], rule exI [of _ ?f], rule exI [of _ "uspace (mach s')"], rule exI [of _ k], intro conjI refl) (use v sn k t in simp_all)
      then show "read_spec v u (view h s) (u', r) (view h s')" unfolding read_spec_def vw prod.case using False by simp
    qed (use hv inv h in simp_all)
    then show ?case using x op_post_lock by fastforce
  qed
  then show ?thesis unfolding VOP_READ_def vop_pair [OF inv h v] using False dir by (simp add: sfs_read_def locked_uio_wp)
qed

lemma VOP_WRITE_wp:
  assumes inv: "fs_inv I s" and h: "has_refs h s" and v: "0 < h v" and io: "io_legal UIO_WRITE u s"
  shows "wp (VOP_WRITE v (u, s)) (\<lambda>(u', s') r. op_post s (write_spec v u (view h s)) s' (u', r))"
proof (cases "ino_of s v = SFS_ROOTDIR_INO")
  case True
  then have "op_post s (write_spec v u (view h s)) s (u, Inl EISDIR)" by (intro same_op [OF inv h]) (use v in \<open>simp add: write_spec_def\<close>)
  then show ?thesis unfolding VOP_WRITE_def vop_pair [OF inv h v] fails_def using True by simp
next
  case False
  let ?s = "with_lock (Suc (biglock s)) s" and ?i = "ino_of s v"
  have dir: "uio_dir u = UIO_WRITE" using io user_uioD(1) unfolding io_legal_def by blast
  have pre: "io_pre UIO_WRITE I {} v ?i u ?s" using inv io held_vnode [OF inv h v] by (simp add: io_pre_def io_legal_def fs_inv_def)
  have "wp (sfs_io v u ?s) (\<lambda>(u', s') r. biglock s' = Suc (biglock s) \<and> op_post s (write_spec v u (view h s)) (with_lock (biglock s) s') (u', r))"
  proof (rule wp_mono [OF io_write_wp [OF pre]], goal_cases)
    case (1 x r)
    obtain u' s' where x: "x = (u', s')" by (cases x)
    obtain k where p: "vol_inv I {} s'" "calm ?s s'" "\<forall>j\<in>I. j \<noteq> ino_of ?s v \<longrightarrow> file_at s' j = file_at ?s j"
      and k: "k \<le> uio_resid u" "u' = uadv k u" "case r of Inl e \<Rightarrow> e \<in> {EIO, EFAULT, EFBIG, ENOSPC} | Inr _ \<Rightarrow> k = uio_resid u"
      and f: "file_at s' ?i = (file_at s ?i)\<lparr>f_size := (if k = 0 then f_size (file_at s ?i) else max (f_size (file_at s ?i)) (nat (uio_offset u) + k)),
         f_data := overlay (nat (uio_offset u)) (user_bytes (uspace (mach s)) (ubase u) k) (f_data (file_at s ?i))\<rparr>"
      using 1 [unfolded x written_def prod.case] unfolding with_lock_simps cur_with_lock by blast
    have inv': "fs_inv I ?s" "has_refs h ?s" "ino_of ?s v \<noteq> SFS_ROOTDIR_INO" using inv h False by simp_all
    have tl: "f_type (file_at s' (ino_of ?s v)) = f_type (file_at ?s (ino_of ?s v))" "f_links (file_at s' (ino_of ?s v)) = f_links (file_at ?s (ino_of ?s v))"
      unfolding with_lock_simps cur_with_lock f by simp_all
    note d = data_view [OF inv'(1,2) v inv'(3) refl p tl]
    let ?f = "file_at s ?i"
    have sn: "?i \<in> seen h s" using v False by (auto simp: seen_def held_def)
    have vw: "view h s' = (view h s)\<lparr>files := (files (view h s))(?i \<mapsto> file_at s' ?i)\<rparr>" using d(3) by simp
    have "\<exists>i f k. node (view h s) v = Some i \<and> files (view h s) i = Some f \<and> k \<le> uio_resid u \<and> u' = uadv k u
         \<and> view h s' = (view h s)\<lparr>files := (files (view h s))(i \<mapsto> f\<lparr>f_size := (if k = 0 then f_size f else max (f_size f) (nat (uio_offset u) + k)),
             f_data := overlay (nat (uio_offset u)) (user_bytes (user (view h s)) (ubase u) k) (f_data f)\<rparr>)\<rparr>
         \<and> (case r of Inl e \<Rightarrow> e \<in> {EIO, EFAULT, EFBIG, ENOSPC} | Inr _ \<Rightarrow> k = uio_resid u)"
      unfolding vw f view_simps(3) by (rule exI [of _ ?i], rule exI [of _ ?f], rule exI [of _ k], intro conjI refl k) (use v sn in simp_all)
    then have sp: "write_spec v u (view h s) (u', r) (view h s')" unfolding write_spec_def prod.case using False by simp
    have "op_post ?s (write_spec v u (view h s)) s' (u', r)" by (rule op_postI [OF d(1) calm_env [OF p(2)] d(2)]) (rule sp)
    then show ?case using x op_post_lock by fastforce
  qed
  then show ?thesis unfolding VOP_WRITE_def vop_pair [OF inv h v] using False dir by (simp add: sfs_write_def locked_uio_wp)
qed

end
