(* ===== verification/Sfs_Sync.thy ===== *)
theory Sfs_Sync
  imports Sfs_Fileops
begin

text \<open>
  \<^verbatim>\<open>sfs_sync\<close>: what it writes to the disk, and that it changes nothing a client sees.
\<close>

section \<open>Writing to the blocks of the volume itself\<close>

lemma set_sector_meta:
  assumes inv: "vol_inv I X s" and b: "b \<in> meta (nblks s)" and d: "length d = 512"
  shows "vol_inv I X (set_sector b d s)" "i \<in> I \<Longrightarrow> cur (set_sector b d s) i = cur s i" "i \<in> I \<Longrightarrow> file_at (set_sector b d s) i = file_at s i"
proof -
  note o = vol_invD(7) [OF inv]
  have ni: "b \<notin> I" using ino_bound(4) [OF inv] b by blast
  show c: "cur (set_sector b d s) i = cur s i" if "i \<in> I" for i using that ni by (intro cur_set_sector) auto
  have ind: "sfi_indirect (cur s i) = 0 \<or> sfi_indirect (cur s i) \<noteq> b" if "i \<in> I" for i by (rule own_not_ind [OF o _ that]) (use b in blast)
  have "places I (set_sector b d s) = occ (sect (set_sector b d s)) (cur s) I" by (rule occ_inodes_cong) (rule c)
  also have "\<dots> = places I s" unfolding set_sector_simps by (rule occ_write) (rule ind)
  finally have p: "places I (set_sector b d s) = places I s" .
  have "ino_of s v \<noteq> b" if "v \<in> set (sfs_vnodes s)" for v using vnode_in [OF inv that] ni by auto
  then have "vtab_ok (set_sector b d s)" using vol_invD(3) [OF inv] by (simp add: vtab_ok_def vnode_ok_def)
  moreover have "freemap_ok (set_sector b d s) = freemap_ok s" by (simp only: freemap_ok_def set_sector_simps)
  ultimately show "vol_inv I X (set_sector b d s)"
    using set_sector_hw [OF vol_invD(1) [OF inv] d] vol_invD(2,4-7) [OF inv] c unfolding vol_inv_def vol_base_def p by simp
  have fb: "fblk (sect s) (cur s i) k = b \<longrightarrow> b = 0" if "i \<in> I" for i k
    using ownD(6) [OF o, of "(i, place_of k)"] b that by (auto simp: fblk_place)
  have "contents ((sect s)(b := d)) (cur s i) off = contents (sect s) (cur s i) off" if "i \<in> I" for i off
    using contents_write [OF ind [OF that], of "sect s" d off] fb [OF that, of "off div 512"] by auto
  then show "file_at (set_sector b d s) i = file_at s i" if "i \<in> I" unfolding c [OF that] using that by (intro file_eqI) simp_all
qed

text \<open>A state that differs in blocks of the volume itself.\<close>

definition meta_written_to :: "nat set \<Rightarrow> (nat \<Rightarrow> byte list) \<Rightarrow> sfs \<Rightarrow> sfs \<Rightarrow> bool" where
  "meta_written_to I S s s' \<longleftrightarrow> vol_inv I {} s' \<and> sect s' = S \<and> (\<forall>i\<in>I. cur s' i = cur s i \<and> file_at s' i = file_at s i) \<and> loaded s' = loaded s \<and> svs s' = svs s \<and> sfs_vnodes s' = sfs_vnodes s
     \<and> sfs_sb s' = sfs_sb s \<and> sfs_superdirty s' = sfs_superdirty s \<and> sfs_device s' = sfs_device s \<and> sfs_freemap s' = sfs_freemap s \<and> sfs_freemapdirty s' = sfs_freemapdirty s
     \<and> biglock s' = biglock s \<and> memok s' = memok s \<and> ticks s' = ticks s \<and> lh_blocks (disk s') = lh_blocks (disk s) \<and> media (disk s') = media (disk s)
     \<and> uspace (mach s') = uspace (mach s) \<and> curas (mach s') = curas (mach s)"

lemma write_meta_wp:
  assumes inv: "vol_inv I {} s" and l: "biglock s > 0" and b: "b \<in> meta (nblks s)" "b < nblks s" and d: "length d = 512"
  shows "wp (sfs_writeblock b d s) (\<lambda>s' r. r = Inr () \<and> meta_written_to I ((sect s)(b := d)) s s')"
proof (rule wp_mono [OF write_wp [OF inv l b(2) d]], goal_cases)
  case (1 s' r)
  then have q: "quiet (set_sector b d s) s'" by blast
  note w = set_sector_meta [OF inv b(1) d]
  have f: "file_at s' i = file_at (set_sector b d s) i" "cur s' i = cur (set_sector b d s) i" for i by (simp_all add: quiet_simps [OF q] quiet_cur [OF q])
  have "\<forall>i\<in>I. cur s' i = cur s i \<and> file_at s' i = file_at s i" using f w(2,3) by metis
  note x = this
  have e: "sect s' = (sect s)(b := d)" "loaded s' = loaded s" "svs s' = svs s" "sfs_vnodes s' = sfs_vnodes s" "sfs_sb s' = sfs_sb s" "sfs_superdirty s' = sfs_superdirty s"
    "sfs_device s' = sfs_device s" "sfs_freemap s' = sfs_freemap s" "sfs_freemapdirty s' = sfs_freemapdirty s" "biglock s' = biglock s" "memok s' = memok s" "ticks s' = ticks s"
    "lh_blocks (disk s') = lh_blocks (disk s)" "media (disk s') = media (disk s)" "uspace (mach s') = uspace (mach s)" "curas (mach s') = curas (mach s)"
    by (simp_all add: quiet_simps [OF q] quiet_loaded [OF q])
  show ?case unfolding meta_written_to_def using 1 vol_inv_quiet [OF q w(1)] x e by blast
qed

lemma meta_written_trans:
  assumes "meta_written_to I S s s1" "meta_written_to I S' s1 s2"
  shows "meta_written_to I S' s s2"
proof -
  have "\<forall>i\<in>I. cur s2 i = cur s i \<and> file_at s2 i = file_at s i" using assms unfolding meta_written_to_def by metis
  then show ?thesis using assms unfolding meta_written_to_def by simp
qed

lemma freemapbits:
  assumes "nb \<le> 2 ^ 23"
  shows "SFS_FREEMAPBITS nb = (nb + 4095) div 4096 * 4096" "SFS_FREEMAPBLOCKS nb = (nb + 4095) div 4096"
proof -
  have "(nb + 4095) div 4096 * 4096 \<le> nb + 4095" by (rule div_times_less_eq_dividend)
  then have "(nb + 4095) div 4096 * 4096 < 2 ^ 32" using assms by simp
  then show "SFS_FREEMAPBITS nb = (nb + 4095) div 4096 * 4096" using assms by (simp add: SFS_FREEMAPBITS_def SFS_BITSPERBLOCK_def SFS_BLOCKSIZE_def)
  then show "SFS_FREEMAPBLOCKS nb = (nb + 4095) div 4096" by (simp add: SFS_FREEMAPBLOCKS_def SFS_BITSPERBLOCK_def SFS_BLOCKSIZE_def)
qed

lemma freemap_length:
  assumes "freemap_ok s"
  shows "length (bm_v (sfs_freemap s)) = SFS_FREEMAPBLOCKS (nblks s) * 512"
proof -
  note f = freemap_okD [OF assms]
  have "length (bm_v (sfs_freemap s)) = (bm_nbits (sfs_freemap s) + 7) div 8" using f(1) by (simp add: bitmap_ok_def)
  then show ?thesis unfolding f(2) freemapbits [OF f(6)] by simp
qed

text \<open>The freemap on the disk lies within the volume.\<close>

lemma freemap_blocks:
  assumes inv: "vol_inv I X s" and j: "j < SFS_FREEMAPBLOCKS (nblks s)" and n: "SFS_FREEMAP_START + SFS_FREEMAPBLOCKS (nblks s) \<le> nblks s"
  shows "SFS_FREEMAP_START + j \<in> meta (nblks s)" "SFS_FREEMAP_START + j < nblks s" "length (freemap_block (sfs_freemap s) j) = 512"
proof -
  show "SFS_FREEMAP_START + j \<in> meta (nblks s)" "SFS_FREEMAP_START + j < nblks s" using j n by (simp_all add: meta_def)
  have "j * 512 + 512 \<le> SFS_FREEMAPBLOCKS (nblks s) * 512" using j by simp
  then show "length (freemap_block (sfs_freemap s) j) = 512" using freemap_length [OF vol_invD(2) [OF inv]] by (simp add: freemap_block_def)
qed

lemma freemap_write_wp:
  assumes "vol_inv I {} s" "biglock s > 0" "\<forall>j\<in>set js. j < SFS_FREEMAPBLOCKS (nblks s)" "SFS_FREEMAP_START + SFS_FREEMAPBLOCKS (nblks s) \<le> nblks s"
  shows "wp (freemap_write js s) (\<lambda>s' r. r = Inr () \<and>
    meta_written_to I (\<lambda>b. if b \<in> (+) SFS_FREEMAP_START ` set js then freemap_block (sfs_freemap s) (b - SFS_FREEMAP_START) else sect s b) s s')"
  using assms
proof (induction js arbitrary: s)
  case Nil
  then show ?case by (simp add: meta_written_to_def)
next
  case (Cons j js)
  let ?d = "freemap_block (sfs_freemap s) j"
  note b = freemap_blocks [OF Cons.prems(1) _ Cons.prems(4), of j]
  have e: "freemap_write (j # js) s = onok (sfs_writeblock (SFS_FREEMAP_START + j) ?d s) (\<lambda>_ s. freemap_write js s)"
    by (simp add: freemap_block_def SFS_BLOCKSIZE_def)
  have bj: "SFS_FREEMAP_START + j \<in> meta (nblks s)" "SFS_FREEMAP_START + j < nblks s" "length ?d = 512" using b Cons.prems(3) by simp_all
  show ?case unfolding e wp_onok
  proof (rule wp_mono [OF write_meta_wp [OF Cons.prems(1,2) bj]], goal_cases)
    case (1 s1 r)
    then have r: "r = Inr ()" and m: "meta_written_to I ((sect s)(SFS_FREEMAP_START + j := ?d)) s s1" by auto
    have s1: "vol_inv I {} s1" "biglock s1 > 0" "sfs_sb s1 = sfs_sb s" "sfs_freemap s1 = sfs_freemap s" "sect s1 = (sect s)(SFS_FREEMAP_START + j := ?d)" using m Cons.prems(2) by (simp_all add: meta_written_to_def)
    have "wp (freemap_write js s1) (\<lambda>s' r. r = Inr () \<and>
        meta_written_to I (\<lambda>b. if b \<in> (+) SFS_FREEMAP_START ` set (j # js) then freemap_block (sfs_freemap s) (b - SFS_FREEMAP_START) else sect s b) s s')"
    proof (rule wp_mono [OF Cons.IH], goal_cases)
      case (5 s2 r2)
      have "(\<lambda>b. if b \<in> (+) SFS_FREEMAP_START ` set js then freemap_block (sfs_freemap s1) (b - SFS_FREEMAP_START) else sect s1 b)
          = (\<lambda>b. if b \<in> (+) SFS_FREEMAP_START ` set (j # js) then freemap_block (sfs_freemap s) (b - SFS_FREEMAP_START) else sect s b)"
        unfolding s1(4,5) by (auto simp: fun_eq_iff)
      then show ?case using 5 meta_written_trans [OF m] by simp
    qed (use s1 Cons.prems in simp_all)
    then show ?case using r by simp
  qed
qed


section \<open>Sync\<close>

text \<open>What \<^verbatim>\<open>VOP_FSYNC\<close> does to the inodes, which no client sees.\<close>

lemma fsync_wp:
  assumes inv: "fs_inv I s" and v: "v \<in> set (sfs_vnodes s)"
  obtains s' where "VOP_FSYNC v s = Some (s', Inr ())" "fs_inv I s'" "calm s s'" "\<And>i. i \<in> I \<Longrightarrow> file_at s' i = file_at s i"
    "\<not> sv_dirty (svs s' v)" "\<And>w. w \<noteq> v \<Longrightarrow> svs s' w = svs s w"
proof -
  let ?h = "\<lambda>w. if w = v then 1 else 0 :: nat" and ?s = "with_lock (Suc (biglock s)) s"
  have "0 < rc s v" using rc_pos [OF vol_invD(3) [OF fs_invD(1) [OF inv]]] v by blast
  then have h: "has_refs ?h s" "0 < ?h v" by (auto simp: has_refs_def)
  have inv': "vol_inv I {} ?s" "biglock ?s > 0" "v \<in> set (sfs_vnodes ?s)" using fs_invD(1) [OF inv] v by simp_all
  have e: "VOP_FSYNC v s = locked (sfs_sync_inode v) s" unfolding VOP_FSYNC_def vop_held [OF inv h] by (simp add: sfs_fsync_def)
  show ?thesis
  proof (rule wpE [OF sync_inode_wp [OF inv']])
    fix s1 r
    assume s1: "sfs_sync_inode v ?s = Some (s1, r)" and p: "r = Inr () \<and> vol_inv I {} s1 \<and> keeps_files I ?s s1 \<and> cur s1 = cur ?s \<and> sfs_freemap s1 = sfs_freemap ?s
      \<and> dinode_of (sect s1 (ino_of ?s v)) = sv_i (svs s1 v) \<and> \<not> sv_dirty (svs s1 v) \<and> (\<forall>w. w \<noteq> v \<longrightarrow> svs s1 w = svs ?s w)
      \<and> (\<forall>b. b \<noteq> ino_of ?s v \<longrightarrow> sect s1 b = sect ?s b) \<and> sfs_freemapdirty s1 = sfs_freemapdirty ?s"
    have c: "calm ?s s1" "\<And>i. i \<in> I \<Longrightarrow> file_at s1 i = file_at s i" using p by (auto simp: keeps_files_def)
    have "biglock s1 = Suc (biglock s)" using calmD(8) [OF c(1)] by simp
    then have x: "VOP_FSYNC v s = Some (with_lock (biglock s) s1, Inr ())"
      unfolding e using s1 p by (simp add: locked_def vfs_biglock_acquire_def vfs_biglock_release_def with_lock_def)
    have i: "fs_inv I (with_lock (biglock s) s1)" using fs_inv_keeps [of I ?s s1] inv p by simp
    show ?thesis by (rule that [OF x i calm_with_lock [OF c(1)]]) (use c(2) p in simp_all)
  qed
qed

lemma fsync_loop:
  assumes "fs_inv I s" "set vs \<subseteq> set (sfs_vnodes s)"
  shows "\<exists>s'. fold_opt (\<lambda>v s. do { (s, _) \<leftarrow> VOP_FSYNC v s; Some s }) vs s = Some s' \<and> fs_inv I s' \<and> calm s s' \<and> (\<forall>i\<in>I. file_at s' i = file_at s i)
    \<and> (\<forall>w. w \<in> set vs \<or> \<not> sv_dirty (svs s w) \<longrightarrow> \<not> sv_dirty (svs s' w))"
  using assms
proof (induction vs arbitrary: s)
  case Nil
  then show ?case by simp
next
  case (Cons v vs)
  then have v: "v \<in> set (sfs_vnodes s)" by simp
  obtain s1 where s1: "VOP_FSYNC v s = Some (s1, Inr ())" "fs_inv I s1" "calm s s1" "\<And>i. i \<in> I \<Longrightarrow> file_at s1 i = file_at s i"
    "\<not> sv_dirty (svs s1 v)" "\<And>w. w \<noteq> v \<Longrightarrow> svs s1 w = svs s w" using fsync_wp [OF Cons.prems(1) v] by blast
  have "set vs \<subseteq> set (sfs_vnodes s1)" using Cons.prems(2) calmD(7) [OF s1(3)] by simp
  then obtain s2 where s2: "fold_opt (\<lambda>v s. do { (s, _) \<leftarrow> VOP_FSYNC v s; Some s }) vs s1 = Some s2" "fs_inv I s2" "calm s1 s2" "\<forall>i\<in>I. file_at s2 i = file_at s1 i"
      "\<forall>w. w \<in> set vs \<or> \<not> sv_dirty (svs s1 w) \<longrightarrow> \<not> sv_dirty (svs s2 w)" using Cons.IH [OF s1(2)] by blast
  have "\<not> sv_dirty (svs s2 w)" if "w \<in> set (v # vs) \<or> \<not> sv_dirty (svs s w)" for w
    using s2(5) s1(5) s1(6) [of w] that by (cases "w = v") auto
  then show ?case using s1(1,4) s2(1,2,4) calm_trans [OF s1(3) s2(3)] by simp
qed

lemma clear_freemapdirty:
  "cur (s\<lparr>sfs_freemapdirty := b\<rparr>) = cur s" "vol_inv I X (s\<lparr>sfs_freemapdirty := b\<rparr>) = vol_inv I X s" "loaded (s\<lparr>sfs_freemapdirty := b\<rparr>) = loaded s"
proof -
  let ?s = "s\<lparr>sfs_freemapdirty := b\<rparr>"
  show c: "cur ?s = cur s" by (rule ext) (simp add: cur_def split: option.split)
  show l: "loaded ?s = loaded s" by (simp add: loaded_def)
  have "hw_ok ?s = hw_ok s" "freemap_ok ?s = freemap_ok s" "vtab_ok ?s = vtab_ok s"
    by (simp_all add: hw_ok_def bufs_ok_def freemap_ok_def vtab_ok_def vnode_ok_def)
  then show "vol_inv I X ?s = vol_inv I X s" unfolding vol_inv_def vol_base_def c l by simp
qed

definition synced :: "nat set \<Rightarrow> sfs \<Rightarrow> sfs \<Rightarrow> bool" where
  "synced I s s' \<longleftrightarrow> fs_inv I s' \<and> on_disk s' \<and> \<not> sfs_freemapdirty s' \<and> (\<forall>v\<in>set (sfs_vnodes s'). \<not> sv_dirty (svs s' v))
     \<and> (\<forall>i\<in>I. file_at s' i = file_at s i) \<and> rc s' = rc s \<and> (\<forall>v. ino_of s' v = ino_of s v) \<and> sfs_vnodes s' = sfs_vnodes s \<and> sfs_sb s' = sfs_sb s \<and> sfs_superdirty s' = sfs_superdirty s
     \<and> sfs_device s' = sfs_device s \<and> biglock s' = biglock s \<and> memok s' = memok s \<and> ticks s' = ticks s \<and> lh_blocks (disk s') = lh_blocks (disk s) \<and> media (disk s') = media (disk s)
     \<and> uspace (mach s') = uspace (mach s) \<and> curas (mach s') = curas (mach s)"

lemma sfs_sync_wp:
  assumes inv: "fs_inv I s" and d: "on_disk s"
  shows "wp (sfs_sync s) (\<lambda>s' r. r = Inr () \<and> synced I s s')"
  unfolding sfs_sync_def
proof (rule locked_wp)
  let ?s = "with_lock (Suc (biglock s)) s"
  have inv0: "fs_inv I ?s" "on_disk ?s" "biglock ?s > 0" using inv d by simp_all
  obtain s1 where s1: "fold_opt (\<lambda>v s. do { (s, _) \<leftarrow> VOP_FSYNC v s; Some s }) (sfs_vnodes ?s) ?s = Some s1" "fs_inv I s1" "calm ?s s1" "\<forall>i\<in>I. file_at s1 i = file_at ?s i"
      "\<forall>w\<in>set (sfs_vnodes ?s). \<not> sv_dirty (svs s1 w)" using fsync_loop [OF inv0(1) order_refl] by blast
  note c1 = calmD [OF s1(3)]
  have d1: "on_disk s1" by (rule on_disk_kept [OF c1(22) c1(4,5) inv0(2)])
  have sup: "\<not> sfs_superdirty s1" "SFS_FREEMAP_START + SFS_FREEMAPBLOCKS (nblks s1) \<le> nblks s1" using d1 by (simp_all add: on_disk_def)
  let ?Q = "\<lambda>s' r. biglock s' = Suc (biglock s) \<and> r = Inr () \<and> synced I s (with_lock (biglock s) s')"
  have "wp (if sfs_freemapdirty s1 then onok (sfs_freemapio UIO_WRITE s1) (\<lambda>_ s. Some (s\<lparr>sfs_freemapdirty := False\<rparr>, Inr ())) else Some (s1, Inr ()))
     (\<lambda>s' r. r = Inr () \<and> ?Q s' r)"
  proof (cases "sfs_freemapdirty s1")
    case False
    then show ?thesis using s1 d1 c1 calm_rc [OF s1(3)] by (simp add: synced_def)
  next
    case True
    let ?n = "SFS_FREEMAPBLOCKS (nblks s1)"
    have l1: "biglock s1 > 0" using c1(8) by simp
    have js: "\<forall>j\<in>set [0..<?n]. j < ?n" by simp
    have e: "sfs_freemapio UIO_WRITE s1 = freemap_write [0..<?n] s1" by (simp add: sfs_freemapio_def Let_def)
    show ?thesis unfolding if_P [OF True] e wp_onok
    proof (rule wp_mono [OF freemap_write_wp [OF fs_invD(1) [OF s1(2)] l1 js sup(2)]], goal_cases)
      case (1 s2 r)
      let ?s3 = "s2\<lparr>sfs_freemapdirty := False\<rparr>"
      have m: "meta_written_to I (\<lambda>b. if b \<in> (+) SFS_FREEMAP_START ` set [0..<?n] then freemap_block (sfs_freemap s1) (b - SFS_FREEMAP_START) else sect s1 b) s1 s2" and r: "r = Inr ()" using 1 by auto
      note m' = m [unfolded meta_written_to_def]
      have v3: "vol_inv I {} ?s3" unfolding clear_freemapdirty using m' by blast
      have f2: "\<forall>i\<in>I. file_at s2 i = file_at s1 i" using m' by blast
      have f3: "\<forall>i\<in>I. file_at ?s3 i = file_at s1 i" using f2 by (simp only: clear_freemapdirty) simp
      have e2: "svs s2 = svs s1" "sfs_vnodes s2 = sfs_vnodes s1" "sfs_sb s2 = sfs_sb s1" "sfs_superdirty s2 = sfs_superdirty s1" "sfs_device s2 = sfs_device s1" "sfs_freemap s2 = sfs_freemap s1"
        "biglock s2 = biglock s1" "memok s2 = memok s1" "ticks s2 = ticks s1" "lh_blocks (disk s2) = lh_blocks (disk s1)" "media (disk s2) = media (disk s1)"
        "uspace (mach s2) = uspace (mach s1)" "curas (mach s2) = curas (mach s1)" using m' by blast+
      have f: "\<forall>i\<in>I. file_at (with_lock (biglock s) ?s3) i = file_at s i" using f3 s1(4) by simp
      have l3: "loaded ?s3 = loaded s1" unfolding clear_freemapdirty using m' by blast
      have "tree I (file_at ?s3) (loaded ?s3)" unfolding l3 using tree_cong [OF fs_invD(2) [OF s1(2)], of "file_at ?s3"] f3 by blast
      then have i3: "fs_inv I ?s3" using v3 by (simp add: fs_inv_def)
      have "SFS_FREEMAP_START \<noteq> 0" by (simp add: SFS_FREEMAP_START_def)
      then have d3: "on_disk ?s3" using d1 m' by (auto simp: on_disk_def Let_def)
      have "rc ?s3 = rc s1" by (rule ext) (simp add: rc_def e2(1,2))
      then have r3: "rc ?s3 = rc s" using calm_rc [OF s1(3)] by simp
      have "synced I s (with_lock (biglock s) ?s3)" unfolding synced_def
        by (intro conjI f) (use i3 d3 r3 s1(5) e2 c1(1,2,4-8,9,10,14-16) in simp_all)
      then show ?case using r e2(7) c1(8) by simp
    qed
  qed
  then show "wp (do {
       s \<leftarrow> fold_opt (\<lambda>v s. do { (s, _) \<leftarrow> VOP_FSYNC v s; Some s }) (sfs_vnodes ?s) ?s;
       onok
         (if sfs_freemapdirty s then
            onok (sfs_freemapio UIO_WRITE s) (\<lambda>_ s. Some (s\<lparr>sfs_freemapdirty := False\<rparr>, Inr ()))
          else Some (s, Inr ()))
         (\<lambda>_ s.
           if sfs_superdirty s then
             onok (sfs_writeblock SFS_SUPER_BLOCK (superblock_bytes (sfs_sb s)) s) (\<lambda>_ s. Some (s\<lparr>sfs_superdirty := False\<rparr>, Inr ()))
           else Some (s, Inr ()))
     }) ?Q"
    unfolding s1(1) bind.bind_lunit wp_onok [of "if _ then _ else _"]
  proof (rule wp_mono, goal_cases)
    case (1 s2 r)
    then have "\<not> sfs_superdirty s2" by (auto simp: synced_def on_disk_def)
    then show ?case using 1 by simp
  qed
qed

end
