(* ===== verification/Sfs_Mount.thy ===== *)
theory Sfs_Mount
  imports Sfs_Sync
begin

text \<open>
  Unmounting and mounting: a volume that was written back is found again on the disk, with every file it had.
\<close>

section \<open>Unmounting\<close>

lemma unmount_spec:
  assumes v: "sfs_vnodes s = []" and d: "on_disk s" "\<not> sfs_freemapdirty s"
  shows "sfs_unmount s = Some (s\<lparr>sfs_device := False\<rparr>, Inr ())"
  using v d by (simp add: sfs_unmount_def sfs_fs_destroy_def locked_def vfs_biglock_acquire_def vfs_biglock_release_def on_disk_def)

section \<open>Mounting\<close>

text \<open>Reading the freemap, block by block, over whatever the bitmap was before.\<close>

lemma quiet_freemap:
  assumes q: "quiet s s1" and f: "sfs_freemap s1 = sfs_freemap s"
  shows "quiet (s\<lparr>sfs_freemap := fm\<rparr>) (s1\<lparr>sfs_freemap := fm'\<rparr>) \<longleftrightarrow> fm' = fm"
proof -
  obtain n k where "s1 = s\<lparr>disk := (disk s)\<lparr>nops := n\<rparr>, mach := (mach s)\<lparr>kmem := k\<rparr>\<rparr>" "\<forall>a. a \<notin> scratch s \<longrightarrow> k a = kmem (mach s) a" using q by (auto simp: quiet_def)
  then have "quiet (s\<lparr>sfs_freemap := fm\<rparr>) (s1\<lparr>sfs_freemap := fm\<rparr>)" unfolding quiet_def by (intro exI [of _ n] exI [of _ k]) (simp add: scratch_def)
  moreover have "fm' = fm" if "quiet (s\<lparr>sfs_freemap := fm\<rparr>) (s1\<lparr>sfs_freemap := fm'\<rparr>)" using quiet_simps [OF that] by simp
  ultimately show ?thesis by blast
qed

lemma freemap_read_wp:
  assumes "hw_ok s" "biglock s > 0" "no_faults s" "\<forall>j. k \<le> j \<and> j < k + n \<longrightarrow> SFS_FREEMAP_START + j < lh_blocks (disk s) \<and> sect s (SFS_FREEMAP_START + j) = take 512 (drop (j * 512) T)"
    and "length T = (k + n) * 512" "length (bm_v (sfs_freemap s)) = length T" "take (k * 512) (bm_v (sfs_freemap s)) = take (k * 512) T"
  shows "wp (freemap_read [k..<k + n] s) (\<lambda>s' r. r = Inr () \<and> quiet (s\<lparr>sfs_freemap := (sfs_freemap s)\<lparr>bm_v := T\<rparr>\<rparr>) s')"
  using assms
proof (induction n arbitrary: k s)
  case 0
  then have "bm_v (sfs_freemap s) = T" by simp
  then have "s\<lparr>sfs_freemap := (sfs_freemap s)\<lparr>bm_v := T\<rparr>\<rparr> = s" by simp
  then show ?case by simp
next
  case (Suc n)
  let ?d = "take 512 (drop (k * 512) T)" and ?v = "bm_v (sfs_freemap s)"
  let ?w = "take (k * 512) ?v @ ?d @ drop ((k + 1) * 512) ?v"
  have b: "SFS_FREEMAP_START + k < lh_blocks (disk s)" "sect s (SFS_FREEMAP_START + k) = ?d" using Suc.prems(4) by auto
  have e: "freemap_read [k..<k + Suc n] s = onok (sfs_readblock (SFS_FREEMAP_START + k) s) (\<lambda>b s.
       let v = bm_v (sfs_freemap s) in
       freemap_read [Suc k..<Suc k + n] (s\<lparr>sfs_freemap := (sfs_freemap s)\<lparr>bm_v := take (k * SFS_BLOCKSIZE) v @ b @ drop ((k + 1) * SFS_BLOCKSIZE) v\<rparr>\<rparr>))"
    by (simp add: upt_conv_Cons del: upt_Suc)
  show ?case unfolding e wp_onok
  proof (rule wp_mono [OF readblock_ok [OF Suc.prems(1) b(1) Suc.prems(2,3)]], goal_cases)
    case (1 s1 r)
    then have q: "quiet s s1" and r: "r = Inr ?d" using b(2) by auto
    let ?s2 = "s1\<lparr>sfs_freemap := (sfs_freemap s1)\<lparr>bm_v := ?w\<rparr>\<rparr>"
    have fm: "sfs_freemap s1 = sfs_freemap s" using quiet_simps [OF q] by simp
    have hw: "hw_ok ?s2" using quiet_hw [OF q Suc.prems(1)] by (simp add: hw_ok_def bufs_ok_def)
    have lw: "length ?w = length T" and tk: "take (Suc k * 512) ?w = take (Suc k * 512) T"
    proof -
      have l: "length ?d = 512" "length (take (k * 512) ?v) = k * 512" using Suc.prems(5,6) by simp_all
      then show "length ?w = length T" using Suc.prems(5,6) by simp
      have "take (Suc k * 512) ?w = take (k * 512) T @ ?d" using l Suc.prems(7) by simp
      also have "\<dots> = take (k * 512 + 512) T" by (rule take_add [symmetric])
      finally show "take (Suc k * 512) ?w = take (Suc k * 512) T" by (simp add: add.commute)
    qed
    have "wp (freemap_read [Suc k..<Suc k + n] ?s2) (\<lambda>s' r. r = Inr () \<and> quiet (?s2\<lparr>sfs_freemap := (sfs_freemap ?s2)\<lparr>bm_v := T\<rparr>\<rparr>) s')"
    proof (rule Suc.IH [OF hw])
      show "biglock ?s2 > 0" "no_faults ?s2" using Suc.prems(2,3) by (simp_all add: quiet_simps [OF q] no_faults_def)
      show "\<forall>j. Suc k \<le> j \<and> j < Suc k + n \<longrightarrow> SFS_FREEMAP_START + j < lh_blocks (disk ?s2) \<and> sect ?s2 (SFS_FREEMAP_START + j) = take 512 (drop (j * 512) T)"
        using Suc.prems(4) by (simp add: quiet_simps [OF q])
      show "length T = (Suc k + n) * 512" "length (bm_v (sfs_freemap ?s2)) = length T" "take (Suc k * 512) (bm_v (sfs_freemap ?s2)) = take (Suc k * 512) T"
        using Suc.prems(5) lw tk by simp_all
    qed
    moreover have "quiet (s\<lparr>sfs_freemap := (sfs_freemap s)\<lparr>bm_v := T\<rparr>\<rparr>) (?s2\<lparr>sfs_freemap := (sfs_freemap ?s2)\<lparr>bm_v := T\<rparr>\<rparr>)"
      using quiet_freemap [OF q fm] fm by simp
    ultimately have "wp (freemap_read [Suc k..<Suc k + n] ?s2) (\<lambda>s' r. r = Inr () \<and> quiet (s\<lparr>sfs_freemap := (sfs_freemap s)\<lparr>bm_v := T\<rparr>\<rparr>) s')"
      using quiet_trans by (elim wp_mono) blast
    then show ?case by (simp only: r sum.case Let_def SFS_BLOCKSIZE_def fm)
  qed
qed

text \<open>
  A machine that has just started: the disk is that of \<open>s\<close>, the memory of the volume is whatever it is. What mounting
  makes of it is the volume \<open>s\<close> with nothing loaded, provided \<open>s\<close> was written back.
\<close>

definition rebooted :: "sfs \<Rightarrow> sfs \<Rightarrow> bool" where
  "rebooted s t \<longleftrightarrow> hw_ok t \<and> no_faults t \<and> sect t = sect s \<and> lh_blocks (disk t) = lh_blocks (disk s) \<and> (\<forall>k<4. memok t (ticks t + k))"

lemma cur_clean:
  assumes inv: "vol_inv I X s" and c: "\<forall>v\<in>set (sfs_vnodes s). \<not> sv_dirty (svs s v)"
  shows "cur s i = dinode_of (sect s i)"
proof (cases "i \<in> loaded s")
  case True
  then obtain v where v: "v \<in> set (sfs_vnodes s)" "i = ino_of s v" by (auto simp: loaded_def)
  have "dinode_of (sect s (ino_of s v)) = sv_i (svs s v)" using vtab_okD(3) [OF vol_invD(3) [OF inv] v(1)] c v(1) by (auto simp: vnode_ok_def)
  then show ?thesis using cur_loaded [OF vol_invD(3) [OF inv] v(1)] v(2) by simp
qed (rule cur_unloaded)

lemma fs_inv_fresh:
  assumes inv: "fs_inv I s" and c: "\<forall>v\<in>set (sfs_vnodes s). \<not> sv_dirty (svs s v)" and n: "\<forall>i\<in>I. 0 < f_links (file_at s i)"
    and t: "hw_ok t" "sfs_vnodes t = []" "sect t = sect s" "sfs_sb t = sfs_sb s" "sfs_freemap t = sfs_freemap s" "lh_blocks (disk t) = lh_blocks (disk s)"
  shows "fs_inv I t" "file_at t i = file_at s i"
proof -
  note v = fs_invD(1) [OF inv]
  have e: "cur t = cur s" by (rule ext) (simp add: cur_clean [OF v c] cur_unloaded loaded_def t(2,3))
  have "vtab_ok t" "loaded t = {}" by (simp_all add: vtab_ok_def loaded_def t(2))
  moreover have "freemap_ok t" using vol_invD(2) [OF v] unfolding freemap_ok_def t(4-6) .
  ultimately have "vol_inv I {} t" using t(1) vol_invD(5-7) [OF v] unfolding vol_inv_def vol_base_def e t(3-5) by simp
  moreover have "tree I (file_at t) {}" using fs_invD(2) [OF inv] n unfolding tree_def e t(3) by auto
  ultimately show "fs_inv I t" using \<open>loaded t = {}\<close> by (simp add: fs_inv_def)
  show "file_at t i = file_at s i" unfolding e t(3) ..
qed

lemma read_freemap_wp:
  assumes f: "freemap_ok s" and d: "on_disk s" "\<not> sfs_freemapdirty s"
    and t: "hw_ok t" "biglock t > 0" "no_faults t" "sect t = sect s" "lh_blocks (disk t) = lh_blocks (disk s)" "sfs_sb t = sfs_sb s"
    and b: "bitmap_ok (sfs_freemap t)" "bm_nbits (sfs_freemap t) = SFS_FREEMAPBITS (nblks s)"
  shows "wp (sfs_freemapio UIO_READ t) (\<lambda>t' r. r = Inr () \<and> quiet (t\<lparr>sfs_freemap := sfs_freemap s\<rparr>) t')"
proof -
  let ?n = "SFS_FREEMAPBLOCKS (nblks s)" and ?T = "bm_v (sfs_freemap s)"
  note fo = freemap_okD [OF f]
  have l: "length ?T = (0 + ?n) * 512" using freemap_length [OF f] by simp
  have l': "length (bm_v (sfs_freemap t)) = length ?T" using b fo(1,2) by (simp add: bitmap_ok_def)
  have e: "sfs_freemapio UIO_READ t = freemap_read [0..<0 + ?n] t" by (simp add: sfs_freemapio_def t(6))
  have j: "\<forall>j. 0 \<le> j \<and> j < 0 + ?n \<longrightarrow> SFS_FREEMAP_START + j < lh_blocks (disk t) \<and> sect t (SFS_FREEMAP_START + j) = take 512 (drop (j * 512) ?T)"
    using d fo(5) by (auto simp: on_disk_def freemap_block_def t(4,5))
  have "(sfs_freemap t)\<lparr>bm_v := ?T\<rparr> = sfs_freemap s" using b(2) fo(2) by (cases "sfs_freemap s", cases "sfs_freemap t") simp
  then show ?thesis unfolding e using freemap_read_wp [OF t(1-3) j l l'] by simp
qed

text \<open>What \<^verbatim>\<open>sfs_domount\<close> does with the superblock it has read.\<close>

lemma mount_volume_wp:
  assumes inv: "fs_inv I s" and c: "\<forall>v\<in>set (sfs_vnodes s). \<not> sv_dirty (svs s v)" and n: "\<forall>i\<in>I. 0 < f_links (file_at s i)"
    and d: "on_disk s" "\<not> sfs_freemapdirty s"
    and t: "hw_ok t" "biglock t > 0" "no_faults t" "sect t = sect s" "lh_blocks (disk t) = lh_blocks (disk s)" "sfs_sb t = sfs_sb s"
      "sfs_vnodes t = []" "\<not> sfs_superdirty t" "\<not> sfs_freemapdirty t"
    and b: "bitmap_ok (sfs_freemap t)" "bm_nbits (sfs_freemap t) = SFS_FREEMAPBITS (nblks s)"
  shows "wp (sfs_freemapio UIO_READ t) (\<lambda>s' r. r = Inr () \<and> fs_inv I s' \<and> on_disk s' \<and> (\<forall>i. file_at s' i = file_at s i) \<and> sfs_vnodes s' = [] \<and> biglock s' = biglock t)"
proof (rule wp_mono [OF read_freemap_wp [OF vol_invD(2) [OF fs_invD(1) [OF inv]] d t(1-6) b]], goal_cases)
  case (1 s' r)
  then have q: "quiet (t\<lparr>sfs_freemap := sfs_freemap s\<rparr>) s'" by blast
  have "hw_ok (t\<lparr>sfs_freemap := sfs_freemap s\<rparr>)" using t(1) by (simp add: hw_ok_def bufs_ok_def)
  then have hw: "hw_ok s'" by (rule quiet_hw [OF q])
  have e: "sfs_vnodes s' = []" "sect s' = sect s" "sfs_sb s' = sfs_sb s" "sfs_freemap s' = sfs_freemap s" "lh_blocks (disk s') = lh_blocks (disk s)" "biglock s' = biglock t" "\<not> sfs_superdirty s'" "\<not> sfs_freemapdirty s'"
    using t(4-9) by (simp_all add: quiet_simps [OF q])
  note x = fs_inv_fresh [OF inv c n hw e(1-5)]
  have "on_disk s'" using d unfolding on_disk_def e(2-4) using e(7,8) by blast
  then show ?case using 1 x(1) e(1,6) x(2) by blast
qed

lemma remount_wp:
  assumes inv: "fs_inv I s" and c: "\<forall>v\<in>set (sfs_vnodes s). \<not> sv_dirty (svs s v)" and n: "\<forall>i\<in>I. 0 < f_links (file_at s i)"
    and d: "on_disk s" "\<not> sfs_freemapdirty s" and t: "rebooted s t"
  shows "wp (sfs_domount SFS_BLOCKSIZE t) (\<lambda>s' r. r = Inr () \<and> fs_inv I s' \<and> on_disk s' \<and> (\<forall>i. file_at s' i = file_at s i) \<and> sfs_vnodes s' = [] \<and> biglock s' = biglock t)"
  unfolding sfs_domount_def
proof (rule locked_wp, goal_cases)
  case 1
  note f = vol_invD(2) [OF fs_invD(1) [OF inv]] note fo = freemap_okD [OF f]
  let ?t = "with_lock (Suc (biglock t)) t"
  have m: "memok t (ticks t)" "memok t (Suc (ticks t))" "memok t (Suc (Suc (ticks t)))" "memok t (Suc (Suc (Suc (ticks t))))"
    using t [unfolded rebooted_def] by (auto dest: spec [of _ 0] spec [of _ 1] spec [of _ 2] spec [of _ 3] simp: numeral_eq_Suc)
  let ?u = "?t\<lparr>sfs_superdirty := False, sfs_device := False, ticks := Suc (Suc (ticks t)), sfs_vnodes := [], sfs_freemapdirty := False\<rparr>"
  let ?t1 = "?u\<lparr>sfs_device := True\<rparr>"
  have create: "sfs_fs_create ?t = (?u, True)" using m(1,2) by (simp add: sfs_fs_create_def request_memory_def Let_def with_lock_def)
  have se: "sect t = sect s" "lh_blocks (disk t) = lh_blocks (disk s)" and hwt: "hw_ok t" "no_faults t" using t by (simp_all add: rebooted_def)
  have hw: "hw_ok ?t1" "biglock ?t1 > 0" "no_faults ?t1" using hwt by (simp_all add: hw_ok_def bufs_ok_def no_faults_def with_lock_def)
  have l0: "SFS_SUPER_BLOCK < lh_blocks (disk ?t1)" using d(1) fo(5) se by (simp add: on_disk_def SFS_SUPER_BLOCK_def SFS_FREEMAP_START_def with_lock_def)
  let ?b = "superblock_of (sect s 0)"
  have sb: "sb_magic ?b = SFS_MAGIC" "?b\<lparr>sb_volname := (sb_volname ?b)[31 := 0]\<rparr> = sfs_sb s" using d(1) by (simp_all add: on_disk_def Let_def)
  have "SFS_FREEMAPBITS (nblks s) + 7 < 2 ^ 32" using fo(6) unfolding freemapbits [OF fo(6)] by simp
  then obtain fm where fm: "bitmap_create True True (SFS_FREEMAPBITS (nblks s)) = Some (Some fm)" "bitmap_ok fm" "bm_nbits fm = SFS_FREEMAPBITS (nblks s)" by (rule bitmap_create_spec)
  show ?case unfolding create
  proof (simp only: Let_def prod.case simp_thms if_False wp_bind, rule wp_mono [OF readblock_ok [OF hw(1) l0 hw(2,3)]], goal_cases)
    case (1 s1 r)
    then have q: "quiet ?t1 s1" and r: "r = Inr (sect s 0)" using se by (simp_all add: with_lock_def SFS_SUPER_BLOCK_def)
    have e1: "memok s1 = memok t" "ticks s1 = Suc (Suc (ticks t))" "sect s1 = sect s" "lh_blocks (disk s1) = lh_blocks (disk s)" "biglock s1 = Suc (biglock t)" "sfs_vnodes s1 = []"
      "\<not> sfs_superdirty s1" "\<not> sfs_freemapdirty s1" "no_faults s1"
      using se hwt(2) by (simp_all add: quiet_simps [OF q] no_faults_def with_lock_def)
    let ?s2 = "s1\<lparr>sfs_sb := sfs_sb s, ticks := Suc (Suc (Suc (Suc (ticks t)))), sfs_freemap := fm\<rparr>"
    have hw2: "hw_ok ?s2" using quiet_hw [OF q hw(1)] by (simp add: hw_ok_def bufs_ok_def)
    have p: "wp (sfs_freemapio UIO_READ ?s2) (\<lambda>s' r. r = Inr () \<and> fs_inv I s' \<and> on_disk s' \<and> (\<forall>i. file_at s' i = file_at s i) \<and> sfs_vnodes s' = [] \<and> biglock s' = biglock ?s2)"
      by (rule mount_volume_wp [OF inv c n d hw2]) (use e1 fm in \<open>simp_all add: no_faults_def\<close>)
    show ?case unfolding r
      by (simp add: sb Let_def request_memory_def e1 m fm) (rule wp_mono [OF p], use e1(5) in auto)
  qed
qed

text \<open>
  Writing back, losing the memory and mounting again: nothing of the volume is lost, when no file without a name
  was in use.
\<close>

lemma sync_reboot:
  assumes inv: "fs_inv I s" and d: "on_disk s" and n: "\<forall>i\<in>I. 0 < f_links (file_at s i)"
  obtains s1 where "sfs_sync s = Some (s1, Inr ())"
    "\<forall>t. rebooted s1 t \<longrightarrow> (\<exists>s'. sfs_domount SFS_BLOCKSIZE t = Some (s', Inr ()) \<and> fs_inv I s' \<and> on_disk s' \<and> sfs_vnodes s' = [] \<and> (\<forall>i\<in>I. file_at s' i = file_at s i))"
proof (rule wpE [OF sfs_sync_wp [OF inv d]])
  fix s1 r
  assume s1: "sfs_sync s = Some (s1, r)" and p: "r = Inr () \<and> synced I s s1"
  then have y: "fs_inv I s1" "on_disk s1" "\<not> sfs_freemapdirty s1" "\<forall>v\<in>set (sfs_vnodes s1). \<not> sv_dirty (svs s1 v)" "\<forall>i\<in>I. file_at s1 i = file_at s i" by (auto simp: synced_def)
  have n1: "\<forall>i\<in>I. 0 < f_links (file_at s1 i)" using y(5) n by metis
  have "\<exists>s'. sfs_domount SFS_BLOCKSIZE t = Some (s', Inr ()) \<and> fs_inv I s' \<and> on_disk s' \<and> sfs_vnodes s' = [] \<and> (\<forall>i\<in>I. file_at s' i = file_at s i)" if "rebooted s1 t" for t
  proof (rule wpE [OF remount_wp [OF y(1,4) n1 y(2,3) that]], goal_cases)
    case (1 s2 r2)
    then have "\<forall>i\<in>I. file_at s2 i = file_at s i" using y(5) by metis
    then show ?case using 1 by blast
  qed
  then show thesis using that s1 p by blast
qed

end
