(* ===== verification/Sfs_Client.thy ===== *)
theory Sfs_Client
  imports Sfs_Mount
begin

text \<open>
  The volume as its clients use it: the calls, what a client may ask, what it may be told, and histories of calls.
\<close>

section \<open>Calls and answers\<close>

datatype fscall =
    Lookup nat "byte list" | Creat nat "byte list" bool | Link nat "byte list" nat | Remove nat "byte list" | Rename nat "byte list" "byte list"
  | Lookparent nat "byte list" nat | Getroot | Incref nat | Decref nat | Read nat uio | Write nat uio | Truncate nat nat
  | Stat nat | Gettype nat | Eachopen nat nat | Namefile nat | Fsync nat | Sync

datatype reply =
    Vnode "errno + nat" | Done "errno + unit" | Parent "errno + nat \<times> byte list" | Kind "errno + file_kind" | Stats "errno + stat" | Moved uio "errno + unit"

definition answer :: "('r \<Rightarrow> reply) \<Rightarrow> (sfs \<times> 'r) option \<Rightarrow> (sfs \<times> reply) option" where
  "answer f m = do { (s, r) \<leftarrow> m; Some (s, f r) }"

definition answer_io :: "((uio \<times> sfs) \<times> (errno + unit)) option \<Rightarrow> (sfs \<times> reply) option" where
  "answer_io m = do { ((u, s), r) \<leftarrow> m; Some (s, Moved u r) }"

fun sfs_call :: "fscall \<Rightarrow> sfs \<Rightarrow> (sfs \<times> reply) option" where
  "sfs_call (Lookup v name) s = answer Vnode (VOP_LOOKUP v name s)"
| "sfs_call (Creat v name excl) s = answer Vnode (VOP_CREAT v name excl s)"
| "sfs_call (Link v name f) s = answer Done (VOP_LINK v name f s)"
| "sfs_call (Remove v name) s = answer Done (VOP_REMOVE v name s)"
| "sfs_call (Rename v n1 n2) s = answer Done (VOP_RENAME v n1 v n2 s)"
| "sfs_call (Lookparent v path buflen) s = answer Parent (VOP_LOOKPARENT v path buflen s)"
| "sfs_call Getroot s = answer Vnode (sfs_getroot s)"
| "sfs_call (Incref v) s = Some (vnode_incref v s, Done (Inr ()))"
| "sfs_call (Decref v) s = do { s \<leftarrow> vnode_decref v s; Some (s, Done (Inr ())) }"
| "sfs_call (Read v u) s = answer_io (VOP_READ v (u, s))"
| "sfs_call (Write v u) s = answer_io (VOP_WRITE v (u, s))"
| "sfs_call (Truncate v len) s = answer Done (VOP_TRUNCATE v len s)"
| "sfs_call (Stat v) s = answer Stats (VOP_STAT v s)"
| "sfs_call (Gettype v) s = answer Kind (VOP_GETTYPE v s)"
| "sfs_call (Eachopen v flags) s = answer Done (VOP_EACHOPEN v flags s)"
| "sfs_call (Namefile v) s = answer Done (VOP_NAMEFILE v s)"
| "sfs_call (Fsync v) s = answer Done (VOP_FSYNC v s)"
| "sfs_call Sync s = answer Done (sfs_sync s)"

lemma wp_answer [simp]: "wp (answer f m) Q \<longleftrightarrow> wp m (\<lambda>s r. Q s (f r))"
  by (simp add: answer_def)

lemma wp_answer_io [simp]: "wp (answer_io m) Q \<longleftrightarrow> wp m (\<lambda>(u, s) r. Q s (Moved u r))"
  by (auto simp: answer_io_def wp_def split: option.splits prod.splits)

section \<open>What a client may ask\<close>

text \<open>
  A client holds a reference to every vnode it names; names are C strings; a transfer is to or from the current process; and the two
  operations that panic on a disk error are only used where there is none.
\<close>

definition owns :: "fsview \<Rightarrow> nat \<Rightarrow> bool" where
  "owns V v \<longleftrightarrow> 0 < refs V v"

text \<open>The machine as the client sees it: what it has of the user's memory is what \<open>V\<close> says.\<close>

abbreviation in_user :: "fsview \<Rightarrow> sfs \<Rightarrow> sfs" where
  "in_user V s \<equiv> s\<lparr>mach := (mach s)\<lparr>uspace := user V\<rparr>\<rparr>"

fun legal :: "sfs \<Rightarrow> fsview \<Rightarrow> fscall \<Rightarrow> bool" where
  "legal s V (Lookup v name) \<longleftrightarrow> owns V v"
| "legal s V (Creat v name excl) \<longleftrightarrow> owns V v \<and> 0 \<notin> set name"
| "legal s V (Link v name f) \<longleftrightarrow> owns V v \<and> owns V f \<and> 0 \<notin> set name"
| "legal s V (Remove v name) \<longleftrightarrow> owns V v"
| "legal s V (Rename v n1 n2) \<longleftrightarrow> owns V v \<and> 0 \<notin> set n2 \<and> no_faults s"
| "legal s V (Lookparent v path buflen) \<longleftrightarrow> owns V v"
| "legal s V Getroot \<longleftrightarrow> SFS_ROOTDIR_INO \<in> ran (node V) \<or> no_faults s \<and> (\<forall>n. memok s n)"
| "legal s V (Incref v) \<longleftrightarrow> owns V v"
| "legal s V (Decref v) \<longleftrightarrow> owns V v"
| "legal s V (Read v u) \<longleftrightarrow> owns V v \<and> io_legal UIO_READ u (in_user V s)"
| "legal s V (Write v u) \<longleftrightarrow> owns V v \<and> io_legal UIO_WRITE u (in_user V s)"
| "legal s V (Truncate v len) \<longleftrightarrow> owns V v \<and> len < 2 ^ 32"
| "legal s V (Stat v) \<longleftrightarrow> owns V v"
| "legal s V (Gettype v) \<longleftrightarrow> owns V v"
| "legal s V (Eachopen v flags) \<longleftrightarrow> owns V v"
| "legal s V (Namefile v) \<longleftrightarrow> owns V v"
| "legal s V (Fsync v) \<longleftrightarrow> owns V v"
| "legal s V Sync \<longleftrightarrow> True"

section \<open>What a client may be told\<close>

definition told :: "('r \<Rightarrow> reply) \<Rightarrow> ('r \<Rightarrow> fsview \<Rightarrow> bool) \<Rightarrow> reply \<Rightarrow> fsview \<Rightarrow> bool" where
  "told f R a V' \<longleftrightarrow> (\<exists>r. a = f r \<and> R r V')"

fun allowed :: "fscall \<Rightarrow> fsview \<Rightarrow> reply \<Rightarrow> fsview \<Rightarrow> bool" where
  "allowed (Lookup v name) V = told Vnode (lookup_spec v name V)"
| "allowed (Creat v name excl) V = told Vnode (creat_spec v name excl V)"
| "allowed (Link v name f) V = told Done (link_spec v name f V)"
| "allowed (Remove v name) V = told Done (remove_spec v name V)"
| "allowed (Rename v n1 n2) V = told Done (rename_spec v n1 n2 V)"
| "allowed (Lookparent v path buflen) V = told Parent (lookparent_spec v path buflen V)"
| "allowed Getroot V = told Vnode (getroot_spec V)"
| "allowed (Incref v) V = told Done (\<lambda>r V'. r = Inr () \<and> (\<exists>i. node V v = Some i \<and> V' = hold v i V))"
| "allowed (Decref v) V = told Done (\<lambda>r V'. r = Inr () \<and> V' = release v V)"
| "allowed (Read v u) V = told (\<lambda>(u', r). Moved u' r) (read_spec v u V)"
| "allowed (Write v u) V = told (\<lambda>(u', r). Moved u' r) (write_spec v u V)"
| "allowed (Truncate v len) V = told Done (truncate_spec v len V)"
| "allowed (Stat v) V = told Stats (stat_spec v V)"
| "allowed (Gettype v) V = told Kind (gettype_spec v V)"
| "allowed (Eachopen v flags) V = told Done (eachopen_spec v flags V)"
| "allowed (Namefile v) V = told Done (namefile_spec v V)"
| "allowed (Fsync v) V = told Done (\<lambda>r V'. r = Inr () \<and> V' = V)"
| "allowed Sync V = told Done (\<lambda>r V'. r = Inr () \<and> V' = V)"

lemma op_post_told: "op_post s R s' r \<Longrightarrow> op_post s (told f R) s' (f r)"
  unfolding op_post_def told_def by blast

lemma op_post_told_io: "op_post s R s' (u, r) \<Longrightarrow> op_post s (told (\<lambda>(u, r). Moved u r) R) s' (Moved u r)"
  unfolding op_post_def told_def by force

lemma owns_view [simp]: "owns (view h s) v \<longleftrightarrow> 0 < h v"
  by (simp add: owns_def)

lemma legal_world: "world s s' \<Longrightarrow> legal s' V c = legal s V c"
  by (cases c) (simp_all add: world_def no_faults_def io_legal_def user_uio_def)

lemma synced_same:
  assumes inv: "fs_inv I s" and h: "has_refs h s" and y: "synced I s s'"
  shows "has_refs h s'" "view h s' = view h s"
proof -
  have rc: "rc s' = rc s" and ino: "\<And>v. ino_of s' v = ino_of s v" and us: "uspace (mach s') = uspace (mach s)" and f: "\<forall>i\<in>I. file_at s' i = file_at s i"
    using y by (auto simp: synced_def)
  show "has_refs h s'" using h rc by (simp add: has_refs_def)
  have root: "root_file s' = root_file s" using f treeD(1) [OF fs_invD(2) [OF inv]] by blast
  have hd: "held h s' = held h s" by (simp add: held_def ino)
  have sn: "seen h s' = seen h s" unfolding seen_def root hd ..
  show "view h s' = view h s"
    by (rule view_eq) (use f root us ino sn seen_in [OF inv h] in auto)
qed

lemma synced_view:
  assumes inv: "fs_inv I s" and h: "has_refs h s" and y: "synced I s s'" and d: "on_disk s"
  shows "op_post s (\<lambda>r V'. r = Inr () \<and> V' = view h s) s' (Inr ())"
proof -
  have "fs_inv I s'" "world s s'" using y by (auto simp: synced_def world_def)
  then show ?thesis using synced_same [OF inv h y] unfolding op_post_def by blast
qed

section \<open>One call\<close>

lemma call_step:
  assumes inv: "fs_inv I s" and h: "has_refs h s" and d: "on_disk s" and l: "legal s (view h s) c"
  shows "wp (sfs_call c s) (op_post s (allowed c (view h s)))"
proof (cases c)
  case (Lookup v name)
  then show ?thesis using l VOP_LOOKUP_wp [OF inv h, of v name] by (auto elim!: wp_mono intro: op_post_told)
next
  case (Creat v name excl)
  then show ?thesis using l VOP_CREAT_wp [OF inv h, of v name excl] by (auto elim!: wp_mono intro: op_post_told)
next
  case (Link v name f)
  then show ?thesis using l VOP_LINK_wp [OF inv h, of v f name] by (auto elim!: wp_mono intro: op_post_told)
next
  case (Remove v name)
  then show ?thesis using l VOP_REMOVE_wp [OF inv h, of v name] by (auto elim!: wp_mono intro: op_post_told)
next
  case (Rename v n1 n2)
  then show ?thesis using l VOP_RENAME_wp [OF inv h, of v n2 n1] by (auto elim!: wp_mono intro: op_post_told)
next
  case (Lookparent v path buflen)
  then show ?thesis using l VOP_LOOKPARENT_wp [OF inv h, of v path buflen] by (auto elim!: wp_mono intro: op_post_told)
next
  case Getroot
  have "ran (node (view h s)) = held h s" by (rule ran_node)
  then have "root_ready h s" using l Getroot by (simp add: root_ready_def)
  then show ?thesis using sfs_getroot_wp [OF inv h] Getroot by (auto elim!: wp_mono intro: op_post_told)
next
  case (Incref v)
  then have v: "0 < h v" using l by simp
  note i = incref_view [OF inv h v]
  have "op_post s (told Done (\<lambda>r V'. r = Inr () \<and> (\<exists>i. node (view h s) v = Some i \<and> V' = hold v i (view h s)))) (vnode_incref v s) (Done (Inr ()))"
    by (rule op_postI [OF i(1-3)]) (use i(4) v in \<open>auto simp: told_def\<close>)
  then show ?thesis using Incref by simp
next
  case (Decref v)
  then have v: "0 < h v" using l by simp
  obtain s' I' where s': "vnode_decref v s = Some s'" "fs_inv I' s'" "env s s'" "has_refs (h(v := h v - 1)) s'" "view (h(v := h v - 1)) s' = release v (view h s)"
    using release_view [OF inv h v] by blast
  have "op_post s (told Done (\<lambda>r V'. r = Inr () \<and> V' = release v (view h s))) s' (Done (Inr ()))"
    by (rule op_postI [OF s'(2-4)]) (use s'(5) in \<open>simp add: told_def\<close>)
  then show ?thesis using Decref s'(1) by simp
next
  case (Read v u)
  then show ?thesis using l VOP_READ_wp [OF inv h, of v u] by (auto elim!: wp_mono intro: op_post_told_io)
next
  case (Write v u)
  then show ?thesis using l VOP_WRITE_wp [OF inv h, of v u] by (auto elim!: wp_mono intro: op_post_told_io)
next
  case (Truncate v len)
  then show ?thesis using l VOP_TRUNCATE_wp [OF inv h, of v len] by (auto elim!: wp_mono intro: op_post_told)
next
  case (Stat v)
  then show ?thesis using l VOP_STAT_wp [OF inv h, of v] by (auto elim!: wp_mono intro: op_post_told)
next
  case (Gettype v)
  then show ?thesis using l VOP_GETTYPE_wp [OF inv h, of v] by (auto elim!: wp_mono intro: op_post_told)
next
  case (Eachopen v flags)
  then show ?thesis using l VOP_EACHOPEN_wp [OF inv h, of v flags] by (auto elim!: wp_mono intro: op_post_told)
next
  case (Namefile v)
  then show ?thesis using l VOP_NAMEFILE_wp [OF inv h, of v] by (auto elim!: wp_mono intro: op_post_told)
next
  case (Fsync v)
  then show ?thesis using l VOP_FSYNC_wp [OF inv h, of v] by (auto elim!: wp_mono intro: op_post_told)
next
  case Sync
  then show ?thesis using sfs_sync_wp [OF inv d] by (auto elim!: wp_mono intro: op_post_told synced_view [OF inv h _ d])
qed

section \<open>Histories of calls\<close>

text \<open>
  A client chooses its next call by what it has been told so far, the latest answer first. Since every call runs
  under \<^verbatim>\<open>vfs_biglock\<close> from its start to its end, one such client stands for any number of threads.
\<close>

type_synonym history = "(fscall \<times> reply) list"

fun run_client :: "(history \<Rightarrow> fscall) \<Rightarrow> nat \<Rightarrow> history \<Rightarrow> sfs \<Rightarrow> (sfs \<times> history) option" where
  "run_client p 0 tr s = Some (s, tr)"
| "run_client p (Suc n) tr s = do { (s, r) \<leftarrow> sfs_call (p tr) s; run_client p n ((p tr, r) # tr) s }"

inductive explains :: "fsview \<Rightarrow> history \<Rightarrow> fsview \<Rightarrow> bool" for V where
  start: "explains V [] V"
| call: "explains V tr V1 \<Longrightarrow> allowed c V1 r V2 \<Longrightarrow> explains V ((c, r) # tr) V2"

inductive_simps explains_simps [simp]: "explains V [] V'" "explains V ((c, r) # tr) V'"

definition careful :: "sfs \<Rightarrow> (history \<Rightarrow> fscall) \<Rightarrow> fsview \<Rightarrow> bool" where
  "careful s p V \<longleftrightarrow> (\<forall>tr V'. explains V tr V' \<longrightarrow> legal s V' (p tr))"

text \<open>A volume in use, of which the client holds the references \<open>h\<close>.\<close>

definition in_use :: "(nat \<Rightarrow> nat) \<Rightarrow> sfs \<Rightarrow> bool" where
  "in_use h s \<longleftrightarrow> (\<exists>I. fs_inv I s) \<and> on_disk s \<and> has_refs h s"

lemma call_in_use:
  assumes u: "in_use h s" and l: "legal s (view h s) c"
  obtains s' r h' where "sfs_call c s = Some (s', r)" "in_use h' s'" "world s s'" "allowed c (view h s) r (view h' s')"
proof -
  obtain I where I: "fs_inv I s" "on_disk s" "has_refs h s" using u by (auto simp: in_use_def)
  show thesis
  proof (rule wpE [OF call_step [OF I(1,3,2) l]])
    fix s' r
    assume e: "sfs_call c s = Some (s', r)" and "op_post s (allowed c (view h s)) s' r"
    then obtain I' h' where p: "fs_inv I' s'" "world s s'" "has_refs h' s'" "allowed c (view h s) r (view h' s')" unfolding op_post_def by blast
    moreover have "on_disk s'" using p(2) I(2) by (simp add: world_def)
    ultimately show thesis using that [OF e, of h'] by (auto simp: in_use_def)
  qed
qed

lemma run_client_ok:
  assumes "careful s0 p V0" "world s0 s" "explains V0 tr (view h s)" "in_use h s"
  shows "\<exists>s' tr' h'. run_client p n tr s = Some (s', tr') \<and> length tr' = length tr + n \<and> explains V0 tr' (view h' s') \<and> in_use h' s' \<and> world s0 s'"
  using assms
proof (induction n arbitrary: tr s h)
  case (Suc n)
  have "legal s (view h s) (p tr)" using Suc.prems(1,3) legal_world [OF Suc.prems(2)] by (simp add: careful_def)
  then obtain s1 r h1 where s1: "sfs_call (p tr) s = Some (s1, r)" "in_use h1 s1" "world s s1" "allowed (p tr) (view h s) r (view h1 s1)"
    using call_in_use [OF Suc.prems(4)] by blast
  have "world s0 s1" using Suc.prems(2) s1(3) by (simp add: world_def)
  moreover have "explains V0 ((p tr, r) # tr) (view h1 s1)" using Suc.prems(3) s1(4) by auto
  ultimately show ?case using Suc.IH [OF Suc.prems(1), of s1 "(p tr, r) # tr" h1] s1(1,2) by auto
qed auto

lemma world_refl [simp]: "world s s"
  by (simp add: world_def)

end
