(* ===== verification/Mksfs.thy ===== *)
theory Mksfs
  imports Sfs_Client
begin

unbundle bit_operations_syntax

text \<open>
  \<^verbatim>\<open>userland/sbin/mksfs/mksfs.c\<close>: the program that makes an empty SFS volume. The disk is its number of blocks and
  their contents, with the blocks whose writes fail; the program ends with a message and an exit code (\<open>mksfs_exit\<close>),
  with a failed assertion (\<open>None\<close>) or with the volume written. The kernel mounts what it has written as a volume
  without files.
\<close>

section \<open>The program\<close>

record mkdisk =
  md_blocks :: nat
  md_sectors :: "nat \<Rightarrow> byte list"
  md_bad :: "nat \<Rightarrow> bool"

datatype mksfs_exit = Illegal_name | Name_too_long | Too_large | Write_failed

definition unless_exit :: "(mksfs_exit + 'a) option \<Rightarrow> ('a \<Rightarrow> (mksfs_exit + 'b) option) \<Rightarrow> (mksfs_exit + 'b) option" where
  "unless_exit m k = (case m of None \<Rightarrow> None | Some (Inl e) \<Rightarrow> Some (Inl e) | Some (Inr x) \<Rightarrow> k x)"

definition SFS_VOLNAME_SIZE :: nat where "SFS_VOLNAME_SIZE = 32"
definition MAXFREEMAPBLOCKS :: nat where "MAXFREEMAPBLOCKS = 32"

definition allocblock :: "nat \<Rightarrow> byte list \<Rightarrow> byte list option" where
  "allocblock block freemapbuf =
     do {
       let mapbyte = block div 8;
       let mask = bitmask (block mod 8);
       kassert (mapbyte < length freemapbuf);
       kassert (freemapbuf ! mapbyte AND mask = 0);
       Some (freemapbuf[mapbyte := freemapbuf ! mapbyte OR mask])
     }"

definition initfreemap :: "nat \<Rightarrow> byte list \<Rightarrow> (mksfs_exit + byte list) option" where
  "initfreemap fsblocks freemapbuf =
     (let freemapbits = SFS_FREEMAPBITS fsblocks; freemapblocks = SFS_FREEMAPBLOCKS fsblocks in
      if freemapblocks > MAXFREEMAPBLOCKS then Some (Inl Too_large)
      else do {
        buf \<leftarrow> allocblock SFS_SUPER_BLOCK freemapbuf;
        buf \<leftarrow> allocblock SFS_ROOTDIR_INO buf;
        buf \<leftarrow> fold_opt (\<lambda>i. allocblock (SFS_FREEMAP_START + i)) [0..<freemapblocks] buf;
        buf \<leftarrow> fold_opt allocblock [fsblocks..<freemapbits] buf;
        Some (Inr buf)
      })"

text \<open>\<^verbatim>\<open>diskwrite\<close> seeks to the byte offset, a 32-bit product, and writes one block there.\<close>

definition diskwrite :: "byte list \<Rightarrow> nat \<Rightarrow> mkdisk \<Rightarrow> (mksfs_exit + mkdisk) option" where
  "diskwrite data block d =
     (let b = u32 (block * 512) div 512 in
      if b \<ge> md_blocks d \<or> md_bad d b then Some (Inl Write_failed)
      else Some (Inr (d\<lparr>md_sectors := (md_sectors d)(b := data)\<rparr>)))"

definition writesuper :: "byte list \<Rightarrow> nat \<Rightarrow> mkdisk \<Rightarrow> (mksfs_exit + mkdisk) option" where
  "writesuper volname nblocks d =
     (if length volname \<ge> SFS_VOLNAME_SIZE then Some (Inl Name_too_long)
      else
        let sb = \<lparr>sb_magic = SFS_MAGIC, sb_nblocks = nblocks,
                  sb_volname = volname @ replicate (SFS_VOLNAME_SIZE - length volname) 0, sb_reserved = replicate 472 0\<rparr> in
        diskwrite (superblock_bytes sb) SFS_SUPER_BLOCK d)"

fun write_blocks :: "byte list \<Rightarrow> nat list \<Rightarrow> mkdisk \<Rightarrow> (mksfs_exit + mkdisk) option" where
  "write_blocks freemapbuf [] d = Some (Inr d)"
| "write_blocks freemapbuf (i # is') d =
     unless_exit (diskwrite (take SFS_BLOCKSIZE (drop (i * SFS_BLOCKSIZE) freemapbuf)) (SFS_FREEMAP_START + i) d) (write_blocks freemapbuf is')"

definition writefreemap :: "nat \<Rightarrow> byte list \<Rightarrow> mkdisk \<Rightarrow> (mksfs_exit + mkdisk) option" where
  "writefreemap fsblocks freemapbuf d = write_blocks freemapbuf [0..<SFS_FREEMAPBLOCKS fsblocks] d"

definition rootdir_dinode :: sfs_dinode where
  "rootdir_dinode = \<lparr>sfi_size = 0, sfi_type = SFS_TYPE_DIR, sfi_linkcount = 1, sfi_direct = replicate 15 0, sfi_indirect = 0, sfi_waste = replicate 110 0\<rparr>"

definition writerootdir :: "mkdisk \<Rightarrow> (mksfs_exit + mkdisk) option" where
  "writerootdir d = diskwrite (dinode_bytes rootdir_dinode) SFS_ROOTDIR_INO d"

text \<open>The name of the volume, without a colon at its end; \<open>58\<close> is a colon and \<open>47\<close> a slash.\<close>

definition volume_name :: "byte list \<Rightarrow> mksfs_exit + byte list" where
  "volume_name arg =
     (let s = dropWhile (\<lambda>c. c \<noteq> 58) arg in
      if s \<noteq> [] \<and> length s \<noteq> 1 then Inl Illegal_name
      else
        let volname = takeWhile (\<lambda>c. c \<noteq> 58) arg in
        if 47 \<in> set volname then Inl Illegal_name else Inr volname)"

definition mksfs :: "byte list \<Rightarrow> mkdisk \<Rightarrow> (mksfs_exit + mkdisk) option" where
  "mksfs arg d =
     unless_exit (Some (volume_name arg)) (\<lambda>volname.
     unless_exit (initfreemap (md_blocks d) (replicate (MAXFREEMAPBLOCKS * SFS_BLOCKSIZE) 0)) (\<lambda>freemapbuf.
     unless_exit (writesuper volname (md_blocks d) d) (\<lambda>d.
     unless_exit (writefreemap (md_blocks d) freemapbuf d) (\<lambda>d.
     writerootdir d))))"

section \<open>The freemap\<close>

abbreviation marked :: "byte list \<Rightarrow> nat \<Rightarrow> bool" where
  "marked buf i \<equiv> bit (buf ! (i div 8)) (i mod 8)"

lemma allocblock_eq:
  "allocblock b buf = (if b div 8 < length buf \<and> \<not> marked buf b then Some (buf[b div 8 := buf ! (b div 8) OR bitmask (b mod 8)]) else None)"
  by (simp add: allocblock_def Let_def)

lemma marked_update:
  assumes "b div 8 < length buf"
  shows "marked (buf[b div 8 := buf ! (b div 8) OR bitmask (b mod 8)]) i \<longleftrightarrow> marked buf i \<or> i = b"
proof (cases "i div 8 = b div 8")
  case True
  then have "i mod 8 = b mod 8 \<longleftrightarrow> i = b" by (metis div_mod_decomp)
  then show ?thesis using True assms by simp
next
  case False
  then show ?thesis by auto
qed

lemma allocblocks_marked:
  "fold_opt allocblock bs buf = Some buf' \<Longrightarrow> length buf' = length buf \<and> (\<forall>i. marked buf' i \<longleftrightarrow> marked buf i \<or> i \<in> set bs)"
proof (induction bs arbitrary: buf)
  case (Cons b bs)
  then show ?case by (auto simp: allocblock_eq marked_update split: if_splits)
qed simp

lemma allocblocks_succeed:
  "(\<exists>buf'. fold_opt allocblock bs buf = Some buf') \<longleftrightarrow> distinct bs \<and> (\<forall>b\<in>set bs. b div 8 < length buf \<and> \<not> marked buf b)"
proof (induction bs arbitrary: buf)
  case (Cons b bs)
  show ?case
  proof (cases "b div 8 < length buf \<and> \<not> marked buf b")
    case True
    let ?buf = "buf[b div 8 := buf ! (b div 8) OR bitmask (b mod 8)]"
    have "fold_opt allocblock (b # bs) buf = fold_opt allocblock bs ?buf" using True by (simp add: allocblock_eq [of b buf])
    then show ?thesis using Cons [of ?buf] True by (auto simp: marked_update)
  qed (auto simp: allocblock_eq [of b buf])
qed simp

lemma fold_opt_map: "fold_opt (\<lambda>i. f (g i)) xs s = fold_opt f (map g xs) s"
proof (induction xs arbitrary: s)
  case (Cons x xs)
  then show ?case by (cases "f (g x) s") auto
qed simp

text \<open>The blocks that \<^verbatim>\<open>initfreemap\<close> marks, in its order.\<close>

definition taken_blocks :: "nat \<Rightarrow> nat list" where
  "taken_blocks n = [0, 1] @ map ((+) 2) [0..<SFS_FREEMAPBLOCKS n] @ [n..<SFS_FREEMAPBITS n]"

lemma initfreemap_eq:
  "initfreemap n buf = (if SFS_FREEMAPBLOCKS n > 32 then Some (Inl Too_large) else map_option Inr (fold_opt allocblock (taken_blocks n) buf))"
proof -
  have "fold_opt allocblock (taken_blocks n) buf =
      do { buf \<leftarrow> allocblock 0 buf; buf \<leftarrow> allocblock 1 buf; buf \<leftarrow> fold_opt (\<lambda>i. allocblock (2 + i)) [0..<SFS_FREEMAPBLOCKS n] buf;
           fold_opt allocblock [n..<SFS_FREEMAPBITS n] buf }"
    unfolding taken_blocks_def fold_opt_append fold_opt_map [of allocblock "(+) 2"] by simp
  then show ?thesis
    by (simp add: initfreemap_def Let_def MAXFREEMAPBLOCKS_def SFS_SUPER_BLOCK_def SFS_ROOTDIR_INO_def SFS_FREEMAP_START_def map_conv_bind_option o_def)
qed

section \<open>What is on the disk\<close>

lemma unless_exit_Inr: "unless_exit m k = Some (Inr y) \<longleftrightarrow> (\<exists>x. m = Some (Inr x) \<and> k x = Some (Inr y))"
  by (auto simp: unless_exit_def split: option.splits sum.splits)

lemma small_freemap:
  assumes "n < 2 ^ 31" "SFS_FREEMAPBLOCKS n \<le> 32"
  shows "n \<le> 2 ^ 17"
proof -
  have "(n + 4095) div 4096 * 4096 \<le> n + 4095" by (rule div_times_less_eq_dividend)
  then have "(n + 4095) div 4096 * 4096 < 2 ^ 32" using assms by simp
  then have "SFS_FREEMAPBLOCKS n = (n + 4095) div 4096"
    using assms(1) by (simp add: SFS_FREEMAPBLOCKS_def SFS_FREEMAPBITS_def SFS_BITSPERBLOCK_def SFS_BLOCKSIZE_def)
  then show ?thesis using assms(2) by simp
qed

lemma diskwrite_Inr:
  assumes "diskwrite data b d = Some (Inr d')" "b < 2 ^ 23"
  shows "d' = d\<lparr>md_sectors := (md_sectors d)(b := data)\<rparr>" "b < md_blocks d"
  using assms by (auto simp: diskwrite_def Let_def split: if_splits)

lemma write_blocks_Inr:
  "write_blocks buf js d = Some (Inr d') \<Longrightarrow> \<forall>j\<in>set js. j < 2 ^ 22 \<Longrightarrow>
   d' = d\<lparr>md_sectors := (\<lambda>b. if b - 2 \<in> set js \<and> 2 \<le> b then take 512 (drop ((b - 2) * 512) buf) else md_sectors d b)\<rparr>"
proof (induction js arbitrary: d)
  case (Cons j js)
  obtain d1 where d1: "diskwrite (take 512 (drop (j * 512) buf)) (2 + j) d = Some (Inr d1)" "write_blocks buf js d1 = Some (Inr d')"
    using Cons.prems(1) by (auto simp: unless_exit_Inr SFS_BLOCKSIZE_def SFS_FREEMAP_START_def)
  have e: "d1 = d\<lparr>md_sectors := (md_sectors d)(2 + j := take 512 (drop (j * 512) buf))\<rparr>" using diskwrite_Inr(1) [OF d1(1)] Cons.prems(2) by simp
  have "d' = d\<lparr>md_sectors := (\<lambda>b. if b - 2 \<in> set js \<and> 2 \<le> b then take 512 (drop ((b - 2) * 512) buf) else ((md_sectors d)(2 + j := take 512 (drop (j * 512) buf))) b)\<rparr>"
    using Cons.IH [OF d1(2)] Cons.prems(2) unfolding e by (simp cong: if_cong)
  also have "\<dots> = d\<lparr>md_sectors := (\<lambda>b. if b - 2 \<in> set (j # js) \<and> 2 \<le> b then take 512 (drop ((b - 2) * 512) buf) else md_sectors d b)\<rparr>"
    by (intro arg_cong [where f = "\<lambda>S. d\<lparr>md_sectors := S\<rparr>"] ext) auto
  finally show ?case .
qed auto

text \<open>The superblock that is written, and the volume as the kernel finds it on the disk.\<close>

definition made_super :: "byte list \<Rightarrow> nat \<Rightarrow> sfs_superblock" where
  "made_super volname n = \<lparr>sb_magic = SFS_MAGIC, sb_nblocks = n, sb_volname = volname @ replicate (32 - length volname) 0, sb_reserved = replicate 472 0\<rparr>"

lemma mksfs_Inr:
  assumes m: "mksfs arg d = Some (Inr d')" and n: "md_blocks d < 2 ^ 31"
  obtains volname buf where "volume_name arg = Inr volname" "length volname < 32" "SFS_FREEMAPBLOCKS (md_blocks d) \<le> 32" "md_blocks d \<le> 2 ^ 17" "0 < md_blocks d"
    "fold_opt allocblock (taken_blocks (md_blocks d)) (replicate 16384 0) = Some buf" "md_blocks d' = md_blocks d"
    "md_sectors d' 0 = superblock_bytes (made_super volname (md_blocks d))" "md_sectors d' 1 = dinode_bytes rootdir_dinode"
    "\<forall>j<SFS_FREEMAPBLOCKS (md_blocks d). md_sectors d' (2 + j) = take 512 (drop (j * 512) buf)"
proof -
  obtain volname buf d1 d2 where v: "volume_name arg = Inr volname" and b: "initfreemap (md_blocks d) (replicate 16384 0) = Some (Inr buf)"
    and s: "writesuper volname (md_blocks d) d = Some (Inr d1)" and f: "writefreemap (md_blocks d1) buf d1 = Some (Inr d2)" and r: "writerootdir d2 = Some (Inr d')"
    using m by (auto simp: mksfs_def unless_exit_Inr MAXFREEMAPBLOCKS_def SFS_BLOCKSIZE_def)
  have fb: "SFS_FREEMAPBLOCKS (md_blocks d) \<le> 32" and buf: "fold_opt allocblock (taken_blocks (md_blocks d)) (replicate 16384 0) = Some buf"
    using b by (auto simp: initfreemap_eq split: if_splits)
  have l: "length volname < 32" and s': "diskwrite (superblock_bytes (made_super volname (md_blocks d))) 0 d = Some (Inr d1)"
    using s by (auto simp: writesuper_def made_super_def Let_def SFS_VOLNAME_SIZE_def SFS_SUPER_BLOCK_def split: if_splits)
  note d1 = diskwrite_Inr [OF s', simplified]
  have "\<forall>j\<in>set [0..<SFS_FREEMAPBLOCKS (md_blocks d)]. j < 2 ^ 22" using fb by auto
  then have d2: "d2 = d1\<lparr>md_sectors := (\<lambda>b. if b - 2 < SFS_FREEMAPBLOCKS (md_blocks d) \<and> 2 \<le> b then take 512 (drop ((b - 2) * 512) buf) else md_sectors d1 b)\<rparr>"
    using write_blocks_Inr [of buf "[0..<SFS_FREEMAPBLOCKS (md_blocks d)]" d1 d2] f d1(1) by (simp add: writefreemap_def)
  have d3: "d' = d2\<lparr>md_sectors := (md_sectors d2)(1 := dinode_bytes rootdir_dinode)\<rparr>"
    using diskwrite_Inr(1) [of "dinode_bytes rootdir_dinode" 1 d2 d'] r by (simp add: writerootdir_def SFS_ROOTDIR_INO_def)
  show thesis by (rule that [OF v l fb small_freemap [OF n fb] d1(2) buf]) (simp_all add: d3 d2 d1(1))
qed

text \<open>The program succeeds on every disk of 3 to \<open>2 ^ 17\<close> blocks that can be written.\<close>

lemma diskwrite_good: "b < md_blocks d \<Longrightarrow> b < 2 ^ 23 \<Longrightarrow> \<forall>b. \<not> md_bad d b \<Longrightarrow> diskwrite data b d = Some (Inr (d\<lparr>md_sectors := (md_sectors d)(b := data)\<rparr>))"
  by (simp add: diskwrite_def Let_def)

lemma write_blocks_good:
  "\<forall>j\<in>set js. 2 + j < md_blocks d \<and> j < 2 ^ 22 \<Longrightarrow> \<forall>b. \<not> md_bad d b \<Longrightarrow>
   \<exists>d'. write_blocks buf js d = Some (Inr d') \<and> md_blocks d' = md_blocks d \<and> md_bad d' = md_bad d"
proof (induction js arbitrary: d)
  case (Cons j js)
  let ?data = "take SFS_BLOCKSIZE (drop (j * SFS_BLOCKSIZE) buf)"
  have "diskwrite ?data (SFS_FREEMAP_START + j) d = Some (Inr (d\<lparr>md_sectors := (md_sectors d)(SFS_FREEMAP_START + j := ?data)\<rparr>))"
    by (rule diskwrite_good) (use Cons.prems in \<open>auto simp: SFS_FREEMAP_START_def\<close>)
  then show ?case using Cons.IH [of "d\<lparr>md_sectors := (md_sectors d)(SFS_FREEMAP_START + j := ?data)\<rparr>"] Cons.prems by (simp add: unless_exit_def)
qed simp

lemma mksfs_succeeds:
  assumes v: "volume_name arg = Inr volname" "length volname < 32" and n: "3 \<le> md_blocks d" "md_blocks d \<le> 2 ^ 17" and g: "\<forall>b. \<not> md_bad d b"
  shows "\<exists>d'. mksfs arg d = Some (Inr d')"
proof -
  let ?n = "md_blocks d"
  have f: "SFS_FREEMAPBITS ?n = (?n + 4095) div 4096 * 4096" "SFS_FREEMAPBLOCKS ?n = (?n + 4095) div 4096" using freemapbits [of ?n] n by simp_all
  have n': "?n \<le> 131072" using n(2) by simp
  have q: "(?n + 4095) div 4096 < 33" using n' by (simp add: div_less_iff_less_mult)
  have m: "(?n + 4095) div 4096 * 4096 \<le> ?n + 4095" by (rule div_times_less_eq_dividend)
  have fb: "SFS_FREEMAPBLOCKS ?n \<le> 32" "SFS_FREEMAPBITS ?n \<le> 131072" using q unfolding f by linarith+
  have room: "2 + SFS_FREEMAPBLOCKS ?n \<le> ?n"
    using m n(1) unfolding f by (cases "(?n + 4095) div 4096 \<le> 1") linarith+
  have "distinct (taken_blocks ?n)" using room by (auto simp: taken_blocks_def distinct_map inj_on_def)
  moreover have "\<forall>b\<in>set (taken_blocks ?n). b div 8 < 16384" using fb room n' by (auto simp: taken_blocks_def)
  ultimately obtain buf where "fold_opt allocblock (taken_blocks ?n) (replicate 16384 0) = Some buf"
    using allocblocks_succeed [of "taken_blocks ?n" "replicate 16384 0"] by auto
  then have b: "initfreemap ?n (replicate (MAXFREEMAPBLOCKS * SFS_BLOCKSIZE) 0) = Some (Inr buf)"
    using fb(1) by (simp add: initfreemap_eq MAXFREEMAPBLOCKS_def SFS_BLOCKSIZE_def)
  obtain d1 where d1: "writesuper volname ?n d = Some (Inr d1)" "md_blocks d1 = ?n" "md_bad d1 = md_bad d"
    using diskwrite_good [of 0 d, OF _ _ g] n(1) v(2) by (simp add: writesuper_def Let_def SFS_VOLNAME_SIZE_def SFS_SUPER_BLOCK_def)
  have "\<forall>j\<in>set [0..<SFS_FREEMAPBLOCKS ?n]. 2 + j < md_blocks d1 \<and> j < 2 ^ 22" using fb room d1(2) by auto
  then obtain d2 where d2: "writefreemap (md_blocks d1) buf d1 = Some (Inr d2)" "md_blocks d2 = ?n" "md_bad d2 = md_bad d"
    using write_blocks_good [of "[0..<SFS_FREEMAPBLOCKS ?n]" d1 buf] d1 g by (auto simp: writefreemap_def)
  have "\<exists>d'. writerootdir d2 = Some (Inr d')"
    using diskwrite_good [of 1 d2] d2 n(1) g by (simp add: writerootdir_def SFS_ROOTDIR_INO_def)
  then show ?thesis using v(1) b d1 d2 by (simp add: mksfs_def unless_exit_def)
qed

section \<open>The new volume\<close>

text \<open>What the kernel has in memory when it has mounted the new volume on the machine \<open>t\<close>.\<close>

definition made_volume :: "byte list \<Rightarrow> nat \<Rightarrow> byte list \<Rightarrow> sfs \<Rightarrow> sfs" where
  "made_volume volname n buf t =
     t\<lparr>sfs_sb := made_super volname n, sfs_superdirty := False, sfs_vnodes := [], sfs_freemapdirty := False,
       sfs_freemap := \<lparr>bm_nbits = SFS_FREEMAPBITS n, bm_v = take (SFS_FREEMAPBLOCKS n * 512) buf\<rparr>\<rparr>"

lemma rootdir_ok: "dinode_ok rootdir_dinode"
  by (simp add: dinode_ok_def rootdir_dinode_def SFS_TYPE_DIR_def)

lemma made_room:
  assumes buf: "fold_opt allocblock (taken_blocks n) (replicate 16384 0) = Some buf" and n: "n \<le> 2 ^ 17" "0 < n"
  shows "2 + SFS_FREEMAPBLOCKS n \<le> n" "length buf = 16384" "i < 131072 \<Longrightarrow> marked buf i \<longleftrightarrow> i \<in> set (taken_blocks n)"
proof -
  have d: "distinct (taken_blocks n)" using allocblocks_succeed buf by blast
  have f: "SFS_FREEMAPBITS n = (n + 4095) div 4096 * 4096" "SFS_FREEMAPBLOCKS n = (n + 4095) div 4096" using freemapbits [of n] n by simp_all
  show "2 + SFS_FREEMAPBLOCKS n \<le> n"
  proof (rule ccontr)
    assume "\<not> 2 + SFS_FREEMAPBLOCKS n \<le> n"
    then have l: "n < 2 + SFS_FREEMAPBLOCKS n" by simp
    moreover have "1 \<le> (n + 4095) div 4096" using n(2) by simp
    ultimately have "n < SFS_FREEMAPBITS n" unfolding f by linarith
    then have "n \<in> set [n..<SFS_FREEMAPBITS n]" by simp
    moreover have "n \<in> set ([0, 1] @ map ((+) 2) [0..<SFS_FREEMAPBLOCKS n])"
    proof (cases "n < 2")
      case False
      then have "n = 2 + (n - 2)" "n - 2 \<in> set [0..<SFS_FREEMAPBLOCKS n]" using l by auto
      then show ?thesis by (metis Un_iff image_eqI list.set_map set_append)
    qed auto
    ultimately show False using d unfolding taken_blocks_def append_assoc [symmetric] distinct_append by blast
  qed
  note m = allocblocks_marked [OF buf]
  then show "length buf = 16384" by simp
  show "marked buf i \<longleftrightarrow> i \<in> set (taken_blocks n)" if "i < 131072" using m that by simp
qed

lemma made_freemap:
  assumes buf: "fold_opt allocblock (taken_blocks n) (replicate 16384 0) = Some buf" and n: "n \<le> 2 ^ 17" "0 < n"
  defines "fm \<equiv> \<lparr>bm_nbits = SFS_FREEMAPBITS n, bm_v = take (SFS_FREEMAPBLOCKS n * 512) buf\<rparr>"
  shows "bitmap_ok fm" "bitmap_used fm = set (taken_blocks n)"
proof -
  note r = made_room [OF buf n]
  have f: "SFS_FREEMAPBITS n = SFS_FREEMAPBLOCKS n * 4096" "SFS_FREEMAPBLOCKS n \<le> 32" "n \<le> SFS_FREEMAPBITS n" using freemapbits [of n] n by simp_all
  have l: "length (bm_v fm) = SFS_FREEMAPBLOCKS n * 512" using r(2) f(2) by (simp add: fm_def)
  show "bitmap_ok fm" using f(1,2) l unfolding bitmap_ok_def by (simp add: fm_def)
  have b: "bitset fm i \<longleftrightarrow> i \<in> set (taken_blocks n)" if "i < SFS_FREEMAPBITS n" for i using r(3) [of i] that f(1,2) by (simp add: fm_def)
  have "\<forall>i\<in>set (taken_blocks n). i < SFS_FREEMAPBITS n" using r(1) f(3) n by (auto simp: taken_blocks_def)
  then show "bitmap_used fm = set (taken_blocks n)" using b unfolding bitmap_used_def by (auto simp: fm_def)
qed

lemma made_inv:
  fixes volname
  assumes buf: "fold_opt allocblock (taken_blocks n) (replicate 16384 0) = Some buf" and n: "n \<le> 2 ^ 17" "0 < n"
    and t: "hw_ok t" "lh_blocks (disk t) = n" "sect t 1 = dinode_bytes rootdir_dinode"
  defines "s \<equiv> made_volume volname n buf t"
  shows "fs_inv {1} s" "dents (root_file s) = {}" "0 < f_links (root_file s)"
proof -
  note r = made_room [OF buf n] and fm = made_freemap [OF buf n]
  have nb: "nblks s = n" "sfs_vnodes s = []" "sect s = sect t" "lh_blocks (disk s) = n" by (simp_all add: s_def made_volume_def made_super_def t)
  have c: "cur s i = dinode_of (sect t i)" for i using cur_unloaded [of i s] nb by (simp add: loaded_def)
  have c1: "cur s 1 = rootdir_dinode" unfolding c t(3) by (rule dinode_roundtrip [OF rootdir_ok])
  have "hw_ok s" using t(1) by (simp add: s_def made_volume_def hw_ok_def bufs_ok_def)
  moreover have "freemap_ok s" using fm n freemapbits [of n] unfolding freemap_ok_def nb
    by (auto simp: s_def made_volume_def taken_blocks_def)
  moreover have "vtab_ok s" "loaded s = {}" using nb by (simp_all add: vtab_ok_def loaded_def)
  ultimately have base: "vol_base {1} s" using rootdir_ok c1 by (simp add: vol_base_def)
  have p: "places {1} s l = (if l = (1, Self) then 1 else 0)" for l
  proof (cases l)
    case (Pair i p)
    then show ?thesis by (cases p) (auto simp: occ_def c1 [unfolded One_nat_def] rootdir_dinode_def)
  qed
  have u: "b \<in> bitmap_used (sfs_freemap s) \<longleftrightarrow> b \<in> {0, 1} \<union> {2..<2 + SFS_FREEMAPBLOCKS n}" if "b < n" for b
  proof -
    have "(+) 2 ` {0..<SFS_FREEMAPBLOCKS n} = {2..<2 + SFS_FREEMAPBLOCKS n}" using image_add_atLeastLessThan [of 2 0 "SFS_FREEMAPBLOCKS n"] by (simp add: add.commute numeral_2_eq_2)
    then show ?thesis using that unfolding s_def made_volume_def by (simp add: fm(2)) (auto simp: taken_blocks_def)
  qed
  have "owned (places {1} s) {} s"
    unfolding own_def p unfolding nb meta_def SFS_FREEMAP_START_def using r(1) u by (auto split: if_splits)
  then have v: "vol_inv {1} {} s" using base by (simp add: vol_inv_def)
  have f: "f_type (file_at s 1) = SFS_TYPE_DIR" "f_links (file_at s 1) = 1" "f_size (file_at s 1) = 0"
    by (simp_all add: file_of_def c1 [unfolded One_nat_def] rootdir_dinode_def)
  then show d: "dents (root_file s) = {}" "0 < f_links (root_file s)" by (simp_all add: dents_def nslots_def SFS_ROOTDIR_INO_def)
  have "dir_ok (root_file s)" using f by (simp add: dir_ok_def nslots_def SFS_ROOTDIR_INO_def)
  then have "tree {1} (file_at s) (loaded s)" using d by (simp add: tree_def SFS_ROOTDIR_INO_def)
  then show "fs_inv {1} s" using v by (simp add: fs_inv_def)
qed

text \<open>A machine that has just started with such a disk mounts it as a volume without files.\<close>

definition started :: "(nat \<Rightarrow> byte list) \<Rightarrow> nat \<Rightarrow> sfs \<Rightarrow> bool" where
  "started S n t \<longleftrightarrow> hw_ok t \<and> no_faults t \<and> sect t = S \<and> lh_blocks (disk t) = n \<and> (\<forall>k<4. memok t (ticks t + k))"

lemma rebooted_started: "rebooted s t \<longleftrightarrow> started (sect s) (lh_blocks (disk s)) t"
  by (simp add: rebooted_def started_def)

lemma made_mounts:
  assumes m: "mksfs arg d = Some (Inr d')" and n: "md_blocks d < 2 ^ 31" and t: "started (md_sectors d') (md_blocks d') t"
  obtains s where "sfs_domount SFS_BLOCKSIZE t = Some (s, Inr ())" "fs_inv {1} s" "on_disk s" "sfs_vnodes s = []" "dents (root_file s) = {}" "biglock s = biglock t"
proof (rule mksfs_Inr [OF m n])
  fix volname buf
  assume l: "length volname < 32" and n': "md_blocks d \<le> 2 ^ 17" "0 < md_blocks d" and buf: "fold_opt allocblock (taken_blocks (md_blocks d)) (replicate 16384 0) = Some buf"
    and b: "md_blocks d' = md_blocks d" and sb: "md_sectors d' 0 = superblock_bytes (made_super volname (md_blocks d))" and root: "md_sectors d' 1 = dinode_bytes rootdir_dinode"
    and fm: "\<forall>j<SFS_FREEMAPBLOCKS (md_blocks d). md_sectors d' (2 + j) = take 512 (drop (j * 512) buf)"
  let ?n = "md_blocks d" and ?s = "made_volume volname (md_blocks d) buf t"
  have t': "hw_ok t" "lh_blocks (disk t) = ?n" "sect t 1 = dinode_bytes rootdir_dinode" "sect t = md_sectors d'" using t b root by (simp_all add: started_def)
  note inv = made_inv [OF buf n' t'(1-3), of volname] and r = made_room [OF buf n']
  have "sb_magic (made_super volname ?n) < 2 ^ 32" "sb_nblocks (made_super volname ?n) < 2 ^ 32" "length (sb_volname (made_super volname ?n)) = 32"
    using l n' by (simp_all add: made_super_def SFS_MAGIC_def)
  then have "superblock_of (sect ?s 0) = made_super volname ?n" using superblock_roundtrip sb t'(4) by (simp add: made_volume_def)
  moreover have "(made_super volname ?n)\<lparr>sb_volname := (sb_volname (made_super volname ?n))[31 := 0]\<rparr> = made_super volname ?n"
    using l list_update_id [of "replicate (32 - length volname) (0 :: byte)" "31 - length volname"] by (simp add: made_super_def list_update_append)
  moreover have "take 512 (drop (j * 512) (take (SFS_FREEMAPBLOCKS ?n * 512) buf)) = take 512 (drop (j * 512) buf)" if "j < SFS_FREEMAPBLOCKS ?n" for j
  proof -
    have "Suc j * 512 \<le> SFS_FREEMAPBLOCKS ?n * 512" using that by (intro mult_le_mono1) simp
    then show ?thesis by (simp add: drop_take min_def)
  qed
  ultimately have d: "on_disk ?s" using r(1) fm t'(4) unfolding on_disk_def Let_def
    by (auto simp: made_volume_def made_super_def SFS_FREEMAP_START_def freemap_block_def)
  have c: "sfs_vnodes ?s = []" "\<not> sfs_freemapdirty ?s" "sect ?s = sect t" "disk ?s = disk t" by (simp_all add: made_volume_def)
  have re: "rebooted ?s t" using t t'(2) unfolding rebooted_def started_def c(3,4) by (simp add: made_volume_def)
  have links: "\<forall>i\<in>{1}. 0 < f_links (file_at ?s i)" using inv(3) by (simp add: SFS_ROOTDIR_INO_def)
  show thesis
  proof (rule wpE [OF remount_wp [OF inv(1) _ links d c(2) re]])
    fix s x
    assume "sfs_domount SFS_BLOCKSIZE t = Some (s, x)"
      and "x = Inr () \<and> fs_inv {1} s \<and> on_disk s \<and> (\<forall>i. file_at s i = file_at ?s i) \<and> sfs_vnodes s = [] \<and> biglock s = biglock t"
    then show thesis using that inv(2) by simp
  qed (simp add: c)
qed

end
