(* ===== verification/Sfs_Sound.thy ===== *)
theory Sfs_Sound
  imports Sfs_Client
begin

text \<open>
  Errors are due: on a machine whose disk has no media errors and that has memory for every request, no call of a client is
  answered with \<^verbatim>\<open>EIO\<close> or \<^verbatim>\<open>ENOMEM\<close>, and \<^verbatim>\<open>ENAMETOOLONG\<close> only answers names that are too long. This needs no invariant of
  the volume: it goes through the code call by call.
\<close>

section \<open>Outcomes\<close>

text \<open>\<open>after m Q\<close>: if \<open>m\<close> does not panic, its outcome satisfies \<open>Q\<close>.\<close>

definition after :: "('s \<times> 'r) option \<Rightarrow> ('s \<Rightarrow> 'r \<Rightarrow> bool) \<Rightarrow> bool" where
  "after m Q \<longleftrightarrow> (\<forall>s r. m = Some (s, r) \<longrightarrow> Q s r)"

lemma after_simps [simp]: "after None Q" "after (Some (s, r)) Q \<longleftrightarrow> Q s r"
  by (simp_all add: after_def)

lemma after_onok [simp]: "after (onok m k) Q \<longleftrightarrow> after m (\<lambda>s r. case r of Inl e \<Rightarrow> Q s (Inl e) | Inr x \<Rightarrow> after (k x s) Q)"
  by (auto simp: after_def onok_def split: option.splits prod.splits sum.splits)

lemma after_bind: "after (Option.bind m (\<lambda>(s, r). k s r)) Q \<longleftrightarrow> after m (\<lambda>s r. after (k s r) Q)"
  by (auto simp: after_def bind_eq_Some_conv)

lemma after_kassert [simp]: "after (Option.bind (kassert b) k) Q \<longleftrightarrow> (b \<longrightarrow> after (k ()) Q)"
  by simp

lemma after_step: "(\<And>x. m = Some x \<Longrightarrow> after (k x) Q) \<Longrightarrow> after (Option.bind m k) Q"
  by (auto simp: after_def bind_eq_Some_conv)

lemma after_mono: "after m P \<Longrightarrow> (\<And>s r. P s r \<Longrightarrow> Q s r) \<Longrightarrow> after m Q"
  by (auto simp: after_def)

lemma after_lift_uio [simp]: "after (lift_uio u m) Q \<longleftrightarrow> after m (\<lambda>s. Q (u, s))"
  by (auto simp: after_def lift_uio_def split: option.splits prod.splits)

section \<open>Machines in order\<close>

text \<open>A machine whose disk has no media errors and that has memory for every request.\<close>

definition sound :: "sfs \<Rightarrow> bool" where
  "sound s \<longleftrightarrow> (\<forall>rw n. \<not> media (disk s) rw n) \<and> (\<forall>n. memok s n)"

text \<open>Errors that such a machine may give; a name is too long only when \<open>long\<close> holds.\<close>

fun fair :: "bool \<Rightarrow> errno + 'a \<Rightarrow> bool" where
  "fair long (Inl e) \<longleftrightarrow> e \<noteq> EIO \<and> e \<noteq> ENOMEM \<and> (e = ENAMETOOLONG \<longrightarrow> long)"
| "fair long (Inr x) \<longleftrightarrow> True"

lemma fair_cases: "fair long r \<Longrightarrow> r = Inl e \<Longrightarrow> e \<noteq> EIO \<and> e \<noteq> ENOMEM \<and> (e = ENAMETOOLONG \<longrightarrow> long)"
  by simp

lemma fair_weaken: "fair False r \<Longrightarrow> fair long r"
  by (cases r) simp_all

lemma sound_upd [simp]:
  "sound (s\<lparr>mach := m\<rparr>) = sound s" "sound (s\<lparr>sfs_freemap := fm\<rparr>) = sound s" "sound (s\<lparr>sfs_freemapdirty := b\<rparr>) = sound s" "sound (s\<lparr>svs := f\<rparr>) = sound s"
  "sound (s\<lparr>biglock := n\<rparr>) = sound s" "sound (s\<lparr>ticks := n\<rparr>) = sound s" "sound (s\<lparr>sfs_vnodes := vs\<rparr>) = sound s" "sound (s\<lparr>sfs_superdirty := b\<rparr>) = sound s"
  "sound (set_dinode v g s) = sound s" "sound (change_links h v s) = sound s" "sound (vnode_incref v s) = sound s" "sound (vfs_biglock_acquire s) = sound s"
  by (simp_all add: sound_def set_dinode_def change_links_def vnode_incref_def vfs_biglock_acquire_def)

lemma copy_errors: "copyin p n us = Some (us', Inl e) \<Longrightarrow> e = EFAULT" "copyout bs p n us = Some (us', Inl e) \<Longrightarrow> e = EFAULT"
  by (auto simp: copyin_def copyout_def copycheck_def copyfail_def Let_def split: if_splits sum.splits option.splits prod.splits)

lemma uiomove_block_error:
  assumes "uiomove_block ptr base sz u m = Some (m', Inl e)"
  shows "e = EFAULT"
proof (cases "uio_segflg u = UIO_SYSSPACE \<or> uio_dir u = UIO_READ")
  case True
  then show ?thesis using assms by (auto simp: uiomove_block_def bind_eq_Some_conv copy_errors split: if_splits)
next
  case False
  then obtain us r where c: "copyin (of_nat base) (of_nat sz) (uspace m) = Some (us, r)"
      "(case r of Inl e \<Rightarrow> Some (m\<lparr>uspace := us\<rparr>, Inl e) | Inr bs \<Rightarrow> Some (kwrite ptr bs (m\<lparr>uspace := us\<rparr>), Inr ())) = Some (m', Inl e)"
    using assms by (auto simp: uiomove_block_def bind_eq_Some_conv)
  then show ?thesis using copy_errors(1) by (cases r) auto
qed

lemma uiomove_loop_error: "uiomove_loop ptr n u m = Some (u', m', Inl e) \<Longrightarrow> e = EFAULT"
proof (induction ptr n u m rule: uiomove_loop.induct)
  case (1 ptr n u m)
  show ?case using 1(3) 1(1,2)
    by (subst (asm) uiomove_loop.simps) (auto simp: Let_def uiomove_block_error split: if_splits list.splits option.splits prod.splits sum.splits)
qed

lemma uiomove_error: "uiomove ptr n u m = Some (u', m', Inl e) \<Longrightarrow> e = EFAULT"
  by (auto simp: uiomove_def uiomove_loop_error split: if_splits)

lemma uiomovezeros_error: "uiomovezeros z n u m = Some (u', m', Inl e) \<Longrightarrow> e = EFAULT"
proof -
  have "uiomovezeros_loop z n u m = Some (u', m', Inl e) \<Longrightarrow> e = EFAULT"
  proof (induction z n u m rule: uiomovezeros_loop.induct)
    case (1 z n u m)
    show ?case using 1(2) 1(1)
      by (subst (asm) uiomovezeros_loop.simps) (auto simp: Let_def uiomove_error split: if_splits option.splits prod.splits sum.splits)
  qed
  then show "uiomovezeros z n u m = Some (u', m', Inl e) \<Longrightarrow> e = EFAULT" by (auto simp: uiomovezeros_def split: if_splits)
qed

section \<open>The disk and the blocks\<close>

lemma lhd_operate_sound:
  "sound s \<Longrightarrow> lhd_operate rw b (disk s) m = (lh, m', v) \<Longrightarrow> (\<forall>rw n. \<not> media lh rw n) \<and> v \<noteq> LHD_MEDIA"
  by (auto simp: lhd_operate_def Let_def sound_def split: if_splits uio_rw.splits)

lemma lhd_irq_fair: "lhd_irq v = Some r \<Longrightarrow> v \<noteq> LHD_MEDIA \<Longrightarrow> fair False r"
  by (cases v) (auto simp: lhd_irq_def lhd_code_to_errno_def)

lemma uiomove_fair: "uiomove ptr n u m = Some (u', m', r) \<Longrightarrow> fair False r" "uiomovezeros z n u m = Some (u', m', r) \<Longrightarrow> fair False r"
  by (cases r; auto dest: uiomove_error uiomovezeros_error)+

abbreviation orderly_uio :: "bool \<Rightarrow> uio \<times> sfs \<Rightarrow> errno + 'a \<Rightarrow> bool" where
  "orderly_uio long us r \<equiv> sound (snd us) \<and> fair long r"

lemma lhd_io_loop_sound: "lhd_io_loop bs u s = Some ((u', s'), r) \<Longrightarrow> sound s \<Longrightarrow> sound s' \<and> fair False r"
proof (induction bs arbitrary: u s)
  case (Cons b bs)
  obtain u1 m r1 where a: "(if uio_dir u = UIO_WRITE then uiomove (lh_buf (disk s)) LHD_SECTSIZE u (mach s) else Some (u, mach s, Inr ())) = Some (u1, m, r1)"
    using Cons.prems(1) by (auto simp: bind_eq_Some_conv simp del: if_split_asm)
  obtain lh m1 v where o: "lhd_operate (uio_dir u1) b (disk s) m = (lh, m1, v)" by (metis prod_cases3)
  have l: "sound (s\<lparr>disk := lh, mach := m'\<rparr>)" "v \<noteq> LHD_MEDIA" for m' using lhd_operate_sound [OF Cons.prems(2) o] Cons.prems(2) by (simp_all add: sound_def)
  have f: "fair False r1" using a by (auto dest: uiomove_fair split: if_splits)
  show ?case
  proof (cases r1)
    case (Inl e)
    then show ?thesis using Cons.prems a f by (simp add: Let_def) auto
  next
    case (Inr x)
    then have "(do {
              result \<leftarrow> lhd_irq v;
              (u, m, result) \<leftarrow> (if result = Inr () \<and> uio_dir u1 = UIO_READ then uiomove (lh_buf lh) LHD_SECTSIZE u1 m1 else Some (u1, m1, result));
              case result of Inl e \<Rightarrow> Some ((u, s\<lparr>disk := lh, mach := m\<rparr>), Inl e) | Inr _ \<Rightarrow> lhd_io_loop bs u (s\<lparr>disk := lh, mach := m\<rparr>)
            }) = Some ((u', s'), r)"
      using Cons.prems(1) a o by (simp add: Let_def cong: if_cong)
    then obtain r2 u2 m2 r3 where r: "lhd_irq v = Some r2" "(if r2 = Inr () \<and> uio_dir u1 = UIO_READ then uiomove (lh_buf lh) LHD_SECTSIZE u1 m1 else Some (u1, m1, r2)) = Some (u2, m2, r3)"
      "(case r3 of Inl e \<Rightarrow> Some ((u2, s\<lparr>disk := lh, mach := m2\<rparr>), Inl e) | Inr _ \<Rightarrow> lhd_io_loop bs u2 (s\<lparr>disk := lh, mach := m2\<rparr>)) = Some ((u', s'), r)"
      by (auto simp: bind_eq_Some_conv simp del: if_split_asm)
    have "fair False r3" using r(2) lhd_irq_fair [OF r(1) l(2)] by (auto dest: uiomove_fair split: if_splits)
    then show ?thesis using r(3) l(1) [of m2] Cons.IH [OF _ l(1)] by (cases r3) auto
  qed
qed auto

lemma rwblock_sound:
  assumes s: "sound s"
  shows "after (sfs_rwblock u s) (orderly_uio False)"
proof -
  have io: "lhd_io u s = Some ((u', s'), r) \<Longrightarrow> sound s \<Longrightarrow> sound s' \<and> fair False r" for u u' s s' r
    by (auto simp: lhd_io_def Let_def dest: lhd_io_loop_sound split: if_splits)
  have "rwblock_tries n u s = Some ((u', s'), r) \<Longrightarrow> sound s \<Longrightarrow> sound s' \<and> fair False r" for n u' s' r
    by (subst (asm) rwblock_tries.simps) (fastforce simp: bind_eq_Some_conv dest: io split: if_splits)
  then show ?thesis using s by (auto simp: after_def sfs_rwblock_def split: if_splits)
qed

abbreviation orderly :: "bool \<Rightarrow> sfs \<Rightarrow> errno + 'a \<Rightarrow> bool" where
  "orderly long s r \<equiv> sound s \<and> fair long r"

text \<open>The rules for the calls inside an operation.\<close>

named_theorems in_order

lemma rwblock_order [in_order]: "sound s \<Longrightarrow> (\<And>u' s' r. sound s' \<Longrightarrow> fair False r \<Longrightarrow> Q (u', s') r) \<Longrightarrow> after (sfs_rwblock u s) Q"
  by (rule after_mono [OF rwblock_sound]) auto

lemma readblock_order [in_order]: "sound s \<Longrightarrow> (\<And>s' r. sound s' \<Longrightarrow> fair False r \<Longrightarrow> Q s' r) \<Longrightarrow> after (sfs_readblock b s) Q"
  by (auto simp: sfs_readblock_def after_bind split: sum.splits intro!: in_order)

lemma writeblock_order [in_order]: "sound s \<Longrightarrow> (\<And>s' r. sound s' \<Longrightarrow> fair False r \<Longrightarrow> Q s' r) \<Longrightarrow> after (sfs_writeblock b bs s) Q"
  by (auto simp: sfs_writeblock_def Let_def after_bind intro!: in_order)

lemma clearblock_order [in_order]: "sound s \<Longrightarrow> (\<And>s' r. sound s' \<Longrightarrow> fair False r \<Longrightarrow> Q s' r) \<Longrightarrow> after (sfs_clearblock b s) Q"
  by (auto simp: sfs_clearblock_def intro!: in_order)

lemma bitmap_alloc_fair: "bitmap_alloc fm = Some (fm', r) \<Longrightarrow> fair False r"
  by (auto simp: bitmap_alloc_def Let_def split: option.splits if_splits)

lemma balloc_order [in_order]:
  assumes s: "sound s" and Q: "\<And>s' r. sound s' \<Longrightarrow> fair False r \<Longrightarrow> Q s' r"
  shows "after (sfs_balloc s) Q"
  unfolding sfs_balloc_def
proof (rule after_step, clarify)
  fix fm r
  assume "bitmap_alloc (sfs_freemap s) = Some (fm, r)"
  then have "fair False r" by (rule bitmap_alloc_fair)
  then show "after (do { let s = s\<lparr>sfs_freemap := fm\<rparr>;
       case r of
         Inl e \<Rightarrow> Some (s, Inl e)
       | Inr diskblock \<Rightarrow>
           do {
             let s = s\<lparr>sfs_freemapdirty := True\<rparr>;
             kassert (diskblock < sb_nblocks (sfs_sb s));
             (s, r) \<leftarrow> sfs_clearblock diskblock s;
             case r of
               Inl e \<Rightarrow> do { fm \<leftarrow> bitmap_unmark (sfs_freemap s) diskblock; Some (s\<lparr>sfs_freemap := fm\<rparr>, Inl e) }
             | Inr _ \<Rightarrow> Some (s, Inr diskblock)
           } }) Q"
    using s by (auto simp: Let_def after_bind split: sum.splits intro!: in_order after_step Q)
qed

lemma bfree_sound: "sfs_bfree b s = Some s' \<Longrightarrow> sound s \<Longrightarrow> sound s'"
  by (auto simp: sfs_bfree_def bind_eq_Some_conv)

lemma hand_back_order [in_order]: "sound s \<Longrightarrow> (\<And>s' r. sound s' \<Longrightarrow> fair False r \<Longrightarrow> Q s' r) \<Longrightarrow> after (hand_back b s) Q"
  unfolding hand_back_def by (rule after_step) simp

lemma get_idbuf_order [in_order]: "sound s \<Longrightarrow> (\<And>s' r. sound s' \<Longrightarrow> fair False r \<Longrightarrow> Q s' r) \<Longrightarrow> after (get_idbuf sv s) Q"
  by (auto simp: get_idbuf_def Let_def split: sum.splits intro!: in_order)

lemma bmap_order [in_order]: "sound s \<Longrightarrow> (\<And>s' r. sound s' \<Longrightarrow> fair False r \<Longrightarrow> Q s' r) \<Longrightarrow> after (sfs_bmap sv b doalloc s) Q"
  by (auto simp: sfs_bmap_def Let_def split: sum.splits intro!: in_order)

lemma fold_opt_sound:
  assumes "fold_opt f xs a = Some b" "P a" "\<And>x a b. f x a = Some b \<Longrightarrow> P a \<Longrightarrow> P b"
  shows "P b"
  using assms(1,2)
proof (induction xs arbitrary: a)
  case (Cons x xs)
  then show ?case using assms(3) by (auto simp: bind_eq_Some_conv)
qed simp

lemma trunc_direct_sound: "trunc_direct sv n i s = Some s' \<Longrightarrow> sound s \<Longrightarrow> sound s'"
  by (auto simp: trunc_direct_def Let_def bind_eq_Some_conv dest: bfree_sound split: if_splits)

lemma trunc_indirect_sound: "trunc_indirect n j x = Some y \<Longrightarrow> sound (fst x) \<Longrightarrow> sound (fst y)"
  by (auto simp: trunc_indirect_def bind_eq_Some_conv dest: bfree_sound split: if_splits prod.splits)

lemma locked_order:
  assumes "after (body (vfs_biglock_acquire s)) (\<lambda>s' r. sound s' \<and> fair long r)" "\<And>s' r. sound s' \<Longrightarrow> fair long r \<Longrightarrow> Q s' r"
  shows "after (locked body s) Q"
  using assms by (auto simp: after_def locked_def bind_eq_Some_conv vfs_biglock_release_def split: if_splits)

lemma bfree_order [in_order]: "sound s \<Longrightarrow> (\<And>s'. sound s' \<Longrightarrow> after (k s') Q) \<Longrightarrow> after (Option.bind (sfs_bfree b s) k) Q"
  by (rule after_step) (auto dest: bfree_sound)

lemma trunc_direct_order [in_order]:
  "sound s \<Longrightarrow> (\<And>s'. sound s' \<Longrightarrow> after (k s') Q) \<Longrightarrow> after (Option.bind (fold_opt (trunc_direct sv n) is' s) k) Q"
  by (rule after_step) (use fold_opt_sound [where P = sound] trunc_direct_sound in blast)

lemma trunc_indirect_order [in_order]:
  assumes "sound s" "\<And>s' ws b. sound s' \<Longrightarrow> after (k s' ws b) Q"
  shows "after (Option.bind (fold_opt (trunc_indirect n) js (s, ws, b)) (\<lambda>(s, ws, b). k s ws b)) Q"
proof (rule after_step, clarify)
  fix s' ws' b'
  assume "fold_opt (trunc_indirect n) js (s, ws, b) = Some (s', ws', b')"
  then show "after (k s' ws' b') Q"
    using assms fold_opt_sound [of "trunc_indirect n" js "(s, ws, b)" "(s', ws', b')" "\<lambda>x. sound (fst x)"] trunc_indirect_sound by fastforce
qed

lemma itrunc_body_order: "sound s \<Longrightarrow> after (sfs_itrunc_body sv len s) (orderly False)"
  unfolding sfs_itrunc_body_def Let_def by (intro in_order) (auto split: sum.splits intro!: in_order)

lemma itrunc_order [in_order]: "sound s \<Longrightarrow> (\<And>s' r. sound s' \<Longrightarrow> fair False r \<Longrightarrow> Q s' r) \<Longrightarrow> after (sfs_itrunc sv len s) Q"
  unfolding sfs_itrunc_def by (rule locked_order) (auto intro!: itrunc_body_order)

section \<open>Files and directories\<close>

lemma uiomove_s_order [in_order]:
  "sound s \<Longrightarrow> (\<And>u' s' r. sound s' \<Longrightarrow> fair False r \<Longrightarrow> Q (u', s') r) \<Longrightarrow> after (uiomove_s ptr n u s) Q"
  unfolding uiomove_s_def by (rule after_step) (auto dest: uiomove_fair)

lemma partialio_order [in_order]:
  "sound s \<Longrightarrow> (\<And>u' s' r. sound s' \<Longrightarrow> fair False r \<Longrightarrow> Q (u', s') r) \<Longrightarrow> after (sfs_partialio sv u skip len s) Q"
  by (auto simp: sfs_partialio_def Let_def split: sum.splits intro!: in_order)

lemma zeros_order [in_order]:
  "sound s \<Longrightarrow> (\<And>u' s' r. sound s' \<Longrightarrow> fair False r \<Longrightarrow> Q (u', s') r) \<Longrightarrow>
   after (do { (u, m, r) \<leftarrow> uiomovezeros z n u (mach s); Some ((u, s\<lparr>mach := m\<rparr>), r) }) Q"
  by (rule after_step) (auto dest: uiomove_fair)

lemma blockio_order [in_order]:
  "sound s \<Longrightarrow> (\<And>u' s' r. sound s' \<Longrightarrow> fair False r \<Longrightarrow> Q (u', s') r) \<Longrightarrow> after (sfs_blockio sv u s) Q"
  by (auto simp: sfs_blockio_def Let_def after_bind [of "sfs_rwblock _ _"] split: sum.splits intro!: in_order)

lemma blockio_loop_order [in_order]:
  "sound s \<Longrightarrow> (\<And>u' s' r. sound s' \<Longrightarrow> fair False r \<Longrightarrow> Q (u', s') r) \<Longrightarrow> after (blockio_loop n sv u s) Q"
proof (induction n arbitrary: u s)
  case (Suc n)
  then show ?case by (auto split: sum.splits intro!: in_order)
qed simp

lemma io_parts_order [in_order]:
  "sound s \<Longrightarrow> (\<And>u' s' r. sound s' \<Longrightarrow> fair False r \<Longrightarrow> Q (u', s') r) \<Longrightarrow> after (sfs_io_parts sv u s) Q"
  by (auto simp: sfs_io_parts_def Let_def split: sum.splits intro!: in_order)

lemma io_order [in_order]:
  "sound s \<Longrightarrow> (\<And>u' s' r. sound s' \<Longrightarrow> fair False r \<Longrightarrow> Q (u', s') r) \<Longrightarrow> after (sfs_io sv u s) Q"
  by (auto simp: sfs_io_def sfs_io_out_def Let_def after_bind [of "sfs_io_parts _ _ _"] intro!: in_order)

lemma metaio_read_order [in_order]:
  "sound s \<Longrightarrow> (\<And>s' r. sound s' \<Longrightarrow> fair False r \<Longrightarrow> Q s' r) \<Longrightarrow> after (sfs_metaio_read sv pos len s) Q"
  by (auto simp: sfs_metaio_read_def Let_def split: sum.splits intro!: in_order)

lemma metaio_write_order [in_order]:
  "sound s \<Longrightarrow> (\<And>s' r. sound s' \<Longrightarrow> fair False r \<Longrightarrow> Q s' r) \<Longrightarrow> after (sfs_metaio_write sv pos data s) Q"
  by (auto simp: sfs_metaio_write_def Let_def split: sum.splits intro!: in_order)

lemma readdir_order [in_order]: "sound s \<Longrightarrow> (\<And>s' r. sound s' \<Longrightarrow> fair False r \<Longrightarrow> Q s' r) \<Longrightarrow> after (sfs_readdir sv k s) Q"
  by (auto simp: sfs_readdir_def split: sum.splits intro!: in_order)

lemma writedir_order [in_order]: "sound s \<Longrightarrow> (\<And>s' r. sound s' \<Longrightarrow> fair False r \<Longrightarrow> Q s' r) \<Longrightarrow> after (sfs_writedir sv k sd s) Q"
  by (auto simp: sfs_writedir_def intro!: in_order)

lemma dir_unlink_order [in_order]: "sound s \<Longrightarrow> (\<And>s' r. sound s' \<Longrightarrow> fair False r \<Longrightarrow> Q s' r) \<Longrightarrow> after (sfs_dir_unlink sv k s) Q"
  by (auto simp: sfs_dir_unlink_def intro!: in_order)

lemma findname_loop_order:
  "sound s \<Longrightarrow> (\<And>s' r. sound s' \<Longrightarrow> fair False r \<Longrightarrow> Q s' r) \<Longrightarrow> after (findname_loop sv name ks fd e s) Q"
proof (induction ks arbitrary: fd e s)
  case (Cons k ks)
  then show ?case by (auto split: sum.splits intro!: in_order)
qed simp

lemma findname_order [in_order]: "sound s \<Longrightarrow> (\<And>s' r. sound s' \<Longrightarrow> fair False r \<Longrightarrow> Q s' r) \<Longrightarrow> after (sfs_dir_findname sv name s) Q"
  unfolding sfs_dir_findname_def by (intro after_step findname_loop_order)

lemma dir_link_order [in_order]:
  "sound s \<Longrightarrow> (\<And>s' r. sound s' \<Longrightarrow> fair (59 < length name) r \<Longrightarrow> Q s' r) \<Longrightarrow> after (sfs_dir_link sv name ino s) Q"
  by (auto simp: sfs_dir_link_def SFS_NAMELEN_def Let_def split: sum.splits intro!: in_order after_step)

section \<open>Vnodes\<close>

lemma sync_inode_order [in_order]: "sound s \<Longrightarrow> (\<And>s' r. sound s' \<Longrightarrow> fair False r \<Longrightarrow> Q s' r) \<Longrightarrow> after (sfs_sync_inode v s) Q"
  by (auto simp: sfs_sync_inode_def split: sum.splits intro!: in_order)

lemma cleanup_sound: "vnode_cleanup v s = Some s' \<Longrightarrow> sound s \<Longrightarrow> sound s'"
  by (auto simp: vnode_cleanup_def split: if_splits)

lemma cleanup_order [in_order]: "sound s \<Longrightarrow> (\<And>s'. sound s' \<Longrightarrow> after (k s') Q) \<Longrightarrow> after (Option.bind (vnode_cleanup v s) k) Q"
  by (rule after_step) (auto dest: cleanup_sound)

lemma reclaim_order [in_order]:
  assumes "sound s" "\<And>s' r. sound s' \<Longrightarrow> fair False r \<Longrightarrow> Q s' r"
  shows "after (sfs_reclaim v s) Q"
  unfolding sfs_reclaim_def
  by (rule locked_order [OF _ assms(2)]) (use assms(1) in \<open>auto simp: Let_def split: sum.splits intro!: in_order after_step [of "if _ then _ else _"] dest: bfree_sound\<close>)

lemma decref_sound:
  assumes "vnode_decref v s = Some s'" "sound s"
  shows "sound s'"
proof (cases "vn_refcount (svs s v) > 1")
  case False
  then obtain r where "sfs_reclaim v s = Some (s', r)" using assms(1) by (auto simp: vnode_decref_def bind_eq_Some_conv split: if_splits)
  then show ?thesis using reclaim_order [OF assms(2), of "\<lambda>s r. sound s" v] by (simp add: after_def)
qed (use assms in \<open>auto simp: vnode_decref_def split: if_splits\<close>)

lemma decref_order [in_order]: "sound s \<Longrightarrow> (\<And>s'. sound s' \<Longrightarrow> after (k s') Q) \<Longrightarrow> after (Option.bind (vnode_decref v s) k) Q"
  by (rule after_step) (auto dest: decref_sound)

lemma sound_memory: "sound s \<Longrightarrow> memok s n"
  by (simp add: sound_def)

lemma loadvnode_order [in_order]: "sound s \<Longrightarrow> (\<And>s' r. sound s' \<Longrightarrow> fair False r \<Longrightarrow> Q s' r) \<Longrightarrow> after (sfs_loadvnode ino t s) Q"
  unfolding sfs_loadvnode_def
  by (rule after_step) (auto simp: Let_def request_memory_def sound_memory split: option.splits sum.splits intro!: in_order after_step [of "sfs_bused _ _"] after_step [of "vnode_ops_of _"])

lemma makeobj_order [in_order]: "sound s \<Longrightarrow> (\<And>s' r. sound s' \<Longrightarrow> fair False r \<Longrightarrow> Q s' r) \<Longrightarrow> after (sfs_makeobj t s) Q"
  by (auto simp: sfs_makeobj_def after_bind [of "sfs_loadvnode _ _ _"] split: sum.splits intro!: in_order)

lemma getroot_order [in_order]:
  assumes "sound s" "\<And>s' r. sound s' \<Longrightarrow> fair False r \<Longrightarrow> Q s' r"
  shows "after (sfs_getroot s) Q"
  unfolding sfs_getroot_def
  by (rule locked_order [OF _ assms(2)]) (use assms(1) in \<open>auto simp: after_bind [of "sfs_loadvnode _ _ _"] split: sum.splits intro!: in_order\<close>)

lemma lookonce_order [in_order]: "sound s \<Longrightarrow> (\<And>s' r. sound s' \<Longrightarrow> fair False r \<Longrightarrow> Q s' r) \<Longrightarrow> after (sfs_lookonce v name s) Q"
  by (auto simp: sfs_lookonce_def split: sum.splits option.splits intro!: in_order)

section \<open>Calls\<close>

lemma creat_order: "sound s \<Longrightarrow> after (sfs_creat v name excl s) (orderly (59 < length name))"
  unfolding sfs_creat_def
  by (rule locked_order [where long = "59 < length name"]) (auto simp: after_bind [of "sfs_dir_link _ _ _ _"] fair_weaken split: sum.splits option.splits intro!: in_order)

lemma link_order: "sound s \<Longrightarrow> after (sfs_link v name f s) (orderly (59 < length name))"
  unfolding sfs_link_def
  by (rule locked_order [where long = "59 < length name"]) (auto split: sum.splits intro!: in_order)

lemma remove_order: "sound s \<Longrightarrow> after (sfs_remove v name s) (orderly False)"
  unfolding sfs_remove_def
  by (rule locked_order [where long = False]) (auto simp: after_bind [of "sfs_dir_unlink _ _ _"] split: sum.splits intro!: in_order)

lemma rename_recover_order [in_order]:
  "sound s \<Longrightarrow> fair long (Inl e :: errno + unit) \<Longrightarrow> (\<And>s' r. sound s' \<Longrightarrow> fair long r \<Longrightarrow> Q s' r) \<Longrightarrow> after (rename_recover v g k e s) Q"
  by (auto simp: rename_recover_def after_bind [of "sfs_dir_unlink _ _ _"] Let_def split: sum.splits intro!: in_order)

lemma rename_order: "sound s \<Longrightarrow> after (sfs_rename v n1 w n2 s) (orderly (59 < length n2))"
  unfolding sfs_rename_def
  by (rule locked_order [where long = "59 < length n2"])
    (auto simp: after_bind [of "sfs_dir_unlink _ _ _"] after_bind [of "sfs_dir_link _ _ _ _"] fair_weaken split: sum.splits intro!: in_order)

lemma lookup_order: "sound s \<Longrightarrow> after (sfs_lookup v name s) (orderly False)"
  unfolding sfs_lookup_def
  by (rule locked_order [where long = False]) (auto split: sum.splits intro!: in_order)

lemma lookparent_order: "sound s \<Longrightarrow> after (sfs_lookparent v path n s) (orderly (n < Suc (length path)))"
  unfolding sfs_lookparent_def
  by (rule locked_order [where long = "n < Suc (length path)"]) auto

lemma locked_uio_order:
  assumes "sound s" "\<And>u s. sound s \<Longrightarrow> after (body u s) (orderly_uio False)"
  shows "after (locked_uio body u s) (orderly_uio False)"
  using assms(1) assms(2) [of "vfs_biglock_acquire s" u]
  by (auto simp: after_def locked_uio_def bind_eq_Some_conv vfs_biglock_release_def split: if_splits)

lemma read_order: "sound s \<Longrightarrow> after (sfs_read v u s) (orderly_uio False)"
  by (auto simp: sfs_read_def intro!: locked_uio_order in_order)

lemma write_order: "sound s \<Longrightarrow> after (sfs_write v u s) (orderly_uio False)"
  by (auto simp: sfs_write_def intro!: locked_uio_order in_order)

lemma fsync_order: "sound s \<Longrightarrow> after (sfs_fsync v s) (orderly False)"
  unfolding sfs_fsync_def by (rule locked_order [where long = False]) (auto intro!: in_order)

lemma gettype_order [in_order]: "sound s \<Longrightarrow> (\<And>s' r. sound s' \<Longrightarrow> fair False r \<Longrightarrow> Q s' r) \<Longrightarrow> after (sfs_gettype v s) Q"
  unfolding sfs_gettype_def by (rule locked_order [where long = False]) auto

lemma stat_order: "sound s \<Longrightarrow> after (sfs_stat v s) (orderly False)"
  by (auto simp: sfs_stat_def split: sum.splits intro!: after_step [of "vnode_check _ _"] in_order)

lemma vop_order:
  assumes "sound (vol s)" "after (fo s) Q" "after (dir s) Q"
  shows "after (vop v vol fo dir s) Q"
  unfolding vop_def by (rule after_step) (use assms in \<open>auto split: vnode_ops.splits\<close>)

lemma freemapio_order [in_order]: "sound s \<Longrightarrow> (\<And>s' r. sound s' \<Longrightarrow> fair False r \<Longrightarrow> Q s' r) \<Longrightarrow> after (sfs_freemapio rw s) Q"
proof -
  assume "sound s" and Q: "\<And>s' r. sound s' \<Longrightarrow> fair False r \<Longrightarrow> Q s' r"
  have "sound t \<Longrightarrow> after (freemap_read js t) Q" for js t
    by (induction js arbitrary: t) (auto simp: Let_def split: sum.splits intro!: in_order Q)
  moreover have "sound t \<Longrightarrow> after (freemap_write js t) Q" for js t
    by (induction js arbitrary: t) (auto split: sum.splits intro!: in_order Q)
  ultimately show "after (sfs_freemapio rw s) Q" using \<open>sound s\<close> by (simp add: sfs_freemapio_def Let_def split: uio_rw.splits)
qed

lemma VOP_FSYNC_order: "sound s \<Longrightarrow> after (VOP_FSYNC v s) (orderly False)"
  unfolding VOP_FSYNC_def by (rule vop_order) (simp_all add: fsync_order)

lemma fsync_all_order [in_order]:
  assumes "sound s" "\<And>s'. sound s' \<Longrightarrow> after (k s') Q"
  shows "after (Option.bind (fold_opt (\<lambda>v s. do { (s, _) \<leftarrow> VOP_FSYNC v s; Some s }) vs s) k) Q"
proof (rule after_step)
  fix s'
  assume f: "fold_opt (\<lambda>v s. do { (s, _) \<leftarrow> VOP_FSYNC v s; Some s }) vs s = Some s'"
  have "sound s'" by (rule fold_opt_sound [OF f, of sound, OF assms(1)]) (use VOP_FSYNC_order in \<open>auto simp: after_def bind_eq_Some_conv\<close>)
  then show "after (k s') Q" by (rule assms(2))
qed

lemma sync_order: "sound s \<Longrightarrow> after (sfs_sync s) (orderly False)"
  unfolding sfs_sync_def by (rule locked_order [where long = False]) (auto split: sum.splits intro!: in_order)

text \<open>The error that an answer reports, and the calls whose names are too long.\<close>

fun reply_error :: "reply \<Rightarrow> errno option" where
  "reply_error (Vnode (Inl e)) = Some e"
| "reply_error (Done (Inl e)) = Some e"
| "reply_error (Parent (Inl e)) = Some e"
| "reply_error (Kind (Inl e)) = Some e"
| "reply_error (Stats (Inl e)) = Some e"
| "reply_error (Moved u (Inl e)) = Some e"
| "reply_error _ = None"

fun too_long :: "fscall \<Rightarrow> bool" where
  "too_long (Creat v name excl) \<longleftrightarrow> 59 < length name"
| "too_long (Link v name f) \<longleftrightarrow> 59 < length name"
| "too_long (Rename v n1 n2) \<longleftrightarrow> 59 < length n2"
| "too_long (Lookparent v path buflen) \<longleftrightarrow> buflen < length path + 1"
| "too_long _ \<longleftrightarrow> False"

definition due :: "fscall \<Rightarrow> reply \<Rightarrow> bool" where
  "due c r \<longleftrightarrow> (\<forall>e. reply_error r = Some e \<longrightarrow> e \<noteq> EIO \<and> e \<noteq> ENOMEM \<and> (e = ENAMETOOLONG \<longrightarrow> too_long c))"

lemma due_fair [intro]:
  "fair (too_long c) x \<Longrightarrow> due c (Vnode x)" "fair (too_long c) y \<Longrightarrow> due c (Done y)" "fair (too_long c) z \<Longrightarrow> due c (Parent z)"
  "fair (too_long c) k \<Longrightarrow> due c (Kind k)" "fair (too_long c) st \<Longrightarrow> due c (Stats st)" "fair (too_long c) y \<Longrightarrow> due c (Moved u y)"
  unfolding due_def by (cases x; cases y; cases z; cases k; cases st; auto)+

lemma after_answer [simp]: "after (answer f m) Q \<longleftrightarrow> after m (\<lambda>s r. Q s (f r))"
  by (auto simp: answer_def after_def bind_eq_Some_conv)

lemma after_answer_io [simp]: "after (answer_io m) Q \<longleftrightarrow> after m (\<lambda>(u, s) r. Q s (Moved u r))"
  by (auto simp: answer_io_def after_def bind_eq_Some_conv)

lemma VOP_order:
  assumes s: "sound s"
  shows "after (VOP_LOOKUP v name s) (orderly False)" "after (VOP_CREAT v name excl s) (orderly (59 < length name))" "after (VOP_LINK v name f s) (orderly (59 < length name))"
    "after (VOP_REMOVE v name s) (orderly False)" "after (VOP_RENAME v n1 w n2 s) (orderly (59 < length n2))" "after (VOP_LOOKPARENT v path n s) (orderly (n < length path + 1))"
    "after (VOP_READ v (u, s)) (orderly_uio False)" "after (VOP_WRITE v (u, s)) (orderly_uio False)" "after (VOP_TRUNCATE v len s) (orderly False)" "after (VOP_STAT v s) (orderly False)"
    "after (VOP_GETTYPE v s) (orderly False)" "after (VOP_EACHOPEN v flags s) (orderly False)" "after (VOP_NAMEFILE v s) (orderly False)"
  unfolding VOP_LOOKUP_def VOP_CREAT_def VOP_LINK_def VOP_REMOVE_def VOP_RENAME_def VOP_LOOKPARENT_def VOP_READ_def VOP_WRITE_def VOP_TRUNCATE_def VOP_STAT_def
    VOP_GETTYPE_def VOP_EACHOPEN_def VOP_NAMEFILE_def fails_def sfs_truncate_def sfs_namefile_def
  using s by (auto simp: sfs_eachopendir_def intro!: vop_order lookup_order creat_order link_order remove_order rename_order lookparent_order read_order write_order stat_order in_order)

lemma sfs_call_order:
  assumes s: "sound s"
  shows "after (sfs_call c s) (\<lambda>s' r. sound s' \<and> due c r)"
proof -
  note o = VOP_order [OF s] VOP_FSYNC_order [OF s] sync_order [OF s]
  have "after (sfs_getroot s) (orderly False)" using s by (auto intro!: in_order)
  moreover have "due (Incref v) (Done (Inr ()))" "due (Decref v) (Done (Inr ()))" for v by (simp_all add: due_def)
  moreover have "vnode_decref v s = Some s' \<Longrightarrow> sound s'" for v s' using decref_sound s by blast
  ultimately show ?thesis
    using s by (cases c) (auto intro!: o [THEN after_mono] after_step elim!: after_mono)
qed

text \<open>Mounting keeps the machine in order.\<close>

lemma domount_sound:
  assumes s: "sound s"
  shows "after (sfs_domount bs s) (\<lambda>s' r. sound s')"
proof -
  have f: "after (mount_fails e t) (\<lambda>s' r. sound s')" if "sound t" for e t using that by (simp add: mount_fails_def sfs_fs_destroy_def)
  have l: "after (locked body t) (\<lambda>s' r. sound s')" if "after (body (vfs_biglock_acquire t)) (\<lambda>s' r. sound s')" for body :: "sfs \<Rightarrow> (sfs \<times> (errno + unit)) option" and t
    using that by (auto simp: after_def locked_def bind_eq_Some_conv vfs_biglock_release_def split: if_splits)
  have m: "memok s n" for n using s by (simp add: sound_def)
  have u: "sound (t\<lparr>sfs_sb := b\<rparr>) = sound t" "sound (t\<lparr>sfs_device := c\<rparr>) = sound t" for t b c by (simp_all add: sound_def)
  show ?thesis
    unfolding sfs_domount_def
    by (rule l) (use s in \<open>auto simp: Let_def sfs_fs_create_def request_memory_def after_bind [of "sfs_readblock _ _"] after_bind [of "sfs_freemapio _ _"] u
      split: sum.splits option.splits intro!: in_order f after_step [of "bitmap_create _ _ _"]\<close>)
qed

section \<open>Histories\<close>

lemma run_client_due:
  "run_client p n tr s = Some (s', tr') \<Longrightarrow> sound s \<Longrightarrow> \<forall>(c, r)\<in>set tr. due c r \<Longrightarrow> \<forall>(c, r)\<in>set tr'. due c r"
proof (induction n arbitrary: tr s)
  case (Suc n)
  obtain s1 r where r: "sfs_call (p tr) s = Some (s1, r)" "run_client p n ((p tr, r) # tr) s1 = Some (s', tr')"
    using Suc.prems(1) by (auto simp: bind_eq_Some_conv)
  have "sound s1 \<and> due (p tr) r" using sfs_call_order [OF Suc.prems(2), of "p tr"] r(1) by (simp add: after_def)
  then show ?case using Suc.IH [OF r(2)] Suc.prems(3) by simp
qed simp

end
