(* ===== verification/Sfs_Service.thy ===== *)
theory Sfs_Service
  imports Mksfs Sfs_Sound
begin

text \<open>
  SFS as a whole: every history of calls is one of an abstract file system, new volumes can be mounted, and what has been
  written back survives the loss of the memory.
\<close>

section \<open>Histories of calls\<close>


section \<open>Volumes\<close>

text \<open>No file that has lost its last name is still open.\<close>

definition no_orphans :: "sfs \<Rightarrow> bool" where
  "no_orphans s \<longleftrightarrow> (\<forall>v\<in>set (sfs_vnodes s). sfi_linkcount (sv_i (svs s v)) \<noteq> 0)"

lemma no_orphans_links:
  assumes inv: "fs_inv I s" and o: "no_orphans s"
  shows "\<forall>i\<in>I. 0 < f_links (file_at s i)"
proof
  fix i
  assume i: "i \<in> I"
  show "0 < f_links (file_at s i)"
  proof (cases "i = SFS_ROOTDIR_INO")
    case True
    then show ?thesis using treeD(3) [OF fs_invD(2) [OF inv]] by simp
  next
    case False
    show ?thesis
    proof (rule ccontr)
      assume z: "\<not> 0 < f_links (file_at s i)"
      then have "i \<in> loaded s" using treeD(8) [OF fs_invD(2) [OF inv] i False] by simp
      then obtain v where v: "v \<in> set (sfs_vnodes s)" "i = ino_of s v" by (auto simp: loaded_def)
      then have "f_links (file_at s i) = sfi_linkcount (sv_i (svs s v))" using vnode_cur [OF fs_invD(1) [OF inv] v(1)] by (simp add: file_of_def)
      then show False using z v(1) o unfolding no_orphans_def by (metis gr0I)
    qed
  qed
qed

lemma unused_view:
  assumes "fs_inv I s" "sfs_vnodes s = []" "on_disk s"
  shows "in_use (\<lambda>_. 0) s"
  using assms by (auto simp: in_use_def has_refs_def)

text \<open>What an unused volume shows of the names and files that another state of it has.\<close>

lemma same_files:
  assumes inv: "fs_inv I s" and h: "has_refs h s" and f: "\<forall>i\<in>I. file_at s' i = file_at s i"
  shows "names (view (\<lambda>_. 0) s') = names (view h s)" "i \<in> snd ` names (view h s) \<Longrightarrow> files (view (\<lambda>_. 0) s') i = files (view h s) i"
proof -
  have r: "root_file s' = root_file s" using f treeD(1) [OF fs_invD(2) [OF inv]] by blast
  then show "names (view (\<lambda>_. 0) s') = names (view h s)" by (simp add: view_def)
  assume i: "i \<in> snd ` names (view h s)"
  then obtain n where n: "(n, i) \<in> dents (root_file s)" by (auto simp: view_def)
  then have "i \<in> seen h s" "i \<in> seen (\<lambda>_. 0) s'" "i \<in> I"
    using named_seen [OF inv n] treeD(4,5) [OF fs_invD(2) [OF inv], of n] r by (force simp: seen_def)+
  then show "files (view (\<lambda>_. 0) s') i = files (view h s) i" using f by (simp add: view_def)
qed

lemma sync_and_reboot:
  assumes u: "in_use h s" and o: "no_orphans s"
  obtains s1 where "sfs_sync s = Some (s1, Inr ())" "in_use h s1" "view h s1 = view h s"
    "\<And>t. started (sect s1) (lh_blocks (disk s1)) t \<Longrightarrow> \<exists>s'. sfs_domount SFS_BLOCKSIZE t = Some (s', Inr ()) \<and> in_use (\<lambda>_. 0) s'
        \<and> names (view (\<lambda>_. 0) s') = names (view h s) \<and> (\<forall>i\<in>snd ` names (view h s). files (view (\<lambda>_. 0) s') i = files (view h s) i)"
proof -
  obtain I where I: "fs_inv I s" "on_disk s" "has_refs h s" using u by (auto simp: in_use_def)
  obtain s1 where s1: "sfs_sync s = Some (s1, Inr ())"
    and re: "\<And>t. rebooted s1 t \<Longrightarrow> \<exists>s'. sfs_domount SFS_BLOCKSIZE t = Some (s', Inr ()) \<and> fs_inv I s' \<and> on_disk s' \<and> sfs_vnodes s' = [] \<and> (\<forall>i\<in>I. file_at s' i = file_at s i)"
    using sync_reboot [OF I(1,2) no_orphans_links [OF I(1) o]] by blast
  have y: "synced I s s1" using sfs_sync_wp [OF I(1,2)] s1 by (simp add: wp_def)
  note v = synced_same [OF I(1,3) y]
  have "in_use h s1" using y v(1) unfolding in_use_def synced_def by blast
  then show thesis
  proof (rule that [OF s1 _ v(2)])
    fix t
    assume "started (sect s1) (lh_blocks (disk s1)) t"
    then obtain s' where s': "sfs_domount SFS_BLOCKSIZE t = Some (s', Inr ())" "fs_inv I s'" "on_disk s'" "sfs_vnodes s' = []" "\<forall>i\<in>I. file_at s' i = file_at s i"
      using re rebooted_started by blast
    then show "\<exists>s'. sfs_domount SFS_BLOCKSIZE t = Some (s', Inr ()) \<and> in_use (\<lambda>_. 0) s'
        \<and> names (view (\<lambda>_. 0) s') = names (view h s) \<and> (\<forall>i\<in>snd ` names (view h s). files (view (\<lambda>_. 0) s') i = files (view h s) i)"
      using unused_view [OF s'(2,4,3)] same_files [OF I(1,3) s'(5)] by blast
  qed
qed

text \<open>
  C40. Volumes come into being and last. On every disk of 3 to \<open>2 ^ 17\<close> blocks that can be written, and for every legal
  name of fewer than 32 bytes, \<^verbatim>\<open>mksfs\<close> succeeds, and a kernel that has just started on that disk mounts it as a volume in use
  that has no files. From a volume in use on which no file without a name is open, \<^verbatim>\<open>sfs_sync\<close> succeeds and
  changes nothing that a client sees; and if the machine then loses all its memory, a kernel that starts on the disk
  mounts a volume with exactly the names the volume had and, under them, the files with the same links, sizes and bytes. Media errors
  are absent while the kernel mounts, and it has memory for its four requests.
\<close>

theorem volume_lasts:
  "(\<forall>arg volname (d :: mkdisk). volume_name arg = Inr volname \<and> length volname < 32 \<and> 3 \<le> md_blocks d \<and> md_blocks d \<le> 2 ^ 17 \<and> (\<forall>b. \<not> md_bad d b) \<longrightarrow>
      (\<exists>d'. mksfs arg d = Some (Inr d') \<and> (\<forall>t. started (md_sectors d') (md_blocks d') t \<longrightarrow>
        (\<exists>s. sfs_domount SFS_BLOCKSIZE t = Some (s, Inr ()) \<and> in_use (\<lambda>_. 0) s \<and> no_orphans s \<and> names (view (\<lambda>_. 0) s) = {}))))
   \<and> (\<forall>h s. in_use h s \<and> no_orphans s \<longrightarrow>
      (\<exists>s1. sfs_sync s = Some (s1, Inr ()) \<and> in_use h s1 \<and> view h s1 = view h s \<and> (\<forall>t. started (sect s1) (lh_blocks (disk s1)) t \<longrightarrow>
        (\<exists>s'. sfs_domount SFS_BLOCKSIZE t = Some (s', Inr ()) \<and> in_use (\<lambda>_. 0) s' \<and> names (view (\<lambda>_. 0) s') = names (view h s)
          \<and> (\<forall>i\<in>snd ` names (view h s). files (view (\<lambda>_. 0) s') i = files (view h s) i)))))"
proof (rule conjI; intro allI impI; elim conjE)
  fix arg volname and d :: mkdisk
  assume a: "volume_name arg = Inr volname" "length volname < 32" "3 \<le> md_blocks d" "md_blocks d \<le> 2 ^ 17" "\<forall>b. \<not> md_bad d b"
  then obtain d' where d': "mksfs arg d = Some (Inr d')" using mksfs_succeeds by blast
  have n: "md_blocks d < 2 ^ 31" using a(4) by simp
  have "\<exists>s. sfs_domount SFS_BLOCKSIZE t = Some (s, Inr ()) \<and> in_use (\<lambda>_. 0) s \<and> no_orphans s \<and> names (view (\<lambda>_. 0) s) = {}"
    if "started (md_sectors d') (md_blocks d') t" for t
  proof (rule made_mounts [OF d' n that])
    fix s
    assume "sfs_domount SFS_BLOCKSIZE t = Some (s, Inr ())" "fs_inv {1} s" "on_disk s" "sfs_vnodes s = []" "dents (root_file s) = {}"
    then show ?thesis using unused_view [of "{1}" s] by (simp add: no_orphans_def view_def)
  qed
  then show "\<exists>d'. mksfs arg d = Some (Inr d') \<and> (\<forall>t. started (md_sectors d') (md_blocks d') t \<longrightarrow>
        (\<exists>s. sfs_domount SFS_BLOCKSIZE t = Some (s, Inr ()) \<and> in_use (\<lambda>_. 0) s \<and> no_orphans s \<and> names (view (\<lambda>_. 0) s) = {}))"
    using d' by blast
next
  fix h s
  assume "in_use h s" "no_orphans s"
  from sync_and_reboot [OF this] show "\<exists>s1. sfs_sync s = Some (s1, Inr ()) \<and> in_use h s1 \<and> view h s1 = view h s \<and> (\<forall>t. started (sect s1) (lh_blocks (disk s1)) t \<longrightarrow>
        (\<exists>s'. sfs_domount SFS_BLOCKSIZE t = Some (s', Inr ()) \<and> in_use (\<lambda>_. 0) s' \<and> names (view (\<lambda>_. 0) s') = names (view h s)
          \<and> (\<forall>i\<in>snd ` names (view h s). files (view (\<lambda>_. 0) s') i = files (view h s) i)))"
    by metis
qed

section \<open>A volume and a client\<close>

abbreviation sized :: "mkdisk \<Rightarrow> bool" where
  "sized d \<equiv> \<forall>b. length (md_sectors d b) = 512"

lemma diskwrite_sized: "diskwrite data b d = Some (Inr d') \<Longrightarrow> length data = 512 \<Longrightarrow> sized d \<Longrightarrow> sized d' \<and> md_blocks d' = md_blocks d"
  by (auto simp: diskwrite_def Let_def split: if_splits)

lemma write_blocks_sized:
  "write_blocks buf js d = Some (Inr d') \<Longrightarrow> \<forall>j\<in>set js. (j + 1) * 512 \<le> length buf \<Longrightarrow> sized d \<Longrightarrow> sized d' \<and> md_blocks d' = md_blocks d"
proof (induction js arbitrary: d)
  case (Cons j js)
  obtain d1 where d1: "diskwrite (take 512 (drop (j * 512) buf)) (SFS_FREEMAP_START + j) d = Some (Inr d1)" "write_blocks buf js d1 = Some (Inr d')"
    using Cons.prems(1) by (auto simp: unless_exit_Inr SFS_BLOCKSIZE_def)
  have "length (take 512 (drop (j * 512) buf)) = 512" using Cons.prems(2) by auto
  then have "sized d1" "md_blocks d1 = md_blocks d" using diskwrite_sized [OF d1(1)] Cons.prems(3) by blast+
  then show ?case using Cons.IH [OF d1(2)] Cons.prems(2) by simp
qed simp

lemma mksfs_sized:
  assumes m: "mksfs arg d = Some (Inr d')" and d: "sized d"
  shows "sized d'" "md_blocks d' = md_blocks d"
proof -
  obtain volname buf d1 d2 where b: "initfreemap (md_blocks d) (replicate 16384 0) = Some (Inr buf)"
    and s: "writesuper volname (md_blocks d) d = Some (Inr d1)" and f: "writefreemap (md_blocks d1) buf d1 = Some (Inr d2)" and r: "writerootdir d2 = Some (Inr d')"
    using m by (auto simp: mksfs_def unless_exit_Inr MAXFREEMAPBLOCKS_def SFS_BLOCKSIZE_def)
  have "length buf = 16384" and fb: "SFS_FREEMAPBLOCKS (md_blocks d) \<le> 32"
    using b allocblocks_marked [of "taken_blocks (md_blocks d)" "replicate 16384 0" buf] by (auto simp: initfreemap_eq split: if_splits)
  moreover have "length volname < 32" and w: "diskwrite (superblock_bytes (made_super volname (md_blocks d))) 0 d = Some (Inr d1)"
    using s by (simp_all add: writesuper_def made_super_def Let_def SFS_VOLNAME_SIZE_def SFS_SUPER_BLOCK_def split: if_splits)
  moreover from this have "length (superblock_bytes (made_super volname (md_blocks d))) = 512" by (simp add: superblock_bytes_def made_super_def put32_def)
  moreover from this have d1: "sized d1 \<and> md_blocks d1 = md_blocks d" using diskwrite_sized [OF w _ d] by blast
  ultimately have d2: "sized d2 \<and> md_blocks d2 = md_blocks d"
    using write_blocks_sized [of buf "[0..<SFS_FREEMAPBLOCKS (md_blocks d)]" d1 d2] f by (auto simp: writefreemap_def)
  then show "sized d'" "md_blocks d' = md_blocks d"
    using diskwrite_sized [of "dinode_bytes rootdir_dinode" SFS_ROOTDIR_INO d2 d'] r length_dinode_bytes [OF rootdir_ok] by (auto simp: writerootdir_def)
qed

definition blank_disk :: mkdisk where
  "blank_disk = \<lparr>md_blocks = 16, md_sectors = (\<lambda>_. replicate 512 0), md_bad = (\<lambda>_. False)\<rparr>"

definition machine_with :: "mkdisk \<Rightarrow> sfs" where
  "machine_with d =
     \<lparr>disk = \<lparr>lh_blocks = md_blocks d, sectors = md_sectors d, media = (\<lambda>_ _. False), nops = 0, lh_buf = 0\<rparr>,
      sfs_sb = superblock_of (replicate 512 0), sfs_superdirty = False, sfs_device = False, sfs_vnodes = [],
      sfs_freemap = \<lparr>bm_nbits = 0, bm_v = []\<rparr>, sfs_freemapdirty = False,
      svs = (\<lambda>_. \<lparr>sv_i = rootdir_dinode, sv_ino = 0, sv_dirty = False, vn_refcount = 0, vn_ops = No_ops\<rparr>), biglock = 0,
      mach = \<lparr>kmem = (\<lambda>_. 0), uspace = \<lparr>um = (\<lambda>_. None), uw = (\<lambda>_. False), badfault = False\<rparr>, curas = None\<rparr>,
      memok = (\<lambda>_. True), ticks = 0, kbuf = 512, iobuf = 1024, zeros = 1536\<rparr>"

lemma machine_sound: "sound (machine_with d)"
  by (simp add: sound_def machine_with_def)

lemma machine_started: "sized d \<Longrightarrow> md_blocks d < 2 ^ 32 \<Longrightarrow> started (md_sectors d) (md_blocks d) (machine_with d)"
  by (simp add: started_def machine_with_def hw_ok_def bufs_ok_def no_faults_def apart_def)

text \<open>A client that makes a file in the root directory and looks it up; \<open>97\<close> is the letter a.\<close>

definition root_told :: "fscall \<times> reply \<Rightarrow> nat option" where
  "root_told x = (if fst x = Getroot then (case snd x of Vnode (Inr w) \<Rightarrow> Some w | _ \<Rightarrow> None) else None)"

definition first_client :: "history \<Rightarrow> fscall" where
  "first_client tr =
     (if tr = [] then Getroot
      else case root_told (last tr) of
             None \<Rightarrow> Sync
           | Some w \<Rightarrow> if length tr = 1 then Creat w [97] False else if length tr = 2 \<and> fst (hd tr) = Creat w [97] False then Lookup w [97] else Sync)"

lemma root_toldE: "root_told x = Some w \<Longrightarrow> x = (Getroot, Vnode (Inr w))"
  by (cases x) (auto simp: root_told_def split: if_splits reply.splits sum.splits)

lemma creat_keeps_refs: "creat_spec v name excl V r V' \<Longrightarrow> refs V w \<le> refs V' w"
  by (cases r) (auto simp: creat_spec_def hold_def split: if_splits)

lemma first_careful:
  assumes s: "sound s"
  shows "careful s first_client V"
  unfolding careful_def
proof (intro allI impI)
  fix tr V'
  assume e: "explains V tr V'"
  show "legal s V' (first_client tr)"
  proof (cases "tr = [] \<or> root_told (last tr) = None")
    case True
    then show ?thesis using s by (auto simp: first_client_def sound_def no_faults_def)
  next
    case False
    then obtain w where w': "root_told (last tr) = Some w" "tr \<noteq> []" by auto
    note w = root_toldE [OF w'(1)] w'
    consider "length tr = 1" | y where "tr = [(Creat w [97] False, y), (Getroot, Vnode (Inr w))]" | "first_client tr = Sync"
    proof (cases "length tr = 2 \<and> fst (hd tr) = Creat w [97] False")
      case True
      then obtain x z where x: "tr = [x, z]" "fst x = Creat w [97] False" by (auto simp: numeral_2_eq_2 length_Suc_conv)
      then have "tr = [(Creat w [97] False, snd x), (Getroot, Vnode (Inr w))]" using w(1) by (cases x) simp
      then show thesis by (rule that(2))
    next
      case False
      have f: "first_client tr = (if length tr = 1 then Creat w [97] False else if length tr = 2 \<and> fst (hd tr) = Creat w [97] False then Lookup w [97] else Sync)"
        using w by (simp add: first_client_def)
      then show thesis using that(1,3) False by presburger
    qed
    then show ?thesis
    proof cases
      case 1
      then have "tr = [(Getroot, Vnode (Inr w))]" using w(1) by (cases tr) auto
      then show ?thesis using e by (auto simp: first_client_def root_told_def told_def getroot_spec_def hold_def owns_def)
    next
      case (2 y)
      then have "told Vnode (creat_spec w [97] False (hold w SFS_ROOTDIR_INO V)) y V'" using e by (auto simp: told_def getroot_spec_def)
      then have "refs (hold w SFS_ROOTDIR_INO V) w \<le> refs V' w" using creat_keeps_refs unfolding told_def by blast
      then have "0 < refs V' w" by (simp add: hold_def)
      then show ?thesis using 2 by (simp add: first_client_def root_told_def owns_def)
    qed simp
  qed
qed

lemma first_volume:
  obtains d s where "mksfs [86, 58] blank_disk = Some (Inr d)" "started (md_sectors d) (md_blocks d) (machine_with d)"
    "sfs_domount SFS_BLOCKSIZE (machine_with d) = Some (s, Inr ())" "in_use (\<lambda>_. 0) s" "no_orphans s" "sound s"
proof -
  have v: "volume_name [86, 58] = Inr [86]" by (simp add: volume_name_def Let_def)
  then obtain d where d: "mksfs [86, 58] blank_disk = Some (Inr d)" using mksfs_succeeds [OF v, of blank_disk] by (auto simp: blank_disk_def)
  have z: "sized d" "md_blocks d = 16" using mksfs_sized [OF d] by (simp_all add: blank_disk_def)
  have t: "started (md_sectors d) (md_blocks d) (machine_with d)" by (rule machine_started) (simp_all add: z)
  have n: "md_blocks blank_disk < 2 ^ 31" by (simp add: blank_disk_def)
  show thesis
  proof (rule made_mounts [OF d n t])
    fix s
    assume s: "sfs_domount SFS_BLOCKSIZE (machine_with d) = Some (s, Inr ())" "fs_inv {1} s" "on_disk s" "sfs_vnodes s = []"
    have "sound s" using domount_sound [OF machine_sound, of SFS_BLOCKSIZE d] s(1) by (simp add: after_def)
    then show thesis using that [OF d t s(1)] unused_view [OF s(2,4,3)] s(4) by (simp add: no_orphans_def)
  qed
qed


theorem volume_lasts_witness:
  "\<exists>d s s1. mksfs [86, 58] blank_disk = Some (Inr d) \<and> sfs_domount SFS_BLOCKSIZE (machine_with d) = Some (s, Inr ())
     \<and> in_use (\<lambda>_. 0) s \<and> no_orphans s \<and> names (view (\<lambda>_. 0) s) = {} \<and> sfs_sync s = Some (s1, Inr ()) \<and> view (\<lambda>_. 0) s1 = view (\<lambda>_. 0) s"
proof (rule first_volume)
  fix d s
  assume m: "mksfs [86, 58] blank_disk = Some (Inr d)" and t: "started (md_sectors d) (md_blocks d) (machine_with d)"
    and s: "sfs_domount SFS_BLOCKSIZE (machine_with d) = Some (s, Inr ())"
  have v: "volume_name [86, 58] = Inr [86]" by (simp add: volume_name_def Let_def)
  have "in_use (\<lambda>_. 0) s \<and> no_orphans s \<and> names (view (\<lambda>_. 0) s) = {}"
    using conjunct1 [OF volume_lasts, rule_format, of "[86, 58]" "[86]" blank_disk] v m s t by (auto simp: blank_disk_def)
  then show ?thesis using conjunct2 [OF volume_lasts, rule_format, of "\<lambda>_. 0" s] m s by blast
qed

end
