(* ===== verification/Spec2Isabelle.thy ===== *)
theory Spec2Isabelle
  imports Bitmap Threadlist Pid Filetable Synch Spinlock Thread_Safety Karray Uio Vm Dumbvm Kmalloc_Safety Sfs_Errors Sfs_Service
begin

text \<open>
  A verification development for the OS/161 kernel, \<^verbatim>\<open>src/kern\<close>.

  \<^bold>\<open>The program.\<close> OS/161 is a small Unix-like kernel for a MIPS machine with several processors. At the bottom are
  spinlocks, interrupt levels and the thread system (run queues, wait channels, migration, interprocessor
  interrupts); on wait channels rest semaphores, locks and condition variables. Memory comes from \<^verbatim>\<open>ram.c\<close> before
  and from the coremap of \<^verbatim>\<open>vm.c\<close> (or from \<^verbatim>\<open>dumbvm.c\<close>) after the VM system is up; \<^verbatim>\<open>kmalloc\<close> cuts pages into blocks.
  Processes have an address space, a process id whose exit status a parent can wait for, and a table of
  descriptors that refer to shared open files. System calls copy data in and out of user memory, through \<^verbatim>\<open>uio\<close>
  structures down to the file systems and devices; SFS is the file system on disk.

  \<^bold>\<open>Conventions.\<close> A C function is a HOL function from the state to \<open>None\<close> (a panic: a failed \<^verbatim>\<open>KASSERT\<close>, a call of
  \<^verbatim>\<open>panic\<close>, a null pointer followed or an access outside an array) or to the new state and a result, which is an
  error code or a value (\<open>errno + 'a\<close>). "Does not panic" is thus part of what is proved. The outcomes of requests
  for memory and of hardware operations are arguments or oracles in the state, so that theorems hold for each of
  them. A section of code under a lock is one step; where the code lets a lock go, the function is cut into several
  steps, and the step relations (\<open>inductive\<close>) let the steps of all threads and processors follow each other in any
  order. Unsigned 32-bit numbers are words, or natural numbers with the wrap-around written out (\<open>u32\<close>).

  \<^bold>\<open>The theories.\<close>

  \<^item> \<open>Kernel_Prelude\<close>: error codes, assertions, 32-bit arithmetic, linear searches.
  \<^item> \<open>Bitmap\<close> (\<^verbatim>\<open>lib/bitmap.c\<close>): the bytes of the map and the operations. It refines a finite set of numbers; the locale
    \<open>unit_pool\<close> is the contract of an allocator of numbers.
  \<^item> \<open>Karray\<close> (\<^verbatim>\<open>lib/array.c\<close>): resizeable arrays refine lists; their growth ends exactly up to \<open>2 ^ 31\<close> elements.
  \<^item> \<open>Threadlist\<close> (\<^verbatim>\<open>thread/threadlist.c\<close>): the intrusive doubly linked lists, pointer by pointer, refine sequences. The
    locale \<open>thread_queues\<close> is what their clients rely on.
  \<^item> \<open>Spinlock\<close> (\<^verbatim>\<open>thread/spinlock.c\<close>, \<^verbatim>\<open>thread/spl.c\<close>): mutual exclusion between processors; interrupts are off exactly while
    a raise is pending.
  \<^item> \<open>Synch\<close> (\<^verbatim>\<open>thread/synch.c\<close>): semaphores, locks and condition variables as steps under their spinlocks; the locale \<open>gate\<close>
    is the common part of semaphores and locks. No unit and no wake-up is lost, one thread at a time is in a
    lock, and nothing comes between the release and the sleep of \<^verbatim>\<open>cv_wait\<close>.
  \<^item> \<open>Thread\<close>, \<open>Thread_Safety\<close> (\<^verbatim>\<open>thread/thread.c\<close>, \<^verbatim>\<open>thread/clock.c\<close>): the thread system on any number of processors. Every
    thread is in exactly one place, no assertion fails, an idle processor with work is interrupted, and what
    happens to TLB shootdown requests.
  \<^item> \<open>Pid\<close> (\<^verbatim>\<open>proc/pid.c\<close>): allocation of process ids, exit, waiting. No history makes an assertion fail, statuses reach
    the parent, and no process stays unwaited without a parent that can wait for it.
  \<^item> \<open>Filetable\<close> (\<^verbatim>\<open>syscall/openfile.c\<close>, \<^verbatim>\<open>filetable.c\<close>, \<^verbatim>\<open>file_syscalls.c\<close>): reference counts are exact in every history of
    forks, exits and system calls (the locale \<open>refcounts\<close>), nothing leaks, and the results of each call.
  \<^item> \<open>Copyinout\<close> (\<^verbatim>\<open>vm/copyinout.c\<close>) and \<open>Uio\<close> (\<^verbatim>\<open>lib/uio.c\<close>): user pointers are confined, strings and blocks arrive exactly; the
    locales \<open>gather\<close> and \<open>scatter\<close> cover both kinds of memory.
  \<^item> \<open>Vm\<close> (\<^verbatim>\<open>arch/mips/vm/ram.c\<close>, \<^verbatim>\<open>vm/vm.c\<close>, \<^verbatim>\<open>vm/addrspace.c\<close>) and \<open>Dumbvm\<close> (\<^verbatim>\<open>arch/mips/vm/dumbvm.c\<close>): page allocation, page faults,
    address spaces. Both meet the contract \<open>page_source\<close>.
  \<^item> \<open>Kmalloc\<close>, \<open>Kmalloc_Safety\<close> (\<^verbatim>\<open>vm/kmalloc.c\<close>): the heap over any \<open>page_source\<close>, in every interleaving of its calls. Blocks in use
    are disjoint, aligned and left alone; empty pages go back; the heap's own checks pass.
  \<^item> \<open>Sfs_Block\<close>, \<open>Sfs_File\<close>, \<open>Sfs_Vnops\<close> (\<^verbatim>\<open>dev/lamebus/lhd.c\<close>, \<^verbatim>\<open>fs/sfs\<close>, \<^verbatim>\<open>vfs/vnode.c\<close>): the disk driver and the whole of SFS,
    over the bytes of the disk. \<open>Sfs_Map\<close>, \<open>Sfs_Struct\<close>, \<open>Sfs_Bmap\<close> and \<open>Sfs_Trunc\<close> show that no block is in two places,
    that the freemap marks exactly the blocks in use, and what the block operations do to files; \<open>Sfs_Errors\<close> shows two
    failures.

  \<^bold>\<open>Bounds and fuel.\<close> A walk of a free list in \<open>Kmalloc\<close> has 256 steps of fuel, the number of blocks of the smallest size
    in a page; a longer list is circular. The theorems on the heap assume fewer than 256 calls under way or with
    lost pagerefs, since one root page then always suffices for the assertion in \<^verbatim>\<open>freepageref\<close>. \<^verbatim>\<open>sfs_rwblock\<close>
    tries eleven times, as the code does. Volumes have at most \<open>2 ^ 23\<close> blocks, beyond which \<^verbatim>\<open>sfs_blockio\<close> computes wrong
    sectors. Loops without such a bound are structural recursions or have termination proofs.

  \<^bold>\<open>Not modelled.\<close> The assembly of start-up, traps and context switches, and the trap handler and system call
  dispatcher around them; the remaining devices (console, random, timer, beep, emufs), the bus and the
  autoconfiguration, which are register accesses; the kernel menu and the kernel's tests; \<^verbatim>\<open>printf\<close> and the string
  functions of the C library, of which the models use what they compute; the programs and libraries of
  \<^verbatim>\<open>src/userland\<close>, which run on top of the kernel; build files.
\<close>

end
